(* ===== verification/Prelude.thy ===== *)
theory Prelude
  imports Main "HOL-Library.Word" "HOL-Library.Sublist" "HOL-Library.Multiset"
begin

unbundle bit_operations_syntax

text \<open>
  Shared ground of the development: the machine types of the Go sources, results of
  fallible operations (a value, a returned \<open>error\<close> or a panic), slices with Go's bounds
  checks, the wrap-around of \<open>int32\<close>, big-endian codecs of \<open>encoding/binary\<close> and
  \<open>common/serial\<close>, and byte streams as an \<open>io.Reader\<close> sees them. The generic lemmas on
  these are declared \<open>[simp]\<close> or collected in \<open>go_simps\<close>, so that component proofs reduce
  to them.
\<close>

named_theorems go_simps

named_theorems invariants

section \<open>Machine types\<close>

type_synonym byte = "8 word"
type_synonym bytes = "8 word list"
type_synonym u16 = "16 word"
type_synonym u32 = "32 word"
type_synonym u64 = "64 word"

text \<open>
  \<open>int32\<close> values are integers; every arithmetic result is passed through \<open>i32\<close>, which
  writes out the two's complement wrap-around of the 32-bit operation.
\<close>

definition i32 :: "int \<Rightarrow> int" where
  "i32 x = (x + 2147483648) mod 4294967296 - 2147483648"

definition i32_range :: "int \<Rightarrow> bool" where
  "i32_range x \<longleftrightarrow> -2147483648 \<le> x \<and> x < 2147483648"

lemma i32_id [simp]: "-2147483648 \<le> x \<Longrightarrow> x < 2147483648 \<Longrightarrow> i32 x = x"
  by (simp add: i32_def mod_pos_pos_trivial)

lemma i32_range_i32: "i32_range (i32 x)"
  using pos_mod_bound [of 4294967296 "x + 2147483648"]
    pos_mod_sign [of 4294967296 "x + 2147483648"]
  by (simp add: i32_def i32_range_def)

lemma i32_i32_add [simp]: "i32 (i32 x + y) = i32 (x + y)"
proof -
  have "(x + 2147483648) mod 4294967296 - 2147483648 + y + 2147483648
      = (x + 2147483648) mod 4294967296 + y" by simp
  moreover have "((x + 2147483648) mod 4294967296 + y) mod 4294967296
      = (x + y + 2147483648) mod (4294967296::int)"
    by (simp add: mod_simps) (simp add: algebra_simps)
  ultimately show ?thesis by (simp add: i32_def)
qed

lemma i32_i32_add_right [simp]: "i32 (y + i32 x) = i32 (y + x)"
  using i32_i32_add [of x y] by (simp add: add.commute)

section \<open>Results\<close>

text \<open>
  The errors the modelled code returns. Sentinel values the code compares against are
  constructors of their own; every other \<open>errors.New\<close> is \<open>ErrMsg\<close> with the constant
  part of its message.
\<close>

datatype goerr =
    EOF
  | ErrUnexpectedEOF
  | ErrClosedPipe
  | ErrBufferFull
  | ErrSlowDown
  | ErrReadTimeout
  | ErrNoClue
  | ErrEmptyResponse
  | ErrProtoNeedMoreData
  | ErrShortBuffer
  | ErrMsg string

text \<open>What a call does: return normally, return an error, or panic.\<close>

datatype 'a res = Ok 'a | Err goerr | Panic string

fun rbind :: "'a res \<Rightarrow> ('a \<Rightarrow> 'b res) \<Rightarrow> 'b res" where
  "rbind (Ok x) f = f x"
| "rbind (Err e) f = Err e"
| "rbind (Panic s) f = Panic s"

fun rmap :: "('a \<Rightarrow> 'b) \<Rightarrow> 'a res \<Rightarrow> 'b res" where
  "rmap f (Ok x) = Ok (f x)"
| "rmap f (Err e) = Err e"
| "rmap f (Panic s) = Panic s"

fun is_ok :: "'a res \<Rightarrow> bool" where
  "is_ok (Ok x) = True"
| "is_ok (Err e) = False"
| "is_ok (Panic s) = False"

fun is_panic :: "'a res \<Rightarrow> bool" where
  "is_panic (Panic s) = True"
| "is_panic (Ok x) = False"
| "is_panic (Err e) = False"

lemma rbind_Ok_iff [go_simps]: "rbind r f = Ok y \<longleftrightarrow> (\<exists>x. r = Ok x \<and> f x = Ok y)"
  by (cases r) auto

lemma rbind_Err_iff [go_simps]:
  "rbind r f = Err e \<longleftrightarrow> r = Err e \<or> (\<exists>x. r = Ok x \<and> f x = Err e)"
  by (cases r) auto

lemma rmap_Ok_iff: "rmap f r = Ok y \<longleftrightarrow> (\<exists>x. r = Ok x \<and> y = f x)"
  by (cases r) auto

lemma rbind_assoc: "rbind (rbind r f) g = rbind r (\<lambda>x. rbind (f x) g)"
  by (cases r) auto

section \<open>Lists\<close>

lemma take_drop_append_eq: "i + n \<le> length xs \<Longrightarrow> take n (drop i (xs @ ys)) = take n (drop i xs)"
  by simp

lemma take_min_length: "take (min n (length xs)) xs = take n xs"
  by (simp add: min_def)

text \<open>Overwriting part of a list, as \<open>copy(dst[i:], src)\<close> does once the bounds are settled.\<close>

definition overwrite :: "'a list \<Rightarrow> nat \<Rightarrow> 'a list \<Rightarrow> 'a list" where
  "overwrite xs i ys = take i xs @ ys @ drop (i + length ys) xs"

lemma length_overwrite [simp]:
  "i + length ys \<le> length xs \<Longrightarrow> length (overwrite xs i ys) = length xs"
  by (simp add: overwrite_def)

lemma overwrite_Nil [simp]: "overwrite xs i [] = xs"
  by (simp add: overwrite_def)

lemma take_overwrite [simp]:
  "n \<le> i \<Longrightarrow> i + length ys \<le> length xs \<Longrightarrow> take n (overwrite xs i ys) = take n xs"
  by (simp add: overwrite_def min_absorb1)

lemma take_overwrite_end:
  "i + length ys \<le> length xs \<Longrightarrow> take (i + length ys) (overwrite xs i ys) = take i xs @ ys"
  by (simp add: overwrite_def)

lemma drop_overwrite [simp]:
  "i + length ys \<le> n \<Longrightarrow> i + length ys \<le> length xs \<Longrightarrow> drop n (overwrite xs i ys) = drop n xs"
  by (simp add: overwrite_def)

section \<open>Slices\<close>

text \<open>
  A Go slice is a window of length \<open>slen\<close> at the start of a backing array whose length is
  the slice's capacity. \<open>Nil_slice\<close> is the nil slice, of length and capacity 0. Slicing
  \<open>s[lo:hi]\<close> is bounded by the capacity, indexing \<open>s[i]\<close> by the length.
\<close>

datatype gslice = Nil_slice | Mk_slice (arr_of: bytes) (len_of: nat)

fun sarr :: "gslice \<Rightarrow> bytes" where
  "sarr Nil_slice = []"
| "sarr (Mk_slice a n) = a"

fun slen :: "gslice \<Rightarrow> int" where
  "slen Nil_slice = 0"
| "slen (Mk_slice a n) = int n"

definition scap :: "gslice \<Rightarrow> int" where
  "scap s = int (length (sarr s))"

fun slice_wf :: "gslice \<Rightarrow> bool" where
  "slice_wf Nil_slice = True"
| "slice_wf (Mk_slice a n) = (n \<le> length a)"

fun upd_arr :: "(bytes \<Rightarrow> bytes) \<Rightarrow> gslice \<Rightarrow> gslice" where
  "upd_arr f Nil_slice = Nil_slice"
| "upd_arr f (Mk_slice a n) = Mk_slice (f a) n"

definition slice_range :: "gslice \<Rightarrow> int \<Rightarrow> int \<Rightarrow> bytes res" where
  "slice_range s lo hi =
     (if 0 \<le> lo \<and> lo \<le> hi \<and> hi \<le> scap s
      then Ok (take (nat (hi - lo)) (drop (nat lo) (sarr s)))
      else Panic ''slice bounds out of range'')"

definition slice_get :: "gslice \<Rightarrow> int \<Rightarrow> byte res" where
  "slice_get s i =
     (if 0 \<le> i \<and> i < slen s then Ok (sarr s ! nat i) else Panic ''index out of range'')"

definition slice_set :: "gslice \<Rightarrow> int \<Rightarrow> byte \<Rightarrow> gslice res" where
  "slice_set s i x =
     (if 0 \<le> i \<and> i < slen s then Ok (upd_arr (\<lambda>a. a[nat i := x]) s)
      else Panic ''index out of range'')"

lemma sarr_upd_arr [simp]: "f [] = [] \<Longrightarrow> sarr (upd_arr f s) = f (sarr s)"
  by (cases s) auto

lemma slen_upd_arr [simp]: "slen (upd_arr f s) = slen s"
  by (cases s) auto

lemma slen_nonneg [simp]: "0 \<le> slen s"
  by (cases s) auto

lemma slen_le_scap: "slice_wf s \<Longrightarrow> slen s \<le> scap s"
  by (cases s) (auto simp: scap_def)

lemma slice_wf_upd_arr [simp]:
  "slice_wf s \<Longrightarrow> (\<And>a. length (f a) = length a) \<Longrightarrow> slice_wf (upd_arr f s)"
  by (cases s) auto

section \<open>Big-endian integers (encoding/binary, common/serial)\<close>

definition put_u16 :: "u16 \<Rightarrow> bytes" where
  "put_u16 w = [ucast (drop_bit 8 w), ucast w]"

definition get_u16 :: "byte \<Rightarrow> byte \<Rightarrow> u16" where
  "get_u16 a b = ucast b OR push_bit 8 (ucast a)"

definition put_u32 :: "u32 \<Rightarrow> bytes" where
  "put_u32 w = [ucast (drop_bit 24 w), ucast (drop_bit 16 w), ucast (drop_bit 8 w), ucast w]"

definition get_u32 :: "byte \<Rightarrow> byte \<Rightarrow> byte \<Rightarrow> byte \<Rightarrow> u32" where
  "get_u32 a b c d =
     ucast d OR push_bit 8 (ucast c) OR push_bit 16 (ucast b) OR push_bit 24 (ucast a)"

text \<open>\<open>binary.BigEndian.Uint16\<close> and \<open>Uint32\<close> on a slice: they panic on a short one.\<close>

fun be_u16 :: "bytes \<Rightarrow> u16 res" where
  "be_u16 (a # b # _) = Ok (get_u16 a b)"
| "be_u16 _ = Panic ''index out of range''"

fun be_u32 :: "bytes \<Rightarrow> u32 res" where
  "be_u32 (a # b # c # d # _) = Ok (get_u32 a b c d)"
| "be_u32 _ = Panic ''index out of range''"

lemma get_put_u16 [simp]: "get_u16 (ucast (drop_bit 8 w)) (ucast w) = w"
  unfolding get_u16_def by (rule bit_word_eqI) (auto simp: bit_simps)

lemma get_put_u32 [simp]:
  "get_u32 (ucast (drop_bit 24 w)) (ucast (drop_bit 16 w)) (ucast (drop_bit 8 w)) (ucast w) = w"
proof (rule bit_word_eqI)
  fix n assume "n < LENGTH(32)"
  then consider "n < 8" | "8 \<le> n" "n < 16" | "16 \<le> n" "n < 24" | "24 \<le> n" "n < 32"
    by fastforce
  then show "bit (get_u32 (ucast (drop_bit 24 w)) (ucast (drop_bit 16 w))
      (ucast (drop_bit 8 w)) (ucast w)) n = bit w n"
    by cases (auto simp: get_u32_def bit_simps)
qed

lemma byte_bit_ge: "8 \<le> n \<Longrightarrow> \<not> bit (b :: byte) n"
  by (auto dest: bit_imp_le_length)

lemma put_get_u16 [simp]: "put_u16 (get_u16 a b) = [a, b]"
  unfolding put_u16_def get_u16_def
  by (auto intro!: bit_word_eqI simp: bit_simps byte_bit_ge)

lemma put_get_u32 [simp]: "put_u32 (get_u32 a b c d) = [a, b, c, d]"
  unfolding put_u32_def get_u32_def
  by (auto intro!: bit_word_eqI simp: bit_simps byte_bit_ge)

lemma length_put_u16 [simp]: "length (put_u16 w) = 2"
  by (simp add: put_u16_def)

lemma length_put_u32 [simp]: "length (put_u32 w) = 4"
  by (simp add: put_u32_def)

lemma be_u16_put [simp]: "be_u16 (put_u16 w @ xs) = Ok w"
  by (simp add: put_u16_def)

lemma be_u16_put' [simp]: "be_u16 (put_u16 w) = Ok w"
  by (simp add: put_u16_def)

lemma be_u32_put [simp]: "be_u32 (put_u32 w @ xs) = Ok w"
  by (simp add: put_u32_def)

lemma be_u16_Ok: "2 \<le> length xs \<Longrightarrow> be_u16 xs = Ok (get_u16 (xs ! 0) (xs ! 1))"
  by (cases xs rule: be_u16.cases) auto

lemma be_u32_Ok:
  "4 \<le> length xs \<Longrightarrow> be_u32 xs = Ok (get_u32 (xs ! 0) (xs ! 1) (xs ! 2) (xs ! 3))"
  by (cases xs rule: be_u32.cases) (auto simp: numeral_eq_Suc)

text \<open>
  Indexing and slicing where only the bytes matter: \<open>b[i]\<close>, \<open>b[i:]\<close>, \<open>b[:i]\<close>, and two bytes read as a number.
  The upper bound of a slice is the length here, so a slice that Go would take out of spare capacity is a panic.
\<close>

definition at_index :: "bytes \<Rightarrow> nat \<Rightarrow> byte res" where
  "at_index b i = (if i < length b then Ok (b ! i) else Panic ''index out of range'')"

definition bytes_from :: "bytes \<Rightarrow> nat \<Rightarrow> bytes res" where
  "bytes_from b i = (if i \<le> length b then Ok (drop i b) else Panic ''slice bounds out of range'')"

definition bytes_to :: "bytes \<Rightarrow> nat \<Rightarrow> bytes res" where
  "bytes_to b i = (if i \<le> length b then Ok (take i b) else Panic ''slice bounds out of range'')"

definition two_bytes :: "bytes \<Rightarrow> nat \<Rightarrow> nat res" where
  "two_bytes b i = rbind (at_index b i) (\<lambda>h. rmap (\<lambda>l. unat h * 256 + unat l) (at_index b (i + 1)))"

lemma rbind_cong [fundef_cong]:
  "r = r' \<Longrightarrow> (\<And>x. r' = Ok x \<Longrightarrow> f x = g x) \<Longrightarrow> rbind r f = rbind r' g"
  by (cases r') auto

lemma at_index_Ok [simp]: "i < length b \<Longrightarrow> at_index b i = Ok (b ! i)"
  by (simp add: at_index_def)

lemma bytes_from_Ok [simp]: "i \<le> length b \<Longrightarrow> bytes_from b i = Ok (drop i b)"
  by (simp add: bytes_from_def)

lemma bytes_to_Ok [simp]: "i \<le> length b \<Longrightarrow> bytes_to b i = Ok (take i b)"
  by (simp add: bytes_to_def)

lemma two_bytes_Ok [simp]: "i + 1 < length b \<Longrightarrow> two_bytes b i = Ok (unat (b ! i) * 256 + unat (b ! (i + 1)))"
  by (simp add: two_bytes_def)

section \<open>Strings\<close>

text \<open>
  A Go string is a sequence of bytes; conversions between \<open>string\<close> and \<open>[]byte\<close> keep
  every byte.
\<close>

definition byte_of_char :: "char \<Rightarrow> byte" where
  "byte_of_char c = word_of_nat (of_char c)"

definition char_of_byte :: "byte \<Rightarrow> char" where
  "char_of_byte b = char_of (unat b)"

definition to_bytes :: "string \<Rightarrow> bytes" where
  "to_bytes s = map byte_of_char s"

definition of_bytes :: "bytes \<Rightarrow> string" where
  "of_bytes bs = map char_of_byte bs"

lemma char_of_byte_of_char [simp]: "char_of_byte (byte_of_char c) = c"
proof -
  have "(of_char c :: nat) < 256" using nat_of_char_less_256 [of c] by simp
  then have "unat (word_of_nat (of_char c) :: byte) = (of_char c :: nat)"
    by (simp add: unat_of_nat)
  then show ?thesis by (simp add: char_of_byte_def byte_of_char_def)
qed

lemma byte_of_char_of_byte [simp]: "byte_of_char (char_of_byte b) = b"
proof -
  have "unat b < 256" using unsigned_less [of b] by simp
  then have "(of_char (char_of (unat b) :: char) :: nat) = unat b" by simp
  then show ?thesis by (simp add: char_of_byte_def byte_of_char_def)
qed

lemma of_bytes_to_bytes [simp]: "of_bytes (to_bytes s) = s"
  by (simp add: of_bytes_def to_bytes_def comp_def)

lemma to_bytes_of_bytes [simp]: "to_bytes (of_bytes bs) = bs"
  by (simp add: of_bytes_def to_bytes_def comp_def)

lemma length_to_bytes [simp]: "length (to_bytes s) = length s"
  by (simp add: to_bytes_def)

lemma length_of_bytes [simp]: "length (of_bytes bs) = length bs"
  by (simp add: of_bytes_def)

section \<open>Byte streams\<close>

text \<open>
  An \<open>io.Reader\<close> as its caller can see it through \<open>io.ReadFull\<close>: the bytes it will still
  deliver and the error it ends with. \<open>io.ReadFull\<close> on a buffer of length \<open>n\<close> delivers
  \<open>n\<close> bytes, or the bytes there are together with the reader's error, which is
  \<open>io.ErrUnexpectedEOF\<close> instead of \<open>io.EOF\<close> when some bytes were read.
\<close>

record stream =
  pending :: bytes
  ending :: goerr

definition stream_of :: "bytes \<Rightarrow> stream" where
  "stream_of bs = \<lparr>pending = bs, ending = EOF\<rparr>"

definition read_full :: "nat \<Rightarrow> stream \<Rightarrow> bytes \<times> goerr option \<times> stream" where
  "read_full n s =
     (if n \<le> length (pending s)
      then (take n (pending s), None, s\<lparr>pending := drop n (pending s)\<rparr>)
      else (pending s,
            Some (if pending s \<noteq> [] \<and> ending s = EOF then ErrUnexpectedEOF else ending s),
            s\<lparr>pending := []\<rparr>))"

text \<open>\<open>serial.ReadUint16\<close>: two bytes through \<open>io.ReadFull\<close>, then big-endian.\<close>

definition ReadUint16 :: "stream \<Rightarrow> u16 res \<times> stream" where
  "ReadUint16 s =
     (case read_full 2 s of
        (bs, Some e, s') \<Rightarrow> (Err e, s')
      | (bs, None, s') \<Rightarrow> (be_u16 bs, s'))"

lemma read_full_append [simp]:
  "length bs = n \<Longrightarrow> read_full n \<lparr>pending = bs @ rest, ending = e\<rparr> =
     (bs, None, \<lparr>pending = rest, ending = e\<rparr>)"
  by (auto simp: read_full_def)

lemma read_full_length: "read_full n s = (bs, None, s') \<Longrightarrow> length bs = n"
  by (auto simp: read_full_def split: if_splits)

lemma read_full_0 [simp]: "read_full 0 s = ([], None, s)"
  by (simp add: read_full_def)

lemma ReadUint16_put [simp]:
  "ReadUint16 \<lparr>pending = put_u16 w @ rest, ending = e\<rparr> =
     (Ok w, \<lparr>pending = rest, ending = e\<rparr>)"
  by (simp add: ReadUint16_def)

section \<open>Stateful code that may fail\<close>

text \<open>
  Code that works on a state and returns a value, an error or panics: the state survives an error, as
  the caller's variables do.
\<close>

type_synonym ('s, 'a) act = "'s \<Rightarrow> 's \<times> 'a res"

definition act_ret :: "'a \<Rightarrow> ('s, 'a) act" where
  "act_ret x s = (s, Ok x)"

definition act_lift :: "'a res \<Rightarrow> ('s, 'a) act" where
  "act_lift r s = (s, r)"

definition act_bind :: "('s, 'a) act \<Rightarrow> ('a \<Rightarrow> ('s, 'b) act) \<Rightarrow> ('s, 'b) act" where
  "act_bind m f s =
     (case m s of
        (s', Ok x) \<Rightarrow> f x s'
      | (s', Err e) \<Rightarrow> (s', Err e)
      | (s', Panic p) \<Rightarrow> (s', Panic p))"

lemma act_simps [simp]:
  "act_ret x s = (s, Ok x)" "act_lift r s = (s, r)"
  "m s = (s', Ok x) \<Longrightarrow> act_bind m f s = f x s'"
  "m s = (s', Err e) \<Longrightarrow> act_bind m f s = (s', Err e)"
  "m s = (s', Panic p) \<Longrightarrow> act_bind m f s = (s', Panic p)"
  by (simp_all add: act_ret_def act_lift_def act_bind_def)

text \<open>An \<open>io.Writer\<close>: the writer afterwards and the error that \<open>Write\<close> returns, if any.\<close>

type_synonym 'w writer = "'w \<Rightarrow> bytes \<Rightarrow> ('w \<times> goerr option) res"

fun write_all :: "'w writer \<Rightarrow> 'w \<Rightarrow> bytes list \<Rightarrow> ('w \<times> goerr option) res" where
  "write_all wr w [] = Ok (w, None)"
| "write_all wr w (bs # bss) =
     rbind (wr w bs) (\<lambda>(w', err). case err of None \<Rightarrow> write_all wr w' bss | Some e \<Rightarrow> Ok (w', Some e))"

section \<open>Orders the language leaves open\<close>

text \<open>What an iteration over a map, or a sort with ties, may do to a list of entries.\<close>

definition reorders :: "('a list \<Rightarrow> 'a list) \<Rightarrow> bool" where
  "reorders f \<longleftrightarrow> (\<forall>xs. mset (f xs) = mset xs)"

lemma reorders_set: "reorders f \<Longrightarrow> set (f xs) = set xs"
  and reorders_length: "reorders f \<Longrightarrow> length (f xs) = length xs"
  and reorders_distinct: "reorders f \<Longrightarrow> distinct (map h (f xs)) \<longleftrightarrow> distinct (map h xs)"
  unfolding reorders_def by (metis mset_eq_setD, metis mset_eq_length, metis mset_map mset_eq_imp_distinct_iff)

end
