(* ===== verification/JniWrapper.thy ===== *)
theory JniWrapper
  imports Prelude
begin

text \<open>
  The JNI wrapper (\<open>jni_workspaces/xray_go/main.go\<close>): a process-wide switch \<open>running\<close>
  and the current server \<open>xrayInst\<close>, driven by \<open>StartXray\<close>, \<open>StopXray\<close> and
  \<open>IsXrayRunning\<close>. What \<open>core.LoadConfig\<close>, \<open>core.New\<close> and \<open>Server.Start\<close> answer is the
  argument \<open>api\<close> of the definitions. The calls are modelled twice: as whole calls (one
  after the other) and as the atomic actions they consist of, interleaved by threads.
\<close>

section \<open>State and operations\<close>

record ('c, 's) core_api =
  api_load :: "string \<Rightarrow> 'c res"
  api_new :: "'c \<Rightarrow> 's res"
  api_start :: "'s \<Rightarrow> unit res"

text \<open>
  \<open>live\<close> lists the servers whose \<open>Start\<close> returned nil and whose \<open>Close\<close> was not called
  yet; \<open>asset\<close> is the configuration path whose directory \<open>XRAY_LOCATION_ASSET\<close> names.
\<close>

record 's jni =
  running :: int
  xrayInst :: "'s option"
  live :: "'s list"
  asset :: "string option"

definition jni_init :: "'s jni" where
  "jni_init = \<lparr>running = 0, xrayInst = None, live = [], asset = None\<rparr>"

definition startXrayInternal ::
  "('c, 's) core_api \<Rightarrow> string \<Rightarrow> 's jni \<Rightarrow> int \<times> 's jni" where
  "startXrayInternal api path st =
     (let st = st\<lparr>asset := Some path\<rparr>;
          recovered = (-9, st\<lparr>running := 0\<rparr>) in
      case api_load api path of
        Panic _ \<Rightarrow> recovered
      | Err _ \<Rightarrow> (-2, st)
      | Ok c \<Rightarrow>
         (case api_new api c of
            Panic _ \<Rightarrow> recovered
          | Err _ \<Rightarrow> (-3, st)
          | Ok srv \<Rightarrow>
             (case api_start api srv of
                Panic _ \<Rightarrow> recovered
              | Err _ \<Rightarrow> (-4, st)
              | Ok _ \<Rightarrow> (0, st\<lparr>xrayInst := Some srv, live := srv # live st\<rparr>))))"

definition StartXray :: "('c, 's) core_api \<Rightarrow> string \<Rightarrow> 's jni \<Rightarrow> int \<times> 's jni" where
  "StartXray api path st =
     (if running st \<noteq> 0 then (1, st)
      else
        (let st = st\<lparr>running := 1\<rparr> in
         if path = [] then (-1, st\<lparr>running := 0\<rparr>)
         else
           (case startXrayInternal api path st of
              (rc, st) \<Rightarrow> (rc, if rc \<noteq> 0 then st\<lparr>running := 0\<rparr> else st))))"

definition close_inst :: "'s jni \<Rightarrow> 's jni" where
  "close_inst st =
     (case xrayInst st of
        None \<Rightarrow> st
      | Some srv \<Rightarrow> st\<lparr>live := remove1 srv (live st), xrayInst := None\<rparr>)"

definition StopXray :: "'s jni \<Rightarrow> int \<times> 's jni" where
  "StopXray st =
     (if running st \<noteq> 1 then (1, st) else (0, close_inst (st\<lparr>running := 0\<rparr>)))"

definition IsXrayRunning :: "'s jni \<Rightarrow> int" where
  "IsXrayRunning st = (if running st = 1 then 1 else 0)"

text \<open>Whole calls, one after the other.\<close>

datatype call = CallStart string | CallStop

fun jni_call :: "('c, 's) core_api \<Rightarrow> call \<Rightarrow> 's jni \<Rightarrow> int \<times> 's jni" where
  "jni_call api (CallStart p) st = StartXray api p st"
| "jni_call api CallStop st = StopXray st"

fun jni_calls :: "('c, 's) core_api \<Rightarrow> call list \<Rightarrow> 's jni \<Rightarrow> 's jni" where
  "jni_calls api [] st = st"
| "jni_calls api (c # cs) st = jni_calls api cs (snd (jni_call api c st))"

text \<open>
  The same code as atomic actions. A thread inside \<open>StartXray\<close> passes the
  compare-and-swap, then runs \<open>startXrayInternal\<close> up to the assignment of \<open>xrayInst\<close>,
  then assigns it; a thread inside \<open>StopXray\<close> passes its own compare-and-swap before it
  looks at \<open>xrayInst\<close>.
\<close>

datatype 's pc = Idle | StartEntered string | StartServing 's | StartFailed | StopEntered

inductive jni_step ::
  "('c, 's) core_api \<Rightarrow> 's jni \<times> (nat \<Rightarrow> 's pc) \<Rightarrow> 's jni \<times> (nat \<Rightarrow> 's pc) \<Rightarrow> bool"
  for api where
  start_cas: "pcs t = Idle \<Longrightarrow> running st = 0 \<Longrightarrow>
     jni_step api (st, pcs) (st\<lparr>running := 1\<rparr>, pcs(t := StartEntered path))"
| start_empty: "pcs t = StartEntered [] \<Longrightarrow>
     jni_step api (st, pcs) (st\<lparr>running := 0\<rparr>, pcs(t := Idle))"
| start_load: "pcs t = StartEntered path \<Longrightarrow> path \<noteq> [] \<Longrightarrow> api_load api path = Ok c \<Longrightarrow>
     api_new api c = Ok srv \<Longrightarrow> api_start api srv = Ok u \<Longrightarrow>
     jni_step api (st, pcs)
       (st\<lparr>asset := Some path, live := srv # live st\<rparr>, pcs(t := StartServing srv))"
| start_fail: "pcs t = StartEntered path \<Longrightarrow> path \<noteq> [] \<Longrightarrow>
     fst (startXrayInternal api path st) \<noteq> 0 \<Longrightarrow>
     jni_step api (st, pcs) (snd (startXrayInternal api path st), pcs(t := StartFailed))"
| start_publish: "pcs t = StartServing srv \<Longrightarrow>
     jni_step api (st, pcs) (st\<lparr>xrayInst := Some srv\<rparr>, pcs(t := Idle))"
| start_reset: "pcs t = StartFailed \<Longrightarrow>
     jni_step api (st, pcs) (st\<lparr>running := 0\<rparr>, pcs(t := Idle))"
| stop_cas: "pcs t = Idle \<Longrightarrow> running st = 1 \<Longrightarrow>
     jni_step api (st, pcs) (st\<lparr>running := 0\<rparr>, pcs(t := StopEntered))"
| stop_close: "pcs t = StopEntered \<Longrightarrow>
     jni_step api (st, pcs) (close_inst st, pcs(t := Idle))"

inductive jni_reach :: "('c, 's) core_api \<Rightarrow> 's jni \<times> (nat \<Rightarrow> 's pc) \<Rightarrow> bool" for api where
  jni_reach_init: "jni_reach api (jni_init, \<lambda>_. Idle)"
| jni_reach_step: "jni_reach api s \<Longrightarrow> jni_step api s s' \<Longrightarrow> jni_reach api s'"

section \<open>Sequential calls\<close>

text \<open>The switch, the current server and the live servers agree.\<close>

definition jni_inv :: "'s jni \<Rightarrow> bool" where
  "jni_inv st \<longleftrightarrow>
     (running st = 1 \<and> (\<exists>srv. xrayInst st = Some srv \<and> live st = [srv])) \<or>
     (running st = 0 \<and> xrayInst st = None \<and> live st = [])"

lemmas jni_defs = StartXray_def startXrayInternal_def StopXray_def close_inst_def Let_def

lemma jni_inv_init: "jni_inv jni_init"
  by (simp add: jni_inv_def jni_init_def)

lemma jni_inv_StartXray [invariants]: "jni_inv st \<Longrightarrow> jni_inv (snd (StartXray api p st))"
  by (auto simp: jni_inv_def jni_defs split: res.splits)

lemma jni_inv_StopXray [invariants]: "jni_inv st \<Longrightarrow> jni_inv (snd (StopXray st))"
  by (auto simp: jni_inv_def jni_defs)

lemma jni_inv_calls: "jni_inv st \<Longrightarrow> jni_inv (jni_calls api cs st)"
proof (induction cs arbitrary: st)
  case (Cons c cs)
  then show ?case by (cases c) (simp_all add: jni_inv_StartXray jni_inv_StopXray)
qed simp

text \<open>
  Calls that do not overlap never leak a server: after any sequence of complete
  \<open>StartXray\<close> and \<open>StopXray\<close> calls, \<open>IsXrayRunning\<close> answers 1 exactly when there is a
  current server, and the live servers are the current one and nothing else.
\<close>

theorem jni_sequential_calls:
  "let st = jni_calls api cs jni_init in
     live st = (case xrayInst st of None \<Rightarrow> [] | Some srv \<Rightarrow> [srv]) \<and>
     (IsXrayRunning st = 1 \<longleftrightarrow> xrayInst st \<noteq> None)"
  using jni_inv_calls [OF jni_inv_init, of api cs]
  by (auto simp: jni_inv_def IsXrayRunning_def Let_def)

text \<open>
  What \<open>StartXray\<close> reports is what happened: on a stopped wrapper it returns 0 exactly
  when the path is not empty and loading, creating and starting the server all succeeded,
  and any other answer leaves the wrapper stopped with no server added.
\<close>

theorem StartXray_outcome:
  assumes "running st = 0"
  shows "(fst (StartXray api p st) = 0 \<longleftrightarrow>
            p \<noteq> [] \<and> (\<exists>c srv u. api_load api p = Ok c \<and> api_new api c = Ok srv \<and>
              api_start api srv = Ok u \<and> xrayInst (snd (StartXray api p st)) = Some srv)) \<and>
         (fst (StartXray api p st) \<noteq> 0 \<longrightarrow>
            running (snd (StartXray api p st)) = 0 \<and> live (snd (StartXray api p st)) = live st \<and>
            xrayInst (snd (StartXray api p st)) = xrayInst st)"
  using assms by (auto simp: jni_defs split: res.splits)

definition ok_api :: "(unit, nat) core_api" where
  "ok_api = \<lparr>api_load = (\<lambda>p. Ok ()), api_new = (\<lambda>c. Ok 7), api_start = (\<lambda>s. Ok ())\<rparr>"

theorem StartXray_outcome_witness:
  "running (jni_init :: nat jni) = 0 \<and>
   fst (StartXray ok_api ''c'' jni_init) = 0"
proof -
  have h: "running (jni_init :: nat jni) = 0" by (simp add: jni_init_def)
  have "xrayInst (snd (StartXray ok_api ''c'' jni_init)) = Some 7"
    by (simp add: jni_defs ok_api_def jni_init_def)
  then show ?thesis
    using h StartXray_outcome [OF h, of ok_api "''c''"] by (simp add: ok_api_def)
qed

section \<open>Overlapping calls\<close>

lemma jni_reach_running: "jni_reach api s \<Longrightarrow> running (fst s) \<in> {0, 1}"
proof (induction rule: jni_reach.induct)
  case (jni_reach_step s s')
  from jni_reach_step.hyps(2) jni_reach_step.IH show ?case
    by (induction rule: jni_step.induct)
      (auto simp: startXrayInternal_def close_inst_def Let_def split: res.splits option.splits)
qed (simp add: jni_init_def)


text \<open>
  Overlapping calls can leak a server: a \<open>StopXray\<close> between the compare-and-swap of a
  \<open>StartXray\<close> and its assignment of \<open>xrayInst\<close> leaves a state in which every call has
  returned, \<open>IsXrayRunning\<close> answers 0, and yet a started server is live and current.
\<close>

theorem jni_overlap_leak:
  "\<exists>st pcs. jni_reach ok_api (st, pcs) \<and> (\<forall>t. pcs t = Idle) \<and>
     IsXrayRunning st = 0 \<and> xrayInst st = Some 7 \<and> live st = [7]"
proof -
  define p0 :: "nat \<Rightarrow> nat pc" where "p0 = (\<lambda>_. Idle)"
  define p1 where "p1 = p0(0 := StartEntered ''c'')"
  define p2 where "p2 = p1(1 := StopEntered)"
  define p3 where "p3 = p2(1 := Idle)"
  define p4 where "p4 = p3(0 := StartServing 7)"
  define p5 where "p5 = p4(0 := Idle)"
  note ps = p0_def p1_def p2_def p3_def p4_def p5_def
  define s1 :: "nat jni" where "s1 = jni_init\<lparr>running := 1\<rparr>"
  define s2 where "s2 = s1\<lparr>running := 0\<rparr>"
  define s4 where "s4 = s2\<lparr>asset := Some ''c'', live := 7 # live s2\<rparr>"
  define s5 where "s5 = s4\<lparr>xrayInst := Some 7\<rparr>"
  note ss = s1_def s2_def s4_def s5_def jni_init_def
  have "jni_step ok_api (jni_init, p0) (s1, p1)"
    unfolding s1_def p1_def by (rule start_cas) (simp_all add: ps jni_init_def)
  moreover have "jni_step ok_api (s1, p1) (s2, p2)"
    unfolding s2_def p2_def by (rule stop_cas) (simp_all add: ps ss)
  moreover have "jni_step ok_api (s2, p2) (s2, p3)"
    using stop_close [of p2 1 ok_api s2] unfolding p3_def
    by (simp add: ps ss close_inst_def)
  moreover have "jni_step ok_api (s2, p3) (s4, p4)"
    unfolding s4_def p4_def by (rule start_load [where path = "''c''"]) (simp_all add: ps ok_api_def)
  moreover have "jni_step ok_api (s4, p4) (s5, p5)"
    unfolding s5_def p5_def by (rule start_publish) (simp add: ps)
  ultimately have "jni_reach ok_api (s5, p5)"
    unfolding p0_def using jni_reach_init jni_reach_step by metis
  moreover have "\<forall>t. p5 t = Idle" by (simp add: ps)
  moreover have "IsXrayRunning s5 = 0 \<and> xrayInst s5 = Some 7 \<and> live s5 = [7]"
    by (simp add: ss IsXrayRunning_def)
  ultimately show ?thesis by blast
qed

end
