(* ===== verification/GoStd.thy ===== *)
theory GoStd
  imports Prelude
begin

text \<open>
  The parts of Go's standard library the modelled sources call on strings and addresses:
  \<open>strings.TrimSpace\<close>, \<open>strings.HasPrefix\<close>, \<open>strconv\<close> on decimal numbers, \<open>net.ParseIP\<close>
  with its printer \<open>net.IP.String\<close>, and \<open>net.SplitHostPort\<close>. Strings are byte sequences,
  one \<open>char\<close> per byte.
\<close>

section \<open>Characters and white space\<close>

definition is_digit :: "char \<Rightarrow> bool" where
  "is_digit c \<longleftrightarrow> 48 \<le> (of_char c :: nat) \<and> (of_char c :: nat) \<le> 57"

definition is_lower :: "char \<Rightarrow> bool" where
  "is_lower c \<longleftrightarrow> 97 \<le> (of_char c :: nat) \<and> (of_char c :: nat) \<le> 122"

definition is_upper :: "char \<Rightarrow> bool" where
  "is_upper c \<longleftrightarrow> 65 \<le> (of_char c :: nat) \<and> (of_char c :: nat) \<le> 90"

text \<open>
  The UTF-8 encodings of the runes \<open>unicode.IsSpace\<close> accepts: the ASCII blanks, U+0085,
  U+00A0, U+1680, U+2000 to U+200A, U+2028, U+2029, U+202F, U+205F and U+3000.
\<close>

definition go_spaces :: "string list" where
  "go_spaces = map (map (char_of :: nat \<Rightarrow> char))
     ([[9], [10], [11], [12], [13], [32], [194, 133], [194, 160], [225, 154, 128]] @
      map (\<lambda>n. [226, 128, n]) [128, 129, 130, 131, 132, 133, 134, 135, 136, 137, 138] @
      [[226, 128, 168], [226, 128, 169], [226, 128, 175], [226, 129, 159], [227, 128, 128]])"

lemma go_spaces_nonempty: "p \<in> set go_spaces \<Longrightarrow> p \<noteq> []"
  by (auto simp: go_spaces_def)

function trim_left :: "string \<Rightarrow> string" where
  "trim_left s =
     (case List.find (\<lambda>p. prefix p s) go_spaces of
        None \<Rightarrow> s
      | Some p \<Rightarrow> trim_left (drop (length p) s))"
  by pat_completeness auto
termination
proof (relation "measure length", goal_cases)
  case (2 s p)
  then have "p \<noteq> []" and "prefix p s"
    by (auto simp: find_Some_iff dest: nth_mem go_spaces_nonempty)
  then show ?case by (auto simp: prefix_def)
qed simp

declare trim_left.simps [simp del]

function trim_right :: "string \<Rightarrow> string" where
  "trim_right s =
     (case List.find (\<lambda>p. suffix p s) go_spaces of
        None \<Rightarrow> s
      | Some p \<Rightarrow> trim_right (take (length s - length p) s))"
  by pat_completeness auto
termination
proof (relation "measure length", goal_cases)
  case (2 s p)
  then have "p \<noteq> []" and "suffix p s"
    by (auto simp: find_Some_iff dest: nth_mem go_spaces_nonempty)
  then show ?case by (auto simp: suffix_def)
qed simp

declare trim_right.simps [simp del]

definition TrimSpace :: "string \<Rightarrow> string" where
  "TrimSpace s = trim_right (trim_left s)"

section \<open>Decimal numbers\<close>

text \<open>\<open>strconv.Itoa\<close> on a number that is not negative.\<close>

fun itoa :: "nat \<Rightarrow> string" where
  "itoa n =
     (if n < 10 then [char_of (48 + n)] else itoa (n div 10) @ [char_of (48 + n mod 10)])"

declare itoa.simps [simp del]

definition digit_val :: "char \<Rightarrow> nat" where
  "digit_val c = of_char c - 48"

definition dec_val :: "string \<Rightarrow> nat" where
  "dec_val s = foldl (\<lambda>a c. 10 * a + digit_val c) 0 s"

text \<open>\<open>strconv.ParseUint(s, 10, 32)\<close>: digits only, at least one, below \<open>2^32\<close>.\<close>

definition parse_uint32 :: "string \<Rightarrow> nat option" where
  "parse_uint32 s =
     (if s = [] \<or> \<not> list_all is_digit s then None
      else if 2 ^ 32 \<le> dec_val s then None
      else Some (dec_val s))"

section \<open>IP addresses\<close>

text \<open>
  \<open>netip.parseIPv4Fields\<close>: four decimal octets without leading zeros. The arguments are
  the character before, the rest of the text, the octets read so far, the value and the
  number of digits of the current octet.
\<close>

fun parse_v4 :: "char option \<Rightarrow> string \<Rightarrow> nat list \<Rightarrow> nat \<Rightarrow> nat \<Rightarrow> bytes option" where
  "parse_v4 prev [] fs val digs =
     (if length fs < 3 then None else Some (map word_of_nat (fs @ [val])))"
| "parse_v4 prev (c # cs) fs val digs =
     (if is_digit c then
        (if digs = 1 \<and> val = 0 then None
         else
           (let v = val * 10 + digit_val c in
            if v > 255 then None else parse_v4 (Some c) cs fs v (digs + 1)))
      else if c = CHR ''.'' then
        (if prev = None \<or> cs = [] \<or> prev = Some (CHR ''.'') then None
         else if length fs = 3 then None
         else parse_v4 (Some c) cs (fs @ [val]) 0 0)
      else None)"

definition parseIPv4 :: "string \<Rightarrow> bytes option" where
  "parseIPv4 s = parse_v4 None s [] 0 0"

definition hex_val :: "char \<Rightarrow> nat option" where
  "hex_val c =
     (if is_digit c then Some (of_char c - 48)
      else if 97 \<le> (of_char c :: nat) \<and> (of_char c :: nat) \<le> 102 then Some (of_char c - 87)
      else if 65 \<le> (of_char c :: nat) \<and> (of_char c :: nat) \<le> 70 then Some (of_char c - 55)
      else None)"

text \<open>One group of hexadecimal digits: its value, its length and the text after it.\<close>

fun hex_group :: "string \<Rightarrow> nat \<Rightarrow> nat \<Rightarrow> (nat \<times> nat \<times> string) option" where
  "hex_group [] off acc = Some (acc, off, [])"
| "hex_group (c # cs) off acc =
     (case hex_val c of
        None \<Rightarrow> Some (acc, off, c # cs)
      | Some d \<Rightarrow>
         (let acc = acc * 16 + d in
          if off > 3 \<or> acc > 65535 then None else hex_group cs (off + 1) acc))"

text \<open>
  The loop of \<open>netip.parseIPv6\<close>. \<open>ip\<close> holds the bytes read so far, so its length is the
  loop's index; \<open>ell\<close> is the position of the ellipsis. The first argument counts the
  iterations left: each one reads a 16-bit group, so eight are enough.
\<close>

fun parse_v6 :: "nat \<Rightarrow> string \<Rightarrow> bytes \<Rightarrow> nat option \<Rightarrow> (string \<times> bytes \<times> nat option) option" where
  "parse_v6 0 s ip ell = Some (s, ip, ell)"
| "parse_v6 (Suc k) s ip ell =
     (case hex_group s 0 0 of
        None \<Rightarrow> None
      | Some (acc, off, rest) \<Rightarrow>
         (if off = 0 then None
          else if rest \<noteq> [] \<and> hd rest = CHR ''.'' then
            (if ell = None \<and> length ip \<noteq> 12 then None
             else if length ip + 4 > 16 then None
             else (case parseIPv4 s of None \<Rightarrow> None | Some fs \<Rightarrow> Some ([], ip @ fs, ell)))
          else
            (let ip = ip @ [word_of_nat (acc div 256), word_of_nat acc] in
             case rest of
               [] \<Rightarrow> Some ([], ip, ell)
             | c # cs \<Rightarrow>
                 (if c \<noteq> CHR '':'' \<or> cs = [] then None
                  else if hd cs = CHR '':'' then
                    (if ell \<noteq> None then None
                     else if tl cs = [] then Some ([], ip, Some (length ip))
                     else parse_v6 k (tl cs) ip (Some (length ip)))
                  else parse_v6 k cs ip ell))))"

definition parseIPv6 :: "string \<Rightarrow> bytes option" where
  "parseIPv6 s =
     (if CHR ''%'' \<in> set s then None
      else
        (let lead = take 2 s = ''::'';
             s' = (if lead then drop 2 s else s) in
         if lead \<and> s' = [] then Some (replicate 16 0)
         else
           (case parse_v6 8 s' [] (if lead then Some 0 else None) of
              None \<Rightarrow> None
            | Some (rest, ip, ell) \<Rightarrow>
                (if rest \<noteq> [] then None
                 else if length ip < 16 then
                   (case ell of
                      None \<Rightarrow> None
                    | Some e \<Rightarrow> Some (take e ip @ replicate (16 - length ip) 0 @ drop e ip))
                 else if ell \<noteq> None then None
                 else Some ip))))"

text \<open>
  \<open>net.ParseIP\<close>: the first of \<open>.\<close>, \<open>:\<close> and \<open>%\<close> decides which form is tried; the result
  always has 16 bytes (an IPv4 address is mapped). Addresses with a zone are refused.
\<close>

definition v4_in_v6 :: "bytes \<Rightarrow> bytes" where
  "v4_in_v6 b = replicate 10 0 @ [255, 255] @ b"

definition ParseIP :: "string \<Rightarrow> bytes option" where
  "ParseIP s =
     (case List.find (\<lambda>c. c \<in> {CHR ''.'', CHR '':'', CHR ''%''}) s of
        Some c \<Rightarrow>
          (if c = CHR ''.'' then map_option v4_in_v6 (parseIPv4 s)
           else if c = CHR '':'' then parseIPv6 s
           else None)
      | None \<Rightarrow> None)"

text \<open>\<open>net.IP.String\<close> on a 4-byte or a 16-byte address.\<close>

fun v4_string :: "bytes \<Rightarrow> string" where
  "v4_string [a, b, c, d] =
     itoa (unat a) @ ''.'' @ itoa (unat b) @ ''.'' @ itoa (unat c) @ ''.'' @ itoa (unat d)"
| "v4_string _ = []"

fun hexdigits :: "nat \<Rightarrow> string" where
  "hexdigits n =
     (let d = (\<lambda>k. char_of (if k < 10 then 48 + k else 87 + k) :: char) in
      if n < 16 then [d n] else hexdigits (n div 16) @ [d (n mod 16)])"

declare hexdigits.simps [simp del]

fun v6_groups :: "bytes \<Rightarrow> nat list" where
  "v6_groups (a # b # bs) = (unat a * 256 + unat b) # v6_groups bs"
| "v6_groups _ = []"

fun join_colon :: "string list \<Rightarrow> string" where
  "join_colon [] = []"
| "join_colon [x] = x"
| "join_colon (x # xs) = x @ '':'' @ join_colon xs"

text \<open>The first longest run of at least two zero groups: its start and its length.\<close>

definition zero_run :: "nat list \<Rightarrow> nat \<times> nat" where
  "zero_run gs =
     foldl (\<lambda>(st, n) i.
              let l = length (takeWhile (\<lambda>g. g = 0) (drop i gs)) in
              if 2 \<le> l \<and> n < l then (i, l) else (st, n))
           (0, 0) [0..<length gs]"

definition v6_string :: "bytes \<Rightarrow> string" where
  "v6_string b =
     (let gs = v6_groups b; (st, n) = zero_run gs in
      if n = 0 then join_colon (map hexdigits gs)
      else join_colon (map hexdigits (take st gs)) @ ''::'' @
           join_colon (map hexdigits (drop (st + n) gs)))"

definition is_v4_mapped :: "bytes \<Rightarrow> bool" where
  "is_v4_mapped b \<longleftrightarrow> take 12 b = replicate 10 0 @ [255, 255]"

definition ip_string :: "bytes \<Rightarrow> string" where
  "ip_string b =
     (if length b = 4 then v4_string b
      else if is_v4_mapped b then v4_string (drop 12 b)
      else v6_string b)"

section \<open>Host and port\<close>

fun index_of :: "char \<Rightarrow> string \<Rightarrow> nat option" where
  "index_of c [] = None"
| "index_of c (x # xs) = (if x = c then Some 0 else map_option Suc (index_of c xs))"

definition last_index_of :: "char \<Rightarrow> string \<Rightarrow> nat option" where
  "last_index_of c s = map_option (\<lambda>i. length s - 1 - i) (index_of c (rev s))"

text \<open>
  The end of \<open>net.SplitHostPort\<close>: no bracket may be left from the positions \<open>j\<close> and \<open>k\<close>
  on; the port is what follows the last colon, at \<open>i\<close>.
\<close>

definition split_finish :: "string \<Rightarrow> string \<Rightarrow> nat \<Rightarrow> nat \<Rightarrow> nat \<Rightarrow> (string \<times> string) res" where
  "split_finish hp host i j k =
     (if CHR ''['' \<in> set (drop j hp) then Err (ErrMsg ''unexpected [ in address'')
      else if CHR '']'' \<in> set (drop k hp) then Err (ErrMsg ''unexpected ] in address'')
      else Ok (host, drop (i + 1) hp))"

definition SplitHostPort :: "string \<Rightarrow> (string \<times> string) res" where
  "SplitHostPort hp =
     (case last_index_of (CHR '':'') hp of
        None \<Rightarrow> Err (ErrMsg ''missing port in address'')
      | Some i \<Rightarrow>
          if hd hp = CHR ''['' then
            (case index_of (CHR '']'') hp of
               None \<Rightarrow> Err (ErrMsg ''missing ] in address'')
             | Some e \<Rightarrow>
                 if e + 1 = length hp then Err (ErrMsg ''missing port in address'')
                 else if e + 1 = i then split_finish hp (take (e - 1) (drop 1 hp)) i 1 (e + 1)
                 else if hp ! (e + 1) = CHR '':'' then Err (ErrMsg ''too many colons in address'')
                 else Err (ErrMsg ''missing port in address''))
          else if CHR '':'' \<in> set (take i hp) then Err (ErrMsg ''too many colons in address'')
          else split_finish hp (take i hp) i 0 0)"

section \<open>Facts\<close>

lemma of_char_char_of_nat [simp]: "n < 256 \<Longrightarrow> (of_char (char_of n :: char) :: nat) = n"
  by simp

lemma is_digit_char: "n < 10 \<Longrightarrow> is_digit (char_of (48 + n :: nat))"
  by (simp add: is_digit_def)

lemma digit_val_char: "n < 10 \<Longrightarrow> digit_val (char_of (48 + n :: nat)) = n"
  by (simp add: digit_val_def)

lemma itoa_digits: "list_all is_digit (itoa n) \<and> itoa n \<noteq> []"
proof (induction n rule: itoa.induct)
  case (1 n)
  then show ?case
    by (subst (1 2) itoa.simps) (auto simp: is_digit_char)
qed

lemma dec_val_snoc: "dec_val (s @ [c]) = 10 * dec_val s + digit_val c"
  by (simp add: dec_val_def)

lemma dec_val_itoa [simp]: "dec_val (itoa n) = n"
proof (induction n rule: itoa.induct)
  case (1 n)
  show ?case
  proof (cases "n < 10")
    case True
    then show ?thesis by (subst itoa.simps) (simp add: dec_val_def digit_val_char)
  next
    case False
    with 1 have "dec_val (itoa (n div 10)) = n div 10" by simp
    with False show ?thesis by (subst itoa.simps) (simp add: dec_val_snoc digit_val_char)
  qed
qed

lemma parse_uint32_itoa [simp]: "n < 2 ^ 32 \<Longrightarrow> parse_uint32 (itoa n) = Some n"
  using itoa_digits [of n] by (simp add: parse_uint32_def)

lemma parse_v4_length: "parse_v4 p s fs v d = Some b \<Longrightarrow> length fs \<le> 3 \<Longrightarrow> length b = 4"
proof (induction p s fs v d rule: parse_v4.induct)
  case (1 prev fs val digs)
  then show ?case by (auto split: if_splits)
next
  case (2 prev c cs fs val digs)
  then show ?case by (auto simp: Let_def split: if_splits)
qed

lemma parseIPv4_length: "parseIPv4 s = Some b \<Longrightarrow> length b = 4"
  unfolding parseIPv4_def by (rule parse_v4_length) auto

lemma parse_v6_length:
  "parse_v6 k s ip ell = Some (r, ip', ell') \<Longrightarrow> length ip + 2 * k \<le> 16 \<Longrightarrow>
     (\<forall>e. ell = Some e \<longrightarrow> e \<le> length ip) \<Longrightarrow>
     length ip' \<le> 16 \<and> (\<forall>e. ell' = Some e \<longrightarrow> e \<le> length ip')"
proof (induction k arbitrary: s ip ell)
  case 0
  then show ?case by auto
next
  case (Suc k)
  from Suc.prems(1) obtain acc off rest where g: "hex_group s 0 0 = Some (acc, off, rest)"
    by (auto split: option.splits)
  show ?case
  proof (cases "rest \<noteq> [] \<and> hd rest = CHR ''.''")
    case True
    with g Suc.prems show ?thesis
      by (auto split: if_splits option.splits dest!: parseIPv4_length)
  next
    case False
    define ip1 where "ip1 = ip @ [word_of_nat (acc div 256), word_of_nat acc :: byte]"
    have l: "length ip1 + 2 * k \<le> 16" "length ip1 = length ip + 2"
      using Suc.prems(2) by (simp_all add: ip1_def)
    from g False Suc.prems(1) show ?thesis
    proof (cases rest)
      case Nil
      with g Suc.prems(1) have "ip' = ip1" "ell' = ell"
        by (auto simp: ip1_def split: if_splits)
      with l Suc.prems(3) show ?thesis by fastforce
    next
      case (Cons c cs)
      with g False Suc.prems(1) have cs: "cs \<noteq> []" and
        run: "(hd cs = CHR '':'' \<and> (tl cs = [] \<and> ip' = ip1 \<and> ell' = Some (length ip1) \<or>
                parse_v6 k (tl cs) ip1 (Some (length ip1)) = Some (r, ip', ell'))) \<or>
              parse_v6 k cs ip1 ell = Some (r, ip', ell')"
        by (auto simp: ip1_def Let_def split: if_splits)
      from run show ?thesis
        using l Suc.prems(3) Suc.IH [of "tl cs" ip1 "Some (length ip1)"] Suc.IH [of cs ip1 ell]
        by fastforce
    qed
  qed
qed

lemma parseIPv6_length: "parseIPv6 s = Some b \<Longrightarrow> length b = 16"
  unfolding parseIPv6_def
  by (auto simp: Let_def split: if_splits option.splits prod.splits dest!: parse_v6_length)

lemma ParseIP_length: "ParseIP s = Some b \<Longrightarrow> length b = 16"
  unfolding ParseIP_def
  by (auto simp: v4_in_v6_def split: if_splits option.splits
      dest: parseIPv4_length parseIPv6_length)

end
