(* ===== verification/NetAddr.thy ===== *)
theory NetAddr
  imports GoStd
begin

text \<open>
  Network addresses, ports and destinations (\<open>common/net\<close>: \<open>address.go\<close>, \<open>port.go\<close>,
  \<open>network.go\<close>, \<open>destination.go\<close>). An \<open>Address\<close> is one of the three types that implement
  the interface; the interface value nil is \<open>None\<close>.
\<close>

section \<open>Addresses (address.go)\<close>

type_synonym address_family = byte

definition AddressFamilyIPv4 :: address_family where "AddressFamilyIPv4 = 0"
definition AddressFamilyIPv6 :: address_family where "AddressFamilyIPv6 = 1"
definition AddressFamilyDomain :: address_family where "AddressFamilyDomain = 2"

definition IsIPv4 :: "address_family \<Rightarrow> bool" where
  "IsIPv4 af \<longleftrightarrow> af = AddressFamilyIPv4"

definition IsIPv6 :: "address_family \<Rightarrow> bool" where
  "IsIPv6 af \<longleftrightarrow> af = AddressFamilyIPv6"

definition IsIP :: "address_family \<Rightarrow> bool" where
  "IsIP af \<longleftrightarrow> af = AddressFamilyIPv4 \<or> af = AddressFamilyIPv6"

definition IsDomain :: "address_family \<Rightarrow> bool" where
  "IsDomain af \<longleftrightarrow> af = AddressFamilyDomain"

datatype address = IPv4Address bytes | IPv6Address bytes | DomainAddr string

fun addr_wf :: "address \<Rightarrow> bool" where
  "addr_wf (IPv4Address b) = (length b = 4)"
| "addr_wf (IPv6Address b) = (length b = 16 \<and> \<not> is_v4_mapped b)"
| "addr_wf (DomainAddr d) = True"

definition isAlphaNum :: "char \<Rightarrow> bool" where
  "isAlphaNum c \<longleftrightarrow> is_digit c \<or> is_lower c \<or> is_upper c"

definition IPAddress :: "bytes \<Rightarrow> address option" where
  "IPAddress ip =
     (if length ip = 4 then Some (IPv4Address ip)
      else if length ip = 16 then
        (if take 10 ip = replicate 10 0 \<and> ip ! 10 = 255 \<and> ip ! 11 = 255
         then Some (IPv4Address (drop 12 ip))
         else Some (IPv6Address ip))
      else None)"

definition DomainAddress :: "string \<Rightarrow> address" where
  "DomainAddress d = DomainAddr d"

definition ParseAddress :: "string \<Rightarrow> address option" where
  "ParseAddress addr =
     (let addr = (if addr \<noteq> [] \<and> hd addr = CHR ''['' \<and> last addr = CHR '']''
                  then butlast (tl addr) else addr);
          addr = (if addr \<noteq> [] \<and> (\<not> isAlphaNum (hd addr) \<or> \<not> isAlphaNum (last addr))
                  then TrimSpace addr else addr) in
      case ParseIP addr of
        Some ip \<Rightarrow> IPAddress ip
      | None \<Rightarrow> Some (DomainAddress addr))"

text \<open>The methods of the three types; the wrong accessor panics.\<close>

fun addr_IP :: "address \<Rightarrow> bytes res" where
  "addr_IP (IPv4Address b) = Ok b"
| "addr_IP (IPv6Address b) = Ok b"
| "addr_IP (DomainAddr d) = Panic ''Calling IP() on a DomainAddress.''"

fun addr_Domain :: "address \<Rightarrow> string res" where
  "addr_Domain (IPv4Address b) = Panic ''Calling Domain() on an IPv4Address.''"
| "addr_Domain (IPv6Address b) = Panic ''Calling Domain() on an IPv6Address.''"
| "addr_Domain (DomainAddr d) = Ok d"

fun addr_Family :: "address \<Rightarrow> address_family" where
  "addr_Family (IPv4Address b) = AddressFamilyIPv4"
| "addr_Family (IPv6Address b) = AddressFamilyIPv6"
| "addr_Family (DomainAddr d) = AddressFamilyDomain"

fun addr_String :: "address \<Rightarrow> string" where
  "addr_String (IPv4Address b) = ip_string b"
| "addr_String (IPv6Address b) = ''['' @ ip_string b @ '']''"
| "addr_String (DomainAddr d) = d"

definition LocalHostIP :: "address option" where
  "LocalHostIP = IPAddress [127, 0, 0, 1]"

definition AnyIP :: "address option" where
  "AnyIP = IPAddress [0, 0, 0, 0]"

text \<open>The protobuf message \<open>IPOrDomain\<close>; \<open>Unset\<close> is a message whose oneof is not set.\<close>

datatype ip_or_domain = Ip bytes | Domain string | Unset

definition AsAddress :: "ip_or_domain option \<Rightarrow> address option res" where
  "AsAddress d =
     (case d of
        None \<Rightarrow> Ok None
      | Some (Ip ip) \<Rightarrow> Ok (IPAddress ip)
      | Some (Domain s) \<Rightarrow> Ok (Some (DomainAddress s))
      | Some Unset \<Rightarrow> Panic ''Common|Net: Invalid address.'')"

definition NewIPOrDomain :: "address \<Rightarrow> ip_or_domain res" where
  "NewIPOrDomain a =
     (if addr_Family a = AddressFamilyDomain then rmap Domain (addr_Domain a)
      else if addr_Family a = AddressFamilyIPv4 \<or> addr_Family a = AddressFamilyIPv6
      then rmap Ip (addr_IP a)
      else Panic ''Unknown Address type.'')"

section \<open>Networks (network.go) and ports (port.go)\<close>

datatype network = Network_Unknown | Network_TCP | Network_UDP | Network_UNIX

fun SystemString :: "network \<Rightarrow> string" where
  "SystemString Network_TCP = ''tcp''"
| "SystemString Network_UDP = ''udp''"
| "SystemString Network_UNIX = ''unix''"
| "SystemString Network_Unknown = ''unknown''"

fun HasNetwork :: "network list \<Rightarrow> network \<Rightarrow> bool" where
  "HasNetwork [] n = False"
| "HasNetwork (v # vs) n = (if v = n then True else HasNetwork vs n)"

type_synonym port = u16

definition PortFromBytes :: "bytes \<Rightarrow> port res" where
  "PortFromBytes b = be_u16 b"

definition PortFromInt :: "u32 \<Rightarrow> port res" where
  "PortFromInt v = (if v > 65535 then Err (ErrMsg ''invalid port range: '') else Ok (ucast v))"

definition PortFromString :: "string \<Rightarrow> port res" where
  "PortFromString s =
     (case parse_uint32 s of
        None \<Rightarrow> Err (ErrMsg ''invalid port range: '')
      | Some v \<Rightarrow> PortFromInt (word_of_nat v))"

definition port_String :: "port \<Rightarrow> string" where
  "port_String p = itoa (unat p)"

record port_range =
  pr_From :: u32
  pr_To :: u32

definition FromPort :: "port_range \<Rightarrow> port" where
  "FromPort r = ucast (pr_From r)"

definition ToPort :: "port_range \<Rightarrow> port" where
  "ToPort r = ucast (pr_To r)"

definition range_Contains :: "port_range \<Rightarrow> port \<Rightarrow> bool" where
  "range_Contains r p \<longleftrightarrow> FromPort r \<le> p \<and> p \<le> ToPort r"

definition SinglePortRange :: "port \<Rightarrow> port_range" where
  "SinglePortRange p = \<lparr>pr_From = ucast p, pr_To = ucast p\<rparr>"

record mem_port_range =
  mpr_From :: port
  mpr_To :: port

definition mem_range_Contains :: "mem_port_range \<Rightarrow> port \<Rightarrow> bool" where
  "mem_range_Contains r p \<longleftrightarrow> mpr_From r \<le> p \<and> p \<le> mpr_To r"

definition PortListFromProto :: "port_range list \<Rightarrow> mem_port_range list" where
  "PortListFromProto l = map (\<lambda>r. \<lparr>mpr_From = ucast (pr_From r), mpr_To = ucast (pr_To r)\<rparr>) l"

fun port_list_Contains :: "mem_port_range list \<Rightarrow> port \<Rightarrow> bool" where
  "port_list_Contains [] p = False"
| "port_list_Contains (r # rs) p =
     (if mem_range_Contains r p then True else port_list_Contains rs p)"

section \<open>Destinations (destination.go)\<close>

record destination =
  dest_Address :: "address option"
  dest_Port :: port
  dest_Network :: network

definition TCPDestination :: "address option \<Rightarrow> port \<Rightarrow> destination" where
  "TCPDestination a p = \<lparr>dest_Address = a, dest_Port = p, dest_Network = Network_TCP\<rparr>"

definition UDPDestination :: "address option \<Rightarrow> port \<Rightarrow> destination" where
  "UDPDestination a p = \<lparr>dest_Address = a, dest_Port = p, dest_Network = Network_UDP\<rparr>"

definition UnixDestination :: "address option \<Rightarrow> destination" where
  "UnixDestination a = \<lparr>dest_Address = a, dest_Port = 0, dest_Network = Network_UNIX\<rparr>"

text \<open>The addresses of Go's \<open>net\<close> package that the code distinguishes.\<close>

datatype net_addr = TCPAddr bytes int | UDPAddr bytes int | UnixAddr string string | OtherAddr

definition DestinationFromAddr :: "net_addr \<Rightarrow> destination res" where
  "DestinationFromAddr a =
     (case a of
        TCPAddr ip p \<Rightarrow> Ok (TCPDestination (IPAddress ip) (word_of_int p))
      | UDPAddr ip p \<Rightarrow> Ok (UDPDestination (IPAddress ip) (word_of_int p))
      | UnixAddr name n \<Rightarrow> Ok (UnixDestination (Some (DomainAddress name)))
      | OtherAddr \<Rightarrow> Panic ''Net: Unknown address type.'')"

text \<open>The result is the destination and the error; both are returned.\<close>

definition parse_host_port :: "destination \<Rightarrow> string \<Rightarrow> destination \<times> goerr option" where
  "parse_host_port d dest =
     (case SplitHostPort dest of
        Err e \<Rightarrow> (d, Some e)
      | Panic s \<Rightarrow> (d, Some (ErrMsg s))
      | Ok (hstr, pstr) \<Rightarrow>
         (let d = (if hstr \<noteq> [] then d\<lparr>dest_Address := ParseAddress hstr\<rparr> else d) in
          if pstr \<noteq> [] then
            (case PortFromString pstr of
               Ok p \<Rightarrow> (d\<lparr>dest_Port := p\<rparr>, None)
             | Err e \<Rightarrow> (d, Some e)
             | Panic s \<Rightarrow> (d, Some (ErrMsg s)))
          else (d, None)))"

definition ParseDestination :: "string \<Rightarrow> destination \<times> goerr option" where
  "ParseDestination dest =
     (let d = \<lparr>dest_Address = AnyIP, dest_Port = 0, dest_Network = Network_Unknown\<rparr> in
      if prefix ''tcp:'' dest
      then parse_host_port (d\<lparr>dest_Network := Network_TCP\<rparr>) (drop 4 dest)
      else if prefix ''udp:'' dest
      then parse_host_port (d\<lparr>dest_Network := Network_UDP\<rparr>) (drop 4 dest)
      else if prefix ''unix:'' dest
      then (UnixDestination (Some (DomainAddress (drop 5 dest))), None)
      else parse_host_port d dest)"

text \<open>The methods of a destination; they panic on a nil address where the code calls it.\<close>

definition nil_deref :: "'a res" where
  "nil_deref = Panic ''invalid memory address or nil pointer dereference''"

definition dest_NetAddr :: "destination \<Rightarrow> string res" where
  "dest_NetAddr d =
     (if dest_Network d = Network_TCP \<or> dest_Network d = Network_UDP then
        (case dest_Address d of
           None \<Rightarrow> nil_deref
         | Some a \<Rightarrow> Ok (addr_String a @ '':'' @ port_String (dest_Port d)))
      else if dest_Network d = Network_UNIX then
        (case dest_Address d of None \<Rightarrow> nil_deref | Some a \<Rightarrow> Ok (addr_String a))
      else Ok [])"

definition dest_String :: "destination \<Rightarrow> string res" where
  "dest_String d =
     rmap (\<lambda>s. (case dest_Network d of
                  Network_TCP \<Rightarrow> ''tcp:''
                | Network_UDP \<Rightarrow> ''udp:''
                | Network_UNIX \<Rightarrow> ''unix:''
                | Network_Unknown \<Rightarrow> ''unknown:'') @ s)
       (dest_NetAddr d)"

definition RawNetAddr :: "destination \<Rightarrow> net_addr option res" where
  "RawNetAddr d =
     (case dest_Network d of
        Network_Unknown \<Rightarrow> Ok None
      | Network_TCP \<Rightarrow>
         (case dest_Address d of
            None \<Rightarrow> nil_deref
          | Some a \<Rightarrow>
              if IsIP (addr_Family a)
              then rmap (\<lambda>ip. Some (TCPAddr ip (uint (dest_Port d)))) (addr_IP a) else Ok None)
      | Network_UDP \<Rightarrow>
         (case dest_Address d of
            None \<Rightarrow> nil_deref
          | Some a \<Rightarrow>
              if IsIP (addr_Family a)
              then rmap (\<lambda>ip. Some (UDPAddr ip (uint (dest_Port d)))) (addr_IP a) else Ok None)
      | Network_UNIX \<Rightarrow>
         (case dest_Address d of
            None \<Rightarrow> nil_deref
          | Some a \<Rightarrow>
              if IsDomain (addr_Family a)
              then Ok (Some (UnixAddr (addr_String a) (SystemString (dest_Network d))))
              else Ok None))"

definition dest_IsValid :: "destination \<Rightarrow> bool" where
  "dest_IsValid d \<longleftrightarrow> dest_Network d \<noteq> Network_Unknown"

record endpoint =
  ep_Network :: network
  ep_Address :: "ip_or_domain option"
  ep_Port :: u32

definition AsDestination :: "endpoint \<Rightarrow> destination res" where
  "AsDestination p =
     rmap (\<lambda>a. \<lparr>dest_Address = a, dest_Port = ucast (ep_Port p), dest_Network = ep_Network p\<rparr>)
       (AsAddress (ep_Address p))"

section \<open>Lemmas\<close>

lemmas family_defs = AddressFamilyIPv4_def AddressFamilyIPv6_def AddressFamilyDomain_def
  IsIPv4_def IsIPv6_def IsIP_def IsDomain_def

lemma mapped_iff_nth:
  assumes "length b = 16"
  shows "is_v4_mapped b \<longleftrightarrow> take 10 b = replicate 10 0 \<and> b ! 10 = 255 \<and> b ! 11 = 255"
proof -
  have "take 12 b = take 10 b @ [b ! 10, b ! 11]"
    using assms take_Suc_conv_app_nth [of 10 b] take_Suc_conv_app_nth [of 11 b]
    by (simp add: numeral_eq_Suc)
  with assms show ?thesis by (auto simp: is_v4_mapped_def)
qed

lemma IPAddress_IP:
  "addr_wf a \<Longrightarrow> addr_IP a = Ok b \<Longrightarrow> IPAddress b = Some a"
  by (cases a) (auto simp: IPAddress_def mapped_iff_nth)

lemma IPAddress_wf: "IPAddress b = Some a \<Longrightarrow> addr_wf a \<and> IsIP (addr_Family a)"
  by (auto simp: IPAddress_def mapped_iff_nth family_defs split: if_splits)

lemma IPAddress_Some: "length b = 4 \<or> length b = 16 \<Longrightarrow> \<exists>a. IPAddress b = Some a"
  by (auto simp: IPAddress_def)

lemma ParseIP_address:
  "\<exists>a. (case ParseIP s of Some ip \<Rightarrow> IPAddress ip | None \<Rightarrow> Some (DomainAddress s)) = Some a
     \<and> addr_wf a"
proof (cases "ParseIP s")
  case None
  then show ?thesis by (simp add: DomainAddress_def)
next
  case (Some ip)
  then obtain a where "IPAddress ip = Some a"
    using ParseIP_length IPAddress_Some by blast
  with Some show ?thesis using IPAddress_wf by auto
qed

lemma ParseAddress_Some: "\<exists>a. ParseAddress s = Some a \<and> addr_wf a"
  unfolding ParseAddress_def Let_def by (rule ParseIP_address)

lemma ParseAddress_Domain:
  "ParseAddress s = Some (DomainAddr d) \<Longrightarrow> ParseIP d = None"
  unfolding ParseAddress_def Let_def
  by (auto simp: DomainAddress_def family_defs split: option.splits dest!: IPAddress_wf)

text \<open>Reading back a printed IPv4 address.\<close>

lemma parse_v4_octet:
  "n \<le> 255 \<Longrightarrow> parse_v4 prev (itoa n @ rest) fs 0 0 =
     parse_v4 (Some (last (itoa n))) rest fs n (length (itoa n))"
proof (induction n arbitrary: prev rest rule: itoa.induct)
  case (1 n)
  show ?case
  proof (cases "n < 10")
    case True
    then have i: "itoa n = [char_of (48 + n)]" by (subst itoa.simps) simp
    from True show ?thesis
      unfolding i by (simp add: is_digit_char digit_val_char)
  next
    case False
    then have i: "itoa n = itoa (n div 10) @ [char_of (48 + n mod 10)]"
      by (subst itoa.simps) simp
    have "n div 10 \<noteq> 0" using False by simp
    with False 1 show ?thesis
      unfolding i by (simp add: is_digit_char digit_val_char Let_def)
  qed
qed

lemma last_itoa_digit: "is_digit (last (itoa n))"
  using itoa_digits [of n] by (auto simp: list_all_iff)

lemma digit_not_dot: "is_digit c \<Longrightarrow> c \<noteq> CHR ''.''"
  by (auto simp: is_digit_def)

lemma parse_v4_dot:
  "is_digit p \<Longrightarrow> rest \<noteq> [] \<Longrightarrow> length fs < 3 \<Longrightarrow>
     parse_v4 (Some p) (CHR ''.'' # rest) fs v d = parse_v4 (Some (CHR ''.'')) rest (fs @ [v]) 0 0"
  by (auto simp: is_digit_def)

lemma unat_byte_le [simp]: "unat (a :: byte) \<le> 255"
proof -
  have "unat a < 2 ^ LENGTH(8)" by (rule unsigned_less)
  then show ?thesis by simp
qed

lemma itoa_nonempty [simp]: "itoa n \<noteq> []"
  using itoa_digits [of n] by simp

lemma itoa_hd_last [simp]: "is_digit (hd (itoa n))" "is_digit (last (itoa n))"
  using itoa_digits [of n] by (auto simp: list_all_iff)

lemma parseIPv4_v4_string: "parseIPv4 (v4_string [a, b, c, d]) = Some [a, b, c, d]"
proof -
  have "parse_v4 p (itoa (unat d)) [unat a, unat b, unat c] 0 0 = Some [a, b, c, d]" for p
    using parse_v4_octet [of "unat d" p "[]"] by simp
  then show ?thesis
    by (simp add: parseIPv4_def parse_v4_octet parse_v4_dot last_itoa_digit
        del: parse_v4.simps(2))
qed

lemma find_special_digits:
  "list_all is_digit ds \<Longrightarrow>
     List.find (\<lambda>c. c \<in> {CHR ''.'', CHR '':'', CHR ''%''}) (ds @ CHR ''.'' # rest) = Some (CHR ''.'')"
  by (induction ds) (auto simp: is_digit_def)

lemma ParseIP_v4_string: "ParseIP (v4_string [a, b, c, d]) = Some (v4_in_v6 [a, b, c, d])"
proof -
  have "List.find (\<lambda>c. c \<in> {CHR ''.'', CHR '':'', CHR ''%''}) (v4_string [a, b, c, d])
      = Some (CHR ''.'')"
    using find_special_digits itoa_digits by simp
  then show ?thesis unfolding ParseIP_def by (simp only: parseIPv4_v4_string) simp
qed

lemma v4_string_hd_last:
  "v4_string [a, b, c, d] \<noteq> [] \<and> is_digit (hd (v4_string [a, b, c, d])) \<and>
   is_digit (last (v4_string [a, b, c, d]))"
  by (simp add: hd_append)

lemma ParseAddress_v4_string:
  "ParseAddress (v4_string [a, b, c, d]) = Some (IPv4Address [a, b, c, d])"
proof -
  note hl = v4_string_hd_last [of a b c d]
  from hl have nb: "hd (v4_string [a, b, c, d]) \<noteq> CHR ''[''" by (auto simp: is_digit_def)
  from hl nb show ?thesis
    unfolding ParseAddress_def Let_def
    by (simp only: ParseIP_v4_string if_False isAlphaNum_def simp_thms option.case)
      (simp add: IPAddress_def v4_in_v6_def replicate_eq_replicate nth_append)
qed

lemma PortFromString_port_String: "PortFromString (port_String p) = Ok p"
proof -
  have "unat p < 2 ^ LENGTH(16)" by (rule unsigned_less)
  then have p: "unat p < 65536" by simp
  then have u: "unat (word_of_nat (unat p) :: u32) = unat p"
    by (simp only: unat_of_nat) simp
  have "\<not> word_of_nat (unat p) > (65535 :: u32)"
    using p u by (simp only: word_less_nat_alt) simp
  moreover have "ucast (word_of_nat (unat p) :: u32) = p"
    using u by (simp only: unsigned_of_nat take_bit_nat_eq_self) simp
  ultimately show ?thesis
    using p by (simp add: PortFromString_def port_String_def PortFromInt_def)
qed

lemma index_of_append: "c \<notin> set xs \<Longrightarrow> index_of c (xs @ c # ys) = Some (length xs)"
  by (induction xs) auto

lemma last_index_of_append:
  "c \<notin> set ys \<Longrightarrow> last_index_of c (xs @ c # ys) = Some (length xs)"
  by (simp add: last_index_of_def index_of_append)

lemma digits_no_special:
  "list_all is_digit ds \<Longrightarrow> set ds \<inter> {CHR '':'', CHR ''['', CHR '']''} = {}"
  by (induction ds) (auto simp: is_digit_def)

lemma SplitHostPort_join:
  assumes "host \<noteq> []" and "set host \<inter> {CHR '':'', CHR ''['', CHR '']''} = {}"
    and "list_all is_digit pstr"
  shows "SplitHostPort (host @ CHR '':'' # pstr) = Ok (host, pstr)"
proof -
  from digits_no_special [OF assms(3)] assms(2)
  have "last_index_of (CHR '':'') (host @ CHR '':'' # pstr) = Some (length host)"
    by (intro last_index_of_append) auto
  moreover have "hd (host @ CHR '':'' # pstr) \<noteq> CHR ''[''"
    using assms(1,2) by (cases host) auto
  ultimately show ?thesis
    using assms(2) digits_no_special [OF assms(3)]
    by (auto simp: SplitHostPort_def split_finish_def)
qed

text \<open>The destinations whose printed form names them.\<close>

fun printable_host :: "address \<Rightarrow> bool" where
  "printable_host (IPv4Address b) = (length b = 4)"
| "printable_host (IPv6Address b) = False"
| "printable_host (DomainAddr s) =
     (s \<noteq> [] \<and> set s \<inter> {CHR '':'', CHR ''['', CHR '']''} = {} \<and>
      ParseAddress s = Some (DomainAddr s))"

lemma printable_host_string:
  assumes "printable_host a"
  shows "addr_String a \<noteq> [] \<and> set (addr_String a) \<inter> {CHR '':'', CHR ''['', CHR '']''} = {} \<and>
    ParseAddress (addr_String a) = Some a"
proof (cases a)
  case (IPv4Address b)
  with assms obtain w x y z where b: "b = [w, x, y, z]"
    by (auto simp: numeral_eq_Suc length_Suc_conv)
  have "set (v4_string b) \<inter> {CHR '':'', CHR ''['', CHR '']''} = {}"
    unfolding b using digits_no_special itoa_digits by auto
  then show ?thesis
    using v4_string_hd_last [of w x y z] ParseAddress_v4_string [of w x y z]
    by (simp add: IPv4Address ip_string_def b)
qed (use assms in auto)

text \<open>
  Printing and parsing a destination: a TCP or UDP destination whose address is an IPv4
  address or a domain that is not read as something else (no colon or bracket, and
  \<open>ParseAddress\<close> keeps it) is read back unchanged, port included, from \<open>Destination.String\<close>
  by \<open>ParseDestination\<close>.
\<close>

theorem ParseDestination_String:
  assumes "dest_Network d = Network_TCP \<or> dest_Network d = Network_UDP"
    and "dest_Address d = Some a" and "printable_host a"
  shows "\<exists>s. dest_String d = Ok s \<and> ParseDestination s = (d, None)"
proof -
  define hp where "hp = addr_String a @ CHR '':'' # port_String (dest_Port d)"
  note host = printable_host_string [OF assms(3)]
  have digits: "list_all is_digit (port_String (dest_Port d))" "port_String (dest_Port d) \<noteq> []"
    using itoa_digits by (auto simp: port_String_def)
  have split: "SplitHostPort hp = Ok (addr_String a, port_String (dest_Port d))"
    unfolding hp_def using host digits by (intro SplitHostPort_join) auto
  have "parse_host_port e hp = (e\<lparr>dest_Address := Some a, dest_Port := dest_Port d\<rparr>, None)" for e
    using host digits
    by (simp add: parse_host_port_def split PortFromString_port_String)
  then show ?thesis
    using assms(1,2)
    by (cases d) (auto simp: dest_String_def dest_NetAddr_def ParseDestination_def hp_def)
qed

theorem ParseDestination_String_witness:
  "\<exists>s. dest_String (TCPDestination (Some (IPv4Address [10, 0, 0, 1])) 443) = Ok s \<and>
     ParseDestination s = (TCPDestination (Some (IPv4Address [10, 0, 0, 1])) 443, None)"
proof -
  have h: "printable_host (IPv4Address [10, 0, 0, 1])" by simp
  show ?thesis
    by (rule ParseDestination_String [OF _ _ h]) (simp_all add: TCPDestination_def)
qed

text \<open>
  The protobuf form of an address keeps it: every address the constructors can build
  (four bytes, or sixteen that are not a mapped IPv4 address, or a domain) comes back from
  \<open>NewIPOrDomain\<close> followed by \<open>AsAddress\<close>, without a panic.
\<close>

theorem AsAddress_NewIPOrDomain:
  assumes "addr_wf a"
  shows "rbind (NewIPOrDomain a) (\<lambda>m. AsAddress (Some m)) = Ok (Some a)"
  using assms IPAddress_IP [OF assms]
  by (cases a) (auto simp: NewIPOrDomain_def AsAddress_def DomainAddress_def family_defs)

theorem AsAddress_NewIPOrDomain_witness:
  "rbind (NewIPOrDomain (IPv6Address (replicate 15 0 @ [1]))) (\<lambda>m. AsAddress (Some m))
     = Ok (Some (IPv6Address (replicate 15 0 @ [1])))"
  by (rule AsAddress_NewIPOrDomain) (simp add: is_v4_mapped_def, code_simp)

end
