(* ===== verification/ByteFifo.thy ===== *)
theory ByteFifo
  imports Prelude
begin

text \<open>
  The contract of a byte container that is written at one end and read at the other, which
  the buffers of \<open>common/buf\<close> and the pipe of \<open>transport/pipe\<close> implement: a write takes a
  prefix of what it is offered, a read removes a prefix of the content. What follows from
  the contract for whole histories is proved here once.
\<close>

datatype fifo_op = PutOp bytes | GetOp nat

text \<open>
  A history: the resulting container, the bytes the writes took and the bytes the reads
  delivered, in order.
\<close>

fun fifo_run ::
  "('s \<Rightarrow> bytes \<Rightarrow> 's \<times> nat) \<Rightarrow> ('s \<Rightarrow> nat \<Rightarrow> 's \<times> bytes) \<Rightarrow> fifo_op list \<Rightarrow> 's \<Rightarrow>
     's \<times> bytes \<times> bytes" where
  "fifo_run wr rd [] s = (s, [], [])"
| "fifo_run wr rd (PutOp d # ops) s =
     (case wr s d of (s1, n) \<Rightarrow>
        (case fifo_run wr rd ops s1 of (s2, acc, del) \<Rightarrow> (s2, take n d @ acc, del)))"
| "fifo_run wr rd (GetOp k # ops) s =
     (case rd s k of (s1, out) \<Rightarrow>
        (case fifo_run wr rd ops s1 of (s2, acc, del) \<Rightarrow> (s2, acc, out @ del)))"

locale byte_fifo =
  fixes contents :: "'s \<Rightarrow> bytes"
    and inv :: "'s \<Rightarrow> bool"
    and wr :: "'s \<Rightarrow> bytes \<Rightarrow> 's \<times> nat"
    and rd :: "'s \<Rightarrow> nat \<Rightarrow> 's \<times> bytes"
  assumes wr_spec: "inv s \<Longrightarrow> wr s d = (s', n) \<Longrightarrow>
      inv s' \<and> n \<le> length d \<and> contents s' = contents s @ take n d"
    and rd_spec: "inv s \<Longrightarrow> rd s k = (s', out) \<Longrightarrow>
      inv s' \<and> length out \<le> k \<and> contents s = out @ contents s'"
begin

lemma run_inv_fifo:
  "inv s \<Longrightarrow> fifo_run wr rd ops s = (s', acc, del) \<Longrightarrow>
     inv s' \<and> contents s @ acc = del @ contents s'"
proof (induction ops arbitrary: s s' acc del)
  case Nil
  then show ?case by simp
next
  case (Cons op ops)
  show ?case
  proof (cases op)
    case (PutOp d)
    obtain s1 n where w: "wr s d = (s1, n)" by fastforce
    obtain s2 acc1 del1 where r: "fifo_run wr rd ops s1 = (s2, acc1, del1)"
      by (metis prod_cases3)
    from wr_spec [OF Cons.prems(1) w] Cons.IH [OF _ r] Cons.prems(2) show ?thesis
      by (auto simp: PutOp w r)
  next
    case (GetOp k)
    obtain s1 out where w: "rd s k = (s1, out)" by fastforce
    obtain s2 acc1 del1 where r: "fifo_run wr rd ops s1 = (s2, acc1, del1)"
      by (metis prod_cases3)
    from rd_spec [OF Cons.prems(1) w] Cons.IH [OF _ r] Cons.prems(2) show ?thesis
      by (auto simp: GetOp w r)
  qed
qed

lemma run_prefix:
  assumes "inv s" and "contents s = []" and "fifo_run wr rd ops s = (s', acc, del)"
  shows "prefix del acc"
  using run_inv_fifo [OF assms(1,3)] assms(2) by (auto simp: prefix_def)

end

end
