(* ===== verification/BytesPool.thy ===== *)
theory BytesPool
  imports Prelude
begin

text \<open>
  The buffer pools of \<open>common/bytespool/pool.go\<close>: four pools of recycled arrays whose
  sizes grow by a factor of four from 2048. A \<open>sync.Pool\<close> may hand out any array put into
  it, or a new one; which of them is the argument \<open>pick\<close> of the operations.
\<close>

definition numPools :: nat where "numPools = 4"

definition sizeMulti :: int where "sizeMulti = 4"

fun pool_sizes :: "nat \<Rightarrow> int \<Rightarrow> int list" where
  "pool_sizes 0 sz = []"
| "pool_sizes (Suc k) sz = sz # pool_sizes k (i32 (sz * sizeMulti))"

definition poolSize :: "int list" where
  "poolSize = pool_sizes numPools 2048"

type_synonym pools = "bytes list list"

definition pools_init :: pools where
  "pools_init = replicate numPools []"

fun get_pool_from :: "nat \<Rightarrow> int list \<Rightarrow> int \<Rightarrow> nat option" where
  "get_pool_from i [] sz = None"
| "get_pool_from i (ps # rest) sz =
     (if sz \<le> ps then Some i else get_pool_from (Suc i) rest sz)"

definition GetPool :: "int \<Rightarrow> nat option" where
  "GetPool sz = get_pool_from 0 poolSize sz"

text \<open>\<open>sync.Pool.Get\<close> on pool \<open>i\<close>: stored array number \<open>k\<close>, or a new array of the pool's sz.\<close>

definition pool_get :: "nat option \<Rightarrow> pools \<Rightarrow> nat \<Rightarrow> bytes \<times> pools" where
  "pool_get pick ps i =
     (case pick of
        Some k \<Rightarrow>
          (if k < length (ps ! i)
           then (ps ! i ! k, ps[i := take k (ps ! i) @ drop (Suc k) (ps ! i)])
           else (replicate (nat (poolSize ! i)) 0, ps))
      | None \<Rightarrow> (replicate (nat (poolSize ! i)) 0, ps))"

definition Alloc :: "nat option \<Rightarrow> pools \<Rightarrow> int \<Rightarrow> bytes \<times> pools" where
  "Alloc pick ps sz =
     (case GetPool sz of
        Some i \<Rightarrow> pool_get pick ps i
      | None \<Rightarrow> (replicate (nat sz) 0, ps))"

text \<open>The loop of \<open>Free\<close> runs from the largest pool down.\<close>

fun free_into :: "nat \<Rightarrow> int \<Rightarrow> bytes \<Rightarrow> pools \<Rightarrow> pools" where
  "free_into 0 sz b ps = ps"
| "free_into (Suc i) sz b ps =
     (if poolSize ! i \<le> sz then ps[i := ps ! i @ [b]] else free_into i sz b ps)"

definition Free :: "bytes \<Rightarrow> pools \<Rightarrow> pools" where
  "Free b ps = free_into numPools (i32 (int (length b))) b ps"

section \<open>Lemmas\<close>

lemma poolSize_eval: "poolSize = [2048, 8192, 32768, 131072]"
  by (simp add: poolSize_def numPools_def sizeMulti_def numeral_eq_Suc)

definition pools_inv :: "pools \<Rightarrow> bool" where
  "pools_inv ps \<longleftrightarrow> length ps = numPools \<and>
     (\<forall>i < numPools. \<forall>a \<in> set (ps ! i). poolSize ! i \<le> int (length a))"

lemma pools_inv_init: "pools_inv pools_init"
  by (simp add: pools_inv_def pools_init_def)

lemma get_pool_from_Some:
  "get_pool_from i ps sz = Some j \<Longrightarrow> i \<le> j \<and> j - i < length ps \<and> sz \<le> ps ! (j - i)"
proof (induction i ps sz rule: get_pool_from.induct)
  case (2 i ps rest sz)
  show ?case
  proof (cases "sz \<le> ps")
    case False
    with 2 have "Suc i \<le> j \<and> j - Suc i < length rest \<and> sz \<le> rest ! (j - Suc i)" by simp
    then show ?thesis by (auto simp: nth_Cons')
  qed (use 2 in auto)
qed simp

lemma GetPool_Some:
  "GetPool sz = Some j \<Longrightarrow> j < numPools \<and> sz \<le> poolSize ! j"
  unfolding GetPool_def
  by (drule get_pool_from_Some) (simp add: poolSize_eval numPools_def)

lemma pool_get_inv:
  assumes "pools_inv ps" and "i < numPools" and "pool_get pick ps i = (a, ps')"
  shows "pools_inv ps' \<and> poolSize ! i \<le> int (length a)"
proof -
  have "set (take k (ps ! i) @ drop (Suc k) (ps ! i)) \<subseteq> set (ps ! i)" for k
    by (auto dest: in_set_takeD in_set_dropD)
  with assms show ?thesis
    by (fastforce simp: pools_inv_def pool_get_def nth_list_update
        split: option.splits if_splits)
qed

lemma free_into_inv:
  "pools_inv ps \<Longrightarrow> k \<le> numPools \<Longrightarrow> sz \<le> int (length b) \<Longrightarrow> pools_inv (free_into k sz b ps)"
  by (induction k) (auto simp: pools_inv_def nth_list_update)

lemma i32_le: "0 \<le> x \<Longrightarrow> i32 x \<le> x"
proof -
  assume "0 \<le> x"
  have "(x + 2147483648) mod 4294967296 \<le> x + 2147483648"
    by (rule zmod_le_nonneg_dividend) (use \<open>0 \<le> x\<close> in simp)
  then show ?thesis by (simp add: i32_def)
qed

lemma Free_inv [invariants]: "pools_inv ps \<Longrightarrow> pools_inv (Free b ps)"
  unfolding Free_def by (rule free_into_inv) (auto intro: i32_le)

lemma Alloc_inv [invariants]:
  "pools_inv ps \<Longrightarrow> Alloc pick ps sz = (a, ps') \<Longrightarrow> pools_inv ps'"
  by (auto simp: Alloc_def split: option.splits dest!: GetPool_Some dest: pool_get_inv)

datatype pool_op = OpAlloc "nat option" int | OpFree bytes

fun pool_run :: "pool_op list \<Rightarrow> pools \<Rightarrow> pools" where
  "pool_run [] ps = ps"
| "pool_run (OpAlloc pick sz # ops) ps = pool_run ops (snd (Alloc pick ps sz))"
| "pool_run (OpFree b # ops) ps = pool_run ops (Free b ps)"

lemma pool_run_inv: "pools_inv ps \<Longrightarrow> pools_inv (pool_run ops ps)"
proof (induction ops ps rule: pool_run.induct)
  case (2 pick sz ops ps)
  then show ?case by (cases "Alloc pick ps sz") (auto dest: Alloc_inv)
qed (auto intro: Free_inv)

text \<open>
  An allocation is never too small: after any history of allocations and frees (frees of
  arrays of any sz, whatever the pools hand out), \<open>Alloc sz\<close> returns a slice of at least
  \<open>sz\<close> bytes, and of at least 2048.
\<close>

theorem Alloc_size:
  "sz \<le> int (length (fst (Alloc pick (pool_run ops pools_init) sz))) \<and>
   2048 \<le> length (fst (Alloc pick (pool_run ops pools_init) sz))"
proof -
  define ps where "ps = pool_run ops pools_init"
  have inv: "pools_inv ps" unfolding ps_def by (intro pool_run_inv pools_inv_init)
  show ?thesis
  proof (cases "GetPool sz")
    case (Some i)
    note gi = GetPool_Some [OF Some]
    obtain a ps' where a: "pool_get pick ps i = (a, ps')" by fastforce
    with gi inv have "poolSize ! i \<le> int (length a)" by (blast dest: pool_get_inv)
    moreover have "2048 \<le> poolSize ! i"
      using gi by (auto simp: poolSize_eval numPools_def less_Suc_eq numeral_eq_Suc)
    ultimately show ?thesis
      using gi by (simp add: Alloc_def Some a flip: ps_def)
  next
    case None
    then have "131072 < sz"
      by (simp add: GetPool_def poolSize_eval not_le split: if_splits)
    then show ?thesis by (simp add: Alloc_def None)
  qed
qed

end
