(* ===== verification/Buffer.thy ===== *)
theory Buffer
  imports ByteFifo BytesPool NetAddr
begin

text \<open>
  The recyclable byte buffer of \<open>common/buf/buffer.go\<close>. A buffer is a slice \<open>buf_v\<close> and the
  bounds \<open>buf_start\<close>, \<open>buf_end\<close> of its content, both \<open>int32\<close>. Operations return the new
  buffer; slicing and indexing panic where Go does. \<open>content\<close> is the abstract value of a
  buffer: the bytes between its bounds.
\<close>

section \<open>State and operations\<close>

definition Size :: int where "Size = 8192"

datatype ownership = managed | unmanaged | bytespools

record buffer =
  buf_v :: gslice
  buf_start :: int
  buf_end :: int
  buf_own :: ownership
  buf_UDP :: "destination option"

text \<open>\<open>New\<close> and \<open>StackNew\<close> on the array \<open>p\<close> their pool handed out.\<close>

definition New :: "bytes \<Rightarrow> buffer" where
  "New p =
     \<lparr>buf_v = (if Size \<le> int (length p) then Mk_slice p (nat Size)
               else Mk_slice (replicate (nat Size) 0) (nat Size)),
      buf_start = 0, buf_end = 0, buf_own = managed, buf_UDP = None\<rparr>"

definition NewExisted :: "gslice \<Rightarrow> buffer res" where
  "NewExisted b =
     (if scap b < Size then Panic ''Invalid buffer''
      else
        (let oLen = slen b;
             v = (if oLen < Size then Mk_slice (sarr b) (nat Size) else b) in
         Ok \<lparr>buf_v = v, buf_start = 0, buf_end = i32 oLen, buf_own = managed, buf_UDP = None\<rparr>))"

definition FromBytes :: "gslice \<Rightarrow> buffer" where
  "FromBytes b =
     \<lparr>buf_v = b, buf_start = 0, buf_end = i32 (slen b), buf_own = unmanaged, buf_UDP = None\<rparr>"

definition NewWithSize :: "nat option \<Rightarrow> pools \<Rightarrow> int \<Rightarrow> buffer \<times> pools" where
  "NewWithSize pick ps n =
     (case Alloc pick ps n of
        (a, ps') \<Rightarrow>
          (\<lparr>buf_v = Mk_slice a (length a), buf_start = 0, buf_end = 0, buf_own = bytespools,
            buf_UDP = None\<rparr>, ps'))"

definition Clear :: "buffer \<Rightarrow> buffer" where
  "Clear b = b\<lparr>buf_start := 0, buf_end := 0\<rparr>"

text \<open>
  \<open>Release\<close> on a buffer that is not nil; \<open>pool\<close> index 1 is the pool of \<open>Size\<close>-byte arrays
  that \<open>New\<close> takes from.
\<close>

definition Release :: "buffer \<Rightarrow> pools \<Rightarrow> buffer \<times> pools" where
  "Release b ps =
     (if buf_v b = Nil_slice \<or> buf_own b = unmanaged then (b, ps)
      else
        (let p = buf_v b;
             b' = Clear (b\<lparr>buf_v := Nil_slice\<rparr>);
             ps' = (case buf_own b of
                      managed \<Rightarrow> if scap p = Size then ps[1 := ps ! 1 @ [sarr p]] else ps
                    | bytespools \<Rightarrow> Free (sarr p) ps
                    | unmanaged \<Rightarrow> ps) in
         (b'\<lparr>buf_UDP := None\<rparr>, ps')))"

definition Len :: "buffer \<Rightarrow> int" where
  "Len b = i32 (buf_end b - buf_start b)"

definition Cap :: "buffer \<Rightarrow> int" where
  "Cap b = i32 (slen (buf_v b))"

definition IsEmpty :: "buffer \<Rightarrow> bool" where
  "IsEmpty b \<longleftrightarrow> Len b = 0"

definition IsFull :: "buffer \<Rightarrow> bool" where
  "IsFull b \<longleftrightarrow> buf_end b = i32 (slen (buf_v b))"

definition buf_Byte :: "buffer \<Rightarrow> int \<Rightarrow> byte res" where
  "buf_Byte b i = slice_get (buf_v b) (i32 (buf_start b + i))"

definition SetByte :: "buffer \<Rightarrow> int \<Rightarrow> byte \<Rightarrow> buffer res" where
  "SetByte b i x =
     rmap (\<lambda>s. b\<lparr>buf_v := s\<rparr>) (slice_set (buf_v b) (i32 (buf_start b + i)) x)"

definition Bytes :: "buffer \<Rightarrow> bytes res" where
  "Bytes b = slice_range (buf_v b) (buf_start b) (buf_end b)"

definition zero_fill :: "int \<Rightarrow> int \<Rightarrow> gslice \<Rightarrow> gslice" where
  "zero_fill lo hi s =
     upd_arr (\<lambda>a. overwrite a (nat lo) (replicate (min (nat (hi - lo)) (nat (Size * 10))) 0)) s"

text \<open>\<open>Extend\<close> also returns where the extended part lies in the buffer's slice.\<close>

definition Extend :: "buffer \<Rightarrow> int \<Rightarrow> (buffer \<times> int) res" where
  "Extend b n =
     (let e = i32 (buf_end b + n) in
      if e > i32 (slen (buf_v b)) then Panic ''extending out of bound''
      else rbind (slice_range (buf_v b) (buf_end b) e)
        (\<lambda>_. Ok (b\<lparr>buf_v := zero_fill (buf_end b) e (buf_v b), buf_end := e\<rparr>, buf_end b)))"

text \<open>Writing into a part of the slice that \<open>Extend\<close> returned, from its position \<open>off\<close>.\<close>

definition put_at :: "buffer \<Rightarrow> int \<Rightarrow> bytes \<Rightarrow> buffer" where
  "put_at b off bs = b\<lparr>buf_v := upd_arr (\<lambda>a. overwrite a (nat off) bs) (buf_v b)\<rparr>"

definition BytesRange :: "buffer \<Rightarrow> int \<Rightarrow> int \<Rightarrow> bytes res" where
  "BytesRange b f t =
     (let f = (if f < 0 then i32 (f + Len b) else f);
          t = (if t < 0 then i32 (t + Len b) else t) in
      slice_range (buf_v b) (i32 (buf_start b + f)) (i32 (buf_start b + t)))"

definition BytesFrom :: "buffer \<Rightarrow> int \<Rightarrow> bytes res" where
  "BytesFrom b f =
     (let f = (if f < 0 then i32 (f + Len b) else f) in
      slice_range (buf_v b) (i32 (buf_start b + f)) (buf_end b))"

definition BytesTo :: "buffer \<Rightarrow> int \<Rightarrow> bytes res" where
  "BytesTo b t =
     (let t = (if t < 0 then i32 (t + Len b) else t);
          t = (if t < 0 then 0 else t) in
      slice_range (buf_v b) (buf_start b) (i32 (buf_start b + t)))"

definition Check :: "buffer \<Rightarrow> buffer" where
  "Check b =
     (let s = (if buf_start b < 0 then 0 else buf_start b);
          e = (if buf_end b < 0 then 0 else buf_end b) in
      b\<lparr>buf_start := (if s > e then e else s), buf_end := e\<rparr>)"

definition Resize :: "buffer \<Rightarrow> int \<Rightarrow> int \<Rightarrow> buffer res" where
  "Resize b f t =
     (let oldEnd = buf_end b;
          f = (if f < 0 then i32 (f + Len b) else f);
          t = (if t < 0 then i32 (t + Len b) else t) in
      if t < f then Panic ''Invalid slice''
      else
        (let b1 = Check (b\<lparr>buf_end := i32 (buf_start b + t), buf_start := i32 (buf_start b + f)\<rparr>) in
         if buf_end b1 > oldEnd then
           rmap (\<lambda>_. b1\<lparr>buf_v := zero_fill oldEnd (buf_end b1) (buf_v b1)\<rparr>)
             (slice_range (buf_v b1) oldEnd (buf_end b1))
         else Ok b1))"

definition Advance :: "buffer \<Rightarrow> int \<Rightarrow> buffer" where
  "Advance b f =
     (let f = (if f < 0 then i32 (f + Len b) else f) in
      Check (b\<lparr>buf_start := i32 (buf_start b + f)\<rparr>))"

text \<open>\<open>b.v[b.end:]\<close>, where the writing operations put their bytes: its length.\<close>

definition tail_len :: "buffer \<Rightarrow> nat res" where
  "tail_len b = rmap length (slice_range (buf_v b) (buf_end b) (slen (buf_v b)))"

definition append_at_end :: "buffer \<Rightarrow> bytes \<Rightarrow> buffer" where
  "append_at_end b bs =
     b\<lparr>buf_v := upd_arr (\<lambda>a. overwrite a (nat (buf_end b)) bs) (buf_v b),
       buf_end := i32 (buf_end b + int (length bs))\<rparr>"

definition Write :: "buffer \<Rightarrow> bytes \<Rightarrow> (buffer \<times> nat) res" where
  "Write b data =
     rmap (\<lambda>room. (append_at_end b (take room data), min room (length data))) (tail_len b)"

definition WriteByte :: "buffer \<Rightarrow> byte \<Rightarrow> buffer res" where
  "WriteByte b x =
     (if IsFull b then Err (ErrMsg ''buffer full'')
      else rmap (\<lambda>s. b\<lparr>buf_v := s, buf_end := i32 (buf_end b + 1)\<rparr>)
        (slice_set (buf_v b) (buf_end b) x))"

definition WriteString :: "buffer \<Rightarrow> string \<Rightarrow> (buffer \<times> nat) res" where
  "WriteString b s = Write b (to_bytes s)"

definition ReadByte :: "buffer \<Rightarrow> (buffer \<times> byte) res" where
  "ReadByte b =
     (if buf_start b = buf_end b then Err EOF
      else rmap (\<lambda>x. (b\<lparr>buf_start := i32 (buf_start b + 1)\<rparr>, x))
        (slice_get (buf_v b) (buf_start b)))"

definition ReadBytes :: "buffer \<Rightarrow> int \<Rightarrow> (buffer \<times> bytes) res" where
  "ReadBytes b n =
     (if i32 (buf_end b - buf_start b) < n then Err EOF
      else rmap (\<lambda>bs. (b\<lparr>buf_start := i32 (buf_start b + n)\<rparr>, bs))
        (slice_range (buf_v b) (buf_start b) (i32 (buf_start b + n))))"

text \<open>\<open>Read\<close> into a slice of length \<open>k\<close>: the bytes copied into it.\<close>

definition Read :: "buffer \<Rightarrow> nat \<Rightarrow> (buffer \<times> bytes) res" where
  "Read b k =
     (if Len b = 0 then Err EOF
      else rmap (\<lambda>bs.
          (let out = take k bs in
           if i32 (int (length out)) = Len b then (Clear b, out)
           else (b\<lparr>buf_start := i32 (buf_start b + i32 (int (length out)))\<rparr>, out)))
        (Bytes b))"

text \<open>
  \<open>ReadFrom\<close> calls \<open>reader.Read\<close> once on the free part of the buffer; \<open>rd n\<close> is what that
  call answers for a slice of length \<open>n\<close>: at most \<open>n\<close> bytes and an error.
\<close>

definition ReadFrom ::
  "buffer \<Rightarrow> (nat \<Rightarrow> bytes \<times> goerr option) \<Rightarrow> (buffer \<times> nat \<times> goerr option) res" where
  "ReadFrom b rd =
     rmap (\<lambda>room. case rd room of (bs, err) \<Rightarrow> (append_at_end b bs, length bs, err)) (tail_len b)"

definition ReadFullFrom ::
  "buffer \<Rightarrow> stream \<Rightarrow> int \<Rightarrow> (buffer \<times> nat \<times> goerr option \<times> stream) res" where
  "ReadFullFrom b s n =
     (let e = i32 (buf_end b + n) in
      if e > i32 (slen (buf_v b)) then Ok (b, 0, Some (ErrMsg ''out of bound: ''), s)
      else rmap (\<lambda>dst. case read_full (length dst) s of
                    (bs, err, s') \<Rightarrow> (append_at_end b bs, length bs, err, s'))
        (slice_range (buf_v b) (buf_end b) e))"

definition buf_String :: "buffer \<Rightarrow> string res" where
  "buf_String b = rmap of_bytes (Bytes b)"

section \<open>Well-formed buffers and their content\<close>

definition buf_wf :: "buffer \<Rightarrow> bool" where
  "buf_wf b \<longleftrightarrow> slice_wf (buf_v b) \<and> scap (buf_v b) < 2147483648 \<and>
     0 \<le> buf_start b \<and> buf_start b \<le> buf_end b \<and> buf_end b \<le> slen (buf_v b)"

definition content :: "buffer \<Rightarrow> bytes" where
  "content b = take (nat (buf_end b - buf_start b)) (drop (nat (buf_start b)) (sarr (buf_v b)))"

definition room :: "buffer \<Rightarrow> nat" where
  "room b = nat (slen (buf_v b) - buf_end b)"

lemma buf_wf_bounds:
  assumes "buf_wf b"
  shows "0 \<le> buf_start b" "buf_start b \<le> buf_end b" "buf_end b \<le> slen (buf_v b)"
    "slen (buf_v b) \<le> int (length (sarr (buf_v b)))" "int (length (sarr (buf_v b))) < 2147483648"
  using assms slen_le_scap [of "buf_v b"] by (auto simp: buf_wf_def scap_def)

lemma length_content: "buf_wf b \<Longrightarrow> int (length (content b)) = buf_end b - buf_start b"
  using buf_wf_bounds [of b] by (simp add: content_def)

lemma Len_content: "buf_wf b \<Longrightarrow> Len b = int (length (content b))"
  using buf_wf_bounds [of b] by (simp add: Len_def length_content)

lemma IsEmpty_content: "buf_wf b \<Longrightarrow> IsEmpty b \<longleftrightarrow> content b = []"
  by (simp add: IsEmpty_def Len_content)

lemma IsFull_room: "buf_wf b \<Longrightarrow> IsFull b \<longleftrightarrow> room b = 0"
  using buf_wf_bounds [of b] by (auto simp: IsFull_def room_def)

lemma Bytes_content [simp]: "buf_wf b \<Longrightarrow> Bytes b = Ok (content b)"
  using buf_wf_bounds [of b] by (simp add: Bytes_def slice_range_def scap_def content_def)

lemma slice_range_content:
  assumes "buf_wf b" and "0 \<le> i" and "i \<le> j" and "j \<le> Len b"
  shows "slice_range (buf_v b) (buf_start b + i) (buf_start b + j) =
    Ok (take (nat (j - i)) (drop (nat i) (content b)))"
proof -
  note w = buf_wf_bounds [OF assms(1)] length_content [OF assms(1)] Len_content [OF assms(1)]
  have "nat (j - i) \<le> nat (buf_end b - buf_start b) - nat i"
    using assms w by simp
  moreover have "nat (buf_start b + i) = nat i + nat (buf_start b)"
    using assms w by simp
  ultimately have "take (nat (j - i)) (drop (nat (buf_start b + i)) (sarr (buf_v b))) =
      take (nat (j - i)) (drop (nat i) (content b))"
    unfolding content_def by (simp add: drop_take min_absorb1 del: take_take) (simp add: min_absorb1)
  then show ?thesis using assms w by (simp add: slice_range_def scap_def)
qed

lemma BytesFrom_content:
  assumes "buf_wf b" and "0 \<le> n" and "n \<le> Len b"
  shows "BytesFrom b n = Ok (drop (nat n) (content b))"
proof -
  note w = buf_wf_bounds [OF assms(1)] length_content [OF assms(1)] Len_content [OF assms(1)]
  have "BytesFrom b n = slice_range (buf_v b) (buf_start b + n) (buf_start b + Len b)"
    using assms w by (simp add: BytesFrom_def)
  then show ?thesis using slice_range_content [OF assms order.refl] w by simp
qed

lemma BytesFrom_last:
  assumes "buf_wf b" and "0 < n" and "n \<le> Len b"
  shows "BytesFrom b (- n) = Ok (drop (length (content b) - nat n) (content b))"
proof -
  note w = buf_wf_bounds [OF assms(1)] length_content [OF assms(1)] Len_content [OF assms(1)]
  have "BytesFrom b (- n) = BytesFrom b (Len b - n)"
    using assms w by (simp add: BytesFrom_def)
  also have "\<dots> = Ok (drop (nat (Len b - n)) (content b))"
    using assms by (intro BytesFrom_content) auto
  also have "nat (Len b - n) = length (content b) - nat n"
    using assms w by simp
  finally show ?thesis .
qed

lemma BytesTo_content:
  assumes "buf_wf b" and "0 \<le> n" and "n \<le> Len b"
  shows "BytesTo b n = Ok (take (nat n) (content b))"
  using slice_range_content [OF assms(1) order.refl assms(2,3)] assms
    buf_wf_bounds [OF assms(1)] Len_content [OF assms(1)] length_content [OF assms(1)]
  by (simp add: BytesTo_def)

lemma buf_Byte_content:
  assumes "buf_wf b" and "0 \<le> i" and "i < Len b"
  shows "buf_Byte b i = Ok (content b ! nat i)"
  using assms buf_wf_bounds [OF assms(1)] length_content [OF assms(1)] Len_content [OF assms(1)]
  by (simp add: buf_Byte_def slice_get_def content_def nat_add_distrib)

section \<open>Writing\<close>

lemma append_at_end_content:
  assumes "buf_wf b" and "length bs \<le> room b"
  shows "buf_wf (append_at_end b bs) \<and> content (append_at_end b bs) = content b @ bs \<and>
    room (append_at_end b bs) = room b - length bs \<and> buf_UDP (append_at_end b bs) = buf_UDP b"
proof -
  note w = buf_wf_bounds [OF assms(1)]
  have fit: "nat (buf_end b) + length bs \<le> length (sarr (buf_v b))"
    using assms w by (simp add: room_def)
  have e: "i32 (buf_end b + int (length bs)) = buf_end b + int (length bs)"
    using fit w by simp
  obtain a n where v: "buf_v b = Mk_slice a n \<or> (buf_v b = Nil_slice \<and> bs = [])"
    using assms w by (cases "buf_v b") (auto simp: room_def)
  have arr: "sarr (buf_v (append_at_end b bs)) = overwrite (sarr (buf_v b)) (nat (buf_end b)) bs"
    using v by (auto simp: append_at_end_def)
  have n: "nat (buf_end b + int (length bs) - buf_start b) = nat (buf_end b - buf_start b) + length bs"
    using w by simp
  have "content (append_at_end b bs) = content b @ bs"
  proof -
    have "take (nat (buf_end b - buf_start b) + length bs)
        (drop (nat (buf_start b)) (overwrite (sarr (buf_v b)) (nat (buf_end b)) bs)) =
      drop (nat (buf_start b))
        (take (nat (buf_end b) + length bs) (overwrite (sarr (buf_v b)) (nat (buf_end b)) bs))"
      using w by (simp add: drop_take nat_diff_distrib)
    also have "\<dots> = drop (nat (buf_start b)) (take (nat (buf_end b)) (sarr (buf_v b)) @ bs)"
      using fit by (simp add: take_overwrite_end)
    also have "\<dots> = content b @ bs"
      using w fit by (simp add: content_def drop_take nat_diff_distrib)
    finally show ?thesis
      using n e arr by (simp add: content_def [of "append_at_end b bs"]) (simp add: append_at_end_def)
  qed
  moreover have "buf_wf (append_at_end b bs)"
    using assms w fit e v
    by (auto simp: buf_wf_def append_at_end_def scap_def room_def)
  moreover have "room (append_at_end b bs) = room b - length bs"
    using e w by (simp add: room_def append_at_end_def)
  ultimately show ?thesis by (simp add: append_at_end_def)
qed


lemma tail_len_room: "buf_wf b \<Longrightarrow> tail_len b = Ok (room b)"
  using buf_wf_bounds [of b]
  by (simp add: tail_len_def slice_range_def scap_def room_def)

lemma Write_content:
  assumes "buf_wf b"
  shows "\<exists>b'. Write b data = Ok (b', min (room b) (length data)) \<and> buf_wf b' \<and>
    content b' = content b @ take (room b) data \<and> room b' = room b - length data \<and>
    buf_UDP b' = buf_UDP b"
  using assms append_at_end_content [OF assms, of "take (room b) data"]
  by (simp add: Write_def tail_len_room)

lemma Write_fits:
  assumes "buf_wf b" and "length data \<le> room b"
  shows "Write b data = Ok (append_at_end b data, length data)"
  using assms by (simp add: Write_def tail_len_room min_absorb2)

lemma WriteByte_append:
  assumes "buf_wf b" and "room b \<noteq> 0"
  shows "WriteByte b x = Ok (append_at_end b [x])"
proof -
  note w = buf_wf_bounds [OF assms(1)]
  have lt: "buf_end b < slen (buf_v b)" using assms w by (simp add: room_def)
  then have "nat (buf_end b) < length (sarr (buf_v b))" using w by linarith
  then have "(sarr (buf_v b))[nat (buf_end b) := x] = overwrite (sarr (buf_v b)) (nat (buf_end b)) [x]"
    by (simp add: overwrite_def upd_conv_take_nth_drop)
  with lt w show ?thesis
    using assms
    by (cases "buf_v b")
      (auto simp: WriteByte_def IsFull_room slice_set_def append_at_end_def)
qed

lemma WriteByte_full: "buf_wf b \<Longrightarrow> room b = 0 \<Longrightarrow> WriteByte b x = Err (ErrMsg ''buffer full'')"
  by (simp add: WriteByte_def IsFull_room)

lemma Extend_content:
  assumes "buf_wf b" and "0 \<le> n" and "nat n \<le> room b" and "n \<le> Size * 10"
  shows "Extend b n = Ok (append_at_end b (replicate (nat n) 0), buf_end b)"
  using assms buf_wf_bounds [OF assms(1)]
  by (simp add: Extend_def Let_def slice_range_def scap_def zero_fill_def append_at_end_def room_def
      min_absorb1 nat_mono)

lemma Extend_panics:
  "buf_wf b \<Longrightarrow> 0 \<le> n \<Longrightarrow> n < 2147483648 - Size * 10 \<Longrightarrow> room b < nat n \<Longrightarrow>
     buf_end b + n < 2147483648 \<Longrightarrow> Extend b n = Panic ''extending out of bound''"
  using buf_wf_bounds [of b] by (simp add: Extend_def Let_def room_def)

lemma append_at_end_append:
  assumes "buf_wf b" and "length xs + length ys \<le> room b"
  shows "append_at_end (append_at_end b xs) ys = append_at_end b (xs @ ys)"
proof -
  note w = buf_wf_bounds [OF assms(1)]
  have "overwrite (overwrite a (nat (buf_end b)) xs) (nat (buf_end b + int (length xs))) ys =
      overwrite a (nat (buf_end b)) (xs @ ys)"
    if "int (length a) \<ge> buf_end b + int (length xs + length ys)" for a :: bytes
  proof -
    have "nat (buf_end b + int (length xs)) = nat (buf_end b) + length xs" using w by simp
    then show ?thesis using that w by (simp add: overwrite_def min_absorb1 ac_simps)
  qed
  with assms w show ?thesis
    by (cases "buf_v b") (auto simp: append_at_end_def room_def algebra_simps)
qed

section \<open>Reading\<close>

lemma advance_start_content:
  assumes "buf_wf b" and "0 \<le> n" and "n \<le> Len b"
  shows "buf_wf (b\<lparr>buf_start := buf_start b + n\<rparr>) \<and>
    content (b\<lparr>buf_start := buf_start b + n\<rparr>) = drop (nat n) (content b) \<and>
    room (b\<lparr>buf_start := buf_start b + n\<rparr>) = room b"
proof -
  note w = buf_wf_bounds [OF assms(1)] length_content [OF assms(1)] Len_content [OF assms(1)]
  have "nat (buf_start b + n) = nat n + nat (buf_start b)" using assms w by simp
  moreover have "nat (buf_end b - (buf_start b + n)) = nat (buf_end b - buf_start b) - nat n"
    using assms w by simp
  ultimately have "content (b\<lparr>buf_start := buf_start b + n\<rparr>) = drop (nat n) (content b)"
    by (simp add: content_def drop_take)
  then show ?thesis using assms w by (simp add: buf_wf_def room_def)
qed

lemma Advance_content:
  assumes "buf_wf b" and "0 \<le> n" and "n \<le> Len b"
  shows "Advance b n = b\<lparr>buf_start := buf_start b + n\<rparr>"
  using assms buf_wf_bounds [OF assms(1)] Len_content [OF assms(1)] length_content [OF assms(1)]
  by (simp add: Advance_def Check_def Let_def)

lemma Clear_content: "buf_wf b \<Longrightarrow> buf_wf (Clear b) \<and> content (Clear b) = []"
  by (simp add: Clear_def buf_wf_def content_def)

lemma Read_content:
  assumes "buf_wf b"
  shows "content b = [] \<Longrightarrow> Read b k = Err EOF"
    and "content b \<noteq> [] \<Longrightarrow> \<exists>b'. Read b k = Ok (b', take k (content b)) \<and> buf_wf b' \<and>
      content b' = drop k (content b)"
proof -
  show "content b = [] \<Longrightarrow> Read b k = Err EOF" by (simp add: Read_def Len_content assms)
  assume ne: "content b \<noteq> []"
  note w = buf_wf_bounds [OF assms] length_content [OF assms] Len_content [OF assms]
  have nz: "Len b \<noteq> 0" using ne Len_content [OF assms] by simp
  define n where "n = length (take k (content b))"
  have n: "int n \<le> Len b" "i32 (int n) = int n" "i32 (buf_start b + int n) = buf_start b + int n"
    using w by (auto simp: n_def)
  show "\<exists>b'. Read b k = Ok (b', take k (content b)) \<and> buf_wf b' \<and> content b' = drop k (content b)"
  proof (cases "int n = Len b")
    case True
    then have "length (content b) \<le> k" using w by (simp add: n_def)
    with True nz n show ?thesis
      using Clear_content [OF assms] by (simp add: Read_def assms n_def)
  next
    case False
    then have "n = k" using w by (auto simp: n_def min_def split: if_splits)
    with False nz n show ?thesis
      using advance_start_content [OF assms, of "int n"] by (simp add: Read_def assms n_def)
  qed
qed

lemma ReadFullFrom_append:
  assumes "buf_wf b" and "0 \<le> n" and "nat n \<le> room b"
  shows "ReadFullFrom b s n =
    (case read_full (nat n) s of (bs, err, s') \<Rightarrow> Ok (append_at_end b bs, length bs, err, s'))"
proof -
  note w = buf_wf_bounds [OF assms(1)]
  have "i32 (buf_end b + n) = buf_end b + n" "buf_end b + n \<le> slen (buf_v b)"
    using assms w by (auto simp: room_def)
  with assms w show ?thesis
    by (simp add: ReadFullFrom_def Let_def slice_range_def scap_def split: prod.splits)
qed

lemma ReadFullFrom_stream:
  assumes "buf_wf b" and "length bs \<le> room b" and "n = int (length bs)"
  shows "ReadFullFrom b \<lparr>pending = bs @ rest, ending = e\<rparr> n =
    Ok (append_at_end b bs, length bs, None, \<lparr>pending = rest, ending = e\<rparr>)"
  using assms by (simp add: ReadFullFrom_append)

lemma read_full_le: "read_full n s = (bs, err, s') \<Longrightarrow> length bs \<le> n"
  by (auto simp: read_full_def split: if_splits)

lemma ReadFullFrom_wf [invariants]:
  assumes "buf_wf b" and "0 \<le> n" and "n < 1073741824"
    and "ReadFullFrom b s n = Ok (b', k, err, s')" and "scap (buf_v b) < 1073741824"
  shows "buf_wf b'"
proof (cases "nat n \<le> room b")
  case True
  with assms show ?thesis
    using append_at_end_content [OF assms(1)] read_full_le [of "nat n" s]
    by (auto simp: ReadFullFrom_append split: prod.splits)
next
  case False
  then have "slen (buf_v b) < buf_end b + n" by (simp add: room_def)
  with assms buf_wf_bounds [OF assms(1)] show ?thesis
    by (simp add: ReadFullFrom_def Let_def scap_def)
qed

lemma New_wf: "length p < 2147483648 \<Longrightarrow> buf_wf (New p) \<and> content (New p) = [] \<and> room (New p) = 8192"
  by (simp add: New_def buf_wf_def content_def room_def Size_def scap_def)

lemma FromBytes_wf:
  "slice_wf s \<Longrightarrow> scap s < 2147483648 \<Longrightarrow>
     buf_wf (FromBytes s) \<and> content (FromBytes s) = take (nat (slen s)) (sarr s)"
  using slen_le_scap [of s] i32_id [of "slen s"] slen_nonneg [of s]
  by (simp add: FromBytes_def buf_wf_def content_def del: slen_nonneg)

lemma Release_wf: "buf_wf b \<Longrightarrow> buf_own b \<noteq> unmanaged \<Longrightarrow> content (fst (Release b ps)) = []"
  by (auto simp: Release_def Clear_def content_def Let_def)

section \<open>A buffer as a byte queue\<close>

definition buf_wr :: "buffer \<Rightarrow> bytes \<Rightarrow> buffer \<times> nat" where
  "buf_wr b d = (case Write b d of Ok (b', n) \<Rightarrow> (b', n) | _ \<Rightarrow> (b, 0))"

definition buf_rd :: "buffer \<Rightarrow> nat \<Rightarrow> buffer \<times> bytes" where
  "buf_rd b k = (case Read b k of Ok (b', out) \<Rightarrow> (b', out) | _ \<Rightarrow> (b, []))"

interpretation bq: byte_fifo content buf_wf buf_wr buf_rd
proof
  fix s d s' n assume "buf_wf s" and w: "buf_wr s d = (s', n)"
  from Write_content [OF this(1), of d] w
  show "buf_wf s' \<and> n \<le> length d \<and> content s' = content s @ take n d"
    by (auto simp: buf_wr_def take_min_length)
next
  fix s k s' out assume "buf_wf s" and r: "buf_rd s k = (s', out)"
  with Read_content [OF this(1), of k] show "buf_wf s' \<and> length out \<le> k \<and> content s = out @ content s'"
    by (cases "content s = []") (auto simp: buf_rd_def)
qed

text \<open>
  C36. A buffer is a queue of bytes: whatever the pool handed out, after any sequence of
  writes and reads on a new buffer the bytes the writes took are the bytes the reads
  delivered followed by the content, so no byte is lost, repeated or reordered.
\<close>

theorem buffer_fifo:
  assumes "length p < 2147483648" and "fifo_run buf_wr buf_rd ops (New p) = (b, acc, del)"
  shows "acc = del @ content b"
  using bq.run_inv_fifo [OF _ assms(2)] New_wf [OF assms(1)] by simp

theorem buffer_fifo_witness:
  "\<exists>b. fifo_run buf_wr buf_rd [PutOp [1, 2, 3], GetOp 2] (New []) = (b, [1, 2, 3], [1, 2]) \<and>
     content b = [3]"
proof -
  have n: "buf_wf (New [])" "content (New []) = []" "room (New []) = 8192"
    using New_wf [of "[]"] by simp_all
  obtain b1 where b1: "buf_wr (New []) [1, 2, 3] = (b1, 3)" "buf_wf b1" "content b1 = [1, 2, 3]"
    using Write_content [OF n(1), of "[1, 2, 3]"] n by (auto simp: buf_wr_def)
  obtain b where b: "buf_rd b1 2 = (b, [1, 2])"
    using Read_content(2) [OF b1(2), of 2] b1 by (auto simp: buf_rd_def)
  have r: "fifo_run buf_wr buf_rd [PutOp [1, 2, 3], GetOp 2] (New []) = (b, [1, 2, 3], [1, 2])"
    using b1 b by simp
  from buffer_fifo [OF _ r] have "content b = [3]" by simp
  with r show ?thesis by blast
qed

text \<open>
  \<open>Resize(from, to)\<close> within the buffer's slice keeps what it should: the content becomes
  the bytes from \<open>from\<close> to \<open>to\<close> of the old content, and the part beyond the old end reads
  as zeros (it is cleared, whatever the recycled array held there).
\<close>

theorem Resize_content:
  assumes "buf_wf b" and "0 \<le> f" and "f \<le> t" and "t \<le> Len b + int (room b)"
    and "t - Len b \<le> Size * 10"
  shows "\<exists>b'. Resize b f t = Ok b' \<and> buf_wf b' \<and>
    content b' = drop (nat f) (take (nat t) (content b @ replicate (nat (t - Len b)) 0))"
proof -
  note w = buf_wf_bounds [OF assms(1)] length_content [OF assms(1)] Len_content [OF assms(1)]
  show ?thesis
  proof (cases "t \<le> Len b")
    case True
    define b1 where "b1 = b\<lparr>buf_end := buf_start b + t, buf_start := buf_start b + f\<rparr>"
    have "Resize b f t = Ok b1"
      using assms w True by (simp add: Resize_def Check_def Let_def b1_def)
    moreover have "content b1 = drop (nat f) (take (nat t) (content b))"
    proof -
      have "nat (buf_start b + f) = nat f + nat (buf_start b)" using assms w by simp
      moreover have "min (nat t) (nat (buf_end b - buf_start b)) = nat t" using True w by simp
      moreover have "nat (buf_start b + t - (buf_start b + f)) = nat t - nat f"
        using assms(2) by simp
      ultimately show ?thesis by (simp add: b1_def content_def drop_take)
    qed
    moreover have "buf_wf b1" using assms w True by (simp add: buf_wf_def b1_def)
    moreover have "nat (t - Len b) = 0" "nat t \<le> length (content b)" using True w by simp_all
    ultimately show ?thesis by simp
  next
    case False
    define z :: bytes where "z = replicate (nat (t - Len b)) 0"
    define b1 where "b1 = append_at_end b z"
    have z: "length z \<le> room b" using assms False by (simp add: z_def)
    note b1 = append_at_end_content [OF assms(1) z, folded b1_def]
    have e: "buf_end b1 = buf_start b + t"
      using w z False by (simp add: b1_def append_at_end_def z_def room_def)
    have l: "Len b1 = t" using b1 w False Len_content [of b1] by (simp add: z_def)
    have zf: "zero_fill (buf_end b) (buf_start b + t) (buf_v b) = buf_v b1"
    proof -
      have "buf_start b + t - buf_end b = t - Len b" using w by simp
      then have "min (nat (buf_start b + t - buf_end b)) (nat (Size * 10)) = nat (t - Len b)"
        using assms(5) by (simp only: min_absorb1 nat_mono)
      then show ?thesis by (simp only: zero_fill_def) (simp add: b1_def append_at_end_def z_def)
    qed
    have i: "i32 (buf_start b + t) = buf_start b + t" "i32 (buf_start b + f) = buf_start b + f"
      "buf_start b + t \<le> scap (buf_v b)" "buf_end b < buf_start b + t" "0 \<le> buf_end b"
      "\<not> buf_start b + f < 0" "\<not> buf_start b + t < 0"
      using assms(2-4) w False by (auto simp: room_def scap_def)
    have "Resize b f t =
        Ok (b\<lparr>buf_end := buf_start b + t, buf_start := buf_start b + f, buf_v := buf_v b1\<rparr>)"
      using assms(2,3) i by (simp add: Resize_def Check_def Let_def slice_range_def zf)
    also have "\<dots> = Ok (b1\<lparr>buf_start := buf_start b1 + f\<rparr>)"
      using e by (simp add: b1_def append_at_end_def)
    finally have "Resize b f t = Ok (b1\<lparr>buf_start := buf_start b1 + f\<rparr>)" .
    moreover note advance_start_content [of b1 f]
    moreover have "nat t = length (content b @ z)" using w False by (simp add: z_def)
    ultimately show ?thesis
      using b1 l assms by (auto simp flip: z_def)
  qed
qed

theorem Resize_content_witness:
  "\<exists>b'. Resize (New []) 1 3 = Ok b' \<and> buf_wf b' \<and> content b' = [0, 0]"
proof -
  have n: "buf_wf (New [])" "content (New []) = []" "room (New []) = 8192"
    using New_wf [of "[]"] by simp_all
  then have l: "Len (New []) = 0" by (simp add: Len_content)
  show ?thesis
    using Resize_content [OF n(1), of 1 3] n l by (simp add: Size_def numeral_eq_Suc)
qed

end
