(* ===== verification/AddressCodec.thy ===== *)
theory AddressCodec
  imports NetAddr Buffer
begin

text \<open>
  The address serializer of \<open>common/protocol/address.go\<close>, which every proxy protocol uses to put a
  destination on the wire: family byte, address bytes and port, in the order and with the family bytes a
  protocol chooses.  Reading goes through a \<open>buf.Buffer\<close>, as in the source, with its slice arithmetic
  (\<open>BytesFrom(-n)\<close> on the buffer that also holds the bytes read before).
\<close>

section \<open>Options and parsers\<close>

definition afInvalid :: byte where
  "afInvalid = 255"

record addr_option =
  ao_addrTypeMap :: "address_family list"
  ao_addrByteMap :: "byte list"
  ao_portFirst :: bool
  ao_typeParser :: "(byte \<Rightarrow> byte) option"

type_synonym AddressOption = "addr_option \<Rightarrow> addr_option res"

definition PortThenAddress :: AddressOption where
  "PortThenAddress p = Ok (p\<lparr>ao_portFirst := True\<rparr>)"

text \<open>The constructor panics on a byte above 15, the option on a family that is not an index.\<close>

definition AddressFamilyByte :: "byte \<Rightarrow> address_family \<Rightarrow> AddressOption" where
  "AddressFamilyByte b f p =
     (if b \<ge> 16 then Panic ''address family byte too big''
      else if f \<ge> 16 then Panic ''index out of range''
      else Ok (p\<lparr>ao_addrTypeMap := (ao_addrTypeMap p)[unat b := f],
                ao_addrByteMap := (ao_addrByteMap p)[unat f := b]\<rparr>))"

definition WithAddressTypeParser :: "(byte \<Rightarrow> byte) \<Rightarrow> AddressOption" where
  "WithAddressTypeParser atp p = Ok (p\<lparr>ao_typeParser := Some atp\<rparr>)"

record addressParser =
  ap_addrTypeMap :: "address_family list"
  ap_addrByteMap :: "byte list"
  ap_typeParser :: "(byte \<Rightarrow> byte) option"

datatype serializer = portFirstAddressParser addressParser | portLastAddressParser addressParser

fun apply_options :: "AddressOption list \<Rightarrow> addr_option \<Rightarrow> addr_option res" where
  "apply_options [] p = Ok p"
| "apply_options (opt # opts) p = rbind (opt p) (apply_options opts)"

definition NewAddressParser :: "AddressOption list \<Rightarrow> serializer res" where
  "NewAddressParser options =
     rmap (\<lambda>p. let ap = \<lparr>ap_addrTypeMap = ao_addrTypeMap p, ap_addrByteMap = ao_addrByteMap p,
                          ap_typeParser = ao_typeParser p\<rparr> in
               if ao_portFirst p then portFirstAddressParser ap else portLastAddressParser ap)
       (apply_options options
          \<lparr>ao_addrTypeMap = replicate 16 afInvalid, ao_addrByteMap = replicate 16 afInvalid,
           ao_portFirst = False, ao_typeParser = None\<rparr>)"

section \<open>Reading\<close>

text \<open>The buffer that collects the bytes and the reader.\<close>

type_synonym rstate = "buffer \<times> stream"

definition read_n :: "int \<Rightarrow> (rstate, unit) act" where
  "read_n n = (\<lambda>(b, s).
     case ReadFullFrom b s n of
       Ok (b', k, None, s') \<Rightarrow> ((b', s'), Ok ())
     | Ok (b', k, Some e, s') \<Rightarrow> ((b', s'), Err e)
     | Err e \<Rightarrow> ((b, s), Err e)
     | Panic m \<Rightarrow> ((b, s), Panic m))"

definition on_buf :: "(buffer \<Rightarrow> 'a res) \<Rightarrow> (rstate, 'a) act" where
  "on_buf f = (\<lambda>(b, s). ((b, s), f b))"

definition readPort :: "(rstate, port) act" where
  "readPort = act_bind (read_n 2) (\<lambda>_. on_buf (\<lambda>b. rbind (BytesFrom b (-2)) PortFromBytes))"

definition maybeIPPrefix :: "char \<Rightarrow> bool" where
  "maybeIPPrefix c \<longleftrightarrow> c = CHR ''['' \<or> is_digit c"

definition isValidDomain :: "string \<Rightarrow> bool" where
  "isValidDomain d \<longleftrightarrow>
     list_all (\<lambda>c. is_digit c \<or> is_lower c \<or> is_upper c \<or> c = CHR ''-'' \<or> c = CHR ''.'' \<or> c = CHR ''_'') d"

definition domain_address :: "string \<Rightarrow> address option res" where
  "domain_address domain =
     (if domain = [] then Panic ''index out of range''
      else
        (let rest = (if \<not> isValidDomain domain then Err (ErrMsg ''invalid domain name: '')
                     else Ok (Some (DomainAddress domain))) in
         if maybeIPPrefix (hd domain) then
           (case ParseAddress domain of
              None \<Rightarrow> Panic ''nil pointer dereference''
            | Some a \<Rightarrow> if IsIP (addr_Family a) then Ok (Some a) else rest)
         else rest))"

definition read_by_family :: "address_family \<Rightarrow> (rstate, address option) act" where
  "read_by_family addrFamily =
     (if addrFamily = AddressFamilyIPv4 then
        act_bind (read_n 4) (\<lambda>_. on_buf (\<lambda>b. rmap IPAddress (BytesFrom b (-4))))
      else if addrFamily = AddressFamilyIPv6 then
        act_bind (read_n 16) (\<lambda>_. on_buf (\<lambda>b. rmap IPAddress (BytesFrom b (-16))))
      else if addrFamily = AddressFamilyDomain then
        act_bind (read_n 1) (\<lambda>_.
        act_bind (on_buf (\<lambda>b. buf_Byte b (i32 (Len b - 1)))) (\<lambda>l.
          let domainLength = uint l in
          act_bind (read_n domainLength) (\<lambda>_.
            on_buf (\<lambda>b. rbind (BytesFrom b (- domainLength)) (\<lambda>bs. domain_address (of_bytes bs))))))
      else act_lift (Panic ''impossible case''))"

definition parsed_type :: "addressParser \<Rightarrow> byte \<Rightarrow> byte" where
  "parsed_type p ty = (case ap_typeParser p of None \<Rightarrow> ty | Some tp \<Rightarrow> tp ty)"

definition readAddress :: "addressParser \<Rightarrow> (rstate, address option) act" where
  "readAddress p =
     act_bind (read_n 1) (\<lambda>_.
     act_bind (on_buf (\<lambda>b. buf_Byte b (i32 (Len b - 1)))) (\<lambda>ty.
       let addrType = parsed_type p ty in
       if addrType \<ge> 16 then act_lift (Err (ErrMsg ''unknown address type: ''))
       else
         (let addrFamily = ap_addrTypeMap p ! unat addrType in
          if addrFamily = afInvalid then act_lift (Err (ErrMsg ''unknown address type: ''))
          else read_by_family addrFamily)))"

text \<open>
  A nil \<open>buffer\<close> argument is replaced by a new one; \<open>fresh\<close> is the array that the pool hands out
  then, and the buffer is released on return.
\<close>

definition portFirst_read :: "addressParser \<Rightarrow> (rstate, address option \<times> port) act" where
  "portFirst_read ap =
     act_bind readPort (\<lambda>port. act_bind (readAddress ap) (\<lambda>addr. act_ret (addr, port)))"

definition portLast_read :: "addressParser \<Rightarrow> (rstate, address option \<times> port) act" where
  "portLast_read ap =
     act_bind (readAddress ap) (\<lambda>addr. act_bind readPort (\<lambda>port. act_ret (addr, port)))"

definition read_address_port :: "serializer \<Rightarrow> (rstate, address option \<times> port) act" where
  "read_address_port ser =
     (case ser of portFirstAddressParser ap \<Rightarrow> portFirst_read ap | portLastAddressParser ap \<Rightarrow> portLast_read ap)"

definition ReadAddressPort ::
  "serializer \<Rightarrow> bytes \<Rightarrow> buffer option \<Rightarrow> stream \<Rightarrow> (buffer option \<times> stream) \<times> (address option \<times> port) res" where
  "ReadAddressPort ser fresh buffer input =
     (case buffer of
        Some b \<Rightarrow> (case read_address_port ser (b, input) of ((b', s), r) \<Rightarrow> ((Some b', s), r))
      | None \<Rightarrow> (case read_address_port ser (New fresh, input) of ((b', s), r) \<Rightarrow> ((None, s), r)))"

section \<open>Writing\<close>

definition writePort :: "'w writer \<Rightarrow> 'w \<Rightarrow> port \<Rightarrow> ('w \<times> goerr option) res" where
  "writePort wr w port = wr w (put_u16 port)"

definition isDomainTooLong :: "string \<Rightarrow> bool" where
  "isDomainTooLong domain \<longleftrightarrow> length domain > 256"

definition writeAddress :: "addressParser \<Rightarrow> 'w writer \<Rightarrow> 'w \<Rightarrow> address \<Rightarrow> ('w \<times> goerr option) res" where
  "writeAddress p wr w a =
     (let tb = ap_addrByteMap p ! unat (addr_Family a) in
      if tb = afInvalid then Ok (w, Some (ErrMsg ''unknown address family''))
      else if addr_Family a = AddressFamilyIPv4 \<or> addr_Family a = AddressFamilyIPv6 then
        rbind (addr_IP a) (\<lambda>ip. write_all wr w [[tb], ip])
      else if addr_Family a = AddressFamilyDomain then
        rbind (addr_Domain a) (\<lambda>domain.
          if isDomainTooLong domain
          then Ok (w, Some (ErrMsg ''Super long domain is not supported: ''))
          else write_all wr w [[tb, word_of_nat (length domain)], to_bytes domain])
      else Panic ''Unknown family type.'')"

definition portFirst_write ::
  "addressParser \<Rightarrow> 'w writer \<Rightarrow> 'w \<Rightarrow> address \<Rightarrow> port \<Rightarrow> ('w \<times> goerr option) res" where
  "portFirst_write ap wr w addr port =
     rbind (writePort wr w port) (\<lambda>(w', err).
       if err \<noteq> None then Ok (w', err) else writeAddress ap wr w' addr)"

definition portLast_write ::
  "addressParser \<Rightarrow> 'w writer \<Rightarrow> 'w \<Rightarrow> address \<Rightarrow> port \<Rightarrow> ('w \<times> goerr option) res" where
  "portLast_write ap wr w addr port =
     rbind (writeAddress ap wr w addr) (\<lambda>(w', err).
       if err \<noteq> None then Ok (w', err) else writePort wr w' port)"

definition WriteAddressPort ::
  "serializer \<Rightarrow> 'w writer \<Rightarrow> 'w \<Rightarrow> address \<Rightarrow> port \<Rightarrow> ('w \<times> goerr option) res" where
  "WriteAddressPort ser wr w addr port =
     (case ser of
        portFirstAddressParser ap \<Rightarrow> portFirst_write ap wr w addr port
      | portLastAddressParser ap \<Rightarrow> portLast_write ap wr w addr port)"

lemmas serializer_defs = portFirst_read_def portLast_read_def portFirst_write_def portLast_write_def

section \<open>Writers\<close>

text \<open>
  What the code relies on in the writers it is given: as long as there is space, \<open>Write\<close> appends
  everything and reports no error.
\<close>

locale byte_writer =
  fixes wr :: "'w writer" and inv :: "'w \<Rightarrow> bool" and out :: "'w \<Rightarrow> bytes" and free :: "'w \<Rightarrow> nat"
  assumes wr_ok: "inv w \<Longrightarrow> length bs \<le> free w \<Longrightarrow>
    \<exists>w'. wr w bs = Ok (w', None) \<and> inv w' \<and> out w' = out w @ bs \<and> free w' = free w - length bs"
begin

lemma write_all_ok:
  "inv w \<Longrightarrow> length (concat bss) \<le> free w \<Longrightarrow>
     \<exists>w'. write_all wr w bss = Ok (w', None) \<and> inv w' \<and> out w' = out w @ concat bss \<and>
       free w' = free w - length (concat bss)"
proof (induction bss arbitrary: w)
  case (Cons bs bss)
  then obtain w1 where "wr w bs = Ok (w1, None)" "inv w1" "out w1 = out w @ bs"
    "free w1 = free w - length bs" using wr_ok [of w bs] by auto
  with Cons.IH [of w1] Cons.prems show ?case by auto
qed simp

end

definition buf_writer :: "buffer writer" where
  "buf_writer b bs = rmap (\<lambda>(b', n). (b', None)) (Write b bs)"

lemma buf_writer_fits:
  "buf_wf b \<Longrightarrow> length bs \<le> room b \<Longrightarrow> buf_writer b bs = Ok (append_at_end b bs, None)"
  by (simp add: buf_writer_def Write_fits)

interpretation bw: byte_writer buf_writer buf_wf content room
  using append_at_end_content by unfold_locales (simp add: buf_writer_fits)

lemma append_at_end_Nil: "buf_wf b \<Longrightarrow> append_at_end b [] = b"
  using buf_wf_bounds [of b]
  by (cases "buf_v b") (simp_all add: append_at_end_def overwrite_def)

lemma buf_write_all:
  "buf_wf b \<Longrightarrow> length (concat bss) \<le> room b \<Longrightarrow>
     write_all buf_writer b bss = Ok (append_at_end b (concat bss), None)"
proof (induction bss arbitrary: b)
  case Nil
  then show ?case by (simp add: append_at_end_Nil)
next
  case (Cons bs bss)
  then show ?case
    using append_at_end_content [of b bs] append_at_end_append [of b bs "concat bss"]
    by (simp add: buf_writer_fits)
qed

section \<open>The round trip\<close>

lemma read_n_append:
  assumes "buf_wf b" and "length bs \<le> room b" and "n = int (length bs)"
  shows "read_n n (b, \<lparr>pending = bs @ rest, ending = e\<rparr>) =
    ((append_at_end b bs, \<lparr>pending = rest, ending = e\<rparr>), Ok ())"
  using ReadFullFrom_stream [OF assms] by (simp add: read_n_def)

lemma on_buf_simp [simp]: "on_buf f (b, s) = ((b, s), f b)"
  by (simp add: on_buf_def)

lemma BytesFrom_append:
  assumes "buf_wf b" and "length bs \<le> room b" and "bs \<noteq> []" and "n = - int (length bs)"
  shows "BytesFrom (append_at_end b bs) n = Ok bs"
proof -
  have "BytesFrom (append_at_end b bs) (- int (length bs)) = Ok bs"
    using append_at_end_content [OF assms(1,2)] assms(3)
    by (subst BytesFrom_last) (simp_all add: Len_content)
  then show ?thesis using assms(4) by simp
qed

lemma last_Byte_append:
  assumes "buf_wf b" and "Suc (length bs) \<le> room b"
  shows "buf_Byte (append_at_end b (bs @ [x])) (i32 (Len (append_at_end b (bs @ [x])) - 1)) = Ok x"
proof -
  let ?b = "append_at_end b (bs @ [x])"
  have b: "buf_wf ?b" "content ?b = content b @ bs @ [x]"
    using append_at_end_content [OF assms(1), of "bs @ [x]"] assms(2) by simp_all
  have l: "Len ?b = int (length (content b) + length bs) + 1" using b by (simp add: Len_content)
  moreover have "Len ?b < 2147483648"
    using buf_wf_bounds [OF b(1)] length_content [OF b(1)] Len_content [OF b(1)] by linarith
  ultimately have "i32 (Len ?b - 1) = int (length (content b @ bs))" by simp
  moreover have "(content b @ bs @ [x]) ! length (content b @ bs) = x"
    by (metis append.assoc nth_append_length)
  moreover have "buf_Byte ?b (int (length (content b @ bs))) = Ok ((content b @ bs @ [x]) ! length (content b @ bs))"
    using b l by (subst buf_Byte_content) (simp_all del: of_nat_add add: of_nat_add [symmetric])
  ultimately show ?thesis by simp
qed

lemma readPort_put:
  assumes "buf_wf b" and "2 \<le> room b"
  shows "readPort (b, \<lparr>pending = put_u16 port @ rest, ending = e\<rparr>) =
    ((append_at_end b (put_u16 port), \<lparr>pending = rest, ending = e\<rparr>), Ok port)"
proof -
  have l: "length (put_u16 port) = 2" by simp
  then have "put_u16 port \<noteq> []" by (metis list.size(3) zero_neq_numeral)
  then show ?thesis
    using assms read_n_append [OF assms(1), of "put_u16 port" 2 rest e]
      BytesFrom_append [OF assms(1), of "put_u16 port" "-2"]
    by (simp add: readPort_def PortFromBytes_def)
qed

text \<open>Addresses that the wire format can carry: see the theorems below for what happens to others.\<close>

fun wire_addr :: "address \<Rightarrow> bool" where
  "wire_addr (DomainAddr d) \<longleftrightarrow> d \<noteq> [] \<and> length d \<le> 255 \<and> isValidDomain d \<and>
     (maybeIPPrefix (hd d) \<longrightarrow> (\<forall>a. ParseAddress d = Some a \<longrightarrow> \<not> IsIP (addr_Family a)))"
| "wire_addr a \<longleftrightarrow> addr_wf a"

fun addr_payload :: "address \<Rightarrow> bytes" where
  "addr_payload (IPv4Address ip) = ip"
| "addr_payload (IPv6Address ip) = ip"
| "addr_payload (DomainAddr d) = word_of_nat (length d) # to_bytes d"

definition enc_addr :: "addressParser \<Rightarrow> address \<Rightarrow> bytes" where
  "enc_addr p a = ap_addrByteMap p ! unat (addr_Family a) # addr_payload a"

definition enc_address_port :: "serializer \<Rightarrow> address \<Rightarrow> port \<Rightarrow> bytes" where
  "enc_address_port ser a port =
     (case ser of portFirstAddressParser p \<Rightarrow> put_u16 port @ enc_addr p a
                | portLastAddressParser p \<Rightarrow> enc_addr p a @ put_u16 port)"

lemma domain_address_wire: "wire_addr (DomainAddr d) \<Longrightarrow> domain_address d = Ok (Some (DomainAddr d))"
  using ParseAddress_Some [of d] by (auto simp: domain_address_def DomainAddress_def Let_def)

lemma IPAddress_wire:
  "addr_wf (IPv4Address ip) \<Longrightarrow> IPAddress ip = Some (IPv4Address ip)"
  "addr_wf (IPv6Address ip) \<Longrightarrow> IPAddress ip = Some (IPv6Address ip)"
  by (rule IPAddress_IP; simp)+

lemma read_by_family_ip:
  assumes "wire_addr a" and "buf_wf b" and "length (addr_payload a) \<le> room b" and "IsIP (addr_Family a)"
  shows "read_by_family (addr_Family a) (b, \<lparr>pending = addr_payload a @ rest, ending = e\<rparr>) =
    ((append_at_end b (addr_payload a), \<lparr>pending = rest, ending = e\<rparr>), Ok (Some a))"
proof -
  obtain ip where ip: "addr_payload a = ip" "IPAddress ip = Some a" "0 < length ip"
    "length ip = (if addr_Family a = AddressFamilyIPv4 then 4 else 16)"
    using assms(1,4) IPAddress_wire by (cases a) (auto simp: family_defs IsIP_def)
  have "read_n (int (length ip)) (b, \<lparr>pending = ip @ rest, ending = e\<rparr>) =
      ((append_at_end b ip, \<lparr>pending = rest, ending = e\<rparr>), Ok ())"
    "BytesFrom (append_at_end b ip) (- int (length ip)) = Ok ip"
    using read_n_append [OF assms(2,3) refl] BytesFrom_append [OF assms(2,3) _ refl] ip(1,3) by auto
  then show ?thesis
    using ip assms(4) by (auto simp: read_by_family_def IsIP_def split: if_splits)
qed

lemma read_by_family_domain:
  assumes "wire_addr (DomainAddr d)" and "buf_wf b" and "Suc (length d) \<le> room b"
  shows "read_by_family AddressFamilyDomain
      (b, \<lparr>pending = addr_payload (DomainAddr d) @ rest, ending = e\<rparr>) =
    ((append_at_end b (addr_payload (DomainAddr d)), \<lparr>pending = rest, ending = e\<rparr>),
     Ok (Some (DomainAddr d)))"
proof -
  let ?l = "word_of_nat (length d) :: byte"
  let ?b1 = "append_at_end b [?l]"
  have d: "d \<noteq> []" "length d \<le> 255" using assms(1) by simp_all
  then have ul: "uint ?l = int (length d)" by (simp add: uint_nat unat_of_nat)
  have "read_n 1 (b, \<lparr>pending = ?l # to_bytes d @ rest, ending = e\<rparr>) =
      ((?b1, \<lparr>pending = to_bytes d @ rest, ending = e\<rparr>), Ok ())"
    using read_n_append [OF assms(2), of "[?l]" 1] assms(3) by simp
  moreover have "buf_Byte ?b1 (i32 (Len ?b1 - 1)) = Ok ?l"
    using last_Byte_append [OF assms(2), of "[]"] assms(3) by simp
  moreover have b1: "buf_wf ?b1" "length (to_bytes d) \<le> room ?b1"
    using append_at_end_content [OF assms(2), of "[?l]"] assms(3) by simp_all
  moreover have "append_at_end ?b1 (to_bytes d) = append_at_end b (addr_payload (DomainAddr d))"
    using append_at_end_append [OF assms(2), of "[?l]" "to_bytes d"] assms(3) by simp
  moreover have "to_bytes d \<noteq> []" using d by (metis length_0_conv length_to_bytes)
  ultimately show ?thesis
    using read_n_append [OF b1, of "int (length d)" rest e] BytesFrom_append [OF b1, of "- int (length d)"]
      domain_address_wire [OF assms(1)] ul
    by (simp add: read_by_family_def family_defs Let_def)
qed

lemma read_by_family_payload:
  assumes "wire_addr a" and "buf_wf b" and "length (addr_payload a) \<le> room b"
  shows "read_by_family (addr_Family a) (b, \<lparr>pending = addr_payload a @ rest, ending = e\<rparr>) =
    ((append_at_end b (addr_payload a), \<lparr>pending = rest, ending = e\<rparr>), Ok (Some a))"
  using read_by_family_ip [OF assms] read_by_family_domain [OF _ assms(2)] assms
  by (cases a) (simp_all add: IsIP_def)

text \<open>
  The contract between a protocol's family bytes and the parser: reading the byte that is written for a
  family gives the family back, after the type parser if there is one.
\<close>

locale address_table =
  fixes ap :: addressParser
  assumes byte_of_family: "f \<in> {AddressFamilyIPv4, AddressFamilyIPv6, AddressFamilyDomain} \<Longrightarrow>
      ap_addrByteMap ap ! unat f \<noteq> afInvalid \<and>
      parsed_type ap (ap_addrByteMap ap ! unat f) < 16 \<and>
      ap_addrTypeMap ap ! unat (parsed_type ap (ap_addrByteMap ap ! unat f)) = f"
begin

lemma family_table:
  "ap_addrByteMap ap ! unat (addr_Family a) \<noteq> afInvalid"
  "parsed_type ap (ap_addrByteMap ap ! unat (addr_Family a)) < 16"
  "ap_addrTypeMap ap ! unat (parsed_type ap (ap_addrByteMap ap ! unat (addr_Family a))) = addr_Family a"
  using byte_of_family [of "addr_Family a"] by (cases a; simp)+

lemma readAddress_family:
  assumes "buf_wf b" and "1 \<le> room b"
  shows "readAddress ap (b, \<lparr>pending = ap_addrByteMap ap ! unat (addr_Family a) # rest, ending = e\<rparr>) =
    read_by_family (addr_Family a)
      (append_at_end b [ap_addrByteMap ap ! unat (addr_Family a)], \<lparr>pending = rest, ending = e\<rparr>)"
proof -
  let ?tb = "ap_addrByteMap ap ! unat (addr_Family a)"
  let ?b1 = "append_at_end b [?tb]"
  have "read_n 1 (b, \<lparr>pending = ?tb # rest, ending = e\<rparr>) =
      ((?b1, \<lparr>pending = rest, ending = e\<rparr>), Ok ())"
    using read_n_append [OF assms(1), of "[?tb]" 1] assms(2) by simp
  moreover have "buf_Byte ?b1 (i32 (Len ?b1 - 1)) = Ok ?tb"
    using last_Byte_append [OF assms(1), of "[]"] assms(2) by simp
  moreover have "addr_Family a \<noteq> afInvalid" by (cases a) (simp_all add: family_defs afInvalid_def)
  ultimately show ?thesis
    using family_table(1,3) [of a] linorder_not_le [THEN iffD2, OF family_table(2) [of a]] by (simp add: readAddress_def Let_def)
qed

lemma readAddress_enc:
  assumes "wire_addr a" and "buf_wf b" and "length (enc_addr ap a) \<le> room b"
  shows "readAddress ap (b, \<lparr>pending = enc_addr ap a @ rest, ending = e\<rparr>) =
    ((append_at_end b (enc_addr ap a), \<lparr>pending = rest, ending = e\<rparr>), Ok (Some a))"
proof -
  let ?tb = "ap_addrByteMap ap ! unat (addr_Family a)"
  let ?b1 = "append_at_end b [?tb]"
  have len: "Suc (length (addr_payload a)) \<le> room b" using assms(3) by (simp add: enc_addr_def)
  have b1: "buf_wf ?b1" "length (addr_payload a) \<le> room ?b1"
    using append_at_end_content [OF assms(2), of "[?tb]"] len by simp_all
  have "append_at_end ?b1 (addr_payload a) = append_at_end b (enc_addr ap a)"
    using append_at_end_append [OF assms(2), of "[?tb]" "addr_payload a"] len by (simp add: enc_addr_def)
  then show ?thesis
    using readAddress_family [OF assms(2), of a "addr_payload a @ rest" e] len
      read_by_family_payload [OF assms(1) b1, of rest e] by (simp add: enc_addr_def)
qed

lemma writeAddress_enc:
  assumes "wire_addr a" and "buf_wf b" and "length (enc_addr ap a) \<le> room b"
  shows "writeAddress ap buf_writer b a = Ok (append_at_end b (enc_addr ap a), None)"
proof (cases a)
  case (DomainAddr d)
  then have "\<not> isDomainTooLong d" using assms(1) by (simp add: isDomainTooLong_def)
  with family_table(1) [of a] DomainAddr show ?thesis
    using buf_write_all [OF assms(2), of "[[ap_addrByteMap ap ! unat (addr_Family a),
      word_of_nat (length d)], to_bytes d]"] assms(3)
    by (simp add: writeAddress_def enc_addr_def family_defs del: write_all.simps)
qed (use family_table(1) [of a] assms(3) buf_write_all [OF assms(2),
      of "[[ap_addrByteMap ap ! unat (addr_Family a)], addr_payload a]"]
    in \<open>simp_all add: writeAddress_def enc_addr_def family_defs del: write_all.simps\<close>)

lemma port_first_roundtrip:
  assumes "wire_addr a" and "buf_wf b" and "length (enc_addr ap a) + 2 \<le> room b"
  defines "ser \<equiv> portFirstAddressParser ap"
  shows "WriteAddressPort ser buf_writer b a port =
      Ok (append_at_end b (enc_address_port ser a port), None)"
    and "read_address_port ser (b, \<lparr>pending = enc_address_port ser a port @ rest, ending = e\<rparr>) =
      ((append_at_end b (enc_address_port ser a port), \<lparr>pending = rest, ending = e\<rparr>), Ok (Some a, port))"
proof -
  let ?b1 = "append_at_end b (put_u16 port)"
  have b1: "buf_wf ?b1" "length (enc_addr ap a) \<le> room ?b1"
    "append_at_end ?b1 (enc_addr ap a) = append_at_end b (enc_address_port ser a port)"
    using append_at_end_content [OF assms(2), of "put_u16 port"]
      append_at_end_append [OF assms(2), of "put_u16 port" "enc_addr ap a"] assms(3)
    by (simp_all add: enc_address_port_def ser_def)
  show "WriteAddressPort ser buf_writer b a port = Ok (append_at_end b (enc_address_port ser a port), None)"
    using buf_writer_fits [OF assms(2), of "put_u16 port"] assms(3) writeAddress_enc [OF assms(1) b1(1,2)] b1(3)
    by (simp add: WriteAddressPort_def serializer_defs writePort_def ser_def)
  show "read_address_port ser (b, \<lparr>pending = enc_address_port ser a port @ rest, ending = e\<rparr>) =
      ((append_at_end b (enc_address_port ser a port), \<lparr>pending = rest, ending = e\<rparr>), Ok (Some a, port))"
    using readPort_put [OF assms(2), of port "enc_addr ap a @ rest" e] assms(3)
      readAddress_enc [OF assms(1) b1(1,2), of rest e] b1(3)
    by (simp add: read_address_port_def serializer_defs ser_def enc_address_port_def)
qed

lemma port_last_roundtrip:
  assumes "wire_addr a" and "buf_wf b" and "length (enc_addr ap a) + 2 \<le> room b"
  defines "ser \<equiv> portLastAddressParser ap"
  shows "WriteAddressPort ser buf_writer b a port =
      Ok (append_at_end b (enc_address_port ser a port), None)"
    and "read_address_port ser (b, \<lparr>pending = enc_address_port ser a port @ rest, ending = e\<rparr>) =
      ((append_at_end b (enc_address_port ser a port), \<lparr>pending = rest, ending = e\<rparr>), Ok (Some a, port))"
proof -
  let ?b1 = "append_at_end b (enc_addr ap a)"
  have b1: "buf_wf ?b1" "2 \<le> room ?b1"
    "append_at_end ?b1 (put_u16 port) = append_at_end b (enc_address_port ser a port)"
    using append_at_end_content [OF assms(2), of "enc_addr ap a"]
      append_at_end_append [OF assms(2), of "enc_addr ap a" "put_u16 port"] assms(3)
    by (simp_all add: enc_address_port_def ser_def)
  show "WriteAddressPort ser buf_writer b a port = Ok (append_at_end b (enc_address_port ser a port), None)"
    using writeAddress_enc [OF assms(1,2)] assms(3) buf_writer_fits [OF b1(1), of "put_u16 port"] b1
    by (simp add: WriteAddressPort_def serializer_defs writePort_def ser_def)
  show "read_address_port ser (b, \<lparr>pending = enc_address_port ser a port @ rest, ending = e\<rparr>) =
      ((append_at_end b (enc_address_port ser a port), \<lparr>pending = rest, ending = e\<rparr>), Ok (Some a, port))"
    using readAddress_enc [OF assms(1,2), of "put_u16 port @ rest" e] assms(3)
      readPort_put [OF b1(1,2), of port rest e] b1(3)
    by (simp add: read_address_port_def serializer_defs ser_def enc_address_port_def)
qed

end

section \<open>The parsers of the protocols\<close>

text \<open>\<open>addrParser\<close> of mux, XUDP, VMess and VLESS, of SOCKS and Trojan, and of Shadowsocks.\<close>

definition AddressTypeIPv4 :: byte where "AddressTypeIPv4 = 1"
definition AddressTypeDomain :: byte where "AddressTypeDomain = 2"
definition AddressTypeIPv6 :: byte where "AddressTypeIPv6 = 3"

definition mux_options :: "AddressOption list" where
  "mux_options = [AddressFamilyByte AddressTypeIPv4 AddressFamilyIPv4,
     AddressFamilyByte AddressTypeDomain AddressFamilyDomain,
     AddressFamilyByte AddressTypeIPv6 AddressFamilyIPv6, PortThenAddress]"

definition socks_options :: "AddressOption list" where
  "socks_options = [AddressFamilyByte 1 AddressFamilyIPv4, AddressFamilyByte 4 AddressFamilyIPv6,
     AddressFamilyByte 3 AddressFamilyDomain]"

definition ss_type :: "byte \<Rightarrow> byte" where
  "ss_type b = b AND 15"

definition shadowsocks_options :: "AddressOption list" where
  "shadowsocks_options = [AddressFamilyByte 1 AddressFamilyIPv4, AddressFamilyByte 4 AddressFamilyIPv6,
     AddressFamilyByte 3 AddressFamilyDomain, WithAddressTypeParser ss_type]"

definition mux_table :: addressParser where
  "mux_table = \<lparr>ap_addrTypeMap = [255, 0, 2, 1, 255, 255, 255, 255, 255, 255, 255, 255, 255, 255, 255, 255],
     ap_addrByteMap = [1, 3, 2, 255, 255, 255, 255, 255, 255, 255, 255, 255, 255, 255, 255, 255], ap_typeParser = None\<rparr>"

definition socks_table :: addressParser where
  "socks_table = \<lparr>ap_addrTypeMap = [255, 0, 255, 2, 1, 255, 255, 255, 255, 255, 255, 255, 255, 255, 255, 255],
     ap_addrByteMap = [1, 4, 3, 255, 255, 255, 255, 255, 255, 255, 255, 255, 255, 255, 255, 255], ap_typeParser = None\<rparr>"

lemmas option_defs = AddressFamilyByte_def PortThenAddress_def WithAddressTypeParser_def
  NewAddressParser_def AddressTypeIPv4_def AddressTypeDomain_def AddressTypeIPv6_def afInvalid_def
  family_defs

lemma replicate_16: "replicate 16 x = [x, x, x, x, x, x, x, x, x, x, x, x, x, x, x, x]"
  by (simp add: numeral_eq_Suc)

lemma mux_parser: "NewAddressParser mux_options = Ok (portFirstAddressParser mux_table)"
  by (simp add: mux_options_def mux_table_def option_defs replicate_16 Let_def) (simp add: word_le_nat_alt)

lemma socks_parser: "NewAddressParser socks_options = Ok (portLastAddressParser socks_table)"
  by (simp add: socks_options_def socks_table_def option_defs replicate_16 Let_def) (simp add: word_le_nat_alt)

lemma shadowsocks_parser: "NewAddressParser shadowsocks_options =
    Ok (portLastAddressParser (socks_table\<lparr>ap_typeParser := Some ss_type\<rparr>))"
  by (simp add: shadowsocks_options_def socks_table_def option_defs replicate_16 Let_def)
    (simp add: word_le_nat_alt)

interpretation mux_at: address_table mux_table
  by unfold_locales (auto simp: mux_table_def parsed_type_def afInvalid_def family_defs)

interpretation socks_at: address_table socks_table
  by unfold_locales (auto simp: socks_table_def parsed_type_def afInvalid_def family_defs)

interpretation ss_at: address_table "socks_table\<lparr>ap_typeParser := Some ss_type\<rparr>"
  by unfold_locales (auto simp: socks_table_def parsed_type_def afInvalid_def family_defs ss_type_def)

lemma enc_addr_length: "wire_addr a \<Longrightarrow> length (enc_addr p a) \<le> 257"
  by (cases a) (simp_all add: enc_addr_def)

section \<open>Properties\<close>

text \<open>
  Every address serializer that the protocols create reads back what it writes: for an address the
  wire format can carry and any port, \<open>WriteAddressPort\<close> into a buffer with room for it succeeds, and
  \<open>ReadAddressPort\<close> on the bytes written, followed by anything, returns address and port and consumes
  exactly these bytes.
\<close>

theorem address_port_roundtrip:
  assumes "opts \<in> {mux_options, socks_options, shadowsocks_options}"
    and "wire_addr a" and "buf_wf b" and "259 \<le> room b"
  shows "\<exists>ser b' enc. NewAddressParser opts = Ok ser \<and>
    WriteAddressPort ser buf_writer b a port = Ok (b', None) \<and> content b' = content b @ enc \<and>
    (\<exists>b''. ReadAddressPort ser fresh (Some b) \<lparr>pending = enc @ rest, ending = e\<rparr> =
      ((Some b'', \<lparr>pending = rest, ending = e\<rparr>), Ok (Some a, port)))"
proof -
  have len: "length (enc_addr p a) + 2 \<le> room b" "length (enc_address_port ser a port) \<le> room b" for p ser
    using enc_addr_length [OF assms(2)] assms(4) le_trans [of "length (enc_addr p a) + 2" 259 "room b" for p]
    by (fastforce simp: enc_address_port_def split: serializer.splits)+
  show ?thesis
    using assms(1) mux_parser socks_parser shadowsocks_parser
      mux_at.port_first_roundtrip [OF assms(2,3) len(1)] socks_at.port_last_roundtrip [OF assms(2,3) len(1)]
      ss_at.port_last_roundtrip [OF assms(2,3) len(1)] append_at_end_content [OF assms(3) len(2)]
    by (fastforce simp: ReadAddressPort_def)
qed

theorem address_port_roundtrip_witness:
  "\<exists>ser b' enc. NewAddressParser mux_options = Ok ser \<and>
    WriteAddressPort ser buf_writer (New []) (IPv4Address [127, 0, 0, 1]) 443 = Ok (b', None) \<and>
    content b' = enc"
  using address_port_roundtrip [of mux_options "IPv4Address [127, 0, 0, 1]" "New []" 443] New_wf [of "[]"]
  by fastforce

text \<open>
  The length check lets a domain of exactly 256 bytes through, whose length does not fit the length
  byte: \<open>writeAddress\<close> reports success and announces a domain of length 0.
\<close>

theorem domain_256_announces_0:
  assumes "length d = 256" and "buf_wf b" and "258 \<le> room b"
  shows "writeAddress mux_table buf_writer b (DomainAddr d) =
    Ok (append_at_end b ([2, 0] @ to_bytes d), None)"
proof -
  have "word_of_nat (length d) = (0 :: byte)" unfolding assms(1) by code_simp
  then show ?thesis
    using assms buf_write_all [OF assms(2), of "[[2, 0], to_bytes d]"]
    by (simp add: writeAddress_def isDomainTooLong_def mux_table_def afInvalid_def family_defs
      del: write_all.simps of_nat_numeral)
qed

theorem domain_256_announces_0_witness:
  "writeAddress mux_table buf_writer (New []) (DomainAddr (replicate 256 (CHR ''a''))) =
    Ok (append_at_end (New []) ([2, 0] @ to_bytes (replicate 256 (CHR ''a''))), None)"
  using New_wf [of "[]"] by (intro domain_256_announces_0) simp_all

end
