(* ===== verification/MultiBuffer.thy ===== *)
theory MultiBuffer
  imports Buffer
begin

text \<open>
  Lists of buffers (\<open>common/buf/multi_buffer.go\<close>). The operations move buffers from one
  list to another, so a list of buffer values is enough: an entry the code sets to nil is
  an entry the model drops. A call that makes buffers takes \<open>pool\<close>, where \<open>pool i\<close> is the
  array the pool hands out for the \<open>i\<close>-th of them. Merging, splitting and compacting are
  compared on \<open>mb_content\<close>, the bytes of all buffers in order.
\<close>

section \<open>Operations\<close>

type_synonym multi_buffer = "buffer list"

definition MergeMulti :: "multi_buffer \<Rightarrow> multi_buffer \<Rightarrow> multi_buffer \<times> multi_buffer" where
  "MergeMulti dest src = (dest @ src, [])"

lemma tail_len_New [simp]: "tail_len (New p) = Ok 8192"
  by (simp add: tail_len_def New_def slice_range_def scap_def Size_def)

function merge_loop :: "(nat \<Rightarrow> bytes) \<Rightarrow> nat \<Rightarrow> multi_buffer \<Rightarrow> bytes \<Rightarrow> multi_buffer res" where
  "merge_loop pool k dest src =
     (if src = [] then Ok dest
      else
        (case Write (New (pool k)) src of
           Ok (b, n) \<Rightarrow> merge_loop pool (Suc k) (dest @ [b]) (drop n src)
         | Err e \<Rightarrow> Err e
         | Panic s \<Rightarrow> Panic s))"
  by pat_completeness auto
termination
  by (relation "measure (\<lambda>(pool, k, dest, src). length src)") (auto simp: Write_def)

declare merge_loop.simps [simp del]

definition MergeBytes :: "(nat \<Rightarrow> bytes) \<Rightarrow> multi_buffer \<Rightarrow> bytes \<Rightarrow> multi_buffer res" where
  "MergeBytes pool dest src =
     (if dest \<noteq> [] \<and> \<not> IsFull (last dest)
      then rbind (Write (last dest) src)
        (\<lambda>(b, n). merge_loop pool 0 (butlast dest @ [b]) (drop n src))
      else merge_loop pool 0 dest src)"

fun ReleaseMulti :: "multi_buffer \<Rightarrow> pools \<Rightarrow> multi_buffer \<times> pools" where
  "ReleaseMulti [] ps = ([], ps)"
| "ReleaseMulti (b # mb) ps = ReleaseMulti mb (snd (Release b ps))"

text \<open>\<open>Copy\<close> into a slice of length \<open>k\<close>: the bytes copied.\<close>

fun Copy :: "multi_buffer \<Rightarrow> nat \<Rightarrow> bytes res" where
  "Copy [] k = Ok []"
| "Copy (bb # mb) k =
     rbind (Bytes bb) (\<lambda>bs.
       (let out = take k bs in
        if i32 (int (length out)) < Len bb then Ok out
        else rmap (\<lambda>rest. out @ rest) (Copy mb (k - length out))))"

text \<open>
  \<open>ReadFrom\<close>: fills one buffer after the other until the reader ends. An error of the
  reader is returned together with what was read.
\<close>

function read_all ::
  "(nat \<Rightarrow> bytes) \<Rightarrow> nat \<Rightarrow> multi_buffer \<Rightarrow> stream \<Rightarrow> (multi_buffer \<times> goerr option) res" where
  "read_all pool k mb s =
     (case ReadFullFrom (New (pool k)) s Size of
        Panic p \<Rightarrow> Panic p
      | Err e \<Rightarrow> Err e
      | Ok (b, n, err, s') \<Rightarrow>
         (let mb = (if IsEmpty b then mb else mb @ [b]) in
          case err of
            None \<Rightarrow> read_all pool (Suc k) mb s'
          | Some e \<Rightarrow> Ok (mb, if e = EOF \<or> e = ErrUnexpectedEOF then None else Some e)))"
  by pat_completeness auto
termination
  by (relation "measure (\<lambda>(pool, k, mb, s). length (pending s))")
    (auto simp: ReadFullFrom_def Let_def read_full_def New_def Size_def slice_range_def scap_def
      split: if_splits)

declare read_all.simps [simp del]

definition mb_ReadFrom :: "(nat \<Rightarrow> bytes) \<Rightarrow> stream \<Rightarrow> (multi_buffer \<times> goerr option) res" where
  "mb_ReadFrom pool s = read_all pool 0 [] s"

text \<open>\<open>SplitBytes\<close> into a slice of length \<open>k\<close>: the leftover and the bytes written.\<close>

fun SplitBytes :: "multi_buffer \<Rightarrow> nat \<Rightarrow> (multi_buffer \<times> bytes) res" where
  "SplitBytes [] k = Ok ([], [])"
| "SplitBytes (b # mb) k =
     (case Read b k of
        Panic p \<Rightarrow> Panic p
      | Ok (b', out) \<Rightarrow>
          (if \<not> IsEmpty b' then Ok (b' # mb, out)
           else rmap (\<lambda>(rest, more). (rest, out @ more)) (SplitBytes mb (k - length out)))
      | Err e \<Rightarrow> (if \<not> IsEmpty b then Ok (b # mb, []) else SplitBytes mb k))"

definition SplitFirst :: "multi_buffer \<Rightarrow> multi_buffer \<times> buffer option" where
  "SplitFirst mb = (case mb of [] \<Rightarrow> ([], None) | b # rest \<Rightarrow> (rest, Some b))"

definition SplitFirstBytes :: "multi_buffer \<Rightarrow> nat \<Rightarrow> (multi_buffer \<times> bytes) res" where
  "SplitFirstBytes mb k =
     (case SplitFirst mb of
        (rest, None) \<Rightarrow> Ok (rest, [])
      | (rest, Some b) \<Rightarrow> rmap (\<lambda>bs. (rest, take k bs)) (Bytes b))"

text \<open>
  \<open>Compact\<close>. Appending \<open>cur\<close> to \<open>last\<close> is one \<open>Read\<close> of \<open>cur\<close> into the free part of
  \<open>last\<close>; \<open>common.Must2\<close> panics on the error an empty \<open>cur\<close> gives.
\<close>

definition read_of_buffer :: "buffer \<Rightarrow> nat \<Rightarrow> bytes \<times> goerr option" where
  "read_of_buffer b n =
     (case Read b n of Ok (b', out) \<Rightarrow> (out, None) | Err e \<Rightarrow> ([], Some e) | Panic s \<Rightarrow> ([], None))"

fun compact_loop :: "multi_buffer \<Rightarrow> buffer \<Rightarrow> multi_buffer \<Rightarrow> multi_buffer res" where
  "compact_loop mb2 lst [] = Ok (mb2 @ [lst])"
| "compact_loop mb2 lst (cur # mb) =
     (if i32 (Len lst + Len cur) > Size then compact_loop (mb2 @ [lst]) cur mb
      else
        (case ReadFrom lst (read_of_buffer cur) of
           Panic p \<Rightarrow> Panic p
         | Err e \<Rightarrow> Panic ''common.Must2''
         | Ok (lst', n, Some e) \<Rightarrow> Panic ''common.Must2''
         | Ok (lst', n, None) \<Rightarrow> compact_loop mb2 lst' mb))"

definition Compact :: "multi_buffer \<Rightarrow> multi_buffer res" where
  "Compact mb = (case mb of [] \<Rightarrow> Ok [] | b # rest \<Rightarrow> compact_loop [] b rest)"

text \<open>The loop of \<open>SplitSize\<close>: buffers move to the result while the total fits.\<close>

fun split_size_loop :: "multi_buffer \<Rightarrow> int \<Rightarrow> int \<Rightarrow> multi_buffer \<times> multi_buffer" where
  "split_size_loop [] tot sz = ([], [])"
| "split_size_loop (b # mb) tot sz =
     (if i32 (tot + Len b) > sz then (b # mb, [])
      else (case split_size_loop mb (i32 (tot + Len b)) sz of (rest, r) \<Rightarrow> (rest, b # r)))"

definition SplitSize :: "bytes \<Rightarrow> multi_buffer \<Rightarrow> int \<Rightarrow> (multi_buffer \<times> multi_buffer) res" where
  "SplitSize p mb sz =
     (case mb of
        [] \<Rightarrow> Ok ([], [])
      | b0 # rest \<Rightarrow>
          if Len b0 > sz then
            rbind (Extend (New p) sz) (\<lambda>(b, off).
              rbind (BytesTo b0 sz) (\<lambda>bs.
                Ok (Advance b0 sz # rest, [put_at b off (take (nat sz) bs)])))
          else Ok (split_size_loop mb 0 sz))"

definition SplitMulti :: "multi_buffer \<Rightarrow> int \<Rightarrow> multi_buffer \<times> multi_buffer" where
  "SplitMulti mb i =
     (if i < int (length mb) \<and> i \<ge> 0 then (take (nat i) mb, drop (nat i) mb) else (mb, []))"

text \<open>
  \<open>WriteMultiBuffer\<close>: \<open>wr bs\<close> is the error \<open>writer.Write(bs)\<close> returns; the result is the
  leftover, the error and what was written, buffer by buffer.
\<close>

fun WriteMultiBuffer ::
  "(bytes \<Rightarrow> goerr option) \<Rightarrow> multi_buffer \<Rightarrow> (multi_buffer \<times> goerr option \<times> bytes list) res" where
  "WriteMultiBuffer wr [] = Ok ([], None, [])"
| "WriteMultiBuffer wr (b # mb) =
     rbind (Bytes b) (\<lambda>bs.
       (case wr bs of
          Some e \<Rightarrow> Ok (mb, Some e, [bs])
        | None \<Rightarrow> rmap (\<lambda>(rest, e, out). (rest, e, bs # out)) (WriteMultiBuffer wr mb)))"

definition mb_Len :: "multi_buffer \<Rightarrow> int" where
  "mb_Len mb = foldl (\<lambda>sz b. i32 (sz + Len b)) 0 mb"

fun mb_IsEmpty :: "multi_buffer \<Rightarrow> bool" where
  "mb_IsEmpty [] = True"
| "mb_IsEmpty (b # mb) = (if \<not> IsEmpty b then False else mb_IsEmpty mb)"

definition ReadAllToBytes :: "(nat \<Rightarrow> bytes) \<Rightarrow> stream \<Rightarrow> bytes res" where
  "ReadAllToBytes pool s =
     rbind (mb_ReadFrom pool s) (\<lambda>(mb, err).
       (case err of
          Some e \<Rightarrow> Err e
        | None \<Rightarrow>
            if mb_Len mb = 0 then Ok []
            else if mb_Len mb < 0 then Panic ''makeslice: len out of range''
            else rmap (\<lambda>(rest, out). out @ replicate (nat (mb_Len mb) - length out) 0)
              (SplitBytes mb (nat (mb_Len mb)))))"

text \<open>\<open>MultiBufferContainer\<close>: its state is the list it wraps.\<close>

definition container_Read :: "multi_buffer \<Rightarrow> nat \<Rightarrow> (multi_buffer \<times> bytes) res" where
  "container_Read c k = (if mb_IsEmpty c then Err EOF else SplitBytes c k)"

definition container_ReadMultiBuffer :: "multi_buffer \<Rightarrow> multi_buffer \<times> multi_buffer" where
  "container_ReadMultiBuffer c = ([], c)"

definition container_Write ::
  "(nat \<Rightarrow> bytes) \<Rightarrow> multi_buffer \<Rightarrow> bytes \<Rightarrow> (multi_buffer \<times> nat) res" where
  "container_Write pool c b = rmap (\<lambda>mb. (mb, length b)) (MergeBytes pool c b)"

definition container_WriteMultiBuffer :: "multi_buffer \<Rightarrow> multi_buffer \<Rightarrow> multi_buffer" where
  "container_WriteMultiBuffer c b = fst (MergeMulti c b)"

definition container_Close :: "multi_buffer \<Rightarrow> pools \<Rightarrow> multi_buffer \<times> pools" where
  "container_Close c ps = ReleaseMulti c ps"

section \<open>Content\<close>

definition mb_content :: "multi_buffer \<Rightarrow> bytes" where
  "mb_content mb = concat (map content mb)"

definition mb_wf :: "multi_buffer \<Rightarrow> bool" where
  "mb_wf mb \<longleftrightarrow> list_all buf_wf mb"

definition pool_ok :: "(nat \<Rightarrow> bytes) \<Rightarrow> bool" where
  "pool_ok pool \<longleftrightarrow> (\<forall>i. length (pool i) < 2147483648)"

lemma mb_content_simps [simp]:
  "mb_content [] = []" "mb_content (b # mb) = content b @ mb_content mb"
  "mb_content (mb1 @ mb2) = mb_content mb1 @ mb_content mb2"
  by (simp_all add: mb_content_def)

lemma mb_wf_simps [simp]:
  "mb_wf []" "mb_wf (b # mb) \<longleftrightarrow> buf_wf b \<and> mb_wf mb"
  "mb_wf (mb1 @ mb2) \<longleftrightarrow> mb_wf mb1 \<and> mb_wf mb2"
  by (simp_all add: mb_wf_def)

lemma mb_IsEmpty_content: "mb_wf mb \<Longrightarrow> mb_IsEmpty mb \<longleftrightarrow> mb_content mb = []"
  by (induction mb) (auto simp: IsEmpty_content)

lemma mb_Len_content:
  assumes "mb_wf mb" and "length (mb_content mb) < 2147483648"
  shows "mb_Len mb = int (length (mb_content mb))"
proof -
  have "foldl (\<lambda>sz b. i32 (sz + Len b)) k mb = k + int (length (mb_content mb))"
    if "0 \<le> k" "k + int (length (mb_content mb)) < 2147483648" for k
    using assms(1) that
  proof (induction mb arbitrary: k)
    case (Cons b mb)
    then have "i32 (k + Len b) = k + int (length (content b))" by (simp add: Len_content)
    with Cons show ?case by simp
  qed simp
  from this [of 0] assms(2) show ?thesis by (simp add: mb_Len_def)
qed

lemma merge_loop_content:
  "pool_ok pool \<Longrightarrow> mb_wf dest \<Longrightarrow>
     \<exists>mb. merge_loop pool k dest src = Ok mb \<and> mb_wf mb \<and> mb_content mb = mb_content dest @ src"
proof (induction pool k dest src rule: merge_loop.induct)
  case (1 pool k dest src)
  show ?case
  proof (cases "src = []")
    case True
    with 1 show ?thesis by (simp add: merge_loop.simps)
  next
    case False
    have n: "buf_wf (New (pool k))" "content (New (pool k)) = []" "room (New (pool k)) = 8192"
      using 1(2) New_wf [of "pool k"] by (simp_all add: pool_ok_def)
    obtain b where b: "Write (New (pool k)) src = Ok (b, min 8192 (length src))" "buf_wf b"
      "content b = take 8192 src"
      using Write_content [OF n(1), of src] n by auto
    have "drop (min 8192 (length src)) src = drop 8192 src" by (simp add: min_def)
    with 1(1) [OF False b(1) refl] b 1(2,3) False show ?thesis
      by (subst merge_loop.simps) (auto simp: min_def)
  qed
qed

lemma MergeBytes_content:
  assumes "pool_ok pool" and "mb_wf dest"
  shows "\<exists>mb. MergeBytes pool dest src = Ok mb \<and> mb_wf mb \<and>
    mb_content mb = mb_content dest @ src"
proof (cases "dest \<noteq> [] \<and> \<not> IsFull (last dest)")
  case True
  then obtain ds d where d: "dest = ds @ [d]" by (cases dest rule: rev_cases) auto
  with assms have wf: "buf_wf d" "mb_wf ds" by simp_all
  obtain b where b: "Write d src = Ok (b, min (room d) (length src))" "buf_wf b"
    "content b = content d @ take (room d) src"
    using Write_content [OF wf(1), of src] by auto
  obtain mb where m: "merge_loop pool 0 (ds @ [b]) (drop (min (room d) (length src)) src) = Ok mb"
    "mb_wf mb"
    "mb_content mb = mb_content (ds @ [b]) @ drop (min (room d) (length src)) src"
    using merge_loop_content [OF assms(1), of "ds @ [b]"] b(2) wf(2) by auto
  have "take (room d) src @ drop (min (room d) (length src)) src = src" by (simp add: min_def)
  with True d b m show ?thesis by (simp add: MergeBytes_def)
next
  case False
  then have "MergeBytes pool dest src = merge_loop pool 0 dest src" by (auto simp: MergeBytes_def)
  with merge_loop_content [OF assms] show ?thesis by simp
qed

lemma SplitBytes_content:
  "mb_wf mb \<Longrightarrow> \<exists>rest. SplitBytes mb k = Ok (rest, take k (mb_content mb)) \<and> mb_wf rest \<and>
     mb_content rest = drop k (mb_content mb)"
proof (induction mb arbitrary: k)
  case (Cons b mb)
  then have wf: "buf_wf b" by simp
  show ?case
  proof (cases "content b = []")
    case True
    with Cons wf show ?thesis by (auto simp: Read_content(1) IsEmpty_content)
  next
    case False
    obtain b' where b': "Read b k = Ok (b', take k (content b))" "buf_wf b'"
      "content b' = drop k (content b)"
      using Read_content(2) [OF wf False] by blast
    obtain rest where r: "SplitBytes mb (k - length (content b)) =
        Ok (rest, take (k - length (content b)) (mb_content mb))" "mb_wf rest"
      "mb_content rest = drop (k - length (content b)) (mb_content mb)"
      using Cons by auto
    show ?thesis
    proof (cases "k < length (content b)")
      case True
      with b' Cons show ?thesis by (simp add: IsEmpty_content)
    next
      case False
      with b' r show ?thesis by (simp add: IsEmpty_content)
    qed
  qed
qed simp

lemma split_size_loop_spec:
  "mb_wf mb \<Longrightarrow> 0 \<le> tot \<Longrightarrow> tot + int (length (mb_content mb)) < 2147483648 \<Longrightarrow>
     split_size_loop mb tot sz = (rest, r) \<Longrightarrow>
     r @ rest = mb \<and> (r \<noteq> [] \<longrightarrow> tot + int (length (mb_content r)) \<le> sz) \<and>
     (rest \<noteq> [] \<longrightarrow> sz < tot + int (length (mb_content r)) + Len (hd rest))"
proof (induction mb arbitrary: tot rest r)
  case Nil
  then show ?case by simp
next
  case (Cons b mb)
  have t: "i32 (tot + Len b) = tot + int (length (content b))"
    using Cons.prems by (simp add: Len_content)
  show ?case
  proof (cases "tot + int (length (content b)) > sz")
    case True
    with Cons.prems t show ?thesis by (auto simp: Len_content)
  next
    case False
    obtain rest' r' where l: "split_size_loop mb (tot + int (length (content b))) sz = (rest', r')"
      by fastforce
    with False Cons.prems t have eq: "rest = rest'" "r = b # r'" by simp_all
    from Cons.IH [OF _ _ _ l] Cons.prems show ?thesis
      unfolding eq using False by (cases "r' = []") auto
  qed
qed

lemma New_Extend:
  assumes "length p < 2147483648" and "0 \<le> sz" and "sz \<le> 8192" and "length bs = nat sz"
  shows "\<exists>b off. Extend (New p) sz = Ok (b, off) \<and> buf_wf (put_at b off bs) \<and>
    content (put_at b off bs) = bs"
proof -
  have n: "buf_wf (New p)" "content (New p) = []" "room (New p) = 8192" using New_wf assms by auto
  define z :: bytes where "z = replicate (nat sz) 0"
  have e: "Extend (New p) sz = Ok (append_at_end (New p) z, buf_end (New p))"
    unfolding z_def using assms n by (intro Extend_content) (auto simp: Size_def)
  have "put_at (append_at_end (New p) z) (buf_end (New p)) bs = append_at_end (New p) bs"
    using assms
    by (cases "buf_v (New p)") (auto simp: put_at_def append_at_end_def New_def z_def overwrite_def)
  with e append_at_end_content [OF n(1), of bs] n assms show ?thesis by simp
qed

section \<open>Reading a stream to its end\<close>

lemma read_all_content:
  "pool_ok pool \<Longrightarrow> mb_wf mb \<Longrightarrow>
     \<exists>mb'. read_all pool k mb s =
         Ok (mb', if ending s = EOF \<or> ending s = ErrUnexpectedEOF then None else Some (ending s)) \<and>
       mb_wf mb' \<and> mb_content mb' = mb_content mb @ pending s"
proof (induction pool k mb s rule: read_all.induct)
  case (1 pool k mb s)
  have n: "buf_wf (New (pool k))" "content (New (pool k)) = []" "room (New (pool k)) = 8192"
    using 1(2) New_wf [of "pool k"] by (simp_all add: pool_ok_def)
  obtain bs err s' where r: "read_full 8192 s = (bs, err, s')" by (metis prod_cases3)
  define b where "b = append_at_end (New (pool k)) bs"
  have b: "buf_wf b" "content b = bs"
    using append_at_end_content [OF n(1), of bs] n read_full_le [OF r] by (simp_all add: b_def)
  have f: "ReadFullFrom (New (pool k)) s Size = Ok (b, length bs, err, s')"
    using ReadFullFrom_append [OF n(1), of Size s] n r by (simp add: Size_def b_def)
  define mb1 where "mb1 = (if IsEmpty b then mb else mb @ [b])"
  have mb1: "mb_wf mb1" "mb_content mb1 = mb_content mb @ bs"
    using b 1(3) by (auto simp: mb1_def IsEmpty_content)
  show ?case
  proof (cases err)
    case None
    then have p: "bs @ pending s' = pending s" "ending s' = ending s"
      using r by (auto simp: read_full_def split: if_splits)
    have "read_all pool k mb s = read_all pool (Suc k) mb1 s'"
      by (subst read_all.simps) (simp add: f None mb1_def)
    with 1(1) [OF f refl refl refl mb1_def None 1(2) mb1(1)] mb1 p show ?thesis by auto
  next
    case (Some e)
    then have "pending s = bs"
      "(e = EOF \<or> e = ErrUnexpectedEOF) = (ending s = EOF \<or> ending s = ErrUnexpectedEOF)"
      "e \<noteq> EOF \<Longrightarrow> e \<noteq> ErrUnexpectedEOF \<Longrightarrow> e = ending s"
      using r by (auto simp: read_full_def split: if_splits)
    with Some f mb1 show ?thesis
      by (subst read_all.simps) (auto simp: mb1_def)
  qed
qed

section \<open>Compacting\<close>

lemma read_of_buffer_content:
  "buf_wf b \<Longrightarrow> content b \<noteq> [] \<Longrightarrow> read_of_buffer b n = (take n (content b), None)"
  using Read_content(2) [of b n] by (auto simp: read_of_buffer_def)

text \<open>A buffer filled from the start of a full-size slice: the only ones \<open>Compact\<close> can join.\<close>

definition packed :: "buffer \<Rightarrow> bool" where
  "packed b \<longleftrightarrow> buf_wf b \<and> buf_start b = 0 \<and> slen (buf_v b) = Size"

lemma packed_room: "packed b \<Longrightarrow> int (room b) = Size - Len b"
  using buf_wf_bounds [of b] by (simp add: packed_def room_def Len_content length_content)

lemma packed_append: "packed b \<Longrightarrow> length bs \<le> room b \<Longrightarrow> packed (append_at_end b bs)"
  using append_at_end_content [of b bs] by (simp add: packed_def append_at_end_def)

lemma packed_Len: "packed b \<Longrightarrow> 0 \<le> Len b \<and> Len b \<le> 8192"
  using buf_wf_bounds [of b] by (simp add: packed_def Len_content length_content Size_def)

lemma compact_loop_content:
  "packed lst \<Longrightarrow> list_all packed mb \<Longrightarrow> list_all (\<lambda>b. content b \<noteq> []) mb \<Longrightarrow>
     \<exists>out. compact_loop mb2 lst mb = Ok (mb2 @ out) \<and> mb_content out = content lst @ mb_content mb"
proof (induction mb arbitrary: mb2 lst)
  case Nil
  then show ?case by simp
next
  case (Cons cur mb)
  have wf: "buf_wf lst" "buf_wf cur" "content cur \<noteq> []" "packed cur"
    using Cons.prems by (auto simp: packed_def)
  have i: "i32 (Len lst + Len cur) = Len lst + Len cur"
    using packed_Len [of lst] packed_Len [of cur] Cons.prems by simp
  show ?case
  proof (cases "Len lst + Len cur > Size")
    case True
    obtain out where "compact_loop (mb2 @ [lst]) cur mb = Ok ((mb2 @ [lst]) @ out)"
      "mb_content out = content cur @ mb_content mb"
      using Cons.IH [OF wf(4), of "mb2 @ [lst]"] Cons.prems by auto
    then show ?thesis using True i by (intro exI [of _ "lst # out"]) simp
  next
    case False
    then have fit: "length (content cur) \<le> room lst"
      using packed_room [of lst] Cons.prems wf by (simp add: Len_content)
    have r: "ReadFrom lst (read_of_buffer cur) =
        Ok (append_at_end lst (content cur), length (content cur), None)"
      using wf fit by (simp add: ReadFrom_def tail_len_room read_of_buffer_content)
    obtain out where "compact_loop mb2 (append_at_end lst (content cur)) mb = Ok (mb2 @ out)"
      "mb_content out = content (append_at_end lst (content cur)) @ mb_content mb"
      using Cons.IH [of "append_at_end lst (content cur)" mb2] Cons.prems
        packed_append [OF _ fit] by auto
    then show ?thesis
      using False i r append_at_end_content [OF wf(1) fit] by simp
  qed
qed

section \<open>Properties\<close>

lemma Extend_UDP: "Extend b n = Ok (b', off) \<Longrightarrow> buf_UDP b' = buf_UDP b"
  by (cases "slice_range (buf_v b) (buf_end b) (i32 (buf_end b + n))")
    (auto simp: Extend_def Let_def split: if_splits)

lemma SplitSize_spec:
  assumes "mb_wf mb" and "length p < 2147483648" and "length (mb_content mb) < 2147483648"
    and "0 < sz" and "sz \<le> 8192"
  shows "\<exists>rest r. SplitSize p mb sz = Ok (rest, r) \<and> mb_wf rest \<and> mb_wf r \<and>
    mb_content r @ mb_content rest = mb_content mb \<and> int (length (mb_content r)) \<le> sz \<and>
    (mb \<noteq> [] \<longrightarrow> r \<noteq> [] \<and>
       length (mb_content rest) + length rest < length (mb_content mb) + length mb) \<and>
    ((\<forall>b \<in> set mb. buf_UDP b = None) \<longrightarrow> (\<forall>b \<in> set rest \<union> set r. buf_UDP b = None))"
proof (cases mb)
  case Nil
  then show ?thesis using assms by (simp add: SplitSize_def)
next
  case (Cons b0 mb')
  then have wf: "buf_wf b0" "mb_wf mb'" using assms by simp_all
  show ?thesis
  proof (cases "Len b0 > sz")
    case True
    define bs where "bs = take (nat sz) (content b0)"
    have bs: "length bs = nat sz" using True wf assms by (simp add: bs_def Len_content)
    obtain b off where e: "Extend (New p) sz = Ok (b, off)" "buf_wf (put_at b off bs)"
      "content (put_at b off bs) = bs"
      using New_Extend [OF assms(2) _ assms(5) bs] assms by auto
    have t: "BytesTo b0 sz = Ok bs" unfolding bs_def using assms True wf
      by (intro BytesTo_content) auto
    have a: "buf_wf (Advance b0 sz)" "content (Advance b0 sz) = drop (nat sz) (content b0)"
      using advance_start_content [OF wf(1), of sz] Advance_content [OF wf(1), of sz] True assms
      by auto
    have "take (nat sz) bs = bs" using bs by simp
    then have "SplitSize p mb sz = Ok (Advance b0 sz # mb', [put_at b off bs])"
      using Cons True e t by (simp add: SplitSize_def)
    moreover have "length (drop (nat sz) (content b0)) < length (content b0)"
      using True assms(4) wf by (simp add: Len_content)
    moreover have "buf_UDP (put_at b off bs) = None" "buf_UDP (Advance b0 sz) = buf_UDP b0"
      using Extend_UDP [OF e(1)] by (simp_all add: put_at_def New_def Advance_def Check_def Let_def)
    ultimately show ?thesis using Cons wf a e bs assms by (simp add: bs_def)
  next
    case False
    obtain rest r where l: "split_size_loop mb 0 sz = (rest, r)" by fastforce
    note sp = split_size_loop_spec [OF assms(1) _ _ l]
    have ne: "r \<noteq> []" using sp False Cons assms by (cases r) (auto simp: Len_content)
    from sp assms have "r @ rest = mb" by simp
    with assms(1) have "mb_wf r \<and> mb_wf rest \<and> mb_content r @ mb_content rest = mb_content mb"
      by auto
    moreover have "length (mb_content rest) + length rest < length (mb_content mb) + length mb"
      using \<open>r @ rest = mb\<close> ne by (cases r) auto
    moreover have "set rest \<union> set r = set mb" using \<open>r @ rest = mb\<close> by auto
    ultimately show ?thesis using Cons False l sp ne assms by (auto simp: SplitSize_def)
  qed
qed

text \<open>
  \<open>SplitSize\<close> cuts a list of buffers in two without touching a byte: the second result
  and the first, in this order, hold exactly the old content; the second holds at most
  \<open>size\<close> bytes; and it is not empty unless there was nothing to take.
\<close>

theorem SplitSize_content:
  assumes "mb_wf mb" and "length p < 2147483648" and "length (mb_content mb) < 2147483648"
    and "0 < sz" and "sz \<le> 8192"
  shows "\<exists>rest r. SplitSize p mb sz = Ok (rest, r) \<and> mb_wf rest \<and> mb_wf r \<and>
    mb_content r @ mb_content rest = mb_content mb \<and> int (length (mb_content r)) \<le> sz \<and>
    (mb \<noteq> [] \<longrightarrow> r \<noteq> [])"
  using SplitSize_spec [OF assms] by blast

theorem SplitSize_content_witness:
  "\<exists>rest r. SplitSize [] [New []] 5 = Ok (rest, r) \<and> mb_content r @ mb_content rest = []"
proof -
  have n: "buf_wf (New [])" "content (New []) = []" using New_wf [of "[]"] by simp_all
  then have w: "mb_wf [New []]" by simp
  from SplitSize_content [OF w, of "[]" 5] n show ?thesis by fastforce
qed

text \<open>
  \<open>Compact\<close> keeps the content when every buffer is packed (its data starts at the front
  of a slice of the regular size) and only the first may be empty.
\<close>

theorem Compact_content:
  assumes "mb = b # rest" and "list_all packed mb"
    and "list_all (\<lambda>b. content b \<noteq> []) rest"
  shows "\<exists>out. Compact mb = Ok out \<and> mb_content out = mb_content mb"
  using assms compact_loop_content [of b rest "[]"] by (auto simp: Compact_def)

lemma packed_New: "length p < 2147483648 \<Longrightarrow> packed (New p)"
  using New_wf [of p] by (simp add: packed_def) (simp add: New_def Size_def)

theorem Compact_content_witness:
  "\<exists>out. Compact [New []] = Ok out \<and> mb_content out = mb_content [New []]"
  by (rule Compact_content [OF refl]) (simp_all add: packed_New)

definition advanced_buffer :: buffer where
  "advanced_buffer = Advance (append_at_end (New []) (replicate 8192 1)) 8191"

definition small_buffer :: buffer where
  "small_buffer = append_at_end (New []) [2, 3]"

lemma advanced_small:
  "buf_wf advanced_buffer \<and> content advanced_buffer = [1] \<and> room advanced_buffer = 0"
  "buf_wf small_buffer \<and> content small_buffer = [2, 3]"
proof -
  have n: "buf_wf (New [])" "content (New []) = []" "room (New []) = 8192"
    using New_wf [of "[]"] by simp_all
  define f where "f = append_at_end (New []) (replicate 8192 1)"
  have f: "buf_wf f" "content f = replicate 8192 1" "room f = 0"
    using append_at_end_content [OF n(1), of "replicate 8192 1"] n by (simp_all add: f_def)
  have "Len f = 8192" using f by (simp add: Len_content)
  then show "buf_wf advanced_buffer \<and> content advanced_buffer = [1] \<and> room advanced_buffer = 0"
    using advance_start_content [OF f(1), of 8191] Advance_content [OF f(1), of 8191] f
    by (simp add: advanced_buffer_def flip: f_def)
  show "buf_wf small_buffer \<and> content small_buffer = [2, 3]"
    using append_at_end_content [OF n(1), of "[2, 3]"] n by (simp add: small_buffer_def)
qed

text \<open>
  Without that condition \<open>Compact\<close> loses data: a buffer whose front has been consumed
  (\<open>Advance\<close>) has less room behind its data than \<open>Size - Len\<close>, and the bytes of the next
  buffer that do not fit are dropped with it.
\<close>

theorem Compact_loses_data:
  "\<exists>mb out. mb_wf mb \<and> mb_content mb = [1, 2, 3] \<and> Compact mb = Ok out \<and> mb_content out = [1]"
proof -
  note a = advanced_small
  have "ReadFrom advanced_buffer (read_of_buffer small_buffer) =
      Ok (append_at_end advanced_buffer [], 0, None)"
    using a by (simp add: ReadFrom_def tail_len_room read_of_buffer_content)
  then have "Compact [advanced_buffer, small_buffer] = Ok [append_at_end advanced_buffer []]"
    using a by (simp add: Compact_def Len_content Size_def)
  moreover have "content (append_at_end advanced_buffer []) = [1]"
    using a append_at_end_content [of advanced_buffer "[]"] by simp
  ultimately show ?thesis
    using a by (intro exI [of _ "[advanced_buffer, small_buffer]"] exI) (auto intro: exI)
qed

text \<open>
  \<open>ReadAllToBytes\<close> returns what the reader delivers: all bytes of a reader that ends with
  \<open>io.EOF\<close>, and the reader's own error if it ends with another one.
\<close>

theorem ReadAllToBytes_spec:
  assumes "pool_ok pool" and "length bs < 2147483648" and "e \<noteq> ErrUnexpectedEOF"
  shows "ReadAllToBytes pool \<lparr>pending = bs, ending = e\<rparr> = (if e = EOF then Ok bs else Err e)"
proof -
  obtain mb where m: "mb_ReadFrom pool \<lparr>pending = bs, ending = e\<rparr> =
      Ok (mb, if e = EOF then None else Some e)" "mb_wf mb" "mb_content mb = bs"
    using read_all_content [OF assms(1), of "[]" 0 "\<lparr>pending = bs, ending = e\<rparr>"] assms(3)
    by (auto simp: mb_ReadFrom_def)
  have l: "mb_Len mb = int (length bs)" using mb_Len_content [of mb] m assms by simp
  obtain rest where "SplitBytes mb (length bs) = Ok (rest, bs)"
    using SplitBytes_content [OF m(2), of "length bs"] m by auto
  with m l show ?thesis by (simp add: ReadAllToBytes_def)
qed

theorem ReadAllToBytes_spec_witness:
  "ReadAllToBytes (\<lambda>_. []) (stream_of [1, 2, 3]) = Ok [1, 2, 3]"
  using ReadAllToBytes_spec [of "\<lambda>_. []" "[1, 2, 3]" EOF] by (simp add: stream_of_def pool_ok_def)

section \<open>The container as a byte queue\<close>

definition cont_wr :: "(nat \<Rightarrow> bytes) \<Rightarrow> multi_buffer \<Rightarrow> bytes \<Rightarrow> multi_buffer \<times> nat" where
  "cont_wr pool c d = (case container_Write pool c d of Ok r \<Rightarrow> r | _ \<Rightarrow> (c, 0))"

definition cont_rd :: "multi_buffer \<Rightarrow> nat \<Rightarrow> multi_buffer \<times> bytes" where
  "cont_rd c k = (case container_Read c k of Ok r \<Rightarrow> r | _ \<Rightarrow> (c, []))"

definition zero_pool :: "nat \<Rightarrow> bytes" where
  "zero_pool i = replicate 8192 0"

lemma container_wr_spec:
  "pool_ok pool \<Longrightarrow> mb_wf c \<Longrightarrow> cont_wr pool c d = (c', n) \<Longrightarrow>
     mb_wf c' \<and> n = length d \<and> mb_content c' = mb_content c @ d"
  using MergeBytes_content [of pool c d] by (auto simp: cont_wr_def container_Write_def)

lemma container_rd_spec:
  "mb_wf c \<Longrightarrow> cont_rd c k = (c', out) \<Longrightarrow>
     mb_wf c' \<and> out = take k (mb_content c) \<and> mb_content c' = drop k (mb_content c)"
  using SplitBytes_content [of c k]
  by (auto simp: cont_rd_def container_Read_def mb_IsEmpty_content split: if_splits)

interpretation cq: byte_fifo mb_content mb_wf "cont_wr zero_pool" cont_rd
proof
  fix s d s' n assume "mb_wf s" and "cont_wr zero_pool s d = (s', n)"
  moreover have "pool_ok zero_pool" by (simp add: pool_ok_def zero_pool_def)
  ultimately show "mb_wf s' \<and> n \<le> length d \<and> mb_content s' = mb_content s @ take n d"
    using container_wr_spec by fastforce
next
  fix s k s' out assume "mb_wf s" and "cont_rd s k = (s', out)"
  then show "mb_wf s' \<and> length out \<le> k \<and> mb_content s = out @ mb_content s'"
    using container_rd_spec by fastforce
qed

text \<open>
  A \<open>MultiBufferContainer\<close> loses nothing: over any sequence of writes and reads on an
  empty container the bytes written are the bytes read followed by the content.
\<close>

theorem container_fifo:
  "fifo_run (cont_wr zero_pool) cont_rd ops [] = (c, acc, del) \<Longrightarrow> acc = del @ mb_content c"
  using cq.run_inv_fifo [of "[]" ops c acc del] by simp

theorem container_fifo_witness:
  "fst (snd (fifo_run (cont_wr zero_pool) cont_rd [GetOp 3] [])) = []"
proof -
  have "fifo_run (cont_wr zero_pool) cont_rd [GetOp 3] [] = ([], [], [])"
    by (simp add: cont_rd_def container_Read_def)
  from container_fifo [OF this] this show ?thesis by simp
qed

end
