(* ===== verification/MuxFrame.thy ===== *)
theory MuxFrame
  imports AddressCodec MultiBuffer
begin

text \<open>
  Mux frames: \<open>common/bitmask/byte.go\<close> and the metadata codec of \<open>common/mux/frame.go\<close>, the frames a
  \<open>Writer\<close> emits (\<open>common/mux/writer.go\<close>) and the packet reader (\<open>common/mux/reader.go\<close>).
  \<open>WriteTo\<close> fills in the length field after the rest, through the slice that \<open>Extend\<close> returned.
\<close>

section \<open>Bit masks\<close>

definition Has :: "byte \<Rightarrow> byte \<Rightarrow> bool" where
  "Has b bb \<longleftrightarrow> (b AND bb) \<noteq> 0"

definition Set_bits :: "byte \<Rightarrow> byte \<Rightarrow> byte" where
  "Set_bits b bb = b OR bb"

definition Clear_bits :: "byte \<Rightarrow> byte \<Rightarrow> byte" where
  "Clear_bits b bb = b AND NOT bb"

definition Toggle_bits :: "byte \<Rightarrow> byte \<Rightarrow> byte" where
  "Toggle_bits b bb = b XOR bb"

section \<open>Frame metadata\<close>

type_synonym SessionStatus = byte

definition SessionStatusNew :: SessionStatus where "SessionStatusNew = 1"
definition SessionStatusKeep :: SessionStatus where "SessionStatusKeep = 2"
definition SessionStatusEnd :: SessionStatus where "SessionStatusEnd = 3"
definition SessionStatusKeepAlive :: SessionStatus where "SessionStatusKeepAlive = 4"

definition OptionData :: byte where "OptionData = 1"
definition OptionError :: byte where "OptionError = 2"

definition TargetNetworkTCP :: byte where "TargetNetworkTCP = 1"
definition TargetNetworkUDP :: byte where "TargetNetworkUDP = 2"

definition addrParser :: serializer where
  "addrParser = portFirstAddressParser mux_table"

record FrameMetadata =
  fm_Target :: destination
  fm_SessionID :: u16
  fm_Option :: byte
  fm_SessionStatus :: SessionStatus
  fm_GlobalID :: bytes

definition write_addr_opt :: "buffer \<Rightarrow> address option \<Rightarrow> port \<Rightarrow> (buffer \<times> goerr option) res" where
  "write_addr_opt b a port =
     (case a of
        None \<Rightarrow> Panic ''nil pointer dereference''
      | Some addr \<Rightarrow> WriteAddressPort addrParser buf_writer b addr port)"

text \<open>\<open>common.Must\<close> turns an error of \<open>WriteByte\<close> into a panic.\<close>

definition must_byte :: "buffer \<Rightarrow> byte \<Rightarrow> buffer res" where
  "must_byte b x = (case WriteByte b x of Err e \<Rightarrow> Panic ''buffer full'' | r \<Rightarrow> r)"

text \<open>What a frame holds after the option byte; \<open>WriteByte\<close> and \<open>Write\<close> without \<open>Must\<close> ignore a full buffer.\<close>

definition write_target :: "FrameMetadata \<Rightarrow> buffer \<Rightarrow> (buffer \<times> goerr option) res" where
  "write_target f b =
     (if fm_SessionStatus f = SessionStatusNew then
        rbind (case dest_Network (fm_Target f) of
                 Network_TCP \<Rightarrow> must_byte b TargetNetworkTCP
               | Network_UDP \<Rightarrow> must_byte b TargetNetworkUDP
               | _ \<Rightarrow> Ok b) (\<lambda>b1.
        rbind (write_addr_opt b1 (dest_Address (fm_Target f)) (dest_Port (fm_Target f))) (\<lambda>(b2, err).
          if err \<noteq> None then Ok (b2, err)
          else if buf_UDP b2 \<noteq> None then buf_writer b2 (fm_GlobalID f)
          else Ok (b2, None)))
      else
        (case buf_UDP b of
           None \<Rightarrow> Ok (b, None)
         | Some d \<Rightarrow>
             (let b1 = (case WriteByte b TargetNetworkUDP of Ok b' \<Rightarrow> b' | _ \<Rightarrow> b) in
              rmap (\<lambda>(b2, err). (b2, None)) (write_addr_opt b1 (dest_Address d) (dest_Port d)))))"

definition FrameMetadata_WriteTo :: "FrameMetadata \<Rightarrow> buffer \<Rightarrow> (buffer \<times> goerr option) res" where
  "FrameMetadata_WriteTo f b =
     rbind (Extend b 2) (\<lambda>(b1, lenBytes).
       let len0 = Len b1 in
       rbind (Extend b1 2) (\<lambda>(b2, sessionBytes).
         let b3 = put_at b2 sessionBytes (put_u16 (fm_SessionID f)) in
         rbind (must_byte b3 (fm_SessionStatus f)) (\<lambda>b4.
         rbind (must_byte b4 (fm_Option f)) (\<lambda>b5.
         rbind (write_target f b5) (\<lambda>(b6, err).
           if err \<noteq> None then Ok (b6, err)
           else Ok (put_at b6 lenBytes (put_u16 (word_of_int (Len b6 - len0))), None))))))"

text \<open>
  \<open>addrParser.ReadAddressPort(nil, b)\<close> reads from the frame buffer as an \<open>io.Reader\<close>, whose \<open>Read\<close>
  delivers the content and then \<open>io.EOF\<close>; \<open>left\<close> is what remains of it.  The value \<open>fresh\<close> is
  the array of the temporary buffer.
\<close>

definition UnmarshalFromBuffer ::
  "bytes \<Rightarrow> FrameMetadata \<Rightarrow> buffer \<Rightarrow> (FrameMetadata \<times> goerr option) res" where
  "UnmarshalFromBuffer fresh f b =
     (if Len b < 4 then Ok (f, Some (ErrMsg ''insufficient buffer: ''))
      else
        rbind (BytesTo b 2) (\<lambda>idb. rbind (be_u16 idb) (\<lambda>sid.
        rbind (buf_Byte b 2) (\<lambda>status. rbind (buf_Byte b 3) (\<lambda>opt.
        let f1 = f\<lparr>fm_SessionID := sid, fm_SessionStatus := status, fm_Option := opt,
                   fm_Target := (fm_Target f)\<lparr>dest_Network := Network_Unknown\<rparr>\<rparr>;
            global = (\<lambda>f left.
              if fm_SessionStatus f = SessionStatusNew \<and> Has (fm_Option f) OptionData \<and>
                 dest_Network (fm_Target f) = Network_UDP \<and> 8 \<le> length left
              then Ok (f\<lparr>fm_GlobalID := take 8 left\<rparr>, None)
              else Ok (f, None)) in
        rbind (if status = SessionStatusKeep \<and> Len b > 4
               then rmap (\<lambda>x. x = TargetNetworkUDP) (buf_Byte b 4) else Ok False) (\<lambda>udpKeep.
        if status = SessionStatusNew \<or> udpKeep then
          (if Len b < 8 then Ok (f1, Some (ErrMsg ''insufficient buffer: ''))
           else
             rbind (buf_Byte b 4) (\<lambda>network.
             rbind (Bytes (Advance b 5)) (\<lambda>body.
               case ReadAddressPort addrParser fresh None (stream_of body) of
                 ((_, s), Ok (addr, port)) \<Rightarrow>
                   if network = TargetNetworkTCP
                   then global (f1\<lparr>fm_Target := TCPDestination addr port\<rparr>) (pending s)
                   else if network = TargetNetworkUDP
                   then global (f1\<lparr>fm_Target := UDPDestination addr port\<rparr>) (pending s)
                   else Ok (f1, Some (ErrMsg ''unknown network type: ''))
               | (_, Err e) \<Rightarrow> Ok (f1, Some (ErrMsg ''failed to parse address and port''))
               | (_, Panic m) \<Rightarrow> Panic m)))
        else rbind (Bytes b) (\<lambda>left. global f1 left)))))))"

definition Unmarshal ::
  "bytes \<Rightarrow> bytes \<Rightarrow> FrameMetadata \<Rightarrow> stream \<Rightarrow> (FrameMetadata \<times> goerr option \<times> stream) res" where
  "Unmarshal fresh fresh2 f reader =
     (case ReadUint16 reader of
        (Err e, s) \<Rightarrow> Ok (f, Some e, s)
      | (Panic m, s) \<Rightarrow> Panic m
      | (Ok metaLen, s) \<Rightarrow>
          if metaLen > 512 then Ok (f, Some (ErrMsg ''invalid metalen ''), s)
          else
            rbind (ReadFullFrom (New fresh) s (uint metaLen)) (\<lambda>(b, n, err, s').
              if err \<noteq> None then Ok (f, err, s')
              else rmap (\<lambda>(f', err'). (f', err', s')) (UnmarshalFromBuffer fresh2 f b)))"

section \<open>The bytes of a frame\<close>

lemma append_at_end_UDP [simp]: "buf_UDP (append_at_end b bs) = buf_UDP b"
  by (simp add: append_at_end_def)

lemma put_at_append:
  assumes "buf_wf b" and "length zs + length ys \<le> room b" and "length xs = length zs"
  shows "put_at (append_at_end b (zs @ ys)) (buf_end b) xs = append_at_end b (xs @ ys)"
proof -
  note w = buf_wf_bounds [OF assms(1)]
  have "overwrite (overwrite a (nat (buf_end b)) (zs @ ys)) (nat (buf_end b)) xs =
      overwrite a (nat (buf_end b)) (xs @ ys)" if "int (length a) \<ge> buf_end b" for a :: bytes
    using that assms(3) w by (simp add: overwrite_def min_absorb1 nat_le_iff)
  then show ?thesis
    using w assms(3) by (cases "buf_v b") (auto simp: put_at_def append_at_end_def)
qed

lemma must_byte_append: "buf_wf b \<Longrightarrow> room b \<noteq> 0 \<Longrightarrow> must_byte b x = Ok (append_at_end b [x])"
  by (simp add: must_byte_def WriteByte_append)

definition addr_ok :: "address option \<Rightarrow> bool" where
  "addr_ok a \<longleftrightarrow> (\<exists>x. a = Some x \<and> wire_addr x)"

definition enc_target :: "address option \<Rightarrow> port \<Rightarrow> bytes" where
  "enc_target a port = enc_address_port addrParser (the a) port"

lemma enc_target_length: "addr_ok a \<Longrightarrow> length (enc_target a port) \<le> 259"
  using enc_addr_length by (fastforce simp: enc_target_def addr_ok_def enc_address_port_def addrParser_def)

lemma write_addr_opt_append:
  assumes "addr_ok a" and "buf_wf b" and "259 \<le> room b"
  shows "write_addr_opt b a port = Ok (append_at_end b (enc_target a port), None)"
proof -
  obtain x where x: "a = Some x" "wire_addr x" using assms(1) by (auto simp: addr_ok_def)
  show ?thesis
    using mux_at.port_first_roundtrip(1) [OF x(2) assms(2)] enc_addr_length [OF x(2), of mux_table] assms(3) x(1)
    by (simp add: write_addr_opt_def enc_target_def addrParser_def)
qed

text \<open>Metadata that can be put on the wire, given the \<open>UDP\<close> field of the buffer it is written to.\<close>

definition frame_ok :: "FrameMetadata \<Rightarrow> destination option \<Rightarrow> bool" where
  "frame_ok f udp \<longleftrightarrow>
     (if fm_SessionStatus f = SessionStatusNew
      then dest_Network (fm_Target f) \<in> {Network_TCP, Network_UDP} \<and> addr_ok (dest_Address (fm_Target f)) \<and>
           length (fm_GlobalID f) = 8
      else (case udp of None \<Rightarrow> True | Some d \<Rightarrow> addr_ok (dest_Address d)))"

definition network_byte :: "network \<Rightarrow> byte" where
  "network_byte n = (if n = Network_TCP then TargetNetworkTCP else TargetNetworkUDP)"

definition target_bytes :: "FrameMetadata \<Rightarrow> destination option \<Rightarrow> bytes" where
  "target_bytes f udp =
     (if fm_SessionStatus f = SessionStatusNew
      then network_byte (dest_Network (fm_Target f)) #
           enc_target (dest_Address (fm_Target f)) (dest_Port (fm_Target f)) @
           (if udp = None then [] else fm_GlobalID f)
      else (case udp of
              None \<Rightarrow> []
            | Some d \<Rightarrow> TargetNetworkUDP # enc_target (dest_Address d) (dest_Port d)))"

definition meta_bytes :: "FrameMetadata \<Rightarrow> destination option \<Rightarrow> bytes" where
  "meta_bytes f udp = put_u16 (fm_SessionID f) @ [fm_SessionStatus f, fm_Option f] @ target_bytes f udp"

definition frame_bytes :: "FrameMetadata \<Rightarrow> destination option \<Rightarrow> bytes" where
  "frame_bytes f udp = put_u16 (word_of_nat (length (meta_bytes f udp))) @ meta_bytes f udp"

lemma target_bytes_length: "frame_ok f udp \<Longrightarrow> length (target_bytes f udp) \<le> 268"
  using enc_target_length [of "dest_Address (fm_Target f)" "dest_Port (fm_Target f)"]
    enc_target_length [of "dest_Address (the udp)" "dest_Port (the udp)"]
  by (auto simp: frame_ok_def target_bytes_def split: if_splits option.splits)

lemma write_target_append:
  assumes "frame_ok f (buf_UDP b)" and "buf_wf b" and "268 \<le> room b"
  shows "write_target f b = Ok (append_at_end b (target_bytes f (buf_UDP b)), None)"
proof -
  note app = append_at_end_content [OF assms(2), of "[x]" for x]
  have wr: "write_addr_opt (append_at_end b [x]) a port = Ok (append_at_end b (x # enc_target a port), None)"
    if "addr_ok a" for x a port
    using write_addr_opt_append [OF that, of "append_at_end b [x]" port] app [of x] assms(3)
      append_at_end_append [OF assms(2), of "[x]" "enc_target a port"] enc_target_length [OF that, of port] by simp
  have gid: "buf_writer (append_at_end b (x # enc_target a port)) g =
      Ok (append_at_end b (x # enc_target a port @ g), None)" if "addr_ok a" "length g = 8" for x a port g
    using append_at_end_append [OF assms(2), of "x # enc_target a port" g] assms(3) that
      enc_target_length [OF that(1), of port] append_at_end_content [OF assms(2), of "x # enc_target a port"]
    by (subst buf_writer_fits) auto
  show ?thesis
  proof (cases "fm_SessionStatus f = SessionStatusNew")
    case True
    then show ?thesis
      using assms wr gid must_byte_append [OF assms(2)]
      by (auto simp: write_target_def frame_ok_def target_bytes_def network_byte_def)
  next
    case False
    then show ?thesis
      using assms wr WriteByte_append [OF assms(2)] append_at_end_Nil [OF assms(2)]
      by (auto simp: write_target_def frame_ok_def target_bytes_def split: option.splits)
  qed
qed

lemma WriteTo_append:
  assumes "frame_ok f (buf_UDP b)" and "buf_wf b" and "274 \<le> room b"
  shows "FrameMetadata_WriteTo f b = Ok (append_at_end b (frame_bytes f (buf_UDP b)), None)"
proof -
  let ?t = "target_bytes f (buf_UDP b)" and ?sid = "put_u16 (fm_SessionID f)"
  define b1 where "b1 = append_at_end b [0, 0]"
  have b1: "buf_wf b1" "room b1 = room b - 2" "buf_UDP b1 = buf_UDP b" "Len b1 = Len b + 2"
    using append_at_end_content [OF assms(2), of "[0, 0]"] assms(2,3)
    by (auto simp: b1_def Len_content)
  have t: "length ?t \<le> 268" using target_bytes_length [OF assms(1)] .
  have e1: "Extend b 2 = Ok (b1, buf_end b)"
    using Extend_content [OF assms(2), of 2] assms(3) by (simp add: b1_def Size_def numeral_2_eq_2)
  have e2: "Extend b1 2 = Ok (append_at_end b1 [0, 0], buf_end b1)"
    using Extend_content [OF b1(1), of 2] assms(3) b1(2) by (simp add: Size_def numeral_2_eq_2)
  have p: "put_at (append_at_end b1 [0, 0]) (buf_end b1) ?sid = append_at_end b1 ?sid"
    using put_at_append [OF b1(1), of "[0, 0]" "[]"] assms(3) b1(2) by simp
  have ext: "append_at_end (append_at_end b1 xs) ys = append_at_end b1 (xs @ ys)"
      "buf_wf (append_at_end b1 xs)" "room (append_at_end b1 xs) = room b1 - length xs"
    if "length xs + length ys \<le> 272" for xs ys
    using append_at_end_append [OF b1(1), of xs ys] append_at_end_content [OF b1(1), of xs] that assms(3) b1(2)
    by auto
  have st: "must_byte (append_at_end b1 ?sid) x = Ok (append_at_end b1 (?sid @ [x]))" for x
    using must_byte_append [OF ext(2), of ?sid "[x]" x] ext(1,3) [of ?sid "[x]"] assms(3) b1(2) by simp
  have op: "must_byte (append_at_end b1 (?sid @ [x])) y = Ok (append_at_end b1 (?sid @ [x, y]))" for x y
    using must_byte_append [OF ext(2), of "?sid @ [x]" "[y]" y] ext(1,3) [of "?sid @ [x]" "[y]"] assms(3) b1(2)
    by simp
  have tg: "write_target f (append_at_end b1 (?sid @ [x, y])) =
      Ok (append_at_end b1 (?sid @ [x, y] @ ?t), None)" for x y
    using write_target_append [of f "append_at_end b1 (?sid @ [x, y])"] ext [of "?sid @ [x, y]" ?t] t
      assms(1,3) b1(2,3) by simp
  define m where "m = meta_bytes f (buf_UDP b)"
  have m: "length m \<le> 272" "m = ?sid @ [fm_SessionStatus f, fm_Option f] @ ?t"
    using t by (simp_all add: m_def meta_bytes_def)
  have fin: "append_at_end b1 m = append_at_end b ([0, 0] @ m)"
    using append_at_end_append [OF assms(2), of "[0, 0]" m] m(1) assms(3) by (simp add: b1_def)
  have len: "Len (append_at_end b1 m) - Len b1 = int (length m)"
    using append_at_end_content [OF b1(1), of m] m(1) assms(3) b1(1,2) by (simp add: Len_content)
  have "put_at (append_at_end b1 m) (buf_end b) (put_u16 l) = append_at_end b (put_u16 l @ m)" for l
    using put_at_append [OF assms(2), of "[0, 0]" m "put_u16 l"] m(1) assms(3) fin by simp
  then show ?thesis
    using e1 e2 p st op tg m(2) len
    by (simp add: FrameMetadata_WriteTo_def Let_def frame_bytes_def flip: m_def)
qed

text \<open>What the receiver gets: its old metadata \<open>f0\<close> updated from the sender's \<open>f\<close>.\<close>

definition received :: "FrameMetadata \<Rightarrow> FrameMetadata \<Rightarrow> destination option \<Rightarrow> FrameMetadata" where
  "received f0 f udp = f0\<lparr>
     fm_SessionID := fm_SessionID f, fm_SessionStatus := fm_SessionStatus f, fm_Option := fm_Option f,
     fm_Target :=
       (if fm_SessionStatus f = SessionStatusNew then fm_Target f
        else if fm_SessionStatus f = SessionStatusKeep \<and> udp \<noteq> None
        then UDPDestination (dest_Address (the udp)) (dest_Port (the udp))
        else (fm_Target f0)\<lparr>dest_Network := Network_Unknown\<rparr>),
     fm_GlobalID :=
       (if fm_SessionStatus f = SessionStatusNew \<and> Has (fm_Option f) OptionData \<and>
           dest_Network (fm_Target f) = Network_UDP \<and> udp \<noteq> None
        then fm_GlobalID f else fm_GlobalID f0)\<rparr>"

lemma read_target:
  assumes "addr_ok a" and "length fresh < 2147483648"
  shows "ReadAddressPort addrParser fresh None (stream_of (enc_target a port @ rest)) =
    ((None, stream_of rest), Ok (a, port))"
proof -
  obtain x where x: "a = Some x" "wire_addr x" using assms(1) by (auto simp: addr_ok_def)
  have n: "buf_wf (New fresh)" "length (enc_addr mux_table x) + 2 \<le> room (New fresh)"
    using New_wf [OF assms(2)] enc_addr_length [OF x(2), of mux_table] by simp_all
  show ?thesis
    using mux_at.port_first_roundtrip(2) [OF x(2) n, of port rest EOF] x(1)
    by (simp add: ReadAddressPort_def stream_of_def addrParser_def enc_target_def)
qed

lemma enc_target_min: "addr_ok a \<Longrightarrow> 4 \<le> length (enc_target a port)"
  by (cases "the a") (auto simp: addr_ok_def enc_target_def enc_address_port_def addrParser_def enc_addr_def
    Suc_le_eq)

lemma UnmarshalFromBuffer_meta:
  assumes "frame_ok f udp" and "buf_wf b" and c: "content b = meta_bytes f udp"
    and fresh: "length fresh < 2147483648"
  shows "UnmarshalFromBuffer fresh f0 b = Ok (received f0 f udp, None)"
proof -
  let ?t = "target_bytes f udp"
  obtain x y where xy: "put_u16 (fm_SessionID f) = [x, y]" by (simp add: put_u16_def)
  have c': "content b = x # y # fm_SessionStatus f # fm_Option f # ?t"
    using c xy by (simp add: meta_bytes_def)
  have L: "Len b = 4 + int (length ?t)" using c' by (simp add: Len_content assms(2))
  have id: "BytesTo b 2 = Ok [x, y]" "be_u16 [x, y] = Ok (fm_SessionID f)"
    using BytesTo_content [OF assms(2), of 2] L c' be_u16_put' [of "fm_SessionID f"] xy by simp_all
  have bs: "buf_Byte b 2 = Ok (fm_SessionStatus f)" "buf_Byte b 3 = Ok (fm_Option f)"
    using buf_Byte_content [OF assms(2), of 2] buf_Byte_content [OF assms(2), of 3] L c'
    by (simp_all add: numeral_2_eq_2 numeral_3_eq_3)
  have nt: "buf_Byte b 4 = Ok z" "Bytes (Advance b 5) = Ok zs" if "?t = z # zs" for z zs
    using buf_Byte_content [OF assms(2), of 4] advance_start_content [OF assms(2), of 5]
      Advance_content [OF assms(2), of 5] that L c' by simp_all
  note rt = read_target [OF _ fresh]
  note hd = id bs Bytes_content [OF assms(2)]
  show ?thesis
  proof (cases "fm_SessionStatus f = SessionStatusNew")
    case True
    note ok = assms(1) [unfolded frame_ok_def if_P [OF True]]
    let ?a = "dest_Address (fm_Target f)" and ?p = "dest_Port (fm_Target f)"
    have t: "?t = network_byte (dest_Network (fm_Target f)) # enc_target ?a ?p @ (if udp = None then [] else fm_GlobalID f)"
      using True by (simp add: target_bytes_def)
    have "8 \<le> Len b" using L t enc_target_min [of ?a ?p] ok by simp
    moreover have "TCPDestination ?a ?p = fm_Target f" if "dest_Network (fm_Target f) = Network_TCP"
      using that by (simp add: TCPDestination_def)
    moreover have "UDPDestination ?a ?p = fm_Target f" if "dest_Network (fm_Target f) = Network_UDP"
      using that by (simp add: UDPDestination_def)
    ultimately show ?thesis
      using True ok hd nt [OF t] rt [of ?a ?p]
      by (auto simp: UnmarshalFromBuffer_def received_def Let_def network_byte_def TargetNetworkTCP_def
        TargetNetworkUDP_def SessionStatusNew_def SessionStatusKeep_def stream_of_def)
  next
    case False
    show ?thesis
    proof (cases udp)
      case None
      then have "?t = []" using False by (simp add: target_bytes_def)
      then show ?thesis using L False None hd
        by (simp add: UnmarshalFromBuffer_def received_def Let_def)
    next
      case (Some d)
      let ?a = "dest_Address d" and ?p = "dest_Port d"
      have t: "?t = TargetNetworkUDP # enc_target ?a ?p @ []"
        using False Some by (simp add: target_bytes_def)
      have ok: "addr_ok ?a" using assms(1) False Some by (simp add: frame_ok_def)
      have "8 \<le> Len b" using L t enc_target_min [OF ok, of ?p] by simp
      then show ?thesis
        using False Some ok hd nt [OF t] rt [OF ok, of ?p "[]"]
        by (auto simp: UnmarshalFromBuffer_def received_def Let_def TargetNetworkTCP_def
          TargetNetworkUDP_def SessionStatusNew_def SessionStatusKeep_def UDPDestination_def)
    qed
  qed
qed

lemma Unmarshal_frame_bytes:
  assumes "frame_ok f udp" and "length fresh < 2147483648" and "length fresh2 < 2147483648"
  shows "Unmarshal fresh fresh2 f0 \<lparr>pending = frame_bytes f udp @ rest, ending = e\<rparr> = Ok (received f0 f udp, None, \<lparr>pending = rest, ending = e\<rparr>)"
    and "length (frame_bytes f udp) \<le> 274"
proof -
  let ?m = "meta_bytes f udp"
  have m: "length ?m \<le> 272" using target_bytes_length [OF assms(1)] by (simp add: meta_bytes_def)
  then show "length (frame_bytes f udp) \<le> 274" by (simp add: frame_bytes_def)
  define l :: u16 where "l = word_of_nat (length ?m)"
  have l: "uint l = int (length ?m)" "\<not> l > 512"
    using m by (simp_all add: l_def uint_nat unat_of_nat word_less_nat_alt)
  note n = New_wf [OF assms(2)]
  have "ReadFullFrom (New fresh) \<lparr>pending = ?m @ rest, ending = e\<rparr> (uint l) =
      Ok (append_at_end (New fresh) ?m, length ?m, None, \<lparr>pending = rest, ending = e\<rparr>)"
    using ReadFullFrom_stream [of "New fresh" ?m "uint l" rest e] n m l(1) by simp
  moreover have "UnmarshalFromBuffer fresh2 f0 (append_at_end (New fresh) ?m) = Ok (received f0 f udp, None)"
    using UnmarshalFromBuffer_meta [OF assms(1) _ _ assms(3)] append_at_end_content [of "New fresh" ?m] n m by simp
  ultimately show "Unmarshal fresh fresh2 f0 \<lparr>pending = frame_bytes f udp @ rest, ending = e\<rparr> =
      Ok (received f0 f udp, None, \<lparr>pending = rest, ending = e\<rparr>)"
    using l by (simp add: Unmarshal_def frame_bytes_def flip: l_def)
qed

section \<open>Properties\<close>

text \<open>
  C30. Frame metadata survives the wire: what \<open>WriteTo\<close> puts into a buffer, followed by anything, is
  read back by \<open>Unmarshal\<close>: session, status and option as sent; the target of a new session; the packet's own
  address of a UDP keep frame; and the global id exactly when the frame opens a UDP session with data and
  was written for a packet.  The reader stops right behind the frame.
\<close>

theorem frame_roundtrip:
  assumes "frame_ok f (buf_UDP b)" and "buf_wf b" and "274 \<le> room b"
    and "length fresh < 2147483648" and "length fresh2 < 2147483648"
  shows "\<exists>b' enc. FrameMetadata_WriteTo f b = Ok (b', None) \<and> content b' = content b @ enc \<and>
    Unmarshal fresh fresh2 f0 \<lparr>pending = enc @ rest, ending = e\<rparr> =
      Ok (received f0 f (buf_UDP b), None, \<lparr>pending = rest, ending = e\<rparr>)"
  using WriteTo_append [OF assms(1-3)] Unmarshal_frame_bytes(1) [OF assms(1,4,5), of f0 rest e] Unmarshal_frame_bytes(2) [OF assms(1,4,5)]
    append_at_end_content [OF assms(2), of "frame_bytes f (buf_UDP b)"] assms(3) by auto

definition sample_frame :: FrameMetadata where
  "sample_frame = \<lparr>fm_Target = TCPDestination (Some (IPv4Address [1, 2, 3, 4])) 80, fm_SessionID = 7,
     fm_Option = 1, fm_SessionStatus = 1, fm_GlobalID = replicate 8 0\<rparr>"

theorem frame_roundtrip_witness:
  "\<exists>b' enc. FrameMetadata_WriteTo sample_frame (New []) = Ok (b', None) \<and>
    Unmarshal [] [] sample_frame \<lparr>pending = enc @ [5], ending = EOF\<rparr> =
      Ok (received sample_frame sample_frame None, None, \<lparr>pending = [5], ending = EOF\<rparr>)"
proof -
  have "buf_UDP (New []) = None" by (simp add: New_def)
  moreover from this have "frame_ok sample_frame (buf_UDP (New []))"
    by (simp add: frame_ok_def sample_frame_def SessionStatusNew_def TCPDestination_def addr_ok_def)
  ultimately show ?thesis
    using frame_roundtrip [of sample_frame "New []" "[]" "[]" sample_frame "[5]" EOF] New_wf [of "[]"] by auto
qed

end
