(* ===== verification/BufIo.thy ===== *)
theory BufIo
  imports MultiBuffer
begin

text \<open>
  Readers and writers of lists of buffers: copying (\<open>common/buf/copy.go\<close>), the reader that keeps what it did not
  hand out (\<open>common/buf/reader.go\<close>), the writer that collects small writes and the loop that writes all
  bytes (\<open>common/buf/writer.go\<close>, \<open>common/buf/io.go\<close>).  A reader is a function from its state to its next state and the
  result of \<open>ReadMultiBuffer\<close>; a writer is a function to its next state and its error.  A call of a loop that
  does not return counts as a panic of its own.
\<close>

section \<open>Copying\<close>

type_synonym 'r mbreader = "'r \<Rightarrow> ('r \<times> multi_buffer \<times> goerr option) res"

type_synonym 'w mbwriter = "'w \<Rightarrow> multi_buffer \<Rightarrow> 'w \<times> goerr option"

datatype copy_error = readError goerr | writeError goerr

fun copy_Cause :: "copy_error \<Rightarrow> goerr" where
  "copy_Cause (readError e) = e"
| "copy_Cause (writeError e) = e"

fun IsWriteError :: "copy_error \<Rightarrow> bool" where
  "IsWriteError (writeError e) = True"
| "IsWriteError (readError e) = False"

definition returns :: "'a res option \<Rightarrow> 'a res" where
  "returns x = (case x of None \<Rightarrow> Panic ''does not return'' | Some r \<Rightarrow> r)"

text \<open>\<open>onData\<close> is what the copy options do with a list of buffers, on a state of their own.\<close>

partial_function (option) copyInternal ::
  "'r mbreader \<Rightarrow> 'w mbwriter \<Rightarrow> (multi_buffer \<Rightarrow> 'c \<Rightarrow> 'c) \<Rightarrow> 'r \<Rightarrow> 'w \<Rightarrow> 'c \<Rightarrow> ('r \<times> 'w \<times> 'c \<times> copy_error) res option" where
  "copyInternal rd wr onData r w c =
     (case rd r of
        Err e \<Rightarrow> Some (Err e)
      | Panic p \<Rightarrow> Some (Panic p)
      | Ok (r, buffer, err) \<Rightarrow>
          (let (w, c, werr) =
             (if \<not> mb_IsEmpty buffer
              then (case wr w buffer of (w, e) \<Rightarrow> (w, onData buffer c, e))
              else (w, c, None)) in
           case werr of
             Some e \<Rightarrow> Some (Ok (r, w, c, writeError e))
           | None \<Rightarrow>
               (case err of
                  Some e \<Rightarrow> Some (Ok (r, w, c, readError e))
                | None \<Rightarrow> copyInternal rd wr onData r w c)))"

definition buf_Copy ::
  "'r mbreader \<Rightarrow> 'w mbwriter \<Rightarrow> (multi_buffer \<Rightarrow> 'c \<Rightarrow> 'c) \<Rightarrow> 'r \<Rightarrow> 'w \<Rightarrow> 'c \<Rightarrow> ('r \<times> 'w \<times> 'c \<times> copy_error option) res" where
  "buf_Copy rd wr onData r w c =
     rmap (\<lambda>(r, w, c, err). (r, w, c, if copy_Cause err = EOF then None else Some err))
       (returns (copyInternal rd wr onData r w c))"

definition CountSize :: "multi_buffer \<Rightarrow> int \<Rightarrow> int" where
  "CountSize mb n = n + mb_Len mb"

definition noOptions :: "multi_buffer \<Rightarrow> unit \<Rightarrow> unit" where
  "noOptions mb c = c"

text \<open>\<open>Discard\<close>.\<close>

definition Discard :: "'w mbwriter" where
  "Discard w mb = (w, None)"

section \<open>The buffered reader\<close>

record 'r buffered_reader =
  br_Reader :: 'r
  br_Buffer :: multi_buffer
  br_Splitter :: "(multi_buffer \<Rightarrow> nat \<Rightarrow> (multi_buffer \<times> bytes) res) option"

definition BufferedBytes :: "'r buffered_reader \<Rightarrow> int" where
  "BufferedBytes r = mb_Len (br_Buffer r)"

definition spliter :: "'r buffered_reader \<Rightarrow> multi_buffer \<Rightarrow> nat \<Rightarrow> (multi_buffer \<times> bytes) res" where
  "spliter r = (case br_Splitter r of None \<Rightarrow> SplitBytes | Some f \<Rightarrow> f)"

definition nil_if_empty :: "multi_buffer \<Rightarrow> multi_buffer" where
  "nil_if_empty mb = (if mb_IsEmpty mb then [] else mb)"

definition br_Read :: "'r mbreader \<Rightarrow> nat \<Rightarrow> 'r buffered_reader \<Rightarrow> ('r buffered_reader \<times> bytes \<times> goerr option) res" where
  "br_Read rd k r =
     (if \<not> mb_IsEmpty (br_Buffer r)
      then rmap (\<lambda>(buffer, out). (r\<lparr>br_Buffer := nil_if_empty buffer\<rparr>, out, None)) (spliter r (br_Buffer r) k)
      else
        rbind (rd (br_Reader r)) (\<lambda>(x, mb, err).
          let r = r\<lparr>br_Reader := x\<rparr> in
          if err \<noteq> None then Ok (r, [], err)
          else rmap (\<lambda>(mb, out). (if mb_IsEmpty mb then r else r\<lparr>br_Buffer := mb\<rparr>, out, None)) (spliter r mb k)))"

text \<open>\<open>ReadByte\<close> returns a zero byte when nothing was read.\<close>

definition br_ReadByte :: "'r mbreader \<Rightarrow> 'r buffered_reader \<Rightarrow> ('r buffered_reader \<times> byte \<times> goerr option) res" where
  "br_ReadByte rd r = rmap (\<lambda>(r, out, err). (r, (case out of [] \<Rightarrow> 0 | b # bs \<Rightarrow> b), err)) (br_Read rd 1 r)"

definition br_ReadMultiBuffer :: "'r mbreader \<Rightarrow> 'r buffered_reader mbreader" where
  "br_ReadMultiBuffer rd r =
     (if \<not> mb_IsEmpty (br_Buffer r) then Ok (r\<lparr>br_Buffer := []\<rparr>, br_Buffer r, None)
      else rmap (\<lambda>(x, mb, err). (r\<lparr>br_Reader := x\<rparr>, mb, err)) (rd (br_Reader r)))"

definition br_ReadAtMost :: "'r mbreader \<Rightarrow> bytes \<Rightarrow> int \<Rightarrow> 'r buffered_reader mbreader" where
  "br_ReadAtMost rd fresh sz r =
     (let split = (\<lambda>r. rmap (\<lambda>(rb, mb). (r\<lparr>br_Buffer := nil_if_empty rb\<rparr>, mb, None)) (SplitSize fresh (br_Buffer r) sz)) in
      if mb_IsEmpty (br_Buffer r) then
        rbind (rd (br_Reader r)) (\<lambda>(x, mb, err).
          let r = r\<lparr>br_Reader := x\<rparr> in
          if mb_IsEmpty mb \<and> err \<noteq> None then Ok (r, [], err) else split (r\<lparr>br_Buffer := mb\<rparr>))
      else split r)"

definition writeToInternal ::
  "'r mbreader \<Rightarrow> 'w mbwriter \<Rightarrow> 'r buffered_reader \<Rightarrow> 'w \<Rightarrow> ('r buffered_reader \<times> 'w \<times> int \<times> copy_error option) res" where
  "writeToInternal rd wr r w =
     (let copy = (\<lambda>r w n. rmap (\<lambda>(x, w, n, err). (r\<lparr>br_Reader := x\<rparr>, w, n, err)) (buf_Copy rd wr CountSize (br_Reader r) w n)) in
      if br_Buffer r \<noteq> [] then
        (case wr w (br_Buffer r) of
           (w, Some e) \<Rightarrow> Ok (r, w, 0, Some (writeError e))
         | (w, None) \<Rightarrow> copy (r\<lparr>br_Buffer := []\<rparr>) w (mb_Len (br_Buffer r)))
      else copy r w 0)"

definition br_WriteTo ::
  "'r mbreader \<Rightarrow> 'w mbwriter \<Rightarrow> 'r buffered_reader \<Rightarrow> 'w \<Rightarrow> ('r buffered_reader \<times> 'w \<times> int \<times> copy_error option) res" where
  "br_WriteTo rd wr r w =
     rmap (\<lambda>(r, w, n, err). (r, w, n, case err of Some e \<Rightarrow> if copy_Cause e = EOF then None else Some e | None \<Rightarrow> None))
       (writeToInternal rd wr r w)"

text \<open>\<open>io.ReadFull\<close> on a buffered reader, with \<open>acc\<close> read so far.\<close>

partial_function (option) read_full_loop ::
  "'r mbreader \<Rightarrow> nat \<Rightarrow> bytes \<Rightarrow> 'r buffered_reader \<Rightarrow> (bytes \<times> goerr option \<times> 'r buffered_reader) res option" where
  "read_full_loop rd n acc r =
     (if n \<le> length acc then Some (Ok (acc, None, r))
      else
        (case br_Read rd (n - length acc) r of
           Err e \<Rightarrow> Some (Err e)
         | Panic p \<Rightarrow> Some (Panic p)
         | Ok (r, out, None) \<Rightarrow> read_full_loop rd n (acc @ out) r
         | Ok (r, out, Some e) \<Rightarrow>
             (let acc = acc @ out in
              Some (Ok (acc,
                if n \<le> length acc then None else if acc \<noteq> [] \<and> e = EOF then Some ErrUnexpectedEOF else Some e, r)))))"

definition br_ReadFull :: "'r mbreader \<Rightarrow> nat \<Rightarrow> 'r buffered_reader \<Rightarrow> (bytes \<times> goerr option \<times> 'r buffered_reader) res" where
  "br_ReadFull rd n r = returns (read_full_loop rd n [] r)"

section \<open>Writers\<close>

text \<open>An \<open>io.Writer\<close> that may take a part of what it is given.\<close>

type_synonym 'w iowriter = "'w \<Rightarrow> bytes \<Rightarrow> 'w \<times> nat \<times> goerr option"

partial_function (option) write_all_loop :: "'w iowriter \<Rightarrow> 'w \<Rightarrow> bytes \<Rightarrow> nat \<Rightarrow> ('w \<times> nat \<times> goerr option) res option" where
  "write_all_loop wr w payload wc =
     (if payload = [] then Some (Ok (w, wc, None))
      else
        (case wr w payload of
           (w, n, Some e) \<Rightarrow> Some (Ok (w, wc + n, Some e))
         | (w, n, None) \<Rightarrow>
             (if n > length payload then Some (Panic ''slice bounds out of range'')
              else write_all_loop wr w (drop n payload) (wc + n))))"

text \<open>The second component is what the counter gets.\<close>

definition WriteAllBytes :: "'w iowriter \<Rightarrow> 'w \<Rightarrow> bytes \<Rightarrow> ('w \<times> nat \<times> goerr option) res" where
  "WriteAllBytes wr w payload = returns (write_all_loop wr w payload 0)"

text \<open>
  The buffered writer.  \<open>iow\<close> is the \<open>Write\<close> method of the writer below where it has one.  The array of the
  next buffer from the pool is \<open>pool k\<close>.
\<close>

record 'w buffered_writer =
  bw_writer :: 'w
  bw_buffer :: "buffer option"
  bw_buffered :: bool

definition NewBufferedWriter :: "bytes \<Rightarrow> 'w \<Rightarrow> 'w buffered_writer" where
  "NewBufferedWriter fresh writer = \<lparr>bw_writer = writer, bw_buffer = Some (New fresh), bw_buffered = True\<rparr>"

definition flushInternal :: "'w mbwriter \<Rightarrow> 'w iowriter option \<Rightarrow> 'w buffered_writer \<Rightarrow> ('w buffered_writer \<times> goerr option) res" where
  "flushInternal wr iow w =
     (case bw_buffer w of
        None \<Rightarrow> Ok (w, None)
      | Some b \<Rightarrow>
          (if IsEmpty b then Ok (w, None)
           else
             (case iow of
                Some wrb \<Rightarrow> rbind (Bytes b) (\<lambda>bs.
                  rmap (\<lambda>(x, n, err). (w\<lparr>bw_writer := x, bw_buffer := None\<rparr>, err)) (WriteAllBytes wrb (bw_writer w) bs))
              | None \<Rightarrow> (case wr (bw_writer w) [b] of (x, err) \<Rightarrow> Ok (w\<lparr>bw_writer := x, bw_buffer := None\<rparr>, err)))))"

definition next_buffer :: "bytes \<Rightarrow> buffer option \<Rightarrow> buffer" where
  "next_buffer fresh b = (case b of None \<Rightarrow> New fresh | Some b \<Rightarrow> b)"

partial_function (option) bw_write_loop ::
  "'w mbwriter \<Rightarrow> 'w iowriter option \<Rightarrow> (nat \<Rightarrow> bytes) \<Rightarrow> nat \<Rightarrow> 'w buffered_writer \<Rightarrow> bytes \<Rightarrow> nat \<Rightarrow>
     ('w buffered_writer \<times> nat \<times> goerr option) res option" where
  "bw_write_loop wr iow pool k w b totalBytes =
     (if b = [] then Some (Ok (w, totalBytes, None))
      else
        (case Write (next_buffer (pool k) (bw_buffer w)) b of
           Err e \<Rightarrow> Some (Ok (w, totalBytes, Some e))
         | Panic p \<Rightarrow> Some (Panic p)
         | Ok (buffer, nBytes) \<Rightarrow>
             (let w = w\<lparr>bw_buffer := Some buffer\<rparr>; totalBytes = totalBytes + nBytes in
              case (if \<not> bw_buffered w \<or> IsFull buffer then flushInternal wr iow w else Ok (w, None)) of
                Err e \<Rightarrow> Some (Err e)
              | Panic p \<Rightarrow> Some (Panic p)
              | Ok (w, Some e) \<Rightarrow> Some (Ok (w, totalBytes, Some e))
              | Ok (w, None) \<Rightarrow> bw_write_loop wr iow pool (Suc k) w (drop nBytes b) totalBytes)))"

definition bw_Write ::
  "'w mbwriter \<Rightarrow> 'w iowriter option \<Rightarrow> (nat \<Rightarrow> bytes) \<Rightarrow> 'w buffered_writer \<Rightarrow> bytes \<Rightarrow> ('w buffered_writer \<times> nat \<times> goerr option) res" where
  "bw_Write wr iow pool w b =
     (if b = [] then Ok (w, 0, None)
      else
        (case (if \<not> bw_buffered w then iow else None) of
           Some wrb \<Rightarrow> (case wrb (bw_writer w) b of (x, n, err) \<Rightarrow> Ok (w\<lparr>bw_writer := x\<rparr>, n, err))
         | None \<Rightarrow> returns (bw_write_loop wr iow pool 0 w b 0)))"

definition bw_WriteByte ::
  "'w mbwriter \<Rightarrow> 'w iowriter option \<Rightarrow> (nat \<Rightarrow> bytes) \<Rightarrow> 'w buffered_writer \<Rightarrow> byte \<Rightarrow> ('w buffered_writer \<times> goerr option) res" where
  "bw_WriteByte wr iow pool w c = rmap (\<lambda>(w, n, err). (w, err)) (bw_Write wr iow pool w [c])"

text \<open>
  One round moves what fits from the list into the buffer: \<open>ReadFrom\<close> on the container that holds the list.
\<close>

definition read_of_container :: "multi_buffer \<Rightarrow> nat \<Rightarrow> bytes \<times> goerr option" where
  "read_of_container mb n = (case container_Read mb n of Ok (mb, out) \<Rightarrow> (out, None) | Err e \<Rightarrow> ([], Some e) | Panic p \<Rightarrow> ([], None))"

definition rest_of_container :: "multi_buffer \<Rightarrow> nat \<Rightarrow> multi_buffer" where
  "rest_of_container mb n = (case container_Read mb n of Ok (mb, out) \<Rightarrow> mb | Err e \<Rightarrow> mb | Panic p \<Rightarrow> mb)"

partial_function (option) bw_collect_loop ::
  "'w mbwriter \<Rightarrow> 'w iowriter option \<Rightarrow> (nat \<Rightarrow> bytes) \<Rightarrow> nat \<Rightarrow> 'w buffered_writer \<Rightarrow> multi_buffer \<Rightarrow>
     ('w buffered_writer \<times> goerr option) res option" where
  "bw_collect_loop wr iow pool k w mb =
     (if mb_IsEmpty mb then Some (Ok (w, None))
      else
        (let buffer = next_buffer (pool k) (bw_buffer w) in
         case ReadFrom buffer (read_of_container mb) of
           Panic p \<Rightarrow> Some (Panic p)
         | Err e \<Rightarrow> Some (Err e)
         | Ok (b, n, Some e) \<Rightarrow> Some (Panic ''common.Must2'')
         | Ok (b, n, None) \<Rightarrow>
             (case tail_len buffer of
                Panic p \<Rightarrow> Some (Panic p)
              | Err e \<Rightarrow> Some (Err e)
              | Ok free \<Rightarrow>
                  (let w = w\<lparr>bw_buffer := Some b\<rparr>; mb = rest_of_container mb free in
                   case (if IsFull b then flushInternal wr iow w else Ok (w, None)) of
                     Err e \<Rightarrow> Some (Err e)
                   | Panic p \<Rightarrow> Some (Panic p)
                   | Ok (w, Some e) \<Rightarrow> Some (Ok (w, Some e))
                   | Ok (w, None) \<Rightarrow> bw_collect_loop wr iow pool (Suc k) w mb))))"

definition bw_WriteMultiBuffer ::
  "'w mbwriter \<Rightarrow> 'w iowriter option \<Rightarrow> (nat \<Rightarrow> bytes) \<Rightarrow> 'w buffered_writer \<Rightarrow> multi_buffer \<Rightarrow> ('w buffered_writer \<times> goerr option) res" where
  "bw_WriteMultiBuffer wr iow pool w mb =
     (if mb_IsEmpty mb then Ok (w, None)
      else if \<not> bw_buffered w then (case wr (bw_writer w) mb of (x, err) \<Rightarrow> Ok (w\<lparr>bw_writer := x\<rparr>, err))
      else returns (bw_collect_loop wr iow pool 0 w mb))"

definition bw_Flush :: "'w mbwriter \<Rightarrow> 'w iowriter option \<Rightarrow> 'w buffered_writer \<Rightarrow> ('w buffered_writer \<times> goerr option) res" where
  "bw_Flush wr iow w = flushInternal wr iow w"

definition SetBuffered :: "'w mbwriter \<Rightarrow> 'w iowriter option \<Rightarrow> bool \<Rightarrow> 'w buffered_writer \<Rightarrow> ('w buffered_writer \<times> goerr option) res" where
  "SetBuffered wr iow f w =
     (let w = w\<lparr>bw_buffered := f\<rparr> in if \<not> f then flushInternal wr iow w else Ok (w, None))"

section \<open>The buffered reader as a stream\<close>

text \<open>
  A reader that delivers some lists of buffers and then fails for good.  With its first error it may deliver data, as a \<open>SingleReader\<close>
  on a connection does; a pipe does not.
\<close>

record source =
  src_data :: "multi_buffer list"
  src_last :: multi_buffer
  src_end :: goerr

definition source_read :: "source mbreader" where
  "source_read s =
     (case src_data s of
        [] \<Rightarrow> Ok (s\<lparr>src_last := []\<rparr>, src_last s, Some (src_end s))
      | mb # mbs \<Rightarrow> Ok (s\<lparr>src_data := mbs\<rparr>, mb, None))"

lemma no_last [simp]: "src_last s = [] \<Longrightarrow> s\<lparr>src_last := []\<rparr> = s"
  by (cases s) simp

text \<open>Lists of buffers of the regular size.\<close>

definition regular :: "multi_buffer \<Rightarrow> bool" where
  "regular mb \<longleftrightarrow> mb_wf mb \<and> list_all (\<lambda>b. length (content b) \<le> 8192) mb"

definition source_ok :: "source \<Rightarrow> bool" where
  "source_ok s \<longleftrightarrow> list_all regular (src_data s) \<and> length (concat (map mb_content (src_data s))) < 2147483648 \<and> src_last s = []"

definition br_ready :: "source buffered_reader \<Rightarrow> bool" where
  "br_ready r \<longleftrightarrow> br_Splitter r = None \<and> regular (br_Buffer r) \<and> list_all regular (src_data (br_Reader r)) \<and>
     length (mb_content (br_Buffer r) @ concat (map mb_content (src_data (br_Reader r)))) < 2147483648"

definition br_ok :: "source buffered_reader \<Rightarrow> bool" where
  "br_ok r \<longleftrightarrow> br_Splitter r = None \<and> regular (br_Buffer r) \<and> list_all regular (src_data (br_Reader r)) \<and>
     length (mb_content (br_Buffer r) @ concat (map mb_content (src_data (br_Reader r)))) < 2147483648 \<and> src_last (br_Reader r) = []"

lemma br_ok_ready: "br_ok r \<longleftrightarrow> br_ready r \<and> src_last (br_Reader r) = []"
  by (auto simp: br_ok_def br_ready_def)

definition br_view :: "source buffered_reader \<Rightarrow> stream" where
  "br_view r = \<lparr>pending = mb_content (br_Buffer r) @ concat (map mb_content (src_data (br_Reader r))),
     ending = src_end (br_Reader r)\<rparr>"

lemma regular_simps [simp]:
  "regular []" "regular (b # mb) \<longleftrightarrow> buf_wf b \<and> length (content b) \<le> 8192 \<and> regular mb"
  "regular (mb1 @ mb2) \<longleftrightarrow> regular mb1 \<and> regular mb2"
  by (auto simp: regular_def)

lemma regular_wf: "regular mb \<Longrightarrow> mb_wf mb"
  by (simp add: regular_def)

lemma regular_empty: "regular mb \<Longrightarrow> mb_IsEmpty mb \<longleftrightarrow> mb_content mb = []"
  by (simp add: regular_def mb_IsEmpty_content)

lemma nil_if_empty_content [simp]: "regular mb \<Longrightarrow> mb_content (nil_if_empty mb) = mb_content mb"
  and nil_if_empty_regular [simp]: "regular mb \<Longrightarrow> regular (nil_if_empty mb)"
  by (simp_all add: nil_if_empty_def regular_empty)

lemma SplitBytes_regular:
  "regular mb \<Longrightarrow> \<exists>rest. SplitBytes mb k = Ok (rest, take k (mb_content mb)) \<and> regular rest \<and>
     mb_content rest = drop k (mb_content mb)"
proof (induction mb arbitrary: k)
  case (Cons b mb)
  then have wf: "buf_wf b" by simp
  show ?case
  proof (cases "content b = []")
    case True
    with Cons wf show ?thesis by (auto simp: Read_content(1) IsEmpty_content)
  next
    case False
    obtain b' where b': "Read b k = Ok (b', take k (content b))" "buf_wf b'"
      "content b' = drop k (content b)"
      using Read_content(2) [OF wf False] by blast
    show ?thesis
    proof (cases "content b' = []")
      case True
      have "k - length (take k (content b)) = k - length (content b)" using True b' by (simp add: min_def)
      obtain rest where "SplitBytes mb (k - length (content b)) = Ok (rest, take (k - length (content b)) (mb_content mb))" "regular rest"
        "mb_content rest = drop (k - length (content b)) (mb_content mb)"
        using Cons.IH [of "k - length (content b)"] Cons.prems by auto
      with True b' Cons.prems \<open>k - _ = _\<close> show ?thesis by (auto simp: IsEmpty_content)
    next
      case F: False
      have "length (content b') \<le> 8192" using b' Cons.prems by auto
      with F b' Cons.prems show ?thesis by (auto simp: IsEmpty_content)
    qed
  qed
qed simp

lemma SplitSize_regular:
  assumes "regular mb" and "length p < 2147483648" and "length (mb_content mb) < 2147483648" and "0 < sz"
  shows "\<exists>rest r. SplitSize p mb sz = Ok (rest, r) \<and> regular rest \<and> regular r \<and>
    mb_content r @ mb_content rest = mb_content mb \<and> int (length (mb_content r)) \<le> sz \<and>
    (mb \<noteq> [] \<longrightarrow> length (mb_content rest) + length rest < length (mb_content mb) + length mb)"
proof (cases "mb \<noteq> [] \<and> Len (hd mb) > sz")
  case True
  then obtain b0 mb' where mb: "mb = b0 # mb'" "Len b0 > sz" by (cases mb) auto
  then have b0: "buf_wf b0" "regular mb'" "length (content b0) \<le> 8192" using assms(1) by simp_all
  then have sz: "sz \<le> 8192" using mb(2) by (simp add: Len_content)
  obtain b off where s: "SplitSize p mb sz = Ok (Advance b0 sz # mb', [put_at b off (take (nat sz) (content b0))])"
    and e: "buf_wf (put_at b off (take (nat sz) (content b0)))" "content (put_at b off (take (nat sz) (content b0))) = take (nat sz) (content b0)"
  proof -
    have l: "length (take (nat sz) (content b0)) = nat sz" using mb(2) b0 assms(4) by (simp add: Len_content)
    obtain b off where e: "Extend (New p) sz = Ok (b, off)" "buf_wf (put_at b off (take (nat sz) (content b0)))"
      "content (put_at b off (take (nat sz) (content b0))) = take (nat sz) (content b0)"
      using New_Extend [OF assms(2) _ sz l] assms(4) by auto
    have "BytesTo b0 sz = Ok (take (nat sz) (content b0))" using assms(4) mb(2) b0 by (intro BytesTo_content) auto
    with e mb show ?thesis by (intro that [of b off]) (simp_all add: SplitSize_def)
  qed
  have "buf_wf (Advance b0 sz)" "content (Advance b0 sz) = drop (nat sz) (content b0)"
    using advance_start_content [OF b0(1), of sz] Advance_content [OF b0(1), of sz] mb(2) assms(4) by auto
  moreover have "length (drop (nat sz) (content b0)) < length (content b0)" using mb(2) b0(1) assms(4) by (simp add: Len_content)
  ultimately show ?thesis using s e b0 mb sz assms(4) by auto
next
  case False
  obtain rest r where l: "split_size_loop mb 0 sz = (rest, r)" by fastforce
  then have s: "SplitSize p mb sz = Ok (rest, r)" using False by (cases mb) (auto simp: SplitSize_def)
  note sp = split_size_loop_spec [OF regular_wf [OF assms(1)] _ _ l]
  then have m: "r @ rest = mb" using assms(3) by simp
  then have "regular r" "regular rest" using assms(1) by auto
  moreover have "r \<noteq> []" if "mb \<noteq> []"
    using sp that m False assms by (cases r) auto
  moreover have "length (mb_content rest) + length rest < length (mb_content mb) + length mb" if "mb \<noteq> []"
    using calculation(3) [OF that] m by (cases r) auto
  ultimately show ?thesis using s sp m assms(3,4) by (cases "r = []") auto
qed

lemma br_Read_stream:
  assumes "br_ready r" and "0 < k"
  shows "\<exists>out r'. br_Read source_read k r = Ok (r', out, None) \<and> br_ready r' \<and> length out \<le> k \<and>
      pending (br_view r) = out @ pending (br_view r') \<and> src_end (br_Reader r') = src_end (br_Reader r) \<and> src_last (br_Reader r') = src_last (br_Reader r) \<and>
      (length out = k \<or> mb_IsEmpty (br_Buffer r') \<and>
         (if mb_IsEmpty (br_Buffer r) then length (src_data (br_Reader r')) < length (src_data (br_Reader r))
          else src_data (br_Reader r') = src_data (br_Reader r)))
    \<or> br_Read source_read k r = Ok (r\<lparr>br_Reader := (br_Reader r)\<lparr>src_last := []\<rparr>\<rparr>, [], Some (src_end (br_Reader r))) \<and> pending (br_view r) = []"
proof (cases "mb_IsEmpty (br_Buffer r)")
  case False
  obtain rest where s: "SplitBytes (br_Buffer r) k = Ok (rest, take k (mb_content (br_Buffer r)))" "regular rest"
    "mb_content rest = drop k (mb_content (br_Buffer r))"
    using SplitBytes_regular [of "br_Buffer r" k] assms(1) by (auto simp: br_ready_def)
  let ?r = "r\<lparr>br_Buffer := nil_if_empty rest\<rparr>"
  have "br_Read source_read k r = Ok (?r, take k (mb_content (br_Buffer r)), None)"
    using False s assms(1) by (simp add: br_Read_def spliter_def br_ready_def)
  moreover have "br_ready ?r" using s assms(1) by (auto simp: br_ready_def)
  moreover have "length (take k (mb_content (br_Buffer r))) = k \<or> mb_IsEmpty (nil_if_empty rest)"
    using s by (auto simp: regular_empty)
  ultimately show ?thesis using s False by (intro disjI1 exI [of _ "take k (mb_content (br_Buffer r))"] exI [of _ ?r]) (auto simp: br_view_def)
next
  case True
  then have b: "mb_content (br_Buffer r) = []" using assms(1) by (simp add: br_ready_def regular_empty)
  show ?thesis
  proof (cases "src_data (br_Reader r)")
    case Nil
    with True b show ?thesis by (auto simp: br_Read_def source_read_def br_view_def)
  next
    case (Cons mb mbs)
    then have reg: "regular mb" using assms(1) by (simp add: br_ready_def)
    obtain rest where s: "SplitBytes mb k = Ok (rest, take k (mb_content mb))" "regular rest"
      "mb_content rest = drop k (mb_content mb)"
      using SplitBytes_regular [OF reg, of k] by auto
    let ?r0 = "r\<lparr>br_Reader := (br_Reader r)\<lparr>src_data := mbs\<rparr>\<rparr>"
    let ?r = "if mb_IsEmpty rest then ?r0 else ?r0\<lparr>br_Buffer := rest\<rparr>"
    have "br_Read source_read k r = Ok (?r, take k (mb_content mb), None)"
      using True Cons s assms(1) by (simp add: br_Read_def source_read_def spliter_def br_ready_def)
    moreover have "br_ready ?r" using s Cons b assms(1) by (auto simp: br_ready_def)
    moreover have "length (take k (mb_content mb)) = k \<or> mb_IsEmpty rest"
      using s by (auto simp: regular_empty)
    ultimately show ?thesis using s Cons True b
      by (intro disjI1 exI [of _ "take k (mb_content mb)"] exI [of _ ?r]) (auto simp: br_view_def regular_empty)
  qed
qed

text \<open>What \<open>io.ReadFull\<close> for \<open>n\<close> bytes does with the stream \<open>s\<close> when it has read \<open>acc\<close>.\<close>

definition completes :: "nat \<Rightarrow> bytes \<Rightarrow> stream \<Rightarrow> bytes \<Rightarrow> goerr option \<Rightarrow> stream \<Rightarrow> bool" where
  "completes n acc s bs e s' \<longleftrightarrow>
     (let k = n - length acc in
      if k \<le> length (pending s) then e = None \<and> bs = acc @ take k (pending s) \<and> s' = s\<lparr>pending := drop k (pending s)\<rparr>
      else bs = acc @ pending s \<and> s' = s\<lparr>pending := []\<rparr> \<and>
        e = Some (if bs \<noteq> [] \<and> ending s = EOF then ErrUnexpectedEOF else ending s))"

lemma completes_step:
  assumes "completes n (acc @ out) s1 bs e s'" and "s1 = s\<lparr>pending := pending s1\<rparr>" and "pending s = out @ pending s1"
    and "length acc + length out \<le> n"
  shows "completes n acc s bs e s'"
proof -
  have e: "ending s1 = ending s" using assms(2) by (metis stream.select_convs(2) stream.surjective stream.update_convs(1))
  have k: "n - length acc \<le> length (pending s) \<longleftrightarrow> n - length (acc @ out) \<le> length (pending s1)" using assms(3,4) by auto
  have "s1\<lparr>pending := x\<rparr> = s\<lparr>pending := x\<rparr>" for x using assms(2) by (metis stream.surjective stream.update_convs(1))
  moreover have "n - length acc = length out + (n - length (acc @ out))" using assms(4) by simp
  ultimately show ?thesis using assms(1,3) e k unfolding completes_def Let_def by (simp split: if_splits)
qed

lemma read_full_loop_stream:
  assumes "br_ready r" and "length acc \<le> n"
  shows "\<exists>bs e r'. read_full_loop source_read n acc r = Some (Ok (bs, e, r')) \<and> br_ready r' \<and> (src_last (br_Reader r) = [] \<longrightarrow> src_last (br_Reader r') = []) \<and>
    completes n acc (br_view r) bs e (br_view r')"
  using assms
proof (induction "2 * length (src_data (br_Reader r)) + (if mb_IsEmpty (br_Buffer r) then 0 else 1)" arbitrary: r acc rule: less_induct)
  case less
  show ?case
  proof (cases "n = length acc")
    case True
    then show ?thesis using less.prems by (subst read_full_loop.simps) (auto simp: completes_def)
  next
    case False
    then have k: "0 < n - length acc" using less.prems by simp
    from br_Read_stream [OF less.prems(1) k] show ?thesis
    proof (elim disjE exE conjE)
      fix out r'
      assume rd: "br_Read source_read (n - length acc) r = Ok (r', out, None)" "br_ready r'"
        "pending (br_view r) = out @ pending (br_view r')" "src_end (br_Reader r') = src_end (br_Reader r)" "src_last (br_Reader r') = src_last (br_Reader r)"
        and full: "length out = n - length acc"
      have "br_view r' = (br_view r)\<lparr>pending := pending (br_view r')\<rparr>" using rd(4) by (simp add: br_view_def)
      then show ?thesis using rd full k
        by (subst read_full_loop.simps, subst read_full_loop.simps) (auto simp: completes_def)
    next
      fix out r'
      assume rd: "br_Read source_read (n - length acc) r = Ok (r', out, None)" "br_ready r'" "length out \<le> n - length acc"
        "pending (br_view r) = out @ pending (br_view r')" "src_end (br_Reader r') = src_end (br_Reader r)" "src_last (br_Reader r') = src_last (br_Reader r)"
        and e: "mb_IsEmpty (br_Buffer r')" and c: "if mb_IsEmpty (br_Buffer r) then length (src_data (br_Reader r')) < length (src_data (br_Reader r))
          else src_data (br_Reader r') = src_data (br_Reader r)"
      have v: "br_view r' = (br_view r)\<lparr>pending := pending (br_view r')\<rparr>" using rd(5) by (simp add: br_view_def)
      have step: "read_full_loop source_read n acc r = read_full_loop source_read n (acc @ out) r'"
        using rd k by (subst read_full_loop.simps) simp
      have l: "length acc + length out \<le> n" using rd(3) less.prems(2) by simp
      have "2 * length (src_data (br_Reader r')) + (if mb_IsEmpty (br_Buffer r') then 0 else 1)
          < 2 * length (src_data (br_Reader r)) + (if mb_IsEmpty (br_Buffer r) then 0 else 1)" using e c by (auto split: if_splits)
      from less.hyps [OF this rd(2), of "acc @ out"] l completes_step [OF _ v rd(4) l] step rd(6) show ?thesis by fastforce
    next
      let ?r = "r\<lparr>br_Reader := (br_Reader r)\<lparr>src_last := []\<rparr>\<rparr>"
      assume rd: "br_Read source_read (n - length acc) r = Ok (?r, [], Some (src_end (br_Reader r)))" "pending (br_view r) = []"
      have "ending (br_view r) = src_end (br_Reader r)" "br_view ?r = (br_view r)\<lparr>pending := []\<rparr>" "br_ready ?r" "pending (br_view ?r) = []"
        using rd(2) less.prems(1) by (simp_all add: br_view_def br_ready_def)
      with rd k less.prems show ?thesis by (subst read_full_loop.simps) (auto simp: completes_def)
    qed
  qed
qed

text \<open>The interface of a reader that stands for a stream: \<open>io.ReadFull\<close> on it does what it does on the stream.\<close>

locale full_reader =
  fixes rf :: "nat \<Rightarrow> 'r \<Rightarrow> (bytes \<times> goerr option \<times> 'r) res" and view :: "'r \<Rightarrow> stream" and ok :: "'r \<Rightarrow> bool"
  assumes rf: "ok r \<Longrightarrow> \<exists>bs e r'. rf n r = Ok (bs, e, r') \<and> ok r' \<and> read_full n (view r) = (bs, e, view r')"

interpretation last: full_reader "br_ReadFull source_read" br_view br_ready
proof
  fix r :: "source buffered_reader" and n assume "br_ready r"
  from read_full_loop_stream [OF this, of "[]" n]
  show "\<exists>bs e r'. br_ReadFull source_read n r = Ok (bs, e, r') \<and> br_ready r' \<and> read_full n (br_view r) = (bs, e, br_view r')"
    by (auto simp: br_ReadFull_def returns_def read_full_def completes_def split: if_splits)
qed

interpretation br: full_reader "br_ReadFull source_read" br_view br_ok
proof
  fix r :: "source buffered_reader" and n assume "br_ok r"
  then have "br_ready r" "src_last (br_Reader r) = []" by (simp_all add: br_ok_ready)
  with read_full_loop_stream [OF this(1), of "[]" n]
  show "\<exists>bs e r'. br_ReadFull source_read n r = Ok (bs, e, r') \<and> br_ok r' \<and> read_full n (br_view r) = (bs, e, br_view r')"
    by (auto simp: br_ReadFull_def returns_def read_full_def completes_def br_ok_ready split: if_splits)
qed

section \<open>What a copy moves\<close>

text \<open>A reader that delivers some lists of buffers and then the error \<open>e\<close>.\<close>

inductive delivers :: "'r mbreader \<Rightarrow> 'r \<Rightarrow> multi_buffer list \<Rightarrow> goerr \<Rightarrow> 'r \<Rightarrow> bool" for rd where
  last: "rd r = Ok (r', mb, Some e) \<Longrightarrow> delivers rd r [mb] e r'"
| step: "rd r = Ok (r1, mb, None) \<Longrightarrow> delivers rd r1 mbs e r' \<Longrightarrow> delivers rd r (mb # mbs) e r'"

text \<open>A writer that is given the lists one after another, the empty ones excepted.\<close>

fun feed :: "'w mbwriter \<Rightarrow> 'w \<Rightarrow> multi_buffer list \<Rightarrow> 'w option" where
  "feed wr w [] = Some w"
| "feed wr w (mb # mbs) =
     (if mb_IsEmpty mb then feed wr w mbs
      else (case wr w mb of (w, None) \<Rightarrow> feed wr w mbs | (w, Some e) \<Rightarrow> None))"

lemma copyInternal_delivers:
  "delivers rd r mbs e r' \<Longrightarrow> feed wr w mbs = Some w' \<Longrightarrow>
     copyInternal rd wr h r w c = Some (Ok (r', w', fold h (filter (\<lambda>mb. \<not> mb_IsEmpty mb) mbs) c, readError e))"
proof (induction arbitrary: w c rule: delivers.induct)
  case (last r r' mb e)
  then show ?case by (subst copyInternal.simps) (auto split: if_splits prod.splits option.splits)
next
  case (step r r1 mb mbs e r')
  then show ?case by (subst copyInternal.simps) (auto split: if_splits prod.splits option.splits)
qed

lemma buf_Copy_delivers:
  assumes "delivers rd r mbs e r'" and "feed wr w mbs = Some w'"
  shows "buf_Copy rd wr h r w c =
    Ok (r', w', fold h (filter (\<lambda>mb. \<not> mb_IsEmpty mb) mbs) c, if e = EOF then None else Some (readError e))"
  using copyInternal_delivers [OF assms, of h c] by (simp add: buf_Copy_def returns_def)

lemma feed_Discard: "feed Discard w mbs = Some w"
  by (induction mbs) (simp_all add: Discard_def)

abbreviation drained :: "source \<Rightarrow> source" where
  "drained s \<equiv> s\<lparr>src_data := [], src_last := []\<rparr>"

lemma source_delivers: "delivers source_read s (src_data s @ [src_last s]) (src_end s) (drained s)"
proof (induction "src_data s" arbitrary: s)
  case Nil
  then have "drained s = s\<lparr>src_last := []\<rparr>" by (cases s) simp
  with Nil [symmetric] show ?case by (auto simp: source_read_def intro: delivers.last)
next
  case (Cons mb mbs)
  from Cons.hyps(1) [of "s\<lparr>src_data := mbs\<rparr>"] have "delivers source_read (s\<lparr>src_data := mbs\<rparr>) (mbs @ [src_last s]) (src_end s) (drained s)" by simp
  then have "delivers source_read s (mb # (mbs @ [src_last s])) (src_end s) (drained s)"
    using Cons.hyps(2) [symmetric] by (intro delivers.step) (simp_all add: source_read_def)
  then show ?case using Cons.hyps(2) [symmetric] by simp
qed

text \<open>What the buffered writer holds back.\<close>

definition bw_pend :: "'w buffered_writer \<Rightarrow> bytes" where
  "bw_pend w = (case bw_buffer w of None \<Rightarrow> [] | Some b \<Rightarrow> content b)"

definition bw_wf :: "'w buffered_writer \<Rightarrow> bool" where
  "bw_wf w \<longleftrightarrow> (case bw_buffer w of None \<Rightarrow> True | Some b \<Rightarrow> buf_wf b \<and> length (content b) + room b = 8192)"

lemma write_all_Nil: "write_all_loop f x [] n = Some (Ok (x, n, None))"
  by (subst write_all_loop.simps) simp

text \<open>A writer that takes everything, as a \<open>buf.Writer\<close> and, where it is one, as an \<open>io.Writer\<close>.\<close>

locale byte_sink =
  fixes wr :: "'w mbwriter" and iow :: "'w iowriter option" and out :: "'w \<Rightarrow> bytes" and ok :: "'w \<Rightarrow> bool"
  assumes wr_sink: "ok w \<Longrightarrow> mb_wf mb \<Longrightarrow> \<exists>x. wr w mb = (x, None) \<and> ok x \<and> out x = out w @ mb_content mb"
    and io_sink: "iow = Some f \<Longrightarrow> ok w \<Longrightarrow> \<exists>x. f w bs = (x, length bs, None) \<and> ok x \<and> out x = out w @ bs"
begin

lemma feed_sink:
  assumes "ok w" and "list_all mb_wf mbs"
  shows "\<exists>w'. feed wr w mbs = Some w' \<and> ok w' \<and> out w' = out w @ concat (map mb_content mbs)"
  using assms
proof (induction mbs arbitrary: w)
  case (Cons mb mbs)
  show ?case
  proof (cases "mb_IsEmpty mb")
    case True
    with Cons show ?thesis by (auto simp: mb_IsEmpty_content)
  next
    case False
    obtain x where x: "wr w mb = (x, None)" "ok x" "out x = out w @ mb_content mb" using wr_sink Cons.prems by fastforce
    with Cons.IH [of x] Cons.prems False show ?thesis by auto
  qed
qed simp

lemma copy_source:
  assumes "list_all mb_wf (src_data s @ [src_last s])" and "ok w"
  shows "\<exists>w' n. buf_Copy source_read wr h s w c = Ok (drained s, w', n, if src_end s = EOF then None else Some (readError (src_end s))) \<and>
    ok w' \<and> out w' = out w @ concat (map mb_content (src_data s @ [src_last s]))"
proof -
  have "list_all mb_wf (src_data s @ [src_last s])" by (rule assms(1))
  from feed_sink [OF assms(2) this] buf_Copy_delivers [OF source_delivers [of s], of wr w _ h c] show ?thesis by auto
qed

lemma flush_out:
  assumes "ok (bw_writer w)" and "bw_wf w"
  shows "\<exists>w'. flushInternal wr iow w = Ok (w', None) \<and> ok (bw_writer w') \<and> bw_wf w' \<and> bw_buffered w' = bw_buffered w \<and> bw_pend w' = [] \<and>
    out (bw_writer w') = out (bw_writer w) @ bw_pend w \<and> (bw_pend w \<noteq> [] \<longrightarrow> bw_buffer w' = None)"
proof (cases "bw_pend w = []")
  case True
  then have "flushInternal wr iow w = Ok (w, None)"
    using assms by (auto simp: flushInternal_def bw_pend_def bw_wf_def IsEmpty_content split: option.splits)
  with True assms show ?thesis by simp
next
  case False
  then obtain b where b: "bw_buffer w = Some b" "buf_wf b" "content b = bw_pend w" "ok (bw_writer w)" "\<not> IsEmpty b"
    using assms by (auto simp: bw_pend_def bw_wf_def IsEmpty_content split: option.splits)
  show ?thesis
  proof (cases iow)
    case None
    obtain x where "wr (bw_writer w) [b] = (x, None)" "ok x" "out x = out (bw_writer w) @ mb_content [b]" using wr_sink [OF b(4), of "[b]"] b(2) by auto
    with None b(1,2,4,5) show ?thesis by (auto simp: flushInternal_def bw_wf_def bw_pend_def)
  next
    case (Some f)
    obtain x where x: "f (bw_writer w) (content b) = (x, length (content b), None)" "ok x" "out x = out (bw_writer w) @ content b"
      using io_sink [OF Some b(4)] by blast
    have "WriteAllBytes f (bw_writer w) (content b) = Ok (x, length (content b), None)"
      using False b(3) x(1) unfolding WriteAllBytes_def by (subst write_all_loop.simps) (simp add: returns_def write_all_Nil)
    with x Some b(1,2,4,5) show ?thesis by (auto simp: flushInternal_def bw_wf_def bw_pend_def)
  qed
qed

definition bw_all :: "'w buffered_writer \<Rightarrow> bytes" where
  "bw_all w = out (bw_writer w) @ bw_pend w"

lemma flush_if:
  assumes "ok (bw_writer w)" and "bw_wf w"
  shows "\<exists>w'. (if c then flushInternal wr iow w else Ok (w, None)) = Ok (w', None) \<and> ok (bw_writer w') \<and> bw_wf w' \<and>
    bw_buffered w' = bw_buffered w \<and> bw_all w' = bw_all w \<and> (c \<longrightarrow> bw_pend w' = []) \<and> (c \<and> bw_pend w \<noteq> [] \<longrightarrow> bw_buffer w' = None) \<and>
    (\<not> c \<longrightarrow> w' = w)"
  using flush_out [OF assms] assms by (auto simp: bw_all_def)

lemma next_buffer_ok:
  assumes "bw_wf w" and "length fresh < 2147483648"
  shows "buf_wf (next_buffer fresh (bw_buffer w))" "content (next_buffer fresh (bw_buffer w)) = bw_pend w"
    "length (content (next_buffer fresh (bw_buffer w))) + room (next_buffer fresh (bw_buffer w)) = 8192"
  using assms New_wf [of fresh] by (auto simp: next_buffer_def bw_wf_def bw_pend_def split: option.splits)

text \<open>How many rounds a loop needs at most: every second one makes progress.\<close>

definition rounds :: "'w buffered_writer \<Rightarrow> nat \<Rightarrow> nat" where
  "rounds w n = 2 * n + (if length (bw_pend w) = 8192 then 1 else 0)"

lemma store_step:
  assumes "ok (bw_writer w)" and "bw_wf w" and "\<not> bw_buffered w \<longrightarrow> bw_pend w = []" and "bs \<noteq> []"
    and "buf_wf b" and "content b = bw_pend w @ take n bs" and "length (content b) + room b = 8192"
    and "n = 8192 - length (bw_pend w)" and "c \<longleftrightarrow> \<not> bw_buffered w \<or> IsFull b"
  shows "\<exists>w'. (if c then flushInternal wr iow (w\<lparr>bw_buffer := Some b\<rparr>) else Ok (w\<lparr>bw_buffer := Some b\<rparr>, None)) = Ok (w', None) \<and>
    ok (bw_writer w') \<and> bw_wf w' \<and> bw_buffered w' = bw_buffered w \<and> bw_all w' = bw_all w @ take n bs \<and>
    (\<not> bw_buffered w' \<longrightarrow> bw_pend w' = []) \<and> rounds w' (length bs - n) < rounds w (length bs)"
proof -
  let ?w = "w\<lparr>bw_buffer := Some b\<rparr>"
  have w: "ok (bw_writer ?w)" "bw_wf ?w" "bw_pend ?w = bw_pend w @ take n bs" using assms by (auto simp: bw_wf_def bw_pend_def)
  then obtain w' where w': "(if c then flushInternal wr iow ?w else Ok (?w, None)) = Ok (w', None)" "ok (bw_writer w')" "bw_wf w'"
    "bw_buffered w' = bw_buffered w" "bw_all w' = bw_all ?w" "c \<longrightarrow> bw_pend w' = []" "\<not> c \<longrightarrow> w' = ?w"
    using flush_if [of ?w c] by auto
  have le: "length (bw_pend w) \<le> 8192" using assms(6,7) by simp
  have "rounds w' (length bs - n) < rounds w (length bs)"
  proof (cases c)
    case True
    obtain m where "length bs = Suc m" using assms(4) by (cases bs) auto
    with True w'(6) le show ?thesis by (cases "n = 0") (auto simp: rounds_def assms(8))
  next
    case False
    then have "room b \<noteq> 0" using assms(5,9) by (auto simp: IsFull_room)
    then have "length (bw_pend w @ take n bs) < 8192" using assms(6,7) by simp
    with False w'(7) w(3) assms(4,8) show ?thesis by (cases bs) (auto simp: rounds_def)
  qed
  moreover have "bw_all ?w = bw_all w @ take n bs" using w(3) by (simp add: bw_all_def)
  ultimately show ?thesis using w' w(3) assms(9) by (intro exI [of _ w']) auto
qed

lemma write_loop_out:
  assumes "ok (bw_writer w)" and "bw_wf w" and "\<not> bw_buffered w \<longrightarrow> bw_pend w = []" and "pool_ok pool"
  shows "\<exists>w'. bw_write_loop wr iow pool k w bs t = Some (Ok (w', t + length bs, None)) \<and> ok (bw_writer w') \<and> bw_wf w' \<and>
    bw_buffered w' = bw_buffered w \<and> (\<not> bw_buffered w' \<longrightarrow> bw_pend w' = []) \<and> bw_all w' = bw_all w @ bs"
  using assms(1-3)
proof (induction "rounds w (length bs)" arbitrary: w bs k t rule: less_induct)
  case less
  show ?case
  proof (cases "bs = []")
    case True
    with less.prems show ?thesis by (subst bw_write_loop.simps) auto
  next
    case False
    let ?b = "next_buffer (pool k) (bw_buffer w)"
    note nb = next_buffer_ok [OF less.prems(2), of "pool k"]
    have p: "length (pool k) < 2147483648" using assms(4) by (simp add: pool_ok_def)
    define n where "n = 8192 - length (bw_pend w)"
    have n: "room ?b = n" using nb(2,3) p by (simp add: n_def)
    obtain b where b: "Write ?b bs = Ok (b, min n (length bs))" "buf_wf b" "content b = bw_pend w @ take n bs" "room b = n - length bs"
      using Write_content [OF nb(1), of bs] nb(2) n p by auto
    have l: "length (content b) + room b = 8192" using b(3,4) nb(2,3) n p by (simp add: min_def)
    obtain w' where w': "(if \<not> bw_buffered w \<or> IsFull b then flushInternal wr iow (w\<lparr>bw_buffer := Some b\<rparr>) else Ok (w\<lparr>bw_buffer := Some b\<rparr>, None)) = Ok (w', None)"
      "ok (bw_writer w')" "bw_wf w'" "bw_buffered w' = bw_buffered w" "bw_all w' = bw_all w @ take n bs"
      "\<not> bw_buffered w' \<longrightarrow> bw_pend w' = []" "rounds w' (length bs - n) < rounds w (length bs)"
      using store_step [OF less.prems False b(2,3) l n_def refl] by blast
    have d: "drop (min n (length bs)) bs = drop n bs" "min n (length bs) + (length bs - n) = length bs" by (auto simp: min_def)
    from less.hyps [of w' "drop n bs" "Suc k" "t + min n (length bs)"] w'
    obtain w'' where "bw_write_loop wr iow pool (Suc k) w' (drop n bs) (t + min n (length bs)) = Some (Ok (w'', t + length bs, None))"
      "ok (bw_writer w'')" "bw_wf w''" "bw_buffered w'' = bw_buffered w" "\<not> bw_buffered w'' \<longrightarrow> bw_pend w'' = []" "bw_all w'' = bw_all w @ bs"
      using d(2) by (auto simp: add.assoc)
    moreover have "bw_write_loop wr iow pool k w bs t = bw_write_loop wr iow pool (Suc k) w' (drop n bs) (t + min n (length bs))"
      using False b(1) w'(1) d(1) by (subst bw_write_loop.simps) simp
    ultimately show ?thesis by auto
  qed
qed

lemma collect_loop_out:
  assumes "ok (bw_writer w)" and "bw_wf w" and "bw_buffered w" and "pool_ok pool" and "mb_wf mb"
  shows "\<exists>w'. bw_collect_loop wr iow pool k w mb = Some (Ok (w', None)) \<and> ok (bw_writer w') \<and> bw_wf w' \<and>
    bw_buffered w' \<and> bw_all w' = bw_all w @ mb_content mb"
  using assms(1-3,5)
proof (induction "rounds w (length (mb_content mb))" arbitrary: w mb k rule: less_induct)
  case less
  show ?case
  proof (cases "mb_IsEmpty mb")
    case True
    with less.prems show ?thesis by (subst bw_collect_loop.simps) (auto simp: mb_IsEmpty_content)
  next
    case False
    then have ne: "mb_content mb \<noteq> []" using less.prems by (simp add: mb_IsEmpty_content)
    let ?b = "next_buffer (pool k) (bw_buffer w)"
    have p: "length (pool k) < 2147483648" using assms(4) by (simp add: pool_ok_def)
    note nb = next_buffer_ok [OF less.prems(2) p]
    define n where "n = 8192 - length (bw_pend w)"
    have n: "room ?b = n" using nb(2,3) by (simp add: n_def)
    have tl: "tail_len ?b = Ok n" using tail_len_room [OF nb(1)] n by simp
    obtain rest where sp: "SplitBytes mb n = Ok (rest, take n (mb_content mb))" "mb_wf rest" "mb_content rest = drop n (mb_content mb)"
      using SplitBytes_content [OF less.prems(4), of n] by auto
    define b where "b = append_at_end ?b (take n (mb_content mb))"
    have rf: "ReadFrom ?b (read_of_container mb) = Ok (b, length (take n (mb_content mb)), None)"
      using tl sp(1) False by (simp add: ReadFrom_def read_of_container_def container_Read_def b_def)
    have b: "buf_wf b" "content b = bw_pend w @ take n (mb_content mb)" "length (content b) + room b = 8192"
      using append_at_end_content [OF nb(1), of "take n (mb_content mb)"] nb(2,3) n by (auto simp: b_def)
    have c: "IsFull b \<longleftrightarrow> \<not> bw_buffered w \<or> IsFull b" using less.prems(3) by simp
    have "\<not> bw_buffered w \<longrightarrow> bw_pend w = []" using less.prems(3) by simp
    from store_step [OF less.prems(1,2) this ne b n_def c] obtain w' where w':
      "(if IsFull b then flushInternal wr iow (w\<lparr>bw_buffer := Some b\<rparr>) else Ok (w\<lparr>bw_buffer := Some b\<rparr>, None)) = Ok (w', None)"
      "ok (bw_writer w')" "bw_wf w'" "bw_buffered w' = bw_buffered w" "bw_all w' = bw_all w @ take n (mb_content mb)"
      "rounds w' (length (mb_content mb) - n) < rounds w (length (mb_content mb))" by blast
    have "bw_collect_loop wr iow pool k w mb = bw_collect_loop wr iow pool (Suc k) w' rest"
      using False rf tl w'(1) sp(1) by (subst bw_collect_loop.simps) (simp add: rest_of_container_def container_Read_def Let_def)
    moreover obtain w'' where "bw_collect_loop wr iow pool (Suc k) w' rest = Some (Ok (w'', None))" "ok (bw_writer w'')" "bw_wf w''"
      "bw_buffered w''" "bw_all w'' = bw_all w' @ mb_content rest"
      using less.hyps [of w' rest "Suc k"] w' sp(2,3) less.prems(3) by auto
    ultimately show ?thesis using w'(5) sp(3) by auto
  qed
qed

end

text \<open>Histories of a buffered writer.\<close>

datatype bw_op = WriteOp bytes | WriteByteOp byte | WriteMultiOp multi_buffer | FlushOp | SetOp bool

fun bw_step :: "'w mbwriter \<Rightarrow> 'w iowriter option \<Rightarrow> (nat \<Rightarrow> bytes) \<Rightarrow> bw_op \<Rightarrow> 'w buffered_writer \<Rightarrow> ('w buffered_writer \<times> goerr option) res" where
  "bw_step wr iow pool (WriteOp b) w = rmap (\<lambda>(w, n, err). (w, err)) (bw_Write wr iow pool w b)"
| "bw_step wr iow pool (WriteByteOp c) w = bw_WriteByte wr iow pool w c"
| "bw_step wr iow pool (WriteMultiOp mb) w = bw_WriteMultiBuffer wr iow pool w mb"
| "bw_step wr iow pool FlushOp w = bw_Flush wr iow w"
| "bw_step wr iow pool (SetOp f) w = SetBuffered wr iow f w"

fun bw_run :: "'w mbwriter \<Rightarrow> 'w iowriter option \<Rightarrow> (nat \<Rightarrow> bytes) \<Rightarrow> bw_op list \<Rightarrow> 'w buffered_writer \<Rightarrow> 'w buffered_writer res" where
  "bw_run wr iow pool [] w = Ok w"
| "bw_run wr iow pool (op # ops) w = rbind (bw_step wr iow pool op w) (\<lambda>(w, err). bw_run wr iow pool ops w)"

fun bw_written :: "bw_op \<Rightarrow> bytes" where
  "bw_written (WriteOp b) = b"
| "bw_written (WriteByteOp c) = [c]"
| "bw_written (WriteMultiOp mb) = mb_content mb"
| "bw_written FlushOp = []"
| "bw_written (SetOp f) = []"

fun bw_op_ok :: "bw_op \<Rightarrow> bool" where
  "bw_op_ok (WriteMultiOp mb) = mb_wf mb"
| "bw_op_ok op = True"

context byte_sink
begin

definition bw_inv :: "'w buffered_writer \<Rightarrow> bool" where
  "bw_inv w \<longleftrightarrow> ok (bw_writer w) \<and> bw_wf w \<and> (\<not> bw_buffered w \<longrightarrow> bw_pend w = [])"

lemma Write_out:
  assumes "bw_inv w" and "pool_ok pool"
  shows "\<exists>w'. bw_Write wr iow pool w bs = Ok (w', length bs, None) \<and> bw_inv w' \<and> bw_all w' = bw_all w @ bs"
proof (cases "bs \<noteq> [] \<and> \<not> bw_buffered w \<and> iow \<noteq> None")
  case True
  then obtain f where f: "iow = Some f" by auto
  from True assms obtain x where x: "f (bw_writer w) bs = (x, length bs, None)" "ok x" "out x = out (bw_writer w) @ bs"
    using io_sink [OF f, of "bw_writer w" bs] by (auto simp: bw_inv_def)
  with True f assms have "bw_Write wr iow pool w bs = Ok (w\<lparr>bw_writer := x\<rparr>, length bs, None)" by (simp add: bw_Write_def)
  with x True assms show ?thesis by (auto simp: bw_inv_def bw_all_def bw_pend_def bw_wf_def)
next
  case False
  then have "bw_Write wr iow pool w bs = (if bs = [] then Ok (w, 0, None) else returns (bw_write_loop wr iow pool 0 w bs 0))"
    by (auto simp: bw_Write_def)
  with write_loop_out [of w pool 0 bs 0] assms show ?thesis by (auto simp: returns_def bw_inv_def)
qed

lemma bw_step_out:
  assumes "bw_inv w" and "pool_ok pool" and "bw_op_ok op"
  shows "\<exists>w'. bw_step wr iow pool op w = Ok (w', None) \<and> bw_inv w' \<and> bw_all w' = bw_all w @ bw_written op \<and>
    (op = FlushOp \<longrightarrow> bw_pend w' = [])"
proof (cases op)
  case (WriteMultiOp mb)
  then have mb: "mb_wf mb" using assms(3) by simp
  show ?thesis
  proof (cases "bw_buffered w \<or> mb_IsEmpty mb")
    case True
    then have "bw_WriteMultiBuffer wr iow pool w mb = (if mb_IsEmpty mb then Ok (w, None) else returns (bw_collect_loop wr iow pool 0 w mb))"
      by (auto simp: bw_WriteMultiBuffer_def)
    with True collect_loop_out [of w pool mb 0] assms mb WriteMultiOp show ?thesis
      by (auto simp: returns_def bw_inv_def mb_IsEmpty_content)
  next
    case False
    obtain x where "wr (bw_writer w) mb = (x, None)" "ok x" "out x = out (bw_writer w) @ mb_content mb"
      using wr_sink [OF _ mb] assms(1) by (fastforce simp: bw_inv_def)
    with False assms(1) WriteMultiOp show ?thesis by (auto simp: bw_WriteMultiBuffer_def bw_inv_def bw_all_def bw_pend_def bw_wf_def)
  qed
next
  case FlushOp
  with flush_out [of w] assms(1) show ?thesis by (auto simp: bw_Flush_def bw_inv_def bw_all_def)
next
  case (SetOp f)
  let ?w = "w\<lparr>bw_buffered := f\<rparr>"
  have w: "ok (bw_writer ?w)" "bw_wf ?w" "bw_all ?w = bw_all w" using assms(1) by (auto simp: bw_inv_def bw_wf_def bw_all_def bw_pend_def)
  with SetOp flush_if [OF w(1,2), of "\<not> f"] show ?thesis by (auto simp: SetBuffered_def bw_inv_def Let_def split: if_splits)
next
  case (WriteOp b)
  with Write_out [OF assms(1,2), of b] show ?thesis by auto
next
  case (WriteByteOp b)
  with Write_out [OF assms(1,2), of "[b]"] show ?thesis by (auto simp: bw_WriteByte_def)
qed

lemma bw_run_out:
  assumes "bw_inv w" and "pool_ok pool" and "list_all bw_op_ok ops"
  shows "\<exists>w'. bw_run wr iow pool ops w = Ok w' \<and> bw_inv w' \<and> bw_all w' = bw_all w @ concat (map bw_written ops) \<and>
    (ops \<noteq> [] \<and> last ops = FlushOp \<longrightarrow> bw_pend w' = [])"
  using assms
proof (induction ops arbitrary: w)
  case (Cons op ops)
  obtain w1 where w1: "bw_step wr iow pool op w = Ok (w1, None)" "bw_inv w1" "bw_all w1 = bw_all w @ bw_written op" "op = FlushOp \<longrightarrow> bw_pend w1 = []"
    using bw_step_out [of w pool op] Cons.prems by auto
  with Cons.IH [of w1] Cons.prems show ?case by (cases "ops = []") auto
qed simp

end

text \<open>The container of a list of buffers as such a writer, once with its \<open>Write\<close> and once without.\<close>

definition container_sink :: "multi_buffer mbwriter" where
  "container_sink c mb = (container_WriteMultiBuffer c mb, None)"

definition container_iow :: "multi_buffer iowriter" where
  "container_iow c b = (case container_Write zero_pool c b of Ok (c, n) \<Rightarrow> (c, n, None) | Err e \<Rightarrow> (c, 0, Some e) | Panic p \<Rightarrow> (c, 0, None))"

lemma container_sink_law: "mb_wf w \<Longrightarrow> mb_wf mb \<Longrightarrow> \<exists>x. container_sink w mb = (x, None) \<and> mb_wf x \<and> mb_content x = mb_content w @ mb_content mb"
  by (simp add: container_sink_def container_WriteMultiBuffer_def MergeMulti_def)

interpretation cs_io: byte_sink container_sink "if direct then Some container_iow else None" mb_content mb_wf
proof
  fix f :: "multi_buffer iowriter" and w bs
  assume "(if direct then Some container_iow else None) = Some f" and "mb_wf w"
  then have "f = container_iow" by (auto split: if_splits)
  moreover have "pool_ok zero_pool" by (simp add: pool_ok_def zero_pool_def)
  from MergeBytes_content [OF this \<open>mb_wf w\<close>, of bs] obtain mb where "MergeBytes zero_pool w bs = Ok mb" "mb_wf mb" "mb_content mb = mb_content w @ bs" by blast
  ultimately show "\<exists>x. f w bs = (x, length bs, None) \<and> mb_wf x \<and> mb_content x = mb_content w @ bs"
    by (simp add: container_iow_def container_Write_def)
qed (rule container_sink_law)

section \<open>Properties\<close>

text \<open>
  C39. A buffered reader with the default splitter over a reader that delivers lists of buffers is a byte stream: \<open>io.ReadFull\<close> on it
  returns, with the bytes and the error that it gives on the stream of all bytes that are buffered or delivered without an error, however these are cut
  into lists and buffers, and the rest of the stream stays behind.  Data that comes together with the error of the reader below is not part of the stream: it is dropped.
\<close>

theorem buffered_reader_stream:
  assumes "br_ready r"
  shows "\<exists>bs e r'. br_ReadFull source_read n r = Ok (bs, e, r') \<and> br_ready r' \<and> read_full n (br_view r) = (bs, e, br_view r')"
  using assms by (rule last.rf)

definition two_deliveries :: "source buffered_reader" where
  "two_deliveries = \<lparr>br_Reader = \<lparr>src_data = [[], [append_at_end (New []) [1, 2]], [append_at_end (New []) [3, 4, 5]]], src_last = [append_at_end (New []) [6]], src_end = EOF\<rparr>,
     br_Buffer = [], br_Splitter = None\<rparr>"

lemma appended_New: "length bs \<le> 8192 \<Longrightarrow> buf_wf (append_at_end (New []) bs) \<and> content (append_at_end (New []) bs) = bs"
  using append_at_end_content [of "New []" bs] New_wf [of "[]"] by simp

theorem buffered_reader_stream_witness:
  "\<exists>bs e r'. br_ReadFull source_read 6 two_deliveries = Ok (bs, e, r') \<and> bs = [1, 2, 3, 4, 5] \<and> e = Some ErrUnexpectedEOF \<and> pending (br_view r') = []"
proof -
  have ok: "br_ready two_deliveries" by (simp add: two_deliveries_def br_ready_def appended_New)
  have "br_view two_deliveries = \<lparr>pending = [1, 2, 3, 4, 5], ending = EOF\<rparr>" by (simp add: two_deliveries_def br_view_def appended_New)
  with buffered_reader_stream [OF ok, of 6] show ?thesis by (auto simp: read_full_def) (metis stream.select_convs(1))
qed

text \<open>
  A buffered writer neither loses nor reorders a byte: after any calls of \<open>Write\<close>, \<open>WriteByte\<close>,
  \<open>WriteMultiBuffer\<close>, \<open>Flush\<close> and \<open>SetBuffered\<close> on a writer that accepts everything, each of which returns, the writer below holds what was
  written up to what is still in the buffer, and all of it after a flush; whether or not the writer below also takes plain bytes.
\<close>

theorem buffered_writer_order:
  assumes "length fresh < 2147483648" and "pool_ok pool" and "list_all bw_op_ok ops"
  shows "\<exists>w'. bw_run container_sink (if direct then Some container_iow else None) pool ops (NewBufferedWriter fresh []) = Ok w' \<and>
    mb_content (bw_writer w') @ bw_pend w' = concat (map bw_written ops) \<and> (ops \<noteq> [] \<and> last ops = FlushOp \<longrightarrow> bw_pend w' = [])"
proof -
  have "cs_io.bw_inv (NewBufferedWriter fresh ([] :: multi_buffer))" "cs_io.bw_all (NewBufferedWriter fresh ([] :: multi_buffer)) = []"
    using New_wf [OF assms(1)] by (simp_all add: cs_io.bw_inv_def cs_io.bw_all_def NewBufferedWriter_def bw_wf_def bw_pend_def)
  from cs_io.bw_run_out [OF this(1) assms(2,3), of direct] this(2) show ?thesis by (auto simp: cs_io.bw_all_def)
qed

theorem buffered_writer_order_witness:
  "\<exists>w'. bw_run container_sink (Some container_iow) zero_pool [WriteByteOp 1, SetOp False, WriteOp [2, 3], FlushOp] (NewBufferedWriter [] []) = Ok w' \<and>
    mb_content (bw_writer w') = [1, 2, 3]"
  using buffered_writer_order [of "[]" zero_pool "[WriteByteOp 1, SetOp False, WriteOp [2, 3], FlushOp]" True]
  by (auto simp: pool_ok_def zero_pool_def)

text \<open>
  Copying ends with the reader: from any reader that delivers finitely many lists of buffers and then an error, perhaps with data, to a writer that accepts
  everything, \<open>Copy\<close> returns, has moved every byte in order, has counted them, and reports the error unless it is \<open>io.EOF\<close>.
\<close>

theorem copy_moves_all:
  assumes "list_all mb_wf (src_data s @ [src_last s])" and "length (concat (map mb_content (src_data s @ [src_last s]))) < 2147483648"
  shows "\<exists>w' n. buf_Copy source_read container_sink CountSize s [] 0 = Ok (drained s, w', n, if src_end s = EOF then None else Some (readError (src_end s))) \<and>
    mb_content w' = concat (map mb_content (src_data s @ [src_last s])) \<and> n = int (length (mb_content w'))"
proof -
  from cs_io.feed_sink [OF _ assms(1), of "[]"] obtain w' where w': "feed container_sink [] (src_data s @ [src_last s]) = Some w'"
    "mb_content w' = concat (map mb_content (src_data s @ [src_last s]))" by auto
  have "fold CountSize (filter (\<lambda>mb. \<not> mb_IsEmpty mb) mbs) c = c + int (length (concat (map mb_content mbs)))"
    if "list_all mb_wf mbs" "length (concat (map mb_content mbs)) < 2147483648" for mbs c
    using that by (induction mbs arbitrary: c) (auto simp: CountSize_def mb_Len_content mb_IsEmpty_content)
  from this [OF assms, of 0] w' buf_Copy_delivers [OF source_delivers [of s] w'(1), of CountSize 0] show ?thesis by auto
qed

theorem copy_moves_all_witness:
  "\<exists>w' n. buf_Copy source_read container_sink CountSize (br_Reader two_deliveries) [] 0 = Ok (drained (br_Reader two_deliveries), w', n, None) \<and>
    mb_content w' = [1, 2, 3, 4, 5, 6] \<and> n = 6"
  using copy_moves_all [of "br_Reader two_deliveries"] by (auto simp: two_deliveries_def appended_New)

end
