(* ===== verification/MuxWriter.thy ===== *)
theory MuxWriter
  imports MuxFrame BufIo
begin

text \<open>
  The sending side of a mux session (\<open>common/mux/writer.go\<close>), which cuts what it is given into frames
  of at most 8 KiB, and the packet reader of the receiving side (\<open>common/mux/reader.go\<close>).  The writer
  below, a \<open>buf.Writer\<close>, is a parameter \<open>wrmb\<close> that returns its next state and its error.
\<close>

section \<open>State and operations\<close>

datatype TransferType = TransferTypeStream | TransferTypePacket

record 'w mux_writer =
  mw_dest :: destination
  mw_writer :: 'w
  mw_id :: u16
  mw_followup :: bool
  mw_hasError :: bool
  mw_transferType :: TransferType
  mw_globalID :: bytes

definition NewWriter :: "u16 \<Rightarrow> destination \<Rightarrow> 'w \<Rightarrow> TransferType \<Rightarrow> bytes \<Rightarrow> 'w mux_writer" where
  "NewWriter i dest writer tt globalID =
     \<lparr>mw_dest = dest, mw_writer = writer, mw_id = i, mw_followup = False, mw_hasError = False,
      mw_transferType = tt, mw_globalID = globalID\<rparr>"

definition zero_destination :: destination where
  "zero_destination = \<lparr>dest_Address = None, dest_Port = 0, dest_Network = Network_Unknown\<rparr>"

definition NewResponseWriter :: "u16 \<Rightarrow> 'w \<Rightarrow> TransferType \<Rightarrow> 'w mux_writer" where
  "NewResponseWriter i writer tt =
     \<lparr>mw_dest = zero_destination, mw_writer = writer, mw_id = i, mw_followup = True, mw_hasError = False,
      mw_transferType = tt, mw_globalID = replicate 8 0\<rparr>"

definition getNextFrameMeta :: "'w mux_writer \<Rightarrow> 'w mux_writer \<times> FrameMetadata" where
  "getNextFrameMeta w =
     (w\<lparr>mw_followup := True\<rparr>,
      \<lparr>fm_Target = mw_dest w, fm_SessionID = mw_id w, fm_Option = 0,
       fm_SessionStatus = (if mw_followup w then SessionStatusKeep else SessionStatusNew),
       fm_GlobalID = mw_globalID w\<rparr>)"

definition send :: "'w mbwriter \<Rightarrow> 'w mux_writer \<Rightarrow> multi_buffer \<Rightarrow> 'w mux_writer \<times> goerr option" where
  "send wrmb w mb = (case wrmb (mw_writer w) mb of (x, err) \<Rightarrow> (w\<lparr>mw_writer := x\<rparr>, err))"

definition writeMetaOnly ::
  "'w mbwriter \<Rightarrow> bytes \<Rightarrow> 'w mux_writer \<Rightarrow> ('w mux_writer \<times> goerr option) res" where
  "writeMetaOnly wrmb fresh w =
     (case getNextFrameMeta w of (w1, meta) \<Rightarrow>
        rbind (FrameMetadata_WriteTo meta (New fresh)) (\<lambda>(b, err).
          if err \<noteq> None then Ok (w1, err) else Ok (send wrmb w1 [b])))"

definition writeMetaWithFrame ::
  "'w mbwriter \<Rightarrow> bytes \<Rightarrow> 'w mux_writer \<Rightarrow> FrameMetadata \<Rightarrow> multi_buffer \<Rightarrow>
     ('w mux_writer \<times> goerr option) res" where
  "writeMetaWithFrame wrmb fresh w meta data =
     (let frame = (if length data = 1 then (New fresh)\<lparr>buf_UDP := buf_UDP (hd data)\<rparr> else New fresh) in
      rbind (FrameMetadata_WriteTo meta frame) (\<lambda>(b, err).
        if err \<noteq> None then Ok (w, err)
        else rbind (buf_writer b (put_u16 (word_of_int (mb_Len data)))) (\<lambda>(b2, err2).
          if err2 \<noteq> None then Ok (w, err2) else Ok (send wrmb w (b2 # data)))))"

definition writeData ::
  "'w mbwriter \<Rightarrow> bytes \<Rightarrow> 'w mux_writer \<Rightarrow> multi_buffer \<Rightarrow> ('w mux_writer \<times> goerr option) res" where
  "writeData wrmb fresh w mb =
     (case getNextFrameMeta w of (w1, meta) \<Rightarrow>
        writeMetaWithFrame wrmb fresh w1 (meta\<lparr>fm_Option := Set_bits (fm_Option meta) OptionData\<rparr>) mb)"

text \<open>
  One round of the loop cuts off a chunk: up to 8 KiB of a stream, one buffer of a packet connection.
  \<open>pool k\<close> is the array for the \<open>k\<close>-th buffer that is taken from the pool.  The result is the
  writer, the error and the buffers that are left to release; \<open>None\<close> when the fuel runs out.
\<close>

definition next_chunk ::
  "bytes \<Rightarrow> TransferType \<Rightarrow> multi_buffer \<Rightarrow> (multi_buffer \<times> multi_buffer) res" where
  "next_chunk fresh tt mb =
     (case tt of
        TransferTypeStream \<Rightarrow> SplitSize fresh mb (8 * 1024)
      | TransferTypePacket \<Rightarrow>
          (case SplitFirst mb of (mb2, b) \<Rightarrow> Ok (mb2, case b of None \<Rightarrow> [] | Some x \<Rightarrow> [x])))"

fun mux_write_loop ::
  "nat \<Rightarrow> 'w mbwriter \<Rightarrow> (nat \<Rightarrow> bytes) \<Rightarrow> nat \<Rightarrow> 'w mux_writer \<Rightarrow> multi_buffer \<Rightarrow>
     ('w mux_writer \<times> goerr option \<times> multi_buffer) res option" where
  "mux_write_loop 0 wrmb pool k w mb = None"
| "mux_write_loop (Suc fuel) wrmb pool k w mb =
     (if mb_IsEmpty mb then Some (Ok (w, None, mb))
      else (case next_chunk (pool k) (mw_transferType w) mb of
              Ok (rest, chunk) \<Rightarrow>
                (case writeData wrmb (pool (k + 1)) w chunk of
                   Ok (w', None) \<Rightarrow> mux_write_loop fuel wrmb pool (k + 2) w' rest
                 | Ok (w', Some e) \<Rightarrow> Some (Ok (w', Some e, rest))
                 | Err e \<Rightarrow> Some (Err e)
                 | Panic m \<Rightarrow> Some (Panic m))
            | Err e \<Rightarrow> Some (Err e)
            | Panic m \<Rightarrow> Some (Panic m)))"

definition mux_WriteMultiBuffer ::
  "nat \<Rightarrow> 'w mbwriter \<Rightarrow> (nat \<Rightarrow> bytes) \<Rightarrow> pools \<Rightarrow> 'w mux_writer \<Rightarrow> multi_buffer \<Rightarrow>
     ('w mux_writer \<times> goerr option \<times> pools) res option" where
  "mux_WriteMultiBuffer fuel wrmb pool ps w mb =
     (if mb_IsEmpty mb
      then Some (rmap (\<lambda>(w', err). (w', err, snd (ReleaseMulti mb ps))) (writeMetaOnly wrmb (pool 0) w))
      else map_option (rmap (\<lambda>(w', err, left). (w', err, snd (ReleaseMulti left ps))))
             (mux_write_loop fuel wrmb pool 0 w mb))"

definition mux_writer_Close ::
  "'w mbwriter \<Rightarrow> bytes \<Rightarrow> 'w mux_writer \<Rightarrow> ('w mux_writer \<times> goerr option) res" where
  "mux_writer_Close wrmb fresh w =
     (let meta = \<lparr>fm_Target = zero_destination, fm_SessionID = mw_id w,
                  fm_Option = (if mw_hasError w then Set_bits 0 OptionError else 0),
                  fm_SessionStatus = SessionStatusEnd, fm_GlobalID = replicate 8 0\<rparr> in
      rbind (FrameMetadata_WriteTo meta (New fresh)) (\<lambda>(frame, err).
        if err \<noteq> None then Panic ''Must'' else Ok (fst (send wrmb w [frame]), None)))"

record packet_reader =
  pr_reader :: stream
  pr_eof :: bool
  pr_dest :: "destination option"

definition NewPacketReader :: "stream \<Rightarrow> destination option \<Rightarrow> packet_reader" where
  "NewPacketReader reader dest = \<lparr>pr_reader = reader, pr_eof = False, pr_dest = dest\<rparr>"

definition packet_ReadMultiBuffer ::
  "bytes \<Rightarrow> packet_reader \<Rightarrow> (packet_reader \<times> multi_buffer \<times> goerr option) res" where
  "packet_ReadMultiBuffer fresh r =
     (if pr_eof r then Ok (r, [], Some EOF)
      else (case ReadUint16 (pr_reader r) of
              (Err e, s) \<Rightarrow> Ok (r\<lparr>pr_reader := s\<rparr>, [], Some e)
            | (Panic m, s) \<Rightarrow> Panic m
            | (Ok sz, s) \<Rightarrow>
                if uint sz > Size then Ok (r\<lparr>pr_reader := s\<rparr>, [], Some (ErrMsg ''packet size too large: ''))
                else
                  rbind (ReadFullFrom (New fresh) s (uint sz)) (\<lambda>(b, n, err, s').
                    if err \<noteq> None then Ok (r\<lparr>pr_reader := s'\<rparr>, [], err)
                    else
                      (let b' = (case pr_dest r of
                                   Some d \<Rightarrow> if dest_Network d = Network_UDP then b\<lparr>buf_UDP := Some d\<rparr> else b
                                 | None \<Rightarrow> b) in
                       Ok (r\<lparr>pr_reader := s', pr_eof := True\<rparr>, [b'], None)))))"

section \<open>What a stream becomes on the wire\<close>

definition data_meta :: "'w mux_writer \<Rightarrow> FrameMetadata" where
  "data_meta w = (snd (getNextFrameMeta w))\<lparr>fm_Option := OptionData\<rparr>"

definition data_frame :: "FrameMetadata \<Rightarrow> bytes \<Rightarrow> bytes" where
  "data_frame meta c = frame_bytes meta None @ put_u16 (word_of_nat (length c)) @ c"

text \<open>The first frame carries the writer's next metadata, the later ones are keep frames.\<close>

fun data_frames :: "'w mux_writer \<Rightarrow> bytes list \<Rightarrow> bytes" where
  "data_frames w [] = []"
| "data_frames w (c # cs) = data_frame (data_meta w) c @ data_frames (w\<lparr>mw_followup := True\<rparr>) cs"

lemma data_frames_writer [simp]:
  fixes w :: "'w mux_writer"
  shows "data_frames (w\<lparr>mw_writer := x\<rparr>) cs = data_frames w cs"
proof (induction cs arbitrary: w)
  case (Cons c cs)
  have "data_meta (w\<lparr>mw_writer := x\<rparr>) = data_meta w" by (simp add: data_meta_def getNextFrameMeta_def)
  moreover have eq: "w\<lparr>mw_writer := x, mw_followup := True\<rparr> = w\<lparr>mw_followup := True, mw_writer := x\<rparr>" by simp
  have "data_frames (w\<lparr>mw_writer := x, mw_followup := True\<rparr>) cs = data_frames (w\<lparr>mw_followup := True\<rparr>) cs"
    unfolding eq by (rule Cons)
  ultimately show ?case by simp
qed simp

definition writer_ok :: "'w mux_writer \<Rightarrow> bool" where
  "writer_ok w \<longleftrightarrow> (\<not> mw_followup w \<longrightarrow>
     dest_Network (mw_dest w) \<in> {Network_TCP, Network_UDP} \<and> addr_ok (dest_Address (mw_dest w)) \<and>
     length (mw_globalID w) = 8)"

lemma data_meta_ok: "writer_ok w \<Longrightarrow> frame_ok (data_meta w) None"
  by (simp add: writer_ok_def frame_ok_def data_meta_def getNextFrameMeta_def SessionStatusNew_def
    SessionStatusKeep_def)

lemma writeData_frame:
  assumes "writer_ok w" and "mb_wf c" and "\<forall>b \<in> set c. buf_UDP b = None"
    and "length (mb_content c) \<le> 8192" and "length fresh < 2147483648"
  shows "\<exists>b. mb_content (b # c) = data_frame (data_meta w) (mb_content c) \<and>
    writeData wrmb fresh w c = Ok (send wrmb (w\<lparr>mw_followup := True\<rparr>) (b # c))"
proof -
  let ?m = "data_meta w" and ?l = "put_u16 (word_of_nat (length (mb_content c)))"
  define fr where "fr = (if length c = 1 then (New fresh)\<lparr>buf_UDP := buf_UDP (hd c)\<rparr> else New fresh)"
  have "fr = New fresh" if "length c = 1"
    using that assms(3) by (cases c) (auto simp: fr_def New_def)
  then have fr: "fr = New fresh" by (auto simp: fr_def)
  have n: "buf_wf (New fresh)" "content (New fresh) = []" "room (New fresh) = 8192" "buf_UDP (New fresh) = None"
    using New_wf [OF assms(5)] by (simp_all add: New_def)
  note ok = data_meta_ok [OF assms(1)]
  have fl: "length (frame_bytes ?m None) \<le> 274"
    using target_bytes_length [OF ok] by (simp add: frame_bytes_def meta_bytes_def)
  define b1 where "b1 = append_at_end (New fresh) (frame_bytes ?m None)"
  have wt: "FrameMetadata_WriteTo ?m fr = Ok (b1, None)"
    using WriteTo_append [of ?m "New fresh"] ok n fr by (simp add: b1_def)
  have b1: "buf_wf b1" "content b1 = frame_bytes ?m None" "2 \<le> room b1"
    using append_at_end_content [OF n(1), of "frame_bytes ?m None"] fl n by (simp_all add: b1_def)
  have "(word_of_int (mb_Len c) :: u16) = word_of_nat (length (mb_content c))"
    using mb_Len_content [OF assms(2)] assms(4) by simp
  moreover have "buf_writer b1 ?l = Ok (append_at_end b1 ?l, None)"
    using b1 by (intro buf_writer_fits) simp_all
  moreover have "snd (getNextFrameMeta w)\<lparr>fm_Option := Set_bits (fm_Option (snd (getNextFrameMeta w))) OptionData\<rparr> = ?m"
    by (simp add: data_meta_def getNextFrameMeta_def Set_bits_def)
  ultimately have "writeData wrmb fresh w c = Ok (send wrmb (w\<lparr>mw_followup := True\<rparr>) (append_at_end b1 ?l # c))"
    using wt unfolding writeData_def writeMetaWithFrame_def Let_def fr_def [symmetric]
    by (simp add: getNextFrameMeta_def)
  moreover have "mb_content (append_at_end b1 ?l # c) = data_frame ?m (mb_content c)"
    using append_at_end_content [OF b1(1), of ?l] b1 by (simp add: data_frame_def)
  ultimately show ?thesis by blast
qed

text \<open>A writer that takes everything.\<close>

locale mb_sink =
  fixes wrmb :: "'w mbwriter" and out :: "'w \<Rightarrow> bytes"
  assumes sink: "\<exists>x. wrmb w mb = (x, None) \<and> out x = out w @ mb_content mb"
begin

lemma writeData_out:
  assumes "writer_ok w" and "mb_wf c" and "\<forall>b \<in> set c. buf_UDP b = None"
    and "length (mb_content c) \<le> 8192" and "length fresh < 2147483648"
  shows "\<exists>x. writeData wrmb fresh w c = Ok (w\<lparr>mw_followup := True, mw_writer := x\<rparr>, None) \<and>
    out x = out (mw_writer w) @ data_frame (data_meta w) (mb_content c)"
proof -
  obtain b where b: "mb_content (b # c) = data_frame (data_meta w) (mb_content c)"
    "writeData wrmb fresh w c = Ok (send wrmb (w\<lparr>mw_followup := True\<rparr>) (b # c))"
    using writeData_frame [OF assms] by blast
  obtain x where "wrmb (mw_writer w) (b # c) = (x, None)" "out x = out (mw_writer w) @ mb_content (b # c)"
    using sink by blast
  with b show ?thesis by (intro exI [of _ x]) (simp add: send_def)
qed

lemma stream_loop:
  assumes "writer_ok w" and "mw_transferType w = TransferTypeStream" and "mb_wf mb"
    and "\<forall>b \<in> set mb. buf_UDP b = None" and "length (mb_content mb) < 2147483648"
    and "\<forall>k. length (pool k) < 2147483648" and "length (mb_content mb) + length mb < fuel"
  shows "\<exists>w' left cs. mux_write_loop fuel wrmb pool k w mb = Some (Ok (w', None, left)) \<and>
    concat cs = mb_content mb \<and> list_all (\<lambda>c. length c \<le> 8192) cs \<and>
    out (mw_writer w') = out (mw_writer w) @ data_frames w cs"
  using assms
proof (induction fuel arbitrary: w mb k)
  case (Suc fuel)
  show ?case
  proof (cases "mb_IsEmpty mb")
    case True
    then show ?thesis using Suc.prems by (auto simp: mb_IsEmpty_content intro!: exI [of _ "[]"])
  next
    case False
    then have "mb \<noteq> []" by auto
    obtain rest r where sp: "SplitSize (pool k) mb 8192 = Ok (rest, r)" "mb_wf rest" "mb_wf r"
      "mb_content r @ mb_content rest = mb_content mb" "length (mb_content r) \<le> 8192"
      "length (mb_content rest) + length rest < length (mb_content mb) + length mb"
      "\<forall>b \<in> set rest \<union> set r. buf_UDP b = None"
      using SplitSize_spec [of mb "pool k" 8192] Suc.prems \<open>mb \<noteq> []\<close> by auto
    obtain x where x: "writeData wrmb (pool (k + 1)) w r = Ok (w\<lparr>mw_followup := True, mw_writer := x\<rparr>, None)"
      "out x = out (mw_writer w) @ data_frame (data_meta w) (mb_content r)"
      using writeData_out [of w r "pool (k + 1)"] Suc.prems sp by auto
    let ?w = "w\<lparr>mw_followup := True, mw_writer := x\<rparr>"
    have "length (mb_content rest) < 2147483648"
      using Suc.prems(5) arg_cong [OF sp(4), of length] by simp
    then obtain w' left cs where "mux_write_loop fuel wrmb pool (k + 2) ?w rest = Some (Ok (w', None, left))"
      "concat cs = mb_content rest" "list_all (\<lambda>c. length c \<le> 8192) cs"
      "out (mw_writer w') = out x @ data_frames ?w cs"
      using Suc.IH [of ?w rest "k + 2"] Suc.prems sp by (auto simp: writer_ok_def)
    moreover have "data_frames ?w cs = data_frames (w\<lparr>mw_followup := True\<rparr>) cs"
      by (rule data_frames_writer)
    ultimately show ?thesis
      using False Suc.prems(2) sp x
      by (intro exI [of _ w'] exI [of _ left] exI [of _ "mb_content r # cs"]) (simp add: next_chunk_def)
  qed
qed simp

end

interpretation cs: mb_sink container_sink mb_content
  by unfold_locales (simp add: container_sink_def container_WriteMultiBuffer_def MergeMulti_def)

section \<open>Properties\<close>

text \<open>
  C32. A stream writer puts everything it is given on the wire, in order, as frames of at most 8 KiB: it
  terminates without an error, the first frame opens the session (or keeps it, for a follow-up), all later
  ones keep it, each frame announces exactly the payload behind it, and the payloads are the data.
\<close>

theorem mux_stream_frames:
  assumes "writer_ok w" and "mw_transferType w = TransferTypeStream" and "mb_wf mb"
    and "\<forall>b \<in> set mb. buf_UDP b = None" and "length (mb_content mb) < 2147483648"
    and "\<forall>k. length (pool k) < 2147483648" and "length (mb_content mb) + length mb < fuel"
    and "mb_content mb \<noteq> []"
  shows "\<exists>w' ps' cs. mux_WriteMultiBuffer fuel container_sink pool ps w mb = Some (Ok (w', None, ps')) \<and>
    concat cs = mb_content mb \<and> list_all (\<lambda>c. length c \<le> 8192) cs \<and>
    mb_content (mw_writer w') = mb_content (mw_writer w) @ data_frames w cs"
  using cs.stream_loop [OF assms(1-7), of 0] assms(3,8)
  by (auto simp: mux_WriteMultiBuffer_def mb_IsEmpty_content)

definition sample_payload :: multi_buffer where
  "sample_payload = [append_at_end (New []) [104, 105]]"

theorem mux_stream_frames_witness:
  "\<exists>w' ps' cs. mux_WriteMultiBuffer 4 container_sink (\<lambda>_. []) pools_init
      (NewWriter 1 (TCPDestination (Some (IPv4Address [1, 2, 3, 4])) 80) [] TransferTypeStream (replicate 8 0))
      sample_payload = Some (Ok (w', None, ps')) \<and> concat cs = ([104, 105] :: bytes)"
proof -
  have p: "mb_wf sample_payload" "mb_content sample_payload = [104, 105]"
    "\<forall>b \<in> set sample_payload. buf_UDP b = None" "length sample_payload = 1"
    using append_at_end_content [of "New []" "[104, 105]"] New_wf [of "[]"]
    by (simp_all add: sample_payload_def) (simp add: New_def)
  have "writer_ok (NewWriter 1 (TCPDestination (Some (IPv4Address [1, 2, 3, 4])) 80) ([] :: multi_buffer)
      TransferTypeStream (replicate 8 0))"
    by (simp add: writer_ok_def NewWriter_def TCPDestination_def addr_ok_def)
  from mux_stream_frames [OF this _ p(1,3), of "\<lambda>_. []" 4 pools_init] p show ?thesis
    by (auto simp: NewWriter_def)
qed

end
