(* ===== verification/Pipe.thy ===== *)
theory Pipe
  imports MultiBuffer
begin

text \<open>
  Package \<open>transport/pipe\<close> with the two synchronisation primitives it is built on,
  \<open>signal.Notifier\<close> (a channel of capacity one, so a flag) and \<open>done.Instance\<close> (a channel that is
  closed once).  The critical sections under the mutex are functions on the record \<open>pipe\<close>.  The loops of
  \<open>ReadMultiBuffer\<close>, \<open>ReadMultiBufferTimeout\<close> and \<open>WriteMultiBuffer\<close> are split at their blocking
  points: every goroutine has a program counter, and \<open>pipe_step\<close> executes one atomic section of one
  goroutine, chosen by an event.  Any number of readers and writers run, and the scheduler is
  arbitrary.  Two ghost components of a configuration record the accepted and the delivered buffers.
\<close>

section \<open>Notifier and done.Instance\<close>

type_synonym notifier = bool

definition NewNotifier :: notifier where
  "NewNotifier = False"

definition Signal :: "notifier \<Rightarrow> notifier" where
  "Signal n = True"

record done_inst =
  di_closed :: bool
  di_chan_closed :: bool

definition done_New :: done_inst where
  "done_New = \<lparr>di_closed = False, di_chan_closed = False\<rparr>"

definition Done :: "done_inst \<Rightarrow> bool" where
  "Done d = di_chan_closed d"

text \<open>Closing a closed channel panics.\<close>

definition done_Close :: "done_inst \<Rightarrow> done_inst res" where
  "done_Close d =
     (if di_closed d then Ok d
      else if di_chan_closed d then Panic ''close of closed channel''
      else Ok (d\<lparr>di_closed := True, di_chan_closed := True\<rparr>))"

definition done_wf :: "done_inst \<Rightarrow> bool" where
  "done_wf d \<longleftrightarrow> (di_closed d \<longleftrightarrow> di_chan_closed d)"

section \<open>The pipe and its critical sections\<close>

datatype pstate = open_state | closed_state | errord_state

record pipeOption =
  po_limit :: int
  po_discardOverflow :: bool

definition isFull :: "pipeOption \<Rightarrow> int \<Rightarrow> bool" where
  "isFull opt curSize \<longleftrightarrow> po_limit opt \<ge> 0 \<and> curSize > po_limit opt"

text \<open>\<open>data\<close> is \<open>None\<close> when the field is nil.\<close>

record pipe =
  pp_data :: "multi_buffer option"
  pp_readSignal :: notifier
  pp_writeSignal :: notifier
  pp_done :: done_inst
  pp_errChan :: "goerr option"
  pp_option :: pipeOption
  pp_state :: pstate

definition pdata :: "pipe \<Rightarrow> multi_buffer" where
  "pdata p = (case pp_data p of None \<Rightarrow> [] | Some mb \<Rightarrow> mb)"

definition pipe_Len :: "pipe \<Rightarrow> int" where
  "pipe_Len p = (case pp_data p of None \<Rightarrow> 0 | Some d \<Rightarrow> mb_Len d)"

definition getState :: "pipe \<Rightarrow> bool \<Rightarrow> goerr option" where
  "getState p forRead =
     (case pp_state p of
        open_state \<Rightarrow>
          if \<not> forRead \<and> isFull (pp_option p) (mb_Len (pdata p)) then Some ErrBufferFull else None
      | closed_state \<Rightarrow>
          if \<not> forRead then Some ErrClosedPipe
          else if \<not> mb_IsEmpty (pdata p) then None
          else Some EOF
      | errord_state \<Rightarrow> Some ErrClosedPipe)"

definition readMultiBufferInternal :: "pipe \<Rightarrow> pipe \<times> multi_buffer option \<times> goerr option" where
  "readMultiBufferInternal p =
     (case getState p True of
        Some err \<Rightarrow> (p, None, Some err)
      | None \<Rightarrow> (p\<lparr>pp_data := None\<rparr>, pp_data p, None))"

definition writeMultiBufferInternal :: "pipe \<Rightarrow> multi_buffer \<Rightarrow> pipe \<times> goerr option" where
  "writeMultiBufferInternal p mb =
     (case getState p False of
        Some err \<Rightarrow> (p, Some err)
      | None \<Rightarrow>
          (case pp_data p of
             None \<Rightarrow> (p\<lparr>pp_data := Some mb\<rparr>, None)
           | Some d \<Rightarrow> (p\<lparr>pp_data := Some (fst (MergeMulti d mb))\<rparr>, Some ErrSlowDown)))"

definition pipe_Close :: "pipe \<Rightarrow> pipe res" where
  "pipe_Close p =
     (if pp_state p = closed_state \<or> pp_state p = errord_state then Ok p
      else rmap (\<lambda>d. p\<lparr>pp_state := closed_state, pp_done := d\<rparr>) (done_Close (pp_done p)))"

definition Interrupt :: "pipe \<Rightarrow> pools \<Rightarrow> (pipe \<times> pools) res" where
  "Interrupt p ps =
     (if pp_state p = closed_state \<or> pp_state p = errord_state then Ok (p, ps)
      else let p1 = p\<lparr>pp_state := errord_state\<rparr>;
               (p2, ps2) = (if \<not> mb_IsEmpty (pdata p1)
                            then (p1\<lparr>pp_data := None\<rparr>, snd (ReleaseMulti (pdata p1) ps))
                            else (p1, ps))
           in rmap (\<lambda>d. (p2\<lparr>pp_done := d\<rparr>, ps2)) (done_Close (pp_done p2)))"

section \<open>Options and construction\<close>

definition WithoutSizeLimit :: "pipeOption \<Rightarrow> pipeOption" where
  "WithoutSizeLimit opt = opt\<lparr>po_limit := -1\<rparr>"

definition WithSizeLimit :: "int \<Rightarrow> pipeOption \<Rightarrow> pipeOption" where
  "WithSizeLimit limit opt = opt\<lparr>po_limit := limit\<rparr>"

definition DiscardOverflow :: "pipeOption \<Rightarrow> pipeOption" where
  "DiscardOverflow opt = opt\<lparr>po_discardOverflow := True\<rparr>"

text \<open>The argument is the \<open>PerConnection\<close> field of the buffer policy found in the context.\<close>

definition OptionsFromContext :: "int \<Rightarrow> (pipeOption \<Rightarrow> pipeOption) list" where
  "OptionsFromContext perConnection =
     (if perConnection \<ge> 0 then [WithSizeLimit perConnection] else [WithoutSizeLimit])"

definition pipe_New :: "(pipeOption \<Rightarrow> pipeOption) list \<Rightarrow> pipe" where
  "pipe_New opts =
     \<lparr>pp_data = None, pp_readSignal = NewNotifier, pp_writeSignal = NewNotifier,
      pp_done = done_New, pp_errChan = None,
      pp_option = foldl (\<lambda>x opt. opt x) \<lparr>po_limit = -1, po_discardOverflow = False\<rparr> opts,
      pp_state = open_state\<rparr>"

section \<open>Goroutines\<close>

text \<open>
  A reader is about to enter \<open>readMultiBufferInternal\<close> (\<open>RTry\<close>), blocked in the select statement
  (\<open>RSelect\<close>), about to signal the writers before it returns (\<open>RSignal\<close>), or has returned.  The flag
  says whether it runs \<open>ReadMultiBufferTimeout\<close>, whose select has a timer case and no \<open>errChan\<close> case.
\<close>

datatype reader_pc =
    RIdle
  | is_RTry: RTry bool
  | is_RSelect: RSelect bool
  | is_RSignal: RSignal "multi_buffer option" "goerr option"
  | RReturned "multi_buffer option" "goerr option"

datatype writer_pc =
    WIdle
  | is_WTry: WTry multi_buffer
  | is_WSelect: WSelect multi_buffer
  | is_WSignal: WSignal "goerr option"
  | WReturned "goerr option"

definition read_next :: "bool \<Rightarrow> multi_buffer option \<Rightarrow> goerr option \<Rightarrow> reader_pc" where
  "read_next timed d err = (if d \<noteq> None \<or> err \<noteq> None then RSignal d err else RSelect timed)"

definition write_next ::
  "pipeOption \<Rightarrow> multi_buffer \<Rightarrow> goerr option \<Rightarrow> pools \<Rightarrow> writer_pc \<times> pools" where
  "write_next opt mb err ps =
     (if err = None then (WSignal None, ps)
      else if err = Some ErrSlowDown then (WSignal None, ps)
      else if err = Some ErrBufferFull \<and> po_discardOverflow opt
        then (WReturned None, snd (ReleaseMulti mb ps))
      else if err \<noteq> Some ErrBufferFull then (WSignal err, snd (ReleaseMulti mb ps))
      else (WSelect mb, ps))"

record config =
  cf_pipe :: pipe
  cf_readers :: "nat \<Rightarrow> reader_pc"
  cf_writers :: "nat \<Rightarrow> writer_pc"
  cf_pools :: pools
  cf_accepted :: multi_buffer
  cf_delivered :: multi_buffer

datatype pipe_event =
    Read_call nat bool
  | Read_try nat
  | Read_signal nat
  | Read_wake nat
  | Read_done nat
  | Read_err nat
  | Read_timeout nat
  | Write_call nat multi_buffer
  | Write_try nat
  | Write_signal nat
  | Write_wake nat
  | Write_done nat
  | Close_call
  | Interrupt_call
  | Return_error goerr
  | Recover_call

fun reader_idle :: "reader_pc \<Rightarrow> bool" where
  "reader_idle RIdle = True"
| "reader_idle (RReturned d e) = True"
| "reader_idle pc = False"

fun writer_idle :: "writer_pc \<Rightarrow> bool" where
  "writer_idle WIdle = True"
| "writer_idle (WReturned e) = True"
| "writer_idle pc = False"

abbreviation set_reader :: "nat \<Rightarrow> reader_pc \<Rightarrow> config \<Rightarrow> config" where
  "set_reader r pc c \<equiv> c\<lparr>cf_readers := (cf_readers c)(r := pc)\<rparr>"

abbreviation set_writer :: "nat \<Rightarrow> writer_pc \<Rightarrow> config \<Rightarrow> config" where
  "set_writer w pc c \<equiv> c\<lparr>cf_writers := (cf_writers c)(w := pc)\<rparr>"

definition accepted :: "goerr option \<Rightarrow> bool" where
  "accepted err \<longleftrightarrow> err = None \<or> err = Some ErrSlowDown"

text \<open>One atomic section; \<open>None\<close> when the event is not enabled.\<close>

fun reader_step :: "pipe_event \<Rightarrow> config \<Rightarrow> config option" where
  "reader_step (Read_call r timed) c =
     (if reader_idle (cf_readers c r) then Some (set_reader r (RTry timed) c) else None)"
| "reader_step (Read_try r) c =
     (case cf_readers c r of
        RTry timed \<Rightarrow>
          (case readMultiBufferInternal (cf_pipe c) of (p, d, err) \<Rightarrow>
             Some (set_reader r (read_next timed d err)
               (c\<lparr>cf_pipe := p,
                  cf_delivered := cf_delivered c @ (case d of None \<Rightarrow> [] | Some mb \<Rightarrow> mb)\<rparr>)))
      | _ \<Rightarrow> None)"
| "reader_step (Read_signal r) c =
     (case cf_readers c r of
        RSignal d err \<Rightarrow> Some (set_reader r (RReturned d err)
          (c\<lparr>cf_pipe := (cf_pipe c)\<lparr>pp_writeSignal := Signal (pp_writeSignal (cf_pipe c))\<rparr>\<rparr>))
      | _ \<Rightarrow> None)"
| "reader_step (Read_wake r) c =
     (case cf_readers c r of
        RSelect timed \<Rightarrow>
          if pp_readSignal (cf_pipe c)
          then Some (set_reader r (RTry timed) (c\<lparr>cf_pipe := (cf_pipe c)\<lparr>pp_readSignal := False\<rparr>\<rparr>))
          else None
      | _ \<Rightarrow> None)"
| "reader_step (Read_done r) c =
     (case cf_readers c r of
        RSelect timed \<Rightarrow>
          if Done (pp_done (cf_pipe c)) then Some (set_reader r (RTry timed) c) else None
      | _ \<Rightarrow> None)"
| "reader_step (Read_err r) c =
     (case cf_readers c r of
        RSelect timed \<Rightarrow>
          if timed then None
          else (case pp_errChan (cf_pipe c) of
                  None \<Rightarrow> None
                | Some err \<Rightarrow> Some (set_reader r (RReturned None (Some err))
                    (c\<lparr>cf_pipe := (cf_pipe c)\<lparr>pp_errChan := None\<rparr>\<rparr>)))
      | _ \<Rightarrow> None)"
| "reader_step (Read_timeout r) c =
     (case cf_readers c r of
        RSelect timed \<Rightarrow>
          if timed then Some (set_reader r (RReturned None (Some ErrReadTimeout)) c) else None
      | _ \<Rightarrow> None)"
| "reader_step ev c = None"

fun writer_step :: "pipe_event \<Rightarrow> config \<Rightarrow> config option" where
  "writer_step (Write_call w mb) c =
     (if writer_idle (cf_writers c w)
      then Some (set_writer w (if mb_IsEmpty mb then WReturned None else WTry mb) c)
      else None)"
| "writer_step (Write_try w) c =
     (case cf_writers c w of
        WTry mb \<Rightarrow>
          (case writeMultiBufferInternal (cf_pipe c) mb of (p, err) \<Rightarrow>
             (case write_next (pp_option p) mb err (cf_pools c) of (pc, ps) \<Rightarrow>
                Some (set_writer w pc
                  (c\<lparr>cf_pipe := p, cf_pools := ps,
                     cf_accepted := cf_accepted c @ (if accepted err then mb else [])\<rparr>))))
      | _ \<Rightarrow> None)"
| "writer_step (Write_signal w) c =
     (case cf_writers c w of
        WSignal err \<Rightarrow> Some (set_writer w (WReturned err)
          (c\<lparr>cf_pipe := (cf_pipe c)\<lparr>pp_readSignal := Signal (pp_readSignal (cf_pipe c))\<rparr>\<rparr>))
      | _ \<Rightarrow> None)"
| "writer_step (Write_wake w) c =
     (case cf_writers c w of
        WSelect mb \<Rightarrow>
          if pp_writeSignal (cf_pipe c)
          then Some (set_writer w (WTry mb) (c\<lparr>cf_pipe := (cf_pipe c)\<lparr>pp_writeSignal := False\<rparr>\<rparr>))
          else None
      | _ \<Rightarrow> None)"
| "writer_step (Write_done w) c =
     (case cf_writers c w of
        WSelect mb \<Rightarrow>
          if Done (pp_done (cf_pipe c)) then Some (set_writer w (WReturned (Some ErrClosedPipe)) c)
          else None
      | _ \<Rightarrow> None)"
| "writer_step ev c = None"

text \<open>
  \<open>ReturnAnError\<close> blocks while an earlier error waits in the channel of capacity one; \<open>Recover\<close> takes
  a waiting error.
\<close>

fun pipe_step :: "pipe_event \<Rightarrow> config \<Rightarrow> config option" where
  "pipe_step Close_call c =
     (case pipe_Close (cf_pipe c) of Ok p \<Rightarrow> Some (c\<lparr>cf_pipe := p\<rparr>) | _ \<Rightarrow> None)"
| "pipe_step Interrupt_call c =
     (case Interrupt (cf_pipe c) (cf_pools c) of
        Ok (p, ps) \<Rightarrow> Some (c\<lparr>cf_pipe := p, cf_pools := ps\<rparr>) | _ \<Rightarrow> None)"
| "pipe_step (Return_error err) c =
     (if pp_errChan (cf_pipe c) = None
      then Some (c\<lparr>cf_pipe := (cf_pipe c)\<lparr>pp_errChan := Some err\<rparr>\<rparr>) else None)"
| "pipe_step Recover_call c = Some (c\<lparr>cf_pipe := (cf_pipe c)\<lparr>pp_errChan := None\<rparr>\<rparr>)"
| "pipe_step ev c =
     (case reader_step ev c of Some c' \<Rightarrow> Some c' | None \<Rightarrow> writer_step ev c)"

fun pipe_run :: "pipe_event list \<Rightarrow> config \<Rightarrow> config option" where
  "pipe_run [] c = Some c"
| "pipe_run (ev # evs) c = (case pipe_step ev c of None \<Rightarrow> None | Some c' \<Rightarrow> pipe_run evs c')"

definition start_config :: "(pipeOption \<Rightarrow> pipeOption) list \<Rightarrow> pools \<Rightarrow> config" where
  "start_config opts ps =
     \<lparr>cf_pipe = pipe_New opts, cf_readers = (\<lambda>_. RIdle), cf_writers = (\<lambda>_. WIdle), cf_pools = ps,
      cf_accepted = [], cf_delivered = []\<rparr>"

section \<open>Invariants\<close>

lemmas step_splits = option.splits prod.splits reader_pc.splits writer_pc.splits if_splits res.splits
  pstate.splits

lemma pipe_run_inv:
  assumes "pipe_run evs c = Some c'" and "I c"
    and "\<And>ev c c'. ev \<in> set evs \<Longrightarrow> I c \<Longrightarrow> pipe_step ev c = Some c' \<Longrightarrow> I c'"
  shows "I c'"
  using assms
proof (induction evs arbitrary: c)
  case (Cons ev evs)
  then obtain c1 where c1: "pipe_step ev c = Some c1" "pipe_run evs c1 = Some c'"
    by (auto split: option.splits)
  show ?case by (rule Cons.IH [OF c1(2)]) (auto intro: Cons.prems c1(1))
qed simp

definition writers_ok :: "config \<Rightarrow> bool" where
  "writers_ok c \<longleftrightarrow> (\<forall>w mb. cf_writers c w = WTry mb \<or> cf_writers c w = WSelect mb \<longrightarrow> \<not> mb_IsEmpty mb)"

definition data_ok :: "config \<Rightarrow> bool" where
  "data_ok c \<longleftrightarrow> (\<forall>d. pp_data (cf_pipe c) = Some d \<longrightarrow> \<not> mb_IsEmpty d)"

definition done_ok :: "config \<Rightarrow> bool" where
  "done_ok c \<longleftrightarrow> done_wf (pp_done (cf_pipe c)) \<and>
     (Done (pp_done (cf_pipe c)) \<longleftrightarrow> pp_state (cf_pipe c) \<noteq> open_state)"

lemma mb_IsEmpty_append [simp]: "mb_IsEmpty (a @ b) \<longleftrightarrow> mb_IsEmpty a \<and> mb_IsEmpty b"
  by (induction a) simp_all

lemma mb_Len_Nil [simp]: "mb_Len [] = 0"
  by (simp add: mb_Len_def)

lemma not_full_nil [simp]: "pp_data p = None \<Longrightarrow> isFull opt (mb_Len (pdata p)) = False"
  by (simp add: isFull_def pdata_def)

lemmas section_defs = readMultiBufferInternal_def writeMultiBufferInternal_def getState_def
  pipe_Close_def Interrupt_def read_next_def write_next_def Signal_def

lemma writers_ok_step: "writers_ok c \<Longrightarrow> pipe_step ev c = Some c' \<Longrightarrow> writers_ok c'"
  by (cases ev) (auto simp: writers_ok_def section_defs Let_def split: step_splits)

lemma data_ok_step:
  "data_ok c \<Longrightarrow> writers_ok c \<Longrightarrow> pipe_step ev c = Some c' \<Longrightarrow> data_ok c'"
  by (cases ev) (auto simp: data_ok_def writers_ok_def section_defs MergeMulti_def
    done_Close_def Let_def split: step_splits)

lemma done_ok_step: "done_ok c \<Longrightarrow> pipe_step ev c = Some c' \<Longrightarrow> done_ok c'"
  by (cases ev) (auto simp: done_ok_def section_defs done_wf_def Done_def
    done_Close_def Let_def split: step_splits)

text \<open>Whoever is blocked has a wake-up pending or on its way.\<close>

definition reader_wakeup :: "config \<Rightarrow> bool" where
  "reader_wakeup c \<longleftrightarrow> pp_readSignal (cf_pipe c) \<or> (\<exists>w. is_WSignal (cf_writers c w)) \<or>
     (\<exists>r. is_RTry (cf_readers c r))"

definition writer_wakeup :: "config \<Rightarrow> bool" where
  "writer_wakeup c \<longleftrightarrow> pp_writeSignal (cf_pipe c) \<or> (\<exists>r. is_RSignal (cf_readers c r)) \<or>
     (\<exists>w. is_WTry (cf_writers c w))"

definition readers_inv :: "config \<Rightarrow> bool" where
  "readers_inv c \<longleftrightarrow>
     (pp_data (cf_pipe c) \<noteq> None \<and> pp_state (cf_pipe c) = open_state \<and>
        (\<exists>r. is_RSelect (cf_readers c r)) \<longrightarrow> reader_wakeup c)"

definition writers_inv :: "config \<Rightarrow> bool" where
  "writers_inv c \<longleftrightarrow>
     (pp_data (cf_pipe c) = None \<and> pp_state (cf_pipe c) = open_state \<and>
        (\<exists>w. is_WSelect (cf_writers c w)) \<longrightarrow> writer_wakeup c)"

lemma ex_fun_upd_iff: "\<not> P (f i) \<Longrightarrow>  (\<exists>j. P ((f(i := y)) j)) \<longleftrightarrow> P y \<or> (\<exists>j. P (f j))"
  by (auto)

lemma ex_fun_upd_I: "P y \<Longrightarrow> (\<exists>j. P ((f(i := y)) j)) = True"
  by (auto split: if_splits)

lemma idle_simps [simp]: "reader_idle pc \<Longrightarrow> \<not> is_RTry pc" "reader_idle pc \<Longrightarrow> \<not> is_RSelect pc"
 "reader_idle pc \<Longrightarrow> \<not> is_RSignal pc"
  by (cases pc; simp)+

lemma widle_simps [simp]: "writer_idle pc \<Longrightarrow> \<not> is_WTry pc" "writer_idle pc \<Longrightarrow> \<not> is_WSelect pc"
 "writer_idle pc \<Longrightarrow> \<not> is_WSignal pc"
  by (cases pc; simp)+

lemma pipe_Close_state: "pipe_Close p = Ok p' \<Longrightarrow> p' = p \<or> pp_state p' \<noteq> open_state"
  by (cases "done_Close (pp_done p)") (auto simp: pipe_Close_def split: if_splits)

lemma Interrupt_state: "Interrupt p ps = Ok (p', ps') \<Longrightarrow> p' = p \<or> pp_state p' \<noteq> open_state"
  by (cases "done_Close (pp_done p)") (auto simp: Interrupt_def Let_def split: if_splits)

lemmas try_defs = readMultiBufferInternal_def writeMultiBufferInternal_def getState_def
  read_next_def write_next_def Signal_def

lemma readers_inv_step:
  assumes "readers_inv c"
  shows "pred_option readers_inv (pipe_step ev c)"
  using assms
  apply (cases ev)
  apply (simp_all add: readers_inv_def reader_wakeup_def try_defs ex_fun_upd_iff ex_fun_upd_I
    split: step_splits del: fun_upd_apply)
  apply (auto dest: pipe_Close_state Interrupt_state split: if_splits)
  done

lemma writers_inv_step:
  assumes "writers_inv c"
  shows "pred_option writers_inv (pipe_step ev c)"
  using assms
  apply (cases ev)
  apply (simp_all add: writers_inv_def writer_wakeup_def try_defs ex_fun_upd_iff ex_fun_upd_I
    split: step_splits del: fun_upd_apply)
  apply (auto dest: pipe_Close_state Interrupt_state split: if_splits)
  done

definition fifo_inv :: "config \<Rightarrow> bool" where
  "fifo_inv c \<longleftrightarrow> (if pp_state (cf_pipe c) = errord_state
      then prefix (cf_delivered c) (cf_accepted c)
      else cf_accepted c = cf_delivered c @ pdata (cf_pipe c))"

lemma read_fifo:
  "readMultiBufferInternal p = (p', d, err) \<Longrightarrow>
     pp_state p' = pp_state p \<and> pdata p = (case d of None \<Rightarrow> [] | Some mb \<Rightarrow> mb) @ pdata p' \<and>
     (pp_state p = errord_state \<longrightarrow> d = None)"
  by (auto simp: readMultiBufferInternal_def getState_def pdata_def split: option.splits pstate.splits if_splits)

lemma write_fifo:
  "writeMultiBufferInternal p mb = (p', err) \<Longrightarrow>
     pp_state p' = pp_state p \<and> pdata p' = pdata p @ (if accepted err then mb else []) \<and>
     (pp_state p = errord_state \<longrightarrow> \<not> accepted err)"
  by (auto simp: writeMultiBufferInternal_def getState_def pdata_def accepted_def MergeMulti_def
    split: option.splits pstate.splits if_splits)

lemma fifo_inv_step:
  assumes "fifo_inv c" "data_ok c" "pipe_step ev c = Some c'"
  shows "fifo_inv c'"
proof -
  note ok = assms(1) [unfolded fifo_inv_def]
  consider "ev = Close_call \<or> ev = Interrupt_call" | (rt) r where "ev = Read_try r" | (wt) w where "ev = Write_try w"
    | "pp_state (cf_pipe c') = pp_state (cf_pipe c)" "pdata (cf_pipe c') = pdata (cf_pipe c)"
      "cf_accepted c' = cf_accepted c" "cf_delivered c' = cf_delivered c"
   using assms(3) by (cases ev) (auto simp: pdata_def split: step_splits)
  then show ?thesis
  proof cases
    case 1
    then show ?thesis using assms
      by (cases "done_Close (pp_done (cf_pipe c))")
        (auto simp: fifo_inv_def pipe_Close_def Interrupt_def pdata_def Let_def data_ok_def split: step_splits)
  next
    case rt
    then show ?thesis using assms(3) ok
      by (auto simp: fifo_inv_def dest!: read_fifo split: reader_pc.splits prod.splits if_splits)
  next
    case wt
    then show ?thesis using assms(3) ok
      by (auto simp: fifo_inv_def dest!: write_fifo split: writer_pc.splits prod.splits if_splits)
  next
    case 4
    then show ?thesis using ok by (simp add: fifo_inv_def)
  qed
qed

definition bound_inv :: "int \<Rightarrow> nat \<Rightarrow> config \<Rightarrow> bool" where
  "bound_inv lim m c \<longleftrightarrow> po_limit (pp_option (cf_pipe c)) = lim \<and> mb_wf (pdata (cf_pipe c)) \<and>
     int (length (mb_content (pdata (cf_pipe c)))) \<le> lim + int m \<and>
     (\<forall>w mb. cf_writers c w = WTry mb \<or> cf_writers c w = WSelect mb \<longrightarrow>
        mb_wf mb \<and> length (mb_content mb) \<le> m)"

definition event_ok :: "nat \<Rightarrow> pipe_event \<Rightarrow> bool" where
  "event_ok m ev \<longleftrightarrow> (\<forall>w mb. ev = Write_call w mb \<longrightarrow> mb_wf mb \<and> length (mb_content mb) \<le> m)"

lemma write_bound:
  assumes "mb_wf (pdata p)" "mb_wf mb" "length (mb_content mb) \<le> m" "0 \<le> po_limit (pp_option p)"
    and "int (length (mb_content (pdata p))) \<le> po_limit (pp_option p) + int m"
    and "po_limit (pp_option p) + int m < 2147483648"
    and "writeMultiBufferInternal p mb = (p', err)"
  shows "pp_option p' = pp_option p \<and> mb_wf (pdata p') \<and>
    int (length (mb_content (pdata p'))) \<le> po_limit (pp_option p) + int m"
proof (cases "getState p False")
  case None
  have "mb_Len (pdata p) = int (length (mb_content (pdata p)))"
   using assms by (intro mb_Len_content) simp_all
  then have "int (length (mb_content (pdata p))) \<le> po_limit (pp_option p)"
   using None assms(4) by (auto simp: getState_def isFull_def split: pstate.splits if_splits)
  then show ?thesis
   using assms None
    by (auto simp: writeMultiBufferInternal_def pdata_def MergeMulti_def split: option.splits)
qed (use assms in \<open>auto simp: writeMultiBufferInternal_def\<close>)

lemma write_next_pc:
  "write_next opt mb err ps = (pc, ps') \<Longrightarrow> pc = WTry mb' \<or> pc = WSelect mb' \<Longrightarrow> mb' = mb"
  by (auto simp: write_next_def split: if_splits)

lemma read_bound:
  "readMultiBufferInternal p = (p', d, err) \<Longrightarrow> mb_wf (pdata p) \<Longrightarrow>
    pp_option p' = pp_option p \<and> mb_wf (pdata p') \<and>
    length (mb_content (pdata p')) \<le> length (mb_content (pdata p))"
  by (auto simp: readMultiBufferInternal_def pdata_def split: option.splits)

lemma close_bound:
  "pipe_Close p = Ok p' \<Longrightarrow> pp_option p' = pp_option p \<and> pp_data p' = pp_data p"
  by (cases "done_Close (pp_done p)") (auto simp: pipe_Close_def split: if_splits)

lemma interrupt_bound:
  "Interrupt p ps = Ok (p', ps') \<Longrightarrow>
     pp_option p' = pp_option p \<and> (pp_data p' = pp_data p \<or> pp_data p' = None)"
  by (cases "done_Close (pp_done p)") (auto simp: Interrupt_def Let_def split: if_splits)

lemma bound_inv_writer:
  assumes "bound_inv lim m c" "0 \<le> lim" "lim + int m < 2147483648" "event_ok m ev" "writer_step ev c = Some c'"
  shows "bound_inv lim m c'"
proof (cases ev)
  case (Write_try w)
  then obtain mb p err pc ps where *: "cf_writers c w = WTry mb"
    "writeMultiBufferInternal (cf_pipe c) mb = (p, err)" "write_next (pp_option p) mb err (cf_pools c) = (pc, ps)"
    "c' = set_writer w pc (c\<lparr>cf_pipe := p, cf_pools := ps, cf_accepted := cf_accepted c @ (if accepted err then mb else [])\<rparr>)"
   using assms(5) by (auto split: writer_pc.splits prod.splits)
  have mb: "mb_wf mb" "length (mb_content mb) \<le> m"
   using assms(1) *(1) by (auto simp: bound_inv_def)
  show ?thesis
   using write_bound [OF _ mb, of "cf_pipe c" p err] assms(1-3) *  write_next_pc [OF *(3)] mb
    by (simp add: bound_inv_def) metis
qed (use assms in \<open>auto simp: bound_inv_def event_ok_def pdata_def split: writer_pc.splits if_splits\<close>)


lemma bound_inv_step:
  assumes "bound_inv lim m c" "0 \<le> lim" "lim + int m < 2147483648" "event_ok m ev"
    and "pipe_step ev c = Some c'"
  shows "bound_inv lim m c'"
proof -
  consider "writer_step ev c = Some c'" | r where "ev = Read_try r"
    | "ev = Close_call \<or> ev = Interrupt_call"
    | "pp_option (cf_pipe c') = pp_option (cf_pipe c)" "pp_data (cf_pipe c') = pp_data (cf_pipe c)"
      "cf_writers c' = cf_writers c"
    using assms(5) by (cases ev) (auto split: step_splits)
  then show ?thesis
  proof cases
    case 1
    then show ?thesis using bound_inv_writer assms by blast
  next
    case (2 r)
    then show ?thesis using assms(1,5)
      by (auto simp: bound_inv_def dest!: read_bound split: reader_pc.splits prod.splits)
  next
    case 3
    then show ?thesis using assms(1-3,5)
      by (auto simp: bound_inv_def pdata_def dest!: close_bound interrupt_bound split: res.splits)
  qed (use assms(1) in \<open>simp add: bound_inv_def pdata_def\<close>)
qed

definition pipe_inv :: "config \<Rightarrow> bool" where
  "pipe_inv c \<longleftrightarrow> writers_ok c \<and> data_ok c \<and> done_ok c \<and> readers_inv c \<and> writers_inv c \<and> fifo_inv c"

lemma pipe_inv_run:
  assumes "pipe_run evs (start_config opts ps) = Some c"
  shows "pipe_inv c"
proof (rule pipe_run_inv [OF assms])
  show "pipe_inv (start_config opts ps)"
    by (simp add: pipe_inv_def start_config_def pipe_New_def writers_ok_def data_ok_def done_ok_def
      done_New_def done_wf_def Done_def readers_inv_def writers_inv_def fifo_inv_def pdata_def)
next
  fix ev c c' assume "pipe_inv c" and step: "pipe_step ev c = Some c'"
  then have "readers_inv c'" "writers_inv c'"
    using readers_inv_step [of c ev] writers_inv_step [of c ev] by (simp_all add: pipe_inv_def)
  then show "pipe_inv c'"
    using \<open>pipe_inv c\<close> step writers_ok_step data_ok_step done_ok_step fifo_inv_step
    unfolding pipe_inv_def by blast
qed

section \<open>Properties\<close>

text \<open>
  C7. Pipes deliver in order and lose nothing: whatever readers and writers do in whatever
  interleaving, the accepted buffers are the delivered ones followed by the ones still queued.  Only
  \<open>Interrupt\<close> may drop queued buffers, and then the delivered ones are still a prefix.
\<close>

theorem pipe_fifo:
  assumes "pipe_run evs (start_config opts ps) = Some c"
  shows "prefix (cf_delivered c) (cf_accepted c) \<and>
    (pp_state (cf_pipe c) \<noteq> errord_state \<longrightarrow> cf_accepted c = cf_delivered c @ pdata (cf_pipe c))"
  using pipe_inv_run [OF assms] by (auto simp: pipe_inv_def fifo_inv_def split: if_splits)

definition one_byte :: multi_buffer where
  "one_byte = [append_at_end (New []) [7]]"

lemma one_byte_simps [simp]: "\<not> mb_IsEmpty one_byte" "mb_wf one_byte" "mb_content one_byte = [7]"
  using append_at_end_content [of "New []" "[7]"] New_wf [of "[]"] mb_IsEmpty_content [of one_byte]
  by (simp_all add: one_byte_def)

lemma one_byte_run:
  "\<exists>c. pipe_run [Write_call 0 one_byte, Write_try 0, Read_call 0 False, Read_try 0]
     (start_config [] ps) = Some c \<and> cf_delivered c = one_byte"
  by (simp add: start_config_def pipe_New_def writeMultiBufferInternal_def getState_def isFull_def
    write_next_def readMultiBufferInternal_def pdata_def accepted_def)

theorem pipe_fifo_witness:
  "\<exists>c. pipe_run [Write_call 0 one_byte, Write_try 0, Read_call 0 False, Read_try 0]
     (start_config [] pools_init) = Some c \<and> prefix one_byte (cf_accepted c)"
  using one_byte_run [of pools_init] pipe_fifo by metis

text \<open>
  A configuration is quiescent when no goroutine can go on by itself: no read or write call is between
  two blocking points and no select has a ready channel (other than a timer or an injected error).
\<close>

definition quiescent :: "config \<Rightarrow> bool" where
  "quiescent c \<longleftrightarrow> (\<forall>i. \<forall>ev \<in> {Read_try i, Read_signal i, Read_wake i, Read_done i,
     Write_try i, Write_signal i, Write_wake i, Write_done i}. pipe_step ev c = None)"

lemma quiescent_simps:
  assumes "quiescent c"
  shows "\<not> is_RTry (cf_readers c i)" "\<not> is_RSignal (cf_readers c i)" "\<not> is_WTry (cf_writers c i)"
    "\<not> is_WSignal (cf_writers c i)"
    and "is_RSelect (cf_readers c i) \<Longrightarrow> \<not> pp_readSignal (cf_pipe c) \<and> \<not> Done (pp_done (cf_pipe c))"
    and "is_WSelect (cf_writers c i) \<Longrightarrow> \<not> pp_writeSignal (cf_pipe c) \<and> \<not> Done (pp_done (cf_pipe c))"
  using assms [unfolded quiescent_def, rule_format, of _ i]
  by (cases "cf_readers c i"; cases "cf_writers c i"; fastforce split: prod.splits)+

text \<open>
  C34. No wake-up is lost: when no goroutine can go on, a reader that is still blocked waits for a pipe
  that is open and empty, and a blocked writer for one that is open and holds data.  In particular a
  reader and a writer are never blocked on each other.
\<close>

theorem pipe_no_lost_wakeup:
  assumes "pipe_run evs (start_config opts ps) = Some c" and "quiescent c"
  shows "(is_RSelect (cf_readers c r) \<longrightarrow>
            pp_state (cf_pipe c) = open_state \<and> pp_data (cf_pipe c) = None) \<and>
         (is_WSelect (cf_writers c w) \<longrightarrow>
            pp_state (cf_pipe c) = open_state \<and> pp_data (cf_pipe c) \<noteq> None)"
  using pipe_inv_run [OF assms(1)] quiescent_simps [OF assms(2)]
  unfolding pipe_inv_def done_ok_def readers_inv_def writers_inv_def reader_wakeup_def
    writer_wakeup_def by metis

theorem pipe_no_lost_wakeup_witness:
  "\<exists>c. pipe_run [Read_call 0 False, Read_try 0] (start_config [] pools_init) = Some c \<and>
     is_RSelect (cf_readers c 0) \<and> pp_data (cf_pipe c) = None"
proof -
  obtain c where c: "pipe_run [Read_call 0 False, Read_try 0] (start_config [] pools_init) = Some c"
    "is_RSelect (cf_readers c 0)" "quiescent c"
    by (simp add: start_config_def pipe_New_def getState_def isFull_def read_next_def quiescent_def
      readMultiBufferInternal_def pdata_def NewNotifier_def done_New_def Done_def split: reader_pc.splits)
  then show ?thesis using pipe_no_lost_wakeup [OF c(1,3), of 0 0] by blast
qed

text \<open>
  C35. Back pressure works: in a pipe created with a size limit, through which only writes of at most
  \<open>m\<close> bytes go, there are never more than \<open>limit + m\<close> bytes queued.
\<close>

theorem pipe_bounded:
  assumes "pipe_run evs (start_config [WithSizeLimit lim] ps) = Some c"
    and "0 \<le> lim" and "lim + int m < 2147483648" and "list_all (event_ok m) evs"
  shows "int (length (mb_content (pdata (cf_pipe c)))) \<le> lim + int m"
proof -
  have "bound_inv lim m (start_config [WithSizeLimit lim] ps)"
    using assms(2) by (simp add: bound_inv_def start_config_def pipe_New_def WithSizeLimit_def pdata_def)
  with assms(1) have "bound_inv lim m c"
    by (rule pipe_run_inv) (use assms(2-4) bound_inv_step in \<open>auto simp: list_all_iff\<close>)
  then show ?thesis by (simp add: bound_inv_def)
qed

theorem pipe_bounded_witness:
  "\<exists>c. pipe_run [Write_call 0 one_byte, Write_try 0] (start_config [WithSizeLimit 512] pools_init) = Some c \<and>
     int (length (mb_content (pdata (cf_pipe c)))) \<le> 512 + int 1"
proof -
  have "\<exists>c. pipe_run [Write_call 0 one_byte, Write_try 0]
      (start_config [WithSizeLimit 512] pools_init) = Some c"
    by (simp add: start_config_def split: prod.splits)
  then obtain c where c: "pipe_run [Write_call 0 one_byte, Write_try 0]
      (start_config [WithSizeLimit 512] pools_init) = Some c" by blast
  have "list_all (event_ok 1) [Write_call 0 one_byte, Write_try 0]"
    by (simp add: event_ok_def)
  then show ?thesis using pipe_bounded [OF c, of 1] c by simp
qed

text \<open>
  \<open>Close\<close> on an open pipe succeeds without a panic and shuts the writers out at once, while the
  reader first gets what is queued, and \<open>io.EOF\<close> from then on.
\<close>

theorem pipe_Close_drains:
  assumes "pipe_run evs (start_config opts ps) = Some c" and "pp_state (cf_pipe c) = open_state"
  shows "\<exists>p. pipe_Close (cf_pipe c) = Ok p \<and>
    writeMultiBufferInternal p mb = (p, Some ErrClosedPipe) \<and>
    (let (p1, d, err) = readMultiBufferInternal p in
       d = pp_data (cf_pipe c) \<and> (err = (if d = None then Some EOF else None)) \<and>
       readMultiBufferInternal p1 = (p1, None, Some EOF))"
proof -
  have inv: "done_ok c" "data_ok c" using pipe_inv_run [OF assms(1)] by (simp_all add: pipe_inv_def)
  then obtain d where "done_Close (pp_done (cf_pipe c)) = Ok d"
    using assms(2) by (auto simp: done_ok_def Done_def done_wf_def done_Close_def)
  then show ?thesis
    using assms(2) inv(2)
    by (auto simp: pipe_Close_def writeMultiBufferInternal_def readMultiBufferInternal_def getState_def
      pdata_def data_ok_def split: option.splits)
qed

theorem pipe_Close_drains_witness:
  "\<exists>p. pipe_Close (pipe_New []) = Ok p \<and> writeMultiBufferInternal p one_byte = (p, Some ErrClosedPipe)"
proof -
  have "pipe_run [] (start_config [] pools_init) = Some (start_config [] pools_init)" by simp
  then show ?thesis
    using pipe_Close_drains [of "[]" "[]" pools_init "start_config [] pools_init" one_byte]
    by (auto simp: start_config_def pipe_New_def)
qed

end
