(* ===== verification/MuxSession.thy ===== *)
theory MuxSession
  imports Pipe "HOL-Library.AList" "HOL-Library.Multiset"
begin

text \<open>
  Mux session bookkeeping (\<open>common/mux/session.go\<close>) and the choice of a mux connection for a new
  session (\<open>ClientWorker\<close>, \<open>IncrementalWorkerPicker\<close> and \<open>ClientManager\<close> in
  \<open>common/mux/client.go\<close>).  Sessions, managers, XUDP entries and workers are shared by reference in the
  code, so they live in a store here and the maps hold references.  A Go map is an association list with
  distinct keys.  Closing a pipe end is recorded in the session, and so is
  whether its input is a pipe, which \<open>Close\<close> asserts of it.
\<close>

section \<open>Sessions and their manager\<close>

datatype xudp_status = Initializing | Active | Expiring

record mux_session =
  ms_ID :: u16
  ms_parent :: "nat option"
  ms_closed :: bool
  ms_XUDP :: "nat option"
  ms_in_pipe :: bool
  ms_in_interrupted :: bool
  ms_out_closed :: bool
  ms_in_eof :: bool

record session_manager =
  sm_sessions :: "(u16 \<times> nat) list"
  sm_count :: u16
  sm_closed :: bool

record xudp =
  xu_GlobalID :: bytes
  xu_Status :: xudp_status
  xu_Expire :: int
  xu_Mux :: "nat option"

record mux_store =
  st_mgr :: "nat \<Rightarrow> session_manager"
  st_sess :: "nat \<Rightarrow> mux_session"
  st_next :: nat
  st_xudp :: "nat \<Rightarrow> xudp"
  st_xmap :: "(bytes \<times> nat) list"

definition NewSessionManager :: session_manager where
  "NewSessionManager = \<lparr>sm_sessions = [], sm_count = 0, sm_closed = False\<rparr>"

definition sm_Closed :: "session_manager \<Rightarrow> bool" where
  "sm_Closed m = sm_closed m"

definition sm_Size :: "session_manager \<Rightarrow> int" where
  "sm_Size m = int (length (sm_sessions m))"

definition sm_Count :: "session_manager \<Rightarrow> int" where
  "sm_Count m = uint (sm_count m)"

record ClientStrategy =
  cs_MaxConcurrency :: u32
  cs_MaxConnection :: u32

definition set_mgr :: "nat \<Rightarrow> session_manager \<Rightarrow> mux_store \<Rightarrow> mux_store" where
  "set_mgr m x st = st\<lparr>st_mgr := (st_mgr st)(m := x)\<rparr>"

definition set_sess :: "nat \<Rightarrow> mux_session \<Rightarrow> mux_store \<Rightarrow> mux_store" where
  "set_sess r x st = st\<lparr>st_sess := (st_sess st)(r := x)\<rparr>"

definition cannot_allocate :: "session_manager \<Rightarrow> ClientStrategy \<Rightarrow> bool" where
  "cannot_allocate m strat \<longleftrightarrow>
     (let maxConcurrency = uint (cs_MaxConcurrency strat);
          maxConnection = (ucast (cs_MaxConnection strat) :: u16) in
      sm_closed m \<or> (maxConcurrency > 0 \<and> sm_Size m \<ge> maxConcurrency) \<or>
      (maxConnection > 0 \<and> sm_count m \<ge> maxConnection))"

definition Allocate :: "nat \<Rightarrow> ClientStrategy \<Rightarrow> mux_store \<Rightarrow> mux_store \<times> nat option" where
  "Allocate m strat st =
     (let mg = st_mgr st m in
      if cannot_allocate mg strat then (st, None)
      else
        (let c = sm_count mg + 1;
             r = st_next st;
             s = \<lparr>ms_ID = c, ms_parent = Some m, ms_closed = False, ms_XUDP = None, ms_in_pipe = True,
                  ms_in_interrupted = False, ms_out_closed = False, ms_in_eof = False\<rparr>;
             mg' = mg\<lparr>sm_count := c, sm_sessions := AList.update c r (sm_sessions mg)\<rparr> in
         (set_mgr m mg' (set_sess r s (st\<lparr>st_next := r + 1\<rparr>)), Some r)))"

definition Add :: "nat \<Rightarrow> nat \<Rightarrow> mux_store \<Rightarrow> mux_store \<times> bool" where
  "Add m r st =
     (let mg = st_mgr st m in
      if sm_closed mg then (st, False)
      else (set_mgr m (mg\<lparr>sm_count := sm_count mg + 1,
                          sm_sessions := AList.update (ms_ID (st_sess st r)) r (sm_sessions mg)\<rparr>) st,
            True))"

definition Remove :: "nat \<Rightarrow> u16 \<Rightarrow> mux_store \<Rightarrow> mux_store" where
  "Remove m i st =
     (let mg = st_mgr st m in
      if sm_closed mg then st
      else set_mgr m (mg\<lparr>sm_sessions := AList.delete i (sm_sessions mg)\<rparr>) st)"

definition Get :: "nat \<Rightarrow> u16 \<Rightarrow> mux_store \<Rightarrow> nat option" where
  "Get m i st = (let mg = st_mgr st m in if sm_closed mg then None else map_of (sm_sessions mg) i)"

definition CloseIfNoSession :: "nat \<Rightarrow> mux_store \<Rightarrow> mux_store \<times> bool" where
  "CloseIfNoSession m st =
     (let mg = st_mgr st m in
      if sm_closed mg then (st, True)
      else if sm_sessions mg \<noteq> [] then (st, False)
      else (set_mgr m (mg\<lparr>sm_closed := True\<rparr>) st, True))"

text \<open>
  \<open>Session.Close\<close> at time \<open>now\<close> (in nanoseconds): a plain session closes its pipe ends, one with an XUDP
  entry stops its reader and parks the entry for a minute.  A nil parent makes the code panic.
\<close>

definition minute :: int where
  "minute = 60000000000"

definition session_Close :: "int \<Rightarrow> nat \<Rightarrow> mux_store \<Rightarrow> mux_store res" where
  "session_Close now r st =
     (let s = st_sess st r in
      case ms_parent s of
        None \<Rightarrow> Panic ''nil pointer dereference''
      | Some m \<Rightarrow>
          if ms_closed s then Ok st
          else if ms_XUDP s \<noteq> None \<and> \<not> ms_in_pipe s then Panic ''interface conversion''
          else
            (let st1 =
               (case ms_XUDP s of
                  None \<Rightarrow> set_sess r (s\<lparr>ms_closed := True, ms_in_interrupted := True, ms_out_closed := True\<rparr>) st
                | Some x \<Rightarrow>
                    (let st' = set_sess r (s\<lparr>ms_closed := True, ms_in_eof := True\<rparr>) st in
                     if xu_Status (st_xudp st x) = Active
                     then st'\<lparr>st_xudp := (st_xudp st')(x := (st_xudp st' x)
                                \<lparr>xu_Expire := now + minute, xu_Status := Expiring\<rparr>)\<rparr>
                     else st')) in
             Ok (Remove m (ms_ID s) st1)))"

fun close_sessions :: "int \<Rightarrow> (u16 \<times> nat) list \<Rightarrow> mux_store \<Rightarrow> mux_store res" where
  "close_sessions now [] st = Ok st"
| "close_sessions now ((i, r) # ss) st = rbind (session_Close now r st) (close_sessions now ss)"

definition manager_Close :: "int \<Rightarrow> nat \<Rightarrow> mux_store \<Rightarrow> mux_store res" where
  "manager_Close now m st =
     (let mg = st_mgr st m in
      if sm_closed mg then Ok st
      else
        rmap (\<lambda>st'. set_mgr m ((st_mgr st' m)\<lparr>sm_sessions := []\<rparr>) st')
          (close_sessions now (sm_sessions mg) (set_mgr m (mg\<lparr>sm_closed := True\<rparr>) st)))"

definition XUDP_Interrupt :: "nat \<Rightarrow> mux_store \<Rightarrow> mux_store res" where
  "XUDP_Interrupt x st =
     (case xu_Mux (st_xudp st x) of
        None \<Rightarrow> Panic ''nil pointer dereference''
      | Some r \<Rightarrow> Ok (set_sess r ((st_sess st r)\<lparr>ms_in_interrupted := True, ms_out_closed := True\<rparr>) st))"

text \<open>One round of the goroutine that removes expired XUDP entries.\<close>

fun expire_entries :: "int \<Rightarrow> (bytes \<times> nat) list \<Rightarrow> mux_store \<Rightarrow> mux_store res" where
  "expire_entries now [] st = Ok st"
| "expire_entries now ((gid, x) # es) st =
     (if xu_Status (st_xudp st x) = Expiring \<and> now > xu_Expire (st_xudp st x)
      then rbind (XUDP_Interrupt x st)
             (\<lambda>st1. expire_entries now es (st1\<lparr>st_xmap := AList.delete gid (st_xmap st1)\<rparr>))
      else expire_entries now es st)"

definition xudp_cleanup :: "int \<Rightarrow> mux_store \<Rightarrow> mux_store res" where
  "xudp_cleanup now st = expire_entries now (st_xmap st) st"

section \<open>The sessions of a client connection\<close>

text \<open>
  What the goroutines of a \<open>ClientWorker\<close> do with its manager: allocate, close a session they got
  earlier, close the manager when idle, close everything.
\<close>

datatype client_op = Op_Allocate | Op_Close nat | Op_CloseIfNoSession | Op_CloseAll

fun client_step :: "nat \<Rightarrow> ClientStrategy \<Rightarrow> client_op \<Rightarrow> mux_store \<Rightarrow> mux_store res" where
  "client_step m strat Op_Allocate st = Ok (fst (Allocate m strat st))"
| "client_step m strat (Op_Close r) st = (if r < st_next st then session_Close 0 r st else Ok st)"
| "client_step m strat Op_CloseIfNoSession st = Ok (fst (CloseIfNoSession m st))"
| "client_step m strat Op_CloseAll st = manager_Close 0 m st"

fun client_run :: "nat \<Rightarrow> ClientStrategy \<Rightarrow> client_op list \<Rightarrow> mux_store \<Rightarrow> mux_store res" where
  "client_run m strat [] st = Ok st"
| "client_run m strat (op # ops) st = rbind (client_step m strat op st) (client_run m strat ops)"

definition empty_store :: mux_store where
  "empty_store = \<lparr>st_mgr = (\<lambda>_. NewSessionManager),
     st_sess = (\<lambda>_. \<lparr>ms_ID = 0, ms_parent = None, ms_closed = False, ms_XUDP = None, ms_in_pipe = True,
       ms_in_interrupted = False, ms_out_closed = False, ms_in_eof = False\<rparr>),
     st_next = 0,
     st_xudp = (\<lambda>_. \<lparr>xu_GlobalID = [], xu_Status = Initializing, xu_Expire = 0, xu_Mux = None\<rparr>),
     st_xmap = []\<rparr>"

definition sessions_ok :: "nat \<Rightarrow> mux_store \<Rightarrow> bool" where
  "sessions_ok m st \<longleftrightarrow> (\<forall>r < st_next st.
     ms_parent (st_sess st r) = Some m \<and> ms_XUDP (st_sess st r) = None \<and>
     ms_ID (st_sess st r) \<le> sm_count (st_mgr st m) \<and>
     (\<forall>r' < st_next st. ms_ID (st_sess st r') = ms_ID (st_sess st r) \<longrightarrow> r' = r))"

definition map_ok :: "nat \<Rightarrow> mux_store \<Rightarrow> bool" where
  "map_ok m st \<longleftrightarrow> distinct (map fst (sm_sessions (st_mgr st m))) \<and>
     (\<forall>i r. Get m i st = Some r \<longleftrightarrow>
        r < st_next st \<and> ms_ID (st_sess st r) = i \<and> \<not> ms_closed (st_sess st r))"

definition limits_ok :: "nat \<Rightarrow> ClientStrategy \<Rightarrow> mux_store \<Rightarrow> bool" where
  "limits_ok m strat st \<longleftrightarrow> sm_count (st_mgr st m) \<le> (ucast (cs_MaxConnection strat) :: u16) \<and>
     (cs_MaxConcurrency strat > 0 \<longrightarrow> sm_Size (st_mgr st m) \<le> uint (cs_MaxConcurrency strat))"

definition client_inv :: "nat \<Rightarrow> ClientStrategy \<Rightarrow> mux_store \<Rightarrow> bool" where
  "client_inv m strat st \<longleftrightarrow> sessions_ok m st \<and> map_ok m st \<and> limits_ok m strat st"

lemma set_mgr_simps [simp]:
  "st_mgr (set_mgr m x st) = (st_mgr st)(m := x)" "st_sess (set_mgr m x st) = st_sess st"
  "st_next (set_mgr m x st) = st_next st"
  by (simp_all add: set_mgr_def)

lemma set_sess_simps [simp]:
  "st_mgr (set_sess r x st) = st_mgr st" "st_sess (set_sess r x st) = (st_sess st)(r := x)"
  "st_next (set_sess r x st) = st_next st"
  by (simp_all add: set_sess_def)

lemma length_AList_update: "length (AList.update k x al) \<le> Suc (length al)"
  by (induction al) auto

lemma word_inc:
  fixes c :: u16
  assumes "c < n"
  shows "c < c + 1" "c + 1 \<le> n"
proof -
  have "unat n < 2 ^ LENGTH(16)" by (rule unsigned_less)
  then have "unat c + 1 < 65536" using assms by (simp add: word_less_nat_alt)
  then have "unat (c + 1) = unat c + 1" by (simp add: unat_word_ariths)
  then show "c < c + 1" "c + 1 \<le> n" using assms by (simp_all add: word_less_nat_alt word_le_nat_alt)
qed

lemma Allocate_inv:
  assumes "client_inv m strat st" and "(ucast (cs_MaxConnection strat) :: u16) > 0"
  shows "client_inv m strat (fst (Allocate m strat st))"
proof (cases "cannot_allocate (st_mgr st m) strat")
  case True
  then show ?thesis using assms(1) by (simp add: Allocate_def)
next
  case False
  let ?mg = "st_mgr st m" and ?st = "fst (Allocate m strat st)" and ?c = "sm_count (st_mgr st m) + 1"
  have op: "\<not> sm_closed ?mg" and lt: "sm_count ?mg < (ucast (cs_MaxConnection strat) :: u16)"
    using False assms(2) by (auto simp: cannot_allocate_def Let_def not_le)
  have sz: "cs_MaxConcurrency strat > 0 \<longrightarrow> sm_Size ?mg < uint (cs_MaxConcurrency strat)"
    using False by (auto simp: cannot_allocate_def Let_def word_less_def)
  note c = word_inc [OF lt]
  have st: "st_next ?st = Suc (st_next st)" "st_mgr ?st m =
      ?mg\<lparr>sm_count := ?c, sm_sessions := AList.update ?c (st_next st) (sm_sessions ?mg)\<rparr>"
    "st_sess ?st = (st_sess st)(st_next st := \<lparr>ms_ID = ?c, ms_parent = Some m, ms_closed = False, ms_XUDP = None, ms_in_pipe = True,
                  ms_in_interrupted = False, ms_out_closed = False, ms_in_eof = False\<rparr>)"
    using False by (simp_all add: Allocate_def Let_def)
  have s: "sessions_ok m st" "map_ok m st" "limits_ok m strat st" using assms(1) by (simp_all add: client_inv_def)
  have le: "ms_ID (st_sess st r) \<le> sm_count ?mg" if "r < st_next st" for r
    using s(1) that by (simp add: sessions_ok_def)
  have new: "ms_ID (st_sess st r) \<noteq> ?c" "ms_ID (st_sess st r) \<le> ?c" if "r < st_next st" for r
    using le [OF that] c(1) by (metis leD, metis less_imp_le order.trans)
  have "sessions_ok m ?st"
    unfolding sessions_ok_def
  proof (intro allI impI)
    fix r assume "r < st_next ?st"
    then consider "r = st_next st" | "r < st_next st" using st(1) by linarith
    then show "ms_parent (st_sess ?st r) = Some m \<and> ms_XUDP (st_sess ?st r) = None \<and>
        ms_ID (st_sess ?st r) \<le> sm_count (st_mgr ?st m) \<and>
        (\<forall>r' < st_next ?st. ms_ID (st_sess ?st r') = ms_ID (st_sess ?st r) \<longrightarrow> r' = r)"
      using s(1) new [of r] new(1) not_sym [OF new(1), of r] st by cases (auto simp: sessions_ok_def less_Suc_eq)
  qed
  moreover have "map_ok m ?st"
    using s(2) new op
    by (auto simp: map_ok_def Get_def Let_def st update_conv' distinct_update less_Suc_eq split: if_splits)
  moreover have "limits_ok m strat ?st"
    using s(3) c(2) sz length_AList_update [of ?c "st_next st" "sm_sessions ?mg"]
    by (auto simp: limits_ok_def st sm_Size_def)
  ultimately show ?thesis by (simp add: client_inv_def)
qed

lemma session_Close_inv:
  assumes "client_inv m strat st" and "r < st_next st"
  shows "\<exists>st'. session_Close now r st = Ok st' \<and> client_inv m strat st'"
proof (cases "ms_closed (st_sess st r)")
  case True
  then show ?thesis using assms by (auto simp: session_Close_def client_inv_def sessions_ok_def Let_def)
next
  case False
  let ?mg = "st_mgr st m"
  have s: "sessions_ok m st" "map_ok m st" "limits_ok m strat st" using assms(1) by (simp_all add: client_inv_def)
  have r: "ms_parent (st_sess st r) = Some m" "ms_XUDP (st_sess st r) = None"
    using s(1) assms(2) by (auto simp: sessions_ok_def)
  define st' where "st' = Remove m (ms_ID (st_sess st r))
    (set_sess r ((st_sess st r)\<lparr>ms_closed := True, ms_in_interrupted := True, ms_out_closed := True\<rparr>) st)"
  have st: "session_Close now r st = Ok st'"
    using False r by (simp add: session_Close_def st'_def Let_def)
  have op: "\<not> sm_closed ?mg"
    using s(2) False assms(2) by (auto simp: map_ok_def Get_def Let_def split: if_splits)
  have f: "st_next st' = st_next st" "st_mgr st' m = ?mg\<lparr>sm_sessions := AList.delete (ms_ID (st_sess st r)) (sm_sessions ?mg)\<rparr>"
    "st_sess st' = (st_sess st)(r := (st_sess st r)\<lparr>ms_closed := True, ms_in_interrupted := True, ms_out_closed := True\<rparr>)"
    using op by (simp_all add: st'_def Remove_def Let_def)
  have "sessions_ok m st'" using s(1) by (auto simp: sessions_ok_def f)
  moreover have "map_ok m st'"
    using s(1,2) op assms(2)
    by (auto simp: map_ok_def sessions_ok_def Get_def Let_def f delete_conv' distinct_delete split: if_splits)
  moreover have "limits_ok m strat st'"
    using s(3) length_delete_le [of "ms_ID (st_sess st r)" "sm_sessions ?mg"]
    by (auto simp: limits_ok_def f sm_Size_def)
  ultimately show ?thesis using st by (auto simp: client_inv_def)
qed

lemma CloseIfNoSession_inv:
  assumes "client_inv m strat st"
  shows "client_inv m strat (fst (CloseIfNoSession m st))"
proof (cases "sm_closed (st_mgr st m) \<or> sm_sessions (st_mgr st m) \<noteq> []")
  case True
  then show ?thesis using assms by (auto simp: CloseIfNoSession_def Let_def)
next
  case False
  then have none: "Get m i st = None" for i by (simp add: Get_def)
  have "ms_closed (st_sess st r)" if "r < st_next st" for r
    using assms none that unfolding client_inv_def map_ok_def by (metis option.distinct(1))
  then show ?thesis
    using False assms by (simp add: CloseIfNoSession_def client_inv_def sessions_ok_def map_ok_def
      limits_ok_def Get_def Let_def sm_Size_def)
qed

lemma close_sessions_spec:
  assumes "sm_closed (st_mgr st m)"
    and "\<forall>(i, r) \<in> set ss. ms_parent (st_sess st r) = Some m \<and> ms_XUDP (st_sess st r) = None"
  shows "\<exists>st'. close_sessions now ss st = Ok st' \<and> st_mgr st' = st_mgr st \<and> st_next st' = st_next st \<and>
    (\<forall>r. ms_closed (st_sess st' r) = (ms_closed (st_sess st r) \<or> r \<in> snd ` set ss) \<and>
         ms_ID (st_sess st' r) = ms_ID (st_sess st r) \<and> ms_parent (st_sess st' r) = ms_parent (st_sess st r) \<and>
         ms_XUDP (st_sess st' r) = ms_XUDP (st_sess st r))"
  using assms
proof (induction ss arbitrary: st)
  case (Cons e ss)
  obtain i r where e: "e = (i, r)" by fastforce
  define st1 where "st1 = (if ms_closed (st_sess st r) then st else
    set_sess r ((st_sess st r)\<lparr>ms_closed := True, ms_in_interrupted := True, ms_out_closed := True\<rparr>) st)"
  have c: "session_Close now r st = Ok st1"
    using Cons.prems e by (auto simp: session_Close_def st1_def Remove_def Let_def)
  have "sm_closed (st_mgr st1 m)" using Cons.prems by (simp add: st1_def)
  moreover have "\<forall>(i, r) \<in> set ss. ms_parent (st_sess st1 r) = Some m \<and> ms_XUDP (st_sess st1 r) = None"
    using Cons.prems by (auto simp: st1_def)
  ultimately obtain st' where st': "close_sessions now ss st1 = Ok st'" "st_mgr st' = st_mgr st1" "st_next st' = st_next st1"
    "\<forall>r. ms_closed (st_sess st' r) = (ms_closed (st_sess st1 r) \<or> r \<in> snd ` set ss) \<and>
         ms_ID (st_sess st' r) = ms_ID (st_sess st1 r) \<and> ms_parent (st_sess st' r) = ms_parent (st_sess st1 r) \<and>
         ms_XUDP (st_sess st' r) = ms_XUDP (st_sess st1 r)"
    using Cons.IH [of st1] by blast
  then show ?case using e c by (auto simp: st1_def)
qed simp

lemma manager_Close_inv:
  assumes "client_inv m strat st"
  shows "\<exists>st'. manager_Close now m st = Ok st' \<and> client_inv m strat st'"
proof (cases "sm_closed (st_mgr st m)")
  case True
  then show ?thesis using assms by (simp add: manager_Close_def)
next
  case False
  let ?mg = "st_mgr st m" and ?st0 = "set_mgr m ((st_mgr st m)\<lparr>sm_closed := True\<rparr>) st"
  have s: "sessions_ok m st" "map_ok m st" "limits_ok m strat st" using assms(1) by (simp_all add: client_inv_def)
  have mem: "(i, r) \<in> set (sm_sessions ?mg) \<longleftrightarrow>
      r < st_next st \<and> ms_ID (st_sess st r) = i \<and> \<not> ms_closed (st_sess st r)" for i r
    using s(2) False by (auto simp: map_ok_def Get_def Let_def simp flip: map_of_eq_Some_iff)
  have "\<forall>(i, r) \<in> set (sm_sessions ?mg). ms_parent (st_sess ?st0 r) = Some m \<and> ms_XUDP (st_sess ?st0 r) = None"
    using s(1) mem by (auto simp: sessions_ok_def)
  then obtain st1 where st1: "close_sessions now (sm_sessions ?mg) ?st0 = Ok st1" "st_mgr st1 = st_mgr ?st0"
    "st_next st1 = st_next ?st0"
    "\<forall>r. ms_closed (st_sess st1 r) = (ms_closed (st_sess ?st0 r) \<or> r \<in> snd ` set (sm_sessions ?mg)) \<and>
         ms_ID (st_sess st1 r) = ms_ID (st_sess ?st0 r) \<and> ms_parent (st_sess st1 r) = ms_parent (st_sess ?st0 r) \<and>
         ms_XUDP (st_sess st1 r) = ms_XUDP (st_sess ?st0 r)"
    using close_sessions_spec [of ?st0 m "sm_sessions ?mg" now] by auto
  let ?st' = "set_mgr m ((st_mgr st1 m)\<lparr>sm_sessions := []\<rparr>) st1"
  have "manager_Close now m st = Ok ?st'" using False st1(1) by (simp add: manager_Close_def Let_def)
  moreover have "ms_closed (st_sess st1 r)" if "r < st_next st" for r
    using st1(4) mem [of "ms_ID (st_sess st r)" r] that by (force simp: image_iff)
  then have "client_inv m strat ?st'"
    using s st1 by (auto simp: client_inv_def sessions_ok_def map_ok_def limits_ok_def Get_def Let_def sm_Size_def)
  ultimately show ?thesis by blast
qed

lemma client_step_inv:
  assumes "client_inv m strat st" and "(ucast (cs_MaxConnection strat) :: u16) > 0"
  shows "\<exists>st'. client_step m strat op st = Ok st' \<and> client_inv m strat st'"
  using assms Allocate_inv CloseIfNoSession_inv manager_Close_inv session_Close_inv by (cases op) auto

lemma client_run_inv:
  assumes "client_inv m strat st" and "(ucast (cs_MaxConnection strat) :: u16) > 0"
  shows "\<exists>st'. client_run m strat ops st = Ok st' \<and> client_inv m strat st'"
  using assms
proof (induction ops arbitrary: st)
  case (Cons op ops)
  then obtain st1 where "client_step m strat op st = Ok st1" "client_inv m strat st1"
    using client_step_inv by blast
  with Cons.IH [of st1] Cons.prems(2) show ?case by simp
qed simp

lemma empty_store_inv: "client_inv m strat empty_store"
  by (simp add: client_inv_def sessions_ok_def map_ok_def limits_ok_def empty_store_def
    NewSessionManager_def Get_def sm_Size_def)

section \<open>Workers and the picker\<close>

record client_worker =
  cw_manager :: nat
  cw_done :: done_inst
  cw_strategy :: ClientStrategy

definition cw_Closed :: "client_worker \<Rightarrow> bool" where
  "cw_Closed w = Done (cw_done w)"

definition IsClosing :: "client_worker \<Rightarrow> mux_store \<Rightarrow> bool" where
  "IsClosing w st \<longleftrightarrow> cs_MaxConnection (cw_strategy w) > 0 \<and>
     sm_Count (st_mgr st (cw_manager w)) \<ge> uint (cs_MaxConnection (cw_strategy w))"

definition IsFull_worker :: "client_worker \<Rightarrow> mux_store \<Rightarrow> bool" where
  "IsFull_worker w st \<longleftrightarrow>
     (if IsClosing w st \<or> cw_Closed w then True
      else cs_MaxConcurrency (cw_strategy w) > 0 \<and>
           sm_Size (st_mgr st (cw_manager w)) \<ge> uint (cs_MaxConcurrency (cw_strategy w)))"

text \<open>\<open>Dispatch\<close> up to the goroutine it starts: the new session, if there is one.\<close>

definition worker_Dispatch :: "client_worker \<Rightarrow> mux_store \<Rightarrow> mux_store \<times> nat option" where
  "worker_Dispatch w st =
     (if IsFull_worker w st then (st, None) else Allocate (cw_manager w) (cw_strategy w) st)"

text \<open>
  The picker holds references to workers; \<open>full\<close> and \<open>clsd\<close> are what \<open>IsFull\<close> and
  \<open>Closed\<close> answer for them, \<open>create\<close> what the factory returns.
\<close>

record picker =
  pk_workers :: "nat list"
  pk_cleanup_started :: bool

definition cleanup :: "(nat \<Rightarrow> bool) \<Rightarrow> picker \<Rightarrow> picker" where
  "cleanup clsd p = p\<lparr>pk_workers := filter (\<lambda>w. \<not> clsd w) (pk_workers p)\<rparr>"

definition cleanupFunc :: "(nat \<Rightarrow> bool) \<Rightarrow> picker \<Rightarrow> picker \<times> goerr option" where
  "cleanupFunc clsd p =
     (if pk_workers p = [] then (p, Some (ErrMsg ''no worker'')) else (cleanup clsd p, None))"

fun find_from :: "(nat \<Rightarrow> bool) \<Rightarrow> int \<Rightarrow> nat list \<Rightarrow> int" where
  "find_from full idx [] = -1"
| "find_from full idx (w # ws) = (if \<not> full w then idx else find_from full (idx + 1) ws)"

definition findAvailable :: "(nat \<Rightarrow> bool) \<Rightarrow> picker \<Rightarrow> int" where
  "findAvailable full p = find_from full 0 (pk_workers p)"

definition pickInternal ::
  "(nat \<Rightarrow> bool) \<Rightarrow> (nat \<Rightarrow> bool) \<Rightarrow> nat res \<Rightarrow> picker \<Rightarrow> picker \<times> (nat \<times> bool) res" where
  "pickInternal full clsd create p =
     (let idx = findAvailable full p in
      if idx \<ge> 0 then
        (let i = nat idx; n = length (pk_workers p); ws = pk_workers p;
             ws' = (if n > 1 \<and> i \<noteq> n - 1 then ws[n - 1 := ws ! i, i := ws ! (n - 1)] else ws) in
         (p\<lparr>pk_workers := ws'\<rparr>, Ok (ws' ! i, False)))
      else
        (let p1 = cleanup clsd p in
         case create of
           Ok w \<Rightarrow> (p1\<lparr>pk_workers := pk_workers p1 @ [w], pk_cleanup_started := True\<rparr>, Ok (w, True))
         | Err e \<Rightarrow> (p1, Err e)
         | Panic s \<Rightarrow> (p1, Panic s)))"

text \<open>\<open>ClientManager.Dispatch\<close>: up to 16 picks, until \<open>worker.Dispatch\<close> (here \<open>disp\<close>) accepts.\<close>

fun dispatch_loop ::
  "nat \<Rightarrow> (nat \<Rightarrow> bool) \<Rightarrow> (nat \<Rightarrow> bool) \<Rightarrow> (nat \<Rightarrow> bool) \<Rightarrow> nat res \<Rightarrow> picker \<Rightarrow> picker \<times> nat res" where
  "dispatch_loop 0 disp full clsd create p = (p, Err (ErrMsg ''unable to find an available mux client''))"
| "dispatch_loop (Suc k) disp full clsd create p =
     (case pickInternal full clsd create p of
        (p', Ok (w, start)) \<Rightarrow> if disp w then (p', Ok w) else dispatch_loop k disp full clsd create p'
      | (p', Err e) \<Rightarrow> (p', Err e)
      | (p', Panic s) \<Rightarrow> (p', Panic s))"

definition ClientManager_Dispatch ::
  "(nat \<Rightarrow> bool) \<Rightarrow> (nat \<Rightarrow> bool) \<Rightarrow> (nat \<Rightarrow> bool) \<Rightarrow> nat res \<Rightarrow> picker \<Rightarrow> picker \<times> nat res" where
  "ClientManager_Dispatch = dispatch_loop 16"

lemma find_from_spec:
  "find_from full k ws = -1 \<and> list_all full ws \<and> 0 \<le> k \<or>
   (\<exists>i < length ws. find_from full k ws = k + int i \<and> \<not> full (ws ! i) \<and> (\<forall>j < i. full (ws ! j))) \<or> k < 0"
proof (induction ws arbitrary: k)
  case (Cons w ws)
  show ?case
  proof (cases "full w \<and> 0 \<le> k")
    case True
    then consider "find_from full (k + 1) ws = -1" "list_all full ws" |
      (found) i where "i < length ws" "find_from full (k + 1) ws = k + 1 + int i" "\<not> full (ws ! i)"
        "\<forall>j < i. full (ws ! j)"
      using Cons.IH [of "k + 1"] by fastforce
    then show ?thesis
    proof cases
      case found
      then show ?thesis using True
        by (intro disjI2 disjI1 exI [of _ "Suc i"]) (auto simp: less_Suc_eq_0_disj)
    qed (use True in simp)
  qed auto
qed auto

lemma findAvailable_spec:
  assumes "\<exists>w \<in> set (pk_workers p). \<not> full w"
  obtains i where "findAvailable full p = int i" "i < length (pk_workers p)" "\<not> full (pk_workers p ! i)"
    "\<forall>j < i. full (pk_workers p ! j)"
  using assms find_from_spec [of full 0 "pk_workers p"] that
  by (auto simp: findAvailable_def list_all_iff)

lemma findAvailable_none: "list_all full (pk_workers p) \<Longrightarrow> findAvailable full p = -1"
  using find_from_spec [of full 0 "pk_workers p"] by (auto simp: findAvailable_def list_all_length)

text \<open>A pick returns the last worker, and it leaves an available worker at the end of the list.\<close>

lemma pickInternal_last:
  assumes "\<exists>w \<in> set (pk_workers p). \<not> full w"
  shows "\<exists>ws'. pickInternal full clsd create p = (p\<lparr>pk_workers := ws'\<rparr>, Ok (last (pk_workers p), False)) \<and>
    ws' \<noteq> [] \<and> \<not> full (last ws') \<and> mset ws' = mset (pk_workers p)"
proof -
  obtain i where i: "findAvailable full p = int i" "i < length (pk_workers p)" "\<not> full (pk_workers p ! i)"
    using findAvailable_spec [OF assms] by metis
  let ?ws = "pk_workers p" and ?n = "length (pk_workers p)"
  define ws' where "ws' = (if ?n > 1 \<and> i \<noteq> ?n - 1 then ?ws[?n - 1 := ?ws ! i, i := ?ws ! (?n - 1)] else ?ws)"
  have ne: "?ws \<noteq> []" using i(2) by auto
  note n = ne last_conv_nth [OF ne]
  have one: "i = 0" if "\<not> Suc 0 < ?n" using that i(2) by simp
  have last': "last ws' = ?ws ! i" "ws' ! i = last ?ws" "ws' \<noteq> []"
    using i(2) n one by (cases "Suc 0 < ?n"; simp add: ws'_def last_conv_nth nth_list_update)+
  have m: "mset ws' = mset ?ws"
    using i(2) mset_swap [of i ?ws "?n - 1"] by (auto simp: ws'_def list_update_swap)
  have "pickInternal full clsd create p = (p\<lparr>pk_workers := ws'\<rparr>, Ok (last ?ws, False))"
    using last'(2) unfolding pickInternal_def Let_def i(1) nat_int ws'_def [symmetric] by simp
  with last' i(3) m show ?thesis by auto
qed

lemma dispatch_loop_two:
  assumes "\<exists>w \<in> set (pk_workers p). \<not> full w" and "\<forall>w. disp w \<longleftrightarrow> \<not> full w"
  shows "\<exists>p' w. dispatch_loop (Suc (Suc k)) disp full clsd create p = (p', Ok w) \<and> w \<in> set (pk_workers p) \<and>
    \<not> full w \<and> mset (pk_workers p') = mset (pk_workers p)"
proof -
  obtain ws1 where 1: "pickInternal full clsd create p = (p\<lparr>pk_workers := ws1\<rparr>, Ok (last (pk_workers p), False))"
    "ws1 \<noteq> []" "\<not> full (last ws1)" "mset ws1 = mset (pk_workers p)"
    using pickInternal_last [OF assms(1)] by blast
  let ?p1 = "p\<lparr>pk_workers := ws1\<rparr>"
  have "\<exists>w \<in> set (pk_workers ?p1). \<not> full w" using 1 by (auto intro: last_in_set)
  then obtain ws2 where 2: "pickInternal full clsd create ?p1 = (?p1\<lparr>pk_workers := ws2\<rparr>, Ok (last ws1, False))"
    "mset ws2 = mset ws1" using pickInternal_last [of ?p1 full clsd create] by auto
  have "set ws1 = set (pk_workers p)" using mset_eq_setD [OF 1(4)] .
  moreover have "pk_workers p \<noteq> []" using assms(1) by auto
  ultimately have "last ws1 \<in> set (pk_workers p)" "last (pk_workers p) \<in> set (pk_workers p)"
    using last_in_set [OF 1(2)] last_in_set by auto
  then show ?thesis
    using 1 2 assms(2) by (cases "full (last (pk_workers p))") auto
qed

section \<open>Properties\<close>

text \<open>
  The session table of a client connection is exact: under a connection limit below 65536, after any
  sequence of allocations and closes no operation panics, a session is found under an id exactly when it is
  the open session with this id (so ids of live sessions are unique), and the concurrency limit holds.
\<close>

theorem client_sessions_exact:
  assumes "(ucast (cs_MaxConnection strat) :: u16) > 0"
  shows "\<exists>st. client_run m strat ops empty_store = Ok st \<and>
    (\<forall>i r. Get m i st = Some r \<longleftrightarrow>
       r < st_next st \<and> ms_ID (st_sess st r) = i \<and> \<not> ms_closed (st_sess st r)) \<and>
    (cs_MaxConcurrency strat > 0 \<longrightarrow> sm_Size (st_mgr st m) \<le> uint (cs_MaxConcurrency strat))"
  using client_run_inv [OF empty_store_inv assms, of m ops]
  by (auto simp: client_inv_def map_ok_def limits_ok_def)

theorem client_sessions_exact_witness:
  "\<exists>st. client_run 0 \<lparr>cs_MaxConcurrency = 8, cs_MaxConnection = 128\<rparr>
      [Op_Allocate, Op_Allocate, Op_Close 0, Op_Allocate, Op_CloseAll] empty_store = Ok st \<and>
    sm_Size (st_mgr st 0) \<le> 8"
  using client_sessions_exact [of "\<lparr>cs_MaxConcurrency = 8, cs_MaxConnection = 128\<rparr>" 0] by fastforce

text \<open>
  \<open>pickInternal\<close> swaps the available worker to the end of the list and then returns what it swapped
  to the front: with a free worker first and a full one last it returns the full one.
\<close>

theorem pickInternal_returns_full:
  "\<exists>p full clsd create p' w start. \<not> full (hd (pk_workers p)) \<and>
    pickInternal full clsd create p = (p', Ok (w, start)) \<and> full w"
  by (rule exI [of _ "\<lparr>pk_workers = [0, 1], pk_cleanup_started = True\<rparr>"], rule exI [of _ "\<lambda>w. w = 1"],
      rule exI [of _ "\<lambda>w. False"], rule exI [of _ "Ok 2"])
    (auto simp: pickInternal_def findAvailable_def)

text \<open>
  The retry of \<open>ClientManager.Dispatch\<close> makes up for it: as long as some worker is available, and a
  worker accepts exactly when it is not full, one of the first two picks is accepted.
\<close>

theorem dispatch_second_pick:
  assumes "\<exists>w \<in> set (pk_workers p). \<not> full w" and "\<forall>w. disp w \<longleftrightarrow> \<not> full w"
  shows "\<exists>p' w. ClientManager_Dispatch disp full clsd create p = (p', Ok w) \<and> w \<in> set (pk_workers p) \<and>
    \<not> full w \<and> mset (pk_workers p') = mset (pk_workers p)"
  using dispatch_loop_two [OF assms, where k = 14] by (simp add: ClientManager_Dispatch_def)

theorem dispatch_second_pick_witness:
  "\<exists>p' w. ClientManager_Dispatch (\<lambda>w. w = 0) (\<lambda>w. w \<noteq> 0) (\<lambda>_. False) (Ok 2)
     \<lparr>pk_workers = [0, 1], pk_cleanup_started = True\<rparr> = (p', Ok w)"
  using dispatch_second_pick [of "\<lparr>pk_workers = [0, 1], pk_cleanup_started = True\<rparr>" "\<lambda>w. w \<noteq> 0" "\<lambda>w. w = 0"]
  by fastforce

end
