(* ===== verification/KcpSegment.thy ===== *)
theory KcpSegment
  imports Buffer
begin

text \<open>
  The segments of the mKCP transport (\<open>transport/internet/kcp/segment.go\<close>): data, acknowledgement
  and command-only segments, their serialisation into a packet and \<open>ReadSegment\<close>, which takes one segment
  off a packet.  \<open>Serialize\<close> writes into a slice that the caller provides, and panics if it is too short.
\<close>

section \<open>Segments\<close>

type_synonym Command = byte

definition CommandACK :: Command where "CommandACK = 0"
definition CommandData :: Command where "CommandData = 1"
definition CommandTerminate :: Command where "CommandTerminate = 2"
definition CommandPing :: Command where "CommandPing = 3"

definition SegmentOptionClose :: byte where "SegmentOptionClose = 1"

record data_segment =
  ds_Conv :: u16
  ds_Option :: byte
  ds_Timestamp :: u32
  ds_Number :: u32
  ds_SendingNext :: u32
  ds_payload :: "buffer option"
  ds_timeout :: u32
  ds_transmit :: u32

record ack_segment =
  as_Conv :: u16
  as_Option :: byte
  as_ReceivingWindow :: u32
  as_ReceivingNext :: u32
  as_Timestamp :: u32
  as_NumberList :: "u32 list"

record cmd_segment =
  co_Conv :: u16
  co_Cmd :: Command
  co_Option :: byte
  co_SendingNext :: u32
  co_ReceivingNext :: u32
  co_PeerRTO :: u32

datatype segment = Data data_segment | Ack ack_segment | CmdOnly cmd_segment

definition NewDataSegment :: data_segment where
  "NewDataSegment = \<lparr>ds_Conv = 0, ds_Option = 0, ds_Timestamp = 0, ds_Number = 0, ds_SendingNext = 0,
     ds_payload = None, ds_timeout = 0, ds_transmit = 0\<rparr>"

definition NewAckSegment :: ack_segment where
  "NewAckSegment = \<lparr>as_Conv = 0, as_Option = 0, as_ReceivingWindow = 0, as_ReceivingNext = 0,
     as_Timestamp = 0, as_NumberList = []\<rparr>"

definition NewCmdOnlySegment :: cmd_segment where
  "NewCmdOnlySegment = \<lparr>co_Conv = 0, co_Cmd = 0, co_Option = 0, co_SendingNext = 0, co_ReceivingNext = 0,
     co_PeerRTO = 0\<rparr>"

fun Conversation :: "segment \<Rightarrow> u16" where
  "Conversation (Data s) = ds_Conv s"
| "Conversation (Ack s) = as_Conv s"
| "Conversation (CmdOnly s) = co_Conv s"

fun seg_Command :: "segment \<Rightarrow> Command" where
  "seg_Command (Data s) = CommandData"
| "seg_Command (Ack s) = CommandACK"
| "seg_Command (CmdOnly s) = co_Cmd s"

definition Detach :: "data_segment \<Rightarrow> data_segment \<times> buffer option" where
  "Detach s = (s\<lparr>ds_payload := None\<rparr>, ds_payload s)"

text \<open>\<open>fresh\<close> is the array a new payload buffer gets from the pool.\<close>

definition seg_Data :: "bytes \<Rightarrow> data_segment \<Rightarrow> data_segment \<times> buffer" where
  "seg_Data fresh s =
     (case ds_payload s of
        Some b \<Rightarrow> (s, b)
      | None \<Rightarrow> (s\<lparr>ds_payload := Some (New fresh)\<rparr>, New fresh))"

definition data_Release :: "data_segment \<Rightarrow> pools \<Rightarrow> data_segment \<times> pools" where
  "data_Release s ps =
     (case ds_payload s of
        None \<Rightarrow> (s, ps)
      | Some b \<Rightarrow> (s\<lparr>ds_payload := None\<rparr>, snd (Release b ps)))"

definition ackNumberLimit :: nat where
  "ackNumberLimit = 128"

definition PutTimestamp :: "u32 \<Rightarrow> ack_segment \<Rightarrow> ack_segment" where
  "PutTimestamp timestamp s =
     (if timestamp - as_Timestamp s < 0x7FFFFFFF then s\<lparr>as_Timestamp := timestamp\<rparr> else s)"

definition PutNumber :: "u32 \<Rightarrow> ack_segment \<Rightarrow> ack_segment" where
  "PutNumber number s = s\<lparr>as_NumberList := as_NumberList s @ [number]\<rparr>"

definition ack_IsFull :: "ack_segment \<Rightarrow> bool" where
  "ack_IsFull s \<longleftrightarrow> length (as_NumberList s) = ackNumberLimit"

definition ack_IsEmpty :: "ack_segment \<Rightarrow> bool" where
  "ack_IsEmpty s \<longleftrightarrow> length (as_NumberList s) = 0"

text \<open>\<open>Len\<close> of a nil payload is 0.\<close>

definition payload_Len :: "data_segment \<Rightarrow> int" where
  "payload_Len s = (case ds_payload s of None \<Rightarrow> 0 | Some b \<Rightarrow> Len b)"

fun ByteSize :: "segment \<Rightarrow> int" where
  "ByteSize (Data s) = i32 (2 + 1 + 1 + 4 + 4 + 4 + 2 + payload_Len s)"
| "ByteSize (Ack s) = i32 (2 + 1 + 1 + 4 + 4 + 4 + 1 + int (length (as_NumberList s) * 4))"
| "ByteSize (CmdOnly s) = 2 + 1 + 1 + 4 + 4 + 4"

section \<open>Serialisation\<close>

definition put_slice :: "nat \<Rightarrow> bytes \<Rightarrow> bytes \<Rightarrow> bytes res" where
  "put_slice i bs b =
     (if i + length bs \<le> length b then Ok (overwrite b i bs) else Panic ''index out of range'')"

fun put_all :: "(nat \<times> bytes) list \<Rightarrow> bytes \<Rightarrow> bytes res" where
  "put_all [] b = Ok b"
| "put_all ((i, bs) # es) b = rbind (put_slice i bs b) (put_all es)"

definition copy_at :: "nat \<Rightarrow> bytes \<Rightarrow> bytes \<Rightarrow> bytes res" where
  "copy_at i bs b =
     (if i \<le> length b then Ok (overwrite b i (take (length b - i) bs))
      else Panic ''slice bounds out of range'')"

fun put_numbers :: "nat \<Rightarrow> u32 list \<Rightarrow> bytes \<Rightarrow> bytes res" where
  "put_numbers n [] b = Ok b"
| "put_numbers n (x # xs) b = rbind (put_slice n (put_u32 x) b) (put_numbers (n + 4) xs)"

definition data_Serialize :: "data_segment \<Rightarrow> bytes \<Rightarrow> bytes res" where
  "data_Serialize s b =
     rbind (put_all [(0, put_u16 (ds_Conv s)), (2, [CommandData]), (3, [ds_Option s]),
       (4, put_u32 (ds_Timestamp s)), (8, put_u32 (ds_Number s)), (12, put_u32 (ds_SendingNext s)),
       (16, put_u16 (word_of_int (payload_Len s)))] b) (\<lambda>b'.
     case ds_payload s of
       None \<Rightarrow> Panic ''nil pointer dereference''
     | Some p \<Rightarrow> rbind (Bytes p) (\<lambda>d. copy_at 18 d b'))"

definition ack_Serialize :: "ack_segment \<Rightarrow> bytes \<Rightarrow> bytes res" where
  "ack_Serialize s b =
     rbind (put_all [(0, put_u16 (as_Conv s)), (2, [CommandACK]), (3, [as_Option s]),
       (4, put_u32 (as_ReceivingWindow s)), (8, put_u32 (as_ReceivingNext s)),
       (12, put_u32 (as_Timestamp s)), (16, [word_of_nat (length (as_NumberList s))])] b)
       (put_numbers 17 (as_NumberList s))"

definition cmd_Serialize :: "cmd_segment \<Rightarrow> bytes \<Rightarrow> bytes res" where
  "cmd_Serialize s b =
     put_all [(0, put_u16 (co_Conv s)), (2, [co_Cmd s]), (3, [co_Option s]),
       (4, put_u32 (co_SendingNext s)), (8, put_u32 (co_ReceivingNext s)), (12, put_u32 (co_PeerRTO s))] b"

fun Serialize :: "segment \<Rightarrow> bytes \<Rightarrow> bytes res" where
  "Serialize (Data s) b = data_Serialize s b"
| "Serialize (Ack s) b = ack_Serialize s b"
| "Serialize (CmdOnly s) b = cmd_Serialize s b"

lemmas serialize_defs = data_Serialize_def ack_Serialize_def cmd_Serialize_def

section \<open>Parsing\<close>

text \<open>Each \<open>parse\<close> returns the segment and, if it is valid, the bytes behind it.\<close>

definition data_parse :: "bytes \<Rightarrow> u16 \<Rightarrow> byte \<Rightarrow> bytes \<Rightarrow> data_segment \<Rightarrow> (data_segment \<times> bytes option) res" where
  "data_parse fresh conv opt buf s =
     (let s = s\<lparr>ds_Conv := conv, ds_Option := opt\<rparr> in
      if length buf < 15 then Ok (s, None)
      else
        rbind (be_u32 buf) (\<lambda>ts. rbind (be_u32 (drop 4 buf)) (\<lambda>num. rbind (be_u32 (drop 8 buf)) (\<lambda>sn.
        rbind (be_u16 (drop 12 buf)) (\<lambda>l.
          let s = s\<lparr>ds_Timestamp := ts, ds_Number := num, ds_SendingNext := sn\<rparr>;
              dataLen = unat l;
              buf = drop 14 buf in
          if length buf < dataLen then Ok (s, None)
          else
            (case seg_Data fresh s of (s, b) \<Rightarrow>
               rmap (\<lambda>(b', n). (s\<lparr>ds_payload := Some b'\<rparr>, Some (drop dataLen buf)))
                 (Write (Clear b) (take dataLen buf))))))))"

fun take_numbers :: "nat \<Rightarrow> bytes \<Rightarrow> ack_segment \<Rightarrow> (ack_segment \<times> bytes) res" where
  "take_numbers 0 buf s = Ok (s, buf)"
| "take_numbers (Suc n) buf s = rbind (be_u32 buf) (\<lambda>x. take_numbers n (drop 4 buf) (PutNumber x s))"

definition ack_parse :: "u16 \<Rightarrow> byte \<Rightarrow> bytes \<Rightarrow> ack_segment \<Rightarrow> (ack_segment \<times> bytes option) res" where
  "ack_parse conv opt buf s =
     (let s = s\<lparr>as_Conv := conv, as_Option := opt\<rparr> in
      if length buf < 13 then Ok (s, None)
      else
        rbind (be_u32 buf) (\<lambda>w. rbind (be_u32 (drop 4 buf)) (\<lambda>nx. rbind (be_u32 (drop 8 buf)) (\<lambda>ts.
          let s = s\<lparr>as_ReceivingWindow := w, as_ReceivingNext := nx, as_Timestamp := ts\<rparr>;
              count = unat (buf ! 12);
              buf = drop 13 buf in
          if length buf < count * 4 then Ok (s, None)
          else rmap (\<lambda>(s, buf). (s, Some buf)) (take_numbers count buf s)))))"

definition cmd_parse :: "u16 \<Rightarrow> Command \<Rightarrow> byte \<Rightarrow> bytes \<Rightarrow> cmd_segment \<Rightarrow> (cmd_segment \<times> bytes option) res" where
  "cmd_parse conv cmd opt buf s =
     (let s = s\<lparr>co_Conv := conv, co_Cmd := cmd, co_Option := opt\<rparr> in
      if length buf < 12 then Ok (s, None)
      else
        rbind (be_u32 buf) (\<lambda>sn. rbind (be_u32 (drop 4 buf)) (\<lambda>rn. rbind (be_u32 (drop 8 buf)) (\<lambda>rto.
          Ok (s\<lparr>co_SendingNext := sn, co_ReceivingNext := rn, co_PeerRTO := rto\<rparr>, Some (drop 12 buf))))))"

definition parsed :: "('s \<Rightarrow> segment) \<Rightarrow> ('s \<times> bytes option) res \<Rightarrow> (segment \<times> bytes) option res" where
  "parsed mk r = rmap (\<lambda>(s, extra). map_option (\<lambda>e. (mk s, e)) extra) r"

definition ReadSegment :: "bytes \<Rightarrow> bytes \<Rightarrow> (segment \<times> bytes) option res" where
  "ReadSegment fresh buf =
     (if length buf < 4 then Ok None
      else
        rbind (be_u16 buf) (\<lambda>conv.
          let cmd = buf ! 2; opt = buf ! 3; buf = drop 4 buf in
          if cmd = CommandData then parsed Data (data_parse fresh conv opt buf NewDataSegment)
          else if cmd = CommandACK then parsed Ack (ack_parse conv opt buf NewAckSegment)
          else parsed CmdOnly (cmd_parse conv cmd opt buf NewCmdOnlySegment)))"

section \<open>Round trip\<close>

text \<open>Consecutive pieces from position \<open>k\<close> on.\<close>

fun offsets :: "nat \<Rightarrow> bytes list \<Rightarrow> (nat \<times> bytes) list" where
  "offsets k [] = []"
| "offsets k (bs # bss) = (k, bs) # offsets (k + length bs) bss"

lemma put_all_offsets:
  "length xs = k \<Longrightarrow> k + length (concat bss) \<le> length b \<Longrightarrow>
     put_all (offsets k bss) (xs @ drop k b) = Ok (xs @ concat bss @ drop (k + length (concat bss)) b)"
proof (induction bss arbitrary: k xs)
  case (Cons bs bss)
  have "put_slice k bs (xs @ drop k b) = Ok ((xs @ bs) @ drop (k + length bs) b)"
    using Cons.prems by (simp add: put_slice_def overwrite_def ac_simps)
  with Cons.IH [of "xs @ bs" "k + length bs"] Cons.prems show ?case by (simp add: ac_simps)
qed simp

lemma put_numbers_offsets: "put_numbers k ns b = put_all (offsets k (map put_u32 ns)) b"
  by (induction ns arbitrary: k b) (auto intro: arg_cong [where f = "rbind _"])

definition payload_bytes :: "data_segment \<Rightarrow> bytes" where
  "payload_bytes s = (case ds_payload s of None \<Rightarrow> [] | Some b \<Rightarrow> content b)"

fun seg_bytes :: "segment \<Rightarrow> bytes" where
  "seg_bytes (Data s) = put_u16 (ds_Conv s) @ [CommandData, ds_Option s] @ put_u32 (ds_Timestamp s) @
     put_u32 (ds_Number s) @ put_u32 (ds_SendingNext s) @ put_u16 (word_of_nat (length (payload_bytes s))) @
     payload_bytes s"
| "seg_bytes (Ack s) = put_u16 (as_Conv s) @ [CommandACK, as_Option s] @ put_u32 (as_ReceivingWindow s) @
     put_u32 (as_ReceivingNext s) @ put_u32 (as_Timestamp s) @ [word_of_nat (length (as_NumberList s))] @
     concat (map put_u32 (as_NumberList s))"
| "seg_bytes (CmdOnly s) = put_u16 (co_Conv s) @ [co_Cmd s, co_Option s] @ put_u32 (co_SendingNext s) @
     put_u32 (co_ReceivingNext s) @ put_u32 (co_PeerRTO s)"

text \<open>Segments as the sending side builds them.\<close>

fun seg_ok :: "segment \<Rightarrow> bool" where
  "seg_ok (Data s) \<longleftrightarrow> (\<exists>b. ds_payload s = Some b \<and> buf_wf b \<and> content b \<noteq> [] \<and> length (content b) \<le> 8192)"
| "seg_ok (Ack s) \<longleftrightarrow> length (as_NumberList s) \<le> ackNumberLimit"
| "seg_ok (CmdOnly s) \<longleftrightarrow> co_Cmd s \<noteq> CommandData \<and> co_Cmd s \<noteq> CommandACK"

lemma length_numbers [simp]: "length (concat (map put_u32 ns)) = 4 * length ns"
  by (induction ns) auto

lemma ByteSize_length: "seg_ok seg \<Longrightarrow> ByteSize seg = int (length (seg_bytes seg))"
  by (cases seg) (auto simp: payload_Len_def payload_bytes_def Len_content ackNumberLimit_def)

lemma put_pieces:
  assumes "length (concat bss) \<le> length b"
  shows "put_all (offsets 0 bss) b = Ok (concat bss @ drop (length (concat bss)) b)"
  using put_all_offsets [of "[]" 0 bss b] assms by simp

lemma Serialize_bytes:
  assumes "seg_ok seg" and "length b = length (seg_bytes seg)"
  shows "Serialize seg b = Ok (seg_bytes seg)"
proof (cases seg)
  case (Data s)
  then obtain p where p: "ds_payload s = Some p" "buf_wf p" using assms(1) by auto
  have l: "payload_Len s = int (length (content p))" "payload_bytes s = content p"
    using p by (simp_all add: payload_Len_def payload_bytes_def Len_content)
  let ?h = "[put_u16 (ds_Conv s), [CommandData], [ds_Option s], put_u32 (ds_Timestamp s), put_u32 (ds_Number s),
    put_u32 (ds_SendingNext s), put_u16 (word_of_nat (length (content p)))]"
  have "put_all (offsets 0 ?h) b = Ok (concat ?h @ drop 18 b)"
    using put_pieces [of ?h b] assms(2) Data l by simp
  moreover have "copy_at 18 (content p) (concat ?h @ drop 18 b) = Ok (concat ?h @ content p)"
    using assms(2) Data l by (simp add: copy_at_def overwrite_def)
  ultimately show ?thesis using Data p l by (simp add: serialize_defs numeral_eq_Suc del: put_all.simps)
next
  case (Ack s)
  let ?h = "[put_u16 (as_Conv s), [CommandACK], [as_Option s], put_u32 (as_ReceivingWindow s),
    put_u32 (as_ReceivingNext s), put_u32 (as_Timestamp s), [word_of_nat (length (as_NumberList s))]]"
  have h: "put_all (offsets 0 ?h) b = Ok (concat ?h @ drop 17 b)"
    using put_pieces [of ?h b] assms(2) Ack by simp
  have "put_numbers 17 (as_NumberList s) (concat ?h @ drop 17 b) =
      Ok (concat ?h @ concat (map put_u32 (as_NumberList s)))"
    using put_all_offsets [of "concat ?h" 17 "map put_u32 (as_NumberList s)" b] assms(2) Ack
    by (simp add: put_numbers_offsets)
  with h show ?thesis using Ack by (simp add: serialize_defs numeral_eq_Suc del: put_all.simps)
next
  case (CmdOnly s)
  let ?h = "[put_u16 (co_Conv s), [co_Cmd s], [co_Option s], put_u32 (co_SendingNext s),
    put_u32 (co_ReceivingNext s), put_u32 (co_PeerRTO s)]"
  have "put_all (offsets 0 ?h) b = Ok (concat ?h @ drop 16 b)"
    using put_pieces [of ?h b] assms(2) CmdOnly by simp
  then show ?thesis using CmdOnly assms(2) by (simp add: serialize_defs numeral_eq_Suc del: put_all.simps)
qed

lemma take_numbers_bytes:
  "take_numbers (length ns) (concat (map put_u32 ns) @ rest) s =
     Ok (s\<lparr>as_NumberList := as_NumberList s @ ns\<rparr>, rest)"
  by (induction ns arbitrary: s) (simp_all add: PutNumber_def)

lemma be_u32_drop [simp]:
  "be_u32 (drop 4 (put_u32 a @ xs)) = be_u32 xs" "be_u32 (drop 8 (put_u32 a @ put_u32 b @ xs)) = be_u32 xs"
  "be_u16 (drop 12 (put_u32 a @ put_u32 b @ put_u32 c @ ys)) = be_u16 ys"
  "drop 14 (put_u32 a @ put_u32 b @ put_u32 c @ put_u16 d @ zs) = zs"
  "drop 12 (put_u32 a @ put_u32 b @ put_u32 c @ zs) = zs"
  "drop 13 (put_u32 a @ put_u32 b @ put_u32 c @ x # zs) = zs"
  "(put_u32 a @ put_u32 b @ put_u32 c @ x # zs) ! 12 = x"
  by (simp_all add: put_u32_def put_u16_def)

lemma ReadSegment_head:
  "ReadSegment fresh (put_u16 conv @ [cmd, opt] @ buf) =
     (if cmd = CommandData then parsed Data (data_parse fresh conv opt buf NewDataSegment)
      else if cmd = CommandACK then parsed Ack (ack_parse conv opt buf NewAckSegment)
      else parsed CmdOnly (cmd_parse conv cmd opt buf NewCmdOnlySegment))"
  by (simp add: ReadSegment_def put_u16_def numeral_2_eq_2 numeral_3_eq_3)

text \<open>Equal up to the bookkeeping fields that are not sent, and payloads with the same bytes.\<close>

fun same_segment :: "segment \<Rightarrow> segment \<Rightarrow> bool" where
  "same_segment (Data s) (Data t) \<longleftrightarrow> ds_Conv s = ds_Conv t \<and> ds_Option s = ds_Option t \<and>
     ds_Timestamp s = ds_Timestamp t \<and> ds_Number s = ds_Number t \<and> ds_SendingNext s = ds_SendingNext t \<and>
     payload_bytes s = payload_bytes t"
| "same_segment (Ack s) (Ack t) \<longleftrightarrow> s = t"
| "same_segment (CmdOnly s) (CmdOnly t) \<longleftrightarrow> s = t"
| "same_segment _ _ \<longleftrightarrow> False"

lemma ReadSegment_data:
  assumes "seg_ok (Data s)" and "length fresh < 2147483648"
  shows "\<exists>t. ReadSegment fresh (seg_bytes (Data s) @ rest) = Ok (Some (Data t, rest)) \<and>
    same_segment (Data s) (Data t) \<and> seg_ok (Data t)"
proof -
  obtain p where p: "ds_payload s = Some p" "buf_wf p" "content p \<noteq> []" "length (content p) \<le> 8192"
    using assms(1) by auto
  define d where "d = content p"
  have d: "d \<noteq> []" "length d \<le> 8192" "payload_bytes s = d" using p by (simp_all add: d_def payload_bytes_def)
  have ul: "unat (word_of_nat (length d) :: u16) = length d" using d(2) by (simp add: unat_of_nat)
  have n: "buf_wf (Clear (New fresh))" "content (Clear (New fresh)) = []" "room (Clear (New fresh)) = 8192"
    using New_wf [OF assms(2)] Clear_content [of "New fresh"] by (simp_all add: Clear_def room_def New_def Size_def)
  obtain b where b: "Write (Clear (New fresh)) d = Ok (b, length d)" "buf_wf b" "content b = d"
    using Write_content [OF n(1), of d] n d(2) by auto
  have "ReadSegment fresh (seg_bytes (Data s) @ rest) =
      parsed Data (data_parse fresh (ds_Conv s) (ds_Option s) (put_u32 (ds_Timestamp s) @ put_u32 (ds_Number s) @
        put_u32 (ds_SendingNext s) @ put_u16 (word_of_nat (length d)) @ d @ rest) NewDataSegment)"
    using ReadSegment_head [of fresh "ds_Conv s" CommandData "ds_Option s"] d(3) by simp
  also have "\<dots> = Ok (Some (Data (NewDataSegment\<lparr>ds_Conv := ds_Conv s, ds_Option := ds_Option s,
      ds_Timestamp := ds_Timestamp s, ds_Number := ds_Number s, ds_SendingNext := ds_SendingNext s,
      ds_payload := Some b\<rparr>), rest))"
    using d ul b(1)
    by (simp add: data_parse_def parsed_def seg_Data_def NewDataSegment_def Let_def Suc_le_eq not_less)
  finally show ?thesis using b d p by (auto simp: payload_bytes_def d_def)
qed

lemma ReadSegment_bytes:
  assumes "seg_ok seg" and "length fresh < 2147483648"
  shows "\<exists>t. ReadSegment fresh (seg_bytes seg @ rest) = Ok (Some (t, rest)) \<and> same_segment seg t \<and> seg_ok t"
proof (cases seg)
  case (Data s)
  then show ?thesis using ReadSegment_data [of s fresh rest] assms by auto
next
  case (Ack s)
  let ?n = "length (as_NumberList s)"
  have "?n \<le> 128" using assms(1) Ack by (simp add: ackNumberLimit_def)
  then have ul: "unat (word_of_nat ?n :: byte) = ?n" by (simp add: unat_of_nat)
  let ?body = "put_u32 (as_ReceivingWindow s) @ put_u32 (as_ReceivingNext s) @ put_u32 (as_Timestamp s) @
    word_of_nat ?n # concat (map put_u32 (as_NumberList s)) @ rest"
  have "ReadSegment fresh (seg_bytes seg @ rest) = parsed Ack (ack_parse (as_Conv s) (as_Option s) ?body NewAckSegment)"
    using ReadSegment_head [of fresh "as_Conv s" CommandACK "as_Option s"] Ack
    by (simp add: CommandACK_def CommandData_def)
  also have "\<dots> = Ok (Some (Ack s, rest))"
    using take_numbers_bytes [of "as_NumberList s" rest] ul
    by (simp add: ack_parse_def parsed_def NewAckSegment_def Let_def mult.commute not_less)
  finally show ?thesis using Ack assms(1) by simp
next
  case (CmdOnly s)
  let ?body = "put_u32 (co_SendingNext s) @ put_u32 (co_ReceivingNext s) @ put_u32 (co_PeerRTO s) @ rest"
  have "ReadSegment fresh (seg_bytes seg @ rest) =
      parsed CmdOnly (cmd_parse (co_Conv s) (co_Cmd s) (co_Option s) ?body NewCmdOnlySegment)"
    using ReadSegment_head [of fresh "co_Conv s" "co_Cmd s" "co_Option s"] CmdOnly assms(1) by simp
  also have "\<dots> = Ok (Some (CmdOnly s, rest))"
    by (simp add: cmd_parse_def parsed_def NewCmdOnlySegment_def Let_def)
  finally show ?thesis using CmdOnly assms(1) by simp
qed

text \<open>No packet makes \<open>ReadSegment\<close> panic.\<close>

lemma take_numbers_safe: "4 * n \<le> length buf \<Longrightarrow> \<exists>r. take_numbers n buf s = Ok r"
  by (induction n arbitrary: buf s) (auto simp: be_u32_Ok)

lemma parsed_safe: "\<exists>r. x = Ok r \<Longrightarrow> \<exists>r. parsed mk x = Ok r"
  by (auto simp: parsed_def)

lemma ReadSegment_safe:
  assumes "length fresh < 2147483648"
  shows "\<exists>r. ReadSegment fresh buf = Ok r"
proof -
  have n: "buf_wf (Clear (New fresh))" using New_wf [OF assms] Clear_content by blast
  have wr: "\<exists>b k. Write (Clear (New fresh)) d = Ok (b, k)" for d using Write_content [OF n] by blast
  have d: "\<exists>r. data_parse fresh conv opt bs NewDataSegment = Ok r" for conv opt bs
    using wr [of "take (unat (get_u16 (bs ! 12) (bs ! 13))) (drop 14 bs)"]
    by (cases "length bs < 15")
      (auto simp: data_parse_def Let_def be_u32_Ok be_u16_Ok seg_Data_def NewDataSegment_def)
  have a: "\<exists>r. ack_parse conv opt bs NewAckSegment = Ok r" for conv opt bs
  proof (cases "length bs < 13 \<or> length (drop 13 bs) < unat (bs ! 12) * 4")
    case False
    then have "\<exists>r. take_numbers (unat (bs ! 12)) (drop 13 bs) t = Ok r" for t
      by (intro take_numbers_safe) simp
    then obtain f where "take_numbers (unat (bs ! 12)) (drop 13 bs) t = Ok (f t)" for t by metis
    moreover have "13 \<le> length bs" using False by simp
    ultimately show ?thesis using False by (auto simp: ack_parse_def Let_def be_u32_Ok)
  qed (auto simp: ack_parse_def Let_def be_u32_Ok)
  have c: "\<exists>r. cmd_parse conv cmd opt bs NewCmdOnlySegment = Ok r" for conv cmd opt bs
    by (auto simp: cmd_parse_def Let_def be_u32_Ok)
  show ?thesis
    using parsed_safe [OF d] parsed_safe [OF a] parsed_safe [OF c]
    by (simp add: ReadSegment_def Let_def be_u16_Ok)
qed

section \<open>Properties\<close>

text \<open>
  Segments survive the wire: serialised into a slice of \<open>ByteSize\<close> bytes and followed by anything,
  every segment the protocol builds is read back by \<open>ReadSegment\<close>, which returns the bytes behind it.
\<close>

theorem segment_roundtrip:
  assumes "seg_ok seg" and "int (length b) = ByteSize seg" and "length fresh < 2147483648"
  shows "\<exists>bs t. Serialize seg b = Ok bs \<and> int (length bs) = ByteSize seg \<and>
    ReadSegment fresh (bs @ rest) = Ok (Some (t, rest)) \<and> same_segment seg t"
  using Serialize_bytes [OF assms(1)] ByteSize_length [OF assms(1)] ReadSegment_bytes [OF assms(1,3)] assms(2)
  by auto

theorem segment_roundtrip_witness:
  "\<exists>bs t. Serialize (CmdOnly (NewCmdOnlySegment\<lparr>co_Cmd := CommandPing\<rparr>)) (replicate 16 0) = Ok bs \<and>
    ReadSegment [] (bs @ [9]) = Ok (Some (t, [9]))"
  using segment_roundtrip [of "CmdOnly (NewCmdOnlySegment\<lparr>co_Cmd := CommandPing\<rparr>)" "replicate 16 0" "[]" "[9]"]
  by (auto simp: CommandPing_def CommandData_def CommandACK_def)

end
