(* ===== verification/KcpReceive.thy ===== *)
theory KcpReceive
  imports KcpSegment MultiBuffer "HOL-Library.AList"
begin

text \<open>
  The receiving half of an mKCP connection (\<open>transport/internet/kcp/receiving.go\<close>): the window that
  reorders segments, the list of acknowledgements to send, and the worker that delivers the payloads.
  Sequence numbers are 32-bit words.  Go's map is an association list with distinct keys.
\<close>

section \<open>The receiving window\<close>

type_synonym recv_window = "(u32 \<times> data_segment) list"

definition NewReceivingWindow :: recv_window where
  "NewReceivingWindow = []"

definition win_Set :: "u32 \<Rightarrow> data_segment \<Rightarrow> recv_window \<Rightarrow> recv_window \<times> bool" where
  "win_Set i x w = (if map_of w i \<noteq> None then (w, False) else (AList.update i x w, True))"

definition win_Has :: "u32 \<Rightarrow> recv_window \<Rightarrow> bool" where
  "win_Has i w \<longleftrightarrow> map_of w i \<noteq> None"

definition win_Remove :: "u32 \<Rightarrow> recv_window \<Rightarrow> recv_window \<times> data_segment option" where
  "win_Remove i w =
     (case map_of w i of None \<Rightarrow> (w, None) | Some x \<Rightarrow> (AList.delete i w, Some x))"

section \<open>The acknowledgement list\<close>

text \<open>The three parallel slices are one list of entries; the capacity of \<open>flushCandidates\<close> is 128.\<close>

record ack_entry =
  ae_number :: u32
  ae_timestamp :: u32
  ae_nextFlush :: u32

record ack_list =
  al_entries :: "ack_entry list"
  al_candidates :: "u32 list"
  al_dirty :: bool

definition NewAckList :: ack_list where
  "NewAckList = \<lparr>al_entries = [], al_candidates = [], al_dirty = False\<rparr>"

definition ack_Add :: "u32 \<Rightarrow> u32 \<Rightarrow> ack_list \<Rightarrow> ack_list" where
  "ack_Add number timestamp l =
     l\<lparr>al_entries := al_entries l @ [\<lparr>ae_number = number, ae_timestamp = timestamp, ae_nextFlush = 0\<rparr>],
       al_dirty := True\<rparr>"

definition ack_Clear :: "u32 \<Rightarrow> ack_list \<Rightarrow> ack_list" where
  "ack_Clear una l =
     (let es = filter (\<lambda>e. \<not> ae_number e < una) (al_entries l) in
      if length es < length (al_entries l) then l\<lparr>al_entries := es, al_dirty := True\<rparr> else l)"

definition flush_timeout :: "u32 \<Rightarrow> u32" where
  "flush_timeout rto = (let timeout = rto div 2 in if timeout < 20 then 20 else timeout)"

text \<open>
  The loop of \<open>Flush\<close>: \<open>out\<close> are the segments written so far, \<open>seg\<close> is the one being filled,
  \<open>done\<close> are the entries passed (with their new flush times).
\<close>

fun flush_loop ::
  "u32 \<Rightarrow> u32 \<Rightarrow> ack_entry list \<Rightarrow> ack_entry list \<Rightarrow> u32 list \<Rightarrow> bool \<Rightarrow> ack_segment \<Rightarrow> ack_segment list \<Rightarrow>
     ack_entry list \<times> u32 list \<times> bool \<times> ack_segment \<times> ack_segment list" where
  "flush_loop current rto [] done cands dirty seg out = (done, cands, dirty, seg, out)"
| "flush_loop current rto (e # es) done cands dirty seg out =
     (if ae_nextFlush e > current
      then flush_loop current rto es (done @ [e])
             (if length cands < 128 then cands @ [ae_number e] else cands) dirty seg out
      else
        (let seg' = PutTimestamp (ae_timestamp e) (PutNumber (ae_number e) seg);
             e' = e\<lparr>ae_nextFlush := current + flush_timeout rto\<rparr> in
         if ack_IsFull seg'
         then flush_loop current rto es (done @ [e']) cands False NewAckSegment (out @ [seg'])
         else flush_loop current rto es (done @ [e']) cands dirty seg' out))"

fun put_candidates :: "u32 list \<Rightarrow> ack_segment \<Rightarrow> ack_segment" where
  "put_candidates [] seg = seg"
| "put_candidates (n # ns) seg = (if ack_IsFull seg then seg else put_candidates ns (PutNumber n seg))"

definition ack_Flush :: "u32 \<Rightarrow> u32 \<Rightarrow> ack_list \<Rightarrow> ack_list \<times> ack_segment list" where
  "ack_Flush current rto l =
     (case flush_loop current rto (al_entries l) [] [] (al_dirty l) NewAckSegment [] of
        (es, cands, dirty, seg, out) \<Rightarrow>
          if dirty \<or> \<not> ack_IsEmpty seg
          then (l\<lparr>al_entries := es, al_candidates := cands, al_dirty := False\<rparr>, out @ [put_candidates cands seg])
          else (l\<lparr>al_entries := es, al_candidates := cands, al_dirty := dirty\<rparr>, out))"

section \<open>The receiving worker\<close>

record recv_worker =
  rw_leftOver :: "multi_buffer option"
  rw_window :: recv_window
  rw_acklist :: ack_list
  rw_nextNumber :: u32
  rw_windowSize :: u32

definition NewReceivingWorker :: "u32 \<Rightarrow> recv_worker" where
  "NewReceivingWorker inFlightSize =
     \<lparr>rw_leftOver = None, rw_window = NewReceivingWindow, rw_acklist = NewAckList, rw_nextNumber = 0,
      rw_windowSize = inFlightSize\<rparr>"

definition rw_Release :: "recv_worker \<Rightarrow> pools \<Rightarrow> recv_worker \<times> pools" where
  "rw_Release w ps =
     (w\<lparr>rw_leftOver := None\<rparr>,
      case rw_leftOver w of None \<Rightarrow> ps | Some mb \<Rightarrow> snd (ReleaseMulti mb ps))"

definition ProcessSendingNext :: "u32 \<Rightarrow> recv_worker \<Rightarrow> recv_worker" where
  "ProcessSendingNext number w = w\<lparr>rw_acklist := ack_Clear number (rw_acklist w)\<rparr>"

definition recv_ProcessSegment :: "data_segment \<Rightarrow> recv_worker \<times> pools \<Rightarrow> recv_worker \<times> pools" where
  "recv_ProcessSegment seg = (\<lambda>(w, ps).
     let number = ds_Number seg;
         idx = number - rw_nextNumber w in
     if idx \<ge> rw_windowSize w then (w, ps)
     else
       (let al = ack_Add number (ds_Timestamp seg) (ack_Clear (ds_SendingNext seg) (rw_acklist w));
            (win, isNew) = win_Set number seg (rw_window w) in
        (w\<lparr>rw_acklist := al, rw_window := win\<rparr>, if isNew then ps else snd (data_Release seg ps))))"

text \<open>
  The loop that takes consecutive segments out of the window; every round shrinks the window.  A nil
  payload, which would read as an empty buffer, is left out of the list.
\<close>

lemma length_delete_mem: "map_of w i = Some x \<Longrightarrow> length (AList.delete i w) < length w"
  by (auto simp: AList.delete_eq dest: map_of_SomeD intro!: length_filter_less)

function take_window :: "u32 \<Rightarrow> recv_window \<Rightarrow> u32 \<times> recv_window \<times> multi_buffer" where
  "take_window next win =
     (case win_Remove next win of
        (win', None) \<Rightarrow> (next, win', [])
      | (win', Some seg) \<Rightarrow>
          (case take_window (next + 1) win' of (n, w, mb) \<Rightarrow>
             (n, w, (case snd (Detach seg) of None \<Rightarrow> mb | Some b \<Rightarrow> b # mb))))"
  by pat_completeness auto
termination
  by (relation "measure (\<lambda>(n, w). length w)")
    (auto simp: win_Remove_def length_delete_mem split: option.splits)

declare take_window.simps [simp del]

definition recv_ReadMultiBuffer :: "recv_worker \<Rightarrow> recv_worker \<times> multi_buffer" where
  "recv_ReadMultiBuffer w =
     (case rw_leftOver w of
        Some mb \<Rightarrow> (w\<lparr>rw_leftOver := None\<rparr>, mb)
      | None \<Rightarrow>
          (case take_window (rw_nextNumber w) (rw_window w) of (n, win, mb) \<Rightarrow>
             (w\<lparr>rw_nextNumber := n, rw_window := win\<rparr>, mb)))"

definition recv_Read :: "recv_worker \<Rightarrow> nat \<Rightarrow> (recv_worker \<times> bytes) res" where
  "recv_Read w k =
     (case recv_ReadMultiBuffer w of (w1, mb) \<Rightarrow>
        if mb_IsEmpty mb then Ok (w1, [])
        else rmap (\<lambda>(mb', bs). (if mb_IsEmpty mb' then w1 else w1\<lparr>rw_leftOver := Some mb'\<rparr>, bs))
               (SplitBytes mb k))"

definition IsDataAvailable :: "recv_worker \<Rightarrow> bool" where
  "IsDataAvailable w = win_Has (rw_nextNumber w) (rw_window w)"

definition NextNumber :: "recv_worker \<Rightarrow> u32" where
  "NextNumber w = rw_nextNumber w"

text \<open>\<open>Write\<close> completes an acknowledgement before it goes to the connection's output.\<close>

definition recv_Write :: "u16 \<Rightarrow> bool \<Rightarrow> recv_worker \<Rightarrow> ack_segment \<Rightarrow> ack_segment" where
  "recv_Write conversation readyToClose w seg =
     seg\<lparr>as_Conv := conversation, as_ReceivingNext := rw_nextNumber w,
         as_ReceivingWindow := rw_nextNumber w + rw_windowSize w,
         as_Option := (if readyToClose then SegmentOptionClose else 0)\<rparr>"

definition recv_Flush :: "u16 \<Rightarrow> bool \<Rightarrow> u32 \<Rightarrow> u32 \<Rightarrow> recv_worker \<Rightarrow> recv_worker \<times> ack_segment list" where
  "recv_Flush conversation readyToClose current rto w =
     (case ack_Flush current rto (rw_acklist w) of (l, out) \<Rightarrow>
        (w\<lparr>rw_acklist := l\<rparr>, map (recv_Write conversation readyToClose w) out))"

definition recv_UpdateNecessary :: "recv_worker \<Rightarrow> bool" where
  "recv_UpdateNecessary w \<longleftrightarrow> length (al_entries (rw_acklist w)) > 0"

section \<open>In-order delivery\<close>

text \<open>
  What happens to a worker: segments arrive in any order, with any losses and duplicates, and the
  application reads.  The second component of the state collects what has been read.
\<close>

datatype recv_event = Arrive data_segment | SendingNext u32 | Read_all | Read_some nat | Flush_acks u32 u32

fun recv_step :: "recv_event \<Rightarrow> recv_worker \<times> bytes \<Rightarrow> recv_worker \<times> bytes" where
  "recv_step (Arrive seg) (w, out) = (fst (recv_ProcessSegment seg (w, pools_init)), out)"
| "recv_step (SendingNext n) (w, out) = (ProcessSendingNext n w, out)"
| "recv_step Read_all (w, out) = (case recv_ReadMultiBuffer w of (w', mb) \<Rightarrow> (w', out @ mb_content mb))"
| "recv_step (Read_some k) (w, out) =
     (case recv_Read w k of Ok (w', bs) \<Rightarrow> (w', out @ bs) | _ \<Rightarrow> (w, out))"
| "recv_step (Flush_acks current rto) (w, out) = (fst (recv_Flush 0 False current rto w), out)"

definition recv_run :: "recv_event list \<Rightarrow> recv_worker \<times> bytes \<Rightarrow> recv_worker \<times> bytes" where
  "recv_run evs s = fold recv_step evs s"

text \<open>All segments that arrive have a number \<open>n\<close> in \<open>A\<close> and carry the payload \<open>f n\<close>.\<close>

definition seg_of :: "u32 set \<Rightarrow> (u32 \<Rightarrow> bytes) \<Rightarrow> data_segment \<Rightarrow> bool" where
  "seg_of A f seg \<longleftrightarrow> ds_Number seg \<in> A \<and>
     (\<exists>b. ds_payload seg = Some b \<and> buf_wf b \<and> content b = f (ds_Number seg))"

definition event_of :: "u32 set \<Rightarrow> (u32 \<Rightarrow> bytes) \<Rightarrow> recv_event \<Rightarrow> bool" where
  "event_of A f ev \<longleftrightarrow> (case ev of Arrive seg \<Rightarrow> seg_of A f seg | _ \<Rightarrow> True)"

definition leftOver_list :: "recv_worker \<Rightarrow> multi_buffer" where
  "leftOver_list w = (case rw_leftOver w of None \<Rightarrow> [] | Some mb \<Rightarrow> mb)"

lemma word_dec_less: "x < n \<Longrightarrow> x \<noteq> 0 \<Longrightarrow> x - 1 < (n :: u32)"
  by (simp add: word_less_nat_alt unat_minus_one)

text \<open>The windows that can occur when \<open>next\<close> is the number to be delivered next.\<close>

definition win_ok :: "u32 set \<Rightarrow> (u32 \<Rightarrow> bytes) \<Rightarrow> u32 \<Rightarrow> u32 \<Rightarrow> recv_window \<Rightarrow> bool" where
  "win_ok A f wsize next win \<longleftrightarrow> distinct (map fst win) \<and>
     (\<forall>(i, seg) \<in> set win. ds_Number seg = i \<and> seg_of A f seg \<and> i - next < wsize)"

lemma win_ok_delete:
  assumes "win_ok A f wsize next win"
  shows "win_ok A f wsize (next + 1) (AList.delete next win)"
proof -
  have "i - (next + 1) < wsize" if "i - next < wsize" "i \<noteq> next" for i
    using word_dec_less [OF that(1)] that(2) by (simp add: algebra_simps)
  moreover have "distinct (map fst (AList.delete next win))"
    using assms by (simp add: win_ok_def distinct_delete)
  ultimately show ?thesis
    using assms by (auto simp: win_ok_def AList.delete_eq)
qed

lemma win_ok_Set:
  assumes "win_ok A f wsize next win" and "seg_of A f seg" and "ds_Number seg - next < wsize"
  shows "win_ok A f wsize next (fst (win_Set (ds_Number seg) seg win))"
proof (cases "map_of win (ds_Number seg)")
  case None
  then have "ds_Number seg \<notin> fst ` set win" by (simp add: map_of_eq_None_iff)
  then have "AList.update (ds_Number seg) seg win = win @ [(ds_Number seg, seg)]"
    by (induction win) auto
  then show ?thesis using assms None \<open>ds_Number seg \<notin> fst ` set win\<close> by (auto simp: win_ok_def win_Set_def)
qed (use assms in \<open>simp add: win_Set_def\<close>)

lemma upt_word: "concat (map (\<lambda>j. f (word_of_nat j)) [m..<Suc (m + k)]) =
    f (word_of_nat m) @ concat (map (\<lambda>j. f (word_of_nat j)) [Suc m..<Suc (m + k)])"
  by (simp add: upt_conv_Cons del: upt_Suc)

lemma take_window_spec:
  "win_ok A f wsize next win \<Longrightarrow> next = word_of_nat m \<Longrightarrow> take_window next win = (n', win', mb) \<Longrightarrow>
     \<exists>k. n' = word_of_nat (m + k) \<and> win_ok A f wsize n' win' \<and> mb_wf mb \<and>
       mb_content mb = concat (map (\<lambda>j. f (word_of_nat j)) [m..<m + k]) \<and>
       (\<forall>j. m \<le> j \<and> j < m + k \<longrightarrow> word_of_nat j \<in> A) \<and> map_of win' n' = None \<and>
       (\<forall>i. map_of win i \<noteq> None \<longrightarrow> map_of win' i \<noteq> None \<or> i \<in> word_of_nat ` {m..<m + k})"
proof (induction "next" win arbitrary: m n' win' mb rule: take_window.induct)
  case (1 nxt win)
  show ?case
  proof (cases "map_of win nxt")
    case None
    then have "take_window nxt win = (nxt, win, [])"
      by (simp add: take_window.simps [of nxt] win_Remove_def)
    with "1.prems" None show ?thesis by (intro exI [of _ 0]) auto
  next
    case (Some seg)
    have r: "win_Remove nxt win = (AList.delete nxt win, Some seg)" using Some by (simp add: win_Remove_def)
    obtain b where b: "ds_payload seg = Some b" "buf_wf b" "content b = f nxt" "nxt \<in> A"
      using "1.prems"(1) map_of_SomeD [OF Some] by (auto simp: win_ok_def seg_of_def)
    obtain n1 w1 mb1 where t: "take_window (nxt + 1) (AList.delete nxt win) = (n1, w1, mb1)"
      using prod_cases3 by blast
    have eq: "n' = n1" "win' = w1" "mb = b # mb1"
      using "1.prems"(3) r t b by (simp_all add: take_window.simps [of nxt] Detach_def)
    have nx: "nxt + 1 = word_of_nat (Suc m)" using "1.prems"(2) by simp
    obtain k where "n1 = word_of_nat (Suc m + k)" "win_ok A f wsize n1 w1" "mb_wf mb1"
      "mb_content mb1 = concat (map (\<lambda>j. f (word_of_nat j)) [Suc m..<Suc m + k])"
      "\<forall>j. Suc m \<le> j \<and> j < Suc m + k \<longrightarrow> word_of_nat j \<in> A" "map_of w1 n1 = None"
      "\<forall>i. map_of (AList.delete nxt win) i \<noteq> None \<longrightarrow> map_of w1 i \<noteq> None \<or> i \<in> word_of_nat ` {Suc m..<Suc m + k}"
      using "1.IH" [OF r [symmetric] refl win_ok_delete [OF "1.prems"(1)] nx t] by blast
    moreover have "map_of w1 i \<noteq> None \<or> i \<in> word_of_nat ` {m..<m + Suc k}" if "map_of win i \<noteq> None" for i
    proof (cases "i = nxt")
      case True
      then show ?thesis using "1.prems"(2) by auto
    next
      case False
      then have "map_of (AList.delete nxt win) i \<noteq> None" using that by (simp add: delete_conv')
      with calculation(7) have "map_of w1 i \<noteq> None \<or> i \<in> word_of_nat ` {Suc m..<Suc m + k}" by blast
      then show ?thesis by auto
    qed
    moreover from calculation(5) b(4) "1.prems"(2) have "\<forall>j. m \<le> j \<and> j < m + Suc k \<longrightarrow> word_of_nat j \<in> A"
      by (metis Suc_le_eq add_Suc_right add_Suc le_neq_implies_less)
    ultimately show ?thesis
      using eq b "1.prems"(2) by (intro exI [of _ "Suc k"]) (simp add: upt_word del: upt_Suc not_None_eq)
  qed
qed

text \<open>\<open>m\<close> counts the segments taken out of the window.\<close>

definition recv_inv :: "u32 set \<Rightarrow> (u32 \<Rightarrow> bytes) \<Rightarrow> u32 \<Rightarrow> nat \<Rightarrow> recv_worker \<times> bytes \<Rightarrow> bool" where
  "recv_inv A f wsize m = (\<lambda>(w, out).
     rw_windowSize w = wsize \<and> rw_nextNumber w = word_of_nat m \<and>
     win_ok A f wsize (rw_nextNumber w) (rw_window w) \<and>
     mb_wf (leftOver_list w) \<and>
     (\<forall>j < m. word_of_nat j \<in> A) \<and>
     out @ mb_content (leftOver_list w) = concat (map (\<lambda>j. f (word_of_nat j)) [0..<m]))"

text \<open>What is in the window stays there until it is delivered.\<close>

definition keeps :: "nat \<Rightarrow> recv_worker \<Rightarrow> nat \<Rightarrow> recv_worker \<Rightarrow> bool" where
  "keeps m w m' w' \<longleftrightarrow> m \<le> m' \<and>
     (\<forall>i. map_of (rw_window w) i \<noteq> None \<longrightarrow> map_of (rw_window w') i \<noteq> None \<or> i \<in> word_of_nat ` {m..<m'})"

definition accepts :: "recv_worker \<Rightarrow> data_segment \<Rightarrow> bool" where
  "accepts w seg \<longleftrightarrow> ds_Number seg - rw_nextNumber w < rw_windowSize w"

lemma Arrive_keeps:
  "keeps m w m (fst (recv_ProcessSegment seg (w, ps)))"
  "accepts w seg \<Longrightarrow> map_of (rw_window (fst (recv_ProcessSegment seg (w, ps)))) (ds_Number seg) \<noteq> None"
  by (auto simp: keeps_def accepts_def recv_ProcessSegment_def win_Set_def Let_def update_conv' split: prod.splits if_splits option.splits)

lemma recv_inv_Arrive:
  assumes "recv_inv A f wsize m (w, out)" and "seg_of A f seg"
  shows "recv_inv A f wsize m (fst (recv_ProcessSegment seg (w, ps)), out)"
proof (cases "ds_Number seg - rw_nextNumber w \<ge> rw_windowSize w")
  case False
  have "win_ok A f wsize (rw_nextNumber w) (fst (win_Set (ds_Number seg) seg (rw_window w)))"
    using assms False by (intro win_ok_Set) (auto simp: recv_inv_def not_le)
  with False assms show ?thesis
    by (auto simp: recv_ProcessSegment_def recv_inv_def leftOver_list_def Let_def split: prod.splits)
qed (use assms in \<open>simp add: recv_ProcessSegment_def Let_def\<close>)

lemma recv_ReadMultiBuffer_inv:
  assumes "recv_inv A f wsize m (w, out)" and "recv_ReadMultiBuffer w = (w', mb)"
  shows "\<exists>m'. recv_inv A f wsize m' (w', out @ mb_content mb) \<and> mb_wf mb \<and> rw_leftOver w' = None \<and> keeps m w m' w' \<and>
    (rw_leftOver w = None \<longrightarrow> map_of (rw_window w') (rw_nextNumber w') = None)"
proof (cases "rw_leftOver w")
  case None
  obtain n win mb1 where t: "take_window (rw_nextNumber w) (rw_window w) = (n, win, mb1)" using prod_cases3 by blast
  then have eq: "w' = w\<lparr>rw_nextNumber := n, rw_window := win\<rparr>" "mb = mb1"
    using assms(2) None by (simp_all add: recv_ReadMultiBuffer_def)
  have inv: "win_ok A f wsize (rw_nextNumber w) (rw_window w)" "rw_nextNumber w = word_of_nat m"
    "out = concat (map (\<lambda>j. f (word_of_nat j)) [0..<m])" "rw_windowSize w = wsize" "\<forall>j < m. word_of_nat j \<in> A"
    using assms(1) None by (auto simp: recv_inv_def leftOver_list_def)
  obtain k where "n = word_of_nat (m + k)" "win_ok A f wsize n win" "mb_wf mb1"
    "mb_content mb1 = concat (map (\<lambda>j. f (word_of_nat j)) [m..<m + k])"
    "\<forall>j. m \<le> j \<and> j < m + k \<longrightarrow> word_of_nat j \<in> A" "map_of win n = None" "keeps m w (m + k) w'"
    using take_window_spec [OF inv(1,2) t] eq by (auto simp: keeps_def)
  moreover have "[0..<m + k] = [0..<m] @ [m..<m + k]" by (rule upt_add_eq_append) simp
  moreover from calculation(5) inv(5) have "\<forall>j < m + k. word_of_nat j \<in> A" by (metis not_le_imp_less)
  ultimately show ?thesis
    using inv eq None by (intro exI [of _ "m + k"]) (simp add: recv_inv_def leftOver_list_def)
next
  case (Some mb1)
  then show ?thesis
    using assms by (intro exI [of _ m]) (auto simp: recv_inv_def leftOver_list_def recv_ReadMultiBuffer_def keeps_def)
qed

lemma recv_Read_inv:
  assumes "recv_inv A f wsize m (w, out)"
  shows "\<exists>m' w' bs. recv_Read w k = Ok (w', bs) \<and> recv_inv A f wsize m' (w', out @ bs) \<and> length bs \<le> k \<and> keeps m w m' w'"
proof -
  obtain w1 mb where r: "recv_ReadMultiBuffer w = (w1, mb)" by fastforce
  obtain m' where inv: "recv_inv A f wsize m' (w1, out @ mb_content mb)" "mb_wf mb" "rw_leftOver w1 = None" "keeps m w m' w1"
    using recv_ReadMultiBuffer_inv [OF assms r] by blast
  obtain rest where sp: "SplitBytes mb k = Ok (rest, take k (mb_content mb))" "mb_wf rest"
    "mb_content rest = drop k (mb_content mb)" using SplitBytes_content [OF inv(2)] by blast
  show ?thesis
  proof (cases "mb_IsEmpty mb")
    case True
    then have "mb_content mb = []" using inv(2) by (simp add: mb_IsEmpty_content)
    then show ?thesis using True inv(1,4) r by (auto simp: recv_Read_def)
  next
    case False
    have "mb_IsEmpty rest \<longleftrightarrow> drop k (mb_content mb) = []" using sp by (simp add: mb_IsEmpty_content)
    then show ?thesis
      using False inv r sp
      by (intro exI [of _ m']) (auto simp: recv_Read_def recv_inv_def leftOver_list_def keeps_def)
  qed
qed

lemma recv_step_inv:
  assumes "recv_inv A f wsize m (w, out)" and "event_of A f ev"
  shows "\<exists>m'. recv_inv A f wsize m' (recv_step ev (w, out)) \<and> keeps m w m' (fst (recv_step ev (w, out)))"
proof (cases ev)
  case (Arrive seg)
  then show ?thesis using recv_inv_Arrive [OF assms(1)] Arrive_keeps(1) [of m w seg] assms(2) by (auto simp: event_of_def)
next
  case Read_all
  then show ?thesis using recv_ReadMultiBuffer_inv [OF assms(1)] by (fastforce split: prod.splits)
next
  case (Read_some k)
  then show ?thesis using recv_Read_inv [OF assms(1), of k] by auto
qed (use assms in \<open>auto simp: recv_inv_def leftOver_list_def ProcessSendingNext_def recv_Flush_def keeps_def
  split: prod.splits intro!: exI [of _ m]\<close>)

text \<open>The numbers of the segments that lay within the window when they arrived.\<close>

fun recv_accepted :: "recv_event list \<Rightarrow> recv_worker \<times> bytes \<Rightarrow> u32 list" where
  "recv_accepted [] s = []"
| "recv_accepted (ev # evs) s =
     (case ev of Arrive seg \<Rightarrow> (if accepts (fst s) seg then [ds_Number seg] else []) | _ \<Rightarrow> []) @ recv_accepted evs (recv_step ev s)"

definition accounted :: "u32 set \<Rightarrow> nat \<Rightarrow> recv_worker \<Rightarrow> bool" where
  "accounted G m w \<longleftrightarrow> (\<forall>i \<in> G. i \<in> word_of_nat ` {..<m} \<or> map_of (rw_window w) i \<noteq> None)"

lemma accounted_keeps: "accounted G m w \<Longrightarrow> keeps m w m' w' \<Longrightarrow> accounted G m' w'"
  by (fastforce simp: accounted_def keeps_def)

lemma recv_run_inv:
  "recv_inv A f wsize m (w, out) \<Longrightarrow> list_all (event_of A f) evs \<Longrightarrow> accounted G m w \<Longrightarrow>
     \<exists>m'. recv_inv A f wsize m' (recv_run evs (w, out)) \<and> accounted (G \<union> set (recv_accepted evs (w, out))) m' (fst (recv_run evs (w, out)))"
proof (induction evs arbitrary: m w out G)
  case (Cons ev evs)
  obtain m' where m': "recv_inv A f wsize m' (recv_step ev (w, out))" "keeps m w m' (fst (recv_step ev (w, out)))"
    using recv_step_inv [OF Cons.prems(1)] Cons.prems(2) by auto
  obtain w1 out1 where s: "recv_step ev (w, out) = (w1, out1)" by fastforce
  define N where "N = set (case ev of Arrive seg \<Rightarrow> (if accepts w seg then [ds_Number seg] else []) | _ \<Rightarrow> [])"
  have "accounted N m' w1"
  proof (cases ev)
    case (Arrive seg)
    then show ?thesis using s Arrive_keeps(2) [of w seg pools_init] by (auto simp: N_def accounted_def)
  qed (simp_all add: N_def accounted_def)
  with accounted_keeps [OF Cons.prems(3) m'(2)] have h: "accounted (G \<union> N) m' w1" by (auto simp: accounted_def s)
  have "set (recv_accepted (ev # evs) (w, out)) = N \<union> set (recv_accepted evs (w1, out1))" by (simp add: s N_def)
  with Cons.IH [OF m'(1) [unfolded s] _ h] Cons.prems(2) show ?case by (simp add: recv_run_def s Un_assoc)
qed (auto simp: recv_run_def)

lemma win_ok_bound:
  assumes "win_ok A f wsize next win"
  shows "length win \<le> unat wsize"
proof -
  have inj: "inj_on (\<lambda>i. unat (i - next)) (set (map fst win))"
    by (rule inj_onI) (metis diff_add_cancel word_unat_eq_iff)
  have "(\<lambda>i. unat (i - next)) ` set (map fst win) \<subseteq> {..<unat wsize}"
    using assms by (auto simp: win_ok_def word_less_nat_alt)
  then have "card ((\<lambda>i. unat (i - next)) ` set (map fst win)) \<le> card {..<unat wsize}"
    by (rule card_mono [OF finite_lessThan])
  then have "card (set (map fst win)) \<le> unat wsize"
    unfolding card_image [OF inj] by simp
  then show ?thesis using assms distinct_card [of "map fst win"] by (simp add: win_ok_def)
qed

section \<open>Acknowledgements\<close>

lemma flush_loop_numbers:
  assumes "flush_loop current rto es dn cands dirty seg out = (es', cands', dirty', seg', out')"
    and "length (as_NumberList seg) < ackNumberLimit"
    and "list_all (\<lambda>s. length (as_NumberList s) \<le> ackNumberLimit) out"
  shows "concat (map as_NumberList out') @ as_NumberList seg' = concat (map as_NumberList out) @ as_NumberList seg @
      map ae_number (filter (\<lambda>e. \<not> ae_nextFlush e > current) es) \<and>
    length (as_NumberList seg') < ackNumberLimit \<and>
    list_all (\<lambda>s. length (as_NumberList s) \<le> ackNumberLimit) out' \<and>
    map ae_number es' = map ae_number dn @ map ae_number es"
  using assms
proof (induction es arbitrary: dn cands dirty seg out)
  case (Cons e es)
  show ?case
  proof (cases "ae_nextFlush e > current")
    case True
    then show ?thesis using Cons.IH [of "dn @ [e]"] Cons.prems by auto
  next
    case False
    let ?seg = "PutTimestamp (ae_timestamp e) (PutNumber (ae_number e) seg)"
    have n: "as_NumberList ?seg = as_NumberList seg @ [ae_number e]"
      by (simp add: PutTimestamp_def PutNumber_def)
    show ?thesis
    proof (cases "ack_IsFull ?seg")
      case True
      have z: "as_NumberList NewAckSegment = []" by (simp add: NewAckSegment_def)
      show ?thesis
        using Cons.IH [of "dn @ [e\<lparr>ae_nextFlush := current + flush_timeout rto\<rparr>]" cands False NewAckSegment "out @ [?seg]"]
          Cons.prems False True n z
        by (simp add: Let_def ack_IsFull_def ackNumberLimit_def)
    next
      case f: False
      show ?thesis
        using Cons.IH [of "dn @ [e\<lparr>ae_nextFlush := current + flush_timeout rto\<rparr>]" cands dirty ?seg out]
          Cons.prems False f n
        by (simp add: Let_def ack_IsFull_def)
    qed
  qed
qed auto

lemma put_candidates_numbers:
  "length (as_NumberList seg) \<le> ackNumberLimit \<Longrightarrow>
     \<exists>ns. as_NumberList (put_candidates cands seg) = as_NumberList seg @ ns \<and> set ns \<subseteq> set cands \<and>
       length (as_NumberList (put_candidates cands seg)) \<le> ackNumberLimit"
proof (induction cands arbitrary: seg)
  case (Cons c cands)
  show ?case
  proof (cases "ack_IsFull seg")
    case False
    then have "length (as_NumberList (PutNumber c seg)) \<le> ackNumberLimit"
      using Cons.prems by (simp add: ack_IsFull_def PutNumber_def)
    from Cons.IH [OF this] False show ?thesis by (auto simp: PutNumber_def)
  qed (use Cons.prems in auto)
qed simp

lemma recv_run_accounted:
  assumes "list_all (event_of A f) evs"
  shows "\<exists>m. recv_inv A f wsize m (recv_run evs (NewReceivingWorker wsize, [])) \<and>
    accounted (set (recv_accepted evs (NewReceivingWorker wsize, []))) m (fst (recv_run evs (NewReceivingWorker wsize, [])))"
proof -
  have "recv_inv A f wsize 0 (NewReceivingWorker wsize, [])"
    by (simp add: recv_inv_def NewReceivingWorker_def leftOver_list_def win_ok_def NewReceivingWindow_def)
  from recv_run_inv [OF this assms, of "{}"] show ?thesis by (simp add: accounted_def)
qed

lemma recv_run_start:
  assumes "list_all (event_of A f) evs" and "recv_run evs (NewReceivingWorker wsize, []) = (w, out)"
  shows "\<exists>m. recv_inv A f wsize m (w, out)"
  using recv_run_accounted [OF assms(1), of wsize] assms(2) by auto

text \<open>The first read may only return what an earlier one left over; after the second one nothing that is due is in the window.\<close>

lemma two_reads:
  assumes "recv_inv A f wsize m (w, out)" and "accounted G m w" and "n \<le> 2 ^ 32" and "\<forall>j < n. word_of_nat j \<in> G"
  shows "prefix (concat (map (\<lambda>j. f (word_of_nat j)) [0..<n])) (snd (recv_run [Read_all, Read_all] (w, out)))"
proof -
  obtain w1 mb1 where r1: "recv_ReadMultiBuffer w = (w1, mb1)" by fastforce
  from recv_ReadMultiBuffer_inv [OF assms(1) this] obtain m1 where
    1: "recv_inv A f wsize m1 (w1, out @ mb_content mb1)" "rw_leftOver w1 = None" "keeps m w m1 w1" by blast
  obtain w2 mb2 where r2: "recv_ReadMultiBuffer w1 = (w2, mb2)" by fastforce
  from recv_ReadMultiBuffer_inv [OF 1(1) this] 1(2) obtain k where
    2: "recv_inv A f wsize k (w2, (out @ mb_content mb1) @ mb_content mb2)" "rw_leftOver w2 = None" "keeps m1 w1 k w2" "map_of (rw_window w2) (rw_nextNumber w2) = None" by blast
  have h: "accounted G k w2" using accounted_keeps accounted_keeps assms(2) 1(3) 2(3) by blast
  have "n \<le> k"
  proof (rule ccontr)
    assume "\<not> n \<le> k"
    then have k: "k < n" by simp
    then have "(word_of_nat k :: u32) \<in> word_of_nat ` {..<k}" using h assms(4) 2(1,4) by (auto simp: accounted_def recv_inv_def)
    then obtain j where "j < k" "(word_of_nat k :: u32) = word_of_nat j" by auto
    moreover have "unat (word_of_nat i :: u32) = i" if "i < n" for i using that assms(3) by (simp add: unat_of_nat)
    ultimately show False using k by (metis less_trans nat_neq_iff)
  qed
  then have "[0..<k] = [0..<n] @ [n..<k]" by (metis le0 le_add_diff_inverse upt_add_eq_append)
  moreover have "(out @ mb_content mb1) @ mb_content mb2 = concat (map (\<lambda>j. f (word_of_nat j)) [0..<k])"
    using 2(1,2) by (simp add: recv_inv_def leftOver_list_def)
  ultimately show ?thesis by (simp add: recv_run_def r1 r2)
qed

section \<open>Properties\<close>

text \<open>
  C27. Delivery is in order, without gaps and without duplicates, and nothing that was accepted is lost, whatever the network does: if every segment
  that arrives with number \<open>n\<close> carries \<open>f n\<close>, then what the application has read, followed by the
  left-over, is the concatenation of \<open>f 0\<close>, \<open>f 1\<close>, ... up to the next expected number, and all these
  numbers have arrived; every number that lay within the window when it arrived is delivered or still in the window; and when the segments 0 to \<open>n - 1\<close>
  have been accepted, two more reads have delivered all of them.
\<close>

theorem recv_in_order:
  assumes "list_all (event_of A f) evs" and "recv_run evs (NewReceivingWorker wsize, []) = (w, out)"
  shows "(\<exists>m. rw_nextNumber w = word_of_nat m \<and> (\<forall>j < m. word_of_nat j \<in> A) \<and>
      out @ mb_content (leftOver_list w) = concat (map (\<lambda>j. f (word_of_nat j)) [0..<m]) \<and>
      (\<forall>i \<in> set (recv_accepted evs (NewReceivingWorker wsize, [])). i \<in> word_of_nat ` {..<m} \<or> win_Has i (rw_window w))) \<and>
    (\<forall>n \<le> 2 ^ 32. (\<forall>j < n. word_of_nat j \<in> set (recv_accepted evs (NewReceivingWorker wsize, []))) \<longrightarrow>
      prefix (concat (map (\<lambda>j. f (word_of_nat j)) [0..<n])) (snd (recv_run [Read_all, Read_all] (w, out))))"
proof -
  obtain m where m: "recv_inv A f wsize m (w, out)" "accounted (set (recv_accepted evs (NewReceivingWorker wsize, []))) m w"
    using recv_run_accounted [OF assms(1), of wsize] assms(2) by auto
  then show ?thesis using two_reads [OF m] by (auto simp: recv_inv_def accounted_def win_Has_def)
qed

definition sample_segment :: data_segment where
  "sample_segment = NewDataSegment\<lparr>ds_payload := Some (append_at_end (New []) [42])\<rparr>"

lemma sample_seg_of: "seg_of UNIV (\<lambda>_. [42]) sample_segment"
  using append_at_end_content [of "New []" "[42]"] New_wf [of "[]"] by (simp add: seg_of_def sample_segment_def)

theorem recv_in_order_witness:
  "prefix [42] (snd (recv_run [Arrive sample_segment, Read_all, Read_all] (NewReceivingWorker 8, [])))"
proof -
  obtain w out where r: "recv_run [Arrive sample_segment] (NewReceivingWorker 8, []) = (w, out)" by fastforce
  have "recv_accepted [Arrive sample_segment] (NewReceivingWorker 8, []) = [0]"
    by (simp add: accepts_def NewReceivingWorker_def sample_segment_def NewDataSegment_def)
  with recv_in_order [of UNIV "\<lambda>_. [42]" "[Arrive sample_segment]" 8, OF _ r] sample_seg_of
  have "prefix [42] (snd (recv_run [Read_all, Read_all] (w, out)))" by (fastforce simp: event_of_def dest: spec [of _ 1])
  then show ?thesis using r by (simp add: recv_run_def)
qed

text \<open>
  The receive window is bounded: whatever arrives, at most \<open>windowSize\<close> segments are buffered.
\<close>

theorem recv_window_bounded:
  assumes "list_all (event_of A f) evs" and "recv_run evs (NewReceivingWorker wsize, []) = (w, out)"
  shows "length (rw_window w) \<le> unat wsize"
  using recv_run_start [OF assms] by (auto simp: recv_inv_def intro: win_ok_bound)

theorem recv_window_bounded_witness:
  "length (rw_window (fst (recv_run [Arrive sample_segment, Arrive sample_segment] (NewReceivingWorker 8, [])))) \<le> unat (8 :: u32)"
  using recv_window_bounded [of UNIV "\<lambda>_. [42]" "[Arrive sample_segment, Arrive sample_segment]" 8] sample_seg_of
  by (cases "recv_run [Arrive sample_segment, Arrive sample_segment] (NewReceivingWorker 8, [])")
    (auto simp: event_of_def)

text \<open>
  A flush acknowledges everything that is due, in order: the segments it emits list all numbers whose
  flush time has come, followed at most by numbers that are not yet due again; no segment exceeds the
  limit of 128 numbers, and no pending number is forgotten.
\<close>

theorem ack_Flush_complete:
  "\<exists>more. case ack_Flush current rto l of (l', out) \<Rightarrow>
     concat (map as_NumberList out) =
       map ae_number (filter (\<lambda>e. \<not> ae_nextFlush e > current) (al_entries l)) @ more \<and>
     list_all (\<lambda>s. length (as_NumberList s) \<le> ackNumberLimit) out \<and>
     map ae_number (al_entries l') = map ae_number (al_entries l)"
proof -
  obtain es cands dirty seg out where fl:
    "flush_loop current rto (al_entries l) [] [] (al_dirty l) NewAckSegment [] = (es, cands, dirty, seg, out)"
    using prod_cases5 by blast
  note sp = flush_loop_numbers [OF fl]
  have z: "as_NumberList NewAckSegment = []" by (simp add: NewAckSegment_def)
  have len: "length (as_NumberList seg) \<le> ackNumberLimit" using sp z by (simp add: ackNumberLimit_def)
  obtain ns where "as_NumberList (put_candidates cands seg) = as_NumberList seg @ ns"
    "length (as_NumberList (put_candidates cands seg)) \<le> ackNumberLimit"
    using put_candidates_numbers [OF len, of cands] by blast
  moreover have "concat (map as_NumberList out) @ as_NumberList seg @ ns =
      map ae_number (filter (\<lambda>e. \<not> ae_nextFlush e > current) (al_entries l)) @ ns"
    using sp z by (simp add: ackNumberLimit_def flip: append.assoc)
  ultimately show ?thesis
    using sp z fl
    by (intro exI [of _ "if dirty \<or> \<not> ack_IsEmpty seg then ns else []"])
      (auto simp: ack_Flush_def ack_IsEmpty_def ackNumberLimit_def)
qed

end
