(* ===== verification/KcpSend.thy ===== *)
theory KcpSend
  imports KcpReceive
begin

text \<open>
  The sending half of an mKCP connection (\<open>transport/internet/kcp/sending.go\<close>) and the sizes it takes from
  the configuration (\<open>config.go\<close>).  The window is a list of segments in sending order; what the worker
  hands to the connection's output is returned as a list.  All numbers are 32-bit words, with the
  comparisons of the source, some of which allow for wrap-around and some of which do not.
\<close>

section \<open>Configuration\<close>

text \<open>Every setting is a pointer that may be nil, and so is the configuration.\<close>

record kcp_config =
  kc_Mtu :: "u32 option"
  kc_Tti :: "u32 option"
  kc_UplinkCapacity :: "u32 option"
  kc_DownlinkCapacity :: "u32 option"
  kc_WriteBuffer :: "u32 option"
  kc_ReadBuffer :: "u32 option"
  kc_Congestion :: bool

definition setting :: "(kcp_config \<Rightarrow> u32 option) \<Rightarrow> u32 \<Rightarrow> kcp_config option \<Rightarrow> u32" where
  "setting get dflt c =
     (case c of None \<Rightarrow> dflt | Some cfg \<Rightarrow> (case get cfg of None \<Rightarrow> dflt | Some x \<Rightarrow> x))"

definition GetMTUValue :: "kcp_config option \<Rightarrow> u32" where
  "GetMTUValue = setting kc_Mtu 1350"

definition GetTTIValue :: "kcp_config option \<Rightarrow> u32" where
  "GetTTIValue = setting kc_Tti 50"

definition GetUplinkCapacityValue :: "kcp_config option \<Rightarrow> u32" where
  "GetUplinkCapacityValue = setting kc_UplinkCapacity 5"

definition GetDownlinkCapacityValue :: "kcp_config option \<Rightarrow> u32" where
  "GetDownlinkCapacityValue = setting kc_DownlinkCapacity 20"

definition GetWriteBufferSize :: "kcp_config option \<Rightarrow> u32" where
  "GetWriteBufferSize = setting kc_WriteBuffer (2 * 1024 * 1024)"

definition GetReadBufferSize :: "kcp_config option \<Rightarrow> u32" where
  "GetReadBufferSize = setting kc_ReadBuffer (2 * 1024 * 1024)"

text \<open>Integer division by zero panics.\<close>

definition udiv :: "u32 \<Rightarrow> u32 \<Rightarrow> u32 res" where
  "udiv a b = (if b = 0 then Panic ''integer divide by zero'' else Ok (a div b))"

definition in_flight :: "u32 \<Rightarrow> kcp_config option \<Rightarrow> u32 res" where
  "in_flight capacity c =
     rbind (udiv (capacity * 1024 * 1024) (GetMTUValue c)) (\<lambda>a.
     rbind (udiv 1000 (GetTTIValue c)) (\<lambda>perSecond.
     rmap (\<lambda>sz. if sz < 8 then 8 else sz) (udiv a perSecond)))"

definition GetSendingInFlightSize :: "kcp_config option \<Rightarrow> u32 res" where
  "GetSendingInFlightSize c = in_flight (GetUplinkCapacityValue c) c"

definition GetReceivingInFlightSize :: "kcp_config option \<Rightarrow> u32 res" where
  "GetReceivingInFlightSize c = in_flight (GetDownlinkCapacityValue c) c"

definition GetSendingBufferSize :: "kcp_config option \<Rightarrow> u32 res" where
  "GetSendingBufferSize c = udiv (GetWriteBufferSize c) (GetMTUValue c)"

definition GetReceivingBufferSize :: "kcp_config option \<Rightarrow> u32 res" where
  "GetReceivingBufferSize c = udiv (GetReadBufferSize c) (GetMTUValue c)"

section \<open>The sending window\<close>

record send_window =
  sw_cache :: "data_segment list"
  sw_totalInFlightSize :: u32

definition NewSendingWindow :: send_window where
  "NewSendingWindow = \<lparr>sw_cache = [], sw_totalInFlightSize = 0\<rparr>"

fun release_segments :: "data_segment list \<Rightarrow> pools \<Rightarrow> pools" where
  "release_segments [] ps = ps"
| "release_segments (s # ss) ps = release_segments ss (snd (data_Release s ps))"

definition sw_Release :: "send_window \<Rightarrow> pools \<Rightarrow> send_window \<times> pools" where
  "sw_Release sw ps = (sw\<lparr>sw_cache := []\<rparr>, release_segments (sw_cache sw) ps)"

definition sw_Len :: "send_window \<Rightarrow> u32" where
  "sw_Len sw = word_of_nat (length (sw_cache sw))"

definition sw_IsEmpty :: "send_window \<Rightarrow> bool" where
  "sw_IsEmpty sw \<longleftrightarrow> length (sw_cache sw) = 0"

definition sw_Push :: "u32 \<Rightarrow> buffer \<Rightarrow> send_window \<Rightarrow> send_window" where
  "sw_Push number b sw =
     sw\<lparr>sw_cache := sw_cache sw @ [NewDataSegment\<lparr>ds_Number := number, ds_payload := Some b\<rparr>]\<rparr>"

definition FirstNumber :: "send_window \<Rightarrow> u32 res" where
  "FirstNumber sw =
     (case sw_cache sw of [] \<Rightarrow> Panic ''nil pointer dereference'' | s # _ \<Rightarrow> Ok (ds_Number s))"

text \<open>The result also lists the segments whose payload is released.\<close>

fun clear_front :: "u32 \<Rightarrow> data_segment list \<Rightarrow> data_segment list \<times> data_segment list" where
  "clear_front una [] = ([], [])"
| "clear_front una (s # ss) =
     (if ds_Number s \<ge> una then (s # ss, [])
      else (case clear_front una ss of (keep, gone) \<Rightarrow> (keep, s # gone)))"

definition sw_Clear :: "u32 \<Rightarrow> send_window \<Rightarrow> send_window" where
  "sw_Clear una sw = sw\<lparr>sw_cache := fst (clear_front una (sw_cache sw))\<rparr>"

text \<open>\<open>Visit\<close> goes through the list until the visitor says stop; the visitor may change the segment.\<close>

fun Visit :: "('a \<Rightarrow> data_segment \<Rightarrow> 'a \<times> data_segment \<times> bool) \<Rightarrow> 'a \<Rightarrow> data_segment list \<Rightarrow> 'a \<times> data_segment list" where
  "Visit visitor a [] = (a, [])"
| "Visit visitor a (s # ss) =
     (case visitor a s of (a', s', goon) \<Rightarrow>
        if goon then (case Visit visitor a' ss of (a'', ss') \<Rightarrow> (a'', s' # ss')) else (a', s' # ss))"

definition fast_ack_visitor :: "u32 \<Rightarrow> u32 \<Rightarrow> unit \<Rightarrow> data_segment \<Rightarrow> unit \<times> data_segment \<times> bool" where
  "fast_ack_visitor number rto a seg =
     (if number = ds_Number seg \<or> number - ds_Number seg > 0x7FFFFFFF then (a, seg, False)
      else if ds_transmit seg > 0 \<and> ds_timeout seg > rto div 3
      then (a, seg\<lparr>ds_timeout := ds_timeout seg - rto div 3\<rparr>, True)
      else (a, seg, True))"

definition HandleFastAck :: "u32 \<Rightarrow> u32 \<Rightarrow> send_window \<Rightarrow> send_window" where
  "HandleFastAck number rto sw =
     (if sw_IsEmpty sw then sw
      else sw\<lparr>sw_cache := snd (Visit (fast_ack_visitor number rto) () (sw_cache sw))\<rparr>)"

text \<open>The variables of \<open>Flush\<close> that its visitor updates, and what it has written.\<close>

record flush_state =
  fs_lost :: u32
  fs_inFlightSize :: u32
  fs_total :: u32
  fs_out :: "data_segment list"

definition flush_visitor ::
  "(data_segment \<Rightarrow> data_segment) \<Rightarrow> u32 \<Rightarrow> u32 \<Rightarrow> u32 \<Rightarrow> flush_state \<Rightarrow> data_segment \<Rightarrow> flush_state \<times> data_segment \<times> bool" where
  "flush_visitor write current rto maxInFlightSize a seg =
     (if current - ds_timeout seg \<ge> 0x7FFFFFFF then (a, seg, True)
      else
        (let a1 = (if ds_transmit seg = 0 then a\<lparr>fs_total := fs_total a + 1\<rparr> else a\<lparr>fs_lost := fs_lost a + 1\<rparr>);
             seg' = write (seg\<lparr>ds_timeout := current + rto, ds_Timestamp := current,
                               ds_transmit := ds_transmit seg + 1\<rparr>);
             n = fs_inFlightSize a1 + 1 in
         (a1\<lparr>fs_inFlightSize := n, fs_out := fs_out a1 @ [seg']\<rparr>, seg', n < maxInFlightSize)))"

text \<open>
  \<open>Flush\<close> with the worker's \<open>Write\<close>, which completes a segment before it is sent; the second result is
  the loss rate for the callback, if it is called.
\<close>

definition sw_Flush ::
  "(data_segment \<Rightarrow> data_segment) \<Rightarrow> u32 \<Rightarrow> u32 \<Rightarrow> u32 \<Rightarrow> send_window \<Rightarrow> send_window \<times> u32 option \<times> data_segment list" where
  "sw_Flush write current rto maxInFlightSize sw =
     (if sw_IsEmpty sw then (sw, None, [])
      else
        (case Visit (flush_visitor write current rto maxInFlightSize)
                \<lparr>fs_lost = 0, fs_inFlightSize = 0, fs_total = sw_totalInFlightSize sw, fs_out = []\<rparr>
                (sw_cache sw) of (a, ss) \<Rightarrow>
           (sw\<lparr>sw_cache := ss, sw_totalInFlightSize := fs_total a\<rparr>,
            if fs_inFlightSize a > 0 \<and> fs_total a \<noteq> 0 then Some (fs_lost a * 100 div fs_total a) else None,
            fs_out a)))"

fun remove_number :: "u32 \<Rightarrow> data_segment list \<Rightarrow> data_segment list option" where
  "remove_number number [] = None"
| "remove_number number (s # ss) =
     (if ds_Number s > number then None
      else if ds_Number s = number then Some ss
      else map_option ((#) s) (remove_number number ss))"

definition sw_Remove :: "u32 \<Rightarrow> send_window \<Rightarrow> send_window \<times> bool" where
  "sw_Remove number sw =
     (case remove_number number (sw_cache sw) of
        None \<Rightarrow> (sw, False)
      | Some ss \<Rightarrow>
          (sw\<lparr>sw_cache := ss,
              sw_totalInFlightSize := (if sw_totalInFlightSize sw > 0 then sw_totalInFlightSize sw - 1
                                       else sw_totalInFlightSize sw)\<rparr>, True))"

section \<open>The sending worker\<close>

record send_worker =
  sk_window :: send_window
  sk_firstUnacknowledged :: u32
  sk_nextNumber :: u32
  sk_remoteNextNumber :: u32
  sk_controlWindow :: u32
  sk_fastResend :: u32
  sk_windowSize :: u32
  sk_firstUnacknowledgedUpdated :: bool
  sk_closed :: bool

definition NewSendingWorker :: "kcp_config option \<Rightarrow> send_worker res" where
  "NewSendingWorker c =
     rbind (GetSendingInFlightSize c) (\<lambda>cw. rbind (GetSendingBufferSize c) (\<lambda>ws.
       Ok \<lparr>sk_window = NewSendingWindow, sk_firstUnacknowledged = 0, sk_nextNumber = 0,
           sk_remoteNextNumber = 32, sk_controlWindow = cw, sk_fastResend = 2, sk_windowSize = ws,
           sk_firstUnacknowledgedUpdated = False, sk_closed = False\<rparr>))"

definition sk_Release :: "send_worker \<Rightarrow> pools \<Rightarrow> send_worker \<times> pools" where
  "sk_Release w ps =
     (case sw_Release (sk_window w) ps of (sw, ps') \<Rightarrow> (w\<lparr>sk_window := sw, sk_closed := True\<rparr>, ps'))"

text \<open>\<open>FirstNumber\<close> is only called on a window that is not empty.\<close>

definition FindFirstUnacknowledged :: "send_worker \<Rightarrow> send_worker" where
  "FindFirstUnacknowledged w =
     (let first = sk_firstUnacknowledged w;
          new = (case FirstNumber (sk_window w) of Ok n \<Rightarrow> n | _ \<Rightarrow> sk_nextNumber w) in
      w\<lparr>sk_firstUnacknowledged := new,
        sk_firstUnacknowledgedUpdated := (if first \<noteq> new then True else sk_firstUnacknowledgedUpdated w)\<rparr>)"

definition ProcessReceivingNext :: "u32 \<Rightarrow> send_worker \<Rightarrow> send_worker" where
  "ProcessReceivingNext nextNumber w =
     FindFirstUnacknowledged (w\<lparr>sk_window := sw_Clear nextNumber (sk_window w)\<rparr>)"

definition processAck :: "u32 \<Rightarrow> send_worker \<Rightarrow> send_worker \<times> bool" where
  "processAck number w =
     (if number - sk_firstUnacknowledged w > 0x7FFFFFFF \<or> number - sk_nextNumber w < 0x7FFFFFFF then (w, False)
      else (case sw_Remove number (sk_window w) of (sw, removed) \<Rightarrow>
              (if removed then FindFirstUnacknowledged (w\<lparr>sk_window := sw\<rparr>) else w\<lparr>sk_window := sw\<rparr>,
               removed)))"

fun process_acks :: "u32 list \<Rightarrow> u32 \<Rightarrow> bool \<Rightarrow> send_worker \<Rightarrow> send_worker \<times> u32 \<times> bool" where
  "process_acks [] maxack maxackRemoved w = (w, maxack, maxackRemoved)"
| "process_acks (number # ns) maxack maxackRemoved w =
     (case processAck number w of (w', removed) \<Rightarrow>
        if maxack < number then process_acks ns number removed w'
        else process_acks ns maxack maxackRemoved w')"

text \<open>The second result is the round-trip time handed to \<open>roundTrip.Update\<close>, if it is called.\<close>

definition send_ProcessSegment :: "u32 \<Rightarrow> ack_segment \<Rightarrow> u32 \<Rightarrow> send_worker \<Rightarrow> send_worker \<times> u32 option" where
  "send_ProcessSegment current seg rto w =
     (if sk_closed w then (w, None)
      else
        (let w1 = (if sk_remoteNextNumber w < as_ReceivingWindow seg
                   then w\<lparr>sk_remoteNextNumber := as_ReceivingWindow seg\<rparr> else w);
             w2 = ProcessReceivingNext (as_ReceivingNext seg) w1 in
         if ack_IsEmpty seg then (w2, None)
         else (case process_acks (as_NumberList seg) 0 False w2 of (w3, maxack, maxackRemoved) \<Rightarrow>
                 if maxackRemoved
                 then (w3\<lparr>sk_window := HandleFastAck maxack rto (sk_window w3)\<rparr>,
                       if current - as_Timestamp seg < 10000 then Some (current - as_Timestamp seg) else None)
                 else (w3, None))))"

definition send_Push :: "buffer \<Rightarrow> send_worker \<Rightarrow> send_worker \<times> bool" where
  "send_Push b w =
     (if sk_closed w then (w, False)
      else if sw_Len (sk_window w) > sk_windowSize w then (w, False)
      else (w\<lparr>sk_window := sw_Push (sk_nextNumber w) b (sk_window w), sk_nextNumber := sk_nextNumber w + 1\<rparr>, True))"

definition send_Write :: "u16 \<Rightarrow> bool \<Rightarrow> send_worker \<Rightarrow> data_segment \<Rightarrow> data_segment" where
  "send_Write conversation readyToClose w seg =
     seg\<lparr>ds_Conv := conversation, ds_SendingNext := sk_firstUnacknowledged w,
         ds_Option := (if readyToClose then SegmentOptionClose else 0)\<rparr>"

text \<open>\<open>inFlight\<close> is the configured in-flight size, \<open>rto\<close> the current timeout.\<close>

definition OnPacketLoss :: "bool \<Rightarrow> u32 \<Rightarrow> u32 \<Rightarrow> u32 \<Rightarrow> send_worker \<Rightarrow> send_worker" where
  "OnPacketLoss congestion rto inFlight lossRate w =
     (if \<not> congestion \<or> rto = 0 then w
      else
        (let cw = sk_controlWindow w;
             cw = (if lossRate \<ge> 15 then 3 * cw div 4 else if lossRate \<le> 5 then cw + cw div 4 else cw);
             cw = (if cw < 16 then 16 else cw);
             cw = (if cw > 2 * inFlight then 2 * inFlight else cw) in
         w\<lparr>sk_controlWindow := cw\<rparr>))"

definition flush_limit :: "bool \<Rightarrow> u32 \<Rightarrow> send_worker \<Rightarrow> u32" where
  "flush_limit congestion inFlight w =
     (let cwnd = inFlight;
          cwnd = (if cwnd > sk_remoteNextNumber w - sk_firstUnacknowledged w
                  then sk_remoteNextNumber w - sk_firstUnacknowledged w else cwnd);
          cwnd = (if congestion \<and> cwnd > sk_controlWindow w then sk_controlWindow w else cwnd) in
      cwnd * 20)"

text \<open>The last result says whether \<open>Flush\<close> sends a ping afterwards.\<close>

definition send_Flush ::
  "u16 \<Rightarrow> bool \<Rightarrow> bool \<Rightarrow> u32 \<Rightarrow> u32 \<Rightarrow> u32 \<Rightarrow> send_worker \<Rightarrow> send_worker \<times> data_segment list \<times> bool" where
  "send_Flush conversation readyToClose congestion inFlight current rto w =
     (if sk_closed w then (w, [], False)
      else
        (let cwnd = flush_limit congestion inFlight w in
         if sw_IsEmpty (sk_window w)
         then (w\<lparr>sk_firstUnacknowledgedUpdated := False\<rparr>, [], sk_firstUnacknowledgedUpdated w)
         else (case sw_Flush (send_Write conversation readyToClose w) current rto cwnd (sk_window w) of
                 (sw, rate, out) \<Rightarrow>
                   (let w1 = w\<lparr>sk_window := sw\<rparr>;
                        w2 = (case rate of None \<Rightarrow> w1 | Some r \<Rightarrow> OnPacketLoss congestion rto inFlight r w1) in
                    (w2\<lparr>sk_firstUnacknowledgedUpdated := False\<rparr>, out, False)))))"

definition CloseWrite :: "send_worker \<Rightarrow> send_worker" where
  "CloseWrite w = w\<lparr>sk_window := sw_Clear 0xFFFFFFFF (sk_window w)\<rparr>"

definition send_IsEmpty :: "send_worker \<Rightarrow> bool" where
  "send_IsEmpty w = sw_IsEmpty (sk_window w)"

definition send_UpdateNecessary :: "send_worker \<Rightarrow> bool" where
  "send_UpdateNecessary w \<longleftrightarrow> \<not> send_IsEmpty w"

definition FirstUnacknowledged :: "send_worker \<Rightarrow> u32" where
  "FirstUnacknowledged w = sk_firstUnacknowledged w"

section \<open>Nothing unacknowledged is dropped\<close>

text \<open>The identity of a segment in the window: its number and its payload.\<close>

definition keys :: "data_segment list \<Rightarrow> (u32 \<times> buffer option) list" where
  "keys ss = map (\<lambda>s. (ds_Number s, ds_payload s)) ss"

definition window_keys :: "send_worker \<Rightarrow> (u32 \<times> buffer option) list" where
  "window_keys w = keys (sw_cache (sk_window w))"

lemma Visit_keys:
  assumes "\<And>a s. case visitor a s of (a', s', g) \<Rightarrow> ds_Number s' = ds_Number s \<and> ds_payload s' = ds_payload s"
  shows "keys (snd (Visit visitor a ss)) = keys ss"
proof (induction ss arbitrary: a)
  case (Cons s ss)
  obtain a' s' g where v: "visitor a s = (a', s', g)" using prod_cases3 by blast
  obtain a'' ss' where r: "Visit visitor a' ss = (a'', ss')" by fastforce
  have "ds_Number s' = ds_Number s \<and> ds_payload s' = ds_payload s" using assms [where a = a and s = s] v by simp
  with Cons [of a'] r v show ?case by (simp add: keys_def)
qed simp

lemma fast_ack_keys: "keys (snd (Visit (fast_ack_visitor n rto) a ss)) = keys ss"
  by (rule Visit_keys) (simp add: fast_ack_visitor_def)

lemma flush_keys:
  assumes "\<And>s. ds_Number (wr s) = ds_Number s \<and> ds_payload (wr s) = ds_payload s"
  shows "keys (snd (Visit (flush_visitor wr current rto mx) a ss)) = keys ss"
  by (rule Visit_keys) (simp add: flush_visitor_def Let_def assms)

lemma clear_front_keys:
  "clear_front una ss = (keep, gone) \<Longrightarrow> ss = gone @ keep \<and> list_all (\<lambda>s. ds_Number s < una) gone"
proof (induction ss arbitrary: keep gone)
  case (Cons s ss)
  then show ?case by (cases "clear_front una ss") (auto simp: not_le split: if_splits)
qed simp

lemma remove_number_keys:
  "remove_number n ss = Some ss' \<Longrightarrow>
     set (keys ss') \<subseteq> set (keys ss) \<and> (\<forall>k \<in> set (keys ss). k \<in> set (keys ss') \<or> fst k = n)"
proof (induction ss arbitrary: ss')
  case (Cons s ss)
  then show ?case by (auto simp: keys_def split: if_splits) blast+
qed simp

text \<open>\<open>removes\<close>: going from one worker to the next only loses segments with numbers in \<open>N\<close>.\<close>

definition removes :: "u32 set \<Rightarrow> send_worker \<Rightarrow> send_worker \<Rightarrow> bool" where
  "removes N w w' \<longleftrightarrow> set (window_keys w') \<subseteq> set (window_keys w) \<and>
     (\<forall>k \<in> set (window_keys w). k \<in> set (window_keys w') \<or> fst k \<in> N) \<and>
     sk_nextNumber w' = sk_nextNumber w \<and> sk_closed w' = sk_closed w"

lemma removes_refl: "removes N w w"
  by (simp add: removes_def)

lemma removes_trans:
  assumes "removes M w w1" and "removes N w1 w2" and "M \<union> N \<subseteq> K"
  shows "removes K w w2"
proof -
  have "k \<in> set (window_keys w2) \<or> fst k \<in> K" if "k \<in> set (window_keys w)" for k
    using assms that unfolding removes_def by blast
  with assms show ?thesis unfolding removes_def by auto
qed

lemma removes_same_keys:
  "window_keys w' = window_keys w \<Longrightarrow> sk_nextNumber w' = sk_nextNumber w \<Longrightarrow> sk_closed w' = sk_closed w \<Longrightarrow>
     removes N w w'"
  by (simp add: removes_def)

lemma FindFirst_removes: "removes {} w (FindFirstUnacknowledged w)"
  by (rule removes_same_keys) (simp_all add: FindFirstUnacknowledged_def window_keys_def Let_def)

lemma ProcessReceivingNext_removes: "removes {n. n < una} w (ProcessReceivingNext una w)"
proof -
  obtain keep gone where c: "clear_front una (sw_cache (sk_window w)) = (keep, gone)" by fastforce
  note sp = clear_front_keys [OF c]
  let ?w = "w\<lparr>sk_window := sw_Clear una (sk_window w)\<rparr>"
  have "removes {n. n < una} w ?w"
    using c sp by (auto simp: removes_def window_keys_def sw_Clear_def keys_def list_all_iff)
  then show ?thesis
    unfolding ProcessReceivingNext_def using FindFirst_removes by (rule removes_trans) simp
qed

lemma processAck_removes: "processAck n w = (w', removed) \<Longrightarrow> removes {n} w w'"
proof (cases "remove_number n (sw_cache (sk_window w))")
  case None
  then show "processAck n w = (w', removed) \<Longrightarrow> removes {n} w w'"
    by (auto simp: processAck_def sw_Remove_def removes_refl split: if_splits)
next
  case (Some ss)
  assume p: "processAck n w = (w', removed)"
  let ?w = "w\<lparr>sk_window := fst (sw_Remove n (sk_window w))\<rparr>"
  have "removes {n} w ?w"
    using Some remove_number_keys [OF Some] by (auto simp: removes_def window_keys_def sw_Remove_def)
  then have "removes {n} w (FindFirstUnacknowledged ?w)" using FindFirst_removes by (rule removes_trans) simp
  then show ?thesis
    using p Some by (auto simp: processAck_def sw_Remove_def removes_refl split: if_splits)
qed

lemma process_acks_removes:
  "process_acks ns mx mr w = (w', mx', mr') \<Longrightarrow> removes (set ns) w w'"
proof (induction ns arbitrary: mx mr w)
  case (Cons n ns)
  obtain w1 r where 1: "processAck n w = (w1, r)" by fastforce
  have "removes (set ns) w1 w'" using Cons 1 by (auto split: if_splits)
  with processAck_removes [OF 1] show ?case by (rule removes_trans) auto
qed (simp add: removes_refl)

definition acknowledges :: "ack_segment \<Rightarrow> u32 set" where
  "acknowledges seg = set (as_NumberList seg) \<union> {n. n < as_ReceivingNext seg}"

lemma send_ProcessSegment_removes:
  assumes "send_ProcessSegment current seg rto w = (w', rtt)"
  shows "removes (acknowledges seg) w w'"
proof (cases "sk_closed w")
  case False
  define w1 where "w1 = (if sk_remoteNextNumber w < as_ReceivingWindow seg
                   then w\<lparr>sk_remoteNextNumber := as_ReceivingWindow seg\<rparr> else w)"
  define w2 where "w2 = ProcessReceivingNext (as_ReceivingNext seg) w1"
  obtain w3 mx mr where 3: "process_acks (as_NumberList seg) 0 False w2 = (w3, mx, mr)" using prod_cases3 by blast
  have "removes {} w w1" by (rule removes_same_keys) (simp_all add: w1_def window_keys_def)
  then have r2: "removes {n. n < as_ReceivingNext seg} w w2"
    unfolding w2_def using ProcessReceivingNext_removes by (rule removes_trans) simp
  then have r3: "removes (acknowledges seg) w w3"
    using process_acks_removes [OF 3] by (rule removes_trans) (auto simp: acknowledges_def)
  let ?w4 = "w3\<lparr>sk_window := HandleFastAck mx rto (sk_window w3)\<rparr>"
  have "removes {} w3 ?w4"
    by (rule removes_same_keys) (simp_all add: HandleFastAck_def window_keys_def fast_ack_keys)
  with r3 have r4: "removes (acknowledges seg) w ?w4" by (rule removes_trans) simp
  have r2': "removes (acknowledges seg) w w2"
    using r2 removes_refl by (rule removes_trans) (auto simp: acknowledges_def)
  show ?thesis
    using assms False r2' r3 r4 3
    by (auto simp: send_ProcessSegment_def Let_def w1_def [symmetric] w2_def [symmetric] split: if_splits)
qed (use assms in \<open>simp add: send_ProcessSegment_def removes_refl\<close>)

text \<open>A flush transmits only segments of the window and changes neither their numbers nor their payloads.\<close>

lemma Visit_flush_out:
  assumes "\<And>s. ds_Number (wr s) = ds_Number s \<and> ds_payload (wr s) = ds_payload s"
  shows "set (keys (fs_out (fst (Visit (flush_visitor wr current rto mx) a ss)))) \<subseteq> set (keys (fs_out a)) \<union> set (keys ss)"
proof (induction ss arbitrary: a)
  case (Cons s ss)
  obtain a' s' g where v: "flush_visitor wr current rto mx a s = (a', s', g)" using prod_cases3 by blast
  have *: "set (keys (fs_out a')) \<subseteq> set (keys (fs_out a)) \<union> {(ds_Number s, ds_payload s)}"
    using v by (auto simp: flush_visitor_def Let_def keys_def assms split: if_splits)
  have 1: "set (keys (fs_out a')) \<union> set (keys ss) \<subseteq> set (keys (fs_out a)) \<union> set (keys (s # ss))"
    using * by (auto simp: keys_def)
  show ?case
  proof (cases g)
    case True
    with v have "fst (Visit (flush_visitor wr current rto mx) a (s # ss)) = fst (Visit (flush_visitor wr current rto mx) a' ss)"
      by (simp split: prod.splits)
    with subset_trans [OF Cons [of a'] 1] show ?thesis by (simp only:)
  next
    case False
    with v 1 show ?thesis by simp
  qed
qed (simp add: keys_def)

lemma send_Write_simps [simp]:
  "ds_Number (send_Write cv rtc w s) = ds_Number s" "ds_payload (send_Write cv rtc w s) = ds_payload s"
  by (simp_all add: send_Write_def)

lemma OnPacketLoss_keeps [simp]:
  "sk_window (OnPacketLoss cg rto fl r w) = sk_window w" "sk_nextNumber (OnPacketLoss cg rto fl r w) = sk_nextNumber w"
  "sk_closed (OnPacketLoss cg rto fl r w) = sk_closed w"
  by (simp_all add: OnPacketLoss_def Let_def)

lemma send_Flush_keys:
  assumes "send_Flush cv rtc cg fl current rto w = (w', out, pings)"
  shows "window_keys w' = window_keys w" and "set (keys out) \<subseteq> set (window_keys w)"
    and "sk_nextNumber w' = sk_nextNumber w" and "sk_closed w' = sk_closed w"
proof -
  let ?a = "\<lparr>fs_lost = 0, fs_inFlightSize = 0, fs_total = sw_totalInFlightSize (sk_window w), fs_out = []\<rparr>"
  let ?V = "Visit (flush_visitor (send_Write cv rtc w) current rto (flush_limit cg fl w)) ?a (sw_cache (sk_window w))"
  have k: "keys (snd ?V) = keys (sw_cache (sk_window w))" by (rule flush_keys) simp
  have o: "set (keys (fs_out (fst ?V))) \<subseteq> set (keys (sw_cache (sk_window w)))"
    using Visit_flush_out [of "send_Write cv rtc w" current rto "flush_limit cg fl w" ?a "sw_cache (sk_window w)"]
    by (simp add: keys_def)
  show "window_keys w' = window_keys w" "set (keys out) \<subseteq> set (window_keys w)"
    "sk_nextNumber w' = sk_nextNumber w" "sk_closed w' = sk_closed w"
    using assms k o
    by (auto simp: send_Flush_def sw_Flush_def window_keys_def keys_def Let_def
        split: if_splits option.splits prod.splits)
qed

text \<open>
  A run of the worker, with what was written into it, what the peer acknowledged, what was still in the window when the
  connection closed its writing side or released the worker, and what was transmitted on the side.
\<close>

datatype send_event =
    Push buffer
  | Acknowledge u32 ack_segment u32
  | Receiving_next u32
  | Send_flush u16 bool bool u32 u32 u32
  | Close_write
  | Release_worker

record sender =
  sn_worker :: send_worker
  sn_written :: "buffer list"
  sn_acked :: "u32 set"
  sn_dropped :: "u32 set"
  sn_sent :: "data_segment list"

fun send_step :: "send_event \<Rightarrow> sender \<Rightarrow> sender" where
  "send_step (Push b) s =
     (case send_Push b (sn_worker s) of (w, ok) \<Rightarrow>
        s\<lparr>sn_worker := w, sn_written := sn_written s @ (if ok then [b] else [])\<rparr>)"
| "send_step (Acknowledge current seg rto) s =
     s\<lparr>sn_worker := fst (send_ProcessSegment current seg rto (sn_worker s)),
       sn_acked := sn_acked s \<union> acknowledges seg\<rparr>"
| "send_step (Receiving_next n) s =
     s\<lparr>sn_worker := ProcessReceivingNext n (sn_worker s), sn_acked := sn_acked s \<union> {m. m < n}\<rparr>"
| "send_step (Send_flush cv rtc cg fl current rto) s =
     (case send_Flush cv rtc cg fl current rto (sn_worker s) of (w, out, _) \<Rightarrow>
        s\<lparr>sn_worker := w, sn_sent := sn_sent s @ out\<rparr>)"
| "send_step Close_write s =
     s\<lparr>sn_worker := CloseWrite (sn_worker s), sn_dropped := sn_dropped s \<union> fst ` set (window_keys (sn_worker s))\<rparr>"
| "send_step Release_worker s =
     s\<lparr>sn_worker := fst (sk_Release (sn_worker s) pools_init), sn_dropped := sn_dropped s \<union> fst ` set (window_keys (sn_worker s))\<rparr>"

definition send_run :: "send_event list \<Rightarrow> sender \<Rightarrow> sender" where
  "send_run = fold send_step"

definition start_sender :: "send_worker \<Rightarrow> sender" where
  "start_sender w = \<lparr>sn_worker = w, sn_written = [], sn_acked = {}, sn_dropped = {}, sn_sent = []\<rparr>"

text \<open>The numbered segments of what was written.\<close>

definition numbered :: "buffer list \<Rightarrow> (u32 \<times> buffer option) list" where
  "numbered bs = zip (map word_of_nat [0..<length bs]) (map Some bs)"

lemma numbered_snoc: "numbered (bs @ [b]) = numbered bs @ [(word_of_nat (length bs), Some b)]"
  by (simp add: numbered_def)

lemma numbered_nth:
  "k \<in> set (numbered bs) \<Longrightarrow> \<exists>i < length bs. k = (word_of_nat i, Some (bs ! i))"
  by (auto simp: numbered_def set_zip)

lemma in_numbered: "i < length bs \<Longrightarrow> (word_of_nat i, Some (bs ! i)) \<in> set (numbered bs)"
  unfolding numbered_def in_set_zip by (rule exI [of _ i]) simp

definition sender_inv :: "sender \<Rightarrow> bool" where
  "sender_inv s \<longleftrightarrow>
     sk_nextNumber (sn_worker s) = word_of_nat (length (sn_written s)) \<and>
     set (window_keys (sn_worker s)) \<subseteq> set (numbered (sn_written s)) \<and>
     (\<forall>k \<in> set (numbered (sn_written s)). k \<in> set (window_keys (sn_worker s)) \<or> fst k \<in> sn_acked s \<or> fst k \<in> sn_dropped s) \<and>
     set (keys (sn_sent s)) \<subseteq> set (numbered (sn_written s))"

lemma sender_inv_removes:
  assumes "sender_inv s" and "removes N (sn_worker s) w"
  shows "sender_inv (s\<lparr>sn_worker := w, sn_acked := sn_acked s \<union> N\<rparr>)"
proof -
  have "k \<in> set (window_keys w) \<or> fst k \<in> sn_acked s \<union> N \<or> fst k \<in> sn_dropped s" if "k \<in> set (numbered (sn_written s))" for k
    using assms that unfolding sender_inv_def removes_def by blast
  moreover have "set (window_keys w) \<subseteq> set (numbered (sn_written s))"
    using assms unfolding sender_inv_def removes_def by (meson subset_trans)
  ultimately show ?thesis using assms by (simp add: sender_inv_def removes_def)
qed

lemma sender_inv_drops:
  assumes "sender_inv s" and "set (window_keys w) \<subseteq> set (window_keys (sn_worker s))" and "sk_nextNumber w = sk_nextNumber (sn_worker s)"
  shows "sender_inv (s\<lparr>sn_worker := w, sn_dropped := sn_dropped s \<union> fst ` set (window_keys (sn_worker s))\<rparr>)"
  using assms by (auto simp: sender_inv_def)

lemma send_step_inv: "sender_inv s \<Longrightarrow> sender_inv (send_step ev s)"
proof (cases ev)
  case (Push b)
  assume i: "sender_inv s"
  have "window_keys (w\<lparr>sk_window := sw_Push n b (sk_window w), sk_nextNumber := m\<rparr>) = window_keys w @ [(n, Some b)]" for w n m
    by (simp add: window_keys_def keys_def sw_Push_def)
  then show ?thesis
    using i Push unfolding sender_inv_def
    by (auto simp: send_Push_def numbered_snoc subset_iff split: if_splits)
next
  case (Acknowledge current seg rto)
  assume i: "sender_inv s"
  obtain w rtt where "send_ProcessSegment current seg rto (sn_worker s) = (w, rtt)" by fastforce
  from sender_inv_removes [OF i send_ProcessSegment_removes [OF this]] this Acknowledge show ?thesis by simp
next
  case (Receiving_next n)
  assume i: "sender_inv s"
  from sender_inv_removes [OF i ProcessReceivingNext_removes [of n]] Receiving_next show ?thesis by simp
next
  case (Send_flush cv rtc cg fl current rto)
  assume i: "sender_inv s"
  obtain w out p where f: "send_Flush cv rtc cg fl current rto (sn_worker s) = (w, out, p)" using prod_cases3 by blast
  have "set (keys (sn_sent s @ out)) \<subseteq> set (numbered (sn_written s))"
    using subset_trans [OF send_Flush_keys(2) [OF f]] i by (simp add: sender_inv_def keys_def)
  then show ?thesis
    using i f Send_flush send_Flush_keys [OF f] by (simp add: sender_inv_def)
next
  case Close_write
  assume i: "sender_inv s"
  have "set (window_keys (CloseWrite (sn_worker s))) \<subseteq> set (window_keys (sn_worker s))"
    using clear_front_keys [of "0xFFFFFFFF" "sw_cache (sk_window (sn_worker s))"]
    by (cases "clear_front 0xFFFFFFFF (sw_cache (sk_window (sn_worker s)))") (auto simp: CloseWrite_def sw_Clear_def window_keys_def keys_def)
  then show ?thesis using sender_inv_drops [OF i] Close_write by (simp add: CloseWrite_def)
next
  case Release_worker
  assume i: "sender_inv s"
  then show ?thesis using sender_inv_drops [OF i, of "fst (sk_Release (sn_worker s) pools_init)"] Release_worker
    by (simp add: sk_Release_def sw_Release_def window_keys_def keys_def)
qed

lemma send_run_inv: "sender_inv s \<Longrightarrow> sender_inv (send_run evs s)"
  unfolding send_run_def by (induction evs arbitrary: s) (simp_all add: send_step_inv)

lemma start_sender_inv: "NewSendingWorker c = Ok w \<Longrightarrow> sender_inv (start_sender w)"
  by (auto simp: NewSendingWorker_def rbind_Ok_iff sender_inv_def start_sender_def numbered_def window_keys_def
      NewSendingWindow_def keys_def split: res.splits)

lemma send_run_dropped: "Close_write \<notin> set evs \<Longrightarrow> Release_worker \<notin> set evs \<Longrightarrow> sn_dropped (send_run evs s) = sn_dropped s"
proof (induction evs arbitrary: s)
  case (Cons ev evs)
  then have "sn_dropped (send_step ev s) = sn_dropped s" by (cases ev) (auto split: prod.splits)
  with Cons show ?case by (simp add: send_run_def)
qed (simp add: send_run_def)

text \<open>
  C28. Whatever the sequence of writes, acknowledgements, pings, flushes and closings, a written segment stays in
  the sending window until the peer has acknowledged its number or the connection closes its writing side or releases the worker while the segment
  is there; until then only acknowledged segments leave.  Everything transmitted is a
  segment that was written, with the number of its position and its own payload.
\<close>

theorem send_nothing_lost:
  assumes "NewSendingWorker c = Ok w" and "send_run evs (start_sender w) = s" and "i < length (sn_written s)"
  shows "((word_of_nat i, Some (sn_written s ! i)) \<in> set (window_keys (sn_worker s)) \<or> word_of_nat i \<in> sn_acked s \<or> word_of_nat i \<in> sn_dropped s) \<and>
         (sn_dropped s \<noteq> {} \<longrightarrow> Close_write \<in> set evs \<or> Release_worker \<in> set evs) \<and>
         (\<forall>seg \<in> set (sn_sent s). \<exists>j < length (sn_written s).
            ds_Number seg = word_of_nat j \<and> ds_payload seg = Some (sn_written s ! j))"
proof -
  have inv: "sender_inv s" using send_run_inv [OF start_sender_inv [OF assms(1)]] assms(2) by blast
  have "(word_of_nat i, Some (sn_written s ! i)) \<in> set (numbered (sn_written s))"
    by (rule in_numbered [OF assms(3)])
  with inv have 1: "(word_of_nat i, Some (sn_written s ! i)) \<in> set (window_keys (sn_worker s)) \<or> word_of_nat i \<in> sn_acked s \<or> word_of_nat i \<in> sn_dropped s"
    unfolding sender_inv_def by fastforce
  have "\<exists>j < length (sn_written s). ds_Number seg = word_of_nat j \<and> ds_payload seg = Some (sn_written s ! j)"
    if "seg \<in> set (sn_sent s)" for seg
  proof -
    have "(ds_Number seg, ds_payload seg) \<in> set (numbered (sn_written s))"
      using inv that by (auto simp: sender_inv_def keys_def)
    from numbered_nth [OF this] show ?thesis by simp
  qed
  moreover have "sn_dropped s \<noteq> {} \<longrightarrow> Close_write \<in> set evs \<or> Release_worker \<in> set evs"
    using send_run_dropped [of evs "start_sender w"] assms(2) by (auto simp: start_sender_def)
  ultimately show ?thesis using 1 by blast
qed

definition default_worker :: send_worker where
  "default_worker = \<lparr>sk_window = NewSendingWindow, sk_firstUnacknowledged = 0, sk_nextNumber = 0,
     sk_remoteNextNumber = 32, sk_controlWindow = 194, sk_fastResend = 2, sk_windowSize = 1553,
     sk_firstUnacknowledgedUpdated = False, sk_closed = False\<rparr>"

definition sample_payload :: buffer where
  "sample_payload = append_at_end (New []) [42]"

definition sample_sender :: sender where
  "sample_sender = send_run [Push sample_payload, Send_flush 7 False False 8 100 50] (start_sender default_worker)"

lemma NewSendingWorker_default: "NewSendingWorker None = Ok default_worker"
  by (simp add: NewSendingWorker_def GetSendingInFlightSize_def GetSendingBufferSize_def in_flight_def setting_def
      GetUplinkCapacityValue_def GetMTUValue_def GetTTIValue_def GetWriteBufferSize_def udiv_def default_worker_def)

lemmas sample_sender_simps =
  sample_sender_def default_worker_def send_run_def start_sender_def send_Push_def NewSendingWindow_def sw_Len_def sw_Push_def
  NewDataSegment_def send_Flush_def flush_limit_def sw_IsEmpty_def sw_Flush_def flush_visitor_def send_Write_def

theorem send_nothing_lost_witness:
  "(0, Some sample_payload) \<in> set (window_keys (sn_worker sample_sender)) \<and> length (sn_sent sample_sender) = 1 \<and>
   list_all (\<lambda>seg. ds_payload seg = Some sample_payload) (sn_sent sample_sender)"
proof -
  have w: "sn_written sample_sender = [sample_payload]" "sn_acked sample_sender = {}" "length (sn_sent sample_sender) = 1"
    by (simp_all add: sample_sender_simps Let_def)
  with send_nothing_lost [OF NewSendingWorker_default sample_sender_def [symmetric], of 0] show ?thesis by (auto simp: list_all_iff)
qed

section \<open>How much a flush sends\<close>

text \<open>The visitor counts what it has written and stops at the limit.\<close>

lemma Visit_flush_count:
  assumes "length (fs_out a) < max 1 (unat mx)" and "fs_inFlightSize a = word_of_nat (length (fs_out a))"
  shows "length (fs_out (fst (Visit (flush_visitor wr current rto mx) a ss))) \<le> max 1 (unat mx)"
  using assms
proof (induction ss arbitrary: a)
  case (Cons s ss)
  obtain a' s' g where v: "flush_visitor wr current rto mx a s = (a', s', g)" using prod_cases3 by blast
  have small: "length (fs_out a) + 1 < 2 ^ 32"
    using Cons.prems(1) unsigned_less [of mx, where 'a = nat] by simp
  have count: "fs_inFlightSize a' = word_of_nat (length (fs_out a')) \<and> length (fs_out a') \<le> length (fs_out a) + 1 \<and>
      (g \<longrightarrow> length (fs_out a') < max 1 (unat mx))"
  proof (cases "current - ds_timeout s \<ge> 0x7FFFFFFF")
    case True
    with v Cons.prems show ?thesis by (auto simp: flush_visitor_def)
  next
    case False
    let ?n = "length (fs_out a) + 1"
    have n: "unat (word_of_nat ?n :: u32) = ?n" using small by (simp only: unat_of_nat) simp
    from False v Cons.prems have out: "length (fs_out a') = ?n" "fs_inFlightSize a' = word_of_nat ?n"
      "g \<longleftrightarrow> (word_of_nat ?n :: u32) < mx"
      by (auto simp: flush_visitor_def Let_def add.commute split: if_splits)
    then show ?thesis using n by (simp add: word_less_nat_alt)
  qed
  show ?case
  proof (cases g)
    case True
    with v have "fst (Visit (flush_visitor wr current rto mx) a (s # ss)) = fst (Visit (flush_visitor wr current rto mx) a' ss)"
      by (simp split: prod.splits)
    with Cons.IH [of a'] count True show ?thesis by simp
  next
    case False
    with v count Cons.prems(1) show ?thesis by simp
  qed
qed simp

text \<open>
  A flush transmits at most twenty times the allowed window, counted with the wrap-around of the
  32-bit product, and one segment when that is 0; the allowed window is no more than the in-flight size
  of the configuration, and with congestion control no more than the control window.
\<close>

theorem send_Flush_bounded:
  assumes "send_Flush cv rtc cg fl current rto w = (w', out, pings)"
  shows "length out \<le> max 1 (unat (flush_limit cg fl w)) \<and>
         (\<exists>cwnd. flush_limit cg fl w = cwnd * 20 \<and> cwnd \<le> fl \<and> (cg \<longrightarrow> cwnd \<le> sk_controlWindow w) \<and>
                 cwnd \<le> sk_remoteNextNumber w - sk_firstUnacknowledged w)"
proof
  let ?a = "\<lparr>fs_lost = 0, fs_inFlightSize = 0, fs_total = sw_totalInFlightSize (sk_window w), fs_out = []\<rparr>"
  have "length (fs_out (fst (Visit (flush_visitor (send_Write cv rtc w) current rto (flush_limit cg fl w)) ?a
          (sw_cache (sk_window w))))) \<le> max 1 (unat (flush_limit cg fl w))"
    by (rule Visit_flush_count) simp_all
  then show "length out \<le> max 1 (unat (flush_limit cg fl w))"
    using assms by (auto simp: send_Flush_def sw_Flush_def Let_def split: if_splits prod.splits option.splits)
  let ?c = "if fl > sk_remoteNextNumber w - sk_firstUnacknowledged w then sk_remoteNextNumber w - sk_firstUnacknowledged w else fl"
  let ?d = "if cg \<and> ?c > sk_controlWindow w then sk_controlWindow w else ?c"
  have "flush_limit cg fl w = ?d * 20" by (simp add: flush_limit_def Let_def)
  moreover have "?d \<le> fl \<and> (cg \<longrightarrow> ?d \<le> sk_controlWindow w) \<and> ?d \<le> sk_remoteNextNumber w - sk_firstUnacknowledged w"
    by auto
  ultimately show "\<exists>cwnd. flush_limit cg fl w = cwnd * 20 \<and> cwnd \<le> fl \<and> (cg \<longrightarrow> cwnd \<le> sk_controlWindow w) \<and>
                 cwnd \<le> sk_remoteNextNumber w - sk_firstUnacknowledged w"
    by blast
qed

theorem send_Flush_bounded_witness:
  "length (fst (snd (send_Flush 7 False False 8 100 50 (sn_worker sample_sender)))) \<le> 160"
proof -
  obtain w' out p where f: "send_Flush 7 False False 8 100 50 (sn_worker sample_sender) = (w', out, p)"
    using prod_cases3 by blast
  have "flush_limit False 8 (sn_worker sample_sender) = 160" by (simp add: sample_sender_simps OnPacketLoss_def Let_def)
  with send_Flush_bounded [OF f] f show ?thesis by simp
qed

text \<open>
  The congestion window stays between 16 segments and twice the in-flight size after every loss
  report, provided that twice the in-flight size is at least 16, as it is for every configured size, and
  does not overflow.
\<close>

theorem OnPacketLoss_bounds:
  assumes "rto \<noteq> 0" and "8 \<le> fl" and "unat fl < 2 ^ 31"
  shows "16 \<le> sk_controlWindow (OnPacketLoss True rto fl rate w) \<and>
         sk_controlWindow (OnPacketLoss True rto fl rate w) \<le> 2 * fl"
proof -
  have "(16 :: u32) \<le> 2 * fl"
    using assms(2,3) by (simp add: word_le_nat_alt unat_word_ariths)
  then show ?thesis using assms(1) by (auto simp: OnPacketLoss_def Let_def not_less)
qed

theorem OnPacketLoss_bounds_witness:
  "16 \<le> sk_controlWindow (OnPacketLoss True 100 194 0 (sn_worker sample_sender)) \<and>
   sk_controlWindow (OnPacketLoss True 100 194 0 (sn_worker sample_sender)) \<le> 2 * 194"
  by (rule OnPacketLoss_bounds) simp_all

section \<open>Old connections\<close>

text \<open>A segment that is not due is skipped.\<close>

lemma Visit_flush_idle:
  "list_all (\<lambda>s. current - ds_timeout s \<ge> 0x7FFFFFFF) ss \<Longrightarrow> Visit (flush_visitor wr current rto mx) a ss = (a, ss)"
  by (induction ss) (simp_all add: flush_visitor_def)

text \<open>
  A segment that was never transmitted has timeout 0, and the test for a timeout in the future
  takes 0 for the future once the clock of the connection passes \<open>0x7FFFFFFF\<close> ms (24.8 days): from
  then on a flush of newly written segments sends nothing, at any time up to the wrap-around of the
  clock.
\<close>

theorem send_Flush_stalls_when_old:
  assumes "0x7FFFFFFF \<le> current" and "sk_window w = foldr (\<lambda>(n, b). sw_Push n b) nbs NewSendingWindow"
  shows "fst (snd (send_Flush cv rtc cg fl current rto w)) = [] \<and>
         sk_window (fst (send_Flush cv rtc cg fl current rto w)) = sk_window w"
proof -
  have "list_all (\<lambda>s. ds_timeout s = 0) (sw_cache (foldr (\<lambda>(n, b). sw_Push n b) nbs NewSendingWindow))"
    by (induction nbs) (auto simp: NewSendingWindow_def sw_Push_def NewDataSegment_def)
  then have "list_all (\<lambda>s. current - ds_timeout s \<ge> 0x7FFFFFFF) (sw_cache (sk_window w))"
    using assms by (auto simp: list_all_iff)
  from Visit_flush_idle [OF this] show ?thesis by (simp add: send_Flush_def sw_Flush_def Let_def)
qed

theorem send_Flush_stalls_when_old_witness:
  "fst (snd (send_Flush 7 False False 8 0x80000000 50 (fst (send_Push sample_payload default_worker)))) = [] \<and>
   \<not> sw_IsEmpty (sk_window (fst (send_Push sample_payload default_worker)))"
proof -
  have "sk_window (fst (send_Push sample_payload default_worker)) =
      foldr (\<lambda>(n, b). sw_Push n b) [(0, sample_payload)] NewSendingWindow"
    by (simp add: default_worker_def send_Push_def sw_Len_def NewSendingWindow_def)
  from send_Flush_stalls_when_old [OF _ this, of "0x80000000"] this show ?thesis
    by (simp add: sw_IsEmpty_def sw_Push_def)
qed

end
