(* ===== verification/PacketHeader.thy ===== *)
theory PacketHeader
  imports KcpSegment
begin

text \<open>
  The headers that disguise a datagram as another protocol (\<open>transport/internet/headers\<close>): SRTP, uTP,
  WeChat video, WireGuard, DTLS, DNS and the empty one.  Each has a \<open>Size\<close> and a \<open>Serialize\<close> that
  fills a slice of the caller and may advance a counter.  \<open>roll\<close> is what \<open>dice.RollUint16\<close> answers.
\<close>

section \<open>The headers\<close>

datatype packet_header =
    SRTP u16 u16
  | UTP byte byte u16
  | VideoChat u32
  | Wireguard
  | DTLS u16 u16 u32
  | DNS bytes
  | NoOpHeader

definition srtp_New :: "u16 \<Rightarrow> packet_header" where
  "srtp_New roll = SRTP 0xB5E8 roll"

definition srtp_Serialize :: "u16 \<Rightarrow> u16 \<Rightarrow> bytes \<Rightarrow> (packet_header \<times> bytes) res" where
  "srtp_Serialize header number b =
     rmap (Pair (SRTP header (number + 1))) (put_all [(0, put_u16 header), (2, put_u16 (number + 1))] b)"

definition utp_New :: "u16 \<Rightarrow> packet_header" where
  "utp_New roll = UTP 1 0 roll"

definition utp_Serialize :: "byte \<Rightarrow> byte \<Rightarrow> u16 \<Rightarrow> bytes \<Rightarrow> (packet_header \<times> bytes) res" where
  "utp_Serialize header extension connectionID b =
     rmap (Pair (UTP header extension connectionID)) (put_all [(0, put_u16 connectionID), (2, [header]), (3, [extension])] b)"

definition NewVideoChat :: "u16 \<Rightarrow> packet_header" where
  "NewVideoChat roll = VideoChat (ucast roll)"

definition wechat_Serialize :: "u32 \<Rightarrow> bytes \<Rightarrow> (packet_header \<times> bytes) res" where
  "wechat_Serialize sn b =
     rmap (Pair (VideoChat (sn + 1)))
       (put_all [(0, [0xa1]), (1, [0x08]), (2, put_u32 (sn + 1)), (6, [0x00]), (7, [0x10]), (8, [0x11]),
          (9, [0x18]), (10, [0x30]), (11, [0x22]), (12, [0x30])] b)"

definition wireguard_Serialize :: "bytes \<Rightarrow> (packet_header \<times> bytes) res" where
  "wireguard_Serialize b =
     rmap (Pair Wireguard) (put_all [(0, [0x04]), (1, [0x00]), (2, [0x00]), (3, [0x00])] b)"

definition dtls_New :: "u16 \<Rightarrow> packet_header" where
  "dtls_New roll = DTLS roll 17 0"

definition dtls_next_length :: "u16 \<Rightarrow> u16" where
  "dtls_next_length l = (if l + 17 > 100 then l + 17 - 50 else l + 17)"

definition dtls_Serialize :: "u16 \<Rightarrow> u16 \<Rightarrow> u32 \<Rightarrow> bytes \<Rightarrow> (packet_header \<times> bytes) res" where
  "dtls_Serialize epoch l sequence b =
     rmap (Pair (DTLS epoch (dtls_next_length l) (sequence + 1)))
       (put_all [(0, [23]), (1, [254]), (2, [253]), (3, [ucast (drop_bit 8 epoch)]), (4, [ucast epoch]), (5, [0]), (6, [0]),
          (7, [ucast (drop_bit 24 sequence)]), (8, [ucast (drop_bit 16 sequence)]), (9, [ucast (drop_bit 8 sequence)]),
          (10, [ucast sequence]), (11, [ucast (drop_bit 8 l)]), (12, [ucast l])] b)"

definition dns_Serialize :: "u16 \<Rightarrow> bytes \<Rightarrow> bytes \<Rightarrow> (packet_header \<times> bytes) res" where
  "dns_Serialize roll header b =
     rmap (Pair (DNS header)) (rbind (copy_at 0 header b) (put_slice 0 (put_u16 roll)))"

fun hdr_Size :: "packet_header \<Rightarrow> int" where
  "hdr_Size (SRTP _ _) = 4"
| "hdr_Size (UTP _ _ _) = 4"
| "hdr_Size (VideoChat _) = 13"
| "hdr_Size Wireguard = 4"
| "hdr_Size (DTLS _ _ _) = 1 + 2 + 2 + 6 + 2"
| "hdr_Size (DNS header) = i32 (int (length header))"
| "hdr_Size NoOpHeader = 0"

fun hdr_Serialize :: "u16 \<Rightarrow> packet_header \<Rightarrow> bytes \<Rightarrow> (packet_header \<times> bytes) res" where
  "hdr_Serialize roll (SRTP h n) b = srtp_Serialize h n b"
| "hdr_Serialize roll (UTP h e c) b = utp_Serialize h e c b"
| "hdr_Serialize roll (VideoChat sn) b = wechat_Serialize sn b"
| "hdr_Serialize roll Wireguard b = wireguard_Serialize b"
| "hdr_Serialize roll (DTLS e l s) b = dtls_Serialize e l s b"
| "hdr_Serialize roll (DNS h) b = dns_Serialize roll h b"
| "hdr_Serialize roll NoOpHeader b = Ok (NoOpHeader, b)"

section \<open>Domain names in the DNS header\<close>

text \<open>
  \<open>packDomainName\<close> on the bytes of the name: \<open>bs\<close> is the name, from which escaping backslashes are
  removed in place, \<open>ls\<close> its current length, \<open>beg\<close> the start of the current label, \<open>off\<close> the
  position in the message.
\<close>

definition backslash :: byte where "backslash = 92"
definition dot :: byte where "dot = 46"

definition unescape :: "nat \<Rightarrow> nat \<Rightarrow> bytes \<Rightarrow> bytes" where
  "unescape i ls bs = take i bs @ take (ls - 1 - i) (drop (i + 1) bs) @ drop (ls - 1) bs"

function pack_loop :: "nat \<Rightarrow> nat \<Rightarrow> nat \<Rightarrow> nat \<Rightarrow> bytes \<Rightarrow> bytes \<Rightarrow> (nat \<times> bytes) res" where
  "pack_loop i ls beg off bs msg =
     (if i \<ge> ls then Ok (off + 1, if off < length msg then overwrite msg off [0] else msg)
      else if bs ! i = backslash then
        (if off + 1 > length msg then Err (ErrMsg ''buffer size too small'')
         else pack_loop (i + 1) (ls - 1) beg off (unescape i ls bs) msg)
      else if bs ! i = dot then
        (let labelLen = i - beg in
         if labelLen \<ge> 64 then Err (ErrMsg ''bad rdata'')
         else if off + 1 + labelLen > length msg then Err (ErrMsg ''buffer size too small'')
         else pack_loop (i + 1) ls (i + 1) (off + 1 + labelLen) bs
                (overwrite (overwrite msg off [word_of_nat labelLen]) (off + 1) (take labelLen (drop beg bs))))
      else pack_loop (i + 1) ls beg off bs msg)"
  by pat_completeness auto
termination
  by (relation "measure (\<lambda>(i, ls, _). ls - i)") auto

declare pack_loop.simps [simp del]

definition packDomainName :: "string \<Rightarrow> bytes \<Rightarrow> (nat \<times> bytes) res" where
  "packDomainName s msg = pack_loop 0 (length s) 0 0 (to_bytes s) msg"

definition NewDNS :: "string \<Rightarrow> packet_header res" where
  "NewDNS name =
     (let header = put_u16 0 @ put_u16 0x0100 @ put_u16 1 @ put_u16 0 @ put_u16 0 @ put_u16 0 in
      rbind (packDomainName (name @ ''.'') (replicate 256 0)) (\<lambda>(off1, buf).
        if off1 > length buf then Panic ''slice bounds out of range''
        else Ok (DNS (header @ take off1 buf @ put_u16 1 @ put_u16 1))))"

section \<open>Sizes\<close>

text \<open>
  What the packet code relies on: \<open>Serialize\<close> into a slice of \<open>Size\<close> bytes succeeds, fills all of
  it, and the header keeps its size.
\<close>

locale sized_header =
  fixes hsize :: "'h \<Rightarrow> int" and ser :: "u16 \<Rightarrow> 'h \<Rightarrow> bytes \<Rightarrow> ('h \<times> bytes) res" and ok :: "'h \<Rightarrow> bool"
  assumes fills: "ok h \<Longrightarrow> int (length b) = hsize h \<Longrightarrow>
      \<exists>h' bs. ser roll h b = Ok (h', bs) \<and> int (length bs) = hsize h \<and> ok h' \<and> hsize h' = hsize h"
    and size_range: "ok h \<Longrightarrow> 0 \<le> hsize h \<and> hsize h \<le> 1024"
definition header_ok :: "packet_header \<Rightarrow> bool" where
  "header_ok h = (case h of DNS bs \<Rightarrow> 2 \<le> length bs \<and> length bs \<le> 1024 | _ \<Rightarrow> True)"

lemma put_all_fills:
  assumes "es = offsets 0 bss" and "length b = length (concat bss)"
  shows "put_all es b = Ok (concat bss)"
  using put_pieces [of bss b] assms by simp

lemma hdr_Serialize_fills:
  assumes "header_ok h" and "int (length b) = hdr_Size h"
  shows "\<exists>h' bs. hdr_Serialize roll h b = Ok (h', bs) \<and> int (length bs) = hdr_Size h \<and> header_ok h' \<and> hdr_Size h' = hdr_Size h"
proof (cases h)
  case (SRTP hd n)
  then show ?thesis
    using assms put_all_fills [of "[(0, put_u16 hd), (2, put_u16 (n + 1))]" "[put_u16 hd, put_u16 (n + 1)]" b]
    by (simp add: srtp_Serialize_def header_ok_def numeral_eq_Suc)
next
  case (UTP hd e c)
  then show ?thesis
    using assms put_all_fills [of "[(0, put_u16 c), (2, [hd]), (3, [e])]" "[put_u16 c, [hd], [e]]" b]
    by (simp add: utp_Serialize_def header_ok_def numeral_eq_Suc)
next
  case (VideoChat sn)
  then show ?thesis
    using assms put_all_fills [of _ "[[0xa1], [0x08], put_u32 (sn + 1), [0x00], [0x10], [0x11], [0x18], [0x30], [0x22], [0x30]]" b]
    by (simp add: wechat_Serialize_def header_ok_def numeral_eq_Suc)
next
  case Wireguard
  then show ?thesis
    using assms put_all_fills [of _ "[[0x04], [0x00], [0x00], [0x00]]" b]
    by (simp add: wireguard_Serialize_def header_ok_def numeral_eq_Suc)
next
  case (DTLS e l s)
  then show ?thesis
    using assms put_all_fills [of _ "[[23], [254], [253], [ucast (drop_bit 8 e)], [ucast e], [0], [0], [ucast (drop_bit 24 s)],
      [ucast (drop_bit 16 s)], [ucast (drop_bit 8 s)], [ucast s], [ucast (drop_bit 8 l)], [ucast l]]" b]
    by (simp add: dtls_Serialize_def header_ok_def numeral_eq_Suc)
next
  case (DNS hd)
  then show ?thesis
    using assms by (auto simp: dns_Serialize_def header_ok_def copy_at_def put_slice_def overwrite_def)
next
  case NoOpHeader
  then show ?thesis using assms by (simp add: header_ok_def)
qed

interpretation ph: sized_header hdr_Size hdr_Serialize header_ok
proof unfold_locales
  show "header_ok h \<Longrightarrow> 0 \<le> hdr_Size h \<and> hdr_Size h \<le> 1024" for h
    by (cases h) (auto simp: header_ok_def)
qed (rule hdr_Serialize_fills)

section \<open>What the DNS header asks for\<close>

definition plain_label :: "bytes \<Rightarrow> bool" where
  "plain_label l \<longleftrightarrow> dot \<notin> set l \<and> backslash \<notin> set l \<and> length l < 64"

definition dotted :: "bytes list \<Rightarrow> bytes" where
  "dotted labels = concat (map (\<lambda>l. l @ [dot]) labels)"

definition wire_labels :: "bytes list \<Rightarrow> bytes" where
  "wire_labels labels = concat (map (\<lambda>l. word_of_nat (length l) # l) labels)"

lemma overwrite_twice:
  "off + length a \<le> length m \<Longrightarrow> overwrite (overwrite m off a) (off + length a) b = overwrite m off (a @ b)"
  by (simp add: overwrite_def ac_simps)

lemma pack_label:
  assumes "bs = pre @ l1 @ l2 @ dot # rest" and "plain_label (l1 @ l2)" and "off + 1 + length (l1 @ l2) \<le> length msg"
  shows "pack_loop (length pre + length l1) (length bs) (length pre) off bs msg =
    pack_loop (length pre + length (l1 @ l2) + 1) (length bs) (length pre + length (l1 @ l2) + 1) (off + 1 + length (l1 @ l2)) bs
      (overwrite msg off (word_of_nat (length (l1 @ l2)) # l1 @ l2))"
  using assms
proof (induction l2 arbitrary: l1)
  case Nil
  then show ?case
    using overwrite_twice [of off "[word_of_nat (length l1)]" msg l1]
    by (subst pack_loop.simps) (simp add: nth_append dot_def backslash_def plain_label_def Let_def)
next
  case (Cons c l2)
  have c: "bs ! (length pre + length l1) = c" "c \<noteq> dot" "c \<noteq> backslash"
    using Cons.prems by (auto simp: nth_append plain_label_def)
  have "pack_loop (length pre + length l1) (length bs) (length pre) off bs msg =
      pack_loop (length pre + length (l1 @ [c])) (length bs) (length pre) off bs msg"
    using c Cons.prems(1) by (subst pack_loop.simps) simp
  with Cons.IH [of "l1 @ [c]"] Cons.prems show ?case by simp
qed

lemma pack_labels:
  assumes "bs = pre @ dotted labels" and "list_all plain_label labels" and "off + length (wire_labels labels) \<le> length msg"
  shows "pack_loop (length pre) (length bs) (length pre) off bs msg =
    Ok (off + length (wire_labels labels) + 1,
        if off + length (wire_labels labels) < length msg then overwrite msg off (wire_labels labels @ [0])
        else overwrite msg off (wire_labels labels))"
  using assms
proof (induction labels arbitrary: pre off msg)
  case Nil
  then show ?case by (subst pack_loop.simps) (simp add: dotted_def wire_labels_def)
next
  case (Cons l labels)
  let ?w = "word_of_nat (length l) # l"
  have 1: "pack_loop (length pre) (length bs) (length pre) off bs msg =
      pack_loop (length (pre @ l @ [dot])) (length bs) (length (pre @ l @ [dot])) (off + length ?w) bs (overwrite msg off ?w)"
    using pack_label [of bs pre "[]" l "dotted labels" off msg] Cons.prems
    by (simp add: dotted_def wire_labels_def)
  have 2: "overwrite (overwrite msg off ?w) (off + length ?w) x = overwrite msg off (?w @ x)" for x
    using Cons.prems(3) by (intro overwrite_twice) (simp add: wire_labels_def)
  show ?case
    unfolding 1 using Cons.IH [of "pre @ l @ [dot]" "off + length ?w" "overwrite msg off ?w"] Cons.prems 2
    by (simp add: dotted_def wire_labels_def)
qed

lemma packDomainName_labels:
  assumes "to_bytes s = dotted labels" and "list_all plain_label labels" and "length (wire_labels labels) \<le> length msg"
  shows "packDomainName s msg =
    Ok (length (wire_labels labels) + 1,
        if length (wire_labels labels) < length msg then overwrite msg 0 (wire_labels labels @ [0])
        else overwrite msg 0 (wire_labels labels))"
  using pack_labels [of "to_bytes s" "[]" labels 0 msg] assms length_to_bytes [of s] by (simp add: packDomainName_def)

lemma put_u16_values: "put_u16 0 = [0, 0]" "put_u16 1 = [0, 1]" "put_u16 0x0100 = [1, 0]"
  by (simp_all add: put_u16_def drop_bit_eq_div)

text \<open>
  The DNS header is a query for the configured name: for a name made of labels below 64 bytes without
  dots or backslashes, whose wire form leaves room for the root label, \<open>NewDNS\<close> returns a header that
  holds one question with the length-prefixed labels, the root label, type A and class IN, and
  \<open>Serialize\<close> puts it on the wire with a random transaction id.
\<close>

theorem dns_header_query:
  assumes "to_bytes (name @ ''.'') = dotted labels" and "list_all plain_label labels"
    and "length (wire_labels labels) < 256" and "int (length b) = int (length (wire_labels labels)) + 17"
  shows "\<exists>h. NewDNS name = Ok h \<and> header_ok h \<and> hdr_Size h = int (length b) \<and>
    rmap snd (hdr_Serialize roll h b) =
      Ok (put_u16 roll @ [1, 0, 0, 1, 0, 0, 0, 0, 0, 0] @ wire_labels labels @ [0] @ [0, 1, 0, 1])"
proof -
  let ?h = "put_u16 0 @ put_u16 0x0100 @ put_u16 1 @ put_u16 0 @ put_u16 0 @ put_u16 0 @
    (wire_labels labels @ [0]) @ put_u16 1 @ put_u16 1"
  have n: "NewDNS name = Ok (DNS ?h)"
    using packDomainName_labels [OF assms(1,2), of "replicate 256 0"] assms(3)
    by (simp add: NewDNS_def Let_def overwrite_def)
  have "rmap snd (hdr_Serialize roll (DNS ?h) b) =
      Ok (put_u16 roll @ [1, 0, 0, 1, 0, 0, 0, 0, 0, 0] @ wire_labels labels @ [0] @ [0, 1, 0, 1])"
    using assms(4) by (simp add: dns_Serialize_def copy_at_def put_slice_def overwrite_def put_u16_values)
  with n assms(3,4) show ?thesis by (intro exI [of _ "DNS ?h"]) (simp add: header_ok_def)
qed

theorem dns_header_query_witness:
  "\<exists>h. NewDNS ''a.bc'' = Ok h \<and> hdr_Size h = 22"
proof -
  have "to_bytes (''a.bc'' @ ''.'') = dotted [[97], [98, 99]]"
    by (simp add: to_bytes_def dotted_def dot_def byte_of_char_def)
  from dns_header_query [OF this, of "replicate 22 0"] show ?thesis
    by (auto simp: plain_label_def dot_def backslash_def wire_labels_def)
qed

text \<open>
  A configured name whose labels take exactly 256 bytes passes every length check of
  \<open>packDomainName\<close>, which then returns a length beyond the buffer: \<open>NewDNS\<close> panics where it returns an
  error for a longer name.
\<close>

theorem dns_name_256_panics:
  assumes "to_bytes (name @ ''.'') = dotted labels" and "list_all plain_label labels"
    and "length (wire_labels labels) = 256"
  shows "NewDNS name = Panic ''slice bounds out of range''"
  using packDomainName_labels [OF assms(1,2), of "replicate 256 0"] assms(3)
  by (simp add: NewDNS_def Let_def overwrite_def)

definition long_label :: string where
  "long_label = replicate 63 (CHR ''a'')"

theorem dns_name_256_panics_witness:
  "NewDNS (long_label @ ''.'' @ long_label @ ''.'' @ long_label @ ''.'' @ long_label) = Panic ''slice bounds out of range''"
proof (rule dns_name_256_panics)
  show "to_bytes ((long_label @ ''.'' @ long_label @ ''.'' @ long_label @ ''.'' @ long_label) @ ''.'') =
      dotted [replicate 63 97, replicate 63 97, replicate 63 97, replicate 63 97]"
    by (simp add: to_bytes_def dotted_def dot_def byte_of_char_def long_label_def)
qed (simp_all add: plain_label_def dot_def backslash_def wire_labels_def list_all_iff)

end
