(* ===== verification/KcpPacket.thy ===== *)
theory KcpPacket
  imports PacketHeader
begin

text \<open>
  From segments to datagrams and back: the legacy authenticator of mKCP (\<open>crypt.go\<close>, \<open>xor.go\<close>), the
  packet reader and writer (\<open>io.go\<close>) and the segment writers (\<open>output.go\<close>, with \<open>common/retry\<close>).
  An AEAD is a record of its operations; AES-GCM, which the code takes from the Go library, is any such
  record that satisfies the laws of the locale below.
\<close>

section \<open>The legacy authenticator\<close>

function xorfwd_from :: "nat \<Rightarrow> bytes \<Rightarrow> bytes" where
  "xorfwd_from i x =
     (if i < length x then xorfwd_from (i + 1) (x[i := xor (x ! i) (x ! (i - 4))]) else x)"
  by pat_completeness auto
termination
  by (relation "measure (\<lambda>(i, x). length x - i)") auto

declare xorfwd_from.simps [simp del]

definition xorfwd :: "bytes \<Rightarrow> bytes" where
  "xorfwd x = xorfwd_from 4 x"

text \<open>The loop of \<open>xorbkd\<close>, with \<open>n\<close> one above the index of the source.\<close>

fun xorbkd_below :: "nat \<Rightarrow> bytes \<Rightarrow> bytes" where
  "xorbkd_below 0 x = x"
| "xorbkd_below (Suc i) x = (if i \<ge> 4 then xorbkd_below i (x[i := xor (x ! i) (x ! (i - 4))]) else x)"

definition xorbkd :: "bytes \<Rightarrow> bytes" where
  "xorbkd x = xorbkd_below (length x) x"

text \<open>The 32-bit FNV-1a hash of the Go library.\<close>

definition fnv32a :: "bytes \<Rightarrow> u32" where
  "fnv32a bs = fold (\<lambda>c h. (xor h (ucast c)) * 16777619) bs 2166136261"

definition pad4 :: "bytes \<Rightarrow> bytes" where
  "pad4 dst = (let xtra = 4 - length dst mod 4 in if xtra \<noteq> 4 then dst @ replicate xtra 0 else dst)"

text \<open>
  \<open>Seal\<close> appends to the empty slice \<open>dst\<close> of capacity \<open>cap\<close>; the result is what the first bytes of
  \<open>dst\<close>'s array hold afterwards, as the callers only look there.  If the padding does not fit, it is a
  copy that gets scrambled and the array keeps the plain bytes.
\<close>

definition sa_plain :: "bytes \<Rightarrow> bytes" where
  "sa_plain plain =
     (let tail = put_u16 (word_of_nat (length plain)) @ plain in put_u32 (fnv32a tail) @ tail)"

definition sa_Seal :: "nat \<Rightarrow> bytes \<Rightarrow> bytes \<Rightarrow> bytes" where
  "sa_Seal cap nonce plain =
     (let dst = sa_plain plain in
      if length (pad4 dst) \<le> cap then take (length dst) (xorfwd (pad4 dst)) else dst)"

definition sa_Open :: "bytes \<Rightarrow> bytes \<Rightarrow> bytes res" where
  "sa_Open nonce cipherText =
     (let dst = take (length cipherText) (xorbkd (pad4 cipherText)) in
      rbind (be_u32 dst) (\<lambda>h.
      if h \<noteq> fnv32a (drop 4 dst) then Err (ErrMsg ''invalid auth'')
      else rbind (be_u16 (drop 4 dst)) (\<lambda>l.
        if int (length dst) - 6 \<noteq> int (unat l) then Err (ErrMsg ''invalid auth'') else Ok (drop 6 dst))))"

record aead =
  ae_NonceSize :: int
  ae_Overhead :: int
  ae_Seal :: "nat \<Rightarrow> bytes \<Rightarrow> bytes \<Rightarrow> bytes"
  ae_Open :: "bytes \<Rightarrow> bytes \<Rightarrow> bytes res"

definition SimpleAuthenticator :: aead where
  "SimpleAuthenticator = \<lparr>ae_NonceSize = 0, ae_Overhead = 6, ae_Seal = sa_Seal, ae_Open = sa_Open\<rparr>"

section \<open>Datagrams\<close>

text \<open>Every segment takes at least one byte, so the reading loop ends.\<close>

lemma parsed_rest: "parsed mk r = Ok (Some (seg, x)) \<Longrightarrow> \<exists>s. r = Ok (s, Some x)"
  by (cases r) (auto simp: parsed_def)

lemma take_numbers_rest: "take_numbers n b s = Ok (s', x) \<Longrightarrow> length x \<le> length b"
proof (induction n arbitrary: b s)
  case (Suc n)
  then obtain v where "take_numbers n (drop 4 b) (PutNumber v s) = Ok (s', x)" by (auto simp: rbind_Ok_iff)
  from Suc.IH [OF this] show ?case by simp
qed simp

lemma ReadSegment_progress:
  assumes "ReadSegment fresh b = Ok (Some (seg, x))"
  shows "length x < length b"
proof -
  have d: "data_parse fresh cv opt c s = Ok (s', Some x) \<Longrightarrow> length x \<le> length c" for cv opt c s s'
    by (auto simp: data_parse_def Let_def rbind_Ok_iff rmap_Ok_iff split: if_splits prod.splits)
  have a: "ack_parse cv opt c s = Ok (s', Some x) \<Longrightarrow> length x \<le> length c" for cv opt c s s'
    by (auto simp: ack_parse_def Let_def rbind_Ok_iff rmap_Ok_iff dest!: take_numbers_rest split: if_splits prod.splits)
  have c: "cmd_parse cv cmd opt c s = Ok (s', Some x) \<Longrightarrow> length x \<le> length c" for cv cmd opt c s s'
    by (auto simp: cmd_parse_def Let_def rbind_Ok_iff split: if_splits)
  show ?thesis
    using assms unfolding ReadSegment_def
    by (auto simp: rbind_Ok_iff Let_def dest!: parsed_rest d a c split: if_splits)
qed

function read_segments :: "bytes \<Rightarrow> bytes \<Rightarrow> segment list res" where
  "read_segments fresh b =
     (if length b > 0 then
        (case ReadSegment fresh b of
           Ok (Some (seg, x)) \<Rightarrow> rmap ((#) seg) (read_segments fresh x)
         | Ok None \<Rightarrow> Ok []
         | Err e \<Rightarrow> Err e
         | Panic p \<Rightarrow> Panic p)
      else Ok [])"
  by pat_completeness auto
termination
  by (relation "measure (\<lambda>(f, b). length b)") (auto simp: ReadSegment_progress)

declare read_segments.simps [simp del]

definition strip_header :: "packet_header option \<Rightarrow> bytes \<Rightarrow> bytes option" where
  "strip_header hdr b =
     (case hdr of
        None \<Rightarrow> Some b
      | Some h \<Rightarrow> if i32 (int (length b)) \<le> hdr_Size h then None else Some (drop (nat (hdr_Size h)) b))"

definition unseal :: "aead option \<Rightarrow> bytes \<Rightarrow> bytes option res" where
  "unseal security b =
     (case security of
        None \<Rightarrow> Ok (Some b)
      | Some sec \<Rightarrow>
          if int (length b) \<le> ae_NonceSize sec + ae_Overhead sec then Ok None
          else (case ae_Open sec (take (nat (ae_NonceSize sec)) b) (drop (nat (ae_NonceSize sec)) b) of
                  Ok out \<Rightarrow> Ok (Some out)
                | Err e \<Rightarrow> Ok None
                | Panic p \<Rightarrow> Panic p))"

definition packet_Read :: "bytes \<Rightarrow> packet_header option \<Rightarrow> aead option \<Rightarrow> bytes \<Rightarrow> segment list res" where
  "packet_Read fresh hdr security b =
     (case strip_header hdr b of
        None \<Rightarrow> Ok []
      | Some b1 \<Rightarrow>
          rbind (unseal security b1) (\<lambda>out.
            case out of None \<Rightarrow> Ok [] | Some b2 \<Rightarrow> read_segments fresh b2))"

definition packet_Overhead :: "packet_header option \<Rightarrow> aead option \<Rightarrow> int" where
  "packet_Overhead hdr security =
     (case hdr of None \<Rightarrow> 0 | Some h \<Rightarrow> hdr_Size h) + (case security of None \<Rightarrow> 0 | Some sec \<Rightarrow> ae_Overhead sec)"

definition put_header :: "u16 \<Rightarrow> packet_header option \<Rightarrow> buffer \<Rightarrow> (packet_header option \<times> buffer) res" where
  "put_header roll hdr bb =
     (case hdr of
        None \<Rightarrow> Ok (None, bb)
      | Some h \<Rightarrow>
          rbind (Extend bb (hdr_Size h)) (\<lambda>(bb', off).
          rmap (\<lambda>(h', bs). (Some h', put_at bb' off bs)) (hdr_Serialize roll h (replicate (nat (hdr_Size h)) 0))))"

text \<open>\<open>rnd\<close> is the source of random bytes; \<open>common.Must2\<close> panics if it fails.\<close>

definition put_sealed :: "stream \<Rightarrow> aead option \<Rightarrow> bytes \<Rightarrow> buffer \<Rightarrow> buffer res" where
  "put_sealed rnd security b bb =
     (case security of
        None \<Rightarrow> rmap fst (Write bb b)
      | Some sec \<Rightarrow>
          rbind (ReadFullFrom bb rnd (ae_NonceSize sec)) (\<lambda>(bb1, _, err, _).
          if err \<noteq> None then Panic ''Must2''
          else
            rbind (BytesFrom bb1 (- ae_NonceSize sec)) (\<lambda>nonce.
            rbind (Extend bb1 (i32 (ae_Overhead sec + int (length b)))) (\<lambda>(bb2, off).
            Ok (put_at bb2 off (ae_Seal sec (nat (scap (buf_v bb2) - off)) nonce b))))))"

text \<open>The writer's new header state, and the datagram handed to the network.\<close>

definition packet_Write ::
  "bytes \<Rightarrow> u16 \<Rightarrow> stream \<Rightarrow> packet_header option \<Rightarrow> aead option \<Rightarrow> bytes \<Rightarrow> (packet_header option \<times> bytes) res" where
  "packet_Write fresh roll rnd hdr security b =
     rbind (put_header roll hdr (New fresh)) (\<lambda>(hdr', bb).
     rbind (put_sealed rnd security b bb) (\<lambda>bb'. rmap (Pair hdr') (Bytes bb')))"

text \<open>
  \<open>SimpleSegmentWriter.Write\<close>: the segment's bytes, in the writer's own buffer, go to the writer
  below, here \<open>wr\<close>.
\<close>

definition segment_Write :: "(bytes \<Rightarrow> 'r res) \<Rightarrow> segment \<Rightarrow> buffer \<Rightarrow> (buffer \<times> 'r) res" where
  "segment_Write wr seg buf =
     rbind (Extend (Clear buf) (ByteSize seg)) (\<lambda>(b1, off).
     rbind (Serialize seg (replicate (nat (ByteSize seg)) 0)) (\<lambda>raw.
       let b2 = put_at b1 off raw in
       rbind (Bytes b2) (\<lambda>bs. rmap (Pair b2) (wr bs))))"

section \<open>Retrying\<close>

text \<open>\<open>retryer.On\<close> with a fixed number of attempts; \<open>errs\<close> collects the errors, equal neighbours once.\<close>

fun retry_On :: "nat \<Rightarrow> ('s \<Rightarrow> 's \<times> goerr option) \<Rightarrow> goerr list \<Rightarrow> 's \<Rightarrow> 's \<times> goerr list option" where
  "retry_On 0 method errs s = (s, Some errs)"
| "retry_On (Suc n) method errs s =
     (case method s of
        (s', None) \<Rightarrow> (s', None)
      | (s', Some e) \<Rightarrow>
          retry_On n method (if errs = [] \<or> e \<noteq> last errs then errs @ [e] else errs) s')"

definition retryable_Write :: "('s \<Rightarrow> 's \<times> goerr option) \<Rightarrow> 's \<Rightarrow> 's \<times> goerr list option" where
  "retryable_Write method = retry_On 5 method []"

section \<open>The authenticator opens what it sealed\<close>

lemma xorfwd_from_nth:
  assumes "4 \<le> i"
  shows "length (xorfwd_from i x) = length x \<and> (\<forall>j < i. j < length x \<longrightarrow> xorfwd_from i x ! j = x ! j) \<and>
    (\<forall>j. i \<le> j \<and> j < length x \<longrightarrow> xorfwd_from i x ! j = xor (x ! j) (xorfwd_from i x ! (j - 4)))"
  using assms
proof (induction i x rule: xorfwd_from.induct)
  case (1 i x)
  show ?case
  proof (cases "i < length x")
    case True
    let ?x = "x[i := xor (x ! i) (x ! (i - 4))]" and ?y = "xorfwd_from i x"
    have y: "?y = xorfwd_from (i + 1) ?x" using True by (subst xorfwd_from.simps) simp
    have IH: "length ?y = length x" "\<And>j. j < i + 1 \<Longrightarrow> j < length x \<Longrightarrow> ?y ! j = ?x ! j"
      "\<And>j. i + 1 \<le> j \<Longrightarrow> j < length x \<Longrightarrow> ?y ! j = xor (?x ! j) (?y ! (j - 4))"
      using 1 True unfolding y by auto
    have low: "?y ! j = x ! j" if "j < i" "j < length x" for j
      using IH(2) [of j] that by simp
    have "?y ! j = xor (x ! j) (?y ! (j - 4))" if "i \<le> j" "j < length x" for j
    proof (cases "j = i")
      case True
      then show ?thesis using IH(2) [of i] low [of "i - 4"] that "1.prems" by simp
    next
      case False
      then show ?thesis using IH(3) [of j] that by simp
    qed
    with IH(1) low show ?thesis by blast
  next
    case False
    then have "xorfwd_from i x = x" by (subst xorfwd_from.simps) simp
    with False show ?thesis by auto
  qed
qed

lemma xorbkd_below_nth:
  "n \<le> length x \<Longrightarrow> length (xorbkd_below n x) = length x \<and>
     (\<forall>j < length x. xorbkd_below n x ! j = (if 4 \<le> j \<and> j < n then xor (x ! j) (x ! (j - 4)) else x ! j))"
proof (induction n arbitrary: x)
  case (Suc i)
  show ?case
  proof (cases "i \<ge> 4")
    case True
    let ?x = "x[i := xor (x ! i) (x ! (i - 4))]"
    have IH: "length (xorbkd_below i ?x) = length x"
      "\<And>j. j < length x \<Longrightarrow> xorbkd_below i ?x ! j = (if 4 \<le> j \<and> j < i then xor (?x ! j) (?x ! (j - 4)) else ?x ! j)"
      using Suc.IH [of ?x] Suc.prems by auto
    have "xorbkd_below i ?x ! j = (if 4 \<le> j \<and> j < Suc i then xor (x ! j) (x ! (j - 4)) else x ! j)" if "j < length x" for j
      using IH(2) [OF that] that True by (cases "j = i") auto
    with IH(1) True show ?thesis by simp
  next
    case False
    then show ?thesis by auto
  qed
qed simp

lemma length_xorfwd [simp]: "length (xorfwd x) = length x"
  using xorfwd_from_nth [of 4 x] by (simp add: xorfwd_def)

lemma length_xorbkd [simp]: "length (xorbkd x) = length x"
  using xorbkd_below_nth [of "length x" x] by (simp add: xorbkd_def)

lemma length_pad4: "length d \<le> length (pad4 d)" "length (pad4 d) \<le> length d + 3"
  by (auto simp: pad4_def Let_def)

lemma pad4_nth: "i < length d \<Longrightarrow> pad4 d ! i = d ! i"
  by (simp add: pad4_def Let_def nth_append)

text \<open>Only the bytes before a position matter there, so the padding is harmless.\<close>

lemma xor_roundtrip:
  "take (length d) (xorbkd (pad4 (take (length d) (xorfwd (pad4 d))))) = d"
proof (rule nth_equalityI)
  let ?y = "xorfwd (pad4 d)"
  let ?c = "take (length d) ?y"
  have len: "length d \<le> length ?y" using length_pad4(1) [of d] by simp
  then have c: "length ?c = length d" by simp
  show "length (take (length d) (xorbkd (pad4 ?c))) = length d"
    using length_pad4(1) [of ?c] c by simp
  fix i assume "i < length (take (length d) (xorbkd (pad4 ?c)))"
  then have i: "i < length d" by simp
  have p: "pad4 ?c ! k = ?y ! k" if "k < length d" for k using pad4_nth [of k ?c] c that by simp
  have li: "i < length (pad4 ?c)" using length_pad4(1) [of ?c] c i by simp
  have z: "xorbkd (pad4 ?c) ! i = (if 4 \<le> i then xor (?y ! i) (?y ! (i - 4)) else ?y ! i)"
    using xorbkd_below_nth [of "length (pad4 ?c)" "pad4 ?c"] li p [OF i] p [of "i - 4"] i by (simp add: xorbkd_def)
  have y: "?y ! i = (if 4 \<le> i then xor (d ! i) (?y ! (i - 4)) else d ! i)"
    using xorfwd_from_nth [of 4 "pad4 d"] i len pad4_nth [OF i] by (simp add: xorfwd_def not_le)
  have "xorbkd (pad4 ?c) ! i = d ! i" unfolding z using y by (simp add: xor.assoc)
  with i show "take (length d) (xorbkd (pad4 ?c)) ! i = d ! i" by simp
qed

lemma length_sa_plain [simp]: "length (sa_plain p) = length p + 6"
  by (simp add: sa_plain_def Let_def)

lemma sa_Seal_length [simp]: "length (sa_Seal cap n p) = length p + 6"
  using length_pad4(1) [of "sa_plain p"] by (simp add: sa_Seal_def Let_def)

lemma sa_Open_Seal:
  assumes "length p < 65536" and "length p + 9 \<le> cap"
  shows "sa_Open n (sa_Seal cap n' p) = Ok p"
proof -
  have "length (pad4 (sa_plain p)) \<le> cap" using length_pad4(2) [of "sa_plain p"] assms(2) by simp
  then have s: "sa_Seal cap n' p = take (length (sa_plain p)) (xorfwd (pad4 (sa_plain p)))"
    by (simp add: sa_Seal_def Let_def)
  have "length (sa_Seal cap n' p) = length (sa_plain p)" by simp
  then have d: "take (length (sa_Seal cap n' p)) (xorbkd (pad4 (sa_Seal cap n' p))) = sa_plain p"
    using xor_roundtrip [of "sa_plain p"] unfolding s by metis
  let ?t = "put_u16 (word_of_nat (length p)) @ p"
  have t: "sa_plain p = put_u32 (fnv32a ?t) @ ?t" by (simp add: sa_plain_def Let_def)
  have "unat (word_of_nat (length p) :: u16) = length p"
    using assms(1) by (simp only: unat_of_nat) simp
  then have "uint (word_of_nat (length p) :: u16) = int (length p)" by (metis uint_nat)
  then show ?thesis unfolding sa_Open_def d unfolding t by (simp add: Let_def)
qed

section \<open>What the packet code relies on\<close>

lemma put_at_extended:
  assumes "buf_wf b" and "n \<le> room b" and "length bs = n"
  shows "put_at (append_at_end b (replicate n 0)) (buf_end b) bs = append_at_end b bs"
  using assms buf_wf_bounds [OF assms(1)]
  by (cases "buf_v b") (auto simp: put_at_def append_at_end_def overwrite_def room_def)

lemma Extend_put:
  assumes "buf_wf b" and "length bs \<le> room b" and "n = int (length bs)" and "n \<le> Size * 10"
  shows "\<exists>b1 off. Extend b n = Ok (b1, off) \<and> put_at b1 off bs = append_at_end b bs \<and>
    scap (buf_v b1) - off = int (length (sarr (buf_v b))) - buf_end b"
proof -
  have e: "Extend b n = Ok (append_at_end b (replicate (length bs) 0), buf_end b)"
    using Extend_content [of b n] assms by simp
  have "length (sarr (buf_v (append_at_end b (replicate (length bs) 0)))) = length (sarr (buf_v b))"
    using assms buf_wf_bounds [OF assms(1)]
    by (cases "buf_v b") (auto simp: append_at_end_def overwrite_def room_def)
  with e put_at_extended [OF assms(1,2) refl] show ?thesis by (auto simp: scap_def)
qed

text \<open>
  The laws of an AEAD: the ciphertext is \<open>Overhead\<close> bytes longer and opens under the nonce it was
  sealed with.  Without a nonce the writer's and the reader's nonce arguments differ and are ignored.
  The capacity leaves three bytes for padding.
\<close>

locale aead_ops =
  fixes sec :: aead
  assumes nonce_size: "0 \<le> ae_NonceSize sec" "ae_NonceSize sec \<le> 64"
    and overhead_size: "0 \<le> ae_Overhead sec" "ae_Overhead sec \<le> 64"
    and seal_length: "int (length (ae_Seal sec cap n p)) = int (length p) + ae_Overhead sec"
    and open_seal: "length p < 65536 \<Longrightarrow> int (length p) + ae_Overhead sec + 3 \<le> int cap \<Longrightarrow>
      ae_NonceSize sec = 0 \<or> n = n' \<Longrightarrow> ae_Open sec n' (ae_Seal sec cap n p) = Ok p"
begin

lemma put_sealed_spec:
  assumes "buf_wf bb" and "length b < 8192" and "length nonce = nat (ae_NonceSize sec)"
    and "int (length b) + ae_NonceSize sec + ae_Overhead sec + 3 \<le> int (room bb)"
  shows "\<exists>c. put_sealed \<lparr>pending = nonce @ rs, ending = e\<rparr> (Some sec) b bb = Ok (append_at_end bb (nonce @ c)) \<and>
    int (length c) = int (length b) + ae_Overhead sec \<and> ae_Open sec nonce c = Ok b"
proof -
  let ?bb1 = "append_at_end bb nonce"
  have fit: "length nonce \<le> room bb" using assms(3,4) overhead_size nonce_size by simp
  have 1: "ReadFullFrom bb \<lparr>pending = nonce @ rs, ending = e\<rparr> (ae_NonceSize sec) =
      Ok (?bb1, length nonce, None, \<lparr>pending = rs, ending = e\<rparr>)"
    using ReadFullFrom_stream [OF assms(1) fit] assms(3) nonce_size by simp
  note w1 = append_at_end_content [OF assms(1) fit]
  obtain n where n: "BytesFrom ?bb1 (- ae_NonceSize sec) = Ok n" "ae_NonceSize sec = 0 \<or> n = nonce"
  proof (cases "ae_NonceSize sec = 0")
    case True
    then show ?thesis using that BytesFrom_content [of ?bb1 0] w1 by (auto simp: Len_content)
  next
    case False
    then show ?thesis
      using that BytesFrom_last [of ?bb1 "ae_NonceSize sec"] w1 nonce_size assms(3) by (simp add: Len_content)
  qed
  define cap where "cap = nat (int (length (sarr (buf_v ?bb1))) - buf_end ?bb1)"
  have room1: "int (room ?bb1) = int (room bb) - ae_NonceSize sec" using w1 fit assms(3) nonce_size by simp
  then have cap: "int (length b) + ae_Overhead sec + 3 \<le> int cap"
    using assms(4) buf_wf_bounds [of ?bb1] w1 by (auto simp: cap_def room_def)
  define c where "c = ae_Seal sec cap n b"
  have c: "int (length c) = int (length b) + ae_Overhead sec" by (simp add: c_def seal_length)
  then have "length c \<le> room ?bb1" "ae_Overhead sec + int (length b) = int (length c)"
    "int (length c) \<le> Size * 10"
    using room1 assms(2,4) overhead_size by (auto simp: Size_def)
  then obtain b1 off where x: "Extend ?bb1 (i32 (ae_Overhead sec + int (length b))) = Ok (b1, off)"
    "put_at b1 off c = append_at_end ?bb1 c" "nat (scap (buf_v b1) - off) = cap"
    using Extend_put [of ?bb1 c "int (length c)"] w1 by (auto simp: cap_def Size_def)
  have "append_at_end ?bb1 c = append_at_end bb (nonce @ c)"
    by (rule append_at_end_append [OF assms(1)]) (use c assms(3,4) nonce_size in simp)
  moreover have "ae_Open sec nonce c = Ok b" unfolding c_def using open_seal cap n(2) assms(2) by simp
  ultimately show ?thesis using 1 n(1) x c by (auto simp: put_sealed_def c_def)
qed

lemma seal_unseal:
  assumes "buf_wf bb" and "0 < length b" and "length b < 8192" and "length nonce = nat (ae_NonceSize sec)"
    and "int (length b) + ae_NonceSize sec + ae_Overhead sec + 3 \<le> int (room bb)"
  shows "\<exists>c. put_sealed \<lparr>pending = nonce @ rs, ending = e\<rparr> (Some sec) b bb = Ok (append_at_end bb c) \<and>
    int (length c) = int (length b) + ae_NonceSize sec + ae_Overhead sec \<and> unseal (Some sec) c = Ok (Some b)"
proof -
  obtain c where c: "put_sealed \<lparr>pending = nonce @ rs, ending = e\<rparr> (Some sec) b bb = Ok (append_at_end bb (nonce @ c))"
    "int (length c) = int (length b) + ae_Overhead sec" "ae_Open sec nonce c = Ok b"
    using put_sealed_spec [OF assms(1,3,4,5)] by blast
  then have "unseal (Some sec) (nonce @ c) = Ok (Some b)"
    using assms(2,4) nonce_size by (simp add: unseal_def)
  with c assms(4) nonce_size show ?thesis by (intro exI [of _ "nonce @ c"]) simp
qed

end

interpretation sa: aead_ops SimpleAuthenticator
  by unfold_locales (simp_all add: SimpleAuthenticator_def sa_Open_Seal)

section \<open>Datagrams survive\<close>

abbreviation option_header_ok :: "packet_header option \<Rightarrow> bool" where
  "option_header_ok hdr \<equiv> pred_option header_ok hdr"

definition header_len :: "packet_header option \<Rightarrow> int" where
  "header_len hdr = (case hdr of None \<Rightarrow> 0 | Some h \<Rightarrow> hdr_Size h)"

lemma header_len_range: "option_header_ok hdr \<Longrightarrow> 0 \<le> header_len hdr \<and> header_len hdr \<le> 1024"
  using ph.size_range by (auto simp: header_len_def split: option.splits)

lemma put_header_spec:
  assumes "option_header_ok hdr" and "buf_wf bb" and "header_len hdr \<le> int (room bb)"
  shows "\<exists>hdr' hs. put_header roll hdr bb = Ok (hdr', append_at_end bb hs) \<and> int (length hs) = header_len hdr \<and>
    option_header_ok hdr' \<and> header_len hdr' = header_len hdr"
proof (cases hdr)
  case None
  moreover have "append_at_end bb [] = bb"
    using buf_wf_bounds [OF assms(2)] by (cases "buf_v bb") (auto simp: append_at_end_def)
  ultimately show ?thesis by (auto simp: put_header_def header_len_def intro!: exI [of _ "[]"])
next
  case (Some h)
  then have ok: "header_ok h" using assms(1) by simp
  note sz = ph.size_range [OF ok]
  obtain h' bs where s: "hdr_Serialize roll h (replicate (nat (hdr_Size h)) 0) = Ok (h', bs)"
    "int (length bs) = hdr_Size h" "header_ok h'" "hdr_Size h' = hdr_Size h"
    using ph.fills [OF ok, of "replicate (nat (hdr_Size h)) 0" roll] sz by auto
  have "length bs \<le> room bb" using s(2) assms(3) Some by (simp add: header_len_def)
  then obtain b1 off where "Extend bb (hdr_Size h) = Ok (b1, off)" "put_at b1 off bs = append_at_end bb bs"
    using Extend_put [OF assms(2), of bs "hdr_Size h"] s(2) sz by (auto simp: Size_def)
  with s Some show ?thesis by (auto simp: put_header_def header_len_def)
qed

lemma strip_header_append:
  assumes "option_header_ok hdr" and "int (length hs) = header_len hdr" and "c \<noteq> []" and "length (hs @ c) < 2147483648"
  shows "strip_header hdr (hs @ c) = Some c"
proof (cases hdr)
  case (Some h)
  then have "hdr_Size h = int (length hs)" "0 < length c" using assms by (simp_all add: header_len_def)
  with Some assms(4) show ?thesis by (simp add: strip_header_def)
qed (use assms in \<open>simp add: strip_header_def header_len_def\<close>)

text \<open>Whatever the security layer is, if it undoes itself then so do the packet writer and reader.\<close>

lemma packet_Write_Read:
  assumes hdr: "option_header_ok hdr" and fresh: "length fresh < 2147483648"
    and fit: "header_len hdr + int k \<le> 8192" and k: "0 < k"
    and seal: "\<And>bb. buf_wf bb \<Longrightarrow> k \<le> room bb \<Longrightarrow> \<exists>c. put_sealed rnd security b bb = Ok (append_at_end bb c) \<and>
      0 < length c \<and> length c \<le> k \<and> int (length c) = len \<and> unseal security c = Ok (Some b)"
  shows "\<exists>hdr' d. packet_Write fresh roll rnd hdr security b = Ok (hdr', d) \<and> option_header_ok hdr' \<and>
    header_len hdr' = header_len hdr \<and> int (length d) = header_len hdr + len \<and>
    packet_Read fresh' hdr security d = read_segments fresh' b"
proof -
  note n = New_wf [OF fresh]
  obtain hdr' hs where h: "put_header roll hdr (New fresh) = Ok (hdr', append_at_end (New fresh) hs)"
    "int (length hs) = header_len hdr" "option_header_ok hdr'" "header_len hdr' = header_len hdr"
    using put_header_spec [OF hdr, of "New fresh" roll] n fit by auto
  let ?bb = "append_at_end (New fresh) hs"
  have hs: "length hs \<le> room (New fresh)" using n h(2) fit by simp
  note w = append_at_end_content [OF conjunct1 [OF n] hs]
  then have "k \<le> room ?bb" using n h(2) fit by simp
  with seal [of ?bb] w obtain c where c: "put_sealed rnd security b ?bb = Ok (append_at_end ?bb c)" "0 < length c"
    "length c \<le> k" "int (length c) = len" "unseal security c = Ok (Some b)"
    by blast
  then have w2: "buf_wf (append_at_end ?bb c)" "content (append_at_end ?bb c) = hs @ c"
    using append_at_end_content [of ?bb c] w n \<open>k \<le> room ?bb\<close> by auto
  have "packet_Write fresh roll rnd hdr security b = Ok (hdr', hs @ c)"
    using h(1) c(1) w2 by (simp add: packet_Write_def)
  moreover have "strip_header hdr (hs @ c) = Some c"
    using strip_header_append [OF hdr h(2)] c(2,3) h(2) fit by simp
  ultimately show ?thesis using h c by (simp add: packet_Read_def)
qed

lemma segment_Write_bytes:
  assumes "seg_ok seg" and "buf_wf buf" and "length (seg_bytes seg) \<le> room (Clear buf)" and "length (seg_bytes seg) \<le> 8192"
  shows "segment_Write wr seg buf = rmap (Pair (append_at_end (Clear buf) (seg_bytes seg))) (wr (seg_bytes seg))"
proof -
  have cl: "buf_wf (Clear buf)" "content (Clear buf) = []" using Clear_content [OF assms(2)] by simp_all
  obtain b1 off where x: "Extend (Clear buf) (ByteSize seg) = Ok (b1, off)"
    "put_at b1 off (seg_bytes seg) = append_at_end (Clear buf) (seg_bytes seg)"
    using Extend_put [OF cl(1) assms(3), of "ByteSize seg"] ByteSize_length [OF assms(1)] assms(4) by (auto simp: Size_def)
  have "Serialize seg (replicate (nat (ByteSize seg)) 0) = Ok (seg_bytes seg)"
    using Serialize_bytes [OF assms(1)] ByteSize_length [OF assms(1)] by simp
  moreover have "Bytes (append_at_end (Clear buf) (seg_bytes seg)) = Ok (seg_bytes seg)"
    using append_at_end_content [OF cl(1) assms(3)] cl by simp
  ultimately show ?thesis using x by (simp add: segment_Write_def)
qed

lemma read_segments_one:
  assumes "seg_ok seg" and "length fresh < 2147483648"
  shows "\<exists>t. read_segments fresh (seg_bytes seg) = Ok [t] \<and> same_segment seg t"
proof -
  obtain t where t: "ReadSegment fresh (seg_bytes seg) = Ok (Some (t, []))" "same_segment seg t"
    using ReadSegment_bytes [OF assms, of "[]"] by auto
  moreover have "0 < length (seg_bytes seg)" by (cases seg) (simp_all add: put_u16_def)
  moreover have "read_segments fresh [] = Ok []" by (simp add: read_segments.simps)
  ultimately show ?thesis by (subst read_segments.simps) simp
qed

definition output_Write ::
  "bytes \<Rightarrow> u16 \<Rightarrow> stream \<Rightarrow> packet_header option \<Rightarrow> aead option \<Rightarrow> segment \<Rightarrow> buffer \<Rightarrow> (buffer \<times> packet_header option \<times> bytes) res" where
  "output_Write fresh roll rnd hdr security seg buf = segment_Write (packet_Write fresh roll rnd hdr security) seg buf"

lemma datagram_via_seal:
  assumes seg: "seg_ok seg" and hdr: "option_header_ok hdr" and fresh: "length fresh < 2147483648" "length fresh' < 2147483648"
    and fit: "ByteSize seg + header_len hdr + extra \<le> 7900" "0 \<le> extra"
    and seal: "\<And>bb. buf_wf bb \<Longrightarrow> ByteSize seg + extra + 3 \<le> int (room bb) \<Longrightarrow>
      \<exists>c. put_sealed rnd security (seg_bytes seg) bb = Ok (append_at_end bb c) \<and>
        int (length c) = int (length (seg_bytes seg)) + extra \<and> unseal security c = Ok (Some (seg_bytes seg))"
  shows "\<exists>buf' hdr' d t. output_Write fresh roll rnd hdr security seg (New fresh) = Ok (buf', hdr', d) \<and>
    int (length d) = ByteSize seg + header_len hdr + extra \<and> option_header_ok hdr' \<and>
    packet_Read fresh' hdr security d = Ok [t] \<and> same_segment seg t"
proof -
  let ?b = "seg_bytes seg" and ?k = "nat (ByteSize seg + extra + 3)"
  have b: "0 < length ?b" "int (length ?b) = ByteSize seg" using ByteSize_length [OF seg] by (cases seg; simp add: put_u16_def)+
  note hr = header_len_range [OF hdr]
  have "buf_wf (New fresh)" "room (Clear (New fresh)) = 8192"
    using New_wf [OF fresh(1)] by (auto simp: Clear_def room_def New_def Size_def)
  then have w: "output_Write fresh roll rnd hdr security seg (New fresh) =
      rmap (Pair (append_at_end (Clear (New fresh)) ?b)) (packet_Write fresh roll rnd hdr security ?b)"
    unfolding output_Write_def using b(2) fit hr by (intro segment_Write_bytes [OF seg]) simp_all
  have "\<exists>c. put_sealed rnd security ?b bb = Ok (append_at_end bb c) \<and> 0 < length c \<and> length c \<le> ?k \<and>
      int (length c) = int (length ?b) + extra \<and> unseal security c = Ok (Some ?b)"
    if bb: "buf_wf bb" "?k \<le> room bb" for bb
  proof -
    from bb(2) b fit(2) have "ByteSize seg + extra + 3 \<le> int (room bb)" by simp
    from seal [OF bb(1) this] obtain c where c: "put_sealed rnd security ?b bb = Ok (append_at_end bb c)"
      "int (length c) = int (length ?b) + extra" "unseal security c = Ok (Some ?b)" by blast
    then have "0 < length c" "length c \<le> ?k" using b fit(2) by linarith+
    with c show ?thesis by blast
  qed
  note P = packet_Write_Read [OF hdr fresh(1), where k = ?k and rnd = rnd and security = security and b = ?b
    and len = "int (length ?b) + extra" and roll = roll and fresh' = fresh', OF _ _ this]
  obtain hdr' d where d: "packet_Write fresh roll rnd hdr security ?b = Ok (hdr', d)" "option_header_ok hdr'"
    "int (length d) = header_len hdr + (int (length ?b) + extra)" "packet_Read fresh' hdr security d = read_segments fresh' ?b"
    using P fit b hr by auto
  with w b(2) read_segments_one [OF seg fresh(2)] show ?thesis by auto
qed

definition legacy_security :: "aead option \<Rightarrow> bool" where
  "legacy_security security \<longleftrightarrow> security = None \<or> security = Some SimpleAuthenticator"

lemma legacy_seal:
  assumes "legacy_security security" and "0 < length b" and "length b < 8192" and "buf_wf bb"
    and "int (length b) + packet_Overhead None security + 3 \<le> int (room bb)"
  shows "\<exists>c. put_sealed rnd security b bb = Ok (append_at_end bb c) \<and>
    int (length c) = int (length b) + packet_Overhead None security \<and> unseal security c = Ok (Some b)"
proof (cases security)
  case None
  then show ?thesis
    using Write_fits [OF assms(4), of b] assms(2,5) by (auto simp: put_sealed_def unseal_def packet_Overhead_def)
next
  case (Some sec)
  then have sec: "sec = SimpleAuthenticator" using assms(1) by (simp add: legacy_security_def)
  obtain rs e where rnd: "rnd = \<lparr>pending = [] @ rs, ending = e\<rparr>" by (cases rnd) simp
  have z: "ae_NonceSize SimpleAuthenticator = 0" by (simp add: SimpleAuthenticator_def)
  show ?thesis
    using sa.seal_unseal [OF assms(4,2,3), of "[]" rs e] assms(5) z Some sec unfolding rnd
    by (simp add: packet_Overhead_def)
qed

text \<open>
  C29. Segments survive the network: what the segment writer and the packet writer make of a segment,
  with any of the disguising headers and with the legacy authenticator or none, is read by the packet
  reader as exactly that segment; the datagram is as much longer than the segment as \<open>Overhead\<close> says,
  and the header is ready for the next one.
\<close>

theorem datagram_roundtrip:
  assumes "seg_ok seg" and "option_header_ok hdr" and "legacy_security security"
    and "length fresh < 2147483648" and "length fresh' < 2147483648"
    and "ByteSize seg + packet_Overhead hdr security \<le> 7900"
  shows "\<exists>buf' hdr' d t. output_Write fresh roll rnd hdr security seg (New fresh) = Ok (buf', hdr', d) \<and>
    int (length d) = ByteSize seg + packet_Overhead hdr security \<and> option_header_ok hdr' \<and>
    packet_Read fresh' hdr security d = Ok [t] \<and> same_segment seg t"
proof -
  let ?x = "packet_Overhead None security"
  have x: "packet_Overhead hdr security = header_len hdr + ?x" "0 \<le> ?x"
    using assms(3) by (auto simp: packet_Overhead_def header_len_def legacy_security_def SimpleAuthenticator_def)
  have b: "0 < length (seg_bytes seg)" "int (length (seg_bytes seg)) = ByteSize seg"
    using ByteSize_length [OF assms(1)] by (cases seg; simp add: put_u16_def)+
  have "length (seg_bytes seg) < 8192" using b assms(6) x header_len_range [OF assms(2)] by simp
  from legacy_seal [OF assms(3) b(1) this] b(2) have
    "buf_wf bb \<Longrightarrow> ByteSize seg + ?x + 3 \<le> int (room bb) \<Longrightarrow>
       \<exists>c. put_sealed rnd security (seg_bytes seg) bb = Ok (append_at_end bb c) \<and>
         int (length c) = int (length (seg_bytes seg)) + ?x \<and> unseal security c = Ok (Some (seg_bytes seg))" for bb
    by simp
  from datagram_via_seal [OF assms(1,2,4,5) _ x(2) this] assms(6) x(1) show ?thesis by (simp add: add.assoc)
qed

theorem datagram_roundtrip_witness:
  "\<exists>buf' hdr' d t. output_Write [] 0 \<lparr>pending = [], ending = EOF\<rparr> (Some (DTLS 7 17 0)) (Some SimpleAuthenticator)
     (CmdOnly (NewCmdOnlySegment\<lparr>co_Cmd := CommandPing\<rparr>)) (New []) = Ok (buf', hdr', d) \<and> length d = 35 \<and>
     packet_Read [] (Some (DTLS 7 17 0)) (Some SimpleAuthenticator) d = Ok [t]"
  using datagram_roundtrip [of "CmdOnly (NewCmdOnlySegment\<lparr>co_Cmd := CommandPing\<rparr>)" "Some (DTLS 7 17 0)"
      "Some SimpleAuthenticator" "[]" "[]" 0 "\<lparr>pending = [], ending = EOF\<rparr>"]
  by (fastforce simp: CommandPing_def CommandData_def CommandACK_def header_ok_def legacy_security_def
      packet_Overhead_def SimpleAuthenticator_def)

text \<open>
  With an AEAD that has a nonce, as AES-GCM has (12 bytes), the datagram of a segment is longer than
  \<open>Overhead\<close> accounts for by the size of the nonce: a segment that fills the MTU according to
  \<open>Overhead\<close> makes a datagram that exceeds the MTU.  It is still read back correctly.
\<close>

theorem nonce_not_in_Overhead:
  assumes "aead_ops sec" and "0 < ae_NonceSize sec" and "length nonce = nat (ae_NonceSize sec)"
    and "seg_ok seg" and "option_header_ok hdr" and "length fresh < 2147483648"
    and "ByteSize seg + packet_Overhead hdr (Some sec) = mtu" and "mtu \<le> 1500"
  shows "\<exists>buf' hdr' d t. output_Write fresh roll \<lparr>pending = nonce @ rs, ending = e\<rparr> hdr (Some sec) seg (New fresh) =
      Ok (buf', hdr', d) \<and> int (length d) = mtu + ae_NonceSize sec \<and> mtu < int (length d) \<and>
      packet_Read fresh hdr (Some sec) d = Ok [t] \<and> same_segment seg t"
proof -
  let ?x = "ae_NonceSize sec + ae_Overhead sec"
  note lim = aead_ops.nonce_size [OF assms(1)] aead_ops.overhead_size [OF assms(1)] header_len_range [OF assms(5)]
  have x: "packet_Overhead hdr (Some sec) = header_len hdr + ae_Overhead sec" by (simp add: packet_Overhead_def header_len_def)
  have b: "0 < length (seg_bytes seg)" "int (length (seg_bytes seg)) = ByteSize seg"
    using ByteSize_length [OF assms(4)] by (cases seg; simp add: put_u16_def)+
  have "length (seg_bytes seg) < 8192" using b assms(7,8) x lim by simp
  from aead_ops.seal_unseal [OF assms(1) _ b(1) this assms(3)] b(2) have
    "buf_wf bb \<Longrightarrow> ByteSize seg + ?x + 3 \<le> int (room bb) \<Longrightarrow>
       \<exists>c. put_sealed \<lparr>pending = nonce @ rs, ending = e\<rparr> (Some sec) (seg_bytes seg) bb = Ok (append_at_end bb c) \<and>
         int (length c) = int (length (seg_bytes seg)) + ?x \<and> unseal (Some sec) c = Ok (Some (seg_bytes seg))" for bb
    by (simp add: add.assoc)
  from datagram_via_seal [OF assms(4,5,6,6) _ _ this, of roll] show ?thesis using assms(2,7,8) x lim by auto
qed

text \<open>A stand-in with the sizes of AES-GCM.\<close>

definition sample_aead :: aead where
  "sample_aead = \<lparr>ae_NonceSize = 12, ae_Overhead = 16, ae_Seal = (\<lambda>cap n p. p @ replicate 16 0),
     ae_Open = (\<lambda>n c. Ok (take (length c - 16) c))\<rparr>"

theorem nonce_not_in_Overhead_witness:
  "\<exists>buf' hdr' d. output_Write [] 0 \<lparr>pending = replicate 12 0 @ [], ending = EOF\<rparr> None (Some sample_aead)
     (CmdOnly (NewCmdOnlySegment\<lparr>co_Cmd := CommandPing\<rparr>)) (New []) = Ok (buf', hdr', d) \<and> length d = 44"
proof -
  have "aead_ops sample_aead" by unfold_locales (simp_all add: sample_aead_def)
  from nonce_not_in_Overhead [OF this, of "replicate 12 0" "CmdOnly (NewCmdOnlySegment\<lparr>co_Cmd := CommandPing\<rparr>)" None "[]" 32 0 "[]" EOF]
  show ?thesis
    by (fastforce simp: sample_aead_def CommandPing_def CommandData_def CommandACK_def packet_Overhead_def)
qed

end
