(* ===== verification/KcpConn.thy ===== *)
theory KcpConn
  imports KcpSend KcpPacket NetAddr "HOL-Library.AList" "HOL-Library.Sublist"
begin

text \<open>
  An mKCP connection (\<open>transport/internet/kcp/connection.go\<close>): the round-trip estimate, the six states, the
  handling of incoming segments, the periodic flush, closing, and the reading and writing ends.  Clocks
  are arguments: \<open>current\<close> is the reading an operation takes first, \<open>now\<close> the one \<open>SetState\<close> takes later
  in the same operation.  What goes to the output is collected in \<open>cn_output\<close>, and the two updaters,
  which run in goroutines of their own, are phases that \<open>updater_step\<close> advances.
\<close>

section \<open>Round-trip time\<close>

record round_trip =
  rt_variation :: u32
  rt_srtt :: u32
  rt_rto :: u32
  rt_minRtt :: u32
  rt_updatedTimestamp :: u32

definition UpdatePeerRTO :: "u32 \<Rightarrow> u32 \<Rightarrow> round_trip \<Rightarrow> round_trip" where
  "UpdatePeerRTO rto current info =
     (if current - rt_updatedTimestamp info < 3000 then info
      else info\<lparr>rt_updatedTimestamp := current, rt_rto := rto\<rparr>)"

definition smooth :: "u32 \<Rightarrow> round_trip \<Rightarrow> round_trip" where
  "smooth rtt info =
     (if rt_srtt info = 0 then info\<lparr>rt_srtt := rtt, rt_variation := rtt div 2\<rparr>
      else
        (let delta = (if rt_srtt info > rtt then rt_srtt info - rtt else rtt - rt_srtt info);
             srtt = (7 * rt_srtt info + rtt) div 8 in
         info\<lparr>rt_variation := (3 * rt_variation info + delta) div 4,
              rt_srtt := (if srtt < rt_minRtt info then rt_minRtt info else srtt)\<rparr>))"

definition rt_Update :: "u32 \<Rightarrow> u32 \<Rightarrow> round_trip \<Rightarrow> round_trip" where
  "rt_Update rtt current info =
     (if rtt > 0x7FFFFFFF then info
      else
        (let info = smooth rtt info;
             rto = (if rt_minRtt info < 4 * rt_variation info then rt_srtt info + 4 * rt_variation info
                    else rt_srtt info + rt_variation info);
             rto = (if rto > 10000 then 10000 else rto) in
         info\<lparr>rt_rto := rto * 5 div 4, rt_updatedTimestamp := current\<rparr>))"

section \<open>Updaters\<close>

text \<open>
  A semaphore of one token lets \<open>WakeUp\<close> start the goroutine \<open>run\<close>, which gives the token back when it
  ends: \<open>Idle\<close> has the token, \<open>Started\<close> is before the first check, \<open>Ticking\<close> in the loop.
\<close>

datatype updater = Idle | Started | Ticking

definition WakeUp :: "updater \<Rightarrow> updater" where
  "WakeUp u = (case u of Idle \<Rightarrow> Started | _ \<Rightarrow> u)"

text \<open>The next phase, and whether \<open>updateFunc\<close> is called.\<close>

definition updater_step :: "bool \<Rightarrow> bool \<Rightarrow> updater \<Rightarrow> updater \<times> bool" where
  "updater_step shouldTerminate shouldContinue u =
     (case u of
        Idle \<Rightarrow> (Idle, False)
      | Started \<Rightarrow> (if shouldTerminate then (Idle, False) else (Ticking, False))
      | Ticking \<Rightarrow> (if shouldContinue then (Ticking, True) else (Idle, False)))"

section \<open>The connection\<close>

datatype conn_state =
    StateActive | StateReadyToClose | StatePeerClosed | StateTerminating | StatePeerTerminating | StateTerminated

record conn =
  cn_Conversation :: u16
  cn_Config :: "kcp_config option"
  cn_state :: conn_state
  cn_stateBeginTime :: u32
  cn_lastIncomingTime :: u32
  cn_lastPingTime :: u32
  cn_mss :: u32
  cn_roundTrip :: round_trip
  cn_receivingWorker :: recv_worker
  cn_sendingWorker :: send_worker
  cn_output :: "segment list"
  cn_dataInput :: bool
  cn_dataOutput :: bool
  cn_dataUpdater :: updater
  cn_pingUpdater :: updater
  cn_pingInterval :: nat
  cn_terminateStarted :: bool
  cn_closed :: bool

definition DataSegmentOverhead :: u32 where "DataSegmentOverhead = 18"

text \<open>\<open>overhead\<close> is the packet writer's \<open>Overhead\<close>.\<close>

definition NewConnection :: "u16 \<Rightarrow> int \<Rightarrow> kcp_config option \<Rightarrow> conn res" where
  "NewConnection conversation overhead config =
     rbind (GetReceivingInFlightSize config) (\<lambda>rsize.
     rbind (NewSendingWorker config) (\<lambda>sw.
     Ok \<lparr>cn_Conversation = conversation, cn_Config = config, cn_state = StateActive, cn_stateBeginTime = 0,
         cn_lastIncomingTime = 0, cn_lastPingTime = 0,
         cn_mss = GetMTUValue config - word_of_int overhead - DataSegmentOverhead,
         cn_roundTrip = \<lparr>rt_variation = 0, rt_srtt = 0, rt_rto = 100, rt_minRtt = GetTTIValue config,
                         rt_updatedTimestamp = 0\<rparr>,
         cn_receivingWorker = NewReceivingWorker rsize, cn_sendingWorker = sw, cn_output = [],
         cn_dataInput = False, cn_dataOutput = False, cn_dataUpdater = Idle, cn_pingUpdater = WakeUp Idle,
         cn_pingInterval = 5000, cn_terminateStarted = False, cn_closed = False\<rparr>))"

text \<open>The configured sizes do not change, so the division that succeeded in \<open>NewConnection\<close> still does.\<close>

definition conn_inFlight :: "conn \<Rightarrow> u32" where
  "conn_inFlight c = (case GetSendingInFlightSize (cn_Config c) of Ok n \<Rightarrow> n | _ \<Rightarrow> 0)"

definition conn_Congestion :: "conn \<Rightarrow> bool" where
  "conn_Congestion c = (case cn_Config c of None \<Rightarrow> False | Some cfg \<Rightarrow> kc_Congestion cfg)"

definition wake_data :: "conn \<Rightarrow> conn" where
  "wake_data c = c\<lparr>cn_dataUpdater := WakeUp (cn_dataUpdater c)\<rparr>"

definition signal_both :: "conn \<Rightarrow> conn" where
  "signal_both c = c\<lparr>cn_dataInput := True, cn_dataOutput := True\<rparr>"

definition close_write :: "conn \<Rightarrow> conn" where
  "close_write c = c\<lparr>cn_sendingWorker := CloseWrite (cn_sendingWorker c)\<rparr>"

definition SetState :: "u32 \<Rightarrow> conn_state \<Rightarrow> conn \<Rightarrow> conn" where
  "SetState now st c =
     (let c = c\<lparr>cn_state := st, cn_stateBeginTime := now\<rparr> in
      case st of
        StateActive \<Rightarrow> c
      | StateReadyToClose \<Rightarrow> c
      | StatePeerClosed \<Rightarrow> close_write c
      | StateTerminating \<Rightarrow> (close_write c)\<lparr>cn_pingInterval := 1000\<rparr>
      | StatePeerTerminating \<Rightarrow> (close_write c)\<lparr>cn_pingInterval := 1000\<rparr>
      | StateTerminated \<Rightarrow>
          (wake_data (close_write c))
            \<lparr>cn_pingInterval := 1000, cn_pingUpdater := WakeUp (cn_pingUpdater c), cn_terminateStarted := True\<rparr>)"

definition conn_Close :: "u32 \<Rightarrow> conn \<Rightarrow> conn \<times> goerr option" where
  "conn_Close now c =
     (let c = signal_both c in
      case cn_state c of
        StateReadyToClose \<Rightarrow> (c, Some (ErrMsg ''Connection closed.''))
      | StateTerminating \<Rightarrow> (c, Some (ErrMsg ''Connection closed.''))
      | StateTerminated \<Rightarrow> (c, Some (ErrMsg ''Connection closed.''))
      | StateActive \<Rightarrow> (SetState now StateReadyToClose c, None)
      | StatePeerClosed \<Rightarrow> (SetState now StateTerminating c, None)
      | StatePeerTerminating \<Rightarrow> (SetState now StateTerminated c, None))"

text \<open>The goroutine that \<open>SetState\<close> starts.\<close>

definition Terminate :: "pools \<Rightarrow> conn \<Rightarrow> conn \<times> pools" where
  "Terminate ps c =
     (case sk_Release (cn_sendingWorker c) ps of (sw, ps1) \<Rightarrow>
        (case rw_Release (cn_receivingWorker c) ps1 of (rw, ps2) \<Rightarrow>
           ((signal_both c)\<lparr>cn_closed := True, cn_sendingWorker := sw, cn_receivingWorker := rw\<rparr>, ps2)))"

definition OnPeerClosed :: "u32 \<Rightarrow> conn \<Rightarrow> conn" where
  "OnPeerClosed now c =
     (case cn_state c of
        StateReadyToClose \<Rightarrow> SetState now StateTerminating c
      | StateActive \<Rightarrow> SetState now StatePeerClosed c
      | _ \<Rightarrow> c)"

definition HandleOption :: "u32 \<Rightarrow> byte \<Rightarrow> conn \<Rightarrow> conn" where
  "HandleOption now opt c = (if opt AND SegmentOptionClose = SegmentOptionClose then OnPeerClosed now c else c)"

definition peer_terminates :: "u32 \<Rightarrow> conn \<Rightarrow> conn" where
  "peer_terminates now c =
     (case cn_state c of
        StateActive \<Rightarrow> SetState now StatePeerTerminating c
      | StatePeerClosed \<Rightarrow> SetState now StatePeerTerminating c
      | StateReadyToClose \<Rightarrow> SetState now StateTerminating c
      | StateTerminating \<Rightarrow> SetState now StateTerminated c
      | _ \<Rightarrow> c)"

fun input_segment :: "u32 \<Rightarrow> u32 \<Rightarrow> segment \<Rightarrow> conn \<Rightarrow> conn" where
  "input_segment current now (Data seg) c =
     (let c = HandleOption now (ds_Option seg) c;
          c = c\<lparr>cn_receivingWorker := fst (recv_ProcessSegment seg (cn_receivingWorker c, pools_init))\<rparr>;
          c = (if IsDataAvailable (cn_receivingWorker c) then c\<lparr>cn_dataInput := True\<rparr> else c) in
      wake_data c)"
| "input_segment current now (Ack seg) c =
     (let c = HandleOption now (as_Option seg) c in
      case send_ProcessSegment current seg (rt_rto (cn_roundTrip c)) (cn_sendingWorker c) of (w, rtt) \<Rightarrow>
        wake_data (c\<lparr>cn_sendingWorker := w, cn_dataOutput := True,
          cn_roundTrip := (case rtt of None \<Rightarrow> cn_roundTrip c | Some r \<Rightarrow> rt_Update r current (cn_roundTrip c))\<rparr>))"
| "input_segment current now (CmdOnly seg) c =
     (let c = HandleOption now (co_Option seg) c;
          c = (if co_Cmd seg = CommandTerminate then peer_terminates now c else c);
          c = (if co_Option seg = SegmentOptionClose \<or> co_Cmd seg = CommandTerminate then signal_both c else c) in
      c\<lparr>cn_sendingWorker := ProcessReceivingNext (co_ReceivingNext seg) (cn_sendingWorker c),
        cn_receivingWorker := ProcessSendingNext (co_SendingNext seg) (cn_receivingWorker c),
        cn_roundTrip := UpdatePeerRTO (co_PeerRTO seg) current (cn_roundTrip c)\<rparr>)"

fun input_loop :: "u32 \<Rightarrow> u32 \<Rightarrow> segment list \<Rightarrow> conn \<Rightarrow> conn" where
  "input_loop current now [] c = c"
| "input_loop current now (seg # segs) c =
     (if Conversation seg \<noteq> cn_Conversation c then c
      else input_loop current now segs (input_segment current now seg c))"

definition conn_Input :: "u32 \<Rightarrow> u32 \<Rightarrow> segment list \<Rightarrow> conn \<Rightarrow> conn" where
  "conn_Input current now segments c = input_loop current now segments (c\<lparr>cn_lastIncomingTime := current\<rparr>)"

definition Ping :: "u32 \<Rightarrow> Command \<Rightarrow> conn \<Rightarrow> conn" where
  "Ping current cmd c =
     c\<lparr>cn_output := cn_output c @ [CmdOnly (NewCmdOnlySegment\<lparr>co_Conv := cn_Conversation c, co_Cmd := cmd,
         co_ReceivingNext := NextNumber (cn_receivingWorker c), co_SendingNext := FirstUnacknowledged (cn_sendingWorker c),
         co_PeerRTO := rt_rto (cn_roundTrip c),
         co_Option := (if cn_state c = StateReadyToClose then SegmentOptionClose else 0)\<rparr>)],
       cn_lastPingTime := current\<rparr>"

definition flush_workers :: "u32 \<Rightarrow> conn \<Rightarrow> conn" where
  "flush_workers current c =
     (let closing = (cn_state c = StateReadyToClose) in
      case recv_Flush (cn_Conversation c) closing current (rt_rto (cn_roundTrip c)) (cn_receivingWorker c) of (rw, acks) \<Rightarrow>
      (case send_Flush (cn_Conversation c) closing (conn_Congestion c) (conn_inFlight c) current
              (rt_rto (cn_roundTrip c)) (cn_sendingWorker c) of (sw, out, ping) \<Rightarrow>
         (let c = c\<lparr>cn_receivingWorker := rw, cn_sendingWorker := sw,
                    cn_output := cn_output c @ map Ack acks @ map Data out\<rparr> in
          if ping then Ping current CommandPing c else c)))"

definition conn_flush :: "u32 \<Rightarrow> u32 \<Rightarrow> conn \<Rightarrow> conn" where
  "conn_flush current now c =
     (if cn_state c = StateTerminated then c
      else
        (let c = (if cn_state c = StateActive \<and> current - cn_lastIncomingTime c \<ge> 30000
                  then fst (conn_Close now c) else c);
             c = (if cn_state c = StateReadyToClose \<and> send_IsEmpty (cn_sendingWorker c)
                  then SetState now StateTerminating c else c) in
         if cn_state c = StateTerminating then
           (let c = Ping current CommandTerminate c in
            if current - cn_stateBeginTime c > 8000 then SetState now StateTerminated c else c)
         else
           (let c = (if cn_state c = StatePeerTerminating \<and> current - cn_stateBeginTime c > 4000
                     then SetState now StateTerminating c else c);
                c = (if cn_state c = StateReadyToClose \<and> current - cn_stateBeginTime c > 15000
                     then SetState now StateTerminating c else c);
                c = flush_workers current c in
            if current - cn_lastPingTime c \<ge> 3000 then Ping current CommandPing c else c)))"

definition isTerminating :: "conn \<Rightarrow> bool" where
  "isTerminating c \<longleftrightarrow> cn_state c = StateTerminating \<or> cn_state c = StateTerminated"

definition isTerminated :: "conn \<Rightarrow> bool" where
  "isTerminated c \<longleftrightarrow> cn_state c = StateTerminated"

definition data_updater_run :: "u32 \<Rightarrow> u32 \<Rightarrow> conn \<Rightarrow> conn" where
  "data_updater_run current now c =
     (case updater_step (isTerminating c)
        (\<not> isTerminating c \<and> (send_UpdateNecessary (cn_sendingWorker c) \<or> recv_UpdateNecessary (cn_receivingWorker c)))
        (cn_dataUpdater c) of (u, call) \<Rightarrow>
      (let c = c\<lparr>cn_dataUpdater := u\<rparr> in if call then conn_flush current now c else c))"

definition ping_updater_run :: "u32 \<Rightarrow> u32 \<Rightarrow> conn \<Rightarrow> conn" where
  "ping_updater_run current now c =
     (case updater_step (isTerminated c) (\<not> isTerminated c) (cn_pingUpdater c) of (u, call) \<Rightarrow>
      (let c = c\<lparr>cn_pingUpdater := u\<rparr> in if call then conn_flush current now c else c))"

section \<open>Reading and writing\<close>

text \<open>
  One round of the loop of \<open>ReadMultiBuffer\<close> and of \<open>Read\<close>: the result, or \<open>None\<close> if the caller goes on
  to wait for input.
\<close>

definition conn_ReadMultiBuffer :: "conn \<Rightarrow> conn \<times> multi_buffer res option" where
  "conn_ReadMultiBuffer c =
     (if cn_state c \<in> {StateReadyToClose, StateTerminating, StateTerminated} then (c, Some (Err EOF))
      else
        (case recv_ReadMultiBuffer (cn_receivingWorker c) of (w, mb) \<Rightarrow>
           (let c = c\<lparr>cn_receivingWorker := w\<rparr> in
            if \<not> mb_IsEmpty mb then (wake_data c, Some (Ok mb))
            else if cn_state c = StatePeerTerminating then (c, Some (Err EOF))
            else (c, None))))"

definition conn_Read :: "nat \<Rightarrow> conn \<Rightarrow> conn \<times> bytes res option" where
  "conn_Read k c =
     (if cn_state c \<in> {StateReadyToClose, StateTerminating, StateTerminated} then (c, Some (Err EOF))
      else
        (case recv_Read (cn_receivingWorker c) k of
           Ok (w, bs) \<Rightarrow>
             (let c = c\<lparr>cn_receivingWorker := w\<rparr> in
              if length bs > 0 then (wake_data c, Some (Ok bs)) else (c, None))
         | Err e \<Rightarrow> (c, Some (Err e))
         | Panic p \<Rightarrow> (c, Some (Panic p))))"

text \<open>
  The wait for input or output: \<open>signalled\<close> tells whether the notifier fires within the polls or before
  the timer, \<open>deadline\<close> is what is left of the deadline if one is set, negative if it has passed.
\<close>

definition waitForData :: "bool \<Rightarrow> int option \<Rightarrow> goerr option" where
  "waitForData signalled deadline =
     (if signalled then None
      else (case deadline of None \<Rightarrow> None | Some d \<Rightarrow> Some (ErrMsg ''Read/Write timeout'')))"

text \<open>
  What one \<open>Read\<close> of \<open>io.LimitReader(reader, mss)\<close> into a new buffer gives, on a reader with the bytes
  \<open>input\<close> left: an error at the end or if nothing may be read.
\<close>

definition mss_chunk :: "u32 \<Rightarrow> bytes \<Rightarrow> nat" where
  "mss_chunk mss input = min (min (unat mss) 8192) (length input)"

lemma mss_chunk_le: "mss_chunk mss input \<le> length input"
  by (simp add: mss_chunk_def)

lemma chunk_decreases:
  "0 < mss_chunk mss input \<Longrightarrow> Suc (2 * (length input - mss_chunk mss input)) < 2 * length input"
  using mss_chunk_le [of mss input] by linarith

datatype write_end = Written | Closed_pipe | Window_full

text \<open>
  The inner loop of \<open>writeMultiBufferInternal\<close>, with \<open>b\<close> the buffer that could not be pushed yet; the
  result also says whether an update is pending.
\<close>

function write_loop ::
  "bytes \<Rightarrow> conn \<Rightarrow> buffer option \<Rightarrow> bytes \<Rightarrow> bool \<Rightarrow> conn \<times> buffer option \<times> bytes \<times> bool \<times> write_end" where
  "write_loop fresh c b input upd =
     (if cn_state c \<noteq> StateActive then (c, b, input, upd, Closed_pipe)
      else
        (case b of
           None \<Rightarrow>
             (let n = mss_chunk (cn_mss c) input in
              if n = 0 then (c, Some (New fresh), input, upd, Written)
              else write_loop fresh c (Some (append_at_end (New fresh) (take n input))) (drop n input) upd)
         | Some b \<Rightarrow>
             (case send_Push b (cn_sendingWorker c) of (w, pushed) \<Rightarrow>
                if pushed then write_loop fresh (c\<lparr>cn_sendingWorker := w\<rparr>) None input True
                else (c\<lparr>cn_sendingWorker := w\<rparr>, Some b, input, upd, Window_full))))"
  by pat_completeness auto
termination
  by (relation "measure (\<lambda>(fresh, c, b, input, upd). 2 * length input + (if b = None then 0 else 1))")
    (auto simp: chunk_decreases split: if_splits)

declare write_loop.simps [simp del]

text \<open>A call of \<open>Write\<close> up to its end or to its first wait for output.\<close>

definition conn_Write :: "bytes \<Rightarrow> bytes \<Rightarrow> conn \<Rightarrow> conn \<times> buffer option \<times> bytes \<times> goerr option option" where
  "conn_Write fresh b c =
     (case write_loop fresh c None b False of (c', left, input, upd, e) \<Rightarrow>
        (if upd then wake_data c' else c', left, input,
         case e of Written \<Rightarrow> Some None | Closed_pipe \<Rightarrow> Some (Some ErrClosedPipe) | Window_full \<Rightarrow> None))"

section \<open>The listener\<close>

text \<open>
  The server side (\<open>listener.go\<close>) keeps the connections by remote address, port and conversation.
  \<open>li_accepted\<close> collects what was handed to \<open>addConn\<close>.  A connection gets the clock of its own start,
  so it is given its clock readings as a function of its identity.
\<close>

record connection_id =
  ci_Remote :: "address option"
  ci_Port :: port
  ci_Conv :: u16

record listener =
  li_sessions :: "(connection_id \<times> conn) list"
  li_config :: "kcp_config option"
  li_header :: "packet_header option"
  li_security :: "aead option"
  li_accepted :: "connection_id list"

definition NewListener :: "kcp_config option \<Rightarrow> packet_header option \<Rightarrow> aead option \<Rightarrow> listener" where
  "NewListener config hdr security =
     \<lparr>li_sessions = [], li_config = config, li_header = hdr, li_security = security, li_accepted = []\<rparr>"

definition session_for :: "connection_id \<Rightarrow> listener \<Rightarrow> (listener \<times> conn) res" where
  "session_for cid l =
     (case map_of (li_sessions l) cid of
        Some c \<Rightarrow> Ok (l, c)
      | None \<Rightarrow>
          rmap (\<lambda>c. (l\<lparr>li_accepted := li_accepted l @ [cid]\<rparr>, c))
            (NewConnection (ci_Conv cid) (packet_Overhead (li_header l) (li_security l)) (li_config l)))"

definition OnReceive ::
  "bytes \<Rightarrow> (connection_id \<Rightarrow> u32 \<times> u32) \<Rightarrow> bytes \<Rightarrow> destination \<Rightarrow> listener \<Rightarrow> listener res" where
  "OnReceive fresh clock payload src l =
     rbind (packet_Read fresh (li_header l) (li_security l) payload) (\<lambda>segments.
       case segments of
         [] \<Rightarrow> Ok l
       | first # _ \<Rightarrow>
           (let cid = \<lparr>ci_Remote = dest_Address src, ci_Port = dest_Port src, ci_Conv = Conversation first\<rparr> in
            if map_of (li_sessions l) cid = None \<and> seg_Command first = CommandTerminate then Ok l
            else rmap (\<lambda>(l', c). l'\<lparr>li_sessions :=
                     AList.update cid (conn_Input (fst (clock cid)) (snd (clock cid)) segments c) (li_sessions l')\<rparr>)
                   (session_for cid l)))"

definition listener_Remove :: "connection_id \<Rightarrow> listener \<Rightarrow> listener" where
  "listener_Remove cid l = l\<lparr>li_sessions := AList.delete cid (li_sessions l)\<rparr>"

definition ActiveConnections :: "listener \<Rightarrow> nat" where
  "ActiveConnections l = length (li_sessions l)"

text \<open>A datagram reaches only the connection it belongs to, and the table keeps one entry per connection.\<close>

lemma OnReceive_cases:
  assumes "OnReceive fresh clock payload src l = Ok l'"
  shows "li_sessions l' = li_sessions l \<or>
    (\<exists>conv c. li_sessions l' =
       AList.update \<lparr>ci_Remote = dest_Address src, ci_Port = dest_Port src, ci_Conv = conv\<rparr> c (li_sessions l))"
proof -
  obtain segments where segs: "packet_Read fresh (li_header l) (li_security l) payload = Ok segments"
    using assms by (auto simp: OnReceive_def rbind_Ok_iff)
  show ?thesis
  proof (cases segments)
    case (Cons first rest)
    let ?cid = "\<lparr>ci_Remote = dest_Address src, ci_Port = dest_Port src, ci_Conv = Conversation first\<rparr>"
    have keep: "li_sessions l1 = li_sessions l" if "session_for ?cid l = Ok (l1, c)" for l1 c
      using that by (auto simp: session_for_def rmap_Ok_iff split: option.splits)
    consider "l' = l" | l1 c c' where "session_for ?cid l = Ok (l1, c)" "li_sessions l' = AList.update ?cid c' (li_sessions l1)"
      using assms segs Cons by (auto simp: OnReceive_def Let_def rmap_Ok_iff split: if_splits)
    then show ?thesis by cases (simp, metis keep)
  qed (use assms segs in \<open>simp add: OnReceive_def\<close>)
qed

lemma OnReceive_others:
  assumes "OnReceive fresh clock payload src l = Ok l'" and "ci_Remote cid \<noteq> dest_Address src \<or> ci_Port cid \<noteq> dest_Port src"
  shows "map_of (li_sessions l') cid = map_of (li_sessions l) cid"
  using OnReceive_cases [OF assms(1)] assms(2) by (auto simp: update_conv')

lemma OnReceive_distinct:
  assumes "OnReceive fresh clock payload src l = Ok l'" and "distinct (map fst (li_sessions l))"
  shows "distinct (map fst (li_sessions l'))"
  using OnReceive_cases [OF assms(1)] assms(2) by (auto simp: distinct_update)

section \<open>The states\<close>

fun rank :: "conn_state \<Rightarrow> nat" where
  "rank StateActive = 0"
| "rank StateReadyToClose = 1"
| "rank StatePeerClosed = 1"
| "rank StatePeerTerminating = 2"
| "rank StateTerminating = 3"
| "rank StateTerminated = 4"

text \<open>Progress of the state, and the goroutine that ends the connection is started when it must be.\<close>

definition forward :: "conn \<Rightarrow> conn \<Rightarrow> bool" where
  "forward c c' \<longleftrightarrow>
     (cn_state c' = cn_state c \<or> rank (cn_state c) < rank (cn_state c')) \<and>
     (cn_state c' = StateTerminated \<longrightarrow> cn_state c = StateTerminated \<or> cn_terminateStarted c') \<and>
     (cn_terminateStarted c \<longrightarrow> cn_terminateStarted c')"

named_theorems conn_fields

lemma wake_data_fields [conn_fields]:
  "cn_state (wake_data c) = cn_state c" "cn_terminateStarted (wake_data c) = cn_terminateStarted c"
  "cn_stateBeginTime (wake_data c) = cn_stateBeginTime c"
  by (simp_all add: wake_data_def)

lemma signal_both_fields [conn_fields]:
  "cn_state (signal_both c) = cn_state c" "cn_terminateStarted (signal_both c) = cn_terminateStarted c"
  "cn_stateBeginTime (signal_both c) = cn_stateBeginTime c" "cn_sendingWorker (signal_both c) = cn_sendingWorker c"
  by (simp_all add: signal_both_def)

lemma SetState_fields [conn_fields]:
  "cn_state (SetState now st c) = st" "cn_stateBeginTime (SetState now st c) = now"
  "cn_terminateStarted (SetState now st c) = (cn_terminateStarted c \<or> st = StateTerminated)"
  by (cases st; simp add: SetState_def close_write_def wake_data_def Let_def)+

lemma Ping_fields [conn_fields]:
  "cn_state (Ping current cmd c) = cn_state c" "cn_terminateStarted (Ping current cmd c) = cn_terminateStarted c"
  "cn_stateBeginTime (Ping current cmd c) = cn_stateBeginTime c"
  by (simp_all add: Ping_def)

lemma flush_workers_fields [conn_fields]:
  "cn_state (flush_workers current c) = cn_state c"
  "cn_terminateStarted (flush_workers current c) = cn_terminateStarted c"
  "cn_stateBeginTime (flush_workers current c) = cn_stateBeginTime c"
  by (simp_all add: flush_workers_def Let_def Ping_def split: prod.splits)

lemma forward_same:
  "cn_state c' = cn_state c \<Longrightarrow> cn_terminateStarted c' = cn_terminateStarted c \<Longrightarrow> forward c c'"
  by (simp add: forward_def)

lemma forward_refl [simp]: "forward c c"
  by (simp add: forward_def)

lemma forward_trans: "forward a b \<Longrightarrow> forward b c \<Longrightarrow> forward a c"
  by (cases "cn_state a"; cases "cn_state b"; cases "cn_state c") (auto simp: forward_def)

lemma forward_SetState: "rank (cn_state c) < rank st \<Longrightarrow> forward c (SetState now st c)"
  by (simp add: forward_def conn_fields)

lemma forward_after: "forward c c1 \<Longrightarrow> cn_state c2 = cn_state c1 \<Longrightarrow> cn_terminateStarted c2 = cn_terminateStarted c1 \<Longrightarrow> forward c c2"
  by (simp add: forward_def)

lemma conn_Close_forward: "forward c (fst (conn_Close now c))"
  by (cases "cn_state c") (auto simp: conn_Close_def Let_def forward_def conn_fields)

lemma HandleOption_forward: "forward c (HandleOption now opt c)"
  by (cases "cn_state c") (auto simp: HandleOption_def OnPeerClosed_def intro: forward_SetState)

lemma peer_terminates_forward: "forward c (peer_terminates now c)"
  by (cases "cn_state c") (auto simp: peer_terminates_def intro: forward_SetState)

lemma input_segment_forward: "forward c (input_segment current now seg c)"
proof (cases seg)
  case (Data s)
  then show ?thesis
    using HandleOption_forward [of c now "ds_Option s"]
    by (auto simp: Let_def conn_fields elim!: forward_after)
next
  case (Ack s)
  then show ?thesis
    using HandleOption_forward [of c now "as_Option s"]
    by (auto simp: Let_def conn_fields elim!: forward_after split: prod.splits)
next
  case (CmdOnly s)
  let ?c1 = "HandleOption now (co_Option s) c"
  let ?c2 = "if co_Cmd s = CommandTerminate then peer_terminates now ?c1 else ?c1"
  have "forward c ?c2"
    using HandleOption_forward [of c now "co_Option s"] peer_terminates_forward [of ?c1 now]
    by (auto intro: forward_trans)
  then show ?thesis using CmdOnly by (auto simp: Let_def conn_fields elim!: forward_after)
qed

lemma input_loop_forward: "forward c (input_loop current now segs c)"
proof (induction segs arbitrary: c)
  case (Cons seg segs)
  from Cons [of "input_segment current now seg c"] input_segment_forward [of c current now seg] show ?case
    by (auto intro: forward_trans)
qed simp

lemma conn_flush_forward: "forward c (conn_flush current now c)"
proof (cases "cn_state c")
  case StateActive
  have "forward c (if current - cn_lastIncomingTime c \<ge> 30000 then fst (conn_Close now c) else c)"
    by (simp add: conn_Close_forward)
  then show ?thesis
    using StateActive by (auto simp: conn_flush_def conn_Close_def Let_def forward_def conn_fields)
qed (auto simp: conn_flush_def Let_def forward_def conn_fields)

text \<open>All that can happen to a connection, one operation after the other; theory \<open>KcpSteps\<close> lets the operations overlap.\<close>

inductive conn_step :: "conn \<Rightarrow> conn \<Rightarrow> bool" where
  Step_input: "conn_step c (conn_Input current now segs c)"
| Step_flush: "conn_step c (conn_flush current now c)"
| Step_data_updater: "conn_step c (data_updater_run current now c)"
| Step_ping_updater: "conn_step c (ping_updater_run current now c)"
| Step_close: "conn_step c (fst (conn_Close now c))"
| Step_terminate: "cn_terminateStarted c \<Longrightarrow> conn_step c (fst (Terminate ps c))"
| Step_read: "conn_step c (fst (conn_ReadMultiBuffer c))"
| Step_read_bytes: "conn_step c (fst (conn_Read k c))"
| Step_write: "conn_step c (fst (conn_Write fresh b c))"

lemma write_loop_fields:
  "write_loop fresh c b input upd = (c', b', input', upd', e) \<Longrightarrow>
     cn_state c' = cn_state c \<and> cn_terminateStarted c' = cn_terminateStarted c"
proof (induction fresh c b input upd arbitrary: c' b' input' upd' e rule: write_loop.induct)
  case (1 fresh c b input upd)
  show ?case
  proof (cases b)
    case None
    then show ?thesis
      using 1 by (subst (asm) (3) write_loop.simps) (auto simp: Let_def split: if_splits)
  next
    case (Some x)
    obtain w p where p: "send_Push x (cn_sendingWorker c) = (w, p)" by fastforce
    show ?thesis
      using 1 Some p by (subst (asm) (3) write_loop.simps) (auto split: if_splits)
  qed
qed

lemma flush_if_forward:
  assumes "cn_state c1 = cn_state c" and "cn_terminateStarted c1 = cn_terminateStarted c"
  shows "forward c (if call then conn_flush current now c1 else c1)"
  using forward_same [OF assms] conn_flush_forward [of c1 current now] by (auto intro: forward_trans)

lemma conn_step_forward: "conn_step c c' \<Longrightarrow> forward c c'"
proof (induction rule: conn_step.induct)
  case (Step_input c current now segs)
  have "forward c (c\<lparr>cn_lastIncomingTime := current\<rparr>)" by (simp add: forward_same)
  then show ?case unfolding conn_Input_def using input_loop_forward by (rule forward_trans)
next
  case (Step_data_updater c current now)
  show ?case
    unfolding data_updater_run_def Let_def
    by (simp only: split: prod.split) (intro allI impI flush_if_forward; simp)
next
  case (Step_ping_updater c current now)
  show ?case
    unfolding ping_updater_run_def Let_def
    by (simp only: split: prod.split) (intro allI impI flush_if_forward; simp)
next
  case (Step_write c fresh b)
  obtain c' l i u e where w: "write_loop fresh c None b False = (c', l, i, u, e)" using prod_cases5 by blast
  from write_loop_fields [OF w] show ?case by (simp add: conn_Write_def w forward_same conn_fields)
qed (auto simp: conn_flush_forward conn_Close_forward Terminate_def signal_both_def conn_ReadMultiBuffer_def conn_Read_def
      Let_def conn_fields intro!: forward_same split: prod.splits res.splits)

text \<open>
  The state of a connection only moves forward, from active over closing and terminating to
  terminated, if its operations run one after the other: whatever arrives and whichever operations run, in any order, the state at the end is the one
  at the start or one of a higher rank, so it changes at most four times, and a connection that has become
  terminated has its final clean-up started.
\<close>

theorem conn_state_forward:
  assumes "conn_step\<^sup>*\<^sup>* c c'"
  shows "(cn_state c' = cn_state c \<or> rank (cn_state c) < rank (cn_state c')) \<and>
    (cn_state c' = StateTerminated \<longrightarrow> cn_state c = StateTerminated \<or> cn_terminateStarted c')"
proof -
  have "forward c c'" using assms by (induction rule: rtranclp_induct) (auto intro: forward_trans conn_step_forward)
  then show ?thesis by (simp add: forward_def)
qed

definition sample_conn :: conn where
  "sample_conn =
     \<lparr>cn_Conversation = 7, cn_Config = None, cn_state = StateActive, cn_stateBeginTime = 0,
      cn_lastIncomingTime = 0, cn_lastPingTime = 0, cn_mss = 1332,
      cn_roundTrip = \<lparr>rt_variation = 0, rt_srtt = 0, rt_rto = 100, rt_minRtt = 50, rt_updatedTimestamp = 0\<rparr>,
      cn_receivingWorker = NewReceivingWorker 776, cn_sendingWorker = default_worker, cn_output = [],
      cn_dataInput = False, cn_dataOutput = False, cn_dataUpdater = Idle, cn_pingUpdater = Started,
      cn_pingInterval = 5000, cn_terminateStarted = False, cn_closed = False\<rparr>"

lemma NewConnection_default: "NewConnection 7 0 None = Ok sample_conn"
  by (simp add: NewConnection_def NewSendingWorker_default GetReceivingInFlightSize_def in_flight_def setting_def udiv_def
      GetDownlinkCapacityValue_def GetMTUValue_def GetTTIValue_def DataSegmentOverhead_def WakeUp_def sample_conn_def)

theorem conn_state_forward_witness:
  "rank (cn_state sample_conn) < rank (cn_state (fst (conn_Close 10 sample_conn)))"
proof -
  have "conn_step\<^sup>*\<^sup>* sample_conn (fst (conn_Close 10 sample_conn))"
    by (rule r_into_rtranclp) (rule Step_close)
  from conn_state_forward [OF this] show ?thesis
    by (auto simp: conn_Close_def sample_conn_def Let_def conn_fields)
qed

section \<open>A silent peer\<close>

text \<open>Differences of clock readings, as long as the clock does not wrap.\<close>

lemma clock_diff:
  assumes "b \<le> t" and "t < 2 ^ 32"
  shows "unat (word_of_nat t - word_of_nat b :: u32) = t - b"
proof -
  have "word_of_nat t - word_of_nat b = (word_of_nat (t - b) :: u32)" using assms(1) by (simp add: of_nat_diff)
  moreover have "unat (word_of_nat (t - b) :: u32) = t - b" using assms by (simp only: unat_of_nat) simp
  ultimately show ?thesis by (simp only:)
qed

text \<open>
  Where a connection that has heard nothing since \<open>L\<close> can be after a flush at time \<open>t\<close>, when flushes
  are at most \<open>G\<close> ms apart.
\<close>

definition in_phase :: "nat \<Rightarrow> nat \<Rightarrow> nat \<Rightarrow> conn \<Rightarrow> bool" where
  "in_phase L G t c \<longleftrightarrow>
     (case cn_state c of
        StateActive \<Rightarrow> cn_lastIncomingTime c = word_of_nat L \<and> L \<le> t \<and> t < L + 30000
      | StateReadyToClose \<Rightarrow>
          (\<exists>b. cn_stateBeginTime c = word_of_nat b \<and> b \<le> t \<and> b \<le> L + 30000 + G \<and> t \<le> b + 15000)
      | StateTerminating \<Rightarrow>
          (\<exists>b. cn_stateBeginTime c = word_of_nat b \<and> b \<le> t \<and> b \<le> L + 45000 + 2 * G \<and> t \<le> b + 8000)
      | StateTerminated \<Rightarrow> True
      | _ \<Rightarrow> False)"

lemma flush_terminating:
  assumes "cn_state c = StateTerminating"
  shows "conn_flush current now c =
    (if current - cn_stateBeginTime c > 8000 then SetState now StateTerminated (Ping current CommandTerminate c)
     else Ping current CommandTerminate c)"
  using assms by (simp add: conn_flush_def Let_def conn_fields)

lemma flush_ready_to_close:
  assumes "cn_state c = StateReadyToClose"
  shows "cn_state (conn_flush current now c) =
      (if send_IsEmpty (cn_sendingWorker c) then (if current - now > 8000 then StateTerminated else StateTerminating)
       else if current - cn_stateBeginTime c > 15000 then StateTerminating else StateReadyToClose)"
    and "cn_state (conn_flush current now c) = StateReadyToClose \<Longrightarrow>
      cn_stateBeginTime (conn_flush current now c) = cn_stateBeginTime c"
    and "cn_state (conn_flush current now c) = StateTerminating \<Longrightarrow> cn_stateBeginTime (conn_flush current now c) = now"
  using assms by (auto simp: conn_flush_def Let_def conn_fields split: if_splits)

lemma flush_active:
  assumes "cn_state c = StateActive"
  shows "current - cn_lastIncomingTime c < 30000 \<Longrightarrow> cn_state (conn_flush current now c) = StateActive"
    and "current - cn_lastIncomingTime c < 30000 \<Longrightarrow>
      cn_lastIncomingTime (conn_flush current now c) = cn_lastIncomingTime c"
    and "30000 \<le> current - cn_lastIncomingTime c \<Longrightarrow>
      conn_flush current now c = conn_flush current now (fst (conn_Close now c)) \<and>
      cn_state (fst (conn_Close now c)) = StateReadyToClose \<and> cn_stateBeginTime (fst (conn_Close now c)) = now"
  using assms
  by (auto simp: conn_flush_def conn_Close_def flush_workers_def Ping_def Let_def conn_fields not_le [symmetric]
      split: prod.splits)

text \<open>A flush at \<open>t'\<close> keeps to the phases.\<close>

abbreviation flush_at :: "nat \<Rightarrow> conn \<Rightarrow> conn" where
  "flush_at t c \<equiv> conn_flush (word_of_nat t) (word_of_nat t) c"

lemma phase_ready_to_close:
  assumes "cn_state c = StateReadyToClose" and "cn_stateBeginTime c = word_of_nat b" and "b \<le> t'" and "t' < 2 ^ 32"
    and "b \<le> L + 30000 + G" and "t' \<le> b + 15000 + G"
  shows "in_phase L G t' (flush_at t' c)"
proof -
  have d: "(15000 < (word_of_nat t' :: u32) - word_of_nat b) \<longleftrightarrow> 15000 < t' - b"
    using clock_diff [OF assms(3,4)] by (simp add: word_less_nat_alt)
  note st = flush_ready_to_close [OF assms(1), of "word_of_nat t'" "word_of_nat t'"]
  consider "cn_state (flush_at t' c) = StateTerminating" | "cn_state (flush_at t' c) = StateReadyToClose" "t' - b \<le> 15000"
    using st(1) assms(2) d by (auto split: if_splits)
  then show ?thesis
  proof cases
    case 1
    with st(3) assms(3,5,6) show ?thesis by (auto simp: in_phase_def intro!: exI [of _ t'])
  next
    case 2
    with st(2) assms(2,3,5) show ?thesis by (auto simp: in_phase_def intro!: exI [of _ b])
  qed
qed

lemma phase_step:
  assumes "in_phase L G t c" and "t \<le> t'" and "t' \<le> t + G" and "t' < 2 ^ 32"
  shows "in_phase L G t' (flush_at t' c)"
proof (cases "cn_state c")
  case StateActive
  with assms(1) have L: "cn_lastIncomingTime c = word_of_nat L" "L \<le> t" "t < L + 30000" by (auto simp: in_phase_def)
  have d: "unat ((word_of_nat t' :: u32) - cn_lastIncomingTime c) = t' - L"
    unfolding L(1) by (rule clock_diff) (use L assms in auto)
  show ?thesis
  proof (cases "t' - L < 30000")
    case True
    with d have "(word_of_nat t' :: u32) - cn_lastIncomingTime c < 30000" by (simp add: word_less_nat_alt)
    with flush_active(1,2) [OF StateActive this] L True assms(2) show ?thesis by (auto simp: in_phase_def)
  next
    case False
    with d have "30000 \<le> (word_of_nat t' :: u32) - cn_lastIncomingTime c" by (simp add: word_le_nat_alt)
    with flush_active(3) [OF StateActive this, of "word_of_nat t'"] show ?thesis
      using phase_ready_to_close [of _ t' t' L G] assms L by auto
  qed
next
  case StateReadyToClose
  with assms(1) obtain b where "cn_stateBeginTime c = word_of_nat b" "b \<le> t" "b \<le> L + 30000 + G" "t \<le> b + 15000"
    by (auto simp: in_phase_def)
  with phase_ready_to_close [OF StateReadyToClose, of b t' L G] assms show ?thesis by simp
next
  case StateTerminating
  with assms(1) obtain b where b: "cn_stateBeginTime c = word_of_nat b" "b \<le> t" "b \<le> L + 45000 + 2 * G" "t \<le> b + 8000"
    by (auto simp: in_phase_def)
  have d: "unat ((word_of_nat t' :: u32) - word_of_nat b) = t' - b" by (rule clock_diff) (use b assms in auto)
  show ?thesis
  proof (cases "t' - b > 8000")
    case True
    with d b(1) StateTerminating show ?thesis by (simp add: flush_terminating in_phase_def conn_fields word_less_nat_alt)
  next
    case False
    with d b StateTerminating assms(2) show ?thesis
      by (auto simp: flush_terminating in_phase_def conn_fields word_less_nat_alt intro!: exI [of _ b])
  qed
next
  case StateTerminated
  then show ?thesis by (simp add: conn_flush_def in_phase_def)
qed (use assms(1) in \<open>auto simp: in_phase_def\<close>)

lemma phase_run:
  "in_phase L G t c \<Longrightarrow> successively (\<lambda>a b. a \<le> b \<and> b \<le> a + G) (t # ts) \<Longrightarrow> list_all (\<lambda>t. t < 2 ^ 32) ts \<Longrightarrow>
     in_phase L G (last (t # ts)) (fold flush_at ts c)"
proof (induction ts arbitrary: t c)
  case (Cons t' ts)
  then have "in_phase L G t' (flush_at t' c)" by (intro phase_step [of L G t]) simp_all
  with Cons show ?case by simp
qed simp

text \<open>
  A connection whose peer has vanished ends: if nothing has arrived since time \<open>L\<close> and the
  connection is flushed at times that are at most \<open>G\<close> ms apart (the ping updater's period), then after
  \<open>53000 + 3 G\<close> ms it is terminated, whatever is left in its sending window.
\<close>

theorem silent_peer_terminates:
  assumes "cn_state c = StateActive" and "cn_lastIncomingTime c = word_of_nat L"
    and "successively (\<lambda>a b. a \<le> b \<and> b \<le> a + G) (L # ts)" and "list_all (\<lambda>t. t < 2 ^ 32) ts"
    and "ts \<noteq> []" and "L + 53000 + 3 * G < last ts"
  shows "cn_state (fold flush_at ts c) = StateTerminated"
proof -
  have "in_phase L G L c" using assms(1,2) by (simp add: in_phase_def)
  from phase_run [OF this assms(3,4)] have "in_phase L G (last ts) (fold flush_at ts c)" using assms(5) by simp
  with assms(6) show ?thesis by (auto simp: in_phase_def split: conn_state.splits)
qed

theorem silent_peer_terminates_witness:
  "cn_state (fold flush_at [25000, 50000, 75000, 100000, 125000, 130000] sample_conn) = StateTerminated"
  by (rule silent_peer_terminates [where L = 0 and G = 25000]) (simp_all add: sample_conn_def)

text \<open>
  The peer's silence goes unnoticed in one state: a connection whose peer has announced its close
  stays there through every flush, and a reader that finds nothing is sent back to waiting each time, so
  if the peer's terminate commands are lost nothing ends the connection but a local close.
\<close>

theorem peer_closed_never_times_out:
  assumes "cn_state c = StatePeerClosed" and "mb_IsEmpty (snd (recv_ReadMultiBuffer (cn_receivingWorker c)))"
  shows "cn_state (fold (\<lambda>(current, now). conn_flush current now) clocks c) = StatePeerClosed \<and>
    snd (conn_ReadMultiBuffer c) = None"
proof
  have "cn_state c = StatePeerClosed \<Longrightarrow> cn_state (fold (\<lambda>(current, now). conn_flush current now) clocks c) = StatePeerClosed"
  proof (induction clocks arbitrary: c)
    case (Cons cl clocks)
    obtain current now where "cl = (current, now)" by fastforce
    moreover have "cn_state (conn_flush current now c) = StatePeerClosed"
      using Cons.prems by (simp add: conn_flush_def Let_def conn_fields)
    ultimately show ?case using Cons.IH [of "conn_flush current now c"] by simp
  qed simp
  with assms(1) show "cn_state (fold (\<lambda>(current, now). conn_flush current now) clocks c) = StatePeerClosed" by blast
  show "snd (conn_ReadMultiBuffer c) = None"
    using assms by (auto simp: conn_ReadMultiBuffer_def Let_def split: prod.splits)
qed

theorem peer_closed_never_times_out_witness:
  "cn_state (fold (\<lambda>(current, now). conn_flush current now) [(100000, 100000), (200000, 200000)]
     (OnPeerClosed 5 sample_conn)) = StatePeerClosed"
proof -
  have "recv_ReadMultiBuffer (NewReceivingWorker 776) = (NewReceivingWorker 776, [])"
    by (simp add: recv_ReadMultiBuffer_def NewReceivingWorker_def NewReceivingWindow_def take_window.simps [of 0 "[]"] win_Remove_def)
  then have "mb_IsEmpty (snd (recv_ReadMultiBuffer (cn_receivingWorker (OnPeerClosed 5 sample_conn))))"
    by (simp add: OnPeerClosed_def sample_conn_def SetState_def close_write_def)
  moreover have "cn_state (OnPeerClosed 5 sample_conn) = StatePeerClosed"
    by (simp add: OnPeerClosed_def sample_conn_def SetState_def close_write_def)
  ultimately show ?thesis
    using peer_closed_never_times_out [of "OnPeerClosed 5 sample_conn" "[(100000, 100000), (200000, 200000)]"] by blast
qed

text \<open>
  A flush compares its own clock reading with the one \<open>SetState\<close> takes later in the same flush.  If
  the millisecond changes in between, the unsigned difference underflows: a connection that is ready to
  close is terminated at once instead of repeating its terminate command for eight seconds, and an active
  one whose peer is silent drops what it has not sent instead of flushing it for fifteen.  With equal
  readings neither happens.
\<close>

theorem flush_clock_race:
  assumes "cn_state c = StateReadyToClose" and "send_IsEmpty (cn_sendingWorker c)"
    and "cn_state d = StateActive" and "30000 \<le> current - cn_lastIncomingTime d" and "\<not> send_IsEmpty (cn_sendingWorker d)"
  shows "cn_state (conn_flush current (current + 1) c) = StateTerminated \<and>
    cn_state (conn_flush current current c) = StateTerminating \<and>
    cn_state (conn_flush current (current + 1) d) = StateTerminating \<and>
    cn_state (conn_flush current current d) = StateReadyToClose"
proof -
  have "8000 < (- 1 :: u32)" "15000 < (- 1 :: u32)" by code_simp+
  moreover have "current - (current + 1) = (- 1 :: u32)" by simp
  ultimately have u: "8000 < current - (current + 1)" "15000 < current - (current + 1)"
    by simp_all
  have e: "send_IsEmpty (cn_sendingWorker (fst (conn_Close now d))) = send_IsEmpty (cn_sendingWorker d)" for now
    using assms(3) by (simp add: conn_Close_def SetState_def Let_def signal_both_def)
  show ?thesis
    using assms flush_ready_to_close(1) [OF assms(1), of current] u e flush_active(3) [OF assms(3,4)]
      flush_ready_to_close(1) [of "fst (conn_Close (current + 1) d)" current "current + 1"]
      flush_ready_to_close(1) [of "fst (conn_Close current d)" current current]
    by simp
qed

theorem flush_clock_race_witness:
  "cn_state (conn_flush 40000 40001 (fst (conn_Close 39000 sample_conn))) = StateTerminated"
proof -
  let ?d = "sample_conn\<lparr>cn_sendingWorker := fst (send_Push sample_payload default_worker)\<rparr>"
  have "cn_state (conn_flush 40000 (40000 + 1) (fst (conn_Close 39000 sample_conn))) = StateTerminated"
    using flush_clock_race [of "fst (conn_Close 39000 sample_conn)" ?d 40000]
    by (simp add: conn_Close_def sample_conn_def SetState_def signal_both_def send_IsEmpty_def sw_IsEmpty_def
        default_worker_def NewSendingWindow_def send_Push_def sw_Len_def sw_Push_def)
  then show ?thesis by simp
qed

section \<open>Writing\<close>

definition payload_of :: "u32 \<Rightarrow> buffer \<Rightarrow> bool" where
  "payload_of mss b \<longleftrightarrow> buf_wf b \<and> content b \<noteq> [] \<and> length (content b) \<le> unat mss \<and> length (content b) \<le> 8192"

definition pending_content :: "buffer option \<Rightarrow> bytes" where
  "pending_content b = (case b of None \<Rightarrow> [] | Some x \<Rightarrow> content x)"

lemma send_run_Cons: "send_run (ev # evs) s = send_run evs (send_step ev s)"
  by (simp add: send_run_def)

lemma chunk_payload:
  assumes "length fresh < 2147483648" and "n = mss_chunk mss input" and "n \<noteq> 0"
  shows "payload_of mss (append_at_end (New fresh) (take n input)) \<and>
    content (append_at_end (New fresh) (take n input)) = take n input"
proof -
  have n: "n \<le> length input" "n \<le> unat mss" "n \<le> 8192" using assms(2) by (simp_all add: mss_chunk_def)
  have "length (take n input) \<le> room (New fresh)" using New_wf [OF assms(1)] n by simp
  from append_at_end_content [OF _ this] New_wf [OF assms(1)] n assms(3) show ?thesis
    by (auto simp: payload_of_def)
qed

text \<open>
  The write loop pushes the input in order, in payloads of at most one segment each; what it has not
  pushed is in the buffer at hand and in the rest of the input.
\<close>

lemma write_loop_pushes:
  "write_loop fresh c b input upd = (c', b', input', upd', e) \<Longrightarrow> pred_option (payload_of (cn_mss c)) b \<Longrightarrow>
    length fresh < 2147483648 \<Longrightarrow>
    \<exists>bs. list_all (payload_of (cn_mss c)) bs \<and>
      pending_content b @ input = concat (map content bs) @ pending_content b' @ input' \<and>
      (e = Written \<and> cn_mss c \<noteq> 0 \<longrightarrow> pending_content b' = [] \<and> input' = []) \<and> cn_mss c' = cn_mss c \<and>
      (\<forall>s. sn_worker s = cn_sendingWorker c \<longrightarrow>
         sn_worker (send_run (map Push bs) s) = cn_sendingWorker c' \<and>
         sn_written (send_run (map Push bs) s) = sn_written s @ bs)"
proof (induction fresh c b input upd arbitrary: rule: write_loop.induct)
  case (1 fresh c b input upd)
  show ?case
  proof (cases "cn_state c = StateActive")
    case False
    then show ?thesis
      using "1.prems" by (subst (asm) write_loop.simps) (auto intro!: exI [of _ "[]"] simp: send_run_def)
  next
    case active: True
    show ?thesis
    proof (cases b)
      case None
      let ?n = "mss_chunk (cn_mss c) input"
      show ?thesis
      proof (cases "?n = 0")
        case True
        then have "cn_mss c \<noteq> 0 \<Longrightarrow> input = []" by (auto simp: mss_chunk_def min_def unat_eq_0 split: if_splits)
        with True None active "1.prems" New_wf [OF "1.prems"(3)] show ?thesis
          by (subst (asm) write_loop.simps)
            (auto intro!: exI [of _ "[]"] simp: send_run_def pending_content_def Let_def)
      next
        case False
        note ch = chunk_payload [OF "1.prems"(3) refl False]
        have "write_loop fresh c (Some (append_at_end (New fresh) (take ?n input))) (drop ?n input) upd =
            (c', b', input', upd', e)"
          using "1.prems"(1) active None False by (subst (asm) write_loop.simps) (simp add: Let_def)
        from "1.IH"(1) [OF _ None refl False this] active ch None "1.prems"(3) show ?thesis
          by (simp add: pending_content_def)
      qed
    next
      case (Some x)
      obtain w p where p: "send_Push x (cn_sendingWorker c) = (w, p)" by fastforce
      show ?thesis
      proof (cases p)
        case False
        with p have "w = cn_sendingWorker c" by (auto simp: send_Push_def split: if_splits)
        with False p Some active "1.prems" show ?thesis
          by (subst (asm) write_loop.simps) (auto intro!: exI [of _ "[]"] simp: send_run_def pending_content_def)
      next
        case True
        let ?c = "c\<lparr>cn_sendingWorker := w\<rparr>"
        have "write_loop fresh ?c None input True = (c', b', input', upd', e)"
          using "1.prems"(1) active Some p True by (subst (asm) write_loop.simps) simp
        from "1.IH"(2) [OF _ Some p [symmetric] True this] active "1.prems"(3) obtain bs where bs:
          "list_all (payload_of (cn_mss c)) bs" "input = concat (map content bs) @ pending_content b' @ input'"
          "e = Written \<and> cn_mss c \<noteq> 0 \<longrightarrow> pending_content b' = [] \<and> input' = []" "cn_mss c' = cn_mss c"
          "\<And>s. sn_worker s = w \<Longrightarrow> sn_worker (send_run (map Push bs) s) = cn_sendingWorker c' \<and>
             sn_written (send_run (map Push bs) s) = sn_written s @ bs"
          by (auto simp: pending_content_def)
        have "sn_worker (send_run (map Push (x # bs)) s) = cn_sendingWorker c' \<and>
            sn_written (send_run (map Push (x # bs)) s) = sn_written s @ x # bs" if "sn_worker s = cn_sendingWorker c" for s
          using bs(5) [of "send_step (Push x) s"] that p True by (simp add: send_run_Cons)
        with bs(1-4) Some "1.prems"(2) show ?thesis
          by (intro exI [of _ "x # bs"]) (simp add: pending_content_def)
      qed
    qed
  qed
qed

text \<open>
  A call of \<open>Write\<close> hands its bytes to the sending worker in order and without loss: the worker is the
  one after pushing payloads \<open>bs\<close> of at most one segment each, their contents followed by what is still
  to be pushed are exactly the bytes given, and when the call returns without an error nothing is left.
\<close>

theorem conn_Write_segments:
  assumes "length fresh < 2147483648" and "conn_Write fresh b c = (c', left, input, e)" and "cn_mss c \<noteq> 0"
    and "sn_worker s = cn_sendingWorker c"
  shows "\<exists>bs. list_all (payload_of (cn_mss c)) bs \<and> b = concat (map content bs) @ pending_content left @ input \<and>
    (e = Some None \<longrightarrow> pending_content left = [] \<and> input = []) \<and>
    sn_worker (send_run (map Push bs) s) = cn_sendingWorker c' \<and> sn_written (send_run (map Push bs) s) = sn_written s @ bs"
proof -
  obtain c1 l i u w where l: "write_loop fresh c None b False = (c1, l, i, u, w)" using prod_cases5 by blast
  have "c' = c1 \<or> c' = wake_data c1" "left = l" "input = i" "e = Some None \<longrightarrow> w = Written"
    using assms(2) l by (auto simp: conn_Write_def split: if_splits write_end.splits)
  moreover have "cn_sendingWorker (wake_data c1) = cn_sendingWorker c1" by (simp add: wake_data_def)
  moreover obtain bs where bs: "list_all (payload_of (cn_mss c)) bs" "b = concat (map content bs) @ pending_content l @ i"
    "w = Written \<and> cn_mss c \<noteq> 0 \<longrightarrow> pending_content l = [] \<and> i = []"
    "sn_worker (send_run (map Push bs) s) = cn_sendingWorker c1" "sn_written (send_run (map Push bs) s) = sn_written s @ bs"
    using write_loop_pushes [OF l _ assms(1)] assms(4) by (auto simp: pending_content_def)
  ultimately show ?thesis using assms(3) by (intro exI [of _ bs]) auto
qed

theorem conn_Write_segments_witness:
  "\<exists>bs. [1, 2, 3] = concat (map content bs) @ pending_content (fst (snd (conn_Write [] [1, 2, 3] sample_conn))) @
     fst (snd (snd (conn_Write [] [1, 2, 3] sample_conn)))"
proof -
  obtain c' l i e where w: "conn_Write [] [1, 2, 3] sample_conn = (c', l, i, e)" using prod_cases4 by blast
  from conn_Write_segments [OF _ w, of "start_sender (cn_sendingWorker sample_conn)"] w show ?thesis
    by (auto simp: sample_conn_def start_sender_def)
qed

section \<open>From one end to the other\<close>

text \<open>A segment that was read from a datagram made from one of \<open>sent\<close>.\<close>

definition transmitted :: "data_segment list \<Rightarrow> data_segment \<Rightarrow> bool" where
  "transmitted sent t \<longleftrightarrow> list_ex (\<lambda>seg. same_segment (Data seg) (Data t)) sent \<and> seg_ok (Data t)"

definition arrivals_from :: "data_segment list \<Rightarrow> recv_event \<Rightarrow> bool" where
  "arrivals_from sent ev \<longleftrightarrow> (case ev of Arrive t \<Rightarrow> transmitted sent t | _ \<Rightarrow> True)"

lemma transmitted_seg_of:
  assumes "sender_inv s" and "length (sn_written s) < 2 ^ 32" and "list_all buf_wf (sn_written s)"
    and "transmitted (sn_sent s) t"
  shows "seg_of (word_of_nat ` {..<length (sn_written s)}) (\<lambda>n. content (sn_written s ! unat n)) t"
proof -
  obtain seg where seg: "seg \<in> set (sn_sent s)" "same_segment (Data seg) (Data t)" "seg_ok (Data t)"
    using assms(4) by (auto simp: transmitted_def list_ex_iff)
  have "(ds_Number seg, ds_payload seg) \<in> set (numbered (sn_written s))"
    using assms(1) seg(1) by (auto simp: sender_inv_def keys_def)
  from numbered_nth [OF this] obtain i where i: "i < length (sn_written s)" "ds_Number seg = word_of_nat i"
    "ds_payload seg = Some (sn_written s ! i)" by auto
  have u: "unat (word_of_nat i :: u32) = i" using i(1) assms(2) by (simp only: unat_of_nat) simp
  from seg(3) obtain p where p: "ds_payload t = Some p" "buf_wf p" by auto
  have "content p = content (sn_written s ! i)" "ds_Number t = word_of_nat i"
    using seg(2) i p by (simp_all add: payload_bytes_def)
  with p i u show ?thesis by (auto simp: seg_of_def)
qed

text \<open>
  C1. End to end, a connection delivers a prefix of what was written: let any sequence of writes,
  acknowledgements, flushes and closings run at the sender, and let any selection of the segments it transmitted
  arrive at the receiver, in any order, repeated or lost, interleaved with reads; then what the receiver's
  application has read is a prefix of the concatenation of what the sender's application wrote.  The number
  of segments is below \<open>2 ^ 32\<close>, where their numbers start over.
\<close>

theorem kcp_end_to_end:
  assumes "NewSendingWorker cfg = Ok w0" and "send_run sevs (start_sender w0) = s"
    and "length (sn_written s) < 2 ^ 32" and "list_all buf_wf (sn_written s)"
    and "list_all (arrivals_from (sn_sent s)) revs" and "recv_run revs (NewReceivingWorker wsize, []) = (w, out)"
  shows "prefix out (concat (map content (sn_written s)))"
proof -
  let ?N = "length (sn_written s)" and ?f = "\<lambda>n. content (sn_written s ! unat (n :: u32))"
  have inv: "sender_inv s" using send_run_inv [OF start_sender_inv [OF assms(1)]] assms(2) by blast
  have "list_all (event_of (word_of_nat ` {..<?N}) ?f) revs"
    using assms(5) transmitted_seg_of [OF inv assms(3,4)]
    by (auto simp: list_all_iff arrivals_from_def event_of_def split: recv_event.splits)
  from recv_run_start [OF this assms(6)] obtain m where
    m: "\<forall>j < m. word_of_nat j \<in> (word_of_nat ` {..<?N} :: u32 set)"
      "out @ mb_content (leftOver_list w) = concat (map (\<lambda>j. ?f (word_of_nat j)) [0..<m])"
    by (auto simp: recv_inv_def)
  have u: "unat (word_of_nat j :: u32) = j" if "j < 2 ^ 32" for j using that by (simp only: unat_of_nat) simp
  have "m \<le> ?N"
  proof (rule ccontr)
    assume "\<not> m \<le> ?N"
    with m(1) obtain j where "j < ?N" "word_of_nat ?N = (word_of_nat j :: u32)" by (auto simp: not_le)
    with u [of ?N] u [of j] assms(3) show False by simp
  qed
  then have "map (\<lambda>j. ?f (word_of_nat j)) [0..<m] = map content (take m (sn_written s))"
    using u assms(3) by (intro nth_equalityI) simp_all
  then have "out @ mb_content (leftOver_list w) = concat (map content (take m (sn_written s)))" using m(2) by simp
  then have "prefix out (concat (map content (take m (sn_written s))))" by (metis prefixI)
  moreover have "prefix (concat (map content (take m (sn_written s)))) (concat (map content (sn_written s)))"
    by (metis append_take_drop_id concat_append map_append prefixI)
  ultimately show ?thesis by (rule prefix_order.trans)
qed

theorem kcp_end_to_end_witness:
  "prefix (snd (recv_run [Arrive (hd (sn_sent sample_sender)), Read_all] (NewReceivingWorker 8, [])))
     (concat (map content (sn_written sample_sender))) \<and> length (sn_sent sample_sender) = 1"
proof -
  obtain w out where r: "recv_run [Arrive (hd (sn_sent sample_sender)), Read_all] (NewReceivingWorker 8, []) = (w, out)"
    by fastforce
  have p: "buf_wf sample_payload" "content sample_payload = [42]"
    using append_at_end_content [of "New []" "[42]"] New_wf [of "[]"] by (simp_all add: sample_payload_def)
  have s: "sn_written sample_sender = [sample_payload]" "\<exists>seg. sn_sent sample_sender = [seg] \<and> ds_payload seg = Some sample_payload"
    by (simp_all add: sample_sender_simps Let_def)
  then have "transmitted (sn_sent sample_sender) (hd (sn_sent sample_sender))" using p by (auto simp: transmitted_def)
  with s p show ?thesis
    using kcp_end_to_end [OF NewSendingWorker_default sample_sender_def [symmetric] _ _ _ r] r
    by (auto simp: arrivals_from_def)
qed

end
