(* ===== verification/KcpSteps.thy ===== *)
theory KcpSteps
  imports KcpConn
begin

text \<open>
  The operations of a connection as goroutines that run at the same time (\<open>transport/internet/kcp/connection.go\<close>).  \<open>State\<close> and \<open>SetState\<close> are
  atomic, but an operation that asks for the state and then sets it is not: other goroutines run in between.  An operation is a list of sections, each
  of them atomic; the operations of theory \<open>KcpConn\<close> are what these programs do when nothing else runs.
\<close>

section \<open>Programs\<close>

text \<open>
  A section works on the connection without touching the state, looks at the connection to decide how to go on, or stores the new state \<open>st\<close> that was decided on
  when the state was \<open>seen\<close>.
\<close>

datatype atomic_section =
    Local "conn \<Rightarrow> conn"
  | Branch "conn \<Rightarrow> atomic_section list"
  | Set_state conn_state conn_state

text \<open>What \<open>SetState\<close> does after it has stored the state and its time.\<close>

definition enter_state :: "conn_state \<Rightarrow> conn \<Rightarrow> conn" where
  "enter_state st c =
     (case st of
        StateActive \<Rightarrow> c
      | StateReadyToClose \<Rightarrow> c
      | StatePeerClosed \<Rightarrow> close_write c
      | StateTerminating \<Rightarrow> (close_write c)\<lparr>cn_pingInterval := 1000\<rparr>
      | StatePeerTerminating \<Rightarrow> (close_write c)\<lparr>cn_pingInterval := 1000\<rparr>
      | StateTerminated \<Rightarrow>
          (wake_data (close_write c))
            \<lparr>cn_pingInterval := 1000, cn_pingUpdater := WakeUp (cn_pingUpdater c), cn_terminateStarted := True\<rparr>)"

fun run_section :: "u32 \<Rightarrow> atomic_section \<Rightarrow> conn \<Rightarrow> conn \<times> atomic_section list" where
  "run_section now (Local f) c = (f c, [])"
| "run_section now (Branch b) c = (c, b c)"
| "run_section now (Set_state seen st) c =
     (c\<lparr>cn_state := st\<rparr>, [Local (\<lambda>c. c\<lparr>cn_stateBeginTime := now\<rparr>), Local (enter_state st)])"

definition close_prog :: "atomic_section list" where
  "close_prog =
     [Local signal_both,
      Branch (\<lambda>c. case cn_state c of
          StateActive \<Rightarrow> [Set_state StateActive StateReadyToClose]
        | StatePeerClosed \<Rightarrow> [Set_state StatePeerClosed StateTerminating]
        | StatePeerTerminating \<Rightarrow> [Set_state StatePeerTerminating StateTerminated]
        | _ \<Rightarrow> [])]"

definition option_prog :: "byte \<Rightarrow> atomic_section list" where
  "option_prog opt =
     (if opt AND SegmentOptionClose = SegmentOptionClose then
        [Branch (\<lambda>c. case cn_state c of
            StateReadyToClose \<Rightarrow> [Set_state StateReadyToClose StateTerminating]
          | StateActive \<Rightarrow> [Set_state StateActive StatePeerClosed]
          | _ \<Rightarrow> [])]
      else [])"

definition terminate_prog :: "atomic_section list" where
  "terminate_prog =
     [Branch (\<lambda>c. case cn_state c of
          StateActive \<Rightarrow> [Set_state StateActive StatePeerTerminating]
        | StatePeerClosed \<Rightarrow> [Set_state StatePeerClosed StatePeerTerminating]
        | StateReadyToClose \<Rightarrow> [Set_state StateReadyToClose StateTerminating]
        | StateTerminating \<Rightarrow> [Set_state StateTerminating StateTerminated]
        | _ \<Rightarrow> [])]"

fun segment_prog :: "u32 \<Rightarrow> segment \<Rightarrow> atomic_section list" where
  "segment_prog current (Data seg) =
     option_prog (ds_Option seg) @
     [Local (\<lambda>c. c\<lparr>cn_receivingWorker := fst (recv_ProcessSegment seg (cn_receivingWorker c, pools_init))\<rparr>),
      Local (\<lambda>c. if IsDataAvailable (cn_receivingWorker c) then c\<lparr>cn_dataInput := True\<rparr> else c),
      Local wake_data]"
| "segment_prog current (Ack seg) =
     option_prog (as_Option seg) @
     [Local (\<lambda>c. case send_ProcessSegment current seg (rt_rto (cn_roundTrip c)) (cn_sendingWorker c) of (w, rtt) \<Rightarrow>
        c\<lparr>cn_sendingWorker := w,
          cn_roundTrip := (case rtt of None \<Rightarrow> cn_roundTrip c | Some r \<Rightarrow> rt_Update r current (cn_roundTrip c))\<rparr>),
      Local (\<lambda>c. c\<lparr>cn_dataOutput := True\<rparr>), Local wake_data]"
| "segment_prog current (CmdOnly seg) =
     option_prog (co_Option seg) @ (if co_Cmd seg = CommandTerminate then terminate_prog else []) @
     (if co_Option seg = SegmentOptionClose \<or> co_Cmd seg = CommandTerminate then [Local signal_both] else []) @
     [Local (\<lambda>c. c\<lparr>cn_sendingWorker := ProcessReceivingNext (co_ReceivingNext seg) (cn_sendingWorker c)\<rparr>),
      Local (\<lambda>c. c\<lparr>cn_receivingWorker := ProcessSendingNext (co_SendingNext seg) (cn_receivingWorker c)\<rparr>),
      Local (\<lambda>c. c\<lparr>cn_roundTrip := UpdatePeerRTO (co_PeerRTO seg) current (cn_roundTrip c)\<rparr>)]"

definition input_prog :: "u32 \<Rightarrow> u16 \<Rightarrow> segment list \<Rightarrow> atomic_section list" where
  "input_prog current conv segs =
     Local (\<lambda>c. c\<lparr>cn_lastIncomingTime := current\<rparr>) # concat (map (segment_prog current) (takeWhile (\<lambda>seg. Conversation seg = conv) segs))"

text \<open>A test of the state and then a second test, which may see the connection in another state.\<close>

definition state_is :: "conn_state \<Rightarrow> (conn \<Rightarrow> bool) \<Rightarrow> atomic_section list \<Rightarrow> atomic_section" where
  "state_is st test p = Branch (\<lambda>c. if cn_state c = st then [Branch (\<lambda>c. if test c then p else [])] else [])"

definition terminating_prog :: "u32 \<Rightarrow> atomic_section list" where
  "terminating_prog current =
     [Local (Ping current CommandTerminate),
      Branch (\<lambda>c. if current - cn_stateBeginTime c > 8000 then [Set_state StateTerminating StateTerminated] else [])]"

definition open_prog :: "u32 \<Rightarrow> atomic_section list" where
  "open_prog current =
     [state_is StatePeerTerminating (\<lambda>c. current - cn_stateBeginTime c > 4000) [Set_state StatePeerTerminating StateTerminating],
      state_is StateReadyToClose (\<lambda>c. current - cn_stateBeginTime c > 15000) [Set_state StateReadyToClose StateTerminating],
      Local (flush_workers current),
      Branch (\<lambda>c. if current - cn_lastPingTime c \<ge> 3000 then [Local (Ping current CommandPing)] else [])]"

definition flush_prog :: "u32 \<Rightarrow> atomic_section list" where
  "flush_prog current =
     [Branch (\<lambda>c. if cn_state c = StateTerminated then [] else
        [state_is StateActive (\<lambda>c. current - cn_lastIncomingTime c \<ge> 30000) close_prog,
         state_is StateReadyToClose (\<lambda>c. send_IsEmpty (cn_sendingWorker c)) [Set_state StateReadyToClose StateTerminating],
         Branch (\<lambda>c. if cn_state c = StateTerminating then terminating_prog current else open_prog current)])]"

section \<open>The programs alone\<close>

text \<open>A program that runs to its end with nothing in between.\<close>

inductive alone :: "u32 \<Rightarrow> atomic_section list \<Rightarrow> conn \<Rightarrow> conn \<Rightarrow> bool" for now where
  alone_Nil: "alone now [] c c"
| alone_Cons: "run_section now sec c = (c1, new) \<Longrightarrow> alone now (new @ rest) c1 c2 \<Longrightarrow> alone now (sec # rest) c c2"

lemma alone_append: "alone now p c c1 \<Longrightarrow> alone now q c1 c2 \<Longrightarrow> alone now (p @ q) c c2"
  by (induction rule: alone.induct) (auto intro: alone.intros)

lemma alone_done: "c = c2 \<Longrightarrow> alone now [] c c2"
  by (simp add: alone_Nil)

lemma alone_Local: "alone now rest (f c) c2 \<Longrightarrow> alone now (Local f # rest) c c2"
  using alone_Cons [of now "Local f" c "f c" "[]" rest c2] by simp

lemma alone_Branch: "alone now (b c @ rest) c c2 \<Longrightarrow> alone now (Branch b # rest) c c2"
  using alone_Cons [of now "Branch b" c c "b c" rest c2] by simp

lemma SetState_enter: "SetState now st c = enter_state st ((c\<lparr>cn_state := st\<rparr>)\<lparr>cn_stateBeginTime := now\<rparr>)"
  by (cases st) (simp_all add: SetState_def enter_state_def Let_def close_write_def wake_data_def)

lemma alone_Set: "alone now rest (SetState now st c) c2 \<Longrightarrow> alone now (Set_state seen st # rest) c c2"
  by (rule alone_Cons [where new = "[Local (\<lambda>c. c\<lparr>cn_stateBeginTime := now\<rparr>), Local (enter_state st)]"])
    (auto intro!: alone_Local simp: SetState_enter)

lemmas alone_rules = alone_Local alone_Branch alone_Set alone_done

lemma close_alone: "alone now close_prog c (fst (conn_Close now c))"
  by (cases "cn_state c") (auto simp: close_prog_def conn_Close_def Let_def signal_both_def intro!: alone_rules)

lemma option_alone: "alone now (option_prog opt) c (HandleOption now opt c)"
  by (cases "cn_state c") (auto simp: option_prog_def HandleOption_def OnPeerClosed_def intro!: alone_rules)

lemma terminate_alone: "alone now terminate_prog c (peer_terminates now c)"
  by (cases "cn_state c") (auto simp: terminate_prog_def peer_terminates_def intro!: alone_rules)

lemma segment_alone: "alone now (segment_prog current seg) c (input_segment current now seg c)"
proof (cases seg)
  case (Data s)
  then show ?thesis by (auto simp: Let_def intro!: alone_append [OF option_alone] alone_rules)
next
  case (Ack s)
  then show ?thesis
    by (auto simp: Let_def wake_data_def split: prod.splits intro!: alone_append [OF option_alone] alone_rules conn.equality)
next
  case (CmdOnly s)
  let ?c = "HandleOption now (co_Option s) c"
  have "alone now (if co_Cmd s = CommandTerminate then terminate_prog else []) ?c
      (if co_Cmd s = CommandTerminate then peer_terminates now ?c else ?c)"
    by (simp add: terminate_alone alone_Nil)
  moreover have "alone now (if b then [Local signal_both] else []) x (if b then signal_both x else x)" for b x
    by (simp add: alone_Local alone_Nil)
  ultimately show ?thesis using CmdOnly
    by (auto simp: Let_def simp del: append.simps intro!: alone_append [OF option_alone] alone_append alone_rules)
qed

lemma conversation_kept:
  "cn_Conversation (input_segment current now seg c) = cn_Conversation c"
proof -
  have s: "cn_Conversation (SetState now st c) = cn_Conversation c" for st c
    by (cases st) (simp_all add: SetState_def close_write_def wake_data_def Let_def)
  have h: "cn_Conversation (HandleOption now opt c) = cn_Conversation c" for opt c
    by (simp add: HandleOption_def OnPeerClosed_def s split: conn_state.splits)
  have p: "cn_Conversation (peer_terminates now c) = cn_Conversation c" for c
    by (simp add: peer_terminates_def s split: conn_state.splits)
  show ?thesis by (cases seg) (simp_all add: Let_def h p wake_data_def signal_both_def split: prod.splits)
qed

lemma input_alone: "alone now (input_prog current (cn_Conversation c) segs) c (conn_Input current now segs c)"
proof -
  have "alone now (concat (map (segment_prog current) (takeWhile (\<lambda>seg. Conversation seg = cn_Conversation c) segs))) c (input_loop current now segs c)" for c
  proof (induction segs arbitrary: c)
    case (Cons seg segs)
    show ?case using alone_append [OF segment_alone [of now current seg c] Cons.IH [of "input_segment current now seg c"]]
      by (simp add: conversation_kept alone_Nil)
  qed (simp add: alone_Nil)
  from this [of "c\<lparr>cn_lastIncomingTime := current\<rparr>"] show ?thesis by (simp add: input_prog_def conn_Input_def alone_Local)
qed

lemma state_is_alone:
  assumes "alone now p c d" and "alone now rest (if cn_state c = st \<and> test c then d else c) c2"
  shows "alone now (state_is st test p # rest) c c2"
proof (cases "cn_state c = st \<and> test c")
  case True
  then have "alone now (p @ rest) c c2" using alone_append [OF assms(1)] assms(2) by simp
  then show ?thesis using True by (auto simp: state_is_def intro!: alone_Branch)
qed (use assms(2) in \<open>auto simp: state_is_def intro!: alone_Branch\<close>)

lemma alone_one_Set: "alone now [Set_state seen st] c (SetState now st c)"
  by (intro alone_Set alone_Nil)

lemma terminating_alone:
  "alone now (terminating_prog current) c
     (let x = Ping current CommandTerminate c in if current - cn_stateBeginTime x > 8000 then SetState now StateTerminated x else x)"
  unfolding terminating_prog_def by (rule alone_Local, rule alone_Branch) (simp add: Let_def alone_one_Set alone_Nil)

lemma open_alone:
  "alone now (open_prog current) c
     (let c = (if cn_state c = StatePeerTerminating \<and> current - cn_stateBeginTime c > 4000 then SetState now StateTerminating c else c);
          c = (if cn_state c = StateReadyToClose \<and> current - cn_stateBeginTime c > 15000 then SetState now StateTerminating c else c);
          c = flush_workers current c in
      if current - cn_lastPingTime c \<ge> 3000 then Ping current CommandPing c else c)"
  unfolding open_prog_def Let_def
  by (rule state_is_alone [OF alone_one_Set], rule state_is_alone [OF alone_one_Set], rule alone_Local, rule alone_Branch)
    (simp add: alone_Local alone_Nil)

lemma flush_alone: "alone now (flush_prog current) c (conn_flush current now c)"
proof (cases "cn_state c = StateTerminated")
  case True
  then show ?thesis by (simp add: flush_prog_def conn_flush_def alone_rules)
next
  case False
  have b: "alone now [Branch (\<lambda>c. if cn_state c = StateTerminating then terminating_prog current else open_prog current)] x
      (if cn_state x = StateTerminating then d else e)"
    if "alone now (terminating_prog current) x d" "alone now (open_prog current) x e" for x d e
    using that by (intro alone_Branch) simp
  show ?thesis unfolding flush_prog_def conn_flush_def if_not_P [OF False] Let_def
    by (rule alone_Branch, simp only: False if_False append_Nil2, rule state_is_alone [OF close_alone], rule state_is_alone [OF alone_one_Set],
        rule b [OF terminating_alone [unfolded Let_def] open_alone [unfolded Let_def]])
qed

section \<open>Goroutines\<close>

text \<open>What a goroutine may be started with.  The updaters record their own state and call \<open>flush\<close>.\<close>

definition data_updater_prog :: "u32 \<Rightarrow> atomic_section list" where
  "data_updater_prog current =
     [Branch (\<lambda>c. case updater_step (isTerminating c)
          (\<not> isTerminating c \<and> (send_UpdateNecessary (cn_sendingWorker c) \<or> recv_UpdateNecessary (cn_receivingWorker c)))
          (cn_dataUpdater c) of (u, call) \<Rightarrow>
        Local (\<lambda>c. c\<lparr>cn_dataUpdater := u\<rparr>) # (if call then flush_prog current else []))]"

definition ping_updater_prog :: "u32 \<Rightarrow> atomic_section list" where
  "ping_updater_prog current =
     [Branch (\<lambda>c. case updater_step (isTerminated c) (\<not> isTerminated c) (cn_pingUpdater c) of (u, call) \<Rightarrow>
        Local (\<lambda>c. c\<lparr>cn_pingUpdater := u\<rparr>) # (if call then flush_prog current else []))]"

inductive starts :: "conn \<Rightarrow> atomic_section list \<Rightarrow> bool" for c where
  Start_close: "starts c close_prog"
| Start_input: "starts c (input_prog current (cn_Conversation c) segs)"
| Start_flush: "starts c (flush_prog current)"
| Start_data_updater: "starts c (data_updater_prog current)"
| Start_ping_updater: "starts c (ping_updater_prog current)"
| Start_terminate: "cn_terminateStarted c \<Longrightarrow> starts c [Local (\<lambda>c. fst (Terminate ps c))]"
| Start_read: "starts c [Local (\<lambda>c. fst (conn_ReadMultiBuffer c))]"
| Start_read_bytes: "starts c [Local (\<lambda>c. fst (conn_Read k c))]"
| Start_write: "starts c [Local (\<lambda>c. fst (conn_Write fresh b c))]"

text \<open>A decision is outdated if the state is no longer the one it was made in.\<close>

fun outdated :: "conn \<Rightarrow> atomic_section \<Rightarrow> bool" where
  "outdated c (Set_state seen st) = (cn_state c \<noteq> seen)"
| "outdated c _ = False"

text \<open>A connection and the goroutines that work on it: one is started, or one of them runs its next section.  With \<open>late\<close> a decision may be outdated.\<close>

inductive goes :: "bool \<Rightarrow> conn \<times> atomic_section list list \<Rightarrow> conn \<times> atomic_section list list \<Rightarrow> bool" for late where
  Go_start: "starts c p \<Longrightarrow> goes late (c, gs) (c, gs @ [p])"
| Go_run: "i < length gs \<Longrightarrow> gs ! i = sec # rest \<Longrightarrow> late \<or> \<not> outdated c sec \<Longrightarrow> run_section now sec c = (c', new) \<Longrightarrow>
     goes late (c, gs) (c', gs[i := new @ rest])"

text \<open>Sections that set the state only to a later one.\<close>

inductive good :: "atomic_section \<Rightarrow> bool" where
  good_Local: "(\<And>c. cn_state (f c) = cn_state c) \<Longrightarrow> good (Local f)"
| good_Set: "rank seen < rank st \<Longrightarrow> good (Set_state seen st)"
| good_Branch: "(\<And>c sec. sec \<in> set (b c) \<Longrightarrow> good sec) \<Longrightarrow> good (Branch b)"

inductive_cases good_LocalE: "good (Local f)"
inductive_cases good_SetE: "good (Set_state seen st)"
inductive_cases good_BranchE: "good (Branch b)"

abbreviation good_prog :: "atomic_section list \<Rightarrow> bool" where
  "good_prog p \<equiv> \<forall>sec \<in> set p. good sec"

lemma enter_state_state: "cn_state (enter_state st c) = cn_state c"
  by (cases st) (simp_all add: enter_state_def close_write_def wake_data_def)

lemma good_close: "good_prog close_prog"
  by (auto simp: close_prog_def signal_both_def split: conn_state.splits intro!: good.intros)

lemma good_option: "good_prog (option_prog opt)"
  by (auto simp: option_prog_def split: conn_state.splits intro!: good.intros)

lemma good_terminate: "good_prog terminate_prog"
  by (auto simp: terminate_prog_def split: conn_state.splits intro!: good.intros)

lemma good_segment: "good_prog (segment_prog current seg)"
  using good_option good_terminate
  by (cases seg) (auto simp: signal_both_def wake_data_def split: prod.splits intro!: good_Local)

lemma good_input: "good_prog (input_prog current conv segs)"
  using good_segment by (auto simp: input_prog_def dest: set_takeWhileD intro!: good_Local)

lemma good_state_is: "good_prog p \<Longrightarrow> good (state_is st test p)"
  by (auto simp: state_is_def split: if_splits intro!: good_Branch)

lemma good_flush: "good_prog (flush_prog current)"
proof -
  have "good_prog (terminating_prog current)" "good_prog (open_prog current)"
    by (auto simp: terminating_prog_def open_prog_def conn_fields split: if_splits intro!: good.intros good_state_is)
  then show ?thesis using good_close
    by (auto simp: flush_prog_def split: if_splits intro!: good_Branch good_state_is) (auto intro: good_Set)
qed

lemma good_starts: "starts c p \<Longrightarrow> good_prog p"
proof (induction rule: starts.induct)
  case (Start_write fresh b)
  have "cn_state (fst (conn_Write fresh b c)) = cn_state c" for c
    using write_loop_fields [of fresh c None b False]
    by (cases "write_loop fresh c None b False") (auto simp: conn_Write_def conn_fields)
  then show ?case by (auto intro!: good_Local)
next
  case (Start_data_updater current)
  then show ?case using good_flush [of current]
    by (auto simp: data_updater_prog_def split: prod.splits if_splits intro!: good_Branch) (auto intro: good_Local)
next
  case (Start_ping_updater current)
  then show ?case using good_flush [of current]
    by (auto simp: ping_updater_prog_def split: prod.splits if_splits intro!: good_Branch) (auto intro: good_Local)
qed (auto simp: good_close good_input good_flush Terminate_def signal_both_def conn_ReadMultiBuffer_def conn_Read_def Let_def wake_data_def
      intro!: good_Local split: prod.splits res.splits)

lemma run_good:
  assumes "good sec" and "run_section now sec c = (c', new)"
  shows "good_prog new" and "cn_state c' = cn_state c \<or> (\<exists>seen. sec = Set_state seen (cn_state c') \<and> rank seen < rank (cn_state c'))"
  using assms by (cases sec; auto elim!: good_LocalE good_SetE good_BranchE intro!: good_Local simp: enter_state_state)+

lemma goes_step:
  assumes "goes late (c, gs) (c', gs')" and "\<forall>p \<in> set gs. good_prog p"
  shows "(\<forall>p \<in> set gs'. good_prog p) \<and> (cn_state c \<noteq> StateActive \<longrightarrow> cn_state c' \<noteq> StateActive) \<and>
    (\<not> late \<longrightarrow> cn_state c' = cn_state c \<or> rank (cn_state c) < rank (cn_state c'))"
  using assms(1)
proof cases
  case (Go_start p)
  then show ?thesis using assms(2) good_starts by auto
next
  case (Go_run i sec rest now new)
  have p: "good sec" "good_prog rest" using assms(2) nth_mem [OF Go_run(2)] Go_run(3) by auto
  note r = run_good [OF p(1) Go_run(5)]
  have "\<forall>p \<in> set (gs[i := new @ rest]). good_prog p"
    using set_update_subset_insert [of gs i "new @ rest"] assms(2) r(1) p(2) by fastforce
  moreover have "cn_state c' \<noteq> StateActive" if "cn_state c \<noteq> StateActive"
    using r(2) that by (cases "cn_state c'") auto
  ultimately show ?thesis using r(2) Go_run(1,4) by auto
qed

lemma goes_run:
  assumes "(goes late)\<^sup>*\<^sup>* (c, []) (c', gs)"
  shows "(\<forall>p \<in> set gs. good_prog p) \<and> (cn_state c \<noteq> StateActive \<longrightarrow> cn_state c' \<noteq> StateActive) \<and>
    (\<not> late \<longrightarrow> cn_state c' = cn_state c \<or> rank (cn_state c) < rank (cn_state c'))"
  using assms
proof (induction "(c', gs)" arbitrary: c' gs rule: rtranclp_induct)
  case (step y)
  obtain c1 gs1 where y: "y = (c1, gs1)" by fastforce
  from step.hyps(3) [OF y] have ih: "\<forall>p \<in> set gs1. good_prog p" "cn_state c \<noteq> StateActive \<longrightarrow> cn_state c1 \<noteq> StateActive"
    "\<not> late \<longrightarrow> cn_state c1 = cn_state c \<or> rank (cn_state c) < rank (cn_state c1)" by blast+
  from goes_step [OF step.hyps(2) [unfolded y] ih(1)] ih show ?case by auto
qed auto

lemma Go_Local: "i < length gs \<Longrightarrow> gs ! i = Local f # rest \<Longrightarrow> goes late (c, gs) (f c, gs[i := rest])"
  using Go_run [of i gs "Local f" rest late c] by simp

lemma Go_Branch: "i < length gs \<Longrightarrow> gs ! i = Branch b # rest \<Longrightarrow> goes late (c, gs) (c, gs[i := b c @ rest])"
  using Go_run [of i gs "Branch b" rest late c] by simp

lemma Go_Set:
  "i < length gs \<Longrightarrow> gs ! i = Set_state seen st # rest \<Longrightarrow> late \<or> cn_state c = seen \<Longrightarrow>
     goes late (c, gs) (c\<lparr>cn_state := st\<rparr>, gs[i := [Local (\<lambda>c. c\<lparr>cn_stateBeginTime := now\<rparr>), Local (enter_state st)] @ rest])"
  using Go_run [of i gs "Set_state seen st" rest late c now] by simp

section \<open>Properties\<close>

text \<open>
  C37. The state of a connection while its operations run at the same time, each of them in the atomic sections of the code: once the connection has left the active
  state it never becomes active again, in any interleaving; and as long as no goroutine stores a state that it decided on in a state that has been left in
  between, the state only moves forward, from active over closing and terminating to terminated.
\<close>

theorem conn_state_interleaved:
  assumes "(goes late)\<^sup>*\<^sup>* (c, []) (c', gs)"
  shows "(cn_state c \<noteq> StateActive \<longrightarrow> cn_state c' \<noteq> StateActive) \<and>
    (\<not> late \<longrightarrow> cn_state c' = cn_state c \<or> rank (cn_state c) < rank (cn_state c'))"
  using goes_run [OF assms] by blast

definition close_seen :: "conn \<times> atomic_section list list" where
  "close_seen = (signal_both sample_conn, [[Set_state StateActive StateReadyToClose]])"

lemma close_seen_active: "cn_state (fst close_seen) = StateActive" "cn_Conversation (fst close_seen) = 7"
  by (simp_all add: close_seen_def sample_conn_def signal_both_def)

lemma close_decides: "(goes late)\<^sup>*\<^sup>* (sample_conn, []) close_seen"
proof -
  obtain b where p: "close_prog = [Local signal_both, Branch b]" "b (signal_both sample_conn) = [Set_state StateActive StateReadyToClose]"
    by (simp add: close_prog_def sample_conn_def signal_both_def)
  have "goes late (sample_conn, []) (sample_conn, [close_prog])" using Go_start [OF Start_close, of late sample_conn "[]"] by simp
  moreover have "goes late (sample_conn, [close_prog]) (signal_both sample_conn, [[Branch b]])"
    using Go_Local [of 0 "[close_prog]" signal_both "[Branch b]" late sample_conn] by (simp add: p(1))
  moreover have "goes late (signal_both sample_conn, [[Branch b]]) close_seen"
    using Go_Branch [of 0 "[[Branch b]]" b "[]" late "signal_both sample_conn"] by (simp add: p(2) close_seen_def)
  ultimately show ?thesis by (meson converse_rtranclp_into_rtranclp rtranclp.rtrancl_refl)
qed

theorem conn_state_interleaved_witness:
  "\<exists>c gs. (goes False)\<^sup>*\<^sup>* (sample_conn, []) (c, gs) \<and> cn_state c \<noteq> cn_state sample_conn \<and> rank (cn_state sample_conn) < rank (cn_state c)"
proof -
  let ?c = "(fst close_seen)\<lparr>cn_state := StateReadyToClose\<rparr>"
  have cs: "close_seen = (fst close_seen, [[Set_state StateActive StateReadyToClose]])" by (simp add: close_seen_def)
  have "goes False close_seen (?c, [[Local (\<lambda>c. c\<lparr>cn_stateBeginTime := 5\<rparr>), Local (enter_state StateReadyToClose)]])"
    using Go_Set [of 0 "[[Set_state StateActive StateReadyToClose]]" StateActive StateReadyToClose "[]" False "fst close_seen" 5]
    by (subst cs) (simp add: close_seen_active)
  with close_decides [of False] have g: "(goes False)\<^sup>*\<^sup>* (sample_conn, []) (?c, [[Local (\<lambda>c. c\<lparr>cn_stateBeginTime := 5\<rparr>), Local (enter_state StateReadyToClose)]])"
    by (meson rtranclp.rtrancl_into_rtrancl)
  have "cn_state ?c \<noteq> cn_state sample_conn" by (simp add: sample_conn_def)
  with conn_state_interleaved [OF g] g show ?thesis by blast
qed

text \<open>
  The state can move backwards: \<open>Close\<close> sees an active connection; before it stores that the connection is about to close, the peer ends the connection and
  \<open>Input\<close> notes that; then \<open>Close\<close> overwrites this with the earlier state.
\<close>

theorem close_overtaken:
  "\<exists>c1 gs1 c2 gs2. (goes True)\<^sup>*\<^sup>* (sample_conn, []) (c1, gs1) \<and> cn_state c1 = StatePeerTerminating \<and>
     (goes True)\<^sup>*\<^sup>* (c1, gs1) (c2, gs2) \<and> cn_state c2 = StateReadyToClose"
proof -
  let ?c = "fst close_seen" and ?close = "[Set_state StateActive StateReadyToClose]"
  let ?d = "?c\<lparr>cn_lastIncomingTime := 3\<rparr>" and ?late = "[Local (\<lambda>c. c\<lparr>cn_stateBeginTime := 4\<rparr>), Local (enter_state StateReadyToClose)]"
  let ?stop = "CmdOnly (NewCmdOnlySegment\<lparr>co_Conv := 7, co_Cmd := CommandTerminate\<rparr>)"
  obtain q where p: "input_prog 3 7 [?stop] = Local (\<lambda>c. c\<lparr>cn_lastIncomingTime := 3\<rparr>) # terminate_prog @ q"
    by (auto simp: input_prog_def NewCmdOnlySegment_def option_prog_def SegmentOptionClose_def)
  obtain b where t: "terminate_prog = [Branch b]" "b ?d = [Set_state StateActive StatePeerTerminating]"
    by (simp add: terminate_prog_def close_seen_active)
  let ?q = "[Local (\<lambda>c. c\<lparr>cn_stateBeginTime := 3\<rparr>), Local (enter_state StatePeerTerminating)] @ q"
  have 1: "goes True close_seen (?c, [?close, input_prog 3 7 [?stop]])"
    using Go_start [OF Start_input, of True ?c "[?close]" 3 "[?stop]"] by (simp add: close_seen_active) (simp add: close_seen_def)
  have 2: "goes True (?c, [?close, input_prog 3 7 [?stop]]) (?d, [?close, terminate_prog @ q])"
    using Go_Local [of 1 "[?close, input_prog 3 7 [?stop]]" _ "terminate_prog @ q" True ?c] by (simp add: p)
  have 3: "goes True (?d, [?close, terminate_prog @ q]) (?d, [?close, Set_state StateActive StatePeerTerminating # q])"
    using Go_Branch [of 1 "[?close, terminate_prog @ q]" b q True ?d] by (simp add: t)
  have 4: "goes True (?d, [?close, Set_state StateActive StatePeerTerminating # q]) (?d\<lparr>cn_state := StatePeerTerminating\<rparr>, [?close, ?q])"
    using Go_Set [of 1 "[?close, Set_state StateActive StatePeerTerminating # q]" StateActive StatePeerTerminating q True ?d 3] by simp
  have 5: "goes True (?d\<lparr>cn_state := StatePeerTerminating\<rparr>, [?close, ?q]) (?d\<lparr>cn_state := StatePeerTerminating\<rparr>\<lparr>cn_state := StateReadyToClose\<rparr>, [?late, ?q])"
    using Go_Set [of 0 "[?close, ?q]" StateActive StateReadyToClose "[]" True "?d\<lparr>cn_state := StatePeerTerminating\<rparr>" 4] by simp
  have "(goes True)\<^sup>*\<^sup>* (sample_conn, []) (?d\<lparr>cn_state := StatePeerTerminating\<rparr>, [?close, ?q])"
    using close_decides [of True] 1 2 3 4 by (meson rtranclp.rtrancl_into_rtrancl)
  then show ?thesis using r_into_rtranclp [of "goes True", OF 5] by (intro exI conjI) (assumption, simp, assumption, simp)
qed

end
