(* ===== verification/StrMatcher.thy ===== *)
theory StrMatcher
  imports Prelude "HOL-Library.AList" "HOL-Library.Sublist"
begin

text \<open>
  Domain name matching (\<open>common/strmatcher\<close>): the single matchers, the table of full matchers, the trie of
  domain matchers and the group that combines them.  Strings are lists of bytes as characters.  Regular
  expressions are compiled by the Go library: a regex matcher is the predicate the library provides.
\<close>

section \<open>Single matchers\<close>

datatype matcher =
    fullMatcher string
  | substrMatcher string
  | domainMatcher string
  | regexMatcher "string \<Rightarrow> bool"

fun matcher_Match :: "matcher \<Rightarrow> string \<Rightarrow> bool" where
  "matcher_Match (fullMatcher m) s = (m = s)"
| "matcher_Match (substrMatcher m) s = sublist m s"
| "matcher_Match (domainMatcher pattern) s =
     (if \<not> suffix pattern s then False
      else length s = length pattern \<or> s ! (length s - length pattern - 1) = CHR ''.'')"
| "matcher_Match (regexMatcher p) s = p s"

section \<open>Full matchers\<close>

type_synonym full_group = "(string \<times> u32 list) list"

definition map_get :: "('k \<times> 'v list) list \<Rightarrow> 'k \<Rightarrow> 'v list" where
  "map_get m k = (case map_of m k of None \<Rightarrow> [] | Some vs \<Rightarrow> vs)"

definition full_Add :: "string \<Rightarrow> u32 \<Rightarrow> full_group \<Rightarrow> full_group" where
  "full_Add domain value g = AList.update domain (map_get g domain @ [value]) g"

definition full_Match :: "full_group \<Rightarrow> string \<Rightarrow> u32 list" where
  "full_Match g str = map_get g str"

section \<open>The trie of domain matchers\<close>

text \<open>\<open>strings.Split(domain, ".")\<close>: never empty.\<close>

fun breakDomain :: "string \<Rightarrow> string list" where
  "breakDomain [] = [[]]"
| "breakDomain (c # s) =
     (if c = CHR ''.'' then [] # breakDomain s
      else (case breakDomain s of p # ps \<Rightarrow> (c # p) # ps | [] \<Rightarrow> [[c]]))"

datatype dnode = DNode (dn_values: "u32 list") (dn_sub: "(string \<times> dnode) list")

definition new_node :: dnode where
  "new_node = DNode [] []"

text \<open>\<open>Add\<close> walks down the parts from the last to the first; \<open>parts\<close> is the reversed list.\<close>

fun add_parts :: "string list \<Rightarrow> u32 \<Rightarrow> dnode \<Rightarrow> dnode" where
  "add_parts [] value (DNode vs sub) = DNode (vs @ [value]) sub"
| "add_parts (part # parts) value (DNode vs sub) =
     DNode vs (AList.update part
       (add_parts parts value (case map_of sub part of None \<Rightarrow> new_node | Some next \<Rightarrow> next)) sub)"

definition domain_Add :: "string \<Rightarrow> u32 \<Rightarrow> dnode option \<Rightarrow> dnode option" where
  "domain_Add domain value root =
     Some (add_parts (rev (breakDomain domain)) value (case root of None \<Rightarrow> new_node | Some r \<Rightarrow> r))"

text \<open>The position of the last dot before \<open>idx\<close>, or -1.\<close>

fun dot_below :: "string \<Rightarrow> nat \<Rightarrow> int" where
  "dot_below domain 0 = -1"
| "dot_below domain (Suc i) = (if domain ! i = CHR ''.'' then int i else dot_below domain i)"

definition nextPart :: "string \<Rightarrow> int \<Rightarrow> int" where
  "nextPart domain idx = dot_below domain (nat idx)"

lemma dot_below_less: "dot_below domain n < int n"
proof (induction n)
  case (Suc i)
  then show ?case by (auto intro: less_trans)
qed simp

lemma dot_below_ge: "-1 \<le> dot_below domain n"
  by (induction n) auto

lemma nextPart_less: "0 \<le> idx \<Longrightarrow> nextPart domain idx < idx"
  using dot_below_less [of domain "nat idx"] by (simp add: nextPart_def)

definition str_slice :: "string \<Rightarrow> int \<Rightarrow> int \<Rightarrow> string" where
  "str_slice s lo hi = take (nat (hi - lo)) (drop (nat lo) s)"

function match_loop :: "string \<Rightarrow> int \<Rightarrow> dnode \<Rightarrow> u32 list list" where
  "match_loop domain idx current =
     (if idx < 0 \<or> dn_sub current = [] then []
      else
        (let nidx = nextPart domain idx in
         case map_of (dn_sub current) (str_slice domain (nidx + 1) idx) of
           None \<Rightarrow> []
         | Some next \<Rightarrow>
             (if length (dn_values next) > 0 then [dn_values next] else []) @ match_loop domain nidx next))"
  by pat_completeness auto
termination
  by (relation "measure (\<lambda>(domain, idx, _). nat (idx + 1))") (auto simp: zless_imp_add1_zle nextPart_less)

declare match_loop.simps [simp del]

definition domain_Match :: "dnode option \<Rightarrow> string \<Rightarrow> u32 list" where
  "domain_Match root domain =
     (if domain = [] then []
      else (case root of None \<Rightarrow> [] | Some r \<Rightarrow> concat (rev (match_loop domain (int (length domain)) r))))"

section \<open>Matcher groups\<close>

record matcher_group =
  mg_count :: u32
  mg_fullMatcher :: full_group
  mg_domainMatcher :: "dnode option"
  mg_otherMatchers :: "(matcher \<times> u32) list"

definition empty_group :: matcher_group where
  "empty_group = \<lparr>mg_count = 0, mg_fullMatcher = [], mg_domainMatcher = None, mg_otherMatchers = []\<rparr>"

definition group_Add :: "matcher \<Rightarrow> matcher_group \<Rightarrow> matcher_group \<times> u32" where
  "group_Add m g =
     (let c = mg_count g + 1;
          g = g\<lparr>mg_count := c\<rparr> in
      (case m of
         fullMatcher p \<Rightarrow> g\<lparr>mg_fullMatcher := full_Add p c (mg_fullMatcher g)\<rparr>
       | domainMatcher p \<Rightarrow> g\<lparr>mg_domainMatcher := domain_Add p c (mg_domainMatcher g)\<rparr>
       | _ \<Rightarrow> g\<lparr>mg_otherMatchers := mg_otherMatchers g @ [(m, c)]\<rparr>, c))"

definition group_Match :: "matcher_group \<Rightarrow> string \<Rightarrow> u32 list" where
  "group_Match g pattern =
     full_Match (mg_fullMatcher g) pattern @ domain_Match (mg_domainMatcher g) pattern @
     map snd (filter (\<lambda>(m, _). matcher_Match m pattern) (mg_otherMatchers g))"

definition group_Size :: "matcher_group \<Rightarrow> u32" where
  "group_Size g = mg_count g"

section \<open>Parts of a domain\<close>

lemma breakDomain_not_Nil [simp]: "breakDomain s \<noteq> []"
  by (cases s) (auto split: list.splits)

lemma breakDomain_dot: "breakDomain (x @ CHR ''.'' # y) = breakDomain x @ breakDomain y"
  by (induction x) (auto split: list.splits simp: neq_Nil_conv)

lemma breakDomain_plain: "CHR ''.'' \<notin> set x \<Longrightarrow> breakDomain x = [x]"
  by (induction x) auto

fun join_dots :: "string list \<Rightarrow> string" where
  "join_dots [] = []"
| "join_dots [p] = p"
| "join_dots (p # ps) = p @ CHR ''.'' # join_dots ps"

lemma join_dots_append: "ps \<noteq> [] \<Longrightarrow> qs \<noteq> [] \<Longrightarrow> join_dots (ps @ qs) = join_dots ps @ CHR ''.'' # join_dots qs"
  by (induction ps rule: join_dots.induct) (auto simp: neq_Nil_conv)

lemma join_breakDomain [simp]: "join_dots (breakDomain s) = s"
proof (induction s)
  case (Cons c s)
  obtain p ps where "breakDomain s = p # ps" using breakDomain_not_Nil [of s] by (cases "breakDomain s") auto
  with Cons show ?case by (cases ps) auto
qed simp

text \<open>Matching a domain is matching its last parts.\<close>

lemma domain_suffix_parts:
  "matcher_Match (domainMatcher p) s \<longleftrightarrow> suffix (breakDomain p) (breakDomain s)"
proof
  assume m: "matcher_Match (domainMatcher p) s"
  then obtain x where x: "s = x @ p" by (auto simp: suffix_def split: if_splits)
  show "suffix (breakDomain p) (breakDomain s)"
  proof (cases "x = []")
    case False
    then obtain y c where y: "x = y @ [c]" by (metis rev_exhaust)
    with m x have "c = CHR ''.''" by (auto simp: nth_append split: if_splits)
    with x y show ?thesis using breakDomain_dot [of y p] by (simp add: suffix_def)
  qed (use x in simp)
next
  assume "suffix (breakDomain p) (breakDomain s)"
  then obtain u where u: "breakDomain s = u @ breakDomain p" by (auto simp: suffix_def)
  show "matcher_Match (domainMatcher p) s"
  proof (cases "u = []")
    case True
    with u have "join_dots (breakDomain s) = join_dots (breakDomain p)" by simp
    then show ?thesis by simp
  next
    case False
    have "s = join_dots u @ CHR ''.'' # p"
      using join_dots_append [OF False breakDomain_not_Nil [of p]] u join_breakDomain [of s] by simp
    then show ?thesis by (auto simp: suffix_def nth_append)
  qed
qed

section \<open>The trie as a table\<close>

text \<open>The values at the node of a reversed list of parts.\<close>

fun node_at :: "string list \<Rightarrow> dnode \<Rightarrow> dnode option" where
  "node_at [] d = Some d"
| "node_at (p # ps) d = (case map_of (dn_sub d) p of None \<Rightarrow> None | Some d' \<Rightarrow> node_at ps d')"

definition values_at :: "string list \<Rightarrow> dnode \<Rightarrow> u32 list" where
  "values_at ps d = (case node_at ps d of None \<Rightarrow> [] | Some d' \<Rightarrow> dn_values d')"

lemma values_at_Nil [simp]: "values_at [] d = dn_values d"
  by (simp add: values_at_def)

lemma values_at_Cons: "values_at (p # ps) d = (case map_of (dn_sub d) p of None \<Rightarrow> [] | Some d' \<Rightarrow> values_at ps d')"
  by (simp add: values_at_def split: option.splits)

lemma values_at_new [simp]: "values_at ps new_node = []"
  by (cases ps) (simp_all add: values_at_Cons new_node_def)

lemma values_at_add:
  "values_at qs (add_parts ps v d) = values_at qs d @ (if qs = ps then [v] else [])"
proof (induction ps v d arbitrary: qs rule: add_parts.induct)
  case (1 v vs sub)
  then show ?case by (cases qs) (auto simp: values_at_Cons)
next
  case (2 part parts v vs sub)
  show ?case
  proof (cases qs)
    case (Cons q qs')
    show ?thesis
    proof (cases "q = part")
      case True
      then show ?thesis
        using "2.IH" [of qs'] Cons by (cases "map_of sub part") (simp_all add: values_at_Cons update_conv')
    next
      case False
      then show ?thesis using Cons by (simp add: values_at_Cons update_conv')
    qed
  qed simp
qed

text \<open>The loop of \<open>Match\<close> collects the non-empty values along the parts, from the last one on.\<close>

fun walk :: "string list \<Rightarrow> dnode \<Rightarrow> u32 list list" where
  "walk [] d = []"
| "walk (p # ps) d =
     (case map_of (dn_sub d) p of None \<Rightarrow> [] | Some d' \<Rightarrow> dn_values d' # walk ps d')"

lemma dot_below_split:
  assumes "n \<le> length s" and "dot_below s n = int i"
  shows "i < n \<and> take n s = take i s @ CHR ''.'' # drop (i + 1) (take n s) \<and> CHR ''.'' \<notin> set (drop (i + 1) (take n s))"
  using assms
proof (induction n)
  case (Suc k)
  show ?case
  proof (cases "s ! k = CHR ''.''")
    case True
    with Suc.prems have "i = k" by simp
    with True Suc.prems show ?thesis by (simp add: take_Suc_conv_app_nth)
  next
    case False
    with Suc show ?thesis by (auto simp: take_Suc_conv_app_nth)
  qed
qed simp

lemma dot_below_none: "n \<le> length s \<Longrightarrow> dot_below s n = -1 \<Longrightarrow> CHR ''.'' \<notin> set (take n s)"
  by (induction n) (auto simp: take_Suc_conv_app_nth split: if_splits)

lemma match_loop_walk:
  assumes "n \<le> length s"
  shows "concat (rev (match_loop s (int n) d)) = concat (rev (walk (rev (breakDomain (take n s))) d))"
  using assms
proof (induction n arbitrary: d rule: less_induct)
  case (less n)
  let ?i = "nextPart s (int n)"
  have i: "?i = dot_below s n" by (simp add: nextPart_def)
  show ?case
  proof (cases "?i = -1")
    case True
    then have "breakDomain (take n s) = [take n s]"
      using dot_below_none [OF less.prems] i by (intro breakDomain_plain) simp
    moreover have "str_slice s (?i + 1) (int n) = take n s" using True by (simp add: str_slice_def)
    moreover have "match_loop s (-1) d' = []" for d' by (simp add: match_loop.simps)
    ultimately show ?thesis
      using True by (subst match_loop.simps) (auto simp: Let_def split: option.splits)
  next
    case False
    then have "0 \<le> ?i" using dot_below_ge [of s n] i by simp
    then obtain k where k: "?i = int k" using nonneg_int_cases by blast
    note sp = dot_below_split [OF less.prems k [unfolded i]]
    have parts: "breakDomain (take n s) = breakDomain (take k s) @ [drop (k + 1) (take n s)]"
      using sp breakDomain_dot [of "take k s" "drop (k + 1) (take n s)"] breakDomain_plain by metis
    have "str_slice s (?i + 1) (int n) = drop (k + 1) (take n s)"
      using k by (simp add: str_slice_def drop_take nat_diff_distrib' nat_add_distrib)
    moreover have "concat (rev (match_loop s (int k) d')) = concat (rev (walk (rev (breakDomain (take k s))) d'))" for d'
      using less.IH [of k] sp less.prems by simp
    ultimately show ?thesis
      using k parts by (subst match_loop.simps) (auto simp: Let_def split: option.splits)
  qed
qed

text \<open>In terms of the table: the values of every non-empty sequence of last parts, longest first.\<close>

lemma walk_values: "concat (rev (walk ps d)) = concat (map (\<lambda>k. values_at (take k ps) d) (rev [1..<length ps + 1]))"
proof (induction ps arbitrary: d)
  case (Cons p ps)
  have *: "rev [1..<length (p # ps) + 1] = map Suc (rev [1..<length ps + 1]) @ [1]"
    by (simp add: upt_conv_Cons rev_map [symmetric] map_Suc_upt del: upt_Suc)
  show ?case
  proof (cases "map_of (dn_sub d) p")
    case None
    then have "values_at (take (Suc k) (p # ps)) d = []" for k by (simp add: values_at_Cons)
    then show ?thesis unfolding * using None by (simp add: comp_def values_at_Cons)
  next
    case (Some d')
    have "concat (rev (walk (p # ps) d)) = concat (rev (walk ps d')) @ dn_values d'" using Some by simp
    also have "\<dots> = concat (map (\<lambda>k. values_at (take (Suc k) (p # ps)) d) (rev [1..<length ps + 1])) @ values_at (take 1 (p # ps)) d"
      using Cons [of d'] Some by (simp add: values_at_Cons)
    finally show ?thesis unfolding * by (simp add: comp_def)
  qed
qed simp

lemma domain_Match_values:
  assumes "s \<noteq> []"
  shows "domain_Match (Some r) s =
    concat (map (\<lambda>k. values_at (take k (rev (breakDomain s))) r) (rev [1..<length (breakDomain s) + 1]))"
  using match_loop_walk [of "length s" s r] walk_values [of "rev (breakDomain s)" r] assms by (simp add: domain_Match_def)

section \<open>A group finds exactly the matchers that match\<close>

text \<open>What the tables hold after adding \<open>ms\<close>: every matcher under its number, counted from 1.\<close>

definition group_of :: "matcher list \<Rightarrow> matcher_group" where
  "group_of ms = fold (\<lambda>m g. fst (group_Add m g)) ms empty_group"

definition numbers_of :: "(matcher \<Rightarrow> bool) \<Rightarrow> matcher list \<Rightarrow> u32 list" where
  "numbers_of P ms = map (\<lambda>i. word_of_nat (i + 1)) (filter (\<lambda>i. P (ms ! i)) [0..<length ms])"

lemma numbers_of_snoc: "numbers_of P (ms @ [m]) = numbers_of P ms @ (if P m then [word_of_nat (length ms + 1)] else [])"
proof -
  have "filter (\<lambda>i. P ((ms @ [m]) ! i)) [0..<length ms] = filter (\<lambda>i. P (ms ! i)) [0..<length ms]"
    by (rule filter_cong) (simp_all add: nth_append)
  then show ?thesis by (simp add: numbers_of_def)
qed

definition domain_values :: "string list \<Rightarrow> dnode option \<Rightarrow> u32 list" where
  "domain_values ps root = (case root of None \<Rightarrow> [] | Some r \<Rightarrow> values_at ps r)"

fun is_other :: "matcher \<Rightarrow> bool" where
  "is_other (fullMatcher _) = False"
| "is_other (domainMatcher _) = False"
| "is_other _ = True"

definition group_rep :: "matcher list \<Rightarrow> matcher_group \<Rightarrow> bool" where
  "group_rep ms g \<longleftrightarrow> mg_count g = word_of_nat (length ms) \<and>
     (\<forall>s. full_Match (mg_fullMatcher g) s = numbers_of (\<lambda>m. m = fullMatcher s) ms) \<and>
     (\<forall>ps. domain_values ps (mg_domainMatcher g) =
        numbers_of (\<lambda>m. \<exists>p. m = domainMatcher p \<and> rev (breakDomain p) = ps) ms) \<and>
     (\<forall>s. map snd (filter (\<lambda>(m, _). matcher_Match m s) (mg_otherMatchers g)) =
        numbers_of (\<lambda>m. is_other m \<and> matcher_Match m s) ms)"

lemma domain_values_Add:
  "domain_values ps (domain_Add p v root) = domain_values ps root @ (if ps = rev (breakDomain p) then [v] else [])"
  by (cases root) (simp_all add: domain_values_def domain_Add_def values_at_add)

lemma full_Match_Add: "full_Match (full_Add p v g) s = full_Match g s @ (if s = p then [v] else [])"
  by (simp add: full_Match_def full_Add_def map_get_def update_conv' split: option.splits)

lemma group_rep_Add:
  assumes "group_rep ms g"
  shows "group_rep (ms @ [m]) (fst (group_Add m g))"
  using assms
  by (cases m) (auto simp: group_rep_def group_Add_def Let_def numbers_of_snoc full_Match_Add domain_values_Add add.commute)

lemma group_of_rep: "group_rep ms (group_of ms)"
proof (induction ms rule: rev_induct)
  case Nil
  show ?case by (simp add: group_rep_def group_of_def empty_group_def numbers_of_def full_Match_def map_get_def domain_values_def)
next
  case (snoc m ms)
  then show ?case using group_rep_Add by (simp add: group_of_def)
qed

lemma mset_numbers_or:
  assumes "\<And>m. \<not> (P m \<and> Q m)"
  shows "mset (numbers_of (\<lambda>m. P m \<or> Q m) ms) = mset (numbers_of P ms) + mset (numbers_of Q ms)"
proof (induction ms rule: rev_induct)
  case Nil
  show ?case by (simp add: numbers_of_def)
next
  case (snoc m ms)
  with assms [of m] show ?case by (auto simp: numbers_of_snoc)
qed

lemma mset_numbers_many:
  assumes "distinct ks" and "\<And>k l m. Q k m \<Longrightarrow> Q l m \<Longrightarrow> k \<in> set ks \<Longrightarrow> l \<in> set ks \<Longrightarrow> k = l"
  shows "mset (concat (map (\<lambda>k. numbers_of (Q k) ms) ks)) = mset (numbers_of (\<lambda>m. \<exists>k \<in> set ks. Q k m) ms)"
  using assms
proof (induction ks)
  case Nil
  show ?case by (simp add: numbers_of_def)
next
  case (Cons k ks)
  have "mset (numbers_of (\<lambda>m. \<exists>l \<in> set (k # ks). Q l m) ms) =
      mset (numbers_of (\<lambda>m. Q k m \<or> (\<exists>l \<in> set ks. Q l m)) ms)" by simp
  also have "\<dots> = mset (numbers_of (Q k) ms) + mset (numbers_of (\<lambda>m. \<exists>l \<in> set ks. Q l m) ms)"
    by (rule mset_numbers_or) (use Cons.prems in \<open>metis distinct.simps(2) list.set_intros\<close>)
  finally show ?case using Cons by simp
qed

lemma suffix_take_rev:
  "p \<noteq> [] \<Longrightarrow> (\<exists>k \<in> {1..<length q + 1}. rev p = take k (rev q)) \<longleftrightarrow> suffix p q"
proof
  assume "p \<noteq> []" and "suffix p q"
  then obtain u where "q = u @ p" by (auto simp: suffix_def)
  with \<open>p \<noteq> []\<close> show "\<exists>k \<in> {1..<length q + 1}. rev p = take k (rev q)"
    by (intro bexI [of _ "length p"]) (simp_all add: Suc_le_eq)
next
  assume "\<exists>k \<in> {1..<length q + 1}. rev p = take k (rev q)"
  then obtain k where "rev p = take k (rev q)" by blast
  from arg_cong [OF this, of rev] have "p = drop (length q - k) q" by (simp add: rev_take)
  then show "suffix p q" by (metis suffix_drop)
qed

lemma group_Match_numbers:
  assumes "s \<noteq> []"
  shows "mset (group_Match (group_of ms) s) = mset (numbers_of (\<lambda>m. matcher_Match m s) ms)"
proof -
  let ?g = "group_of ms" and ?Q = "\<lambda>ps m. \<exists>p. m = domainMatcher p \<and> rev (breakDomain p) = ps"
  let ?ks = "rev [1..<length (breakDomain s) + 1]"
  note rep = group_of_rep [of ms, unfolded group_rep_def]
  have "mset (domain_Match (mg_domainMatcher ?g) s) =
      mset (concat (map (\<lambda>k. numbers_of (?Q (take k (rev (breakDomain s)))) ms) ?ks))"
  proof (cases "mg_domainMatcher ?g")
    case None
    then have "numbers_of (?Q ps) ms = []" for ps using rep by (simp add: domain_values_def)
    with None show ?thesis by (simp add: domain_Match_def)
  next
    case (Some r)
    then have "numbers_of (?Q ps) ms = values_at ps r" for ps using rep by (simp add: domain_values_def)
    with domain_Match_values [OF assms, of r] Some show ?thesis by simp
  qed
  also have "\<dots> = mset (numbers_of (\<lambda>m. \<exists>k \<in> set ?ks. ?Q (take k (rev (breakDomain s))) m) ms)"
  proof (rule mset_numbers_many)
    fix k l m
    assume "?Q (take k (rev (breakDomain s))) m" "?Q (take l (rev (breakDomain s))) m" and r: "k \<in> set ?ks" "l \<in> set ?ks"
    then have "take k (rev (breakDomain s)) = take l (rev (breakDomain s))" by (metis matcher.inject(3))
    from arg_cong [OF this, of length] r show "k = l" by (simp add: min_def split: if_splits)
  qed simp
  also have "(\<lambda>m. \<exists>k \<in> set ?ks. ?Q (take k (rev (breakDomain s))) m) = (\<lambda>m. \<exists>p. m = domainMatcher p \<and> matcher_Match m s)"
  proof
    fix m
    have "(\<exists>k \<in> {1..<length (breakDomain s) + 1}. rev (breakDomain p) = take k (rev (breakDomain s))) \<longleftrightarrow>
        matcher_Match (domainMatcher p) s" for p
      unfolding domain_suffix_parts by (rule suffix_take_rev) simp
    then show "(\<exists>k \<in> set ?ks. ?Q (take k (rev (breakDomain s))) m) = (\<exists>p. m = domainMatcher p \<and> matcher_Match m s)"
      unfolding set_rev set_upt by blast
  qed
  finally have d: "mset (domain_Match (mg_domainMatcher ?g) s) =
    mset (numbers_of (\<lambda>m. \<exists>p. m = domainMatcher p \<and> matcher_Match m s) ms)" .
  have "(\<lambda>m. matcher_Match m s) = (\<lambda>m. m = fullMatcher s \<or> (\<exists>p. m = domainMatcher p \<and> matcher_Match m s) \<or>
      (is_other m \<and> matcher_Match m s))"
  proof
    show "matcher_Match m s = (m = fullMatcher s \<or> (\<exists>p. m = domainMatcher p \<and> matcher_Match m s) \<or>
        (is_other m \<and> matcher_Match m s))" for m by (cases m) auto
  qed
  then have "mset (numbers_of (\<lambda>m. matcher_Match m s) ms) = mset (numbers_of (\<lambda>m. m = fullMatcher s) ms) +
      (mset (numbers_of (\<lambda>m. \<exists>p. m = domainMatcher p \<and> matcher_Match m s) ms) +
       mset (numbers_of (\<lambda>m. is_other m \<and> matcher_Match m s) ms))"
    by (simp only:) (subst mset_numbers_or; (subst mset_numbers_or)?; auto)
  with d rep show ?thesis by (simp add: group_Match_def)
qed

text \<open>
  C11. A matcher group, with its table of full names and its trie of domains, is equivalent to trying all
  its matchers: for every list of matchers that were added and every non-empty name, \<open>Match\<close> returns
  exactly the numbers of the matchers that match the name, each once.
\<close>

theorem group_Match_exact:
  assumes "s \<noteq> []"
  shows "mset (group_Match (group_of ms) s) = mset (numbers_of (\<lambda>m. matcher_Match m s) ms)"
  using assms by (rule group_Match_numbers)

theorem group_Match_exact_witness:
  "mset (group_Match (group_of [domainMatcher ''example.com'', fullMatcher ''a.example.com'', domainMatcher ''com'',
      substrMatcher ''xyz'']) ''a.example.com'') = {#1, 2, 3#}"
  by (subst group_Match_exact) (simp_all add: numbers_of_def suffix_def sublist_code upt_rec)

end
