(* ===== verification/StrAc.thy ===== *)
theory StrAc
  imports StrMatcher
begin

text \<open>
  The Aho-Corasick automaton for keyword patterns (\<open>common/strmatcher/ac_automaton_matcher.go\<close>).  It reads
  names backwards.  Nodes are numbers, every node has 53 edges, and \<open>Build\<close> fills in the fail edges breadth
  first.
\<close>

section \<open>The automaton\<close>

datatype match_type = Full | Substr | Domain | Regex

record edge =
  ed_edgeType :: bool
  ed_nextNode :: nat

record ac_automaton =
  ac_trie :: "edge list list"
  ac_fail :: "nat list"
  ac_exists :: "(match_type \<times> bool) list"
  ac_count :: nat

definition TrieEdge :: bool where "TrieEdge = True"
definition FailEdge :: bool where "FailEdge = False"

definition validCharCount :: nat where "validCharCount = 53"

definition newNode :: "edge list" where
  "newNode = replicate validCharCount \<lparr>ed_edgeType = FailEdge, ed_nextNode = 0\<rparr>"

text \<open>
  The table \<open>char2Index\<close> has 127 entries; the characters it does not list have index 0, like the letter a.
\<close>

definition special_chars :: string where
  "special_chars = ''!$&'' @ [CHR 39] @ ''()*+,;=:%-._~0123456789''"

fun position :: "'a \<Rightarrow> 'a list \<Rightarrow> nat option" where
  "position x [] = None"
| "position x (y # ys) = (if x = y then Some 0 else map_option Suc (position x ys))"

definition char2Index :: "char \<Rightarrow> nat res" where
  "char2Index c =
     (let n = of_char c :: nat in
      if n \<ge> 127 then Panic ''index out of range''
      else if 65 \<le> n \<and> n \<le> 90 then Ok (n - 65)
      else if 97 \<le> n \<and> n \<le> 122 then Ok (n - 97)
      else (case position c special_chars of None \<Rightarrow> Ok 0 | Some i \<Rightarrow> Ok (26 + i)))"

definition NewACAutomaton :: ac_automaton where
  "NewACAutomaton = \<lparr>ac_trie = [newNode], ac_fail = [0], ac_exists = [(Full, False)], ac_count = 0\<rparr>"

definition ac_edge :: "ac_automaton \<Rightarrow> nat \<Rightarrow> nat \<Rightarrow> edge" where
  "ac_edge ac node idx = ac_trie ac ! node ! idx"

definition set_edge :: "nat \<Rightarrow> nat \<Rightarrow> edge \<Rightarrow> ac_automaton \<Rightarrow> ac_automaton" where
  "set_edge node idx e ac = ac\<lparr>ac_trie := (ac_trie ac)[node := (ac_trie ac ! node)[idx := e]]\<rparr>"

text \<open>The node behind an edge, which is created if there is none.\<close>

definition step_or_new :: "nat \<Rightarrow> nat \<Rightarrow> ac_automaton \<Rightarrow> nat \<times> ac_automaton" where
  "step_or_new node idx ac =
     (let ac' =
        (if ed_nextNode (ac_edge ac node idx) = 0 then
           (let c = ac_count ac + 1;
                ac1 = ac\<lparr>ac_count := c\<rparr>;
                ac2 = (if length (ac_trie ac1) < c + 1
                       then ac1\<lparr>ac_trie := ac_trie ac1 @ [newNode], ac_fail := ac_fail ac1 @ [0],
                                ac_exists := ac_exists ac1 @ [(Full, False)]\<rparr>
                       else ac1) in
            set_edge node idx \<lparr>ed_edgeType = TrieEdge, ed_nextNode = c\<rparr> ac2)
         else ac) in
      (ed_nextNode (ac_edge ac' node idx), ac'))"

fun add_chars :: "string \<Rightarrow> nat \<Rightarrow> ac_automaton \<Rightarrow> (nat \<times> ac_automaton) res" where
  "add_chars [] node ac = Ok (node, ac)"
| "add_chars (c # cs) node ac =
     rbind (char2Index c) (\<lambda>idx. case step_or_new node idx ac of (node', ac') \<Rightarrow> add_chars cs node' ac')"

definition set_exists :: "nat \<Rightarrow> match_type \<Rightarrow> ac_automaton \<Rightarrow> ac_automaton" where
  "set_exists node t ac = ac\<lparr>ac_exists := (ac_exists ac)[node := (t, True)]\<rparr>"

definition ac_Add :: "string \<Rightarrow> match_type \<Rightarrow> ac_automaton \<Rightarrow> ac_automaton res" where
  "ac_Add domain t ac =
     rbind (add_chars (rev domain) 0 ac) (\<lambda>(node, ac1).
       if t = Domain then
         rbind (char2Index (CHR ''.'')) (\<lambda>idx.
           case step_or_new node idx (set_exists node Full ac1) of (node', ac2) \<Rightarrow> Ok (set_exists node' t ac2))
       else Ok (set_exists node t ac1))"

text \<open>One node of the breadth-first pass: the edges \<open>i\<close> of \<open>node\<close>, with the nodes to visit later.\<close>

fun build_edges :: "nat list \<Rightarrow> nat \<Rightarrow> nat list \<Rightarrow> ac_automaton \<Rightarrow> nat list \<times> ac_automaton" where
  "build_edges [] node queue ac = (queue, ac)"
| "build_edges (i # is) node queue ac =
     (let child = ed_nextNode (ac_edge ac node i);
          via = ed_nextNode (ac_edge ac (ac_fail ac ! node) i) in
      if child \<noteq> 0 then build_edges is node (queue @ [child]) (ac\<lparr>ac_fail := (ac_fail ac)[child := via]\<rparr>)
      else build_edges is node queue (set_edge node i \<lparr>ed_edgeType = FailEdge, ed_nextNode = via\<rparr> ac))"

text \<open>The pass itself; \<open>None\<close> if it has not ended after \<open>fuel\<close> nodes.\<close>

fun build_loop :: "nat \<Rightarrow> nat list \<Rightarrow> ac_automaton \<Rightarrow> ac_automaton option" where
  "build_loop fuel [] ac = Some ac"
| "build_loop 0 (node # queue) ac = None"
| "build_loop (Suc fuel) (node # queue) ac =
     (case build_edges [0..<validCharCount] node queue ac of (queue', ac') \<Rightarrow> build_loop fuel queue' ac')"

definition ac_Build :: "nat \<Rightarrow> ac_automaton \<Rightarrow> ac_automaton option" where
  "ac_Build fuel ac =
     build_loop fuel (filter (\<lambda>n. n \<noteq> 0) (map (\<lambda>i. ed_nextNode (ac_edge ac 0 i)) [0..<validCharCount])) ac"

fun match_chars :: "ac_automaton \<Rightarrow> string \<Rightarrow> nat \<Rightarrow> bool \<Rightarrow> bool" where
  "match_chars ac [] node fullMatch = (fullMatch \<and> snd (ac_exists ac ! node))"
| "match_chars ac (c # cs) node fullMatch =
     (case char2Index c of
        Ok idx \<Rightarrow>
          (let fullMatch = (fullMatch \<and> ed_edgeType (ac_edge ac node idx));
               node = ed_nextNode (ac_edge ac node idx) in
           case fst (ac_exists ac ! node) of
             Substr \<Rightarrow> True
           | Domain \<Rightarrow> if fullMatch then True else match_chars ac cs node fullMatch
           | _ \<Rightarrow> match_chars ac cs node fullMatch)
      | _ \<Rightarrow> False)"

definition ac_Match :: "ac_automaton \<Rightarrow> string \<Rightarrow> bool" where
  "ac_Match ac s = match_chars ac (rev s) 0 True"

text \<open>An automaton made from a list of patterns.\<close>

fun add_all :: "(string \<times> match_type) list \<Rightarrow> ac_automaton \<Rightarrow> ac_automaton res" where
  "add_all [] ac = Ok ac"
| "add_all ((p, t) # ps) ac = rbind (ac_Add p t ac) (add_all ps)"

section \<open>The patterns form a tree\<close>

lemma position_less: "position x ys = Some i \<Longrightarrow> i < length ys"
  by (induction ys arbitrary: i) (auto split: if_splits)

lemma char2Index_less: "char2Index c = Ok i \<Longrightarrow> i < validCharCount"
  by (auto simp: char2Index_def Let_def validCharCount_def special_chars_def split: if_splits option.splits
      dest!: position_less)

abbreviation child :: "ac_automaton \<Rightarrow> nat \<Rightarrow> nat \<Rightarrow> nat" where
  "child ac u i \<equiv> ed_nextNode (ac_edge ac u i)"

definition ac_tree :: "ac_automaton \<Rightarrow> bool" where
  "ac_tree ac \<longleftrightarrow> length (ac_trie ac) = ac_count ac + 1 \<and>
     (\<forall>u \<le> ac_count ac. length (ac_trie ac ! u) = validCharCount) \<and>
     (\<forall>u \<le> ac_count ac. \<forall>i < validCharCount. child ac u i \<le> ac_count ac) \<and>
     (\<forall>u \<le> ac_count ac. \<forall>v \<le> ac_count ac. \<forall>i < validCharCount. \<forall>j < validCharCount.
        child ac u i = child ac v j \<and> child ac u i \<noteq> 0 \<longrightarrow> u = v \<and> i = j)"

lemma ac_treeD:
  assumes "ac_tree ac"
  shows "length (ac_trie ac) = ac_count ac + 1"
    and "u \<le> ac_count ac \<Longrightarrow> length (ac_trie ac ! u) = validCharCount"
    and "u \<le> ac_count ac \<Longrightarrow> i < validCharCount \<Longrightarrow> child ac u i \<le> ac_count ac"
    and "u \<le> ac_count ac \<Longrightarrow> v \<le> ac_count ac \<Longrightarrow> i < validCharCount \<Longrightarrow> j < validCharCount \<Longrightarrow>
      child ac u i = child ac v j \<Longrightarrow> child ac u i \<noteq> 0 \<Longrightarrow> u = v \<and> i = j"
  using assms unfolding ac_tree_def by blast+

lemma ac_tree_new: "ac_tree NewACAutomaton"
  by (simp add: ac_tree_def NewACAutomaton_def newNode_def ac_edge_def)

text \<open>A new node hangs on the edge that was free.\<close>

lemma step_or_new_tree:
  assumes "ac_tree ac" and "node \<le> ac_count ac" and "idx < validCharCount" and "step_or_new node idx ac = (node', ac')"
  shows "ac_tree ac' \<and> node' \<le> ac_count ac' \<and> ac_count ac \<le> ac_count ac'"
proof (cases "child ac node idx = 0")
  case False
  then show ?thesis using assms ac_treeD(3) [OF assms(1)] by (auto simp: step_or_new_def Let_def)
next
  case True
  let ?c = "ac_count ac + 1"
  note T = ac_treeD [OF assms(1)]
  have cnt: "ac_count ac' = ?c" and node': "node' = child ac' node idx"
    using assms(4) True T(1) by (auto simp: step_or_new_def Let_def set_edge_def)
  have trie: "ac_trie ac' = (ac_trie ac @ [newNode])[node := (ac_trie ac ! node)[idx := \<lparr>ed_edgeType = TrieEdge, ed_nextNode = ?c\<rparr>]]"
    using assms(2,4) True T(1) by (auto simp: step_or_new_def Let_def set_edge_def nth_append)
  have ch: "child ac' u i = (if u = node \<and> i = idx then ?c else if u = ?c then 0 else child ac u i)"
    if "u \<le> ?c" "i < validCharCount" for u i
    using that assms(2,3) T(1,2) unfolding ac_edge_def trie
    by (auto simp: nth_list_update nth_append newNode_def le_Suc_eq)
  have len: "length (ac_trie ac') = ?c + 1" using trie T(1) by simp
  have rows: "length (ac_trie ac' ! u) = validCharCount" if "u \<le> ?c" for u
    using that assms(2) T(1,2) unfolding trie
    by (auto simp: nth_list_update nth_append newNode_def le_Suc_eq)
  have le: "child ac' u i \<le> ?c" if "u \<le> ?c" "i < validCharCount" for u i
    using that ch [OF that] T(3) [of u i] by (auto simp: le_Suc_eq)
  have inj: "u = v \<and> i = j"
    if "u \<le> ?c" "v \<le> ?c" "i < validCharCount" "j < validCharCount" "child ac' u i = child ac' v j" "child ac' u i \<noteq> 0" for u v i j
    using that ch [of u i] ch [of v j] T(3) [of u i] T(3) [of v j] T(4) [of u v i j]
    by (auto simp: le_Suc_eq split: if_splits)
  have "ac_tree ac'" unfolding ac_tree_def cnt using len rows le inj by blast
  then show ?thesis using cnt node' ch [of node idx] assms(2,3) by simp
qed

lemma add_chars_tree:
  "ac_tree ac \<Longrightarrow> node \<le> ac_count ac \<Longrightarrow> add_chars cs node ac = Ok (node', ac') \<Longrightarrow>
     ac_tree ac' \<and> node' \<le> ac_count ac'"
proof (induction cs arbitrary: node ac)
  case (Cons c cs)
  then obtain idx where idx: "char2Index c = Ok idx"
    "(case step_or_new node idx ac of (n, a) \<Rightarrow> add_chars cs n a) = Ok (node', ac')"
    by (auto simp: rbind_Ok_iff)
  moreover obtain n1 a1 where "step_or_new node idx ac = (n1, a1)" by fastforce
  ultimately have i: "char2Index c = Ok idx" "step_or_new node idx ac = (n1, a1)" "add_chars cs n1 a1 = Ok (node', ac')"
    by simp_all
  from step_or_new_tree [OF Cons.prems(1,2) char2Index_less [OF i(1)] i(2)] Cons.IH [OF _ _ i(3)] show ?case by blast
qed simp

lemma set_exists_tree [simp]: "ac_tree (set_exists n t ac) = ac_tree ac" "ac_count (set_exists n t ac) = ac_count ac"
  by (simp_all add: ac_tree_def set_exists_def ac_edge_def)

lemma ac_Add_tree:
  assumes "ac_tree ac" and "ac_Add p t ac = Ok ac'"
  shows "ac_tree ac'"
proof -
  obtain node a1 where a: "add_chars (rev p) 0 ac = Ok (node, a1)"
    using assms(2) by (auto simp: ac_Add_def rbind_Ok_iff)
  note t1 = add_chars_tree [OF assms(1) _ a]
  show ?thesis
  proof (cases "t = Domain")
    case True
    then obtain idx where "char2Index (CHR ''.'') = Ok idx"
      "(case step_or_new node idx (set_exists node Full a1) of (n, x) \<Rightarrow> Ok (set_exists n t x)) = Ok ac'"
      using assms(2) a by (auto simp: ac_Add_def rbind_Ok_iff)
    moreover obtain n2 a2 where "step_or_new node idx (set_exists node Full a1) = (n2, a2)" by fastforce
    ultimately have i: "char2Index (CHR ''.'') = Ok idx" "step_or_new node idx (set_exists node Full a1) = (n2, a2)"
      "ac' = set_exists n2 t a2"
      by simp_all
    from step_or_new_tree [OF _ _ char2Index_less [OF i(1)] i(2)] t1 i(3) show ?thesis by simp
  next
    case False
    then show ?thesis using assms(2) a t1 by (auto simp: ac_Add_def)
  qed
qed

lemma add_all_tree: "ac_tree ac \<Longrightarrow> add_all ps ac = Ok ac' \<Longrightarrow> ac_tree ac'"
proof (induction ps arbitrary: ac)
  case (Cons q ps)
  then show ?case by (cases q) (auto simp: rbind_Ok_iff dest: ac_Add_tree)
qed simp

section \<open>Building ends\<close>

lemma child_set_edge: "i \<noteq> j \<or> u \<noteq> v \<Longrightarrow> child (set_edge u i e ac) v j = child ac v j"
  by (cases "u < length (ac_trie ac)") (auto simp: set_edge_def ac_edge_def nth_list_update not_less list_update_beyond)

lemma build_edges_spec:
  "build_edges is node queue ac = (queue', ac') \<Longrightarrow> distinct is \<Longrightarrow>
     queue' = queue @ filter (\<lambda>n. n \<noteq> 0) (map (child ac node) is) \<and> (\<forall>u i. u \<noteq> node \<longrightarrow> child ac' u i = child ac u i)"
proof (induction "is" arbitrary: queue ac)
  case (Cons i "is")
  show ?case
  proof (cases "child ac node i = 0")
    case True
    let ?ac = "set_edge node i \<lparr>ed_edgeType = FailEdge, ed_nextNode = child ac (ac_fail ac ! node) i\<rparr> ac"
    have m: "map (child ?ac node) is = map (child ac node) is"
      using Cons.prems(2) by (intro map_cong refl child_set_edge) auto
    have o: "child ?ac u j = child ac u j" if "u \<noteq> node" for u j
      using that by (intro child_set_edge) simp
    have "build_edges is node queue ?ac = (queue', ac')" using Cons.prems(1) True by (simp add: Let_def)
    from Cons.IH [OF this, unfolded m] Cons.prems(2) True o show ?thesis by simp
  next
    case False
    let ?ac = "ac\<lparr>ac_fail := (ac_fail ac)[child ac node i := child ac (ac_fail ac ! node) i]\<rparr>"
    have "child ?ac u j = child ac u j" for u j by (simp add: ac_edge_def)
    moreover have "build_edges is node (queue @ [child ac node i]) ?ac = (queue', ac')"
      using Cons.prems(1) False by (simp add: Let_def)
    ultimately show ?thesis using Cons.IH [of "queue @ [child ac node i]" ?ac] Cons.prems(2) False by simp
  qed
qed simp

text \<open>
  The state of the pass: \<open>done\<close> are the nodes it has finished.  Every node that was reached is a child of
  the root or of a finished node, and the edges of the other nodes are as they were.
\<close>

definition pass_inv :: "ac_automaton \<Rightarrow> nat set \<Rightarrow> nat list \<Rightarrow> ac_automaton \<Rightarrow> bool" where
  "pass_inv ac0 done queue ac \<longleftrightarrow>
     distinct queue \<and> set queue \<subseteq> {1..ac_count ac0} \<and> done \<subseteq> {1..ac_count ac0} \<and> set queue \<inter> done = {} \<and>
     (\<forall>u i. u \<notin> done \<longrightarrow> child ac u i = child ac0 u i) \<and>
     (\<forall>x \<in> done \<union> set queue. \<exists>u \<in> insert 0 done. \<exists>i < validCharCount. child ac0 u i = x)"

lemma children_distinct:
  assumes "ac_tree ac" and "u \<le> ac_count ac"
  shows "distinct (filter (\<lambda>n. n \<noteq> 0) (map (child ac u) [0..<validCharCount]))"
  using ac_treeD(4) [OF assms(1,2,2)] by (auto simp: filter_map distinct_map inj_on_def)

lemma build_loop_ends:
  assumes "ac_tree ac0" and "pass_inv ac0 done queue ac" and "ac_count ac0 - card done \<le> fuel"
  shows "\<exists>ac'. build_loop fuel queue ac = Some ac'"
  using assms(2,3)
proof (induction fuel queue ac arbitrary: "done" rule: build_loop.induct)
  case (2 node queue ac)
  then have d: "done \<subseteq> {1..ac_count ac0}" "node \<in> {1..ac_count ac0}" "node \<notin> done" by (auto simp: pass_inv_def)
  then have "card (insert node done) \<le> card {1..ac_count ac0}" by (intro card_mono) auto
  moreover have "finite done" using d(1) by (rule finite_subset) simp
  ultimately have "card done < ac_count ac0" using d(3) by simp
  with "2.prems"(2) show ?case by simp
next
  case (3 fuel node queue ac)
  have I: "distinct (node # queue)" "set (node # queue) \<subseteq> {1..ac_count ac0}" "done \<subseteq> {1..ac_count ac0}"
    "set (node # queue) \<inter> done = {}" "\<And>u i. u \<notin> done \<Longrightarrow> child ac u i = child ac0 u i"
    using "3.prems"(1) unfolding pass_inv_def by blast+
  have reached: "\<exists>u \<in> insert 0 done. \<exists>i < validCharCount. child ac0 u i = x" if "x \<in> done \<union> set (node # queue)" for x
    using "3.prems"(1) that unfolding pass_inv_def by blast
  have node: "node \<in> {1..ac_count ac0}" "node \<notin> done" "node \<notin> set queue" using I(1,2,4) by auto
  have fin: "finite done" using I(3) by (rule finite_subset) simp
  obtain queue' ac' where b: "build_edges [0..<validCharCount] node queue ac = (queue', ac')" by fastforce
  let ?cs = "filter (\<lambda>n. n \<noteq> 0) (map (child ac0 node) [0..<validCharCount])"
  have "map (child ac node) [0..<validCharCount] = map (child ac0 node) [0..<validCharCount]" using I(5) node by simp
  with build_edges_spec [OF b] have q: "queue' = queue @ ?cs" "\<And>u i. u \<noteq> node \<Longrightarrow> child ac' u i = child ac u i" by simp_all
  have cs: "x \<le> ac_count ac0 \<and> x \<noteq> 0 \<and> x \<notin> done \<and> x \<notin> set (node # queue) \<and> (\<exists>i < validCharCount. child ac0 node i = x)"
    if "x \<in> set ?cs" for x
  proof -
    from that obtain i where i: "i < validCharCount" "x = child ac0 node i" "x \<noteq> 0" by auto
    have "x \<notin> done \<union> set (node # queue)"
    proof
      assume "x \<in> done \<union> set (node # queue)"
      then obtain u j where u: "u \<in> insert 0 done" "j < validCharCount" "child ac0 u j = x" using reached by blast
      then have "u \<le> ac_count ac0" using I(3) by auto
      from ac_treeD(4) [OF assms(1) this, of node j i] u i node show False by auto
    qed
    moreover have "x \<le> ac_count ac0" using ac_treeD(3) [OF assms(1), of node i] i node by simp
    ultimately show ?thesis using i by auto
  qed
  have inv: "pass_inv ac0 (insert node done) queue' ac'"
    unfolding pass_inv_def
  proof (intro conjI)
    show "distinct queue'"
    proof -
      have "distinct queue" using I(1) by simp
      moreover have "x \<notin> set queue" if "x \<in> set ?cs" for x using cs [OF that] by simp
      then have "set queue \<inter> set ?cs = {}" by blast
      ultimately show ?thesis unfolding q(1) distinct_append using children_distinct [OF assms(1), of node] node by simp
    qed
    show "set queue' \<subseteq> {1..ac_count ac0}"
    proof -
      have "x \<in> {1..ac_count ac0}" if "x \<in> set ?cs" for x using cs [OF that] by simp
      then have "set ?cs \<subseteq> {1..ac_count ac0}" by blast
      then show ?thesis unfolding q(1) using I(2) by simp
    qed
    show "insert node done \<subseteq> {1..ac_count ac0}" using I(3) node by auto
    show "set queue' \<inter> insert node done = {}"
    proof -
      have "x \<notin> insert node done" if "x \<in> set ?cs" for x using cs [OF that] by simp
      then have "set ?cs \<inter> insert node done = {}" by blast
      then show ?thesis unfolding q(1) using I(4) node by auto
    qed
    show "\<forall>u i. u \<notin> insert node done \<longrightarrow> child ac' u i = child ac0 u i" using I(5) q(2) by (metis insertCI)
    show "\<forall>x \<in> insert node done \<union> set queue'. \<exists>u \<in> insert 0 (insert node done). \<exists>i < validCharCount. child ac0 u i = x"
    proof
      fix x assume "x \<in> insert node done \<union> set queue'"
      then consider "x \<in> done \<union> set (node # queue)" | "x \<in> set ?cs" unfolding q(1) by auto
      then show "\<exists>u \<in> insert 0 (insert node done). \<exists>i < validCharCount. child ac0 u i = x"
        by cases (use reached cs in blast)+
    qed
  qed
  have "ac_count ac0 - card (insert node done) \<le> fuel" using "3.prems"(2) node fin by simp
  from "3.IH" [OF b [symmetric] inv this] b show ?case by simp
qed simp

lemma tree_Build_returns:
  assumes t: "ac_tree ac"
  shows "\<exists>ac'. ac_Build (ac_count ac) ac = Some ac'"
proof -
  let ?cs = "filter (\<lambda>n. n \<noteq> 0) (map (child ac 0) [0..<validCharCount])"
  have "x \<in> {1..ac_count ac}" if "x \<in> set ?cs" for x
    using that ac_treeD(3) [OF t, of 0] by auto
  then have "pass_inv ac {} ?cs ac"
    unfolding pass_inv_def using children_distinct [OF t, of 0] by auto
  from build_loop_ends [OF t this, of "ac_count ac"] show ?thesis by (simp add: ac_Build_def)
qed

text \<open>
  C40. Building an automaton ends: for any patterns without characters beyond the table, the
  breadth-first pass visits every node once, so as many steps as there are nodes are enough.
\<close>

theorem ac_Build_returns:
  assumes "add_all ps NewACAutomaton = Ok ac"
  shows "\<exists>ac'. ac_Build (ac_count ac) ac = Some ac'"
  by (rule tree_Build_returns) (rule add_all_tree [OF ac_tree_new assms])

theorem ac_Build_returns_witness:
  "\<exists>ac ac'. add_all [(''ab'', Substr)] NewACAutomaton = Ok ac \<and> ac_Build (ac_count ac) ac = Some ac'"
proof -
  have "\<exists>ac. add_all [(''ab'', Substr)] NewACAutomaton = Ok ac"
    by (simp add: ac_Add_def char2Index_def split: prod.splits)
  then obtain ac where "add_all [(''ab'', Substr)] NewACAutomaton = Ok ac" by blast
  with ac_Build_returns [OF this] show ?thesis by blast
qed

definition ac_of :: "(string \<times> match_type) list \<Rightarrow> ac_automaton option" where
  "ac_of ps = (case add_all ps NewACAutomaton of Ok ac \<Rightarrow> ac_Build (ac_count ac) ac | _ \<Rightarrow> None)"

definition keyword_found :: "(string \<times> match_type) list \<Rightarrow> string \<Rightarrow> bool" where
  "keyword_found ps s = (case ac_of ps of Some ac \<Rightarrow> ac_Match ac s | None \<Rightarrow> True)"

text \<open>
  The automaton misses keywords: a node does not inherit the matches of the node its fail edge leads
  to, so when a name follows a longer keyword for a while, a shorter keyword inside it goes unnoticed.  With
  the keywords \<open>oo\<close> and \<open>goom\<close> the name \<open>xoom\<close> is not matched, although it contains \<open>oo\<close>, and although
  the automaton for \<open>oo\<close> alone finds it.
\<close>

theorem ac_misses_keyword:
  "\<not> keyword_found [(''oo'', Substr), (''goom'', Substr)] ''xoom'' \<and>
   keyword_found [(''oo'', Substr)] ''xoom'' \<and> matcher_Match (substrMatcher ''oo'') ''xoom''"
proof (intro conjI)
  show "\<not> keyword_found [(''oo'', Substr), (''goom'', Substr)] ''xoom''" by code_simp
  show "keyword_found [(''oo'', Substr)] ''xoom''" by code_simp
qed (simp add: sublist_code)

end
