(* ===== verification/StrMph.thy ===== *)
theory StrMph
  imports StrAc
begin

text \<open>
  The matcher group with a perfect hash table (\<open>common/strmatcher/mph_matcher.go\<close>): full and domain patterns
  are looked up in a two-level table under a rolling hash, keywords go to the Aho-Corasick automaton, and
  regular expressions are tried one by one.  Hashes are 64-bit words as on a 64-bit target.  The order in
  which Go iterates over the pattern map, and the order its sort gives to buckets of the same size, are
  arguments.
\<close>

section \<open>Hashes\<close>

definition PrimeRK :: u32 where "PrimeRK = 16777619"

definition char_word :: "char \<Rightarrow> 'l::len word" where
  "char_word c = word_of_nat (of_char c)"

text \<open>The rolling hash reads the string from its end.\<close>

definition RollingHash :: "string \<Rightarrow> u32" where
  "RollingHash s = fold (\<lambda>c h. h * PrimeRK + char_word c) (rev s) 0"

definition m1 :: u64 where "m1 = 16877499708836156737"
definition m2 :: u64 where "m2 = 2820277070424839065"
definition m3 :: u64 where "m3 = 9497967016996688599"
definition m4 :: u64 where "m4 = 15839092249703872147"

definition rotl31 :: "u64 \<Rightarrow> u64" where
  "rotl31 x = (push_bit 31 x) OR (drop_bit (64 - 31) x)"

text \<open>Little-endian reads of 4 and 8 bytes at an offset.\<close>

definition read_le :: "nat \<Rightarrow> string \<Rightarrow> nat \<Rightarrow> u64" where
  "read_le n bs off = foldr (\<lambda>c w. char_word c OR push_bit 8 w) (take n (drop off bs)) 0"

definition readUnaligned32 :: "string \<Rightarrow> nat \<Rightarrow> u64" where
  "readUnaligned32 = read_le 4"

definition readUnaligned64 :: "string \<Rightarrow> nat \<Rightarrow> u64" where
  "readUnaligned64 = read_le 8"

definition mix :: "u64 \<Rightarrow> u64 \<Rightarrow> u64 \<Rightarrow> u64 \<Rightarrow> u64" where
  "mix a b v x = rotl31 ((v XOR x) * a) * b"

text \<open>The cases of \<open>memhashFallback\<close> for at most 32 bytes.\<close>

definition hash_tail :: "string \<Rightarrow> u64 \<Rightarrow> u64" where
  "hash_tail p h =
     (let s = length p in
      if s = 0 then h
      else if s < 4 then
        rotl31 ((h XOR char_word (p ! 0) XOR push_bit 8 (char_word (p ! (s div 2))) XOR
                 push_bit 16 (char_word (p ! (s - 1)))) * m1) * m2
      else if s \<le> 8 then rotl31 ((h XOR readUnaligned32 p 0 XOR push_bit 32 (readUnaligned32 p (s - 4))) * m1) * m2
      else if s \<le> 16 then mix m1 m2 (mix m1 m2 h (readUnaligned64 p 0)) (readUnaligned64 p (s - 8))
      else mix m1 m2 (mix m1 m2 (mix m1 m2 (mix m1 m2 h (readUnaligned64 p 0)) (readUnaligned64 p 8))
             (readUnaligned64 p (s - 16))) (readUnaligned64 p (s - 8)))"

function hash_blocks :: "string \<Rightarrow> u64 \<Rightarrow> u64 \<Rightarrow> u64 \<Rightarrow> u64 \<Rightarrow> string \<times> u64" where
  "hash_blocks p v1 v2 v3 v4 =
     (if length p \<ge> 32 then
        hash_blocks (drop 32 p) (mix m1 m2 v1 (readUnaligned64 p 0)) (mix m2 m3 v2 (readUnaligned64 p 8))
          (mix m3 m4 v3 (readUnaligned64 p 16)) (mix m4 m1 v4 (readUnaligned64 p 24))
      else (p, v1 XOR v2 XOR v3 XOR v4))"
  by pat_completeness auto
termination
  by (relation "measure (\<lambda>(p, _). length p)") auto

declare hash_blocks.simps [simp del]

definition memhashFallback :: "string \<Rightarrow> u64 \<Rightarrow> u64" where
  "memhashFallback p seed =
     (let h = seed + word_of_nat (length p);
          h = (if length p \<le> 32 then hash_tail p h
               else (case hash_blocks p h seed seed seed of (q, h') \<Rightarrow> hash_tail q h'));
          h = h XOR drop_bit 29 h;
          h = h * m3 in
      h XOR drop_bit 32 h)"

definition strhashFallback :: "string \<Rightarrow> u32 \<Rightarrow> u64" where
  "strhashFallback s seed = memhashFallback s (ucast seed)"

section \<open>The group\<close>

fun bit_length :: "nat \<Rightarrow> nat" where
  "bit_length n = (if n = 0 then 0 else Suc (bit_length (n div 2)))"

declare bit_length.simps [simp del]

definition nextPow2 :: "nat \<Rightarrow> nat" where
  "nextPow2 v = (if v \<le> 1 then 1 else 2 ^ bit_length v)"

record mph_group =
  mp_ac :: "ac_automaton option"
  mp_otherMatchers :: "(matcher \<times> u32) list"
  mp_rules :: "string list"
  mp_level0 :: "u32 list"
  mp_level0Mask :: nat
  mp_level1 :: "u32 list"
  mp_level1Mask :: nat
  mp_count :: u32
  mp_ruleMap :: "(string \<times> u32) list"

definition NewMphMatcherGroup :: mph_group where
  "NewMphMatcherGroup =
     \<lparr>mp_ac = None, mp_otherMatchers = [], mp_rules = [], mp_level0 = [], mp_level0Mask = 0, mp_level1 = [],
      mp_level1Mask = 0, mp_count = 1, mp_ruleMap = []\<rparr>"

definition AddFullOrDomainPattern :: "string \<Rightarrow> match_type \<Rightarrow> mph_group \<Rightarrow> mph_group" where
  "AddFullOrDomainPattern pattern t g =
     (let h = RollingHash pattern;
          m = mp_ruleMap g;
          m = (if t = Domain then AList.update (CHR ''.'' # pattern) (h * PrimeRK + char_word (CHR ''.'')) m else m);
          m = (if t = Domain \<or> t = Full then AList.update pattern h m else m) in
      g\<lparr>mp_ruleMap := m\<rparr>)"

text \<open>\<open>strings.ToLower\<close> on ASCII, which names are in.\<close>

definition lower_char :: "char \<Rightarrow> char" where
  "lower_char c =
     (if 65 \<le> (of_char c :: nat) \<and> (of_char c :: nat) \<le> 90 then char_of ((of_char c :: nat) + 32) else c)"

definition ToLower :: "string \<Rightarrow> string" where
  "ToLower s = map lower_char s"

text \<open>\<open>compile\<close> is the regular expression library: the predicate of a pattern, or an error.\<close>

definition AddPattern :: "(string \<Rightarrow> (string \<Rightarrow> bool) option) \<Rightarrow> string \<Rightarrow> match_type \<Rightarrow> mph_group \<Rightarrow> (mph_group \<times> u32) res" where
  "AddPattern compile pattern t g =
     rmap (\<lambda>g'. (g', mp_count g'))
       (case t of
          Substr \<Rightarrow>
            rmap (\<lambda>ac. g\<lparr>mp_ac := Some ac\<rparr>)
              (ac_Add pattern t (case mp_ac g of None \<Rightarrow> NewACAutomaton | Some ac \<Rightarrow> ac))
        | Regex \<Rightarrow>
            (case compile pattern of
               None \<Rightarrow> Err (ErrMsg ''error parsing regexp'')
             | Some r \<Rightarrow> Ok (g\<lparr>mp_otherMatchers := mp_otherMatchers g @ [(regexMatcher r, mp_count g)]\<rparr>))
        | _ \<Rightarrow> Ok (AddFullOrDomainPattern (ToLower pattern) t g))"

section \<open>Building the table\<close>

text \<open>A hash cut down to a position: \<open>int(h) & msk\<close>.\<close>

definition masked :: "u64 \<Rightarrow> nat \<Rightarrow> nat" where
  "masked h msk = unat (h AND word_of_nat msk)"

text \<open>The buckets of the first level: for every slot the numbers of the rules that hash to it.\<close>

definition sparse_buckets :: "nat \<Rightarrow> (string \<times> u32) list \<Rightarrow> nat list list" where
  "sparse_buckets msk entries =
     map (\<lambda>n. filter (\<lambda>i. masked (ucast (snd (entries ! i))) msk = n) [0..<length entries]) [0..<msk + 1]"

text \<open>
  Placing the rules of one bucket with a given seed: \<open>slot i\<close> is where rule \<open>i\<close> goes.  If a slot is taken,
  the slots occupied so far are freed again.
\<close>

fun place :: "(nat \<Rightarrow> nat) \<Rightarrow> nat list \<Rightarrow> bool list \<Rightarrow> u32 list \<Rightarrow> nat list \<Rightarrow> bool list \<times> u32 list \<times> bool" where
  "place slot [] occ level1 tmpOcc = (occ, level1, True)"
| "place slot (i # is) occ level1 tmpOcc =
     (let n = slot i in
      if occ ! n then (fold (\<lambda>n occ. occ[n := False]) tmpOcc occ, level1, False)
      else place slot is (occ[n := True]) (level1[n := word_of_nat i]) (tmpOcc @ [n]))"

text \<open>The search for a seed goes on until one is found; \<open>None\<close> is the search that does not end.\<close>

partial_function (option) find_seed ::
  "(u32 \<Rightarrow> nat \<Rightarrow> nat) \<Rightarrow> nat list \<Rightarrow> u32 \<Rightarrow> bool list \<Rightarrow> u32 list \<Rightarrow> (u32 \<times> bool list \<times> u32 list) option" where
  "find_seed slot vals seed occ level1 =
     (case place (slot seed) vals occ level1 [] of (occ', level1', found) \<Rightarrow>
        if found then Some (seed, occ', level1') else find_seed slot vals (seed + 1) occ' level1')"

declare find_seed.simps [code]

fun fill_buckets ::
  "(u32 \<Rightarrow> nat \<Rightarrow> nat) \<Rightarrow> (nat \<times> nat list) list \<Rightarrow> u32 list \<Rightarrow> bool list \<Rightarrow> u32 list \<Rightarrow> (u32 list \<times> u32 list) option" where
  "fill_buckets slot [] level0 occ level1 = Some (level0, level1)"
| "fill_buckets slot ((n, vals) # bs) level0 occ level1 =
     (case find_seed slot vals 0 occ level1 of
        None \<Rightarrow> None
      | Some (seed, occ', level1') \<Rightarrow> fill_buckets slot bs (level0[n := seed]) occ' level1')"

definition rule_slot :: "string list \<Rightarrow> nat \<Rightarrow> u32 \<Rightarrow> nat \<Rightarrow> nat" where
  "rule_slot rules msk seed i = masked (strhashFallback (rules ! i) seed) msk"

text \<open>
  \<open>Build\<close>: \<open>iterate\<close> is the iteration order of the map, \<open>by_size\<close> the sort by falling size; the
  automaton is built with as much fuel as it has nodes, which is enough.  \<open>None\<close> is a search for a seed that does not end.
\<close>

definition mph_Build ::
  "((string \<times> u32) list \<Rightarrow> (string \<times> u32) list) \<Rightarrow> ((nat \<times> nat list) list \<Rightarrow> (nat \<times> nat list) list) \<Rightarrow>
     mph_group \<Rightarrow> mph_group option" where
  "mph_Build iterate by_size g =
     (let m = (if mp_ruleMap g = [] then [(''empty___'', RollingHash ''empty___'')] else mp_ruleMap g);
          entries = iterate m;
          keyLen = length m;
          size0 = nextPow2 (keyLen div 4);
          size1 = nextPow2 keyLen;
          rules = mp_rules g @ map fst entries;
          buckets = by_size (filter (\<lambda>(n, vals). vals \<noteq> [])
                     (zip [0..<size0] (sparse_buckets (size0 - 1) entries))) in
      case (case mp_ac g of None \<Rightarrow> Some None | Some ac \<Rightarrow> map_option Some (ac_Build (ac_count ac) ac)) of
        None \<Rightarrow> None
      | Some ac' \<Rightarrow>
          map_option (\<lambda>(level0, level1).
              g\<lparr>mp_ac := ac', mp_rules := rules, mp_level0 := level0, mp_level0Mask := size0 - 1,
                mp_level1 := level1, mp_level1Mask := size1 - 1, mp_ruleMap := []\<rparr>)
            (fill_buckets (rule_slot rules (size1 - 1)) buckets (replicate size0 0)
               (replicate size1 False) (replicate size1 0)))"

definition mph_Lookup :: "mph_group \<Rightarrow> u32 \<Rightarrow> string \<Rightarrow> bool" where
  "mph_Lookup g h s =
     (let seed = mp_level0 g ! masked (ucast h) (mp_level0Mask g);
          i1 = masked (strhashFallback s seed) (mp_level1Mask g) in
      s = mp_rules g ! unat (mp_level1 g ! i1))"

text \<open>The loop over the name from its end; the name's last \<open>n\<close> characters are hashed already.\<close>

fun match_dots :: "mph_group \<Rightarrow> string \<Rightarrow> nat \<Rightarrow> u32 \<Rightarrow> bool \<times> u32" where
  "match_dots g s 0 hash = (False, hash)"
| "match_dots g s (Suc i) hash =
     (let hash = hash * PrimeRK + char_word (s ! i) in
      if s ! i = CHR ''.'' \<and> mph_Lookup g hash (drop i s) then (True, hash) else match_dots g s i hash)"

definition mph_Match :: "mph_group \<Rightarrow> string \<Rightarrow> u32 list" where
  "mph_Match g s =
     (case match_dots g s (length s) 0 of (found, hash) \<Rightarrow>
        if found then [1]
        else if mph_Lookup g hash s then [1]
        else if (case mp_ac g of None \<Rightarrow> False | Some ac \<Rightarrow> ac_Match ac s) then [1]
        else (case filter (\<lambda>(m, _). matcher_Match m s) (mp_otherMatchers g) of [] \<Rightarrow> [] | (_, n) # _ \<Rightarrow> [n]))"

section \<open>The table is a perfect hash\<close>

lemma nextPow2_power: "\<exists>k. nextPow2 v = 2 ^ k"
  by (auto simp: nextPow2_def intro: exI [of _ 0])

lemma masked_bound: "masked x (nextPow2 v - 1) < nextPow2 v"
proof -
  have pos: "0 < nextPow2 v" using nextPow2_power [of v] by auto
  have "x AND word_of_nat (nextPow2 v - 1) \<le> word_of_nat (nextPow2 v - 1)" by (rule word_and_le1)
  then have "masked x (nextPow2 v - 1) \<le> unat (word_of_nat (nextPow2 v - 1) :: u64)"
    by (simp add: masked_def word_le_nat_alt)
  also have "\<dots> \<le> nextPow2 v - 1" by (simp only: unat_of_nat) (rule mod_less_eq_dividend)
  finally show ?thesis using pos by linarith
qed

lemma place_fails:
  "place slot is occ level1 tmp = (occ', level1', False) \<Longrightarrow> length level1 = length occ \<Longrightarrow>
     length occ' = length occ \<and> length level1' = length occ \<and>
     (\<forall>k < length occ. k \<notin> set tmp \<longrightarrow> occ' ! k = occ ! k) \<and> (\<forall>k \<in> set tmp. k < length occ \<longrightarrow> \<not> occ' ! k) \<and>
     (\<forall>k < length occ. occ ! k \<longrightarrow> level1' ! k = level1 ! k) \<and> set level1' \<subseteq> set level1 \<union> word_of_nat ` set is"
proof (induction "is" arbitrary: occ level1 tmp)
  case (Cons i "is")
  let ?n = "slot i"
  have len: "length (fold (\<lambda>n occ. occ[n := False]) ns ys) = length ys" for ns and ys :: "bool list"
    by (induction ns arbitrary: ys) simp_all
  have unset: "fold (\<lambda>n occ. occ[n := False]) ns ys ! k = (k \<notin> set ns \<and> ys ! k)"
    if "k < length ys" for ns k and ys :: "bool list"
    using that
  proof (induction ns arbitrary: ys)
    case (Cons a ns)
    then show ?case by (cases "k = a") auto
  qed simp
  show ?case
  proof (cases "occ ! ?n")
    case True
    then show ?thesis using Cons.prems len [of tmp occ] unset [of _ occ tmp] by (auto simp: Let_def)
  next
    case False
    let ?occ = "occ[?n := True]" and ?l1 = "level1[?n := word_of_nat i]"
    have "place slot is ?occ ?l1 (tmp @ [?n]) = (occ', level1', False)" using Cons.prems False by (simp add: Let_def)
    note IH = Cons.IH [OF this]
    have keep: "occ' ! k = occ ! k" if "k < length occ" "k \<notin> set tmp" for k
      using IH that False Cons.prems(2) by (cases "k = ?n") auto
    have l1: "level1' ! k = level1 ! k" if "k < length occ" "occ ! k" for k
      using IH that False Cons.prems(2) by (cases "k = ?n") auto
    have "set ?l1 \<subseteq> insert (word_of_nat i) (set level1)" by (rule set_update_subset_insert)
    then show ?thesis using IH keep l1 Cons.prems(2) by auto
  qed
qed simp

lemma place_succeeds:
  "place slot is occ level1 tmp = (occ', level1', True) \<Longrightarrow> length level1 = length occ \<Longrightarrow>
     \<forall>i \<in> set is. slot i < length occ \<Longrightarrow>
     length occ' = length occ \<and> length level1' = length occ \<and> (\<forall>k < length occ. occ ! k \<longrightarrow> occ' ! k) \<and>
     (\<forall>i \<in> set is. occ' ! slot i \<and> level1' ! slot i = word_of_nat i) \<and>
     (\<forall>k < length occ. occ ! k \<longrightarrow> level1' ! k = level1 ! k) \<and> set level1' \<subseteq> set level1 \<union> word_of_nat ` set is \<and>
     (\<forall>k < length occ. occ' ! k \<longrightarrow> occ ! k \<or> k \<in> slot ` set is)"
proof (induction "is" arbitrary: occ level1 tmp)
  case (Cons i "is")
  let ?n = "slot i"
  have False: "\<not> occ ! ?n" using Cons.prems(1) by (auto simp: Let_def split: if_splits)
  let ?occ = "occ[?n := True]" and ?l1 = "level1[?n := word_of_nat i]"
  have "place slot is ?occ ?l1 (tmp @ [?n]) = (occ', level1', True)" using Cons.prems(1) False by (simp add: Let_def)
  note IH = Cons.IH [OF this]
  have n: "?n < length occ" using Cons.prems(3) by simp
  have i: "occ' ! ?n \<and> level1' ! ?n = word_of_nat i" using IH n Cons.prems by simp
  have l1: "(occ ! k \<longrightarrow> occ' ! k) \<and> (occ ! k \<longrightarrow> level1' ! k = level1 ! k)" if "k < length occ" for k
    using IH that False Cons.prems by (cases "k = ?n") auto
  have new: "occ ! k \<or> k \<in> slot ` set (i # is)" if "k < length occ" "occ' ! k" for k
    using IH that Cons.prems by (cases "k = ?n") auto
  have "set ?l1 \<subseteq> insert (word_of_nat i) (set level1)" by (rule set_update_subset_insert)
  then show ?case using IH i l1 new Cons.prems by auto
qed simp

text \<open>A seed is good for a bucket if it sends its rules to different slots that are free.\<close>

lemma place_found:
  "place slot is occ level1 tmp = (occ', level1', found) \<Longrightarrow> \<forall>i \<in> set is. slot i < length occ \<Longrightarrow>
     found \<longleftrightarrow> distinct (map slot is) \<and> (\<forall>i \<in> set is. \<not> occ ! slot i)"
proof (induction "is" arbitrary: occ level1 tmp)
  case (Cons i "is")
  show ?case
  proof (cases "occ ! slot i")
    case False
    have "occ[slot i := True] ! slot j \<longleftrightarrow> slot j = slot i \<or> occ ! slot j" if "j \<in> set is" for j
      using that Cons.prems(2) by (auto simp: nth_list_update)
    moreover have "place slot is (occ[slot i := True]) (level1[slot i := word_of_nat i]) (tmp @ [slot i]) = (occ', level1', found)"
      using Cons.prems(1) False by (simp add: Let_def)
    note IH = Cons.IH [OF this]
    ultimately show ?thesis using IH Cons.prems(2) False by (auto simp: image_iff)
  qed (use Cons.prems in \<open>auto simp: Let_def\<close>)
qed simp

lemma failed_place_keeps:
  assumes "place slot is occ level1 [] = (occ', level1', False)" and "length level1 = length occ"
  shows "occ' = occ" and "length level1' = length occ"
  using place_fails [OF assms] by (auto intro: nth_equalityI)

lemmas find_seed_search = find_seed.raw_induct [rotated, consumes 1, case_names step]

lemma find_seed_spec:
  "find_seed slot vals seed occ level1 = Some (seed', occ', level1') \<Longrightarrow> length level1 = length occ \<Longrightarrow>
     (\<And>sd i. i \<in> set vals \<Longrightarrow> slot sd i < length occ) \<Longrightarrow>
     length occ' = length occ \<and> length level1' = length occ \<and> (\<forall>k < length occ. occ ! k \<longrightarrow> occ' ! k) \<and>
     (\<forall>i \<in> set vals. occ' ! slot seed' i \<and> level1' ! slot seed' i = word_of_nat i) \<and>
     (\<forall>k < length occ. occ ! k \<longrightarrow> level1' ! k = level1 ! k) \<and> set level1' \<subseteq> set level1 \<union> word_of_nat ` set vals \<and>
     (\<forall>k < length occ. occ' ! k \<longrightarrow> occ ! k \<or> k \<in> slot seed' ` set vals)"
proof (induction slot vals seed occ level1 "(seed', occ', level1')" rule: find_seed_search)
  case (step search slot vals seed occ level1)
  obtain o1 l1 found where p: "place (slot seed) vals occ level1 [] = (o1, l1, found)" using prod_cases3 by blast
  show ?case
  proof (cases found)
    case True
    with place_succeeds [of "slot seed" vals occ level1 "[]" o1 l1] p step(2-) show ?thesis by simp
  next
    case False
    note F = place_fails [of "slot seed" vals occ level1 "[]" o1 l1]
    have same: "o1 = occ" using failed_place_keeps(1) [of "slot seed" vals occ level1 o1 l1] p False step(3) by simp
    have "search slot vals (seed + 1) occ l1 = Some (seed', occ', level1')"
      using step(2) p False same by simp
    note IH = step(1) [OF this]
    then show ?thesis using F p False step(3,4) by (auto simp: subset_iff)
  qed
qed

lemma find_seed_returns:
  assumes "length level1 = length occ" and "\<And>sd i. i \<in> set vals \<Longrightarrow> slot sd i < length occ"
    and "distinct (map (slot good) vals)" and "\<forall>i \<in> set vals. \<not> occ ! slot good i"
  shows "find_seed slot vals seed occ level1 \<noteq> None"
  using assms(1)
proof (induction "unat (good - seed)" arbitrary: seed level1 rule: less_induct)
  case less
  obtain o1 l1 found where p: "place (slot seed) vals occ level1 [] = (o1, l1, found)" using prod_cases3 by blast
  show ?case
  proof (cases found)
    case True
    then show ?thesis using p by (simp add: find_seed.simps [of slot vals seed])
  next
    case False
    then have "good \<noteq> seed" using place_found [OF p] assms(2-4) by auto
    then have "good - seed \<noteq> 0" by simp
    then have "unat (good - (seed + 1)) < unat (good - seed)" using unat_minus_one [of "good - seed"] unat_gt_0 [of "good - seed"] by (simp add: algebra_simps)
    from less.hyps [OF this, of l1] failed_place_keeps [OF p [unfolded False [folded eq_False]] less.prems]
    show ?thesis using p False by (simp add: find_seed.simps [of slot vals seed])
  qed
qed

text \<open>The search ends exactly if there is a good seed.\<close>

lemma find_seed_ends_iff:
  assumes "length level1 = length occ" and "\<And>sd i. i \<in> set vals \<Longrightarrow> slot sd i < length occ"
  shows "find_seed slot vals seed occ level1 \<noteq> None \<longleftrightarrow> (\<exists>sd. distinct (map (slot sd) vals) \<and> (\<forall>i \<in> set vals. \<not> occ ! slot sd i))"
proof
  assume "find_seed slot vals seed occ level1 \<noteq> None"
  then obtain seed' occ' level1' where "find_seed slot vals seed occ level1 = Some (seed', occ', level1')" by auto
  then show "\<exists>sd. distinct (map (slot sd) vals) \<and> (\<forall>i \<in> set vals. \<not> occ ! slot sd i)" using assms
  proof (induction slot vals seed occ level1 "(seed', occ', level1')" rule: find_seed_search)
    case (step search slot vals seed occ level1)
    obtain o1 l1 found where p: "place (slot seed) vals occ level1 [] = (o1, l1, found)" using prod_cases3 by blast
    show ?case
    proof (cases found)
      case True
      then show ?thesis using place_found [OF p] step(4) by auto
    next
      case False
      then show ?thesis using step p failed_place_keeps [of "slot seed" vals occ level1 o1 l1] by auto
    qed
  qed
next
  assume "\<exists>sd. distinct (map (slot sd) vals) \<and> (\<forall>i \<in> set vals. \<not> occ ! slot sd i)"
  then obtain sd where "distinct (map (slot sd) vals)" "\<forall>i \<in> set vals. \<not> occ ! slot sd i" by blast
  then show "find_seed slot vals seed occ level1 \<noteq> None" using find_seed_returns [OF assms(1), of vals slot sd] assms(2) by simp
qed

lemma fill_buckets_spec:
  "fill_buckets slot bs level0 occ level1 = Some (level0', level1') \<Longrightarrow> length level1 = length occ \<Longrightarrow>
     distinct (map fst bs) \<Longrightarrow> list_all (\<lambda>(n, vals). n < length level0) bs \<Longrightarrow> (\<And>sd i. slot sd i < length occ) \<Longrightarrow>
     length level0' = length level0 \<and> length level1' = length occ \<and>
     (\<forall>n vals i. (n, vals) \<in> set bs \<longrightarrow> i \<in> set vals \<longrightarrow> level1' ! slot (level0' ! n) i = word_of_nat i) \<and>
     (\<forall>n. n \<notin> fst ` set bs \<longrightarrow> level0' ! n = level0 ! n) \<and> (\<forall>k < length occ. occ ! k \<longrightarrow> level1' ! k = level1 ! k) \<and>
     set level1' \<subseteq> set level1 \<union> word_of_nat ` (\<Union>(n, vals) \<in> set bs. set vals)"
proof (induction bs arbitrary: level0 occ level1)
  case (Cons b bs)
  obtain n vals where b: "b = (n, vals)" by fastforce
  obtain seed o1 l1 where s: "find_seed slot vals 0 occ level1 = Some (seed, o1, l1)"
    "fill_buckets slot bs (level0[n := seed]) o1 l1 = Some (level0', level1')"
    using Cons.prems(1) b by (auto split: option.splits)
  note F = find_seed_spec [OF s(1) Cons.prems(2) Cons.prems(5)]
  have IH: "length level0' = length level0" "length level1' = length occ"
    "\<And>m vs i. (m, vs) \<in> set bs \<Longrightarrow> i \<in> set vs \<Longrightarrow> level1' ! slot (level0' ! m) i = word_of_nat i"
    "\<And>m. m \<notin> fst ` set bs \<Longrightarrow> level0' ! m = level0[n := seed] ! m"
    "\<And>k. k < length occ \<Longrightarrow> o1 ! k \<Longrightarrow> level1' ! k = l1 ! k"
    "set level1' \<subseteq> set l1 \<union> word_of_nat ` (\<Union>(n, vals) \<in> set bs. set vals)"
    using Cons.IH [OF s(2)] Cons.prems(3-5) F b by (auto simp: list_all_iff)
  have n: "n \<notin> fst ` set bs" "n < length level0" using Cons.prems(3,4) b by auto
  have "level1' ! slot (level0' ! n) i = word_of_nat i" if "i \<in> set vals" for i
    using F IH(4) [OF n(1)] IH(5) [of "slot seed i"] n(2) that Cons.prems(5) by simp
  then have all: "\<forall>m vs i. (m, vs) \<in> set (b # bs) \<longrightarrow> i \<in> set vs \<longrightarrow> level1' ! slot (level0' ! m) i = word_of_nat i"
    using IH(3) b by auto
  have lev0: "\<forall>m. m \<notin> fst ` set (b # bs) \<longrightarrow> level0' ! m = level0 ! m" using IH(4) b by auto
  have lev1: "\<forall>k < length occ. occ ! k \<longrightarrow> level1' ! k = level1 ! k" using F IH(5) by simp
  have "set l1 \<subseteq> set level1 \<union> word_of_nat ` set vals" using F by blast
  then have "set level1' \<subseteq> set level1 \<union> word_of_nat ` (\<Union>(n, vals) \<in> set (b # bs). set vals)"
    using IH(6) b by (auto simp: subset_iff)
  with IH(1,2) all lev0 lev1 show ?case by blast
qed simp

lemma occupied_bound:
  assumes "length occ' = length occ" and "\<forall>k < length occ. occ' ! k \<longrightarrow> occ ! k \<or> k \<in> f ` set vals"
  shows "card {k. k < length occ' \<and> occ' ! k} \<le> card {k. k < length occ \<and> occ ! k} + length vals"
proof -
  have "{k. k < length occ' \<and> occ' ! k} \<subseteq> {k. k < length occ \<and> occ ! k} \<union> f ` set vals" using assms by auto
  then have "card {k. k < length occ' \<and> occ' ! k} \<le> card ({k. k < length occ \<and> occ ! k} \<union> f ` set vals)" by (rule card_mono [rotated]) simp
  also have "\<dots> \<le> card {k. k < length occ \<and> occ ! k} + card (f ` set vals)" by (rule card_Un_le)
  also have "card (f ` set vals) \<le> length vals" using card_image_le [of "set vals" f] card_length [of vals] by simp
  finally show ?thesis by simp
qed

text \<open>All buckets find a seed if every one of them has a good seed for any slots that the others can have taken.\<close>

lemma fill_buckets_returns:
  assumes "\<And>sd i. slot sd i < length occ" and "length level1 = length occ"
    and "\<And>n vals K. (n, vals) \<in> set bs \<Longrightarrow> finite K \<Longrightarrow> card K + length vals \<le> N \<Longrightarrow>
      \<exists>sd. distinct (map (slot sd) vals) \<and> slot sd ` set vals \<inter> K = {}"
    and "card {k. k < length occ \<and> occ ! k} + sum_list (map (length \<circ> snd) bs) \<le> N"
  shows "fill_buckets slot bs level0 occ level1 \<noteq> None"
  using assms
proof (induction bs arbitrary: level0 occ level1)
  case (Cons b bs)
  obtain n vals where b: "b = (n, vals)" by fastforce
  let ?K = "{k. k < length occ \<and> occ ! k}"
  have "card ?K + length vals \<le> N" using Cons.prems(4) b by simp
  then obtain sd where sd: "distinct (map (slot sd) vals)" "slot sd ` set vals \<inter> ?K = {}"
    using Cons.prems(3) [of n vals ?K] b by auto
  then have "\<forall>i \<in> set vals. \<not> occ ! slot sd i" using Cons.prems(1) [of sd] by blast
  then have "find_seed slot vals 0 occ level1 \<noteq> None" using find_seed_returns [OF Cons.prems(2), of vals slot sd] Cons.prems(1) sd(1) by simp
  then obtain seed occ' level1' where f: "find_seed slot vals 0 occ level1 = Some (seed, occ', level1')" by auto
  note F = find_seed_spec [OF f Cons.prems(2) Cons.prems(1)]
  have "card {k. k < length occ' \<and> occ' ! k} + sum_list (map (length \<circ> snd) bs) \<le> N"
    using occupied_bound [of occ' occ "slot seed" vals] F Cons.prems(4) b by (simp add: comp_def)
  moreover have "length level1' = length occ'" "slot x i < length occ'" for x i using F Cons.prems(1) by simp_all
  moreover have "\<exists>sd. distinct (map (slot sd) vs) \<and> slot sd ` set vs \<inter> K = {}"
    if "(m, vs) \<in> set bs" "finite K" "card K + length vs \<le> N" for m vs K using Cons.prems(3) [of m vs K] that by simp
  ultimately have "fill_buckets slot bs (level0[n := seed]) occ' level1' \<noteq> None" by (intro Cons.IH)
  then show ?case using f b by simp
qed simp

text \<open>The pattern map holds every key once, under its rolling hash.\<close>

definition rule_map_ok :: "(string \<times> u32) list \<Rightarrow> bool" where
  "rule_map_ok m \<longleftrightarrow> distinct (map fst m) \<and> (\<forall>(k, h) \<in> set m. h = RollingHash k)"

definition effective_map :: "mph_group \<Rightarrow> (string \<times> u32) list" where
  "effective_map g = (if mp_ruleMap g = [] then [(''empty___'', RollingHash ''empty___'')] else mp_ruleMap g)"

lemma sparse_zip:
  "(n, vals) \<in> set (zip [0..<nextPow2 v] (sparse_buckets (nextPow2 v - 1) es)) \<longleftrightarrow>
     n < nextPow2 v \<and> vals = filter (\<lambda>i. masked (ucast (snd (es ! i))) (nextPow2 v - 1) = n) [0..<length es]"
proof -
  have "nextPow2 v - 1 + 1 = nextPow2 v" using nextPow2_power [of v] by auto
  then show ?thesis unfolding sparse_buckets_def by (auto simp: zip_map2 zip_same_conv_map)
qed

lemma mph_Lookup_exact:
  assumes "mph_Build iterate by_size g = Some g'" and "mp_rules g = []" and "rule_map_ok (mp_ruleMap g)"
    and "length (mp_ruleMap g) < 2 ^ 32" and "reorders iterate" and "reorders by_size"
  shows "mph_Lookup g' (RollingHash s) s \<longleftrightarrow> s \<in> fst ` set (effective_map g)"
proof -
  let ?m = "effective_map g"
  let ?es = "iterate ?m" and ?lo = "nextPow2 (length ?m div 4)" and ?hi = "nextPow2 (length ?m)"
  let ?rules = "map fst ?es"
  let ?bs = "by_size (filter (\<lambda>(n, vals). vals \<noteq> []) (zip [0..<?lo] (sparse_buckets (?lo - 1) ?es)))"
  let ?slot = "rule_slot ?rules (?hi - 1)"
  have m: "rule_map_ok ?m" "length ?m < 2 ^ 32" "?m \<noteq> []" using assms(3,4) by (auto simp: effective_map_def rule_map_ok_def)
  have es: "set ?es = set ?m" "length ?es = length ?m" using reorders_set [OF assms(5)] reorders_length [OF assms(5)] by blast+
  have pos0: "?lo - 1 + 1 = ?lo" using nextPow2_power [of "length ?m div 4"] by auto
  obtain l0 l1 where fill: "fill_buckets ?slot ?bs (replicate ?lo 0) (replicate ?hi False) (replicate ?hi 0) = Some (l0, l1)"
    and g': "mp_rules g' = ?rules" "mp_level0 g' = l0" "mp_level0Mask g' = ?lo - 1" "mp_level1 g' = l1" "mp_level1Mask g' = ?hi - 1"
    using assms(1) unfolding mph_Build_def Let_def effective_map_def [symmetric] assms(2) append_Nil
    by (auto split: option.splits)
  have bs: "(n, vals) \<in> set ?bs \<longleftrightarrow> n < ?lo \<and> vals \<noteq> [] \<and>
      vals = filter (\<lambda>i. masked (ucast (snd (?es ! i))) (?lo - 1) = n) [0..<length ?es]" for n vals
    unfolding reorders_set [OF assms(6)] set_filter mem_Collect_eq using sparse_zip by auto
  have dist: "distinct (map fst ?bs)"
  proof -
    have "distinct (map fst (zip [0..<?lo] (sparse_buckets (?lo - 1) ?es)))" unfolding sparse_buckets_def pos0 by simp
    then show ?thesis unfolding reorders_distinct [OF assms(6)] by (rule distinct_map_filter)
  qed
  have slots: "?slot sd i < length (replicate ?hi False)" for sd i using masked_bound by (simp add: rule_slot_def)
  have "list_all (\<lambda>(n, vals). n < length (replicate ?lo (0 :: u32))) ?bs" using bs by (auto simp: list_all_iff)
  note S = fill_buckets_spec [OF fill _ dist this slots]
  have hit: "l1 ! ?slot (l0 ! (masked (ucast (snd (?es ! i))) (?lo - 1))) i = word_of_nat i" if "i < length ?es" for i
  proof -
    let ?n = "masked (ucast (snd (?es ! i))) (?lo - 1)"
    let ?v = "filter (\<lambda>i. masked (ucast (snd (?es ! i))) (?lo - 1) = ?n) [0..<length ?es]"
    have "i \<in> set ?v" using that by simp
    moreover have "(?n, ?v) \<in> set ?bs" unfolding bs using that masked_bound by (auto simp: filter_empty_conv)
    ultimately show ?thesis using S by auto
  qed
  show ?thesis
  proof
    assume "s \<in> fst ` set ?m"
    then obtain i where i: "i < length ?es" "fst (?es ! i) = s" using es(1) by (metis (no_types, lifting) imageE in_set_conv_nth)
    then have h: "snd (?es ! i) = RollingHash s" using m(1) es(1) unfolding rule_map_ok_def by (metis (mono_tags, lifting) case_prodD nth_mem prod.collapse)
    have u: "unat (word_of_nat i :: u32) = i" using i(1) m(2) es(2) by (simp only: unat_of_nat) simp
    have "?rules ! i = s" using i by simp
    with hit [OF i(1)] h u i show "mph_Lookup g' (RollingHash s) s"
      unfolding mph_Lookup_def g' Let_def by (simp add: rule_slot_def)
  next
    assume L: "mph_Lookup g' (RollingHash s) s"
    let ?i1 = "masked (strhashFallback s (l0 ! masked (ucast (RollingHash s)) (?lo - 1))) (?hi - 1)"
    have "?i1 < length l1" using masked_bound S by simp
    then have "l1 ! ?i1 \<in> set l1" by (rule nth_mem)
    moreover have "set l1 \<subseteq> {0} \<union> word_of_nat ` {..<length ?es}"
    proof -
      have "set vals \<subseteq> {..<length ?es}" if "(n, vals) \<in> set ?bs" for n vals
        using that unfolding bs by auto
      then have "(\<Union>(n, vals) \<in> set ?bs. set vals) \<subseteq> {..<length ?es}" by blast
      then have "word_of_nat ` (\<Union>(n, vals) \<in> set ?bs. set vals) \<subseteq> (word_of_nat ` {..<length ?es} :: u32 set)" by (rule image_mono)
      note vals = this
      have all: "set l1 \<subseteq> set (replicate ?hi 0) \<union> word_of_nat ` (\<Union>(n, vals) \<in> set ?bs. set vals)" using S by simp
      have "set (replicate ?hi (0 :: u32)) \<subseteq> {0}" by (simp add: set_replicate_conv_if)
      from subset_trans [OF all Un_mono [OF this vals]] show ?thesis .
    qed
    ultimately consider "l1 ! ?i1 = 0" | i where "i < length ?es" "l1 ! ?i1 = word_of_nat i" by blast
    then have "unat (l1 ! ?i1) < length ?es"
    proof cases
      case 1
      have "0 < length ?es" using m(3) es(2) by simp
      with 1 show ?thesis by (simp only: unat_0)
    next
      case 2
      have "unat (word_of_nat i :: u32) = i" using 2(1) m(2) es(2) by (simp only: unat_of_nat) simp
      with 2 show ?thesis by (simp only:)
    qed
    then have "?rules ! unat (l1 ! ?i1) \<in> set ?rules" by (intro nth_mem) simp
    moreover have "s = ?rules ! unat (l1 ! ?i1)" using L unfolding mph_Lookup_def g' Let_def .
    ultimately show "s \<in> fst ` set ?m" using es(1) by simp
  qed
qed

section \<open>Building ends\<close>

text \<open>
  What the search for seeds needs of the hash function: whatever slots the rules of the other buckets have
  taken, some seed sends the keys of a bucket to different slots beside them.
\<close>

definition key_bucket :: "string set \<Rightarrow> nat \<Rightarrow> string set" where
  "key_bucket keys n = {k \<in> keys. masked (ucast (RollingHash k)) (nextPow2 (card keys div 4) - 1) = n}"

definition key_slot :: "string set \<Rightarrow> u32 \<Rightarrow> string \<Rightarrow> nat" where
  "key_slot keys seed k = masked (strhashFallback k seed) (nextPow2 (card keys) - 1)"

definition seeds_spread :: "string set \<Rightarrow> bool" where
  "seeds_spread keys \<longleftrightarrow>
     (\<forall>n taken. finite taken \<and> card taken + card (key_bucket keys n) \<le> card keys \<longrightarrow>
        (\<exists>seed. inj_on (key_slot keys seed) (key_bucket keys n) \<and> key_slot keys seed ` key_bucket keys n \<inter> taken = {}))"

lemma sum_list_filters:
  assumes "\<forall>x \<in> set xs. f x < N"
  shows "sum_list (map (\<lambda>n. length (filter (\<lambda>x. f x = n) xs)) [0..<N]) = length xs"
  using assms
proof (induction xs)
  case (Cons x xs)
  have "sum_list (map (\<lambda>n. length (filter (\<lambda>y. f y = n) (x # xs))) [0..<N]) =
      sum_list (map (\<lambda>n. (if f x = n then 1 else 0) + length (filter (\<lambda>y. f y = n) xs)) [0..<N])"
    by (intro arg_cong [where f = sum_list] map_cong) auto
  also have "\<dots> = (\<Sum>n<N. if f x = n then 1 else 0) + sum_list (map (\<lambda>n. length (filter (\<lambda>y. f y = n) xs)) [0..<N])"
    by (simp add: sum_list_addf interv_sum_list_conv_sum_set_nat atLeast0LessThan)
  finally show ?case using Cons by simp
qed simp

lemma sum_list_nonempty: "sum_list (map (length \<circ> snd) (filter (\<lambda>(n, vals). vals \<noteq> []) bs)) = sum_list (map (length \<circ> snd) bs)"
  by (induction bs) auto

lemma sum_list_reorders:
  fixes h :: "'a \<Rightarrow> nat"
  assumes "reorders f"
  shows "sum_list (map h (f xs)) = sum_list (map h xs)"
  using assms unfolding reorders_def by (metis mset_map sum_mset_sum_list)

lemma sparse_sum:
  "sum_list (map (length \<circ> snd) (zip [0..<nextPow2 v] (sparse_buckets (nextPow2 v - 1) es))) = length es"
proof -
  have "nextPow2 v - 1 + 1 = nextPow2 v" using nextPow2_power [of v] by auto
  then have "sum_list (map (length \<circ> snd) (zip [0..<nextPow2 v] (sparse_buckets (nextPow2 v - 1) es))) =
      sum_list (map (\<lambda>n. length (filter (\<lambda>i. masked (ucast (snd (es ! i))) (nextPow2 v - 1) = n) [0..<length es])) [0..<nextPow2 v])"
    unfolding sparse_buckets_def by (simp add: zip_map2 zip_same_conv_map comp_def)
  then show ?thesis using sum_list_filters [of "[0..<length es]" _ "nextPow2 v"] masked_bound by simp
qed

text \<open>The rules of a bucket are the keys with the same rolling hash, cut down to the first level.\<close>

lemma bucket_keys:
  assumes "rule_map_ok es" and "(n, vals) \<in> set (zip [0..<nextPow2 (length es div 4)] (sparse_buckets (nextPow2 (length es div 4) - 1) es))"
  shows "(\<lambda>i. fst (es ! i)) ` set vals = key_bucket (fst ` set es) n" and "set vals \<subseteq> {..<length es}" and "distinct vals"
    and "inj_on (\<lambda>i. fst (es ! i)) (set vals)"
proof -
  let ?lo = "nextPow2 (length es div 4)"
  have d: "distinct (map fst es)" and h: "snd (es ! i) = RollingHash (fst (es ! i))" if "i < length es" for i
    using assms(1) nth_mem [of i es] that by (auto simp: rule_map_ok_def)
  have v: "vals = filter (\<lambda>i. masked (ucast (snd (es ! i))) (?lo - 1) = n) [0..<length es]"
    using assms(2) unfolding sparse_zip by blast
  then show vs: "set vals \<subseteq> {..<length es}" "distinct vals" by auto
  have card: "card (fst ` set es) = length es" using assms(1) distinct_card [of "map fst es"] by (simp add: rule_map_ok_def)
  have kb: "key_bucket (fst ` set es) n = {k \<in> fst ` set es. masked (ucast (RollingHash k)) (?lo - 1) = n}" unfolding key_bucket_def card ..
  have keys: "fst ` set es = (\<lambda>i. fst (es ! i)) ` {..<length es}" by (auto simp: set_conv_nth image_iff)
  show "(\<lambda>i. fst (es ! i)) ` set vals = key_bucket (fst ` set es) n"
    using h by (subst kb, subst keys) (auto simp: v)
  show "inj_on (\<lambda>i. fst (es ! i)) (set vals)" using inj_on_subset [OF inj_on_nth [of "map fst es" "{..<length es}"] vs(1)] vs(1) assms(1)
    by (auto simp: rule_map_ok_def inj_on_def subset_iff)
qed

lemma bucket_has_seed:
  assumes "rule_map_ok es" and "(n, vals) \<in> set (zip [0..<nextPow2 (length es div 4)] (sparse_buckets (nextPow2 (length es div 4) - 1) es))"
    and "seeds_spread (fst ` set es)" and "finite taken" and "card taken + length vals \<le> length es"
    and slot: "slot = rule_slot (map fst es) (nextPow2 (length es) - 1)"
  shows "\<exists>seed. distinct (map (slot seed) vals) \<and> slot seed ` set vals \<inter> taken = {}"
proof -
  let ?key = "\<lambda>i. fst (es ! i)" and ?keys = "fst ` set es"
  note b = bucket_keys [OF assms(1,2)]
  have card: "card ?keys = length es" using assms(1) distinct_card [of "map fst es"] by (simp add: rule_map_ok_def)
  have "card (key_bucket ?keys n) = length vals" using card_image [OF b(4)] distinct_card [OF b(3)] b(1) by simp
  then obtain sd where sd: "inj_on (key_slot ?keys sd) (?key ` set vals)" "key_slot ?keys sd ` ?key ` set vals \<inter> taken = {}"
    using assms(3-5) card b(1) unfolding seeds_spread_def by metis
  have s: "slot sd i = key_slot ?keys sd (?key i)" if "i \<in> set vals" for i
    using that b(2) by (auto simp: slot rule_slot_def key_slot_def card)
  have "inj_on (slot sd) (set vals)" using comp_inj_on [OF b(4) sd(1)] s by (simp add: inj_on_def)
  moreover have "slot sd ` set vals \<inter> taken = {}" using sd(2) s by (simp add: image_image)
  ultimately show ?thesis using b(3) by (auto simp: distinct_map)
qed

lemma mph_Build_returns:
  assumes "mp_rules g = []" and "rule_map_ok (mp_ruleMap g)" and "reorders iterate" and "reorders by_size"
    and "seeds_spread (fst ` set (effective_map g))" and "\<And>ac. mp_ac g = Some ac \<Longrightarrow> ac_tree ac"
  shows "\<exists>g'. mph_Build iterate by_size g = Some g'"
proof -
  let ?m = "effective_map g"
  let ?es = "iterate ?m" and ?lo = "nextPow2 (length ?m div 4)" and ?hi = "nextPow2 (length ?m)"
  let ?bs = "zip [0..<?lo] (sparse_buckets (?lo - 1) ?es)" and ?slot = "rule_slot (map fst ?es) (?hi - 1)"
  let ?fill = "fill_buckets ?slot (by_size (filter (\<lambda>(n, vals). vals \<noteq> []) ?bs)) (replicate ?lo 0) (replicate ?hi False) (replicate ?hi 0)"
  have m: "rule_map_ok ?m" using assms(2) by (auto simp: effective_map_def rule_map_ok_def)
  have es: "set ?es = set ?m" "length ?es = length ?m"
    using reorders_set [OF assms(3)] reorders_length [OF assms(3)] by blast+
  then have ok: "rule_map_ok ?es" using m reorders_distinct [OF assms(3)] unfolding rule_map_ok_def by metis
  have "?fill \<noteq> None"
  proof (rule fill_buckets_returns [where N = "length ?m"])
    show "?slot sd i < length (replicate ?hi False)" for sd i using masked_bound by (simp add: rule_slot_def)
    show "\<exists>sd. distinct (map (?slot sd) vals) \<and> ?slot sd ` set vals \<inter> K = {}"
      if "(n, vals) \<in> set (by_size (filter (\<lambda>(n, vals). vals \<noteq> []) ?bs))" "finite K" "card K + length vals \<le> length ?m" for n vals K
      using bucket_has_seed [OF ok, of n vals K ?slot] assms(5) that unfolding reorders_set [OF assms(4)] es by simp
    show "card {k. k < length (replicate ?hi False) \<and> replicate ?hi False ! k} +
        sum_list (map (length \<circ> snd) (by_size (filter (\<lambda>(n, vals). vals \<noteq> []) ?bs))) \<le> length ?m"
      unfolding sum_list_reorders [OF assms(4)] sum_list_nonempty sparse_sum es by simp
  qed simp
  then obtain l0 l1 where "?fill = Some (l0, l1)" by auto
  moreover obtain ac where "(case mp_ac g of None \<Rightarrow> Some None | Some ac \<Rightarrow> map_option Some (ac_Build (ac_count ac) ac)) = Some ac"
    using tree_Build_returns assms(6) by (cases "mp_ac g") fastforce+
  ultimately show ?thesis unfolding mph_Build_def Let_def effective_map_def [symmetric] assms(1) append_Nil by auto
qed

section \<open>Matching\<close>

lemma RollingHash_Cons: "RollingHash (c # s) = RollingHash s * PrimeRK + char_word c"
  by (simp add: RollingHash_def)

lemma match_dots_spec:
  assumes "\<And>t. mph_Lookup g (RollingHash t) t \<longleftrightarrow> t \<in> K"
  shows "n \<le> length s \<Longrightarrow> match_dots g s n (RollingHash (drop n s)) = (found, hash) \<Longrightarrow>
     (found \<longleftrightarrow> (\<exists>i < n. s ! i = CHR ''.'' \<and> drop i s \<in> K)) \<and> (\<not> found \<longrightarrow> hash = RollingHash s)"
proof (induction n)
  case (Suc i)
  have h: "RollingHash (drop (Suc i) s) * PrimeRK + char_word (s ! i) = RollingHash (drop i s)"
    using Suc.prems(1) by (simp add: Cons_nth_drop_Suc [symmetric] RollingHash_Cons)
  show ?case
  proof (cases "s ! i = CHR ''.'' \<and> drop i s \<in> K")
    case True
    then show ?thesis using Suc.prems h assms [of "drop i s"] by (auto simp: Let_def)
  next
    case False
    then have "match_dots g s i (RollingHash (drop i s)) = (found, hash)"
      using Suc.prems(2) h assms [of "drop i s"] by (simp add: Let_def split: if_splits)
    with Suc.IH Suc.prems(1) have IH: "found \<longleftrightarrow> (\<exists>j < i. s ! j = CHR ''.'' \<and> drop j s \<in> K)" "\<not> found \<longrightarrow> hash = RollingHash s"
      by simp_all
    from False have "(\<exists>j < Suc i. s ! j = CHR ''.'' \<and> drop j s \<in> K) \<longleftrightarrow> (\<exists>j < i. s ! j = CHR ''.'' \<and> drop j s \<in> K)"
      by (metis less_Suc_eq)
    with IH show ?thesis by (simp only:)
  qed
qed auto

lemma first_number_Nil: "(case xs of [] \<Rightarrow> [] | (_, n) # _ \<Rightarrow> [n]) = [] \<longleftrightarrow> xs = []"
  by (cases xs) auto

lemma mph_Match_iff:
  assumes "\<And>t. mph_Lookup g (RollingHash t) t \<longleftrightarrow> t \<in> K"
  shows "mph_Match g s \<noteq> [] \<longleftrightarrow>
    s \<in> K \<or> (\<exists>i < length s. s ! i = CHR ''.'' \<and> drop i s \<in> K) \<or>
    (case mp_ac g of None \<Rightarrow> False | Some ac \<Rightarrow> ac_Match ac s) \<or> (\<exists>(m, n) \<in> set (mp_otherMatchers g). matcher_Match m s)"
proof -
  obtain found hash where d: "match_dots g s (length s) 0 = (found, hash)" by fastforce
  have "RollingHash (drop (length s) s) = 0" by (simp add: RollingHash_def)
  with match_dots_spec [OF assms, of "length s" s found hash] d
  have f: "found \<longleftrightarrow> (\<exists>i < length s. s ! i = CHR ''.'' \<and> drop i s \<in> K)" "\<not> found \<longrightarrow> hash = RollingHash s" by simp_all
  have "(case filter (\<lambda>(m, _). matcher_Match m s) (mp_otherMatchers g) of [] \<Rightarrow> [] | (_, n) # _ \<Rightarrow> [n]) = ([] :: u32 list) \<longleftrightarrow>
      \<not> (\<exists>(m, n) \<in> set (mp_otherMatchers g). matcher_Match m s)"
    unfolding first_number_Nil filter_empty_conv by blast
  then show ?thesis using f d assms [of s] by (auto simp: mph_Match_def)
qed

section \<open>Patterns\<close>

fun add_patterns :: "(string \<Rightarrow> (string \<Rightarrow> bool) option) \<Rightarrow> (string \<times> match_type) list \<Rightarrow> mph_group \<Rightarrow> mph_group res" where
  "add_patterns compile [] g = Ok g"
| "add_patterns compile ((p, t) # ps) g = rbind (AddPattern compile p t g) (\<lambda>(g', _). add_patterns compile ps g')"

text \<open>The keys a pattern puts into the map.\<close>

definition pattern_keys :: "string \<Rightarrow> match_type \<Rightarrow> string set" where
  "pattern_keys p t =
     (case t of Full \<Rightarrow> {ToLower p} | Domain \<Rightarrow> {ToLower p, CHR ''.'' # ToLower p} | _ \<Rightarrow> {})"

lemma set_update_subset: "set (AList.update k h m) \<subseteq> insert (k, h) (set m)"
  by (induction m) auto

lemma rule_map_ok_update: "rule_map_ok m \<Longrightarrow> h = RollingHash k \<Longrightarrow> rule_map_ok (AList.update k h m)"
  using set_update_subset [of k h m] by (auto simp: rule_map_ok_def distinct_update)

definition group_ok :: "string set \<Rightarrow> mph_group \<Rightarrow> bool" where
  "group_ok K g \<longleftrightarrow> mp_rules g = [] \<and> rule_map_ok (mp_ruleMap g) \<and> fst ` set (mp_ruleMap g) = K"

lemma AddPattern_ok:
  assumes "group_ok K g" and "AddPattern compile p t g = Ok (g', n)"
  shows "group_ok (K \<union> pattern_keys p t) g'"
proof (cases "t = Full \<or> t = Domain")
  case True
  then have g': "g' = AddFullOrDomainPattern (ToLower p) t g"
    using assms(2) by (auto simp: AddPattern_def)
  show ?thesis
    using assms(1) True unfolding g' AddFullOrDomainPattern_def group_ok_def Let_def
    by (auto simp: pattern_keys_def dom_update RollingHash_Cons intro!: rule_map_ok_update)
next
  case False
  then have "mp_rules g' = mp_rules g \<and> mp_ruleMap g' = mp_ruleMap g \<and> pattern_keys p t = {}"
    using assms(2) by (cases t) (auto simp: AddPattern_def pattern_keys_def rmap_Ok_iff split: option.splits)
  then show ?thesis using assms(1) by (simp add: group_ok_def)
qed

lemma add_patterns_ok:
  "group_ok K g \<Longrightarrow> add_patterns compile ps g = Ok g' \<Longrightarrow> group_ok (K \<union> (\<Union>(p, t) \<in> set ps. pattern_keys p t)) g'"
proof (induction ps arbitrary: K g)
  case (Cons q ps)
  obtain p t where q: "q = (p, t)" by fastforce
  then obtain g1 n where a: "AddPattern compile p t g = Ok (g1, n)" "add_patterns compile ps g1 = Ok g'"
    using Cons.prems(2) by (auto simp: rbind_Ok_iff)
  from Cons.IH [OF AddPattern_ok [OF Cons.prems(1) a(1)] a(2)] show ?case by (simp add: q Un_assoc)
qed simp

text \<open>A suffix of the name from a dot on is the suffix a domain pattern needs.\<close>

lemma dot_suffix_iff: "(\<exists>i < length s. s ! i = CHR ''.'' \<and> drop i s = CHR ''.'' # p) \<or> s = p \<longleftrightarrow> matcher_Match (domainMatcher p) s"
proof
  assume "(\<exists>i < length s. s ! i = CHR ''.'' \<and> drop i s = CHR ''.'' # p) \<or> s = p"
  then show "matcher_Match (domainMatcher p) s"
  proof
    assume "\<exists>i < length s. s ! i = CHR ''.'' \<and> drop i s = CHR ''.'' # p"
    then obtain i where "s = take i s @ CHR ''.'' # p" by (metis append_take_drop_id)
    then have "breakDomain s = breakDomain (take i s) @ breakDomain p" by (metis breakDomain_dot)
    then show ?thesis unfolding domain_suffix_parts suffix_def by blast
  qed (simp add: domain_suffix_parts)
next
  assume "matcher_Match (domainMatcher p) s"
  then obtain u where u: "breakDomain s = u @ breakDomain p" unfolding domain_suffix_parts suffix_def by blast
  show "(\<exists>i < length s. s ! i = CHR ''.'' \<and> drop i s = CHR ''.'' # p) \<or> s = p"
  proof (cases "u = []")
    case True
    with u have "join_dots (breakDomain s) = join_dots (breakDomain p)" by simp
    then show ?thesis by simp
  next
    case False
    have "s = join_dots u @ CHR ''.'' # p"
      using join_dots_append [OF False breakDomain_not_Nil [of p]] u join_breakDomain [of s] by simp
    then show ?thesis by (auto intro!: exI [of _ "length (join_dots u)"])
  qed
qed

lemma lower_char_dot: "lower_char c = CHR ''.'' \<longleftrightarrow> c = CHR ''.''"
proof -
  have "char_of (of_char c + 32 :: nat) \<noteq> CHR ''.''" if "65 \<le> (of_char c :: nat)" "(of_char c :: nat) \<le> 90"
  proof
    assume "char_of (of_char c + 32 :: nat) = CHR ''.''"
    from arg_cong [OF this, of "of_char :: char \<Rightarrow> nat"] that show False by simp
  qed
  then show ?thesis by (auto simp: lower_char_def)
qed

text \<open>The name the builder puts in when there are no full and domain patterns.\<close>

definition has_rules :: "(string \<times> match_type) list \<Rightarrow> bool" where
  "has_rules ps \<longleftrightarrow> list_ex (\<lambda>(p, t). t = Full \<or> t = Domain) ps"

text \<open>The keys of the table are the patterns, and the dot before a domain pattern the beginning of a part.\<close>

lemma mph_Match_patterns:
  assumes "add_patterns compile ps NewMphMatcherGroup = Ok g0" and "mph_Build iterate by_size g0 = Some g"
    and "reorders iterate" and "reorders by_size" and "length (mp_ruleMap g0) < 2 ^ 32" and "has_rules ps"
    and "list_all (\<lambda>(p, t). t = Full \<or> t = Domain \<longrightarrow> \<not> prefix ''.'' p) ps"
  shows "mph_Match g s \<noteq> [] \<longleftrightarrow>
    list_ex (\<lambda>(p, t). (t = Full \<and> matcher_Match (fullMatcher (ToLower p)) s) \<or>
                     (t = Domain \<and> matcher_Match (domainMatcher (ToLower p)) s)) ps \<or>
    (case mp_ac g of None \<Rightarrow> False | Some ac \<Rightarrow> ac_Match ac s) \<or>
    list_ex (\<lambda>(m, n). matcher_Match m s) (mp_otherMatchers g)"
proof -
  let ?K = "\<Union>(p, t) \<in> set ps. pattern_keys p t"
  have ok: "group_ok ?K g0"
    using add_patterns_ok [OF _ assms(1), of "{}"] by (simp add: group_ok_def NewMphMatcherGroup_def rule_map_ok_def)
  obtain q t where "(q, t) \<in> set ps" "ToLower q \<in> pattern_keys q t"
    using assms(6) by (auto simp: has_rules_def list_ex_iff pattern_keys_def)
  then have ne: "?K \<noteq> {}" by blast
  have "fst ` set (effective_map g0) = ?K" using ok ne by (auto simp: group_ok_def effective_map_def)
  then have L: "mph_Lookup g (RollingHash t) t \<longleftrightarrow> t \<in> ?K" for t
    using mph_Lookup_exact [OF assms(2) _ _ assms(5,3,4), of t] ok by (simp add: group_ok_def)
  have dotfree: "CHR ''.'' # t \<noteq> ToLower p" if "(p, Full) \<in> set ps \<or> (p, Domain) \<in> set ps" for t p
  proof -
    have p: "\<not> prefix ''.'' p" using that assms(7) by (auto simp: list_all_iff)
    show ?thesis
    proof
      assume "CHR ''.'' # t = ToLower p"
      then obtain c r where "p = c # r" "lower_char c = CHR ''.''" by (cases p) (auto simp: ToLower_def)
      with p show False by (simp add: lower_char_dot)
    qed
  qed
  have K: "t \<in> ?K \<longleftrightarrow> (\<exists>p. (p, Full) \<in> set ps \<and> t = ToLower p) \<or>
      (\<exists>p. (p, Domain) \<in> set ps \<and> (t = ToLower p \<or> t = CHR ''.'' # ToLower p))" for t
  proof
    assume "t \<in> ?K"
    then obtain p ty where "(p, ty) \<in> set ps" "t \<in> pattern_keys p ty" by blast
    then show "(\<exists>p. (p, Full) \<in> set ps \<and> t = ToLower p) \<or>
      (\<exists>p. (p, Domain) \<in> set ps \<and> (t = ToLower p \<or> t = CHR ''.'' # ToLower p))"
      by (cases ty) (auto simp: pattern_keys_def)
  next
    assume "(\<exists>p. (p, Full) \<in> set ps \<and> t = ToLower p) \<or>
      (\<exists>p. (p, Domain) \<in> set ps \<and> (t = ToLower p \<or> t = CHR ''.'' # ToLower p))"
    then obtain p ty where "(p, ty) \<in> set ps" "t \<in> pattern_keys p ty" by (auto simp: pattern_keys_def)
    then show "t \<in> ?K" by blast
  qed
  have dot: "drop i s \<in> ?K \<longleftrightarrow> (\<exists>p. (p, Domain) \<in> set ps \<and> drop i s = CHR ''.'' # ToLower p)"
    if "i < length s" "s ! i = CHR ''.''" for i
    using that dotfree unfolding K by (metis Cons_nth_drop_Suc)
  have head: "s \<in> ?K \<longleftrightarrow> (\<exists>p. (p, Full) \<in> set ps \<and> s = ToLower p) \<or> (\<exists>p. (p, Domain) \<in> set ps \<and> s = ToLower p) \<or>
      (\<exists>p. (p, Domain) \<in> set ps \<and> s = CHR ''.'' # ToLower p)"
    unfolding K by blast
  have front: "\<exists>i < length s. s ! i = CHR ''.'' \<and> drop i s = CHR ''.'' # ToLower p" if "s = CHR ''.'' # ToLower p" for p
    by (rule exI [of _ 0]) (simp add: that)
  have dots: "(\<exists>i < length s. s ! i = CHR ''.'' \<and> drop i s \<in> ?K) \<longleftrightarrow>
      (\<exists>p. (p, Domain) \<in> set ps \<and> (\<exists>i < length s. s ! i = CHR ''.'' \<and> drop i s = CHR ''.'' # ToLower p))"
    using dot by blast
  have "s \<in> ?K \<or> (\<exists>i < length s. s ! i = CHR ''.'' \<and> drop i s \<in> ?K) \<longleftrightarrow>
      (\<exists>p. (p, Full) \<in> set ps \<and> s = ToLower p) \<or>
      (\<exists>p. (p, Domain) \<in> set ps \<and> ((\<exists>i < length s. s ! i = CHR ''.'' \<and> drop i s = CHR ''.'' # ToLower p) \<or> s = ToLower p))"
    using front unfolding head dots by blast
  also have "\<dots> \<longleftrightarrow> (\<exists>p. (p, Full) \<in> set ps \<and> s = ToLower p) \<or>
      (\<exists>p. (p, Domain) \<in> set ps \<and> matcher_Match (domainMatcher (ToLower p)) s)"
    unfolding dot_suffix_iff by simp
  finally have "s \<in> ?K \<or> (\<exists>i < length s. s ! i = CHR ''.'' \<and> drop i s \<in> ?K) \<longleftrightarrow>
      list_ex (\<lambda>(p, t). (t = Full \<and> matcher_Match (fullMatcher (ToLower p)) s) \<or>
                     (t = Domain \<and> matcher_Match (domainMatcher (ToLower p)) s)) ps"
    unfolding list_ex_iff by (auto simp del: matcher_Match.simps(3))
  note A = this
  have "mph_Match g s \<noteq> [] \<longleftrightarrow> (s \<in> ?K \<or> (\<exists>i < length s. s ! i = CHR ''.'' \<and> drop i s \<in> ?K)) \<or>
      (case mp_ac g of None \<Rightarrow> False | Some ac \<Rightarrow> ac_Match ac s) \<or> (\<exists>(m, n) \<in> set (mp_otherMatchers g). matcher_Match m s)"
    unfolding disj_assoc by (rule mph_Match_iff [OF L])
  then show ?thesis by (simp only: A list_ex_iff)
qed

lemma add_patterns_tree:
  "add_patterns compile ps g = Ok g' \<Longrightarrow> (\<And>ac. mp_ac g = Some ac \<Longrightarrow> ac_tree ac) \<Longrightarrow> mp_ac g' = Some ac \<Longrightarrow> ac_tree ac"
proof (induction ps arbitrary: g)
  case (Cons q ps)
  obtain p t where q: "q = (p, t)" by fastforce
  then obtain g1 n where a: "AddPattern compile p t g = Ok (g1, n)" "add_patterns compile ps g1 = Ok g'"
    using Cons.prems(1) by (auto simp: rbind_Ok_iff)
  have "ac_tree c" if "mp_ac g1 = Some c" for c
  proof (cases t)
    case Substr
    then show ?thesis using a(1) that Cons.prems(2) ac_Add_tree ac_tree_new
      by (auto simp: AddPattern_def rmap_Ok_iff split: option.splits)
  qed (use a(1) that Cons.prems(2) in \<open>auto simp: AddPattern_def AddFullOrDomainPattern_def Let_def split: option.splits\<close>)
  from Cons.IH [OF a(2) this Cons.prems(3)] show ?case .
qed simp

text \<open>The keys of a list of patterns, and the table that is built from it.\<close>

definition table_keys :: "(string \<times> match_type) list \<Rightarrow> string set" where
  "table_keys ps = (\<Union>(p, t) \<in> set ps. pattern_keys p t)"

lemma patterns_Build_returns:
  assumes "add_patterns compile ps NewMphMatcherGroup = Ok g0" and "has_rules ps" and "reorders iterate" and "reorders by_size"
    and "seeds_spread (table_keys ps)"
  shows "\<exists>g. mph_Build iterate by_size g0 = Some g"
proof -
  have ok: "group_ok (table_keys ps) g0"
    using add_patterns_ok [OF _ assms(1), of "{}"] by (simp add: group_ok_def NewMphMatcherGroup_def rule_map_ok_def table_keys_def)
  have "table_keys ps \<noteq> {}" using assms(2) by (force simp: has_rules_def list_ex_iff table_keys_def pattern_keys_def)
  then have "fst ` set (effective_map g0) = table_keys ps" using ok by (auto simp: group_ok_def effective_map_def)
  then show ?thesis using ok assms(3-5) add_patterns_tree [OF assms(1)]
    by (intro mph_Build_returns) (auto simp: group_ok_def NewMphMatcherGroup_def)
qed

text \<open>
  C10. The perfect hash table decides full and domain patterns exactly.  If the hash function spreads the keys, that is, some 32-bit seed sends the keys of a
  bucket to different slots whatever slots the others have taken, then \<open>Build\<close> returns, whatever the iteration order of the map and the order of equally large
  buckets, and a name matches if and only if it equals the lower-case form of a full pattern, or is the lower-case form of a domain
  pattern or a subdomain of it, or is accepted by the keyword automaton or a regular expression.  No full or domain
  pattern may begin with a dot, which the table would take for a domain pattern's own, and there is at least one full or domain pattern.
  Without a seed for a bucket the search would not end (\<open>find_seed_ends_iff\<close>).
\<close>

theorem mph_Match_exact:
  assumes "add_patterns compile ps NewMphMatcherGroup = Ok g0" and "seeds_spread (table_keys ps)"
    and "reorders iterate" and "reorders by_size" and "length (mp_ruleMap g0) < 2 ^ 32" and "has_rules ps"
    and "list_all (\<lambda>(p, t). t = Full \<or> t = Domain \<longrightarrow> \<not> prefix ''.'' p) ps"
  shows "\<exists>g. mph_Build iterate by_size g0 = Some g \<and> (\<forall>s. mph_Match g s \<noteq> [] \<longleftrightarrow>
    list_ex (\<lambda>(p, t). (t = Full \<and> matcher_Match (fullMatcher (ToLower p)) s) \<or>
                     (t = Domain \<and> matcher_Match (domainMatcher (ToLower p)) s)) ps \<or>
    (case mp_ac g of None \<Rightarrow> False | Some ac \<Rightarrow> ac_Match ac s) \<or>
    list_ex (\<lambda>(m, n). matcher_Match m s) (mp_otherMatchers g))"
proof -
  obtain g where g: "mph_Build iterate by_size g0 = Some g" using patterns_Build_returns [OF assms(1,6,3,4,2)] by blast
  from mph_Match_patterns [OF assms(1) g assms(3-7)] g show ?thesis by blast
qed

definition sample_patterns :: "(string \<times> match_type) list" where
  "sample_patterns = [(''Example.com'', Domain), (''a.org'', Full)]"

lemma sample_keys: "table_keys sample_patterns = {''.example.com'', ''example.com'', ''a.org''}"
proof -
  have "ToLower ''Example.com'' = ''example.com''" "ToLower ''a.org'' = ''a.org''" by code_simp+
  then show ?thesis by (auto simp: table_keys_def sample_patterns_def pattern_keys_def)
qed

text \<open>A set of fewer than eight keys has one bucket, and one seed is enough.\<close>

lemma one_bucket_spreads:
  assumes "inj_on (key_slot keys seed) keys" and "finite keys" and "card keys < 8"
  shows "seeds_spread keys"
proof -
  have "card keys div 4 \<le> 1" using assms(3) by linarith
  then have b: "key_bucket keys n = (if n = 0 then keys else {})" for n
    by (auto simp: key_bucket_def nextPow2_def masked_def)
  show ?thesis unfolding seeds_spread_def
  proof (intro allI impI)
    fix n :: nat and taken :: "nat set"
    assume t: "finite taken \<and> card taken + card (key_bucket keys n) \<le> card keys"
    show "\<exists>seed. inj_on (key_slot keys seed) (key_bucket keys n) \<and> key_slot keys seed ` key_bucket keys n \<inter> taken = {}"
      using t assms(1) by (cases "n = 0") (auto simp: b)
  qed
qed

lemma sample_spreads: "seeds_spread (table_keys sample_patterns)"
proof -
  let ?keys = "{''.example.com'', ''example.com'', ''a.org''}"
  have p: "nextPow2 (card ?keys) - 1 = 3" by (simp add: nextPow2_def bit_length.simps)
  have "masked (strhashFallback ''.example.com'' 2) 3 = 1" by code_simp
  moreover have "masked (strhashFallback ''example.com'' 2) 3 = 3" by code_simp
  moreover have "masked (strhashFallback ''a.org'' 2) 3 = 0" by code_simp
  ultimately have "inj_on (key_slot ?keys 2) ?keys" unfolding key_slot_def p by simp
  then show ?thesis unfolding sample_keys by (rule one_bucket_spreads) simp_all
qed

theorem mph_Match_exact_witness:
  "\<exists>g0 g. add_patterns (\<lambda>_. None) sample_patterns NewMphMatcherGroup = Ok g0 \<and> mph_Build id id g0 = Some g \<and>
     mph_Match g ''www.example.com'' \<noteq> [] \<and> mph_Match g ''www.a.org'' = []"
proof -
  have "is_ok (add_patterns (\<lambda>_. None) sample_patterns NewMphMatcherGroup)" by (simp add: sample_patterns_def AddPattern_def)
  then obtain g0 where g0: "add_patterns (\<lambda>_. None) sample_patterns NewMphMatcherGroup = Ok g0"
    by (cases "add_patterns (\<lambda>_. None) sample_patterns NewMphMatcherGroup") simp_all
  have g0l: "mp_ac g0 = None \<and> mp_otherMatchers g0 = [] \<and> length (mp_ruleMap g0) < 2 ^ 32"
    using g0 by (auto simp: sample_patterns_def AddPattern_def AddFullOrDomainPattern_def NewMphMatcherGroup_def ToLower_def
        lower_char_def Let_def)
  then obtain g where g: "mph_Build id id g0 = Some g" and m: "\<And>s. mph_Match g s \<noteq> [] \<longleftrightarrow>
      list_ex (\<lambda>(p, t). (t = Full \<and> matcher_Match (fullMatcher (ToLower p)) s) \<or>
                     (t = Domain \<and> matcher_Match (domainMatcher (ToLower p)) s)) sample_patterns \<or>
      (case mp_ac g of None \<Rightarrow> False | Some ac \<Rightarrow> ac_Match ac s) \<or>
      list_ex (\<lambda>(m, n). matcher_Match m s) (mp_otherMatchers g)"
    using mph_Match_exact [OF g0 sample_spreads, of id id] by (auto simp: sample_patterns_def reorders_def has_rules_def simp del: matcher_Match.simps)
  have e: "mp_ac g = None" "mp_otherMatchers g = []" using g g0l by (auto simp: mph_Build_def Let_def)
  have l: "ToLower ''Example.com'' = ''example.com''" "ToLower ''a.org'' = ''a.org''" by code_simp+
  have "mph_Match g ''www.example.com'' \<noteq> []" "\<not> mph_Match g ''www.a.org'' \<noteq> []"
    unfolding m sample_patterns_def by (simp_all add: e l suffix_def)
  with g0 g show ?thesis by blast
qed

end
