(* ===== verification/RouterCond.thy ===== *)
theory RouterCond
  imports NetAddr StrMph
begin

text \<open>
  Routing contexts and rule conditions: \<open>features/routing/session/context.go\<close> and
  \<open>features/routing/dns/context.go\<close> (what is known of a connection, and the context that resolves the target's
  name on demand), \<open>app/router/condition.go\<close>, \<open>app/router/condition_geoip.go\<close> and \<open>BuildCondition\<close> of
  \<open>app/router/config.go\<close>.  The IP sets of the \<open>netipx\<close> package, the regular expressions and the DNS client
  are parameters.
\<close>

section \<open>Sessions\<close>

record memory_user =
  mu_Email :: string
  mu_Level :: u32

record session_inbound =
  in_Source :: destination
  in_Gateway :: destination
  in_Tag :: string
  in_Name :: string
  in_User :: "memory_user option"

record session_outbound =
  out_OriginalTarget :: destination
  out_Target :: destination
  out_RouteTarget :: destination
  out_Gateway :: "address option"
  out_Tag :: string
  out_Name :: string

record session_content =
  ct_Protocol :: string
  ct_Attributes :: "(string \<times> string) list option"
  ct_SkipDNSResolve :: bool

definition SetAttribute :: "string \<Rightarrow> string \<Rightarrow> session_content \<Rightarrow> session_content" where
  "SetAttribute name val c =
     c\<lparr>ct_Attributes := Some (AList.update name val (case ct_Attributes c of None \<Rightarrow> [] | Some m \<Rightarrow> m))\<rparr>"

definition Attribute :: "string \<Rightarrow> session_content \<Rightarrow> string" where
  "Attribute name c =
     (case ct_Attributes c of
        None \<Rightarrow> ''''
      | Some m \<Rightarrow> (case map_of m name of None \<Rightarrow> '''' | Some v \<Rightarrow> v))"

record session_ctx =
  sc_Inbound :: "session_inbound option"
  sc_Outbound :: "session_outbound option"
  sc_Content :: "session_content option"

text \<open>The address family of a destination; a valid destination without address is a nil dereference.\<close>

definition dest_Family :: "destination \<Rightarrow> address_family res" where
  "dest_Family d = (case dest_Address d of None \<Rightarrow> nil_deref | Some a \<Rightarrow> Ok (addr_Family a))"

definition dest_IP :: "destination \<Rightarrow> bytes res" where
  "dest_IP d = (case dest_Address d of None \<Rightarrow> nil_deref | Some a \<Rightarrow> addr_IP a)"

definition dest_Domain :: "destination \<Rightarrow> string res" where
  "dest_Domain d = (case dest_Address d of None \<Rightarrow> nil_deref | Some a \<Rightarrow> addr_Domain a)"

definition session_InboundTag :: "session_ctx \<Rightarrow> string" where
  "session_InboundTag c = (case sc_Inbound c of None \<Rightarrow> '''' | Some i \<Rightarrow> in_Tag i)"

definition session_SourceIPs :: "session_ctx \<Rightarrow> bytes list res" where
  "session_SourceIPs c =
     (case sc_Inbound c of
        None \<Rightarrow> Ok []
      | Some i \<Rightarrow>
          (if \<not> dest_IsValid (in_Source i) then Ok []
           else rbind (dest_Family (in_Source i)) (\<lambda>af.
             if IsDomain af then Ok [] else rmap (\<lambda>ip. [ip]) (dest_IP (in_Source i)))))"

definition session_SourcePort :: "session_ctx \<Rightarrow> port" where
  "session_SourcePort c =
     (case sc_Inbound c of
        None \<Rightarrow> 0
      | Some i \<Rightarrow> if \<not> dest_IsValid (in_Source i) then 0 else dest_Port (in_Source i))"

definition session_TargetIPs :: "session_ctx \<Rightarrow> bytes list res" where
  "session_TargetIPs c =
     (case sc_Outbound c of
        None \<Rightarrow> Ok []
      | Some ob \<Rightarrow>
          (if \<not> dest_IsValid (out_Target ob) then Ok []
           else rbind (dest_Family (out_Target ob)) (\<lambda>af.
             if IsIP af then rmap (\<lambda>ip. [ip]) (dest_IP (out_Target ob)) else Ok [])))"

definition session_TargetPort :: "session_ctx \<Rightarrow> port" where
  "session_TargetPort c =
     (case sc_Outbound c of
        None \<Rightarrow> 0
      | Some ob \<Rightarrow> if \<not> dest_IsValid (out_Target ob) then 0 else dest_Port (out_Target ob))"

definition target_domain :: "destination \<Rightarrow> string res" where
  "target_domain d = rbind (dest_Family d) (\<lambda>af. if \<not> IsDomain af then Ok '''' else dest_Domain d)"

definition session_TargetDomain :: "session_ctx \<Rightarrow> string res" where
  "session_TargetDomain c =
     (case sc_Outbound c of
        None \<Rightarrow> Ok ''''
      | Some ob \<Rightarrow>
          (if \<not> dest_IsValid (out_Target ob) then Ok ''''
           else if \<not> dest_IsValid (out_RouteTarget ob) then target_domain (out_Target ob)
           else rbind (dest_Family (out_RouteTarget ob)) (\<lambda>af.
             if IsDomain af then dest_Domain (out_RouteTarget ob) else target_domain (out_Target ob))))"

definition session_Network :: "session_ctx \<Rightarrow> network" where
  "session_Network c = (case sc_Outbound c of None \<Rightarrow> Network_Unknown | Some ob \<Rightarrow> dest_Network (out_Target ob))"

definition session_Protocol :: "session_ctx \<Rightarrow> string" where
  "session_Protocol c = (case sc_Content c of None \<Rightarrow> '''' | Some ct \<Rightarrow> ct_Protocol ct)"

definition session_User :: "session_ctx \<Rightarrow> string" where
  "session_User c =
     (case sc_Inbound c of
        None \<Rightarrow> ''''
      | Some i \<Rightarrow> (case in_User i of None \<Rightarrow> '''' | Some u \<Rightarrow> mu_Email u))"

definition session_Attributes :: "session_ctx \<Rightarrow> (string \<times> string) list option" where
  "session_Attributes c = (case sc_Content c of None \<Rightarrow> None | Some ct \<Rightarrow> ct_Attributes ct)"

definition session_SkipDNSResolve :: "session_ctx \<Rightarrow> bool" where
  "session_SkipDNSResolve c = (case sc_Content c of None \<Rightarrow> False | Some ct \<Rightarrow> ct_SkipDNSResolve ct)"

section \<open>Routing contexts\<close>

text \<open>A session's context, or a context with a DNS client and the addresses resolved so far.\<close>

datatype routing_ctx = Session session_ctx | Resolvable routing_ctx "bytes list"

fun base_session :: "routing_ctx \<Rightarrow> session_ctx" where
  "base_session (Session s) = s"
| "base_session (Resolvable c ips) = base_session c"

definition ContextWithDNSClient :: "routing_ctx \<Rightarrow> routing_ctx" where
  "ContextWithDNSClient c = Resolvable c []"

definition GetTargetDomain :: "routing_ctx \<Rightarrow> string res" where
  "GetTargetDomain c = session_TargetDomain (base_session c)"

definition GetSkipDNSResolve :: "routing_ctx \<Rightarrow> bool" where
  "GetSkipDNSResolve c = session_SkipDNSResolve (base_session c)"

text \<open>\<open>lookup\<close> is \<open>LookupIP\<close> of the DNS client, with its state \<open>'d\<close>, for both address families.\<close>

type_synonym 'd dns_client = "string \<Rightarrow> 'd \<Rightarrow> 'd \<times> bytes list res"

fun GetTargetIPs :: "'d dns_client \<Rightarrow> routing_ctx \<Rightarrow> 'd \<Rightarrow> (routing_ctx \<times> 'd) \<times> bytes list res" where
  "GetTargetIPs lookup (Session s) d = ((Session s, d), session_TargetIPs s)"
| "GetTargetIPs lookup (Resolvable c resolved) d =
     (let underlying = (\<lambda>d. case GetTargetIPs lookup c d of ((c', d'), r) \<Rightarrow> ((Resolvable c' resolved, d'), r)) in
      if length resolved > 0 then ((Resolvable c resolved, d), Ok resolved)
      else (case GetTargetDomain c of
              Err e \<Rightarrow> ((Resolvable c resolved, d), Err e)
            | Panic p \<Rightarrow> ((Resolvable c resolved, d), Panic p)
            | Ok domain \<Rightarrow>
                if length domain \<noteq> 0 then
                  (case lookup domain d of
                     (d', Ok ips) \<Rightarrow> ((Resolvable c ips, d'), Ok ips)
                   | (d', Err e) \<Rightarrow> underlying d'
                   | (d', Panic p) \<Rightarrow> ((Resolvable c resolved, d'), Panic p))
                else underlying d))"

section \<open>GeoIP matchers\<close>

text \<open>
  The IP sets of \<open>netipx\<close>: building a set from prefixes, membership, and the conversion of Go's IP slices.
\<close>

record 'i ipset_ops =
  is_IPSet :: "(bytes \<times> nat) list \<Rightarrow> 'i res"
  is_Contains :: "'i \<Rightarrow> bytes \<Rightarrow> bool"
  is_FromStdIP :: "bytes \<Rightarrow> bytes option"

record cidr =
  cidr_Ip :: bytes
  cidr_Prefix :: u32

record geoip =
  gi_CountryCode :: string
  gi_Cidr :: "cidr list"
  gi_ReverseMatch :: bool

record 'i geoip_matcher =
  gm_countryCode :: string
  gm_reverseMatch :: bool
  gm_ip4 :: 'i
  gm_ip6 :: 'i

text \<open>
  \<open>netip.ParsePrefix\<close> on the printed address and length: an address that is neither 4 nor 16 bytes long does
  not print as one, and an IPv4-mapped one prints in dotted form, so that it is read as an IPv4 prefix.
\<close>

definition ParsePrefix :: "bytes \<Rightarrow> nat \<Rightarrow> (bytes \<times> nat) res" where
  "ParsePrefix ip bits =
     (let bad = Err (ErrMsg ''netip.ParsePrefix'') in
      if length ip = 4 then (if bits \<le> 32 then Ok (ip, bits) else bad)
      else if length ip = 16 \<and> is_v4_mapped ip then (if bits \<le> 32 then Ok (drop 12 ip, bits) else bad)
      else if length ip = 16 then (if bits \<le> 128 then Ok (ip, bits) else bad)
      else bad)"

fun add_prefixes :: "cidr list \<Rightarrow> (bytes \<times> nat) list \<Rightarrow> (bytes \<times> nat) list \<Rightarrow> ((bytes \<times> nat) list \<times> (bytes \<times> nat) list) res" where
  "add_prefixes [] builder4 builder6 = Ok (builder4, builder6)"
| "add_prefixes (c # cs) builder4 builder6 =
     rbind (ParsePrefix (cidr_Ip c) (unat (cidr_Prefix c))) (\<lambda>p.
       if length (cidr_Ip c) = 4 then add_prefixes cs (builder4 @ [p]) builder6
       else if length (cidr_Ip c) = 16 then add_prefixes cs builder4 (builder6 @ [p])
       else add_prefixes cs builder4 builder6)"

definition geoip_Init :: "'i ipset_ops \<Rightarrow> cidr list \<Rightarrow> ('i \<times> 'i) res" where
  "geoip_Init ops cidrs =
     rbind (add_prefixes cidrs [] []) (\<lambda>(builder4, builder6).
     rbind (is_IPSet ops builder4) (\<lambda>ip4.
     rbind (is_IPSet ops builder6) (\<lambda>ip6. Ok (ip4, ip6))))"

definition SetReverseMatch :: "bool \<Rightarrow> 'i geoip_matcher \<Rightarrow> 'i geoip_matcher" where
  "SetReverseMatch isReverseMatch m = m\<lparr>gm_reverseMatch := isReverseMatch\<rparr>"

definition match4 :: "'i ipset_ops \<Rightarrow> 'i geoip_matcher \<Rightarrow> bytes \<Rightarrow> bool" where
  "match4 ops m ip = (case is_FromStdIP ops ip of None \<Rightarrow> False | Some nip \<Rightarrow> is_Contains ops (gm_ip4 m) nip)"

definition match6 :: "'i ipset_ops \<Rightarrow> 'i geoip_matcher \<Rightarrow> bytes \<Rightarrow> bool" where
  "match6 ops m ip = (case is_FromStdIP ops ip of None \<Rightarrow> False | Some nip \<Rightarrow> is_Contains ops (gm_ip6 m) nip)"

definition geoip_Match :: "'i ipset_ops \<Rightarrow> 'i geoip_matcher \<Rightarrow> bytes \<Rightarrow> bool" where
  "geoip_Match ops m ip =
     (let isMatched = (if length ip = 4 then match4 ops m ip else if length ip = 16 then match6 ops m ip else False) in
      if gm_reverseMatch m then \<not> isMatched else isMatched)"

text \<open>The container keeps one matcher for every country code and direction.\<close>

definition container_Add :: "'i ipset_ops \<Rightarrow> geoip \<Rightarrow> ('i geoip_matcher list, 'i geoip_matcher) act" where
  "container_Add ops g c =
     (let existing = (if length (gi_CountryCode g) > 0
                      then find (\<lambda>m. gm_countryCode m = gi_CountryCode g \<and> gm_reverseMatch m = gi_ReverseMatch g) c
                      else None) in
      case existing of
        Some m \<Rightarrow> (c, Ok m)
      | None \<Rightarrow>
          (case geoip_Init ops (gi_Cidr g) of
             Err e \<Rightarrow> (c, Err e)
           | Panic p \<Rightarrow> (c, Panic p)
           | Ok (ip4, ip6) \<Rightarrow>
               (let m = \<lparr>gm_countryCode = gi_CountryCode g, gm_reverseMatch = gi_ReverseMatch g, gm_ip4 = ip4, gm_ip6 = ip6\<rparr> in
                (if length (gi_CountryCode g) > 0 then c @ [m] else c, Ok m))))"

definition MatchIPs :: "'i ipset_ops \<Rightarrow> 'i geoip_matcher list \<Rightarrow> bytes list \<Rightarrow> bool \<Rightarrow> bytes list res" where
  "MatchIPs ops matchers ips reverse =
     (if length matchers = 0 then Panic ''GeoIP matchers should not be empty to avoid ambiguity''
      else Ok (filter (\<lambda>ip. let isFound = list_ex (\<lambda>m. geoip_Match ops m ip) matchers in
                       (isFound \<and> \<not> reverse) \<or> (\<not> isFound \<and> reverse)) ips))"

section \<open>Conditions\<close>

datatype Domain_Type = Domain_Plain | Domain_Regex | Domain_Domain | Domain_Full | Domain_other int

record router_domain =
  rd_Type :: Domain_Type
  rd_Value :: string

fun matcherTypeMap :: "Domain_Type \<Rightarrow> match_type option" where
  "matcherTypeMap Domain_Plain = Some Substr"
| "matcherTypeMap Domain_Regex = Some Regex"
| "matcherTypeMap Domain_Domain = Some match_type.Domain"
| "matcherTypeMap Domain_Full = Some Full"
| "matcherTypeMap (Domain_other n) = None"

type_synonym regexp_compiler = "string \<Rightarrow> (string \<Rightarrow> bool) option"

text \<open>\<open>strmatcher.Type.New\<close>.\<close>

fun matcher_New :: "regexp_compiler \<Rightarrow> match_type \<Rightarrow> string \<Rightarrow> matcher res" where
  "matcher_New compile Full pattern = Ok (fullMatcher pattern)"
| "matcher_New compile Substr pattern = Ok (substrMatcher pattern)"
| "matcher_New compile match_type.Domain pattern = Ok (domainMatcher pattern)"
| "matcher_New compile Regex pattern =
     (case compile pattern of None \<Rightarrow> Err (ErrMsg ''error parsing regexp'') | Some p \<Rightarrow> Ok (regexMatcher p))"

definition domainToMatcher :: "regexp_compiler \<Rightarrow> router_domain \<Rightarrow> matcher res" where
  "domainToMatcher compile d =
     (case matcherTypeMap (rd_Type d) of
        None \<Rightarrow> Err (ErrMsg ''unsupported domain type'')
      | Some t \<Rightarrow>
          (case matcher_New compile t (rd_Value d) of
             Err e \<Rightarrow> Err (ErrMsg ''failed to create domain matcher'')
           | r \<Rightarrow> r))"

datatype domain_matcher = Linear matcher_group | Mph mph_group

text \<open>
  What building a rule needs from outside: the regular expressions, the IP sets, and, for the perfect hash, the
  orders that \<open>Build\<close> leaves open.
\<close>

record 'i build_env =
  bd_compile :: regexp_compiler
  bd_ipset :: "'i ipset_ops"
  bd_iterate :: "(string \<times> u32) list \<Rightarrow> (string \<times> u32) list"
  bd_by_size :: "(nat \<times> nat list) list \<Rightarrow> (nat \<times> nat list) list"

fun add_domain_patterns :: "regexp_compiler \<Rightarrow> router_domain list \<Rightarrow> mph_group \<Rightarrow> mph_group res" where
  "add_domain_patterns compile [] g = Ok g"
| "add_domain_patterns compile (d # ds) g =
     (case matcherTypeMap (rd_Type d) of
        None \<Rightarrow> Err (ErrMsg ''unsupported domain type'')
      | Some t \<Rightarrow> rbind (AddPattern compile (rd_Value d) t g) (\<lambda>(g, _). add_domain_patterns compile ds g))"

text \<open>\<open>None\<close> is a construction that does not return: a search for a seed that does not end.\<close>

definition NewMphDomainMatcher :: "'i build_env \<Rightarrow> router_domain list \<Rightarrow> domain_matcher res option" where
  "NewMphDomainMatcher env domains =
     (case add_domain_patterns (bd_compile env) domains NewMphMatcherGroup of
        Ok g \<Rightarrow> map_option (\<lambda>g. Ok (Mph g)) (mph_Build (bd_iterate env) (bd_by_size env) g)
      | Err e \<Rightarrow> Some (Err e)
      | Panic p \<Rightarrow> Some (Panic p))"

fun add_matchers :: "regexp_compiler \<Rightarrow> router_domain list \<Rightarrow> matcher_group \<Rightarrow> matcher_group res" where
  "add_matchers compile [] g = Ok g"
| "add_matchers compile (d # ds) g =
     rbind (domainToMatcher compile d) (\<lambda>m. add_matchers compile ds (fst (group_Add m g)))"

definition NewDomainMatcher :: "regexp_compiler \<Rightarrow> router_domain list \<Rightarrow> domain_matcher res" where
  "NewDomainMatcher compile domains = rmap Linear (add_matchers compile domains empty_group)"

definition ApplyDomain :: "domain_matcher \<Rightarrow> string \<Rightarrow> bool" where
  "ApplyDomain m domain =
     (case m of
        Linear g \<Rightarrow> length (group_Match g (ToLower domain)) > 0
      | Mph g \<Rightarrow> length (mph_Match g (ToLower domain)) > 0)"

datatype 'i condition =
    DomainCondition domain_matcher
  | MultiGeoIPMatcher "'i geoip_matcher list" bool
  | PortMatcher "mem_port_range list" bool
  | NetworkMatcher "bool list"
  | UserMatcher "string list" "(string \<Rightarrow> bool) list"
  | InboundTagMatcher "string list"
  | ProtocolMatcher "string list"
  | AttributeMatcher "(string \<times> (string \<Rightarrow> bool)) list"

fun new_geoip_matchers :: "'i ipset_ops \<Rightarrow> geoip list \<Rightarrow> ('i geoip_matcher list, 'i geoip_matcher list) act" where
  "new_geoip_matchers ops [] = act_ret []"
| "new_geoip_matchers ops (g # gs) =
     act_bind (container_Add ops g) (\<lambda>m. act_bind (new_geoip_matchers ops gs) (\<lambda>ms. act_ret (m # ms)))"

definition NewMultiGeoIPMatcher :: "'i ipset_ops \<Rightarrow> geoip list \<Rightarrow> bool \<Rightarrow> ('i geoip_matcher list, 'i condition) act" where
  "NewMultiGeoIPMatcher ops geoips onSource =
     act_bind (new_geoip_matchers ops geoips) (\<lambda>ms. act_ret (MultiGeoIPMatcher ms onSource))"

definition NewPortMatcher :: "port_range list \<Rightarrow> bool \<Rightarrow> 'i condition" where
  "NewPortMatcher list onSource = PortMatcher (PortListFromProto list) onSource"

text \<open>The number of a network in the enumeration of \<open>network.proto\<close>.\<close>

fun network_number :: "network \<Rightarrow> nat" where
  "network_number Network_Unknown = 0"
| "network_number Network_TCP = 2"
| "network_number Network_UDP = 3"
| "network_number Network_UNIX = 4"

definition NewNetworkMatcher :: "network list \<Rightarrow> 'i condition" where
  "NewNetworkMatcher networks = NetworkMatcher (fold (\<lambda>n l. l[network_number n := True]) networks (replicate 8 False))"

fun user_lists :: "regexp_compiler \<Rightarrow> string list \<Rightarrow> string list \<times> (string \<Rightarrow> bool) list" where
  "user_lists compile [] = ([], [])"
| "user_lists compile (user # users) =
     (case user_lists compile users of (us, ps) \<Rightarrow>
        if length user > 0 then
          (if length user > 7 \<and> prefix ''regexp:'' user then
             (case compile (drop 7 user) of Some re \<Rightarrow> (us, re # ps) | None \<Rightarrow> (us, ps))
           else (user # us, ps))
        else (us, ps))"

definition NewUserMatcher :: "regexp_compiler \<Rightarrow> string list \<Rightarrow> 'i condition" where
  "NewUserMatcher compile users = (case user_lists compile users of (us, ps) \<Rightarrow> UserMatcher us ps)"

definition NewInboundTagMatcher :: "string list \<Rightarrow> 'i condition" where
  "NewInboundTagMatcher tags = InboundTagMatcher (filter (\<lambda>t. length t > 0) tags)"

definition NewProtocolMatcher :: "string list \<Rightarrow> 'i condition" where
  "NewProtocolMatcher protocols = ProtocolMatcher (filter (\<lambda>p. length p > 0) protocols)"

text \<open>The maps of attributes are association lists in the order in which the loop visits them.\<close>

definition attributes_Match :: "(string \<times> (string \<Rightarrow> bool)) list \<Rightarrow> (string \<times> string) list \<Rightarrow> bool" where
  "attributes_Match configuredKeys attrs =
     (let httpHeaders = fold (\<lambda>(key, v) m. AList.update (ToLower key) v m) attrs [] in
      list_all (\<lambda>(key, regex). case map_of httpHeaders key of None \<Rightarrow> False | Some a \<Rightarrow> regex a) configuredKeys)"

text \<open>\<open>Apply\<close> of the conditions, in the order of the source; only the IP conditions change the context.\<close>

definition ips_match :: "'i ipset_ops \<Rightarrow> 'i geoip_matcher list \<Rightarrow> bytes list \<Rightarrow> bool" where
  "ips_match ops matchers ips = list_ex (\<lambda>ip. list_ex (\<lambda>m. geoip_Match ops m ip) matchers) ips"

fun cond_Apply ::
  "'i ipset_ops \<Rightarrow> 'd dns_client \<Rightarrow> 'i condition \<Rightarrow> routing_ctx \<Rightarrow> 'd \<Rightarrow> (routing_ctx \<times> 'd) \<times> bool res" where
  "cond_Apply ops lookup (DomainCondition m) ctx d =
     ((ctx, d), rbind (GetTargetDomain ctx) (\<lambda>domain. Ok (if length domain = 0 then False else ApplyDomain m domain)))"
| "cond_Apply ops lookup (MultiGeoIPMatcher ms onSource) ctx d =
     (if onSource then ((ctx, d), rmap (ips_match ops ms) (session_SourceIPs (base_session ctx)))
      else (case GetTargetIPs lookup ctx d of (s, r) \<Rightarrow> (s, rmap (ips_match ops ms) r)))"
| "cond_Apply ops lookup (PortMatcher port onSource) ctx d =
     ((ctx, d), Ok (port_list_Contains port
        (if onSource then session_SourcePort (base_session ctx) else session_TargetPort (base_session ctx))))"
| "cond_Apply ops lookup (NetworkMatcher list) ctx d =
     ((ctx, d), Ok (list ! network_number (session_Network (base_session ctx))))"
| "cond_Apply ops lookup (UserMatcher us ps) ctx d =
     ((ctx, d), Ok (let user = session_User (base_session ctx) in
        if length user = 0 then False else list_ex (\<lambda>u. u = user) us \<or> list_ex (\<lambda>re. re user) ps))"
| "cond_Apply ops lookup (InboundTagMatcher tags) ctx d =
     ((ctx, d), Ok (let tag = session_InboundTag (base_session ctx) in
        if length tag = 0 then False else list_ex (\<lambda>t. t = tag) tags))"
| "cond_Apply ops lookup (ProtocolMatcher protocols) ctx d =
     ((ctx, d), Ok (let protocol = session_Protocol (base_session ctx) in
        if length protocol = 0 then False else list_ex (\<lambda>p. prefix p protocol) protocols))"
| "cond_Apply ops lookup (AttributeMatcher keys) ctx d =
     ((ctx, d), Ok (case session_Attributes (base_session ctx) of None \<Rightarrow> False | Some attrs \<Rightarrow> attributes_Match keys attrs))"

text \<open>\<open>ConditionChan.Apply\<close>: all conditions, up to the first that fails.\<close>

fun chan_Apply ::
  "'i ipset_ops \<Rightarrow> 'd dns_client \<Rightarrow> 'i condition list \<Rightarrow> routing_ctx \<Rightarrow> 'd \<Rightarrow> (routing_ctx \<times> 'd) \<times> bool res" where
  "chan_Apply ops lookup [] ctx d = ((ctx, d), Ok True)"
| "chan_Apply ops lookup (c # cs) ctx d =
     (case cond_Apply ops lookup c ctx d of
        ((ctx, d), Ok True) \<Rightarrow> chan_Apply ops lookup cs ctx d
      | r \<Rightarrow> r)"

section \<open>Building a rule's condition (config.go)\<close>

datatype target_tag = Target_tag string | Balancing_tag string | No_target

record routing_rule =
  ru_TargetTag :: target_tag
  ru_RuleTag :: string
  ru_Domain :: "router_domain list"
  ru_Geoip :: "geoip list"
  ru_PortList :: "port_range list option"
  ru_Networks :: "network list"
  ru_SourceGeoip :: "geoip list"
  ru_SourcePortList :: "port_range list option"
  ru_UserEmail :: "string list"
  ru_InboundTag :: "string list"
  ru_Protocol :: "string list"
  ru_Attributes :: "(string \<times> string) list"
  ru_DomainMatcher :: string

definition ru_GetTag :: "routing_rule \<Rightarrow> string" where
  "ru_GetTag r = (case ru_TargetTag r of Target_tag t \<Rightarrow> t | _ \<Rightarrow> '''')"

definition ru_GetBalancingTag :: "routing_rule \<Rightarrow> string" where
  "ru_GetBalancingTag r = (case ru_TargetTag r of Balancing_tag t \<Rightarrow> t | _ \<Rightarrow> '''')"

fun compile_attributes :: "regexp_compiler \<Rightarrow> (string \<times> string) list \<Rightarrow> (string \<times> (string \<Rightarrow> bool)) list \<Rightarrow> (string \<times> (string \<Rightarrow> bool)) list res" where
  "compile_attributes compile [] m = Ok m"
| "compile_attributes compile ((key, val) # kvs) m =
     (case compile val of
        None \<Rightarrow> Panic ''regexp: Compile''
      | Some re \<Rightarrow> compile_attributes compile kvs (AList.update (ToLower key) re m))"

text \<open>A construction of the perfect hash that does not return is reported as a panic of its own, so that no rule comes out of it.\<close>

definition domain_condition :: "'i build_env \<Rightarrow> routing_rule \<Rightarrow> domain_matcher res" where
  "domain_condition env rr =
     (if ru_DomainMatcher rr = ''linear'' then
        (case NewDomainMatcher (bd_compile env) (ru_Domain rr) of
           Err e \<Rightarrow> Err (ErrMsg ''failed to build domain condition'')
         | r \<Rightarrow> r)
      else
        (case NewMphDomainMatcher env (ru_Domain rr) of
           None \<Rightarrow> Panic ''does not return''
         | Some (Err e) \<Rightarrow> Err (ErrMsg ''failed to build domain condition with MphDomainMatcher'')
         | Some r \<Rightarrow> r))"

text \<open>\<open>cond_if\<close> adds a condition when the field is given.\<close>

definition cond_if :: "bool \<Rightarrow> ('s, 'c) act \<Rightarrow> 'c list \<Rightarrow> ('s, 'c list) act" where
  "cond_if given mk conds = (if given then act_bind mk (\<lambda>c. act_ret (conds @ [c])) else act_ret conds)"

definition BuildCondition :: "'i build_env \<Rightarrow> routing_rule \<Rightarrow> ('i geoip_matcher list, 'i condition list) act" where
  "BuildCondition env rr =
     act_bind (cond_if (length (ru_Domain rr) > 0) (act_lift (rmap DomainCondition (domain_condition env rr))) []) (\<lambda>conds.
     act_bind (cond_if (length (ru_UserEmail rr) > 0) (act_ret (NewUserMatcher (bd_compile env) (ru_UserEmail rr))) conds) (\<lambda>conds.
     act_bind (cond_if (length (ru_InboundTag rr) > 0) (act_ret (NewInboundTagMatcher (ru_InboundTag rr))) conds) (\<lambda>conds.
     act_bind (case ru_PortList rr of None \<Rightarrow> act_ret conds | Some l \<Rightarrow> act_ret (conds @ [NewPortMatcher l False])) (\<lambda>conds.
     act_bind (case ru_SourcePortList rr of None \<Rightarrow> act_ret conds | Some l \<Rightarrow> act_ret (conds @ [NewPortMatcher l True])) (\<lambda>conds.
     act_bind (cond_if (length (ru_Networks rr) > 0) (act_ret (NewNetworkMatcher (ru_Networks rr))) conds) (\<lambda>conds.
     act_bind (cond_if (length (ru_Geoip rr) > 0) (NewMultiGeoIPMatcher (bd_ipset env) (ru_Geoip rr) False) conds) (\<lambda>conds.
     act_bind (cond_if (length (ru_SourceGeoip rr) > 0) (NewMultiGeoIPMatcher (bd_ipset env) (ru_SourceGeoip rr) True) conds) (\<lambda>conds.
     act_bind (cond_if (length (ru_Protocol rr) > 0) (act_ret (NewProtocolMatcher (ru_Protocol rr))) conds) (\<lambda>conds.
     act_bind (cond_if (length (ru_Attributes rr) > 0)
        (act_lift (rmap AttributeMatcher (compile_attributes (bd_compile env) (ru_Attributes rr) []))) conds) (\<lambda>conds.
     if length conds = 0 then act_lift (Err (ErrMsg ''this rule has no effective fields'')) else act_ret conds))))))))))"

section \<open>The two domain matchers\<close>

lemma numbers_of_Nil_iff: "numbers_of P ms = [] \<longleftrightarrow> \<not> list_ex P ms"
  by (induction ms rule: rev_induct) (simp_all add: numbers_of_snoc, simp add: numbers_of_def)

lemma group_Match_ex:
  assumes "s \<noteq> []"
  shows "length (group_Match (group_of ms) s) > 0 \<longleftrightarrow> list_ex (\<lambda>m. matcher_Match m s) ms"
proof -
  have "length (group_Match (group_of ms) s) = length (numbers_of (\<lambda>m. matcher_Match m s) ms)"
    using group_Match_numbers [OF assms, of ms] by (rule mset_eq_length)
  then show ?thesis using numbers_of_Nil_iff [of "\<lambda>m. matcher_Match m s" ms] by simp
qed

lemma add_matchers_fold:
  "add_matchers compile ds g = Ok g' \<Longrightarrow>
     \<exists>ms. list_all2 (\<lambda>d m. domainToMatcher compile d = Ok m) ds ms \<and> g' = fold (\<lambda>m g. fst (group_Add m g)) ms g"
proof (induction ds arbitrary: g)
  case (Cons d ds)
  then obtain m where m: "domainToMatcher compile d = Ok m" "add_matchers compile ds (fst (group_Add m g)) = Ok g'"
    by (auto simp: rbind_Ok_iff)
  from Cons.IH [OF m(2)] obtain ms where
    "list_all2 (\<lambda>d m. domainToMatcher compile d = Ok m) ds ms" "g' = fold (\<lambda>m g. fst (group_Add m g)) ms (fst (group_Add m g))"
    by blast
  with m(1) show ?case by (intro exI [of _ "m # ms"]) simp
qed simp

lemma list_ex_matchers:
  "list_all2 (\<lambda>d m. domainToMatcher compile d = Ok m) ds ms \<Longrightarrow>
     list_ex P ms \<longleftrightarrow> list_ex (\<lambda>d. \<exists>m. domainToMatcher compile d = Ok m \<and> P m) ds"
  by (induction rule: list_all2_induct) simp_all

lemma linear_Apply:
  assumes "NewDomainMatcher compile ds = Ok lin" and "s \<noteq> []"
  shows "ApplyDomain lin s \<longleftrightarrow> list_ex (\<lambda>d. \<exists>m. domainToMatcher compile d = Ok m \<and> matcher_Match m (ToLower s)) ds"
proof -
  obtain g where g: "add_matchers compile ds empty_group = Ok g" "lin = Linear g"
    using assms(1) by (auto simp: NewDomainMatcher_def rmap_Ok_iff)
  from add_matchers_fold [OF g(1)] obtain ms where
    ms: "list_all2 (\<lambda>d m. domainToMatcher compile d = Ok m) ds ms" "g = group_of ms"
    by (auto simp: group_of_def)
  have "ToLower s \<noteq> []" using assms(2) by (simp add: ToLower_def)
  then have "ApplyDomain lin s \<longleftrightarrow> list_ex (\<lambda>m. matcher_Match m (ToLower s)) ms"
    using g(2) ms(2) group_Match_ex by (simp add: ApplyDomain_def)
  with list_ex_matchers [OF ms(1)] show ?thesis by simp
qed

text \<open>Full and domain patterns without a leading dot.\<close>

definition name_pattern :: "router_domain \<Rightarrow> bool" where
  "name_pattern d \<longleftrightarrow> (rd_Type d = Domain_Full \<or> rd_Type d = Domain_Domain) \<and> \<not> prefix ''.'' (rd_Value d)"

definition pattern_of :: "router_domain \<Rightarrow> string \<times> match_type" where
  "pattern_of d = (rd_Value d, if rd_Type d = Domain_Full then Full else match_type.Domain)"

lemma add_domain_patterns_eq:
  "list_all name_pattern ds \<Longrightarrow> add_domain_patterns compile ds g = add_patterns compile (map pattern_of ds) g"
  by (induction ds arbitrary: g) (auto simp: name_pattern_def pattern_of_def)

lemma length_alist_update: "length (AList.update k v al) \<le> Suc (length al)"
  by (induction al) auto

lemma AddPattern_names:
  assumes "AddPattern compile p t g = Ok (g', n)" and "t = Full \<or> t = match_type.Domain"
  shows "mp_ac g' = mp_ac g \<and> mp_otherMatchers g' = mp_otherMatchers g \<and> length (mp_ruleMap g') \<le> length (mp_ruleMap g) + 2"
proof -
  have "g' = AddFullOrDomainPattern (ToLower p) t g" using assms by (auto simp: AddPattern_def)
  moreover have "length (AList.update k v (AList.update k' v' al)) \<le> length al + 2" for k v k' v' and al :: "(string \<times> u32) list"
    using length_alist_update [of k v "AList.update k' v' al"] length_alist_update [of k' v' al] by simp
  moreover have "length (AList.update k v al) \<le> length al + 2" for k v and al :: "(string \<times> u32) list"
    using length_alist_update [of k v al] by simp
  ultimately show ?thesis using assms(2) by (auto simp: AddFullOrDomainPattern_def Let_def)
qed

lemma add_patterns_names:
  "add_patterns compile ps g = Ok g' \<Longrightarrow> list_all (\<lambda>(p, t). t = Full \<or> t = match_type.Domain) ps \<Longrightarrow>
     mp_ac g' = mp_ac g \<and> mp_otherMatchers g' = mp_otherMatchers g \<and> length (mp_ruleMap g') \<le> length (mp_ruleMap g) + 2 * length ps"
proof (induction ps arbitrary: g)
  case (Cons q ps)
  obtain p t where q: "q = (p, t)" by fastforce
  then obtain g1 n where a: "AddPattern compile p t g = Ok (g1, n)" "add_patterns compile ps g1 = Ok g'"
    using Cons.prems(1) by (auto simp: rbind_Ok_iff)
  with Cons.IH [OF a(2)] AddPattern_names [OF a(1)] Cons.prems(2) q show ?case by auto
qed simp

lemma mph_Build_frame:
  assumes "mph_Build iterate by_size g = Some g'" and "mp_ac g = None"
  shows "mp_ac g' = None \<and> mp_otherMatchers g' = mp_otherMatchers g"
  using assms by (auto simp: mph_Build_def Let_def)

lemma mph_Apply:
  assumes "NewMphDomainMatcher env ds = Some (Ok mph)" and "reorders (bd_iterate env)" and "reorders (bd_by_size env)"
    and "list_all name_pattern ds" and "ds \<noteq> []" and "length ds < 2 ^ 31"
  shows "ApplyDomain mph s \<longleftrightarrow>
    list_ex (\<lambda>d. matcher_Match ((if rd_Type d = Domain_Full then fullMatcher else domainMatcher) (ToLower (rd_Value d))) (ToLower s)) ds"
proof -
  let ?ps = "map pattern_of ds"
  obtain g0 g where g0: "add_patterns (bd_compile env) ?ps NewMphMatcherGroup = Ok g0"
    and g: "mph_Build (bd_iterate env) (bd_by_size env) g0 = Some g" and mph: "mph = Mph g"
    using assms(1) add_domain_patterns_eq [OF assms(4)]
    by (auto simp: NewMphDomainMatcher_def split: res.splits)
  have names: "list_all (\<lambda>(p, t). t = Full \<or> t = match_type.Domain) ?ps"
    by (auto simp: list_all_iff pattern_of_def)
  have a0: "mp_ac g0 = None" "mp_otherMatchers g0 = []" "length (mp_ruleMap g0) < 2 ^ 32"
    using add_patterns_names [OF g0 names] assms(6) by (auto simp: NewMphMatcherGroup_def)
  have fr: "mp_ac g = None" "mp_otherMatchers g = []" using mph_Build_frame [OF g a0(1)] a0(2) by simp_all
  have "has_rules ?ps" using names assms(5) by (cases ds) (auto simp: has_rules_def)
  moreover have "list_all (\<lambda>(p, t). t = Full \<or> t = match_type.Domain \<longrightarrow> \<not> prefix ''.'' p) ?ps"
    using assms(4) by (auto simp: list_all_iff pattern_of_def name_pattern_def)
  ultimately have "mph_Match g (ToLower s) \<noteq> [] \<longleftrightarrow>
      list_ex (\<lambda>(p, t). (t = Full \<and> matcher_Match (fullMatcher (ToLower p)) (ToLower s)) \<or>
                     (t = match_type.Domain \<and> matcher_Match (domainMatcher (ToLower p)) (ToLower s))) ?ps"
    using mph_Match_patterns [OF g0 g assms(2,3) a0(3)] fr by simp
  then show ?thesis
    by (simp add: mph ApplyDomain_def list_ex_iff pattern_of_def del: matcher_Match.simps)
qed

lemma mph_matcher_returns:
  assumes "list_all name_pattern ds" and "ds \<noteq> []" and "reorders (bd_iterate env)" and "reorders (bd_by_size env)"
    and "seeds_spread (table_keys (map pattern_of ds))"
  shows "\<exists>mph. NewMphDomainMatcher env ds = Some (Ok mph)"
proof -
  let ?ps = "map pattern_of ds"
  have names: "list_all (\<lambda>(p, t). t = Full \<or> t = match_type.Domain) ?ps"
    by (auto simp: list_all_iff pattern_of_def)
  have "\<exists>g'. add_patterns c ps g = Ok g'" if "list_all (\<lambda>(p, t). t = Full \<or> t = match_type.Domain) ps" for c ps g
    using that by (induction ps arbitrary: g) (auto simp: AddPattern_def rbind_Ok_iff)
  then obtain g0 where g0: "add_patterns (bd_compile env) ?ps NewMphMatcherGroup = Ok g0" using names by blast
  have "has_rules ?ps" using names assms(2) by (cases ds) (auto simp: has_rules_def)
  from patterns_Build_returns [OF g0 this assms(3-5)] show ?thesis
    using g0 add_domain_patterns_eq [OF assms(1)] by (auto simp: NewMphDomainMatcher_def)
qed

lemma linear_matcher_returns:
  "list_all name_pattern ds \<Longrightarrow> \<exists>g'. add_matchers compile ds g = Ok g'"
  by (induction ds arbitrary: g) (auto simp: name_pattern_def domainToMatcher_def rbind_Ok_iff)

text \<open>
  C12. The two domain matchers agree: for at least one and at most 2^31 full and domain patterns in lower case that do not begin with a dot, whose keys the
  hash function spreads (some seed sends the keys of a bucket to different free slots), both constructions return, and the linear matcher and the
  perfect hash matcher accept the same names, exactly those that equal a full pattern or lie at or below a domain pattern.
\<close>

theorem linear_mph_agree:
  assumes "list_all name_pattern ds" and "list_all (\<lambda>d. ToLower (rd_Value d) = rd_Value d) ds"
    and "ds \<noteq> []" and "length ds < 2 ^ 31" and "seeds_spread (table_keys (map pattern_of ds))"
    and "reorders (bd_iterate env)" and "reorders (bd_by_size env)"
  shows "\<exists>lin mph. NewDomainMatcher (bd_compile env) ds = Ok lin \<and> NewMphDomainMatcher env ds = Some (Ok mph) \<and>
    (\<forall>s. s \<noteq> [] \<longrightarrow> (ApplyDomain lin s \<longleftrightarrow> ApplyDomain mph s) \<and> (ApplyDomain mph s \<longleftrightarrow>
       list_ex (\<lambda>d. matcher_Match ((if rd_Type d = Domain_Full then fullMatcher else domainMatcher) (rd_Value d)) (ToLower s)) ds))"
proof -
  obtain mph where mph: "NewMphDomainMatcher env ds = Some (Ok mph)" using mph_matcher_returns [OF assms(1,3,6,7,5)] by blast
  obtain g where "add_matchers (bd_compile env) ds empty_group = Ok g" using linear_matcher_returns [OF assms(1)] by blast
  then obtain lin where lin: "NewDomainMatcher (bd_compile env) ds = Ok lin" by (simp add: NewDomainMatcher_def)
  have l: "ToLower (rd_Value d) = rd_Value d" if "d \<in> set ds" for d using that assms(2) by (auto simp: list_all_iff)
  have d: "(\<exists>m. domainToMatcher compile d = Ok m \<and> matcher_Match m t) \<longleftrightarrow>
      matcher_Match ((if rd_Type d = Domain_Full then fullMatcher else domainMatcher) (rd_Value d)) t"
    if "d \<in> set ds" for d t compile
    using that assms(1) by (auto simp: list_all_iff name_pattern_def domainToMatcher_def simp del: matcher_Match.simps)
  have "ApplyDomain lin s \<longleftrightarrow> list_ex (\<lambda>d. matcher_Match ((if rd_Type d = Domain_Full then fullMatcher else domainMatcher) (rd_Value d)) (ToLower s)) ds"
    if "s \<noteq> []" for s unfolding linear_Apply [OF lin that] list_ex_iff using d by blast
  moreover have "ApplyDomain mph s \<longleftrightarrow> list_ex (\<lambda>d. matcher_Match ((if rd_Type d = Domain_Full then fullMatcher else domainMatcher) (rd_Value d)) (ToLower s)) ds"
    for s unfolding mph_Apply [OF mph assms(6,7,1,3,4)] list_ex_iff using l by metis
  ultimately show ?thesis using lin mph by blast
qed

definition sample_domains :: "router_domain list" where
  "sample_domains = [\<lparr>rd_Type = Domain_Domain, rd_Value = ''example.com''\<rparr>, \<lparr>rd_Type = Domain_Full, rd_Value = ''a.org''\<rparr>]"

definition sample_build_env :: "unit build_env" where
  "sample_build_env = \<lparr>bd_compile = (\<lambda>_. None),
     bd_ipset = \<lparr>is_IPSet = (\<lambda>_. Ok ()), is_Contains = (\<lambda>_ _. False), is_FromStdIP = Some\<rparr>,
     bd_iterate = id, bd_by_size = id\<rparr>"

theorem linear_mph_agree_witness:
  "\<exists>lin mph. NewDomainMatcher (\<lambda>_. None) sample_domains = Ok lin \<and> NewMphDomainMatcher sample_build_env sample_domains = Some (Ok mph) \<and>
     ApplyDomain lin ''WWW.Example.com'' \<and> ApplyDomain mph ''WWW.Example.com'' \<and> \<not> ApplyDomain mph ''www.a.org''"
proof -
  have l: "ToLower ''example.com'' = ''example.com''" "ToLower ''Example.com'' = ''example.com''" "ToLower ''a.org'' = ''a.org''"
    "ToLower ''WWW.Example.com'' = ''www.example.com''" "ToLower ''www.a.org'' = ''www.a.org''" by code_simp+
  have "table_keys (map pattern_of sample_domains) = table_keys sample_patterns"
    unfolding sample_keys by (auto simp: table_keys_def sample_domains_def pattern_of_def pattern_keys_def l)
  then have "seeds_spread (table_keys (map pattern_of sample_domains))" using sample_spreads by simp
  moreover have "list_all name_pattern sample_domains" "list_all (\<lambda>d. ToLower (rd_Value d) = rd_Value d) sample_domains"
    by (simp_all add: sample_domains_def name_pattern_def l)
  ultimately obtain lin mph where m: "NewDomainMatcher (\<lambda>_. None) sample_domains = Ok lin" "NewMphDomainMatcher sample_build_env sample_domains = Some (Ok mph)"
    "\<And>s. s \<noteq> [] \<Longrightarrow> (ApplyDomain lin s \<longleftrightarrow> ApplyDomain mph s) \<and> (ApplyDomain mph s \<longleftrightarrow>
       list_ex (\<lambda>d. matcher_Match ((if rd_Type d = Domain_Full then fullMatcher else domainMatcher) (rd_Value d)) (ToLower s)) sample_domains)"
    using linear_mph_agree [of sample_domains sample_build_env] by (auto simp: sample_domains_def sample_build_env_def reorders_def simp del: matcher_Match.simps)
  have "ApplyDomain mph ''WWW.Example.com''" "\<not> ApplyDomain mph ''www.a.org''"
    using m(3) [of "''WWW.Example.com''"] m(3) [of "''www.a.org''"] by (simp_all add: sample_domains_def l suffix_def)
  with m show ?thesis by blast
qed

lemma lower_char_idem: "lower_char (lower_char c) = lower_char c"
  by (simp add: lower_char_def)

lemma sublist_lower:
  assumes "sublist p (ToLower s)"
  shows "ToLower p = p"
proof -
  obtain a b where "ToLower s = a @ p @ b" using assms by (auto simp: sublist_def)
  moreover have "ToLower (ToLower s) = ToLower s" by (simp add: ToLower_def lower_char_idem)
  ultimately have "map lower_char (a @ p @ b) = a @ p @ b" by (simp add: ToLower_def)
  then show ?thesis by (auto simp: ToLower_def append_eq_append_conv)
qed

text \<open>
  In linear mode a plain, domain or full pattern with an upper-case letter matches no name at all: the
  name is lowered before it is compared, the pattern is not.  The perfect hash mode lowers both.
\<close>

theorem linear_uppercase_dead:
  assumes "NewDomainMatcher compile [d] = Ok lin" and "ToLower (rd_Value d) \<noteq> rd_Value d"
    and "rd_Type d = Domain_Plain \<or> rd_Type d = Domain_Domain \<or> rd_Type d = Domain_Full" and "s \<noteq> []"
  shows "\<not> ApplyDomain lin s"
proof -
  have "\<not> sublist (rd_Value d) (ToLower s)" using assms(2) sublist_lower by blast
  moreover have "sublist (rd_Value d) (ToLower s)" if "matcher_Match m (ToLower s)" "domainToMatcher compile d = Ok m" for m
    using that assms(3) by (auto simp: domainToMatcher_def suffix_imp_sublist split: if_splits)
  ultimately show ?thesis using linear_Apply [OF assms(1,4)] by auto
qed

theorem linear_uppercase_dead_witness:
  "\<exists>lin. NewDomainMatcher (\<lambda>_. None) [\<lparr>rd_Type = Domain_Full, rd_Value = ''Example.com''\<rparr>] = Ok lin \<and>
     \<not> ApplyDomain lin ''Example.com''"
proof -
  let ?ds = "[\<lparr>rd_Type = Domain_Full, rd_Value = ''Example.com''\<rparr>]"
  have "is_ok (NewDomainMatcher (\<lambda>_. None) ?ds)" by code_simp
  then obtain lin where lin: "NewDomainMatcher (\<lambda>_. None) ?ds = Ok lin"
    by (cases "NewDomainMatcher (\<lambda>_. None) ?ds") simp_all
  have "ToLower ''Example.com'' \<noteq> ''Example.com''" by code_simp
  then show ?thesis using linear_uppercase_dead [OF lin] lin by simp
qed

section \<open>GeoIP matchers match their prefixes\<close>

definition addr_bits :: "bytes \<Rightarrow> bool list" where
  "addr_bits ip = concat (map (\<lambda>b. map (\<lambda>k. bit b (7 - k)) [0..<8]) ip)"

text \<open>An address lies in a prefix if it is of the same family and agrees in the leading bits.\<close>

definition in_prefix :: "bytes \<times> nat \<Rightarrow> bytes \<Rightarrow> bool" where
  "in_prefix p ip \<longleftrightarrow> length (fst p) = length ip \<and> take (snd p) (addr_bits (fst p)) = take (snd p) (addr_bits ip)"

text \<open>What the \<open>netipx\<close> package documents of its sets and of \<open>FromStdIP\<close>.\<close>

definition ipset_laws :: "'i ipset_ops \<Rightarrow> bool" where
  "ipset_laws ops \<longleftrightarrow>
     (\<forall>ps s ip. is_IPSet ops ps = Ok s \<longrightarrow> (is_Contains ops s ip \<longleftrightarrow> list_ex (\<lambda>p. in_prefix p ip) ps)) \<and>
     (\<forall>ip. length ip = 4 \<longrightarrow> is_FromStdIP ops ip = Some ip) \<and>
     (\<forall>ip. length ip = 16 \<longrightarrow> is_FromStdIP ops ip = Some (if is_v4_mapped ip then drop 12 ip else ip))"

definition proper_ip :: "bytes \<Rightarrow> bool" where
  "proper_ip ip \<longleftrightarrow> length ip = 4 \<or> (length ip = 16 \<and> \<not> is_v4_mapped ip)"

definition cidr_prefix :: "cidr \<Rightarrow> bytes \<times> nat" where
  "cidr_prefix c = (cidr_Ip c, unat (cidr_Prefix c))"

lemma add_prefixes_proper:
  "add_prefixes cs b4 b6 = Ok (b4', b6') \<Longrightarrow> list_all (\<lambda>c. proper_ip (cidr_Ip c)) cs \<Longrightarrow>
     b4' = b4 @ map cidr_prefix (filter (\<lambda>c. length (cidr_Ip c) = 4) cs) \<and>
     b6' = b6 @ map cidr_prefix (filter (\<lambda>c. length (cidr_Ip c) = 16) cs)"
  by (induction cs b4 b6 rule: add_prefixes.induct)
     (auto simp: rbind_Ok_iff ParsePrefix_def Let_def proper_ip_def cidr_prefix_def split: if_splits)

text \<open>
  A GeoIP matcher matches exactly the addresses in its prefixes, or exactly the others when it is reversed:
  for a matcher freshly built from prefixes of 4 or 16 bytes, and any address of either family.
\<close>

theorem geoip_Match_exact:
  assumes "container_Add ops g [] = (c, Ok m)" and "ipset_laws ops"
    and "list_all (\<lambda>c. proper_ip (cidr_Ip c)) (gi_Cidr g)" and "proper_ip ip"
  shows "geoip_Match ops m ip \<longleftrightarrow> gi_ReverseMatch g \<noteq> list_ex (\<lambda>c. in_prefix (cidr_prefix c) ip) (gi_Cidr g)"
proof -
  obtain b4 b6 i4 i6 where b: "add_prefixes (gi_Cidr g) [] [] = Ok (b4, b6)" "is_IPSet ops b4 = Ok i4" "is_IPSet ops b6 = Ok i6"
    and m: "m = \<lparr>gm_countryCode = gi_CountryCode g, gm_reverseMatch = gi_ReverseMatch g, gm_ip4 = i4, gm_ip6 = i6\<rparr>"
    using assms(1) by (auto simp: container_Add_def geoip_Init_def rbind_Ok_iff Let_def split: res.splits if_splits)
  have len: "length (cidr_Ip c) = length ip" if "in_prefix (cidr_prefix c) ip" for c
    using that by (simp add: in_prefix_def cidr_prefix_def)
  have C: "is_Contains ops s ip \<longleftrightarrow> list_ex (\<lambda>p. in_prefix p ip) ps" if "is_IPSet ops ps = Ok s" for ps s
    using assms(2) that unfolding ipset_laws_def by blast
  have N: "is_FromStdIP ops ip = Some ip" using assms(2,4) by (auto simp: ipset_laws_def proper_ip_def)
  have P: "b4 = map cidr_prefix (filter (\<lambda>c. length (cidr_Ip c) = 4) (gi_Cidr g))"
    "b6 = map cidr_prefix (filter (\<lambda>c. length (cidr_Ip c) = 16) (gi_Cidr g))"
    using add_prefixes_proper [OF b(1) assms(3)] by simp_all
  have "list_ex (\<lambda>p. in_prefix p ip) (map cidr_prefix (filter (\<lambda>c. length (cidr_Ip c) = length ip) (gi_Cidr g))) \<longleftrightarrow>
      list_ex (\<lambda>c. in_prefix (cidr_prefix c) ip) (gi_Cidr g)"
    using len by (auto simp: list_ex_iff)
  then show ?thesis
    using assms(4) C [OF b(2)] C [OF b(3)] P
    by (auto simp: geoip_Match_def match4_def match6_def m N proper_ip_def)
qed

text \<open>A set as the list of its prefixes obeys the laws.\<close>

definition list_ipset :: "(bytes \<times> nat) list ipset_ops" where
  "list_ipset = \<lparr>is_IPSet = Ok, is_Contains = (\<lambda>s ip. list_ex (\<lambda>p. in_prefix p ip) s),
     is_FromStdIP = (\<lambda>ip. if length ip = 4 then Some ip
                         else if length ip = 16 then Some (if is_v4_mapped ip then drop 12 ip else ip) else None)\<rparr>"

lemma list_ipset_laws: "ipset_laws list_ipset"
  by (simp add: ipset_laws_def list_ipset_def)

definition sample_geoip :: geoip where
  "sample_geoip = \<lparr>gi_CountryCode = ''X'', gi_Cidr = [\<lparr>cidr_Ip = [10, 0, 0, 0], cidr_Prefix = 8\<rparr>], gi_ReverseMatch = False\<rparr>"

theorem geoip_Match_exact_witness:
  "\<exists>m c. container_Add list_ipset sample_geoip [] = (c, Ok m) \<and> geoip_Match list_ipset m [10, 1, 2, 3] \<and>
     \<not> geoip_Match list_ipset m [11, 1, 2, 3]"
proof -
  have "is_ok (snd (container_Add list_ipset sample_geoip []))" by code_simp
  then obtain c m where a: "container_Add list_ipset sample_geoip [] = (c, Ok m)"
    by (metis is_ok.elims(2) prod.collapse)
  have "in_prefix ([10, 0, 0, 0], 8) [10, 1, 2, 3]" "\<not> in_prefix ([10, 0, 0, 0], 8) [11, 1, 2, 3]" by code_simp+
  then show ?thesis
    using geoip_Match_exact [OF a list_ipset_laws, of "[10, 1, 2, 3]"] geoip_Match_exact [OF a list_ipset_laws, of "[11, 1, 2, 3]"] a
    by (simp add: sample_geoip_def proper_ip_def cidr_prefix_def)
qed

end
