(* ===== verification/Sniff.thy ===== *)
theory Sniff
  imports RouterCond
begin

text \<open>
  Recognising protocols from the first bytes of a connection: the server name of a TLS client hello
  (\<open>common/protocol/tls/sniff.go\<close>), the host of an HTTP request (\<open>common/protocol/http/sniff.go\<close>, \<open>headers.go\<close>) and
  BitTorrent over TCP and over uTP (\<open>common/protocol/bittorrent/bittorrent.go\<close>).  A sniffer answers with what it found,
  with \<open>ErrNoClue\<close> if more bytes may still tell, or with another error.
\<close>

section \<open>TLS\<close>

definition errNotTLS :: goerr where "errNotTLS = ErrMsg ''not TLS header''"

definition errNotClientHello :: goerr where "errNotClientHello = ErrMsg ''not client hello''"

definition IsValidTLSVersion :: "byte \<Rightarrow> byte \<Rightarrow> bool" where
  "IsValidTLSVersion major minor \<longleftrightarrow> major = 3"

text \<open>A name of type 0: bytes up to the blank ask for more data, a final dot is refused.\<close>

definition check_name :: "bytes \<Rightarrow> string res" where
  "check_name name =
     (if list_ex (\<lambda>b. b \<le> 32) name then Err ErrProtoNeedMoreData
      else if name \<noteq> [] \<and> last name = 46 then Err errNotClientHello
      else Ok (of_bytes name))"

text \<open>The list of names in a server name extension; \<open>None\<close> if it has none of type 0.\<close>

function server_names :: "bytes \<Rightarrow> string option res" where
  "server_names d =
     (if d = [] then Ok None
      else if length d < 3 then Err errNotClientHello
      else
        rbind (at_index d 0) (\<lambda>nameType.
        rbind (two_bytes d 1) (\<lambda>nameLen.
        rbind (bytes_from d 3) (\<lambda>d.
          if length d < nameLen then Err errNotClientHello
          else if nameType = 0 then rbind (bytes_to d nameLen) (\<lambda>name. rmap Some (check_name name))
          else rbind (bytes_from d nameLen) server_names))))"
  by pat_completeness auto
termination
  by (relation "measure length") (auto simp: bytes_from_def split: if_splits)

declare server_names.simps [simp del]

definition server_name_extension :: "bytes \<Rightarrow> string option res" where
  "server_name_extension d =
     (if length d < 2 then Err errNotClientHello
      else
        rbind (two_bytes d 0) (\<lambda>namesLen.
        rbind (bytes_from d 2) (\<lambda>d.
          if length d \<noteq> namesLen then Err errNotClientHello else server_names d)))"

function hello_extensions :: "bytes \<Rightarrow> string res" where
  "hello_extensions data =
     (if data = [] then Err errNotTLS
      else if length data < 4 then Err errNotClientHello
      else
        rbind (two_bytes data 0) (\<lambda>extension.
        rbind (two_bytes data 2) (\<lambda>len.
        rbind (bytes_from data 4) (\<lambda>data.
          if length data < len then Err errNotClientHello
          else
            rbind (if extension = 0 then rbind (bytes_to data len) server_name_extension else Ok None) (\<lambda>found.
              case found of
                Some name \<Rightarrow> Ok name
              | None \<Rightarrow> rbind (bytes_from data len) hello_extensions)))))"
  by pat_completeness auto
termination
  by (relation "measure length") (auto simp: bytes_from_def split: if_splits)

declare hello_extensions.simps [simp del]

definition ReadClientHello :: "bytes \<Rightarrow> string res" where
  "ReadClientHello data =
     (if length data < 42 then Err ErrNoClue
      else rbind (at_index data 38) (\<lambda>b.
        let sessionIDLen = unat b in
        if sessionIDLen > 32 \<or> length data < 39 + sessionIDLen then Err ErrNoClue
        else rbind (bytes_from data (39 + sessionIDLen)) (\<lambda>data.
          if length data < 2 then Err ErrNoClue
          else rbind (two_bytes data 0) (\<lambda>cipherSuiteLen.
            if cipherSuiteLen mod 2 = 1 \<or> length data < 2 + cipherSuiteLen then Err errNotClientHello
            else rbind (bytes_from data (2 + cipherSuiteLen)) (\<lambda>data.
              if length data < 1 then Err ErrNoClue
              else rbind (at_index data 0) (\<lambda>b.
                let compressionMethodsLen = unat b in
                if length data < 1 + compressionMethodsLen then Err ErrNoClue
                else rbind (bytes_from data (1 + compressionMethodsLen)) (\<lambda>data.
                  if length data < 2 then Err errNotClientHello
                  else rbind (two_bytes data 0) (\<lambda>extensionsLength.
                    rbind (bytes_from data 2) (\<lambda>data.
                      if extensionsLength \<noteq> length data then Err errNotClientHello
                      else hello_extensions data)))))))))"

definition SniffTLS :: "bytes \<Rightarrow> string res" where
  "SniffTLS b =
     (if length b < 5 then Err ErrNoClue
      else rbind (at_index b 0) (\<lambda>t.
        if t \<noteq> 22 then Err errNotTLS
        else rbind (at_index b 1) (\<lambda>major. rbind (at_index b 2) (\<lambda>minor.
          if \<not> IsValidTLSVersion major minor then Err errNotTLS
          else rbind (two_bytes b 3) (\<lambda>headerLen.
            if 5 + headerLen > length b then Err ErrNoClue
            else rbind (bytes_to b (5 + headerLen)) (\<lambda>r. rbind (bytes_from r 5) ReadClientHello))))))"

section \<open>HTTP\<close>

text \<open>\<open>strconv.Atoi\<close>: an optional sign and decimal digits, within \<open>int64\<close>.\<close>

definition Atoi :: "string \<Rightarrow> int res" where
  "Atoi s =
     (let neg = (s \<noteq> [] \<and> hd s = CHR ''-'');
          ds = (if s \<noteq> [] \<and> (hd s = CHR ''-'' \<or> hd s = CHR ''+'') then tl s else s);
          v = int (dec_val ds) in
      if ds = [] \<or> \<not> list_all is_digit ds then Err (ErrMsg ''invalid syntax'')
      else if (if neg then v > 2 ^ 63 else v \<ge> 2 ^ 63) then Err (ErrMsg ''value out of range'')
      else Ok (if neg then - v else v))"

definition ParseHost :: "string \<Rightarrow> port \<Rightarrow> destination res" where
  "ParseHost rawHost defaultPort =
     (case SplitHostPort rawHost of
        Err e \<Rightarrow>
          (if e = ErrMsg ''missing port in address'' then Ok (TCPDestination (ParseAddress rawHost) defaultPort)
           else Err e)
      | Panic p \<Rightarrow> Panic p
      | Ok (host, rawPort) \<Rightarrow>
          (if rawPort = [] then Ok (TCPDestination (ParseAddress host) defaultPort)
           else rmap (\<lambda>intPort. TCPDestination (ParseAddress host) (word_of_int intPort)) (Atoi rawPort)))"

definition methods :: "string list" where
  "methods = [''get'', ''post'', ''head'', ''put'', ''delete'', ''options'', ''connect'']"

definition errNotHTTPMethod :: goerr where "errNotHTTPMethod = ErrMsg ''not an HTTP method''"

text \<open>
  \<open>strings.EqualFold\<close> of a method with as many bytes as it has: a byte outside ASCII makes the number of runes differ
  or is an invalid rune, so the comparison is that of the letters without their case.
\<close>

fun method_loop :: "string \<Rightarrow> string list \<Rightarrow> unit res" where
  "method_loop b [] = Err errNotHTTPMethod"
| "method_loop b (m # ms) =
     (if length b \<ge> length m \<and> ToLower (take (length m) b) = m then Ok ()
      else if length b < length m then Err ErrNoClue
      else method_loop b ms)"

definition beginWithHTTPMethod :: "string \<Rightarrow> unit res" where
  "beginWithHTTPMethod b = method_loop b methods"

text \<open>\<open>bytes.Split\<close> at a single byte.\<close>

fun bytes_Split :: "char \<Rightarrow> string \<Rightarrow> string list" where
  "bytes_Split c [] = [[]]"
| "bytes_Split c (x # xs) =
     (if x = c then [] # bytes_Split c xs
      else (case bytes_Split c xs of [] \<Rightarrow> [[x]] | p # ps \<Rightarrow> (x # p) # ps))"

text \<open>
  The loop over the header lines.  \<open>sa\<close> is \<open>ShouldSniffAttr\<close>; the attributes set before an error stay.
\<close>

fun http_headers :: "bool \<Rightarrow> string list \<Rightarrow> session_content option \<Rightarrow> string \<Rightarrow> session_content option \<times> string res" where
  "http_headers sa [] content host = (content, Ok host)"
| "http_headers sa (header # hs) content host =
     (if header = [] then (content, Ok host)
      else
        (case index_of (CHR '':'') header of
           None \<Rightarrow> http_headers sa hs content host
         | Some i \<Rightarrow>
             (let key = ToLower (take i header);
                  val = TrimSpace (drop (i + 1) header);
                  content = (if sa then map_option (SetAttribute key val) content else content) in
              if key = ''host'' then
                (case ParseHost (ToLower val) 80 of
                   Ok dest \<Rightarrow>
                     (case dest_Address dest of
                        None \<Rightarrow> (content, nil_deref)
                      | Some a \<Rightarrow> http_headers sa hs content (addr_String a))
                 | Err e \<Rightarrow> (content, Err e)
                 | Panic p \<Rightarrow> (content, Panic p))
              else http_headers sa hs content host)))"

definition request_line :: "string \<Rightarrow> session_content \<Rightarrow> session_content" where
  "request_line l content =
     (case bytes_Split (CHR '' '') l of
        [m, p, v] \<Rightarrow> SetAttribute '':path'' p (SetAttribute '':method'' m content)
      | _ \<Rightarrow> content)"

definition SniffHTTP :: "bytes \<Rightarrow> session_content option \<Rightarrow> session_content option \<times> string res" where
  "SniffHTTP bs content =
     (let b = of_bytes bs;
          sa = (case content of None \<Rightarrow> False | Some c \<Rightarrow> (case ct_Attributes c of None \<Rightarrow> True | Some m \<Rightarrow> m = [])) in
      case beginWithHTTPMethod b of
        Err e \<Rightarrow> (content, Err e)
      | Panic p \<Rightarrow> (content, Panic p)
      | Ok _ \<Rightarrow>
          (let headers = bytes_Split (CHR ''\<newline>'') b in
           case http_headers sa (tl headers) content [] of
             (content, Ok host) \<Rightarrow>
               (if sa then map_option (request_line (hd headers)) content else content,
                if host \<noteq> [] then Ok host else Err ErrNoClue)
           | (content, Err e) \<Rightarrow> (content, Err e)
           | (content, Panic p) \<Rightarrow> (content, Panic p)))"

section \<open>BitTorrent\<close>

definition errNotBittorrent :: goerr where "errNotBittorrent = ErrMsg ''not bittorrent header''"

definition SniffBittorrent :: "bytes \<Rightarrow> unit res" where
  "SniffBittorrent b =
     (if length b < 20 then Err ErrNoClue
      else rbind (at_index b 0) (\<lambda>h.
        if h = 19 \<and> of_bytes (drop 1 (take 20 b)) = ''BitTorrent protocol'' then Ok () else Err errNotBittorrent))"

text \<open>
  Reading \<open>n\<close> bytes off the buffer made of the payload, by \<open>binary.Read\<close> or by \<open>ReadBytes\<close>: \<open>ErrNoClue\<close> is what
  \<open>SniffUTP\<close> answers when they are not there.
\<close>

definition next_bytes :: "nat \<Rightarrow> bytes \<Rightarrow> (bytes \<times> bytes) res" where
  "next_bytes n b = (if n \<le> length b then Ok (take n b, drop n b) else Err ErrNoClue)"

function utp_extensions :: "byte \<Rightarrow> bytes \<Rightarrow> bytes res" where
  "utp_extensions extension b =
     (if extension = 0 then Ok b
      else if extension \<noteq> 1 then Err errNotBittorrent
      else
        rbind (next_bytes 1 b) (\<lambda>eb. rbind (next_bytes 1 (snd eb)) (\<lambda>lb.
        rbind (next_bytes (unat (hd (fst lb))) (snd lb)) (\<lambda>r. utp_extensions (hd (fst eb)) (snd r)))))"
  by pat_completeness auto
termination
  by (relation "measure (length \<circ> snd)") (auto simp: next_bytes_def split: if_splits)

declare utp_extensions.simps [simp del]

text \<open>
  \<open>now\<close> is \<open>time.Now().UnixMicro()\<close>; \<open>24*time.Hour\<close> is a number of nanoseconds.
\<close>

definition SniffUTP :: "int \<Rightarrow> bytes \<Rightarrow> unit res" where
  "SniffUTP now b =
     (if length b < 20 then Err ErrNoClue
      else rbind (next_bytes 1 b) (\<lambda>r. rbind (at_index b 0) (\<lambda>h.
        if drop_bit 4 h AND 15 > 4 \<or> h AND 15 \<noteq> 1 then Err errNotBittorrent
        else rbind (next_bytes 1 (snd r)) (\<lambda>r.
          let extension = hd (fst r) in
          if extension \<noteq> 0 \<and> extension \<noteq> 1 then Err errNotBittorrent
          else rbind (utp_extensions extension (snd r)) (\<lambda>b.
            rbind (next_bytes 2 b) (\<lambda>r. rbind (next_bytes 4 (snd r)) (\<lambda>r. rbind (be_u32 (fst r)) (\<lambda>timestamp.
              if \<bar>now - uint timestamp\<bar> > 86400000000000 then Err errNotBittorrent else Ok ()))))))))"

section \<open>Client hellos\<close>

text \<open>What a client hello consists of; the first 38 bytes are its type, length, version and random.\<close>

definition sized8 :: "bytes \<Rightarrow> bytes" where
  "sized8 b = word_of_nat (length b) # b"

definition sized16 :: "bytes \<Rightarrow> bytes" where
  "sized16 b = put_u16 (word_of_nat (length b)) @ b"

definition name_entry :: "byte \<times> bytes \<Rightarrow> bytes" where
  "name_entry e = fst e # sized16 (snd e)"

definition names_body :: "(byte \<times> bytes) list \<Rightarrow> bytes" where
  "names_body es = sized16 (concat (map name_entry es))"

definition extension_entry :: "u16 \<times> bytes \<Rightarrow> bytes" where
  "extension_entry e = put_u16 (fst e) @ sized16 (snd e)"

record client_hello =
  ch_start :: bytes
  ch_session :: bytes
  ch_ciphers :: bytes
  ch_compression :: bytes
  ch_extensions :: "(u16 \<times> bytes) list"

definition hello_bytes :: "client_hello \<Rightarrow> bytes" where
  "hello_bytes h =
     ch_start h @ sized8 (ch_session h) @ sized16 (ch_ciphers h) @ sized8 (ch_compression h) @
     sized16 (concat (map extension_entry (ch_extensions h)))"

definition hello_record :: "byte \<Rightarrow> client_hello \<Rightarrow> bytes" where
  "hello_record minor h = 22 # 3 # minor # sized16 (hello_bytes h)"

text \<open>The sizes a client hello may have, and all extensions small enough for their length fields.\<close>

definition hello_ok :: "client_hello \<Rightarrow> bool" where
  "hello_ok h \<longleftrightarrow>
     length (ch_start h) = 38 \<and> length (ch_session h) \<le> 32 \<and> even (length (ch_ciphers h)) \<and>
     length (ch_compression h) < 256 \<and> length (hello_bytes h) < 65536"

text \<open>
  The server name that the hello announces: the first name of type 0 in the first server name extension.
\<close>

fun announces :: "(u16 \<times> bytes) list \<Rightarrow> bytes \<Rightarrow> bool" where
  "announces [] name = False"
| "announces ((t, body) # es) name =
     (if t = 0 then (\<exists>before after. body = names_body (before @ (0, name) # after) \<and> list_all (\<lambda>e. fst e \<noteq> 0) before)
      else announces es name)"

lemma two_bytes_put [simp]: "two_bytes (put_u16 w @ r) 0 = Ok (unat w)"
proof -
  have "unat (drop_bit 8 w) = unat w div 256"
    by (simp add: drop_bit_eq_div unat_div_distrib)
  moreover have "unat w div 256 < 256" using unsigned_less [of w, where ?'a = nat] by simp
  ultimately have "unat (ucast (drop_bit 8 w) :: byte) = unat w div 256"
    by (simp only: unsigned_ucast_eq unsigned_take_bit_eq take_bit_eq_mod) simp
  moreover have "unat (ucast w :: byte) = unat w mod 256"
    by (simp only: unsigned_ucast_eq unsigned_take_bit_eq take_bit_eq_mod) simp
  ultimately show ?thesis by (simp add: put_u16_def two_bytes_def)
qed

lemma unat_small: "n < 65536 \<Longrightarrow> unat (word_of_nat n :: u16) = n"
  by (simp only: unat_of_nat) simp

lemma unat_small8: "n < 256 \<Longrightarrow> unat (word_of_nat n :: byte) = n"
  by (simp only: unat_of_nat) simp

lemma sized8_simps [simp]: "length (sized8 b) = Suc (length b)"
  by (simp add: sized8_def)

lemma sized16_simps [simp]: "length (sized16 b) = Suc (Suc (length b))"
  by (simp add: sized16_def)

lemma sized16_two_bytes [simp]: "length b < 65536 \<Longrightarrow> two_bytes (sized16 b @ r) 0 = Ok (length b)"
  by (simp add: sized16_def unat_small)

lemma sized16_drop [simp]: "drop 2 (sized16 b @ r) = b @ r" "drop (Suc (Suc (length b))) (sized16 b @ r) = r"
  by (simp_all add: sized16_def)

lemma sized8_at [simp]: "length b < 256 \<Longrightarrow> at_index (sized8 b @ r) 0 = Ok (word_of_nat (length b))"
  by (simp add: sized8_def)

lemma sized8_drop [simp]: "drop (Suc (length b)) (sized8 b @ r) = r"
  by (simp add: sized8_def)

lemma server_names_step:
  assumes "length d = 3 + length body + length r" and "at_index d 0 = Ok t" and "two_bytes d 1 = Ok (length body)"
    and "drop 3 d = body @ r"
  shows "server_names d = (if t = 0 then rmap Some (check_name body) else server_names r)"
proof -
  have "length d \<ge> 3" "d \<noteq> []" using assms(1) by auto
  then show ?thesis
    by (simp add: server_names.simps [of d] assms(2,3) [simplified] assms(4) del: two_bytes_Ok at_index_Ok)
qed

lemma server_names_entry:
  assumes "length body < 65536"
  shows "server_names (name_entry (t, body) @ r) = (if t = 0 then rmap Some (check_name body) else server_names r)"
proof (rule server_names_step)
  have "two_bytes (name_entry (t, body) @ r) 1 = two_bytes (sized16 body @ r) 0"
    by (simp add: name_entry_def two_bytes_def at_index_def)
  then show "two_bytes (name_entry (t, body) @ r) 1 = Ok (length body)" using sized16_two_bytes [OF assms] by simp
qed (simp_all add: name_entry_def numeral_3_eq_3 sized16_def put_u16_def)

lemma server_names_first:
  assumes "list_all (\<lambda>e. fst e \<noteq> 0) before" and "length (concat (map name_entry (before @ (0, name) # after))) < 65536"
  shows "server_names (concat (map name_entry (before @ (0, name) # after))) = rmap Some (check_name name)"
  using assms
proof (induction before)
  case Nil
  then have "length name < 65536" by (simp add: name_entry_def)
  then show ?case by (simp add: server_names_entry)
next
  case (Cons e es)
  obtain t body where e: "e = (t, body)" by (cases e)
  have "length body < 65536" using Cons.prems(2) by (simp add: e name_entry_def)
  then show ?case using Cons by (simp add: e server_names_entry)
qed

lemma names_body_found:
  assumes "list_all (\<lambda>e. fst e \<noteq> 0) before" and "length (names_body (before @ (0, name) # after)) < 65536"
  shows "server_name_extension (names_body (before @ (0, name) # after)) = rmap Some (check_name name)"
proof -
  let ?c = "concat (map name_entry (before @ (0, name) # after))"
  have "length ?c < 65536" using assms(2) by (simp add: names_body_def)
  moreover have "two_bytes (sized16 ?c) 0 = Ok (length ?c)" "drop 2 (sized16 ?c) = ?c"
    using sized16_two_bytes [of ?c "[]"] sized16_drop(1) [of ?c "[]"] calculation by simp_all
  ultimately show ?thesis using server_names_first [OF assms(1)]
    by (simp add: server_name_extension_def names_body_def del: concat_append map_append)
qed

lemma hello_extensions_step:
  assumes "length d = 4 + length body + length r" and "two_bytes d 0 = Ok (unat (t :: u16))"
    and "two_bytes d 2 = Ok (length body)" and "drop 4 d = body @ r"
  shows "hello_extensions d =
    (if t = 0 then
       rbind (server_name_extension body) (\<lambda>found. case found of Some name \<Rightarrow> Ok name | None \<Rightarrow> hello_extensions r)
     else hello_extensions r)"
proof -
  have "length d \<ge> 4" "d \<noteq> []" "unat t = 0 \<longleftrightarrow> t = 0" using assms(1) by (auto simp: unat_eq_0)
  then show ?thesis
    by (simp add: hello_extensions.simps [of d] assms(2-4) del: two_bytes_Ok cong: option.case_cong)
qed

lemma hello_extensions_entry:
  assumes "length body < 65536"
  shows "hello_extensions (extension_entry (t, body) @ r) =
    (if t = 0 then
       rbind (server_name_extension body) (\<lambda>found. case found of Some name \<Rightarrow> Ok name | None \<Rightarrow> hello_extensions r)
     else hello_extensions r)"
proof (rule hello_extensions_step)
  have "two_bytes (extension_entry (t, body) @ r) 2 = two_bytes (sized16 body @ r) 0"
    by (simp add: extension_entry_def put_u16_def two_bytes_def at_index_def)
  then show "two_bytes (extension_entry (t, body) @ r) 2 = Ok (length body)" using sized16_two_bytes [OF assms] by simp
  show "two_bytes (extension_entry (t, body) @ r) 0 = Ok (unat t)" by (simp add: extension_entry_def)
qed (simp_all add: extension_entry_def sized16_def put_u16_def)

lemma announced_found:
  "announces es name \<Longrightarrow> length (concat (map extension_entry es)) < 65536 \<Longrightarrow> check_name name = Ok s \<Longrightarrow>
   hello_extensions (concat (map extension_entry es)) = Ok s"
proof (induction es name rule: announces.induct)
  case (2 t body es name)
  have l: "length body < 65536" using "2.prems"(2) by (simp add: extension_entry_def)
  show ?case
  proof (cases "t = 0")
    case True
    then obtain before after where "body = names_body (before @ (0, name) # after)" "list_all (\<lambda>e. fst e \<noteq> 0) before"
      using "2.prems"(1) by auto
    then show ?thesis using l True "2.prems"(3) by (simp add: hello_extensions_entry names_body_found)
  next
    case False
    then show ?thesis using 2 l by (simp add: hello_extensions_entry)
  qed
qed simp

lemma ReadClientHello_steps:
  assumes "42 \<le> length d0" and "at_index d0 38 = Ok (word_of_nat s)" and "s \<le> 32" and "drop (39 + s) d0 = d1"
    and "two_bytes d1 0 = Ok c" and "even c" and "drop (2 + c) d1 = d2"
    and "at_index d2 0 = Ok (word_of_nat m)" and "m < 256" and "drop (1 + m) d2 = d3"
    and "two_bytes d3 0 = Ok e" and "drop 2 d3 = d4"
    and "39 + s \<le> length d0" "2 + c \<le> length d1" "1 + m \<le> length d2" "2 + e = length d3"
  shows "ReadClientHello d0 = hello_extensions d4"
proof -
  have "length d4 = e" using assms by auto
  moreover have "unat (word_of_nat s :: byte) = s" "unat (word_of_nat m :: byte) = m"
    using assms(3,9) by (simp_all add: unat_small8)
  moreover have "bytes_from d0 (39 + s) = Ok d1" "bytes_from d1 (2 + c) = Ok d2" "bytes_from d2 (1 + m) = Ok d3"
      "bytes_from d3 2 = Ok d4"
    using assms by auto
  moreover have "2 \<le> length d1" "d2 \<noteq> []" "2 \<le> length d3" using assms by auto
  ultimately show ?thesis using assms(1,3,6,13-16)
    by (simp add: ReadClientHello_def assms(2,5,8,11) Let_def not_less Suc_le_eq
        del: two_bytes_Ok at_index_Ok bytes_from_Ok One_nat_def add_2_eq_Suc)
qed

lemma ReadClientHello_hello:
  assumes "hello_ok h"
  shows "ReadClientHello (hello_bytes h) = hello_extensions (concat (map extension_entry (ch_extensions h)))"
proof -
  let ?x = "sized16 (concat (map extension_entry (ch_extensions h)))"
  let ?d2 = "sized8 (ch_compression h) @ ?x"
  let ?d1 = "sized16 (ch_ciphers h) @ ?d2"
  have lens: "length (ch_start h) = 38" "length (ch_session h) \<le> 32" "even (length (ch_ciphers h))"
      "length (ch_compression h) < 256" "length (ch_ciphers h) < 65536"
      "length (concat (map extension_entry (ch_extensions h))) < 65536"
    using assms by (auto simp: hello_ok_def hello_bytes_def)
  have x: "two_bytes ?x 0 = Ok (length (concat (map extension_entry (ch_extensions h))))"
      "drop 2 ?x = concat (map extension_entry (ch_extensions h))"
    using sized16_two_bytes [OF lens(6), of "[]"] sized16_drop(1) [of "concat (map extension_entry (ch_extensions h))" "[]"]
    by simp_all
  show ?thesis
  proof (rule ReadClientHello_steps)
    show "at_index (hello_bytes h) 38 = Ok (word_of_nat (length (ch_session h)))"
      using lens(1) by (simp add: hello_bytes_def nth_append sized8_def)
    show "drop (39 + length (ch_session h)) (hello_bytes h) = ?d1"
      using lens(1) by (simp add: hello_bytes_def sized8_def)
    show "two_bytes ?d1 0 = Ok (length (ch_ciphers h))" using lens(5) by (rule sized16_two_bytes)
    show "at_index ?d2 0 = Ok (word_of_nat (length (ch_compression h)))" using lens(4) by (rule sized8_at)
    show "two_bytes ?x 0 = Ok (length (concat (map extension_entry (ch_extensions h))))" by (rule x(1))
    show "drop 2 ?x = concat (map extension_entry (ch_extensions h))" by (rule x(2))
  qed (use lens in \<open>simp_all add: hello_bytes_def\<close>)
qed

lemma SniffTLS_step:
  assumes "length b = 5 + n + k" and "at_index b 0 = Ok 22" and "at_index b 1 = Ok 3" and "two_bytes b 3 = Ok n"
  shows "SniffTLS b = ReadClientHello (take n (drop 5 b))"
proof -
  have "at_index b 2 = Ok (b ! 2)" using assms(1) by simp
  then show ?thesis using assms(1)
    by (simp add: SniffTLS_def IsValidTLSVersion_def assms(2,4) assms(3) [simplified] drop_take
        del: two_bytes_Ok at_index_Ok)
qed

lemma SniffTLS_record:
  assumes "length (hello_bytes h) < 65536"
  shows "SniffTLS (hello_record minor h @ rest) = ReadClientHello (hello_bytes h)"
proof -
  let ?b = "hello_record minor h @ rest" and ?n = "length (hello_bytes h)"
  have "two_bytes ?b 3 = two_bytes (sized16 (hello_bytes h) @ rest) 0"
    by (simp add: hello_record_def two_bytes_def at_index_def)
  then have "two_bytes ?b 3 = Ok ?n" using sized16_two_bytes [OF assms] by simp
  then have "SniffTLS ?b = ReadClientHello (take ?n (drop 5 ?b))"
    by (intro SniffTLS_step) (simp_all add: hello_record_def)
  then show ?thesis by (simp add: hello_record_def sized16_def put_u16_def)
qed

lemma SniffTLS_piece:
  assumes "length (hello_bytes h) < 65536" and "strict_prefix piece (hello_record minor h)"
  shows "SniffTLS piece = Err ErrNoClue"
proof (cases "length piece < 5")
  case False
  obtain zs where z: "hello_record minor h = piece @ zs" "zs \<noteq> []"
    using assms(2) by (auto simp: strict_prefix_def prefix_def)
  have n: "length (hello_record minor h) = 5 + length (hello_bytes h)" by (simp add: hello_record_def)
  have at: "at_index piece i = at_index (hello_record minor h) i" if "i < 5" for i
    using False that by (simp add: z(1) at_index_def nth_append)
  have "two_bytes piece 3 = two_bytes (sized16 (hello_bytes h) @ []) 0"
    by (simp add: two_bytes_def at hello_record_def del: at_index_Ok) (simp add: at_index_def)
  also have "\<dots> = Ok (length (hello_bytes h))" using assms(1) by (rule sized16_two_bytes)
  finally have "two_bytes piece 3 = Ok (length (hello_bytes h))" .
  moreover have "at_index piece 0 = Ok 22" "at_index piece 1 = Ok 3" "at_index piece 2 = Ok minor"
    by (simp_all add: at hello_record_def del: at_index_Ok One_nat_def) (simp_all add: at_index_def)
  moreover have "length piece < 5 + length (hello_bytes h)"
    using arg_cong [OF z(1), of length] z(2) by (simp add: n del: length_0_conv)
  ultimately show ?thesis using False
    by (simp add: SniffTLS_def IsValidTLSVersion_def del: two_bytes_Ok at_index_Ok One_nat_def)
qed (simp add: SniffTLS_def)

text \<open>
  The server name is found: whatever else a client hello carries, whatever follows its record, \<open>SniffTLS\<close> answers
  with the first host name of its server name extension; and it asks for more data as long as the record
  is not complete.
\<close>

theorem tls_server_name:
  assumes "hello_ok h" and "announces (ch_extensions h) name" and "check_name name = Ok s"
  shows "SniffTLS (hello_record minor h @ rest) = Ok s \<and>
    (strict_prefix piece (hello_record minor h) \<longrightarrow> SniffTLS piece = Err ErrNoClue)"
proof -
  have "length (hello_bytes h) < 65536" using assms(1) by (simp add: hello_ok_def)
  moreover from this have "length (concat (map extension_entry (ch_extensions h))) < 65536" by (simp add: hello_bytes_def)
  ultimately show ?thesis using assms
    by (simp add: SniffTLS_record ReadClientHello_hello announced_found SniffTLS_piece)
qed

definition example_hello :: client_hello where
  "example_hello =
     \<lparr>ch_start = replicate 38 1, ch_session = [7], ch_ciphers = [19, 1], ch_compression = [0],
      ch_extensions = [(10, [0]), (0, names_body [(3, []), (0, [97, 46, 98])])]\<rparr>"

theorem tls_server_name_witness:
  "SniffTLS (hello_record 1 example_hello @ [0]) = Ok ''a.b'' \<and> SniffTLS (take 9 (hello_record 1 example_hello)) = Err ErrNoClue"
proof -
  have "hello_ok example_hello"
    by (simp add: hello_ok_def example_hello_def hello_bytes_def extension_entry_def names_body_def name_entry_def)
  moreover have "announces (ch_extensions example_hello) [97, 46, 98]"
    unfolding example_hello_def by simp (rule exI [of _ "[(3, [])]"], auto)
  moreover have "check_name [97, 46, 98] = Ok ''a.b''"
    by code_simp
  moreover have "strict_prefix (take 9 (hello_record 1 example_hello)) (hello_record 1 example_hello)"
  proof -
    have "9 < length (hello_record 1 example_hello)" by (simp add: hello_record_def example_hello_def hello_bytes_def)
    then have "length (take 9 (hello_record 1 example_hello)) \<noteq> length (hello_record 1 example_hello)" by simp
    then show ?thesis unfolding strict_prefix_def using take_is_prefix by metis
  qed
  ultimately show ?thesis
    using tls_server_name [of example_hello "[97, 46, 98]" "''a.b''" 1 "[0]" "take 9 (hello_record 1 example_hello)"] by simp
qed

section \<open>No sniffer panics\<close>

lemma is_panic_rbind: "is_panic (rbind r f) \<longleftrightarrow> is_panic r \<or> (\<exists>x. r = Ok x \<and> is_panic (f x))"
  by (cases r) auto

lemma rmap_not_panic [simp]: "is_panic (rmap f r) \<longleftrightarrow> is_panic r"
  by (cases r) auto

lemma check_name_safe: "\<not> is_panic (check_name name)"
  by (simp add: check_name_def)

lemma server_names_safe: "\<not> is_panic (server_names d)"
proof (induction d rule: length_induct)
  case (1 d)
  then show ?case
    by (subst server_names.simps) (auto simp: check_name_safe)
qed

lemma server_name_extension_safe: "\<not> is_panic (server_name_extension d)"
  by (auto simp: server_name_extension_def server_names_safe)

lemma hello_extensions_safe: "\<not> is_panic (hello_extensions d)"
proof (induction d rule: length_induct)
  case (1 d)
  then show ?case
    by (subst hello_extensions.simps)
      (auto simp: is_panic_rbind server_name_extension_safe split: option.splits if_splits)
qed

lemma ReadClientHello_safe: "\<not> is_panic (ReadClientHello d)"
  by (auto simp: ReadClientHello_def Let_def hello_extensions_safe)

lemma SniffTLS_safe: "\<not> is_panic (SniffTLS d)"
proof (cases "length d < 5")
  case False
  then have "d \<noteq> []" by auto
  then show ?thesis using False by (auto simp: SniffTLS_def ReadClientHello_safe)
qed (simp add: SniffTLS_def)

lemma ParseHost_safe: "\<not> is_panic (ParseHost h p)"
  by (simp add: ParseHost_def SplitHostPort_def split_finish_def Atoi_def Let_def split: option.splits)

lemma ParseHost_address: "ParseHost h p = Ok d \<Longrightarrow> dest_Address d \<noteq> None"
  by (auto simp: ParseHost_def TCPDestination_def rmap_Ok_iff split: res.splits if_splits)
    (use ParseAddress_Some in blast)+

lemma http_headers_safe: "\<not> is_panic (snd (http_headers sa hs content host))"
proof (induction hs arbitrary: content host)
  case (Cons l hs)
  then show ?case
    using ParseHost_safe ParseHost_address
    by (auto simp: Let_def split: option.splits res.splits) (metis is_panic.simps(1) option.distinct(1))+
qed simp

lemma method_loop_safe: "\<not> is_panic (method_loop b ms)"
  by (induction ms) auto

lemma SniffHTTP_safe: "\<not> is_panic (snd (SniffHTTP b content))"
  using method_loop_safe [of "of_bytes b" methods] http_headers_safe
  by (auto simp: SniffHTTP_def beginWithHTTPMethod_def Let_def split: res.splits prod.splits) (metis is_panic.simps(1) snd_conv)+

lemma next_bytes_safe: "\<not> is_panic (next_bytes n b)"
  by (simp add: next_bytes_def)

lemma utp_extensions_safe: "\<not> is_panic (utp_extensions e b)"
proof (induction b arbitrary: e rule: length_induct)
  case (1 b)
  then show ?case
    by (subst utp_extensions.simps) (auto simp: next_bytes_def)
qed

lemma SniffUTP_safe: "\<not> is_panic (SniffUTP now b)"
proof (cases "length b < 20")
  case False
  then have "b \<noteq> []" by auto
  then show ?thesis using False
    by (auto simp: SniffUTP_def is_panic_rbind next_bytes_safe utp_extensions_safe Let_def)
      (auto simp: next_bytes_def be_u32_Ok split: if_splits)
qed (simp add: SniffUTP_def)

text \<open>
  Bytes of a peer never make a sniffer panic: the TLS, HTTP, BitTorrent and uTP sniffers return normally or with an
  error on every payload.
\<close>

theorem sniffers_never_panic:
  "\<not> is_panic (SniffTLS b) \<and> \<not> is_panic (snd (SniffHTTP b content)) \<and> \<not> is_panic (SniffBittorrent b) \<and>
   \<not> is_panic (SniffUTP now b)"
proof (intro conjI SniffTLS_safe SniffHTTP_safe SniffUTP_safe)
  show "\<not> is_panic (SniffBittorrent b)" by (cases b) (auto simp: SniffBittorrent_def)
qed

section \<open>The host of an HTTP request\<close>

fun join_lines :: "string list \<Rightarrow> string" where
  "join_lines [] = []"
| "join_lines [l] = l"
| "join_lines (l # ls) = l @ CHR ''\<newline>'' # join_lines ls"

lemma bytes_Split_not_Nil [simp]: "bytes_Split c s \<noteq> []"
  by (induction s) (auto split: list.splits)

lemma bytes_Split_append: "c \<notin> set l \<Longrightarrow> bytes_Split c (l @ c # s) = l # bytes_Split c s"
  by (induction l) auto

lemma bytes_Split_plain: "c \<notin> set l \<Longrightarrow> bytes_Split c l = [l]"
  by (induction l) auto

lemma bytes_Split_join:
  "ls \<noteq> [] \<Longrightarrow> list_all (\<lambda>l. CHR ''\<newline>'' \<notin> set l) ls \<Longrightarrow> bytes_Split (CHR ''\<newline>'') (join_lines ls) = ls"
  by (induction ls rule: join_lines.induct) (auto simp: bytes_Split_plain bytes_Split_append)

text \<open>The key of a header line, lower case.\<close>

definition header_key :: "string \<Rightarrow> string option" where
  "header_key l = map_option (\<lambda>i. ToLower (take i l)) (index_of (CHR '':'') l)"

text \<open>A line that the loop passes without stopping: not empty, and if it is a host line its host can be parsed.\<close>

definition passes :: "string \<Rightarrow> bool" where
  "passes l \<longleftrightarrow> l \<noteq> [] \<and>
     (case index_of (CHR '':'') l of
        None \<Rightarrow> True
      | Some i \<Rightarrow> ToLower (take i l) = ''host'' \<longrightarrow> is_ok (ParseHost (ToLower (TrimSpace (drop (i + 1) l))) 80))"

lemma http_headers_append:
  "list_all passes xs \<Longrightarrow> \<exists>content' host'. http_headers sa (xs @ ys) content host = http_headers sa ys content' host'"
proof (induction xs arbitrary: content host)
  case (Cons l xs)
  then show ?case using ParseHost_address
    by (auto simp: passes_def Let_def split: option.splits res.splits) (metis option.distinct(1))+
qed auto

lemma http_headers_others:
  "list_all (\<lambda>l. header_key l \<noteq> Some ''host'') ls \<Longrightarrow> snd (http_headers sa ls content host) = Ok host"
  by (induction ls arbitrary: content) (auto simp: Let_def header_key_def split: option.splits)

lemma index_of_colon: "CHR '':'' \<notin> set k \<Longrightarrow> index_of (CHR '':'') (k @ CHR '':'' # v) = Some (length k)"
  by (rule index_of_append)

text \<open>
  The last host line wins: the sniffed host of a request is that of the last line with the key host, in any
  capitalisation.  Only an empty line ends the headers; the blank line of a request with CRLF line ends is not empty
  (it is a carriage return), so lines of the request's body count as well.
\<close>

theorem http_last_host:
  assumes "beginWithHTTPMethod (join_lines (req # hd_lines @ (k @ CHR '':'' # v) # rest)) = Ok ()"
    and "list_all (\<lambda>l. CHR ''\<newline>'' \<notin> set l) (req # hd_lines @ (k @ CHR '':'' # v) # rest)"
    and "list_all passes hd_lines" and "CHR '':'' \<notin> set k" and "ToLower k = ''host''" and "list_all (\<lambda>l. header_key l \<noteq> Some ''host'') rest"
    and "ParseHost (ToLower (TrimSpace v)) 80 = Ok d" and "dest_Address d = Some a" and "addr_String a \<noteq> []"
  shows "snd (SniffHTTP (to_bytes (join_lines (req # hd_lines @ (k @ CHR '':'' # v) # rest))) content) = Ok (addr_String a)"
proof -
  let ?lines = "req # hd_lines @ (k @ CHR '':'' # v) # rest"
  define sa where "sa = (case content of None \<Rightarrow> False | Some c \<Rightarrow> (case ct_Attributes c of None \<Rightarrow> True | Some m \<Rightarrow> m = []))"
  have split: "bytes_Split (CHR ''\<newline>'') (join_lines ?lines) = ?lines"
    using assms(2) by (intro bytes_Split_join) simp_all
  obtain content' host' where "http_headers sa (tl ?lines) content [] = http_headers sa ((k @ CHR '':'' # v) # rest) content' host'"
    using http_headers_append [OF assms(3), of sa "(k @ CHR '':'' # v) # rest" content "[]"] by auto
  moreover obtain content'' where "http_headers sa ((k @ CHR '':'' # v) # rest) content' host' = (content'', Ok (addr_String a))"
    using http_headers_others [OF assms(6)] assms(4,5,7,8) by (auto simp: index_of_colon Let_def prod_eq_iff)
  ultimately show ?thesis using assms(1,9)
    by (simp add: SniffHTTP_def split Let_def sa_def [symmetric])
qed

lemma go_spaces_bounds: "list_all (\<lambda>p. p \<noteq> [] \<and> \<not> isAlphaNum (hd p) \<and> \<not> isAlphaNum (last p)) go_spaces"
  by code_simp

lemma trim_plain:
  assumes "isAlphaNum (hd s)" and "isAlphaNum (last s)"
  shows "TrimSpace s = s"
proof -
  have "\<not> prefix p s \<and> \<not> suffix p s" if "p \<in> set go_spaces" for p
  proof -
    have "p \<noteq> []" "\<not> isAlphaNum (hd p)" "\<not> isAlphaNum (last p)" using that go_spaces_bounds by (auto simp: list_all_iff)
    then show ?thesis using assms by (auto simp: prefix_def suffix_def)
  qed
  then have "List.find (\<lambda>p. prefix p s) go_spaces = None" "List.find (\<lambda>p. suffix p s) go_spaces = None"
    by (simp_all add: find_None_iff)
  then show ?thesis by (simp add: TrimSpace_def trim_left.simps [of s] trim_right.simps [of s])
qed

theorem http_last_host_witness:
  "snd (SniffHTTP (to_bytes (join_lines
     (''POST / HTTP/1.1'' # [''Host:a.org'', [CHR 0x0D]] @ (''HOST'' @ CHR '':'' # ''b.org'') # []))) None) = Ok ''b.org''"
proof -
  have "isAlphaNum (CHR ''a'')" "isAlphaNum (CHR ''b'')" "isAlphaNum (CHR ''g'')" by code_simp+
  then have trim: "TrimSpace ''b.org'' = ''b.org''" "TrimSpace ''a.org'' = ''a.org''"
    by (simp_all add: trim_plain)
  have "ParseHost (ToLower (TrimSpace ''b.org'')) 80 = Ok (TCPDestination (Some (DomainAddr ''b.org'')) 80)"
    unfolding trim by code_simp
  moreover have "list_all passes [''Host:a.org'', [CHR 0x0D]]"
  proof -
    have "ParseHost (ToLower ''a.org'') 80 = Ok (TCPDestination (Some (DomainAddr ''a.org'')) 80)" by code_simp
    moreover have "ToLower ''Host'' = ''host''" by code_simp
    ultimately show ?thesis by (simp add: passes_def trim)
  qed
  moreover have "beginWithHTTPMethod (join_lines
     (''POST / HTTP/1.1'' # [''Host:a.org'', [CHR 0x0D]] @ (''HOST'' @ CHR '':'' # ''b.org'') # [])) = Ok ()" by code_simp
  moreover have "ToLower ''HOST'' = ''host''" by code_simp
  ultimately show ?thesis
    using http_last_host [of "''POST / HTTP/1.1''" "[''Host:a.org'', [CHR 0x0D]]" "''HOST''" "''b.org''" "[]"
        "TCPDestination (Some (DomainAddr ''b.org'')) 80" "DomainAddr ''b.org''" None]
    by (simp add: TCPDestination_def)
qed

section \<open>uTP is never recognised\<close>

text \<open>
  No payload is recognised as uTP after the year 1972: the sniffer compares microseconds since 1970 with a 32-bit
  timestamp and a day in nanoseconds.
\<close>

theorem utp_never_recognised:
  assumes "86404294967296 \<le> now"
  shows "SniffUTP now b \<noteq> Ok ()"
proof -
  have "86400000000000 < \<bar>now - uint t\<bar>" for t :: u32
    using assms uint_lt2p [of t] by simp
  then show ?thesis by (auto simp: SniffUTP_def Let_def rbind_Ok_iff)
qed

theorem utp_never_recognised_witness:
  "SniffUTP 1700000000000000 ([1, 0, 0, 0] @ replicate 16 5) \<noteq> Ok () \<and> SniffUTP 84215045 ([1, 0, 0, 0] @ replicate 16 5) = Ok ()"
proof -
  have "SniffUTP 84215045 ([1, 0, 0, 0] @ replicate 16 5) = Ok ()" by code_simp
  then show ?thesis using utp_never_recognised [of 1700000000000000] by simp
qed

end
