(* ===== verification/QuicSniff.thy ===== *)
theory QuicSniff
  imports Sniff Buffer
begin

text \<open>
  The QUIC sniffer (\<open>common/protocol/quic/sniff.go\<close>): it removes the protection of Initial packets, whose keys follow from
  the connection id, collects the CRYPTO frames in a buffer and looks for the server name of the client hello in it.
  The key derivation, AES and the AEAD of Go's libraries and the variable length integers of \<open>quic-go\<close> are
  parameters.  The buffer over the payload is read from the front and is the list of bytes that are left; the buffer of
  the crypto data is a \<open>buf.Buffer\<close>, because frames write into its middle.
\<close>

section \<open>Parameters\<close>

text \<open>
  \<open>quicvarint.Read\<close> gives a number below \<open>2^62\<close> and how many bytes it took, or fails at the end of the data.
\<close>

record quic_env =
  qe_varint :: "bytes \<Rightarrow> (62 word \<times> nat) option"
  qe_extract :: "bytes \<Rightarrow> bytes \<Rightarrow> bytes"
  qe_expand :: "bytes \<Rightarrow> bytes \<Rightarrow> nat \<Rightarrow> bytes option"
  qe_aes :: "bytes \<Rightarrow> bytes \<Rightarrow> bytes"
  qe_open :: "bytes \<Rightarrow> bytes \<Rightarrow> bytes \<Rightarrow> bytes \<Rightarrow> bytes \<Rightarrow> bytes res"

definition errNotQuic :: goerr where "errNotQuic = ErrMsg ''not quic''"

definition errNotQuicInitial :: goerr where "errNotQuicInitial = ErrMsg ''not initial packet''"

definition versionDraft29 :: u32 where "versionDraft29 = 0xff00001d"

definition version1 :: u32 where "version1 = 1"

definition quicSaltOld :: bytes where
  "quicSaltOld = [0xaf, 0xbf, 0xec, 0x28, 0x99, 0x93, 0xd2, 0x4c, 0x9e, 0x97, 0x86, 0xf1, 0x9c, 0x61, 0x11, 0xe0, 0x43, 0x90, 0xa8, 0x99]"

definition quicSalt :: bytes where
  "quicSalt = [0x38, 0x76, 0x2c, 0xf7, 0xf5, 0x59, 0x34, 0xb3, 0x4d, 0x17, 0x9a, 0xe6, 0xa4, 0xc8, 0x0c, 0xad, 0xcc, 0xbb, 0x7f, 0x0a]"

definition hkdfExpandLabel :: "quic_env \<Rightarrow> bytes \<Rightarrow> bytes \<Rightarrow> string \<Rightarrow> nat \<Rightarrow> bytes res" where
  "hkdfExpandLabel env secret context label len =
     (let b = put_u16 (word_of_nat len) @ [word_of_nat (6 + length label)] @ to_bytes ''tls13 '' @ to_bytes label @
              [word_of_nat (length context)] @ context in
      case qe_expand env secret b len of
        Some out \<Rightarrow> if length out = len then Ok out else Panic ''quic: HKDF-Expand-Label invocation failed unexpectedly''
      | None \<Rightarrow> Panic ''quic: HKDF-Expand-Label invocation failed unexpectedly'')"

section \<open>Reading off the payload\<close>

definition q_byte :: "goerr \<Rightarrow> bytes \<Rightarrow> (byte \<times> bytes) res" where
  "q_byte e r = (case r of [] \<Rightarrow> Err e | x # xs \<Rightarrow> Ok (x, xs))"

text \<open>\<open>ReadBytes(length int32)\<close>: a negative length passes the test and makes the slice expression panic.\<close>

definition q_bytes :: "goerr \<Rightarrow> int \<Rightarrow> bytes \<Rightarrow> (bytes \<times> bytes) res" where
  "q_bytes e n r =
     (if int (length r) < n then Err e
      else if n < 0 then Panic ''slice bounds out of range''
      else Ok (take (nat n) r, drop (nat n) r))"

definition q_varint :: "quic_env \<Rightarrow> goerr \<Rightarrow> bytes \<Rightarrow> (62 word \<times> bytes) res" where
  "q_varint env e r =
     (case qe_varint env r of
        Some (v, n) \<Rightarrow> if n \<le> length r then Ok (v, drop n r) else Err e
      | None \<Rightarrow> Err e)"

section \<open>Packet headers\<close>

record quic_head =
  qh_version :: u32
  qh_initial :: bool
  qh_destConnID :: bytes
  qh_packetLen :: nat
  qh_hdrLen :: nat

definition quic_header :: "quic_env \<Rightarrow> bytes \<Rightarrow> quic_head res" where
  "quic_header env b =
     rbind (q_byte errNotQuic b) (\<lambda>(typeByte, r).
     if typeByte AND 0x80 = 0 \<or> typeByte AND 0x40 = 0 then Err errNotQuicInitial
     else
     rbind (q_bytes errNotQuic 4 r) (\<lambda>(vb, r).
     rbind (be_u32 vb) (\<lambda>versionNumber.
     if versionNumber \<noteq> 0 \<and> typeByte AND 0x40 = 0 then Err errNotQuic
     else if versionNumber \<noteq> versionDraft29 \<and> versionNumber \<noteq> version1 then Err errNotQuic
     else
     let isQuicInitial = (drop_bit 4 (typeByte AND 0x30) = 0) in
     rbind (q_byte errNotQuic r) (\<lambda>(l, r).
     rbind (q_bytes errNotQuic (uint l) r) (\<lambda>(destConnID, r).
     rbind (q_byte errNotQuic r) (\<lambda>(l, r).
     rbind (q_bytes errNotQuic (uint l) r) (\<lambda>(_, r).
     rbind
       (if isQuicInitial then
          rbind (q_varint env errNotQuic r) (\<lambda>(tokenLen, r).
            if unat tokenLen > length b then Err errNotQuic
            else rmap snd (q_bytes errNotQuic (i32 (uint tokenLen)) r))
        else Ok r) (\<lambda>r.
     rbind (q_varint env errNotQuic r) (\<lambda>(packetLen, r).
     if packetLen < 4 then Err errNotQuic
     else
     let hdrLen = length b - length r in
     if length b < hdrLen + unat packetLen then Err ErrNoClue
     else Ok \<lparr>qh_version = versionNumber, qh_initial = isQuicInitial, qh_destConnID = destConnID,
              qh_packetLen = unat packetLen, qh_hdrLen = hdrLen\<rparr>)))))))))"

text \<open>
  Removing the protection of an Initial packet: the mask from a sample of 16 bytes (a slice that may reach into the spare
  capacity of the payload), the packet number, and the payload.
\<close>

definition quic_open :: "quic_env \<Rightarrow> gslice \<Rightarrow> quic_head \<Rightarrow> bytes res" where
  "quic_open env b h =
     (let arr = sarr b; hdrLen = qh_hdrLen h; packetLen = qh_packetLen h;
          salt = (if qh_version h = version1 then quicSalt else quicSaltOld);
          initialSecret = qe_extract env (qh_destConnID h) salt in
      rbind (hkdfExpandLabel env initialSecret [] ''client in'' 32) (\<lambda>secret.
      rbind (hkdfExpandLabel env secret [] ''quic hp'' 16) (\<lambda>hpKey.
      rbind (slice_range b (int (hdrLen + 4)) (int (hdrLen + 20))) (\<lambda>sample.
      let mask = take 16 (qe_aes env hpKey sample @ replicate 16 0);
          b0 = arr ! 0 XOR (mask ! 0 AND 15);
          packetNumberLength = unat (b0 AND 3) + 1;
          pn = map2 (XOR) (take packetNumberLength (drop hdrLen arr)) (take packetNumberLength (drop 1 mask)) in
      rbind (hkdfExpandLabel env secret [] ''quic key'' 16) (\<lambda>key.
      rbind (hkdfExpandLabel env secret [] ''quic iv'' 12) (\<lambda>iv.
      let nonce = replicate (8 - packetNumberLength) 0 @ pn;
          data = take (packetLen - packetNumberLength) (drop (hdrLen + packetNumberLength) arr);
          extHdr = b0 # drop 1 (take hdrLen arr) @ pn in
      qe_open env key iv nonce data extHdr))))))"

section \<open>Frames\<close>

fun skip_padding :: "byte \<Rightarrow> bytes \<Rightarrow> byte \<times> bytes" where
  "skip_padding t [] = (t, [])"
| "skip_padding t (x # xs) = (if t = 0 then skip_padding x xs else (t, x # xs))"

definition skip_varint :: "quic_env \<Rightarrow> bytes \<Rightarrow> bytes res" where
  "skip_varint env r = rmap snd (q_varint env ErrUnexpectedEOF r)"

fun ack_ranges :: "quic_env \<Rightarrow> nat \<Rightarrow> bytes \<Rightarrow> bytes res" where
  "ack_ranges env 0 r = Ok r"
| "ack_ranges env (Suc n) r = rbind (skip_varint env r) (\<lambda>r. rbind (skip_varint env r) (ack_ranges env n))"

definition ack_frame :: "quic_env \<Rightarrow> byte \<Rightarrow> bytes \<Rightarrow> bytes res" where
  "ack_frame env frameType r =
     rbind (skip_varint env r) (\<lambda>r. rbind (skip_varint env r) (\<lambda>r.
     rbind (q_varint env ErrUnexpectedEOF r) (\<lambda>(ackRangeCount, r).
     rbind (skip_varint env r) (\<lambda>r.
     rbind (ack_ranges env (unat ackRangeCount) r) (\<lambda>r.
       if frameType = 3 then
         rbind (skip_varint env r) (\<lambda>r. rbind (skip_varint env r) (skip_varint env))
       else Ok r)))))"

text \<open>
  A CRYPTO frame: the position after its data, truncated to \<open>int32\<close>, may extend the buffer; the data is copied to where
  \<open>BytesRange\<close> points.  The result is the rest of the payload, the buffer and its length.
\<close>

definition crypto_frame :: "quic_env \<Rightarrow> bytes \<Rightarrow> buffer \<Rightarrow> int \<Rightarrow> (bytes \<times> buffer \<times> int) res" where
  "crypto_frame env r cb cryptoLen =
     rbind (q_varint env ErrUnexpectedEOF r) (\<lambda>(offset, r).
     rbind (q_varint env ErrUnexpectedEOF r) (\<lambda>(len, r).
     if unat len > length r then Err ErrUnexpectedEOF
     else
     let off = i32 (uint offset); currentCryptoLen = i32 (uint offset + uint len) in
     rbind
       (if cryptoLen < currentCryptoLen then
          (if Cap cb < currentCryptoLen then Err ErrShortBuffer
           else rmap (\<lambda>x. (fst x, currentCryptoLen)) (Extend cb (i32 (currentCryptoLen - cryptoLen))))
        else Ok (cb, cryptoLen)) (\<lambda>(cb, cryptoLen).
     rbind (BytesRange cb off currentCryptoLen) (\<lambda>dst.
     if r = [] then Err ErrUnexpectedEOF
     else
       (let n = min (length dst) (length r);
            pos = i32 (buf_start cb + (if off < 0 then i32 (off + Len cb) else off)) in
        Ok (drop n r, put_at cb pos (take n r), cryptoLen))))))"

definition close_frame :: "quic_env \<Rightarrow> bytes \<Rightarrow> bytes res" where
  "close_frame env r =
     rbind (skip_varint env r) (\<lambda>r. rbind (skip_varint env r) (\<lambda>r.
     rbind (q_varint env ErrUnexpectedEOF r) (\<lambda>(len, r). rmap snd (q_bytes ErrUnexpectedEOF (i32 (uint len)) r))))"

lemma skip_padding_length: "length (snd (skip_padding t r)) \<le> length r"
  by (induction t r rule: skip_padding.induct) auto

lemma q_varint_length: "q_varint env e r = Ok (v, r') \<Longrightarrow> length r' \<le> length r"
  by (auto simp: q_varint_def split: option.splits if_splits)

lemma skip_varint_length: "skip_varint env r = Ok r' \<Longrightarrow> length r' \<le> length r"
  by (auto simp: skip_varint_def rmap_Ok_iff dest: q_varint_length)

lemma q_bytes_length: "q_bytes e n r = Ok (x, r') \<Longrightarrow> length r' \<le> length r"
  by (auto simp: q_bytes_def split: if_splits)

lemma ack_ranges_length: "ack_ranges env n r = Ok r' \<Longrightarrow> length r' \<le> length r"
proof (induction n arbitrary: r)
  case (Suc n)
  then obtain r1 r2 where "skip_varint env r = Ok r1" "skip_varint env r1 = Ok r2" "ack_ranges env n r2 = Ok r'"
    by (auto simp: rbind_Ok_iff)
  then show ?case using Suc.IH [of r2] skip_varint_length by (meson order.trans)
qed simp

lemma ack_frame_length: "ack_frame env t r = Ok r' \<Longrightarrow> length r' \<le> length r"
  by (auto simp: ack_frame_def rbind_Ok_iff split: if_splits
      dest!: skip_varint_length q_varint_length ack_ranges_length)

lemma crypto_frame_length: "crypto_frame env r cb l = Ok (r', x) \<Longrightarrow> length r' \<le> length r"
  by (auto simp: crypto_frame_def rbind_Ok_iff Let_def split: if_splits dest!: q_varint_length)

lemma close_frame_length: "close_frame env r = Ok r' \<Longrightarrow> length r' \<le> length r"
  by (auto simp: close_frame_def rbind_Ok_iff rmap_Ok_iff dest!: skip_varint_length q_varint_length q_bytes_length)

function quic_frames :: "quic_env \<Rightarrow> bytes \<Rightarrow> buffer \<Rightarrow> int \<Rightarrow> (buffer \<times> int) res" where
  "quic_frames env r cb cryptoLen =
     (if r = [] then Ok (cb, cryptoLen)
      else
        (let t = fst (skip_padding (hd r) (tl r)); r1 = snd (skip_padding (hd r) (tl r)) in
         if t = 0 \<or> t = 1 then quic_frames env r1 cb cryptoLen
         else if t = 2 \<or> t = 3 then rbind (ack_frame env t r1) (\<lambda>r2. quic_frames env r2 cb cryptoLen)
         else if t = 6 then
           rbind (crypto_frame env r1 cb cryptoLen) (\<lambda>x. quic_frames env (fst x) (fst (snd x)) (snd (snd x)))
         else if t = 0x1c then rbind (close_frame env r1) (\<lambda>r2. quic_frames env r2 cb cryptoLen)
         else Err errNotQuicInitial))"
  by pat_completeness auto
termination
proof (relation "measure (\<lambda>(env, r, cb, l). length r)", goal_cases)
  case (2 env r cb l t r1)
  then show ?case using skip_padding_length [of "hd r" "tl r"] by (cases r) auto
next
  case (3 env r cb l t r1 r2)
  then show ?case using skip_padding_length [of "hd r" "tl r"] ack_frame_length [of env t r1 r2] by (cases r) auto
next
  case (4 env r cb l t r1 x)
  then show ?case
    using skip_padding_length [of "hd r" "tl r"] crypto_frame_length [of env r1 cb l "fst x" "snd x"] by (cases r; cases x) auto
next
  case (5 env r cb l t r1 r2)
  then show ?case using skip_padding_length [of "hd r" "tl r"] close_frame_length [of env r1 r2] by (cases r) auto
qed simp

declare quic_frames.simps [simp del]

section \<open>Packets\<close>

text \<open>The slice of the payload from \<open>k\<close> on keeps the capacity behind it.\<close>

definition slice_drop :: "nat \<Rightarrow> gslice \<Rightarrow> gslice" where
  "slice_drop k b = Mk_slice (drop k (sarr b)) (nat (slen b) - k)"

definition slice_bytes :: "gslice \<Rightarrow> bytes" where
  "slice_bytes b = take (nat (slen b)) (sarr b)"

lemma quic_header_positive: "quic_header env b = Ok h \<Longrightarrow> 0 < qh_hdrLen h + qh_packetLen h"
  by (auto simp: quic_header_def rbind_Ok_iff Let_def word_less_nat_alt split: if_splits)

function quic_packets :: "quic_env \<Rightarrow> gslice \<Rightarrow> buffer \<Rightarrow> int \<Rightarrow> string res" where
  "quic_packets env b cb cryptoLen =
     (if slen b = 0 then Err ErrProtoNeedMoreData
      else
        rbind (quic_header env (slice_bytes b)) (\<lambda>h.
        let restPayload = slice_drop (qh_hdrLen h + qh_packetLen h) b in
        if \<not> qh_initial h then quic_packets env restPayload cb cryptoLen
        else
          rbind (quic_open env b h) (\<lambda>decrypted.
          rbind (quic_frames env decrypted cb cryptoLen) (\<lambda>x.
          rbind (BytesRange (fst x) 0 (snd x)) (\<lambda>data.
            case ReadClientHello data of
              Ok name \<Rightarrow> Ok name
            | Panic p \<Rightarrow> Panic p
            | Err e \<Rightarrow> quic_packets env restPayload (fst x) (snd x))))))"
  by pat_completeness auto
termination
proof (relation "measure (\<lambda>(env, b, cb, l). nat (slen b))", goal_cases)
  case (2 env b cb l h rest)
  then have "0 < qh_hdrLen h + qh_packetLen h" "0 < slen b"
    using quic_header_positive [of env "slice_bytes b" h] slen_nonneg [of b] by (auto simp: order.order_iff_strict)
  then show ?case using 2(3) by (simp add: slice_drop_def)
next
  case (3 env b cb l h rest d x data e)
  then have "0 < qh_hdrLen h + qh_packetLen h" "0 < slen b"
    using quic_header_positive [of env "slice_bytes b" h] slen_nonneg [of b] by (auto simp: order.order_iff_strict)
  then show ?case using 3(3) by (simp add: slice_drop_def)
qed simp

declare quic_packets.simps [simp del]

text \<open>\<open>pick\<close> and \<open>ps\<close> are what the pool hands out for the buffer of the crypto data.\<close>

definition SniffQUIC :: "quic_env \<Rightarrow> nat option \<Rightarrow> pools \<Rightarrow> gslice \<Rightarrow> string res" where
  "SniffQUIC env pick ps b =
     (if slen b = 0 then Err ErrNoClue
      else quic_packets env b (fst (NewWithSize pick ps 32767)) 0)"

section \<open>Reassembly of the crypto data\<close>

text \<open>\<open>enc\<close> writes the variable length integers that \<open>quicvarint\<close> reads.\<close>

definition varint_law :: "quic_env \<Rightarrow> (62 word \<Rightarrow> bytes) \<Rightarrow> bool" where
  "varint_law env enc \<longleftrightarrow> (\<forall>v rest. qe_varint env (enc v @ rest) = Some (v, length (enc v)))"

lemma q_varint_enc: "varint_law env enc \<Longrightarrow> q_varint env e (enc v @ rest) = Ok (v, rest)"
  by (simp add: varint_law_def q_varint_def)

datatype quic_frame = Padding | Ping | Crypto nat bytes

fun frame_bytes :: "(62 word \<Rightarrow> bytes) \<Rightarrow> quic_frame \<Rightarrow> bytes" where
  "frame_bytes enc Padding = [0]"
| "frame_bytes enc Ping = [1]"
| "frame_bytes enc (Crypto off d) = 6 # enc (word_of_nat off) @ enc (word_of_nat (length d)) @ d"

text \<open>What a frame does to the data collected so far; gaps are filled with zeros.\<close>

fun collect :: "bytes \<Rightarrow> quic_frame \<Rightarrow> bytes" where
  "collect acc (Crypto off d) = overwrite (acc @ replicate (off + length d - length acc) 0) off d"
| "collect acc f = acc"

text \<open>A frame that carries its part of \<open>h\<close>, and the positions it covers.\<close>

fun part_of :: "bytes \<Rightarrow> quic_frame \<Rightarrow> bool" where
  "part_of h (Crypto off d) = (d \<noteq> [] \<and> off + length d \<le> length h \<and> d = take (length d) (drop off h))"
| "part_of h f = True"

fun covers :: "quic_frame \<Rightarrow> nat \<Rightarrow> bool" where
  "covers (Crypto off d) i = (off \<le> i \<and> i < off + length d)"
| "covers f i = False"

lemma collect_length: "part_of h f \<Longrightarrow> length acc \<le> length h \<Longrightarrow> length (collect acc f) \<le> length h"
  by (cases f) auto

lemma nth_overwrite:
  "i + length ys \<le> length xs \<Longrightarrow> j < length xs \<Longrightarrow>
   overwrite xs i ys ! j = (if i \<le> j \<and> j < i + length ys then ys ! (j - i) else xs ! j)"
  by (auto simp: overwrite_def nth_append)

lemma collect_nth:
  assumes "part_of h f" and "covers f i \<or> (i < length acc \<and> acc ! i = h ! i)"
  shows "i < length (collect acc f) \<and> collect acc f ! i = h ! i"
proof (cases f)
  case (Crypto off d)
  let ?a = "acc @ replicate (off + length d - length acc) 0"
  have l: "off + length d \<le> length ?a" by simp
  have d: "d ! k = h ! (off + k)" if "k < length d" for k
    using assms(1) that by (metis Crypto nth_drop nth_take part_of.simps(1) add_leD1)
  show ?thesis
  proof (cases "covers f i")
    case True
    then obtain k where "i = off + k" "k < length d" using Crypto le_iff_add by auto
    then show ?thesis using d by (simp add: Crypto nth_overwrite [OF l])
  next
    case False
    then have i: "i < length acc" "acc ! i = h ! i" "i < off \<or> off + length d \<le> i" using assms(2) Crypto by auto
    then show ?thesis by (auto simp: Crypto nth_overwrite [OF l] nth_append)
  qed
qed (use assms(2) in auto)

lemma reassembled:
  assumes "list_all (part_of h) fs" and "list_all (\<lambda>i. list_ex (\<lambda>f. covers f i) fs) [0..<length h]"
  shows "foldl collect [] fs = h"
proof -
  have len: "length (foldl collect acc gs) \<le> length h" if "list_all (part_of h) gs" "length acc \<le> length h" for acc gs
    using that by (induction gs arbitrary: acc) (simp_all add: collect_length)
  have keep: "i < length (foldl collect acc gs) \<and> foldl collect acc gs ! i = h ! i"
    if "list_all (part_of h) gs" "(i < length acc \<and> acc ! i = h ! i) \<or> list_ex (\<lambda>f. covers f i) gs" for acc gs i
    using that by (induction gs arbitrary: acc) (auto dest: collect_nth)
  have all: "i < length (foldl collect [] fs) \<and> foldl collect [] fs ! i = h ! i" if "i < length h" for i
    using keep [of fs i "[]"] assms that by (simp add: list_all_iff)
  have "length h \<le> length (foldl collect [] fs)" using all [of "length (foldl collect [] fs)"] by (cases "length (foldl collect [] fs) < length h") auto
  then show ?thesis using len [OF assms(1), of "[]"] all by (simp add: list_eq_iff_nth_eq)
qed

text \<open>The buffer of the crypto data while it is filled.\<close>

definition holds :: "buffer \<Rightarrow> bytes \<Rightarrow> bool" where
  "holds cb acc \<longleftrightarrow> buf_wf cb \<and> buf_start cb = 0 \<and> content cb = acc \<and> 32767 \<le> slen (buf_v cb)"

lemma holdsD:
  assumes "holds cb acc"
  shows "buf_wf cb" "buf_start cb = 0" "content cb = acc" "buf_end cb = int (length acc)" "Len cb = int (length acc)"
    "32767 \<le> slen (buf_v cb)" "slen (buf_v cb) < 2147483648" "Cap cb = slen (buf_v cb)" "buf_end cb \<le> slen (buf_v cb)"
proof -
  note w = assms [unfolded holds_def]
  show "buf_wf cb" "buf_start cb = 0" "content cb = acc" "32767 \<le> slen (buf_v cb)" using w by auto
  show "buf_end cb = int (length acc)" using w length_content [of cb] by auto
  show "Len cb = int (length acc)" using w Len_content [of cb] by auto
  show "buf_end cb \<le> slen (buf_v cb)" "slen (buf_v cb) < 2147483648" using w buf_wf_bounds [of cb] by auto
  then show "Cap cb = slen (buf_v cb)" unfolding Cap_def
    by (intro i32_id) (use slen_nonneg [of "buf_v cb"] in linarith)+
qed

lemma holds_append:
  assumes "holds cb acc" and "length acc + length bs \<le> 32767"
  shows "holds (append_at_end cb bs) (acc @ bs)"
proof -
  note h = holdsD [OF assms(1)]
  have "length bs \<le> room cb" using assms(2) h by (simp add: room_def)
  then show ?thesis using append_at_end_content [of cb bs] h
    by (simp add: holds_def append_at_end_def)
qed

lemma holds_put:
  assumes "holds cb acc" and "off + length d \<le> length acc"
  shows "holds (put_at cb (int off) d) (overwrite acc off d)"
proof -
  note h = holdsD [OF assms(1)]
  obtain a n where v: "buf_v cb = Mk_slice a n" using h(6) by (cases "buf_v cb") auto
  have b: "length acc \<le> n" "n \<le> length a" "length a < 2147483648"
    using h buf_wf_bounds [OF h(1)] by (simp_all add: v)
  have "take (length acc) (overwrite a off d) = overwrite (take (length acc) a) off d"
    using assms(2) b by (simp add: overwrite_def min_absorb2 drop_take)
  moreover have "acc = take (length acc) a" using h by (simp add: content_def v)
  ultimately have "content (put_at cb (int off) d) = overwrite acc off d"
    using h(2,4) by (simp add: content_def put_at_def v)
  moreover have "buf_wf (put_at cb (int off) d)"
    using h b assms(2) by (simp add: buf_wf_def put_at_def v scap_def)
  ultimately show ?thesis using h by (simp add: holds_def put_at_def v)
qed

lemma word62: "n < 2 ^ 31 \<Longrightarrow> uint (word_of_nat n :: 62 word) = int n \<and> unat (word_of_nat n :: 62 word) = n"
proof -
  assume "n < 2 ^ 31"
  then have "unat (word_of_nat n :: 62 word) = n" by (simp only: unat_of_nat) simp
  then show ?thesis by (metis uint_nat)
qed

lemma crypto_frame_unfold:
  assumes "q_varint env ErrUnexpectedEOF r = Ok (ow, r1)" and "q_varint env ErrUnexpectedEOF r1 = Ok (lw, r2)"
    and "unat lw \<le> length r2" and "r2 \<noteq> []" and "i32 (uint ow) = off" and "i32 (uint ow + uint lw) = cur"
    and "(if l < cur then (if Cap cb < cur then Err ErrShortBuffer else rmap (\<lambda>x. (fst x, cur)) (Extend cb (i32 (cur - l))))
          else Ok (cb, l)) = Ok (cb1, l1)"
    and "BytesRange cb1 off cur = Ok dst"
  shows "crypto_frame env r cb l =
    Ok (drop (min (length dst) (length r2)) r2,
        put_at cb1 (i32 (buf_start cb1 + (if off < 0 then i32 (off + Len cb1) else off))) (take (min (length dst) (length r2)) r2), l1)"
  by (simp only: crypto_frame_def assms rbind.simps prod.case Let_def) (use assms(3,4,8) in simp)

lemma crypto_frame_collects:
  assumes "varint_law env enc" and "holds cb acc" and "d \<noteq> []" and "off + length d \<le> 32767" and "length acc \<le> 32767"
  shows "\<exists>cb'. crypto_frame env (enc (word_of_nat off) @ enc (word_of_nat (length d)) @ d @ rest) cb (int (length acc)) =
      Ok (rest, cb', int (length (collect acc (Crypto off d)))) \<and> holds cb' (collect acc (Crypto off d))"
proof -
  note h = holdsD [OF assms(2)]
  let ?cur = "off + length d" and ?acc = "acc @ replicate (off + length d - length acc) 0"
  note q = q_varint_enc [OF assms(1)] and len = word62 [of "length d"] word62 [of off]
  have cur: "i32 (int off + int (length d)) = int ?cur" "i32 (int off) = int off" using assms(4) by simp_all
  obtain cb1 where ext: "(if int (length acc) < int ?cur then
        (if Cap cb < int ?cur then Err ErrShortBuffer
         else rmap (\<lambda>x. (fst x, int ?cur)) (Extend cb (i32 (int ?cur - int (length acc)))))
      else Ok (cb, int (length acc))) = Ok (cb1, int (length ?acc))" "holds cb1 ?acc"
  proof (cases "length acc < ?cur")
    case True
    have "Extend cb (i32 (int ?cur - int (length acc))) = Ok (append_at_end cb (replicate (?cur - length acc) 0), buf_end cb)"
      using Extend_content [OF h(1), of "int ?cur - int (length acc)"] True assms(4) h
      by (simp add: room_def Size_def nat_diff_distrib' nat_int_add)
    moreover have "holds (append_at_end cb (replicate (?cur - length acc) 0)) ?acc"
      using holds_append [OF assms(2)] True assms(4) by simp
    ultimately show thesis using that True assms(4) h by simp
  qed (use that assms(2) in simp)
  note h1 = holdsD [OF ext(2)]
  have range: "BytesRange cb1 (int off) (int ?cur) = Ok (take (length d) (drop off ?acc))"
    using slice_range_content [OF h1(1), of "int off" "int ?cur"] h1 assms(4) by (simp add: BytesRange_def Let_def)
  have "crypto_frame env (enc (word_of_nat off) @ enc (word_of_nat (length d)) @ d @ rest) cb (int (length acc)) =
      Ok (rest, put_at cb1 (int off) d, int (length ?acc))"
    using crypto_frame_unfold [OF q q _ _ _ _ ext(1) range] assms(3,4) len cur h1(2) by simp
  moreover have "holds (put_at cb1 (int off) d) (collect acc (Crypto off d))" using holds_put [OF ext(2), of off d] by simp
  ultimately show ?thesis by simp
qed

lemma quic_frames_padding: "quic_frames env (0 # r) cb l = quic_frames env r cb l"
proof (cases r)
  case Nil
  then show ?thesis by (simp add: quic_frames.simps [of env "[0]"])
next
  case (Cons x xs)
  then show ?thesis by (simp add: quic_frames.simps [of env "0 # x # xs"] quic_frames.simps [of env "x # xs"] Let_def)
qed

lemma quic_frames_collect:
  assumes "varint_law env enc" and "length h \<le> 32767" and "list_all (part_of h) fs" and "holds cb acc" and "length acc \<le> length h"
  shows "\<exists>cb'. quic_frames env (concat (map (frame_bytes enc) fs)) cb (int (length acc)) =
      Ok (cb', int (length (foldl collect acc fs))) \<and> holds cb' (foldl collect acc fs)"
  using assms(3-5)
proof (induction fs arbitrary: cb acc)
  case Nil
  then show ?case by (auto simp: quic_frames.simps)
next
  case (Cons f fs)
  let ?r = "concat (map (frame_bytes enc) fs)"
  have l: "length (collect acc f) \<le> length h" using Cons.prems collect_length by simp
  obtain cb' where cb': "quic_frames env (frame_bytes enc f @ ?r) cb (int (length acc)) =
      quic_frames env ?r cb' (int (length (collect acc f)))" "holds cb' (collect acc f)"
  proof (cases f)
    case Padding
    then show thesis using that Cons.prems by (simp add: quic_frames_padding)
  next
    case Ping
    have "skip_padding 1 r = (1, r)" for r by (cases r) simp_all
    then have "quic_frames env (1 # ?r) cb (int (length acc)) = quic_frames env ?r cb (int (length acc))"
      by (subst quic_frames.simps) (simp add: Let_def)
    then show thesis using that Cons.prems Ping by simp
  next
    case (Crypto off d)
    have "skip_padding 6 r = (6, r)" for r by (cases r) simp_all
    moreover obtain cb' where "crypto_frame env (enc (word_of_nat off) @ enc (word_of_nat (length d)) @ d @ ?r) cb (int (length acc)) =
        Ok (?r, cb', int (length (collect acc (Crypto off d))))" "holds cb' (collect acc (Crypto off d))"
      using crypto_frame_collects [OF assms(1) Cons.prems(2), of d off ?r] Cons.prems Crypto assms(2) by auto
    ultimately have "quic_frames env (frame_bytes enc f @ ?r) cb (int (length acc)) =
        quic_frames env ?r cb' (int (length (collect acc f)))"
      by (subst quic_frames.simps) (simp add: Let_def Crypto del: collect.simps)
    then show thesis using that [of cb'] \<open>holds cb' (collect acc (Crypto off d))\<close> Crypto by simp
  qed
  then show ?case using Cons.IH [OF _ cb'(2) l] Cons.prems by simp
qed

lemma fresh_holds:
  assumes "32767 \<le> length (fst (Alloc pick ps 32767))" and "length (fst (Alloc pick ps 32767)) < 2147483648"
  shows "holds (fst (NewWithSize pick ps 32767)) []"
  using assms by (cases "Alloc pick ps 32767") (simp add: holds_def NewWithSize_def buf_wf_def scap_def content_def)

text \<open>
  C18. The server name of a QUIC connection is found: if the first packet of a datagram is an Initial packet whose
  frames, in any order and with repetitions, carry a whole client hello, the sniffer answers with its server name.
\<close>

theorem quic_server_name:
  assumes "varint_law env enc" and "32767 \<le> length (fst (Alloc pick ps 32767))" and "length (fst (Alloc pick ps 32767)) < 2147483648"
    and "0 < slen b" and "quic_header env (slice_bytes b) = Ok head" and "qh_initial head"
    and "quic_open env b head = Ok (concat (map (frame_bytes enc) fs))"
    and "list_all (part_of (hello_bytes h)) fs" and "list_all (\<lambda>i. list_ex (\<lambda>f. covers f i) fs) [0..<length (hello_bytes h)]"
    and "length (hello_bytes h) \<le> 32767" and "hello_ok h" and "announces (ch_extensions h) name" and "check_name name = Ok s"
  shows "SniffQUIC env pick ps b = Ok s"
proof -
  note fresh = fresh_holds [OF assms(2,3)]
  obtain cb' where frames: "quic_frames env (concat (map (frame_bytes enc) fs)) (fst (NewWithSize pick ps 32767)) 0 =
      Ok (cb', int (length (hello_bytes h)))" "holds cb' (hello_bytes h)"
    using quic_frames_collect [OF assms(1,10,8) fresh] reassembled [OF assms(8,9)] by auto
  note c = holdsD [OF frames(2)]
  have "BytesRange cb' 0 (int (length (hello_bytes h))) = Ok (hello_bytes h)"
    using slice_range_content [OF c(1), of 0 "int (length (hello_bytes h))"] c assms(10) by (simp add: BytesRange_def Let_def)
  moreover have "length (concat (map extension_entry (ch_extensions h))) < 65536" using assms(10) by (simp add: hello_bytes_def)
  then have "ReadClientHello (hello_bytes h) = Ok s"
    using ReadClientHello_hello [OF assms(11)] announced_found [OF assms(12) _ assms(13)] by simp
  ultimately show ?thesis using assms(4-7) frames(1)
    by (simp add: SniffQUIC_def quic_packets.simps [of env b] Let_def)
qed

text \<open>A concrete environment: small numbers take a byte, larger ones a run of ones; nothing is encrypted.\<close>

definition plain_enc :: "62 word \<Rightarrow> bytes" where
  "plain_enc v = (if v < 255 then [ucast v] else 255 # replicate (unat v) 1 @ [0])"

definition plain_env :: quic_env where
  "plain_env =
     \<lparr>qe_varint = (\<lambda>r. case r of [] \<Rightarrow> None
        | x # xs \<Rightarrow> if x \<noteq> 255 then Some (ucast x, 1) else (let n = length (takeWhile (\<lambda>y. y = 1) xs) in Some (word_of_nat n, n + 2))),
      qe_extract = (\<lambda>secret salt. salt), qe_expand = (\<lambda>secret info n. Some (replicate n 0)),
      qe_aes = (\<lambda>key block. replicate 16 0), qe_open = (\<lambda>key iv nonce data aad. Ok data)\<rparr>"

lemma plain_varint: "varint_law plain_env plain_enc"
proof -
  have "ucast v \<noteq> (255 :: byte)" "ucast (ucast v :: byte) = v" if "v < 255" for v :: "62 word"
  proof -
    have n: "unat v < 255" using that by (simp add: word_less_nat_alt)
    then have u: "unat (ucast v :: byte) = unat v"
      by (simp only: unsigned_ucast_eq unsigned_take_bit_eq take_bit_eq_mod) (simp add: unat_mod_distrib)
    show "ucast v \<noteq> (255 :: byte)" using n u by auto
    have "unat (ucast (ucast v :: byte) :: 62 word) = unat v"
      using n u by (simp only: unsigned_ucast_eq unsigned_take_bit_eq take_bit_eq_mod) (simp add: unat_mod_distrib)
    then show "ucast (ucast v :: byte) = v" by (simp add: word_eq_iff_unsigned [where ?'a = nat])
  qed
  moreover have "takeWhile (\<lambda>y. y = 1) (replicate n 1 @ 0 # rest) = replicate n (1 :: byte)" for n rest
    by (induction n) simp_all
  ultimately show ?thesis by (auto simp: varint_law_def plain_env_def plain_enc_def Let_def)
qed

definition plain_frames :: "quic_frame list" where
  "plain_frames = [Crypto 30 (drop 30 (hello_bytes example_hello)), Ping, Crypto 0 (take 40 (hello_bytes example_hello))]"

definition plain_packet :: "bytes \<Rightarrow> gslice" where
  "plain_packet p =
     (let b = [0xC0, 0, 0, 0, 1, 0, 0, 0] @ plain_enc (word_of_nat (1 + length p)) @ 7 # p in Mk_slice b (length b))"

lemma new_pool_array: "length (fst (Alloc None pools_init 32767)) = 32768"
  by (simp add: Alloc_def GetPool_def pool_get_def poolSize_eval)

lemma example_hello_ok:
  "hello_ok example_hello" "announces (ch_extensions example_hello) [97, 46, 98]" "check_name [97, 46, 98] = Ok ''a.b''"
proof -
  show "hello_ok example_hello"
    by (simp add: hello_ok_def example_hello_def hello_bytes_def extension_entry_def names_body_def name_entry_def)
  show "announces (ch_extensions example_hello) [97, 46, 98]"
    unfolding example_hello_def by simp (rule exI [of _ "[(3, [])]"], auto)
  show "check_name [97, 46, 98] = Ok ''a.b''" by code_simp
qed

theorem quic_server_name_witness:
  "SniffQUIC plain_env None pools_init (plain_packet (concat (map (frame_bytes plain_enc) plain_frames))) = Ok ''a.b''"
proof -
  let ?b = "plain_packet (concat (map (frame_bytes plain_enc) plain_frames))"
  have "case quic_header plain_env (slice_bytes ?b) of
          Ok head \<Rightarrow> qh_initial head \<and> quic_open plain_env ?b head = Ok (concat (map (frame_bytes plain_enc) plain_frames))
        | _ \<Rightarrow> False"
    by code_simp
  then obtain head where head: "quic_header plain_env (slice_bytes ?b) = Ok head" "qh_initial head"
      "quic_open plain_env ?b head = Ok (concat (map (frame_bytes plain_enc) plain_frames))"
    by (auto split: res.splits)
  have parts: "list_all (part_of (hello_bytes example_hello)) plain_frames"
      "list_all (\<lambda>i. list_ex (\<lambda>f. covers f i) plain_frames) [0..<length (hello_bytes example_hello)]"
    by code_simp+
  have "length (hello_bytes example_hello) = 68" by code_simp
  moreover have "0 < slen ?b" by (simp add: plain_packet_def Let_def)
  ultimately show ?thesis
    using quic_server_name [OF plain_varint _ _ _ head parts _ example_hello_ok] by (simp add: new_pool_array)
qed

lemma i32_negative: "2147483648 \<le> x \<Longrightarrow> x < 4294967296 \<Longrightarrow> i32 x = x - 4294967296"
proof -
  assume "2147483648 \<le> x" "x < 4294967296"
  moreover from this have "(x - 2147483648 + 4294967296) mod 4294967296 = x - 2147483648" by (simp only: mod_add_self2) simp
  ultimately show ?thesis by (simp add: i32_def add.commute)
qed

lemma BytesRange_negative:
  "holds cb [] \<Longrightarrow> -2147483648 \<le> f \<Longrightarrow> f < 0 \<Longrightarrow> BytesRange cb f t = Panic ''slice bounds out of range''"
  using holdsD(2,5) [of cb "[]"] by (simp add: BytesRange_def slice_range_def Let_def)

text \<open>
  A datagram can make the sniffer panic: the offset of a CRYPTO frame is truncated to 32 bits, and one from \<open>2^31\<close> on
  becomes a negative slice index.  The keys of an Initial packet follow from the packet itself, so that every sender can
  make such a packet.
\<close>

theorem quic_offset_panics:
  assumes "32767 \<le> length (fst (Alloc pick ps 32767))" and "length (fst (Alloc pick ps 32767)) < 2147483648"
    and "0 < slen b" and "quic_header env (slice_bytes b) = Ok head" and "qh_initial head"
    and "quic_open env b head = Ok (6 # r)" and "q_varint env ErrUnexpectedEOF r = Ok (offset, r1)"
    and "q_varint env ErrUnexpectedEOF r1 = Ok (len, r2)" and "unat len \<le> length r2"
    and "2 ^ 31 \<le> uint offset" and "uint offset + uint len < 2 ^ 32"
  shows "SniffQUIC env pick ps b = Panic ''slice bounds out of range''"
proof -
  note c = holdsD [OF fresh_holds [OF assms(1,2)]]
  let ?cb = "fst (NewWithSize pick ps 32767)"
  have neg: "i32 (uint offset) = uint offset - 4294967296" "i32 (uint offset + uint len) = uint offset + uint len - 4294967296"
    using assms(10,11) [simplified] uint_ge_0 [of len] by - (rule i32_negative; linarith)+
  have below: "uint offset + uint len - 4294967296 < 0" "uint offset - 4294967296 < 0" "-2147483648 \<le> uint offset - 4294967296"
    using assms(10,11) [simplified] uint_ge_0 [of len] by linarith+
  have "crypto_frame env r ?cb 0 = Panic ''slice bounds out of range''"
    by (simp only: crypto_frame_def assms(7,8) neg rbind.simps prod.case Let_def
        if_not_P [OF below(1) [THEN less_not_sym]] BytesRange_negative [OF fresh_holds [OF assms(1,2)] below(3,2)])
      (use assms(9) in simp)
  moreover have "skip_padding 6 r = (6, r)" by (cases r) simp_all
  ultimately have "quic_frames env (6 # r) ?cb 0 = Panic ''slice bounds out of range''"
    by (simp add: quic_frames.simps [of env "6 # r"] Let_def)
  then show ?thesis using assms(3-6) by (simp add: SniffQUIC_def quic_packets.simps [of env b] Let_def)
qed

text \<open>In this environment the byte 255 reads as the number \<open>2^31\<close>.\<close>

definition wide_env :: quic_env where
  "wide_env = plain_env\<lparr>qe_varint := (\<lambda>r. case r of [] \<Rightarrow> None | x # xs \<Rightarrow> Some (if x = 255 then 2147483648 else ucast x, 1))\<rparr>"

theorem quic_offset_panics_witness:
  "SniffQUIC wide_env None pools_init (plain_packet (6 # [255, 0] @ replicate 20 0)) = Panic ''slice bounds out of range''"
proof -
  let ?b = "plain_packet (6 # [255, 0] @ replicate 20 0)"
  have "case quic_header wide_env (slice_bytes ?b) of
          Ok head \<Rightarrow> qh_initial head \<and> quic_open wide_env ?b head = Ok (6 # [255, 0] @ replicate 20 0)
        | _ \<Rightarrow> False"
    by code_simp
  then obtain head where head: "quic_header wide_env (slice_bytes ?b) = Ok head" "qh_initial head"
      "quic_open wide_env ?b head = Ok (6 # [255, 0] @ replicate 20 0)"
    by (auto split: res.splits)
  have "q_varint wide_env ErrUnexpectedEOF ([255, 0] @ replicate 20 0) = Ok (2147483648, 0 # replicate 20 0)"
    "q_varint wide_env ErrUnexpectedEOF (0 # replicate 20 0) = Ok (0, replicate 20 0)"
    by (simp_all add: q_varint_def wide_env_def)
  moreover have "0 < slen ?b" by (simp add: plain_packet_def Let_def)
  ultimately show ?thesis
    using quic_offset_panics [OF _ _ _ head, of None pools_init 2147483648 "0 # replicate 20 0" 0 "replicate 20 0"]
    by (simp add: new_pool_array)
qed

end
