(* ===== verification/LruCache.thy ===== *)
theory LruCache
  imports Prelude "HOL-Library.AList"
begin

text \<open>
  The cache with least recently used eviction that can be searched in both directions
  (\<open>common/cache/lru.go\<close>).  The elements of the linked list are objects that the two maps point to, and \<open>Put\<close>
  writes through such a pointer; so the elements live in a heap, an element is a position in it, and the list and
  the maps hold positions.  The most recently used element is at the front.
\<close>

section \<open>The cache\<close>

record ('k, 'v) lru =
  lr_capacity :: int
  lr_elements :: "('k \<times> 'v) list"
  lr_list :: "nat list"
  lr_keyToElement :: "('k \<times> nat) list"
  lr_valueToElement :: "('v \<times> nat) list"

definition NewLru :: "int \<Rightarrow> ('k, 'v) lru" where
  "NewLru cap = \<lparr>lr_capacity = cap, lr_elements = [], lr_list = [], lr_keyToElement = [], lr_valueToElement = []\<rparr>"

text \<open>\<open>list.MoveToFront\<close> does nothing to an element that is no longer in the list.\<close>

definition MoveToFront :: "nat \<Rightarrow> ('k, 'v) lru \<Rightarrow> ('k, 'v) lru" where
  "MoveToFront e l = (if e \<in> set (lr_list l) then l\<lparr>lr_list := e # remove1 e (lr_list l)\<rparr> else l)"

definition lru_Get :: "'k \<Rightarrow> ('k, 'v) lru \<Rightarrow> ('k, 'v) lru \<times> 'v option" where
  "lru_Get key l =
     (case map_of (lr_keyToElement l) key of
        Some e \<Rightarrow> (MoveToFront e l, Some (snd (lr_elements l ! e)))
      | None \<Rightarrow> (l, None))"

definition GetKeyFromValue :: "'v \<Rightarrow> ('k, 'v) lru \<Rightarrow> ('k, 'v) lru \<times> 'k option" where
  "GetKeyFromValue val l =
     (case map_of (lr_valueToElement l) val of
        Some e \<Rightarrow> (MoveToFront e l, Some (fst (lr_elements l ! e)))
      | None \<Rightarrow> (l, None))"

definition PeekKeyFromValue :: "'v \<Rightarrow> ('k, 'v) lru \<Rightarrow> 'k option" where
  "PeekKeyFromValue val l =
     (case map_of (lr_valueToElement l) val of Some e \<Rightarrow> Some (fst (lr_elements l ! e)) | None \<Rightarrow> None)"

definition remove_oldest :: "('k, 'v) lru \<Rightarrow> ('k, 'v) lru" where
  "remove_oldest l =
     (let e = last (lr_list l); (k, v) = lr_elements l ! e in
      l\<lparr>lr_list := butlast (lr_list l),
        lr_keyToElement := AList.delete k (lr_keyToElement l),
        lr_valueToElement := AList.delete v (lr_valueToElement l)\<rparr>)"

definition lru_Put :: "'k \<Rightarrow> 'v \<Rightarrow> ('k, 'v) lru \<Rightarrow> ('k, 'v) lru" where
  "lru_Put key val l =
     (case map_of (lr_keyToElement l) key of
        Some e \<Rightarrow> MoveToFront e (l\<lparr>lr_elements := (lr_elements l)[e := (key, val)]\<rparr>)
      | None \<Rightarrow>
          (let e = length (lr_elements l);
               l = l\<lparr>lr_elements := lr_elements l @ [(key, val)], lr_list := e # lr_list l,
                     lr_keyToElement := AList.update key e (lr_keyToElement l),
                     lr_valueToElement := AList.update val e (lr_valueToElement l)\<rparr> in
           if int (length (lr_list l)) > lr_capacity l then remove_oldest l else l))"

section \<open>The entries in order of use\<close>

definition entries :: "('k, 'v) lru \<Rightarrow> ('k \<times> 'v) list" where
  "entries l = map (\<lambda>e. lr_elements l ! e) (lr_list l)"

text \<open>Both maps hold exactly the elements of the list, under their key and their value.\<close>

definition lru_ok :: "('k, 'v) lru \<Rightarrow> bool" where
  "lru_ok l \<longleftrightarrow>
     distinct (lr_list l) \<and> (\<forall>e \<in> set (lr_list l). e < length (lr_elements l)) \<and>
     distinct (map fst (entries l)) \<and> distinct (map snd (entries l)) \<and>
     (\<forall>k e. map_of (lr_keyToElement l) k = Some e \<longleftrightarrow> e \<in> set (lr_list l) \<and> fst (lr_elements l ! e) = k) \<and>
     (\<forall>v e. map_of (lr_valueToElement l) v = Some e \<longleftrightarrow> e \<in> set (lr_list l) \<and> snd (lr_elements l ! e) = v)"

text \<open>The reference is a list of pairs, most recently used first: using entries moves them to the front.\<close>

definition touch :: "('a \<Rightarrow> bool) \<Rightarrow> 'a list \<Rightarrow> 'a list" where
  "touch P xs = filter P xs @ filter (\<lambda>x. \<not> P x) xs"

lemma touch_set [simp]: "set (touch P xs) = set xs"
  by (auto simp: touch_def)

lemma touch_distinct [simp]: "distinct (map f (touch P xs)) \<longleftrightarrow> distinct (map f xs)"
proof -
  have "mset (map f (touch P xs)) = mset (map f xs)"
    by (simp add: touch_def flip: image_mset_union multiset_partition)
  then show ?thesis by (rule mset_eq_imp_distinct_iff)
qed

lemma touch_length [simp]: "length (touch P xs) = length xs"
  by (simp add: touch_def sum_length_filter_compl)

lemma touch_one:
  assumes "distinct xs" and "e \<in> set xs"
  shows "touch (\<lambda>x. x = e) xs = e # remove1 e xs"
proof -
  have "filter (\<lambda>x. x = e) xs = [e]" using assms by (induction xs) (auto simp: filter_empty_conv)
  moreover have "filter (\<lambda>x. x \<noteq> e) xs = remove1 e xs"
    using assms(1) by (simp add: distinct_remove1_removeAll removeAll_filter_not_eq eq_commute [of e])
  ultimately show ?thesis by (simp add: touch_def)
qed

lemma touch_none: "(\<And>x. x \<in> set xs \<Longrightarrow> \<not> P x) \<Longrightarrow> touch P xs = xs"
  by (simp add: touch_def)

lemma touch_map: "touch P (map f xs) = map f (touch (P \<circ> f) xs)"
  by (simp add: touch_def filter_map comp_def)

lemma touch_cong: "(\<And>x. x \<in> set xs \<Longrightarrow> P x = Q x) \<Longrightarrow> touch P xs = touch Q xs"
  by (simp add: touch_def cong: filter_cong)

text \<open>Each element of the list is found under its key and under its value.\<close>

lemma lru_ok_key: "lru_ok l \<Longrightarrow> map_of (lr_keyToElement l) k = Some e \<longleftrightarrow> e \<in> set (lr_list l) \<and> fst (lr_elements l ! e) = k"
  and lru_ok_value: "lru_ok l \<Longrightarrow> map_of (lr_valueToElement l) v = Some e \<longleftrightarrow> e \<in> set (lr_list l) \<and> snd (lr_elements l ! e) = v"
  and lru_ok_keys: "lru_ok l \<Longrightarrow> distinct (map fst (entries l))"
  and lru_ok_values: "lru_ok l \<Longrightarrow> distinct (map snd (entries l))"
  by (simp_all add: lru_ok_def)

lemma key_absent:
  assumes "lru_ok l"
  shows "map_of (lr_keyToElement l) k = None \<longleftrightarrow> k \<notin> fst ` set (entries l)"
proof -
  have "map_of (lr_keyToElement l) k = None \<longleftrightarrow> (\<forall>e. map_of (lr_keyToElement l) k \<noteq> Some e)" by (cases "map_of (lr_keyToElement l) k") auto
  then show ?thesis unfolding lru_ok_key [OF assms] entries_def by (auto simp: image_iff)
qed

lemma value_absent:
  assumes "lru_ok l"
  shows "map_of (lr_valueToElement l) v = None \<longleftrightarrow> v \<notin> snd ` set (entries l)"
proof -
  have "map_of (lr_valueToElement l) v = None \<longleftrightarrow> (\<forall>e. map_of (lr_valueToElement l) v \<noteq> Some e)" by (cases "map_of (lr_valueToElement l) v") auto
  then show ?thesis unfolding lru_ok_value [OF assms] entries_def by (auto simp: image_iff)
qed

lemma lru_ok_inj:
  assumes "lru_ok l" and "e \<in> set (lr_list l)" and "d \<in> set (lr_list l)"
  shows "fst (lr_elements l ! d) = fst (lr_elements l ! e) \<longleftrightarrow> d = e" and "snd (lr_elements l ! d) = snd (lr_elements l ! e) \<longleftrightarrow> d = e"
  using lru_ok_key [OF assms(1)] lru_ok_value [OF assms(1)] assms(2,3) by (metis option.inject)+

lemma MoveToFront_entries:
  assumes "lru_ok l" and "e \<in> set (lr_list l)"
  shows "lru_ok (MoveToFront e l)"
    and "entries (MoveToFront e l) = touch (\<lambda>p. fst p = fst (lr_elements l ! e)) (entries l)"
    and "entries (MoveToFront e l) = touch (\<lambda>p. snd p = snd (lr_elements l ! e)) (entries l)"
proof -
  have m: "MoveToFront e l = l\<lparr>lr_list := touch (\<lambda>d. d = e) (lr_list l)\<rparr>"
    using assms touch_one [of "lr_list l" e] by (simp add: MoveToFront_def lru_ok_def)
  have k: "touch (\<lambda>d. d = e) (lr_list l) = touch (\<lambda>d. fst (lr_elements l ! d) = fst (lr_elements l ! e)) (lr_list l)"
    and v: "touch (\<lambda>d. d = e) (lr_list l) = touch (\<lambda>d. snd (lr_elements l ! d) = snd (lr_elements l ! e)) (lr_list l)"
    by (rule touch_cong, simp add: lru_ok_inj [OF assms])+
  show key: "entries (MoveToFront e l) = touch (\<lambda>p. fst p = fst (lr_elements l ! e)) (entries l)"
    unfolding m by (simp add: entries_def k touch_map comp_def)
  show "entries (MoveToFront e l) = touch (\<lambda>p. snd p = snd (lr_elements l ! e)) (entries l)"
    unfolding m by (simp add: entries_def v touch_map comp_def)
  have "distinct (map fst (entries (MoveToFront e l)))" "distinct (map snd (entries (MoveToFront e l)))"
    unfolding key using assms(1) by (simp_all add: lru_ok_def)
  moreover have "distinct (touch (\<lambda>d. d = e) (lr_list l))"
    using touch_distinct [of id "\<lambda>d. d = e" "lr_list l"] assms(1) by (simp add: lru_ok_def)
  ultimately show "lru_ok (MoveToFront e l)" using assms(1) by (simp add: lru_ok_def m)
qed

lemma map_of_entries:
  assumes "lru_ok l"
  shows "map_of (entries l) k = map_option (\<lambda>e. snd (lr_elements l ! e)) (map_of (lr_keyToElement l) k)"
proof (cases "map_of (lr_keyToElement l) k")
  case None
  then have "k \<notin> fst ` set (entries l)" using key_absent [OF assms] by simp
  then have "map_of (entries l) k = None" by (simp add: map_of_eq_None_iff)
  with None show ?thesis by simp
next
  case (Some e)
  then have "e \<in> set (lr_list l)" "fst (lr_elements l ! e) = k" using lru_ok_key [OF assms] by blast+
  then have "(k, snd (lr_elements l ! e)) \<in> set (entries l)" by (auto simp: entries_def prod_eq_iff)
  with map_of_is_SomeI [OF lru_ok_keys [OF assms]] Some show ?thesis by simp
qed

lemma lru_Get_spec:
  assumes "lru_ok l" and "lru_Get k l = (l', r)"
  shows "lru_ok l' \<and> r = map_of (entries l) k \<and> entries l' = touch (\<lambda>p. fst p = k) (entries l) \<and> lr_capacity l' = lr_capacity l"
proof (cases "map_of (lr_keyToElement l) k")
  case None
  then have "k \<notin> fst ` set (entries l)" using key_absent [OF assms(1)] by simp
  then have "touch (\<lambda>p. fst p = k) (entries l) = entries l" by (intro touch_none) force
  with None assms map_of_entries [OF assms(1), of k] show ?thesis by (simp add: lru_Get_def)
next
  case (Some e)
  then have "e \<in> set (lr_list l)" "fst (lr_elements l ! e) = k" using lru_ok_key [OF assms(1)] by blast+
  with MoveToFront_entries [OF assms(1)] Some assms map_of_entries [OF assms(1), of k] show ?thesis
    by (auto simp: lru_Get_def MoveToFront_def)
qed

definition swap :: "'a \<times> 'b \<Rightarrow> 'b \<times> 'a" where
  "swap p = (snd p, fst p)"

lemma in_swapped: "(v, k) \<in> set (map swap xs) \<longleftrightarrow> (k, v) \<in> set xs"
  by (force simp: swap_def)

lemma map_of_swapped:
  assumes "lru_ok l"
  shows "map_of (map swap (entries l)) v = map_option (\<lambda>e. fst (lr_elements l ! e)) (map_of (lr_valueToElement l) v)"
proof (cases "map_of (lr_valueToElement l) v")
  case None
  then have "v \<notin> snd ` set (entries l)" using value_absent [OF assms] by simp
  then have "map_of (map swap (entries l)) v = None" by (simp add: map_of_eq_None_iff swap_def image_image)
  with None show ?thesis by simp
next
  case (Some e)
  then have "e \<in> set (lr_list l)" "snd (lr_elements l ! e) = v" using lru_ok_value [OF assms] by blast+
  then have "(v, fst (lr_elements l ! e)) \<in> set (map swap (entries l))" by (auto simp: entries_def swap_def)
  moreover have "distinct (map fst (map swap (entries l)))" using lru_ok_values [OF assms] by (simp add: comp_def swap_def)
  ultimately show ?thesis using Some map_of_is_SomeI by fastforce
qed

lemma PeekKeyFromValue_spec: "lru_ok l \<Longrightarrow> PeekKeyFromValue v l = map_of (map swap (entries l)) v"
  by (simp add: PeekKeyFromValue_def map_of_swapped split: option.splits)

lemma GetKeyFromValue_spec:
  assumes "lru_ok l" and "GetKeyFromValue v l = (l', r)"
  shows "lru_ok l' \<and> r = map_of (map swap (entries l)) v \<and> entries l' = touch (\<lambda>p. snd p = v) (entries l) \<and>
    lr_capacity l' = lr_capacity l"
proof (cases "map_of (lr_valueToElement l) v")
  case None
  then have "v \<notin> snd ` set (entries l)" using value_absent [OF assms(1)] by simp
  then have "touch (\<lambda>p. snd p = v) (entries l) = entries l" by (intro touch_none) force
  with None assms map_of_swapped [OF assms(1), of v] show ?thesis by (simp add: GetKeyFromValue_def)
next
  case (Some e)
  then have "e \<in> set (lr_list l)" "snd (lr_elements l ! e) = v" using lru_ok_value [OF assms(1)] by blast+
  with MoveToFront_entries [OF assms(1)] Some assms map_of_swapped [OF assms(1), of v] show ?thesis
    by (auto simp: GetKeyFromValue_def MoveToFront_def)
qed

lemma push_ok:
  assumes "lru_ok l" and "key \<notin> fst ` set (entries l)" and "val \<notin> snd ` set (entries l)"
    and "l' = l\<lparr>lr_elements := lr_elements l @ [(key, val)], lr_list := length (lr_elements l) # lr_list l,
      lr_keyToElement := AList.update key (length (lr_elements l)) (lr_keyToElement l),
      lr_valueToElement := AList.update val (length (lr_elements l)) (lr_valueToElement l)\<rparr>"
  shows "lru_ok l'" and "entries l' = (key, val) # entries l"
proof -
  have old: "e < length (lr_elements l)" if "e \<in> set (lr_list l)" for e using assms(1) that by (simp add: lru_ok_def)
  then have nth: "(lr_elements l @ [(key, val)]) ! e = lr_elements l ! e" if "e \<in> set (lr_list l)" for e
    using that by (simp add: nth_append)
  show ents: "entries l' = (key, val) # entries l" using nth by (simp add: entries_def assms(4))
  have fresh: "length (lr_elements l) \<notin> set (lr_list l)" using old by blast
  have k: "map_of (lr_keyToElement l') k = Some e \<longleftrightarrow> e \<in> set (lr_list l') \<and> fst (lr_elements l' ! e) = k" for k e
  proof (cases "e = length (lr_elements l)")
    case True
    then show ?thesis using fresh lru_ok_key [OF assms(1)] by (auto simp: assms(4) update_conv')
  next
    case False
    have "map_of (lr_keyToElement l) key = None" using key_absent [OF assms(1)] assms(2) by blast
    then have "k \<noteq> key" if "e \<in> set (lr_list l)" "fst (lr_elements l ! e) = k" using lru_ok_key [OF assms(1), of k e] that by auto
    then show ?thesis using False lru_ok_key [OF assms(1), of k e] nth by (auto simp: assms(4) update_conv')
  qed
  have v: "map_of (lr_valueToElement l') v = Some e \<longleftrightarrow> e \<in> set (lr_list l') \<and> snd (lr_elements l' ! e) = v" for v e
  proof (cases "e = length (lr_elements l)")
    case True
    then show ?thesis using fresh lru_ok_value [OF assms(1)] by (auto simp: assms(4) update_conv')
  next
    case False
    have "map_of (lr_valueToElement l) val = None" using value_absent [OF assms(1)] assms(3) by blast
    then have "v \<noteq> val" if "e \<in> set (lr_list l)" "snd (lr_elements l ! e) = v" using lru_ok_value [OF assms(1), of v e] that by auto
    then show ?thesis using False lru_ok_value [OF assms(1), of v e] nth by (auto simp: assms(4) update_conv')
  qed
  have "distinct (lr_list l')" "\<forall>e \<in> set (lr_list l'). e < length (lr_elements l')"
    using assms(1) old fresh by (auto simp: lru_ok_def assms(4) less_SucI)
  moreover have "distinct (map fst (entries l'))" "distinct (map snd (entries l'))"
    using ents assms(1-3) by (simp_all add: lru_ok_def)
  ultimately show "lru_ok l'" unfolding lru_ok_def using k v by blast
qed

lemma remove_oldest_ok:
  assumes "lru_ok l" and "lr_list l \<noteq> []"
  shows "lru_ok (remove_oldest l)" and "entries (remove_oldest l) = butlast (entries l)"
proof -
  let ?e = "last (lr_list l)"
  obtain k0 v0 where kv: "lr_elements l ! ?e = (k0, v0)" by fastforce
  have r: "remove_oldest l = l\<lparr>lr_list := butlast (lr_list l), lr_keyToElement := AList.delete k0 (lr_keyToElement l),
      lr_valueToElement := AList.delete v0 (lr_valueToElement l)\<rparr>"
    by (simp add: remove_oldest_def kv)
  show ents: "entries (remove_oldest l) = butlast (entries l)" by (simp add: r entries_def map_butlast)
  have e: "?e \<in> set (lr_list l)" using assms(2) by simp
  have b: "d \<in> set (butlast (lr_list l)) \<longleftrightarrow> d \<in> set (lr_list l) \<and> d \<noteq> ?e" for d
  proof -
    have "distinct (butlast (lr_list l) @ [?e])" using assms by (simp add: lru_ok_def)
    moreover have "set (lr_list l) = set (butlast (lr_list l) @ [?e])" using assms(2) by simp
    ultimately show ?thesis by auto
  qed
  have k: "map_of (lr_keyToElement (remove_oldest l)) k = Some d \<longleftrightarrow>
      d \<in> set (lr_list (remove_oldest l)) \<and> fst (lr_elements (remove_oldest l) ! d) = k" for k d
    using lru_ok_key [OF assms(1)] lru_ok_inj(1) [OF assms(1) e] kv b by (auto simp: r delete_conv')
  have v: "map_of (lr_valueToElement (remove_oldest l)) v = Some d \<longleftrightarrow>
      d \<in> set (lr_list (remove_oldest l)) \<and> snd (lr_elements (remove_oldest l) ! d) = v" for v d
    using lru_ok_value [OF assms(1)] lru_ok_inj(2) [OF assms(1) e] kv b by (auto simp: r delete_conv')
  have "distinct (map fst (entries (remove_oldest l)))" "distinct (map snd (entries (remove_oldest l)))"
    unfolding ents map_butlast using assms(1) by (simp_all add: lru_ok_def distinct_butlast)
  moreover have "distinct (lr_list (remove_oldest l))" "\<forall>d \<in> set (lr_list (remove_oldest l)). d < length (lr_elements (remove_oldest l))"
    using assms(1) b by (simp_all add: r lru_ok_def distinct_butlast)
  ultimately show "lru_ok (remove_oldest l)" unfolding lru_ok_def using k v by blast
qed

lemma lru_Put_spec:
  assumes "lru_ok l" and "key \<notin> fst ` set (entries l)" and "val \<notin> snd ` set (entries l)"
    and "int (length (entries l)) \<le> lr_capacity l"
  shows "lru_ok (lru_Put key val l) \<and> entries (lru_Put key val l) = take (nat (lr_capacity l)) ((key, val) # entries l) \<and>
    lr_capacity (lru_Put key val l) = lr_capacity l"
proof -
  define l1 where "l1 = l\<lparr>lr_elements := lr_elements l @ [(key, val)], lr_list := length (lr_elements l) # lr_list l,
      lr_keyToElement := AList.update key (length (lr_elements l)) (lr_keyToElement l),
      lr_valueToElement := AList.update val (length (lr_elements l)) (lr_valueToElement l)\<rparr>"
  note push = push_ok [OF assms(1-3) l1_def]
  have put: "lru_Put key val l = (if int (length (lr_list l1)) > lr_capacity l then remove_oldest l1 else l1)"
    using key_absent [OF assms(1), THEN iffD2, OF assms(2)] by (simp add: lru_Put_def l1_def Let_def)
  have len: "length (lr_list l1) = Suc (length (entries l))" by (simp add: l1_def entries_def)
  show ?thesis
  proof (cases "int (length (lr_list l1)) > lr_capacity l")
    case True
    then have n: "nat (lr_capacity l) = length (entries l)" using len assms(4) by simp
    have "lr_list l1 \<noteq> []" by (simp add: l1_def)
    then have "lru_ok (remove_oldest l1)" "entries (remove_oldest l1) = butlast (entries l1)"
      using remove_oldest_ok [OF push(1)] by blast+
    moreover have "lr_capacity (remove_oldest l1) = lr_capacity l" by (simp add: remove_oldest_def Let_def l1_def split: prod.splits)
    moreover have "butlast ((key, val) # entries l) = take (nat (lr_capacity l)) ((key, val) # entries l)"
      using n by (simp only: butlast_conv_take) simp
    ultimately show ?thesis using True put push(2) by simp
  next
    case False
    then have "nat (lr_capacity l) \<ge> length ((key, val) # entries l)" using len by simp
    then show ?thesis using False put push by (simp add: l1_def)
  qed
qed

section \<open>The contract\<close>

text \<open>
  What a client that assigns fresh values to fresh keys relies on: the cache is a bounded bijection, looking
  things up does not change it, and a new pair is in it, possibly at the expense of others.
\<close>

locale two_way_cache =
  fixes get :: "'k \<Rightarrow> 'c \<Rightarrow> 'c \<times> 'v option"
    and key_of :: "'v \<Rightarrow> 'c \<Rightarrow> 'c \<times> 'k option"
    and peek :: "'v \<Rightarrow> 'c \<Rightarrow> 'k option"
    and put :: "'k \<Rightarrow> 'v \<Rightarrow> 'c \<Rightarrow> 'c"
    and valid :: "'c \<Rightarrow> bool"
    and content :: "'c \<Rightarrow> ('k \<times> 'v) set"
    and bound :: "'c \<Rightarrow> nat"
  assumes key_unique: "valid c \<Longrightarrow> (k, v) \<in> content c \<Longrightarrow> (k, v') \<in> content c \<Longrightarrow> v = v'"
    and value_unique: "valid c \<Longrightarrow> (k, v) \<in> content c \<Longrightarrow> (k', v) \<in> content c \<Longrightarrow> k = k'"
    and content_bound: "valid c \<Longrightarrow> finite (content c) \<and> card (content c) \<le> bound c"
    and get_law: "valid c \<Longrightarrow> get k c = (c', r) \<Longrightarrow>
      valid c' \<and> content c' = content c \<and> bound c' = bound c \<and> (r = Some v \<longleftrightarrow> (k, v) \<in> content c)"
    and key_of_law: "valid c \<Longrightarrow> key_of v c = (c', s) \<Longrightarrow>
      valid c' \<and> content c' = content c \<and> bound c' = bound c \<and> (s = Some k \<longleftrightarrow> (k, v) \<in> content c)"
    and peek_law: "valid c \<Longrightarrow> peek v c = Some k \<longleftrightarrow> (k, v) \<in> content c"
    and put_law: "valid c \<Longrightarrow> k \<notin> fst ` content c \<Longrightarrow> v \<notin> snd ` content c \<Longrightarrow> 0 < bound c \<Longrightarrow>
      valid (put k v c) \<and> bound (put k v c) = bound c \<and> (k, v) \<in> content (put k v c) \<and>
      content (put k v c) \<subseteq> insert (k, v) (content c)"
begin

lemma absent_key: "valid c \<Longrightarrow> get k c = (c', None) \<Longrightarrow> k \<notin> fst ` content c"
  using get_law by fastforce

lemma absent_value: "valid c \<Longrightarrow> peek v c = None \<Longrightarrow> v \<notin> snd ` content c"
  using peek_law [of c v] by auto

text \<open>Among more different values than the cache can hold, one is not in it.\<close>

lemma free_value:
  assumes "valid c" and "inj_on f {..bound c}"
  shows "\<exists>i \<le> bound c. peek (f i) c = None"
proof (rule ccontr)
  assume used: "\<not> ?thesis"
  have "f ` {..bound c} \<subseteq> snd ` content c"
  proof
    fix v assume "v \<in> f ` {..bound c}"
    then obtain k where "peek v c = Some k" using used by auto
    then show "v \<in> snd ` content c" using peek_law [OF assms(1)] by force
  qed
  then have "card (f ` {..bound c}) \<le> card (snd ` content c)"
    using content_bound [OF assms(1)] by (intro card_mono) auto
  also have "\<dots> \<le> bound c" using content_bound [OF assms(1)] card_image_le order_trans by blast
  finally show False using assms(2) by (simp add: card_image)
qed

end

definition lru_valid :: "('k, 'v) lru \<Rightarrow> bool" where
  "lru_valid l \<longleftrightarrow> lru_ok l \<and> int (length (entries l)) \<le> lr_capacity l"

lemma New_valid: "0 \<le> cap \<Longrightarrow> lru_valid (NewLru cap)"
  by (simp add: lru_valid_def lru_ok_def NewLru_def entries_def)

interpretation lc: two_way_cache lru_Get GetKeyFromValue PeekKeyFromValue lru_Put lru_valid "\<lambda>l. set (entries l)"
    "\<lambda>l. nat (lr_capacity l)"
proof
  fix l l' :: "('k, 'v) lru" and k k' v v' r s
  assume valid: "lru_valid l"
  then have ok: "lru_ok l" by (simp add: lru_valid_def)
  note keys = lru_ok_keys [OF ok] and vals = lru_ok_values [OF ok]
  have sw: "distinct (map fst (map swap (entries l)))" using vals by (simp add: comp_def swap_def)
  show "(k, v) \<in> set (entries l) \<Longrightarrow> (k, v') \<in> set (entries l) \<Longrightarrow> v = v'" using keys eq_key_imp_eq_value by metis
  show "(k, v) \<in> set (entries l) \<Longrightarrow> (k', v) \<in> set (entries l) \<Longrightarrow> k = k'"
    using sw eq_key_imp_eq_value [OF sw, of v k k'] by (force simp: swap_def)
  show "finite (set (entries l)) \<and> card (set (entries l)) \<le> nat (lr_capacity l)"
    using valid card_length [of "entries l"] by (auto simp: lru_valid_def)
  show "lru_valid l' \<and> set (entries l') = set (entries l) \<and> nat (lr_capacity l') = nat (lr_capacity l) \<and>
      (r = Some v \<longleftrightarrow> (k, v) \<in> set (entries l))" if "lru_Get k l = (l', r)"
    using lru_Get_spec [OF ok that] valid keys by (auto simp: lru_valid_def)
  show "lru_valid l' \<and> set (entries l') = set (entries l) \<and> nat (lr_capacity l') = nat (lr_capacity l) \<and>
      (s = Some k \<longleftrightarrow> (k, v) \<in> set (entries l))" if "GetKeyFromValue v l = (l', s)"
    using GetKeyFromValue_spec [OF ok that] valid map_of_eq_Some_iff [OF sw, of v k] in_swapped [of v k "entries l"]
    by (simp add: lru_valid_def)
  show "PeekKeyFromValue v l = Some k \<longleftrightarrow> (k, v) \<in> set (entries l)"
    using PeekKeyFromValue_spec [OF ok, of v] map_of_eq_Some_iff [OF sw, of v k] in_swapped [of v k "entries l"] by simp
  show "lru_valid (lru_Put k v l) \<and> nat (lr_capacity (lru_Put k v l)) = nat (lr_capacity l) \<and>
      (k, v) \<in> set (entries (lru_Put k v l)) \<and> set (entries (lru_Put k v l)) \<subseteq> insert (k, v) (set (entries l))"
    if new: "k \<notin> fst ` set (entries l)" "v \<notin> snd ` set (entries l)" "0 < nat (lr_capacity l)"
  proof -
    note p = lru_Put_spec [OF ok new(1,2)]
    obtain n where n: "nat (lr_capacity l) = Suc n" using new(3) gr0_implies_Suc by blast
    then show ?thesis using p valid set_take_subset [of n "entries l"] by (auto simp: lru_valid_def)
  qed
qed

section \<open>Least recently used\<close>

datatype ('k, 'v) lru_op = Op_Get 'k | Op_GetKey 'v | Op_Put 'k 'v

fun lru_step :: "('k, 'v) lru_op \<Rightarrow> ('k, 'v) lru \<Rightarrow> ('k, 'v) lru" where
  "lru_step (Op_Get k) l = fst (lru_Get k l)"
| "lru_step (Op_GetKey v) l = fst (GetKeyFromValue v l)"
| "lru_step (Op_Put k v) l = lru_Put k v l"

fun recency_step :: "nat \<Rightarrow> ('k, 'v) lru_op \<Rightarrow> ('k \<times> 'v) list \<Rightarrow> ('k \<times> 'v) list" where
  "recency_step cap (Op_Get k) xs = touch (\<lambda>p. fst p = k) xs"
| "recency_step cap (Op_GetKey v) xs = touch (\<lambda>p. snd p = v) xs"
| "recency_step cap (Op_Put k v) xs = take cap ((k, v) # xs)"

text \<open>Only new keys and values are put.\<close>

fun puts_fresh :: "nat \<Rightarrow> ('k, 'v) lru_op list \<Rightarrow> ('k \<times> 'v) list \<Rightarrow> bool" where
  "puts_fresh cap [] xs = True"
| "puts_fresh cap (opn # ops) xs =
     ((case opn of Op_Put k v \<Rightarrow> k \<notin> fst ` set xs \<and> v \<notin> snd ` set xs | _ \<Rightarrow> True) \<and>
      puts_fresh cap ops (recency_step cap opn xs))"

lemma lru_step_refines:
  assumes "lru_valid l" and "lr_capacity l = int cap"
    and "case opn of Op_Put k v \<Rightarrow> k \<notin> fst ` set (entries l) \<and> v \<notin> snd ` set (entries l) | _ \<Rightarrow> True"
  shows "lru_valid (lru_step opn l) \<and> lr_capacity (lru_step opn l) = int cap \<and>
    entries (lru_step opn l) = recency_step cap opn (entries l)"
proof (cases opn)
  case (Op_Get k)
  then show ?thesis using assms(1,2) lru_Get_spec [of l k "fst (lru_Get k l)" "snd (lru_Get k l)"] by (simp add: lru_valid_def)
next
  case (Op_GetKey v)
  then show ?thesis
    using assms(1,2) GetKeyFromValue_spec [of l v "fst (GetKeyFromValue v l)" "snd (GetKeyFromValue v l)"] by (simp add: lru_valid_def)
next
  case (Op_Put k v)
  then show ?thesis using assms lru_Put_spec [of l k v] by (simp add: lru_valid_def)
qed

lemma lru_run_refines:
  "lru_valid l \<Longrightarrow> lr_capacity l = int cap \<Longrightarrow> puts_fresh cap ops (entries l) \<Longrightarrow>
     lru_valid (fold lru_step ops l) \<and> entries (fold lru_step ops l) = fold (recency_step cap) ops (entries l)"
proof (induction ops arbitrary: l)
  case (Cons opn ops)
  have "lru_valid (lru_step opn l) \<and> lr_capacity (lru_step opn l) = int cap \<and>
      entries (lru_step opn l) = recency_step cap opn (entries l)"
    by (rule lru_step_refines) (use Cons.prems in auto)
  with Cons.IH [of "lru_step opn l"] Cons.prems(3) show ?case by simp
qed simp

text \<open>
  C26. The cache evicts the least recently used entry: run with any sequence of lookups by key or value and
  insertions of new pairs, the linked list and the two maps represent the list of pairs in the order of their
  last use, cut off at the capacity, and every lookup afterwards answers from that list.
\<close>

theorem lru_refines_recency:
  assumes "puts_fresh cap ops []"
  shows "entries (fold lru_step ops (NewLru (int cap))) = fold (recency_step cap) ops [] \<and>
    snd (lru_Get k (fold lru_step ops (NewLru (int cap)))) = map_of (fold (recency_step cap) ops []) k \<and>
    PeekKeyFromValue v (fold lru_step ops (NewLru (int cap))) = map_of (map swap (fold (recency_step cap) ops [])) v"
proof -
  let ?l = "fold lru_step ops (NewLru (int cap))"
  have "lru_valid ?l \<and> entries ?l = fold (recency_step cap) ops (entries (NewLru (int cap)))"
    by (rule lru_run_refines) (use assms New_valid [of "int cap"] in \<open>simp_all add: NewLru_def entries_def\<close>)
  then have l: "lru_ok ?l" "entries ?l = fold (recency_step cap) ops []" by (simp_all add: lru_valid_def NewLru_def entries_def)
  then show ?thesis
    using lru_Get_spec [OF l(1), of k "fst (lru_Get k ?l)" "snd (lru_Get k ?l)"] PeekKeyFromValue_spec [OF l(1), of v] by simp
qed

theorem lru_refines_recency_witness:
  "entries (fold lru_step [Op_Put ''a'' (1 :: nat), Op_Put ''b'' 2, Op_Get ''a'', Op_Put ''c'' 3] (NewLru (int 2))) = [(''c'', 3), (''a'', 1)]"
  using lru_refines_recency [of 2 "[Op_Put ''a'' (1 :: nat), Op_Put ''b'' 2, Op_Get ''a'', Op_Put ''c'' 3]"]
  by (simp add: touch_def)

text \<open>
  Overwriting the value of a key leaves the old value behind: afterwards the new value is not found, the old
  one still leads to the key, and it keeps doing so even after the key has been evicted.
\<close>

theorem lru_overwrite_stale:
  "let l = lru_Put ''a'' (2 :: nat) (lru_Put ''a'' 1 (NewLru 1)); l' = lru_Put ''b'' 3 l in
   PeekKeyFromValue 2 l = None \<and> PeekKeyFromValue 1 l = Some ''a'' \<and>
   snd (lru_Get ''a'' l') = None \<and> PeekKeyFromValue 1 l' = Some ''a''"
  by code_simp

end
