(* ===== verification/FakeDns.thy ===== *)
theory FakeDns
  imports LruCache NetAddr
begin

text \<open>
  The fake DNS engine (\<open>app/dns/fakedns/fake.go\<close>): it answers queries with addresses out of a pool, remembers
  which name got which address in a cache with both directions, and translates a fake address back to its name.
  Addresses are taken from the clock, counted upwards and wrapped around inside the pool, until one is free.
\<close>

section \<open>Numbers and address ranges of the Go library\<close>

text \<open>\<open>big.Int\<close>: \<open>SetBytes\<close> reads big endian bytes, \<open>Bytes\<close> writes them without leading zeros.\<close>

definition be_nat :: "bytes \<Rightarrow> nat" where
  "be_nat bs = foldl (\<lambda>a b. a * 256 + unat b) 0 bs"

fun nat_bytes :: "nat \<Rightarrow> bytes" where
  "nat_bytes n = (if n = 0 then [] else nat_bytes (n div 256) @ [word_of_nat (n mod 256)])"

declare nat_bytes.simps [simp del]

text \<open>The \<open>k\<close> low bytes of a number.\<close>

fun be_fixed :: "nat \<Rightarrow> nat \<Rightarrow> bytes" where
  "be_fixed 0 n = []"
| "be_fixed (Suc k) n = be_fixed k (n div 256) @ [word_of_nat (n mod 256)]"

definition To4 :: "bytes \<Rightarrow> bytes option" where
  "To4 ip = (if length ip = 4 then Some ip else if length ip = 16 \<and> is_v4_mapped ip then Some (drop 12 ip) else None)"

text \<open>\<open>net.IPNet\<close>; the mask has \<open>nt_ones\<close> ones and \<open>nt_bits\<close> bits.\<close>

record ip_net =
  nt_IP :: bytes
  nt_ones :: nat
  nt_bits :: nat

definition rooms :: "ip_net \<Rightarrow> nat" where
  "rooms n = nt_bits n - nt_ones n"

definition net_Contains :: "ip_net \<Rightarrow> bytes \<Rightarrow> bool" where
  "net_Contains n ip =
     (let ip = (case To4 ip of Some x \<Rightarrow> x | None \<Rightarrow> ip);
          nn = (case To4 (nt_IP n) of Some x \<Rightarrow> x | None \<Rightarrow> nt_IP n) in
      length ip = length nn \<and> be_nat ip div 2 ^ rooms n = be_nat nn div 2 ^ rooms n)"

text \<open>\<open>net.ParseCIDR\<close>: the address with the host bits cleared, and the mask.\<close>

definition ParseCIDR :: "string \<Rightarrow> ip_net res" where
  "ParseCIDR s =
     (let bad = Err (ErrMsg ''invalid CIDR address'') in
      case index_of (CHR ''/'') s of
        None \<Rightarrow> bad
      | Some i \<Rightarrow>
          (let addr = take i s; msk = drop (i + 1) s;
               is4 = (List.find (\<lambda>c. c \<in> {CHR ''.'', CHR '':'', CHR ''%''}) addr = Some (CHR ''.''));
               bits = (if is4 then 32 else 128);
               ones = dec_val msk in
           case ParseIP addr of
             None \<Rightarrow> bad
           | Some ip16 \<Rightarrow>
               if msk = [] \<or> \<not> list_all is_digit msk \<or> ones > bits then bad
               else
                 (let n = be_nat (if is4 then drop 12 ip16 else ip16); r = bits - ones in
                  Ok \<lparr>nt_IP = be_fixed (bits div 8) (n div 2 ^ r * 2 ^ r), nt_ones = ones, nt_bits = bits\<rparr>)))"

section \<open>One pool\<close>

record fake_config =
  fc_IpPool :: string
  fc_LruSize :: int

type_synonym fake_lru = "(string, address option) lru"

record holder =
  fh_domainToIP :: "fake_lru option"
  fh_ipRange :: "ip_net option"
  fh_config :: "fake_config option"

definition NewFakeDNSHolderConfigOnly :: "fake_config option \<Rightarrow> holder" where
  "NewFakeDNSHolderConfigOnly conf = \<lparr>fh_domainToIP = None, fh_ipRange = None, fh_config = conf\<rparr>"

text \<open>
  \<open>initialize\<close>; \<open>math.Log2(size) >= rooms\<close> is written as the comparison with the power, which it is for the
  sizes that a float represents exactly.
\<close>

definition fake_initialize :: "string \<Rightarrow> int \<Rightarrow> holder \<Rightarrow> holder \<times> goerr option" where
  "fake_initialize ipPoolCidr lruSize h =
     (case ParseCIDR ipPoolCidr of
        Ok ipRange \<Rightarrow>
          (if lruSize > 0 \<and> lruSize \<ge> 2 ^ rooms ipRange then (h, Some (ErrMsg ''LRU size is bigger than subnet size''))
           else (h\<lparr>fh_domainToIP := Some (NewLru lruSize), fh_ipRange := Some ipRange\<rparr>, None))
      | _ \<Rightarrow> (h, Some (ErrMsg ''Unable to parse CIDR for Fake DNS IP assignment'')))"

definition fake_Start :: "holder \<Rightarrow> holder \<times> goerr option" where
  "fake_Start h =
     (case fh_config h of
        Some c \<Rightarrow>
          (if fc_IpPool c \<noteq> '''' \<and> fc_LruSize c \<noteq> 0 then fake_initialize (fc_IpPool c) (fc_LruSize c) h
           else (h, Some (ErrMsg ''invalid fakeDNS setting'')))
      | None \<Rightarrow> (h, Some (ErrMsg ''invalid fakeDNS setting'')))"

definition fake_Close :: "holder \<Rightarrow> holder" where
  "fake_Close h = h\<lparr>fh_domainToIP := None, fh_ipRange := None\<rparr>"

definition NewFakeDNSHolder :: "holder \<times> goerr option" where
  "NewFakeDNSHolder = fake_initialize ''198.18.0.0/15'' 65535 (NewFakeDNSHolderConfigOnly None)"

definition IsIPInIPPool :: "holder \<Rightarrow> address \<Rightarrow> bool res" where
  "IsIPInIPPool h a =
     (if IsDomain (addr_Family a) then Ok False
      else (case fh_ipRange h of None \<Rightarrow> nil_deref | Some n \<Rightarrow> rmap (net_Contains n) (addr_IP a)))"

text \<open>
  The search for a free address, from the number \<open>n\<close> on; \<open>None\<close> if it has not ended after \<open>fuel\<close> rounds.
\<close>

fun pick_ip :: "nat \<Rightarrow> fake_lru \<Rightarrow> ip_net \<Rightarrow> nat \<Rightarrow> address option option" where
  "pick_ip 0 l r n = None"
| "pick_ip (Suc fuel) l r n =
     (let ip = IPAddress (nat_bytes n) in
      if PeekKeyFromValue ip l = None then Some ip
      else pick_ip fuel l r (if net_Contains r (nat_bytes (n + 1)) then n + 1 else be_nat (nt_IP r)))"

definition clock_offset :: "u64 \<Rightarrow> ip_net \<Rightarrow> nat" where
  "clock_offset currentTimeMillis r =
     (if rooms r < 64 then unat currentTimeMillis mod 2 ^ rooms r else unat currentTimeMillis)"

text \<open>The outer \<open>None\<close> is a search that has not ended.\<close>

definition GetFakeIPForDomain :: "nat \<Rightarrow> u64 \<Rightarrow> string \<Rightarrow> holder \<Rightarrow> (holder \<times> address option list res) option" where
  "GetFakeIPForDomain fuel now domain h =
     (case (fh_domainToIP h, fh_ipRange h) of
        (Some l, Some r) \<Rightarrow>
          (case lru_Get domain l of
             (l, Some (Some a)) \<Rightarrow> Some (h\<lparr>fh_domainToIP := Some l\<rparr>, Ok [Some a])
           | (l, Some None) \<Rightarrow> Some (h\<lparr>fh_domainToIP := Some l\<rparr>, Panic ''interface conversion'')
           | (l, None) \<Rightarrow>
               (case pick_ip fuel l r (be_nat (nt_IP r) + clock_offset now r) of
                  None \<Rightarrow> None
                | Some ip \<Rightarrow> Some (h\<lparr>fh_domainToIP := Some (lru_Put domain ip l)\<rparr>, Ok [ip])))
      | _ \<Rightarrow> Some (h, nil_deref))"

definition GetFakeIPForDomain3 ::
  "nat \<Rightarrow> u64 \<Rightarrow> string \<Rightarrow> bool \<Rightarrow> bool \<Rightarrow> holder \<Rightarrow> (holder \<times> address option list res) option" where
  "GetFakeIPForDomain3 fuel now domain ipv4 ipv6 h =
     (case fh_ipRange h of
        None \<Rightarrow> Some (h, nil_deref)
      | Some r \<Rightarrow>
          (let isIPv6 = (To4 (nt_IP r) = None) in
           if (isIPv6 \<and> ipv6) \<or> (\<not> isIPv6 \<and> ipv4) then GetFakeIPForDomain fuel now domain h else Some (h, Ok [])))"

definition GetDomainFromFakeDNS :: "address \<Rightarrow> holder \<Rightarrow> holder \<times> string res" where
  "GetDomainFromFakeDNS a h =
     (if \<not> IsIP (addr_Family a) then (h, Ok '''')
      else
        (case (fh_domainToIP h, fh_ipRange h) of
           (Some l, Some r) \<Rightarrow>
             (case addr_IP a of
                Ok ip \<Rightarrow>
                  (if \<not> net_Contains r ip then (h, Ok '''')
                   else (case GetKeyFromValue (Some a) l of
                           (l, Some k) \<Rightarrow> (h\<lparr>fh_domainToIP := Some l\<rparr>, Ok k)
                         | (l, None) \<Rightarrow> (h\<lparr>fh_domainToIP := Some l\<rparr>, Ok '''')))
              | Err e \<Rightarrow> (h, Err e)
              | Panic p \<Rightarrow> (h, Panic p))
         | _ \<Rightarrow> (h, nil_deref)))"

section \<open>Several pools\<close>

definition createHolderGroups :: "fake_config list \<Rightarrow> holder list" where
  "createHolderGroups pools = map (\<lambda>c. NewFakeDNSHolderConfigOnly (Some c)) pools"

fun multi_IsIPInIPPool :: "holder list \<Rightarrow> address \<Rightarrow> bool res" where
  "multi_IsIPInIPPool [] a = Ok False"
| "multi_IsIPInIPPool (h # hs) a =
     (if IsDomain (addr_Family a) then Ok False
      else rbind (IsIPInIPPool h a) (\<lambda>b. if b then Ok True else multi_IsIPInIPPool hs a))"

text \<open>The answers of all pools in a row; each holder reads the clock for itself.\<close>

fun collect_ips ::
  "(holder \<Rightarrow> (holder \<times> address option list res) option) \<Rightarrow> holder list \<Rightarrow> (holder list \<times> address option list res) option" where
  "collect_ips f [] = Some ([], Ok [])"
| "collect_ips f (h # hs) =
     (case f h of
        None \<Rightarrow> None
      | Some (h', Ok ips) \<Rightarrow>
          (case collect_ips f hs of
             None \<Rightarrow> None
           | Some (hs', r) \<Rightarrow> Some (h' # hs', rmap (\<lambda>rest. ips @ rest) r))
      | Some (h', Err e) \<Rightarrow> Some (h' # hs, Err e)
      | Some (h', Panic p) \<Rightarrow> Some (h' # hs, Panic p))"

definition multi_GetFakeIPForDomain :: "nat \<Rightarrow> u64 \<Rightarrow> string \<Rightarrow> holder list \<Rightarrow> (holder list \<times> address option list res) option" where
  "multi_GetFakeIPForDomain fuel now domain hs = collect_ips (GetFakeIPForDomain fuel now domain) hs"

definition multi_GetFakeIPForDomain3 ::
  "nat \<Rightarrow> u64 \<Rightarrow> string \<Rightarrow> bool \<Rightarrow> bool \<Rightarrow> holder list \<Rightarrow> (holder list \<times> address option list res) option" where
  "multi_GetFakeIPForDomain3 fuel now domain ipv4 ipv6 hs = collect_ips (GetFakeIPForDomain3 fuel now domain ipv4 ipv6) hs"

fun multi_GetDomainFromFakeDNS :: "address \<Rightarrow> holder list \<Rightarrow> holder list \<times> string res" where
  "multi_GetDomainFromFakeDNS a [] = ([], Ok '''')"
| "multi_GetDomainFromFakeDNS a (h # hs) =
     (case GetDomainFromFakeDNS a h of
        (h', Ok domain) \<Rightarrow>
          (if domain \<noteq> '''' then (h' # hs, Ok domain)
           else (case multi_GetDomainFromFakeDNS a hs of (hs', r) \<Rightarrow> (h' # hs', r)))
      | (h', r) \<Rightarrow> (h' # hs, r))"

fun multi_Start :: "holder list \<Rightarrow> holder list \<times> goerr option" where
  "multi_Start [] = ([], None)"
| "multi_Start (h # hs) =
     (case fake_Start h of
        (h', None) \<Rightarrow> (case multi_Start hs of (hs', e) \<Rightarrow> (h' # hs', e))
      | (h', Some e) \<Rightarrow>
          (h' # hs, Some (case fh_config h of
                            Some c \<Rightarrow> if fc_IpPool c \<noteq> '''' \<and> fc_LruSize c \<noteq> 0 then ErrMsg ''Cannot start all fake dns pools''
                                      else ErrMsg ''invalid fakeDNS setting''
                          | None \<Rightarrow> ErrMsg ''invalid fakeDNS setting'')))"

definition multi_Close :: "holder list \<Rightarrow> holder list" where
  "multi_Close hs = map fake_Close hs"

section \<open>Numbers as bytes\<close>

lemma be_nat_Nil [simp]: "be_nat [] = 0"
  by (simp add: be_nat_def)

lemma be_nat_snoc [simp]: "be_nat (bs @ [b]) = be_nat bs * 256 + unat b"
  by (simp add: be_nat_def)

lemma unat_byte [simp]: "unat (word_of_nat (n mod 256) :: byte) = n mod 256"
  by (simp only: unat_of_nat) simp

lemma be_nat_nat_bytes [simp]: "be_nat (nat_bytes n) = n"
proof (induction n rule: nat_bytes.induct)
  case (1 n)
  then show ?case by (subst nat_bytes.simps) (auto simp: div_mult_mod_eq)
qed

lemma be_nat_be_fixed: "be_nat (be_fixed k n) = n mod 256 ^ k"
proof (induction k arbitrary: n)
  case (Suc k)
  have "n mod (256 ^ Suc k) = n mod (256 * 256 ^ k)" by simp
  also have "\<dots> = 256 * (n div 256 mod 256 ^ k) + n mod 256" by (rule mod_mult2_eq)
  finally show ?case using Suc by simp
qed simp

lemma be_fixed_length [simp]: "length (be_fixed k n) = k"
  by (induction k arbitrary: n) simp_all

lemma be_nat_bound: "be_nat bs < 256 ^ length bs"
proof (induction bs rule: rev_induct)
  case (snoc b bs)
  have "unat b < 256" using unsigned_less [of b, where ?'a = nat] by simp
  with snoc show ?case by simp
qed simp

lemma be_nat_hd: "bs \<noteq> [] \<Longrightarrow> hd bs \<noteq> 0 \<Longrightarrow> 256 ^ (length bs - 1) \<le> be_nat bs"
proof (induction bs rule: rev_induct)
  case (snoc b bs)
  show ?case
  proof (cases "bs = []")
    case True
    then have "unat b \<noteq> 0" using snoc.prems by (simp add: unat_eq_zero)
    with True be_nat_snoc [of "[]" b] show ?thesis by simp
  next
    case False
    then have "256 ^ (length bs - 1) \<le> be_nat bs" using snoc by simp
    moreover obtain m where "length bs = Suc m" using False by (cases bs) auto
    ultimately show ?thesis by simp
  qed
qed simp

lemma nat_bytes_length: "256 ^ k \<le> n \<Longrightarrow> n < 256 ^ Suc k \<Longrightarrow> length (nat_bytes n) = Suc k"
proof (induction k arbitrary: n)
  case 0
  then show ?case by (subst nat_bytes.simps, subst nat_bytes.simps) simp
next
  case (Suc k)
  have "256 ^ k \<le> n div 256" "n div 256 < 256 ^ Suc k" "n \<noteq> 0"
    using Suc.prems by (auto simp: less_eq_div_iff_mult_less_eq div_less_iff_less_mult)
  with Suc.IH show ?case by (subst nat_bytes.simps) simp
qed

lemma nat_bytes_hd: "n \<noteq> 0 \<Longrightarrow> nat_bytes n \<noteq> [] \<and> hd (nat_bytes n) \<noteq> 0"
proof (induction n rule: nat_bytes.induct)
  case (1 n)
  show ?case
  proof (cases "n div 256 = 0")
    case True
    then have "n mod 256 = n" by simp
    moreover have "(word_of_nat n :: byte) \<noteq> 0" using \<open>n \<noteq> 0\<close> True unat_byte [of n] by (metis calculation unat_0)
    ultimately show ?thesis using True \<open>n \<noteq> 0\<close> by (subst nat_bytes.simps, subst (2) nat_bytes.simps, subst nat_bytes.simps) (simp add: nat_bytes.simps)
  next
    case False
    then show ?thesis using "1" by (subst nat_bytes.simps, subst (2) nat_bytes.simps) simp
  qed
qed

lemma nat_bytes_not_mapped: "n \<noteq> 0 \<Longrightarrow> \<not> is_v4_mapped (nat_bytes n)"
  using nat_bytes_hd [of n] by (cases "nat_bytes n") (auto simp: is_v4_mapped_def numeral_2_eq_2 numeral_eq_Suc)

lemma be_fixed_4: "be_fixed 4 n = [word_of_nat (n div 256 div 256 div 256 mod 256), word_of_nat (n div 256 div 256 mod 256),
    word_of_nat (n div 256 mod 256), word_of_nat (n mod 256)]"
proof -
  have four: "4 = Suc (Suc (Suc (Suc 0)))" by simp
  show ?thesis unfolding four be_fixed.simps by simp
qed

section \<open>The pool\<close>

definition pool_base :: "ip_net \<Rightarrow> nat" where
  "pool_base r = be_nat (nt_IP r)"

text \<open>A pool as \<open>ParseCIDR\<close> makes it, whose addresses do not begin with a zero byte.\<close>

definition pool_ok :: "ip_net \<Rightarrow> bool" where
  "pool_ok r \<longleftrightarrow>
     (nt_bits r = 32 \<and> length (nt_IP r) = 4 \<or> nt_bits r = 128 \<and> length (nt_IP r) = 16) \<and> nt_ones r \<le> nt_bits r \<and>
     2 ^ rooms r dvd pool_base r \<and> hd (nt_IP r) \<noteq> 0"

definition in_pool :: "ip_net \<Rightarrow> nat \<Rightarrow> bool" where
  "in_pool r n \<longleftrightarrow> pool_base r \<le> n \<and> n < pool_base r + 2 ^ rooms r"

lemma ParseCIDR_pool:
  assumes "ParseCIDR s = Ok r" and "hd (nt_IP r) \<noteq> 0"
  shows "pool_ok r"
proof -
  obtain bits ones n where b: "bits = 32 \<or> bits = 128" "ones \<le> bits"
    and r: "r = \<lparr>nt_IP = be_fixed (bits div 8) (n div 2 ^ (bits - ones) * 2 ^ (bits - ones)), nt_ones = ones, nt_bits = bits\<rparr>"
    using assms(1) by (auto simp: ParseCIDR_def Let_def split: option.splits if_splits)
  have "(2 :: nat) ^ (bits - ones) dvd 256 ^ (bits div 8)"
  proof -
    have "(256 :: nat) ^ (bits div 8) = 2 ^ (8 * (bits div 8))" by (simp add: power_mult)
    also have "8 * (bits div 8) = bits" using b(1) by auto
    finally show ?thesis by (simp add: le_imp_power_dvd)
  qed
  then have "2 ^ (bits - ones) dvd pool_base r" by (simp add: pool_base_def r be_nat_be_fixed dvd_mod)
  then show ?thesis using b assms(2) by (auto simp: pool_ok_def r rooms_def)
qed

lemma pool_range:
  assumes "pool_ok r" and "in_pool r n"
  shows "256 ^ (length (nt_IP r) - 1) \<le> n" and "n < 256 ^ length (nt_IP r)"
proof -
  let ?k = "length (nt_IP r)" and ?R = "rooms r"
  have k: "nt_bits r = 8 * ?k" "nt_IP r \<noteq> []" using assms(1) by (auto simp: pool_ok_def)
  then have "256 ^ (?k - 1) \<le> pool_base r" using be_nat_hd assms(1) by (simp add: pool_base_def pool_ok_def)
  then show "256 ^ (?k - 1) \<le> n" using assms(2) by (simp add: in_pool_def)
  have "?R \<le> 8 * ?k" using k by (simp add: rooms_def)
  then have "(2 :: nat) ^ ?R dvd 256 ^ ?k" using le_imp_power_dvd [of ?R "8 * ?k" "2 :: nat"] by (simp add: power_mult)
  then obtain a where a: "(256 :: nat) ^ ?k = 2 ^ ?R * a" by blast
  obtain b where b: "pool_base r = 2 ^ ?R * b" using assms(1) by (auto simp: pool_ok_def)
  have "pool_base r < 256 ^ ?k" using be_nat_bound by (simp add: pool_base_def)
  then have "b < a" unfolding a b by simp
  then have "2 ^ ?R * (b + 1) \<le> 2 ^ ?R * a" by (intro mult_le_mono2) simp
  then have "pool_base r + 2 ^ ?R \<le> 256 ^ ?k" unfolding a b by (simp add: algebra_simps)
  then show "n < 256 ^ ?k" using assms(2) by (simp add: in_pool_def)
qed

text \<open>The address of a number of the pool.\<close>

lemma pool_length:
  assumes "pool_ok r" and "in_pool r n"
  shows "length (nat_bytes n) = length (nt_IP r)" and "n \<noteq> 0"
proof -
  obtain k where k: "length (nt_IP r) = Suc k" using assms(1) by (auto simp: pool_ok_def)
  then have n: "256 ^ k \<le> n" "n < 256 ^ Suc k" using pool_range [OF assms] by simp_all
  show "length (nat_bytes n) = length (nt_IP r)" using nat_bytes_length [OF n] k by simp
  have "(0 :: nat) < 256 ^ k" by simp
  then show "n \<noteq> 0" using n(1) by linarith
qed

lemma pool_address:
  assumes "pool_ok r" and "in_pool r n"
  shows "\<exists>a. IPAddress (nat_bytes n) = Some a \<and> addr_IP a = Ok (nat_bytes n) \<and> IsIP (addr_Family a) \<and> \<not> IsDomain (addr_Family a)"
proof -
  have len: "length (nat_bytes n) = 4 \<or> length (nat_bytes n) = 16" using pool_length(1) [OF assms] assms(1) by (auto simp: pool_ok_def)
  have "take 10 (nat_bytes n) \<noteq> replicate 10 0" if "length (nat_bytes n) = 16"
    using nat_bytes_hd [OF pool_length(2) [OF assms]] that by (cases "nat_bytes n") (auto simp: numeral_eq_Suc)
  with len show ?thesis
    by (auto simp: IPAddress_def IsIP_def IsDomain_def AddressFamilyDomain_def AddressFamilyIPv4_def AddressFamilyIPv6_def)
qed

lemma pool_To4: "pool_ok r \<Longrightarrow> (case To4 (nt_IP r) of Some x \<Rightarrow> x | None \<Rightarrow> nt_IP r) = nt_IP r"
  by (cases "nt_IP r") (auto simp: pool_ok_def To4_def is_v4_mapped_def numeral_eq_Suc)

lemma bytes_To4: "n \<noteq> 0 \<Longrightarrow> (case To4 (nat_bytes n) of Some x \<Rightarrow> x | None \<Rightarrow> nat_bytes n) = nat_bytes n"
  using nat_bytes_not_mapped by (auto simp: To4_def)

lemma div_in_block:
  assumes "(d :: nat) dvd b" and "0 < d" and "b \<le> n"
  shows "n div d = b div d \<longleftrightarrow> n < b + d"
proof -
  obtain c where b: "b = d * c" using assms(1) by blast
  have "n div d = c \<longleftrightarrow> n < d * Suc c"
    using div_nat_eqI [of d c n] dividend_less_times_div [of d n] assms(2,3) b by auto
  then show ?thesis using b assms(2) by (simp add: algebra_simps)
qed

lemma net_Contains_pool:
  assumes "pool_ok r" and "pool_base r \<le> n" and "0 < n"
  shows "net_Contains r (nat_bytes n) \<longleftrightarrow> in_pool r n"
proof -
  have "net_Contains r (nat_bytes n) \<longleftrightarrow> length (nat_bytes n) = length (nt_IP r) \<and> n div 2 ^ rooms r = pool_base r div 2 ^ rooms r"
    using assms by (simp add: net_Contains_def pool_To4 bytes_To4 pool_base_def Let_def)
  also have "n div 2 ^ rooms r = pool_base r div 2 ^ rooms r \<longleftrightarrow> in_pool r n"
    using div_in_block [of "2 ^ rooms r" "pool_base r" n] assms(1,2) by (simp add: pool_ok_def in_pool_def)
  finally show ?thesis using pool_length(1) [OF assms(1)] by blast
qed

section \<open>The search ends\<close>

text \<open>The \<open>k\<close>-th number visited from the offset \<open>off\<close>.\<close>

definition visit :: "ip_net \<Rightarrow> nat \<Rightarrow> nat \<Rightarrow> nat" where
  "visit r off k = pool_base r + (off + k) mod 2 ^ rooms r"

lemma visit_in_pool: "in_pool r (visit r off k)"
  by (simp add: visit_def in_pool_def)

lemma visit_next:
  assumes "pool_ok r" and "off < 2 ^ rooms r"
  shows "(if net_Contains r (nat_bytes (visit r off 0 + 1)) then visit r off 0 + 1 else be_nat (nt_IP r)) = visit r ((off + 1) mod 2 ^ rooms r) 0"
proof -
  have "net_Contains r (nat_bytes (visit r off 0 + 1)) \<longleftrightarrow> in_pool r (visit r off 0 + 1)"
    by (rule net_Contains_pool [OF assms(1)]) (simp_all add: visit_def)
  also have "\<dots> \<longleftrightarrow> off + 1 < 2 ^ rooms r" using assms(2) by (simp add: in_pool_def visit_def)
  finally have c: "net_Contains r (nat_bytes (visit r off 0 + 1)) \<longleftrightarrow> off + 1 < 2 ^ rooms r" .
  show ?thesis
  proof (cases "off + 1 < 2 ^ rooms r")
    case False
    then have "off + 1 = 2 ^ rooms r" using assms(2) by linarith
    with False c show ?thesis by (simp add: visit_def pool_base_def)
  qed (use c in \<open>simp add: visit_def\<close>)
qed

lemma pick_ip_finds:
  assumes "pool_ok r" and "off < 2 ^ rooms r" and "k < fuel" and "PeekKeyFromValue (IPAddress (nat_bytes (visit r off k))) l = None"
  shows "\<exists>j. pick_ip fuel l r (visit r off 0) = Some (IPAddress (nat_bytes (visit r off j))) \<and>
    PeekKeyFromValue (IPAddress (nat_bytes (visit r off j))) l = None"
  using assms(2-4)
proof (induction fuel arbitrary: off k)
  case (Suc fuel)
  show ?case
  proof (cases "PeekKeyFromValue (IPAddress (nat_bytes (visit r off 0))) l = None")
    case True
    then show ?thesis by (intro exI [of _ 0]) (simp add: Let_def)
  next
    case False
    then obtain k' where k': "k = Suc k'" using Suc.prems(3) by (cases k) auto
    have shift: "visit r ((off + 1) mod 2 ^ rooms r) j = visit r off (Suc j)" for j by (simp add: visit_def mod_simps)
    have "\<exists>j. pick_ip fuel l r (visit r ((off + 1) mod 2 ^ rooms r) 0) = Some (IPAddress (nat_bytes (visit r ((off + 1) mod 2 ^ rooms r) j))) \<and>
        PeekKeyFromValue (IPAddress (nat_bytes (visit r ((off + 1) mod 2 ^ rooms r) j))) l = None"
      by (rule Suc.IH [of _ k']) (use Suc.prems k' shift in auto)
    moreover have "pick_ip (Suc fuel) l r (visit r off 0) = pick_ip fuel l r (visit r ((off + 1) mod 2 ^ rooms r) 0)"
      by (simp only: pick_ip.simps Let_def False if_False visit_next [OF assms(1) Suc.prems(1)])
    ultimately show ?thesis unfolding shift by metis
  qed
qed simp

lemma mod_add_inj:
  assumes "(off + j) mod m = (off + k) mod (m :: nat)" and "j < m" and "k < m"
  shows "j = k"
  using assms
proof (induction j k rule: linorder_wlog)
  case (le j k)
  then obtain s where "off + k = off + j + m * s" by (metis add_le_cancel_left mod_eq_nat1E)
  with le show ?case by (cases s) auto
qed simp

lemma visit_inj:
  assumes "pool_ok r" and "m < 2 ^ rooms r"
  shows "inj_on (\<lambda>k. IPAddress (nat_bytes (visit r off k))) {..m}"
proof (rule inj_onI)
  fix j k assume jk: "j \<in> {..m}" "k \<in> {..m}" and eq: "IPAddress (nat_bytes (visit r off j)) = IPAddress (nat_bytes (visit r off k))"
  obtain a b where a: "IPAddress (nat_bytes (visit r off j)) = Some a" "addr_IP a = Ok (nat_bytes (visit r off j))"
    and b: "IPAddress (nat_bytes (visit r off k)) = Some b" "addr_IP b = Ok (nat_bytes (visit r off k))"
    using pool_address [OF assms(1) visit_in_pool] by meson
  then have "nat_bytes (visit r off j) = nat_bytes (visit r off k)" using eq by simp
  then have "visit r off j = visit r off k" using be_nat_nat_bytes by metis
  then have "(off + j) mod 2 ^ rooms r = (off + k) mod 2 ^ rooms r" by (simp add: visit_def)
  then show "j = k" by (rule mod_add_inj) (use jk assms(2) in auto)
qed

section \<open>Names and addresses\<close>

definition pool_addresses :: "ip_net \<Rightarrow> fake_lru \<Rightarrow> bool" where
  "pool_addresses r l \<longleftrightarrow> (\<forall>(k, v) \<in> set (entries l). \<exists>n. in_pool r n \<and> v = IPAddress (nat_bytes n))"

definition holder_ok :: "holder \<Rightarrow> bool" where
  "holder_ok h \<longleftrightarrow>
     (case (fh_domainToIP h, fh_ipRange h) of
        (Some l, Some r) \<Rightarrow>
          pool_ok r \<and> lru_valid l \<and> 0 < lr_capacity l \<and> lr_capacity l < 2 ^ rooms r \<and> pool_addresses r l
      | _ \<Rightarrow> False)"

lemma holder_okE:
  assumes "holder_ok h"
  obtains l r where "fh_domainToIP h = Some l" "fh_ipRange h = Some r" "pool_ok r" "lru_valid l" "0 < lr_capacity l"
    "lr_capacity l < 2 ^ rooms r" "pool_addresses r l"
  using assms by (auto simp: holder_ok_def split: option.splits)

lemma clock_offset_bound: "clock_offset now r < 2 ^ rooms r"
proof (cases "rooms r < 64")
  case False
  have "unat now < 2 ^ 64" using unsigned_less [of now, where ?'a = nat] by simp
  also have "(2 :: nat) ^ 64 \<le> 2 ^ rooms r" using False by (intro power_increasing) simp_all
  finally show ?thesis using False by (simp add: clock_offset_def)
qed (simp add: clock_offset_def)

lemma pick_ip_free:
  assumes "pool_ok r" and "lru_valid l" and "lr_capacity l < 2 ^ rooms r" and "lr_capacity l < int fuel"
  shows "\<exists>n. pick_ip fuel l r (be_nat (nt_IP r) + clock_offset now r) = Some (IPAddress (nat_bytes n)) \<and> in_pool r n \<and>
    PeekKeyFromValue (IPAddress (nat_bytes n)) l = None"
proof -
  let ?off = "clock_offset now r" and ?c = "nat (lr_capacity l)"
  have c: "?c < 2 ^ rooms r" "?c < fuel" using assms(2-4) by (auto simp: lru_valid_def nat_less_iff)
  obtain k where k: "k \<le> ?c" "PeekKeyFromValue (IPAddress (nat_bytes (visit r ?off k))) l = None"
    using lc.free_value [OF assms(2) visit_inj [OF assms(1) c(1)]] by blast
  have "visit r ?off 0 = be_nat (nt_IP r) + ?off" using clock_offset_bound by (simp add: visit_def pool_base_def)
  with pick_ip_finds [OF assms(1) clock_offset_bound _ k(2), of fuel] k(1) c(2) visit_in_pool show ?thesis by fastforce
qed

text \<open>A query: the name has an address of the pool afterwards.\<close>

lemma query_assigns:
  assumes "holder_ok h" and "fh_domainToIP h = Some l" and "lr_capacity l < int fuel"
  shows "\<exists>h' l' n. GetFakeIPForDomain fuel now domain h = Some (h', Ok [IPAddress (nat_bytes n)]) \<and> holder_ok h' \<and>
    in_pool (the (fh_ipRange h)) n \<and> fh_ipRange h' = fh_ipRange h \<and> fh_domainToIP h' = Some l' \<and>
    lr_capacity l' = lr_capacity l \<and> (domain, IPAddress (nat_bytes n)) \<in> set (entries l')"
proof -
  obtain r where r: "fh_ipRange h = Some r" "pool_ok r" "lru_valid l" "0 < lr_capacity l" "lr_capacity l < 2 ^ rooms r" "pool_addresses r l"
    using assms(2) by (rule_tac holder_okE [OF assms(1)]) auto
  obtain l1 res where g: "lru_Get domain l = (l1, res)" by fastforce
  note l1 = lc.get_law [OF r(3) g] and gs = lru_Get_spec [OF _ g]
  have cap: "lr_capacity l1 = lr_capacity l" using gs r(3) by (simp add: lru_valid_def)
  have l1': "lru_valid l1" "set (entries l1) = set (entries l)" using l1 by blast+
  have pa: "pool_addresses r l1" using r(6) l1'(2) by (simp add: pool_addresses_def)
  show ?thesis
  proof (cases res)
    case (Some v)
    then have mem: "(domain, v) \<in> set (entries l1)" using l1 l1'(2) by blast
    then obtain n where n: "in_pool r n" "v = IPAddress (nat_bytes n)" using pa by (auto simp: pool_addresses_def)
    obtain a where a: "v = Some a" using pool_address [OF r(2) n(1)] n(2) by auto
    have "GetFakeIPForDomain fuel now domain h = Some (h\<lparr>fh_domainToIP := Some l1\<rparr>, Ok [v])"
      using assms(2) r(1) g Some a by (simp add: GetFakeIPForDomain_def)
    moreover have "holder_ok (h\<lparr>fh_domainToIP := Some l1\<rparr>)" using r l1'(1) cap pa by (simp add: holder_ok_def)
    ultimately show ?thesis using n mem cap r(1) by (intro exI [of _ "h\<lparr>fh_domainToIP := Some l1\<rparr>"] exI [of _ l1] exI [of _ n]) simp
  next
    case None
    obtain n where n: "pick_ip fuel l1 r (be_nat (nt_IP r) + clock_offset now r) = Some (IPAddress (nat_bytes n))" "in_pool r n"
      "PeekKeyFromValue (IPAddress (nat_bytes n)) l1 = None"
      using pick_ip_free [OF r(2) l1'(1), of fuel now] cap r(5) assms(3) by auto
    let ?l = "lru_Put domain (IPAddress (nat_bytes n)) l1" and ?h = "h\<lparr>fh_domainToIP := Some (lru_Put domain (IPAddress (nat_bytes n)) l1)\<rparr>"
    have abs: "domain \<notin> fst ` set (entries l1)" "IPAddress (nat_bytes n) \<notin> snd ` set (entries l1)"
      using lc.absent_key [OF r(3) g [unfolded None]] lc.absent_value [OF l1'(1) n(3)] l1'(2) by simp_all
    have put: "lru_valid ?l" "(domain, IPAddress (nat_bytes n)) \<in> set (entries ?l)"
      "set (entries ?l) \<subseteq> insert (domain, IPAddress (nat_bytes n)) (set (entries l1))"
      using lc.put_law [OF l1'(1) abs] cap r(4) by simp_all
    have capp: "lr_capacity ?l = lr_capacity l" using lru_Put_spec [OF _ abs] l1'(1) cap by (simp add: lru_valid_def)
    have "pool_addresses r ?l" using pa put(3) n(2) by (fastforce simp: pool_addresses_def)
    then have "holder_ok ?h" using r put(1) capp by (simp add: holder_ok_def)
    moreover have "GetFakeIPForDomain fuel now domain h = Some (?h, Ok [IPAddress (nat_bytes n)])"
      using assms(2) r(1) g None n(1) by (simp add: GetFakeIPForDomain_def)
    ultimately show ?thesis using n(2) put(2) capp r(1) by (intro exI [of _ ?h] exI [of _ ?l] exI [of _ n]) simp
  qed
qed

lemma reverse_ok:
  assumes "holder_ok h" and "GetDomainFromFakeDNS a h = (h', res)"
  shows "holder_ok h'" and "fh_ipRange h' = fh_ipRange h" and "map_option lr_capacity (fh_domainToIP h') = map_option lr_capacity (fh_domainToIP h)"
proof -
  obtain l r where lr: "fh_domainToIP h = Some l" "fh_ipRange h = Some r" "pool_ok r" "lru_valid l" "0 < lr_capacity l"
    "lr_capacity l < 2 ^ rooms r" "pool_addresses r l"
    using holder_okE [OF assms(1)] .
  obtain l1 q where q: "GetKeyFromValue (Some a) l = (l1, q)" by fastforce
  have v: "lru_valid l1" "set (entries l1) = set (entries l)" using lc.key_of_law [OF lr(4) q] by blast+
  have c: "lr_capacity l1 = lr_capacity l" using GetKeyFromValue_spec [OF _ q] lr(4) by (simp add: lru_valid_def)
  have ok: "holder_ok (h\<lparr>fh_domainToIP := Some l1\<rparr>)" using lr v c by (simp add: holder_ok_def pool_addresses_def)
  have h': "h' = h \<or> h' = h\<lparr>fh_domainToIP := Some l1\<rparr>"
    using assms(2) lr(1,2) q by (auto simp: GetDomainFromFakeDNS_def split: if_splits res.splits option.splits)
  then show "holder_ok h'" "fh_ipRange h' = fh_ipRange h" "map_option lr_capacity (fh_domainToIP h') = map_option lr_capacity (fh_domainToIP h)"
    using assms(1) ok lr(1) c by auto
qed

text \<open>Any sequence of queries, each at its own time, and translations back.\<close>

datatype fake_op = Query u64 string | Reverse address

fun fake_step :: "nat \<Rightarrow> fake_op \<Rightarrow> holder \<Rightarrow> holder option" where
  "fake_step fuel (Query now domain) h = map_option fst (GetFakeIPForDomain fuel now domain h)"
| "fake_step fuel (Reverse a) h = Some (fst (GetDomainFromFakeDNS a h))"

fun fake_run :: "nat \<Rightarrow> fake_op list \<Rightarrow> holder \<Rightarrow> holder option" where
  "fake_run fuel [] h = Some h"
| "fake_run fuel (opn # ops) h = (case fake_step fuel opn h of None \<Rightarrow> None | Some h' \<Rightarrow> fake_run fuel ops h')"

lemma fake_run_ok:
  "holder_ok h \<Longrightarrow> fh_domainToIP h = Some l \<Longrightarrow> lr_capacity l < int fuel \<Longrightarrow>
     \<exists>h' l'. fake_run fuel ops h = Some h' \<and> holder_ok h' \<and> fh_domainToIP h' = Some l' \<and> lr_capacity l' < int fuel"
proof (induction ops arbitrary: h l)
  case (Cons opn ops)
  have "\<exists>h1 l1. fake_step fuel opn h = Some h1 \<and> holder_ok h1 \<and> fh_domainToIP h1 = Some l1 \<and> lr_capacity l1 < int fuel"
  proof (cases opn)
    case (Query now domain)
    then show ?thesis using query_assigns [OF Cons.prems, of now domain] Cons.prems(3) by auto
  next
    case (Reverse a)
    obtain h1 res where h1: "GetDomainFromFakeDNS a h = (h1, res)" by fastforce
    show ?thesis using reverse_ok [OF Cons.prems(1) h1] Cons.prems(2,3) Reverse h1 by (auto simp: map_option_case split: option.splits)
  qed
  with Cons.IH show ?case by fastforce
qed simp

text \<open>
  C17. The fake DNS engine always answers, and its answers can be translated back.  For a pool that starts with a
  size between one and the number of its addresses, and whose addresses do not begin with a zero byte, after any
  sequence of queries and translations: a query for any name at any time ends after at most one round more than
  the cache has room for, its answer is one address of the pool, and that address then translates back to the
  name, even when all other entries of the cache are in use.
\<close>

theorem fake_dns_roundtrip:
  assumes "fake_Start h0 = (h1, None)" and "fh_config h0 = Some c" and "0 < fc_LruSize c" and "fc_LruSize c < int fuel"
    and "ParseCIDR (fc_IpPool c) = Ok r" and "hd (nt_IP r) \<noteq> 0"
  shows "\<exists>h h' a. fake_run fuel ops h1 = Some h \<and> GetFakeIPForDomain fuel now domain h = Some (h', Ok [Some a]) \<and>
    IsIPInIPPool h' a = Ok True \<and> snd (GetDomainFromFakeDNS a h') = Ok domain"
proof -
  have h1: "h1 = h0\<lparr>fh_domainToIP := Some (NewLru (fc_LruSize c)), fh_ipRange := Some r\<rparr>" "fc_LruSize c < 2 ^ rooms r"
    using assms(1-3,5) by (auto simp: fake_Start_def fake_initialize_def split: if_splits)
  have "pool_ok r" by (rule ParseCIDR_pool [OF assms(5,6)])
  then have "holder_ok h1"
    using h1 assms(3) New_valid [of "fc_LruSize c"] by (simp add: holder_ok_def pool_addresses_def NewLru_def entries_def)
  then obtain h l where h: "fake_run fuel ops h1 = Some h" "holder_ok h" "fh_domainToIP h = Some l" "lr_capacity l < int fuel"
    using fake_run_ok [of h1 "NewLru (fc_LruSize c)" fuel ops] h1 assms(4) by (auto simp: NewLru_def)
  obtain r' where r': "fh_ipRange h = Some r'" "pool_ok r'" using holder_okE [OF h(2)] by metis
  from query_assigns [OF h(2,3,4), of now domain] obtain h' l' n where
    q: "GetFakeIPForDomain fuel now domain h = Some (h', Ok [IPAddress (nat_bytes n)])" "holder_ok h'" "in_pool r' n"
      "fh_ipRange h' = Some r'" "fh_domainToIP h' = Some l'" "(domain, IPAddress (nat_bytes n)) \<in> set (entries l')"
    using r'(1) by auto
  obtain a where a: "IPAddress (nat_bytes n) = Some a" "addr_IP a = Ok (nat_bytes n)" "IsIP (addr_Family a)" "\<not> IsDomain (addr_Family a)"
    using pool_address [OF r'(2) q(3)] by blast
  have con: "net_Contains r' (nat_bytes n)"
    using net_Contains_pool [OF r'(2), of n] q(3) pool_length(2) [OF r'(2) q(3)] by (simp add: in_pool_def)
  have "lru_valid l'" using q(2,5) by (auto elim!: holder_okE)
  obtain l2 s where s: "GetKeyFromValue (Some a) l' = (l2, s)" by fastforce
  then have "s = Some domain" using lc.key_of_law [OF \<open>lru_valid l'\<close> s] q(6) a(1) by simp
  then have "snd (GetDomainFromFakeDNS a h') = Ok domain"
    using a(2,3) con q(4,5) s by (simp add: GetDomainFromFakeDNS_def)
  moreover have "IsIPInIPPool h' a = Ok True" using a con q(4) by (simp add: IsIPInIPPool_def)
  ultimately show ?thesis using h(1) q(1) a(1) by auto
qed

definition sample_fake :: holder where
  "sample_fake = NewFakeDNSHolderConfigOnly (Some \<lparr>fc_IpPool = ''198.18.0.0/15'', fc_LruSize = 4\<rparr>)"

theorem fake_dns_roundtrip_witness:
  "\<exists>h h' a. fake_run 5 [Query 7 ''a.org'', Query 7 ''b.org'', Reverse (IPv4Address [198, 18, 0, 7])] (fst (fake_Start sample_fake)) = Some h \<and>
     GetFakeIPForDomain 5 7 ''c.org'' h = Some (h', Ok [Some a]) \<and> snd (GetDomainFromFakeDNS a h') = Ok ''c.org''"
proof -
  have p: "ParseCIDR ''198.18.0.0/15'' = Ok \<lparr>nt_IP = [198, 18, 0, 0], nt_ones = 15, nt_bits = 32\<rparr>"
  proof -
    have "index_of (CHR ''/'') ''198.18.0.0/15'' = Some 10" "ParseIP ''198.18.0.0'' = Some (v4_in_v6 [198, 18, 0, 0])"
      "dec_val ''15'' = 15" "list_all is_digit ''15''" by code_simp+
    then show ?thesis by (simp add: ParseCIDR_def v4_in_v6_def be_nat_def be_fixed_4)
  qed
  have "snd (fake_Start sample_fake) = None"
    by (simp add: fake_Start_def sample_fake_def NewFakeDNSHolderConfigOnly_def fake_initialize_def p rooms_def)
  then have s: "fake_Start sample_fake = (fst (fake_Start sample_fake), None)" by (simp add: prod_eq_iff)
  have c: "fh_config sample_fake = Some \<lparr>fc_IpPool = ''198.18.0.0/15'', fc_LruSize = 4\<rparr>"
    by (simp add: sample_fake_def NewFakeDNSHolderConfigOnly_def)
  have "0 < fc_LruSize \<lparr>fc_IpPool = ''198.18.0.0/15'', fc_LruSize = 4\<rparr>" "fc_LruSize \<lparr>fc_IpPool = ''198.18.0.0/15'', fc_LruSize = 4\<rparr> < int 5"
    "ParseCIDR (fc_IpPool \<lparr>fc_IpPool = ''198.18.0.0/15'', fc_LruSize = 4\<rparr>) = Ok \<lparr>nt_IP = [198, 18, 0, 0], nt_ones = 15, nt_bits = 32\<rparr>"
    "hd (nt_IP \<lparr>nt_IP = [198, 18, 0, 0], nt_ones = 15, nt_bits = 32\<rparr>) \<noteq> 0" using p by simp_all
  from fake_dns_roundtrip [OF s c this] show ?thesis by metis
qed

definition nat64_range :: ip_net where
  "nat64_range = \<lparr>nt_IP = [0, 100, 255, 155, 0, 0, 0, 0, 0, 0, 0, 0, 0, 0, 0, 0], nt_ones = 96, nt_bits = 128\<rparr>"

text \<open>The engine as it is after starting with the pool \<open>64:ff9b::/96\<close> and a cache of four entries.\<close>

definition nat64_holder :: holder where
  "nat64_holder = \<lparr>fh_domainToIP = Some (NewLru 4), fh_ipRange = Some nat64_range,
     fh_config = Some \<lparr>fc_IpPool = ''64:ff9b::/96'', fc_LruSize = 4\<rparr>\<rparr>"

lemma short_never_free:
  assumes "length (nat_bytes n) = 15" and "length (nat_bytes (be_nat (nt_IP nat64_range))) = 15"
    and "length (nat_bytes (be_nat (nt_IP nat64_range) + 1)) = 15" and "length (nat_bytes (n + 1)) = 15"
    and "PeekKeyFromValue None l \<noteq> None"
  shows "pick_ip fuel l nat64_range n = None"
  using assms(1,4)
proof (induction fuel arbitrary: n)
  case (Suc fuel)
  have nil: "IPAddress (nat_bytes n) = None" using Suc.prems(1) by (simp add: IPAddress_def)
  have "length (nt_IP nat64_range) = 16" "\<not> is_v4_mapped (nt_IP nat64_range)" by (simp_all add: nat64_range_def is_v4_mapped_def)
  then have "\<not> net_Contains nat64_range (nat_bytes (n + 1))" using Suc.prems(2) by (simp add: net_Contains_def To4_def Let_def)
  then have "pick_ip (Suc fuel) l nat64_range n = pick_ip fuel l nat64_range (be_nat (nt_IP nat64_range))"
    using nil assms(5) by (auto simp: Let_def)
  with Suc.IH [OF assms(2,3)] show ?case by simp
qed simp

text \<open>
  A pool whose addresses begin with a zero byte, such as the well-known prefix \<open>64:ff9b::/96\<close>, hangs the
  engine: \<open>Bytes\<close> drops the leading zero, so that every address of the pool is nil.  The first name is answered
  with nil; the query for a second name never ends, however many rounds are allowed, while it holds the lock.
\<close>

theorem fake_dns_hangs:
  "\<exists>h. \<forall>now now' fuel. GetFakeIPForDomain (Suc fuel) now ''a.org'' nat64_holder = Some (h, Ok [None]) \<and>
     GetFakeIPForDomain fuel now' ''b.org'' h = None"
proof -
  let ?b = "be_nat (nt_IP nat64_range)" and ?l = "lru_Put ''a.org'' None (NewLru 4) :: fake_lru"
  let ?h = "nat64_holder\<lparr>fh_domainToIP := Some ?l\<rparr>"
  have b: "?b = 524413980667603649783483181312245760" by (simp add: nat64_range_def be_nat_def)
  have len: "length (nat_bytes (?b + k)) = 15" if "k \<le> 2 ^ 32" for k
    using nat_bytes_length [of 14 "?b + k"] that by (simp add: b)
  have off: "clock_offset now nat64_range < 2 ^ 32" for now
    using clock_offset_bound [of now nat64_range] by (simp add: rooms_def nat64_range_def)
  have miss: "lru_Get ''a.org'' (NewLru 4 :: fake_lru) = (NewLru 4, None)" "PeekKeyFromValue None (NewLru 4 :: fake_lru) = None"
    by (simp_all add: lru_Get_def NewLru_def PeekKeyFromValue_def)
  have l: "lru_Get ''b.org'' ?l = (?l, None)" "PeekKeyFromValue None ?l \<noteq> None"
    by (simp_all add: lru_Get_def lru_Put_def NewLru_def PeekKeyFromValue_def Let_def)
  have "GetFakeIPForDomain (Suc fuel) now ''a.org'' nat64_holder = Some (?h, Ok [None])" for fuel now
    using len [of "clock_offset now nat64_range"] off [of now]
    by (simp add: GetFakeIPForDomain_def nat64_holder_def miss IPAddress_def Let_def)
  moreover have "GetFakeIPForDomain fuel now ''b.org'' ?h = None" for fuel now
  proof -
    have "pick_ip fuel ?l nat64_range (?b + clock_offset now nat64_range) = None"
      by (rule short_never_free)
         (use len [of "clock_offset now nat64_range"] len [of "clock_offset now nat64_range + 1"] len [of 0] len [of 1] off [of now] l(2)
           in \<open>simp_all add: add.assoc\<close>)
    then show ?thesis using l(1) by (simp add: GetFakeIPForDomain_def nat64_holder_def)
  qed
  ultimately show ?thesis by blast
qed

end
