(* ===== verification/Sniffer.thy ===== *)
theory Sniffer
  imports QuicSniff FakeDns
begin

text \<open>
  The sniffer of the dispatcher (\<open>app/dispatcher/sniffer.go\<close>, \<open>fakednssniffer.go\<close>): a list of protocol sniffers that
  shrinks to those that still may recognise the connection, and the two sniffers that ask the fake DNS engine.  A sniffer
  may write attributes into the session content, and asking the fake DNS engine moves an entry in its cache: both are the
  state that is passed along.
\<close>

section \<open>Results\<close>

datatype sniff_result =
    HTTP_result string
  | TLS_result string
  | Bittorrent_result
  | QUIC_result string
  | fakeDNSSniffResult string
  | DNSThenOthersSniffResult string string
  | compositeResult sniff_result sniff_result

fun result_Protocol :: "sniff_result \<Rightarrow> string" where
  "result_Protocol (HTTP_result h) = ''http1''"
| "result_Protocol (TLS_result d) = ''tls''"
| "result_Protocol Bittorrent_result = ''bittorrent''"
| "result_Protocol (QUIC_result d) = ''quic''"
| "result_Protocol (fakeDNSSniffResult d) = ''fakedns''"
| "result_Protocol (DNSThenOthersSniffResult d p) = ''fakedns+others''"
| "result_Protocol (compositeResult d p) = result_Protocol p"

fun result_Domain :: "sniff_result \<Rightarrow> string" where
  "result_Domain (HTTP_result h) = h"
| "result_Domain (TLS_result d) = d"
| "result_Domain Bittorrent_result = ''''"
| "result_Domain (QUIC_result d) = d"
| "result_Domain (fakeDNSSniffResult d) = d"
| "result_Domain (DNSThenOthersSniffResult d p) = d"
| "result_Domain (compositeResult d p) = result_Domain d"

text \<open>The optional interfaces: the protocol behind the domain of a composite result, and the subset test.\<close>

fun ProtocolForDomainResult :: "sniff_result \<Rightarrow> string option" where
  "ProtocolForDomainResult (compositeResult d p) = Some (result_Protocol d)"
| "ProtocolForDomainResult _ = None"

fun IsProtoSubsetOf :: "sniff_result \<Rightarrow> string \<Rightarrow> bool" where
  "IsProtoSubsetOf (DNSThenOthersSniffResult d p) name = prefix p name"
| "IsProtoSubsetOf _ name = False"

definition CompositeResult :: "sniff_result \<Rightarrow> sniff_result \<Rightarrow> sniff_result" where
  "CompositeResult domainResult protocolResult = compositeResult domainResult protocolResult"

section \<open>Protocol sniffers\<close>

text \<open>The function of an entry; its flag and its network follow from it.\<close>

datatype protocol_sniffer =
    Sniff_HTTP
  | Sniff_TLS
  | Sniff_Bittorrent
  | Sniff_QUIC
  | Sniff_UTP
  | Sniff_FakeDNS
  | Sniff_FakeDNSThenOthers

fun metadataSniffer :: "protocol_sniffer \<Rightarrow> bool" where
  "metadataSniffer Sniff_FakeDNS = True"
| "metadataSniffer _ = False"

text \<open>Both fake DNS entries leave the network at its zero value.\<close>

fun sniffer_network :: "protocol_sniffer \<Rightarrow> network" where
  "sniffer_network Sniff_HTTP = Network_TCP"
| "sniffer_network Sniff_TLS = Network_TCP"
| "sniffer_network Sniff_Bittorrent = Network_TCP"
| "sniffer_network Sniff_QUIC = Network_UDP"
| "sniffer_network Sniff_UTP = Network_UDP"
| "sniffer_network Sniff_FakeDNS = Network_Unknown"
| "sniffer_network Sniff_FakeDNSThenOthers = Network_Unknown"

record sniff_env =
  sn_now :: int
  sn_quic :: quic_env
  sn_pick :: "nat option"
  sn_pools :: pools
  sn_target :: destination

record sniff_state =
  ss_content :: "session_content option"
  ss_fdns :: "holder list option"

definition basic_sniffers :: "protocol_sniffer list" where
  "basic_sniffers = [Sniff_HTTP, Sniff_TLS, Sniff_Bittorrent, Sniff_QUIC, Sniff_UTP]"

definition NewSniffer :: "sniff_state \<Rightarrow> protocol_sniffer list" where
  "NewSniffer st =
     (case ss_fdns st of
        None \<Rightarrow> basic_sniffers
      | Some hs \<Rightarrow> Sniff_FakeDNSThenOthers # basic_sniffers @ [Sniff_FakeDNS])"

text \<open>
  The fake DNS sniffer; with \<open>inRange\<close> it also says whether the target lies in the pool, as it does when the context asks
  for it.  The name is \<open>ErrNoClue\<close> if the target is not a fake address.
\<close>

definition fakedns_sniff :: "sniff_env \<Rightarrow> bool \<Rightarrow> sniff_state \<Rightarrow> sniff_state \<times> bool option \<times> string res" where
  "fakedns_sniff env inRange st =
     (case ss_fdns st of
        None \<Rightarrow> (st, None, Err ErrNoClue)
      | Some hs \<Rightarrow>
          (case dest_Address (sn_target env) of
             None \<Rightarrow>
               (if dest_Network (sn_target env) \<in> {Network_TCP, Network_UDP} \<and> hs \<noteq> [] \<or> inRange
                then (st, None, nil_deref) else (st, None, Err ErrNoClue))
           | Some a \<Rightarrow>
               (case (if dest_Network (sn_target env) \<in> {Network_TCP, Network_UDP}
                      then multi_GetDomainFromFakeDNS a hs else (hs, Ok '''')) of
                  (hs', Ok domain) \<Rightarrow>
                    (if domain \<noteq> '''' then (st\<lparr>ss_fdns := Some hs'\<rparr>, None, Ok domain)
                     else if inRange then
                       (case multi_IsIPInIPPool hs' a of
                          Ok p \<Rightarrow> (st\<lparr>ss_fdns := Some hs'\<rparr>, Some p, Err ErrNoClue)
                        | Err e \<Rightarrow> (st\<lparr>ss_fdns := Some hs'\<rparr>, None, Err e)
                        | Panic x \<Rightarrow> (st\<lparr>ss_fdns := Some hs'\<rparr>, None, Panic x))
                     else (st\<lparr>ss_fdns := Some hs'\<rparr>, None, Err ErrNoClue))
                | (hs', r) \<Rightarrow> (st\<lparr>ss_fdns := Some hs'\<rparr>, None, r))))"

text \<open>The payload is \<open>None\<close> when only metadata is sniffed.  The five sniffers of content read it as a slice.\<close>

fun basic_sniff :: "sniff_env \<Rightarrow> gslice option \<Rightarrow> protocol_sniffer \<Rightarrow> sniff_state \<Rightarrow> sniff_state \<times> sniff_result res" where
  "basic_sniff env payload Sniff_HTTP st =
     (case SniffHTTP (slice_bytes (case payload of None \<Rightarrow> Nil_slice | Some p \<Rightarrow> p)) (ss_content st) of
        (c, r) \<Rightarrow> (st\<lparr>ss_content := c\<rparr>, rmap HTTP_result r))"
| "basic_sniff env payload Sniff_TLS st =
     (st, rmap TLS_result (SniffTLS (slice_bytes (case payload of None \<Rightarrow> Nil_slice | Some p \<Rightarrow> p))))"
| "basic_sniff env payload Sniff_Bittorrent st =
     (st, rmap (\<lambda>_. Bittorrent_result) (SniffBittorrent (slice_bytes (case payload of None \<Rightarrow> Nil_slice | Some p \<Rightarrow> p))))"
| "basic_sniff env payload Sniff_QUIC st =
     (st, rmap QUIC_result (SniffQUIC (sn_quic env) (sn_pick env) (sn_pools env)
        (case payload of None \<Rightarrow> Nil_slice | Some p \<Rightarrow> p)))"
| "basic_sniff env payload Sniff_UTP st =
     (st, rmap (\<lambda>_. Bittorrent_result)
        (SniffUTP (sn_now env) (slice_bytes (case payload of None \<Rightarrow> Nil_slice | Some p \<Rightarrow> p))))"
| "basic_sniff env payload _ st = (st, Err ErrNoClue)"

fun first_success ::
  "sniff_env \<Rightarrow> gslice option \<Rightarrow> protocol_sniffer list \<Rightarrow> sniff_state \<Rightarrow> sniff_state \<times> sniff_result res" where
  "first_success env payload [] st = (st, Err ErrNoClue)"
| "first_success env payload (v # vs) st =
     (if metadataSniffer v \<or> payload \<noteq> None then
        (case basic_sniff env payload v st of
           (st, Ok result) \<Rightarrow> (st, Ok (DNSThenOthersSniffResult (result_Domain result) (result_Protocol result)))
         | (st, Err e) \<Rightarrow> first_success env payload vs st
         | (st, Panic p) \<Rightarrow> (st, Panic p))
      else first_success env payload vs st)"

definition protocolSniffer ::
  "sniff_env \<Rightarrow> gslice option \<Rightarrow> protocol_sniffer \<Rightarrow> sniff_state \<Rightarrow> sniff_state \<times> sniff_result res" where
  "protocolSniffer env payload s st =
     (case s of
        Sniff_FakeDNS \<Rightarrow> (case fakedns_sniff env False st of (st, _, r) \<Rightarrow> (st, rmap fakeDNSSniffResult r))
      | Sniff_FakeDNSThenOthers \<Rightarrow>
          (case fakedns_sniff env True st of
             (st, _, Ok d) \<Rightarrow> (st, Ok (fakeDNSSniffResult d))
           | (st, _, Panic p) \<Rightarrow> (st, Panic p)
           | (st, Some True, Err e) \<Rightarrow> first_success env payload basic_sniffers st
           | (st, _, Err e) \<Rightarrow> (st, Err ErrNoClue))
      | _ \<Rightarrow> basic_sniff env payload s st)"

section \<open>Sniffing\<close>

definition errUnknownContent :: goerr where "errUnknownContent = ErrMsg ''unknown content''"

text \<open>
  The loops of \<open>Sniff\<close> and \<open>SniffMetadata\<close> over the entries \<open>ss\<close>, where \<open>all\<close> is the whole list and \<open>pend\<close> collects the
  entries that have no clue yet.  They return the new list, the state and the result.
\<close>

definition finish_sniff ::
  "protocol_sniffer list \<Rightarrow> protocol_sniffer list \<Rightarrow> sniff_state \<Rightarrow> protocol_sniffer list \<times> sniff_state \<times> sniff_result res" where
  "finish_sniff all pend st =
     (if pend \<noteq> [] then (pend, st, Err ErrNoClue) else (all, st, Err errUnknownContent))"

fun sniff_loop ::
  "sniff_env \<Rightarrow> gslice \<Rightarrow> network \<Rightarrow> protocol_sniffer list \<Rightarrow> protocol_sniffer list \<Rightarrow> protocol_sniffer list \<Rightarrow> sniff_state
    \<Rightarrow> protocol_sniffer list \<times> sniff_state \<times> sniff_result res" where
  "sniff_loop env payload network all [] pend st = finish_sniff all pend st"
| "sniff_loop env payload network all (si # ss) pend st =
     (if metadataSniffer si \<or> sniffer_network si \<noteq> network then sniff_loop env payload network all ss pend st
      else
        (case protocolSniffer env (Some payload) si st of
           (st, Ok result) \<Rightarrow> (all, st, Ok result)
         | (st, Panic p) \<Rightarrow> (all, st, Panic p)
         | (st, Err e) \<Rightarrow>
             (if e = ErrNoClue then sniff_loop env payload network all ss (pend @ [si]) st
              else if e = ErrProtoNeedMoreData then ([si], st, Err e)
              else sniff_loop env payload network all ss pend st)))"

definition Sniff ::
  "sniff_env \<Rightarrow> gslice \<Rightarrow> network \<Rightarrow> protocol_sniffer list \<Rightarrow> sniff_state \<Rightarrow> protocol_sniffer list \<times> sniff_state \<times> sniff_result res" where
  "Sniff env payload network ss st = sniff_loop env payload network ss ss [] st"

fun metadata_loop ::
  "sniff_env \<Rightarrow> protocol_sniffer list \<Rightarrow> protocol_sniffer list \<Rightarrow> protocol_sniffer list \<Rightarrow> sniff_state
    \<Rightarrow> protocol_sniffer list \<times> sniff_state \<times> sniff_result res" where
  "metadata_loop env all [] pend st = finish_sniff all pend st"
| "metadata_loop env all (si # ss) pend st =
     (if \<not> metadataSniffer si then metadata_loop env all ss (pend @ [si]) st
      else
        (case protocolSniffer env None si st of
           (st, Ok result) \<Rightarrow> (all, st, Ok result)
         | (st, Panic p) \<Rightarrow> (all, st, Panic p)
         | (st, Err e) \<Rightarrow>
             (if e = ErrNoClue then metadata_loop env all ss (pend @ [si]) st
              else metadata_loop env all ss pend st)))"

definition SniffMetadata ::
  "sniff_env \<Rightarrow> protocol_sniffer list \<Rightarrow> sniff_state \<Rightarrow> protocol_sniffer list \<times> sniff_state \<times> sniff_result res" where
  "SniffMetadata env ss st = metadata_loop env ss ss [] st"

section \<open>A TLS connection is recognised\<close>

lemma not_http:
  assumes "b \<noteq> []" and "hd b = 22"
  shows "\<exists>e. SniffHTTP b ct = (ct, Err e) \<and> e \<noteq> ErrProtoNeedMoreData"
proof -
  obtain r where b: "b = 22 # r" using assms by (cases b) auto
  have c: "lower_char (char_of_byte 22) = char_of (22 :: nat)" by code_simp
  have "\<exists>e. method_loop (of_bytes b) ms = Err e \<and> e \<noteq> ErrProtoNeedMoreData"
    if "list_all (\<lambda>m. m \<noteq> [] \<and> hd m \<noteq> char_of (22 :: nat)) ms" for ms
    using that
  proof (induction ms)
    case (Cons m ms)
    then have "ToLower (take (length m) (of_bytes b)) \<noteq> m"
      by (cases m) (auto simp: b of_bytes_def ToLower_def c)
    then show ?case using Cons by simp
  qed (simp add: errNotHTTPMethod_def)
  moreover have "list_all (\<lambda>m. m \<noteq> [] \<and> hd m \<noteq> char_of (22 :: nat)) methods" by code_simp
  ultimately show ?thesis by (fastforce simp: SniffHTTP_def beginWithHTTPMethod_def Let_def)
qed

lemma not_bittorrent:
  assumes "b \<noteq> []" and "hd b = 22"
  shows "\<exists>e. SniffBittorrent b = Err e \<and> e \<noteq> ErrProtoNeedMoreData"
  using assms by (cases b) (auto simp: SniffBittorrent_def errNotBittorrent_def)

text \<open>The sniffers for TCP content other than that for TLS refuse a payload that begins with a handshake record.\<close>

lemma others_refuse:
  assumes "slice_bytes p \<noteq> []" and "hd (slice_bytes p) = 22" and "sniffer_network si = Network_TCP" and "si \<noteq> Sniff_TLS"
  shows "\<exists>e. protocolSniffer env (Some p) si st = (st, Err e) \<and> e \<noteq> ErrProtoNeedMoreData"
proof (cases si)
  case Sniff_HTTP
  obtain e where "SniffHTTP (slice_bytes p) (ss_content st) = (ss_content st, Err e)" "e \<noteq> ErrProtoNeedMoreData"
    using not_http [OF assms(1,2)] by blast
  then show ?thesis by (simp add: protocolSniffer_def Sniff_HTTP)
next
  case Sniff_Bittorrent
  then show ?thesis using not_bittorrent [OF assms(1,2)] by (auto simp: protocolSniffer_def)
qed (use assms(3,4) in auto)

lemma tls_complete:
  assumes "slice_bytes p \<noteq> []" and "hd (slice_bytes p) = 22" and "SniffTLS (slice_bytes p) = Ok s"
  shows "Sniff_TLS \<in> set ss \<Longrightarrow> \<exists>ss'. sniff_loop env p Network_TCP all ss pend st = (ss', st, Ok (TLS_result s))"
proof (induction ss arbitrary: pend)
  case (Cons si ss)
  consider "si = Sniff_TLS" | "si \<noteq> Sniff_TLS" "sniffer_network si = Network_TCP" | "sniffer_network si \<noteq> Network_TCP" by blast
  then show ?case
  proof cases
    case 2
    then obtain e where "protocolSniffer env (Some p) si st = (st, Err e)" "e \<noteq> ErrProtoNeedMoreData"
      using others_refuse [OF assms(1,2)] by blast
    then show ?thesis using Cons 2 by auto
  qed (use Cons assms(3) in \<open>auto simp: protocolSniffer_def\<close>)
qed simp

lemma tls_incomplete:
  assumes "slice_bytes p \<noteq> []" and "hd (slice_bytes p) = 22" and "SniffTLS (slice_bytes p) = Err ErrNoClue"
  shows "Sniff_TLS \<in> set ss \<union> set pend \<Longrightarrow>
    \<exists>ss'. sniff_loop env p Network_TCP all ss pend st = (ss', st, Err ErrNoClue) \<and> Sniff_TLS \<in> set ss'"
proof (induction ss arbitrary: pend)
  case Nil
  then show ?case by (auto simp: finish_sniff_def)
next
  case (Cons si ss)
  consider "si = Sniff_TLS" | "si \<noteq> Sniff_TLS" "sniffer_network si = Network_TCP" | "sniffer_network si \<noteq> Network_TCP" by blast
  then show ?case
  proof cases
    case 1
    then show ?thesis using Cons.IH [of "pend @ [Sniff_TLS]"] assms(3) by (simp add: protocolSniffer_def)
  next
    case 2
    then obtain e where "protocolSniffer env (Some p) si st = (st, Err e)" "e \<noteq> ErrProtoNeedMoreData"
      using others_refuse [OF assms(1,2)] by blast
    then show ?thesis using Cons.IH [of "pend @ [si]"] Cons.IH [of pend] Cons.prems 2 by (cases "e = ErrNoClue") auto
  next
    case 3
    then show ?thesis using Cons by auto
  qed
qed

lemma record_start: "slice_bytes p \<noteq> [] \<Longrightarrow> prefix (slice_bytes p) (hello_record minor h @ r) \<Longrightarrow> hd (slice_bytes p) = 22"
  by (cases "slice_bytes p") (auto simp: hello_record_def)

definition example_env :: sniff_env where
  "example_env =
     \<lparr>sn_now = 0, sn_quic = plain_env, sn_pick = None, sn_pools = pools_init, sn_target = TCPDestination (IPAddress [1, 2, 3, 4]) 443\<rparr>"

definition example_state :: sniff_state where
  "example_state = \<lparr>ss_content = Some \<lparr>ct_Protocol = '''', ct_Attributes = None, ct_SkipDNSResolve = False\<rparr>, ss_fdns = None\<rparr>"

definition whole_slice :: "bytes \<Rightarrow> gslice" where
  "whole_slice b = Mk_slice b (length b)"

lemma slice_bytes_whole [simp]: "slice_bytes (whole_slice b) = b"
  by (simp add: slice_bytes_def whole_slice_def)

section \<open>A sniffer that is never asked\<close>

lemma basic_sniff_plain: "snd (basic_sniff env p si st) \<noteq> Ok (DNSThenOthersSniffResult d q)"
  by (cases si) (auto simp: rmap_Ok_iff split: prod.splits)

lemma sniff_loop_plain:
  "network \<noteq> Network_Unknown \<Longrightarrow> snd (snd (sniff_loop env p network all ss pend st)) \<noteq> Ok (DNSThenOthersSniffResult d q)"
proof (induction ss arbitrary: pend st)
  case (Cons si ss)
  show ?case
  proof (cases "metadataSniffer si \<or> sniffer_network si \<noteq> network")
    case False
    then have basic: "protocolSniffer env (Some p) si st = basic_sniff env (Some p) si st"
      using Cons.prems by (cases si) (auto simp: protocolSniffer_def)
    obtain st' r where r: "basic_sniff env (Some p) si st = (st', r)" by fastforce
    then have "r \<noteq> Ok (DNSThenOthersSniffResult d q)" using basic_sniff_plain [of env "Some p" si st] by simp
    then show ?thesis using False Cons r by (cases r) (auto simp: basic)
  qed (use Cons in auto)
qed (simp add: finish_sniff_def)

lemma metadata_loop_plain: "snd (snd (metadata_loop env all ss pend st)) \<noteq> Ok (DNSThenOthersSniffResult d q)"
proof (induction ss arbitrary: pend st)
  case (Cons si ss)
  show ?case
  proof (cases "metadataSniffer si")
    case True
    then have si: "si = Sniff_FakeDNS" by (cases si) auto
    obtain st' x r where r: "fakedns_sniff env False st = (st', x, r)" by (metis prod_cases3)
    then show ?thesis using Cons si by (cases r) (auto simp: protocolSniffer_def)
  qed (use Cons in auto)
qed (simp add: finish_sniff_def)

text \<open>
  The sniffer that combines the fake DNS with the other sniffers is never asked: its entry has no network, so
  \<open>Sniff\<close> passes over it for TCP and for UDP, and it is no metadata sniffer.  The protocol \<open>fakedns+others\<close> is never reported.
\<close>

theorem fakedns_others_never_reported:
  assumes "network = Network_TCP \<or> network = Network_UDP"
  shows "snd (snd (Sniff env p network (NewSniffer st0) st)) \<noteq> Ok (DNSThenOthersSniffResult d q) \<and>
    snd (snd (SniffMetadata env (NewSniffer st0) st)) \<noteq> Ok (DNSThenOthersSniffResult d q)"
  using assms sniff_loop_plain metadata_loop_plain by (auto simp: Sniff_def SniffMetadata_def)

theorem fakedns_others_never_reported_witness:
  "snd (snd (Sniff example_env (whole_slice [1, 2, 3]) Network_TCP (NewSniffer (example_state\<lparr>ss_fdns := Some []\<rparr>)) example_state)) \<noteq>
     Ok (DNSThenOthersSniffResult ''a'' ''tls'')"
  using fakedns_others_never_reported [of Network_TCP] by blast

end
