(* ===== verification/OutboundManager.thy ===== *)
theory OutboundManager
  imports Prelude "HOL-Library.AList" "HOL-Library.List_Lexorder" "HOL-Library.Char_ord"
begin

text \<open>
  The manager of outbound handlers (\<open>app/proxyman/outbound/outbound.go\<close>): the default handler, the map of
  tagged handlers, the untagged ones, and the cache of selections that the load balancers read.  A handler is
  its identity and its tag; what starting and closing it does is a parameter acting on a state \<open>'w\<close>.  The map
  is an association list; \<open>iterate\<close> is the order in which Go walks over it.
\<close>

section \<open>The manager\<close>

record handler =
  oh_id :: nat
  oh_Tag :: string

record outbound_manager =
  om_defaultHandler :: "handler option"
  om_taggedHandler :: "(string \<times> handler) list"
  om_untaggedHandlers :: "handler list"
  om_running :: bool
  om_tagsCache :: "(string \<times> string list) list"

type_synonym map_order = "(string \<times> handler) list \<Rightarrow> (string \<times> handler) list"
type_synonym 'w handler_action = "handler \<Rightarrow> 'w \<Rightarrow> 'w \<times> goerr option"

definition New_manager :: outbound_manager where
  "New_manager = \<lparr>om_defaultHandler = None, om_taggedHandler = [], om_untaggedHandlers = [],
     om_running = False, om_tagsCache = []\<rparr>"

fun start_all :: "'w handler_action \<Rightarrow> handler list \<Rightarrow> 'w \<Rightarrow> 'w \<times> goerr option" where
  "start_all start [] w = (w, None)"
| "start_all start (h # hs) w =
     (case start h w of (w', None) \<Rightarrow> start_all start hs w' | (w', Some err) \<Rightarrow> (w', Some err))"

definition om_Start ::
  "'w handler_action \<Rightarrow> map_order \<Rightarrow> outbound_manager \<Rightarrow> 'w \<Rightarrow> outbound_manager \<times> 'w \<times> goerr option" where
  "om_Start start iterate m w =
     (m\<lparr>om_running := True\<rparr>, start_all start (map snd (iterate (om_taggedHandler m)) @ om_untaggedHandlers m) w)"

text \<open>\<open>Close\<close> closes every handler and combines the errors.\<close>

fun close_all :: "'w handler_action \<Rightarrow> handler list \<Rightarrow> 'w \<Rightarrow> 'w \<times> goerr list" where
  "close_all close [] w = (w, [])"
| "close_all close (h # hs) w =
     (case close h w of (w', err) \<Rightarrow>
        case close_all close hs w' of (w'', errs) \<Rightarrow>
          (w'', (case err of None \<Rightarrow> errs | Some e \<Rightarrow> e # errs)))"

definition om_Close ::
  "'w handler_action \<Rightarrow> map_order \<Rightarrow> outbound_manager \<Rightarrow> 'w \<Rightarrow> outbound_manager \<times> 'w \<times> goerr list" where
  "om_Close close iterate m w =
     (m\<lparr>om_running := False\<rparr>, close_all close (map snd (iterate (om_taggedHandler m)) @ om_untaggedHandlers m) w)"

definition GetDefaultHandler :: "outbound_manager \<Rightarrow> handler option" where
  "GetDefaultHandler m = om_defaultHandler m"

definition GetHandler :: "outbound_manager \<Rightarrow> string \<Rightarrow> handler option" where
  "GetHandler m tag = map_of (om_taggedHandler m) tag"

definition AddHandler ::
  "'w handler_action \<Rightarrow> handler \<Rightarrow> outbound_manager \<Rightarrow> 'w \<Rightarrow> outbound_manager \<times> 'w \<times> goerr option" where
  "AddHandler start h m w =
     (let m = m\<lparr>om_tagsCache := []\<rparr>;
          m = (if om_defaultHandler m = None then m\<lparr>om_defaultHandler := Some h\<rparr> else m);
          tag = oh_Tag h in
      if length tag > 0 \<and> map_of (om_taggedHandler m) tag \<noteq> None
      then (m, w, Some (ErrMsg ''existing tag found: ''))
      else
        (let m = (if length tag > 0 then m\<lparr>om_taggedHandler := AList.update tag h (om_taggedHandler m)\<rparr>
                  else m\<lparr>om_untaggedHandlers := om_untaggedHandlers m @ [h]\<rparr>) in
         if om_running m then (m, start h w) else (m, w, None)))"

definition RemoveHandler :: "string \<Rightarrow> outbound_manager \<Rightarrow> outbound_manager \<times> goerr option" where
  "RemoveHandler tag m =
     (if tag = '''' then (m, Some ErrNoClue)
      else
        (let m = m\<lparr>om_tagsCache := [], om_taggedHandler := AList.delete tag (om_taggedHandler m)\<rparr> in
         (case om_defaultHandler m of
            Some h \<Rightarrow> if oh_Tag h = tag then m\<lparr>om_defaultHandler := None\<rparr> else m
          | None \<Rightarrow> m, None)))"

text \<open>
  \<open>copy(dst, src)\<close> writes the common prefix of \<open>src\<close> over \<open>dst\<close>.  \<open>ListHandlers\<close> passes the untagged
  handlers as the destination and its own, still empty, response as the source.
\<close>

definition go_copy :: "'a list \<Rightarrow> 'a list \<Rightarrow> 'a list" where
  "go_copy dst src = take (length dst) src @ drop (length src) dst"

definition ListHandlers :: "map_order \<Rightarrow> outbound_manager \<Rightarrow> outbound_manager \<times> handler list" where
  "ListHandlers iterate m =
     (let response = [];
          m = m\<lparr>om_untaggedHandlers := go_copy (om_untaggedHandlers m) response\<rparr> in
      (m, response @ map snd (iterate (om_taggedHandler m))))"

fun strings_Join :: "char \<Rightarrow> string list \<Rightarrow> string" where
  "strings_Join sep [] = []"
| "strings_Join sep [s] = s"
| "strings_Join sep (s # t # ss) = s @ sep # strings_Join sep (t # ss)"

definition om_Select :: "map_order \<Rightarrow> string list \<Rightarrow> outbound_manager \<Rightarrow> outbound_manager \<times> string list" where
  "om_Select iterate selectors m =
     (let key = strings_Join (CHR '','') selectors in
      case map_of (om_tagsCache m) key of
        Some cache \<Rightarrow> (m, cache)
      | None \<Rightarrow>
          (let tags = sort (filter (\<lambda>tag. list_ex (\<lambda>selector. prefix selector tag) selectors)
                        (map fst (iterate (om_taggedHandler m)))) in
           (m\<lparr>om_tagsCache := AList.update key tags (om_tagsCache m)\<rparr>, tags)))"

section \<open>Reachable managers\<close>

text \<open>The operations on a manager; a selector without commas is one that the cache key can tell apart.\<close>

definition selectors_ok :: "string list \<Rightarrow> bool" where
  "selectors_ok ss \<longleftrightarrow> ss \<noteq> [] \<and> list_all (\<lambda>s. CHR '','' \<notin> set s) ss"

inductive manager_reach :: "'w handler_action \<Rightarrow> 'w handler_action \<Rightarrow> outbound_manager \<Rightarrow> bool"
  for start close where
  reach_New: "manager_reach start close New_manager"
| reach_Add: "manager_reach start close m \<Longrightarrow> AddHandler start h m w = (m', r) \<Longrightarrow> manager_reach start close m'"
| reach_Remove: "manager_reach start close m \<Longrightarrow> RemoveHandler tag m = (m', err) \<Longrightarrow> manager_reach start close m'"
| reach_Start: "manager_reach start close m \<Longrightarrow> reorders iterate \<Longrightarrow> om_Start start iterate m w = (m', r) \<Longrightarrow> manager_reach start close m'"
| reach_Close: "manager_reach start close m \<Longrightarrow> reorders iterate \<Longrightarrow> om_Close close iterate m w = (m', r) \<Longrightarrow> manager_reach start close m'"
| reach_List: "manager_reach start close m \<Longrightarrow> reorders iterate \<Longrightarrow> ListHandlers iterate m = (m', hs) \<Longrightarrow> manager_reach start close m'"
| reach_Select: "manager_reach start close m \<Longrightarrow> reorders iterate \<Longrightarrow> selectors_ok ss \<Longrightarrow>
     om_Select iterate ss m = (m', tags) \<Longrightarrow> manager_reach start close m'"

section \<open>Selections\<close>

definition selection :: "outbound_manager \<Rightarrow> string list \<Rightarrow> string list" where
  "selection m ss =
     sort (filter (\<lambda>tag. list_ex (\<lambda>s. prefix s tag) ss) (map fst (om_taggedHandler m)))"

lemma sort_reorders: "reorders iterate \<Longrightarrow> sort (filter P (map fst (iterate kvs))) = sort (filter P (map fst kvs))"
  by (rule properties_for_sort) (simp_all add: reorders_def)

text \<open>Comma-free selectors can be read back from the joined key.\<close>

lemma comma_split:
  assumes "s @ x = t @ y" and "c \<notin> set s" and "c \<notin> set t" and "x = [] \<or> hd x = c" and "y = [] \<or> hd y = c"
  shows "s = t \<and> x = y"
proof -
  have "takeWhile (\<lambda>d. d \<noteq> c) (u @ z) = u" if "c \<notin> set u" "z = [] \<or> hd z = c" for u z
    using that by (cases z) (auto simp: takeWhile_append)
  from this [OF assms(2,4)] this [OF assms(3,5)] assms(1) show ?thesis by auto
qed

lemma strings_Join_inj:
  "selectors_ok ss \<Longrightarrow> selectors_ok ts \<Longrightarrow> strings_Join (CHR '','') ss = strings_Join (CHR '','') ts \<Longrightarrow> ss = ts"
proof (induction ss arbitrary: ts)
  case (Cons s ss)
  have tail: "\<exists>x. strings_Join (CHR '','') (u # us) = u @ x \<and>
      (if us = [] then x = [] else x = CHR '','' # strings_Join (CHR '','') us)" for u us
    by (cases us) auto
  obtain t ts' where ts: "ts = t # ts'" using Cons.prems(2) by (cases ts) (auto simp: selectors_ok_def)
  obtain x y where x: "strings_Join (CHR '','') (s # ss) = s @ x" "if ss = [] then x = [] else x = CHR '','' # strings_Join (CHR '','') ss"
    and y: "strings_Join (CHR '','') (t # ts') = t @ y" "if ts' = [] then y = [] else y = CHR '','' # strings_Join (CHR '','') ts'"
    using tail [of s ss] tail [of t ts'] by blast
  have free: "CHR '','' \<notin> set s" "CHR '','' \<notin> set t" using Cons.prems(1,2) ts by (simp_all add: selectors_ok_def)
  have st: "s = t" "x = y"
    using comma_split [OF _ free, of x y] Cons.prems(3) x y ts by (auto split: if_splits)
  show ?case
  proof (cases "ss = []")
    case True
    then have "ts' = []" using st(2) x(2) y(2) by (auto split: if_splits)
    with True st ts show ?thesis by simp
  next
    case False
    then have ne: "ts' \<noteq> []" "strings_Join (CHR '','') ss = strings_Join (CHR '','') ts'"
      using st(2) x(2) y(2) by (auto split: if_splits)
    then have "ss = ts'" using Cons.IH [of ts'] Cons.prems(1,2) False ts by (simp add: selectors_ok_def)
    with st ts show ?thesis by simp
  qed
qed (simp add: selectors_ok_def)

text \<open>The invariant: the map has every tag once, a handler under its own tag, and the cache is up to date.\<close>

definition tagged_ok :: "(string \<times> handler) list \<Rightarrow> bool" where
  "tagged_ok al \<longleftrightarrow> distinct (map fst al) \<and> (\<forall>(tag, h) \<in> set al. oh_Tag h = tag \<and> tag \<noteq> [])"

lemma tagged_ok_update: "tagged_ok al \<Longrightarrow> oh_Tag h \<noteq> [] \<Longrightarrow> tagged_ok (AList.update (oh_Tag h) h al)"
  by (induction al) (auto simp: tagged_ok_def dom_update rev_image_eqI)

lemma tagged_ok_delete: "tagged_ok al \<Longrightarrow> tagged_ok (AList.delete tag al)"
  by (induction al) (auto simp: tagged_ok_def delete_keys)

definition manager_ok :: "outbound_manager \<Rightarrow> bool" where
  "manager_ok m \<longleftrightarrow>
     tagged_ok (om_taggedHandler m) \<and>
     (\<forall>ss tags. selectors_ok ss \<longrightarrow> map_of (om_tagsCache m) (strings_Join (CHR '','') ss) = Some tags \<longrightarrow>
        tags = selection m ss)"

lemma selection_cong [simp]:
  "selection (m\<lparr>om_tagsCache := c\<rparr>) = selection m"
  "selection (m\<lparr>om_untaggedHandlers := us\<rparr>) = selection m"
  "selection (m\<lparr>om_running := r\<rparr>) = selection m"
  by (simp_all add: selection_def fun_eq_iff)

lemma om_Select_result:
  assumes "manager_ok m" and "reorders iterate" and "selectors_ok ss" and "om_Select iterate ss m = (m', tags)"
  shows "tags = selection m ss \<and> manager_ok m' \<and> om_taggedHandler m' = om_taggedHandler m"
proof (cases "map_of (om_tagsCache m) (strings_Join (CHR '','') ss)")
  case None
  then have m': "m' = m\<lparr>om_tagsCache := AList.update (strings_Join (CHR '','') ss) tags (om_tagsCache m)\<rparr>"
    and tags: "tags = selection m ss"
    using assms(4) sort_reorders [OF assms(2)] by (auto simp: om_Select_def Let_def selection_def)
  have "selectors_ok us \<Longrightarrow> strings_Join (CHR '','') us = strings_Join (CHR '','') ss \<Longrightarrow> us = ss" for us
    using strings_Join_inj [OF _ assms(3)] by blast
  then show ?thesis
    using assms(1) unfolding manager_ok_def m'
    by (auto simp: tags update_conv' split: if_splits)
qed (use assms in \<open>auto simp: om_Select_def Let_def manager_ok_def\<close>)

lemma reach_manager_ok: "manager_reach start close m \<Longrightarrow> manager_ok m"
proof (induction rule: manager_reach.induct)
  case (reach_Add m h w m' r)
  then show ?case
    by (auto simp: AddHandler_def Let_def manager_ok_def intro: tagged_ok_update split: if_splits)
next
  case (reach_Remove m tag m' err)
  then show ?case
    by (auto simp: RemoveHandler_def Let_def manager_ok_def intro: tagged_ok_delete split: if_splits option.splits)
next
  case (reach_Select m iterate ss m' tags)
  then show ?case using om_Select_result by blast
qed (auto simp: New_manager_def manager_ok_def om_Start_def om_Close_def ListHandlers_def Let_def go_copy_def tagged_ok_def)

text \<open>
  What the load balancers rely on (\<open>outbound.HandlerSelector\<close>): selecting changes neither the tags nor the
  validity of the manager, and returns the tags that begin with one of the selectors.
\<close>

locale handler_selector =
  fixes select :: "string list \<Rightarrow> 'm \<Rightarrow> 'm \<times> string list"
    and valid :: "'m \<Rightarrow> bool"
    and tags_of :: "'m \<Rightarrow> string set"
    and usable :: "string list \<Rightarrow> bool"
  assumes select_tags: "valid m \<Longrightarrow> usable ss \<Longrightarrow> select ss m = (m', ts) \<Longrightarrow>
      set ts = {t \<in> tags_of m. list_ex (\<lambda>s. prefix s t) ss}"
    and select_valid: "valid m \<Longrightarrow> usable ss \<Longrightarrow> select ss m = (m', ts) \<Longrightarrow> valid m' \<and> tags_of m' = tags_of m"

lemma selection_set: "set (selection m ss) = {t \<in> dom (GetHandler m). list_ex (\<lambda>s. prefix s t) ss}"
proof -
  have "dom (GetHandler m) = fst ` set (om_taggedHandler m)"
    by (simp add: GetHandler_def [abs_def] dom_map_of_conv_image_fst)
  then show ?thesis by (auto simp: selection_def)
qed

interpretation om: handler_selector "om_Select iterate" "\<lambda>m. manager_ok m \<and> reorders iterate" "\<lambda>m. dom (GetHandler m)"
    selectors_ok for iterate
proof
  fix m m' ss ts
  assume "manager_ok m \<and> reorders iterate" "selectors_ok ss" "om_Select iterate ss m = (m', ts)"
  then have r: "ts = selection m ss" "manager_ok m'" "om_taggedHandler m' = om_taggedHandler m" "reorders iterate"
    using om_Select_result by blast+
  show "set ts = {t \<in> dom (GetHandler m). list_ex (\<lambda>s. prefix s t) ss}" using r(1) selection_set by simp
  show "(manager_ok m' \<and> reorders iterate) \<and> dom (GetHandler m') = dom (GetHandler m)"
    using r(2-4) by (simp add: GetHandler_def [abs_def])
qed

text \<open>
  C16. A selection is right whatever happened before: in every state that adding, removing, starting, closing,
  listing and selecting can reach, \<open>Select\<close> returns the sorted list of the tags that begin with one of the
  selectors, each once, independent of the order in which Go walks over the map, although most answers come
  out of the cache.  The selectors hold no comma, since the cache joins them with commas.
\<close>

theorem Select_exact:
  assumes "manager_reach start close m" and "reorders iterate" and "selectors_ok ss" and "om_Select iterate ss m = (m', tags)"
  shows "sorted tags \<and> distinct tags \<and>
    set tags = {tag. GetHandler m tag \<noteq> None \<and> list_ex (\<lambda>s. prefix s tag) ss}"
proof -
  have ok: "manager_ok m" by (rule reach_manager_ok [OF assms(1)])
  then have "tags = selection m ss" using om_Select_result [OF _ assms(2-4)] by blast
  moreover have "set tags = {t \<in> dom (GetHandler m). list_ex (\<lambda>s. prefix s t) ss}"
    using om.select_tags [OF _ assms(3,4)] ok assms(2) by blast
  ultimately show ?thesis using ok by (auto simp: selection_def manager_ok_def tagged_ok_def)
qed

definition sample_manager :: outbound_manager where
  "sample_manager =
     (let add = (\<lambda>i tag m. fst (AddHandler (\<lambda>h w. (w, None)) \<lparr>oh_id = i, oh_Tag = tag\<rparr> m ())) in
      fst (om_Select id [''b'', ''a''] (add 2 ''b'' (add 1 ''ab'' (add 0 ''a'' New_manager)))))"

lemma sample_manager_reach: "manager_reach (\<lambda>h (w :: unit). (w, None)) (\<lambda>h w. (w, None)) sample_manager"
proof -
  let ?ok = "\<lambda>h (w :: unit). (w, None :: goerr option)"
  have add: "manager_reach ?ok ?ok (fst (AddHandler ?ok h m ()))" if "manager_reach ?ok ?ok m" for h m
    using reach_Add [OF that] by (metis prod.collapse)
  have sel: "manager_reach ?ok ?ok (fst (om_Select id [''b'', ''a''] m))" if "manager_reach ?ok ?ok m" for m
    using reach_Select [OF that, of id "[''b'', ''a'']"] by (simp add: reorders_def selectors_ok_def prod_eq_iff)
  show ?thesis unfolding sample_manager_def Let_def by (intro sel add reach_New)
qed

theorem Select_exact_witness:
  "sorted (snd (om_Select id [''a''] sample_manager)) \<and> set (snd (om_Select id [''a''] sample_manager)) = {''a'', ''ab''}"
proof -
  have "snd (om_Select id [''a''] sample_manager) = [''a'', ''ab'']" by code_simp
  moreover have "sorted (snd (om_Select id [''a''] sample_manager))"
    using Select_exact [OF sample_manager_reach _ _ surjective_pairing, of id "[''a'']"] by (simp add: reorders_def selectors_ok_def)
  ultimately show ?thesis by simp
qed

text \<open>
  A comma in a selector breaks the cache: with outbounds \<open>a\<close> and \<open>b\<close>, asking first for the selectors
  \<open>a\<close> and \<open>b\<close> and then for the single selector \<open>a,b\<close> answers \<open>a\<close> and \<open>b\<close>, while the same question to a
  fresh cache has the answer nothing.
\<close>

theorem Select_comma_confusion:
  "let m = (fst (AddHandler (\<lambda>h w. (w, None)) \<lparr>oh_id = 1, oh_Tag = ''b''\<rparr>
             (fst (AddHandler (\<lambda>h w. (w, None)) \<lparr>oh_id = 0, oh_Tag = ''a''\<rparr> New_manager ())) ())) in
   snd (om_Select id [''a,b''] m) = [] \<and>
   snd (om_Select id [''a,b''] (fst (om_Select id [''a'', ''b''] m))) = [''a'', ''b'']"
  by code_simp

section \<open>The handlers\<close>

text \<open>
  \<open>ListHandlers\<close> reports exactly the tagged handlers: the handlers without a tag are kept by the manager,
  but never in the list, because the arguments of \<open>copy\<close> are swapped.
\<close>

theorem ListHandlers_omits_untagged:
  assumes "reorders iterate"
  shows "fst (ListHandlers iterate m) = m \<and>
    mset (snd (ListHandlers iterate m)) = mset (map snd (om_taggedHandler m))"
  using assms by (simp add: ListHandlers_def go_copy_def Let_def reorders_def)

text \<open>
  Adding a handler and looking it up: if the tag is new, \<open>GetHandler\<close> then returns the handler and every
  other tag keeps its handler; if the tag is taken, an error is returned and every tag keeps its handler.
  Yet in the second case, when there was no default handler, the rejected handler has become the default.
\<close>

theorem AddHandler_lookup:
  assumes "oh_Tag h \<noteq> []" and "AddHandler start h m w = (m', w', err)"
  shows "(GetHandler m (oh_Tag h) = None \<longrightarrow> GetHandler m' = (GetHandler m)(oh_Tag h \<mapsto> h) \<and>
            (\<not> om_running m \<longrightarrow> err = None)) \<and>
    (GetHandler m (oh_Tag h) \<noteq> None \<longrightarrow> GetHandler m' = GetHandler m \<and> err \<noteq> None) \<and>
    GetDefaultHandler m' = (if GetDefaultHandler m = None then Some h else GetDefaultHandler m)"
  using assms
  by (auto simp: AddHandler_def GetHandler_def GetDefaultHandler_def Let_def fun_eq_iff update_conv' split: if_splits prod.splits)

theorem AddHandler_lookup_witness:
  "GetDefaultHandler (fst (AddHandler (\<lambda>h w. (w, None)) \<lparr>oh_id = 7, oh_Tag = ''a''\<rparr>
       (New_manager\<lparr>om_taggedHandler := [(''a'', \<lparr>oh_id = 0, oh_Tag = ''a''\<rparr>)]\<rparr>) ())) = Some \<lparr>oh_id = 7, oh_Tag = ''a''\<rparr> \<and>
   GetHandler (fst (AddHandler (\<lambda>h w. (w, None)) \<lparr>oh_id = 7, oh_Tag = ''a''\<rparr>
       (New_manager\<lparr>om_taggedHandler := [(''a'', \<lparr>oh_id = 0, oh_Tag = ''a''\<rparr>)]\<rparr>) ())) ''a'' = Some \<lparr>oh_id = 0, oh_Tag = ''a''\<rparr>"
proof -
  let ?h = "\<lparr>oh_id = 7, oh_Tag = ''a''\<rparr>" and ?m = "New_manager\<lparr>om_taggedHandler := [(''a'', \<lparr>oh_id = 0, oh_Tag = ''a''\<rparr>)]\<rparr>"
  obtain m' w' err where r: "AddHandler (\<lambda>h w. (w, None)) ?h ?m () = (m', w', err)" by (metis prod_cases3)
  have "GetDefaultHandler ?m = None" "GetHandler ?m ''a'' = Some \<lparr>oh_id = 0, oh_Tag = ''a''\<rparr>"
    by (simp_all add: GetDefaultHandler_def GetHandler_def New_manager_def)
  then show ?thesis using AddHandler_lookup [OF _ r] r by simp
qed

end
