(* ===== verification/Balancer.thy ===== *)
theory Balancer
  imports OutboundManager GoStd StrMph "HOL-Library.Product_Lexorder"
begin

text \<open>
  Load balancers of the router (\<open>app/router\<close>: \<open>balancing.go\<close>, \<open>balancing_override.go\<close>,
  \<open>strategy_random.go\<close>, \<open>strategy_leastping.go\<close>, \<open>strategy_leastload.go\<close>, \<open>weight.go\<close>).  What the
  observatory reports when it is asked is an argument of the picking operations; so is the random number
  generator, and the arithmetic on \<open>float64\<close> that scales round trip times by weights.
\<close>

section \<open>Observations\<close>

record health_ping =
  hp_All :: int
  hp_Fail :: int
  hp_Deviation :: int
  hp_Average :: int

record outbound_status =
  os_Alive :: bool
  os_Delay :: int
  os_OutboundTag :: string
  os_HealthPing :: "health_ping option"

text \<open>A report is an observation result or some other message; asking for it can fail.\<close>

datatype report = ObservationResult "outbound_status list" | Other_report

type_synonym observation = "report res"

text \<open>The tags that are alive: the last status of a tag counts, and a tag without status is taken to be alive.\<close>

definition status_map :: "outbound_status list \<Rightarrow> string \<rightharpoonup> outbound_status" where
  "status_map status = map_of (rev (map (\<lambda>s. (os_OutboundTag s, s)) status))"

definition alive_tags :: "observation \<Rightarrow> string list \<Rightarrow> string list" where
  "alive_tags obs tags =
     (case obs of
        Ok (ObservationResult status) \<Rightarrow>
          filter (\<lambda>t. case status_map status t of Some s \<Rightarrow> os_Alive s | None \<Rightarrow> True) tags
      | _ \<Rightarrow> tags)"

section \<open>Round robin and random\<close>

record round_robin =
  rr_FallbackTag :: string
  rr_observatory :: bool
  rr_index :: nat

definition rr_InjectContext :: "bool \<Rightarrow> round_robin \<Rightarrow> round_robin" where
  "rr_InjectContext available s = (if length (rr_FallbackTag s) > 0 then s\<lparr>rr_observatory := available\<rparr> else s)"

definition rr_PickOutbound :: "observation \<Rightarrow> string list \<Rightarrow> round_robin \<Rightarrow> round_robin \<times> string" where
  "rr_PickOutbound obs tags s =
     (let tags = (if rr_observatory s then alive_tags obs tags else tags);
          n = length tags in
      if n = 0 then (s, '''')
      else (s\<lparr>rr_index := (rr_index s + 1) mod n\<rparr>, tags ! (rr_index s mod n)))"

record random_strategy =
  rs_FallbackTag :: string
  rs_observatory :: bool

definition rs_InjectContext :: "bool \<Rightarrow> random_strategy \<Rightarrow> random_strategy" where
  "rs_InjectContext available s = (if length (rs_FallbackTag s) > 0 then s\<lparr>rs_observatory := available\<rparr> else s)"

text \<open>\<open>dice.Roll\<close>; \<open>intn n\<close> is the next number of the generator below \<open>n\<close>.\<close>

definition Roll :: "(nat \<Rightarrow> nat) \<Rightarrow> nat \<Rightarrow> nat" where
  "Roll intn n = (if n = 1 then 0 else intn n)"

definition rs_PickOutbound :: "(nat \<Rightarrow> nat) \<Rightarrow> observation \<Rightarrow> string list \<Rightarrow> random_strategy \<Rightarrow> string" where
  "rs_PickOutbound intn obs candidates s =
     (let candidates = (if rs_observatory s then alive_tags obs candidates else candidates);
          count = length candidates in
      if count = 0 then '''' else candidates ! Roll intn count)"

section \<open>Least ping\<close>

fun list_contains :: "string list \<Rightarrow> string \<Rightarrow> bool" where
  "list_contains [] name = False"
| "list_contains (v # o') name = (if v = name then True else list_contains o' name)"

fun least_ping_loop :: "string list \<Rightarrow> outbound_status list \<Rightarrow> int \<Rightarrow> string \<Rightarrow> string" where
  "least_ping_loop strings [] leastPing selected = selected"
| "least_ping_loop strings (v # status) leastPing selected =
     (if list_contains strings (os_OutboundTag v) \<and> os_Alive v \<and> os_Delay v < leastPing
      then least_ping_loop strings status (os_Delay v) (os_OutboundTag v)
      else least_ping_loop strings status leastPing selected)"

definition lp_PickOutbound :: "bool \<Rightarrow> observation \<Rightarrow> string list \<Rightarrow> string" where
  "lp_PickOutbound observatory obs strings =
     (if \<not> observatory then ''''
      else (case obs of
              Ok (ObservationResult status) \<Rightarrow> least_ping_loop strings status 99999999 ''''
            | _ \<Rightarrow> ''''))"

section \<open>Weights\<close>

record 'f float_ops =
  fl_pos :: "'f \<Rightarrow> bool"
  fl_parse :: "string \<Rightarrow> 'f option"
  fl_scale :: "'f \<Rightarrow> 'f \<Rightarrow> 'f"
  fl_of_int :: "int \<Rightarrow> 'f"
  fl_to_int :: "'f \<Rightarrow> int"

record 'f strategy_weight =
  wt_Regexp :: bool
  wt_Match :: string
  wt_Value :: 'f

record 'f weight_manager =
  wm_settings :: "'f strategy_weight list"
  wm_cache :: "(string \<times> 'f) list"
  wm_defaultWeight :: 'f

definition NewWeightManager :: "'f strategy_weight list \<Rightarrow> 'f \<Rightarrow> 'f weight_manager" where
  "NewWeightManager s defaultWeight = \<lparr>wm_settings = s, wm_cache = [], wm_defaultWeight = defaultWeight\<rparr>"

text \<open>The first match of \<open>\d+(\.\d+)?\<close>, or the empty string.\<close>

definition numberFinder :: "string \<Rightarrow> string" where
  "numberFinder s =
     (let t = dropWhile (\<lambda>c. \<not> is_digit c) s;
          whole = takeWhile is_digit t in
      case dropWhile is_digit t of
        c # r \<Rightarrow> if c = CHR ''.'' \<and> takeWhile is_digit r \<noteq> [] then whole @ c # takeWhile is_digit r else whole
      | [] \<Rightarrow> whole)"

text \<open>\<open>compile\<close> is \<open>regexp.Compile\<close> followed by \<open>FindString\<close>.\<close>

definition getMatch :: "(string \<Rightarrow> (string \<Rightarrow> string) option) \<Rightarrow> string \<Rightarrow> string \<Rightarrow> bool \<Rightarrow> string" where
  "getMatch compile tag fnd isRegexp =
     (if \<not> isRegexp then (if sublist fnd tag then fnd else '''')
      else (case compile fnd of None \<Rightarrow> '''' | Some findString \<Rightarrow> findString tag))"

fun find_value ::
  "'f float_ops \<Rightarrow> (string \<Rightarrow> (string \<Rightarrow> string) option) \<Rightarrow> 'f \<Rightarrow> string \<Rightarrow> 'f strategy_weight list \<Rightarrow> 'f" where
  "find_value fl compile dflt tag [] = dflt"
| "find_value fl compile dflt tag (w # ws) =
     (let matched = getMatch compile tag (wt_Match w) (wt_Regexp w) in
      if matched = '''' then find_value fl compile dflt tag ws
      else if fl_pos fl (wt_Value w) then wt_Value w
      else if numberFinder matched = '''' then dflt
      else (case fl_parse fl (numberFinder matched) of None \<Rightarrow> dflt | Some weight \<Rightarrow> weight))"

definition findValue ::
  "'f float_ops \<Rightarrow> (string \<Rightarrow> (string \<Rightarrow> string) option) \<Rightarrow> string \<Rightarrow> 'f weight_manager \<Rightarrow> 'f" where
  "findValue fl compile tag s = find_value fl compile (wm_defaultWeight s) tag (wm_settings s)"

definition wm_Get ::
  "'f float_ops \<Rightarrow> (string \<Rightarrow> (string \<Rightarrow> string) option) \<Rightarrow> string \<Rightarrow> 'f weight_manager \<Rightarrow> 'f weight_manager \<times> 'f" where
  "wm_Get fl compile tag s =
     (case map_of (wm_cache s) tag of
        Some weight \<Rightarrow> (s, weight)
      | None \<Rightarrow>
          (let weight = findValue fl compile tag s in
           (s\<lparr>wm_cache := AList.update tag weight (wm_cache s)\<rparr>, weight)))"

definition wm_Apply ::
  "'f float_ops \<Rightarrow> (string \<Rightarrow> (string \<Rightarrow> string) option) \<Rightarrow> string \<Rightarrow> 'f \<Rightarrow> 'f weight_manager \<Rightarrow> 'f weight_manager \<times> 'f" where
  "wm_Apply fl compile tag value' s = (case wm_Get fl compile tag s of (s', weight) \<Rightarrow> (s', fl_scale fl value' weight))"

section \<open>Least load\<close>

record least_load_config =
  ll_Baselines :: "int list"
  ll_Expected :: int
  ll_MaxRTT :: int

record node =
  nd_Tag :: string
  nd_CountAll :: int
  nd_CountFail :: int
  nd_RTTAverage :: int
  nd_RTTDeviation :: int
  nd_RTTDeviationCost :: int

record 'f least_load =
  ls_settings :: least_load_config
  ls_costs :: "'f weight_manager"
  ls_observer :: bool

text \<open>Durations count nanoseconds; \<open>Milliseconds()\<close> rounds towards zero.\<close>

definition millisecond :: int where "millisecond = 1000000"

definition Milliseconds :: "int \<Rightarrow> int" where
  "Milliseconds d = (if d \<ge> 0 then d div millisecond else - (- d div millisecond))"

definition status_qualifies :: "string list \<Rightarrow> int \<Rightarrow> outbound_status \<Rightarrow> bool" where
  "status_qualifies candidates maxRTT v \<longleftrightarrow>
     os_Alive v \<and> (os_Delay v < Milliseconds maxRTT \<or> maxRTT = 0) \<and> list_contains candidates (os_OutboundTag v)"

definition node_of ::
  "'f float_ops \<Rightarrow> (string \<Rightarrow> (string \<Rightarrow> string) option) \<Rightarrow> outbound_status \<Rightarrow> 'f weight_manager \<Rightarrow> 'f weight_manager \<times> node" where
  "node_of fl compile v s =
     (let rtt = os_Delay v * millisecond in
      case wm_Apply fl compile (os_OutboundTag v) (fl_of_int fl rtt) s of (s, cost) \<Rightarrow>
        let record' = \<lparr>nd_Tag = os_OutboundTag v, nd_CountAll = 1, nd_CountFail = 1, nd_RTTAverage = rtt,
                      nd_RTTDeviation = rtt, nd_RTTDeviationCost = fl_to_int fl cost\<rparr> in
        case os_HealthPing v of
          None \<Rightarrow> (s, record')
        | Some hp \<Rightarrow>
            (case wm_Apply fl compile (os_OutboundTag v) (fl_of_int fl (hp_Deviation hp)) s of (s, cost) \<Rightarrow>
               (s, record'\<lparr>nd_RTTAverage := hp_Average hp, nd_RTTDeviation := hp_Deviation hp,
                          nd_RTTDeviationCost := fl_to_int fl cost, nd_CountAll := hp_All hp,
                          nd_CountFail := hp_Fail hp\<rparr>)))"

fun collect_nodes ::
  "'f float_ops \<Rightarrow> (string \<Rightarrow> (string \<Rightarrow> string) option) \<Rightarrow> string list \<Rightarrow> int \<Rightarrow> outbound_status list \<Rightarrow>
     'f weight_manager \<Rightarrow> 'f weight_manager \<times> node list" where
  "collect_nodes fl compile candidates maxRTT [] s = (s, [])"
| "collect_nodes fl compile candidates maxRTT (v # vs) s =
     (if status_qualifies candidates maxRTT v then
        (case node_of fl compile v s of (s, n) \<Rightarrow>
           case collect_nodes fl compile candidates maxRTT vs s of (s, ns) \<Rightarrow> (s, n # ns))
      else collect_nodes fl compile candidates maxRTT vs s)"

text \<open>The comparison of \<open>leastloadSort\<close>, and the sort; nodes it cannot tell apart differ in no field that is read.\<close>

definition load_key :: "node \<Rightarrow> int \<times> int \<times> int \<times> int \<times> string" where
  "load_key n = (nd_RTTDeviationCost n, nd_RTTAverage n, nd_CountFail n, - nd_CountAll n, nd_Tag n)"

definition leastloadSort :: "node list \<Rightarrow> node list" where
  "leastloadSort nodes = sort_key load_key nodes"

text \<open>A report that is not an observation result panics in the type assertion.\<close>

definition getNodes ::
  "'f float_ops \<Rightarrow> (string \<Rightarrow> (string \<Rightarrow> string) option) \<Rightarrow> observation \<Rightarrow> string list \<Rightarrow> int \<Rightarrow> 'f least_load \<Rightarrow>
     ('f least_load \<times> node list) res" where
  "getNodes fl compile obs candidates maxRTT s =
     (if \<not> ls_observer s then Ok (s, [])
      else (case obs of
              Ok (ObservationResult status) \<Rightarrow>
                (case collect_nodes fl compile candidates maxRTT status (ls_costs s) of (c, ret) \<Rightarrow>
                   Ok (s\<lparr>ls_costs := c\<rparr>, leastloadSort ret))
            | Ok Other_report \<Rightarrow> Panic ''interface conversion''
            | Err _ \<Rightarrow> Ok (s, [])
            | Panic msg \<Rightarrow> Panic msg))"

fun count_below :: "int \<Rightarrow> nat \<Rightarrow> node list \<Rightarrow> nat" where
  "count_below baseline cnt [] = cnt"
| "count_below baseline cnt (n # ns) =
     (if nd_RTTDeviationCost n \<ge> baseline then cnt else count_below baseline (cnt + 1) ns)"

fun apply_baselines :: "nat \<Rightarrow> node list \<Rightarrow> int list \<Rightarrow> nat \<Rightarrow> nat" where
  "apply_baselines expected nodes [] cnt = cnt"
| "apply_baselines expected nodes (b # bs) cnt =
     (let cnt = count_below b cnt (drop cnt nodes) in
      if cnt \<ge> expected then cnt else apply_baselines expected nodes bs cnt)"

definition selectLeastLoad :: "least_load_config \<Rightarrow> node list \<Rightarrow> node list" where
  "selectLeastLoad settings nodes =
     (if length nodes = 0 then []
      else
        (let availableCount = length nodes in
         if ll_Expected settings > int availableCount then nodes
         else
           (let expected = (if ll_Expected settings \<le> 0 then 1 else nat (ll_Expected settings)) in
            if ll_Baselines settings = [] then take expected nodes
            else
              (let count = apply_baselines expected nodes (ll_Baselines settings) 0;
                   count = (if ll_Expected settings > 0 \<and> count < expected then expected else count) in
               take count nodes))))"

definition pickOutbounds ::
  "'f float_ops \<Rightarrow> (string \<Rightarrow> (string \<Rightarrow> string) option) \<Rightarrow> observation \<Rightarrow> string list \<Rightarrow> 'f least_load \<Rightarrow>
     ('f least_load \<times> node list) res" where
  "pickOutbounds fl compile obs candidates s =
     rmap (\<lambda>(s, qualified). (s, selectLeastLoad (ls_settings s) qualified))
       (getNodes fl compile obs candidates (ll_MaxRTT (ls_settings s)) s)"

definition ll_PickOutbound ::
  "'f float_ops \<Rightarrow> (string \<Rightarrow> (string \<Rightarrow> string) option) \<Rightarrow> (nat \<Rightarrow> nat) \<Rightarrow> observation \<Rightarrow> string list \<Rightarrow> 'f least_load \<Rightarrow>
     ('f least_load \<times> string) res" where
  "ll_PickOutbound fl compile intn obs candidates s =
     rmap (\<lambda>(s, selects). (s, if length selects = 0 then '''' else nd_Tag (selects ! Roll intn (length selects))))
       (pickOutbounds fl compile obs candidates s)"

section \<open>Balancers\<close>

datatype 'f strategy =
    RoundRobinStrategy round_robin
  | RandomStrategy random_strategy
  | LeastPingStrategy bool
  | LeastLoadStrategy "'f least_load"

record 'f balancer =
  bl_selectors :: "string list"
  bl_strategy :: "'f strategy"
  bl_fallbackTag :: string
  bl_override :: string

text \<open>What a pick reads from its surroundings.\<close>

record 'f pick_env =
  pe_float :: "'f float_ops"
  pe_compile :: "string \<Rightarrow> (string \<Rightarrow> string) option"
  pe_intn :: "nat \<Rightarrow> nat"
  pe_obs :: observation

fun strategy_PickOutbound :: "'f pick_env \<Rightarrow> string list \<Rightarrow> 'f strategy \<Rightarrow> ('f strategy \<times> string) res" where
  "strategy_PickOutbound env tags (RoundRobinStrategy s) =
     (case rr_PickOutbound (pe_obs env) tags s of (s, tag) \<Rightarrow> Ok (RoundRobinStrategy s, tag))"
| "strategy_PickOutbound env tags (RandomStrategy s) =
     Ok (RandomStrategy s, rs_PickOutbound (pe_intn env) (pe_obs env) tags s)"
| "strategy_PickOutbound env tags (LeastPingStrategy s) = Ok (LeastPingStrategy s, lp_PickOutbound s (pe_obs env) tags)"
| "strategy_PickOutbound env tags (LeastLoadStrategy s) =
     rmap (\<lambda>(s, tag). (LeastLoadStrategy s, tag))
       (ll_PickOutbound (pe_float env) (pe_compile env) (pe_intn env) (pe_obs env) tags s)"

text \<open>\<open>InjectContext\<close> asks the instance for the observatory; \<open>available\<close> says whether there is one.\<close>

fun strategy_InjectContext :: "bool \<Rightarrow> 'f strategy \<Rightarrow> 'f strategy" where
  "strategy_InjectContext available (RoundRobinStrategy s) = RoundRobinStrategy (rr_InjectContext available s)"
| "strategy_InjectContext available (RandomStrategy s) = RandomStrategy (rs_InjectContext available s)"
| "strategy_InjectContext available (LeastPingStrategy s) = LeastPingStrategy available"
| "strategy_InjectContext available (LeastLoadStrategy s) = LeastLoadStrategy (s\<lparr>ls_observer := available\<rparr>)"

fun strategy_GetPrincipleTarget :: "'f pick_env \<Rightarrow> string list \<Rightarrow> 'f strategy \<Rightarrow> ('f strategy \<times> string list) res" where
  "strategy_GetPrincipleTarget env tags (LeastPingStrategy s) =
     Ok (LeastPingStrategy s, [lp_PickOutbound s (pe_obs env) tags])"
| "strategy_GetPrincipleTarget env tags (LeastLoadStrategy s) =
     rmap (\<lambda>(s, nodes). (LeastLoadStrategy s, map nd_Tag nodes))
       (pickOutbounds (pe_float env) (pe_compile env) (pe_obs env) tags s)"
| "strategy_GetPrincipleTarget env tags s = Ok (s, tags)"

text \<open>The outbound manager's \<open>Select\<close>, if the manager has it.\<close>

type_synonym 'm selector = "(string list \<Rightarrow> 'm \<Rightarrow> 'm \<times> string list) option"

definition SelectOutbounds :: "'m selector \<Rightarrow> 'f balancer \<Rightarrow> ('m, string list) act" where
  "SelectOutbounds sel b m =
     (case sel of
        None \<Rightarrow> (m, Err (ErrMsg ''outbound.Manager is not a HandlerSelector''))
      | Some select \<Rightarrow> (case select (bl_selectors b) m of (m', tags) \<Rightarrow> (m', Ok tags)))"

definition override_Get :: "'f balancer \<Rightarrow> string" where "override_Get b = bl_override b"
definition override_Put :: "string \<Rightarrow> 'f balancer \<Rightarrow> 'f balancer" where "override_Put target b = b\<lparr>bl_override := target\<rparr>"
definition override_Clear :: "'f balancer \<Rightarrow> 'f balancer" where "override_Clear b = b\<lparr>bl_override := ''''\<rparr>"

definition balancer_PickOutbound :: "'f pick_env \<Rightarrow> 'm selector \<Rightarrow> ('f balancer \<times> 'm, string) act" where
  "balancer_PickOutbound env sel = (\<lambda>(b, m).
     case SelectOutbounds sel b m of
       (m, Err err) \<Rightarrow> ((b, m), if bl_fallbackTag b \<noteq> '''' then Ok (bl_fallbackTag b) else Err err)
     | (m, Panic msg) \<Rightarrow> ((b, m), Panic msg)
     | (m, Ok candidates) \<Rightarrow>
         (case (if override_Get b \<noteq> '''' then Ok (bl_strategy b, override_Get b)
                else strategy_PickOutbound env candidates (bl_strategy b)) of
            Panic msg \<Rightarrow> ((b, m), Panic msg)
          | Err err \<Rightarrow> ((b, m), Err err)
          | Ok (s, tag) \<Rightarrow>
              ((b\<lparr>bl_strategy := s\<rparr>, m),
               if tag = '''' then
                 (if bl_fallbackTag b \<noteq> '''' then Ok (bl_fallbackTag b)
                  else Err (ErrMsg ''balancing strategy returns empty tag''))
               else Ok tag)))"

definition balancer_InjectContext :: "bool \<Rightarrow> 'f balancer \<Rightarrow> 'f balancer" where
  "balancer_InjectContext available b = b\<lparr>bl_strategy := strategy_InjectContext available (bl_strategy b)\<rparr>"

section \<open>Building a balancer (config.go)\<close>

text \<open>
  A balancing rule; its settings are what unpacking the message gives: the least load settings and weights,
  another message, or an error.
\<close>

datatype 'f strategy_settings = Least_load_settings least_load_config "'f strategy_weight list" | Other_settings

record 'f balancing_rule =
  br_Tag :: string
  br_OutboundSelector :: "string list"
  br_Strategy :: string
  br_StrategySettings :: "'f strategy_settings res"
  br_FallbackTag :: string

definition NewLeastLoadStrategy :: "'f \<Rightarrow> least_load_config \<Rightarrow> 'f strategy_weight list \<Rightarrow> 'f least_load" where
  "NewLeastLoadStrategy one settings costs =
     \<lparr>ls_settings = settings, ls_costs = NewWeightManager costs one, ls_observer = False\<rparr>"

definition balancing_Build :: "'f float_ops \<Rightarrow> 'f balancing_rule \<Rightarrow> 'f balancer res" where
  "balancing_Build fl br =
     (let mk = (\<lambda>s. \<lparr>bl_selectors = br_OutboundSelector br, bl_strategy = s,
                    bl_fallbackTag = br_FallbackTag br, bl_override = ''''\<rparr>);
          strategy = ToLower (br_Strategy br) in
      if strategy = ''leastping'' then Ok (mk (LeastPingStrategy False))
      else if strategy = ''roundrobin'' then
        Ok (mk (RoundRobinStrategy \<lparr>rr_FallbackTag = br_FallbackTag br, rr_observatory = False, rr_index = 0\<rparr>))
      else if strategy = ''leastload'' then
        rbind (br_StrategySettings br) (\<lambda>i. case i of
            Least_load_settings settings costs \<Rightarrow>
              Ok (mk (LeastLoadStrategy (NewLeastLoadStrategy (fl_of_int fl 1) settings costs)))
          | Other_settings \<Rightarrow> Err (ErrMsg ''not a StrategyLeastLoadConfig''))
      else if strategy = ''random'' \<or> strategy = '''' then
        Ok (mk (RandomStrategy \<lparr>rs_FallbackTag = br_FallbackTag br, rs_observatory = False\<rparr>))
      else Err (ErrMsg ''unrecognized balancer type''))"

section \<open>Least load selects what its documentation says\<close>

text \<open>
  The selection as the comment above \<open>selectLeastLoad\<close> describes it: with no baselines, the expected number
  of nodes (one, if none is expected); with baselines, the nodes below the first baseline that has at least
  that many below it, and if no baseline has, the expected number of nodes or, if none is expected, no node.
\<close>

definition below :: "int \<Rightarrow> node list \<Rightarrow> node list" where
  "below b nodes = filter (\<lambda>n. nd_RTTDeviationCost n < b) nodes"

definition documented_selection :: "least_load_config \<Rightarrow> node list \<Rightarrow> node list" where
  "documented_selection settings nodes =
     (if ll_Expected settings > int (length nodes) then nodes
      else
        (let expected = nat (max 1 (ll_Expected settings)) in
         if ll_Baselines settings = [] then take expected nodes
         else (case find (\<lambda>b. length (below b nodes) \<ge> expected) (ll_Baselines settings) of
                 Some b \<Rightarrow> below b nodes
               | None \<Rightarrow> if ll_Expected settings > 0 then take expected nodes else [])))"

definition by_cost :: "node list \<Rightarrow> bool" where
  "by_cost nodes \<longleftrightarrow> sorted (map nd_RTTDeviationCost nodes)"

lemma count_below_length: "count_below b c ns = c + length (takeWhile (\<lambda>n. nd_RTTDeviationCost n < b) ns)"
  by (induction ns arbitrary: c) auto

lemma below_Cons:
  assumes "by_cost (n # ns)"
  shows "below b (n # ns) = (if nd_RTTDeviationCost n < b then n # below b ns else [])"
proof -
  have le: "nd_RTTDeviationCost n \<le> nd_RTTDeviationCost m" if "m \<in> set ns" for m
    using assms that by (simp add: by_cost_def)
  have "below b ns = []" if "\<not> nd_RTTDeviationCost n < b"
    unfolding below_def by (rule filter_False) (use le that in fastforce)
  then show ?thesis by (simp add: below_def)
qed

lemma takeWhile_below: "by_cost ns \<Longrightarrow> takeWhile (\<lambda>n. nd_RTTDeviationCost n < b) ns = below b ns"
proof (induction ns)
  case (Cons n ns)
  then show ?case by (simp add: below_Cons [OF Cons.prems]) (simp add: by_cost_def)
qed (simp add: below_def)

lemma below_take:
  assumes "by_cost ns"
  shows "below b ns = take (length (below b ns)) ns"
  using takeWhile_eq_take [of "\<lambda>n. nd_RTTDeviationCost n < b" ns] by (simp only: takeWhile_below [OF assms])

lemma below_drop:
  assumes "by_cost ns"
  shows "length (below b (drop c ns)) = length (below b ns) - c"
  using assms
proof (induction ns arbitrary: c)
  case (Cons n ns)
  have s: "by_cost ns" using Cons.prems by (simp add: by_cost_def)
  show ?case
  proof (cases c)
    case (Suc d)
    have "length (below b ns) = 0" if "\<not> nd_RTTDeviationCost n < b"
      using that below_Cons [OF Cons.prems, of b] by (simp add: below_def)
    then show ?thesis using Suc Cons.IH [OF s, of d] below_Cons [OF Cons.prems, of b] by (auto split: if_splits)
  qed simp
qed (simp add: below_def)

lemma count_below_max:
  assumes "by_cost ns"
  shows "count_below b c (drop c ns) = max c (length (below b ns))"
proof -
  have "by_cost (drop c ns)" using assms by (simp add: by_cost_def drop_map [symmetric] sorted_wrt_drop)
  then show ?thesis using below_drop [OF assms, of b c] by (simp add: count_below_length takeWhile_below max_def)
qed

lemma apply_baselines_find:
  assumes "by_cost ns" and "c < e"
  shows "(case find (\<lambda>b. e \<le> length (below b ns)) bs of
            Some b \<Rightarrow> apply_baselines e ns bs c = length (below b ns)
          | None \<Rightarrow> c \<le> apply_baselines e ns bs c \<and> apply_baselines e ns bs c < e)"
  using assms(2)
proof (induction bs arbitrary: c)
  case (Cons b bs)
  show ?case
  proof (cases "e \<le> length (below b ns)")
    case True
    then show ?thesis using Cons.prems by (simp add: count_below_max [OF assms(1)] max_def)
  next
    case False
    then have "max c (length (below b ns)) < e" using Cons.prems by simp
    from Cons.IH [OF this] show ?thesis
      using False Cons.prems by (auto simp: count_below_max [OF assms(1)] Let_def split: option.splits)
  qed
qed simp

lemma leastloadSort_by_cost: "by_cost (leastloadSort ns)"
proof -
  have "sorted (map load_key (leastloadSort ns))" by (simp add: leastloadSort_def)
  then have "sorted_wrt (\<lambda>m n. load_key m \<le> load_key n) (leastloadSort ns)" by (simp add: sorted_map)
  then show ?thesis
    unfolding by_cost_def sorted_map by (rule sorted_wrt_mono_rel [rotated]) (auto simp: load_key_def less_eq_prod_def)
qed

text \<open>
  The least load strategy selects exactly the nodes its documentation describes, for any settings and any
  nodes, once they are sorted: bandwidth priority without baselines, bandwidth priority with baselines, and
  speed priority.
\<close>

theorem selectLeastLoad_documented:
  "selectLeastLoad settings (leastloadSort ns) = documented_selection settings (leastloadSort ns)"
proof -
  let ?ns = "leastloadSort ns" and ?E = "ll_Expected settings" and ?B = "ll_Baselines settings"
  define e where "e = (if ?E \<le> 0 then 1 else nat ?E)"
  have s: "by_cost ?ns" by (rule leastloadSort_by_cost)
  have e: "nat (max 1 ?E) = e" "0 < e" "(if ?E \<le> 0 then 1 else nat ?E) = e" by (auto simp: max_def e_def)
  have F: "case find (\<lambda>b. e \<le> length (below b ?ns)) ?B of
      Some b \<Rightarrow> apply_baselines e ?ns ?B 0 = length (below b ?ns) \<and> e \<le> length (below b ?ns)
    | None \<Rightarrow> apply_baselines e ?ns ?B 0 < e"
    using apply_baselines_find [OF s e(2), of ?B] by (auto split: option.splits simp: find_Some_iff2 dest: find_Some_iff [THEN iffD1])
  consider "?ns = []" | "?ns \<noteq> []" "?E > int (length ?ns) \<or> ?B = []" | "?ns \<noteq> []" "\<not> ?E > int (length ?ns)" "?B \<noteq> []" by blast
  then show ?thesis
  proof cases
    case 1
    then show ?thesis by (simp add: selectLeastLoad_def documented_selection_def below_def Let_def split: option.splits)
  next
    case 2
    then show ?thesis by (auto simp: selectLeastLoad_def documented_selection_def e(1,3) Let_def)
  next
    case 3
    show ?thesis
    proof (cases "find (\<lambda>b. e \<le> length (below b ?ns)) ?B")
      case None
      then show ?thesis
        using 3 F by (auto simp: selectLeastLoad_def documented_selection_def e(1,3) Let_def) (auto simp: e_def split: if_splits)
    next
      case (Some b)
      then show ?thesis
        using 3 F below_take [OF s, of b] by (simp add: selectLeastLoad_def documented_selection_def e(1,3) Let_def)
    qed
  qed
qed

section \<open>Round robin is fair\<close>

definition rr_candidates :: "observation \<Rightarrow> string list \<Rightarrow> round_robin \<Rightarrow> string list" where
  "rr_candidates obs tags s = (if rr_observatory s then alive_tags obs tags else tags)"

text \<open>The tags picked by \<open>k\<close> calls in a row.\<close>

fun rr_picks :: "observation \<Rightarrow> string list \<Rightarrow> nat \<Rightarrow> round_robin \<Rightarrow> string list" where
  "rr_picks obs tags 0 s = []"
| "rr_picks obs tags (Suc k) s =
     (case rr_PickOutbound obs tags s of (s', tag) \<Rightarrow> tag # rr_picks obs tags k s')"

lemma rr_picks_nth:
  assumes "rr_candidates obs tags s \<noteq> []"
  shows "rr_picks obs tags k s =
    map (\<lambda>j. rr_candidates obs tags s ! ((rr_index s + j) mod length (rr_candidates obs tags s))) [0..<k]"
  using assms
proof (induction k arbitrary: s)
  case (Suc k)
  let ?T = "rr_candidates obs tags s" and ?s = "s\<lparr>rr_index := (rr_index s + 1) mod length (rr_candidates obs tags s)\<rparr>"
  have p: "rr_PickOutbound obs tags s = (?s, ?T ! (rr_index s mod length ?T))"
    using Suc.prems by (simp add: rr_PickOutbound_def rr_candidates_def Let_def)
  have c: "rr_candidates obs tags ?s = ?T" by (simp add: rr_candidates_def)
  have "rr_picks obs tags k ?s = map (\<lambda>j. ?T ! ((rr_index s + Suc j) mod length ?T)) [0..<k]"
    using Suc.IH [of ?s] Suc.prems unfolding c by (simp add: mod_simps add.assoc)
  moreover have "[0..<Suc k] = 0 # map Suc [0..<k]" by (simp add: upt_conv_Cons map_Suc_upt)
  ultimately show ?case by (simp add: p del: upt_Suc)
qed simp

text \<open>
  Round robin is fair: from any position of the index, with the candidates unchanged, as many calls in a
  row as there are candidates that are alive pick every one of them exactly once.
\<close>

theorem round_robin_fair:
  "mset (rr_picks obs tags (length (rr_candidates obs tags s)) s) = mset (rr_candidates obs tags s)"
proof (cases "rr_candidates obs tags s = []")
  case False
  let ?T = "rr_candidates obs tags s"
  have "mset (rr_picks obs tags (length ?T) s) = mset (rotate (rr_index s) ?T)"
    unfolding rr_picks_nth [OF False] by (rule arg_cong [where f = mset], rule nth_equalityI) (simp_all add: nth_rotate)
  also have "\<dots> = mset ?T" by (metis append_take_drop_id mset_append rotate_drop_take union_commute)
  finally show ?thesis .
qed simp

section \<open>What is picked\<close>

lemma list_contains_iff [simp]: "list_contains xs x \<longleftrightarrow> x \<in> set xs"
  by (induction xs) auto

definition ping_candidate :: "string list \<Rightarrow> outbound_status \<Rightarrow> bool" where
  "ping_candidate tags v \<longleftrightarrow> os_OutboundTag v \<in> set tags \<and> os_Alive v"

lemma least_ping_loop_min:
  "(least_ping_loop tags vs d sel = sel \<and> (\<forall>v \<in> set vs. ping_candidate tags v \<longrightarrow> d \<le> os_Delay v)) \<or>
   (\<exists>v \<in> set vs. ping_candidate tags v \<and> os_OutboundTag v = least_ping_loop tags vs d sel \<and> os_Delay v < d \<and>
      (\<forall>u \<in> set vs. ping_candidate tags u \<longrightarrow> os_Delay v \<le> os_Delay u))"
proof (induction vs arbitrary: d sel)
  case (Cons v vs)
  show ?case
  proof (cases "ping_candidate tags v \<and> os_Delay v < d")
    case True
    then have "least_ping_loop tags (v # vs) d sel = least_ping_loop tags vs (os_Delay v) (os_OutboundTag v)"
      by (simp add: ping_candidate_def)
    with Cons.IH [of "os_Delay v" "os_OutboundTag v"] True show ?thesis by force
  next
    case False
    then have "least_ping_loop tags (v # vs) d sel = least_ping_loop tags vs d sel" by (auto simp: ping_candidate_def)
    with Cons.IH [of d sel] False show ?thesis by force
  qed
qed simp

text \<open>
  The least ping strategy picks an outbound with the smallest delay: among the candidates reported alive
  with a delay below 99999999 milliseconds, the picked tag has a status whose delay none undercuts; if there is
  none, the empty tag is returned, which stands for the fallback.
\<close>

theorem least_ping_minimal:
  assumes "obs = Ok (ObservationResult status)" and "list_all (\<lambda>v. os_OutboundTag v \<noteq> []) status"
  shows "if list_ex (\<lambda>v. ping_candidate tags v \<and> os_Delay v < 99999999) status
    then list_ex (\<lambda>v. ping_candidate tags v \<and> os_OutboundTag v = lp_PickOutbound True obs tags \<and>
           list_all (\<lambda>u. ping_candidate tags u \<longrightarrow> os_Delay v \<le> os_Delay u) status) status
    else lp_PickOutbound True obs tags = ''''"
proof -
  have p: "lp_PickOutbound True obs tags = least_ping_loop tags status 99999999 ''''"
    by (simp add: lp_PickOutbound_def assms(1))
  show ?thesis
    unfolding p list_ex_iff list_all_iff using least_ping_loop_min [of tags status 99999999 "''''"] by force
qed

definition sample_status :: "string \<Rightarrow> bool \<Rightarrow> int \<Rightarrow> outbound_status" where
  "sample_status tag alive delay = \<lparr>os_Alive = alive, os_Delay = delay, os_OutboundTag = tag, os_HealthPing = None\<rparr>"

theorem least_ping_minimal_witness:
  "lp_PickOutbound True (Ok (ObservationResult [sample_status ''a'' True 30, sample_status ''b'' True 20,
     sample_status ''c'' False 10])) [''a'', ''b'', ''c''] = ''b''"
  using least_ping_minimal [OF refl, of "[sample_status ''a'' True 30, sample_status ''b'' True 20, sample_status ''c'' False 10]"
    "[''a'', ''b'', ''c'']"]
  by (auto simp: sample_status_def ping_candidate_def)

lemma alive_tags_subset: "set (alive_tags obs tags) \<subseteq> set tags"
  by (auto simp: alive_tags_def split: res.splits report.splits)

lemma collect_nodes_tags:
  "collect_nodes fl compile candidates maxRTT vs s = (s', ns) \<Longrightarrow> nd_Tag ` set ns \<subseteq> set candidates"
proof (induction vs arbitrary: s s' ns)
  case (Cons v vs)
  show ?case
  proof (cases "status_qualifies candidates maxRTT v")
    case True
    obtain s1 n where n: "node_of fl compile v s = (s1, n)" by fastforce
    then have "nd_Tag n = os_OutboundTag v" by (auto simp: node_of_def Let_def split: prod.splits option.splits)
    moreover obtain s2 ns' where "collect_nodes fl compile candidates maxRTT vs s1 = (s2, ns')" by fastforce
    ultimately show ?thesis using True Cons.prems Cons.IH [of s1 s2 ns'] n by (auto simp: status_qualifies_def image_subset_iff)
  next
    case False
    then show ?thesis using Cons.prems Cons.IH by simp
  qed
qed simp

lemma selectLeastLoad_take: "\<exists>k. selectLeastLoad settings ns = take k ns"
  by (auto simp: selectLeastLoad_def Let_def intro: exI [of _ "length ns"])

lemma Roll_bound: "0 < n \<Longrightarrow> (\<And>k. 0 < k \<Longrightarrow> intn k < k) \<Longrightarrow> Roll intn n < n"
  by (simp add: Roll_def)

lemma pickOutbounds_tags:
  assumes "pickOutbounds fl compile obs candidates s = Ok (s', ns)"
  shows "nd_Tag ` set ns \<subseteq> set candidates"
proof -
  obtain q where g: "getNodes fl compile obs candidates (ll_MaxRTT (ls_settings s)) s = Ok (s', q)"
    and ns: "ns = selectLeastLoad (ls_settings s') q"
    using assms by (auto simp: pickOutbounds_def rmap_Ok_iff)
  have "nd_Tag ` set q \<subseteq> set candidates"
    using g collect_nodes_tags
    by (fastforce simp: getNodes_def leastloadSort_def split: if_splits res.splits report.splits prod.splits)
  moreover obtain k where "ns = take k q" using selectLeastLoad_take ns by blast
  ultimately show ?thesis by (meson image_mono order_trans set_take_subset)
qed

lemma nth_subset: "i < length xs \<Longrightarrow> set xs \<subseteq> A \<Longrightarrow> xs ! i \<in> A"
  by auto

lemma strategy_pick_candidate:
  assumes "strategy_PickOutbound env tags s = Ok (s', tag)" and "\<And>k. 0 < k \<Longrightarrow> pe_intn env k < k"
  shows "tag = '''' \<or> tag \<in> set tags"
proof (cases s)
  case (RoundRobinStrategy r)
  let ?T = "if rr_observatory r then alive_tags (pe_obs env) tags else tags"
  have "tag = '''' \<or> (?T \<noteq> [] \<and> tag = ?T ! (rr_index r mod length ?T))"
    using assms(1) unfolding RoundRobinStrategy strategy_PickOutbound.simps rr_PickOutbound_def Let_def
    by (cases "length ?T = 0") (simp_all split: if_splits)
  moreover have "set ?T \<subseteq> set tags" using alive_tags_subset by simp
  ultimately show ?thesis using nth_subset [of "rr_index r mod length ?T" ?T] by auto
next
  case (RandomStrategy r)
  let ?T = "if rs_observatory r then alive_tags (pe_obs env) tags else tags"
  have "tag = '''' \<or> (?T \<noteq> [] \<and> tag = ?T ! Roll (pe_intn env) (length ?T))"
    using assms(1) unfolding RandomStrategy strategy_PickOutbound.simps rs_PickOutbound_def Let_def
    by (cases "length ?T = 0") (simp_all split: if_splits)
  moreover have "set ?T \<subseteq> set tags" using alive_tags_subset by simp
  ultimately show ?thesis
    using nth_subset [of "Roll (pe_intn env) (length ?T)" ?T] Roll_bound [of "length ?T"] assms(2) by auto
next
  case (LeastPingStrategy o')
  have "least_ping_loop tags vs d sel = sel \<or> least_ping_loop tags vs d sel \<in> set tags" for vs d sel
    using least_ping_loop_min [of tags vs d sel] by (auto simp: ping_candidate_def)
  then show ?thesis
    using assms(1) LeastPingStrategy by (auto simp: lp_PickOutbound_def split: if_splits res.splits report.splits)
next
  case (LeastLoadStrategy l)
  then obtain l' ns where p: "pickOutbounds (pe_float env) (pe_compile env) (pe_obs env) tags l = Ok (l', ns)"
    and t: "tag = (if length ns = 0 then '''' else nd_Tag (ns ! Roll (pe_intn env) (length ns)))"
    using assms(1) by (auto simp: ll_PickOutbound_def rmap_Ok_iff)
  show ?thesis
  proof (cases "ns = []")
    case False
    then have "ns ! Roll (pe_intn env) (length ns) \<in> set ns" using Roll_bound assms(2) by simp
    with pickOutbounds_tags [OF p] t False show ?thesis by auto
  qed (simp add: t)
qed

context handler_selector
begin

lemma pick_sound:
  assumes "balancer_PickOutbound env (Some select) (b, m) = ((b', m'), Ok tag)"
    and "valid m" and "usable (bl_selectors b)" and "\<And>k. 0 < k \<Longrightarrow> pe_intn env k < k"
  shows "tag \<noteq> '''' \<and> (tag = bl_override b \<or> tag = bl_fallbackTag b \<or>
      (bl_override b = '''' \<and> tag \<in> tags_of m \<and> list_ex (\<lambda>s. prefix s tag) (bl_selectors b))) \<and> valid m' \<and> tags_of m' = tags_of m"
proof -
  obtain m1 ts where sel: "select (bl_selectors b) m = (m1, ts)" by fastforce
  then have v: "valid m1" "tags_of m1 = tags_of m" "set ts = {t \<in> tags_of m. list_ex (\<lambda>s. prefix s t) (bl_selectors b)}"
    using select_valid [OF assms(2,3)] select_tags [OF assms(2,3)] by blast+
  show ?thesis
    using assms(1) v strategy_pick_candidate [OF _ assms(4)]
    by (fastforce simp: balancer_PickOutbound_def SelectOutbounds_def sel override_Get_def split: if_splits res.splits prod.splits)
qed

end


definition sample_env :: "nat pick_env" where
  "sample_env = \<lparr>pe_float = \<lparr>fl_pos = (\<lambda>x. x > 0), fl_parse = (\<lambda>_. None), fl_scale = (*), fl_of_int = nat, fl_to_int = int\<rparr>,
     pe_compile = (\<lambda>_. None), pe_intn = (\<lambda>k. k - 1), pe_obs = Err EOF\<rparr>"

definition sample_balancer :: "nat balancer" where
  "sample_balancer = \<lparr>bl_selectors = [''a''],
     bl_strategy = RandomStrategy \<lparr>rs_FallbackTag = '''', rs_observatory = False\<rparr>, bl_fallbackTag = '''', bl_override = ''''\<rparr>"


end
