(* ===== verification/Router.thy ===== *)
theory Router
  imports RouterCond Balancer
begin

text \<open>
  The router (\<open>app/router/router.go\<close>, \<open>config.go\<close>, \<open>balancing.go\<close>, \<open>balancing_override.go\<close>): building the
  routing table from a configuration, reloading and removing rules, overriding balancers, and picking the route
  of a connection.  Rules point to balancers, which are shared: balancers live in a heap and a pointer is a
  position in it.  The GeoIP container is a global variable of the package and is passed along.
\<close>

section \<open>The routing table\<close>

datatype domain_strategy = Config_AsIs | Config_UseIp | Config_IpIfNonMatch | Config_IpOnDemand

record 'i rule =
  rl_Tag :: string
  rl_RuleTag :: string
  rl_Balancer :: "nat option"
  rl_Condition :: "'i condition list"

record ('i, 'f) router =
  rt_domainStrategy :: domain_strategy
  rt_rules :: "'i rule list"
  rt_balancers :: "(string \<times> nat) list"
  rt_heap :: "'f balancer list"
  rt_observatory :: bool

record 'f router_config =
  cf_DomainStrategy :: domain_strategy
  cf_Rule :: "routing_rule list"
  cf_BalancingRule :: "'f balancing_rule list"

type_synonym ('i, 'f) table = "'i geoip_matcher list \<times> ('i, 'f) router"

definition register_balancer :: "string \<Rightarrow> 'f balancer \<Rightarrow> ('i, 'f) router \<Rightarrow> ('i, 'f) router" where
  "register_balancer tag b r =
     r\<lparr>rt_heap := rt_heap r @ [balancer_InjectContext (rt_observatory r) b],
       rt_balancers := AList.update tag (length (rt_heap r)) (rt_balancers r)\<rparr>"

definition add_balancer :: "'f float_ops \<Rightarrow> 'f balancing_rule \<Rightarrow> (('i, 'f) table, unit) act" where
  "add_balancer fl rule = (\<lambda>(geo, r).
     case balancing_Build fl rule of
       Ok b \<Rightarrow> ((geo, register_balancer (br_Tag rule) b r), Ok ())
     | Err e \<Rightarrow> ((geo, r), Err e)
     | Panic p \<Rightarrow> ((geo, r), Panic p))"

definition add_rule :: "'i build_env \<Rightarrow> routing_rule \<Rightarrow> (('i, 'f) table, unit) act" where
  "add_rule env rule = (\<lambda>(geo, r).
     case BuildCondition env rule geo of
       (geo, Err e) \<Rightarrow> ((geo, r), Err e)
     | (geo, Panic p) \<Rightarrow> ((geo, r), Panic p)
     | (geo, Ok cond) \<Rightarrow>
         (let rr = \<lparr>rl_Tag = ru_GetTag rule, rl_RuleTag = ru_RuleTag rule, rl_Balancer = None, rl_Condition = cond\<rparr>;
              btag = ru_GetBalancingTag rule in
          if length btag > 0 then
            (case map_of (rt_balancers r) btag of
               None \<Rightarrow> ((geo, r), Err (ErrMsg ''balancer not found''))
             | Some brule \<Rightarrow> ((geo, r\<lparr>rt_rules := rt_rules r @ [rr\<lparr>rl_Balancer := Some brule\<rparr>]\<rparr>), Ok ()))
          else ((geo, r\<lparr>rt_rules := rt_rules r @ [rr]\<rparr>), Ok ())))"

text \<open>A loop that stops at the first error.\<close>

fun for_each :: "('a \<Rightarrow> ('s, unit) act) \<Rightarrow> 'a list \<Rightarrow> ('s, unit) act" where
  "for_each body [] = act_ret ()"
| "for_each body (x # xs) = act_bind (body x) (\<lambda>_. for_each body xs)"

definition router_Init ::
  "'i build_env \<Rightarrow> 'f float_ops \<Rightarrow> bool \<Rightarrow> 'f router_config \<Rightarrow> 'i geoip_matcher list \<Rightarrow> ('i, 'f) table \<times> unit res" where
  "router_Init env fl observatory config geo =
     act_bind (for_each (add_balancer fl) (cf_BalancingRule config))
       (\<lambda>_. for_each (add_rule env) (cf_Rule config))
       (geo, \<lparr>rt_domainStrategy = cf_DomainStrategy config, rt_rules = [], rt_balancers = [], rt_heap = [],
              rt_observatory = observatory\<rparr>)"

definition RuleExists :: "string \<Rightarrow> ('i, 'f) router \<Rightarrow> bool" where
  "RuleExists tag r \<longleftrightarrow> tag \<noteq> '''' \<and> list_ex (\<lambda>rule. rl_RuleTag rule = tag) (rt_rules r)"

definition reload_balancer :: "'f float_ops \<Rightarrow> 'f balancing_rule \<Rightarrow> (('i, 'f) table, unit) act" where
  "reload_balancer fl rule = (\<lambda>(geo, r).
     if map_of (rt_balancers r) (br_Tag rule) \<noteq> None then ((geo, r), Err (ErrMsg ''duplicate balancer tag''))
     else add_balancer fl rule (geo, r))"

definition reload_rule :: "'i build_env \<Rightarrow> routing_rule \<Rightarrow> (('i, 'f) table, unit) act" where
  "reload_rule env rule = (\<lambda>(geo, r).
     if RuleExists (ru_RuleTag rule) r then ((geo, r), Err (ErrMsg ''duplicate ruleTag ''))
     else add_rule env rule (geo, r))"

definition ReloadRules ::
  "'i build_env \<Rightarrow> 'f float_ops \<Rightarrow> 'f router_config \<Rightarrow> bool \<Rightarrow> (('i, 'f) table, unit) act" where
  "ReloadRules env fl config shouldAppend = (\<lambda>(geo, r).
     let r = (if \<not> shouldAppend then r\<lparr>rt_balancers := [], rt_rules := []\<rparr> else r) in
     act_bind (for_each (reload_balancer fl) (cf_BalancingRule config))
       (\<lambda>_. for_each (reload_rule env) (cf_Rule config)) (geo, r))"

text \<open>\<open>AddRule\<close>: the message unpacks to a router configuration, to some other message, or not at all.\<close>

definition AddRule ::
  "'i build_env \<Rightarrow> 'f float_ops \<Rightarrow> 'f router_config option res \<Rightarrow> bool \<Rightarrow> (('i, 'f) table, unit) act" where
  "AddRule env fl inst shouldAppend =
     act_bind (act_lift inst) (\<lambda>c. case c of
         Some config \<Rightarrow> ReloadRules env fl config shouldAppend
       | None \<Rightarrow> act_lift (Err (ErrMsg ''AddRule: config type error'')))"

definition RemoveRule :: "string \<Rightarrow> ('i, 'f) router \<Rightarrow> ('i, 'f) router \<times> unit res" where
  "RemoveRule tag r =
     (if tag \<noteq> '''' then (r\<lparr>rt_rules := filter (\<lambda>rule. rl_RuleTag rule \<noteq> tag) (rt_rules r)\<rparr>, Ok ())
      else (r, Err (ErrMsg ''empty tag name!'')))"

definition OverrideBalancer :: "string \<Rightarrow> string \<Rightarrow> ('i, 'f) router \<Rightarrow> ('i, 'f) router \<times> unit res" where
  "OverrideBalancer tag target r =
     (case map_of (rt_balancers r) tag of
        None \<Rightarrow> (r, Err (ErrMsg ''balancer not found''))
      | Some i \<Rightarrow> (r\<lparr>rt_heap := (rt_heap r)[i := override_Put target (rt_heap r ! i)]\<rparr>, Ok ()))"

definition SetOverrideTarget :: "string \<Rightarrow> string \<Rightarrow> ('i, 'f) router \<Rightarrow> ('i, 'f) router \<times> unit res" where
  "SetOverrideTarget tag target r =
     (case map_of (rt_balancers r) tag of
        Some i \<Rightarrow> (r\<lparr>rt_heap := (rt_heap r)[i := override_Put target (rt_heap r ! i)]\<rparr>, Ok ())
      | None \<Rightarrow> (r, Err (ErrMsg ''cannot find tag'')))"

definition GetOverrideTarget :: "string \<Rightarrow> ('i, 'f) router \<Rightarrow> string res" where
  "GetOverrideTarget tag r =
     (case map_of (rt_balancers r) tag of
        Some i \<Rightarrow> Ok (override_Get (rt_heap r ! i))
      | None \<Rightarrow> Err (ErrMsg ''cannot find tag''))"

definition GetPrincipleTarget ::
  "'f pick_env \<Rightarrow> 'm selector \<Rightarrow> string \<Rightarrow> (('i, 'f) router \<times> 'm, string list) act" where
  "GetPrincipleTarget env sel tag = (\<lambda>(r, m).
     case map_of (rt_balancers r) tag of
       None \<Rightarrow> ((r, m), Err (ErrMsg ''cannot find tag''))
     | Some i \<Rightarrow>
         (case SelectOutbounds sel (rt_heap r ! i) m of
            (m, Err e) \<Rightarrow> ((r, m), Err (ErrMsg ''unable to select outbounds''))
          | (m, Panic p) \<Rightarrow> ((r, m), Panic p)
          | (m, Ok candidates) \<Rightarrow>
              (case strategy_GetPrincipleTarget env candidates (bl_strategy (rt_heap r ! i)) of
                 Ok (s, tags) \<Rightarrow> ((r\<lparr>rt_heap := (rt_heap r)[i := (rt_heap r ! i)\<lparr>bl_strategy := s\<rparr>]\<rparr>, m), Ok tags)
               | Err e \<Rightarrow> ((r, m), Err e)
               | Panic p \<Rightarrow> ((r, m), Panic p))))"

section \<open>Picking a route\<close>

text \<open>The rules in order, up to the first that applies.\<close>

fun first_rule ::
  "'i ipset_ops \<Rightarrow> 'd dns_client \<Rightarrow> 'i rule list \<Rightarrow> routing_ctx \<Rightarrow> 'd \<Rightarrow> (routing_ctx \<times> 'd) \<times> 'i rule option res" where
  "first_rule ops lookup [] ctx d = ((ctx, d), Ok None)"
| "first_rule ops lookup (rule # rules) ctx d =
     (case chan_Apply ops lookup (rl_Condition rule) ctx d of
        (s, Ok True) \<Rightarrow> (s, Ok (Some rule))
      | ((ctx, d), Ok False) \<Rightarrow> first_rule ops lookup rules ctx d
      | (s, Err e) \<Rightarrow> (s, Err e)
      | (s, Panic p) \<Rightarrow> (s, Panic p))"

definition pickRouteInternal ::
  "'i ipset_ops \<Rightarrow> 'd dns_client \<Rightarrow> ('i, 'f) router \<Rightarrow> routing_ctx \<Rightarrow> 'd \<Rightarrow> (routing_ctx \<times> 'd) \<times> 'i rule res" where
  "pickRouteInternal ops lookup r ctx d =
     (let skipDNSResolve = GetSkipDNSResolve ctx;
          ctx = (if rt_domainStrategy r = Config_IpOnDemand \<and> \<not> skipDNSResolve then ContextWithDNSClient ctx else ctx) in
      case first_rule ops lookup (rt_rules r) ctx d of
        (s, Ok (Some rule)) \<Rightarrow> (s, Ok rule)
      | (s, Err e) \<Rightarrow> (s, Err e)
      | (s, Panic p) \<Rightarrow> (s, Panic p)
      | ((ctx, d), Ok None) \<Rightarrow>
          if rt_domainStrategy r \<noteq> Config_IpIfNonMatch then ((ctx, d), Err ErrNoClue)
          else
            (case GetTargetDomain ctx of
               Err e \<Rightarrow> ((ctx, d), Err e)
             | Panic p \<Rightarrow> ((ctx, d), Panic p)
             | Ok domain \<Rightarrow>
                 if length domain = 0 \<or> skipDNSResolve then ((ctx, d), Err ErrNoClue)
                 else
                   (case first_rule ops lookup (rt_rules r) (ContextWithDNSClient ctx) d of
                      (s, Ok (Some rule)) \<Rightarrow> (s, Ok rule)
                    | (s, Ok None) \<Rightarrow> (s, Err ErrNoClue)
                    | (s, Err e) \<Rightarrow> (s, Err e)
                    | (s, Panic p) \<Rightarrow> (s, Panic p))))"

record route =
  ro_outboundTag :: string
  ro_ruleTag :: string
  ro_Context :: routing_ctx

definition rule_GetTag ::
  "'f pick_env \<Rightarrow> 'm selector \<Rightarrow> 'i rule \<Rightarrow> (('i, 'f) router \<times> 'm, string) act" where
  "rule_GetTag env sel rule = (\<lambda>(r, m).
     case rl_Balancer rule of
       None \<Rightarrow> ((r, m), Ok (rl_Tag rule))
     | Some i \<Rightarrow>
         (case balancer_PickOutbound env sel (rt_heap r ! i, m) of
            ((b, m), res) \<Rightarrow> ((r\<lparr>rt_heap := (rt_heap r)[i := b]\<rparr>, m), res)))"

definition PickRoute ::
  "'i ipset_ops \<Rightarrow> 'd dns_client \<Rightarrow> 'f pick_env \<Rightarrow> 'm selector \<Rightarrow> routing_ctx \<Rightarrow> (('i, 'f) router \<times> 'm \<times> 'd, route) act" where
  "PickRoute ops lookup env sel ctx = (\<lambda>(r, m, d).
     case pickRouteInternal ops lookup r ctx d of
       ((ctx, d), Err e) \<Rightarrow> ((r, m, d), Err e)
     | ((ctx, d), Panic p) \<Rightarrow> ((r, m, d), Panic p)
     | ((ctx, d), Ok rule) \<Rightarrow>
         (case rule_GetTag env sel rule (r, m) of
            ((r, m), res) \<Rightarrow>
              ((r, m, d), rmap (\<lambda>tag. \<lparr>ro_outboundTag = tag, ro_ruleTag = rl_RuleTag rule, ro_Context = ctx\<rparr>) res)))"

section \<open>The first matching rule\<close>

text \<open>
  The specification: a condition holds of a session and the target's addresses.  A DNS client without state is a
  partial function from names to addresses; a session is well formed if its valid destinations have an address.
\<close>

definition dns_of :: "(string \<Rightarrow> bytes list option) \<Rightarrow> 'd dns_client" where
  "dns_of f name d = (d, case f name of Some ips \<Rightarrow> Ok ips | None \<Rightarrow> Err ErrEmptyResponse)"

definition dest_ok :: "destination \<Rightarrow> bool" where
  "dest_ok d \<longleftrightarrow> \<not> dest_IsValid d \<or> dest_Address d \<noteq> None"

definition session_ok :: "session_ctx \<Rightarrow> bool" where
  "session_ok s \<longleftrightarrow>
     (case sc_Inbound s of None \<Rightarrow> True | Some i \<Rightarrow> dest_ok (in_Source i)) \<and>
     (case sc_Outbound s of None \<Rightarrow> True | Some ob \<Rightarrow> dest_ok (out_Target ob) \<and> dest_ok (out_RouteTarget ob))"

definition ok_or :: "'a \<Rightarrow> 'a res \<Rightarrow> 'a" where
  "ok_or x r = (case r of Ok y \<Rightarrow> y | _ \<Rightarrow> x)"

definition target_name :: "session_ctx \<Rightarrow> string" where
  "target_name s = ok_or '''' (session_TargetDomain s)"

definition plain_ips :: "session_ctx \<Rightarrow> bytes list" where
  "plain_ips s = ok_or [] (session_TargetIPs s)"

definition source_ips :: "session_ctx \<Rightarrow> bytes list" where
  "source_ips s = ok_or [] (session_SourceIPs s)"

definition resolved_ips :: "(string \<Rightarrow> bytes list option) \<Rightarrow> session_ctx \<Rightarrow> bytes list" where
  "resolved_ips f s =
     (if target_name s = '''' then plain_ips s
      else (case f (target_name s) of Some ips \<Rightarrow> ips | None \<Rightarrow> plain_ips s))"

fun cond_holds :: "'i ipset_ops \<Rightarrow> session_ctx \<Rightarrow> bytes list \<Rightarrow> 'i condition \<Rightarrow> bool" where
  "cond_holds ops s ips (DomainCondition m) \<longleftrightarrow> target_name s \<noteq> '''' \<and> ApplyDomain m (target_name s)"
| "cond_holds ops s ips (MultiGeoIPMatcher ms onSource) \<longleftrightarrow>
     list_ex (\<lambda>ip. list_ex (\<lambda>m. geoip_Match ops m ip) ms) (if onSource then source_ips s else ips)"
| "cond_holds ops s ips (PortMatcher ports onSource) \<longleftrightarrow>
     port_list_Contains ports (if onSource then session_SourcePort s else session_TargetPort s)"
| "cond_holds ops s ips (NetworkMatcher l) \<longleftrightarrow> l ! network_number (session_Network s)"
| "cond_holds ops s ips (UserMatcher us ps) \<longleftrightarrow>
     session_User s \<noteq> '''' \<and> (session_User s \<in> set us \<or> list_ex (\<lambda>re. re (session_User s)) ps)"
| "cond_holds ops s ips (InboundTagMatcher tags) \<longleftrightarrow> session_InboundTag s \<noteq> '''' \<and> session_InboundTag s \<in> set tags"
| "cond_holds ops s ips (ProtocolMatcher ps) \<longleftrightarrow>
     session_Protocol s \<noteq> '''' \<and> list_ex (\<lambda>p. prefix p (session_Protocol s)) ps"
| "cond_holds ops s ips (AttributeMatcher keys) \<longleftrightarrow>
     (case session_Attributes s of None \<Rightarrow> False | Some attrs \<Rightarrow> attributes_Match keys attrs)"

definition rule_holds :: "'i ipset_ops \<Rightarrow> session_ctx \<Rightarrow> bytes list \<Rightarrow> 'i rule \<Rightarrow> bool" where
  "rule_holds ops s ips rule = list_all (cond_holds ops s ips) (rl_Condition rule)"

text \<open>Well-formed sessions answer every question.\<close>

lemma dest_ok_total:
  assumes "dest_ok d" and "dest_IsValid d"
  shows "\<exists>af. dest_Family d = Ok af \<and> (if IsDomain af then \<exists>n. dest_Domain d = Ok n else \<exists>ip. dest_IP d = Ok ip) \<and> (IsIP af \<longleftrightarrow> \<not> IsDomain af)"
proof -
  obtain a where "dest_Address d = Some a" using assms by (auto simp: dest_ok_def)
  then show ?thesis
    by (cases a) (auto simp: dest_Family_def dest_Domain_def dest_IP_def IsDomain_def IsIP_def AddressFamilyDomain_def
        AddressFamilyIPv4_def AddressFamilyIPv6_def)
qed

lemma session_total:
  assumes "session_ok s"
  shows "session_TargetDomain s = Ok (target_name s)" and "session_TargetIPs s = Ok (plain_ips s)"
    and "session_SourceIPs s = Ok (source_ips s)"
proof -
  have tot: "\<exists>n. target_domain d = Ok n" if "dest_ok d" "dest_IsValid d" for d
    using dest_ok_total [OF that] by (auto simp: target_domain_def split: if_splits)
  have "\<exists>n. session_TargetDomain s = Ok n"
  proof (cases "sc_Outbound s")
    case (Some ob)
    then have ok: "dest_ok (out_Target ob)" "dest_ok (out_RouteTarget ob)" using assms by (auto simp: session_ok_def)
    show ?thesis
    proof (cases "dest_IsValid (out_Target ob) \<and> dest_IsValid (out_RouteTarget ob)")
      case True
      then show ?thesis
        using dest_ok_total [OF ok(2)] tot [OF ok(1)] Some by (auto simp: session_TargetDomain_def split: if_splits)
    next
      case False
      then show ?thesis using tot [OF ok(1)] Some by (auto simp: session_TargetDomain_def)
    qed
  qed (simp add: session_TargetDomain_def)
  then show "session_TargetDomain s = Ok (target_name s)" by (auto simp: target_name_def ok_or_def)
  have "\<exists>ips. session_TargetIPs s = Ok ips"
    using assms dest_ok_total by (fastforce simp: session_ok_def session_TargetIPs_def split: option.splits if_splits)
  then show "session_TargetIPs s = Ok (plain_ips s)" by (auto simp: plain_ips_def ok_or_def)
  have "\<exists>ips. session_SourceIPs s = Ok ips"
    using assms dest_ok_total by (fastforce simp: session_ok_def session_SourceIPs_def split: option.splits if_splits)
  then show "session_SourceIPs s = Ok (source_ips s)" by (auto simp: source_ips_def ok_or_def)
qed

text \<open>What a context knows of the target's addresses, whether or not it has asked yet.\<close>

fun target_ips :: "(string \<Rightarrow> bytes list option) \<Rightarrow> routing_ctx \<Rightarrow> bytes list" where
  "target_ips f (Session s) = plain_ips s"
| "target_ips f (Resolvable c r) =
     (if r \<noteq> [] then r
      else if target_name (base_session c) = '''' then target_ips f c
      else (case f (target_name (base_session c)) of Some ips \<Rightarrow> ips | None \<Rightarrow> target_ips f c))"

definition same_view :: "(string \<Rightarrow> bytes list option) \<Rightarrow> routing_ctx \<Rightarrow> routing_ctx \<Rightarrow> bool" where
  "same_view f c c' \<longleftrightarrow> target_ips f c' = target_ips f c \<and> base_session c' = base_session c"

lemma same_view_trans: "same_view f c c' \<Longrightarrow> same_view f c' c'' \<Longrightarrow> same_view f c c''"
  by (simp add: same_view_def)

lemma dns_of_simps:
  "f name = Some ips \<Longrightarrow> dns_of f name d = (d, Ok ips)"
  "f name = None \<Longrightarrow> dns_of f name d = (d, Err ErrEmptyResponse)"
  by (simp_all add: dns_of_def)

lemma GetTargetIPs_view:
  "session_ok (base_session ctx) \<Longrightarrow>
     \<exists>ctx'. GetTargetIPs (dns_of f) ctx d = ((ctx', d), Ok (target_ips f ctx)) \<and> same_view f ctx ctx'"
proof (induction ctx)
  case (Session s)
  then show ?case using session_total(2) by (simp add: same_view_def)
next
  case (Resolvable c r)
  then obtain c' where c': "GetTargetIPs (dns_of f) c d = ((c', d), Ok (target_ips f c))" "same_view f c c'" by auto
  have dom: "GetTargetDomain c = Ok (target_name (base_session c))"
    using session_total(1) Resolvable.prems by (simp add: GetTargetDomain_def)
  show ?case
    using c' by (cases "f (target_name (base_session c))") (auto simp: dom dns_of_simps same_view_def Let_def)
qed

lemma cond_Apply_view:
  assumes "session_ok (base_session ctx)"
  shows "\<exists>ctx'. cond_Apply ops (dns_of f) c ctx d =
      ((ctx', d), Ok (cond_holds ops (base_session ctx) (target_ips f ctx) c)) \<and> same_view f ctx ctx'"
proof (cases c)
  case (DomainCondition m)
  then show ?thesis using session_total(1) [OF assms] by (simp add: GetTargetDomain_def same_view_def)
next
  case (MultiGeoIPMatcher ms onSource)
  then show ?thesis
    using GetTargetIPs_view [OF assms, of f d] session_total(3) [OF assms]
    by (cases onSource) (auto simp: same_view_def ips_match_def [abs_def])
qed (auto simp: same_view_def Let_def list_ex_iff)

lemma chan_Apply_view:
  "session_ok (base_session ctx) \<Longrightarrow>
     \<exists>ctx'. chan_Apply ops (dns_of f) cs ctx d =
       ((ctx', d), Ok (list_all (cond_holds ops (base_session ctx) (target_ips f ctx)) cs)) \<and> same_view f ctx ctx'"
proof (induction cs arbitrary: ctx)
  case (Cons c cs)
  obtain c1 where c1: "cond_Apply ops (dns_of f) c ctx d =
      ((c1, d), Ok (cond_holds ops (base_session ctx) (target_ips f ctx) c))" "same_view f ctx c1"
    using cond_Apply_view [OF Cons.prems, of ops f c d] by blast
  have "session_ok (base_session c1)" using Cons.prems c1(2) by (simp add: same_view_def)
  from Cons.IH [OF this] c1 show ?case
    by (cases "cond_holds ops (base_session ctx) (target_ips f ctx) c") (auto simp: same_view_def)
qed (simp add: same_view_def)

lemma first_rule_view:
  "session_ok (base_session ctx) \<Longrightarrow>
     \<exists>ctx'. first_rule ops (dns_of f) rules ctx d =
       ((ctx', d), Ok (find (rule_holds ops (base_session ctx) (target_ips f ctx)) rules)) \<and> same_view f ctx ctx'"
proof (induction rules arbitrary: ctx)
  case (Cons r rules)
  obtain c1 where c1: "chan_Apply ops (dns_of f) (rl_Condition r) ctx d =
      ((c1, d), Ok (rule_holds ops (base_session ctx) (target_ips f ctx) r))" "same_view f ctx c1"
    using chan_Apply_view [OF Cons.prems, of ops f "rl_Condition r" d] unfolding rule_holds_def by blast
  have "session_ok (base_session c1)" using Cons.prems c1(2) by (simp add: same_view_def)
  from Cons.IH [OF this] c1 show ?case
    by (cases "rule_holds ops (base_session ctx) (target_ips f ctx) r") (auto simp: same_view_def)
qed (simp add: same_view_def)

lemma pickRouteInternal_first:
  assumes "session_ok s"
  shows "snd (pickRouteInternal ops (dns_of f) r (Session s) d) =
    (let skip = session_SkipDNSResolve s;
         first = (\<lambda>ips. find (rule_holds ops s ips) (rt_rules r));
         attempt = (if rt_domainStrategy r = Config_IpOnDemand \<and> \<not> skip then first (resolved_ips f s) else first (plain_ips s));
         again = (if rt_domainStrategy r = Config_IpIfNonMatch \<and> target_name s \<noteq> '''' \<and> \<not> skip
                  then first (resolved_ips f s) else None) in
     case attempt of Some rule \<Rightarrow> Ok rule
     | None \<Rightarrow> (case again of Some rule \<Rightarrow> Ok rule | None \<Rightarrow> Err ErrNoClue))"
proof -
  have R: "target_ips f (Resolvable c []) = resolved_ips f s" if "same_view f (Session s) c" for c
    using that by (auto simp: same_view_def resolved_ips_def split: option.splits)
  have self: "same_view f (Session s) (Session s)" by (simp add: same_view_def)
  obtain c1 where c1: "first_rule ops (dns_of f) (rt_rules r) (Session s) d =
      ((c1, d), Ok (find (rule_holds ops s (plain_ips s)) (rt_rules r)))" "same_view f (Session s) c1"
    using first_rule_view [of "Session s" ops f "rt_rules r" d] assms by auto
  obtain c2 where c2: "first_rule ops (dns_of f) (rt_rules r) (Resolvable (Session s) []) d =
      ((c2, d), Ok (find (rule_holds ops s (resolved_ips f s)) (rt_rules r)))"
    using first_rule_view [of "Resolvable (Session s) []" ops f "rt_rules r" d] assms R [OF self] by auto
  have "session_ok (base_session (Resolvable c1 []))" using assms c1(2) by (simp add: same_view_def)
  from first_rule_view [OF this, of ops f "rt_rules r" d] obtain c3 where
    c3: "first_rule ops (dns_of f) (rt_rules r) (Resolvable c1 []) d =
      ((c3, d), Ok (find (rule_holds ops s (resolved_ips f s)) (rt_rules r)))"
    using R [OF c1(2)] c1(2) by (auto simp: same_view_def)
  have dom: "GetTargetDomain c1 = Ok (target_name s)"
    using session_total(1) [OF assms] c1(2) by (simp add: GetTargetDomain_def same_view_def)
  have skip: "GetSkipDNSResolve (Session s) = session_SkipDNSResolve s" by (simp add: GetSkipDNSResolve_def)
  show ?thesis
    by (cases "rt_domainStrategy r = Config_IpOnDemand \<and> \<not> session_SkipDNSResolve s")
       (auto simp: pickRouteInternal_def Let_def skip ContextWithDNSClient_def c1 c2 c3 dom split: option.splits)
qed

text \<open>
  C6. The router picks the first rule that matches.  For a well-formed session and a DNS client that answers as
  a function of the name: with strategy \<open>IpOnDemand\<close> the rules see the resolved addresses; otherwise they see
  the address the client asked for; with \<open>IpIfNonMatch\<close>, when no rule matches and the target is a name, the
  rules are tried a second time with the resolved addresses; a session marked to skip DNS is never resolved.
  If no rule is left, the result is \<open>ErrNoClue\<close>.  No rule is skipped, whatever has been resolved on the way.
\<close>

theorem pick_first_match:
  assumes "session_ok s"
  shows "snd (pickRouteInternal ops (dns_of f) r (Session s) d) =
    (let skip = session_SkipDNSResolve s;
         first = (\<lambda>ips. find (rule_holds ops s ips) (rt_rules r));
         attempt = (if rt_domainStrategy r = Config_IpOnDemand \<and> \<not> skip then first (resolved_ips f s) else first (plain_ips s));
         again = (if rt_domainStrategy r = Config_IpIfNonMatch \<and> target_name s \<noteq> '''' \<and> \<not> skip
                  then first (resolved_ips f s) else None) in
     case attempt of Some rule \<Rightarrow> Ok rule
     | None \<Rightarrow> (case again of Some rule \<Rightarrow> Ok rule | None \<Rightarrow> Err ErrNoClue))"
  using assms by (rule pickRouteInternal_first)

definition sample_session :: session_ctx where
  "sample_session =
     (let d = TCPDestination (Some (DomainAddr ''a.org'')) 443 in
      \<lparr>sc_Inbound = None,
       sc_Outbound = Some \<lparr>out_OriginalTarget = d, out_Target = d, out_RouteTarget = \<lparr>dest_Address = None, dest_Port = 0, dest_Network = Network_Unknown\<rparr>,
                           out_Gateway = None, out_Tag = '''', out_Name = ''''\<rparr>,
       sc_Content = None\<rparr>)"

definition sample_rule :: "string \<Rightarrow> 'i condition list \<Rightarrow> 'i rule" where
  "sample_rule tag cs = \<lparr>rl_Tag = tag, rl_RuleTag = tag, rl_Balancer = None, rl_Condition = cs\<rparr>"

definition sample_router :: "((bytes \<times> nat) list, nat) router" where
  "sample_router =
     \<lparr>rt_domainStrategy = Config_IpIfNonMatch,
      rt_rules = [sample_rule ''udp'' [NewNetworkMatcher [Network_UDP]],
                  sample_rule ''lan'' [MultiGeoIPMatcher [\<lparr>gm_countryCode = '''', gm_reverseMatch = False,
                     gm_ip4 = [([10, 0, 0, 0], 8)], gm_ip6 = []\<rparr>] False]],
      rt_balancers = [], rt_heap = [], rt_observatory = False\<rparr>"

theorem pick_first_match_witness:
  "rmap rl_Tag (snd (pickRouteInternal list_ipset (dns_of (\<lambda>_. Some [[10, 1, 2, 3]])) sample_router (Session sample_session) ())) = Ok ''lan''"
proof -
  let ?f = "\<lambda>_ :: string. Some [[10, 1, 2, 3]] :: bytes list option"
  have ok: "session_ok sample_session" by code_simp
  have e: "target_name sample_session = ''a.org''" "session_SkipDNSResolve sample_session = False"
    "resolved_ips ?f sample_session = [[10, 1, 2, 3]]" "plain_ips sample_session = []"
    by code_simp+
  have n: "\<not> rule_holds list_ipset sample_session ips (sample_rule ''udp'' [NewNetworkMatcher [Network_UDP]])" for ips
    by (simp add: rule_holds_def sample_rule_def NewNetworkMatcher_def) code_simp
  define lan where "lan = rt_rules sample_router ! 1"
  have l: "\<not> rule_holds list_ipset sample_session [] lan" "rule_holds list_ipset sample_session [[10, 1, 2, 3]] lan"
    "rt_rules sample_router = [sample_rule ''udp'' [NewNetworkMatcher [Network_UDP]], lan]" "rl_Tag lan = ''lan''"
    unfolding lan_def by (code_simp, code_simp, simp_all add: sample_router_def sample_rule_def)
  have s: "rt_domainStrategy sample_router = Config_IpIfNonMatch" by (simp add: sample_router_def)
  show ?thesis
    unfolding pick_first_match [OF ok] Let_def e l(3) s using n l(1,2,4) by simp
qed

section \<open>Changing the table\<close>

text \<open>
  The well-formedness of a table: the rule tags that are not empty are distinct, and every rule's balancer is an
  object of the heap that is registered under some tag.
\<close>

definition rule_tags :: "'i rule list \<Rightarrow> string list" where
  "rule_tags rules = filter (\<lambda>t. t \<noteq> '''') (map rl_RuleTag rules)"

definition balancers_ok :: "('i, 'f) router \<Rightarrow> bool" where
  "balancers_ok r \<longleftrightarrow>
     (\<forall>i \<in> ran (map_of (rt_balancers r)). i < length (rt_heap r)) \<and>
     (\<forall>rule \<in> set (rt_rules r). \<forall>i. rl_Balancer rule = Some i \<longrightarrow> i \<in> ran (map_of (rt_balancers r)))"

definition table_ok :: "('i, 'f) router \<Rightarrow> bool" where
  "table_ok r \<longleftrightarrow> distinct (rule_tags (rt_rules r)) \<and> balancers_ok r"

text \<open>Loops keep what their body keeps.\<close>

lemma act_bind_keeps:
  assumes "act_bind m f s = (s', res)" and "I s"
    and "\<And>s s' res. m s = (s', res) \<Longrightarrow> I s \<Longrightarrow> I s'"
    and "\<And>x s s' res. f x s = (s', res) \<Longrightarrow> I s \<Longrightarrow> I s'"
  shows "I s'"
proof -
  obtain s1 r where m: "m s = (s1, r)" by fastforce
  then have I1: "I s1" using assms(2,3) by blast
  show ?thesis using assms(1,4) m I1 by (cases r) auto
qed

lemma for_each_keeps:
  assumes "\<And>x s s' res. body x s = (s', res) \<Longrightarrow> I s \<Longrightarrow> I s'"
  shows "for_each body xs s = (s', res) \<Longrightarrow> I s \<Longrightarrow> I s'"
proof (induction xs arbitrary: s s' res)
  case (Cons x xs)
  show ?case by (rule act_bind_keeps [where I = I, OF Cons.prems(1) [unfolded for_each.simps] Cons.prems(2)]) (use assms Cons.IH in blast)+
qed simp

lemma register_balancer_ok:
  assumes "table_ok r" and "map_of (rt_balancers r) tag = None \<or> rt_rules r = []"
  shows "table_ok (register_balancer tag b r)"
proof -
  let ?n = "length (rt_heap r)" and ?m = "map_of (rt_balancers r)"
  have sub: "ran (?m(tag \<mapsto> ?n)) \<subseteq> insert ?n (ran ?m)" by (auto simp: ran_def)
  have "i \<in> ran (?m(tag \<mapsto> ?n))" if "rule \<in> set (rt_rules r)" "rl_Balancer rule = Some i" for rule i
    using assms that by (auto simp: table_ok_def balancers_ok_def ran_map_upd)
  moreover have "i < Suc ?n" if "i \<in> ran (?m(tag \<mapsto> ?n))" for i
    using sub that assms(1) less_SucI by (fastforce simp: table_ok_def balancers_ok_def)
  ultimately show ?thesis
    using assms(1) by (simp add: table_ok_def balancers_ok_def register_balancer_def update_conv')
qed

lemma register_balancer_rules [simp]: "rt_rules (register_balancer tag b r) = rt_rules r"
  by (simp add: register_balancer_def)

lemma reload_balancer_ok:
  assumes "reload_balancer fl rule (geo, r) = ((geo', r'), res)" and "table_ok r"
  shows "table_ok r'"
  using assms register_balancer_ok
  by (auto simp: reload_balancer_def add_balancer_def split: if_splits res.splits)

lemma add_rule_result:
  assumes "add_rule env rule (geo, r) = ((geo', r'), res)"
  shows "r' = r \<or> (\<exists>rr. r' = r\<lparr>rt_rules := rt_rules r @ [rr]\<rparr> \<and> rl_RuleTag rr = ru_RuleTag rule \<and>
      (\<forall>i. rl_Balancer rr = Some i \<longrightarrow> i \<in> ran (map_of (rt_balancers r))))"
proof -
  obtain g q where q: "BuildCondition env rule geo = (g, q)" by fastforce
  show ?thesis
  proof (cases q)
    case (Ok cond)
    let ?rr = "\<lparr>rl_Tag = ru_GetTag rule, rl_RuleTag = ru_RuleTag rule, rl_Balancer = None, rl_Condition = cond\<rparr>"
    consider "r' = r" | "r' = r\<lparr>rt_rules := rt_rules r @ [?rr]\<rparr>"
      | i where "r' = r\<lparr>rt_rules := rt_rules r @ [?rr\<lparr>rl_Balancer := Some i\<rparr>]\<rparr>" "i \<in> ran (map_of (rt_balancers r))"
      using assms q Ok by (auto simp: add_rule_def Let_def ranI split: if_splits option.splits)
    then show ?thesis by cases (auto intro!: disjI2)
  qed (use assms q in \<open>auto simp: add_rule_def\<close>)
qed

lemma reload_rule_ok:
  assumes "reload_rule env rule (geo, r) = ((geo', r'), res)" and "table_ok r"
  shows "table_ok r'"
proof (cases "RuleExists (ru_RuleTag rule) r")
  case False
  then have "add_rule env rule (geo, r) = ((geo', r'), res)" using assms(1) by (simp add: reload_rule_def)
  from add_rule_result [OF this] consider "r' = r"
    | rr where "r' = r\<lparr>rt_rules := rt_rules r @ [rr]\<rparr>" "rl_RuleTag rr = ru_RuleTag rule"
        "\<And>i. rl_Balancer rr = Some i \<Longrightarrow> i \<in> ran (map_of (rt_balancers r))" by blast
  then show ?thesis
  proof cases
    case 2
    have "ru_RuleTag rule \<notin> set (rule_tags (rt_rules r))"
      using False by (auto simp: RuleExists_def rule_tags_def list_ex_iff)
    then have "distinct (rule_tags (rt_rules r'))" using assms(2) 2(1,2) by (auto simp: table_ok_def rule_tags_def)
    moreover have "balancers_ok r'" using assms(2) 2(1,3) by (simp add: table_ok_def balancers_ok_def)
    ultimately show ?thesis by (simp add: table_ok_def)
  qed (use assms in simp)
qed (use assms in \<open>simp add: reload_rule_def\<close>)

lemma ReloadRules_ok:
  assumes "ReloadRules env fl config app (geo, r) = ((geo', r'), res)" and "table_ok r"
  shows "table_ok r'"
proof -
  let ?I = "\<lambda>t :: ('a, 'b) table. table_ok (snd t)"
  let ?r = "if \<not> app then r\<lparr>rt_balancers := [], rt_rules := []\<rparr> else r"
  have start: "?I (geo, ?r)" using assms(2) by (auto simp: table_ok_def balancers_ok_def rule_tags_def)
  have run: "act_bind (for_each (reload_balancer fl) (cf_BalancingRule config))
      (\<lambda>_. for_each (reload_rule env) (cf_Rule config)) (geo, ?r) = ((geo', r'), res)"
    using assms(1) by (simp add: ReloadRules_def Let_def)
  have b: "reload_balancer fl x s = (s', q) \<Longrightarrow> ?I s \<Longrightarrow> ?I s'" for x s s' q
    using reload_balancer_ok by (metis prod.collapse)
  have c: "reload_rule env x s = (s', q) \<Longrightarrow> ?I s \<Longrightarrow> ?I s'" for x s s' q
    using reload_rule_ok by (metis prod.collapse)
  have B: "for_each (reload_balancer fl) xs s = (s', q) \<Longrightarrow> ?I s \<Longrightarrow> ?I s'" for xs s s' q
    by (rule for_each_keeps [where I = ?I and body = "reload_balancer fl" and xs = xs and s = s and res = q]) (rule b, assumption+)
  have C: "for_each (reload_rule env) xs s = (s', q) \<Longrightarrow> ?I s \<Longrightarrow> ?I s'" for xs s s' q
    by (rule for_each_keeps [where I = ?I and body = "reload_rule env" and xs = xs and s = s and res = q]) (rule c, assumption+)
  have "?I (geo', r')" by (rule act_bind_keeps [where I = ?I, OF run start B C])
  then show ?thesis by simp
qed

text \<open>The operations on a running router; \<open>env\<close> and \<open>fl\<close> are what building rules needs.\<close>

inductive router_step :: "'i build_env \<Rightarrow> 'f float_ops \<Rightarrow> ('i, 'f) table \<Rightarrow> ('i, 'f) table \<Rightarrow> bool" for env fl where
  Step_Reload: "ReloadRules env fl config app (geo, r) = (t, res) \<Longrightarrow> router_step env fl (geo, r) t"
| Step_Remove: "RemoveRule tag r = (r', res) \<Longrightarrow> router_step env fl (geo, r) (geo, r')"
| Step_Override: "OverrideBalancer tag target r = (r', res) \<Longrightarrow> router_step env fl (geo, r) (geo, r')"
| Step_SetOverride: "SetOverrideTarget tag target r = (r', res) \<Longrightarrow> router_step env fl (geo, r) (geo, r')"
| Step_GetTag: "rule_GetTag penv (sel :: outbound_manager selector) rule (r, m) = ((r', m'), res) \<Longrightarrow> router_step env fl (geo, r) (geo, r')"
| Step_Principle: "GetPrincipleTarget penv (sel :: outbound_manager selector) tag (r, m) = ((r', m'), res) \<Longrightarrow>
     router_step env fl (geo, r) (geo, r')"

lemma table_ok_heap: "length heap = length (rt_heap r) \<Longrightarrow> table_ok (r\<lparr>rt_heap := heap\<rparr>) = table_ok r"
  by (simp add: table_ok_def balancers_ok_def)

lemma router_step_ok: "router_step env fl t t' \<Longrightarrow> table_ok (snd t) \<Longrightarrow> table_ok (snd t')"
proof (induction rule: router_step.induct)
  case (Step_Reload config app geo r t res)
  then show ?case using ReloadRules_ok by (metis prod.collapse snd_conv)
next
  case (Step_Remove tag r r' res geo)
  have "distinct (rule_tags (filter P rules))" if "distinct (rule_tags rules)" for P and rules :: "'a rule list"
    using that by (induction rules) (auto simp: rule_tags_def)
  then show ?case using Step_Remove by (auto simp: RemoveRule_def table_ok_def balancers_ok_def split: if_splits)
qed (auto simp: OverrideBalancer_def SetOverrideTarget_def rule_GetTag_def GetPrincipleTarget_def table_ok_heap
      split: option.splits prod.splits res.splits)

lemma router_steps_ok: "(router_step env fl)\<^sup>*\<^sup>* t t' \<Longrightarrow> table_ok (snd t) \<Longrightarrow> table_ok (snd t')"
  by (induction rule: rtranclp_induct) (auto intro: router_step_ok)

definition config_tags :: "routing_rule list \<Rightarrow> string list" where
  "config_tags rules = filter (\<lambda>t. t \<noteq> '''') (map ru_RuleTag rules)"

lemma init_balancers_ok:
  assumes "for_each (add_balancer fl) xs t = (t', res)" and "rt_rules (snd t) = [] \<and> table_ok (snd t)"
  shows "rt_rules (snd t') = [] \<and> table_ok (snd t')"
proof (rule for_each_keeps [where I = "\<lambda>t. rt_rules (snd t) = [] \<and> table_ok (snd t)", OF _ assms])
  fix x and s s' :: "('a, 'b) table" and q
  assume "add_balancer fl x s = (s', q)" "rt_rules (snd s) = [] \<and> table_ok (snd s)"
  then show "rt_rules (snd s') = [] \<and> table_ok (snd s')"
    by (cases s) (auto simp: add_balancer_def register_balancer_ok split: res.splits)
qed

lemma init_rules_ok:
  "for_each (add_rule env) xs (geo, r) = ((geo', r'), res) \<Longrightarrow> table_ok r \<Longrightarrow>
     distinct (rule_tags (rt_rules r) @ config_tags xs) \<Longrightarrow> table_ok r'"
proof (induction xs arbitrary: geo r)
  case (Cons x xs)
  obtain geo1 r1 q where q: "add_rule env x (geo, r) = ((geo1, r1), q)" by (metis prod.collapse)
  have keep: "table_ok r1 \<and> distinct (rule_tags (rt_rules r1) @ config_tags xs)"
    using add_rule_result [OF q]
  proof (elim disjE exE conjE)
    assume "r1 = r"
    then show ?thesis using Cons.prems(2,3) by (auto simp: config_tags_def split: if_splits)
  next
    fix rr assume rr: "r1 = r\<lparr>rt_rules := rt_rules r @ [rr]\<rparr>" "rl_RuleTag rr = ru_RuleTag x"
      "\<forall>i. rl_Balancer rr = Some i \<longrightarrow> i \<in> ran (map_of (rt_balancers r))"
    then have "distinct (rule_tags (rt_rules r1) @ config_tags xs)"
      using Cons.prems(3) by (auto simp: rule_tags_def config_tags_def split: if_splits)
    moreover have "balancers_ok r1" using Cons.prems(2) rr(1,3) by (simp add: table_ok_def balancers_ok_def)
    ultimately show ?thesis by (simp add: table_ok_def)
  qed
  show ?case
  proof (cases q)
    case (Ok u)
    then have "for_each (add_rule env) xs (geo1, r1) = ((geo', r'), res)" using Cons.prems(1) q by simp
    with Cons.IH keep show ?thesis by blast
  qed (use Cons.prems(1) q keep in auto)
qed simp

text \<open>
  C14. The routing table stays well formed: from a router built of a configuration without repeated rule tags,
  whether or not building it went through, any sequence of reloading, appending and removing rules, overriding
  balancers and picking routes keeps the rule tags distinct, and every rule's balancer an existing object that
  is registered under a tag, so that overriding by tag reaches it.
\<close>

theorem router_table_ok:
  assumes "router_Init env fl obs config geo = (t0, res)" and "distinct (config_tags (cf_Rule config))"
    and "(router_step env fl)\<^sup>*\<^sup>* t0 (geo', r)"
  shows "table_ok r"
proof -
  let ?r0 = "\<lparr>rt_domainStrategy = cf_DomainStrategy config, rt_rules = [], rt_balancers = [], rt_heap = [], rt_observatory = obs\<rparr>"
  obtain t1 q where b: "for_each (add_balancer fl) (cf_BalancingRule config) (geo, ?r0) = (t1, q)" by fastforce
  have t1: "rt_rules (snd t1) = []" "table_ok (snd t1)"
    using init_balancers_ok [OF b] by (auto simp: table_ok_def balancers_ok_def rule_tags_def)
  have "table_ok (snd t0)"
  proof (cases q)
    case (Ok u)
    then have "for_each (add_rule env) (cf_Rule config) (fst t1, snd t1) = ((fst t0, snd t0), res)"
      using assms(1) b by (simp add: router_Init_def)
    then show ?thesis by (rule init_rules_ok) (use t1 assms(2) in \<open>simp_all add: rule_tags_def\<close>)
  qed (use assms(1) b t1 in \<open>auto simp: router_Init_def\<close>)
  then show ?thesis using router_steps_ok [OF assms(3)] by simp
qed

definition sample_config :: "nat router_config" where
  "sample_config = \<lparr>cf_DomainStrategy = Config_AsIs,
     cf_Rule = [\<lparr>ru_TargetTag = Balancing_tag ''b'', ru_RuleTag = ''r1'', ru_Domain = [], ru_Geoip = [], ru_PortList = None,
                 ru_Networks = [Network_TCP], ru_SourceGeoip = [], ru_SourcePortList = None, ru_UserEmail = [],
                 ru_InboundTag = [], ru_Protocol = [], ru_Attributes = [], ru_DomainMatcher = ''''\<rparr>],
     cf_BalancingRule = [\<lparr>br_Tag = ''b'', br_OutboundSelector = [''a''], br_Strategy = ''random'',
                          br_StrategySettings = Err EOF, br_FallbackTag = ''''\<rparr>]\<rparr>"

definition sample_table :: "(unit, nat) table \<times> unit res" where
  "sample_table = router_Init sample_build_env (pe_float sample_env) False sample_config []"

lemma sample_table_eq:
  "sample_table =
     (([], \<lparr>rt_domainStrategy = Config_AsIs,
         rt_rules = [\<lparr>rl_Tag = [], rl_RuleTag = ''r1'', rl_Balancer = Some 0, rl_Condition = [NewNetworkMatcher [Network_TCP]]\<rparr>],
         rt_balancers = [(''b'', 0)],
         rt_heap = [\<lparr>bl_selectors = [''a''], bl_strategy = RandomStrategy \<lparr>rs_FallbackTag = [], rs_observatory = False\<rparr>,
                     bl_fallbackTag = [], bl_override = []\<rparr>],
         rt_observatory = False\<rparr>), Ok ())"
proof -
  have l: "ToLower ''random'' = ''random''" by code_simp
  show ?thesis
    by (simp add: sample_table_def router_Init_def sample_config_def add_balancer_def balancing_Build_def l Let_def
        register_balancer_def balancer_InjectContext_def rs_InjectContext_def add_rule_def BuildCondition_def cond_if_def
        ru_GetTag_def ru_GetBalancingTag_def)
qed

theorem router_table_ok_witness:
  "table_ok (fst (SetOverrideTarget ''b'' ''out'' (snd (fst sample_table)))) \<and>
   GetOverrideTarget ''b'' (fst (SetOverrideTarget ''b'' ''out'' (snd (fst sample_table)))) = Ok ''out''"
proof -
  have "router_step sample_build_env (pe_float sample_env) (fst sample_table)
      (fst (fst sample_table), fst (SetOverrideTarget ''b'' ''out'' (snd (fst sample_table))))"
    using Step_SetOverride [of "''b''" "''out''" "snd (fst sample_table)" _ _ sample_build_env "pe_float sample_env" "fst (fst sample_table)"]
    by (metis prod.collapse)
  then have "table_ok (fst (SetOverrideTarget ''b'' ''out'' (snd (fst sample_table))))"
    by (intro router_table_ok [of sample_build_env "pe_float sample_env" False sample_config "[]" "fst sample_table" "snd sample_table"
          "fst (fst sample_table)"])
       (simp add: sample_table_def, simp add: config_tags_def sample_config_def, rule r_into_rtranclp)
  moreover have "GetOverrideTarget ''b'' (fst (SetOverrideTarget ''b'' ''out'' (snd (fst sample_table)))) = Ok ''out''"
    by (simp add: sample_table_eq GetOverrideTarget_def SetOverrideTarget_def override_Get_def override_Put_def)
  ultimately show ?thesis by simp
qed

text \<open>
  Overriding a balancer takes effect: after \<open>SetOverrideTarget\<close> has accepted a tag and a target, every rule
  that uses the balancer registered under the tag returns the target, whatever the strategy and the outbounds.
\<close>

theorem override_takes_effect:
  assumes "SetOverrideTarget tag target r = (r', Ok ())" and "target \<noteq> ''''" and "table_ok r"
    and "map_of (rt_balancers r) tag = rl_Balancer rule"
  shows "snd (rule_GetTag env (Some select) rule (r', m)) = Ok target"
proof -
  obtain i where i: "map_of (rt_balancers r) tag = Some i" "r' = r\<lparr>rt_heap := (rt_heap r)[i := override_Put target (rt_heap r ! i)]\<rparr>"
    using assms(1) by (auto simp: SetOverrideTarget_def split: option.splits)
  have "i < length (rt_heap r)" using assms(3) i(1) by (auto simp: table_ok_def balancers_ok_def ranI)
  then have h: "rt_heap r' ! i = override_Put target (rt_heap r ! i)" by (simp add: i(2))
  show ?thesis
    using i(1) assms(2,4)
    by (auto simp: rule_GetTag_def h balancer_PickOutbound_def SelectOutbounds_def override_Put_def override_Get_def
        split: prod.splits)
qed

theorem override_takes_effect_witness:
  "snd (rule_GetTag sample_env (Some (om_Select id)) (rt_rules (snd (fst sample_table)) ! 0)
     (fst (SetOverrideTarget ''b'' ''out'' (snd (fst sample_table))), New_manager)) = Ok ''out''"
proof -
  have "table_ok (snd (fst sample_table))" by (simp add: sample_table_eq table_ok_def balancers_ok_def rule_tags_def)
  moreover have "snd (SetOverrideTarget ''b'' ''out'' (snd (fst sample_table))) = Ok ()"
    "map_of (rt_balancers (snd (fst sample_table))) ''b'' = rl_Balancer (rt_rules (snd (fst sample_table)) ! 0)"
    by (simp_all add: sample_table_eq SetOverrideTarget_def)
  ultimately show ?thesis
    using override_takes_effect [of "''b''" "''out''" "snd (fst sample_table)" "fst (SetOverrideTarget ''b'' ''out'' (snd (fst sample_table)))"
        "rt_rules (snd (fst sample_table)) ! 0" sample_env "om_Select id" New_manager]
    by (simp add: prod_eq_iff)
qed

text \<open>
  A reload that fails leaves no rules behind: if \<open>ReloadRules\<close> is to replace the table and the first
  balancer of the new configuration cannot be built, the error is returned, but the old rules and balancers are
  gone already, and from then on no connection finds a route.
\<close>

theorem failed_reload_empties_table:
  assumes "cf_BalancingRule config = b # bs" and "balancing_Build fl b = Err e" and "session_ok s"
    and "ReloadRules env fl config False (geo, r) = ((geo', r'), res)"
  shows "res = Err e \<and> rt_rules r' = [] \<and> snd (pickRouteInternal ops (dns_of f) r' (Session s) d) = Err ErrNoClue"
proof -
  have r': "r' = r\<lparr>rt_balancers := [], rt_rules := []\<rparr>" "res = Err e"
    using assms(1,2,4)
    by (auto simp: ReloadRules_def Let_def reload_balancer_def add_balancer_def act_bind_def)
  have "GetTargetDomain (Session s) = Ok (target_name s)"
    using session_total(1) [OF assms(3)] by (simp add: GetTargetDomain_def)
  then show ?thesis
    using r' by (auto simp: pickRouteInternal_def Let_def GetTargetDomain_def ContextWithDNSClient_def)
qed

definition bad_config :: "nat router_config" where
  "bad_config = sample_config\<lparr>cf_BalancingRule := [\<lparr>br_Tag = ''b'', br_OutboundSelector = [], br_Strategy = ''fastest'',
     br_StrategySettings = Err EOF, br_FallbackTag = ''''\<rparr>]\<rparr>"

theorem failed_reload_empties_table_witness:
  "length (rt_rules (snd (fst sample_table))) = 1 \<and>
   snd (pickRouteInternal (bd_ipset sample_build_env) (dns_of (\<lambda>_. None))
      (snd (fst (ReloadRules sample_build_env (pe_float sample_env) bad_config False (fst sample_table))))
      (Session sample_session) ()) = Err ErrNoClue"
proof -
  let ?R = "ReloadRules sample_build_env (pe_float sample_env) bad_config False (fst sample_table)"
  have ok: "session_ok sample_session" by code_simp
  have run: "ReloadRules sample_build_env (pe_float sample_env) bad_config False (fst (fst sample_table), snd (fst sample_table)) =
      ((fst (fst ?R), snd (fst ?R)), snd ?R)" by simp
  have err: "balancing_Build (pe_float sample_env) (hd (cf_BalancingRule bad_config)) = Err (ErrMsg ''unrecognized balancer type'')"
    by code_simp
  have hd: "cf_BalancingRule bad_config = hd (cf_BalancingRule bad_config) # []" by (simp add: bad_config_def)
  have "snd (pickRouteInternal (bd_ipset sample_build_env) (dns_of (\<lambda>_. None)) (snd (fst ?R)) (Session sample_session) ()) = Err ErrNoClue"
    by (rule failed_reload_empties_table [OF hd err ok run, THEN conjunct2, THEN conjunct2])
  moreover have "length (rt_rules (snd (fst sample_table))) = 1" by (simp add: sample_table_eq)
  ultimately show ?thesis by simp
qed

end
