(* ===== verification/Stats.thy ===== *)
theory Stats
  imports MultiBuffer "HOL-Library.AList"
begin

text \<open>
  Statistics (\<open>app/stats\<close>: \<open>stats.go\<close>, \<open>counter.go\<close>, \<open>online_map.go\<close>, \<open>channel.go\<close>; \<open>features/stats/stats.go\<close>): traffic
  counters, the maps of online addresses and the channels that broadcast messages.  Counters, maps and
  channels are shared by pointer: they live in heaps and the manager's tables hold positions.
\<close>

section \<open>Counters and online maps\<close>

text \<open>A counter is an \<open>int64\<close>: a word, read as a signed number.\<close>

definition counter_Value :: "u64 \<Rightarrow> int" where
  "counter_Value c = sint c"

definition counter_Set :: "int \<Rightarrow> u64 \<Rightarrow> u64 \<times> int" where
  "counter_Set v c = (word_of_int v, sint c)"

definition counter_Add :: "int \<Rightarrow> u64 \<Rightarrow> u64 \<times> int" where
  "counter_Add delta c = (let c' = c + word_of_int delta in (c', sint c'))"

text \<open>Times are in nanoseconds.\<close>

record online_map =
  om_value :: nat
  om_ipList :: "(string \<times> int) list"
  om_lastCleanup :: int
  om_cleanupPeriod :: int

definition NewOnlineMap :: "int \<Rightarrow> online_map" where
  "NewOnlineMap now = \<lparr>om_value = 0, om_ipList = [], om_lastCleanup = now, om_cleanupPeriod = 10000000000\<rparr>"

definition om_Count :: "online_map \<Rightarrow> nat" where
  "om_Count m = om_value m"

definition GetKeys :: "((string \<times> int) list \<Rightarrow> (string \<times> int) list) \<Rightarrow> online_map \<Rightarrow> string list" where
  "GetKeys iterate m = map fst (iterate (om_ipList m))"

definition RemoveExpiredIPs :: "int \<Rightarrow> (string \<times> int) list \<Rightarrow> (string \<times> int) list" where
  "RemoveExpiredIPs now l = filter (\<lambda>(k, t). \<not> now - t > 20000000000) l"

text \<open>\<open>now\<close> is the clock when the address is entered, \<open>later\<close> when the cleanup is done.\<close>

definition AddIP :: "int \<Rightarrow> int \<Rightarrow> string \<Rightarrow> online_map \<Rightarrow> online_map" where
  "AddIP now later ip m =
     (if ip = ''127.0.0.1'' then m
      else
        (let l = (if map_of (om_ipList m) ip = None then AList.update ip now (om_ipList m) else om_ipList m);
             clean = (later - om_lastCleanup m > om_cleanupPeriod m);
             l = (if clean then RemoveExpiredIPs later l else l) in
         m\<lparr>om_lastCleanup := (if clean then later else om_lastCleanup m), om_value := length l, om_ipList := l\<rparr>))"

definition IpTimeMap :: "int \<Rightarrow> online_map \<Rightarrow> online_map \<times> (string \<times> int) list" where
  "IpTimeMap now m =
     (let clean = (now - om_lastCleanup m > om_cleanupPeriod m);
          m = (if clean then m\<lparr>om_ipList := RemoveExpiredIPs now (om_ipList m), om_lastCleanup := now\<rparr> else m) in
      (m, om_ipList m))"

section \<open>Channels\<close>

text \<open>
  A channel: its queue of published messages, the goroutines that wait to publish, the subscribers (each
  with a queue), the goroutines that wait to deliver to a subscriber, and the close signal, which is nil, open or closed.
  \<open>ch_loop\<close> is the goroutine that \<open>Start\<close> began; \<open>ch_stale\<close> counts those of earlier starts that have yet to see their signal
  closed.  The manager makes channels that do not block, and so do we; contexts are not cancelled.
\<close>

datatype close_signal = Sig_nil | Sig_open | Sig_closed

record 'm channel =
  ch_queue :: "'m list"
  ch_publishers :: "'m list"
  ch_subscribers :: "nat list"
  ch_subQueue :: "nat \<Rightarrow> 'm list"
  ch_subClosed :: "nat \<Rightarrow> bool"
  ch_senders :: "(nat \<times> 'm) list"
  ch_signal :: close_signal
  ch_loop :: bool
  ch_stale :: nat
  ch_next :: nat
  ch_bufferSize :: nat
  ch_subsLimit :: nat

definition NewChannel :: "nat \<Rightarrow> nat \<Rightarrow> 'm channel" where
  "NewChannel bufferSize subsLimit =
     \<lparr>ch_queue = [], ch_publishers = [], ch_subscribers = [], ch_subQueue = (\<lambda>_. []), ch_subClosed = (\<lambda>_. False), ch_senders = [],
      ch_signal = Sig_nil, ch_loop = False, ch_stale = 0, ch_next = 0, ch_bufferSize = bufferSize, ch_subsLimit = subsLimit\<rparr>"

definition Running :: "'m channel \<Rightarrow> bool" where
  "Running c \<longleftrightarrow> ch_signal c = Sig_open"

definition Subscribe :: "'m channel \<Rightarrow> 'm channel \<times> nat res" where
  "Subscribe c =
     (if ch_subsLimit c > 0 \<and> length (ch_subscribers c) \<ge> ch_subsLimit c
      then (c, Err (ErrMsg ''Number of subscribers has reached limit''))
      else (c\<lparr>ch_subscribers := ch_subscribers c @ [ch_next c], ch_next := ch_next c + 1\<rparr>, Ok (ch_next c)))"

definition Unsubscribe :: "nat \<Rightarrow> 'm channel \<Rightarrow> 'm channel" where
  "Unsubscribe s c = c\<lparr>ch_subscribers := removeAll s (ch_subscribers c)\<rparr>"

text \<open>
  A publisher puts its message into the queue if there is room; a goroutine waits with it otherwise.
  After the close signal messages are dropped.
\<close>

definition Publish :: "'m \<Rightarrow> 'm channel \<Rightarrow> 'm channel" where
  "Publish msg c =
     (if ch_signal c = Sig_closed then c
      else if length (ch_queue c) < ch_bufferSize c then c\<lparr>ch_queue := ch_queue c @ [msg]\<rparr>
      else c\<lparr>ch_publishers := ch_publishers c @ [msg]\<rparr>)"

definition channel_Start :: "'m channel \<Rightarrow> 'm channel" where
  "channel_Start c =
     (if \<not> Running c
      then c\<lparr>ch_signal := Sig_open, ch_stale := (if ch_loop c then ch_stale c + 1 else ch_stale c), ch_loop := True\<rparr> else c)"

definition channel_Close :: "'m channel \<Rightarrow> 'm channel" where
  "channel_Close c = (if Running c then c\<lparr>ch_signal := Sig_closed\<rparr> else c)"

text \<open>
  Sending on a subscriber's channel: a panic if it is closed, immediate if its queue has room; otherwise a goroutine waits.
\<close>

definition broadcast_to :: "'m \<Rightarrow> nat \<Rightarrow> 'm channel \<Rightarrow> 'm channel res" where
  "broadcast_to msg s c =
     (if ch_subClosed c s then Panic ''send on closed channel''
      else if length (ch_subQueue c s) < ch_bufferSize c
      then Ok (c\<lparr>ch_subQueue := (ch_subQueue c)(s := ch_subQueue c s @ [msg])\<rparr>)
      else Ok (c\<lparr>ch_senders := ch_senders c @ [(s, msg)]\<rparr>))"

fun broadcast_all :: "'m \<Rightarrow> nat list \<Rightarrow> 'm channel \<Rightarrow> 'm channel res" where
  "broadcast_all msg [] c = Ok c"
| "broadcast_all msg (s # ss) c = rbind (broadcast_to msg s c) (broadcast_all msg ss)"

text \<open>The loop of the channel's goroutine: it takes a message, or it sees the close signal and closes the subscribers.\<close>

definition loop_message :: "'m channel \<Rightarrow> 'm channel res option" where
  "loop_message c =
     (if \<not> ch_loop c \<and> ch_stale c = 0 then None
      else (case ch_queue c of
        [] \<Rightarrow> None
      | m # ms \<Rightarrow> Some (broadcast_all m (ch_subscribers c) (c\<lparr>ch_queue := ms\<rparr>))))"

definition close_subscribers :: "'m channel \<Rightarrow> 'm channel" where
  "close_subscribers c =
     c\<lparr>ch_subscribers := [], ch_subClosed := (\<lambda>s. ch_subClosed c s \<or> s \<in> set (ch_subscribers c))\<rparr>"

definition loop_closed :: "'m channel \<Rightarrow> 'm channel option" where
  "loop_closed c =
     (if ch_stale c > 0 then Some (close_subscribers (c\<lparr>ch_stale := ch_stale c - 1\<rparr>))
      else if ch_loop c \<and> ch_signal c = Sig_closed then Some (close_subscribers (c\<lparr>ch_loop := False\<rparr>))
      else None)"

text \<open>A waiting goroutine goes on; a reader takes a message off its channel.\<close>

definition sender_step :: "nat \<Rightarrow> 'm channel \<Rightarrow> 'm channel res option" where
  "sender_step i c =
     (if i \<ge> length (ch_senders c) then None
      else
        (case ch_senders c ! i of (s, m) \<Rightarrow>
           if ch_subClosed c s then Some (Panic ''send on closed channel'')
           else if length (ch_subQueue c s) < ch_bufferSize c then
             Some (Ok (c\<lparr>ch_senders := take i (ch_senders c) @ drop (Suc i) (ch_senders c),
                         ch_subQueue := (ch_subQueue c)(s := ch_subQueue c s @ [m])\<rparr>))
           else None))"

definition publisher_step :: "nat \<Rightarrow> 'm channel \<Rightarrow> 'm channel option" where
  "publisher_step i c =
     (if i < length (ch_publishers c) \<and> length (ch_queue c) < ch_bufferSize c then
        Some (c\<lparr>ch_publishers := take i (ch_publishers c) @ drop (Suc i) (ch_publishers c), ch_queue := ch_queue c @ [ch_publishers c ! i]\<rparr>)
      else None)"

definition reader_takes :: "nat \<Rightarrow> 'm channel \<Rightarrow> 'm channel option" where
  "reader_takes s c =
     (case ch_subQueue c s of [] \<Rightarrow> None | m # ms \<Rightarrow> Some (c\<lparr>ch_subQueue := (ch_subQueue c)(s := ms)\<rparr>))"

section \<open>The manager\<close>

record 'm stats_manager =
  sm_counters :: "(string \<times> nat) list"
  sm_onlineMap :: "(string \<times> nat) list"
  sm_channels :: "(string \<times> nat) list"
  sm_running :: bool
  sm_counterHeap :: "u64 list"
  sm_onlineHeap :: "online_map list"
  sm_channelHeap :: "'m channel list"

definition NewManager :: "'m stats_manager" where
  "NewManager =
     \<lparr>sm_counters = [], sm_onlineMap = [], sm_channels = [], sm_running = False, sm_counterHeap = [], sm_onlineHeap = [], sm_channelHeap = []\<rparr>"

definition RegisterCounter :: "string \<Rightarrow> 'm stats_manager \<Rightarrow> 'm stats_manager \<times> nat res" where
  "RegisterCounter name m =
     (if map_of (sm_counters m) name \<noteq> None then (m, Err (ErrMsg ''Counter already registered.''))
      else
        (let p = length (sm_counterHeap m) in
         (m\<lparr>sm_counters := AList.update name p (sm_counters m), sm_counterHeap := sm_counterHeap m @ [0]\<rparr>, Ok p)))"

definition UnregisterCounter :: "string \<Rightarrow> 'm stats_manager \<Rightarrow> 'm stats_manager" where
  "UnregisterCounter name m = m\<lparr>sm_counters := AList.delete name (sm_counters m)\<rparr>"

definition GetCounter :: "string \<Rightarrow> 'm stats_manager \<Rightarrow> nat option" where
  "GetCounter name m = map_of (sm_counters m) name"

definition GetOrRegisterCounter :: "string \<Rightarrow> 'm stats_manager \<Rightarrow> 'm stats_manager \<times> nat res" where
  "GetOrRegisterCounter name m =
     (case GetCounter name m of Some p \<Rightarrow> (m, Ok p) | None \<Rightarrow> RegisterCounter name m)"

fun visit :: "(string \<times> nat) list \<Rightarrow> (string \<Rightarrow> nat \<Rightarrow> 'v \<Rightarrow> 'v \<times> bool) \<Rightarrow> 'v \<Rightarrow> 'v" where
  "visit [] visitor v = v"
| "visit ((name, c) # cs) visitor v = (case visitor name c v of (v, go) \<Rightarrow> if go then visit cs visitor v else v)"

definition VisitCounters ::
  "((string \<times> nat) list \<Rightarrow> (string \<times> nat) list) \<Rightarrow> (string \<Rightarrow> nat \<Rightarrow> 'v \<Rightarrow> 'v \<times> bool) \<Rightarrow> 'm stats_manager \<Rightarrow> 'v \<Rightarrow> 'v" where
  "VisitCounters iterate visitor m v = visit (iterate (sm_counters m)) visitor v"

definition RegisterOnlineMap :: "int \<Rightarrow> string \<Rightarrow> 'm stats_manager \<Rightarrow> 'm stats_manager \<times> nat res" where
  "RegisterOnlineMap now name m =
     (if map_of (sm_onlineMap m) name \<noteq> None then (m, Err (ErrMsg ''onlineMap already registered.''))
      else
        (let p = length (sm_onlineHeap m) in
         (m\<lparr>sm_onlineMap := AList.update name p (sm_onlineMap m), sm_onlineHeap := sm_onlineHeap m @ [NewOnlineMap now]\<rparr>, Ok p)))"

definition UnregisterOnlineMap :: "string \<Rightarrow> 'm stats_manager \<Rightarrow> 'm stats_manager" where
  "UnregisterOnlineMap name m = m\<lparr>sm_onlineMap := AList.delete name (sm_onlineMap m)\<rparr>"

definition GetOnlineMap :: "string \<Rightarrow> 'm stats_manager \<Rightarrow> nat option" where
  "GetOnlineMap name m = map_of (sm_onlineMap m) name"

definition GetOrRegisterOnlineMap :: "int \<Rightarrow> string \<Rightarrow> 'm stats_manager \<Rightarrow> 'm stats_manager \<times> nat res" where
  "GetOrRegisterOnlineMap now name m =
     (case GetOnlineMap name m of Some p \<Rightarrow> (m, Ok p) | None \<Rightarrow> RegisterOnlineMap now name m)"

definition RegisterChannel :: "string \<Rightarrow> 'm stats_manager \<Rightarrow> 'm stats_manager \<times> nat res" where
  "RegisterChannel name m =
     (if map_of (sm_channels m) name \<noteq> None then (m, Err (ErrMsg ''Channel already registered.''))
      else
        (let p = length (sm_channelHeap m);
             c = NewChannel 64 0 in
         (m\<lparr>sm_channels := AList.update name p (sm_channels m),
            sm_channelHeap := sm_channelHeap m @ [if sm_running m then channel_Start c else c]\<rparr>, Ok p)))"

definition UnregisterChannel :: "string \<Rightarrow> 'm stats_manager \<Rightarrow> 'm stats_manager" where
  "UnregisterChannel name m =
     (case map_of (sm_channels m) name of
        None \<Rightarrow> m
      | Some p \<Rightarrow> m\<lparr>sm_channels := AList.delete name (sm_channels m), sm_channelHeap := (sm_channelHeap m)[p := channel_Close (sm_channelHeap m ! p)]\<rparr>)"

definition GetChannel :: "string \<Rightarrow> 'm stats_manager \<Rightarrow> nat option" where
  "GetChannel name m = map_of (sm_channels m) name"

definition stats_Start :: "'m stats_manager \<Rightarrow> 'm stats_manager" where
  "stats_Start m =
     m\<lparr>sm_running := True,
       sm_channelHeap := foldl (\<lambda>h (name, p). h[p := channel_Start (h ! p)]) (sm_channelHeap m) (sm_channels m)\<rparr>"

definition stats_Close :: "'m stats_manager \<Rightarrow> 'm stats_manager" where
  "stats_Close m =
     m\<lparr>sm_running := False, sm_channels := [],
       sm_channelHeap := foldl (\<lambda>h (name, p). h[p := channel_Close (h ! p)]) (sm_channelHeap m) (sm_channels m)\<rparr>"

section \<open>Traffic is counted\<close>

text \<open>
  What uses the manager does with counters.  A link asks for the counter of a name when it is made; that is two calls, each with the lock
  of the manager for itself: a lookup, and a registration if the lookup found nothing.  A link whose registration fails, because another
  link was faster, stays without a counter, since the error is ignored (\<open>getLink\<close>, \<open>app/dispatcher/default.go\<close>).  A write adds to the
  counter of the link (\<open>SizeStatWriter\<close>, \<open>app/dispatcher/stats.go\<close>), and a query of the API may reset a counter to 0
  (\<open>GetStats\<close>, \<open>app/stats/command/command.go\<close>).  \<open>tf_waiting\<close> are the names of the links that are between their two calls.
  Nothing in the repository unregisters a counter.
\<close>

datatype traffic = Look_up string | Register_at nat | Link_write nat int | Reset_counter string

record 'm traffic_state =
  tf_mgr :: "'m stats_manager"
  tf_waiting :: "string list"
  tf_links :: "(string \<times> nat option) list"

definition add_to_counter :: "nat \<Rightarrow> int \<Rightarrow> 'm stats_manager \<Rightarrow> 'm stats_manager" where
  "add_to_counter p n m = m\<lparr>sm_counterHeap := (sm_counterHeap m)[p := fst (counter_Add n (sm_counterHeap m ! p))]\<rparr>"

definition reset_counter :: "string \<Rightarrow> 'm stats_manager \<Rightarrow> 'm stats_manager" where
  "reset_counter name m =
     (case GetCounter name m of
        None \<Rightarrow> m
      | Some p \<Rightarrow> m\<lparr>sm_counterHeap := (sm_counterHeap m)[p := fst (counter_Set 0 (sm_counterHeap m ! p))]\<rparr>)"

definition remove_at :: "nat \<Rightarrow> 'a list \<Rightarrow> 'a list" where
  "remove_at i xs = take i xs @ drop (Suc i) xs"

fun traffic_step :: "traffic \<Rightarrow> 'm traffic_state \<Rightarrow> 'm traffic_state" where
  "traffic_step (Look_up name) s =
     (case GetCounter name (tf_mgr s) of
        Some p \<Rightarrow> s\<lparr>tf_links := tf_links s @ [(name, Some p)]\<rparr>
      | None \<Rightarrow> s\<lparr>tf_waiting := tf_waiting s @ [name]\<rparr>)"
| "traffic_step (Register_at i) s =
     (if i < length (tf_waiting s) then
        (let name = tf_waiting s ! i in
         case RegisterCounter name (tf_mgr s) of (m, r) \<Rightarrow>
           s\<lparr>tf_mgr := m, tf_waiting := remove_at i (tf_waiting s),
             tf_links := tf_links s @ [(name, case r of Ok p \<Rightarrow> Some p | _ \<Rightarrow> None)]\<rparr>)
      else s)"
| "traffic_step (Link_write i n) s =
     (if i < length (tf_links s) then
        (case snd (tf_links s ! i) of None \<Rightarrow> s | Some p \<Rightarrow> s\<lparr>tf_mgr := add_to_counter p n (tf_mgr s)\<rparr>)
      else s)"
| "traffic_step (Reset_counter name) s = s\<lparr>tf_mgr := reset_counter name (tf_mgr s)\<rparr>"

definition traffic_run :: "traffic list \<Rightarrow> 'm traffic_state" where
  "traffic_run ts = fold traffic_step ts \<lparr>tf_mgr = NewManager, tf_waiting = [], tf_links = []\<rparr>"

text \<open>
  The specification knows no counters: the names in use, the links between their calls, for every link its name and whether it is
  counted, and the amount that was written on the counted links of one name since the last reset.
\<close>

record tally =
  ta_names :: "string list"
  ta_waiting :: "string list"
  ta_links :: "(string \<times> bool) list"
  ta_sum :: int

fun tally_step :: "string \<Rightarrow> traffic \<Rightarrow> tally \<Rightarrow> tally" where
  "tally_step name (Look_up n) t =
     (if n \<in> set (ta_names t) then t\<lparr>ta_links := ta_links t @ [(n, True)]\<rparr> else t\<lparr>ta_waiting := ta_waiting t @ [n]\<rparr>)"
| "tally_step name (Register_at i) t =
     (if i < length (ta_waiting t) then
        (let n = ta_waiting t ! i in
         t\<lparr>ta_names := n # ta_names t, ta_waiting := remove_at i (ta_waiting t), ta_links := ta_links t @ [(n, n \<notin> set (ta_names t))]\<rparr>)
      else t)"
| "tally_step name (Link_write i k) t =
     (if i < length (ta_links t) \<and> ta_links t ! i = (name, True) then t\<lparr>ta_sum := ta_sum t + k\<rparr> else t)"
| "tally_step name (Reset_counter n) t = (if n = name then t\<lparr>ta_sum := 0\<rparr> else t)"

definition tally_of :: "string \<Rightarrow> traffic list \<Rightarrow> tally" where
  "tally_of name ts = fold (tally_step name) ts \<lparr>ta_names = [], ta_waiting = [], ta_links = [], ta_sum = 0\<rparr>"

definition counters_ok :: "'m stats_manager \<Rightarrow> bool" where
  "counters_ok m \<longleftrightarrow> distinct (map fst (sm_counters m)) \<and> distinct (map snd (sm_counters m)) \<and>
     list_all (\<lambda>(n, p). p < length (sm_counterHeap m)) (sm_counters m)"

definition links_ok :: "'m stats_manager \<Rightarrow> (string \<times> nat option) list \<Rightarrow> bool" where
  "links_ok m links \<longleftrightarrow> list_all (\<lambda>(n, p). p \<noteq> None \<longrightarrow> map_of (sm_counters m) n = p) links"

definition counter_of :: "string \<Rightarrow> 'm stats_manager \<Rightarrow> u64" where
  "counter_of name m = (case GetCounter name m of None \<Rightarrow> 0 | Some p \<Rightarrow> sm_counterHeap m ! p)"

lemma counters_ok_bound: "counters_ok m \<Longrightarrow> map_of (sm_counters m) n = Some p \<Longrightarrow> p < length (sm_counterHeap m)"
  by (auto simp: counters_ok_def list_all_iff dest: map_of_SomeD)

lemma counters_ok_inj:
  assumes "counters_ok m" and "map_of (sm_counters m) n = Some p" and "map_of (sm_counters m) n' = Some p"
  shows "n = n'"
proof -
  have "(n, p) \<in> set (sm_counters m)" "(n', p) \<in> set (sm_counters m)" using assms(2,3) by (auto dest: map_of_SomeD)
  moreover have "inj_on snd (set (sm_counters m))" using assms(1) by (simp add: counters_ok_def distinct_map)
  ultimately show ?thesis by (metis inj_onD prod.inject snd_conv)
qed

lemma update_fresh: "map_of xs k = None \<Longrightarrow> AList.update k v xs = xs @ [(k, v)]"
  by (induction xs) (auto split: if_splits)

lemma RegisterCounter_fresh:
  assumes "counters_ok m" and "map_of (sm_counters m) name = None"
  shows "\<exists>m'. RegisterCounter name m = (m', Ok (length (sm_counterHeap m))) \<and> counters_ok m' \<and>
    (\<forall>n. map_of (sm_counters m') n = (if n = name then Some (length (sm_counterHeap m)) else map_of (sm_counters m) n)) \<and>
    (\<forall>n. counter_of n m' = counter_of n m)"
proof -
  let ?m' = "m\<lparr>sm_counters := sm_counters m @ [(name, length (sm_counterHeap m))], sm_counterHeap := sm_counterHeap m @ [0]\<rparr>"
  have r: "RegisterCounter name m = (?m', Ok (length (sm_counterHeap m)))"
    using assms(2) by (simp add: RegisterCounter_def Let_def update_fresh)
  have "name \<notin> fst ` set (sm_counters m)" using assms(2) by (auto simp: map_of_eq_None_iff)
  then have ok: "counters_ok ?m'" using assms(1) by (auto simp: counters_ok_def list_all_iff)
  have mo: "map_of (sm_counters ?m') n = (if n = name then Some (length (sm_counterHeap m)) else map_of (sm_counters m) n)" for n
    using assms(2) by (auto simp: map_add_def split: option.splits)
  have "counter_of n ?m' = counter_of n m" for n
    using assms(2) mo [of n] counters_ok_bound [OF assms(1), of n]
    by (cases "n = name") (auto simp: counter_of_def GetCounter_def nth_append split: option.splits)
  with r ok mo show ?thesis by blast
qed

lemma add_counter_of:
  assumes "counters_ok m" and "GetCounter name m = Some p"
  shows "counter_of n (add_to_counter p k m) = counter_of n m + (if name = n then word_of_int k else 0)"
proof (cases "map_of (sm_counters m) n")
  case None
  then show ?thesis using assms(2) by (auto simp: counter_of_def GetCounter_def add_to_counter_def)
next
  case (Some q)
  have p: "map_of (sm_counters m) name = Some p" using assms(2) by (simp add: GetCounter_def)
  then have "q = p \<longleftrightarrow> name = n" using Some counters_ok_inj [OF assms(1) p, of n] by auto
  then show ?thesis using counters_ok_bound [OF assms(1) p] Some
    by (cases "name = n") (auto simp: counter_of_def GetCounter_def add_to_counter_def counter_Add_def Let_def)
qed

lemma reset_counter_of:
  assumes "counters_ok m"
  shows "counter_of n (reset_counter name m) = (if name = n then 0 else counter_of n m)"
proof (cases "map_of (sm_counters m) name")
  case None
  then show ?thesis by (auto simp: reset_counter_def counter_of_def GetCounter_def)
next
  case (Some p)
  show ?thesis
  proof (cases "map_of (sm_counters m) n")
    case None
    then show ?thesis using Some by (auto simp: reset_counter_def counter_of_def GetCounter_def)
  next
    fix q
    assume q: "map_of (sm_counters m) n = Some q"
    then have "q = p \<longleftrightarrow> name = n" using Some counters_ok_inj [OF assms Some, of n] by auto
    then show ?thesis using counters_ok_bound [OF assms Some] q Some
      by (cases "name = n") (auto simp: counter_of_def GetCounter_def reset_counter_def counter_Set_def)
  qed
qed

text \<open>The simulation.\<close>

definition tallies :: "string \<Rightarrow> 'm traffic_state \<Rightarrow> tally \<Rightarrow> bool" where
  "tallies name s t \<longleftrightarrow> counters_ok (tf_mgr s) \<and> links_ok (tf_mgr s) (tf_links s) \<and>
     (\<forall>n. n \<in> set (ta_names t) \<longleftrightarrow> GetCounter n (tf_mgr s) \<noteq> None) \<and> ta_waiting t = tf_waiting s \<and>
     ta_links t = map (\<lambda>(n, p). (n, p \<noteq> None)) (tf_links s) \<and> counter_of name (tf_mgr s) = word_of_int (ta_sum t)"

lemma tallies_step:
  assumes "tallies name s t"
  shows "tallies name (traffic_step e s) (tally_step name e t)"
proof (cases e)
  case (Look_up n)
  then show ?thesis using assms by (auto simp: tallies_def links_ok_def GetCounter_def split: option.splits)
next
  case (Register_at i)
  show ?thesis
  proof (cases "i < length (tf_waiting s) \<and> map_of (sm_counters (tf_mgr s)) (tf_waiting s ! i) = None")
    case True
    have "counters_ok (tf_mgr s)" using assms by (simp add: tallies_def)
    from RegisterCounter_fresh [OF this] True obtain m' where
      r: "RegisterCounter (tf_waiting s ! i) (tf_mgr s) = (m', Ok (length (sm_counterHeap (tf_mgr s))))" "counters_ok m'"
      "\<And>n. map_of (sm_counters m') n = (if n = tf_waiting s ! i then Some (length (sm_counterHeap (tf_mgr s))) else map_of (sm_counters (tf_mgr s)) n)"
      "\<And>n. counter_of n m' = counter_of n (tf_mgr s)" by blast
    have "links_ok m' (tf_links s)" using assms True by (fastforce simp: tallies_def links_ok_def list_all_iff r(3))
    then show ?thesis using assms True r(1,2,4) by (auto simp: Register_at tallies_def GetCounter_def r(3) links_ok_def Let_def)
  next
    case False
    then show ?thesis using assms by (auto simp: Register_at tallies_def GetCounter_def RegisterCounter_def links_ok_def Let_def)
  qed
next
  case (Link_write i k)
  show ?thesis
  proof (cases "i < length (tf_links s) \<and> snd (tf_links s ! i) \<noteq> None")
    case True
    then obtain n p where l: "tf_links s ! i = (n, Some p)" by (cases "tf_links s ! i") auto
    have "tf_links s ! i \<in> set (tf_links s)" using True by simp
    then have p: "GetCounter n (tf_mgr s) = Some p" using assms by (fastforce simp: l tallies_def links_ok_def list_all_iff GetCounter_def)
    have ok: "counters_ok (tf_mgr s)" using assms by (simp add: tallies_def)
    have [simp]: "sm_counters (add_to_counter p k m) = sm_counters m" "length (sm_counterHeap (add_to_counter p k m)) = length (sm_counterHeap m)" for m :: "'a stats_manager"
      by (simp_all add: add_to_counter_def)
    show ?thesis using assms True l add_counter_of [OF ok p, of name k]
      by (auto simp: Link_write tallies_def counters_ok_def links_ok_def GetCounter_def)
  next
    case False
    then show ?thesis using assms by (auto simp: Link_write tallies_def split: prod.splits)
  qed
next
  case (Reset_counter n)
  have ok: "counters_ok (tf_mgr s)" using assms by (simp add: tallies_def)
  have [simp]: "sm_counters (reset_counter n m) = sm_counters m" "length (sm_counterHeap (reset_counter n m)) = length (sm_counterHeap m)" for m :: "'a stats_manager"
    by (simp_all add: reset_counter_def split: option.splits)
  show ?thesis using assms reset_counter_of [OF ok, of name n]
    by (auto simp: Reset_counter tallies_def counters_ok_def links_ok_def GetCounter_def)
qed

lemma tallies_run: "tallies name (traffic_run ts :: 'm traffic_state) (tally_of name ts)"
proof -
  have "tallies name s t \<Longrightarrow> tallies name (fold traffic_step ts s) (fold (tally_step name) ts t)" for s :: "'m traffic_state" and t
    by (induction ts arbitrary: s t) (simp_all add: tallies_step)
  moreover have "tallies name \<lparr>tf_mgr = NewManager, tf_waiting = [], tf_links = []\<rparr> \<lparr>ta_names = [], ta_waiting = [], ta_links = [], ta_sum = 0\<rparr>"
    by (simp add: tallies_def NewManager_def counters_ok_def links_ok_def GetCounter_def counter_of_def)
  ultimately show ?thesis by (simp add: traffic_run_def tally_of_def)
qed

lemma set_remove_at: "set (remove_at i xs) \<subseteq> set xs"
  by (auto simp: remove_at_def dest: in_set_takeD in_set_dropD)

lemma not_in_remove_at:
  assumes "distinct xs" and "i < length xs"
  shows "xs ! i \<notin> set (remove_at i xs)"
proof -
  have "distinct (take i xs @ xs ! i # drop (Suc i) xs)" using assms id_take_nth_drop [OF assms(2)] by simp
  then show ?thesis by (simp add: remove_at_def)
qed

text \<open>A link is left uncounted only where two links of one name were between their calls at the same time.\<close>

lemma tally_all_counted:
  assumes "\<forall>k \<le> length ts. distinct (ta_waiting (tally_of name (take k ts)))"
  shows "list_all snd (ta_links (tally_of name ts)) \<and> set (ta_waiting (tally_of name ts)) \<inter> set (ta_names (tally_of name ts)) = {}"
  using assms
proof (induction ts rule: rev_induct)
  case (snoc e ts)
  let ?t = "tally_of name ts"
  have "distinct (ta_waiting (tally_of name (take k ts)))" if "k \<le> length ts" for k
    using snoc.prems [rule_format, of k] that by simp
  with snoc.IH have ih: "list_all snd (ta_links ?t)" "set (ta_waiting ?t) \<inter> set (ta_names ?t) = {}" by blast+
  have d: "distinct (ta_waiting ?t)" using snoc.prems [rule_format, of "length ts"] by simp
  have s: "tally_of name (ts @ [e]) = tally_step name e ?t" by (simp add: tally_of_def)
  show ?case
  proof (cases e)
    case (Register_at i)
    moreover have "i < length (ta_waiting ?t) \<Longrightarrow> ta_waiting ?t ! i \<notin> set (ta_names ?t)" using ih(2) nth_mem [of i "ta_waiting ?t"] by blast
    ultimately show ?thesis using ih set_remove_at [of i "ta_waiting ?t"] not_in_remove_at [OF d, of i]
      by (auto simp: s [unfolded Register_at] Let_def)
  next
    case (Look_up n)
    then show ?thesis using ih by (auto simp: s [unfolded Look_up])
  next
    case (Link_write i k)
    then show ?thesis using ih by (auto simp: s [unfolded Link_write])
  next
    case (Reset_counter n)
    then show ?thesis using ih by (auto simp: s [unfolded Reset_counter])
  qed
qed (simp add: tally_of_def)

text \<open>
  C22. Traffic is counted: after any interleaving of the lookups, registrations, writes and resets of links, the counter of a name is what
  was written since its last reset on the counted links of the name, as long as that fits into 63 bits; links of other names do not touch it.  All links
  are counted, if never two links of one name are between their lookup and their registration.
\<close>

theorem traffic_counted:
  assumes "0 \<le> ta_sum (tally_of name ts)" and "ta_sum (tally_of name ts) < 2 ^ 63"
  shows "counter_Value (counter_of name (tf_mgr (traffic_run ts :: 'm traffic_state))) = ta_sum (tally_of name ts) \<and>
    map (\<lambda>(n, p). (n, p \<noteq> None)) (tf_links (traffic_run ts :: 'm traffic_state)) = ta_links (tally_of name ts) \<and>
    ((\<forall>k \<le> length ts. distinct (tf_waiting (traffic_run (take k ts) :: 'm traffic_state))) \<longrightarrow>
      list_all (\<lambda>(n, p). p \<noteq> None) (tf_links (traffic_run ts :: 'm traffic_state)))"
proof -
  have "sint (word_of_int k :: u64) = k" if "0 \<le> k" "k < 2 ^ 63" for k
    using that by (simp add: signed_of_int signed_take_bit_int_eq_self)
  then have 1: "counter_Value (counter_of name (tf_mgr (traffic_run ts :: 'm traffic_state))) = ta_sum (tally_of name ts)"
    using tallies_run [of name ts, where 'm = 'm] assms by (simp only: tallies_def counter_Value_def)
  have 2: "ta_links (tally_of name ts) = map (\<lambda>(n, p). (n, p \<noteq> None)) (tf_links (traffic_run ts :: 'm traffic_state))"
    using tallies_run [of name ts, where 'm = 'm] by (simp add: tallies_def)
  have "ta_waiting (tally_of name us) = tf_waiting (traffic_run us :: 'm traffic_state)" for us
    using tallies_run [of name us, where 'm = 'm] by (simp add: tallies_def)
  then have "(\<forall>k \<le> length ts. distinct (tf_waiting (traffic_run (take k ts) :: 'm traffic_state))) \<longrightarrow> list_all snd (ta_links (tally_of name ts))"
    using tally_all_counted [of ts name] by simp
  then have "(\<forall>k \<le> length ts. distinct (tf_waiting (traffic_run (take k ts) :: 'm traffic_state))) \<longrightarrow>
      list_all (\<lambda>(n, p). p \<noteq> None) (tf_links (traffic_run ts :: 'm traffic_state))" by (simp only: 2 list_all_iff) fastforce
  with 1 2 show ?thesis by simp
qed

theorem traffic_counted_witness:
  "counter_Value (counter_of ''a'' (tf_mgr (traffic_run
     [Look_up ''a'', Register_at 0, Link_write 0 5, Look_up ''b'', Look_up ''a'', Register_at 0, Reset_counter ''a'', Link_write 1 7, Link_write 2 9] :: nat traffic_state))) = 7"
  using traffic_counted [where ?'m = nat, of "''a''" "[Look_up ''a'', Register_at 0, Link_write 0 5, Look_up ''b'', Look_up ''a'', Register_at 0, Reset_counter ''a'', Link_write 1 7, Link_write 2 9]"]
  by (simp add: tally_of_def remove_at_def Let_def)

text \<open>
  Two links of one name that look it up at the same time: the one that registers second gets an error, which the dispatcher ignores, and nothing
  that is written on it is ever counted.
\<close>

theorem traffic_race_uncounted:
  "tf_links (traffic_run (Look_up name # Look_up name # Register_at 0 # Register_at 0 # map (Link_write 1) ks) :: 'm traffic_state) = [(name, Some 0), (name, None)] \<and>
   counter_of name (tf_mgr (traffic_run (Look_up name # Look_up name # Register_at 0 # Register_at 0 # map (Link_write 1) ks) :: 'm traffic_state)) = 0"
proof -
  let ?s = "\<lparr>tf_mgr = NewManager\<lparr>sm_counters := [(name, 0)], sm_counterHeap := [0]\<rparr>, tf_waiting = [], tf_links = [(name, Some 0), (name, None)]\<rparr> :: 'm traffic_state"
  have "traffic_run [Look_up name, Look_up name, Register_at 0, Register_at 0] = ?s"
    by (simp add: traffic_run_def GetCounter_def NewManager_def RegisterCounter_def remove_at_def)
  moreover have "fold traffic_step (map (Link_write 1) ks) ?s = ?s" by (induction ks) simp_all
  ultimately have "traffic_run (Look_up name # Look_up name # Register_at 0 # Register_at 0 # map (Link_write 1) ks) = ?s"
    by (simp add: traffic_run_def)
  then show ?thesis by (simp add: counter_of_def GetCounter_def)
qed

section \<open>Online addresses and channels\<close>

text \<open>
  An address that is in use is dropped from the online map: entering an address that is already there does not
  renew its time, and the cleanup of the very same call removes it.
\<close>

theorem online_address_dropped:
  assumes "distinct (map fst (om_ipList m))" and "map_of (om_ipList m) ip = Some t" and "20000000000 < later - t"
    and "om_cleanupPeriod m < later - om_lastCleanup m" and "ip \<noteq> ''127.0.0.1''"
  shows "map_of (om_ipList (AddIP now later ip m)) ip = None"
proof -
  have "(ip, t') \<in> set (om_ipList m) \<Longrightarrow> t' = t" for t' using assms(1,2) by (simp add: map_of_is_SomeI)
  then show ?thesis using assms(2-5) by (auto simp: AddIP_def RemoveExpiredIPs_def Let_def map_of_eq_None_iff)
qed

theorem online_address_dropped_witness:
  "map_of (om_ipList (AddIP 30000000000 30000000000 ''1.2.3.4'' (AddIP 1 1 ''1.2.3.4'' (NewOnlineMap 0)))) ''1.2.3.4'' = None"
  using online_address_dropped [of "AddIP 1 1 ''1.2.3.4'' (NewOnlineMap 0)" "''1.2.3.4''" 1 30000000000 30000000000]
  by (simp add: AddIP_def NewOnlineMap_def Let_def)

text \<open>
  Closing a channel while a message waits for a slow subscriber makes the program panic: the loop closes the
  subscriber's channel and the waiting goroutine sends on it.
\<close>

theorem channel_close_panics:
  assumes "ch_loop c" and "ch_stale c = 0" and "Running c" and "(s, msg) \<in> set (ch_senders c)" and "s \<in> set (ch_subscribers c)"
  shows "\<exists>c' i. loop_closed (channel_Close c) = Some c' \<and> sender_step i c' = Some (Panic ''send on closed channel'')"
proof -
  obtain i where i: "i < length (ch_senders c)" "ch_senders c ! i = (s, msg)" using assms(4) by (auto simp: in_set_conv_nth)
  then show ?thesis using assms
    by (auto simp: loop_closed_def channel_Close_def close_subscribers_def sender_step_def intro!: exI [of _ i])
qed

definition full_channel :: "nat channel" where
  "full_channel =
     (let c = channel_Start (fst (Subscribe (NewChannel 1 0)));
          step = (\<lambda>c. case loop_message c of Some (Ok c) \<Rightarrow> c | _ \<Rightarrow> c) in
      step (Publish 2 (step (Publish 1 c))))"

theorem channel_close_panics_witness:
  "\<exists>c' i. loop_closed (channel_Close full_channel) = Some c' \<and> sender_step i c' = Some (Panic ''send on closed channel'')"
proof -
  have "ch_loop full_channel" "ch_stale full_channel = 0" "Running full_channel" "(0, 2) \<in> set (ch_senders full_channel)"
      "0 \<in> set (ch_subscribers full_channel)"
    by (simp_all add: full_channel_def Let_def channel_Start_def Subscribe_def NewChannel_def Running_def Publish_def loop_message_def
        broadcast_to_def)
  then show ?thesis by (rule channel_close_panics)
qed

end
