(* ===== verification/Policy.thy ===== *)
theory Policy
  imports NetAddr "HOL-Library.AList"
begin

text \<open>
  Policies (\<open>features/policy\<close>, \<open>app/policy\<close>): timeouts, statistics and buffer sizes for user levels.  Durations are in
  nanoseconds; the messages of the configuration have pointers that may be nil.
\<close>

section \<open>Session policies (features/policy)\<close>

record timeout =
  to_Handshake :: int
  to_ConnectionIdle :: int
  to_UplinkOnly :: int
  to_DownlinkOnly :: int

record stats_policy =
  sp_UserUplink :: bool
  sp_UserDownlink :: bool
  sp_UserOnline :: bool

record session_policy =
  pl_Timeouts :: timeout
  pl_Stats :: stats_policy
  pl_Buffer :: int

record system_policy =
  sy_InboundUplink :: bool
  sy_InboundDownlink :: bool
  sy_OutboundUplink :: bool
  sy_OutboundDownlink :: bool

definition second :: int where "second = 1000000000"

text \<open>
  The buffer size that the package computes when it is loaded, from the environment variable (\<open>-17\<close> if it is not set) and
  the architecture.
\<close>

definition defaultBufferSize :: "int \<Rightarrow> string \<Rightarrow> int" where
  "defaultBufferSize sz arch =
     (if sz = 0 then -1
      else if sz = -17 then
        (if arch \<in> {''arm'', ''mips'', ''mipsle''} then 0
         else if arch \<in> {''arm64'', ''mips64'', ''mips64le''} then 4 * 1024
         else 512 * 1024)
      else i32 (i32 (i32 sz * 1024) * 1024))"

definition SessionDefault :: "int \<Rightarrow> session_policy" where
  "SessionDefault bufferSize =
     \<lparr>pl_Timeouts = \<lparr>to_Handshake = second * 60, to_ConnectionIdle = second * 300, to_UplinkOnly = second * 1, to_DownlinkOnly = second * 1\<rparr>,
      pl_Stats = \<lparr>sp_UserUplink = False, sp_UserDownlink = False, sp_UserOnline = False\<rparr>,
      pl_Buffer = bufferSize\<rparr>"

definition no_system :: system_policy where
  "no_system = \<lparr>sy_InboundUplink = False, sy_InboundDownlink = False, sy_OutboundUplink = False, sy_OutboundDownlink = False\<rparr>"

text \<open>The manager that is used when none is configured.\<close>

definition default_ForLevel :: "int \<Rightarrow> u32 \<Rightarrow> session_policy" where
  "default_ForLevel bufferSize level =
     (let p = SessionDefault bufferSize in
      if level = 1 then p\<lparr>pl_Timeouts := (pl_Timeouts p)\<lparr>to_ConnectionIdle := second * 600\<rparr>\<rparr> else p)"

section \<open>Configured policies (app/policy)\<close>

record timeout_config =
  tc_Handshake :: "u32 option"
  tc_ConnectionIdle :: "u32 option"
  tc_UplinkOnly :: "u32 option"
  tc_DownlinkOnly :: "u32 option"

record policy_config =
  pc_Timeout :: "timeout_config option"
  pc_Stats :: "stats_policy option"
  pc_Buffer :: "int option"

definition Duration :: "u32 option \<Rightarrow> int" where
  "Duration s = (case s of None \<Rightarrow> 0 | Some v \<Rightarrow> second * uint v)"

definition defaultPolicy :: "int \<Rightarrow> policy_config" where
  "defaultPolicy bufferSize =
     (let p = SessionDefault bufferSize; t = pl_Timeouts p; sec = (\<lambda>d. Some (word_of_int (d div second))) in
      \<lparr>pc_Timeout = Some \<lparr>tc_Handshake = sec (to_Handshake t), tc_ConnectionIdle = sec (to_ConnectionIdle t),
         tc_UplinkOnly = sec (to_UplinkOnly t), tc_DownlinkOnly = sec (to_DownlinkOnly t)\<rparr>,
       pc_Stats = None, pc_Buffer = Some (pl_Buffer p)\<rparr>)"

definition or_else :: "'a option \<Rightarrow> 'a option \<Rightarrow> 'a option" where
  "or_else a b = (case a of None \<Rightarrow> b | Some x \<Rightarrow> Some x)"

definition timeout_overrideWith :: "timeout_config \<Rightarrow> timeout_config \<Rightarrow> timeout_config" where
  "timeout_overrideWith p another =
     \<lparr>tc_Handshake = or_else (tc_Handshake another) (tc_Handshake p),
      tc_ConnectionIdle = or_else (tc_ConnectionIdle another) (tc_ConnectionIdle p),
      tc_UplinkOnly = or_else (tc_UplinkOnly another) (tc_UplinkOnly p),
      tc_DownlinkOnly = or_else (tc_DownlinkOnly another) (tc_DownlinkOnly p)\<rparr>"

definition overrideWith :: "policy_config \<Rightarrow> policy_config \<Rightarrow> policy_config res" where
  "overrideWith p another =
     rmap (\<lambda>t. p\<lparr>pc_Timeout := t,
        pc_Stats := (if pc_Stats another \<noteq> None \<and> pc_Stats p = None then pc_Stats another else pc_Stats p),
        pc_Buffer := or_else (pc_Buffer another) (pc_Buffer p)\<rparr>)
       (case (pc_Timeout p, pc_Timeout another) of
          (t, None) \<Rightarrow> Ok t
        | (Some t, Some a) \<Rightarrow> Ok (Some (timeout_overrideWith t a))
        | (None, Some a) \<Rightarrow> nil_deref)"

definition ToCorePolicy :: "int \<Rightarrow> policy_config \<Rightarrow> session_policy" where
  "ToCorePolicy bufferSize p =
     (let cp = SessionDefault bufferSize;
          cp = (case pc_Timeout p of None \<Rightarrow> cp
            | Some t \<Rightarrow> cp\<lparr>pl_Timeouts := \<lparr>to_Handshake = Duration (tc_Handshake t), to_ConnectionIdle = Duration (tc_ConnectionIdle t),
                to_UplinkOnly = Duration (tc_UplinkOnly t), to_DownlinkOnly = Duration (tc_DownlinkOnly t)\<rparr>\<rparr>);
          cp = (case pc_Stats p of None \<Rightarrow> cp | Some s \<Rightarrow> cp\<lparr>pl_Stats := s\<rparr>);
          cp = (case pc_Buffer p of None \<Rightarrow> cp | Some b \<Rightarrow> cp\<lparr>pl_Buffer := b\<rparr>) in
      cp)"

text \<open>A system policy whose statistics are nil is a nil dereference.\<close>

definition system_ToCorePolicy :: "system_policy option \<Rightarrow> system_policy res" where
  "system_ToCorePolicy stats = (case stats of None \<Rightarrow> nil_deref | Some s \<Rightarrow> Ok s)"

record policy_instance =
  pi_levels :: "(u32 \<times> policy_config) list"
  pi_system :: "system_policy option option"

fun build_levels :: "int \<Rightarrow> (u32 \<times> policy_config) list \<Rightarrow> (u32 \<times> policy_config) list \<Rightarrow> (u32 \<times> policy_config) list res" where
  "build_levels bufferSize [] m = Ok m"
| "build_levels bufferSize ((lv, p) # ps) m =
     rbind (overrideWith (defaultPolicy bufferSize) p) (\<lambda>pp. build_levels bufferSize ps (AList.update lv pp m))"

definition policy_New :: "int \<Rightarrow> (u32 \<times> policy_config) list \<Rightarrow> system_policy option option \<Rightarrow> policy_instance res" where
  "policy_New bufferSize level system =
     rmap (\<lambda>ls. \<lparr>pi_levels = ls, pi_system = system\<rparr>) (build_levels bufferSize level [])"

definition ForLevel :: "int \<Rightarrow> policy_instance \<Rightarrow> u32 \<Rightarrow> session_policy" where
  "ForLevel bufferSize m level =
     (case map_of (pi_levels m) level of Some p \<Rightarrow> ToCorePolicy bufferSize p | None \<Rightarrow> SessionDefault bufferSize)"

definition ForSystem :: "policy_instance \<Rightarrow> system_policy res" where
  "ForSystem m = (case pi_system m of None \<Rightarrow> Ok no_system | Some s \<Rightarrow> system_ToCorePolicy s)"

section \<open>What a level gets\<close>

text \<open>The specification: every setting of the level's entry, and the default for the settings it does not make.\<close>

definition setting :: "'a \<Rightarrow> 'a option \<Rightarrow> 'a" where
  "setting d s = (case s of None \<Rightarrow> d | Some x \<Rightarrow> x)"

definition seconds :: "int \<Rightarrow> (timeout_config \<Rightarrow> u32 option) \<Rightarrow> policy_config \<Rightarrow> int" where
  "seconds d f p = (case pc_Timeout p of None \<Rightarrow> second * d | Some t \<Rightarrow> (case f t of None \<Rightarrow> second * d | Some v \<Rightarrow> second * uint v))"

definition level_policy :: "int \<Rightarrow> policy_config \<Rightarrow> session_policy" where
  "level_policy bufferSize p =
     \<lparr>pl_Timeouts = \<lparr>to_Handshake = seconds 60 tc_Handshake p, to_ConnectionIdle = seconds 300 tc_ConnectionIdle p,
        to_UplinkOnly = seconds 1 tc_UplinkOnly p, to_DownlinkOnly = seconds 1 tc_DownlinkOnly p\<rparr>,
      pl_Stats = setting \<lparr>sp_UserUplink = False, sp_UserDownlink = False, sp_UserOnline = False\<rparr> (pc_Stats p),
      pl_Buffer = setting bufferSize (pc_Buffer p)\<rparr>"

lemma ToCorePolicy_full:
  "ToCorePolicy bufferSize \<lparr>pc_Timeout = Some t, pc_Stats = s, pc_Buffer = Some b\<rparr> =
     \<lparr>pl_Timeouts = \<lparr>to_Handshake = Duration (tc_Handshake t), to_ConnectionIdle = Duration (tc_ConnectionIdle t),
        to_UplinkOnly = Duration (tc_UplinkOnly t), to_DownlinkOnly = Duration (tc_DownlinkOnly t)\<rparr>,
      pl_Stats = setting \<lparr>sp_UserUplink = False, sp_UserDownlink = False, sp_UserOnline = False\<rparr> s, pl_Buffer = b\<rparr>"
  by (cases s) (simp_all add: ToCorePolicy_def SessionDefault_def Let_def setting_def)

definition default_timeout :: timeout_config where
  "default_timeout = \<lparr>tc_Handshake = Some 60, tc_ConnectionIdle = Some 300, tc_UplinkOnly = Some 1, tc_DownlinkOnly = Some 1\<rparr>"

lemma overrideWith_full:
  "overrideWith (defaultPolicy bufferSize) p =
     Ok \<lparr>pc_Timeout = Some (case pc_Timeout p of None \<Rightarrow> default_timeout | Some a \<Rightarrow> timeout_overrideWith default_timeout a),
         pc_Stats = pc_Stats p, pc_Buffer = Some (setting bufferSize (pc_Buffer p))\<rparr>"
proof -
  have "defaultPolicy bufferSize = \<lparr>pc_Timeout = Some default_timeout, pc_Stats = None, pc_Buffer = Some bufferSize\<rparr>"
    by (simp add: defaultPolicy_def SessionDefault_def Let_def second_def default_timeout_def)
  then show ?thesis
    by (cases "pc_Timeout p"; cases "pc_Stats p"; cases "pc_Buffer p") (simp_all add: overrideWith_def or_else_def setting_def)
qed

lemma overrideWith_level:
  "\<exists>pp. overrideWith (defaultPolicy bufferSize) p = Ok pp \<and> ToCorePolicy bufferSize pp = level_policy bufferSize p"
proof -
  have d: "Duration (or_else x (Some 60)) = (case x of None \<Rightarrow> second * 60 | Some v \<Rightarrow> second * uint v)"
    "Duration (or_else x (Some 300)) = (case x of None \<Rightarrow> second * 300 | Some v \<Rightarrow> second * uint v)"
    "Duration (or_else x (Some 1)) = (case x of None \<Rightarrow> second * 1 | Some v \<Rightarrow> second * uint v)" for x
    by (cases x; simp add: Duration_def or_else_def)+
  show ?thesis
    by (cases "pc_Timeout p")
      (simp_all add: overrideWith_full ToCorePolicy_full level_policy_def seconds_def d timeout_overrideWith_def default_timeout_def
        d [where x = None, unfolded or_else_def, simplified])
qed

lemma build_levels_result:
  "\<exists>ls. build_levels bufferSize ps m = Ok ls \<and>
     (\<forall>lv. map_option (ToCorePolicy bufferSize) (map_of ls lv) =
       (case map_of (rev ps) lv of Some p \<Rightarrow> Some (level_policy bufferSize p)
        | None \<Rightarrow> map_option (ToCorePolicy bufferSize) (map_of m lv)))"
proof (induction ps arbitrary: m)
  case (Cons x ps)
  obtain lv p where x: "x = (lv, p)" by (cases x)
  obtain pp where pp: "overrideWith (defaultPolicy bufferSize) p = Ok pp" "ToCorePolicy bufferSize pp = level_policy bufferSize p"
    using overrideWith_level by blast
  obtain ls where ls: "build_levels bufferSize ps (AList.update lv pp m) = Ok ls"
      "\<And>l. map_option (ToCorePolicy bufferSize) (map_of ls l) =
         (case map_of (rev ps) l of Some p \<Rightarrow> Some (level_policy bufferSize p)
          | None \<Rightarrow> map_option (ToCorePolicy bufferSize) (map_of (AList.update lv pp m) l))"
    using Cons.IH by blast
  show ?case using ls pp by (auto simp: x update_conv' map_add_def split: option.splits)
qed simp

text \<open>
  A level gets its own settings and the defaults for the rest: building the policy manager never fails, and a level
  with an entry has the entry's timeouts, statistics and buffer size where the entry makes them, and the default elsewhere;
  a level without an entry has the default policy.
\<close>

theorem policy_of_level:
  "\<exists>m. policy_New bufferSize level system = Ok m \<and>
     ForLevel bufferSize m lv = (case map_of (rev level) lv of Some p \<Rightarrow> level_policy bufferSize p | None \<Rightarrow> SessionDefault bufferSize)"
proof -
  obtain ls where ls: "build_levels bufferSize level [] = Ok ls"
      "\<And>l. map_option (ToCorePolicy bufferSize) (map_of ls l) =
         (case map_of (rev level) l of Some p \<Rightarrow> Some (level_policy bufferSize p) | None \<Rightarrow> None)"
    using build_levels_result [of bufferSize level "[]"] by (auto cong: option.case_cong)
  show ?thesis using ls(1) ls(2) [of lv] by (auto simp: policy_New_def ForLevel_def split: option.splits)
qed

end
