(* ===== verification/Dispatcher.thy ===== *)
theory Dispatcher
  imports Sniffer Router Pipe Stats Policy
begin

text \<open>
  The dispatcher (\<open>app/dispatcher/default.go\<close>): it reads the first bytes of a connection without consuming them
  (\<open>cachedReader\<close>), asks the sniffer what they are, decides whether the sniffed name replaces the destination, and hands the
  connection to the outbound handler that the router names.  What the pipe delivers and when is the list of events
  that the sniffing loop meets.
\<close>

section \<open>The cached reader\<close>

text \<open>\<open>Cache\<close> after the pipe has delivered \<open>mb\<close>: the payload buffer holds the first bytes of the cache.\<close>

definition Cache :: "multi_buffer \<Rightarrow> buffer \<Rightarrow> multi_buffer \<Rightarrow> (buffer \<times> multi_buffer) res" where
  "Cache mb b cache =
     (let cache = (if \<not> mb_IsEmpty mb then fst (MergeMulti cache mb) else cache);
          b = Clear b in
      rbind (Extend b (min (mb_Len cache) (Cap b))) (\<lambda>(b, pos).
      rbind (Copy cache (nat (min (mb_Len cache) (Cap b)))) (\<lambda>bs.
      rmap (\<lambda>b. (b, cache)) (Resize (put_at b pos bs) 0 (i32 (int (length bs)))))))"

text \<open>The buffers that were cached come first, then those of the pipe; \<open>None\<close> is the nil of \<open>readInternal\<close>.\<close>

definition readInternal :: "multi_buffer \<Rightarrow> multi_buffer \<times> multi_buffer option" where
  "readInternal cache = (if \<not> mb_IsEmpty cache then ([], Some cache) else (cache, None))"

definition cached_ReadMultiBuffer ::
  "('p \<Rightarrow> 'p \<times> multi_buffer res) \<Rightarrow> multi_buffer \<times> 'p \<Rightarrow> (multi_buffer \<times> 'p) \<times> multi_buffer res" where
  "cached_ReadMultiBuffer rd = (\<lambda>(cache, p).
     case readInternal cache of
       (cache, Some mb) \<Rightarrow> ((cache, p), Ok mb)
     | (cache, None) \<Rightarrow> (case rd p of (p, r) \<Rightarrow> ((cache, p), r)))"

definition cached_Interrupt :: "multi_buffer \<Rightarrow> pools \<Rightarrow> pipe \<Rightarrow> multi_buffer \<times> (pipe \<times> pools) res" where
  "cached_Interrupt cache ps p =
     (case ReleaseMulti cache ps of (cache, ps) \<Rightarrow> (cache, Interrupt p ps))"

section \<open>Sniffing a connection\<close>

definition errSniffingTimeout :: goerr where "errSniffingTimeout = ErrMsg ''timeout on sniffing''"

text \<open>
  What the loop meets in one round: the context is done, or the pipe answers \<open>Cache\<close> within some time.
\<close>

datatype sniff_event = Ctx_Done goerr | Delivers "multi_buffer res" int

record sniff_run =
  sr_payload :: buffer
  sr_cache :: multi_buffer
  sr_sniffers :: "protocol_sniffer list"
  sr_state :: sniff_state

text \<open>The slice that \<open>payload.Bytes()\<close> is: it starts at the beginning of the buffer's array.\<close>

definition payload_slice :: "buffer \<Rightarrow> gslice" where
  "payload_slice b = Mk_slice (drop (nat (buf_start b)) (sarr (buf_v b))) (nat (Len b))"

text \<open>
  The loop; the outer \<open>None\<close> of the result says that the events have run out before it returned.  The deadline is in
  nanoseconds.
\<close>

fun content_loop ::
  "sniff_env \<Rightarrow> network \<Rightarrow> sniff_event list \<Rightarrow> int \<Rightarrow> nat \<Rightarrow> sniff_run \<Rightarrow> sniff_run \<times> sniff_result res option" where
  "content_loop env network [] cacheDeadline totalAttempt s = (s, None)"
| "content_loop env network (Ctx_Done e # evs) cacheDeadline totalAttempt s = (s, Some (Err e))"
| "content_loop env network (Delivers r elapsed # evs) cacheDeadline totalAttempt s =
     (case rbind r (\<lambda>mb. Cache mb (sr_payload s) (sr_cache s)) of
        Err e \<Rightarrow> (s, Some (Err e))
      | Panic p \<Rightarrow> (s, Some (Panic p))
      | Ok (payload, cache) \<Rightarrow>
          (let s = s\<lparr>sr_payload := payload, sr_cache := cache\<rparr>;
               cacheDeadline = cacheDeadline - elapsed in
           if \<not> IsEmpty payload then
             (case Sniff env (payload_slice payload) network (sr_sniffers s) (sr_state s) of
                (ss, st, r) \<Rightarrow>
                  (let s = s\<lparr>sr_sniffers := ss, sr_state := st\<rparr> in
                   case r of
                     Err e \<Rightarrow>
                       (if e = ErrNoClue \<or> e = ErrProtoNeedMoreData then
                          (let totalAttempt = (if e = ErrNoClue then totalAttempt + 1 else totalAttempt) in
                           if totalAttempt \<ge> 2 \<or> cacheDeadline \<le> 0 then (s, Some (Err errSniffingTimeout))
                           else content_loop env network evs cacheDeadline totalAttempt s)
                        else (s, Some (Err e)))
                   | r \<Rightarrow> (s, Some r)))
           else if totalAttempt + 1 \<ge> 2 \<or> cacheDeadline \<le> 0 then (s, Some (Err errSniffingTimeout))
           else content_loop env network evs cacheDeadline (totalAttempt + 1) s))"

text \<open>\<open>sniffer\<close>: metadata first, then content, and the two results combined.\<close>

definition sniffer ::
  "sniff_env \<Rightarrow> bool \<Rightarrow> network \<Rightarrow> sniff_event list \<Rightarrow> buffer \<Rightarrow> sniff_state \<Rightarrow> sniff_run \<times> sniff_result res option" where
  "sniffer env metadataOnly network evs payload st =
     (case SniffMetadata env (NewSniffer st) st of
        (ss, st, meta) \<Rightarrow>
          (let s = \<lparr>sr_payload = payload, sr_cache = [], sr_sniffers = ss, sr_state = st\<rparr> in
           case meta of
             Panic p \<Rightarrow> (s, Some (Panic p))
           | _ \<Rightarrow>
               if metadataOnly then (s, Some meta)
               else
                 (case content_loop env network evs 200000000 0 s of
                    (s, None) \<Rightarrow> (s, None)
                  | (s, Some (Panic p)) \<Rightarrow> (s, Some (Panic p))
                  | (s, Some (Err e)) \<Rightarrow> (s, Some (case meta of Ok m \<Rightarrow> Ok m | _ \<Rightarrow> Err e))
                  | (s, Some (Ok r)) \<Rightarrow> (s, Some (case meta of Ok m \<Rightarrow> Ok (CompositeResult m r) | _ \<Rightarrow> Ok r)))))"

section \<open>Overriding the destination\<close>

record sniffing_request =
  rq_ExcludeForDomain :: "string list"
  rq_OverrideDestinationForProtocol :: "string list"
  rq_Enabled :: bool
  rq_MetadataOnly :: bool
  rq_RouteOnly :: bool

fun excluded :: "regexp_compiler \<Rightarrow> string \<Rightarrow> string list \<Rightarrow> bool" where
  "excluded compile domain [] = False"
| "excluded compile domain (d # ds) =
     (if prefix ''regexp:'' d then
        (case compile (drop 7 d) of
           None \<Rightarrow> excluded compile domain ds
         | Some re \<Rightarrow> re domain \<or> excluded compile domain ds)
      else ToLower domain = d \<or> excluded compile domain ds)"

definition domain_protocol :: "sniff_result \<Rightarrow> string" where
  "domain_protocol result =
     (case ProtocolForDomainResult result of Some p \<Rightarrow> p | None \<Rightarrow> result_Protocol result)"

text \<open>Whether the fake DNS engine, if there is one, has the address in a pool; a nil address is a nil dereference.\<close>

definition in_fake_pool :: "holder list option \<Rightarrow> address option \<Rightarrow> bool res" where
  "in_fake_pool fdns a =
     (case fdns of
        None \<Rightarrow> Ok False
      | Some hs \<Rightarrow> (case a of None \<Rightarrow> nil_deref | Some a \<Rightarrow> multi_IsIPInIPPool hs a))"

fun override_loop ::
  "holder list option \<Rightarrow> sniff_result \<Rightarrow> string \<Rightarrow> destination \<Rightarrow> string list \<Rightarrow> bool res" where
  "override_loop fdns result protocolString destination [] = Ok False"
| "override_loop fdns result protocolString destination (p # ps) =
     (if prefix p protocolString \<or> prefix protocolString p then Ok True
      else
        rbind (if fdns \<noteq> None \<and> protocolString \<noteq> ''bittorrent'' \<and> p = ''fakedns''
               then in_fake_pool fdns (dest_Address destination) else Ok False) (\<lambda>fake.
          if fake then Ok True
          else if IsProtoSubsetOf result p then Ok True
          else override_loop fdns result protocolString destination ps))"

definition shouldOverride ::
  "regexp_compiler \<Rightarrow> holder list option \<Rightarrow> sniff_result \<Rightarrow> sniffing_request \<Rightarrow> destination \<Rightarrow> bool res" where
  "shouldOverride compile fdns result request destination =
     (let domain = result_Domain result in
      if domain = '''' then Ok False
      else if excluded compile domain (rq_ExcludeForDomain request) then Ok False
      else override_loop fdns result (domain_protocol result) destination (rq_OverrideDestinationForProtocol request))"

text \<open>
  What a result does to the outbound of the session: the new outbound and the destination that is dispatched.
\<close>

definition apply_result ::
  "regexp_compiler \<Rightarrow> holder list option \<Rightarrow> sniffing_request \<Rightarrow> sniff_result \<Rightarrow> session_outbound \<Rightarrow> destination
    \<Rightarrow> (session_outbound \<times> destination) res" where
  "apply_result compile fdns request result ob destination =
     rbind (shouldOverride compile fdns result request destination) (\<lambda>ov.
       if \<not> ov then Ok (ob, destination)
       else
         (let destination = destination\<lparr>dest_Address := ParseAddress (result_Domain result)\<rparr>;
              protocol = domain_protocol result in
          rmap (\<lambda>isFakeIP.
            (if rq_RouteOnly request \<and> protocol \<noteq> ''fakedns'' \<and> protocol \<noteq> ''fakedns+others'' \<and> \<not> isFakeIP
             then ob\<lparr>out_RouteTarget := destination\<rparr> else ob\<lparr>out_Target := destination\<rparr>, destination))
            (in_fake_pool fdns (dest_Address (out_Target ob)))))"

section \<open>Dispatching\<close>

datatype dispatch_outcome =
    Dispatched handler session_ctx "string option" multi_buffer
  | Link_closed
  | Dispatch_panics string

text \<open>The detour that an access message names; \<open>how\<close> is \<open>isPickRoute\<close>.\<close>

definition detour :: "string \<Rightarrow> string \<Rightarrow> nat \<Rightarrow> string \<Rightarrow> string" where
  "detour inTag tag how old =
     (if tag = '''' then old
      else if inTag = '''' then tag
      else if how = 1 then inTag @ '' ==> '' @ tag
      else if how = 2 then inTag @ '' -> '' @ tag
      else inTag @ '' >> '' @ tag)"

text \<open>The end of \<open>routedDispatch\<close>, once the forced tag or the router have spoken.\<close>

definition hand_over ::
  "nat \<Rightarrow> handler option \<Rightarrow> session_outbound \<Rightarrow> session_ctx \<Rightarrow> string option \<Rightarrow> multi_buffer \<Rightarrow> outbound_manager \<Rightarrow> dispatch_outcome" where
  "hand_over how h ob s access cache m =
     (case (case h of Some h \<Rightarrow> Some h | None \<Rightarrow> GetDefaultHandler m) of
        None \<Rightarrow> Link_closed
      | Some h \<Rightarrow>
          Dispatched h (s\<lparr>sc_Outbound := Some (ob\<lparr>out_Tag := oh_Tag h\<rparr>)\<rparr>)
            (map_option (detour (session_InboundTag s) (oh_Tag h) how) access) cache)"

text \<open>
  The router asks the manager for the candidates of a balancer, so that both are the state; \<open>cache\<close> is what the reader of
  the link still holds back.
\<close>

record ('i, 'f, 'd) route_env =
  re_ops :: "'i ipset_ops"
  re_dns :: "'d dns_client"
  re_pick :: "'f pick_env"
  re_iterate :: map_order

definition routedDispatch ::
  "('i, 'f, 'd) route_env \<Rightarrow> string \<Rightarrow> string option \<Rightarrow> session_ctx \<Rightarrow> multi_buffer
    \<Rightarrow> ('i, 'f) router option \<times> outbound_manager \<times> 'd \<Rightarrow> (('i, 'f) router option \<times> outbound_manager \<times> 'd) \<times> dispatch_outcome" where
  "routedDispatch env forced access s cache = (\<lambda>(r, m, d).
     case sc_Outbound s of
       None \<Rightarrow> ((r, m, d), Dispatch_panics ''index out of range'')
     | Some ob \<Rightarrow>
         if forced \<noteq> '''' then
           (case GetHandler m forced of
              Some h \<Rightarrow> ((r, m, d), hand_over 1 (Some h) ob s access cache m)
            | None \<Rightarrow> ((r, m, d), Link_closed))
         else
           (case r of
              None \<Rightarrow> ((r, m, d), hand_over 0 None ob s access cache m)
            | Some rt \<Rightarrow>
                (case PickRoute (re_ops env) (re_dns env) (re_pick env) (Some (om_Select (re_iterate env))) (Session s) (rt, m, d) of
                   ((rt, m, d), Ok route) \<Rightarrow>
                     (case GetHandler m (ro_outboundTag route) of
                        Some h \<Rightarrow> ((Some rt, m, d), hand_over 2 (Some h) ob s access cache m)
                      | None \<Rightarrow> ((Some rt, m, d), hand_over 0 None ob s access cache m))
                 | ((rt, m, d), Err e) \<Rightarrow> ((Some rt, m, d), hand_over 0 None ob s access cache m)
                 | ((rt, m, d), Panic p) \<Rightarrow> ((Some rt, m, d), Dispatch_panics p))))"

definition zero_dest :: destination where
  "zero_dest = \<lparr>dest_Address = None, dest_Port = 0, dest_Network = Network_Unknown\<rparr>"

definition new_outbound :: session_outbound where
  "new_outbound =
     \<lparr>out_OriginalTarget = zero_dest, out_Target = zero_dest, out_RouteTarget = zero_dest, out_Gateway = None,
      out_Tag = '''', out_Name = ''''\<rparr>"

definition new_content :: session_content where
  "new_content = \<lparr>ct_Protocol = '''', ct_Attributes = None, ct_SkipDNSResolve = False\<rparr>"

text \<open>
  What a call of \<open>Dispatch\<close> or \<open>DispatchLink\<close> finds in its context: the session, the sniffing request of its content, the
  forced outbound tag and the access message.
\<close>

record dispatch_ctx =
  dc_session :: session_ctx
  dc_request :: sniffing_request
  dc_forced :: string
  dc_access :: "string option"

text \<open>The part that the two calls share: the outbound is created if there is none, and gets the destination.\<close>

definition prepare :: "dispatch_ctx \<Rightarrow> destination \<Rightarrow> session_ctx \<times> session_outbound" where
  "prepare c destination =
     (let s = dc_session c;
          ob = (case sc_Outbound s of None \<Rightarrow> new_outbound | Some ob \<Rightarrow> ob)
                 \<lparr>out_OriginalTarget := destination, out_Target := destination\<rparr>;
          content = (case sc_Content s of None \<Rightarrow> new_content | Some ct \<Rightarrow> ct) in
      (s\<lparr>sc_Outbound := Some ob, sc_Content := Some content\<rparr>, ob))"

text \<open>
  The body: without sniffing the connection is routed at once; with it the reader is wrapped, the first bytes are
  sniffed and the result is applied.  The outer \<open>None\<close> means that sniffing still waits.
\<close>

definition dispatch_body ::
  "('i, 'f, 'd) route_env \<Rightarrow> regexp_compiler \<Rightarrow> sniff_env \<Rightarrow> sniff_event list \<Rightarrow> buffer \<Rightarrow> dispatch_ctx \<Rightarrow> destination
    \<Rightarrow> holder list option \<Rightarrow> ('i, 'f) router option \<times> outbound_manager \<times> 'd
    \<Rightarrow> (holder list option \<times> ('i, 'f) router option \<times> outbound_manager \<times> 'd) \<times> dispatch_outcome option" where
  "dispatch_body env compile senv evs payload c destination fdns w =
     (case prepare c destination of
        (s, ob) \<Rightarrow>
          if sc_Content (dc_session c) = None \<or> \<not> rq_Enabled (dc_request c) then
            (case routedDispatch env (dc_forced c) (dc_access c) s [] w of (w, out) \<Rightarrow> ((fdns, w), Some out))
          else
            (case sniffer (senv\<lparr>sn_target := destination\<rparr>) (rq_MetadataOnly (dc_request c)) (dest_Network destination) evs payload
                    \<lparr>ss_content = sc_Content s, ss_fdns = fdns\<rparr> of
               (run, None) \<Rightarrow> ((fdns, w), None)
             | (run, Some (Panic p)) \<Rightarrow> ((fdns, w), Some (Dispatch_panics p))
             | (run, Some (Err e)) \<Rightarrow>
                 (case routedDispatch env (dc_forced c) (dc_access c) (s\<lparr>sc_Content := ss_content (sr_state run)\<rparr>) (sr_cache run) w of
                    (w, out) \<Rightarrow> ((ss_fdns (sr_state run), w), Some out))
             | (run, Some (Ok result)) \<Rightarrow>
                 (let ct = map_option (\<lambda>ct. ct\<lparr>ct_Protocol := result_Protocol result\<rparr>) (ss_content (sr_state run));
                      fdns = ss_fdns (sr_state run) in
                  case apply_result compile fdns (dc_request c) result ob destination of
                    Ok (ob, _) \<Rightarrow>
                      (case routedDispatch env (dc_forced c) (dc_access c) (s\<lparr>sc_Outbound := Some ob, sc_Content := ct\<rparr>)
                              (sr_cache run) w of
                         (w, out) \<Rightarrow> ((fdns, w), Some out))
                  | Err e \<Rightarrow> ((fdns, w), None)
                  | Panic p \<Rightarrow> ((fdns, w), Some (Dispatch_panics p)))))"

text \<open>An invalid destination is a panic of \<open>Dispatch\<close> and an error of \<open>DispatchLink\<close>; the latter only sniffs a pipe.\<close>

definition Dispatch ::
  "('i, 'f, 'd) route_env \<Rightarrow> regexp_compiler \<Rightarrow> sniff_env \<Rightarrow> sniff_event list \<Rightarrow> buffer \<Rightarrow> dispatch_ctx \<Rightarrow> destination
    \<Rightarrow> holder list option \<Rightarrow> ('i, 'f) router option \<times> outbound_manager \<times> 'd
    \<Rightarrow> (holder list option \<times> ('i, 'f) router option \<times> outbound_manager \<times> 'd) \<times> dispatch_outcome option" where
  "Dispatch env compile senv evs payload c destination fdns w =
     (if \<not> dest_IsValid destination then ((fdns, w), Some (Dispatch_panics ''Dispatcher: Invalid destination.''))
      else dispatch_body env compile senv evs payload c destination fdns w)"

definition DispatchLink ::
  "('i, 'f, 'd) route_env \<Rightarrow> regexp_compiler \<Rightarrow> sniff_env \<Rightarrow> sniff_event list \<Rightarrow> buffer \<Rightarrow> dispatch_ctx \<Rightarrow> bool \<Rightarrow> destination
    \<Rightarrow> holder list option \<Rightarrow> ('i, 'f) router option \<times> outbound_manager \<times> 'd
    \<Rightarrow> (holder list option \<times> ('i, 'f) router option \<times> outbound_manager \<times> 'd) \<times> dispatch_outcome option res" where
  "DispatchLink env compile senv evs payload c is_pipe destination fdns w =
     (if \<not> dest_IsValid destination then ((fdns, w), Err (ErrMsg ''Dispatcher: Invalid destination.''))
      else if sc_Content (dc_session c) \<noteq> None \<and> rq_Enabled (dc_request c) \<and> \<not> is_pipe
      then ((fdns, w), Panic ''interface conversion'')
      else (case dispatch_body env compile senv evs payload c destination fdns w of (w, out) \<Rightarrow> (w, Ok out)))"

section \<open>Sniffing consumes nothing\<close>

lemma Copy_content: "mb_wf mb \<Longrightarrow> Copy mb k = Ok (take k (mb_content mb))"
proof (induction mb arbitrary: k)
  case (Cons b mb)
  then have b: "buf_wf b" "Len b = int (length (content b))" "length (content b) < 2147483648"
    using Len_content [of b] length_content [of b] buf_wf_bounds [of b] by auto
  show ?case
  proof (cases "k < length (content b)")
    case True
    then show ?thesis using b by (simp add: Let_def)
  next
    case False
    then show ?thesis using b Cons by (simp add: Let_def)
  qed
qed simp

lemma Resize_same:
  assumes "holds b bs" and "length bs \<le> 32767"
  shows "Resize b 0 (int (length bs)) = Ok b"
proof -
  note h = holdsD [OF assms(1)]
  have "b\<lparr>buf_end := int (length bs), buf_start := 0\<rparr> = b" using h(2,4) by simp
  then show ?thesis using h(2,4) assms(2) by (simp add: Resize_def Let_def Check_def)
qed

text \<open>A payload buffer as \<open>NewWithSize(32767)\<close> makes it, whatever has been cached before.\<close>

definition payload_ok :: "buffer \<Rightarrow> bool" where
  "payload_ok b \<longleftrightarrow> holds (Clear b) []"

definition merged :: "multi_buffer \<Rightarrow> multi_buffer \<Rightarrow> multi_buffer" where
  "merged cache mb = (if mb_IsEmpty mb then cache else cache @ mb)"

lemma merged_content: "mb_wf mb \<Longrightarrow> mb_content (merged cache mb) = mb_content cache @ mb_content mb"
  by (simp add: merged_def mb_IsEmpty_content)

lemma merged_wf: "mb_wf cache \<Longrightarrow> mb_wf mb \<Longrightarrow> mb_wf (merged cache mb)"
  by (simp add: merged_def)

lemma Cache_content:
  assumes "payload_ok b" and "mb_wf cache" and "mb_wf mb" and "length (mb_content (merged cache mb)) \<le> 32767"
  shows "\<exists>b'. Cache mb b cache = Ok (b', merged cache mb) \<and> payload_ok b' \<and> holds b' (mb_content (merged cache mb))"
proof -
  let ?c = "mb_content (merged cache mb)"
  let ?b = "append_at_end (Clear b) (replicate (length ?c) 0)"
  have wf: "mb_wf (merged cache mb)" using assms(2,3) by (rule merged_wf)
  have l: "mb_Len (merged cache mb) = int (length ?c)" using mb_Len_content [OF wf] assms(4) by simp
  have c: "holds (Clear b) []" using assms(1) by (simp add: payload_ok_def)
  note h = holdsD [OF c]
  have m: "min (mb_Len (merged cache mb)) (Cap (Clear b)) = int (length ?c)" using l h(6,8) assms(4) by simp
  have e: "Extend (Clear b) (int (length ?c)) = Ok (?b, 0)"
    using Extend_content [OF h(1), of "int (length ?c)"] h assms(4) by (simp add: room_def Size_def)
  have "holds ?b (replicate (length ?c) 0)" using holds_append [OF c, of "replicate (length ?c) 0"] assms(4) by simp
  moreover have "Cap ?b = Cap (Clear b)" by (simp add: Cap_def append_at_end_def)
  ultimately have p: "holds (put_at ?b 0 ?c) ?c" "min (mb_Len (merged cache mb)) (Cap ?b) = int (length ?c)"
    using holds_put [of ?b "replicate (length ?c) 0" 0 ?c] m by (simp_all add: overwrite_def)
  have "(if \<not> mb_IsEmpty mb then fst (MergeMulti cache mb) else cache) = merged cache mb"
    by (simp add: merged_def MergeMulti_def)
  then have "Cache mb b cache = Ok (put_at ?b 0 ?c, merged cache mb)"
    using Resize_same [OF p(1) assms(4)] assms(4)
    by (simp only: Cache_def Let_def m e p(2) rbind.simps prod.case Copy_content [OF wf]) simp
  moreover have "payload_ok (put_at ?b 0 ?c)"
    using p(1) by (auto simp: payload_ok_def holds_def Clear_def buf_wf_def content_def)
  ultimately show ?thesis using p(1) by blast
qed

text \<open>What the pipe has delivered in an event.\<close>

fun delivered :: "sniff_event \<Rightarrow> bytes" where
  "delivered (Delivers (Ok mb) t) = mb_content mb"
| "delivered _ = []"

fun event_wf :: "sniff_event \<Rightarrow> bool" where
  "event_wf (Delivers (Ok mb) t) = mb_wf mb"
| "event_wf _ = True"

lemma Cache_cache:
  assumes "Cache mb b cache = Ok (b', cache')"
  shows "cache' = merged cache mb"
  using assms by (auto simp: Cache_def Let_def rbind_Ok_iff rmap_Ok_iff merged_def MergeMulti_def split: if_splits)

lemma Cache_no_error: "Cache mb b cache \<noteq> Err e"
proof -
  have rm: "rmap f r = Err e' \<longleftrightarrow> r = Err e'" for f :: "'a \<Rightarrow> 'b" and r e' by (cases r) auto
  have "slice_range s x y \<noteq> Err e'" for s :: gslice and x y e' by (cases s) (auto simp: slice_range_def)
  moreover have "Bytes b \<noteq> Err e'" for b e' by (auto simp: Bytes_def slice_range_def)
  then have "Copy c k \<noteq> Err e'" for c k e' by (induction c k rule: Copy.induct) (auto simp: Let_def rbind_Err_iff rm split: if_splits)
  ultimately show ?thesis by (auto simp: Cache_def Let_def Extend_def Resize_def rbind_Err_iff rm split: if_splits)
qed

lemma content_loop_step:
  assumes "Cache mb (sr_payload s) (sr_cache s) = Ok (payload, cache)"
  shows "\<exists>s1. sr_cache s1 = cache \<and>
    ((\<exists>r. \<forall>evs. content_loop env network (Delivers (Ok mb) t # evs) dl n s = (s1, Some r)) \<or>
     (\<exists>dl' n'. \<forall>evs. content_loop env network (Delivers (Ok mb) t # evs) dl n s = content_loop env network evs dl' n' s1))"
proof (cases "IsEmpty payload")
  case True
  then show ?thesis using assms by (auto simp: Let_def intro!: exI [of _ "s\<lparr>sr_payload := payload, sr_cache := cache\<rparr>"])
next
  case False
  obtain ss st r where "Sniff env (payload_slice payload) network (sr_sniffers s) (sr_state s) = (ss, st, r)" by (metis prod_cases3)
  then show ?thesis using assms False
    by (cases r)
      (auto simp: Let_def intro!: exI [of _ "s\<lparr>sr_payload := payload, sr_cache := cache, sr_sniffers := ss, sr_state := st\<rparr>"])
qed

text \<open>
  The deliveries that a loop has taken: with them it answers, whatever would come next, and with fewer it would still be waiting.
\<close>

definition taken_by :: "(sniff_event list \<Rightarrow> 'a \<times> 'b option) \<Rightarrow> sniff_event list \<Rightarrow> bool" where
  "taken_by f seen \<longleftrightarrow> (\<exists>a b. \<forall>later. f (seen @ later) = (a, Some b)) \<and> (\<forall>x. strict_prefix x seen \<longrightarrow> snd (f x) = None)"

lemma taken_by_Nil: "(\<And>later. f later = (a, Some b)) \<Longrightarrow> taken_by f []"
  unfolding taken_by_def by (intro conjI exI [of _ a] exI [of _ b]) auto

lemma taken_by_Cons:
  assumes "taken_by f seen" and "\<And>later. g (ev # later) = f later" and "snd (g []) = None"
  shows "taken_by g (ev # seen)"
proof -
  have "snd (g x) = None" if "strict_prefix x (ev # seen)" for x
    using that assms by (cases x) (auto simp: taken_by_def strict_prefix_def)
  then show ?thesis using assms(1,2) by (simp add: taken_by_def)
qed

lemma taken_by_one: "(\<And>later. f (ev # later) = (a, Some b)) \<Longrightarrow> snd (f []) = None \<Longrightarrow> taken_by f [ev]"
  by (rule taken_by_Cons [where f = "\<lambda>later. (a, Some b)"]) (auto intro: taken_by_Nil)

lemma content_loop_cache:
  "content_loop env network evs dl n s = (s', Some r) \<Longrightarrow> \<forall>p. r \<noteq> Panic p \<Longrightarrow> list_all event_wf evs \<Longrightarrow> mb_wf (sr_cache s) \<Longrightarrow>
   \<exists>seen left. evs = seen @ left \<and> taken_by (\<lambda>evs. content_loop env network evs dl n s) seen \<and>
     mb_wf (sr_cache s') \<and> mb_content (sr_cache s') = mb_content (sr_cache s) @ concat (map delivered seen)"
proof (induction evs arbitrary: dl n s)
  case (Cons ev evs)
  let ?f = "\<lambda>evs. content_loop env network evs dl n s"
  have same: ?case if "s' = s" "\<And>later. ?f (ev # later) = (s, Some r)" "delivered ev = []"
    using that Cons.prems(4) taken_by_one [of ?f ev s r] by - (rule exI [where x = "[ev]"], rule exI [where x = evs], simp)
  show ?case
  proof (cases ev)
    case (Delivers x t)
    show ?thesis
    proof (cases x)
      case (Ok mb)
      then obtain payload cache where c: "Cache mb (sr_payload s) (sr_cache s) = res.Ok (payload, cache)"
        using Cons.prems(1,2) Delivers Cache_no_error by (cases "Cache mb (sr_payload s) (sr_cache s)") auto
      have mb: "mb_wf mb" "delivered ev = mb_content mb" using Cons.prems(3) Delivers Ok by simp_all
      have cc: "mb_wf cache" "mb_content cache = mb_content (sr_cache s) @ mb_content mb"
        using Cache_cache [OF c] mb Cons.prems(4) by (simp_all add: merged_wf merged_content)
      obtain s1 where s1: "sr_cache s1 = cache" and
        "(\<exists>r. \<forall>evs. ?f (ev # evs) = (s1, Some r)) \<or> (\<exists>dl' n'. \<forall>evs. ?f (ev # evs) = content_loop env network evs dl' n' s1)"
        using content_loop_step [OF c, of env network t dl n] unfolding Delivers Ok by blast
      then consider r' where "\<And>evs. ?f (ev # evs) = (s1, Some r')" | dl' n' where "\<And>evs. ?f (ev # evs) = content_loop env network evs dl' n' s1" by blast
      then show ?thesis
      proof cases
        case 1
        then have "s' = s1" using Cons.prems(1) by simp
        then show ?thesis using s1 cc mb taken_by_one [of ?f ev s1 r', OF 1] by - (rule exI [where x = "[ev]"], rule exI [where x = evs], simp)
      next
        case 2
        have "content_loop env network evs dl' n' s1 = (s', Some r)" using Cons.prems(1) 2 by simp
        from Cons.IH [OF this Cons.prems(2)] Cons.prems(3) s1 cc(1) obtain seen left where
          IH: "evs = seen @ left" "taken_by (\<lambda>evs. content_loop env network evs dl' n' s1) seen" "mb_wf (sr_cache s')"
            "mb_content (sr_cache s') = mb_content cache @ concat (map delivered seen)" by auto
        from taken_by_Cons [OF IH(2), of ?f ev, OF 2] IH cc(2) mb show ?thesis by - (rule exI [where x = "ev # seen"], rule exI [where x = left], simp)
      qed
    qed (use Cons.prems(1) same Delivers in auto)
  qed (use Cons.prems(1) same in auto)
qed simp

lemma sniffer_cache:
  assumes "sniffer env metadataOnly network evs payload st = (run, Some r)" and "\<forall>p. r \<noteq> Panic p" and "list_all event_wf evs"
  shows "\<exists>seen left. evs = seen @ left \<and> taken_by (\<lambda>evs. sniffer env metadataOnly network evs payload st) seen \<and>
    mb_wf (sr_cache run) \<and> mb_content (sr_cache run) = concat (map delivered seen)"
proof -
  obtain ss st' meta where m: "SniffMetadata env (NewSniffer st) st = (ss, st', meta)" by (metis prod_cases3)
  let ?s = "\<lparr>sr_payload = payload, sr_cache = [], sr_sniffers = ss, sr_state = st'\<rparr>"
  let ?f = "\<lambda>evs. sniffer env metadataOnly network evs payload st" and ?g = "\<lambda>evs. content_loop env network evs 200000000 0 ?s"
  show ?thesis
  proof (cases "metadataOnly \<or> (\<exists>p. meta = Panic p)")
    case True
    then have "?f later = (?s, Some meta)" for later using m by (auto simp: sniffer_def Let_def split: res.splits)
    with taken_by_Nil [of ?f ?s meta] assms(1) show ?thesis by - (rule exI [where x = "[]"], rule exI [where x = evs], auto)
  next
    case False
    define out where "out x = (case x of Panic p \<Rightarrow> Panic p | Err e \<Rightarrow> (case meta of Ok m \<Rightarrow> Ok m | _ \<Rightarrow> Err e)
        | Ok r \<Rightarrow> (case meta of Ok m \<Rightarrow> Ok (CompositeResult m r) | _ \<Rightarrow> Ok r))" for x :: "sniff_result res"
    have f: "?f later = (fst (?g later), map_option out (snd (?g later)))" for later
      using False m by (auto simp: sniffer_def Let_def out_def split: res.splits prod.splits option.splits)
    then obtain r' where g: "?g evs = (run, Some r')" "r = out r'" using assms(1) by (cases "?g evs") auto
    then have "\<forall>p. r' \<noteq> Panic p" using assms(2) by (auto simp: out_def)
    from content_loop_cache [OF g(1) this assms(3)] obtain seen left where
      t: "evs = seen @ left" "taken_by ?g seen" "mb_wf (sr_cache run)" "mb_content (sr_cache run) = concat (map delivered seen)" by auto
    have "taken_by ?f seen" using t(2) unfolding taken_by_def f by (metis fst_conv option.map(1,2) snd_conv)
    with t show ?thesis by blast
  qed
qed

text \<open>The pipe as the outbound handler reads it later, and what a number of reads through the cached reader return.\<close>

fun next_delivery :: "sniff_event list \<Rightarrow> sniff_event list \<times> multi_buffer res" where
  "next_delivery [] = ([], Err EOF)"
| "next_delivery (Ctx_Done e # evs) = next_delivery evs"
| "next_delivery (Delivers r t # evs) = (evs, r)"

fun reads :: "nat \<Rightarrow> multi_buffer \<times> sniff_event list \<Rightarrow> bytes" where
  "reads 0 s = []"
| "reads (Suc n) s =
     (case cached_ReadMultiBuffer next_delivery s of
        (s', Ok mb) \<Rightarrow> mb_content mb @ reads n s'
      | _ \<Rightarrow> [])"

fun unfailing :: "sniff_event \<Rightarrow> bool" where
  "unfailing (Delivers r t) = is_ok r"
| "unfailing _ = True"

lemma next_delivery_data:
  "list_all unfailing evs \<Longrightarrow> next_delivery evs = (evs', r) \<Longrightarrow>
     (evs' = [] \<and> r = Err EOF \<and> concat (map delivered evs) = []) \<or>
     (\<exists>mb. r = Ok mb \<and> length evs' < length evs \<and> list_all unfailing evs' \<and> concat (map delivered evs) = mb_content mb @ concat (map delivered evs'))"
  by (induction evs rule: next_delivery.induct) (auto simp: less_SucI elim!: is_ok.elims)

lemma reads_rest:
  "list_all unfailing evs \<Longrightarrow> mb_content c = [] \<Longrightarrow> mb_wf c \<Longrightarrow> length evs < n \<Longrightarrow> reads n (c, evs) = concat (map delivered evs)"
proof (induction n arbitrary: evs)
  case (Suc n)
  obtain evs' r where n: "next_delivery evs = (evs', r)" by fastforce
  have "cached_ReadMultiBuffer next_delivery (c, evs) = ((c, evs'), r)"
    using Suc.prems(2,3) n by (simp add: cached_ReadMultiBuffer_def readInternal_def mb_IsEmpty_content)
  then show ?case using next_delivery_data [OF Suc.prems(1) n] Suc.IH [of evs'] Suc.prems(2-4) by auto
qed simp

section \<open>From the first bytes to the outbound handler\<close>

lemma payload_slice_holds: "holds b bs \<Longrightarrow> slice_bytes (payload_slice b) = bs"
  using holdsD [of b bs] by (simp add: payload_slice_def slice_bytes_def content_def)

lemma holds_IsEmpty: "holds b bs \<Longrightarrow> IsEmpty b \<longleftrightarrow> bs = []"
  using holdsD(5) [of b bs] by (simp add: IsEmpty_def)

text \<open>What has been delivered when the record is complete: at most one piece before.\<close>

definition arrives :: "byte \<Rightarrow> client_hello \<Rightarrow> sniff_event list \<Rightarrow> multi_buffer \<Rightarrow> bool" where
  "arrives minor h evs all \<longleftrightarrow>
     (\<exists>mb t more. evs = Delivers (Ok mb) t # more \<and> mb_wf mb \<and> all = mb \<and> prefix (hello_record minor h) (mb_content mb)) \<or>
     (\<exists>mb1 t1 mb2 t2 more. evs = Delivers (Ok mb1) t1 # Delivers (Ok mb2) t2 # more \<and> mb_wf mb1 \<and> mb_wf mb2 \<and>
        t1 < 200000000 \<and> mb_content mb1 \<noteq> [] \<and> strict_prefix (mb_content mb1) (hello_record minor h) \<and>
        mb_content mb2 \<noteq> [] \<and> all = mb1 @ mb2 \<and> prefix (hello_record minor h) (mb_content all))"

text \<open>
  One round of the loop on a connection that begins with the record: it answers as soon as the record is complete, and until then counts an attempt.
\<close>

lemma tls_round:
  assumes "hello_ok h" and "announces (ch_extensions h) name" and "check_name name = Ok s"
    and "payload_ok (sr_payload run)" and "mb_wf (sr_cache run)" and "mb_wf mb" and "mb_content mb \<noteq> []" and "all = sr_cache run @ mb"
    and "length (mb_content all) \<le> 32767" and "prefix (mb_content all) (hello_record minor h @ r)" and "Sniff_TLS \<in> set (sr_sniffers run)"
  shows "\<exists>b ss. payload_ok b \<and> (\<not> prefix (hello_record minor h) (mb_content all) \<longrightarrow> Sniff_TLS \<in> set ss) \<and>
    (\<forall>later dl n t. content_loop env Network_TCP (Delivers (Ok mb) t # later) dl n run =
      (let run' = run\<lparr>sr_payload := b, sr_cache := all, sr_sniffers := ss\<rparr> in
       if prefix (hello_record minor h) (mb_content all) then (run', Some (Ok (TLS_result s)))
       else if n \<ge> 1 \<or> dl - t \<le> 0 then (run', Some (Err errSniffingTimeout))
       else content_loop env Network_TCP later (dl - t) (n + 1) run'))"
proof -
  have size: "length (hello_bytes h) < 65536" using assms(1) by (simp add: hello_ok_def)
  have "merged (sr_cache run) mb = all" using assms(6-8) by (simp add: merged_def mb_IsEmpty_content)
  then obtain b where b: "Cache mb (sr_payload run) (sr_cache run) = Ok (b, all)" "payload_ok b" "holds b (mb_content all)"
    using Cache_content [OF assms(4-6)] assms(9) by auto
  have ne: "mb_content all \<noteq> []" "\<not> IsEmpty b" using assms(7,8) holds_IsEmpty [OF b(3)] by simp_all
  have sb: "slice_bytes (payload_slice b) = mb_content all" using payload_slice_holds [OF b(3)] .
  have hd: "hd (slice_bytes (payload_slice b)) = 22" using record_start [of "payload_slice b" minor h r] ne assms(10) sb by simp
  show ?thesis
  proof (cases "prefix (hello_record minor h) (mb_content all)")
    case True
    then obtain r' where r': "mb_content all = hello_record minor h @ r'" by (auto simp: prefix_def)
    have "length (concat (map extension_entry (ch_extensions h))) < 65536" using size by (simp add: hello_bytes_def)
    then have "SniffTLS (mb_content all) = Ok s"
      using SniffTLS_record [OF size] ReadClientHello_hello [OF assms(1)] announced_found [OF assms(2) _ assms(3)] r' by simp
    then obtain ss where "Sniff env (payload_slice b) Network_TCP (sr_sniffers run) (sr_state run) = (ss, sr_state run, Ok (TLS_result s))"
      using tls_complete [of "payload_slice b" s "sr_sniffers run" env "sr_sniffers run" "[]" "sr_state run"] assms(11) hd ne(1)
      by (auto simp: sb Sniff_def)
    then show ?thesis using b ne(2) True by (intro exI [of _ b] exI [of _ ss]) (auto simp: Let_def)
  next
    case False
    then have "strict_prefix (mb_content all) (hello_record minor h)"
      using assms(10) prefix_same_cases [of "mb_content all" "hello_record minor h @ r" "hello_record minor h"] by (auto simp: strict_prefix_def)
    then obtain ss where "Sniff env (payload_slice b) Network_TCP (sr_sniffers run) (sr_state run) = (ss, sr_state run, Err ErrNoClue)"
        "Sniff_TLS \<in> set ss"
      using tls_incomplete [of "payload_slice b" "sr_sniffers run" "[]" env "sr_sniffers run" "sr_state run"]
        SniffTLS_piece [OF size] assms(11) hd ne(1) by (auto simp: sb Sniff_def)
    then show ?thesis using b ne(2) False by (intro exI [of _ b] exI [of _ ss]) (auto simp: Let_def)
  qed
qed

lemma content_loop_tls:
  assumes "hello_ok h" and "announces (ch_extensions h) name" and "check_name name = Ok s"
    and "arrives minor h evs all" and "length (mb_content all) \<le> 32767"
    and "payload_ok (sr_payload run)" and "sr_cache run = []" and "Sniff_TLS \<in> set (sr_sniffers run)"
  shows "\<exists>run'. content_loop env Network_TCP evs 200000000 0 run = (run', Some (Ok (TLS_result s))) \<and>
    sr_state run' = sr_state run \<and> sr_cache run' = all"
proof -
  obtain r where r: "mb_content all = hello_record minor h @ r" using assms(4) by (auto simp: arrives_def prefix_def)
  then have whole: "prefix (hello_record minor h) (mb_content all)" "mb_content all \<noteq> []" by (simp_all add: hello_record_def)
  note round = tls_round [OF assms(1-3)]
  from assms(4) consider mb t more where "evs = Delivers (Ok mb) t # more" "mb_wf mb" "all = mb"
    | mb1 t1 mb2 t2 more where "evs = Delivers (Ok mb1) t1 # Delivers (Ok mb2) t2 # more" "mb_wf mb1" "mb_wf mb2" "t1 < 200000000"
      "mb_content mb1 \<noteq> []" "strict_prefix (mb_content mb1) (hello_record minor h)" "mb_content mb2 \<noteq> []" "all = mb1 @ mb2"
    unfolding arrives_def by blast
  then show ?thesis
  proof cases
    case 1
    have q: "mb_wf (sr_cache run)" "all = sr_cache run @ all" using assms(7) by simp_all
    from round [OF assms(6) q(1) _ whole(2) q(2) assms(5) _ assms(8), of minor r env] show ?thesis
      using 1 whole(1) r by (auto simp: Let_def simp del: content_loop.simps)
  next
    case 2
    have "\<not> prefix (hello_record minor h) (mb_content mb1)" using 2(6) prefix_order.less_le_not_le by blast
    moreover have "length (mb_content mb1) \<le> 32767" "prefix (mb_content mb1) (hello_record minor h @ r)" using assms(5) 2 by (simp_all add: r [symmetric])
    moreover have q: "mb_wf (sr_cache run)" "mb1 = sr_cache run @ mb1" using assms(7) by simp_all
    ultimately obtain b ss where b: "payload_ok b" "Sniff_TLS \<in> set ss" and
      e: "\<forall>later dl n t. content_loop env Network_TCP (Delivers (Ok mb1) t # later) dl n run =
        (if n \<ge> 1 \<or> dl - t \<le> 0 then (run\<lparr>sr_payload := b, sr_cache := mb1, sr_sniffers := ss\<rparr>, Some (Err errSniffingTimeout))
         else content_loop env Network_TCP later (dl - t) (n + 1) (run\<lparr>sr_payload := b, sr_cache := mb1, sr_sniffers := ss\<rparr>))"
      using round [OF assms(6) q(1) 2(2,5) q(2) _ _ assms(8), of minor r env] unfolding Let_def by auto
    let ?run1 = "run\<lparr>sr_payload := b, sr_cache := mb1, sr_sniffers := ss\<rparr>"
    have q: "payload_ok (sr_payload ?run1)" "mb_wf (sr_cache ?run1)" "all = sr_cache ?run1 @ mb2" "Sniff_TLS \<in> set (sr_sniffers ?run1)"
      using b 2 by simp_all
    from round [OF q(1,2) 2(3,7) q(3) assms(5) _ q(4), of minor r env] show ?thesis
      unfolding 2(1) e [rule_format] using 2(4) whole(1) r by (auto simp: Let_def simp del: content_loop.simps)
  qed
qed

lemma metadata_without_engine:
  assumes "ss_fdns st = None"
  shows "SniffMetadata env (NewSniffer st) st = (basic_sniffers, st, Err ErrNoClue)"
  using assms by (simp add: SniffMetadata_def NewSniffer_def basic_sniffers_def finish_sniff_def)

lemma sniffer_tls:
  assumes "hello_ok h" and "announces (ch_extensions h) name" and "check_name name = Ok s"
    and "arrives minor h evs all" and "length (mb_content all) \<le> 32767" and "payload_ok payload" and "ss_fdns st = None"
  shows "\<exists>run. sniffer env False Network_TCP evs payload st = (run, Some (Ok (TLS_result s))) \<and> sr_state run = st \<and> sr_cache run = all"
proof -
  let ?run = "\<lparr>sr_payload = payload, sr_cache = [], sr_sniffers = basic_sniffers, sr_state = st\<rparr>"
  obtain run' where "content_loop env Network_TCP evs 200000000 0 ?run = (run', Some (Ok (TLS_result s)))"
      "sr_state run' = st" "sr_cache run' = all"
    using content_loop_tls [OF assms(1-5), of ?run env] assms(6) by (auto simp: basic_sniffers_def)
  then show ?thesis using metadata_without_engine [OF assms(7)] by (auto simp: sniffer_def Let_def)
qed

text \<open>What the sniffer answers to a connection that begins with the record, and what it leaves in the cache, for any first two deliveries.\<close>

lemma sniffer_tls_exact:
  assumes "hello_ok h" and "announces (ch_extensions h) name" and "check_name name = Ok s"
    and "evs = Delivers (Ok mb1) t1 # Delivers (Ok mb2) t2 # later" and "mb_wf mb1" and "mb_wf mb2" and "mb_content mb1 \<noteq> []" and "mb_content mb2 \<noteq> []"
    and "prefix (mb_content (mb1 @ mb2)) (hello_record minor h @ r)" and "length (mb_content (mb1 @ mb2)) \<le> 32767"
    and "payload_ok payload" and "ss_fdns st = None"
  shows "\<exists>run. sniffer env False Network_TCP evs payload st =
      (run, Some (if prefix (hello_record minor h) (mb_content mb1) \<or> t1 < 200000000 \<and> prefix (hello_record minor h) (mb_content (mb1 @ mb2))
                  then Ok (TLS_result s) else Err errSniffingTimeout)) \<and>
    sr_cache run = (if prefix (hello_record minor h) (mb_content mb1) \<or> 200000000 \<le> t1 then mb1 else mb1 @ mb2)"
proof -
  let ?run = "\<lparr>sr_payload = payload, sr_cache = [], sr_sniffers = basic_sniffers, sr_state = st\<rparr>"
  note round = tls_round [OF assms(1-3)]
  have p1: "prefix (mb_content mb1) (hello_record minor h @ r)" "length (mb_content mb1) \<le> 32767" using assms(9,10) by (auto simp: prefix_def)
  have q: "payload_ok (sr_payload ?run)" "mb_wf (sr_cache ?run)" "mb1 = sr_cache ?run @ mb1" "Sniff_TLS \<in> set (sr_sniffers ?run)"
    using assms(11) by (simp_all add: basic_sniffers_def)
  obtain b ss where b: "payload_ok b" "\<not> prefix (hello_record minor h) (mb_content mb1) \<longrightarrow> Sniff_TLS \<in> set ss" and
    l: "\<forall>later dl n t. content_loop env Network_TCP (Delivers (Ok mb1) t # later) dl n ?run =
      (let run' = ?run\<lparr>sr_payload := b, sr_cache := mb1, sr_sniffers := ss\<rparr> in
       if prefix (hello_record minor h) (mb_content mb1) then (run', Some (Ok (TLS_result s)))
       else if n \<ge> 1 \<or> dl - t \<le> 0 then (run', Some (Err errSniffingTimeout))
       else content_loop env Network_TCP later (dl - t) (n + 1) run')"
    using round [OF q(1,2) assms(5,7) q(3) p1(2,1) q(4), of env] by blast
  let ?run1 = "?run\<lparr>sr_payload := b, sr_cache := mb1, sr_sniffers := ss\<rparr>"
  have s: "sniffer env False Network_TCP evs payload st = content_loop env Network_TCP evs 200000000 0 ?run"
    using metadata_without_engine [OF assms(12)] by (auto simp: sniffer_def Let_def split: prod.splits option.splits res.splits)
  show ?thesis
  proof (cases "prefix (hello_record minor h) (mb_content mb1) \<or> 200000000 \<le> t1")
    case True
    then show ?thesis unfolding s unfolding assms(4) l [rule_format] by (auto simp: Let_def simp del: content_loop.simps)
  next
    case False
    then have q: "Sniff_TLS \<in> set (sr_sniffers ?run1)" "payload_ok (sr_payload ?run1)" "mb_wf (sr_cache ?run1)" "mb1 @ mb2 = sr_cache ?run1 @ mb2"
      using b assms(5) by simp_all
    have e: "content_loop env Network_TCP evs 200000000 0 ?run = content_loop env Network_TCP (Delivers (Ok mb2) t2 # later) (200000000 - t1) 1 ?run1"
      unfolding assms(4) l [rule_format] using False by (simp add: Let_def del: content_loop.simps)
    from round [OF q(2,3) assms(6,8) q(4) assms(10,9) q(1), of env] show ?thesis
      unfolding s e using False by (auto simp: Let_def simp del: content_loop.simps)
  qed
qed

text \<open>
  C20. A TLS connection is recognised exactly if its first record is complete early enough.  If a connection begins with a client hello that names a server,
  and no fake DNS engine is configured, the sniffer answers with the name if the first delivery holds the whole record, or if
  the second completes it and the first came within 200 ms; otherwise it gives up after the second delivery, or after the first if that came later.
\<close>

theorem tls_recognised_exactly:
  assumes "hello_ok h" and "announces (ch_extensions h) name" and "check_name name = Ok s"
    and "evs = Delivers (Ok mb1) t1 # Delivers (Ok mb2) t2 # later" and "mb_wf mb1" and "mb_wf mb2" and "mb_content mb1 \<noteq> []" and "mb_content mb2 \<noteq> []"
    and "prefix (mb_content (mb1 @ mb2)) (hello_record minor h @ r)" and "length (mb_content (mb1 @ mb2)) \<le> 32767"
    and "payload_ok payload" and "ss_fdns st = None"
  shows "snd (sniffer env False Network_TCP evs payload st) =
    Some (if prefix (hello_record minor h) (mb_content mb1) \<or> t1 < 200000000 \<and> prefix (hello_record minor h) (mb_content (mb1 @ mb2))
          then Ok (TLS_result s) else Err errSniffingTimeout)"
  using sniffer_tls_exact [OF assms, of env] by auto

text \<open>A client hello that comes in three pieces: the first two bytes, the next three, and the rest.\<close>

definition three_deliveries :: "sniff_event list" where
  "three_deliveries = (let b = hello_record 1 example_hello in
     map (\<lambda>x. Delivers (Ok [FromBytes (whole_slice x)]) 0) [take 2 b, take 3 (drop 2 b), drop 5 b])"

definition fresh_payload :: buffer where
  "fresh_payload = fst (NewWithSize None pools_init 32767)"

lemma fresh_payload_ok: "payload_ok fresh_payload"
proof -
  have "holds fresh_payload []" unfolding fresh_payload_def by (rule fresh_holds) (simp_all add: new_pool_array)
  then show ?thesis by (auto simp: payload_ok_def holds_def Clear_def buf_wf_def content_def)
qed

lemma example_record: "length (hello_record 1 example_hello) = 73" "hello_record 1 example_hello \<noteq> []"
proof -
  show "length (hello_record 1 example_hello) = 73" by code_simp
  then show "hello_record 1 example_hello \<noteq> []" by force
qed

lemma FromBytes_whole: "length x < 2147483648 \<Longrightarrow> buf_wf (FromBytes (whole_slice x)) \<and> content (FromBytes (whole_slice x)) = x"
  by (simp add: FromBytes_def whole_slice_def buf_wf_def scap_def content_def)

theorem tls_recognised_exactly_witness:
  "snd (sniffer example_env False Network_TCP three_deliveries fresh_payload example_state) = Some (Err errSniffingTimeout) \<and>
   snd (sniffer example_env False Network_TCP [Delivers (Ok [FromBytes (whole_slice (take 5 (hello_record 1 example_hello)))]) 0,
       Delivers (Ok [FromBytes (whole_slice (drop 5 (hello_record 1 example_hello)))]) 0] fresh_payload example_state) = Some (Ok (TLS_result ''a.b''))"
proof
  let ?b = "hello_record 1 example_hello" and ?mb = "\<lambda>x. [FromBytes (whole_slice x)]"
  have c: "mb_wf (?mb x)" "mb_content (?mb x) = x" if "length x \<le> 73" for x using FromBytes_whole [of x] that by simp_all
  have t: "take 2 ?b @ take 3 (drop 2 ?b) = take 5 ?b" using take_add [of 2 3 ?b] by simp
  have n: "\<not> prefix ?b (take k ?b)" if "k < 73" for k using example_record that by (auto dest!: prefix_length_le)
  note tls = tls_recognised_exactly [OF example_hello_ok, where minor = 1 and payload = fresh_payload and st = example_state and env = example_env]
  show "snd (sniffer example_env False Network_TCP three_deliveries fresh_payload example_state) = Some (Err errSniffingTimeout)"
    using tls [of three_deliveries "?mb (take 2 ?b)" 0 "?mb (take 3 (drop 2 ?b))" 0 "[Delivers (Ok (?mb (drop 5 ?b))) 0]" "[]"]
      c [of "take 2 ?b"] c [of "take 3 (drop 2 ?b)"] n [of 2] n [of 5] fresh_payload_ok example_record
    by (simp add: three_deliveries_def Let_def t take_is_prefix example_state_def)
  show "snd (sniffer example_env False Network_TCP [Delivers (Ok (?mb (take 5 ?b))) 0, Delivers (Ok (?mb (drop 5 ?b))) 0] fresh_payload example_state) =
      Some (Ok (TLS_result ''a.b''))"
    using tls [of _ "?mb (take 5 ?b)" 0 "?mb (drop 5 ?b)" 0 "[]" "[]", OF refl]
      c [of "take 5 ?b"] c [of "drop 5 ?b"] fresh_payload_ok example_record
    by (simp add: example_state_def)
qed

text \<open>
  C21. Sniffing consumes nothing: when the sniffer has answered, the deliveries it took (with which it answers whatever would come next, and with fewer of
  which it would still be waiting) are in the cache, whole and in order, and the handler that goes on reading through the cached reader gets all bytes of the
  connection in order, those that were sniffed first and those still in the pipe after them.
\<close>

theorem sniffing_keeps_data:
  assumes "sniffer env metadataOnly network evs payload st = (run, Some r)" and "\<forall>p. r \<noteq> Panic p" and "list_all event_wf evs"
  shows "\<exists>seen left. evs = seen @ left \<and> taken_by (\<lambda>evs. sniffer env metadataOnly network evs payload st) seen \<and>
    mb_content (sr_cache run) = concat (map delivered seen) \<and>
    (list_all unfailing left \<longrightarrow> (\<forall>n > Suc (length left). reads n (sr_cache run, left) = concat (map delivered evs)))"
proof -
  from sniffer_cache [OF assms] obtain seen left where
    s: "evs = seen @ left" "taken_by (\<lambda>evs. sniffer env metadataOnly network evs payload st) seen" "mb_wf (sr_cache run)"
    "mb_content (sr_cache run) = concat (map delivered seen)" by blast
  have "reads n (sr_cache run, left) = concat (map delivered evs)" if u: "list_all unfailing left" and l: "n > Suc (length left)" for n
  proof (cases "mb_content (sr_cache run) = []")
    case True
    then show ?thesis using reads_rest [OF u True s(3)] l s(1,4) by simp
  next
    case False
    obtain k where n: "n = Suc k" using l by (cases n) simp_all
    have "cached_ReadMultiBuffer next_delivery (sr_cache run, left) = (([], left), Ok (sr_cache run))"
      using False s(3) by (simp add: cached_ReadMultiBuffer_def readInternal_def mb_IsEmpty_content)
    then show ?thesis using reads_rest [OF u, of "[]" k] l s(1,4) n by simp
  qed
  with s show ?thesis by blast
qed

theorem sniffing_keeps_data_witness:
  "\<exists>run. sniffer example_env False Network_TCP three_deliveries fresh_payload example_state = (run, Some (Err errSniffingTimeout)) \<and>
     mb_content (sr_cache run) = take 5 (hello_record 1 example_hello) \<and> reads 9 (sr_cache run, drop 2 three_deliveries) = hello_record 1 example_hello"
proof -
  let ?f = "\<lambda>evs. sniffer example_env False Network_TCP evs fresh_payload example_state"
  let ?b = "hello_record 1 example_hello" and ?mb = "\<lambda>x. [FromBytes (whole_slice x)]"
  have c: "mb_wf (?mb x)" "mb_content (?mb x) = x" if "length x \<le> 73" for x using FromBytes_whole [of x] that by simp_all
  have t: "take 2 ?b @ take 3 (drop 2 ?b) = take 5 ?b" using take_add [of 2 3 ?b] by simp
  have n: "\<not> prefix ?b (take k ?b)" if "k < 73" for k using example_record that by (auto dest!: prefix_length_le)
  obtain run where run: "?f three_deliveries = (run, Some (Err errSniffingTimeout))" "sr_cache run = ?mb (take 2 ?b) @ ?mb (take 3 (drop 2 ?b))"
    using sniffer_tls_exact [OF example_hello_ok, of three_deliveries "?mb (take 2 ?b)" 0 "?mb (take 3 (drop 2 ?b))" 0 "[Delivers (Ok (?mb (drop 5 ?b))) 0]" 1 "[]" fresh_payload example_state example_env]
      c [of "take 2 ?b"] c [of "take 3 (drop 2 ?b)"] n [of 2] n [of 5] fresh_payload_ok example_record
    by (auto simp: three_deliveries_def Let_def t take_is_prefix example_state_def)
  have wf: "list_all event_wf three_deliveries" using c example_record by (simp add: three_deliveries_def Let_def)
  obtain seen left where s: "three_deliveries = seen @ left" "mb_content (sr_cache run) = concat (map delivered seen)"
    "list_all unfailing left \<longrightarrow> (\<forall>n > Suc (length left). reads n (sr_cache run, left) = concat (map delivered three_deliveries))"
    using sniffing_keeps_data [OF run(1) _ wf] by auto
  have d: "map delivered three_deliveries = [take 2 ?b, take 3 (drop 2 ?b), drop 5 ?b]" "length three_deliveries = 3" "list_all unfailing three_deliveries"
    using c example_record by (simp_all add: three_deliveries_def Let_def)
  have content: "mb_content (sr_cache run) = take 5 ?b" using run(2) c [of "take 2 ?b"] c [of "take 3 (drop 2 ?b)"] example_record t by simp
  have "map delivered seen = take (length seen) [take 2 ?b, take 3 (drop 2 ?b), drop 5 ?b]" using d(1) s(1) by (metis append_eq_conv_conj take_map)
  moreover have "length seen \<le> 3" unfolding d(2) [symmetric] s(1) by simp
  ultimately have "length (take 5 ?b) = length (concat (take (length seen) [take 2 ?b, take 3 (drop 2 ?b), drop 5 ?b]))" using content s(2) by simp
  then have "length seen = 2" using \<open>length seen \<le> 3\<close> example_record by (cases "length seen") (auto simp: le_Suc_eq numeral_3_eq_3)
  then have "left = drop 2 three_deliveries" unfolding s(1) by simp
  moreover have "concat (map delivered three_deliveries) = ?b" unfolding d(1) using append_take_drop_id [of 5 ?b] by (simp add: t [symmetric])
  ultimately show ?thesis using run(1) content s(3) d(2,3) by (simp add: list_all_length)
qed

lemma find_after: "list_all (\<lambda>x. \<not> P x) xs \<Longrightarrow> P y \<Longrightarrow> find P (xs @ y # ys) = Some y"
  by (induction xs) auto

lemma override_tls:
  "list_ex (\<lambda>p. prefix p ''tls'' \<or> prefix ''tls'' p) ps \<Longrightarrow> override_loop None (TLS_result s) ''tls'' d ps = Ok True"
  by (induction ps) auto

text \<open>The session that the router sees after the name has been sniffed.\<close>

definition sniffed_session :: "dispatch_ctx \<Rightarrow> destination \<Rightarrow> string \<Rightarrow> session_ctx" where
  "sniffed_session c destination s =
     (case prepare c destination of
        (ses, ob) \<Rightarrow>
          (let d = destination\<lparr>dest_Address := ParseAddress s\<rparr>;
               ob = (if rq_RouteOnly (dc_request c) then ob\<lparr>out_RouteTarget := d\<rparr> else ob\<lparr>out_Target := d\<rparr>) in
           ses\<lparr>sc_Outbound := Some ob, sc_Content := map_option (\<lambda>ct. ct\<lparr>ct_Protocol := ''tls''\<rparr>) (sc_Content ses)\<rparr>))"

lemma sniffed_name:
  assumes "dest_Network destination = Network_TCP" and "dest_Address destination \<noteq> None" and "ParseAddress s = Some (DomainAddr s)"
    and "case sc_Outbound (dc_session c) of None \<Rightarrow> True | Some ob \<Rightarrow> \<not> dest_IsValid (out_RouteTarget ob)"
    and "case sc_Inbound (dc_session c) of None \<Rightarrow> True | Some i \<Rightarrow> dest_ok (in_Source i)"
  shows "session_TargetDomain (sniffed_session c destination s) = Ok s" and "session_ok (sniffed_session c destination s)"
proof -
  obtain ob where ob: "snd (prepare c destination) = ob" "out_Target ob = destination" "\<not> dest_IsValid (out_RouteTarget ob)"
    using assms(4) by (auto simp: prepare_def Let_def new_outbound_def zero_dest_def dest_IsValid_def split: option.splits)
  let ?s = "sniffed_session c destination s"
  let ?d = "destination\<lparr>dest_Address := ParseAddress s\<rparr>"
  have out: "sc_Outbound ?s = Some (if rq_RouteOnly (dc_request c) then ob\<lparr>out_RouteTarget := ?d\<rparr> else ob\<lparr>out_Target := ?d\<rparr>)"
    using ob(1) by (auto simp: sniffed_session_def Let_def split: prod.splits)
  have inb: "sc_Inbound ?s = sc_Inbound (dc_session c)"
    by (simp add: sniffed_session_def prepare_def Let_def)
  have d: "dest_IsValid destination" "dest_IsValid ?d" using assms(1) by (simp_all add: dest_IsValid_def)
  have f: "dest_Family ?d = Ok AddressFamilyDomain" "dest_Domain ?d = Ok s"
    using assms(3) by (simp_all add: dest_Family_def dest_Domain_def)
  show "session_TargetDomain ?s = Ok s"
    using d f ob(2,3) by (simp add: session_TargetDomain_def out target_domain_def IsDomain_def)
  show "session_ok ?s"
    using assms(2,3,5) ob(2,3) by (simp add: session_ok_def out inb dest_ok_def)
qed

text \<open>
  C2. From the first bytes to the outbound: a TCP connection to an address whose first bytes are a TLS client hello, complete after the first delivery or after a
  second one when the first came within 200 ms, is handed to the outbound that the first rule points to that matches its server name, with all the bytes that were
  delivered.  The name is used for routing also if the destination itself is to stay (\<open>RouteOnly\<close>).  The conditions: sniffing is
  enabled, not for metadata only, may override TLS destinations, and the name is not excluded; there is no fake DNS engine and no forced outbound tag; the
  domain strategy of the router is \<open>AsIs\<close>; the rule consists of one domain condition and has no balancer, no rule
  before it holds, and the manager has a handler of its tag.
\<close>

theorem sniffed_name_routes:
  assumes "hello_ok h" and "announces (ch_extensions h) name" and "check_name name = Ok s"
    and "arrives minor h evs all" and "length (mb_content all) \<le> 32767" and "payload_ok payload"
    and "dest_Network destination = Network_TCP" and "dest_Address destination \<noteq> None"
    and "ParseAddress s = Some (DomainAddr s)" and "s \<noteq> ''''"
    and "case sc_Outbound (dc_session c) of None \<Rightarrow> True | Some ob \<Rightarrow> \<not> dest_IsValid (out_RouteTarget ob)"
    and "case sc_Inbound (dc_session c) of None \<Rightarrow> True | Some i \<Rightarrow> dest_ok (in_Source i)"
    and "sc_Content (dc_session c) \<noteq> None" and "rq_Enabled (dc_request c)" and "\<not> rq_MetadataOnly (dc_request c)"
    and "\<not> excluded compile s (rq_ExcludeForDomain (dc_request c))"
    and "list_ex (\<lambda>p. prefix p ''tls'' \<or> prefix ''tls'' p) (rq_OverrideDestinationForProtocol (dc_request c))"
    and "dc_forced c = ''''" and "re_dns env = dns_of f" and "rt_domainStrategy rt = Config_AsIs"
    and "rt_rules rt = before @ rule # after" and "rl_Condition rule = [DomainCondition dm]" and "ApplyDomain dm s"
    and "list_all (\<lambda>r. \<not> rule_holds (re_ops env) (sniffed_session c destination s) (plain_ips (sniffed_session c destination s)) r) before"
    and "rl_Balancer rule = None" and "GetHandler m (rl_Tag rule) = Some oh"
  shows "\<exists>ses access d'.
    Dispatch env compile senv evs payload c destination None (Some rt, m, d) =
      ((None, Some rt, m, d'), Some (Dispatched oh ses access all)) \<and> session_TargetDomain ses = Ok s"
proof -
  let ?ses = "sniffed_session c destination s"
  obtain ses0 ob0 where prep: "prepare c destination = (ses0, ob0)" by fastforce
  note name = sniffed_name [OF assms(7-9,11,12)]
  have tn: "target_name ?ses = s" using name(1) by (simp add: target_name_def ok_or_def)
  have "rule_holds (re_ops env) ?ses (plain_ips ?ses) rule" using assms(10,22,23) tn by (simp add: rule_holds_def)
  then have "find (rule_holds (re_ops env) ?ses (plain_ips ?ses)) (rt_rules rt) = Some rule"
    using assms(24) by (simp add: assms(21) find_after)
  then have "snd (pickRouteInternal (re_ops env) (re_dns env) rt (Session ?ses) d) = Ok rule"
    using pickRouteInternal_first [OF name(2), of "re_ops env" f rt d] assms(19,20) by simp
  then obtain ctx d' where pick: "pickRouteInternal (re_ops env) (re_dns env) rt (Session ?ses) d = ((ctx, d'), Ok rule)"
    by (metis prod.collapse)
  obtain ob where ob: "sc_Outbound ?ses = Some ob" "apply_result compile None (dc_request c) (TLS_result s) ob0 destination =
      Ok (ob, destination\<lparr>dest_Address := ParseAddress s\<rparr>)"
    using assms(10,16) override_tls [OF assms(17), of s destination]
    by (auto simp: sniffed_session_def prep Let_def apply_result_def shouldOverride_def domain_protocol_def in_fake_pool_def)
  obtain run where run: "sniffer (senv\<lparr>sn_target := destination\<rparr>) False Network_TCP evs payload
        \<lparr>ss_content = sc_Content ses0, ss_fdns = None\<rparr> = (run, Some (Ok (TLS_result s)))"
      "sr_state run = \<lparr>ss_content = sc_Content ses0, ss_fdns = None\<rparr>" "sr_cache run = all"
    using sniffer_tls [OF assms(1-6), of "\<lparr>ss_content = sc_Content ses0, ss_fdns = None\<rparr>"] by auto
  have ses: "ses0\<lparr>sc_Outbound := Some ob, sc_Content := map_option (\<lambda>ct. ct\<lparr>ct_Protocol := ''tls''\<rparr>) (sc_Content ses0)\<rparr> = ?ses"
    using ob(1) by (simp add: sniffed_session_def prep Let_def)
  let ?out = "hand_over 2 (Some oh) ob ?ses (dc_access c) all m"
  have "routedDispatch env (dc_forced c) (dc_access c) ?ses all (Some rt, m, d) = ((Some rt, m, d'), ?out)"
    using assms(18,25,26) ob(1) by (simp add: routedDispatch_def PickRoute_def pick rule_GetTag_def)
  then have "Dispatch env compile senv evs payload c destination None (Some rt, m, d) = ((None, Some rt, m, d'), Some ?out)"
    using assms(7,13-15) run ob(2)
    by (auto simp: Dispatch_def dispatch_body_def prep Let_def dest_IsValid_def ses)
  moreover have "session_TargetDomain (?ses\<lparr>sc_Outbound := Some (ob\<lparr>out_Tag := oh_Tag oh\<rparr>)\<rparr>) = session_TargetDomain ?ses"
    using ob(1) by (simp add: session_TargetDomain_def cong: if_cong)
  ultimately show ?thesis using name(1) by (auto simp: hand_over_def)
qed

definition example_ctx :: dispatch_ctx where
  "example_ctx =
     \<lparr>dc_session = \<lparr>sc_Inbound = None, sc_Outbound = None, sc_Content = Some new_content\<rparr>,
      dc_request = \<lparr>rq_ExcludeForDomain = [''c.d''], rq_OverrideDestinationForProtocol = [''http'', ''tls''], rq_Enabled = True,
                    rq_MetadataOnly = False, rq_RouteOnly = True\<rparr>,
      dc_forced = '''', dc_access = None\<rparr>"

definition example_domain :: domain_matcher where
  "example_domain = ok_or (Mph NewMphMatcherGroup) (NewDomainMatcher (\<lambda>_. None) [\<lparr>rd_Type = Domain_Full, rd_Value = ''a.b''\<rparr>])"

definition example_router :: "((bytes \<times> nat) list, nat) router" where
  "example_router =
     \<lparr>rt_domainStrategy = Config_AsIs,
      rt_rules = [sample_rule ''a'' [NewNetworkMatcher [Network_UDP]], sample_rule ''ab'' [DomainCondition example_domain]],
      rt_balancers = [], rt_heap = [], rt_observatory = False\<rparr>"

definition example_route_env :: "((bytes \<times> nat) list, nat, unit) route_env" where
  "example_route_env = \<lparr>re_ops = list_ipset, re_dns = dns_of (\<lambda>_. None), re_pick = sample_env, re_iterate = id\<rparr>"

theorem sniffed_name_routes_witness:
  "\<exists>ses access d'.
    Dispatch example_route_env (\<lambda>_. None) example_env
      [Delivers (Ok [FromBytes (whole_slice (hello_record 1 example_hello))]) 0] (fst (NewWithSize None pools_init 32767)) example_ctx
      (TCPDestination (IPAddress [1, 2, 3, 4]) 443) None (Some example_router, sample_manager, ()) =
      ((None, Some example_router, sample_manager, d'),
       Some (Dispatched \<lparr>oh_id = 1, oh_Tag = ''ab''\<rparr> ses access [FromBytes (whole_slice (hello_record 1 example_hello))])) \<and>
    session_TargetDomain ses = Ok ''a.b''"
proof (rule sniffed_name_routes [OF example_hello_ok, where minor = 1 and before = "[sample_rule ''a'' [NewNetworkMatcher [Network_UDP]]]"
      and rule = "sample_rule ''ab'' [DomainCondition example_domain]" and after = "[]" and dm = example_domain])
  let ?mb = "[FromBytes (whole_slice (hello_record 1 example_hello))]"
  have len: "length (hello_record 1 example_hello) = 73" by code_simp
  then have mb: "mb_wf ?mb" "mb_content ?mb = hello_record 1 example_hello"
    by (simp_all add: FromBytes_def whole_slice_def buf_wf_def scap_def content_def)
  show "arrives 1 example_hello [Delivers (Ok ?mb) 0] ?mb" unfolding arrives_def using mb by auto
  show "length (mb_content ?mb) \<le> 32767" using mb(2) len by simp
  have "holds (fst (NewWithSize None pools_init 32767)) []" by (rule fresh_holds) (simp_all add: new_pool_array)
  then show "payload_ok (fst (NewWithSize None pools_init 32767))"
    by (auto simp: payload_ok_def holds_def Clear_def buf_wf_def content_def)
  show "ParseAddress ''a.b'' = Some (DomainAddr ''a.b'')" by code_simp
  show "ApplyDomain example_domain ''a.b''" by code_simp
  show "GetHandler sample_manager (rl_Tag (sample_rule ''ab'' [DomainCondition example_domain])) = Some \<lparr>oh_id = 1, oh_Tag = ''ab''\<rparr>"
    by code_simp
  show "\<not> excluded (\<lambda>_. None) ''a.b'' (rq_ExcludeForDomain (dc_request example_ctx))" by code_simp
  show "list_ex (\<lambda>p. prefix p ''tls'' \<or> prefix ''tls'' p) (rq_OverrideDestinationForProtocol (dc_request example_ctx))"
    by (simp add: example_ctx_def)
  have "session_Network (sniffed_session example_ctx (TCPDestination (IPAddress [1, 2, 3, 4]) 443) ''a.b'') = Network_TCP"
    by (simp add: session_Network_def sniffed_session_def prepare_def example_ctx_def Let_def new_outbound_def TCPDestination_def)
  then show "list_all (\<lambda>r. \<not> rule_holds (re_ops example_route_env)
        (sniffed_session example_ctx (TCPDestination (IPAddress [1, 2, 3, 4]) 443) ''a.b'')
        (plain_ips (sniffed_session example_ctx (TCPDestination (IPAddress [1, 2, 3, 4]) 443) ''a.b'')) r)
      [sample_rule ''a'' [NewNetworkMatcher [Network_UDP]]]"
    by (simp add: rule_holds_def sample_rule_def NewNetworkMatcher_def)
qed (simp_all add: example_ctx_def example_route_env_def example_router_def sample_rule_def TCPDestination_def IPAddress_def new_content_def)

section \<open>Links\<close>

text \<open>
  \<open>getLink\<close>: two pipes, and for each direction the counter that the writer is wrapped with, if the policy of the user's
  level asks for it.  The user's address is entered into the online map.
\<close>

record link_pair =
  lp_uplink :: pipe
  lp_downlink :: pipe
  lp_upCounter :: "nat option"
  lp_downCounter :: "nat option"

definition take_counter :: "bool \<Rightarrow> string \<Rightarrow> 'm stats_manager \<Rightarrow> 'm stats_manager \<times> nat option" where
  "take_counter wanted name m =
     (if wanted then
        (case GetOrRegisterCounter name m of
           (m, Ok p) \<Rightarrow> (m, Some p)
         | (m, _) \<Rightarrow> (m, None))
      else (m, None))"

definition note_online :: "bool \<Rightarrow> int \<Rightarrow> int \<Rightarrow> string \<Rightarrow> destination \<Rightarrow> 'm stats_manager \<Rightarrow> 'm stats_manager \<times> unit res" where
  "note_online wanted now later name source m =
     (if \<not> wanted then (m, Ok ())
      else
        (case GetOrRegisterOnlineMap now name m of
           (m, Ok p) \<Rightarrow>
             (case dest_Address source of
                None \<Rightarrow> (m, nil_deref)
              | Some a \<Rightarrow> (m\<lparr>sm_onlineHeap := (sm_onlineHeap m)[p := AddIP now later (addr_String a) (sm_onlineHeap m ! p)]\<rparr>, Ok ()))
         | (m, _) \<Rightarrow> (m, Ok ())))"

definition getLink ::
  "(u32 \<Rightarrow> session_policy) \<Rightarrow> (pipeOption \<Rightarrow> pipeOption) list \<Rightarrow> int \<Rightarrow> int \<Rightarrow> session_inbound option \<Rightarrow> 'm stats_manager
    \<Rightarrow> 'm stats_manager \<times> link_pair res" where
  "getLink forLevel opts now later sessionInbound m =
     (let plain = \<lparr>lp_uplink = pipe_New opts, lp_downlink = pipe_New opts, lp_upCounter = None, lp_downCounter = None\<rparr> in
      case sessionInbound of
        None \<Rightarrow> (m, Ok plain)
      | Some i \<Rightarrow>
          (case in_User i of
             None \<Rightarrow> (m, Ok plain)
           | Some user \<Rightarrow>
               if mu_Email user = '''' then (m, Ok plain)
               else
                 (let p = pl_Stats (forLevel (mu_Level user)) in
                  case take_counter (sp_UserUplink p) (''user>>>'' @ mu_Email user @ ''>>>traffic>>>uplink'') m of
                    (m, up) \<Rightarrow>
                      (case take_counter (sp_UserDownlink p) (''user>>>'' @ mu_Email user @ ''>>>traffic>>>downlink'') m of
                         (m, down) \<Rightarrow>
                           (case note_online (sp_UserOnline p) now later (''user>>>'' @ mu_Email user @ ''>>>online'') (in_Source i) m of
                              (m, r) \<Rightarrow> (m, rmap (\<lambda>_. plain\<lparr>lp_upCounter := up, lp_downCounter := down\<rparr>) r))))))"

text \<open>\<open>SizeStatWriter\<close>: the bytes are counted, then the write goes on to the pipe.\<close>

definition SizeStatWriter_Write ::
  "nat option \<Rightarrow> multi_buffer \<Rightarrow> 'm stats_manager \<times> pipe \<Rightarrow> ('m stats_manager \<times> pipe) \<times> goerr option" where
  "SizeStatWriter_Write counter mb = (\<lambda>(m, p).
     (let m = (case counter of None \<Rightarrow> m | Some c \<Rightarrow> add_to_counter c (mb_Len mb) m) in
      case writeMultiBufferInternal p mb of (p, e) \<Rightarrow> ((m, p), e)))"

lemma take_counter_ok:
  assumes "counters_ok m" and "take_counter wanted name m = (m', c)"
  shows "counters_ok m'" and "wanted \<Longrightarrow> c = GetCounter name m' \<and> c \<noteq> None" and "GetCounter n m \<noteq> None \<Longrightarrow> GetCounter n m' = GetCounter n m"
proof -
  have "counters_ok m' \<and> (wanted \<longrightarrow> c = GetCounter name m' \<and> c \<noteq> None) \<and> (GetCounter n m \<noteq> None \<longrightarrow> GetCounter n m' = GetCounter n m)" for n
  proof (cases "wanted \<and> GetCounter name m = None")
    case True
    let ?p = "length (sm_counterHeap m)"
    have m': "m' = m\<lparr>sm_counters := sm_counters m @ [(name, ?p)], sm_counterHeap := sm_counterHeap m @ [0]\<rparr>" "c = Some ?p"
      using True assms(2)
      by (auto simp: take_counter_def GetOrRegisterCounter_def GetCounter_def RegisterCounter_def Let_def update_fresh)
    have "name \<notin> fst ` set (sm_counters m)" using True by (auto simp: GetCounter_def map_of_eq_None_iff)
    then have "counters_ok m'" using assms(1) by (auto simp: m' counters_ok_def list_all_iff)
    then show ?thesis using True by (auto simp: m' GetCounter_def map_add_def split: option.splits)
  next
    case False
    then have "m' = m" "wanted \<longrightarrow> c = GetCounter name m \<and> c \<noteq> None"
      using assms(2) by (cases "GetCounter name m"; auto simp: take_counter_def GetOrRegisterCounter_def split: if_splits)+
    then show ?thesis using assms(1) by auto
  qed
  then show "counters_ok m'" "wanted \<Longrightarrow> c = GetCounter name m' \<and> c \<noteq> None" "GetCounter n m \<noteq> None \<Longrightarrow> GetCounter n m' = GetCounter n m"
    by blast+
qed

lemma RegisterOnlineMap_keeps:
  "RegisterOnlineMap now name m = (m', r) \<Longrightarrow> sm_counters m' = sm_counters m \<and> sm_counterHeap m' = sm_counterHeap m"
  by (auto simp: RegisterOnlineMap_def Let_def split: if_splits)

lemma GetOrRegisterOnlineMap_keeps:
  "GetOrRegisterOnlineMap now name m = (m', r) \<Longrightarrow> sm_counters m' = sm_counters m \<and> sm_counterHeap m' = sm_counterHeap m"
  by (auto simp: GetOrRegisterOnlineMap_def dest: RegisterOnlineMap_keeps split: option.splits)

lemma note_online_keeps:
  assumes "note_online w now later name source m = (m', r)"
  shows "sm_counters m' = sm_counters m \<and> sm_counterHeap m' = sm_counterHeap m"
proof -
  obtain m1 p where g: "GetOrRegisterOnlineMap now name m = (m1, p)" by fastforce
  show ?thesis
    using assms GetOrRegisterOnlineMap_keeps [OF g]
    by (cases p; cases "dest_Address source") (auto simp: note_online_def g split: if_splits)
qed

lemma note_online_counters: "note_online w now later name source m = (m', r) \<Longrightarrow> counters_ok m \<Longrightarrow>
    counters_ok m' \<and> GetCounter n m' = GetCounter n m \<and> counter_of n m' = counter_of n m"
  by (drule note_online_keeps) (auto simp: counters_ok_def GetCounter_def counter_of_def split: option.splits)

text \<open>
  The uplink of a user is counted: if the policy of the user's level asks for it, what is written to the inbound's end of
  a link is added, byte for byte, to the counter of the user's uplink and to no other counter.
\<close>

theorem user_uplink_counted:
  assumes "counters_ok m" and "in_User i = Some user" and "mu_Email user \<noteq> ''''" and "sp_UserUplink (pl_Stats (forLevel (mu_Level user)))"
    and "getLink forLevel opts now later (Some i) m = (m', Ok link)"
    and "mb_wf mb" and "length (mb_content mb) < 2147483648"
    and "SizeStatWriter_Write (lp_upCounter link) mb (m', lp_uplink link) = ((m'', p), e)"
  shows "counter_of n m'' = counter_of n m' +
    (if n = ''user>>>'' @ mu_Email user @ ''>>>traffic>>>uplink'' then word_of_nat (length (mb_content mb)) else 0)"
proof -
  let ?name = "''user>>>'' @ mu_Email user @ ''>>>traffic>>>uplink''"
  let ?p = "pl_Stats (forLevel (mu_Level user))"
  obtain m1 up where u: "take_counter (sp_UserUplink ?p) ?name m = (m1, up)" by fastforce
  obtain m2 down where d: "take_counter (sp_UserDownlink ?p) (''user>>>'' @ mu_Email user @ ''>>>traffic>>>downlink'') m1 = (m2, down)" by fastforce
  obtain m3 r where o: "note_online (sp_UserOnline ?p) now later (''user>>>'' @ mu_Email user @ ''>>>online'') (in_Source i) m2 = (m3, r)" by fastforce
  note ok1 = take_counter_ok [OF assms(1) u] note ok2 = take_counter_ok [OF ok1(1) d] note ok3 = note_online_counters [OF o ok2(1)]
  have up: "GetCounter ?name m3 = up" "up \<noteq> None" using ok1(2) [OF assms(4)] ok2(3) [of ?name] ok3 [of ?name] by auto
  have l: "m' = m3" "lp_upCounter link = up" using assms(2,3,5) u d o by (auto simp: getLink_def Let_def rmap_Ok_iff)
  obtain q where q: "up = Some q" using up(2) by auto
  have "m'' = add_to_counter q (mb_Len mb) m'" using assms(8) l(2) q by (auto simp: SizeStatWriter_Write_def Let_def split: prod.splits)
  moreover have "mb_Len mb = int (length (mb_content mb))" using mb_Len_content [OF assms(6,7)] .
  ultimately show ?thesis using add_counter_of [of m' ?name q n] ok3 up(1) q l(1) by auto
qed

definition example_user :: session_inbound where
  "example_user = \<lparr>in_Source = TCPDestination (IPAddress [1, 2, 3, 4]) 443, in_Gateway = zero_dest, in_Tag = ''in'', in_Name = ''vless'',
     in_User = Some \<lparr>mu_Email = ''u'', mu_Level = 0\<rparr>\<rparr>"

definition example_level :: "u32 \<Rightarrow> session_policy" where
  "example_level l = (SessionDefault 0)\<lparr>pl_Stats := \<lparr>sp_UserUplink = True, sp_UserDownlink = False, sp_UserOnline = True\<rparr>\<rparr>"

definition example_link :: "nat stats_manager \<times> link_pair res" where
  "example_link = getLink example_level [] 0 0 (Some example_user) NewManager"

theorem user_uplink_counted_witness:
  "\<exists>link m p e. snd example_link = Ok link \<and>
    SizeStatWriter_Write (lp_upCounter link) [FromBytes (whole_slice [1, 2, 3])] (fst example_link, lp_uplink link) = ((m, p), e) \<and>
    counter_of ''user>>>u>>>traffic>>>uplink'' m = counter_of ''user>>>u>>>traffic>>>uplink'' (fst example_link) + 3"
proof -
  obtain link where l: "getLink example_level [] 0 0 (Some example_user) (NewManager :: nat stats_manager) = (fst example_link, Ok link)"
    unfolding example_link_def
    by (auto simp: getLink_def example_user_def example_level_def Let_def take_counter_def note_online_def GetOrRegisterCounter_def
        GetCounter_def RegisterCounter_def NewManager_def GetOrRegisterOnlineMap_def GetOnlineMap_def RegisterOnlineMap_def TCPDestination_def IPAddress_def
        rmap_Ok_iff)
  obtain m p e where w: "SizeStatWriter_Write (lp_upCounter link) [FromBytes (whole_slice [1, 2, 3])] (fst example_link, lp_uplink link) = ((m, p), e)"
    by (metis prod.collapse)
  have "counters_ok (NewManager :: nat stats_manager)" by (simp add: counters_ok_def NewManager_def)
  from user_uplink_counted [OF this _ _ _ l _ _ w, of "\<lparr>mu_Email = ''u'', mu_Level = 0\<rparr>" "''user>>>u>>>traffic>>>uplink''"]
  have "counter_of ''user>>>u>>>traffic>>>uplink'' m = counter_of ''user>>>u>>>traffic>>>uplink'' (fst example_link) + 3"
    by (simp add: example_user_def example_level_def FromBytes_def whole_slice_def buf_wf_def scap_def content_def)
  moreover have "snd example_link = Ok link" by (subst example_link_def, subst l) simp
  ultimately show ?thesis using w by blast
qed

end
