(* ===== verification/Vision.thy ===== *)
theory Vision
  imports MultiBuffer AddressCodec
begin

text \<open>
  XTLS Vision (\<open>proxy/proxy.go\<close>): the traffic state of a connection, the filter that looks for a TLS 1.3 handshake, the
  padding of written buffers, the removal of the padding on the other side and the reader and writer that apply them.

  The arrays that \<open>buf.New\<close> takes from the pool are a function \<open>pool\<close> of the number of the call, the random numbers a
  function \<open>rnd\<close> of the number of the call and of the bound.  A buffer pointer that may be nil is an option.
\<close>

section \<open>Traffic state\<close>

text \<open>
  \<open>InboundState\<close> and \<open>OutboundState\<close> have the same fields up to the names of the two directions: \<open>ls_readerDirect\<close> is
  \<open>UplinkReaderDirectCopy\<close> of the one and \<open>DownlinkReaderDirectCopy\<close> of the other, \<open>ls_writerDirect\<close> correspondingly.
\<close>

record link_state =
  ls_within :: bool
  ls_readerDirect :: bool
  ls_command :: int
  ls_content :: int
  ls_padding :: int
  ls_current :: int
  ls_isPadding :: bool
  ls_writerDirect :: bool

record traffic_state =
  ts_UserUUID :: bytes
  ts_toFilter :: int
  ts_EnableXtls :: bool
  ts_IsTLS12orAbove :: bool
  ts_IsTLS :: bool
  ts_Cipher :: u16
  ts_RemainingServerHello :: int
  ts_Inbound :: link_state
  ts_Outbound :: link_state

definition new_link_state :: link_state where
  "new_link_state =
     \<lparr>ls_within = True, ls_readerDirect = False, ls_command = -1, ls_content = -1, ls_padding = -1, ls_current = 0,
      ls_isPadding = True, ls_writerDirect = False\<rparr>"

definition NewTrafficState :: "bytes \<Rightarrow> traffic_state" where
  "NewTrafficState userUUID =
     \<lparr>ts_UserUUID = userUUID, ts_toFilter = 8, ts_EnableXtls = False, ts_IsTLS12orAbove = False, ts_IsTLS = False,
      ts_Cipher = 0, ts_RemainingServerHello = -1, ts_Inbound = new_link_state, ts_Outbound = new_link_state\<rparr>"

text \<open>Which half the reader and the writer of a direction work on.\<close>

definition reader_side :: "bool \<Rightarrow> traffic_state \<Rightarrow> link_state" where
  "reader_side isUplink t = (if isUplink then ts_Inbound t else ts_Outbound t)"

definition set_reader_side :: "bool \<Rightarrow> link_state \<Rightarrow> traffic_state \<Rightarrow> traffic_state" where
  "set_reader_side isUplink s t = (if isUplink then t\<lparr>ts_Inbound := s\<rparr> else t\<lparr>ts_Outbound := s\<rparr>)"

definition writer_side :: "bool \<Rightarrow> traffic_state \<Rightarrow> link_state" where
  "writer_side isUplink t = (if isUplink then ts_Outbound t else ts_Inbound t)"

definition set_writer_side :: "bool \<Rightarrow> link_state \<Rightarrow> traffic_state \<Rightarrow> traffic_state" where
  "set_writer_side isUplink s t = (if isUplink then t\<lparr>ts_Outbound := s\<rparr> else t\<lparr>ts_Inbound := s\<rparr>)"

section \<open>The filter\<close>

definition Tls13SupportedVersions :: bytes where "Tls13SupportedVersions = [0, 0x2b, 0, 2, 3, 4]"
definition TlsClientHandShakeStart :: bytes where "TlsClientHandShakeStart = [0x16, 3]"
definition TlsServerHandShakeStart :: bytes where "TlsServerHandShakeStart = [0x16, 3, 3]"
definition TlsApplicationDataStart :: bytes where "TlsApplicationDataStart = [0x17, 3, 3]"

definition Tls13CipherSuiteDic :: "u16 \<Rightarrow> string option" where
  "Tls13CipherSuiteDic = map_of
     [(0x1301, ''TLS_AES_128_GCM_SHA256''), (0x1302, ''TLS_AES_256_GCM_SHA384''), (0x1303, ''TLS_CHACHA20_POLY1305_SHA256''),
      (0x1304, ''TLS_AES_128_CCM_SHA256''), (0x1305, ''TLS_AES_128_CCM_8_SHA256'')]"

fun bytes_Contains :: "bytes \<Rightarrow> bytes \<Rightarrow> bool" where
  "bytes_Contains [] sep \<longleftrightarrow> sep = []"
| "bytes_Contains (x # xs) sep \<longleftrightarrow> prefix sep (x # xs) \<or> bytes_Contains xs sep"

definition opt_Len :: "buffer option \<Rightarrow> int" where
  "opt_Len b = (case b of None \<Rightarrow> 0 | Some b \<Rightarrow> Len b)"

definition be16 :: "byte \<Rightarrow> byte \<Rightarrow> int" where
  "be16 hi lo = uint hi * 256 + uint lo"

text \<open>A server hello or a client hello at the start of a buffer.\<close>

definition note_hello :: "buffer \<Rightarrow> traffic_state \<Rightarrow> traffic_state res" where
  "note_hello b t =
     (if Len b \<ge> 6 then
        rbind (BytesTo b 6) (\<lambda>st.
          if take 3 st = TlsServerHandShakeStart \<and> st ! 5 = 2 then
            (let t = t\<lparr>ts_RemainingServerHello := be16 (st ! 3) (st ! 4) + 5, ts_IsTLS12orAbove := True, ts_IsTLS := True\<rparr> in
             if Len b \<ge> 79 \<and> ts_RemainingServerHello t \<ge> 79 then
               rbind (buf_Byte b 43) (\<lambda>sid.
                 rmap (\<lambda>cs. t\<lparr>ts_Cipher := word_of_int (be16 (cs ! 0) (cs ! 1))\<rparr>)
                   (BytesRange b (43 + uint sid + 1) (43 + uint sid + 3)))
             else Ok t)
          else if take 2 st = TlsClientHandShakeStart \<and> st ! 5 = 1 then Ok (t\<lparr>ts_IsTLS := True\<rparr>)
          else Ok t)
      else Ok t)"

text \<open>The rest of the server hello; the flag says that the filter returns.\<close>

definition follow_hello :: "buffer \<Rightarrow> traffic_state \<Rightarrow> (traffic_state \<times> bool) res" where
  "follow_hello b t =
     (if ts_RemainingServerHello t > 0 then
        rbind (BytesTo b (min (ts_RemainingServerHello t) (Len b))) (\<lambda>hello.
          (let t = t\<lparr>ts_RemainingServerHello := i32 (ts_RemainingServerHello t - Len b)\<rparr> in
           if bytes_Contains hello Tls13SupportedVersions then
             (let t = (case Tls13CipherSuiteDic (ts_Cipher t) of
                         None \<Rightarrow> t
                       | Some v \<Rightarrow> if v \<noteq> ''TLS_AES_128_CCM_8_SHA256'' then t\<lparr>ts_EnableXtls := True\<rparr> else t) in
              Ok (t\<lparr>ts_toFilter := 0\<rparr>, True))
           else if ts_RemainingServerHello t \<le> 0 then Ok (t\<lparr>ts_toFilter := 0\<rparr>, True)
           else Ok (t, False)))
      else Ok (t, False))"

fun XtlsFilterTls :: "buffer option list \<Rightarrow> traffic_state \<Rightarrow> traffic_state res" where
  "XtlsFilterTls [] t = Ok t"
| "XtlsFilterTls (None # mb) t = XtlsFilterTls mb t"
| "XtlsFilterTls (Some b # mb) t =
     rbind (note_hello b (t\<lparr>ts_toFilter := ts_toFilter t - 1\<rparr>)) (\<lambda>t.
       rbind (follow_hello b t) (\<lambda>(t, stop). if stop then Ok t else XtlsFilterTls mb t))"

section \<open>Padding\<close>

fun last_index_from :: "nat \<Rightarrow> bytes \<Rightarrow> bytes \<Rightarrow> int" where
  "last_index_from k [] sep = (if sep = [] then int k else -1)"
| "last_index_from k (x # xs) sep =
     (let i = last_index_from (Suc k) xs sep in
      if i \<ge> 0 then i else if prefix sep (x # xs) then int k else -1)"

definition LastIndex :: "bytes \<Rightarrow> bytes \<Rightarrow> int" where
  "LastIndex s sep = last_index_from 0 s sep"

text \<open>A buffer with less than 21 free bytes is cut in two, before the last application data record if there is one in range.\<close>

definition reshape_one :: "bytes \<Rightarrow> buffer \<Rightarrow> (buffer option list) res" where
  "reshape_one fresh buffer1 =
     rbind (Bytes buffer1) (\<lambda>bs.
       (let index = LastIndex bs TlsApplicationDataStart;
            index = (if index < 21 \<or> index > Size - 21 then Size div 2 else index) in
        rbind (BytesFrom buffer1 index) (\<lambda>tl.
        rbind (Write (New fresh) tl) (\<lambda>(buffer2, _).
        rmap (\<lambda>buffer1. [Some buffer1, Some buffer2]) (Resize buffer1 0 index)))))"

fun reshape_loop :: "(nat \<Rightarrow> bytes) \<Rightarrow> nat \<Rightarrow> buffer option list \<Rightarrow> (buffer option list) res" where
  "reshape_loop pool k [] = Ok []"
| "reshape_loop pool k (b # mb) =
     rbind (case b of
         Some buffer1 \<Rightarrow> if Len buffer1 \<ge> Size - 21 then reshape_one (pool k) buffer1 else Ok [b]
       | None \<Rightarrow> Ok [b])
       (\<lambda>bs. rmap (\<lambda>rest. bs @ rest) (reshape_loop pool (Suc k) mb))"

definition ReshapeMultiBuffer :: "(nat \<Rightarrow> bytes) \<Rightarrow> buffer option list \<Rightarrow> (buffer option list) res" where
  "ReshapeMultiBuffer pool mb =
     (if list_all (\<lambda>b. \<not> opt_Len b \<ge> Size - 21) mb then Ok mb else reshape_loop pool 0 mb)"

definition padding_len :: "(int \<Rightarrow> int) \<Rightarrow> int \<Rightarrow> bool \<Rightarrow> int" where
  "padding_len rnd contentLen longPadding =
     (let paddingLen = (if contentLen < 900 \<and> longPadding then i32 (i32 (i32 (rnd 500) + 900) - contentLen) else i32 (rnd 256)) in
      if paddingLen > Size - 21 - contentLen then Size - 21 - contentLen else paddingLen)"

definition XtlsPadding :: "bytes \<Rightarrow> (int \<Rightarrow> int) \<Rightarrow> buffer option \<Rightarrow> byte \<Rightarrow> bytes \<Rightarrow> bool \<Rightarrow> buffer res" where
  "XtlsPadding fresh rnd b command userUUID longPadding =
     (let contentLen = opt_Len b;
          paddingLen = padding_len rnd contentLen longPadding in
      rbind (Write (New fresh) userUUID) (\<lambda>(newbuffer, _).
      rbind (Write newbuffer
          [command, word_of_int (contentLen div 256), word_of_int contentLen, word_of_int (paddingLen div 256), word_of_int paddingLen])
        (\<lambda>(newbuffer, _).
      rbind (case b of None \<Rightarrow> Ok newbuffer | Some b \<Rightarrow> rbind (Bytes b) (\<lambda>bs. rmap fst (Write newbuffer bs))) (\<lambda>newbuffer.
      rmap fst (Extend newbuffer paddingLen)))))"

definition CommandPaddingContinue :: byte where "CommandPaddingContinue = 0"
definition CommandPaddingEnd :: byte where "CommandPaddingEnd = 1"
definition CommandPaddingDirect :: byte where "CommandPaddingDirect = 2"

definition application_data :: "traffic_state \<Rightarrow> buffer option \<Rightarrow> bool res" where
  "application_data t b =
     (case b of
        None \<Rightarrow> Ok False
      | Some b \<Rightarrow>
          if ts_IsTLS t \<and> Len b \<ge> 6 then rmap (\<lambda>st. st = TlsApplicationDataStart) (BytesTo b 3) else Ok False)"

definition final_command :: "traffic_state \<Rightarrow> byte" where
  "final_command t = (if ts_EnableXtls t then CommandPaddingDirect else CommandPaddingEnd)"

text \<open>The loop over the buffers of a write, with the number of the next call of the pool and of the random source.\<close>

fun pad_loop ::
  "(nat \<Rightarrow> bytes) \<Rightarrow> (nat \<Rightarrow> int \<Rightarrow> int) \<Rightarrow> nat \<Rightarrow> traffic_state \<Rightarrow> buffer option list \<Rightarrow> bool \<Rightarrow> bytes \<Rightarrow> link_state
    \<Rightarrow> (buffer option list \<times> bytes \<times> link_state) res" where
  "pad_loop pool rnd k t [] longPadding uuid s = Ok ([], uuid, s)"
| "pad_loop pool rnd k t (b # mb) longPadding uuid s =
     rbind (application_data t b) (\<lambda>app.
       if app then
         (let s = (if ts_EnableXtls t then s\<lparr>ls_writerDirect := True\<rparr> else s);
              command = (if mb = [] then final_command t else CommandPaddingContinue) in
          rbind (XtlsPadding (pool k) (rnd k) b command uuid True) (\<lambda>p.
          rmap (\<lambda>(out, r). (Some p # out, r)) (pad_loop pool rnd (Suc k) t mb False [] (s\<lparr>ls_isPadding := False\<rparr>))))
       else if \<not> ts_IsTLS12orAbove t \<and> ts_toFilter t \<le> 1 then
         rmap (\<lambda>p. (Some p # mb, [], s\<lparr>ls_isPadding := False\<rparr>)) (XtlsPadding (pool k) (rnd k) b CommandPaddingEnd uuid longPadding)
       else
         (let command = (if mb = [] \<and> \<not> ls_isPadding s then final_command t else CommandPaddingContinue) in
          rbind (XtlsPadding (pool k) (rnd k) b command uuid longPadding) (\<lambda>p.
          rmap (\<lambda>(out, r). (Some p # out, r)) (pad_loop pool rnd (Suc k) t mb longPadding [] s))))"

text \<open>\<open>VisionWriter.WriteMultiBuffer\<close>: what goes to the writer below, the identifier that is still to be sent, and the state.\<close>

definition Vision_Write ::
  "(nat \<Rightarrow> bytes) \<Rightarrow> (nat \<Rightarrow> int \<Rightarrow> int) \<Rightarrow> bool \<Rightarrow> buffer option list \<Rightarrow> bytes \<times> traffic_state
    \<Rightarrow> (buffer option list \<times> bytes \<times> traffic_state) res" where
  "Vision_Write pool rnd isUplink mb = (\<lambda>(uuid, t).
     rbind (if ts_toFilter t > 0 then XtlsFilterTls mb t else Ok t) (\<lambda>t.
       (let s = writer_side isUplink t in
        if ls_isPadding s then
          (if mb = [None] then
             rmap (\<lambda>p. ([Some p], [], t)) (XtlsPadding (pool 0) (rnd 0) None CommandPaddingContinue uuid True)
           else
             rbind (ReshapeMultiBuffer (\<lambda>i. pool (2 * i + 1)) mb) (\<lambda>mb.
             rmap (\<lambda>(out, uuid, s). (out, uuid, set_writer_side isUplink s t))
               (pad_loop (\<lambda>i. pool (2 * i)) rnd 0 t mb (ts_IsTLS t) uuid s)))
        else Ok (mb, uuid, t))))"

section \<open>Removing the padding\<close>

text \<open>One round of the loop: what is left of the buffer, the new buffer, the state, and whether the loop is left.\<close>

definition take_command :: "byte \<Rightarrow> link_state \<Rightarrow> link_state" where
  "take_command data s =
     (let s = (if ls_command s = 5 then s\<lparr>ls_current := uint data\<rparr>
               else if ls_command s = 4 then s\<lparr>ls_content := uint data * 256\<rparr>
               else if ls_command s = 3 then s\<lparr>ls_content := ls_content s OR uint data\<rparr>
               else if ls_command s = 2 then s\<lparr>ls_padding := uint data * 256\<rparr>
               else if ls_command s = 1 then s\<lparr>ls_padding := ls_padding s OR uint data\<rparr>
               else s) in
      s\<lparr>ls_command := ls_command s - 1\<rparr>)"

definition block_done :: "link_state \<Rightarrow> bool" where
  "block_done s \<longleftrightarrow> ls_command s \<le> 0 \<and> ls_content s \<le> 0 \<and> ls_padding s \<le> 0"

definition unpad_step :: "buffer \<Rightarrow> buffer \<Rightarrow> link_state \<Rightarrow> (buffer \<times> buffer \<times> link_state) res" where
  "unpad_step b newbuffer s =
     (if ls_command s > 0 then
        rmap (\<lambda>(b, data). (b, newbuffer, take_command data s)) (ReadByte b)
      else if ls_content s > 0 then
        (let len = min (ls_content s) (Len b) in
         rbind (ReadBytes b len) (\<lambda>(b, data).
           rmap (\<lambda>(newbuffer, _). (b, newbuffer, s\<lparr>ls_content := ls_content s - len\<rparr>)) (Write newbuffer data)))
      else
        (let len = (if Len b < ls_padding s then Len b else ls_padding s) in
         Ok (Advance b len, newbuffer, s\<lparr>ls_padding := ls_padding s - len\<rparr>)))"

partial_function (option) unpad_loop :: "buffer \<Rightarrow> buffer \<Rightarrow> link_state \<Rightarrow> (buffer \<times> link_state) res option" where
  "unpad_loop b newbuffer s =
     (if Len b > 0 then
        (case unpad_step b newbuffer s of
           Err e \<Rightarrow> Some (Ok (newbuffer, s))
         | Panic p \<Rightarrow> Some (Panic p)
         | Ok r \<Rightarrow>
             (if block_done (snd (snd r)) then
                (if ls_current (snd (snd r)) = 0 then unpad_loop (fst r) (fst (snd r)) ((snd (snd r))\<lparr>ls_command := 5\<rparr>)
                 else
                   Some (rmap (\<lambda>n. (n, (snd (snd r))\<lparr>ls_command := -1, ls_content := -1, ls_padding := -1\<rparr>))
                     (if Len (fst r) > 0 then rbind (Bytes (fst r)) (\<lambda>bs. rmap fst (Write (fst (snd r)) bs)) else Ok (fst (snd r)))))
              else unpad_loop (fst r) (fst (snd r)) (snd (snd r))))
      else Some (Ok (newbuffer, s)))"

declare unpad_loop.simps [code]

text \<open>A loop that does not end counts as a panic of its own.\<close>

definition XtlsUnpadding :: "bytes \<Rightarrow> buffer \<Rightarrow> bool \<Rightarrow> traffic_state \<Rightarrow> (buffer \<times> traffic_state) res" where
  "XtlsUnpadding fresh b isUplink t =
     (let s = reader_side isUplink t;
          run = (\<lambda>b s. rmap (\<lambda>(n, s). (n, set_reader_side isUplink s t))
                  (case unpad_loop b (New fresh) s of None \<Rightarrow> Panic ''does not return'' | Some r \<Rightarrow> r)) in
      if ls_command s = -1 \<and> ls_content s = -1 \<and> ls_padding s = -1 then
        (if Len b \<ge> 21 then
           rbind (BytesTo b 16) (\<lambda>start.
             if ts_UserUUID t = start then run (Advance b 16) (s\<lparr>ls_command := 5\<rparr>) else Ok (b, t))
         else Ok (b, t))
      else run b s)"

fun unpad_buffers :: "(nat \<Rightarrow> bytes) \<Rightarrow> nat \<Rightarrow> multi_buffer \<Rightarrow> bool \<Rightarrow> traffic_state \<Rightarrow> (multi_buffer \<times> traffic_state) res" where
  "unpad_buffers pool k [] isUplink t = Ok ([], t)"
| "unpad_buffers pool k (b # mb) isUplink t =
     rbind (XtlsUnpadding (pool k) b isUplink t) (\<lambda>(n, t).
       rmap (\<lambda>(out, t). (if Len n > 0 then n # out else out, t)) (unpad_buffers pool (Suc k) mb isUplink t))"

definition after_read :: "link_state \<Rightarrow> link_state" where
  "after_read s =
     (if ls_content s > 0 \<or> ls_padding s > 0 \<or> ls_current s = 0 then s\<lparr>ls_within := True\<rparr>
      else if ls_current s = 1 then s\<lparr>ls_within := False\<rparr>
      else if ls_current s = 2 then s\<lparr>ls_within := False, ls_readerDirect := True\<rparr>
      else s)"

text \<open>\<open>VisionReader.ReadMultiBuffer\<close>, given what the reader below has returned.\<close>

definition Vision_Read :: "(nat \<Rightarrow> bytes) \<Rightarrow> bool \<Rightarrow> multi_buffer \<Rightarrow> traffic_state \<Rightarrow> (multi_buffer \<times> traffic_state) res" where
  "Vision_Read pool isUplink mb t =
     (if mb_IsEmpty mb then Ok (mb, t)
      else
        rbind (if ls_within (reader_side isUplink t) \<or> ts_toFilter t > 0
               then rmap (\<lambda>(mb, t). (mb, set_reader_side isUplink (after_read (reader_side isUplink t)) t)) (unpad_buffers pool 0 mb isUplink t)
               else Ok (mb, t))
          (\<lambda>(mb, t). if ts_toFilter t > 0 then rmap (\<lambda>t. (mb, t)) (XtlsFilterTls (map Some mb) t) else Ok (mb, t)))"

section \<open>The parse of a padded stream\<close>

text \<open>
  The reference for the removal of the padding: a machine that takes one byte at a time.  After a block that ends the
  padding every byte is content.
\<close>

definition idle :: "link_state \<Rightarrow> bool" where
  "idle s \<longleftrightarrow> ls_command s = -1 \<and> ls_content s = -1 \<and> ls_padding s = -1"

definition settle :: "link_state \<Rightarrow> link_state" where
  "settle s =
     (if \<not> block_done s then s
      else if ls_current s = 0 then s\<lparr>ls_command := 5\<rparr>
      else s\<lparr>ls_command := -1, ls_content := -1, ls_padding := -1\<rparr>)"

definition unpad_byte :: "link_state \<Rightarrow> byte \<Rightarrow> link_state \<times> bytes" where
  "unpad_byte s x =
     (if idle s then (s, [x])
      else if ls_command s > 0 then (settle (take_command x s), [])
      else if ls_content s > 0 then (settle (s\<lparr>ls_content := ls_content s - 1\<rparr>), [x])
      else (settle (s\<lparr>ls_padding := ls_padding s - 1\<rparr>), []))"

fun unpad_bytes :: "link_state \<Rightarrow> bytes \<Rightarrow> link_state \<times> bytes" where
  "unpad_bytes s [] = (s, [])"
| "unpad_bytes s (x # xs) =
     (case unpad_byte s x of (s', out) \<Rightarrow> (case unpad_bytes s' xs of (s'', out') \<Rightarrow> (s'', out @ out')))"

lemma unpad_bytes_append:
  "unpad_bytes s (xs @ ys) = (fst (unpad_bytes (fst (unpad_bytes s xs)) ys), snd (unpad_bytes s xs) @ snd (unpad_bytes (fst (unpad_bytes s xs)) ys))"
  by (induction xs arbitrary: s) (simp_all add: case_prod_unfold)

lemma idle_bytes [simp]: "idle s \<Longrightarrow> unpad_bytes s xs = (s, xs)"
  by (induction xs) (simp_all add: unpad_byte_def)

lemma idle_done: "idle s \<Longrightarrow> block_done s"
  by (simp add: idle_def block_done_def)

lemma settle_cases: "\<not> block_done (settle s) \<or> idle (settle s)"
  by (simp add: settle_def idle_def block_done_def)

lemma unpad_bytes_cases: "\<not> block_done s \<or> idle s \<Longrightarrow> \<not> block_done (fst (unpad_bytes s xs)) \<or> idle (fst (unpad_bytes s xs))"
proof (induction xs arbitrary: s)
  case (Cons x xs)
  have "\<not> block_done (fst (unpad_byte s x)) \<or> idle (fst (unpad_byte s x))"
    using Cons.prems settle_cases by (auto simp: unpad_byte_def)
  then show ?case using Cons.IH by (simp split: prod.splits) (metis fst_conv)
qed simp

text \<open>Runs of content and of padding.\<close>

lemma settle_running: "ls_content s > 0 \<or> ls_padding s > 0 \<Longrightarrow> settle s = s"
  by (auto simp: settle_def block_done_def)

lemma unpad_content_run:
  "ls_command s \<le> 0 \<Longrightarrow> xs \<noteq> [] \<Longrightarrow> int (length xs) \<le> ls_content s \<Longrightarrow>
     unpad_bytes s xs = (settle (s\<lparr>ls_content := ls_content s - int (length xs)\<rparr>), xs)"
proof (induction xs arbitrary: s)
  case (Cons x xs)
  have b: "unpad_byte s x = (settle (s\<lparr>ls_content := ls_content s - 1\<rparr>), [x])"
    using Cons.prems by (auto simp: unpad_byte_def idle_def)
  show ?case
  proof (cases xs)
    case (Cons y ys)
    then have "settle (s\<lparr>ls_content := ls_content s - 1\<rparr>) = s\<lparr>ls_content := ls_content s - 1\<rparr>"
      using Cons.prems by (intro settle_running) simp
    moreover have "ls_content s - 1 - int (length xs) = ls_content s - int (length (x # xs))" by simp
    ultimately show ?thesis using Cons.IH [of "s\<lparr>ls_content := ls_content s - 1\<rparr>"] Cons.prems b Cons by (simp add: algebra_simps)
  qed (use b in simp)
qed simp

lemma unpad_padding_run:
  "ls_command s \<le> 0 \<Longrightarrow> ls_content s \<le> 0 \<Longrightarrow> xs \<noteq> [] \<Longrightarrow> int (length xs) \<le> ls_padding s \<Longrightarrow>
     unpad_bytes s xs = (settle (s\<lparr>ls_padding := ls_padding s - int (length xs)\<rparr>), [])"
proof (induction xs arbitrary: s)
  case (Cons x xs)
  have b: "unpad_byte s x = (settle (s\<lparr>ls_padding := ls_padding s - 1\<rparr>), [])"
    using Cons.prems by (auto simp: unpad_byte_def idle_def)
  show ?case
  proof (cases xs)
    case (Cons y ys)
    then have "settle (s\<lparr>ls_padding := ls_padding s - 1\<rparr>) = s\<lparr>ls_padding := ls_padding s - 1\<rparr>"
      using Cons.prems by (intro settle_running) simp
    moreover have "ls_padding s - 1 - int (length xs) = ls_padding s - int (length (x # xs))" by simp
    ultimately show ?thesis using Cons.IH [of "s\<lparr>ls_padding := ls_padding s - 1\<rparr>"] Cons.prems b Cons by (simp add: algebra_simps)
  qed (use b in simp)
qed simp

section \<open>The loop implements the parse\<close>

lemma unpad_out_length: "length (snd (unpad_bytes s xs)) \<le> length xs"
proof (induction xs arbitrary: s)
  case (Cons x xs)
  have "length (snd (unpad_byte s x)) \<le> 1" by (simp add: unpad_byte_def)
  then show ?case using Cons.IH [of "fst (unpad_byte s x)"] by (simp add: case_prod_unfold)
qed simp

lemma ReadByte_content:
  assumes "buf_wf b" and "content b = x # xs"
  shows "\<exists>b'. ReadByte b = Ok (b', x) \<and> buf_wf b' \<and> content b' = xs"
proof -
  note w = buf_wf_bounds [OF assms(1)] length_content [OF assms(1)] Len_content [OF assms(1)]
  have a: "buf_wf (b\<lparr>buf_start := buf_start b + 1\<rparr>) \<and> content (b\<lparr>buf_start := buf_start b + 1\<rparr>) = xs"
    using advance_start_content [OF assms(1), of 1] w assms(2) by simp
  have "buf_Byte b 0 = Ok x" using buf_Byte_content [OF assms(1), of 0] w assms(2) by simp
  moreover have "i32 (buf_start b) = buf_start b" using w by (intro i32_id) linarith+
  ultimately have "slice_get (buf_v b) (buf_start b) = Ok x" by (simp add: buf_Byte_def)
  moreover have "i32 (buf_start b + 1) = buf_start b + 1" "buf_start b \<noteq> buf_end b" using w assms(2) by auto
  ultimately show ?thesis using a by (simp add: ReadByte_def)
qed

lemma ReadBytes_content:
  assumes "buf_wf b" and "0 \<le> n" and "n \<le> Len b"
  shows "\<exists>b'. ReadBytes b n = Ok (b', take (nat n) (content b)) \<and> buf_wf b' \<and> content b' = drop (nat n) (content b)"
proof -
  note w = buf_wf_bounds [OF assms(1)] length_content [OF assms(1)] Len_content [OF assms(1)]
  have "slice_range (buf_v b) (buf_start b) (buf_start b + n) = Ok (take (nat n) (content b))"
    using slice_range_content [OF assms(1) order.refl assms(2,3)] by simp
  moreover have "i32 (buf_start b + n) = buf_start b + n" "\<not> i32 (buf_end b - buf_start b) < n" using w assms by auto
  ultimately show ?thesis using advance_start_content [OF assms] by (simp add: ReadBytes_def)
qed

lemma unpad_step_ok:
  assumes "buf_wf b" and "content b \<noteq> []" and "buf_wf nb" and "length (content b) \<le> room nb" and "\<not> block_done s"
  obtains b' out s' xs where
    "unpad_step b nb s = Ok (b', append_at_end nb out, s')" "buf_wf b'" "content b = xs @ content b'" "xs \<noteq> []"
    "unpad_bytes s xs = (settle s', out)" "length out \<le> length xs"
proof -
  have idle: "\<not> idle s" using assms(5) idle_done by blast
  have n: "append_at_end nb [] = nb" using append_at_end_Nil [OF assms(3)] .
  consider (command) "ls_command s > 0" | (cont) "ls_command s \<le> 0" "ls_content s > 0"
    | (pad) "ls_command s \<le> 0" "ls_content s \<le> 0" "ls_padding s > 0"
    using assms(5) by (force simp: block_done_def)
  then show thesis
  proof cases
    case command
    obtain x xs where x: "content b = x # xs" using assms(2) by (cases "content b") auto
    obtain b' where b': "ReadByte b = Ok (b', x)" "buf_wf b'" "content b' = xs" using ReadByte_content [OF assms(1) x] by auto
    show thesis
      by (rule that [of b' "[]" "take_command x s" "[x]"])
        (use command b' x idle n in \<open>simp_all add: unpad_step_def unpad_byte_def\<close>)
  next
    case cont
    let ?l = "min (ls_content s) (Len b)"
    let ?xs = "take (nat ?l) (content b)"
    have l: "0 < ?l" "?l \<le> Len b" "?l \<le> ls_content s" using cont assms(1,2) by (auto simp: Len_content)
    obtain b' where b': "ReadBytes b ?l = Ok (b', ?xs)" "buf_wf b'" "content b' = drop (nat ?l) (content b)"
      using ReadBytes_content [OF assms(1), of ?l] l by auto
    have len: "int (length ?xs) = ?l" using l Len_content [OF assms(1)] by simp
    then have xs: "?xs \<noteq> []" using l(1) by auto
    have "Write nb ?xs = Ok (append_at_end nb ?xs, length ?xs)" using assms(4) by (intro Write_fits [OF assms(3)]) simp
    moreover have "unpad_bytes s ?xs = (settle (s\<lparr>ls_content := ls_content s - ?l\<rparr>), ?xs)"
      using unpad_content_run [OF cont(1) xs] l(3) unfolding len by blast
    ultimately show thesis
      using cont b' xs by (intro that [of b' ?xs "s\<lparr>ls_content := ls_content s - ?l\<rparr>" ?xs]) (simp_all add: unpad_step_def Let_def)
  next
    case pad
    let ?l = "if Len b < ls_padding s then Len b else ls_padding s"
    let ?xs = "take (nat ?l) (content b)"
    have l: "0 < ?l" "?l \<le> Len b" "?l \<le> ls_padding s" using pad assms(1,2) by (auto simp: Len_content)
    have b': "buf_wf (Advance b ?l)" "content (Advance b ?l) = drop (nat ?l) (content b)"
      using advance_start_content [OF assms(1), of ?l] Advance_content [OF assms(1), of ?l] l by simp_all
    have len: "int (length ?xs) = ?l" using l Len_content [OF assms(1)] by simp
    then have xs: "?xs \<noteq> []" using l(1) by auto
    have "unpad_bytes s ?xs = (settle (s\<lparr>ls_padding := ls_padding s - ?l\<rparr>), [])"
      using unpad_padding_run [OF pad(1,2) xs] l(3) unfolding len by blast
    then show thesis
      using pad b' xs n by (intro that [of "Advance b ?l" "[]" "s\<lparr>ls_padding := ls_padding s - ?l\<rparr>" ?xs]) (simp_all add: unpad_step_def Let_def)
  qed
qed

lemma unpad_loop_parse:
  assumes "buf_wf b" and "buf_wf nb" and "length (content b) \<le> room nb" and "\<not> block_done s"
  shows "unpad_loop b nb s = Some (Ok (append_at_end nb (snd (unpad_bytes s (content b))), fst (unpad_bytes s (content b))))"
  using assms
proof (induction "length (content b)" arbitrary: b nb s rule: less_induct)
  case less
  note w = less.prems
  show ?case
  proof (cases "content b = []")
    case True
    then show ?thesis using w Len_content [OF w(1)] append_at_end_Nil [OF w(2)] by (simp add: unpad_loop.simps)
  next
    case False
    obtain b' out s' xs where st: "unpad_step b nb s = Ok (b', append_at_end nb out, s')" "buf_wf b'" "content b = xs @ content b'" "xs \<noteq> []"
      "unpad_bytes s xs = (settle s', out)" "length out \<le> length xs"
      using unpad_step_ok [OF w(1) False w(2,3,4)] by metis
    have pos: "Len b > 0" using False Len_content [OF w(1)] by simp
    let ?nb = "append_at_end nb out"
    have nb: "buf_wf ?nb" "length (content b') \<le> room ?nb" "length out + length (content b') \<le> room nb"
      using append_at_end_content [OF w(2), of out] st w(3) by auto
    have parse: "unpad_bytes s (content b) = (fst (unpad_bytes (settle s') (content b')), out @ snd (unpad_bytes (settle s') (content b')))"
      using st(5) by (simp add: st(3) unpad_bytes_append)
    have app: "append_at_end ?nb (snd (unpad_bytes r (content b'))) = append_at_end nb (out @ snd (unpad_bytes r (content b')))" for r
      using nb(3) unpad_out_length [of r "content b'"] by (intro append_at_end_append [OF w(2)]) linarith
    have rec: "unpad_loop b' ?nb r = Some (Ok (append_at_end ?nb (snd (unpad_bytes r (content b'))), fst (unpad_bytes r (content b'))))"
      if "\<not> block_done r" for r
      using less.hyps [OF _ st(2) nb(1,2) that] st(3,4) by (cases xs) auto
    show ?thesis
    proof (cases "block_done s' \<and> ls_current s' \<noteq> 0")
      case True
      let ?e = "s'\<lparr>ls_command := -1, ls_content := -1, ls_padding := -1\<rparr>"
      have e: "settle s' = ?e" "idle ?e" using True by (auto simp: settle_def idle_def)
      have "(if Len b' > 0 then rbind (Bytes b') (\<lambda>bs. rmap fst (Write ?nb bs)) else Ok ?nb) = Ok (append_at_end ?nb (content b'))"
        using nb(1,2) st(2) append_at_end_Nil [OF nb(1)] by (simp add: Write_fits Len_content)
      then show ?thesis using True st(1) pos parse e app [of ?e] by (subst unpad_loop.simps) (simp split: if_splits)
    next
      case False
      have "settle s' = (if block_done s' then s'\<lparr>ls_command := 5\<rparr> else s')" "\<not> block_done (settle s')"
        using False by (auto simp: settle_def block_done_def)
      then show ?thesis using False st(1) pos parse app rec [of "settle s'"] by (subst unpad_loop.simps) (auto split: if_splits)
    qed
  qed
qed


section \<open>Blocks\<close>

text \<open>A block on the wire: command, length of the content, length of the padding, content, padding.\<close>

definition vblock :: "byte \<Rightarrow> bytes \<Rightarrow> bytes \<Rightarrow> bytes" where
  "vblock c d p =
     [c, word_of_nat (length d div 256), word_of_nat (length d), word_of_nat (length p div 256), word_of_nat (length p)] @ d @ p"

lemma or_low_byte: "0 \<le> lo \<Longrightarrow> lo < 256 \<Longrightarrow> (hi * 256) OR lo = hi * 256 + (lo :: int)"
proof -
  assume lo: "0 \<le> lo" "lo < 256"
  have "(hi * 256) AND lo = 0"
  proof (rule bit_eqI)
    fix n
    have "\<not> (bit (hi * 256) n \<and> bit lo n)"
    proof (cases "n < 8")
      case True
      then show ?thesis using bit_push_bit_iff_int [of 8 hi n] by (simp add: push_bit_eq_mult)
    next
      case False
      then have "(256 :: int) \<le> 2 ^ n" using power_increasing [of 8 n "2 :: int"] by simp
      then have "lo div 2 ^ n = 0" using lo by (intro div_pos_pos_trivial) linarith+
      then show ?thesis by (simp add: bit_iff_odd)
    qed
    then show "bit (hi * 256 AND lo) n = bit (0 :: int) n" by (simp add: bit_simps)
  qed
  then show ?thesis using disjunctive_add_eq_or [of "hi * 256" lo] by simp
qed


lemma uint_byte_of_nat [simp]: "uint (word_of_nat n :: byte) = int n mod 256"
  by (simp add: uint_nat unat_of_nat zmod_int)

lemma vblock_length: "length (vblock c d p) = 5 + length d + length p"
  by (simp add: vblock_def)

text \<open>The header of a block leads to the counts of its content and its padding.\<close>

lemma unpad_header:
  assumes "ls_command s = 5" and "length d < 65536" and "length p < 65536"
  shows "unpad_bytes s [c, word_of_nat (length d div 256), word_of_nat (length d), word_of_nat (length p div 256), word_of_nat (length p)] =
    (settle (s\<lparr>ls_command := 0, ls_content := int (length d), ls_padding := int (length p), ls_current := uint c\<rparr>), [])"
proof -
  have v: "int (n div 256) mod 256 * 256 OR int n mod 256 = int n" if "n < 65536" for n
  proof -
    have "int (n div 256) mod 256 = int (n div 256)" using that by (intro mod_pos_pos_trivial) auto
    moreover have "int (n div 256) * 256 OR int n mod 256 = int (n div 256) * 256 + int n mod 256" by (rule or_low_byte) auto
    ultimately show ?thesis by (simp add: zdiv_int)
  qed
  let ?s1 = "s\<lparr>ls_command := 4, ls_current := uint c\<rparr>"
  let ?s2 = "?s1\<lparr>ls_command := 3, ls_content := int (length d div 256) mod 256 * 256\<rparr>"
  let ?s3 = "?s1\<lparr>ls_command := 2, ls_content := int (length d)\<rparr>"
  let ?s4 = "?s3\<lparr>ls_command := 1, ls_padding := int (length p div 256) mod 256 * 256\<rparr>"
  let ?s5 = "?s3\<lparr>ls_command := 0, ls_padding := int (length p)\<rparr>"
  have head: "unpad_byte r x = (settle (take_command x r), [])" if "ls_command r > 0" for r x
    using that by (simp add: unpad_byte_def idle_def)
  have st: "settle r = r" if "ls_command r > 0" for r using that by (simp add: settle_def block_done_def)
  have "unpad_byte s c = (?s1, [])" using assms(1) by (simp add: head take_command_def st)
  moreover have "unpad_byte ?s1 (word_of_nat (length d div 256)) = (?s2, [])" by (simp add: head take_command_def st)
  moreover have "unpad_byte ?s2 (word_of_nat (length d)) = (?s3, [])"
    using v [OF assms(2)] by (simp add: head take_command_def st)
  moreover have "unpad_byte ?s3 (word_of_nat (length p div 256)) = (?s4, [])" by (simp add: head take_command_def st)
  moreover have "unpad_byte ?s4 (word_of_nat (length p)) = (settle ?s5, [])"
    using v [OF assms(3)] by (auto simp: head take_command_def intro!: arg_cong [where f = settle])
  moreover have "?s5 = s\<lparr>ls_command := 0, ls_content := int (length d), ls_padding := int (length p), ls_current := uint c\<rparr>" by simp
  ultimately show ?thesis by (auto intro!: arg_cong [where f = settle])
qed

definition block_end :: "link_state \<Rightarrow> byte \<Rightarrow> link_state" where
  "block_end s c =
     (if c = 0 then s\<lparr>ls_command := 5, ls_content := 0, ls_padding := 0, ls_current := 0\<rparr>
      else s\<lparr>ls_command := -1, ls_content := -1, ls_padding := -1, ls_current := uint c\<rparr>)"

lemma unpad_vblock:
  assumes "ls_command s = 5" and "length d < 65536" and "length p < 65536"
  shows "unpad_bytes s (vblock c d p) = (block_end s c, d)"
proof -
  let ?h = "s\<lparr>ls_command := 0, ls_content := int (length d), ls_padding := int (length p), ls_current := uint c\<rparr>"
  let ?p = "s\<lparr>ls_command := 0, ls_padding := int (length p), ls_current := uint c, ls_content := 0\<rparr>"
  let ?e = "s\<lparr>ls_command := 0, ls_current := uint c, ls_content := 0, ls_padding := 0\<rparr>"
  have e: "settle ?e = block_end s c" by (auto simp: settle_def block_done_def block_end_def uint_0_iff)
  have d: "unpad_bytes (settle ?h) d = (settle ?p, d)"
  proof (cases "d = []")
    case False
    then show ?thesis using unpad_content_run [of ?h d] by (simp add: settle_running)
  qed (auto intro!: arg_cong [where f = settle])
  have p: "unpad_bytes (settle ?p) p = (settle ?e, [])"
  proof (cases "p = []")
    case False
    then show ?thesis using unpad_padding_run [of ?p p] by (simp add: settle_running)
  qed (auto intro!: arg_cong [where f = settle])
  show ?thesis by (simp only: vblock_def unpad_bytes_append unpad_header [OF assms] d p e fst_conv snd_conv append_Nil append_Nil2)
qed

text \<open>A padded stream and the data in it; the flag says that the padding has ended.\<close>

inductive padded :: "bytes \<Rightarrow> bytes \<Rightarrow> bool \<Rightarrow> bool" where
  padded_start: "padded [] [] False"
| padded_continue: "padded out data False \<Longrightarrow> length d < 65536 \<Longrightarrow> length p < 65536 \<Longrightarrow> padded (out @ vblock 0 d p) (data @ d) False"
| padded_end: "padded out data False \<Longrightarrow> length d < 65536 \<Longrightarrow> length p < 65536 \<Longrightarrow> c \<in> {1, 2} \<Longrightarrow> padded (out @ vblock c d p) (data @ d) True"
| padded_raw: "padded out data True \<Longrightarrow> padded (out @ raw) (data @ raw) True"

lemma unpad_padded:
  assumes "padded out data fin" and "ls_command s = 5"
  shows "snd (unpad_bytes s out) = data \<and> (if fin then idle (fst (unpad_bytes s out)) else ls_command (fst (unpad_bytes s out)) = 5)"
  using assms
proof (induction rule: padded.induct)
  case (padded_continue out data d p)
  then show ?case by (simp add: unpad_bytes_append unpad_vblock block_end_def)
next
  case (padded_end out data d p c)
  then show ?case by (auto simp: unpad_bytes_append unpad_vblock block_end_def idle_def)
qed (simp_all add: unpad_bytes_append)


section \<open>What the writer sends\<close>

definition opt_content :: "buffer option \<Rightarrow> bytes" where
  "opt_content b = (case b of None \<Rightarrow> [] | Some b \<Rightarrow> content b)"

definition opt_packed :: "buffer option \<Rightarrow> bool" where
  "opt_packed b = (case b of None \<Rightarrow> True | Some b \<Rightarrow> packed b)"

lemma opt_simps [simp]:
  "opt_content None = []" "opt_content (Some b) = content b" "opt_packed None" "opt_packed (Some b) \<longleftrightarrow> packed b"
  by (simp_all add: opt_content_def opt_packed_def)

definition ob_content :: "buffer option list \<Rightarrow> bytes" where
  "ob_content mb = concat (map opt_content mb)"

lemma ob_content_simps [simp]:
  "ob_content [] = []" "ob_content (b # mb) = opt_content b @ ob_content mb" "ob_content (mb @ mb') = ob_content mb @ ob_content mb'"
  by (simp_all add: ob_content_def)

lemma ob_content_Some [simp]: "ob_content (map Some mb) = mb_content mb"
  by (induction mb) (simp_all add: opt_content_def)

lemma opt_Len_content: "opt_packed b \<Longrightarrow> opt_Len b = int (length (opt_content b)) \<and> length (opt_content b) \<le> 8192"
  using packed_Len by (cases b) (auto simp: opt_packed_def opt_Len_def opt_content_def packed_def Len_content)

definition rnd_ok :: "(int \<Rightarrow> int) \<Rightarrow> bool" where
  "rnd_ok rnd \<longleftrightarrow> (\<forall>n>0. 0 \<le> rnd n \<and> rnd n < n)"

lemma padding_len_range:
  assumes "rnd_ok rnd" and "0 \<le> n" and "n \<le> 8171"
  shows "0 \<le> padding_len rnd n long \<and> padding_len rnd n long \<le> 8171 - n"
proof -
  have "0 \<le> rnd 500" "rnd 500 < 500" "0 \<le> rnd 256" "rnd 256 < 256" using assms(1) by (auto simp: rnd_ok_def)
  then show ?thesis using assms(2,3) by (auto simp: padding_len_def Let_def Size_def)
qed

lemma New_packed: "length fresh < 2147483648 \<Longrightarrow> packed (New fresh)"
  using New_wf [of fresh] by (simp add: packed_def New_def Size_def)

lemma append_packed:
  assumes "packed b" and "length (content b @ bs) \<le> 8192"
  shows "packed (append_at_end b bs) \<and> content (append_at_end b bs) = content b @ bs"
proof -
  have wf: "buf_wf b" using assms(1) by (simp add: packed_def)
  have "length bs \<le> room b" using packed_room [OF assms(1)] assms(2) Len_content [OF wf] by (simp add: Size_def)
  then show ?thesis using packed_append [OF assms(1)] append_at_end_content [OF wf] by blast
qed

lemma Write_packed:
  assumes "packed b" and "length (content b @ bs) \<le> 8192"
  shows "Write b bs = Ok (append_at_end b bs, length bs)"
proof -
  have wf: "buf_wf b" using assms(1) by (simp add: packed_def)
  show ?thesis using packed_room [OF assms(1)] assms(2) Len_content [OF wf] by (intro Write_fits [OF wf]) (simp add: Size_def)
qed

lemma Extend_packed:
  assumes "packed b" and "0 \<le> n" and "int (length (content b)) + n \<le> 8192"
  shows "Extend b n = Ok (append_at_end b (replicate (nat n) 0), buf_end b)"
proof -
  have wf: "buf_wf b" using assms(1) by (simp add: packed_def)
  show ?thesis using packed_room [OF assms(1)] assms(2,3) Len_content [OF wf] by (intro Extend_content [OF wf]) (simp_all add: Size_def)
qed

lemma XtlsPadding_block:
  assumes "opt_packed b" and "opt_Len b \<le> 8171" and "length uuid \<le> 16" and "length fresh < 2147483648" and "rnd_ok rnd"
  shows "\<exists>nb p. XtlsPadding fresh rnd b command uuid long = Ok nb \<and> packed nb \<and>
    content nb = uuid @ vblock command (opt_content b) p \<and> length p < 65536"
proof -
  define n where "n = opt_Len b"
  define m where "m = padding_len rnd n long"
  let ?h = "[command, word_of_int (n div 256), word_of_int n, word_of_int (m div 256), word_of_int m]"
  have n: "n = int (length (opt_content b))" "0 \<le> n" "n \<le> 8171" using opt_Len_content [OF assms(1)] assms(2) by (auto simp: n_def)
  have m: "0 \<le> m" "m \<le> 8171 - n" using padding_len_range [OF assms(5) n(2,3)] by (simp_all add: m_def)
  let ?b1 = "append_at_end (New fresh) uuid" let ?b2 = "append_at_end ?b1 ?h"
  let ?b3 = "append_at_end ?b2 (opt_content b)" let ?b4 = "append_at_end ?b3 (replicate (nat m) 0)"
  have b0: "packed (New fresh)" "content (New fresh) = []" using New_packed New_wf assms(4) by auto
  have b1: "packed ?b1" "content ?b1 = uuid" using append_packed [OF b0(1), of uuid] b0(2) assms(3) by auto
  have b2: "packed ?b2" "content ?b2 = uuid @ ?h" using append_packed [OF b1(1), of ?h] b1(2) assms(3) by auto
  have b3: "packed ?b3" "content ?b3 = uuid @ ?h @ opt_content b" using append_packed [OF b2(1), of "opt_content b"] b2(2) assms(3) n by auto
  have b4: "packed ?b4" "content ?b4 = uuid @ ?h @ opt_content b @ replicate (nat m) 0"
    using append_packed [OF b3(1), of "replicate (nat m) 0"] b3(2) assms(3) n m by auto
  have "rbind (Write (New fresh) uuid) (\<lambda>(newbuffer, _). f newbuffer) = f ?b1" for f :: "buffer \<Rightarrow> buffer res"
    using Write_packed [OF b0(1), of uuid] b0(2) assms(3) by simp
  moreover have "rbind (Write ?b1 ?h) (\<lambda>(newbuffer, _). f newbuffer) = f ?b2" for f :: "buffer \<Rightarrow> buffer res"
    using Write_packed [OF b1(1), of ?h] b1(2) assms(3) by simp
  moreover have "(case b of None \<Rightarrow> Ok ?b2 | Some b \<Rightarrow> rbind (Bytes b) (\<lambda>bs. rmap fst (Write ?b2 bs))) = Ok ?b3"
  proof (cases b)
    case None
    then show ?thesis using append_at_end_Nil [of ?b2] b2(1) by (simp add: opt_content_def packed_def)
  next
    case (Some b')
    then show ?thesis using Write_packed [OF b2(1), of "opt_content b"] b2(2) assms(1,3) n by (simp add: opt_content_def opt_packed_def packed_def)
  qed
  moreover have "rmap fst (Extend ?b3 m) = Ok ?b4" using Extend_packed [OF b3(1) m(1)] b3(2) assms(3) n m by simp
  ultimately have "XtlsPadding fresh rnd b command uuid long = Ok ?b4"
    by (simp add: XtlsPadding_def n_def [symmetric] m_def [symmetric] Let_def)
  moreover have "?h = [command, word_of_nat (length (opt_content b) div 256), word_of_nat (length (opt_content b)),
      word_of_nat (nat m div 256), word_of_nat (nat m)]"
  proof -
    have w: "(word_of_int (int k div 256) :: byte) = word_of_nat (k div 256)" "(word_of_int (int k) :: byte) = word_of_nat k" for k
      by (metis of_int_of_nat_eq zdiv_int of_nat_numeral) simp
    have "m = int (nat m)" using m(1) by simp
    then show ?thesis using w [of "length (opt_content b)"] w [of "nat m"] n(1) by metis
  qed
  ultimately show ?thesis using b4 m n by (intro exI [of _ ?b4] exI [of _ "replicate (nat m) 0"]) (simp add: vblock_def)
qed


lemma Resize_packed:
  assumes "packed b" and "0 \<le> n" and "n \<le> Len b"
  shows "\<exists>b'. Resize b 0 n = Ok b' \<and> packed b' \<and> content b' = take (nat n) (content b)"
proof -
  have wf: "buf_wf b" "buf_start b = 0" using assms(1) by (simp_all add: packed_def)
  note w = buf_wf_bounds [OF wf(1)] length_content [OF wf(1)] Len_content [OF wf(1)]
  have "Resize b 0 n = Ok (b\<lparr>buf_end := n\<rparr>)" using w wf(2) assms(2,3) by (simp add: Resize_def Let_def Check_def)
  moreover have "packed (b\<lparr>buf_end := n\<rparr>) \<and> content (b\<lparr>buf_end := n\<rparr>) = take (nat n) (content b)"
    using assms w wf by (simp add: packed_def buf_wf_def content_def min_def)
  ultimately show ?thesis by blast
qed

lemma reshape_one_ok:
  assumes "packed b" and "Len b \<ge> Size - 21" and "length fresh < 2147483648"
  shows "\<exists>mb. reshape_one fresh b = Ok mb \<and> list_all opt_packed mb \<and> list_all (\<lambda>b. opt_Len b \<le> 8171) mb \<and> ob_content mb = content b \<and> mb \<noteq> []"
proof -
  define i where "i = (let index = LastIndex (content b) TlsApplicationDataStart in if index < 21 \<or> index > Size - 21 then Size div 2 else index)"
  have i: "21 \<le> i" "i \<le> 8171" by (auto simp: i_def Let_def Size_def)
  have wf: "buf_wf b" using assms(1) by (simp add: packed_def)
  have len: "i \<le> Len b" "Len b = int (length (content b))" "Len b \<le> 8192"
    using i assms(2) Len_content [OF wf] packed_Len [OF assms(1)] by (auto simp: Size_def)
  let ?b2 = "append_at_end (New fresh) (drop (nat i) (content b))"
  have n: "packed (New fresh)" "content (New fresh) = []" using New_packed New_wf assms(3) by auto
  have b2: "packed ?b2" "content ?b2 = drop (nat i) (content b)" using append_packed [OF n(1)] n(2) len(2,3) by auto
  obtain b1 where b1: "Resize b 0 i = Ok b1" "packed b1" "content b1 = take (nat i) (content b)"
    using Resize_packed [OF assms(1), of i] i len by auto
  have "BytesFrom b i = Ok (drop (nat i) (content b))" using i len by (intro BytesFrom_content [OF wf]) auto
  moreover have "Write (New fresh) (drop (nat i) (content b)) = Ok (?b2, length (drop (nat i) (content b)))"
    using n(2) len by (intro Write_packed [OF n(1)]) simp
  ultimately have "reshape_one fresh b = Ok [Some b1, Some ?b2]"
    using b1(1) wf by (simp add: reshape_one_def i_def Let_def)
  moreover have "Len b1 \<le> 8171" "Len ?b2 \<le> 8171"
    using b1(2,3) b2 i len by (auto simp: packed_def Len_content)
  ultimately show ?thesis using b1 b2 by (simp add: opt_packed_def opt_Len_def opt_content_def)
qed

lemma reshape_loop_ok:
  assumes "\<forall>i. length (pool i) < 2147483648" and "list_all opt_packed mb"
  shows "\<exists>mb'. reshape_loop pool k mb = Ok mb' \<and> list_all opt_packed mb' \<and> list_all (\<lambda>b. opt_Len b \<le> 8171) mb' \<and>
    ob_content mb' = ob_content mb \<and> (mb' = [] \<longleftrightarrow> mb = [])"
  using assms(2)
proof (induction mb arbitrary: k)
  case (Cons b mb)
  have "list_all opt_packed mb" using Cons.prems by simp
  from Cons.IH [OF this] obtain mb' where ih: "reshape_loop pool (Suc k) mb = Ok mb'" "list_all opt_packed mb'"
    "list_all (\<lambda>b. opt_Len b \<le> 8171) mb'" "ob_content mb' = ob_content mb"
    by blast
  consider (big) b' where "b = Some b'" "Len b' \<ge> Size - 21" "packed b'" | (small) "opt_Len b < Size - 21"
    using Cons.prems by (cases b; cases "opt_Len b < Size - 21") (auto simp: opt_Len_def opt_packed_def not_less Size_def)
  then show ?case
  proof cases
    case big
    then show ?thesis using ih reshape_one_ok [OF big(3,2), of "pool k"] assms(1) by (auto simp: opt_content_def)
  next
    case small
    then have "reshape_loop pool k (b # mb) = Ok (b # mb')" using ih(1) by (cases b) (auto simp: opt_Len_def)
    then show ?thesis using ih small Cons.prems by (auto simp: Size_def)
  qed
qed simp

lemma Reshape_ok:
  assumes "\<forall>i. length (pool i) < 2147483648" and "list_all opt_packed mb"
  shows "\<exists>mb'. ReshapeMultiBuffer pool mb = Ok mb' \<and> list_all opt_packed mb' \<and> list_all (\<lambda>b. opt_Len b \<le> 8171) mb' \<and>
    ob_content mb' = ob_content mb \<and> (mb' = [] \<longleftrightarrow> mb = [])"
proof (cases "list_all (\<lambda>b. \<not> opt_Len b \<ge> Size - 21) mb")
  case True
  then have "list_all (\<lambda>b. opt_Len b \<le> 8171) mb" by (auto simp: list_all_iff Size_def)
  then show ?thesis using True assms(2) by (simp add: ReshapeMultiBuffer_def)
qed (use reshape_loop_ok [OF assms] in \<open>simp add: ReshapeMultiBuffer_def\<close>)

text \<open>The filter does not panic on whole buffers, and it leaves the two link states alone.\<close>

definition same_links :: "traffic_state \<Rightarrow> traffic_state \<Rightarrow> bool" where
  "same_links t t' \<longleftrightarrow> ts_UserUUID t' = ts_UserUUID t \<and> ts_Inbound t' = ts_Inbound t \<and> ts_Outbound t' = ts_Outbound t"

lemma note_hello_ok:
  assumes "packed b"
  shows "\<exists>t'. note_hello b t = Ok t' \<and> same_links t t'"
proof (cases "Len b \<ge> 6")
  case True
  have wf: "buf_wf b" "buf_start b = 0" "slen (buf_v b) = 8192" using assms by (simp_all add: packed_def Size_def)
  have b6: "BytesTo b 6 = Ok (take 6 (content b))" using BytesTo_content [OF wf(1), of 6] True by simp
  have r: "\<exists>cs. BytesRange b (43 + uint sid + 1) (43 + uint sid + 3) = Ok cs" for sid :: byte
  proof -
    have "uint sid < 256" "\<not> 44 + uint sid < 0" "\<not> 46 + uint sid < 0"
      using uint_lt2p [of sid] uint_ge_0 [of sid] by (simp, linarith, linarith)
    moreover have "8192 \<le> scap (buf_v b)" using buf_wf_bounds(4) [OF wf(1)] wf(3) by (simp add: scap_def)
    ultimately show ?thesis using wf(2) by (simp add: BytesRange_def Let_def slice_range_def)
  qed
  have y: "\<exists>x. buf_Byte b 43 = Ok x" if "Len b \<ge> 79" using buf_Byte_content [OF wf(1), of 43] that by simp
  show ?thesis
  proof (cases "take 3 (take 6 (content b)) = TlsServerHandShakeStart \<and> take 6 (content b) ! 5 = 2")
    case True
    show ?thesis
    proof (cases "Len b \<ge> 79")
      case long: True
      then obtain x cs where "buf_Byte b 43 = Ok x" "BytesRange b (43 + uint x + 1) (43 + uint x + 3) = Ok cs" using r y by blast
      then show ?thesis using True b6 long by (simp add: note_hello_def Let_def same_links_def)
    next
      case False
      then show ?thesis using True b6 \<open>Len b \<ge> 6\<close> by (simp add: note_hello_def Let_def same_links_def)
    qed
  next
    case False
    then show ?thesis using b6 \<open>Len b \<ge> 6\<close> by (auto simp: note_hello_def same_links_def)
  qed
qed (simp add: note_hello_def same_links_def)

lemma follow_hello_ok:
  assumes "packed b"
  shows "\<exists>t' stop. follow_hello b t = Ok (t', stop) \<and> same_links t t'"
proof (cases "ts_RemainingServerHello t > 0")
  case True
  have wf: "buf_wf b" using assms by (simp add: packed_def)
  have "BytesTo b (min (ts_RemainingServerHello t) (Len b)) = Ok (take (nat (min (ts_RemainingServerHello t) (Len b))) (content b))"
    using True packed_Len [OF assms] by (intro BytesTo_content [OF wf]) auto
  then show ?thesis using True
    by (auto simp: follow_hello_def Let_def same_links_def split: option.splits)
qed (auto simp: follow_hello_def same_links_def)

lemma same_links_trans: "same_links t t' \<Longrightarrow> same_links t' t'' \<Longrightarrow> same_links t t''"
  by (simp add: same_links_def)

lemma XtlsFilterTls_ok: "list_all opt_packed mb \<Longrightarrow> \<exists>t'. XtlsFilterTls mb t = Ok t' \<and> same_links t t'"
proof (induction mb t rule: XtlsFilterTls.induct)
  case (3 b mb t)
  let ?t = "t\<lparr>ts_toFilter := ts_toFilter t - 1\<rparr>"
  have b: "packed b" using "3.prems" by (simp add: opt_packed_def)
  obtain t1 where t1: "note_hello b ?t = Ok t1" "same_links ?t t1" using note_hello_ok [OF b] by blast
  obtain t2 stop where t2: "follow_hello b t1 = Ok (t2, stop)" "same_links t1 t2" using follow_hello_ok [OF b] by blast
  have s: "same_links t t2" using t1(2) t2(2) by (simp add: same_links_def)
  show ?case
  proof (cases stop)
    case False
    then obtain t' where "XtlsFilterTls mb t2 = Ok t'" "same_links t2 t'"
      using "3.IH" [OF t1(1) t2(1) refl] "3.prems" by auto
    then show ?thesis using False t1(1) t2(1) same_links_trans [OF s] by simp
  qed (use t1(1) t2(1) s in simp)
qed (simp_all add: same_links_def)


lemma application_data_ok: "opt_packed b \<Longrightarrow> \<exists>app. application_data t b = Ok app"
proof (cases b)
  case (Some b')
  assume "opt_packed b"
  then have "buf_wf b'" using Some by (simp add: opt_packed_def packed_def)
  then show ?thesis using BytesTo_content [of b' 3] by (auto simp: application_data_def Some)
qed (auto simp: application_data_def)

lemma final_command: "final_command t \<in> {1, 2}"
  by (simp add: final_command_def CommandPaddingDirect_def CommandPaddingEnd_def)

text \<open>
  The loop turns the buffers of a write into blocks, and the last block ends the padding exactly if the state says so
  afterwards.
\<close>

lemma pad_loop_ok:
  assumes "\<forall>i. length (pool i) < 2147483648" and "\<forall>i. rnd_ok (rnd i)"
  shows "mb \<noteq> [] \<Longrightarrow> list_all opt_packed mb \<Longrightarrow> list_all (\<lambda>b. opt_Len b \<le> 8171) mb \<Longrightarrow> length uuid \<le> 16 \<Longrightarrow> padded sent data False \<Longrightarrow>
    \<exists>out s' body. pad_loop pool rnd k t mb long uuid s = Ok (out, [], s') \<and> list_all opt_packed out \<and> ob_content out = uuid @ body \<and>
      padded (sent @ body) (data @ ob_content mb) (\<not> ls_isPadding s')"
proof (induction mb arbitrary: k long uuid s sent data)
  case (Cons b mb)
  have b: "opt_packed b" "opt_Len b \<le> 8171" "length (opt_content b) < 65536"
    using Cons.prems opt_Len_content [of b] by auto
  have pb: "\<exists>nb p. XtlsPadding (pool k) (rnd k) b c uuid l = Ok nb \<and> packed nb \<and> content nb = uuid @ vblock c (opt_content b) p \<and> length p < 65536" for c l
    using XtlsPadding_block [OF b(1,2) Cons.prems(4)] assms by blast
  obtain app where app: "application_data t b = Ok app" using application_data_ok [OF b(1)] by blast
  have continue: ?case
    if "pad_loop pool rnd k t (b # mb) long uuid s =
        rbind (XtlsPadding (pool k) (rnd k) b (if mb = [] then c else 0) uuid l) (\<lambda>p.
          rmap (\<lambda>(out, r). (Some p # out, r)) (pad_loop pool rnd (Suc k) t mb l' [] s1))"
      and "mb = [] \<longrightarrow> (if ls_isPadding s1 then c = 0 else c \<in> {1, 2})" for c l l' s1
  proof (cases "mb = []")
    case True
    obtain nb p where nb: "XtlsPadding (pool k) (rnd k) b c uuid l = Ok nb" "packed nb" "content nb = uuid @ vblock c (opt_content b) p" "length p < 65536"
      using pb by blast
    have "padded (sent @ vblock c (opt_content b) p) (data @ opt_content b) (\<not> ls_isPadding s1)"
      using that(2) True padded_continue [OF Cons.prems(5) b(3) nb(4)] padded_end [OF Cons.prems(5) b(3) nb(4), of c] by (auto split: if_splits)
    moreover have "pad_loop pool rnd k t (b # mb) long uuid s = Ok ([Some nb], [], s1)" unfolding that(1) using True nb(1) by simp
    ultimately show ?thesis using True nb(2,3) by auto
  next
    case False
    obtain nb p where nb: "XtlsPadding (pool k) (rnd k) b 0 uuid l = Ok nb" "packed nb" "content nb = uuid @ vblock 0 (opt_content b) p" "length p < 65536"
      using pb by blast
    have "padded (sent @ vblock 0 (opt_content b) p) (data @ opt_content b) False" by (rule padded_continue [OF Cons.prems(5) b(3) nb(4)])
    from Cons.IH [OF False _ _ _ this, of "[]" "Suc k" l' s1] Cons.prems obtain out s' body where
      ih: "pad_loop pool rnd (Suc k) t mb l' [] s1 = Ok (out, [], s')" "list_all opt_packed out" "ob_content out = body"
        "padded ((sent @ vblock 0 (opt_content b) p) @ body) ((data @ opt_content b) @ ob_content mb) (\<not> ls_isPadding s')"
      by auto
    moreover have "pad_loop pool rnd k t (b # mb) long uuid s = Ok (Some nb # out, [], s')" unfolding that(1) using False nb(1) ih(1) by simp
    ultimately show ?thesis using nb(2,3)
      by (intro exI [of _ "Some nb # out"] exI [of _ s'] exI [of _ "vblock 0 (opt_content b) p @ body"]) simp
  qed
  consider (app) "app" | (stop) "\<not> app" "\<not> ts_IsTLS12orAbove t" "ts_toFilter t \<le> 1" | (go) "\<not> app" "ts_IsTLS12orAbove t \<or> \<not> ts_toFilter t \<le> 1"
    by blast
  then show ?case
  proof cases
    case app
    show ?thesis
      by (rule continue [where c = "final_command t" and l = True and l' = False
            and ?s1.0 = "(if ts_EnableXtls t then s\<lparr>ls_writerDirect := True\<rparr> else s)\<lparr>ls_isPadding := False\<rparr>"])
        (use app \<open>application_data t b = Ok app\<close> final_command in \<open>simp_all add: Let_def CommandPaddingContinue_def\<close>)
  next
    case stop
    obtain nb p where nb: "XtlsPadding (pool k) (rnd k) b 1 uuid long = Ok nb" "packed nb" "content nb = uuid @ vblock 1 (opt_content b) p" "length p < 65536"
      using pb by blast
    have "padded (sent @ vblock 1 (opt_content b) p) (data @ opt_content b) True" by (rule padded_end [OF Cons.prems(5) b(3) nb(4)]) simp
    from padded_raw [OF this, of "ob_content mb"] show ?thesis
      using stop app nb Cons.prems by (auto simp: CommandPaddingEnd_def)
  next
    case go
    show ?thesis
      by (rule continue [where c = "if ls_isPadding s then 0 else final_command t" and l = long and l' = long and ?s1.0 = s])
        (use go app final_command in \<open>auto simp: Let_def CommandPaddingContinue_def\<close>)
  qed
qed simp


text \<open>
  A run of the writer.  Between two writes the other direction of the connection may change the traffic state; it leaves the
  link state of this writer and the identifier alone.
\<close>

fun vision_writes ::
  "(nat \<Rightarrow> nat \<Rightarrow> bytes) \<Rightarrow> (nat \<Rightarrow> nat \<Rightarrow> int \<Rightarrow> int) \<Rightarrow> nat \<Rightarrow> bool \<Rightarrow> ((traffic_state \<Rightarrow> traffic_state) \<times> buffer option list) list
    \<Rightarrow> bytes \<times> traffic_state \<Rightarrow> (buffer option list \<times> bytes \<times> traffic_state) res" where
  "vision_writes pool rnd k isUplink [] st = Ok ([], st)"
| "vision_writes pool rnd k isUplink ((other, mb) # ws) (uuid, t) =
     rbind (Vision_Write (pool k) (rnd k) isUplink mb (uuid, other t)) (\<lambda>(out, st).
       rmap (\<lambda>(outs, st). (out @ outs, st)) (vision_writes pool rnd (Suc k) isUplink ws st))"

definition written :: "bytes \<Rightarrow> bool \<Rightarrow> bytes \<times> traffic_state \<Rightarrow> bytes \<Rightarrow> bytes \<Rightarrow> bool" where
  "written uuid0 isUplink st sent data \<longleftrightarrow>
     (\<exists>body. padded body data (\<not> ls_isPadding (writer_side isUplink (snd st))) \<and>
       (fst st = uuid0 \<and> sent = [] \<and> body = [] \<or> fst st = [] \<and> sent = uuid0 @ body))"

lemma padded_nonempty: "padded out data fin \<Longrightarrow> fin \<Longrightarrow> out \<noteq> []"
  by (induction rule: padded.induct) (auto simp: vblock_def)

lemma writer_side_set [simp]: "writer_side u (set_writer_side u s t) = s"
  by (simp add: writer_side_def set_writer_side_def)

lemma same_links_sides: "same_links t t' \<Longrightarrow> writer_side u t' = writer_side u t \<and> reader_side u t' = reader_side u t"
  by (simp add: same_links_def writer_side_def reader_side_def)

lemma Vision_Write_ok:
  assumes "written uuid0 u (uuid, t) sent data" and "length uuid0 \<le> 16" and "list_all opt_packed mb"
    and "\<forall>i. length (pool i) < 2147483648" and "\<forall>i. rnd_ok (rnd i)"
  shows "\<exists>out st. Vision_Write pool rnd u mb (uuid, t) = Ok (out, st) \<and> list_all opt_packed out \<and>
    written uuid0 u st (sent @ ob_content out) (data @ ob_content mb)"
proof -
  obtain t1 where t1: "(if ts_toFilter t > 0 then XtlsFilterTls mb t else Ok t) = Ok t1" "writer_side u t1 = writer_side u t"
    using XtlsFilterTls_ok [OF assms(3), of t] same_links_sides by (cases "ts_toFilter t > 0") auto
  obtain body where body: "padded body data (\<not> ls_isPadding (writer_side u t))"
    and sent: "uuid = uuid0 \<and> sent = [] \<and> body = [] \<or> uuid = [] \<and> sent = uuid0 @ body"
    using assms(1) by (auto simp: written_def)
  have uuid: "length uuid \<le> 16" using sent assms(2) by auto
  show ?thesis
  proof (cases "ls_isPadding (writer_side u t)")
    case raw: False
    then have "uuid = []" "sent = uuid0 @ body" using sent padded_nonempty [OF body] by auto
    moreover have "padded (body @ ob_content mb) (data @ ob_content mb) True" using raw body padded_raw by simp
    ultimately show ?thesis using raw t1 assms(3) by (auto simp: Vision_Write_def Let_def written_def)
  next
    case True
    have body': "padded body data False" using body True by simp
    have step: ?thesis
      if "Vision_Write pool rnd u mb (uuid, t) = Ok (out, [], t2)" "list_all opt_packed out" "ob_content out = uuid @ b2"
        "padded (body @ b2) (data @ ob_content mb) (\<not> ls_isPadding (writer_side u t2))" for out t2 b2
      using that sent by (auto simp: written_def intro!: exI [of _ "body @ b2"])
    consider (null) "mb = [None]" | (empty) "mb = []" | (data) "mb \<noteq> [None]" "mb \<noteq> []" by blast
    then show ?thesis
    proof cases
      case null
      obtain nb p where nb: "XtlsPadding (pool 0) (rnd 0) None 0 uuid True = Ok nb" "packed nb" "content nb = uuid @ vblock 0 [] p" "length p < 65536"
        using XtlsPadding_block [of None uuid "pool 0" "rnd 0"] uuid assms(4,5) by (force simp: opt_Len_def)
      have "t1 = t" using t1(1) null by (auto split: if_splits)
      then show ?thesis
        by (intro step [of "[Some nb]" t "vblock 0 [] p"])
          (use null nb True padded_continue [OF body', of "[]" p] in \<open>simp_all add: Vision_Write_def Let_def CommandPaddingContinue_def\<close>)
    next
      case empty
      then show ?thesis using t1 True assms(1) sent body
        by (auto simp: Vision_Write_def Let_def ReshapeMultiBuffer_def written_def)
    next
      case data
      obtain mb' where mb': "ReshapeMultiBuffer (\<lambda>i. pool (2 * i + 1)) mb = Ok mb'" "list_all opt_packed mb'" "list_all (\<lambda>b. opt_Len b \<le> 8171) mb'"
        "ob_content mb' = ob_content mb" "mb' \<noteq> []"
        using Reshape_ok [of "\<lambda>i. pool (2 * i + 1)" mb] assms(3,4) data(2) by auto
      obtain out s' b2 where o: "pad_loop (\<lambda>i. pool (2 * i)) rnd 0 t1 mb' (ts_IsTLS t1) uuid (writer_side u t1) = Ok (out, [], s')"
        "list_all opt_packed out" "ob_content out = uuid @ b2" "padded (body @ b2) (data @ ob_content mb') (\<not> ls_isPadding s')"
        using pad_loop_ok [of "\<lambda>i. pool (2 * i)" rnd, OF _ assms(5) mb'(5,2,3) uuid body'] assms(4) by blast
      show ?thesis
        by (rule step [of out "set_writer_side u s' t1" b2])
          (use data mb' o t1 True in \<open>simp_all add: Vision_Write_def Let_def\<close>)
    qed
  qed
qed

definition keeps_writer :: "bool \<Rightarrow> (traffic_state \<Rightarrow> traffic_state) \<Rightarrow> bool" where
  "keeps_writer u f \<longleftrightarrow> (\<forall>t. writer_side u (f t) = writer_side u t)"

lemma vision_writes_ok:
  assumes "length uuid0 \<le> 16" and "\<forall>i j. length (pool i j) < 2147483648" and "\<forall>i j. rnd_ok (rnd i j)"
  shows "written uuid0 u (uuid, t) sent data \<Longrightarrow> list_all (\<lambda>(f, mb). keeps_writer u f \<and> list_all opt_packed mb) ws \<Longrightarrow>
    \<exists>outs st. vision_writes pool rnd k u ws (uuid, t) = Ok (outs, st) \<and> list_all opt_packed outs \<and>
      written uuid0 u st (sent @ ob_content outs) (data @ concat (map (ob_content \<circ> snd) ws))"
proof (induction ws arbitrary: k uuid t sent data)
  case (Cons w ws)
  obtain f mb where w: "w = (f, mb)" by fastforce
  have f: "written uuid0 u (uuid, f t) sent data" using Cons.prems by (simp add: w written_def keeps_writer_def)
  obtain out uuid' t' where o: "Vision_Write (pool k) (rnd k) u mb (uuid, f t) = Ok (out, uuid', t')" "list_all opt_packed out"
    "written uuid0 u (uuid', t') (sent @ ob_content out) (data @ ob_content mb)"
    using Vision_Write_ok [OF f assms(1), of mb "pool k" "rnd k"] Cons.prems(2) assms(2,3) by (auto simp: w)
  obtain outs st where "vision_writes pool rnd (Suc k) u ws (uuid', t') = Ok (outs, st)" "list_all opt_packed outs"
    "written uuid0 u st ((sent @ ob_content out) @ ob_content outs) ((data @ ob_content mb) @ concat (map (ob_content \<circ> snd) ws))"
    using Cons.IH [OF o(3), of "Suc k"] Cons.prems(2) by (metis list.pred_inject(2))
  then show ?case using o(1,2) by (simp add: w comp_def)
qed simp


section \<open>What the reader delivers\<close>

definition retag :: "bool \<Rightarrow> bool \<Rightarrow> link_state \<Rightarrow> link_state" where
  "retag w d s = s\<lparr>ls_within := w, ls_readerDirect := d\<rparr>"

lemma retag_simps [simp]:
  "ls_command (retag w d s) = ls_command s" "ls_content (retag w d s) = ls_content s" "ls_padding (retag w d s) = ls_padding s"
  "ls_current (retag w d s) = ls_current s" "ls_within (retag w d s) = w" "block_done (retag w d s) = block_done s" "idle (retag w d s) = idle s"
  by (simp_all add: retag_def block_done_def idle_def)

lemma unpad_byte_retag: "unpad_byte (retag w d s) x = (retag w d (fst (unpad_byte s x)), snd (unpad_byte s x))"
proof -
  have "settle (retag w d r) = retag w d (settle r)" for r by (simp add: settle_def) (simp add: retag_def)
  moreover have "take_command x (retag w d s) = retag w d (take_command x s)" by (simp add: take_command_def Let_def) (simp add: retag_def)
  moreover have "(retag w d s)\<lparr>ls_content := n\<rparr> = retag w d (s\<lparr>ls_content := n\<rparr>)" "(retag w d s)\<lparr>ls_padding := n\<rparr> = retag w d (s\<lparr>ls_padding := n\<rparr>)" for n
    by (simp_all add: retag_def)
  ultimately show ?thesis by (simp add: unpad_byte_def)
qed

lemma unpad_bytes_retag: "unpad_bytes (retag w d s) xs = (retag w d (fst (unpad_bytes s xs)), snd (unpad_bytes s xs))"
  by (induction xs arbitrary: s) (simp_all add: unpad_byte_retag case_prod_unfold)

lemma reader_side_set [simp]:
  "reader_side u (set_reader_side u s t) = s" "ts_UserUUID (set_reader_side u s t) = ts_UserUUID t" "ts_toFilter (set_reader_side u s t) = ts_toFilter t"
  "set_reader_side u s' (set_reader_side u s t) = set_reader_side u s' t" "set_reader_side u (reader_side u t) t = t"
  by (simp_all add: reader_side_def set_reader_side_def)

lemma unpad_loop_packed:
  assumes "buf_wf b" and "length (content b) \<le> 8192" and "length fresh < 2147483648" and "\<not> block_done s"
  shows "\<exists>n. unpad_loop b (New fresh) s = Some (Ok (n, fst (unpad_bytes s (content b)))) \<and> packed n \<and> content n = snd (unpad_bytes s (content b))"
proof -
  have n: "packed (New fresh)" "buf_wf (New fresh)" "content (New fresh) = []" "room (New fresh) = 8192" using New_packed New_wf assms(3) by auto
  show ?thesis
    using unpad_loop_parse [OF assms(1) n(2) _ assms(4)] n(4) assms(2) append_packed [OF n(1), of "snd (unpad_bytes s (content b))"] n(3)
      unpad_out_length [of s "content b"] by auto
qed

text \<open>One buffer: in the middle of a block, after the end of the padding, and at the start of the stream.\<close>

lemma XtlsUnpadding_ok:
  assumes "packed b" and "length fresh < 2147483648" and "\<not> block_done (reader_side u t) \<or> idle (reader_side u t)"
    and "idle (reader_side u t) \<Longrightarrow> take 16 (content b) \<noteq> ts_UserUUID t"
  shows "\<exists>n. XtlsUnpadding fresh b u t = Ok (n, set_reader_side u (fst (unpad_bytes (reader_side u t) (content b))) t) \<and> packed n \<and>
    content n = snd (unpad_bytes (reader_side u t) (content b))"
proof -
  have wf: "buf_wf b" "length (content b) \<le> 8192" using assms(1) packed_Len [OF assms(1)] by (auto simp: packed_def Len_content)
  show ?thesis
  proof (cases "idle (reader_side u t)")
    case True
    moreover have "BytesTo b 16 = Ok (take 16 (content b))" if "Len b \<ge> 21" using BytesTo_content [OF wf(1), of 16] that by simp
    ultimately show ?thesis using assms(1,4) by (auto simp: XtlsUnpadding_def Let_def idle_def [symmetric])
  next
    case False
    then have "\<not> block_done (reader_side u t)" using assms(3) by simp
    then show ?thesis using unpad_loop_packed [OF wf assms(2)] False by (fastforce simp: XtlsUnpadding_def Let_def idle_def [symmetric])
  qed
qed

lemma XtlsUnpadding_first:
  assumes "packed b" and "length fresh < 2147483648" and "idle (reader_side u t)" and "21 \<le> length (content b)" and "take 16 (content b) = ts_UserUUID t"
  defines "s \<equiv> (reader_side u t)\<lparr>ls_command := 5\<rparr>"
  shows "\<exists>n. XtlsUnpadding fresh b u t = Ok (n, set_reader_side u (fst (unpad_bytes s (drop 16 (content b)))) t) \<and> packed n \<and>
    content n = snd (unpad_bytes s (drop 16 (content b)))"
proof -
  have wf: "buf_wf b" "length (content b) \<le> 8192" using assms(1) packed_Len [OF assms(1)] by (auto simp: packed_def Len_content)
  have l: "Len b \<ge> 21" using assms(4) Len_content [OF wf(1)] by simp
  have a: "buf_wf (Advance b 16)" "content (Advance b 16) = drop 16 (content b)"
    using advance_start_content [OF wf(1), of 16] Advance_content [OF wf(1), of 16] l by simp_all
  have "BytesTo b 16 = Ok (take 16 (content b))" using BytesTo_content [OF wf(1), of 16] l by simp
  moreover have "\<not> block_done s" by (simp add: s_def block_done_def)
  ultimately show ?thesis
    using unpad_loop_packed [OF a(1), of fresh s] a(2) wf(2) assms(2,3,5) l
    by (fastforce simp: XtlsUnpadding_def Let_def idle_def [symmetric] s_def)
qed

definition unmarked :: "bytes \<Rightarrow> buffer \<Rightarrow> bool" where
  "unmarked uuid b \<longleftrightarrow> packed b \<and> take 16 (content b) \<noteq> uuid"

lemma unpad_buffers_ok:
  assumes "\<forall>i. length (pool i) < 2147483648"
  shows "\<not> block_done (reader_side u t) \<or> idle (reader_side u t) \<Longrightarrow> list_all (unmarked (ts_UserUUID t)) mb \<Longrightarrow>
    \<exists>out. unpad_buffers pool k mb u t = Ok (out, set_reader_side u (fst (unpad_bytes (reader_side u t) (mb_content mb))) t) \<and> list_all packed out \<and>
      mb_content out = snd (unpad_bytes (reader_side u t) (mb_content mb))"
proof (induction mb arbitrary: k t)
  case (Cons b mb)
  let ?s = "fst (unpad_bytes (reader_side u t) (content b))" let ?t = "set_reader_side u ?s t"
  obtain n where n: "XtlsUnpadding (pool k) b u t = Ok (n, ?t)" "packed n" "content n = snd (unpad_bytes (reader_side u t) (content b))"
    using XtlsUnpadding_ok [of b "pool k" u t] Cons.prems assms by (auto simp: unmarked_def)
  obtain out where o: "unpad_buffers pool (Suc k) mb u ?t = Ok (out, set_reader_side u (fst (unpad_bytes ?s (mb_content mb))) ?t)" "list_all packed out"
    "mb_content out = snd (unpad_bytes ?s (mb_content mb))"
    using Cons.IH [of ?t "Suc k"] Cons.prems unpad_bytes_cases [OF Cons.prems(1)] by auto
  have "Len n > 0 \<longleftrightarrow> content n \<noteq> []" using n(2) by (simp add: packed_def Len_content)
  then show ?case using n o by (auto simp: unpad_bytes_append)
qed simp


text \<open>
  A read may end inside the header of the block that ends the padding, after its command and before the counts.  The reader
  then takes the padding to be over.
\<close>

definition split_header :: "link_state \<Rightarrow> bool" where
  "split_header s \<longleftrightarrow> ls_command s > 0 \<and> ls_current s \<noteq> 0 \<and> ls_content s \<le> 0 \<and> ls_padding s \<le> 0"

lemma after_read_retag: "\<exists>w d. after_read s = retag w d s \<and> (\<not> split_header s \<and> \<not> block_done s \<longrightarrow> w)"
proof (cases "ls_content s > 0 \<or> ls_padding s > 0 \<or> ls_current s = 0")
  case True
  then have "after_read s = retag True (ls_readerDirect s) s" by (simp add: after_read_def retag_def)
  then show ?thesis by blast
next
  case False
  then have "split_header s \<or> block_done s" by (auto simp: split_header_def block_done_def)
  moreover have "after_read s = retag (ls_within (after_read s)) (ls_readerDirect (after_read s)) s" by (simp add: after_read_def retag_def)
  ultimately show ?thesis by metis
qed

lemma XtlsFilterTls_packed:
  assumes "list_all packed mb"
  shows "\<exists>t'. (if ts_toFilter t > 0 then rmap (\<lambda>t. (mb, t)) (XtlsFilterTls (map Some mb) t) else Ok (mb, t)) = Ok (mb, t') \<and> same_links t t'"
proof -
  have "list_all opt_packed (map Some mb)" using assms by (simp add: list_all_iff)
  from XtlsFilterTls_ok [OF this, of t] show ?thesis by (auto simp: same_links_def)
qed

lemma Vision_Read_ok:
  assumes "\<forall>i. length (pool i) < 2147483648" and "\<not> block_done (reader_side u t) \<or> idle (reader_side u t)"
    and "\<not> block_done (reader_side u t) \<Longrightarrow> ls_within (reader_side u t)" and "list_all (unmarked (ts_UserUUID t)) mb"
  defines "r \<equiv> unpad_bytes (reader_side u t) (mb_content mb)"
  shows "\<exists>out t' w d. Vision_Read pool u mb t = Ok (out, t') \<and> mb_content out = snd r \<and> ts_UserUUID t' = ts_UserUUID t \<and>
    reader_side u t' = retag w d (fst r) \<and> (\<not> split_header (fst r) \<and> \<not> block_done (fst r) \<longrightarrow> w)"
proof -
  let ?s = "reader_side u t"
  have p: "list_all packed mb" "mb_wf mb" using assms(4) by (auto simp: unmarked_def list_all_iff mb_wf_def packed_def)
  have same: "?s = retag (ls_within ?s) (ls_readerDirect ?s) ?s" by (simp add: retag_def)
  show ?thesis
  proof (cases "mb_IsEmpty mb")
    case True
    then have "r = (?s, [])" using p(2) by (simp add: r_def mb_IsEmpty_content)
    then show ?thesis using True same assms(3) p(2) by (auto simp: Vision_Read_def mb_IsEmpty_content)
  next
    case False
    show ?thesis
    proof (cases "ls_within ?s \<or> ts_toFilter t > 0")
      case True
      obtain out where o: "unpad_buffers pool 0 mb u t = Ok (out, set_reader_side u (fst r) t)" "list_all packed out" "mb_content out = snd r"
        using unpad_buffers_ok [OF assms(1,2,4)] r_def by auto
      obtain w d where w: "after_read (fst r) = retag w d (fst r)" "\<not> split_header (fst r) \<and> \<not> block_done (fst r) \<longrightarrow> w"
        using after_read_retag by blast
      let ?t = "set_reader_side u (retag w d (fst r)) t"
      obtain t' where t': "(if ts_toFilter ?t > 0 then rmap (\<lambda>t. (out, t)) (XtlsFilterTls (map Some out) ?t) else Ok (out, ?t)) = Ok (out, t')"
        "same_links ?t t'" using XtlsFilterTls_packed [OF o(2)] by blast
      have "Vision_Read pool u mb t = Ok (out, t')" using False True o(1) w(1) t'(1) by (simp add: Vision_Read_def)
      moreover have "reader_side u t' = retag w d (fst r)" "ts_UserUUID t' = ts_UserUUID t"
        using same_links_sides [OF t'(2), of u] t'(2) by (simp_all add: same_links_def)
      ultimately show ?thesis using o(3) w(2) by blast
    next
      case raw: False
      then have "idle ?s" using assms(2,3) by blast
      then have "r = (?s, mb_content mb)" by (simp add: r_def)
      then show ?thesis using raw False same \<open>idle ?s\<close> idle_done [of ?s] by (auto simp: Vision_Read_def)
    qed
  qed
qed

lemma Vision_Read_first:
  assumes "\<forall>i. length (pool i) < 2147483648" and "reader_side u t = new_link_state" and "packed b" and "21 \<le> length (content b)"
    and "take 16 (content b) = ts_UserUUID t" and "list_all (unmarked (ts_UserUUID t)) mb"
  defines "r \<equiv> unpad_bytes (new_link_state\<lparr>ls_command := 5\<rparr>) (drop 16 (content b) @ mb_content mb)"
  shows "\<exists>out t' w d. Vision_Read pool u (b # mb) t = Ok (out, t') \<and> mb_content out = snd r \<and> ts_UserUUID t' = ts_UserUUID t \<and>
    reader_side u t' = retag w d (fst r) \<and> (\<not> split_header (fst r) \<and> \<not> block_done (fst r) \<longrightarrow> w)"
proof -
  let ?s = "fst (unpad_bytes (new_link_state\<lparr>ls_command := 5\<rparr>) (drop 16 (content b)))" let ?t1 = "set_reader_side u ?s t"
  have i: "idle (reader_side u t)" "ls_within (reader_side u t)" by (simp_all add: assms(2) new_link_state_def idle_def)
  have wf: "buf_wf b" using assms(3) by (simp add: packed_def)
  then have ne: "\<not> mb_IsEmpty (b # mb)" using assms(4) by (auto simp: IsEmpty_content)
  obtain n where n: "XtlsUnpadding (pool 0) b u t = Ok (n, ?t1)" "packed n"
    "content n = snd (unpad_bytes (new_link_state\<lparr>ls_command := 5\<rparr>) (drop 16 (content b)))"
    using XtlsUnpadding_first [OF assms(3) _ i(1) assms(4,5), of "pool 0"] assms(1,2) by auto
  have c: "\<not> block_done ?s \<or> idle ?s" by (rule unpad_bytes_cases) (simp add: block_done_def)
  obtain out where o: "unpad_buffers pool (Suc 0) mb u ?t1 = Ok (out, set_reader_side u (fst (unpad_bytes ?s (mb_content mb))) ?t1)" "list_all packed out"
    "mb_content out = snd (unpad_bytes ?s (mb_content mb))"
    using unpad_buffers_ok [OF assms(1), of u ?t1 mb "Suc 0"] c assms(6) by auto
  have r: "fst r = fst (unpad_bytes ?s (mb_content mb))" "snd r = content n @ mb_content out"
    using n(3) o(3) by (simp_all add: r_def unpad_bytes_append)
  let ?out = "if Len n > 0 then n # out else out"
  have out: "list_all packed ?out" "mb_content ?out = snd r" using n(2) o(2) r(2) by (auto simp: packed_def Len_content)
  obtain w d where w: "after_read (fst r) = retag w d (fst r)" "\<not> split_header (fst r) \<and> \<not> block_done (fst r) \<longrightarrow> w"
    using after_read_retag by blast
  let ?t = "set_reader_side u (retag w d (fst r)) t"
  obtain t' where t': "(if ts_toFilter ?t > 0 then rmap (\<lambda>t. (?out, t)) (XtlsFilterTls (map Some ?out) ?t) else Ok (?out, ?t)) = Ok (?out, t')"
    "same_links ?t t'" using XtlsFilterTls_packed [OF out(1)] by blast
  have "unpad_buffers pool 0 (b # mb) u t = Ok (?out, set_reader_side u (fst r) t)" using n(1) o(1) r(1) by simp
  then have "Vision_Read pool u (b # mb) t = Ok (?out, t')" using ne i(2) w(1) t'(1) by (simp add: Vision_Read_def del: unpad_buffers.simps)
  moreover have "reader_side u t' = retag w d (fst r)" "ts_UserUUID t' = ts_UserUUID t"
    using same_links_sides [OF t'(2), of u] t'(2) by (simp_all add: same_links_def)
  ultimately show ?thesis using out(2) w(2) by blast
qed


fun vision_reads ::
  "(nat \<Rightarrow> nat \<Rightarrow> bytes) \<Rightarrow> nat \<Rightarrow> bool \<Rightarrow> ((traffic_state \<Rightarrow> traffic_state) \<times> multi_buffer) list \<Rightarrow> traffic_state
    \<Rightarrow> (multi_buffer \<times> traffic_state) res" where
  "vision_reads pool k isUplink [] t = Ok ([], t)"
| "vision_reads pool k isUplink ((other, mb) # rs) t =
     rbind (Vision_Read (pool k) isUplink mb (other t)) (\<lambda>(out, t).
       rmap (\<lambda>(outs, t). (out @ outs, t)) (vision_reads pool (Suc k) isUplink rs t))"

text \<open>No read but the last ends inside the header of the block that ends the padding.\<close>

fun cuts_ok :: "link_state \<Rightarrow> bytes list \<Rightarrow> bool" where
  "cuts_ok s [] \<longleftrightarrow> True"
| "cuts_ok s [c] \<longleftrightarrow> True"
| "cuts_ok s (c # c' # cs) \<longleftrightarrow>
     \<not> split_header (fst (unpad_bytes s c)) \<and> cuts_ok (fst (unpad_bytes s c)) (c' # cs)"

definition keeps_reader :: "bool \<Rightarrow> (traffic_state \<Rightarrow> traffic_state) \<Rightarrow> bool" where
  "keeps_reader u f \<longleftrightarrow> (\<forall>t. reader_side u (f t) = reader_side u t \<and> ts_UserUUID (f t) = ts_UserUUID t)"

lemma cuts_ok_step: "cuts_ok s (c # cs) \<Longrightarrow> cs \<noteq> [] \<Longrightarrow> \<not> split_header (fst (unpad_bytes s c)) \<and> cuts_ok (fst (unpad_bytes s c)) cs"
  by (cases cs) auto

lemma vision_reads_ok:
  assumes "\<forall>i j. length (pool i j) < 2147483648"
  shows "reader_side u t = retag w d s \<Longrightarrow> \<not> block_done s \<or> idle s \<Longrightarrow> rs \<noteq> [] \<longrightarrow> \<not> block_done s \<longrightarrow> w \<Longrightarrow>
    list_all (\<lambda>(f, mb). keeps_reader u f \<and> list_all (unmarked (ts_UserUUID t)) mb) rs \<Longrightarrow> cuts_ok s (map (mb_content \<circ> snd) rs) \<Longrightarrow>
    \<exists>ins t'. vision_reads pool k u rs t = Ok (ins, t') \<and> mb_content ins = snd (unpad_bytes s (concat (map (mb_content \<circ> snd) rs)))"
proof (induction rs arbitrary: k t w d s)
  case (Cons x rs)
  obtain f mb where x: "x = (f, mb)" by fastforce
  let ?s = "fst (unpad_bytes s (mb_content mb))"
  have f: "reader_side u (f t) = retag w d s" "ts_UserUUID (f t) = ts_UserUUID t" using Cons.prems(1,4) by (simp_all add: x keeps_reader_def)
  obtain out t' w' d' where o: "Vision_Read (pool k) u mb (f t) = Ok (out, t')" "mb_content out = snd (unpad_bytes s (mb_content mb))"
    "ts_UserUUID t' = ts_UserUUID t" "reader_side u t' = retag w' d' (retag w d ?s)" "\<not> split_header (retag w d ?s) \<and> \<not> block_done ?s \<longrightarrow> w'"
    using Vision_Read_ok [of "pool k" u "f t" mb] assms Cons.prems f by (auto simp: x unpad_bytes_retag)
  have s': "reader_side u t' = retag w' d' ?s" "split_header (retag w d ?s) = split_header ?s"
    using o(4) by (simp_all add: retag_def split_header_def)
  have st: "\<not> split_header ?s \<and> cuts_ok ?s (map (mb_content \<circ> snd) rs)" if "rs \<noteq> []"
    using cuts_ok_step [of s "mb_content mb" "map (mb_content \<circ> snd) rs"] Cons.prems(5) that by (simp add: x comp_def)
  have w: "rs \<noteq> [] \<longrightarrow> \<not> block_done ?s \<longrightarrow> w'" using st o(5) s'(2) by blast
  have cuts: "cuts_ok ?s (map (mb_content \<circ> snd) rs)" using st by (cases "rs = []") simp_all
  have rest: "list_all (\<lambda>(f, mb). keeps_reader u f \<and> list_all (unmarked (ts_UserUUID t')) mb) rs" using Cons.prems(4) o(3) by simp
  obtain ins t'' where "vision_reads pool (Suc k) u rs t' = Ok (ins, t'')"
    "mb_content ins = snd (unpad_bytes ?s (concat (map (mb_content \<circ> snd) rs)))"
    using Cons.IH [OF s'(1) unpad_bytes_cases [OF Cons.prems(2)] w rest cuts] by blast
  then show ?case using o(1,2) by (simp add: x unpad_bytes_append comp_def)
qed simp

text \<open>The bytes that a run of the writer sends.\<close>

definition vision_sent ::
  "(nat \<Rightarrow> nat \<Rightarrow> bytes) \<Rightarrow> (nat \<Rightarrow> nat \<Rightarrow> int \<Rightarrow> int) \<Rightarrow> bool \<Rightarrow> bytes \<Rightarrow> ((traffic_state \<Rightarrow> traffic_state) \<times> buffer option list) list
    \<Rightarrow> traffic_state \<Rightarrow> bytes res" where
  "vision_sent pool rnd isUplink uuid ws t = rmap (\<lambda>(outs, st). ob_content outs) (vision_writes pool rnd 0 isUplink ws (uuid, t))"

text \<open>
  C4. Vision is transparent: whatever is written, in buffers of any number and size and with any random padding, the reader on
  the other side delivers exactly the written bytes, if they arrive cut in any way in which the first buffer has the
  identifier and a whole header, no later buffer starts with the identifier, and no read ends inside the header of the
  block that ends the padding.  In between, the other direction of the connection may change the rest of the traffic state
  of either side.
\<close>

theorem vision_roundtrip:
  assumes "length uuid = 16" and "\<forall>i j. length (pool i j) < 2147483648" and "\<forall>i j. rnd_ok (rnd i j)"
    and "writer_side u tw = new_link_state" and "reader_side u tr = new_link_state" and "ts_UserUUID tr = uuid"
    and "list_all (\<lambda>(f, mb). keeps_writer u f \<and> list_all opt_packed mb) ws"
    and "vision_sent pool rnd u uuid ws tw = Ok (content b @ mb_content mb @ concat (map (mb_content \<circ> snd) rs))"
    and "packed b" and "21 \<le> length (content b)" and "list_all (unmarked uuid) mb" and "keeps_reader u f"
    and "list_all (\<lambda>(f, mb). keeps_reader u f \<and> list_all (unmarked uuid) mb) rs"
    and "cuts_ok (new_link_state\<lparr>ls_command := 5\<rparr>) ((drop 16 (content b) @ mb_content mb) # map (mb_content \<circ> snd) rs)"
  shows "\<exists>ins t. vision_reads pool k u ((f, b # mb) # rs) tr = Ok (ins, t) \<and> mb_content ins = concat (map (ob_content \<circ> snd) ws)"
proof -
  let ?s5 = "new_link_state\<lparr>ls_command := 5\<rparr>" let ?c0 = "drop 16 (content b) @ mb_content mb"
  have "written uuid u (uuid, tw) [] []" using padded_start by (auto simp: written_def assms(4) new_link_state_def)
  from vision_writes_ok [OF _ assms(2,3) this assms(7), of 0] assms(1) obtain outs st where
    o: "vision_writes pool rnd 0 u ws (uuid, tw) = Ok (outs, st)" "written uuid u st (ob_content outs) (concat (map (ob_content \<circ> snd) ws))"
    by (auto simp: comp_def)
  have sent: "ob_content outs = content b @ mb_content mb @ concat (map (mb_content \<circ> snd) rs)" using assms(8) o(1) by (simp add: vision_sent_def)
  then have "ob_content outs \<noteq> []" using assms(10) by auto
  then obtain body fin where body: "padded body (concat (map (ob_content \<circ> snd) ws)) fin" "ob_content outs = uuid @ body"
    using o(2) by (auto simp: written_def)
  have uu: "take 16 (content b) = uuid" "drop 16 (content b) @ mb_content mb @ concat (map (mb_content \<circ> snd) rs) = body"
  proof -
    have eq: "uuid @ body = content b @ mb_content mb @ concat (map (mb_content \<circ> snd) rs)" using body(2) sent by simp
    show "take 16 (content b) = uuid" using arg_cong [OF eq, of "take 16"] assms(1,10) by simp
    show "drop 16 (content b) @ mb_content mb @ concat (map (mb_content \<circ> snd) rs) = body" using arg_cong [OF eq, of "drop 16"] assms(1,10) by simp
  qed
  have f: "reader_side u (f tr) = new_link_state" "ts_UserUUID (f tr) = uuid" using assms(5,6,12) by (simp_all add: keeps_reader_def)
  obtain out t' w d where r: "Vision_Read (pool k) u (b # mb) (f tr) = Ok (out, t')" "mb_content out = snd (unpad_bytes ?s5 ?c0)"
    "ts_UserUUID t' = uuid" "reader_side u t' = retag w d (fst (unpad_bytes ?s5 ?c0))"
    "\<not> split_header (fst (unpad_bytes ?s5 ?c0)) \<and> \<not> block_done (fst (unpad_bytes ?s5 ?c0)) \<longrightarrow> w"
    using Vision_Read_first [of "pool k" u "f tr" b mb] assms(2,9,10,11) f uu(1) by auto
  have c: "rs \<noteq> [] \<longrightarrow> \<not> block_done (fst (unpad_bytes ?s5 ?c0)) \<longrightarrow> w" "cuts_ok (fst (unpad_bytes ?s5 ?c0)) (map (mb_content \<circ> snd) rs)"
    using r(5) assms(14) cuts_ok_step [of ?s5 ?c0 "map (mb_content \<circ> snd) rs"] by (blast, cases "rs = []") simp_all
  obtain ins t'' where i: "vision_reads pool (Suc k) u rs t' = Ok (ins, t'')"
    "mb_content ins = snd (unpad_bytes (fst (unpad_bytes ?s5 ?c0)) (concat (map (mb_content \<circ> snd) rs)))"
    using vision_reads_ok [OF assms(2) r(4) _ c(1) _ c(2), of "Suc k"] assms(13) r(3) unpad_bytes_cases [of ?s5 ?c0] by (auto simp: block_done_def)
  have "snd (unpad_bytes ?s5 body) = concat (map (ob_content \<circ> snd) ws)" using unpad_padded [OF body(1), of ?s5] by simp
  then have "mb_content (out @ ins) = concat (map (ob_content \<circ> snd) ws)"
    using r(2) i(2) unpad_bytes_append [of ?s5 ?c0 "concat (map (mb_content \<circ> snd) rs)"] uu(2) by simp
  then show ?thesis using r(1) i(1) by simp
qed


definition three_bytes :: buffer where
  "three_bytes = append_at_end (New []) [1, 2, 3]"

lemma three_bytes: "packed three_bytes" "content three_bytes = [1, 2, 3]" "Len three_bytes = 3"
  using append_packed [OF New_packed [of "[]"], of "[1, 2, 3]"] New_wf [of "[]"] by (simp_all add: three_bytes_def packed_def Len_content)

lemma first_write_sent:
  assumes "length uuid = 16"
  obtains nb p where "vision_sent (\<lambda>i j. []) (\<lambda>i j n. 0) True uuid [(id, [Some three_bytes])] (NewTrafficState uuid) = Ok (content nb)"
    "packed nb" "content nb = uuid @ vblock 0 [1, 2, 3] p"
proof -
  have rnd: "rnd_ok (\<lambda>n. 0)" by (simp add: rnd_ok_def)
  obtain nb p where nb: "XtlsPadding [] (\<lambda>n. 0) (Some three_bytes) 0 uuid False = Ok nb" "packed nb" "content nb = uuid @ vblock 0 [1, 2, 3] p"
    using XtlsPadding_block [of "Some three_bytes" uuid "[]" "\<lambda>n. 0" 0 False] assms three_bytes rnd by (auto simp: opt_Len_def)
  have "vision_sent (\<lambda>i j. []) (\<lambda>i j n. 0) True uuid [(id, [Some three_bytes])] (NewTrafficState uuid) = Ok (content nb)"
    using nb(1) three_bytes(3)
    by (simp add: vision_sent_def Vision_Write_def NewTrafficState_def new_link_state_def note_hello_def follow_hello_def Let_def
        writer_side_def ReshapeMultiBuffer_def opt_Len_def Size_def application_data_def CommandPaddingContinue_def)
  then show thesis using that nb by blast
qed

theorem vision_roundtrip_witness:
  "\<exists>b ins t. vision_sent (\<lambda>i j. []) (\<lambda>i j n. 0) True (replicate 16 7) [(id, [Some three_bytes])] (NewTrafficState (replicate 16 7)) = Ok (content b) \<and>
    vision_reads (\<lambda>i j. []) 0 True [(id, [b])] (NewTrafficState (replicate 16 7)) = Ok (ins, t) \<and> mb_content ins = [1, 2, 3]"
proof -
  obtain nb p where nb: "vision_sent (\<lambda>i j. []) (\<lambda>i j n. 0) True (replicate 16 7) [(id, [Some three_bytes])] (NewTrafficState (replicate 16 7)) = Ok (content nb)"
    "packed nb" "content nb = replicate 16 7 @ vblock 0 [1, 2, 3] p"
    using first_write_sent [of "replicate 16 7"] by (metis length_replicate)
  have k: "keeps_writer True id" "keeps_reader True id" "rnd_ok (\<lambda>n. 0)" by (simp_all add: keeps_writer_def keeps_reader_def rnd_ok_def)
  have s: "writer_side True (NewTrafficState uuid) = new_link_state" "reader_side True (NewTrafficState uuid) = new_link_state"
    "ts_UserUUID (NewTrafficState uuid) = uuid" for uuid
    by (simp_all add: NewTrafficState_def writer_side_def reader_side_def)
  have "21 \<le> length (content nb)" using nb(3) by (simp add: vblock_length)
  then have "\<exists>ins t. vision_reads (\<lambda>i j. []) 0 True [(id, [nb])] (NewTrafficState (replicate 16 7)) = Ok (ins, t) \<and>
      mb_content ins = concat (map (ob_content \<circ> snd) [(id :: traffic_state \<Rightarrow> traffic_state, [Some three_bytes])])"
    by (intro vision_roundtrip [where uuid = "replicate 16 7" and rnd = "\<lambda>i j n. 0" and tw = "NewTrafficState (replicate 16 7)"])
      (use nb k s three_bytes in simp_all)
  then obtain ins t where "vision_reads (\<lambda>i j. []) 0 True [(id, [nb])] (NewTrafficState (replicate 16 7)) = Ok (ins, t)" "mb_content ins = [1, 2, 3]"
    using three_bytes(2) by auto
  then show ?thesis using nb(1) by blast
qed

text \<open>
  A read that ends right after the command byte of the block that ends the padding breaks the stream, once the filter has
  finished: the reader takes the padding to be over, and the rest of the block, header and padding included, is delivered as
  data.
\<close>

theorem vision_split_header:
  assumes "ls_command (reader_side u t) = 5" and "ls_content (reader_side u t) = 0" and "ls_padding (reader_side u t) = 0"
    and "ls_within (reader_side u t)" and "ts_toFilter t \<le> 0" and "c \<in> {1, 2}" and "length (pool 0) < 2147483648"
    and "packed b" and "content b = [c]" and "packed b'" and "content b' = tl (vblock c d p)"
  shows "\<exists>t' t''. Vision_Read pool u [b] t = Ok ([], t') \<and> Vision_Read pool u [b'] t' = Ok ([b'], t'')"
proof -
  let ?s = "reader_side u t" let ?s1 = "?s\<lparr>ls_current := uint c, ls_command := 4\<rparr>"
  have wf: "buf_wf b" "buf_wf b'" using assms(8,10) by (simp_all add: packed_def)
  have "unpad_bytes ?s [c] = (?s1, [])"
    using assms(1) by (simp add: unpad_byte_def idle_def take_command_def settle_def block_done_def)
  then obtain n where n: "XtlsUnpadding (pool 0) b u t = Ok (n, set_reader_side u ?s1 t)" "packed n" "content n = []"
    using XtlsUnpadding_ok [OF assms(8,7), of u t] assms(1,9) by (auto simp: idle_def block_done_def)
  have "Len n = 0" using n(2,3) by (simp add: packed_def Len_content)
  have c: "uint c = 1 \<or> uint c = 2" using assms(6) by auto
  let ?t' = "set_reader_side u (after_read ?s1) t"
  have "\<not> ls_within (after_read ?s1)" using c assms(2,3) by (auto simp: after_read_def)
  moreover have "Vision_Read pool u [b] t = Ok ([], ?t')"
    using n(1) \<open>Len n = 0\<close> assms(4,5,9) wf(1) by (simp add: Vision_Read_def IsEmpty_content)
  moreover have "Vision_Read pool u [b'] ?t' = Ok ([b'], ?t')" if "\<not> ls_within (after_read ?s1)"
    using that assms(5) by (simp add: Vision_Read_def)
  ultimately show ?thesis using assms(5) by (auto simp: Vision_Read_def)
qed

definition last_header :: traffic_state where
  "last_header =
     (NewTrafficState (replicate 16 7))\<lparr>ts_toFilter := 0, ts_Inbound := new_link_state\<lparr>ls_command := 5, ls_content := 0, ls_padding := 0\<rparr>\<rparr>"

theorem vision_split_header_witness:
  "\<exists>t' t''. Vision_Read (\<lambda>i. []) True [append_at_end (New []) [1]] last_header = Ok ([], t') \<and>
    Vision_Read (\<lambda>i. []) True [append_at_end (New []) (tl (vblock 1 [5] []))] t' = Ok ([append_at_end (New []) (tl (vblock 1 [5] []))], t'')"
proof (rule vision_split_header [where c = 1 and d = "[5]" and p = "[]"])
  have a: "packed (append_at_end (New []) bs) \<and> content (append_at_end (New []) bs) = bs" if "length bs \<le> 8192" for bs
    using append_packed [OF New_packed [of "[]"], of bs] New_wf [of "[]"] that by simp
  show "packed (append_at_end (New []) [1])" "content (append_at_end (New []) [1]) = [1]" using a [of "[1]"] by simp_all
  show "packed (append_at_end (New []) (tl (vblock 1 [5] [])))" "content (append_at_end (New []) (tl (vblock 1 [5] []))) = tl (vblock 1 [5] [])"
    using a [of "tl (vblock 1 [5] [])"] by (simp_all add: vblock_def)
qed (simp_all add: last_header_def reader_side_def new_link_state_def)

end
