(* ===== verification/Uuid.thy ===== *)
theory Uuid
  imports GoStd
begin

text \<open>
  Identifiers (\<open>common/uuid/uuid.go\<close>): printing, parsing and making of UUIDs, over a model of \<open>encoding/hex\<close>.  SHA-1
  and the random source are arguments.  A UUID is the list of its sixteen bytes.
\<close>

section \<open>Hexadecimal strings\<close>

definition hex_digit :: "nat \<Rightarrow> char" where
  "hex_digit n = ''0123456789abcdef'' ! n"

definition EncodeToString :: "bytes \<Rightarrow> string" where
  "EncodeToString bs = concat (map (\<lambda>b. [hex_digit (unat b div 16), hex_digit (unat b mod 16)]) bs)"

text \<open>\<open>hex.Decode\<close> into a destination that is long enough; an invalid digit or an odd length is an error.\<close>

fun hex_Decode :: "bytes \<Rightarrow> bytes res" where
  "hex_Decode [] = Ok []"
| "hex_Decode [p] =
     (case hex_val (char_of_byte p) of None \<Rightarrow> Err (ErrMsg ''invalid byte'') | Some _ \<Rightarrow> Err (ErrMsg ''odd length hex string''))"
| "hex_Decode (p # q # src) =
     (case (hex_val (char_of_byte p), hex_val (char_of_byte q)) of
        (Some a, Some b) \<Rightarrow> rmap (\<lambda>r. word_of_nat (a * 16 + b) # r) (hex_Decode src)
      | _ \<Rightarrow> Err (ErrMsg ''invalid byte''))"

section \<open>UUIDs\<close>

definition byteGroups :: "nat list" where "byteGroups = [8, 4, 4, 4, 12]"

fun uuid_groups :: "nat list \<Rightarrow> bytes \<Rightarrow> string" where
  "uuid_groups [] bs = ''''"
| "uuid_groups (g # gs) bs = ''-'' @ EncodeToString (take (g div 2) bs) @ uuid_groups gs (drop (g div 2) bs)"

definition uuid_String :: "bytes \<Rightarrow> string" where
  "uuid_String u = EncodeToString (take 4 u) @ uuid_groups [4, 4, 4, 12] (drop 4 u)"

definition uuid_Equals :: "bytes option \<Rightarrow> bytes option \<Rightarrow> bool" where
  "uuid_Equals u another \<longleftrightarrow> (case (u, another) of (None, None) \<Rightarrow> True | (Some a, Some b) \<Rightarrow> a = b | _ \<Rightarrow> False)"

text \<open>The version and the variant of the sixteen bytes \<open>u\<close>.\<close>

definition set_version :: "byte \<Rightarrow> bytes \<Rightarrow> bytes" where
  "set_version v u = u[6 := (u ! 6 AND 0x0f) OR push_bit 4 v, 8 := (u ! 8 AND 0x3f) OR push_bit 6 2]"

definition uuid_New :: "bytes \<Rightarrow> bytes" where
  "uuid_New rand = set_version 4 (take 16 rand)"

definition ParseBytes :: "bytes \<Rightarrow> bytes res" where
  "ParseBytes b = (if length b \<noteq> 16 then Err (ErrMsg ''invalid UUID: '') else Ok b)"

text \<open>
  The groups of a text.  \<open>text\<close> is a slice: the bytes there are, followed by what lies between the length and the capacity
  of the array that \<open>[]byte(str)\<close> made, which are zeros.  A group is sliced up to the capacity.
\<close>

fun parse_groups :: "nat list \<Rightarrow> bytes \<Rightarrow> nat \<Rightarrow> bytes res" where
  "parse_groups [] text spare = Ok []"
| "parse_groups (g # gs) text spare =
     rbind (at_index text 0) (\<lambda>c.
       (let text = (if c = byte_of_char CHR ''-'' then tl text else text) in
        rbind (bytes_to (text @ replicate spare 0) g) (\<lambda>src.
        rbind (hex_Decode src) (\<lambda>b.
        rbind (bytes_from text g) (\<lambda>rest. rmap (\<lambda>bs. b @ bs) (parse_groups gs rest spare))))))"

definition ParseString :: "(bytes \<Rightarrow> bytes) \<Rightarrow> nat \<Rightarrow> string \<Rightarrow> bytes res" where
  "ParseString sha1 spare str =
     (let text = to_bytes str; l = length text in
      if l < 32 \<or> l > 36 then
        (if l = 0 \<or> l > 30 then Err (ErrMsg ''invalid UUID: '')
         else Ok (set_version 5 (take 16 (sha1 (replicate 16 0 @ text)))))
      else parse_groups byteGroups text spare)"

section \<open>Hexadecimal digits\<close>

lemma hex_val_digit: "n < 16 \<Longrightarrow> hex_val (hex_digit n) = Some n"
proof -
  assume "n < 16"
  then have "n \<in> set [0..<16]" by simp
  moreover have "list_all (\<lambda>n. hex_val (hex_digit n) = Some n) [0..<16]" by code_simp
  ultimately show ?thesis by (auto simp: list_all_iff)
qed

lemma hex_digit_dash: "n < 16 \<Longrightarrow> hex_digit n \<noteq> CHR ''-''"
  using hex_val_digit [of n] by (auto simp: hex_val_def is_digit_def)

lemma EncodeToString_length [simp]: "length (EncodeToString bs) = 2 * length bs"
  by (induction bs) (simp_all add: EncodeToString_def)

lemma EncodeToString_Cons [simp]: "EncodeToString (b # bs) = hex_digit (unat b div 16) # hex_digit (unat b mod 16) # EncodeToString bs"
  "EncodeToString [] = []"
  by (simp_all add: EncodeToString_def)

lemma byte_div_16: "unat (b :: byte) div 16 < 16"
proof -
  have "unat b < 256" using unsigned_less [of b] by simp
  then show ?thesis by simp
qed

lemma hex_Decode_Encode [simp]: "hex_Decode (to_bytes (EncodeToString bs)) = Ok bs"
proof (induction bs)
  case (Cons b bs)
  have "(word_of_nat (unat b div 16 * 16 + unat b mod 16) :: byte) = b" by simp
  then show ?case using Cons byte_div_16 [of b] by (simp add: to_bytes_def hex_val_digit)
qed (simp add: to_bytes_def)

lemma hex_Decode_length: "hex_Decode src = Ok bs \<Longrightarrow> length src = 2 * length bs"
  by (induction src arbitrary: bs rule: hex_Decode.induct) (auto simp: rmap_Ok_iff split: option.splits)

section \<open>Printing and parsing\<close>

lemma Encode_first:
  assumes "bs \<noteq> []"
  shows "at_index (to_bytes (EncodeToString bs) @ rest) 0 = Ok (hd (to_bytes (EncodeToString bs)))"
    and "hd (to_bytes (EncodeToString bs)) \<noteq> byte_of_char CHR ''-''"
proof -
  obtain b bs' where b: "bs = b # bs'" using assms by (cases bs) auto
  show "at_index (to_bytes (EncodeToString bs) @ rest) 0 = Ok (hd (to_bytes (EncodeToString bs)))" by (simp add: b to_bytes_def)
  have "hex_digit (unat b div 16) \<noteq> CHR ''-''" by (rule hex_digit_dash [OF byte_div_16])
  then have "byte_of_char (hex_digit (unat b div 16)) \<noteq> byte_of_char CHR ''-''" by (metis char_of_byte_of_char)
  then show "hd (to_bytes (EncodeToString bs)) \<noteq> byte_of_char CHR ''-''" by (simp add: b to_bytes_def)
qed

lemma parse_groups_step:
  assumes "g = 2 * length bs" and "bs \<noteq> []"
  shows "parse_groups (g # gs) (to_bytes (EncodeToString bs) @ rest) spare = rmap (\<lambda>r. bs @ r) (parse_groups gs rest spare)"
    and "parse_groups (g # gs) (byte_of_char CHR ''-'' # to_bytes (EncodeToString bs) @ rest) spare = rmap (\<lambda>r. bs @ r) (parse_groups gs rest spare)"
  using assms Encode_first [OF assms(2)] by simp_all

lemma parse_uuid_groups:
  "length bs * 2 = sum_list gs \<Longrightarrow> list_all (\<lambda>g. even g \<and> g > 0) gs \<Longrightarrow> parse_groups gs (to_bytes (uuid_groups gs bs)) spare = Ok bs"
proof (induction gs arbitrary: bs)
  case (Cons g gs)
  let ?b = "take (g div 2) bs"
  have l: "g = 2 * length ?b" "?b \<noteq> []" using Cons.prems by auto
  have r: "parse_groups gs (to_bytes (uuid_groups gs (drop (g div 2) bs))) spare = Ok (drop (g div 2) bs)"
    using Cons.IH [of "drop (g div 2) bs"] Cons.prems by auto
  have t: "to_bytes (uuid_groups (g # gs) bs) = byte_of_char CHR ''-'' # to_bytes (EncodeToString ?b) @ to_bytes (uuid_groups gs (drop (g div 2) bs))"
    by (simp add: to_bytes_def)
  show ?case unfolding t parse_groups_step(2) [OF l] by (simp add: r)
qed simp

text \<open>
  A printed UUID parses to the same bytes, for any contents of the array behind the string.
\<close>

theorem uuid_roundtrip:
  assumes "length u = 16"
  shows "ParseString sha1 spare (uuid_String u) = Ok u"
proof -
  let ?t = "to_bytes (uuid_String u)"
  have b: "8 = 2 * length (take 4 u)" "take 4 u \<noteq> []" using assms by auto
  have t: "?t = to_bytes (EncodeToString (take 4 u)) @ to_bytes (uuid_groups [4, 4, 4, 12] (drop 4 u))"
    by (simp add: uuid_String_def to_bytes_def)
  have "length ?t = 36" using assms by (simp add: uuid_String_def)
  moreover have "parse_groups byteGroups ?t spare = Ok u"
  proof -
    have "parse_groups [4, 4, 4, 12] (to_bytes (uuid_groups [4, 4, 4, 12] (drop 4 u))) spare = Ok (drop 4 u)"
      by (rule parse_uuid_groups) (simp_all add: assms)
    then show ?thesis by (simp only: t byteGroups_def parse_groups_step(1) [OF b] rmap.simps append_take_drop_id)
  qed
  ultimately show ?thesis by (simp add: ParseString_def Let_def)
qed

theorem uuid_roundtrip_witness:
  "ParseString (\<lambda>b. b) 12 (uuid_String [0, 17, 34, 51, 68, 85, 102, 119, 136, 153, 170, 187, 204, 221, 238, 255]) =
     Ok [0, 17, 34, 51, 68, 85, 102, 119, 136, 153, 170, 187, 204, 221, 238, 255]"
  by (rule uuid_roundtrip) simp

lemma parse_groups_length: "parse_groups gs tx spare = Ok bs \<Longrightarrow> length bs * 2 = sum_list gs"
proof (induction gs arbitrary: tx bs)
  case (Cons g gs)
  then show ?case
    by (auto simp: rbind_Ok_iff rmap_Ok_iff Let_def bytes_to_def bytes_from_def algebra_simps dest!: hex_Decode_length split: if_splits)
qed simp

text \<open>
  Whatever the string, a parse that succeeds yields sixteen bytes, provided the digest has at least that many.
\<close>

theorem uuid_typed:
  assumes "\<And>m. 16 \<le> length (sha1 m)" and "ParseString sha1 spare str = Ok u"
  shows "length u = 16"
proof (cases "length str < 32 \<or> length str > 36")
  case True
  then show ?thesis using assms by (auto simp: ParseString_def Let_def set_version_def split: if_splits)
next
  case False
  then have "parse_groups byteGroups (to_bytes str) spare = Ok u" using assms(2) by (simp add: ParseString_def)
  from parse_groups_length [OF this] show ?thesis by (simp add: byteGroups_def)
qed

theorem uuid_typed_witness: "length (the (case ParseString (\<lambda>m. replicate 20 0) 0 ''user'' of Ok u \<Rightarrow> Some u | _ \<Rightarrow> None)) = 16"
  using uuid_typed [of "\<lambda>m. replicate 20 0" 0 "''user''" "set_version 5 (replicate 16 0)"] by (simp add: ParseString_def Let_def)

text \<open>
  A text of 32 characters with four dashes passes the test of the length but has only 28 digits: unless the runtime has
  put the string into an array with room to spare, the parser slices out of range and panics.
\<close>

theorem short_uuid_panics: "ParseString sha1 0 ''00000000-0000-0000-0000-00000000'' = Panic ''slice bounds out of range''"
  by (simp add: ParseString_def Let_def byteGroups_def to_bytes_def byte_of_char_def hex_val_def is_digit_def char_of_byte_def bytes_to_def bytes_from_def at_index_def)

end
