(* ===== verification/WireBuf.thy ===== *)
theory WireBuf
  imports AddressCodec
begin

text \<open>
  Messages in a buffer, as the protocol headers build and take them apart: a header is written piece by piece into a
  fresh buffer, and it is read by clearing a buffer and filling it again and again.  Errors of a step are returned under
  the message of the caller.
\<close>

definition wrap_res :: "string \<Rightarrow> 'a res \<Rightarrow> 'a res" where
  "wrap_res msg r = (case r of Err e \<Rightarrow> Err (ErrMsg msg) | r \<Rightarrow> r)"

definition wrap :: "string \<Rightarrow> ('s, 'a) act \<Rightarrow> ('s, 'a) act" where
  "wrap msg m s = (case m s of (s, r) \<Rightarrow> (s, wrap_res msg r))"

definition with_error :: "('w \<times> goerr option) res \<Rightarrow> 'w res" where
  "with_error r = rbind r (\<lambda>(w, e). case e of None \<Rightarrow> Ok w | Some x \<Rightarrow> Err x)"

definition clear_buf :: "(rstate, unit) act" where
  "clear_buf = (\<lambda>(b, s). ((Clear b, s), Ok ()))"

lemma wrap_res_simps [simp]: "wrap_res msg (Ok x) = Ok x" "wrap_res msg (Err e) = Err (ErrMsg msg)" "wrap_res msg (Panic p) = Panic p"
  by (simp_all add: wrap_res_def)

lemma wrap_Ok [simp]: "m s = (s', Ok x) \<Longrightarrow> wrap msg m s = (s', Ok x)"
  by (simp add: wrap_def)

lemma wrap_Ok_iff: "wrap msg m s = (s', Ok x) \<longleftrightarrow> m s = (s', Ok x)"
  by (cases "m s"; cases "snd (m s)") (auto simp: wrap_def)

lemma act_bind_Ok_iff: "act_bind m f s = (s', Ok y) \<longleftrightarrow> (\<exists>s1 x. m s = (s1, Ok x) \<and> f x s1 = (s', Ok y))"
  by (cases "m s"; cases "snd (m s)") (auto simp: act_bind_def)

lemma with_error_Ok [simp]: "with_error (Ok (w, None)) = Ok w" "with_error (Ok (w, Some e)) = Err e"
  by (simp_all add: with_error_def)

lemma clear_buf_simp [simp]: "clear_buf (b, s) = ((Clear b, s), Ok ())"
  by (simp add: clear_buf_def)

section \<open>Writing into a fresh buffer\<close>

definition built :: "bytes \<Rightarrow> bytes \<Rightarrow> buffer" where
  "built fresh bs = append_at_end (New fresh) bs"

lemma built_wf:
  assumes "length fresh < 2147483648" and "length bs \<le> 8192"
  shows "buf_wf (built fresh bs)" and "content (built fresh bs) = bs" and "room (built fresh bs) = 8192 - length bs"
  using append_at_end_content [of "New fresh" bs] New_wf [OF assms(1)] assms(2) by (auto simp: built_def)

lemma built_Nil: "length fresh < 2147483648 \<Longrightarrow> New fresh = built fresh []"
  using append_at_end_Nil [of "New fresh"] New_wf [of fresh] by (simp add: built_def)

lemma built_append:
  assumes "length fresh < 2147483648" and "length bs + length ys \<le> 8192"
  shows "append_at_end (built fresh bs) ys = built fresh (bs @ ys)"
  using append_at_end_append [of "New fresh" bs ys] New_wf [OF assms(1)] assms(2) by (simp add: built_def)

lemma built_Write:
  assumes "length fresh < 2147483648" and "length bs + length ys \<le> 8192"
  shows "Write (built fresh bs) ys = Ok (built fresh (bs @ ys), length ys)"
  using Write_fits [of "built fresh bs" ys] built_wf [OF assms(1), of bs] built_append [OF assms] assms(2) by simp

lemma built_WriteByte:
  assumes "length fresh < 2147483648" and "length bs < 8192"
  shows "WriteByte (built fresh bs) x = Ok (built fresh (bs @ [x]))"
  using WriteByte_append [of "built fresh bs" x] built_wf [OF assms(1), of bs] built_append [OF assms(1), of bs "[x]"] assms(2) by simp

section \<open>Reading into a cleared buffer\<close>

definition scratch :: "buffer \<Rightarrow> bool" where
  "scratch b \<longleftrightarrow> buf_wf b \<and> slen (buf_v b) = 8192"

definition loaded :: "buffer \<Rightarrow> bytes \<Rightarrow> buffer" where
  "loaded b bs = append_at_end (Clear b) bs"

lemma scratch_New: "length fresh < 2147483648 \<Longrightarrow> scratch (New fresh)"
  using New_wf [of fresh] by (simp add: scratch_def New_def Size_def)

lemma Clear_scratch: "scratch b \<Longrightarrow> buf_wf (Clear b) \<and> room (Clear b) = 8192"
  by (auto simp: scratch_def Clear_def buf_wf_def room_def)

lemma loaded_scratch:
  assumes "scratch b" and "length bs \<le> 8192"
  shows "scratch (loaded b bs)" and "content (loaded b bs) = bs" and "buf_wf (loaded b bs)" and "room (loaded b bs) = 8192 - length bs"
  using append_at_end_content [of "Clear b" bs] Clear_scratch [OF assms(1)] Clear_content [of b] assms
  by (auto simp: loaded_def scratch_def append_at_end_def Clear_def)

lemma loaded_read:
  assumes "scratch b" and "length bs \<le> 8192" and "n = int (length bs)"
  shows "read_n n (Clear b, \<lparr>pending = bs @ rest, ending = e\<rparr>) = ((loaded b bs, \<lparr>pending = rest, ending = e\<rparr>), Ok ())"
  using read_n_append [of "Clear b" bs n rest e] Clear_scratch [OF assms(1)] assms(2,3) by (simp add: loaded_def)

lemma loaded_byte [simp]: "scratch b \<Longrightarrow> buf_Byte (loaded b [x]) 0 = Ok x"
  using buf_Byte_content [of "loaded b [x]" 0] loaded_scratch [of b "[x]"] by (simp add: Len_content)

lemma Clear_New [simp]: "Clear (New fresh) = New fresh"
  by (simp add: Clear_def New_def)

end
