(* ===== verification/SafeRead.thy ===== *)
theory SafeRead
  imports WireBuf
begin

text \<open>
  No input makes a header parser panic.  A step is safe if it does not panic on any buffer with enough room, whatever the
  connection delivers, and leaves a well-formed buffer; steps compose.
\<close>

definition safe_read :: "nat \<Rightarrow> (rstate, 'a) act \<Rightarrow> bool" where
  "safe_read k m \<longleftrightarrow> (\<forall>b s. buf_wf b \<longrightarrow> k \<le> room b \<longrightarrow>
     (\<exists>b' s' r. m (b, s) = ((b', s'), r) \<and> \<not> is_panic r \<and> (\<forall>x. r = Ok x \<longrightarrow> buf_wf b' \<and> room b \<le> room b' + k)))"

lemma safe_readD:
  assumes "safe_read k m" and "buf_wf b" and "k \<le> room b"
  shows "\<exists>b' s' r. m (b, s) = ((b', s'), r) \<and> \<not> is_panic r \<and> (\<forall>x. r = Ok x \<longrightarrow> buf_wf b' \<and> room b \<le> room b' + k)"
  using assms unfolding safe_read_def by blast

lemma safe_readI:
  assumes "\<And>b s. buf_wf b \<Longrightarrow> k \<le> room b \<Longrightarrow>
    \<exists>b' s' r. m (b, s) = ((b', s'), r) \<and> \<not> is_panic r \<and> (\<forall>x. r = Ok x \<longrightarrow> buf_wf b' \<and> room b \<le> room b' + k)"
  shows "safe_read k m"
  using assms by (simp add: safe_read_def)

lemma safe_bind:
  assumes "safe_read i m" and "\<And>x. safe_read j (f x)"
  shows "safe_read (i + j) (act_bind m f)"
proof (rule safe_readI)
  fix b s assume b: "buf_wf b" "i + j \<le> room b"
  then have i: "i \<le> room b" by simp
  obtain b1 s1 r where 1: "m (b, s) = ((b1, s1), r)" "\<not> is_panic r" "\<forall>x. r = Ok x \<longrightarrow> buf_wf b1 \<and> room b \<le> room b1 + i"
    using safe_readD [OF assms(1) b(1) i, of s] by blast
  show "\<exists>b' s' r. act_bind m f (b, s) = ((b', s'), r) \<and> \<not> is_panic r \<and> (\<forall>x. r = Ok x \<longrightarrow> buf_wf b' \<and> room b \<le> room b' + (i + j))"
  proof (cases r)
    case (Ok x)
    then have w: "buf_wf b1" "room b \<le> room b1 + i" using 1(3) by blast+
    then have j: "j \<le> room b1" using b(2) by linarith
    obtain b2 s2 r2 where 2: "f x (b1, s1) = ((b2, s2), r2)" "\<not> is_panic r2" "\<forall>x. r2 = Ok x \<longrightarrow> buf_wf b2 \<and> room b1 \<le> room b2 + j"
      using safe_readD [OF assms(2) w(1) j, of x s1] by blast
    have "room b \<le> room b2 + (i + j)" if "room b1 \<le> room b2 + j" using that w(2) by linarith
    then show ?thesis using 1(1) Ok 2 by auto
  qed (use 1 in auto)
qed

lemma safe_mono:
  assumes "safe_read i m" and "i \<le> j"
  shows "safe_read j m"
proof (rule safe_readI)
  fix b s assume b: "buf_wf b" "j \<le> room b"
  then have i: "i \<le> room b" using assms(2) by simp
  have "room b \<le> room b' + j" if "room b \<le> room b' + i" for b' using that assms(2) by linarith
  then show "\<exists>b' s' r. m (b, s) = ((b', s'), r) \<and> \<not> is_panic r \<and> (\<forall>x. r = Ok x \<longrightarrow> buf_wf b' \<and> room b \<le> room b' + j)"
    using safe_readD [OF assms(1) b(1) i, of s] by blast
qed

lemma act_bind_assoc: "act_bind m (\<lambda>x. act_bind (f x) g) = act_bind (act_bind m f) g"
proof
  fix s show "act_bind m (\<lambda>x. act_bind (f x) g) s = act_bind (act_bind m f) g s"
    by (cases "m s"; cases "snd (m s)") (simp_all add: act_bind_def)
qed

lemma safe_ret: "safe_read k (act_ret x)" and safe_fail: "safe_read k (act_lift (Err e))"
  by (simp_all add: safe_read_def)

lemma safe_wrap: "safe_read k m \<Longrightarrow> safe_read k (wrap msg m)"
proof (rule safe_readI)
  fix b s assume m: "safe_read k m" and b: "buf_wf b" "k \<le> room b"
  obtain b1 s1 r where "m (b, s) = ((b1, s1), r)" "\<not> is_panic r" "\<forall>x. r = Ok x \<longrightarrow> buf_wf b1 \<and> room b \<le> room b1 + k"
    using safe_readD [OF m b, of s] by blast
  then show "\<exists>b' s' r. wrap msg m (b, s) = ((b', s'), r) \<and> \<not> is_panic r \<and> (\<forall>x. r = Ok x \<longrightarrow> buf_wf b' \<and> room b \<le> room b' + k)"
    by (cases r) (auto simp: wrap_def)
qed

lemma safe_clear: "safe_read 0 clear_buf"
proof (rule safe_readI)
  fix b :: buffer and s :: stream assume b: "buf_wf b"
  then have "buf_wf (Clear b)" "room b \<le> room (Clear b)" using buf_wf_bounds [OF b] by (auto simp: Clear_def buf_wf_def room_def)
  then show "\<exists>b' s' r. clear_buf (b, s) = ((b', s'), r) \<and> \<not> is_panic r \<and> (\<forall>x. r = Ok x \<longrightarrow> buf_wf b' \<and> room b \<le> room b' + 0)" by simp
qed

section \<open>Reading and looking at what was read\<close>

text \<open>A block reads \<open>n\<close> bytes and computes from the buffer, which then ends with them.\<close>

lemma safe_block:
  assumes "0 \<le> n" and "\<And>b bs. buf_wf b \<Longrightarrow> length bs = nat n \<Longrightarrow> length bs \<le> room b \<Longrightarrow> \<not> is_panic (f (append_at_end b bs))"
  shows "safe_read (nat n) (act_bind (wrap msg (read_n n)) (\<lambda>_. on_buf f))" and "safe_read (nat n) (act_bind (read_n n) (\<lambda>_. on_buf f))"
    and "safe_read (nat n) (read_n n)"
proof -
  have r: "\<exists>b' s' r. read_n n (b, s) = ((b', s'), r) \<and> \<not> is_panic r \<and> (\<forall>x. r = Ok x \<longrightarrow> (\<exists>bs. length bs = nat n \<and> b' = append_at_end b bs))"
    if "buf_wf b" "nat n \<le> room b" for b s
    using ReadFullFrom_append [OF that(1) assms(1) that(2), of s] read_full_length [of "nat n" s]
    by (cases "read_full (nat n) s"; cases "fst (snd (read_full (nat n) s))") (auto simp: read_n_def)
  show "safe_read (nat n) (read_n n)"
    using r append_at_end_content by (intro safe_readI) (metis le_add_diff_inverse2 le_refl)
  have b: "\<exists>b' s' r. act_bind (wrap msg (read_n n)) (\<lambda>_. on_buf f) (b, s) = ((b', s'), r) \<and> \<not> is_panic r \<and> (\<forall>x. r = Ok x \<longrightarrow> buf_wf b' \<and> room b \<le> room b' + nat n)"
    if w: "buf_wf b" "nat n \<le> room b" for b s msg
  proof -
    obtain b1 s1 r where 1: "read_n n (b, s) = ((b1, s1), r)" "\<not> is_panic r" "\<forall>x. r = Ok x \<longrightarrow> (\<exists>bs. length bs = nat n \<and> b1 = append_at_end b bs)" using r [OF w] by blast
    show ?thesis
    proof (cases r)
      case (Ok x)
      then obtain bs where bs: "length bs = nat n" "b1 = append_at_end b bs" using 1(3) by blast
      then show ?thesis using 1(1) Ok assms(2) [OF w(1) bs(1)] append_at_end_content [OF w(1), of bs] w(2) by (auto simp: wrap_def act_bind_def)
    qed (use 1 in \<open>auto simp: wrap_def act_bind_def\<close>)
  qed
  then show "safe_read (nat n) (act_bind (wrap msg (read_n n)) (\<lambda>_. on_buf f))" by (rule safe_readI)
  show "safe_read (nat n) (act_bind (read_n n) (\<lambda>_. on_buf f))"
  proof (rule safe_readI)
    fix b s assume "buf_wf b" "nat n \<le> room b"
    from b [OF this, of "[]" s] show "\<exists>b' s' r. act_bind (read_n n) (\<lambda>_. on_buf f) (b, s) = ((b', s'), r) \<and> \<not> is_panic r \<and> (\<forall>x. r = Ok x \<longrightarrow> buf_wf b' \<and> room b \<le> room b' + nat n)"
      by (cases "read_n n (b, s)"; cases "snd (read_n n (b, s))") (auto simp: wrap_def act_bind_def)
  qed
qed

section \<open>Addresses\<close>

lemma readPort_safe: "safe_read 2 readPort"
proof -
  have "safe_read (nat 2) (act_bind (read_n 2) (\<lambda>_. on_buf (\<lambda>b. rbind (BytesFrom b (-2)) PortFromBytes)))"
  proof (rule safe_block)
    fix b :: buffer and bs :: bytes assume b: "buf_wf b" "length bs = nat 2" "length bs \<le> room b"
    then obtain x y where "bs = [x, y]" by (auto simp: numeral_2_eq_2 length_Suc_conv)
    then show "\<not> is_panic (rbind (BytesFrom (append_at_end b bs) (-2)) PortFromBytes)"
      using BytesFrom_append [OF b(1,3), of "-2"] by (simp add: PortFromBytes_def)
  qed simp
  then show ?thesis by (simp add: readPort_def)
qed

lemma domain_address_safe: "d \<noteq> [] \<Longrightarrow> \<not> is_panic (domain_address d)"
  using ParseAddress_Some [of d] by (auto simp: domain_address_def Let_def split: if_splits)

lemma ip_block_safe: "0 < n \<Longrightarrow> safe_read (nat n) (act_bind (read_n n) (\<lambda>_. on_buf (\<lambda>b. rmap IPAddress (BytesFrom b (- n)))))"
proof (rule safe_block)
  fix b :: buffer and bs :: bytes assume b: "0 < n" "buf_wf b" "length bs = nat n" "length bs \<le> room b"
  then have "bs \<noteq> []" by auto
  then show "\<not> is_panic (rmap IPAddress (BytesFrom (append_at_end b bs) (- n)))" using BytesFrom_append [OF b(2,4), of "- n"] b(1,3) by simp
qed simp

text \<open>An empty domain is read as everything that the buffer holds, at least the length byte.\<close>

lemma domain_block:
  assumes "buf_wf b" and "content b \<noteq> []" and "nat (uint (l :: byte)) \<le> room b"
  shows "\<exists>b' s' r. act_bind (read_n (uint l)) (\<lambda>_. on_buf (\<lambda>b. rbind (BytesFrom b (- uint l)) (\<lambda>bs. domain_address (of_bytes bs)))) (b, s) = ((b', s'), r) \<and>
    \<not> is_panic r \<and> (\<forall>x. r = Ok x \<longrightarrow> buf_wf b' \<and> room b \<le> room b' + 255)"
proof -
  have u: "0 \<le> uint l" "uint l \<le> 255" using uint_bounded [of l] by simp_all
  have o: "of_bytes bs \<noteq> []" if "bs \<noteq> []" for bs using that by (metis length_0_conv length_of_bytes)
  obtain bs err s' where r: "read_full (nat (uint l)) s = (bs, err, s')" by (cases "read_full (nat (uint l)) s") auto
  note f = ReadFullFrom_append [OF assms(1) u(1) assms(3), of s, unfolded r, simplified]
  show ?thesis
  proof (cases err)
    case None
    then have l: "length bs = nat (uint l)" using r read_full_length [of "nat (uint l)" s bs s'] by simp
    note a = append_at_end_content [OF assms(1), of bs] 
    let ?b = "append_at_end b bs"
    have w: "buf_wf ?b" "content ?b = content b @ bs" "room ?b = room b - length bs" using a l assms(3) by auto
    have "\<exists>ys. BytesFrom ?b (- uint l) = Ok ys \<and> ys \<noteq> []"
    proof (cases "uint l = 0")
      case True
      then show ?thesis using BytesFrom_content [OF w(1), of 0] w(2) assms(2) Len_content [OF w(1)] by simp
    next
      case False
      then have "0 < nat (uint l)" using u(1) by linarith
      then have n: "bs \<noteq> []" using l by (metis list.size(3) less_irrefl)
      have "length bs \<le> room b" "- uint l = - int (length bs)" using l assms(3) u(1) by simp_all
      then show ?thesis using BytesFrom_append [OF assms(1), of bs "- uint l"] n by simp
    qed
    then obtain ys where "BytesFrom ?b (- uint l) = Ok ys" "ys \<noteq> []" by blast
    moreover have "room b \<le> room ?b + 255" using w(3) l u by linarith
    ultimately show ?thesis using f None w(1) domain_address_safe [OF o] by (simp add: read_n_def act_bind_def split: res.splits)
  qed (use f in \<open>simp add: read_n_def act_bind_def\<close>)
qed

lemma length_byte_safe:
  "safe_read 1 (act_bind (read_n 1) (\<lambda>_. on_buf (\<lambda>b. buf_Byte b (i32 (Len b - 1)))))"
proof -
  have "safe_read (nat 1) (act_bind (read_n 1) (\<lambda>_. on_buf (\<lambda>b. buf_Byte b (i32 (Len b - 1)))))"
  proof (rule safe_block)
    fix b :: buffer and bs :: bytes assume b: "buf_wf b" "length bs = nat 1" "length bs \<le> room b"
    then obtain x where "bs = [x]" by (auto simp: length_Suc_conv)
    then show "\<not> is_panic (buf_Byte (append_at_end b bs) (i32 (Len (append_at_end b bs) - 1)))"
      using last_Byte_append [OF b(1), of "[]" x] b(3) by simp
  qed simp
  then show ?thesis by simp
qed

lemma length_byte_read:
  assumes "buf_wf b" and "1 \<le> room b"
  shows "(\<exists>x s'. act_bind (read_n 1) (\<lambda>_. on_buf (\<lambda>b. buf_Byte b (i32 (Len b - 1)))) (b, s) = ((append_at_end b [x], s'), Ok x)) \<or>
    (\<exists>b' s' e. act_bind (read_n 1) (\<lambda>_. on_buf (\<lambda>b. buf_Byte b (i32 (Len b - 1)))) (b, s) = ((b', s'), Err e))"
proof -
  obtain bs err s' where r: "read_full 1 s = (bs, err, s')" by (cases "read_full 1 s") auto
  have one: "nat 1 \<le> room b" using assms(2) by simp
  note f = ReadFullFrom_append [OF assms(1) _ one, of s, simplified, unfolded One_nat_def [symmetric] r, simplified]
  show ?thesis
  proof (cases err)
    case None
    then obtain x where "bs = [x]" using read_full_length [of 1 s bs s'] r by (auto simp: length_Suc_conv)
    then show ?thesis using f None last_Byte_append [OF assms(1), of "[]" x] assms(2) by (simp add: read_n_def act_bind_def)
  qed (use f in \<open>simp add: read_n_def act_bind_def\<close>)
qed

lemma read_by_family_safe:
  assumes "f \<in> {AddressFamilyIPv4, AddressFamilyIPv6, AddressFamilyDomain}"
  shows "safe_read 256 (read_by_family f)"
proof -
  consider "f = AddressFamilyIPv4" | "f = AddressFamilyIPv6" | (domain) "f = AddressFamilyDomain" using assms by blast
  then show ?thesis
  proof cases
    case domain
    let ?m = "act_bind (read_n 1) (\<lambda>_. on_buf (\<lambda>b. buf_Byte b (i32 (Len b - 1))))"
    let ?n = "\<lambda>l. act_bind (read_n (uint l)) (\<lambda>_. on_buf (\<lambda>b. rbind (BytesFrom b (- uint l)) (\<lambda>bs. domain_address (of_bytes bs))))"
    have e: "read_by_family f = act_bind ?m ?n"
      unfolding act_bind_assoc [symmetric] by (simp add: domain read_by_family_def family_defs Let_def)
    show ?thesis
      unfolding e
    proof (rule safe_readI)
      fix b s assume b: "buf_wf b" "256 \<le> room b"
      then have one: "1 \<le> room b" by simp
      from length_byte_read [OF b(1) one, of s]
      show "\<exists>b' s' r. act_bind ?m ?n (b, s) = ((b', s'), r) \<and> \<not> is_panic r \<and> (\<forall>x. r = Ok x \<longrightarrow> buf_wf b' \<and> room b \<le> room b' + 256)"
      proof (elim disjE exE)
        fix x s1 assume r: "?m (b, s) = ((append_at_end b [x], s1), Ok x)"
        note a = append_at_end_content [OF b(1), of "[x]"]
        have w: "buf_wf (append_at_end b [x])" "content (append_at_end b [x]) \<noteq> []" "room (append_at_end b [x]) = room b - 1" using a b(2) by simp_all
        have x: "nat (uint x) \<le> room (append_at_end b [x])" using w(3) b(2) unsigned_less [of x, where 'a = nat] by simp
        obtain b' s' r' where d: "?n x (append_at_end b [x], s1) = ((b', s'), r')" "\<not> is_panic r'" "\<forall>y. r' = Ok y \<longrightarrow> buf_wf b' \<and> room (append_at_end b [x]) \<le> room b' + 255"
          using domain_block [OF w(1,2) x, of s1] by blast
        have "room b \<le> room b' + 256" if "room (append_at_end b [x]) \<le> room b' + 255" using that w(3) b(2) by linarith
        then show ?thesis using r d by auto
      qed auto
    qed
  qed (use ip_block_safe [of 4] ip_block_safe [of 16] in \<open>auto simp: read_by_family_def family_defs intro: safe_mono\<close>)
qed

definition total_table :: "addressParser \<Rightarrow> bool" where
  "total_table p \<longleftrightarrow> list_all (\<lambda>f. f \<in> {AddressFamilyIPv4, AddressFamilyIPv6, AddressFamilyDomain, afInvalid}) (ap_addrTypeMap p) \<and> length (ap_addrTypeMap p) = 16"

lemma readAddress_safe:
  assumes "total_table p"
  shows "safe_read 257 (readAddress p)"
proof -
  let ?m = "act_bind (read_n 1) (\<lambda>_. on_buf (\<lambda>b. buf_Byte b (i32 (Len b - 1))))"
  let ?n = "\<lambda>ty. let addrType = parsed_type p ty in
       if addrType \<ge> 16 then act_lift (Err (ErrMsg ''unknown address type: ''))
       else
         (let addrFamily = ap_addrTypeMap p ! unat addrType in
          if addrFamily = afInvalid then act_lift (Err (ErrMsg ''unknown address type: ''))
          else read_by_family addrFamily)"
  have "safe_read 256 (?n ty)" for ty
  proof (cases "parsed_type p ty \<ge> 16")
    case False
    then have "unat (parsed_type p ty) < 16" by (simp add: word_le_nat_alt)
    then have "ap_addrTypeMap p ! unat (parsed_type p ty) \<in> {AddressFamilyIPv4, AddressFamilyIPv6, AddressFamilyDomain, afInvalid}"
      using assms by (simp add: total_table_def list_all_length)
    then show ?thesis using False read_by_family_safe [of "ap_addrTypeMap p ! unat (parsed_type p ty)"] safe_fail by (auto simp: Let_def)
  qed (simp add: Let_def safe_fail)
  from safe_bind [OF length_byte_safe this] show ?thesis by (simp add: readAddress_def act_bind_assoc)
qed

lemma address_port_safe:
  assumes "case ser of portFirstAddressParser p \<Rightarrow> total_table p | portLastAddressParser p \<Rightarrow> total_table p"
  shows "safe_read 259 (read_address_port ser)"
proof -
  have "safe_read (2 + (257 + 0)) (portFirst_read p)" "safe_read (257 + (2 + 0)) (portLast_read p)" if "total_table p" for p
    unfolding portFirst_read_def portLast_read_def by (intro safe_bind readPort_safe readAddress_safe [OF that] safe_ret)+
  then show ?thesis using assms by (simp add: read_address_port_def split: serializer.splits)
qed

lemma tables_total: "total_table mux_table" "total_table socks_table" "total_table (socks_table\<lparr>ap_typeParser := Some ss_type\<rparr>)"
  by (simp_all add: total_table_def mux_table_def socks_table_def family_defs afInvalid_def)


lemma read_n_safe: "0 \<le> n \<Longrightarrow> nat n \<le> k \<Longrightarrow> safe_read k (read_n n)"
  using safe_block(3) [of n "\<lambda>_. Ok ()"] safe_mono by auto

lemma safe_on_buf: "(\<And>b. buf_wf b \<Longrightarrow> \<not> is_panic (f b)) \<Longrightarrow> safe_read 0 (on_buf f)"
  by (simp add: safe_read_def)

lemma first_byte_safe: "safe_read 1 (act_bind (wrap msg (read_n 1)) (\<lambda>_. on_buf (\<lambda>b. buf_Byte b 0)))"
proof -
  have "safe_read (nat 1) (act_bind (wrap msg (read_n 1)) (\<lambda>_. on_buf (\<lambda>b. buf_Byte b 0)))"
  proof (rule safe_block)
    fix b :: buffer and bs :: bytes assume b: "buf_wf b" "length bs = nat 1" "length bs \<le> room b"
    have "buf_wf (append_at_end b bs)" "0 < length (content (append_at_end b bs))" using append_at_end_content [OF b(1,3)] b(2) by auto
    then show "\<not> is_panic (buf_Byte (append_at_end b bs) 0)" using buf_Byte_content [of "append_at_end b bs" 0] by (simp add: Len_content)
  qed simp
  then show ?thesis by simp
qed

lemma safe_first_byte:
  assumes "\<And>x. safe_read j (f x)"
  shows "safe_read (1 + j) (act_bind (wrap msg (read_n 1)) (\<lambda>_. act_bind (on_buf (\<lambda>b. buf_Byte b 0)) f))"
  unfolding act_bind_assoc [of "wrap msg (read_n 1)"] by (rule safe_bind [OF first_byte_safe assms])

lemma safe_if: "safe_read k m \<Longrightarrow> safe_read k m' \<Longrightarrow> safe_read k (if c then m else m')"
  by simp

text \<open>
  C23. No input makes the address parsers of mux, VLESS, Trojan, SOCKS and Shadowsocks panic, if the buffer has room for the
  longest address: an invalid one is an error.
\<close>

theorem address_parser_safe:
  assumes "options \<in> {mux_options, socks_options, shadowsocks_options}" and "buf_wf b" and "259 \<le> room b"
  shows "\<exists>ser. NewAddressParser options = Ok ser \<and> \<not> is_panic (snd (ReadAddressPort ser fresh (Some b) s))"
proof -
  obtain ser where s: "NewAddressParser options = Ok ser" "case ser of portFirstAddressParser p \<Rightarrow> total_table p | portLastAddressParser p \<Rightarrow> total_table p"
    using assms(1) mux_parser socks_parser shadowsocks_parser tables_total by auto
  from safe_readD [OF address_port_safe [OF s(2)] assms(2,3), of s] show ?thesis using s(1) by (auto simp: ReadAddressPort_def)
qed

theorem address_parser_safe_witness:
  "\<exists>ser. NewAddressParser mux_options = Ok ser \<and> \<not> is_panic (snd (ReadAddressPort ser [] (Some (New [])) (stream_of [0, 80, 2, 0])))"
  using address_parser_safe [of mux_options "New []"] New_wf [of "[]"] by simp

end
