(* ===== verification/UserTable.thy ===== *)
theory UserTable
  imports StrMph "HOL-Library.AList"
begin

text \<open>
  What the proxies promise of their tables of users: every user has a key, what the client sends to be recognised, and
  perhaps an email address, by which he is managed.  The contract is a locale; VLESS and Trojan provide it.
\<close>

datatype 'u user_op = Add_user 'u | Del_user string

fun apply_op :: "('u \<Rightarrow> 'v \<Rightarrow> 'v) \<Rightarrow> (string \<Rightarrow> 'v \<Rightarrow> 'v) \<Rightarrow> 'u user_op \<Rightarrow> 'v \<Rightarrow> 'v" where
  "apply_op add del (Add_user u) v = add u v"
| "apply_op add del (Del_user e) v = del e v"

text \<open>Every key is new when its user is added.\<close>

fun fresh_keys :: "('u \<Rightarrow> 'k) \<Rightarrow> ('v \<Rightarrow> 'k \<Rightarrow> 'u option) \<Rightarrow> ('u \<Rightarrow> 'v \<Rightarrow> 'v) \<Rightarrow> (string \<Rightarrow> 'v \<Rightarrow> 'v) \<Rightarrow> 'u user_op list \<Rightarrow> 'v \<Rightarrow> bool" where
  "fresh_keys key users add del [] v \<longleftrightarrow> True"
| "fresh_keys key users add del (op # ops) v \<longleftrightarrow>
     (case op of Add_user u \<Rightarrow> users v (key u) = None | Del_user e \<Rightarrow> True) \<and> fresh_keys key users add del ops (apply_op add del op v)"

text \<open>Two maps that agree on an entry agree on it after a common entry is added or removed.\<close>

lemma entry_added:
  assumes "E ke = Some w \<longleftrightarrow> U ki = Some w" and "E ku = None" and "U iu = None" and "w = u \<Longrightarrow> ke = ku \<and> ki = iu"
  shows "(E(ku \<mapsto> u)) ke = Some w \<longleftrightarrow> (U(iu \<mapsto> u)) ki = Some w"
  using assms by (cases "w = u") auto

lemma entry_removed:
  assumes "E ke = Some w \<longleftrightarrow> U ki = Some w" and "E ku = Some u" and "U iu = Some u" and "w = u \<Longrightarrow> ke = ku \<and> ki = iu"
  shows "(E(ku := None)) ke = Some w \<longleftrightarrow> (U(iu := None)) ki = Some w"
  using assms by (cases "w = u") auto

locale user_table =
  fixes email :: "'u \<Rightarrow> string" and key :: "'u \<Rightarrow> 'k"
    and emails :: "'v \<Rightarrow> string \<Rightarrow> 'u option" and users :: "'v \<Rightarrow> 'k \<Rightarrow> 'u option"
    and add :: "'u \<Rightarrow> 'v \<Rightarrow> 'v" and del :: "string \<Rightarrow> 'v \<Rightarrow> 'v" and no_users :: 'v
  assumes nobody: "emails no_users k = None" "users no_users i = None"
    and add_known: "email u \<noteq> '''' \<Longrightarrow> emails v (ToLower (email u)) = Some w \<Longrightarrow> add u v = v"
    and add_new: "email u = '''' \<or> emails v (ToLower (email u)) = None \<Longrightarrow>
      emails (add u v) = (if email u = '''' then emails v else (emails v)(ToLower (email u) \<mapsto> u)) \<and> users (add u v) = (users v)(key u \<mapsto> u)"
    and del_unknown: "e = '''' \<or> emails v (ToLower e) = None \<Longrightarrow> del e v = v"
    and del_known: "e \<noteq> '''' \<Longrightarrow> emails v (ToLower e) = Some u \<Longrightarrow>
      emails (del e v) = (emails v)(ToLower e := None) \<and> users (del e v) = (users v)(key u := None)"
begin

lemma add_agree:
  assumes k: "\<And>k u. emails v k = Some u \<Longrightarrow> k = ToLower (email u) \<and> email u \<noteq> ''''"
    and i: "\<And>i u. users v i = Some u \<Longrightarrow> i = key u"
    and a: "\<And>u. email u \<noteq> '''' \<Longrightarrow> emails v (ToLower (email u)) = Some u \<longleftrightarrow> users v (key u) = Some u"
    and n: "users v (key u) = None"
  shows "emails (add u v) k' = Some w \<Longrightarrow> k' = ToLower (email w) \<and> email w \<noteq> ''''"
    and "users (add u v) j = Some w \<Longrightarrow> j = key w"
    and "email w \<noteq> '''' \<Longrightarrow> emails (add u v) (ToLower (email w)) = Some w \<longleftrightarrow> users (add u v) (key w) = Some w"
proof -
  consider (known) x where "email u \<noteq> ''''" "emails v (ToLower (email u)) = Some x" | (new) "email u = '''' \<or> emails v (ToLower (email u)) = None" by fastforce
  then have "(emails (add u v) k' = Some w \<longrightarrow> k' = ToLower (email w) \<and> email w \<noteq> '''') \<and> (users (add u v) j = Some w \<longrightarrow> j = key w) \<and>
    (email w \<noteq> '''' \<longrightarrow> (emails (add u v) (ToLower (email w)) = Some w \<longleftrightarrow> users (add u v) (key w) = Some w))"
  proof cases
    case known
    then have "add u v = v" by (rule add_known)
    then show ?thesis using k [of k' w] i [of j w] a [of w] by simp
  next
    case new
    note e = add_new [OF new, THEN conjunct1] add_new [OF new, THEN conjunct2]
    have "emails (add u v) (ToLower (email w)) = Some w \<longleftrightarrow> users (add u v) (key w) = Some w" if w: "email w \<noteq> ''''"
    proof (cases "email u = ''''")
      case True
      then show ?thesis using a [OF w] n w by (cases "w = u") (auto simp: e)
    next
      case False
      then show ?thesis using entry_added [of "emails v" "ToLower (email w)" w "users v" "key w" "ToLower (email u)" "key u" u] a [OF w] new n by (simp add: e)
    qed
    then show ?thesis using k [of k' w] i [of j w] by (auto simp: e split: if_splits)
  qed
  then show "emails (add u v) k' = Some w \<Longrightarrow> k' = ToLower (email w) \<and> email w \<noteq> ''''" "users (add u v) j = Some w \<Longrightarrow> j = key w"
    "email w \<noteq> '''' \<Longrightarrow> emails (add u v) (ToLower (email w)) = Some w \<longleftrightarrow> users (add u v) (key w) = Some w" by blast+
qed

lemma del_agree:
  assumes k: "\<And>k u. emails v k = Some u \<Longrightarrow> k = ToLower (email u) \<and> email u \<noteq> ''''"
    and i: "\<And>i u. users v i = Some u \<Longrightarrow> i = key u"
    and a: "\<And>u. email u \<noteq> '''' \<Longrightarrow> emails v (ToLower (email u)) = Some u \<longleftrightarrow> users v (key u) = Some u"
  shows "emails (del e v) k' = Some w \<Longrightarrow> k' = ToLower (email w) \<and> email w \<noteq> ''''"
    and "users (del e v) j = Some w \<Longrightarrow> j = key w"
    and "email w \<noteq> '''' \<Longrightarrow> emails (del e v) (ToLower (email w)) = Some w \<longleftrightarrow> users (del e v) (key w) = Some w"
proof -
  consider (unknown) "e = '''' \<or> emails v (ToLower e) = None" | (known) u where "e \<noteq> ''''" "emails v (ToLower e) = Some u" by fastforce
  then have "(emails (del e v) k' = Some w \<longrightarrow> k' = ToLower (email w) \<and> email w \<noteq> '''') \<and> (users (del e v) j = Some w \<longrightarrow> j = key w) \<and>
    (email w \<noteq> '''' \<longrightarrow> (emails (del e v) (ToLower (email w)) = Some w \<longleftrightarrow> users (del e v) (key w) = Some w))"
  proof cases
    case unknown
    then have "del e v = v" by (rule del_unknown)
    then show ?thesis using k [of k' w] i [of j w] a [of w] by simp
  next
    case known
    note d = del_known [OF known, THEN conjunct1] del_known [OF known, THEN conjunct2]
    have u: "ToLower e = ToLower (email u)" "email u \<noteq> ''''" "users v (key u) = Some u" using k [OF known(2)] a [of u] known(2) by auto
    have "emails (del e v) (ToLower (email w)) = Some w \<longleftrightarrow> users (del e v) (key w) = Some w" if w: "email w \<noteq> ''''"
      unfolding d by (rule entry_removed) (use a [OF w] u known(2) in auto)
    then show ?thesis using k [of k' w] i [of j w] by (auto simp: d split: if_splits)
  qed
  then show "emails (del e v) k' = Some w \<Longrightarrow> k' = ToLower (email w) \<and> email w \<noteq> ''''" "users (del e v) j = Some w \<Longrightarrow> j = key w"
    "email w \<noteq> '''' \<Longrightarrow> emails (del e v) (ToLower (email w)) = Some w \<longleftrightarrow> users (del e v) (key w) = Some w" by blast+
qed

lemma listed_iff_accepted:
  assumes "fresh_keys key users add del ops no_users" and "email u \<noteq> ''''"
  shows "emails (fold (apply_op add del) ops no_users) (ToLower (email u)) = Some u \<longleftrightarrow> users (fold (apply_op add del) ops no_users) (key u) = Some u"
proof -
  define ok where "ok v \<longleftrightarrow> (\<forall>k u. emails v k = Some u \<longrightarrow> k = ToLower (email u) \<and> email u \<noteq> '''') \<and> (\<forall>i u. users v i = Some u \<longrightarrow> i = key u) \<and>
      (\<forall>u. email u \<noteq> '''' \<longrightarrow> (emails v (ToLower (email u)) = Some u \<longleftrightarrow> users v (key u) = Some u))" for v
  have a: "ok (add u v)" if "ok v" "users v (key u) = None" for u v
    using add_agree [where v = v and u = u] that unfolding ok_def by blast
  have d: "ok (del e v)" if "ok v" for e v
    using del_agree [where v = v and e = e] that unfolding ok_def by blast
  have "ok (fold (apply_op add del) ops v)" if "ok v" "fresh_keys key users add del ops v" for v
    using that
  proof (induction ops arbitrary: v)
    case (Cons x ops)
    have "ok (apply_op add del x v)"
    proof (cases x)
      case (Add_user u)
      then show ?thesis using a [OF Cons.prems(1), of u] Cons.prems(2) by simp
    qed (simp add: d [OF Cons.prems(1)])
    then show ?case using Cons.IH Cons.prems(2) by simp
  qed simp
  moreover have "ok no_users" by (simp add: ok_def nobody)
  ultimately have "ok (fold (apply_op add del) ops no_users)" using assms(1) by blast
  then show ?thesis using assms(2) unfolding ok_def by blast
qed

end

end
