(* ===== verification/Vless.thy ===== *)
theory Vless
  imports Uuid SafeRead MultiBuffer UserTable
begin

text \<open>
  VLESS (\<open>proxy/vless\<close>): the table of users, the request and response headers with their addons, and the packet framing of
  UDP.  The protobuf codec of the addons is an argument, \<open>marshal\<close> and \<open>unmarshal\<close>.
\<close>

section \<open>Users\<close>

record vless_user =
  vu_Email :: string
  vu_ID :: bytes
  vu_Flow :: string

record vless_validator =
  vv_email :: "(string \<times> vless_user) list"
  vv_users :: "(bytes \<times> vless_user) list"

definition new_validator :: vless_validator where
  "new_validator = \<lparr>vv_email = [], vv_users = []\<rparr>"

definition validator_Add :: "vless_user \<Rightarrow> vless_validator \<Rightarrow> vless_validator \<times> goerr option" where
  "validator_Add u v =
     (if vu_Email u \<noteq> '''' \<and> map_of (vv_email v) (ToLower (vu_Email u)) \<noteq> None then (v, Some (ErrMsg ''User  already exists.''))
      else
        (let v = (if vu_Email u \<noteq> '''' then v\<lparr>vv_email := AList.update (ToLower (vu_Email u)) u (vv_email v)\<rparr> else v) in
         (v\<lparr>vv_users := AList.update (vu_ID u) u (vv_users v)\<rparr>, None)))"

definition validator_Del :: "string \<Rightarrow> vless_validator \<Rightarrow> vless_validator \<times> goerr option" where
  "validator_Del e v =
     (if e = '''' then (v, Some (ErrMsg ''Email must not be empty.''))
      else
        (case map_of (vv_email v) (ToLower e) of
           None \<Rightarrow> (v, Some (ErrMsg ''User  not found.''))
         | Some u \<Rightarrow> (v\<lparr>vv_email := AList.delete (ToLower e) (vv_email v), vv_users := AList.delete (vu_ID u) (vv_users v)\<rparr>, None)))"

definition validator_Get :: "bytes \<Rightarrow> vless_validator \<Rightarrow> vless_user option" where
  "validator_Get i v = map_of (vv_users v) i"

definition validator_GetByEmail :: "string \<Rightarrow> vless_validator \<Rightarrow> vless_user option" where
  "validator_GetByEmail email v = map_of (vv_email v) (ToLower email)"

definition validator_GetAll :: "((string \<times> vless_user) list \<Rightarrow> (string \<times> vless_user) list) \<Rightarrow> vless_validator \<Rightarrow> vless_user list" where
  "validator_GetAll iterate v = map snd (iterate (vv_email v))"

definition validator_GetCount :: "vless_validator \<Rightarrow> nat" where
  "validator_GetCount v = length (vv_email v)"

section \<open>Headers\<close>

definition RequestCommandTCP :: byte where "RequestCommandTCP = 1"
definition RequestCommandUDP :: byte where "RequestCommandUDP = 2"
definition RequestCommandMux :: byte where "RequestCommandMux = 3"

lemmas command_defs = RequestCommandTCP_def RequestCommandUDP_def RequestCommandMux_def

record request_header =
  rh_Version :: byte
  rh_Command :: byte
  rh_Port :: port
  rh_Address :: "address option"
  rh_User :: vless_user

record addons =
  ad_Flow :: string
  ad_Seed :: bytes

definition no_addons :: addons where "no_addons = \<lparr>ad_Flow = '''', ad_Seed = []\<rparr>"

definition XRV :: string where "XRV = ''xtls-rprx-vision''"

definition vless_addrParser :: serializer where
  "vless_addrParser = portFirstAddressParser mux_table"

definition EncodeHeaderAddons :: "(addons \<Rightarrow> bytes res) \<Rightarrow> buffer \<Rightarrow> addons \<Rightarrow> buffer res" where
  "EncodeHeaderAddons marshal buffer a =
     (if ad_Flow a = XRV then
        rbind (wrap_res ''failed to marshal addons protobuf value'' (marshal a)) (\<lambda>bs.
        rbind (wrap_res ''failed to write addons protobuf length'' (WriteByte buffer (word_of_nat (length bs)))) (\<lambda>buffer.
        rmap fst (Write buffer bs)))
      else wrap_res ''failed to write addons protobuf length'' (WriteByte buffer 0))"

definition EncodeRequestHeader ::
  "(addons \<Rightarrow> bytes res) \<Rightarrow> bytes \<Rightarrow> 'w writer \<Rightarrow> 'w \<Rightarrow> request_header \<Rightarrow> addons \<Rightarrow> 'w res" where
  "EncodeRequestHeader marshal fresh wr w request requestAddons =
     rbind (wrap_res ''failed to write request version'' (WriteByte (New fresh) (rh_Version request))) (\<lambda>buffer.
     rbind (Write buffer (vu_ID (rh_User request))) (\<lambda>(buffer, _).
     rbind (wrap_res ''failed to encode request header addons'' (EncodeHeaderAddons marshal buffer requestAddons)) (\<lambda>buffer.
     rbind (wrap_res ''failed to write request command'' (WriteByte buffer (rh_Command request))) (\<lambda>buffer.
     rbind (if rh_Command request \<noteq> RequestCommandMux then
              (case rh_Address request of
                 None \<Rightarrow> nil_deref
               | Some a \<Rightarrow> wrap_res ''failed to write request address and port''
                   (with_error (WriteAddressPort vless_addrParser buf_writer buffer a (rh_Port request))))
            else Ok buffer) (\<lambda>buffer.
     rbind (Bytes buffer) (\<lambda>bs. wrap_res ''failed to write request header'' (with_error (wr w bs))))))))"

definition DecodeHeaderAddons :: "(bytes \<Rightarrow> addons res) \<Rightarrow> (rstate, addons) act" where
  "DecodeHeaderAddons unmarshal =
     act_bind clear_buf (\<lambda>_.
     act_bind (wrap ''failed to read addons protobuf length'' (read_n 1)) (\<lambda>_.
     act_bind (on_buf (\<lambda>b. buf_Byte b 0)) (\<lambda>len.
       if len \<noteq> 0 then
         act_bind clear_buf (\<lambda>_.
         act_bind (wrap ''failed to read addons protobuf value'' (read_n (uint len))) (\<lambda>_.
         wrap ''failed to unmarshal addons protobuf value'' (on_buf (\<lambda>b. rbind (Bytes b) unmarshal))))
       else act_ret no_addons)))"

text \<open>
  The request header after version and identifier.  A failure to read the address leaves it nil.
\<close>

definition decode_address :: "byte \<Rightarrow> (rstate, address option \<times> port) act" where
  "decode_address command =
     (if command = RequestCommandMux then act_ret (Some (DomainAddr ''v1.mux.cool''), 0)
      else if command = RequestCommandTCP \<or> command = RequestCommandUDP then
        (\<lambda>st. case read_address_port vless_addrParser st of
                (st, Ok r) \<Rightarrow> (st, Ok r)
              | (st, Err e) \<Rightarrow> (st, Ok (None, 0))
              | (st, Panic p) \<Rightarrow> (st, Panic p))
      else act_ret (None, 0))"

definition decode_tail :: "(bytes \<Rightarrow> addons res) \<Rightarrow> vless_user \<Rightarrow> (rstate, request_header \<times> addons) act" where
  "decode_tail unmarshal user =
     act_bind (wrap ''failed to decode request header addons'' (DecodeHeaderAddons unmarshal)) (\<lambda>requestAddons.
     act_bind clear_buf (\<lambda>_.
     act_bind (wrap ''failed to read request command'' (read_n 1)) (\<lambda>_.
     act_bind (on_buf (\<lambda>b. buf_Byte b 0)) (\<lambda>command.
     act_bind (decode_address command) (\<lambda>(addr, port).
       if addr = None then act_lift (Err (ErrMsg ''invalid request address''))
       else act_ret (\<lparr>rh_Version = 0, rh_Command = command, rh_Port = port, rh_Address = addr, rh_User = user\<rparr>, requestAddons))))))"

text \<open>
  \<open>DecodeRequestHeader\<close>.  With \<open>isfb\<close> the first buffer of the connection is at hand and is also what \<open>reader\<close> delivers before
  the rest of the connection, so that \<open>first.Advance\<close> moves the reader: the stream is then the content of \<open>first\<close>, as far as it
  has not been skipped, followed by \<open>rest\<close>.  The flag of the result is what the code returns beside the error, the request
  to fall back; the stream is what is left to read.
\<close>

definition after_first :: "buffer \<Rightarrow> stream \<Rightarrow> stream" where
  "after_first first rest = rest\<lparr>pending := content first @ pending rest\<rparr>"

definition DecodeRequestHeader ::
  "(bytes \<Rightarrow> addons res) \<Rightarrow> bytes \<Rightarrow> bool \<Rightarrow> buffer \<Rightarrow> stream \<Rightarrow> vless_validator \<Rightarrow> stream \<times> bool \<times> (request_header \<times> addons) res" where
  "DecodeRequestHeader unmarshal fresh isfb first rest validator =
     (case (if isfb then ((New fresh, after_first first rest), buf_Byte first 0)
            else act_bind (wrap ''failed to read request version'' (read_n 1)) (\<lambda>_. on_buf (\<lambda>b. buf_Byte b 0)) (New fresh, rest)) of
        ((b, s), Ok version) \<Rightarrow>
          (if version = 0 then
             (case (if isfb then ((b, s), BytesRange first 1 17)
                    else act_bind clear_buf (\<lambda>_. act_bind (wrap ''failed to read request user id'' (read_n 16)) (\<lambda>_. on_buf Bytes)) (b, s)) of
                ((b, s), Ok bs) \<Rightarrow>
                  (case validator_Get (take 16 (bs @ replicate 16 0)) validator of
                     None \<Rightarrow> (s, isfb, Err (ErrMsg ''invalid request user id''))
                   | Some user \<Rightarrow>
                       (case decode_tail unmarshal user (b, if isfb then after_first (Advance first 17) rest else s) of
                          ((b, s), r) \<Rightarrow> (s, False, r)))
              | ((b, s), Err e) \<Rightarrow> (s, False, Err e)
              | ((b, s), Panic p) \<Rightarrow> (s, False, Panic p))
           else (s, isfb, Err (ErrMsg ''invalid request version'')))
      | ((b, s), Err e) \<Rightarrow> (s, False, Err e)
      | ((b, s), Panic p) \<Rightarrow> (s, False, Panic p))"

definition EncodeResponseHeader :: "(addons \<Rightarrow> bytes res) \<Rightarrow> bytes \<Rightarrow> 'w writer \<Rightarrow> 'w \<Rightarrow> byte \<Rightarrow> addons \<Rightarrow> 'w res" where
  "EncodeResponseHeader marshal fresh wr w version responseAddons =
     rbind (wrap_res ''failed to write response version'' (WriteByte (New fresh) version)) (\<lambda>buffer.
     rbind (wrap_res ''failed to encode response header addons'' (EncodeHeaderAddons marshal buffer responseAddons)) (\<lambda>buffer.
     rbind (Bytes buffer) (\<lambda>bs. wrap_res ''failed to write response header'' (with_error (wr w bs)))))"

definition DecodeResponseHeader :: "(bytes \<Rightarrow> addons res) \<Rightarrow> byte \<Rightarrow> (rstate, addons) act" where
  "DecodeResponseHeader unmarshal version =
     act_bind (wrap ''failed to read response version'' (read_n 1)) (\<lambda>_.
     act_bind (on_buf (\<lambda>b. buf_Byte b 0)) (\<lambda>v.
       if v \<noteq> version then act_lift (Err (ErrMsg ''unexpected response version. Expecting ''))
       else wrap ''failed to decode response header addons'' (DecodeHeaderAddons unmarshal)))"


section \<open>The wire format of the headers\<close>

definition addons_bytes :: "bytes \<Rightarrow> addons \<Rightarrow> bytes" where
  "addons_bytes m a = (if ad_Flow a = XRV then word_of_nat (length m) # m else [0])"

definition sent_addons :: "addons \<Rightarrow> addons" where
  "sent_addons a = (if ad_Flow a = XRV then a else no_addons)"

definition request_bytes :: "bytes \<Rightarrow> request_header \<Rightarrow> addons \<Rightarrow> bytes" where
  "request_bytes m r a =
     rh_Version r # vu_ID (rh_User r) @ addons_bytes m a @ rh_Command r #
       (if rh_Command r = RequestCommandMux then []
        else (case rh_Address r of None \<Rightarrow> [] | Some x \<Rightarrow> enc_address_port vless_addrParser x (rh_Port r)))"

text \<open>What the receiver makes of a request: a mux request has an address of its own.\<close>

definition received :: "request_header \<Rightarrow> request_header" where
  "received r = (if rh_Command r = RequestCommandMux then r\<lparr>rh_Address := Some (DomainAddr ''v1.mux.cool''), rh_Port := 0\<rparr> else r)"

definition addons_ok :: "(addons \<Rightarrow> bytes res) \<Rightarrow> (bytes \<Rightarrow> addons res) \<Rightarrow> bytes \<Rightarrow> addons \<Rightarrow> bool" where
  "addons_ok marshal unmarshal m a \<longleftrightarrow>
     (ad_Flow a = XRV \<longrightarrow> marshal a = Ok m \<and> unmarshal m = Ok a \<and> m \<noteq> [] \<and> length m \<le> 255)"

definition request_ok :: "request_header \<Rightarrow> bool" where
  "request_ok r \<longleftrightarrow> rh_Version r = 0 \<and> length (vu_ID (rh_User r)) = 16 \<and>
     (rh_Command r = RequestCommandMux \<or>
      (rh_Command r = RequestCommandTCP \<or> rh_Command r = RequestCommandUDP) \<and> (case rh_Address r of None \<Rightarrow> False | Some x \<Rightarrow> wire_addr x))"

lemma EncodeHeaderAddons_built:
  assumes "addons_ok marshal unmarshal m a" and "length fresh < 2147483648" and "length bs \<le> 7000"
  shows "EncodeHeaderAddons marshal (built fresh bs) a = Ok (built fresh (bs @ addons_bytes m a))"
proof (cases "ad_Flow a = XRV")
  case True
  have "Write (built fresh (bs @ [word_of_nat (length m)])) m = Ok (built fresh ((bs @ [word_of_nat (length m)]) @ m), length m)"
    using assms True by (intro built_Write) (auto simp: addons_ok_def)
  then show ?thesis
    using True assms built_WriteByte [OF assms(2), of bs] by (simp add: EncodeHeaderAddons_def addons_bytes_def addons_ok_def)
qed (use assms built_WriteByte [OF assms(2), of bs] in \<open>simp add: EncodeHeaderAddons_def addons_bytes_def\<close>)

lemma addons_bytes_length: "addons_ok marshal unmarshal m a \<Longrightarrow> length (addons_bytes m a) \<le> 256"
  by (auto simp: addons_bytes_def addons_ok_def)

lemma address_length: "wire_addr x \<Longrightarrow> length (enc_addr mux_table x) + 2 \<le> 259"
  using enc_addr_length [of x mux_table] by simp

lemma EncodeRequestHeader_bytes:
  assumes "request_ok r" and "addons_ok marshal unmarshal m a" and "length fresh < 2147483648"
  shows "EncodeRequestHeader marshal fresh wr w r a =
    wrap_res ''failed to write request header'' (with_error (wr w (request_bytes m r a)))"
proof -
  let ?b1 = "rh_Version r # vu_ID (rh_User r)" let ?b2 = "?b1 @ addons_bytes m a" let ?b3 = "?b2 @ [rh_Command r]"
  have l: "length ?b1 = 17" "length ?b2 \<le> 273" "length ?b3 \<le> 274" using assms(1) addons_bytes_length [OF assms(2)] by (auto simp: request_ok_def)
  have s1: "WriteByte (New fresh) (rh_Version r) = Ok (built fresh [rh_Version r])"
    using built_WriteByte [OF assms(3), of "[]"] built_Nil [OF assms(3)] by simp
  have s2: "Write (built fresh [rh_Version r]) (vu_ID (rh_User r)) = Ok (built fresh ?b1, 16)"
    using built_Write [OF assms(3), of "[rh_Version r]" "vu_ID (rh_User r)"] assms(1) by (simp add: request_ok_def)
  have s3: "EncodeHeaderAddons marshal (built fresh ?b1) a = Ok (built fresh ?b2)"
    using l(1) by (intro EncodeHeaderAddons_built [OF assms(2,3)]) simp
  have s4: "WriteByte (built fresh ?b2) (rh_Command r) = Ok (built fresh ?b3)"
    using l(2) by (intro built_WriteByte [OF assms(3)]) simp
  have f: "Bytes (built fresh bs) = Ok bs" if "length bs \<le> 8192" for bs using built_wf [OF assms(3) that] by simp
  show ?thesis
  proof (cases "rh_Command r = RequestCommandMux")
    case True
    then show ?thesis using s1 s2 s3 s4 f [of ?b3] l(3) by (simp add: EncodeRequestHeader_def request_bytes_def)
  next
    case False
    then obtain x where x: "rh_Address r = Some x" "wire_addr x" using assms(1) by (auto simp: request_ok_def split: option.splits)
    let ?e = "enc_address_port vless_addrParser x (rh_Port r)"
    have e: "length ?e \<le> 259" using address_length [OF x(2)] by (simp add: enc_address_port_def vless_addrParser_def)
    have "WriteAddressPort vless_addrParser buf_writer (built fresh ?b3) x (rh_Port r) = Ok (append_at_end (built fresh ?b3) ?e, None)"
      unfolding vless_addrParser_def
      using address_length [OF x(2)] l(3) built_wf [OF assms(3), of ?b3] by (intro mux_at.port_first_roundtrip(1) [OF x(2)]) auto
    moreover have "append_at_end (built fresh ?b3) ?e = built fresh (?b3 @ ?e)" using l(3) e by (intro built_append [OF assms(3)]) simp
    ultimately show ?thesis
      using False x(1) s1 s2 s3 s4 f [of "?b3 @ ?e"] l(3) e by (simp add: EncodeRequestHeader_def request_bytes_def)
  qed
qed

section \<open>Reading a header back\<close>

lemma DecodeHeaderAddons_back:
  assumes "addons_ok marshal unmarshal m a" and "scratch b"
  shows "\<exists>b'. DecodeHeaderAddons unmarshal (b, \<lparr>pending = addons_bytes m a @ rest, ending = e\<rparr>) =
    ((b', \<lparr>pending = rest, ending = e\<rparr>), Ok (sent_addons a)) \<and> scratch b'"
proof (cases "ad_Flow a = XRV")
  case True
  have m: "unmarshal m = Ok a" "m \<noteq> []" "length m \<le> 255" using assms(1) True by (auto simp: addons_ok_def)
  let ?n = "word_of_nat (length m) :: byte" let ?b1 = "loaded b [?n]"
  have n: "uint ?n = int (length m)" using m(3) by (simp add: uint_nat unat_of_nat)
  have nz: "?n \<noteq> 0" 
  proof
    assume "?n = 0"
    then show False using n m(2) by simp
  qed
  have b1: "scratch ?b1" by (rule loaded_scratch [OF assms(2)]) simp
  have r1: "read_n 1 (Clear b, \<lparr>pending = ?n # m @ rest, ending = e\<rparr>) = ((?b1, \<lparr>pending = m @ rest, ending = e\<rparr>), Ok ())"
    using loaded_read [OF assms(2), of "[?n]" 1] by simp
  have r2: "read_n (uint ?n) (Clear ?b1, \<lparr>pending = m @ rest, ending = e\<rparr>) = ((loaded ?b1 m, \<lparr>pending = rest, ending = e\<rparr>), Ok ())"
    using loaded_read [OF b1, of m "uint ?n"] n m(3) by simp
  have "Bytes (loaded ?b1 m) = Ok m" "scratch (loaded ?b1 m)" using loaded_scratch [OF b1, of m] m(3) by simp_all
  then show ?thesis using True r1 r2 nz m(1) assms(2) by (simp add: DecodeHeaderAddons_def addons_bytes_def sent_addons_def)
next
  case False
  have "scratch (loaded b [0])" by (rule loaded_scratch [OF assms(2)]) simp
  then show ?thesis using False loaded_read [OF assms(2), of "[0]" 1] assms(2) by (simp add: DecodeHeaderAddons_def addons_bytes_def sent_addons_def)
qed

lemma decode_tail_back:
  assumes "request_ok r" and "addons_ok marshal unmarshal m a" and "scratch b"
  shows "\<exists>b'. decode_tail unmarshal (rh_User r) (b, \<lparr>pending = drop 17 (request_bytes m r a) @ rest, ending = e\<rparr>) =
    ((b', \<lparr>pending = rest, ending = e\<rparr>), Ok (received r, sent_addons a))"
proof -
  let ?adr = "if rh_Command r = RequestCommandMux then [] else (case rh_Address r of None \<Rightarrow> [] | Some x \<Rightarrow> enc_address_port vless_addrParser x (rh_Port r))"
  have d: "drop 17 (request_bytes m r a) = addons_bytes m a @ rh_Command r # ?adr"
    using assms(1) by (simp add: request_bytes_def request_ok_def)
  obtain b1 where b1: "DecodeHeaderAddons unmarshal (b, \<lparr>pending = addons_bytes m a @ rh_Command r # ?adr @ rest, ending = e\<rparr>) =
      ((b1, \<lparr>pending = rh_Command r # ?adr @ rest, ending = e\<rparr>), Ok (sent_addons a))" "scratch b1"
    using DecodeHeaderAddons_back [OF assms(2,3)] by blast
  let ?b2 = "loaded b1 [rh_Command r]"
  have c: "read_n 1 (Clear b1, \<lparr>pending = rh_Command r # ?adr @ rest, ending = e\<rparr>) = ((?b2, \<lparr>pending = ?adr @ rest, ending = e\<rparr>), Ok ())"
    using loaded_read [OF b1(2), of "[rh_Command r]" 1] by simp
  have "\<exists>b'. decode_address (rh_Command r) (?b2, \<lparr>pending = ?adr @ rest, ending = e\<rparr>) =
      ((b', \<lparr>pending = rest, ending = e\<rparr>), Ok (rh_Address (received r), rh_Port (received r)))"
  proof (cases "rh_Command r = RequestCommandMux")
    case False
    then obtain x where x: "rh_Address r = Some x" "wire_addr x" using assms(1) by (auto simp: request_ok_def split: option.splits)
    have "read_address_port (portFirstAddressParser mux_table) (?b2, \<lparr>pending = enc_address_port (portFirstAddressParser mux_table) x (rh_Port r) @ rest, ending = e\<rparr>) =
        ((append_at_end ?b2 (enc_address_port (portFirstAddressParser mux_table) x (rh_Port r)), \<lparr>pending = rest, ending = e\<rparr>), Ok (Some x, rh_Port r))"
      using address_length [OF x(2)] loaded_scratch [OF b1(2), of "[rh_Command r]"] by (intro mux_at.port_first_roundtrip(2) [OF x(2)]) auto
    then show ?thesis using False x(1) assms(1) by (auto simp: decode_address_def vless_addrParser_def received_def request_ok_def)
  qed (simp add: decode_address_def received_def)
  then obtain b' where "decode_address (rh_Command r) (?b2, \<lparr>pending = ?adr @ rest, ending = e\<rparr>) =
      ((b', \<lparr>pending = rest, ending = e\<rparr>), Ok (rh_Address (received r), rh_Port (received r)))" by blast
  moreover have "rh_Address (received r) \<noteq> None" "received r = \<lparr>rh_Version = 0, rh_Command = rh_Command r, rh_Port = rh_Port (received r),
      rh_Address = rh_Address (received r), rh_User = rh_User r\<rparr>"
    using assms(1) by (auto simp: received_def request_ok_def split: option.splits)
  ultimately show ?thesis using b1 c by (simp add: decode_tail_def d)
qed


lemma request_back:
  assumes "request_ok r" and "addons_ok marshal unmarshal m a" and "length fresh < 2147483648" and "length fresh' < 2147483648"
    and "validator_Get (vu_ID (rh_User r)) v = Some (rh_User r)"
    and "if isfb then buf_wf first \<and> 17 \<le> length (content first) \<and> content first @ pending s = request_bytes m r a @ rest
         else pending s = request_bytes m r a @ rest"
  shows "EncodeRequestHeader marshal fresh (\<lambda>w bs. Ok (w @ bs, None)) [] r a = Ok (request_bytes m r a) \<and>
    DecodeRequestHeader unmarshal fresh' isfb first s v = (s\<lparr>pending := rest\<rparr>, False, Ok (received r, sent_addons a))"
proof
  show "EncodeRequestHeader marshal fresh (\<lambda>w bs. Ok (w @ bs, None)) [] r a = Ok (request_bytes m r a)"
    by (simp add: EncodeRequestHeader_bytes [OF assms(1,2,3)])
  let ?id = "vu_ID (rh_User r)" let ?e = "ending s"
  obtain tl where tl: "request_bytes m r a = 0 # ?id @ tl" "length ?id = 16" "drop 17 (request_bytes m r a) = tl"
    using assms(1) by (auto simp: request_ok_def request_bytes_def)
  have id: "take 16 (?id @ replicate 16 0) = ?id" using tl(2) by simp
  have n: "scratch (New fresh')" by (rule scratch_New [OF assms(4)])
  show "DecodeRequestHeader unmarshal fresh' isfb first s v = (s\<lparr>pending := rest\<rparr>, False, Ok (received r, sent_addons a))"
  proof (cases isfb)
    case True
    note f = assms(6) [unfolded if_P [OF True]]
    have wf: "buf_wf first" and len: "17 \<le> length (content first)" and all: "content first @ pending s = 0 # ?id @ tl @ rest" using f tl(1) by auto
    have l: "17 \<le> Len first" using Len_content [OF wf] len by simp
    have c: "take 17 (content first) = 0 # ?id" "drop 17 (content first) @ pending s = tl @ rest"
      using arg_cong [OF all, of "take 17"] arg_cong [OF all, of "drop 17"] len tl(2) by simp_all
    have c0: "content first ! 0 = 0" using arg_cong [OF c(1), of "\<lambda>x. x ! 0"] by simp
    have "buf_Byte first 0 = Ok 0" using buf_Byte_content [OF wf, of 0] l c0 by simp
    moreover have "BytesRange first 1 17 = Ok ?id"
    proof -
      note w = buf_wf_bounds [OF wf] length_content [OF wf] Len_content [OF wf]
      have "i32 (buf_start first + 1) = buf_start first + 1" "i32 (buf_start first + 17) = buf_start first + 17" using w l by auto
      moreover have "take 16 (drop 1 (content first)) = ?id" using c(1) tl(2) arg_cong [OF c(1), of "drop 1"] by (simp add: take_drop)
      ultimately show ?thesis using slice_range_content [OF wf, of 1 17] l by (simp add: BytesRange_def)
    qed
    moreover have "after_first (Advance first 17) s = \<lparr>pending = tl @ rest, ending = ?e\<rparr>"
      using advance_start_content [OF wf, of 17] Advance_content [OF wf, of 17] l c(2) by (simp add: after_first_def)
    ultimately show ?thesis
      using decode_tail_back [OF assms(1,2) n, of rest ?e] True assms(5) id tl(3) by (auto simp: DecodeRequestHeader_def)
  next
    case False
    note f = assms(6) [unfolded if_not_P [OF False]]
    have s: "s = \<lparr>pending = 0 # ?id @ tl @ rest, ending = ?e\<rparr>" using f tl(1) by (cases s) simp
    let ?b1 = "loaded (New fresh') [0]"
    have r1: "read_n 1 (New fresh', s) = ((?b1, \<lparr>pending = ?id @ tl @ rest, ending = ?e\<rparr>), Ok ())"
      using loaded_read [OF n, of "[0]" 1 "?id @ tl @ rest" ?e] s by simp
    have b1: "scratch ?b1" by (rule loaded_scratch [OF n]) simp
    have r2: "read_n 16 (Clear ?b1, \<lparr>pending = ?id @ tl @ rest, ending = ?e\<rparr>) = ((loaded ?b1 ?id, \<lparr>pending = tl @ rest, ending = ?e\<rparr>), Ok ())"
      using loaded_read [OF b1, of ?id 16] tl(2) by simp
    have b2: "scratch (loaded ?b1 ?id)" "Bytes (loaded ?b1 ?id) = Ok ?id" using loaded_scratch [OF b1, of ?id] tl(2) by simp_all
    obtain b' where "decode_tail unmarshal (rh_User r) (loaded ?b1 ?id, \<lparr>pending = tl @ rest, ending = ?e\<rparr>) =
        ((b', \<lparr>pending = rest, ending = ?e\<rparr>), Ok (received r, sent_addons a))"
      using decode_tail_back [OF assms(1,2) b2(1), of rest ?e] tl(3) by auto
    moreover have "s\<lparr>pending := rest\<rparr> = \<lparr>pending = rest, ending = ?e\<rparr>" by (cases s) simp
    ultimately show ?thesis using False r1 r2 b2(2) n assms(5) id by (simp add: DecodeRequestHeader_def)
  qed
qed

text \<open>
  C3. A request that the client encodes is what the server decodes, with the user that owns the identifier, whether
  the server peeks at the first buffer to be able to fall back or reads the connection directly; and exactly the header is
  consumed.  The address of a mux request and the addons of a flow other than Vision do not travel.
\<close>

theorem vless_request_roundtrip:
  assumes "request_ok r" and "addons_ok marshal unmarshal m a" and "length fresh < 2147483648" and "length fresh' < 2147483648"
    and "validator_Get (vu_ID (rh_User r)) v = Some (rh_User r)"
    and "if isfb then buf_wf first \<and> 17 \<le> length (content first) \<and> content first @ pending s = request_bytes m r a @ rest
         else pending s = request_bytes m r a @ rest"
  shows "EncodeRequestHeader marshal fresh (\<lambda>w bs. Ok (w @ bs, None)) [] r a = Ok (request_bytes m r a) \<and>
    DecodeRequestHeader unmarshal fresh' isfb first s v = (s\<lparr>pending := rest\<rparr>, False, Ok (received r, sent_addons a))"
  by (rule request_back [OF assms])

definition example_vless_user :: vless_user where
  "example_vless_user = \<lparr>vu_Email = ''U'', vu_ID = replicate 16 7, vu_Flow = XRV\<rparr>"

definition example_request :: request_header where
  "example_request = \<lparr>rh_Version = 0, rh_Command = 1, rh_Port = 443, rh_Address = Some (IPv4Address [1, 2, 3, 4]), rh_User = example_vless_user\<rparr>"

theorem vless_request_roundtrip_witness:
  "DecodeRequestHeader (\<lambda>bs. Ok \<lparr>ad_Flow = of_bytes (drop 2 bs), ad_Seed = []\<rparr>) [] False (New [])
     (stream_of (request_bytes (10 # 16 # to_bytes XRV) example_request \<lparr>ad_Flow = XRV, ad_Seed = []\<rparr> @ [9])) (fst (validator_Add example_vless_user new_validator)) =
   (stream_of [9], False, Ok (example_request, \<lparr>ad_Flow = XRV, ad_Seed = []\<rparr>))"
proof -
  have "DecodeRequestHeader (\<lambda>bs. Ok \<lparr>ad_Flow = of_bytes (drop 2 bs), ad_Seed = []\<rparr>) [] False (New [])
      (stream_of (request_bytes (10 # 16 # to_bytes XRV) example_request \<lparr>ad_Flow = XRV, ad_Seed = []\<rparr> @ [9])) (fst (validator_Add example_vless_user new_validator)) =
    ((stream_of (request_bytes (10 # 16 # to_bytes XRV) example_request \<lparr>ad_Flow = XRV, ad_Seed = []\<rparr> @ [9]))\<lparr>pending := [9]\<rparr>, False,
     Ok (received example_request, sent_addons \<lparr>ad_Flow = XRV, ad_Seed = []\<rparr>))"
    by (rule conjunct2 [OF vless_request_roundtrip [where marshal = "\<lambda>a. Ok (10 # 16 # to_bytes (ad_Flow a))" and fresh = "[]"]])
      (simp_all add: request_ok_def example_request_def example_vless_user_def command_defs addons_ok_def XRV_def validator_Add_def new_validator_def
        validator_Get_def stream_of_def)
  then show ?thesis by (simp add: stream_of_def received_def sent_addons_def example_request_def command_defs)
qed


text \<open>
  The response header comes back as the addons that the server sent.
\<close>

theorem vless_response_roundtrip:
  assumes "addons_ok marshal unmarshal m a" and "length fresh < 2147483648" and "scratch b"
  shows "EncodeResponseHeader marshal fresh (\<lambda>w bs. Ok (w @ bs, None)) [] version a = Ok (version # addons_bytes m a) \<and>
    (\<exists>b'. DecodeResponseHeader unmarshal version (Clear b, \<lparr>pending = version # addons_bytes m a @ rest, ending = e\<rparr>) =
      ((b', \<lparr>pending = rest, ending = e\<rparr>), Ok (sent_addons a)))"
proof
  have "EncodeHeaderAddons marshal (built fresh [version]) a = Ok (built fresh ([version] @ addons_bytes m a))"
    by (rule EncodeHeaderAddons_built [OF assms(1,2)]) simp
  moreover have "Bytes (built fresh ([version] @ addons_bytes m a)) = Ok ([version] @ addons_bytes m a)"
    using built_wf [OF assms(2), of "[version] @ addons_bytes m a"] addons_bytes_length [OF assms(1)] by simp
  moreover have "WriteByte (New fresh) version = Ok (built fresh [version])"
    using built_WriteByte [OF assms(2), of "[]"] built_Nil [OF assms(2)] by simp
  ultimately show "EncodeResponseHeader marshal fresh (\<lambda>w bs. Ok (w @ bs, None)) [] version a = Ok (version # addons_bytes m a)"
    by (simp add: EncodeResponseHeader_def)
  have "scratch (loaded b [version])" by (rule loaded_scratch [OF assms(3)]) simp
  from DecodeHeaderAddons_back [OF assms(1) this] obtain b' where
    "DecodeHeaderAddons unmarshal (loaded b [version], \<lparr>pending = addons_bytes m a @ rest, ending = e\<rparr>) = ((b', \<lparr>pending = rest, ending = e\<rparr>), Ok (sent_addons a))"
    by blast
  then show "\<exists>b'. DecodeResponseHeader unmarshal version (Clear b, \<lparr>pending = version # addons_bytes m a @ rest, ending = e\<rparr>) =
      ((b', \<lparr>pending = rest, ending = e\<rparr>), Ok (sent_addons a))"
    using loaded_read [OF assms(3), of "[version]" 1] assms(3) by (simp add: DecodeResponseHeader_def)
qed

theorem vless_response_roundtrip_witness:
  "\<exists>b'. DecodeResponseHeader (\<lambda>bs. Ok no_addons) 0 (Clear (New []), \<lparr>pending = 0 # addons_bytes [] no_addons @ [1], ending = EOF\<rparr>) =
    ((b', \<lparr>pending = [1], ending = EOF\<rparr>), Ok no_addons)"
  using vless_response_roundtrip [of "\<lambda>a. Ok []" "\<lambda>bs. Ok no_addons" "[]" no_addons "[]" "New []" 0 "[1]" EOF] scratch_New [of "[]"]
  by (simp add: addons_ok_def no_addons_def XRV_def sent_addons_def)

section \<open>What a decoded request can be\<close>

lemma domain_address_wf: "domain_address d = Ok (Some a) \<Longrightarrow> addr_wf a"
  using ParseAddress_Some [of d] by (auto simp: domain_address_def DomainAddress_def Let_def split: if_splits option.splits)

lemma readAddress_wf: "readAddress p st = (st', Ok (Some a)) \<Longrightarrow> addr_wf a"
  by (auto simp: readAddress_def read_by_family_def act_bind_Ok_iff rbind_Ok_iff rmap_Ok_iff Let_def on_buf_def
      dest: IPAddress_wf [OF sym] domain_address_wf split: if_splits)

lemma read_address_port_wf: "read_address_port ser st = (st', Ok (Some a, port)) \<Longrightarrow> addr_wf a"
  by (auto simp: read_address_port_def serializer_defs act_bind_Ok_iff dest: readAddress_wf split: serializer.splits)

lemma decode_address_wf:
  assumes "decode_address c st = (st', Ok (Some a, port))"
  shows "c \<in> {RequestCommandTCP, RequestCommandUDP, RequestCommandMux} \<and> addr_wf a"
proof (cases "c = RequestCommandMux")
  case False
  obtain st1 r where r: "read_address_port vless_addrParser st = (st1, r)" by fastforce
  show ?thesis using assms False read_address_port_wf [of vless_addrParser st st1] by (cases r) (auto simp: decode_address_def r split: if_splits)
qed (use assms in \<open>auto simp: decode_address_def\<close>)


lemma example_decoded:
  "DecodeRequestHeader (\<lambda>bs. Ok \<lparr>ad_Flow = of_bytes (drop 2 bs), ad_Seed = []\<rparr>) [] False (New [])
      (stream_of (request_bytes (10 # 16 # to_bytes XRV) example_request \<lparr>ad_Flow = XRV, ad_Seed = []\<rparr> @ [9])) (fst (validator_Add example_vless_user new_validator)) =
    ((stream_of (request_bytes (10 # 16 # to_bytes XRV) example_request \<lparr>ad_Flow = XRV, ad_Seed = []\<rparr> @ [9]))\<lparr>pending := [9]\<rparr>, False,
     Ok (received example_request, sent_addons \<lparr>ad_Flow = XRV, ad_Seed = []\<rparr>))"
  by (rule conjunct2 [OF request_back [where marshal = "\<lambda>a. Ok (10 # 16 # to_bytes (ad_Flow a))" and fresh = "[]"]])
    (simp_all add: request_ok_def example_request_def example_vless_user_def command_defs addons_ok_def XRV_def validator_Add_def new_validator_def
      validator_Get_def stream_of_def)



section \<open>The table of users\<close>

abbreviation user_step :: "vless_user user_op \<Rightarrow> vless_validator \<Rightarrow> vless_validator" where
  "user_step \<equiv> apply_op (\<lambda>u v. fst (validator_Add u v)) (\<lambda>e v. fst (validator_Del e v))"

abbreviation fresh_ids :: "vless_user user_op list \<Rightarrow> vless_validator \<Rightarrow> bool" where
  "fresh_ids \<equiv> fresh_keys vu_ID (\<lambda>v i. validator_Get i v) (\<lambda>u v. fst (validator_Add u v)) (\<lambda>e v. fst (validator_Del e v))"

interpretation vless_ut: user_table vu_Email vu_ID "\<lambda>v. map_of (vv_email v)" "\<lambda>v i. validator_Get i v"
  "\<lambda>u v. fst (validator_Add u v)" "\<lambda>e v. fst (validator_Del e v)" new_validator
  by unfold_locales
    (auto simp: validator_Get_def validator_Add_def validator_Del_def new_validator_def Let_def update_conv' delete_conv' fun_eq_iff)

text \<open>
  C24. After any additions and removals, a user with an email address is accepted by his identifier exactly if he is listed
  under his address, provided every identifier was new when it was added.
\<close>

theorem vless_users_agree:
  assumes "fresh_ids ops new_validator" and "vu_Email u \<noteq> ''''"
  shows "validator_GetByEmail (vu_Email u) (fold user_step ops new_validator) = Some u \<longleftrightarrow>
    validator_Get (vu_ID u) (fold user_step ops new_validator) = Some u"
  unfolding validator_GetByEmail_def by (rule vless_ut.listed_iff_accepted [OF assms])

theorem vless_users_agree_witness:
  "validator_GetByEmail ''U'' (fold user_step [Add_user example_vless_user, Del_user ''v''] new_validator) = Some example_vless_user \<longleftrightarrow>
    validator_Get (replicate 16 7) (fold user_step [Add_user example_vless_user, Del_user ''v''] new_validator) = Some example_vless_user"
  using vless_users_agree [of "[Add_user example_vless_user, Del_user ''v'']" example_vless_user]
  by (simp add: example_vless_user_def new_validator_def validator_Get_def)

text \<open>
  If two users share an identifier, the removal of the first locks the second out: he is still listed under his address,
  but no request with the identifier is accepted any more.
\<close>

theorem vless_shared_id:
  assumes "vu_ID u1 = vu_ID u2" and "vu_Email u1 \<noteq> ''''" and "vu_Email u2 \<noteq> ''''" and "ToLower (vu_Email u1) \<noteq> ToLower (vu_Email u2)"
  shows "validator_GetByEmail (vu_Email u2) (fold user_step [Add_user u1, Add_user u2, Del_user (vu_Email u1)] new_validator) = Some u2 \<and>
    validator_Get (vu_ID u2) (fold user_step [Add_user u1, Add_user u2, Del_user (vu_Email u1)] new_validator) = None"
  using assms by (simp add: validator_Add_def validator_Del_def validator_Get_def validator_GetByEmail_def new_validator_def Let_def delete_conv)

theorem vless_shared_id_witness:
  "validator_GetByEmail ''W'' (fold user_step [Add_user example_vless_user, Add_user (example_vless_user\<lparr>vu_Email := ''W''\<rparr>), Del_user ''U''] new_validator) =
     Some (example_vless_user\<lparr>vu_Email := ''W''\<rparr>) \<and>
    validator_Get (replicate 16 7) (fold user_step [Add_user example_vless_user, Add_user (example_vless_user\<lparr>vu_Email := ''W''\<rparr>), Del_user ''U''] new_validator) = None"
proof -
  have "ToLower ''U'' \<noteq> ToLower ''W''" by code_simp
  then show ?thesis using vless_shared_id [of example_vless_user "example_vless_user\<lparr>vu_Email := ''W''\<rparr>"] by (simp add: example_vless_user_def)
qed


section \<open>Packets\<close>

text \<open>
  \<open>MultiLengthPacketWriter\<close>: every buffer becomes a packet with its length in front; an empty buffer and one that does not
  fit are skipped.  \<open>None\<close> means that nothing is written.
\<close>

definition frame_packet :: "bytes \<Rightarrow> buffer \<Rightarrow> buffer option res" where
  "frame_packet fresh b =
     (let len = Len b in
      if len = 0 \<or> i32 (len + 2) > Size then Ok None
      else
        (case WriteByte (New fresh) (word_of_int (len div 256)) of
           Err e \<Rightarrow> Ok None
         | Panic p \<Rightarrow> Panic p
         | Ok eb \<Rightarrow>
             (case WriteByte eb (word_of_int len) of
                Err e \<Rightarrow> Ok None
              | Panic p \<Rightarrow> Panic p
              | Ok eb \<Rightarrow> rbind (Bytes b) (\<lambda>bs. rmap (\<lambda>(eb, _). Some eb) (Write eb bs)))))"

fun frame_packets :: "(nat \<Rightarrow> bytes) \<Rightarrow> nat \<Rightarrow> multi_buffer \<Rightarrow> multi_buffer res" where
  "frame_packets pool k [] = Ok []"
| "frame_packets pool k (b # mb) =
     rbind (frame_packet (pool k) b) (\<lambda>f.
       rmap (\<lambda>out. case f of None \<Rightarrow> out | Some eb \<Rightarrow> eb # out) (frame_packets pool (Suc k) mb))"

definition MultiLength_Write :: "(nat \<Rightarrow> bytes) \<Rightarrow> multi_buffer \<Rightarrow> multi_buffer option res" where
  "MultiLength_Write pool mb = rmap (\<lambda>out. if mb_IsEmpty out then None else Some out) (frame_packets pool 0 mb)"

text \<open>\<open>LengthPacketWriter\<close>: the whole multi-buffer is one packet.\<close>

fun all_Bytes :: "multi_buffer \<Rightarrow> bytes res" where
  "all_Bytes [] = Ok []"
| "all_Bytes (b # mb) = rbind (Bytes b) (\<lambda>bs. rmap (\<lambda>r. bs @ r) (all_Bytes mb))"

definition Length_Write :: "'w writer \<Rightarrow> multi_buffer \<Rightarrow> 'w \<Rightarrow> 'w res" where
  "Length_Write wr mb w =
     (let len = mb_Len mb in
      if len = 0 then Ok w
      else rbind (all_Bytes mb) (\<lambda>bs.
        wrap_res ''failed to write a packet'' (with_error (wr w (word_of_int (len div 256) # word_of_int len # bs)))))"

text \<open>\<open>LengthPacketReader\<close>: a packet, in buffers of at most \<open>Size\<close> bytes.\<close>

function read_payload :: "(nat \<Rightarrow> bytes) \<Rightarrow> nat \<Rightarrow> int \<Rightarrow> multi_buffer \<Rightarrow> stream \<Rightarrow> stream \<times> multi_buffer res" where
  "read_payload pool k len mb s =
     (if len > 0 then
        (let size = (if len > Size then Size else len) in
         case ReadFullFrom (New (pool k)) s size of
           Ok (b, n, None, s) \<Rightarrow> read_payload pool (Suc k) (len - size) (mb @ [b]) s
         | Ok (b, n, Some e, s) \<Rightarrow> (s, Err (ErrMsg ''failed to read packet payload''))
         | Err e \<Rightarrow> (s, Err e)
         | Panic p \<Rightarrow> (s, Panic p))
      else (s, Ok mb))"
  by pat_completeness auto

termination
  by (relation "measure (\<lambda>(pool, k, len, mb, s). nat len)") (auto simp: Size_def)

definition Length_Read :: "(nat \<Rightarrow> bytes) \<Rightarrow> stream \<Rightarrow> stream \<times> multi_buffer res" where
  "Length_Read pool s =
     (case read_full 2 s of
        (bs, Some e, s) \<Rightarrow> (s, Err (ErrMsg ''failed to read packet length''))
      | (bs, None, s) \<Rightarrow> read_payload pool 0 (uint (bs ! 0) * 256 + uint (bs ! 1)) [] s)"

declare read_payload.simps [simp del]

definition packet_bytes :: "bytes \<Rightarrow> bytes" where
  "packet_bytes d = word_of_nat (length d div 256) # word_of_nat (length d) # d"

definition sendable :: "bytes \<Rightarrow> bool" where
  "sendable d \<longleftrightarrow> d \<noteq> [] \<and> length d \<le> 8190"

lemma word_of_length: "(word_of_int (int n div 256) :: byte) = word_of_nat (n div 256)" "(word_of_int (int n) :: byte) = word_of_nat n"
  by (metis of_int_of_nat_eq zdiv_int of_nat_numeral) simp

lemma frame_packet_ok:
  assumes "buf_wf b" and "length fresh < 2147483648" and "length (content b) < 2147483646"
  shows "frame_packet fresh b = Ok (if sendable (content b) then Some (built fresh (packet_bytes (content b))) else None)"
proof (cases "sendable (content b)")
  case True
  let ?n = "length (content b)"
  have l: "Len b = int ?n" "?n \<le> 8190" "content b \<noteq> []" using True Len_content [OF assms(1)] by (auto simp: sendable_def)
  have w1: "WriteByte (New fresh) x = Ok (built fresh [x])" for x
    using built_WriteByte [OF assms(2), of "[]"] built_Nil [OF assms(2)] by simp
  have w2: "WriteByte (built fresh [x]) y = Ok (built fresh [x, y])" for x y using built_WriteByte [OF assms(2), of "[x]"] by simp
  have "Write (built fresh [x, y]) (content b) = Ok (built fresh (x # y # content b), ?n)" for x y
    using built_Write [OF assms(2), of "[x, y]" "content b"] l(2) by simp
  then show ?thesis
    using True l w1 w2 assms(1) by (simp add: frame_packet_def Let_def Size_def packet_bytes_def word_of_length)
next
  case False
  then have "Len b = 0 \<or> i32 (Len b + 2) > Size" using assms(3) Len_content [OF assms(1)] by (auto simp: sendable_def Size_def)
  then show ?thesis using False by (simp add: frame_packet_def Let_def)
qed

lemma frame_packets_ok:
  assumes "pool_ok pool"
  shows "mb_wf mb \<Longrightarrow> list_all (\<lambda>b. length (content b) < 2147483646) mb \<Longrightarrow>
    \<exists>out. frame_packets pool k mb = Ok out \<and> mb_wf out \<and> mb_content out = concat (map packet_bytes (filter sendable (map content mb)))"
proof (induction mb arbitrary: k)
  case (Cons b mb)
  obtain out where o: "frame_packets pool (Suc k) mb = Ok out" "mb_wf out" "mb_content out = concat (map packet_bytes (filter sendable (map content mb)))"
    using Cons.IH [of "Suc k"] Cons.prems by auto
  have "length (packet_bytes (content b)) \<le> 8192" if "sendable (content b)" using that by (simp add: sendable_def packet_bytes_def)
  then have "buf_wf (built (pool k) (packet_bytes (content b))) \<and> content (built (pool k) (packet_bytes (content b))) = packet_bytes (content b)"
    if "sendable (content b)" using built_wf [of "pool k" "packet_bytes (content b)"] assms that by (simp add: pool_ok_def)
  then show ?case using o frame_packet_ok [of b "pool k"] Cons.prems assms by (auto simp: pool_ok_def)
qed simp

lemma read_payload_back:
  assumes "pool_ok pool"
  shows "mb_wf mb \<Longrightarrow> \<exists>mb'. read_payload pool k (int (length d)) mb \<lparr>pending = d @ rest, ending = e\<rparr> = (\<lparr>pending = rest, ending = e\<rparr>, Ok mb') \<and>
    mb_content mb' = mb_content mb @ d"
proof (induction "length d" arbitrary: d k mb rule: less_induct)
  case less
  show ?case
  proof (cases "d = []")
    case False
    let ?n = "min 8192 (length d)"
    let ?x = "take ?n d" let ?y = "drop ?n d" let ?b = "built (pool k) ?x"
    have p: "length (pool k) < 2147483648" using assms by (simp add: pool_ok_def)
    have size: "(if int (length d) > Size then Size else int (length d)) = int ?n" by (simp add: Size_def)
    have w: "buf_wf ?b" "content ?b = ?x" using built_wf [OF p, of ?x] by simp_all
    have r: "ReadFullFrom (New (pool k)) \<lparr>pending = ?x @ ?y @ rest, ending = e\<rparr> (int ?n) = Ok (?b, length ?x, None, \<lparr>pending = ?y @ rest, ending = e\<rparr>)"
      unfolding built_def using New_wf [OF p] by (intro ReadFullFrom_stream) simp_all
    have d: "d @ rest = ?x @ ?y @ rest" by simp
    have len: "int (length d) - int ?n = int (length ?y)" by simp
    have less': "length ?y < length d" using False by (cases d) auto
    obtain mb' where "read_payload pool (Suc k) (int (length ?y)) (mb @ [?b]) \<lparr>pending = ?y @ rest, ending = e\<rparr> = (\<lparr>pending = rest, ending = e\<rparr>, Ok mb')"
      "mb_content mb' = mb_content (mb @ [?b]) @ ?y"
      using less.hyps [OF less', of "mb @ [?b]" "Suc k"] less.prems w(1) by auto
    moreover have "read_payload pool k (int (length d)) mb \<lparr>pending = d @ rest, ending = e\<rparr> =
        read_payload pool (Suc k) (int (length ?y)) (mb @ [?b]) \<lparr>pending = ?y @ rest, ending = e\<rparr>"
      by (subst read_payload.simps) (use False r in \<open>simp only: Let_def size d len res.case prod.case option.case, simp\<close>)
    ultimately show ?thesis using w(2) by simp
  qed (simp add: read_payload.simps)
qed

lemma Length_Read_back:
  assumes "pool_ok pool" and "length d < 65536"
  shows "\<exists>mb. Length_Read pool \<lparr>pending = packet_bytes d @ rest, ending = e\<rparr> = (\<lparr>pending = rest, ending = e\<rparr>, Ok mb) \<and> mb_content mb = d"
proof -
  have "int (length d div 256) mod 256 = int (length d div 256)" using assms(2) by (intro mod_pos_pos_trivial) auto
  then have "uint (word_of_nat (length d div 256) :: byte) * 256 + uint (word_of_nat (length d) :: byte) = int (length d)"
    by (simp add: uint_nat unat_of_nat zmod_int zdiv_int)
  then show ?thesis using read_payload_back [OF assms(1), of "[]" 0 d rest e] by (simp add: Length_Read_def packet_bytes_def read_full_def)
qed

fun packet_reads :: "(nat \<Rightarrow> nat \<Rightarrow> bytes) \<Rightarrow> nat \<Rightarrow> nat \<Rightarrow> stream \<Rightarrow> stream \<times> multi_buffer list res" where
  "packet_reads pool k 0 s = (s, Ok [])"
| "packet_reads pool k (Suc n) s =
     (case Length_Read (pool k) s of
        (s, Ok mb) \<Rightarrow> (case packet_reads pool (Suc k) n s of (s, r) \<Rightarrow> (s, rmap (\<lambda>mbs. mb # mbs) r))
      | (s, Err e) \<Rightarrow> (s, Err e)
      | (s, Panic p) \<Rightarrow> (s, Panic p))"

lemma packet_reads_back:
  assumes "\<forall>i. pool_ok (pool i)"
  shows "list_all (\<lambda>d. length d < 65536) ds \<Longrightarrow>
    \<exists>mbs. packet_reads pool k (length ds) \<lparr>pending = concat (map packet_bytes ds) @ rest, ending = e\<rparr> = (\<lparr>pending = rest, ending = e\<rparr>, Ok mbs) \<and>
      map mb_content mbs = ds"
proof (induction ds arbitrary: k)
  case (Cons d ds)
  obtain mb where mb: "Length_Read (pool k) \<lparr>pending = packet_bytes d @ concat (map packet_bytes ds) @ rest, ending = e\<rparr> =
      (\<lparr>pending = concat (map packet_bytes ds) @ rest, ending = e\<rparr>, Ok mb)" "mb_content mb = d"
    using Length_Read_back [of "pool k" d] assms Cons.prems by auto
  then show ?case using Cons.IH [of "Suc k"] Cons.prems by auto
qed simp

text \<open>
  Packets keep their boundaries: of the buffers that are written, those with one to 8190 bytes are read back one by
  one, in order, and nothing else; all others are dropped.
\<close>

theorem vless_packets_roundtrip:
  assumes "pool_ok pool" and "\<forall>i. pool_ok (pool' i)" and "mb_wf mb" and "list_all (\<lambda>b. length (content b) < 2147483646) mb"
    and "MultiLength_Write pool mb = Ok (Some out)"
  shows "\<exists>mbs. packet_reads pool' k (length (filter sendable (map content mb))) \<lparr>pending = mb_content out @ rest, ending = e\<rparr> =
      (\<lparr>pending = rest, ending = e\<rparr>, Ok mbs) \<and> map mb_content mbs = filter sendable (map content mb)"
proof -
  have "mb_content out = concat (map packet_bytes (filter sendable (map content mb)))"
    using frame_packets_ok [OF assms(1,3,4), of 0] assms(5) by (auto simp: MultiLength_Write_def split: if_splits)
  moreover have "list_all (\<lambda>d. length d < 65536) (filter sendable (map content mb))" by (auto simp: list_all_iff sendable_def)
  ultimately show ?thesis using packet_reads_back [OF assms(2), of "filter sendable (map content mb)" k rest e] by metis
qed

theorem vless_packets_roundtrip_witness:
  "\<exists>out mbs. MultiLength_Write (\<lambda>i. []) [built [] [1, 2], built [] [], built [] [3]] = Ok (Some out) \<and>
    packet_reads (\<lambda>i j. []) 0 2 \<lparr>pending = mb_content out @ [9], ending = EOF\<rparr> = (\<lparr>pending = [9], ending = EOF\<rparr>, Ok mbs) \<and> map mb_content mbs = [[1, 2], [3]]"
proof -
  let ?mb = "[built [] [1, 2], built [] [], built [] [3]]"
  have b: "buf_wf (built [] bs) \<and> content (built [] bs) = bs" if "length bs \<le> 8192" for bs using built_wf [of "[]" bs] that by simp
  have p: "pool_ok (\<lambda>i. [])" by (simp add: pool_ok_def)
  have c: "map content ?mb = [[1, 2], [], [3]]" "mb_wf ?mb" using b [of "[1, 2]"] b [of "[]"] b [of "[3]"] by simp_all
  have f: "filter sendable (map content ?mb) = [[1, 2], [3]]" unfolding c by (simp add: sendable_def)
  have l: "list_all (\<lambda>b. length (content b) < 2147483646) ?mb" using c(1) by simp
  obtain out where o: "frame_packets (\<lambda>i. []) 0 ?mb = Ok out" "mb_wf out" "mb_content out = concat (map packet_bytes [[1, 2], [3]])"
    using frame_packets_ok [OF p c(2) l, of 0] unfolding f by blast
  then have w: "MultiLength_Write (\<lambda>i. []) ?mb = Ok (Some out)" by (simp add: MultiLength_Write_def mb_IsEmpty_content packet_bytes_def del: frame_packets.simps)
  have two: "length [[1, 2], [3 :: byte]] = 2" by simp
  have p': "\<forall>i. pool_ok ((\<lambda>i j. []) (i :: nat))" using p by simp
  from vless_packets_roundtrip [OF p p' c(2) l w, of 0 "[9]" EOF, unfolded f two]
  obtain mbs where "packet_reads (\<lambda>i j. []) 0 2 \<lparr>pending = mb_content out @ [9], ending = EOF\<rparr> = (\<lparr>pending = [9], ending = EOF\<rparr>, Ok mbs)"
    "map mb_content mbs = [[1, 2], [3]]" by (elim exE conjE)
  then show ?thesis by (intro exI [of _ out] exI [of _ mbs] conjI w)
qed

section \<open>Safety\<close>

lemma DecodeHeaderAddons_safe:
  assumes "\<And>m. \<not> is_panic (unmarshal m)"
  shows "safe_read 256 (DecodeHeaderAddons unmarshal)"
proof -
  have u: "safe_read 0 (on_buf (\<lambda>b. rbind (Bytes b) unmarshal))" by (rule safe_on_buf) (simp add: assms)
  have n: "safe_read 255 (read_n (uint len))" for len :: byte using unsigned_less [of len, where 'a = nat] by (intro read_n_safe) simp_all
  have "safe_read (0 + (1 + (0 + (255 + 0)))) (DecodeHeaderAddons unmarshal)"
    unfolding DecodeHeaderAddons_def by (intro safe_bind safe_first_byte safe_if safe_clear safe_wrap safe_ret n u)
  then show ?thesis by simp
qed

lemma decode_address_safe:
  "safe_read 259 (act_bind (decode_address command) (\<lambda>(addr, port). if addr = None then act_lift (Err e) else act_ret (f addr port)))"
proof (cases "command = RequestCommandTCP \<or> command = RequestCommandUDP")
  case True
  have "safe_read 259 (read_address_port vless_addrParser)" by (rule address_port_safe) (simp add: vless_addrParser_def tables_total)
  note a = safe_readD [OF this]
  have c: "command \<noteq> RequestCommandMux" using True by (auto simp: command_defs)
  show ?thesis
  proof (rule safe_readI)
    fix b s assume b: "buf_wf b" "259 \<le> room b"
    obtain b' s' r where r: "read_address_port vless_addrParser (b, s) = ((b', s'), r)" "\<not> is_panic r" "\<forall>x. r = Ok x \<longrightarrow> buf_wf b' \<and> room b \<le> room b' + 259"
      using a [OF b, of s] by blast
    then show "\<exists>b' s' r. act_bind (decode_address command) (\<lambda>(addr, port). if addr = None then act_lift (Err e) else act_ret (f addr port)) (b, s) = ((b', s'), r) \<and>
        \<not> is_panic r \<and> (\<forall>x. r = Ok x \<longrightarrow> buf_wf b' \<and> room b \<le> room b' + 259)"
      using True c by (cases r) (auto simp: decode_address_def act_bind_def)
  qed
qed (auto simp: decode_address_def safe_read_def act_bind_def)

lemma decode_tail_safe:
  assumes "\<And>m. \<not> is_panic (unmarshal m)"
  shows "safe_read 516 (decode_tail unmarshal user)"
proof -
  have "safe_read (256 + (0 + (1 + 259))) (decode_tail unmarshal user)"
    unfolding decode_tail_def by (intro safe_bind safe_first_byte safe_clear safe_wrap DecodeHeaderAddons_safe [OF assms] decode_address_safe)
  then show ?thesis by simp
qed

text \<open>
  No input makes the server panic while it decodes a request: whatever the first buffer and the connection hold, the
  outcome is a request or an error.
\<close>

theorem vless_decode_safe:
  assumes "\<And>m. \<not> is_panic (unmarshal m)" and "length fresh < 2147483648" and "buf_wf first" and "isfb \<Longrightarrow> 17 \<le> length (content first)"
  shows "\<not> is_panic (snd (snd (DecodeRequestHeader unmarshal fresh isfb first rest v)))"
proof -
  have n: "buf_wf (New fresh)" "room (New fresh) = 8192" using New_wf [OF assms(2)] by simp_all
  have t: "\<not> is_panic r" if "buf_wf b" "516 \<le> room b" "decode_tail unmarshal user (b, s) = (st, r)" for user b s st r
    using safe_readD [OF decode_tail_safe [of unmarshal user, OF assms(1)] that(1,2), where s = s] that(3) by auto
  show ?thesis
  proof (cases isfb)
    case True
    then have l: "17 \<le> Len first" using assms(4) Len_content [OF assms(3)] by simp
    have "buf_Byte first 0 = Ok (content first ! 0)" using buf_Byte_content [OF assms(3), of 0] l by simp
    moreover have "\<exists>bs. BytesRange first 1 17 = Ok bs"
    proof -
      note w = buf_wf_bounds [OF assms(3)] length_content [OF assms(3)] Len_content [OF assms(3)]
      have "i32 (buf_start first + 1) = buf_start first + 1" "i32 (buf_start first + 17) = buf_start first + 17" using w l by auto
      then show ?thesis using slice_range_content [OF assms(3), of 1 17] l by (simp add: BytesRange_def)
    qed
    ultimately show ?thesis using True t [OF n(1)] n(2) by (auto simp: DecodeRequestHeader_def split: option.splits prod.splits)
  next
    case False
    let ?one = "act_bind (wrap ''failed to read request version'' (read_n 1)) (\<lambda>_. on_buf (\<lambda>b. buf_Byte b 0))"
    let ?two = "act_bind clear_buf (\<lambda>_. act_bind (wrap ''failed to read request user id'' (read_n 16)) (\<lambda>_. on_buf Bytes))"
    have b: "safe_read 0 (on_buf Bytes)" by (rule safe_on_buf) simp
    have "safe_read 1 ?one" "safe_read (0 + (16 + 0)) ?two"
      by (rule first_byte_safe) (intro safe_bind safe_clear safe_wrap read_n_safe b; simp)
    note s = safe_readD [OF this(1)] safe_readD [OF this(2)]
    obtain b1 s1 r1 where 1: "?one (New fresh, rest) = ((b1, s1), r1)" "\<not> is_panic r1" "\<forall>x. r1 = Ok x \<longrightarrow> buf_wf b1 \<and> 8191 \<le> room b1"
      using s(1) [OF n(1), of rest] n(2) by fastforce
    show ?thesis
    proof (cases r1)
      case (Ok version)
      then have w: "buf_wf b1" "8191 \<le> room b1" "0 + (16 + 0) \<le> room b1" using 1(3) by auto
      obtain b2 s2 r2 where 2: "?two (b1, s1) = ((b2, s2), r2)" "\<not> is_panic r2" "\<forall>x. r2 = Ok x \<longrightarrow> buf_wf b2 \<and> room b1 \<le> room b2 + (0 + (16 + 0))"
        using s(2) [OF w(1,3), of s1] by blast
      have "buf_wf b2" "516 \<le> room b2" if "r2 = Ok x" for x using 2(3) w(2) that by fastforce+
      then show ?thesis using False 1(1) 2(1,2) Ok t [of b2] by (cases r2) (auto simp: DecodeRequestHeader_def split: option.splits prod.splits)
    qed (use False 1 in \<open>auto simp: DecodeRequestHeader_def\<close>)
  qed
qed

theorem vless_decode_safe_witness:
  "\<not> is_panic (snd (snd (DecodeRequestHeader (\<lambda>bs. Ok no_addons) [] False (New []) (stream_of [0, 1]) new_validator)))"
  by (rule vless_decode_safe) (use New_wf [of "[]"] in simp_all)

end
