(* ===== verification/Trojan.thy ===== *)
theory Trojan
  imports Vless
begin

text \<open>
  Trojan (\<open>proxy/trojan\<close>): accounts and their table, the request header with which a client opens a connection, the
  server's decision about the first bytes of a connection, and UDP packets within a connection.  SHA-224 is an argument.
\<close>

section \<open>Accounts and users (config.go, validator.go)\<close>

record trojan_account =
  ta_Password :: string
  ta_Key :: bytes

definition hexSha224 :: "(bytes \<Rightarrow> bytes) \<Rightarrow> string \<Rightarrow> bytes" where
  "hexSha224 sha password = to_bytes (EncodeToString (sha (to_bytes password)))"

definition AsAccount :: "(bytes \<Rightarrow> bytes) \<Rightarrow> string \<Rightarrow> trojan_account" where
  "AsAccount sha password = \<lparr>ta_Password = password, ta_Key = hexSha224 sha password\<rparr>"

definition account_Equals :: "trojan_account \<Rightarrow> trojan_account \<Rightarrow> bool" where
  "account_Equals a another \<longleftrightarrow> ta_Password a = ta_Password another"

definition hexString :: "bytes \<Rightarrow> string" where
  "hexString data = EncodeToString data"

record trojan_user =
  tu_Email :: string
  tu_Account :: trojan_account

record trojan_validator =
  tv_email :: "(string \<times> trojan_user) list"
  tv_users :: "(string \<times> trojan_user) list"

definition no_trojan_users :: trojan_validator where
  "no_trojan_users = \<lparr>tv_email = [], tv_users = []\<rparr>"

definition tv_Add :: "trojan_user \<Rightarrow> trojan_validator \<Rightarrow> trojan_validator \<times> goerr option" where
  "tv_Add u v =
     (if tu_Email u \<noteq> '''' \<and> map_of (tv_email v) (ToLower (tu_Email u)) \<noteq> None then (v, Some (ErrMsg ''User  already exists.''))
      else
        (let v = (if tu_Email u \<noteq> '''' then v\<lparr>tv_email := AList.update (ToLower (tu_Email u)) u (tv_email v)\<rparr> else v) in
         (v\<lparr>tv_users := AList.update (hexString (ta_Key (tu_Account u))) u (tv_users v)\<rparr>, None)))"

definition tv_Del :: "string \<Rightarrow> trojan_validator \<Rightarrow> trojan_validator \<times> goerr option" where
  "tv_Del e v =
     (if e = '''' then (v, Some (ErrMsg ''Email must not be empty.''))
      else
        (case map_of (tv_email v) (ToLower e) of
           None \<Rightarrow> (v, Some (ErrMsg ''User  not found.''))
         | Some u \<Rightarrow> (v\<lparr>tv_email := AList.delete (ToLower e) (tv_email v),
                        tv_users := AList.delete (hexString (ta_Key (tu_Account u))) (tv_users v)\<rparr>, None)))"

definition tv_Get :: "string \<Rightarrow> trojan_validator \<Rightarrow> trojan_user option" where
  "tv_Get hash v = map_of (tv_users v) hash"

definition tv_GetByEmail :: "string \<Rightarrow> trojan_validator \<Rightarrow> trojan_user option" where
  "tv_GetByEmail email v = map_of (tv_email v) (ToLower email)"

definition tv_GetAll :: "((string \<times> trojan_user) list \<Rightarrow> (string \<times> trojan_user) list) \<Rightarrow> trojan_validator \<Rightarrow> trojan_user list" where
  "tv_GetAll iterate v = map snd (iterate (tv_email v))"

definition tv_GetCount :: "trojan_validator \<Rightarrow> nat" where
  "tv_GetCount v = length (tv_email v)"

abbreviation trojan_key :: "trojan_user \<Rightarrow> string" where
  "trojan_key u \<equiv> hexString (ta_Key (tu_Account u))"

interpretation trojan_ut: user_table tu_Email trojan_key "\<lambda>v. map_of (tv_email v)" "\<lambda>v h. tv_Get h v"
  "\<lambda>u v. fst (tv_Add u v)" "\<lambda>e v. fst (tv_Del e v)" no_trojan_users
  by unfold_locales (auto simp: tv_Get_def tv_Add_def tv_Del_def no_trojan_users_def Let_def update_conv' delete_conv' fun_eq_iff)

section \<open>Writing (protocol.go)\<close>

definition crlf :: bytes where "crlf = [13, 10]"
definition maxLength :: int where "maxLength = 8192"
definition commandTCP :: byte where "commandTCP = 1"
definition commandUDP :: byte where "commandUDP = 3"

definition trojan_addrParser :: serializer where
  "trojan_addrParser = portLastAddressParser socks_table"

definition put_target :: "buffer \<Rightarrow> destination \<Rightarrow> buffer res" where
  "put_target buffer dest =
     (case dest_Address dest of
        None \<Rightarrow> nil_deref
      | Some a \<Rightarrow> with_error (WriteAddressPort trojan_addrParser buf_writer buffer a (dest_Port dest)))"

record 'w conn_writer =
  cw_Writer :: 'w
  cw_Target :: destination
  cw_Account :: trojan_account
  cw_headerSent :: bool

definition header_buffer :: "bytes \<Rightarrow> destination \<Rightarrow> bytes \<Rightarrow> bytes res" where
  "header_buffer fresh target key =
     (let command = (if dest_Network target = Network_UDP then commandUDP else commandTCP) in
      rbind (Write (New fresh) key) (\<lambda>(buffer, _).
      rbind (Write buffer crlf) (\<lambda>(buffer, _).
      rbind (WriteByte buffer command) (\<lambda>buffer.
      rbind (put_target buffer target) (\<lambda>buffer.
      rbind (Write buffer crlf) (\<lambda>(buffer, _). Bytes buffer))))))"

definition writeHeader :: "bytes \<Rightarrow> 'w writer \<Rightarrow> 'w conn_writer \<Rightarrow> ('w conn_writer \<times> goerr option) res" where
  "writeHeader fresh wr c =
     (case header_buffer fresh (cw_Target c) (ta_Key (cw_Account c)) of
        Err e \<Rightarrow> Ok (c, Some e)
      | Panic p \<Rightarrow> Panic p
      | Ok bs \<Rightarrow> rmap (\<lambda>(w, err). (c\<lparr>cw_Writer := w, cw_headerSent := cw_headerSent c \<or> err = None\<rparr>, err)) (wr (cw_Writer c) bs))"

definition cw_Write :: "bytes \<Rightarrow> 'w writer \<Rightarrow> 'w conn_writer writer" where
  "cw_Write fresh wr c p =
     rbind (if cw_headerSent c then Ok (c, None) else writeHeader fresh wr c) (\<lambda>(c, err).
       if err \<noteq> None then Ok (c, Some (ErrMsg ''failed to write request header''))
       else rmap (\<lambda>(w, err). (c\<lparr>cw_Writer := w\<rparr>, err)) (wr (cw_Writer c) p))"

fun cw_WriteMultiBuffer :: "bytes \<Rightarrow> 'w writer \<Rightarrow> multi_buffer \<Rightarrow> 'w conn_writer \<Rightarrow> ('w conn_writer \<times> goerr option) res" where
  "cw_WriteMultiBuffer fresh wr [] c = Ok (c, None)"
| "cw_WriteMultiBuffer fresh wr (b # mb) c =
     (if IsEmpty b then cw_WriteMultiBuffer fresh wr mb c
      else rbind (Bytes b) (\<lambda>bs. rbind (cw_Write fresh wr c bs) (\<lambda>(c, err).
        if err \<noteq> None then Ok (c, err) else cw_WriteMultiBuffer fresh wr mb c)))"

text \<open>\<open>PacketWriter\<close>: the packet is put together in one buffer of \<open>Size\<close> bytes.\<close>

definition packet_buffer :: "bytes \<Rightarrow> bytes \<Rightarrow> destination \<Rightarrow> bytes res" where
  "packet_buffer fresh payload dest =
     rbind (put_target (New fresh) dest) (\<lambda>buffer.
     rbind (Write buffer (put_u16 (word_of_nat (length payload)))) (\<lambda>(buffer, _).
     rbind (Write buffer crlf) (\<lambda>(buffer, _).
     rbind (Write buffer payload) (\<lambda>(buffer, _). Bytes buffer))))"

definition writePacket :: "bytes \<Rightarrow> 'w writer \<Rightarrow> 'w \<Rightarrow> bytes \<Rightarrow> destination \<Rightarrow> ('w \<times> goerr option) res" where
  "writePacket fresh wr w payload dest =
     (case packet_buffer fresh payload dest of
        Err e \<Rightarrow> Ok (w, Some e)
      | Panic p \<Rightarrow> Panic p
      | Ok bs \<Rightarrow> wr w bs)"

fun pw_WriteMultiBuffer :: "(nat \<Rightarrow> bytes) \<Rightarrow> nat \<Rightarrow> 'w writer \<Rightarrow> destination \<Rightarrow> multi_buffer \<Rightarrow> 'w \<Rightarrow> ('w \<times> goerr option) res" where
  "pw_WriteMultiBuffer pool k wr target [] w = Ok (w, None)"
| "pw_WriteMultiBuffer pool k wr target (b # mb) w =
     rbind (Bytes b) (\<lambda>bs.
     rbind (writePacket (pool k) wr w bs (case buf_UDP b of None \<Rightarrow> target | Some d \<Rightarrow> d)) (\<lambda>(w, err).
       if err \<noteq> None then Ok (w, err) else pw_WriteMultiBuffer pool (Suc k) wr target mb w))"

section \<open>Reading\<close>

definition full :: "nat \<Rightarrow> string \<Rightarrow> (stream, bytes) act" where
  "full n msg s = (case read_full n s of (bs, None, s) \<Rightarrow> (s, Ok bs) | (bs, Some e, s) \<Rightarrow> (s, Err (ErrMsg msg)))"

definition read_target :: "bytes \<Rightarrow> (stream, address option \<times> port) act" where
  "read_target fresh s =
     (case ReadAddressPort trojan_addrParser fresh None s of ((_, s), r) \<Rightarrow> (s, wrap_res ''failed to read address and port'' r))"

record conn_reader =
  cr_Reader :: stream
  cr_Target :: destination
  cr_headerParsed :: bool

definition new_reader :: "stream \<Rightarrow> conn_reader" where
  "new_reader s = \<lparr>cr_Reader = s, cr_Target = \<lparr>dest_Address = None, dest_Port = 0, dest_Network = Network_Unknown\<rparr>, cr_headerParsed = False\<rparr>"

definition on_reader :: "(stream, 'a) act \<Rightarrow> (conn_reader, 'a) act" where
  "on_reader m c = (case m (cr_Reader c) of (s, r) \<Rightarrow> (c\<lparr>cr_Reader := s\<rparr>, r))"

definition ParseHeader :: "bytes \<Rightarrow> (conn_reader, unit) act" where
  "ParseHeader fresh =
     act_bind (on_reader (full 56 ''failed to read user hash'')) (\<lambda>_.
     act_bind (on_reader (full 2 ''failed to read crlf'')) (\<lambda>_.
     act_bind (on_reader (full 1 ''failed to read command'')) (\<lambda>command.
       let network = (if command ! 0 = commandUDP then Network_UDP else Network_TCP) in
       act_bind (on_reader (read_target fresh)) (\<lambda>(addr, port).
       act_bind (\<lambda>c. (c\<lparr>cr_Target := \<lparr>dest_Address = addr, dest_Port = port, dest_Network = network\<rparr>\<rparr>, Ok ())) (\<lambda>_.
       act_bind (on_reader (full 2 ''failed to read crlf'')) (\<lambda>_ c. (c\<lparr>cr_headerParsed := True\<rparr>, Ok ())))))))"

text \<open>\<open>rd s n\<close> is what one call of \<open>Read\<close> on the underlying reader gives for a slice of \<open>n\<close> bytes.\<close>

definition cr_Read :: "bytes \<Rightarrow> (stream \<Rightarrow> nat \<Rightarrow> stream \<times> bytes \<times> goerr option) \<Rightarrow> nat \<Rightarrow> (conn_reader, bytes \<times> goerr option) act" where
  "cr_Read fresh rd n c =
     (case (if cr_headerParsed c then (c, Ok ()) else ParseHeader fresh c) of
        (c, Err e) \<Rightarrow> (c, Ok ([], Some e))
      | (c, Panic p) \<Rightarrow> (c, Panic p)
      | (c, Ok _) \<Rightarrow> (case rd (cr_Reader c) n of (s, bs, err) \<Rightarrow> (c\<lparr>cr_Reader := s\<rparr>, Ok (bs, err))))"

definition cr_ReadMultiBuffer ::
  "bytes \<Rightarrow> bytes \<Rightarrow> (stream \<Rightarrow> nat \<Rightarrow> stream \<times> bytes \<times> goerr option) \<Rightarrow> (conn_reader, multi_buffer \<times> goerr option) act" where
  "cr_ReadMultiBuffer fresh fresh' rd c =
     (case tail_len (New fresh') of
        Err e \<Rightarrow> (c, Err e)
      | Panic p \<Rightarrow> (c, Panic p)
      | Ok n \<Rightarrow> (case cr_Read fresh rd n c of
                   (c, r) \<Rightarrow> (c, rbind r (\<lambda>answer. rmap (\<lambda>(b, n, err). ([b], err)) (ReadFrom (New fresh') (\<lambda>_. answer))))))"

text \<open>
  \<open>PacketReader\<close>: address, length, line end, payload.  The loop would not return if a read of no bytes had succeeded.
\<close>

function packet_payload :: "(nat \<Rightarrow> bytes) \<Rightarrow> nat \<Rightarrow> destination \<Rightarrow> int \<Rightarrow> multi_buffer \<Rightarrow> stream \<Rightarrow> stream \<times> multi_buffer res" where
  "packet_payload pool k dest remain mb s =
     (if remain > 0 then
        (let len = (if remain < Size then remain else Size); b = (New (pool k))\<lparr>buf_UDP := Some dest\<rparr> in
         case ReadFullFrom b s (i32 len) of
           Ok (b, n, None, s) \<Rightarrow> (if n = 0 then (s, Panic ''does not return'') else packet_payload pool (Suc k) dest (remain - int n) (mb @ [b]) s)
         | Ok (b, n, Some e, s) \<Rightarrow> (s, Err (ErrMsg ''failed to read payload''))
         | Err e \<Rightarrow> (s, Err e)
         | Panic p \<Rightarrow> (s, Panic p))
      else (s, Ok mb))"
  by pat_completeness auto

termination
  by (relation "measure (\<lambda>(pool, k, dest, remain, mb, s). nat remain)") auto

declare packet_payload.simps [simp del]

definition pr_ReadMultiBuffer :: "bytes \<Rightarrow> (nat \<Rightarrow> bytes) \<Rightarrow> (stream, multi_buffer) act" where
  "pr_ReadMultiBuffer fresh pool =
     act_bind (read_target fresh) (\<lambda>(addr, port).
     act_bind (full 2 ''failed to read payload length'') (\<lambda>lengthBuf.
       let remain = uint (get_u16 (lengthBuf ! 0) (lengthBuf ! 1)) in
       if remain > maxLength then act_lift (Err (ErrMsg ''oversize payload''))
       else
         act_bind (full 2 ''failed to read crlf'') (\<lambda>_.
         packet_payload pool 0 (UDPDestination addr port) remain [])))"

section \<open>The first bytes of a connection (server.go)\<close>

definition server_user :: "trojan_validator \<Rightarrow> buffer \<Rightarrow> int \<Rightarrow> trojan_user option res" where
  "server_user v first firstLen =
     (if firstLen < 58 then Ok None
      else rbind (buf_Byte first 56) (\<lambda>c.
        if c \<noteq> 13 then Ok None else rmap (\<lambda>h. tv_Get (hexString h) v) (BytesTo first 56)))"

datatype trojan_decision = Fallback | Accepted trojan_user destination

definition server_Process :: "bytes \<Rightarrow> bool \<Rightarrow> trojan_validator \<Rightarrow> buffer \<Rightarrow> int \<Rightarrow> (stream, trojan_decision) act" where
  "server_Process fresh isfb v first firstLen rest =
     (case server_user v first firstLen of
        Err e \<Rightarrow> (rest, Err e)
      | Panic p \<Rightarrow> (rest, Panic p)
      | Ok None \<Rightarrow> (after_first first rest, if isfb then Ok Fallback else Err (ErrMsg ''invalid protocol or invalid user''))
      | Ok (Some user) \<Rightarrow>
          (case ParseHeader fresh (new_reader (after_first first rest)) of
             (c, r) \<Rightarrow> (cr_Reader c, rmap (\<lambda>_. Accepted user (cr_Target c)) (wrap_res ''failed to create request from: '' r))))"

section \<open>The header comes back\<close>

definition trojan_target :: "destination \<Rightarrow> bool" where
  "trojan_target d \<longleftrightarrow> (case dest_Address d of None \<Rightarrow> False | Some a \<Rightarrow> wire_addr a)"

definition dest_bytes :: "destination \<Rightarrow> bytes" where
  "dest_bytes d = (case dest_Address d of None \<Rightarrow> [] | Some a \<Rightarrow> enc_address_port trojan_addrParser a (dest_Port d))"

definition header_bytes :: "destination \<Rightarrow> bytes \<Rightarrow> bytes" where
  "header_bytes d key = key @ crlf @ (if dest_Network d = Network_UDP then commandUDP else commandTCP) # dest_bytes d @ crlf"

definition wire_network :: "destination \<Rightarrow> destination" where
  "wire_network d = d\<lparr>dest_Network := if dest_Network d = Network_UDP then Network_UDP else Network_TCP\<rparr>"

lemma trojan_targetE:
  assumes "trojan_target d"
  obtains a where "dest_Address d = Some a" "wire_addr a" "dest_bytes d = enc_address_port trojan_addrParser a (dest_Port d)" "length (dest_bytes d) \<le> 259"
  using assms enc_addr_length [of _ socks_table]
  by (fastforce simp: trojan_target_def dest_bytes_def enc_address_port_def trojan_addrParser_def split: option.splits)

lemma put_target_built:
  assumes "trojan_target d" and "length fresh < 2147483648" and "length bs \<le> 7000"
  shows "put_target (built fresh bs) d = Ok (built fresh (bs @ dest_bytes d))"
proof -
  obtain a where a: "dest_Address d = Some a" "wire_addr a" "dest_bytes d = enc_address_port trojan_addrParser a (dest_Port d)" "length (dest_bytes d) \<le> 259"
    using trojan_targetE [OF assms(1)] .
  have "WriteAddressPort trojan_addrParser buf_writer (built fresh bs) a (dest_Port d) = Ok (append_at_end (built fresh bs) (dest_bytes d), None)"
    unfolding a(3) trojan_addrParser_def
    using enc_addr_length [OF a(2), of socks_table] built_wf [OF assms(2), of bs] assms(3) by (intro socks_at.port_last_roundtrip(1) [OF a(2)]) auto
  then show ?thesis using a(1,4) built_append [OF assms(2), of bs "dest_bytes d"] assms(3) by (simp add: put_target_def)
qed

lemma header_buffer_bytes:
  assumes "trojan_target d" and "length fresh < 2147483648" and "length key = 56"
  shows "header_buffer fresh d key = Ok (header_bytes d key)"
proof -
  let ?c = "if dest_Network d = Network_UDP then commandUDP else commandTCP"
  let ?h = "key @ crlf @ ?c # dest_bytes d"
  obtain l: "length (dest_bytes d) \<le> 259" using trojan_targetE [OF assms(1)] .
  have c: "length crlf = 2" by (simp add: crlf_def)
  have "Write (New fresh) key = Ok (built fresh key, 56)" using built_Write [OF assms(2), of "[]" key] built_Nil [OF assms(2)] assms(3) by simp
  moreover have "Write (built fresh key) crlf = Ok (built fresh (key @ crlf), 2)" using built_Write [OF assms(2), of key crlf] assms(3) c by simp
  moreover have "WriteByte (built fresh (key @ crlf)) ?c = Ok (built fresh (key @ crlf @ [?c]))"
    using built_WriteByte [OF assms(2), of "key @ crlf" ?c] assms(3) c by simp
  moreover have "put_target (built fresh (key @ crlf @ [?c])) d = Ok (built fresh ?h)"
    using put_target_built [OF assms(1,2), of "key @ crlf @ [?c]"] assms(3) c by simp
  moreover have "Write (built fresh ?h) crlf = Ok (built fresh (?h @ crlf), 2)" using built_Write [OF assms(2), of ?h crlf] assms(3) c l by simp
  moreover have "Bytes (built fresh (?h @ crlf)) = Ok (?h @ crlf)" using built_wf [OF assms(2), of "?h @ crlf"] assms(3) c l by simp
  ultimately show ?thesis unfolding header_buffer_def header_bytes_def Let_def by (simp del: if_split)
qed

lemma full_append: "length bs = n \<Longrightarrow> full n msg \<lparr>pending = bs @ rest, ending = e\<rparr> = (\<lparr>pending = rest, ending = e\<rparr>, Ok bs)"
  by (simp add: full_def read_full_def)

lemma read_target_back:
  assumes "trojan_target d" and "length fresh < 2147483648"
  shows "read_target fresh \<lparr>pending = dest_bytes d @ rest, ending = e\<rparr> = (\<lparr>pending = rest, ending = e\<rparr>, Ok (dest_Address d, dest_Port d))"
proof -
  obtain a where a: "dest_Address d = Some a" "wire_addr a" "dest_bytes d = enc_address_port trojan_addrParser a (dest_Port d)" "length (dest_bytes d) \<le> 259"
    using trojan_targetE [OF assms(1)] .
  have "read_address_port trojan_addrParser (New fresh, \<lparr>pending = dest_bytes d @ rest, ending = e\<rparr>) =
      ((append_at_end (New fresh) (dest_bytes d), \<lparr>pending = rest, ending = e\<rparr>), Ok (Some a, dest_Port d))"
    unfolding a(3) trojan_addrParser_def
    using enc_addr_length [OF a(2), of socks_table] New_wf [OF assms(2)] by (intro socks_at.port_last_roundtrip(2) [OF a(2)]) auto
  then show ?thesis using a(1) by (simp add: read_target_def ReadAddressPort_def)
qed

lemma on_reader_Ok: "m (cr_Reader c) = (s, Ok x) \<Longrightarrow> on_reader m c = (c\<lparr>cr_Reader := s\<rparr>, Ok x)"
  by (simp add: on_reader_def)

lemma ParseHeader_back:
  assumes "trojan_target d" and "length fresh < 2147483648" and "length key = 56"
  shows "ParseHeader fresh (new_reader \<lparr>pending = header_bytes d key @ rest, ending = e\<rparr>) =
    (\<lparr>cr_Reader = \<lparr>pending = rest, ending = e\<rparr>, cr_Target = wire_network d, cr_headerParsed = True\<rparr>, Ok ())"
proof -
  define cmd where "cmd = (if dest_Network d = Network_UDP then commandUDP else commandTCP)"
  have c: "length crlf = 2" by (simp add: crlf_def)
  have f: "full 56 m \<lparr>pending = key @ x, ending = e\<rparr> = (\<lparr>pending = x, ending = e\<rparr>, Ok key)"
    "full 2 m \<lparr>pending = crlf @ x, ending = e\<rparr> = (\<lparr>pending = x, ending = e\<rparr>, Ok crlf)"
    "full 1 m \<lparr>pending = cmd # x, ending = e\<rparr> = (\<lparr>pending = x, ending = e\<rparr>, Ok [cmd])" for m x
    using full_append [OF assms(3)] full_append [OF c] full_append [of "[cmd]" 1 m x e] by simp_all
  have n: "(cmd = commandUDP) = (dest_Network d = Network_UDP)" by (simp add: cmd_def commandUDP_def commandTCP_def)
  show ?thesis
    unfolding ParseHeader_def header_bytes_def cmd_def [symmetric] new_reader_def Let_def wire_network_def
    by (simp add: on_reader_def f n read_target_back [OF assms(1,2)] del: One_nat_def)
qed

section \<open>From the client to the server's decision\<close>

lemma cw_sent:
  assumes "cw_headerSent c"
  shows "mb_wf mb \<Longrightarrow> cw_WriteMultiBuffer fresh (\<lambda>w bs. Ok (w @ bs, None)) mb c = Ok (c\<lparr>cw_Writer := cw_Writer c @ mb_content mb\<rparr>, None)"
  using assms
proof (induction mb arbitrary: c)
  case (Cons b mb)
  then show ?case using IsEmpty_content [of b] by (auto simp: cw_Write_def)
qed simp

lemma cw_unsent:
  assumes "\<not> cw_headerSent c" and "trojan_target (cw_Target c)" and "length fresh < 2147483648" and "length (ta_Key (cw_Account c)) = 56"
  shows "mb_wf mb \<Longrightarrow> mb_content mb \<noteq> [] \<Longrightarrow> cw_WriteMultiBuffer fresh (\<lambda>w bs. Ok (w @ bs, None)) mb c =
    Ok (c\<lparr>cw_Writer := cw_Writer c @ header_bytes (cw_Target c) (ta_Key (cw_Account c)) @ mb_content mb, cw_headerSent := True\<rparr>, None)"
proof (induction mb)
  case (Cons b mb)
  let ?h = "header_bytes (cw_Target c) (ta_Key (cw_Account c))"
  show ?case
  proof (cases "content b = []")
    case False
    have "cw_Write fresh (\<lambda>w bs. Ok (w @ bs, None)) c (content b) = Ok (c\<lparr>cw_Writer := cw_Writer c @ ?h @ content b, cw_headerSent := True\<rparr>, None)"
      using assms(1) header_buffer_bytes [OF assms(2,3,4)] by (simp add: cw_Write_def writeHeader_def)
    then show ?thesis using False Cons.prems(1) IsEmpty_content [of b] by (simp add: cw_sent)
  qed (use Cons IsEmpty_content [of b] in simp)
qed simp

lemma server_user_header:
  assumes "buf_wf first" and "58 \<le> length (content first)" and "content first @ x = key @ crlf @ y" and "length key = 56"
  shows "server_user v first (Len first) = Ok (tv_Get (hexString key) v)"
proof -
  have l: "58 \<le> Len first" using Len_content [OF assms(1)] assms(2) by simp
  have t: "take 56 (content first) = key" "take 57 (content first) = key @ [13]"
    using arg_cong [OF assms(3), of "take 56"] arg_cong [OF assms(3), of "take 57"] assms(2,4) by (simp_all add: crlf_def)
  have "content first ! 56 = take 57 (content first) ! 56" by simp
  also have "\<dots> = 13" unfolding t(2) using assms(4) by (simp add: nth_append)
  finally have "buf_Byte first 56 = Ok 13" using buf_Byte_content [OF assms(1), of 56] l by simp
  moreover have "BytesTo first 56 = Ok key" using BytesTo_content [OF assms(1), of 56] l t(1) by simp
  ultimately show ?thesis using l by (simp add: server_user_def)
qed

text \<open>
  C5. What a client sends to a target is accepted by a server that knows the password: the server finds the user and the
  target, and what is left to read is what the client wrote.  This holds however the bytes are divided between the
  first read and the later ones, if the first read has the 58 bytes that the server looks at.
\<close>

theorem trojan_request_accepted:
  assumes "trojan_target d" and "mb_wf mb" and "mb_content mb \<noteq> []" and "length fresh < 2147483648" and "length fresh' < 2147483648"
    and "\<And>x. length (sha x) = 28" and "tu_Account u = AsAccount sha password" and "tv_Get (trojan_key u) v = Some u"
    and "buf_wf first" and "58 \<le> length (content first)"
    and "content first @ pending s = header_bytes d (hexSha224 sha password) @ mb_content mb @ later"
  shows "cw_WriteMultiBuffer fresh (\<lambda>w bs. Ok (w @ bs, None)) mb
      \<lparr>cw_Writer = [], cw_Target = d, cw_Account = AsAccount sha password, cw_headerSent = False\<rparr> =
    Ok (\<lparr>cw_Writer = header_bytes d (hexSha224 sha password) @ mb_content mb, cw_Target = d,
         cw_Account = AsAccount sha password, cw_headerSent = True\<rparr>, None) \<and>
    server_Process fresh' isfb v first (Len first) s = (s\<lparr>pending := mb_content mb @ later\<rparr>, Ok (Accepted u (wire_network d)))"
proof
  let ?k = "hexSha224 sha password"
  have k: "length ?k = 56" using assms(6) by (simp add: hexSha224_def EncodeToString_length)
  then show "cw_WriteMultiBuffer fresh (\<lambda>w bs. Ok (w @ bs, None)) mb
      \<lparr>cw_Writer = [], cw_Target = d, cw_Account = AsAccount sha password, cw_headerSent = False\<rparr> =
    Ok (\<lparr>cw_Writer = header_bytes d ?k @ mb_content mb, cw_Target = d, cw_Account = AsAccount sha password, cw_headerSent = True\<rparr>, None)"
    using cw_unsent [of "\<lparr>cw_Writer = [], cw_Target = d, cw_Account = AsAccount sha password, cw_headerSent = False\<rparr>" fresh mb] assms(1-4)
    by (simp add: AsAccount_def)
  obtain y where y: "header_bytes d ?k @ mb_content mb @ later = ?k @ crlf @ y" by (simp add: header_bytes_def)
  have "server_user v first (Len first) = Ok (Some u)"
    using server_user_header [OF assms(9,10), of "pending s" ?k y v] assms(7,8,11) k y by (simp add: AsAccount_def)
  moreover have "after_first first s = \<lparr>pending = header_bytes d ?k @ mb_content mb @ later, ending = ending s\<rparr>"
    using assms(11) by (simp add: after_first_def)
  moreover have "s\<lparr>pending := mb_content mb @ later\<rparr> = \<lparr>pending = mb_content mb @ later, ending = ending s\<rparr>" by (cases s) simp
  ultimately show "server_Process fresh' isfb v first (Len first) s = (s\<lparr>pending := mb_content mb @ later\<rparr>, Ok (Accepted u (wire_network d)))"
    using ParseHeader_back [OF assms(1,5) k, of "mb_content mb @ later" "ending s"] by (simp add: server_Process_def)
qed

definition example_sha :: "bytes \<Rightarrow> bytes" where
  "example_sha x = take 28 (x @ replicate 28 0)"

definition example_trojan_user :: trojan_user where
  "example_trojan_user = \<lparr>tu_Email = ''U'', tu_Account = AsAccount example_sha ''pw''\<rparr>"

definition example_target :: destination where
  "example_target = \<lparr>dest_Address = Some (IPv4Address [1, 2, 3, 4]), dest_Port = 443, dest_Network = Network_UNIX\<rparr>"

theorem trojan_request_accepted_witness:
  "server_Process [] True (fst (tv_Add example_trojan_user no_trojan_users)) (built [] (header_bytes example_target (hexSha224 example_sha ''pw'')))
     (Len (built [] (header_bytes example_target (hexSha224 example_sha ''pw'')))) (stream_of [5, 6]) =
   (stream_of [5, 6], Ok (Accepted example_trojan_user (example_target\<lparr>dest_Network := Network_TCP\<rparr>)))"
proof -
  let ?k = "hexSha224 example_sha ''pw''" let ?b = "built [] (header_bytes example_target ?k)"
  have k: "length ?k = 56" by (simp add: hexSha224_def EncodeToString_length example_sha_def)
  have t: "trojan_target example_target" by (simp add: trojan_target_def example_target_def)
  obtain l: "length (dest_bytes example_target) \<le> 259" using trojan_targetE [OF t] .
  have "length (header_bytes example_target ?k) \<le> 8192" "58 \<le> length (header_bytes example_target ?k)" using k l by (simp_all add: header_bytes_def crlf_def)
  then have b: "buf_wf ?b" "content ?b = header_bytes example_target ?k" "58 \<le> length (content ?b)" using built_wf [of "[]" "header_bytes example_target ?k"] by simp_all
  have m: "buf_wf (built [] [5])" "content (built [] [5]) = [5]" using built_wf [of "[]" "[5]"] by simp_all
  have "server_Process [] True (fst (tv_Add example_trojan_user no_trojan_users)) ?b (Len ?b) (stream_of [5, 6]) =
      ((stream_of [5, 6])\<lparr>pending := mb_content [built [] [5]] @ [6]\<rparr>, Ok (Accepted example_trojan_user (wire_network example_target)))"
    by (rule conjunct2 [OF trojan_request_accepted [where fresh = "[]" and password = "''pw''" and sha = example_sha]])
      (use t b m in \<open>simp_all add: example_sha_def example_trojan_user_def tv_Add_def tv_Get_def no_trojan_users_def stream_of_def Let_def\<close>)
  then show ?thesis using m(2) by (simp add: stream_of_def wire_network_def example_target_def)
qed

text \<open>
  After any additions and removals, a user with an email address is recognised by the hash of his password exactly if he is
  listed under his address, provided the hash was new when he was added.
\<close>

theorem trojan_users_agree:
  assumes "fresh_keys trojan_key (\<lambda>v h. tv_Get h v) (\<lambda>u v. fst (tv_Add u v)) (\<lambda>e v. fst (tv_Del e v)) ops no_trojan_users" and "tu_Email u \<noteq> ''''"
  shows "tv_GetByEmail (tu_Email u) (fold (apply_op (\<lambda>u v. fst (tv_Add u v)) (\<lambda>e v. fst (tv_Del e v))) ops no_trojan_users) = Some u \<longleftrightarrow>
    tv_Get (trojan_key u) (fold (apply_op (\<lambda>u v. fst (tv_Add u v)) (\<lambda>e v. fst (tv_Del e v))) ops no_trojan_users) = Some u"
  unfolding tv_GetByEmail_def by (rule trojan_ut.listed_iff_accepted [OF assms])

theorem trojan_users_agree_witness:
  "tv_GetByEmail ''U'' (fold (apply_op (\<lambda>u v. fst (tv_Add u v)) (\<lambda>e v. fst (tv_Del e v))) [Add_user example_trojan_user] no_trojan_users) = Some example_trojan_user \<longleftrightarrow>
    tv_Get (trojan_key example_trojan_user) (fold (apply_op (\<lambda>u v. fst (tv_Add u v)) (\<lambda>e v. fst (tv_Del e v))) [Add_user example_trojan_user] no_trojan_users) =
      Some example_trojan_user"
  using trojan_users_agree [of "[Add_user example_trojan_user]" example_trojan_user]
  by (simp add: example_trojan_user_def no_trojan_users_def tv_Get_def)

section \<open>Packets\<close>

definition udp_header :: "destination \<Rightarrow> nat \<Rightarrow> bytes" where
  "udp_header d n = dest_bytes d @ put_u16 (word_of_nat n) @ crlf"

lemma udp_header_length: "trojan_target d \<Longrightarrow> length (udp_header d n) \<le> 263"
  using trojan_targetE [of d "length (dest_bytes d) \<le> 259"] by (simp add: udp_header_def crlf_def)

lemma packet_buffer_bytes:
  assumes "trojan_target d" and "length fresh < 2147483648"
  shows "packet_buffer fresh p d = Ok (take 8192 (udp_header d (length p) @ p))"
proof -
  let ?l = "put_u16 (word_of_nat (length p))" let ?h = "udp_header d (length p)"
  obtain l: "length (dest_bytes d) \<le> 259" using trojan_targetE [OF assms(1)] .
  have h: "?h = (dest_bytes d @ ?l) @ crlf" "length ?h \<le> 263" "length ?h \<le> 8192" using udp_header_length [OF assms(1), of "length p"] by (simp_all add: udp_header_def)
  have c: "length crlf = 2" by (simp add: crlf_def)
  have "put_target (New fresh) d = Ok (built fresh (dest_bytes d))" using put_target_built [OF assms, of "[]"] built_Nil [OF assms(2)] by simp
  moreover have "Write (built fresh (dest_bytes d)) ?l = Ok (built fresh (dest_bytes d @ ?l), 2)" using built_Write [OF assms(2), of "dest_bytes d" ?l] l by simp
  moreover have "Write (built fresh (dest_bytes d @ ?l)) crlf = Ok (built fresh ?h, 2)" using built_Write [OF assms(2), of "dest_bytes d @ ?l" crlf] l c h(1) by simp
  moreover note b = built_wf [OF assms(2) h(3)]
  from Write_content [OF b(1), of p] obtain b' n where "Write (built fresh ?h) p = Ok (b', n)" "buf_wf b'" "content b' = ?h @ take (8192 - length ?h) p"
    unfolding b(2,3) by blast
  ultimately show ?thesis using h(3) by (simp add: packet_buffer_def)
qed

lemma packet_payload_back:
  assumes "length q \<le> 8192" and "pool_ok pool"
  shows "\<exists>mb. packet_payload pool 0 d (int (length q)) [] \<lparr>pending = q @ rest, ending = e\<rparr> = (\<lparr>pending = rest, ending = e\<rparr>, Ok mb) \<and>
    mb_content mb = q \<and> list_all (\<lambda>b. buf_UDP b = Some d) mb"
proof (cases "q = []")
  case True
  then show ?thesis by (simp add: packet_payload.simps)
next
  case False
  let ?b = "(New (pool 0))\<lparr>buf_UDP := Some d\<rparr>" let ?n = "int (length q)"
  have "buf_wf (New (pool 0)) \<and> room (New (pool 0)) = 8192 \<and> content (New (pool 0)) = []" using New_wf [of "pool 0"] assms(2) by (simp add: pool_ok_def)
  then have b: "buf_wf ?b" "room ?b = 8192" "content ?b = []" by (simp_all add: buf_wf_def room_def content_def)
  have r: "ReadFullFrom ?b \<lparr>pending = q @ rest, ending = e\<rparr> ?n = Ok (append_at_end ?b q, length q, None, \<lparr>pending = rest, ending = e\<rparr>)"
    using assms(1) b by (intro ReadFullFrom_stream) simp_all
  have i: "i32 (if ?n < Size then ?n else Size) = ?n" using assms(1) by (auto simp: Size_def)
  have "packet_payload pool 0 d ?n [] \<lparr>pending = q @ rest, ending = e\<rparr> = packet_payload pool (Suc 0) d 0 [append_at_end ?b q] \<lparr>pending = rest, ending = e\<rparr>"
    by (subst packet_payload.simps) (simp add: Let_def i r False)
  moreover have "packet_payload pool (Suc 0) d 0 [append_at_end ?b q] \<lparr>pending = rest, ending = e\<rparr> = (\<lparr>pending = rest, ending = e\<rparr>, Ok [append_at_end ?b q])"
    by (simp add: packet_payload.simps)
  ultimately show ?thesis using append_at_end_content [OF b(1), of q] b assms(1) by simp
qed

lemma packet_back:
  assumes "trojan_target d" and "length fresh < 2147483648" and "pool_ok pool" and "length q \<le> 8192"
  shows "\<exists>mb. pr_ReadMultiBuffer fresh pool \<lparr>pending = udp_header d (length q) @ q @ rest, ending = e\<rparr> = (\<lparr>pending = rest, ending = e\<rparr>, Ok mb) \<and>
    mb_content mb = q \<and> list_all (\<lambda>b. buf_UDP b = Some (UDPDestination (dest_Address d) (dest_Port d))) mb"
proof -
  let ?w = "word_of_nat (length q) :: u16"
  have u: "uint ?w = int (length q)" using assms(4) by (simp add: uint_nat unat_of_nat)
  have t: "read_target fresh \<lparr>pending = dest_bytes d @ x, ending = e\<rparr> = (\<lparr>pending = x, ending = e\<rparr>, Ok (dest_Address d, dest_Port d))" for x
    by (rule read_target_back [OF assms(1,2)])
  have f: "full 2 m \<lparr>pending = put_u16 ?w @ x, ending = e\<rparr> = (\<lparr>pending = x, ending = e\<rparr>, Ok (put_u16 ?w))"
    "full 2 m \<lparr>pending = crlf @ x, ending = e\<rparr> = (\<lparr>pending = x, ending = e\<rparr>, Ok crlf)" for m x
    by (rule full_append; simp add: crlf_def)+
  have g: "get_u16 (put_u16 ?w ! 0) (put_u16 ?w ! Suc 0) = ?w" by (simp add: put_u16_def)
  show ?thesis
    using packet_payload_back [OF assms(4,3), of "UDPDestination (dest_Address d) (dest_Port d)" rest e] assms(4)
    by (simp add: pr_ReadMultiBuffer_def udp_header_def t f g u maxLength_def Let_def)
qed

fun pr_reads :: "bytes \<Rightarrow> (nat \<Rightarrow> nat \<Rightarrow> bytes) \<Rightarrow> nat \<Rightarrow> nat \<Rightarrow> (stream, multi_buffer list) act" where
  "pr_reads fresh pool k 0 = act_ret []"
| "pr_reads fresh pool k (Suc n) =
     act_bind (pr_ReadMultiBuffer fresh (pool k)) (\<lambda>mb. act_bind (pr_reads fresh pool (Suc k) n) (\<lambda>mbs. act_ret (mb # mbs)))"

definition packet_target :: "destination \<Rightarrow> buffer \<Rightarrow> destination" where
  "packet_target target b = (case buf_UDP b of None \<Rightarrow> target | Some d \<Rightarrow> d)"

definition packet_fits :: "destination \<Rightarrow> buffer \<Rightarrow> bool" where
  "packet_fits target b \<longleftrightarrow> buf_wf b \<and> trojan_target (packet_target target b) \<and>
     length (udp_header (packet_target target b) (length (content b))) + length (content b) \<le> 8192"

definition wire_packet :: "destination \<Rightarrow> buffer \<Rightarrow> bytes" where
  "wire_packet target b = udp_header (packet_target target b) (length (content b)) @ content b"

lemma pw_bytes:
  assumes "pool_ok pool"
  shows "list_all (packet_fits target) mb \<Longrightarrow> pw_WriteMultiBuffer pool k (\<lambda>w bs. Ok (w @ bs, None)) target mb w = Ok (w @ concat (map (wire_packet target) mb), None)"
proof (induction mb arbitrary: k w)
  case (Cons b mb)
  have "packet_buffer (pool k) (content b) (packet_target target b) = Ok (wire_packet target b)"
    using packet_buffer_bytes [of "packet_target target b" "pool k" "content b"] take_all [of "wire_packet target b" 8192] Cons.prems assms
    by (simp add: packet_fits_def wire_packet_def pool_ok_def del: take_append)
  then show ?case
    using Cons.IH [of "Suc k" "w @ wire_packet target b"] Cons.prems by (simp add: writePacket_def packet_fits_def packet_target_def)
qed simp

lemma pr_reads_back:
  assumes "\<forall>i. pool_ok (pool i)" and "length fresh < 2147483648"
  shows "list_all (packet_fits target) mb \<Longrightarrow>
    \<exists>mbs. pr_reads fresh pool k (length mb) \<lparr>pending = concat (map (wire_packet target) mb) @ rest, ending = e\<rparr> = (\<lparr>pending = rest, ending = e\<rparr>, Ok mbs) \<and>
      map mb_content mbs = map content mb \<and>
      list_all2 (\<lambda>b got. list_all (\<lambda>g. buf_UDP g = Some ((packet_target target b)\<lparr>dest_Network := Network_UDP\<rparr>)) got) mb mbs"
proof (induction mb arbitrary: k)
  case (Cons b mb)
  let ?d = "packet_target target b"
  have f: "trojan_target ?d" "length (content b) \<le> 8192" using Cons.prems by (auto simp: packet_fits_def)
  have p: "pool_ok (pool k)" using assms(1) by simp
  have n: "UDPDestination (dest_Address ?d) (dest_Port ?d) = ?d\<lparr>dest_Network := Network_UDP\<rparr>" by (simp add: UDPDestination_def)
  from packet_back [OF f(1) assms(2) p f(2), of "concat (map (wire_packet target) mb) @ rest" e] obtain got where
    "pr_ReadMultiBuffer fresh (pool k) \<lparr>pending = wire_packet target b @ concat (map (wire_packet target) mb) @ rest, ending = e\<rparr> =
      (\<lparr>pending = concat (map (wire_packet target) mb) @ rest, ending = e\<rparr>, Ok got)" "mb_content got = content b"
    "list_all (\<lambda>g. buf_UDP g = Some (?d\<lparr>dest_Network := Network_UDP\<rparr>)) got" unfolding n by (auto simp: wire_packet_def)
  then show ?case using Cons.IH [of "Suc k"] Cons.prems by fastforce
qed simp

text \<open>
  Packets that fit a buffer with their header arrive one by one, with the target of each: the buffers that the writer is
  given are what the reader returns.
\<close>

theorem trojan_packets_roundtrip:
  assumes "pool_ok pool" and "\<forall>i. pool_ok (pool' i)" and "length fresh < 2147483648" and "list_all (packet_fits target) mb"
  shows "\<exists>out mbs. pw_WriteMultiBuffer pool 0 (\<lambda>w bs. Ok (w @ bs, None)) target mb [] = Ok (out, None) \<and>
    pr_reads fresh pool' k (length mb) \<lparr>pending = out @ rest, ending = e\<rparr> = (\<lparr>pending = rest, ending = e\<rparr>, Ok mbs) \<and>
    map mb_content mbs = map content mb \<and>
    list_all2 (\<lambda>b got. list_all (\<lambda>g. buf_UDP g = Some ((packet_target target b)\<lparr>dest_Network := Network_UDP\<rparr>)) got) mb mbs"
  using pw_bytes [OF assms(1,4), of 0 "[]"] pr_reads_back [OF assms(2,3,4), of k rest e] by auto

theorem trojan_packets_roundtrip_witness:
  "\<exists>out mbs. pw_WriteMultiBuffer (\<lambda>i. []) 0 (\<lambda>w bs. Ok (w @ bs, None)) example_target [built [] [1], built [] []] [] = Ok (out, None) \<and>
    pr_reads [] (\<lambda>i j. []) 0 2 \<lparr>pending = out @ [9], ending = EOF\<rparr> = (\<lparr>pending = [9], ending = EOF\<rparr>, Ok mbs) \<and> map mb_content mbs = [[1], []]"
proof -
  let ?mb = "[built [] [1], built [] []]"
  have b: "buf_wf (built [] [1])" "buf_wf (built [] [])" and c: "content (built [] [1]) = [1]" "content (built [] []) = []"
    using built_wf [of "[]" "[1]"] built_wf [of "[]" "[]"] by simp_all
  have t: "trojan_target example_target" by (simp add: trojan_target_def example_target_def)
  have "packet_target example_target (built [] bs) = example_target" for bs by (simp add: packet_target_def built_def append_at_end_def New_def)
  then have "list_all (packet_fits example_target) ?mb" using b c t udp_header_length [OF t, of 1] udp_header_length [OF t, of 0] by (simp add: packet_fits_def)
  moreover have "pool_ok (\<lambda>i. [])" by (simp add: pool_ok_def)
  moreover have "length ?mb = 2" "map content ?mb = [[1], []]" using c by simp_all
  ultimately show ?thesis
    using trojan_packets_roundtrip [of "\<lambda>i. []" "\<lambda>i j. []" "[]" example_target ?mb 0 "[9]" EOF] by (metis (no_types, lifting) list.size(3) zero_less_numeral)
qed

text \<open>
  A payload that does not fit the buffer beside its header is cut off, but its full length is announced: the reader takes
  the missing bytes from whatever follows on the connection.
\<close>

theorem trojan_long_packet:
  assumes "trojan_target d" and "length fresh < 2147483648" and "length fresh' < 2147483648" and "pool_ok pool"
    and "length p \<le> 8192" and "n = length (udp_header d (length p)) + length p - 8192" and "0 < n" and "length next = n"
  shows "\<exists>out mb. writePacket fresh (\<lambda>w bs. Ok (w @ bs, None)) [] p d = Ok (out, None) \<and> length out = 8192 \<and>
    pr_ReadMultiBuffer fresh' pool \<lparr>pending = out @ next @ rest, ending = e\<rparr> = (\<lparr>pending = rest, ending = e\<rparr>, Ok mb) \<and>
    mb_content mb = take (length p - n) p @ next"
proof -
  let ?h = "udp_header d (length p)" let ?q = "take (length p - n) p @ next"
  have h: "length ?h \<le> 263" by (rule udp_header_length [OF assms(1)])
  have out: "take 8192 (?h @ p) = ?h @ take (length p - n) p" using assms(6,7) h by simp
  have q: "length ?q = length p" using assms(6,7,8) h by simp
  have "writePacket fresh (\<lambda>w bs. Ok (w @ bs, None)) [] p d = Ok (?h @ take (length p - n) p, None)"
    using packet_buffer_bytes [OF assms(1,2), of p] out by (simp add: writePacket_def)
  moreover have "length (?h @ take (length p - n) p) = 8192" using assms(6,7) h by simp
  moreover have "length ?q \<le> 8192" using q assms(5) by simp
  from packet_back [OF assms(1,3,4) this, of rest e] obtain mb where
    "pr_ReadMultiBuffer fresh' pool \<lparr>pending = udp_header d (length ?q) @ ?q @ rest, ending = e\<rparr> = (\<lparr>pending = rest, ending = e\<rparr>, Ok mb)" "mb_content mb = ?q" by blast
  ultimately show ?thesis unfolding q by auto
qed

theorem trojan_long_packet_witness:
  "\<exists>out mb. writePacket [] (\<lambda>w bs. Ok (w @ bs, None)) [] (replicate 8192 7) example_target = Ok (out, None) \<and> length out = 8192 \<and>
    pr_ReadMultiBuffer [] (\<lambda>i. []) \<lparr>pending = out @ replicate 11 8 @ [9], ending = EOF\<rparr> = (\<lparr>pending = [9], ending = EOF\<rparr>, Ok mb) \<and>
    mb_content mb = take (length (replicate 8192 (7 :: byte)) - 11) (replicate 8192 7) @ replicate 11 8"
proof (rule trojan_long_packet)
  show "11 = length (udp_header example_target (length (replicate 8192 (7 :: byte)))) + length (replicate 8192 (7 :: byte)) - 8192"
    by (simp add: udp_header_def dest_bytes_def example_target_def enc_address_port_def trojan_addrParser_def enc_addr_def crlf_def)
qed (simp_all add: trojan_target_def example_target_def pool_ok_def)

section \<open>Safety\<close>

lemma read_target_safe:
  assumes "length fresh < 2147483648"
  shows "\<not> is_panic (snd (read_target fresh s))"
proof -
  have "safe_read 259 (read_address_port trojan_addrParser)" by (rule address_port_safe) (simp add: trojan_addrParser_def tables_total)
  note a = safe_readD [OF this, of "New fresh" s]
  obtain b' s' r where "read_address_port trojan_addrParser (New fresh, s) = ((b', s'), r)" "\<not> is_panic r" using a New_wf [OF assms] by auto
  then show ?thesis by (cases r) (auto simp: read_target_def ReadAddressPort_def)
qed

definition never_panics :: "('s, 'a) act \<Rightarrow> bool" where
  "never_panics m \<longleftrightarrow> (\<forall>s. \<not> is_panic (snd (m s)))"

lemma never_panics_bind:
  assumes "never_panics m" and "\<And>x. never_panics (f x)"
  shows "never_panics (act_bind m f)"
  unfolding never_panics_def
proof
  fix s
  obtain s' r where r: "m s = (s', r)" by fastforce
  then have "\<not> is_panic r" using assms(1) unfolding never_panics_def by (metis snd_conv)
  then show "\<not> is_panic (snd (act_bind m f s))" using r assms(2) by (cases r) (auto simp: never_panics_def)
qed

lemma never_panics_reader: "never_panics m \<Longrightarrow> never_panics (on_reader m)"
  by (auto simp: never_panics_def on_reader_def split: prod.splits) (metis snd_conv)

lemma never_panics_full: "never_panics (full n msg)"
  by (auto simp: never_panics_def full_def split: prod.splits option.splits)

lemma never_panics_update: "never_panics (\<lambda>c. (g c, Ok x))"
  by (simp add: never_panics_def)

lemma ParseHeader_safe:
  assumes "length fresh < 2147483648"
  shows "never_panics (ParseHeader fresh)"
  unfolding ParseHeader_def Let_def case_prod_beta
  by (intro never_panics_bind never_panics_reader never_panics_full never_panics_update) (simp add: never_panics_def read_target_safe [OF assms])

text \<open>
  No client can make the server panic with the first bytes of a connection: the outcome is a user with a target, the
  fallback, or an error.  Only a connection that begins with the hash of a user's password is accepted.
\<close>

theorem trojan_server_safe:
  assumes "buf_wf first" and "length fresh < 2147483648"
  shows "\<not> is_panic (snd (server_Process fresh isfb v first (Len first) s)) \<and>
    (\<forall>u d. snd (server_Process fresh isfb v first (Len first) s) = Ok (Accepted u d) \<longrightarrow>
       (\<exists>h later. content first = h @ 13 # later \<and> length h = 56 \<and> tv_Get (hexString h) v = Some u))"
proof (cases "Len first < 58 \<or> content first ! 56 \<noteq> 13")
  case True
  have "server_user v first (Len first) = Ok None"
    using True buf_Byte_content [OF assms(1), of 56] by (auto simp: server_user_def not_less)
  then show ?thesis by (simp add: server_Process_def)
next
  case False
  then have l: "58 \<le> Len first" "58 \<le> length (content first)" using Len_content [OF assms(1)] by auto
  let ?h = "take 56 (content first)"
  have "content first = ?h @ drop 56 (content first)" by simp
  also have "drop 56 (content first) = 13 # drop 57 (content first)" using False l(2) Cons_nth_drop_Suc [of 56 "content first"] by simp
  finally have c: "content first = ?h @ 13 # drop 57 (content first)" .
  have u: "server_user v first (Len first) = Ok (tv_Get (hexString ?h) v)"
    using False l buf_Byte_content [OF assms(1), of 56] BytesTo_content [OF assms(1), of 56] by (simp add: server_user_def)
  obtain c' r where p: "ParseHeader fresh (new_reader (after_first first s)) = (c', r)" by fastforce
  have "\<not> is_panic r" using ParseHeader_safe [OF assms(2)] p unfolding never_panics_def by (metis snd_conv)
  moreover have "length ?h = 56" using l(2) by simp
  ultimately show ?thesis
    using u p c by (cases r; cases "tv_Get (hexString ?h) v") (auto simp: server_Process_def)
qed

theorem trojan_server_safe_witness:
  "\<not> is_panic (snd (server_Process [] False no_trojan_users (built [] [1, 2, 3]) (Len (built [] [1, 2, 3])) (stream_of [4])))"
  using trojan_server_safe [of "built [] [1, 2, 3]" "[]" False no_trojan_users "stream_of [4]"] built_wf [of "[]" "[1, 2, 3]"] by simp

end
