(* ===== verification/Fallback.thy ===== *)
theory Fallback
  imports Buffer StrMph "HOL-Library.AList"
begin

text \<open>
  Fallbacks of the VLESS and Trojan inbounds (\<open>proxy/vless/inbound/inbound.go\<close>, \<open>proxy/trojan/server.go\<close>, the same code twice):
  a connection that is not a valid request is handed to a web server that is chosen by server name, application protocol
  and path.  Building the table, choosing from it, and the PROXY protocol header.
\<close>

section \<open>The table\<close>

record fallback =
  fb_Name :: string
  fb_Alpn :: string
  fb_Path :: string
  fb_Type :: string
  fb_Dest :: string
  fb_Xver :: nat

type_synonym paths = "(string \<times> fallback) list"
type_synonym alpns = "(string \<times> paths) list"
type_synonym names = "(string \<times> alpns) list"

text \<open>A Go map that is missing and a nil map are the same here: all maps in the table are made before they are written.\<close>

definition insert_fallback :: "fallback \<Rightarrow> names \<Rightarrow> names" where
  "insert_fallback fb t =
     (let apfb = (case map_of t (fb_Name fb) of None \<Rightarrow> [] | Some a \<Rightarrow> a);
          pfb = (case map_of apfb (fb_Alpn fb) of None \<Rightarrow> [] | Some p \<Rightarrow> p) in
      AList.update (fb_Name fb) (AList.update (fb_Alpn fb) (AList.update (fb_Path fb) fb pfb) apfb) t)"

definition add_missing :: "(string \<times> 'a) list \<Rightarrow> (string \<times> 'a) list \<Rightarrow> (string \<times> 'a) list" where
  "add_missing new old = fold (\<lambda>(k, v) m. if map_of m k = None then AList.update k v m else m) new old"

text \<open>
  Three passes complete the table.  Every name gets the protocols of the empty name, without paths; every protocol
  of a name gets the paths of the empty protocol; and every name gets the paths of the empty name, protocol by
  protocol.  A pass treats the entries of a map one by one, so that the order of the iteration does not matter.
\<close>

definition pass_alpns :: "names \<Rightarrow> names" where
  "pass_alpns t =
     (case map_of t '''' of
        None \<Rightarrow> t
      | Some d \<Rightarrow> map (\<lambda>(name, apfb). (name, if name \<noteq> '''' then add_missing (map (\<lambda>(alpn, pfb). (alpn, [])) d) apfb else apfb)) t)"

definition pass_paths :: "names \<Rightarrow> names" where
  "pass_paths t =
     map (\<lambda>(name, apfb). (name,
       case map_of apfb '''' of
         None \<Rightarrow> apfb
       | Some d \<Rightarrow> map (\<lambda>(alpn, pfb). (alpn, if alpn \<noteq> '''' then add_missing d pfb else pfb)) apfb)) t"

definition fill_name :: "alpns \<Rightarrow> alpns \<Rightarrow> alpns" where
  "fill_name d apfb = map (\<lambda>(alpn, pfb). (alpn, case map_of d alpn of None \<Rightarrow> pfb | Some dp \<Rightarrow> add_missing dp pfb)) apfb"

definition pass_names :: "names \<Rightarrow> names" where
  "pass_names t =
     (case map_of t '''' of
        None \<Rightarrow> t
      | Some d \<Rightarrow> map (\<lambda>(name, apfb). (name, if name \<noteq> '''' then fill_name d apfb else apfb)) t)"

definition build_fallbacks :: "fallback list \<Rightarrow> names" where
  "build_fallbacks cfgs = pass_names (pass_paths (pass_alpns (fold insert_fallback cfgs [])))"

section \<open>The choice\<close>

definition match_name :: "(names \<Rightarrow> names) \<Rightarrow> names \<Rightarrow> string \<Rightarrow> string" where
  "match_name iterate napfb name =
     fold (\<lambda>(n, _) best. if n \<noteq> '''' \<and> sublist n name \<and> length n > length best then n else best) (iterate napfb) ''''"

text \<open>The path of the first line of a request: from the slash at one of the positions 4 to 8 to a blank or a question mark.\<close>

fun path_end :: "bytes \<Rightarrow> nat \<Rightarrow> nat \<Rightarrow> nat option" where
  "path_end bs j 0 = None"
| "path_end bs j (Suc n) =
     (if bs ! j = 13 \<or> bs ! j = 10 then None
      else if bs ! j = 63 \<or> bs ! j = 32 then Some j
      else path_end bs (Suc j) n)"

fun find_path :: "bytes \<Rightarrow> nat list \<Rightarrow> string" where
  "find_path bs [] = ''''"
| "find_path bs (i # is) =
     (if bs ! i = 47 \<and> bs ! (i - 1) = 32 then
        (case path_end bs (i + 1) (min (length bs) 64 - (i + 1)) of
           None \<Rightarrow> ''''
         | Some j \<Rightarrow> of_bytes (take (j - i) (drop i bs)))
      else find_path bs is)"

definition request_path :: "buffer \<Rightarrow> int \<Rightarrow> string res" where
  "request_path first firstLen =
     (if firstLen \<ge> 18 then
        rbind (buf_Byte first 4) (\<lambda>c.
          if c \<noteq> 42 then rmap (\<lambda>bs. find_path bs [4, 5, 6, 7, 8]) (Bytes first) else Ok '''')
      else Ok '''')"

definition choose_fallback :: "(names \<Rightarrow> names) \<Rightarrow> names \<Rightarrow> string \<Rightarrow> string \<Rightarrow> buffer \<Rightarrow> int \<Rightarrow> fallback res" where
  "choose_fallback iterate napfb realName realAlpn first firstLen =
     (let name = ToLower realName; alpn = ToLower realAlpn;
          name = (if (length napfb > 1 \<or> map_of napfb '''' = None) \<and> name \<noteq> '''' \<and> map_of napfb name = None
                  then match_name iterate napfb name else name);
          name = (if map_of napfb name = None then '''' else name) in
      case map_of napfb name of
        None \<Rightarrow> Err (ErrMsg ''failed to find the default name config'')
      | Some apfb \<Rightarrow>
          (let alpn = (if map_of apfb alpn = None then '''' else alpn) in
           case map_of apfb alpn of
             None \<Rightarrow> Err (ErrMsg ''failed to find the default alpn config'')
           | Some pfb \<Rightarrow>
               rbind (if length pfb > 1 \<or> map_of pfb '''' = None
                      then rmap (\<lambda>path. if map_of pfb path = None then '''' else path) (request_path first firstLen) else Ok '''') (\<lambda>path.
                 case map_of pfb path of
                   None \<Rightarrow> Err (ErrMsg ''failed to find the default path config'')
                 | Some fb \<Rightarrow> Ok fb)))"

section \<open>What the table means\<close>

definition look :: "names \<Rightarrow> string \<Rightarrow> string \<Rightarrow> string \<Rightarrow> fallback option" where
  "look t n a p = (case map_of t n of None \<Rightarrow> None | Some apfb \<Rightarrow> (case map_of apfb a of None \<Rightarrow> None | Some pfb \<Rightarrow> map_of pfb p))"

definition has_alpn :: "names \<Rightarrow> string \<Rightarrow> string \<Rightarrow> bool" where
  "has_alpn t n a \<longleftrightarrow> (case map_of t n of None \<Rightarrow> False | Some apfb \<Rightarrow> map_of apfb a \<noteq> None)"

definition has_name :: "names \<Rightarrow> string \<Rightarrow> bool" where
  "has_name t n \<longleftrightarrow> map_of t n \<noteq> None"

lemmas table_defs = look_def has_alpn_def has_name_def

text \<open>The last entry of the configuration for a name, protocol and path.\<close>

definition configured :: "fallback list \<Rightarrow> string \<Rightarrow> string \<Rightarrow> string \<Rightarrow> fallback option" where
  "configured cfgs n a p = List.find (\<lambda>fb. fb_Name fb = n \<and> fb_Alpn fb = a \<and> fb_Path fb = p) (rev cfgs)"

definition has_entry :: "fallback list \<Rightarrow> string \<Rightarrow> string \<Rightarrow> bool" where
  "has_entry cfgs n a \<longleftrightarrow> (\<exists>fb\<in>set cfgs. fb_Name fb = n \<and> fb_Alpn fb = a)"

fun first_some :: "'a option list \<Rightarrow> 'a option" where
  "first_some [] = None"
| "first_some (x # xs) = (case x of None \<Rightarrow> first_some xs | Some v \<Rightarrow> Some v)"

text \<open>
  What the table holds after the three passes: an entry for the very name and protocol, then one for the name and any protocol, then the same for
  any name, if the protocol is configured there.
\<close>

definition table_entry :: "fallback list \<Rightarrow> string \<Rightarrow> string \<Rightarrow> string \<Rightarrow> fallback option" where
  "table_entry cfgs n a p =
     (if has_entry cfgs n a \<or> n \<noteq> '''' \<and> (\<exists>fb\<in>set cfgs. fb_Name fb = n) \<and> has_entry cfgs '''' a
      then first_some ([configured cfgs n a p, configured cfgs n '''' p] @
             (if n \<noteq> '''' \<and> has_entry cfgs '''' a then [configured cfgs '''' a p, configured cfgs '''' '''' p] else []))
      else None)"

lemma map_of_keyed: "map_of (map (\<lambda>(k, v). (k, f k v)) t) k = map_option (f k) (map_of t k)"
  by (induction t) auto

lemma map_of_add_missing: "map_of (add_missing new old) k = (case map_of old k of None \<Rightarrow> map_of new k | Some v \<Rightarrow> Some v)"
proof (induction new arbitrary: old)
  case (Cons e new)
  obtain k' v where "e = (k', v)" by fastforce
  then show ?case using Cons [of "if map_of old k' = None then AList.update k' v old else old"]
    by (auto simp: add_missing_def update_conv' split: option.splits)
qed (simp add: add_missing_def split: option.splits)

lemma insert_table:
  "look (insert_fallback fb t) n a p = (if fb_Name fb = n \<and> fb_Alpn fb = a \<and> fb_Path fb = p then Some fb else look t n a p)"
  "has_alpn (insert_fallback fb t) n a \<longleftrightarrow> fb_Name fb = n \<and> fb_Alpn fb = a \<or> has_alpn t n a"
  "has_name (insert_fallback fb t) n \<longleftrightarrow> fb_Name fb = n \<or> has_name t n"
  by (auto simp: insert_fallback_def table_defs update_conv' Let_def split: option.splits)

lemma inserted_table:
  "look (fold insert_fallback cfgs []) n a p = configured cfgs n a p"
  "has_alpn (fold insert_fallback cfgs []) n a \<longleftrightarrow> has_entry cfgs n a"
  "has_name (fold insert_fallback cfgs []) n \<longleftrightarrow> (\<exists>fb\<in>set cfgs. fb_Name fb = n)"
proof (induction cfgs rule: rev_induct)
  case Nil
  { case 1 show ?case by (simp add: table_defs configured_def) }
  { case 2 show ?case by (simp add: table_defs has_entry_def) }
  { case 3 show ?case by (simp add: table_defs) }
next
  case (snoc fb cfgs)
  { case 1 show ?case using snoc(1) by (simp add: insert_table configured_def) }
  { case 2 show ?case using snoc(2) by (auto simp: insert_table has_entry_def) }
  { case 3 show ?case using snoc(3) by (auto simp: insert_table) }
qed

lemma pass_alpns_table:
  "look (pass_alpns t) n a p = look t n a p"
  "has_alpn (pass_alpns t) n a \<longleftrightarrow> has_alpn t n a \<or> n \<noteq> '''' \<and> has_name t n \<and> has_alpn t '''' a"
  "has_name (pass_alpns t) n \<longleftrightarrow> has_name t n"
proof -
  have d: "map_of (map (\<lambda>(alpn, pfb). (alpn, [])) d) a = map_option (\<lambda>_. []) (map_of d a)" for d :: alpns using map_of_keyed [of "\<lambda>_ _. []" d a] by simp
  show "look (pass_alpns t) n a p = look t n a p"
    by (auto simp: pass_alpns_def table_defs map_of_keyed map_of_add_missing d split: option.splits)
  show "has_alpn (pass_alpns t) n a \<longleftrightarrow> has_alpn t n a \<or> n \<noteq> '''' \<and> has_name t n \<and> has_alpn t '''' a"
    by (auto simp: pass_alpns_def table_defs map_of_keyed map_of_add_missing d split: option.splits)
  show "has_name (pass_alpns t) n \<longleftrightarrow> has_name t n" by (auto simp: pass_alpns_def table_defs map_of_keyed split: option.splits)
qed

lemma pass_paths_table:
  "look (pass_paths t) n a p = (if has_alpn t n a then first_some [look t n a p, look t n '''' p] else None)"
  "has_alpn (pass_paths t) n a \<longleftrightarrow> has_alpn t n a"
  "has_name (pass_paths t) n \<longleftrightarrow> has_name t n"
  by (auto simp: pass_paths_def table_defs map_of_keyed map_of_add_missing split: option.splits)

lemma pass_names_table:
  "look (pass_names t) n a p = (if has_alpn t n a then first_some [look t n a p, if n \<noteq> '''' then look t '''' a p else None] else None)"
  "has_alpn (pass_names t) n a \<longleftrightarrow> has_alpn t n a"
  "has_name (pass_names t) n \<longleftrightarrow> has_name t n"
  by (auto simp: pass_names_def fill_name_def table_defs map_of_keyed map_of_add_missing split: option.splits)

lemma build_look: "look (build_fallbacks cfgs) n a p = table_entry cfgs n a p"
  by (auto simp: build_fallbacks_def pass_names_table pass_paths_table pass_alpns_table inserted_table table_entry_def split: option.splits)

lemma build_table:
  "has_alpn (build_fallbacks cfgs) n a \<longleftrightarrow> has_entry cfgs n a \<or> n \<noteq> '''' \<and> (\<exists>fb\<in>set cfgs. fb_Name fb = n) \<and> has_entry cfgs '''' a"
  "has_name (build_fallbacks cfgs) n \<longleftrightarrow> (\<exists>fb\<in>set cfgs. fb_Name fb = n)"
  by (simp_all add: build_fallbacks_def pass_names_table pass_paths_table pass_alpns_table inserted_table)

lemma first_some_None: "first_some xs = None \<longleftrightarrow> list_all (\<lambda>x. x = None) xs"
  by (induction xs) (auto split: option.splits)

lemma first_some_Some: "first_some xs = Some v \<Longrightarrow> Some v \<in> set xs"
  by (induction xs) (auto split: option.splits)

lemma configured_in: "configured cfgs n a p = Some fb \<Longrightarrow> fb \<in> set cfgs \<and> fb_Name fb = n \<and> fb_Alpn fb = a \<and> fb_Path fb = p"
  by (auto simp: configured_def find_Some_iff) (metis nth_mem set_rev length_rev)

lemma entry_in: "table_entry cfgs n a p = Some fb \<Longrightarrow> fb \<in> set cfgs"
  by (auto simp: table_entry_def dest!: first_some_Some configured_in [OF sym] split: if_splits) (auto dest: configured_in split: option.splits)

lemma request_path_ok:
  assumes "buf_wf first"
  shows "\<exists>path. request_path first (Len first) = Ok path"
  using buf_Byte_content [OF assms, of 4] assms by (auto simp: request_path_def)

text \<open>Every protocol that is configured for a name has a default path, if the name, or the protocol at any name, has one.\<close>

definition covered :: "fallback list \<Rightarrow> bool" where
  "covered cfgs \<longleftrightarrow> configured cfgs '''' '''' '''' \<noteq> None \<and>
     list_all (\<lambda>fb. has_entry cfgs '''' (fb_Alpn fb) \<or> configured cfgs (fb_Name fb) (fb_Alpn fb) '''' \<noteq> None \<or> configured cfgs (fb_Name fb) '''' '''' \<noteq> None) cfgs"

lemma covered_default:
  assumes "covered cfgs" and "has_alpn (build_fallbacks cfgs) n a"
  shows "look (build_fallbacks cfgs) n a '''' \<noteq> None"
proof -
  have d: "configured cfgs '''' '''' '''' \<noteq> None" using assms(1) by (simp add: covered_def)
  have h: "has_entry cfgs n a \<or> n \<noteq> '''' \<and> (\<exists>fb\<in>set cfgs. fb_Name fb = n) \<and> has_entry cfgs '''' a" using assms(2) by (simp add: build_table)
  have "has_entry cfgs '''' a \<or> configured cfgs n a '''' \<noteq> None \<or> configured cfgs n '''' '''' \<noteq> None"
    using h assms(1) by (auto simp: covered_def has_entry_def list_all_iff)
  then have "\<not> list_all (\<lambda>x. x = None) ([configured cfgs n a '''', configured cfgs n '''' ''''] @
      (if n \<noteq> '''' \<and> has_entry cfgs '''' a then [configured cfgs '''' a '''', configured cfgs '''' '''' ''''] else []))"
    using d by (cases "n = ''''") auto
  then show ?thesis using h by (auto simp only: build_look table_entry_def first_some_None [symmetric] if_True not_None_eq)
qed

text \<open>The name under which the choice looks into the table.\<close>

definition used_name :: "(names \<Rightarrow> names) \<Rightarrow> names \<Rightarrow> string \<Rightarrow> string" where
  "used_name iterate t name =
     (let n = (if (length t > 1 \<or> map_of t '''' = None) \<and> name \<noteq> '''' \<and> map_of t name = None then match_name iterate t name else name) in
      if map_of t n = None then '''' else n)"

lemma choose_looks:
  assumes "has_name t ''''" and "\<And>n. has_name t n \<Longrightarrow> has_alpn t n ''''" and "\<And>n a. has_alpn t n a \<Longrightarrow> look t n a '''' \<noteq> None"
    and "request_path first firstLen = Ok path"
    and n_def: "n = used_name iterate t (ToLower realName)" and a_def: "a = (if has_alpn t n (ToLower realAlpn) then ToLower realAlpn else '''')"
  shows "has_name t n \<and> has_alpn t n a \<and> (\<exists>fb. choose_fallback iterate t realName realAlpn first firstLen = Ok fb \<and>
    look t n a (if look t n a path = None then '''' else path) = Some fb)"
proof -
  have hn: "has_name t n" using assms(1) by (simp add: n_def used_name_def has_name_def Let_def)
  then obtain apfb where apfb: "map_of t n = Some apfb" by (auto simp: has_name_def)
  have a: "(if map_of apfb (ToLower realAlpn) = None then '''' else ToLower realAlpn) = a" by (simp add: a_def has_alpn_def apfb)
  have ha: "has_alpn t n a" using assms(2) [OF hn] by (auto simp: a_def)
  then obtain pfb where p: "map_of apfb a = Some pfb" using apfb by (auto simp: has_alpn_def)
  have l: "look t n a x = map_of pfb x" for x using apfb p by (simp add: look_def)
  have e: "map_of pfb '''' \<noteq> None" using assms(3) [OF ha] l by simp
  define q where "q = (if map_of pfb path = None then '''' else path)"
  have q: "map_of pfb q \<noteq> None" using e by (simp add: q_def)
  have "q = ''''" if "\<not> length pfb > 1"
  proof -
    have "pfb \<noteq> []" using e by auto
    with that have "length pfb = 1" by (cases pfb) auto
    then obtain x where "pfb = [x]" by (auto simp: length_Suc_conv)
    then show ?thesis using e by (cases x) (auto simp: q_def split: if_splits)
  qed
  then have r: "rbind (if length pfb > 1 \<or> map_of pfb '''' = None then rmap (\<lambda>path. if map_of pfb path = None then '''' else path) (request_path first firstLen) else Ok '''') f = f q"
    for f :: "string \<Rightarrow> fallback res" using e assms(4) by (auto simp: q_def [symmetric])
  have "choose_fallback iterate t realName realAlpn first firstLen = (case map_of pfb q of None \<Rightarrow> Err (ErrMsg ''failed to find the default path config'') | Some fb \<Rightarrow> Ok fb)"
    unfolding choose_fallback_def Let_def n_def [unfolded used_name_def Let_def, symmetric] apfb option.case a p r by (rule refl)
  then show ?thesis using q hn ha by (auto simp: l q_def)
qed

lemma choose_found:
  assumes "has_name t ''''" and "\<And>n. has_name t n \<Longrightarrow> has_alpn t n ''''" and "\<And>n a. has_alpn t n a \<Longrightarrow> look t n a '''' \<noteq> None" and "buf_wf first"
  shows "\<exists>n a p fb. choose_fallback iterate t realName realAlpn first (Len first) = Ok fb \<and> look t n a p = Some fb"
proof -
  obtain path where "request_path first (Len first) = Ok path" using request_path_ok [OF assms(4)] by blast
  from choose_looks [OF assms(1-3) this refl refl] show ?thesis by blast
qed

section \<open>The most specific fallback\<close>

text \<open>
  Which name of the configuration serves a server name: the name itself, or else a longest one that the server name contains, or else the empty one.
\<close>

definition serves :: "fallback list \<Rightarrow> string \<Rightarrow> string \<Rightarrow> bool" where
  "serves cfgs name n \<longleftrightarrow>
     (let names = fb_Name ` set cfgs in
      if name \<in> names then n = name
      else if \<exists>m\<in>names. m \<noteq> '''' \<and> sublist m name
      then n \<in> names \<and> n \<noteq> '''' \<and> sublist n name \<and> (\<forall>m\<in>names. sublist m name \<longrightarrow> length m \<le> length n)
      else n = '''')"

text \<open>
  The entries that apply to a name, protocol and path, most specific first: an entry with the path before one without; then an entry
  of the name before one for any name; then an entry for the protocol before one for any protocol.  Of entries for the same three the last one counts.
\<close>

definition most_specific :: "fallback list \<Rightarrow> string \<Rightarrow> string \<Rightarrow> string \<Rightarrow> fallback option" where
  "most_specific cfgs n a p =
     first_some [configured cfgs n a p, configured cfgs n '''' p, configured cfgs '''' a p, configured cfgs '''' '''' p,
       configured cfgs n a '''', configured cfgs n '''' '''', configured cfgs '''' a '''', configured cfgs '''' '''' '''']"

lemma match_name_fold:
  "fold (\<lambda>(n, _) best. if n \<noteq> '''' \<and> sublist n name \<and> length n > length best then n else best) t b = m \<Longrightarrow>
     (m = b \<or> m \<in> fst ` set t \<and> m \<noteq> '''' \<and> sublist m name) \<and> length b \<le> length m \<and>
     (\<forall>n \<in> fst ` set t. n \<noteq> '''' \<and> sublist n name \<longrightarrow> length n \<le> length m)"
proof (induction t arbitrary: b)
  case (Cons e t)
  obtain n x where e: "e = (n, x)" by fastforce
  from Cons.IH [of "if n \<noteq> '''' \<and> sublist n name \<and> length n > length b then n else b"] Cons.prems show ?case
    by (auto simp: e split: if_splits)
qed simp

lemma used_name_serves:
  assumes "set (iterate t) = set t" and "\<And>n. has_name t n \<longleftrightarrow> n \<in> fb_Name ` set cfgs" and "has_name t ''''"
  shows "serves cfgs name (used_name iterate t name)"
proof -
  have k: "fst ` set t = fb_Name ` set cfgs" using assms(2) by (auto simp: has_name_def map_of_eq_None_iff)
  have n: "map_of t x = None \<longleftrightarrow> x \<notin> fb_Name ` set cfgs" for x using assms(2) [of x] unfolding has_name_def by blast
  have e: "'''' \<in> fb_Name ` set cfgs" using assms(2,3) by blast
  define m where "m = match_name iterate t name"
  have mm: "m = '''' \<or> m \<in> fb_Name ` set cfgs \<and> m \<noteq> '''' \<and> sublist m name"
    "\<And>x. x \<in> fb_Name ` set cfgs \<Longrightarrow> x \<noteq> '''' \<Longrightarrow> sublist x name \<Longrightarrow> length x \<le> length m"
    using match_name_fold [OF m_def [unfolded match_name_def, symmetric]] unfolding assms(1) k by blast+
  show ?thesis
  proof (cases "name \<in> fb_Name ` set cfgs")
    case True
    then show ?thesis using n [of name] by (auto simp: serves_def used_name_def Let_def)
  next
    case False
    have one: "length t > 1" if "x \<in> fb_Name ` set cfgs" "x \<noteq> ''''" for x
    proof (rule ccontr)
      assume "\<not> length t > 1"
      then obtain y where "t = [y]" using e by (cases t) (auto simp: k [symmetric] Suc_le_eq)
      then show False using that e by (auto simp: k [symmetric])
    qed
    have ne: "name \<noteq> ''''" using False e by blast
    show ?thesis
    proof (cases "\<exists>x\<in>fb_Name ` set cfgs. x \<noteq> '''' \<and> sublist x name")
      case True
      then obtain x where x: "x \<in> fb_Name ` set cfgs" "x \<noteq> ''''" "sublist x name" by blast
      then have m: "m \<noteq> ''''" using mm(2) [OF x] by auto
      then have mi: "m \<in> fb_Name ` set cfgs" "sublist m name" using mm(1) by auto
      have "map_of t name = None" "map_of t m \<noteq> None" using False n mi(1) by auto
      then have "used_name iterate t name = m" using one [OF x(1,2)] ne unfolding used_name_def Let_def m_def [symmetric] by auto
      moreover have "length y \<le> length m" if "y \<in> fb_Name ` set cfgs" "sublist y name" for y using mm(2) that by (cases "y = ''''") auto
      ultimately show ?thesis unfolding serves_def Let_def if_not_P [OF False] if_P [OF True] using m mi by blast
    next
      case none: False
      then have "m = ''''" using mm(1) by blast
      moreover have "map_of t name = None" using n False by blast
      ultimately have "used_name iterate t name = ''''" by (simp add: used_name_def Let_def m_def [symmetric])
      then show ?thesis unfolding serves_def Let_def if_not_P [OF False] if_not_P [OF none] .
    qed
  qed
qed

lemma configured_entry: "configured cfgs n a p \<noteq> None \<Longrightarrow> has_entry cfgs n a"
  using configured_in [of cfgs n a p] by (auto simp: has_entry_def)

lemma table_specific:
  assumes "configured cfgs '''' '''' '''' \<noteq> None" and "\<forall>fb\<in>set cfgs. has_entry cfgs '''' (fb_Alpn fb)" and "has_name (build_fallbacks cfgs) n"
    and "b = (if has_alpn (build_fallbacks cfgs) n a then a else '''')"
  shows "look (build_fallbacks cfgs) n b p = first_some [configured cfgs n a p, configured cfgs n '''' p, configured cfgs '''' a p, configured cfgs '''' '''' p]"
proof -
  have shared: "has_entry cfgs x y \<Longrightarrow> has_entry cfgs '''' y" for x y using assms(2) by (auto simp: has_entry_def)
  have d: "has_entry cfgs '''' ''''" using configured_entry [OF assms(1)] .
  have h: "has_alpn (build_fallbacks cfgs) n x \<longleftrightarrow> has_entry cfgs '''' x" for x
    using assms(3) shared [of n x] by (auto simp: build_table)
  then have b: "has_entry cfgs '''' b" using assms(4) d by simp
  then have l: "look (build_fallbacks cfgs) n b p =
      first_some ([configured cfgs n b p, configured cfgs n '''' p] @ (if n \<noteq> '''' then [configured cfgs '''' b p, configured cfgs '''' '''' p] else []))"
    using h [of b] by (simp add: build_look table_entry_def build_table)
  show ?thesis
  proof (cases "has_entry cfgs '''' a")
    case True
    then show ?thesis using assms(4) h l by (cases "n = ''''") (auto split: option.splits)
  next
    case False
    then have "configured cfgs n a p = None" "configured cfgs '''' a p = None" using configured_entry shared by blast+
    moreover have "b = ''''" using False assms(4) h by simp
    ultimately show ?thesis using l by (cases "n = ''''") (auto split: option.splits)
  qed
qed

text \<open>
  C13. The fallback of a connection is the most specific entry of the configuration: if there is a fallback for any name, protocol and path, and every protocol that the
  configuration mentions has an entry for any name, then every connection finds a fallback, whatever its server name, its protocol and its first bytes are, and it is the most specific
  entry for the name that serves the server name, the protocol, and the path of the request, in whatever order Go walks over the map.
\<close>

theorem fallback_most_specific:
  assumes "\<forall>t. set (iterate t) = set t" and "configured cfgs '''' '''' '''' \<noteq> None" and "\<forall>fb\<in>set cfgs. has_entry cfgs '''' (fb_Alpn fb)" and "buf_wf first"
  shows "\<exists>n path fb. serves cfgs (ToLower realName) n \<and> request_path first (Len first) = Ok path \<and>
    choose_fallback iterate (build_fallbacks cfgs) realName realAlpn first (Len first) = Ok fb \<and> most_specific cfgs n (ToLower realAlpn) path = Some fb"
proof -
  let ?t = "build_fallbacks cfgs"
  define n where "n = used_name iterate ?t (ToLower realName)"
  define a where "a = (if has_alpn ?t n (ToLower realAlpn) then ToLower realAlpn else '''')"
  obtain path where path: "request_path first (Len first) = Ok path" using request_path_ok [OF assms(4)] by blast
  have e: "has_entry cfgs '''' ''''" using configured_entry [OF assms(2)] .
  have cov: "covered cfgs" using assms(2,3) by (simp add: covered_def list_all_iff)
  have nm: "has_name ?t x \<longleftrightarrow> x \<in> fb_Name ` set cfgs" for x by (auto simp: build_table)
  have nd: "has_name ?t ''''" using e by (auto simp: build_table has_entry_def)
  have na: "has_alpn ?t x ''''" if "has_name ?t x" for x using that e by (auto simp: build_table)
  from choose_looks [OF nd na covered_default [OF cov] path n_def a_def] obtain fb where
    fb: "has_name ?t n" "choose_fallback iterate ?t realName realAlpn first (Len first) = Ok fb" "look ?t n a (if look ?t n a path = None then '''' else path) = Some fb"
    by blast
  have s: "serves cfgs (ToLower realName) n" unfolding n_def using assms(1) nm nd by (intro used_name_serves) auto
  note t = table_specific [OF assms(2,3) fb(1) a_def]
  have "first_some (xs @ ys) = (if first_some xs = None then first_some ys else first_some xs)" for xs ys :: "fallback option list"
    by (induction xs) (auto split: option.splits)
  from this [of "[configured cfgs n (ToLower realAlpn) path, configured cfgs n '''' path, configured cfgs '''' (ToLower realAlpn) path, configured cfgs '''' '''' path]"
      "[configured cfgs n (ToLower realAlpn) '''', configured cfgs n '''' '''', configured cfgs '''' (ToLower realAlpn) '''', configured cfgs '''' '''' '''']"]
  have "most_specific cfgs n (ToLower realAlpn) path = (if look ?t n a path = None then look ?t n a '''' else look ?t n a path)"
    by (simp only: most_specific_def append.simps t)
  then have "most_specific cfgs n (ToLower realAlpn) path = Some fb" using fb(3) by (simp split: if_splits)
  with s path fb(2) show ?thesis by blast
qed

definition plain_fallback :: "string \<Rightarrow> string \<Rightarrow> string \<Rightarrow> string \<Rightarrow> fallback" where
  "plain_fallback n a p d = \<lparr>fb_Name = n, fb_Alpn = a, fb_Path = p, fb_Type = ''tcp'', fb_Dest = d, fb_Xver = 0\<rparr>"

definition sample_fallbacks :: "fallback list" where
  "sample_fallbacks = [plain_fallback '''' '''' '''' ''80'', plain_fallback '''' ''h2'' '''' ''81'', plain_fallback ''a.b'' '''' '''' ''82'']"

theorem fallback_most_specific_witness:
  "choose_fallback (\<lambda>t. t) (build_fallbacks sample_fallbacks) ''x.a.b'' ''h2'' (New []) (Len (New [])) = Ok (plain_fallback ''a.b'' '''' '''' ''82'')"
proof -
  have c: "configured sample_fallbacks '''' '''' '''' \<noteq> None" "\<forall>fb\<in>set sample_fallbacks. has_entry sample_fallbacks '''' (fb_Alpn fb)"
    by (simp_all add: sample_fallbacks_def configured_def has_entry_def plain_fallback_def)
  have w: "buf_wf (New [])" using New_wf [of "[]"] by simp
  from fallback_most_specific [OF _ c w, of "\<lambda>t. t" "''x.a.b''" "''h2''"] obtain n path fb where
    f: "serves sample_fallbacks (ToLower ''x.a.b'') n" "request_path (New []) (Len (New [])) = Ok path"
    "choose_fallback (\<lambda>t. t) (build_fallbacks sample_fallbacks) ''x.a.b'' ''h2'' (New []) (Len (New [])) = Ok fb"
    "most_specific sample_fallbacks n (ToLower ''h2'') path = Some fb" by auto
  have l: "ToLower ''x.a.b'' = ''x.a.b''" "ToLower ''h2'' = ''h2''" by code_simp+
  have "sublist ''a.b'' ''x.a.b''" by code_simp
  then have "n = ''a.b''" using f(1) by (auto simp: serves_def Let_def l sample_fallbacks_def plain_fallback_def split: if_splits)
  moreover have "path = ''''" using f(2) by (simp add: request_path_def New_def Len_def)
  ultimately have "fb = plain_fallback ''a.b'' '''' '''' ''82''"
    using f(4) by (simp add: l most_specific_def sample_fallbacks_def configured_def plain_fallback_def)
  with f(3) show ?thesis by simp
qed

text \<open>
  If there is a fallback for any name, protocol and path, and every protocol that a name mentions is covered, then every
  connection finds a fallback, whatever its first bytes, its server name and its protocol are.
\<close>

theorem fallback_total:
  assumes "covered cfgs" and "buf_wf first"
  shows "\<exists>fb. choose_fallback iterate (build_fallbacks cfgs) realName realAlpn first (Len first) = Ok fb \<and> fb \<in> set cfgs"
proof -
  obtain fb0 where "configured cfgs '''' '''' '''' = Some fb0" using assms(1) by (auto simp: covered_def)
  from configured_in [OF this] have e: "has_entry cfgs '''' ''''" "\<exists>fb\<in>set cfgs. fb_Name fb = ''''" by (auto simp: has_entry_def)
  have "\<exists>n a p fb. choose_fallback iterate (build_fallbacks cfgs) realName realAlpn first (Len first) = Ok fb \<and> look (build_fallbacks cfgs) n a p = Some fb"
    by (rule choose_found [OF _ _ covered_default [OF assms(1)] assms(2)]) (use e in \<open>auto simp: build_table\<close>)
  then show ?thesis using entry_in by (auto simp: build_look)
qed

theorem fallback_total_witness:
  "\<exists>fb. choose_fallback (\<lambda>t. t) (build_fallbacks [plain_fallback '''' '''' '''' ''80'', plain_fallback ''a.b'' '''' ''/ws'' ''81'']) ''x.a.b'' ''h2'' (New []) (Len (New [])) = Ok fb \<and>
     fb \<in> {plain_fallback '''' '''' '''' ''80'', plain_fallback ''a.b'' '''' ''/ws'' ''81''}"
proof -
  have "covered [plain_fallback '''' '''' '''' ''80'', plain_fallback ''a.b'' '''' ''/ws'' ''81'']" by (simp add: covered_def configured_def has_entry_def plain_fallback_def)
  from fallback_total [OF this, of "New []" "\<lambda>t. t" "''x.a.b''" "''h2''"] show ?thesis using New_wf [of "[]"] by auto
qed

text \<open>
  Without that condition the default for any name is not always reached: a protocol that only a name mentions, and only
  with a path, has no default path, although the configuration has a fallback for everything.
\<close>

theorem fallback_default_missed:
  "choose_fallback (\<lambda>t. t) (build_fallbacks [plain_fallback '''' '''' '''' ''80'', plain_fallback ''a.b'' ''http/1.1'' ''/ws'' ''81'']) ''a.b'' ''http/1.1''
     (New []) 0 = Err (ErrMsg ''failed to find the default path config'')"
  by code_simp

end
