(* ===== verification/Xudp.thy ===== *)
theory Xudp
  imports MuxWriter WireBuf
begin

text \<open>
  XUDP (\<open>common/xudp/xudp.go\<close>): UDP packets as frames of one mux session without a mux client.  The first packet opens the
  session with its global identifier; the reader takes the answers.
\<close>

section \<open>Writing\<close>

record xudp_writer =
  xw_Dest :: destination
  xw_GlobalID :: bytes

definition NewXudpWriter :: "destination \<Rightarrow> bytes \<Rightarrow> xudp_writer" where
  "NewXudpWriter dest globalID = \<lparr>xw_Dest = dest, xw_GlobalID = globalID\<rparr>"

text \<open>The errors of the writes into the frame buffer are ignored.\<close>

definition add_byte :: "buffer \<Rightarrow> byte \<Rightarrow> buffer res" where
  "add_byte b x = (case WriteByte b x of Err e \<Rightarrow> Ok b | r \<Rightarrow> r)"

fun add_bytes :: "buffer \<Rightarrow> byte list \<Rightarrow> buffer res" where
  "add_bytes b [] = Ok b"
| "add_bytes b (x # xs) = rbind (add_byte b x) (\<lambda>b. add_bytes b xs)"

definition add_all :: "buffer \<Rightarrow> bytes \<Rightarrow> buffer res" where
  "add_all b bs = rmap fst (Write b bs)"

definition add_address :: "buffer \<Rightarrow> destination \<Rightarrow> buffer res" where
  "add_address b d = rmap fst (write_addr_opt b (dest_Address d) (dest_Port d))"

definition xudp_meta :: "xudp_writer \<Rightarrow> destination option \<Rightarrow> buffer \<Rightarrow> (xudp_writer \<times> buffer) res" where
  "xudp_meta w udp eb =
     (if dest_Network (xw_Dest w) = Network_UDP then
        rbind (add_bytes eb [1, 1, 2]) (\<lambda>eb.
        rbind (add_address eb (xw_Dest w)) (\<lambda>eb.
        rmap (\<lambda>eb. (w\<lparr>xw_Dest := (xw_Dest w)\<lparr>dest_Network := Network_Unknown\<rparr>\<rparr>, eb))
          (if udp \<noteq> None then add_all eb (xw_GlobalID w) else Ok eb)))
      else
        rbind (add_bytes eb [2, 1]) (\<lambda>eb.
        rmap (\<lambda>eb. (w, eb))
          (case udp of None \<Rightarrow> Ok eb | Some d \<Rightarrow> rbind (add_bytes eb [2]) (\<lambda>eb. add_address eb d))))"

definition xudp_frame :: "bytes \<Rightarrow> xudp_writer \<Rightarrow> buffer \<Rightarrow> (xudp_writer \<times> buffer option) res" where
  "xudp_frame fresh w b =
     (let len = Len b in
      if len = 0 \<or> i32 (len + 666) > Size then Ok (w, None)
      else
        rbind (add_all (New fresh) [0, 0, 0, 0]) (\<lambda>eb.
        rbind (xudp_meta w (buf_UDP b) eb) (\<lambda>(w, eb).
        let l = i32 (Len eb - 2) in
        rbind (SetByte eb 0 (word_of_int (l div 256))) (\<lambda>eb.
        rbind (SetByte eb 1 (word_of_int l)) (\<lambda>eb.
        rbind (add_bytes eb [word_of_int (len div 256), word_of_int len]) (\<lambda>eb.
        rbind (Bytes b) (\<lambda>bs.
        rmap (\<lambda>eb. (w, Some eb)) (add_all eb bs))))))))"

fun xudp_frames :: "(nat \<Rightarrow> bytes) \<Rightarrow> nat \<Rightarrow> xudp_writer \<Rightarrow> multi_buffer \<Rightarrow> (xudp_writer \<times> multi_buffer) res" where
  "xudp_frames pool k w [] = Ok (w, [])"
| "xudp_frames pool k w (b # mb) =
     rbind (xudp_frame (pool k) w b) (\<lambda>(w, f).
     rmap (\<lambda>(w, out). (w, case f of None \<Rightarrow> out | Some eb \<Rightarrow> eb # out)) (xudp_frames pool (Suc k) w mb))"

definition xudp_WriteMultiBuffer :: "(nat \<Rightarrow> bytes) \<Rightarrow> xudp_writer \<Rightarrow> multi_buffer \<Rightarrow> (xudp_writer \<times> multi_buffer option) res" where
  "xudp_WriteMultiBuffer pool w mb = rmap (\<lambda>(w, out). (w, if mb_IsEmpty out then None else Some out)) (xudp_frames pool 0 w mb)"

section \<open>Reading\<close>

text \<open>
  The frame in the buffer.  \<open>Clear\<close> only moves the bounds: the option byte is still in the array and is
  read from there.
\<close>

definition frame_target :: "bytes \<Rightarrow> int \<Rightarrow> buffer \<Rightarrow> (bool \<times> destination option) res" where
  "frame_target fresh l b =
     rbind (buf_Byte b 2) (\<lambda>status.
       if status = 2 then
         rbind (if l > 4 then rmap (\<lambda>x. x = 2) (buf_Byte b 4) else Ok False) (\<lambda>udp.
           if udp then
             rbind (Bytes (Advance b 5)) (\<lambda>body.
             rmap (\<lambda>(addr, port). (False, Some \<lparr>dest_Address = addr, dest_Port = port, dest_Network = Network_UDP\<rparr>))
               (snd (ReadAddressPort addrParser fresh None (stream_of body))))
           else Ok (False, None))
       else if status = 4 then Ok (True, None)
       else Err EOF)"

definition length_of :: "bytes \<Rightarrow> int" where
  "length_of bs = uint (bs ! 0) * 256 + uint (bs ! 1)"

lemma read_full_shorter: "(bs, None, s') = read_full n s \<Longrightarrow> length (pending s') = length (pending s) - n \<and> n \<le> length (pending s)"
  by (auto simp: read_full_def split: if_splits)

lemma ReadFullFrom_shorter: "ReadFullFrom b s l = Ok (b', n, None, s') \<Longrightarrow> length (pending s') \<le> length (pending s)"
  by (auto simp: ReadFullFrom_def Let_def rmap_Ok_iff read_full_def split: if_splits prod.splits)

function xudp_ReadMultiBuffer :: "(nat \<Rightarrow> bytes) \<Rightarrow> (nat \<Rightarrow> bytes) \<Rightarrow> nat \<Rightarrow> stream \<Rightarrow> stream \<times> multi_buffer res" where
  "xudp_ReadMultiBuffer pool pool' k s =
     (case read_full 2 s of
        (bs, Some e, s) \<Rightarrow> (s, Err e)
      | (bs, None, s1) \<Rightarrow>
          (let l = length_of bs in
           if l < 4 then (s1, Err EOF)
           else
             (case ReadFullFrom (New (pool k)) s1 l of
                Err e \<Rightarrow> (s1, Err e)
              | Panic p \<Rightarrow> (s1, Panic p)
              | Ok (b, n, Some e, s2) \<Rightarrow> (s2, Err e)
              | Ok (b, n, None, s2) \<Rightarrow>
                     (case frame_target (pool' k) l b of
                        Err e \<Rightarrow> (s2, Err e)
                      | Panic p \<Rightarrow> (s2, Panic p)
                      | Ok (discard, udp) \<Rightarrow>
                          (let b = Clear (b\<lparr>buf_UDP := udp\<rparr>) in
                           case buf_Byte b 3 of
                             Err e \<Rightarrow> (s2, Err e)
                           | Panic p \<Rightarrow> (s2, Panic p)
                           | Ok opt \<Rightarrow>
                               (if opt = 1 then
                                  (case read_full 2 s2 of
                                     (bs, Some e, s3) \<Rightarrow> (s3, Err e)
                                   | (bs, None, s3) \<Rightarrow>
                                       (let len = length_of bs in
                                        if len > 0 then
                                          (case ReadFullFrom b s3 len of
                                             Err e \<Rightarrow> (s3, Err e)
                                           | Panic p \<Rightarrow> (s3, Panic p)
                                           | Ok (b, n, Some e, s4) \<Rightarrow> (s4, Err e)
                                           | Ok (b, n, None, s4) \<Rightarrow>
                                               if discard then xudp_ReadMultiBuffer pool pool' (Suc k) s4 else (s4, Ok [b]))
                                        else xudp_ReadMultiBuffer pool pool' (Suc k) s3))
                                else xudp_ReadMultiBuffer pool pool' (Suc k) s2))))))"
  by pat_completeness auto

termination
  by (relation "measure (\<lambda>(pool, pool', k, s). length (pending s))") (auto dest!: read_full_shorter ReadFullFrom_shorter)

declare xudp_ReadMultiBuffer.simps [simp del]

section \<open>XUDP frames are mux frames\<close>

lemma put_u16_nat:
  assumes "n < 65536"
  shows "put_u16 (word_of_nat n) = [word_of_nat (n div 256), word_of_nat n]"
proof -
  have "unat (word_of_nat n :: u16) = n" using assms by (simp add: unat_of_nat)
  then have "unat (drop_bit 8 (word_of_nat n :: u16)) = n div 256" by (simp add: drop_bit_eq_div unat_div)
  then have "(ucast (drop_bit 8 (word_of_nat n :: u16)) :: byte) = word_of_nat (n div 256)" by (metis of_nat_unat)
  moreover have "(ucast (word_of_nat n :: u16) :: byte) = word_of_nat n" using \<open>unat (word_of_nat n :: u16) = n\<close> by (metis of_nat_unat)
  ultimately show ?thesis by (simp add: put_u16_def)
qed

lemma word_of_len: "(word_of_int (int n div 256) :: byte) = word_of_nat (n div 256)" "(word_of_int (int n) :: byte) = word_of_nat n"
  by (metis of_int_of_nat_eq zdiv_int of_nat_numeral) simp

lemma length_of_put: "n < 65536 \<Longrightarrow> length_of (put_u16 (word_of_nat n)) = int n"
proof -
  assume n: "n < 65536"
  then have "int (n div 256) mod 256 = int (n div 256)" by (intro mod_pos_pos_trivial) auto
  then show ?thesis using n by (simp add: put_u16_nat length_of_def uint_nat unat_of_nat zmod_int zdiv_int)
qed

lemma New_array: "\<exists>a. buf_v (New fresh) = Mk_slice a 8192 \<and> 8192 \<le> length a"
  by (simp add: New_def Size_def)

lemma built_array:
  assumes "length bs \<le> 8192"
  shows "\<exists>a. 8192 \<le> length a \<and> built fresh bs = (New fresh)\<lparr>buf_v := Mk_slice (bs @ drop (length bs) a) 8192, buf_end := int (length bs)\<rparr>"
proof -
  obtain a where "buf_v (New fresh) = Mk_slice a 8192" "8192 \<le> length a" using New_array by blast
  moreover have "buf_end (New fresh) = 0" by (simp add: New_def)
  ultimately show ?thesis using assms by (intro exI [of _ a]) (simp add: built_def append_at_end_def overwrite_def)
qed

lemma SetByte_built:
  assumes "length bs \<le> 8192" and "i < length bs"
  shows "SetByte (built fresh bs) (int i) x = Ok (built fresh (bs[i := x]))"
proof -
  obtain a where a: "8192 \<le> length a" "buf_v (New fresh) = Mk_slice a 8192" using New_array by blast
  have e: "buf_end (New fresh) = 0" "buf_start (New fresh) = 0" by (simp_all add: New_def)
  then show ?thesis
    using a assms by (simp add: SetByte_def built_def append_at_end_def overwrite_def slice_set_def list_update_append1)
qed

lemma Clear_Byte:
  assumes "length bs \<le> 8192" and "i < length bs"
  shows "buf_Byte (Clear ((built fresh bs)\<lparr>buf_UDP := u\<rparr>)) (int i) = Ok (bs ! i)"
proof -
  obtain a where a: "8192 \<le> length a" "buf_v (New fresh) = Mk_slice a 8192" using New_array by blast
  have e: "buf_end (New fresh) = 0" by (simp add: New_def)
  then show ?thesis
    using a assms by (simp add: buf_Byte_def Clear_def built_def append_at_end_def overwrite_def slice_get_def nth_append)
qed

lemma add_bytes_built:
  assumes fresh: "length fresh < 2147483648"
  shows "length bs + length xs \<le> 8192 \<Longrightarrow> add_bytes (built fresh bs) xs = Ok (built fresh (bs @ xs))"
proof (induction xs arbitrary: bs)
  case (Cons x xs)
  then show ?case using built_WriteByte [OF fresh, of bs x] by (simp add: add_byte_def)
qed simp

lemma add_all_built: "length fresh < 2147483648 \<Longrightarrow> length bs + length xs \<le> 8192 \<Longrightarrow> add_all (built fresh bs) xs = Ok (built fresh (bs @ xs))"
  using built_Write [of fresh bs xs] by (simp add: add_all_def)

lemma add_address_built:
  assumes "addr_ok (dest_Address d)" and "length bs \<le> 7000" and fresh: "length fresh < 2147483648"
  shows "add_address (built fresh bs) d = Ok (built fresh (bs @ enc_target (dest_Address d) (dest_Port d)))"
  using write_addr_opt_append [OF assms(1), of "built fresh bs" "dest_Port d"] built_wf [OF fresh, of bs] assms(2)
    built_append [OF fresh, of bs "enc_target (dest_Address d) (dest_Port d)"] enc_target_length [OF assms(1), of "dest_Port d"]
  by (simp add: add_address_def)

text \<open>The metadata of a packet and the frame with it.\<close>

definition packet_meta :: "xudp_writer \<Rightarrow> FrameMetadata" where
  "packet_meta w = \<lparr>fm_Target = xw_Dest w, fm_SessionID = 0, fm_Option = OptionData,
     fm_SessionStatus = (if dest_Network (xw_Dest w) = Network_UDP then SessionStatusNew else SessionStatusKeep), fm_GlobalID = xw_GlobalID w\<rparr>"

definition packet_frame :: "xudp_writer \<Rightarrow> buffer \<Rightarrow> bytes" where
  "packet_frame w b = frame_bytes (packet_meta w) (buf_UDP b) @ put_u16 (word_of_nat (length (content b))) @ content b"

definition opened :: "xudp_writer \<Rightarrow> xudp_writer" where
  "opened w = (if dest_Network (xw_Dest w) = Network_UDP then w\<lparr>xw_Dest := (xw_Dest w)\<lparr>dest_Network := Network_Unknown\<rparr>\<rparr> else w)"

definition xudp_fits :: "bytes \<Rightarrow> bool" where
  "xudp_fits d \<longleftrightarrow> d \<noteq> [] \<and> length d \<le> 7526"

lemma put_u16_0: "put_u16 0 = [0, 0]"
  by (simp add: put_u16_def)

lemma xudp_meta_built:
  assumes "frame_ok (packet_meta w) udp" and "length fresh < 2147483648"
  shows "xudp_meta w udp (built fresh [0, 0, 0, 0]) = Ok (opened w, built fresh ([0, 0] @ meta_bytes (packet_meta w) udp))"
proof (cases "dest_Network (xw_Dest w) = Network_UDP")
  case True
  let ?d = "xw_Dest w" let ?e = "enc_target (dest_Address ?d) (dest_Port ?d)"
  have ok: "addr_ok (dest_Address ?d)" "length (xw_GlobalID w) = 8" using assms(1) True by (auto simp: frame_ok_def packet_meta_def)
  have l: "length ?e \<le> 259" by (rule enc_target_length [OF ok(1)])
  have "add_bytes (built fresh [0, 0, 0, 0]) [1, 1, 2] = Ok (built fresh [0, 0, 0, 0, 1, 1, 2])" using add_bytes_built [OF assms(2), of "[0, 0, 0, 0]" "[1, 1, 2]"] by simp
  moreover have "add_address (built fresh [0, 0, 0, 0, 1, 1, 2]) ?d = Ok (built fresh ([0, 0, 0, 0, 1, 1, 2] @ ?e))"
    using add_address_built [OF ok(1) _ assms(2), of "[0, 0, 0, 0, 1, 1, 2]"] by simp
  moreover have "add_all (built fresh ([0, 0, 0, 0, 1, 1, 2] @ ?e)) (xw_GlobalID w) = Ok (built fresh ([0, 0, 0, 0, 1, 1, 2] @ ?e @ xw_GlobalID w))"
    using add_all_built [OF assms(2), of "[0, 0, 0, 0, 1, 1, 2] @ ?e" "xw_GlobalID w"] l ok(2) by simp
  ultimately show ?thesis
    using True by (simp add: xudp_meta_def opened_def meta_bytes_def target_bytes_def packet_meta_def put_u16_0 network_byte_def SessionStatusNew_def OptionData_def TargetNetworkUDP_def)
next
  case False
  have b: "add_bytes (built fresh [0, 0, 0, 0]) [2, 1] = Ok (built fresh [0, 0, 0, 0, 2, 1])" using add_bytes_built [OF assms(2), of "[0, 0, 0, 0]" "[2, 1]"] by simp
  have m: "meta_bytes (packet_meta w) udp = [0, 0, 2, 1] @ (case udp of None \<Rightarrow> [] | Some d \<Rightarrow> 2 # enc_target (dest_Address d) (dest_Port d))"
    using False by (simp add: meta_bytes_def target_bytes_def packet_meta_def put_u16_0 SessionStatusNew_def SessionStatusKeep_def OptionData_def TargetNetworkUDP_def split: option.splits)
  show ?thesis
  proof (cases udp)
    case None
    then show ?thesis using False b m by (simp add: xudp_meta_def opened_def)
  next
    case (Some d)
    have ok: "addr_ok (dest_Address d)" using assms(1) False Some by (simp add: frame_ok_def packet_meta_def SessionStatusNew_def SessionStatusKeep_def)
    have "add_bytes (built fresh [0, 0, 0, 0, 2, 1]) [2] = Ok (built fresh [0, 0, 0, 0, 2, 1, 2])" using add_bytes_built [OF assms(2), of "[0, 0, 0, 0, 2, 1]" "[2]"] by simp
    moreover have "add_address (built fresh [0, 0, 0, 0, 2, 1, 2]) d = Ok (built fresh ([0, 0, 0, 0, 2, 1, 2] @ enc_target (dest_Address d) (dest_Port d)))"
      using add_address_built [OF ok _ assms(2), of "[0, 0, 0, 0, 2, 1, 2]"] by simp
    ultimately show ?thesis using False Some b m by (simp add: xudp_meta_def opened_def del: add_bytes.simps)
  qed
qed

lemma xudp_frame_built:
  assumes "frame_ok (packet_meta w) (buf_UDP b)" and "length fresh < 2147483648" and "buf_wf b" and "xudp_fits (content b)"
  shows "xudp_frame fresh w b = Ok (opened w, Some (built fresh (packet_frame w b)))" and "length (packet_frame w b) \<le> 8192"
proof -
  let ?m = "meta_bytes (packet_meta w) (buf_UDP b)" let ?n = "length ?m" let ?p = "content b" let ?k = "length ?p"
  have m: "?n \<le> 272" "4 \<le> ?n" using target_bytes_length [OF assms(1)] by (simp_all add: meta_bytes_def)
  have k: "Len b = int ?k" "?k \<noteq> 0" "?k \<le> 7526" using Len_content [OF assms(3)] assms(4) by (auto simp: xudp_fits_def)
  have c: "\<not> (Len b = 0 \<or> i32 (Len b + 666) > Size)" using k by (simp add: Size_def)
  have s0: "add_all (New fresh) [0, 0, 0, 0] = Ok (built fresh [0, 0, 0, 0])" using add_all_built [OF assms(2), of "[]" "[0, 0, 0, 0]"] built_Nil [OF assms(2)] by simp
  note s1 = xudp_meta_built [OF assms(1,2)]
  have l: "i32 (Len (built fresh ([0, 0] @ ?m)) - 2) = int ?n" using Len_content built_wf [OF assms(2), of "[0, 0] @ ?m"] m(1) by simp
  have s2: "SetByte (built fresh ([0, 0] @ ?m)) 0 x = Ok (built fresh ([x, 0] @ ?m))" for x using SetByte_built [of "[0, 0] @ ?m" 0 fresh x] m(1) by simp
  have s3: "SetByte (built fresh ([x, 0] @ ?m)) 1 y = Ok (built fresh ([x, y] @ ?m))" for x y using SetByte_built [of "[x, 0] @ ?m" 1 fresh y] m(1) by simp
  have p: "put_u16 (word_of_nat ?n) = [word_of_nat (?n div 256), word_of_nat ?n]" "put_u16 (word_of_nat ?k) = [word_of_nat (?k div 256), word_of_nat ?k]"
    using m(1) k(3) by (simp_all add: put_u16_nat)
  let ?f = "put_u16 (word_of_nat ?n) @ ?m"
  have s4: "add_bytes (built fresh ?f) [word_of_nat (?k div 256), word_of_nat ?k] = Ok (built fresh (?f @ put_u16 (word_of_nat ?k)))"
    unfolding p(2) using add_bytes_built [OF assms(2), of ?f "[word_of_nat (?k div 256), word_of_nat ?k]"] m(1) by (simp del: add_bytes.simps)
  have s5: "add_all (built fresh (?f @ put_u16 (word_of_nat ?k))) ?p = Ok (built fresh (packet_frame w b))"
    using add_all_built [OF assms(2), of "?f @ put_u16 (word_of_nat ?k)" ?p] m(1) k(3) by (simp add: packet_frame_def frame_bytes_def)
  show "xudp_frame fresh w b = Ok (opened w, Some (built fresh (packet_frame w b)))"
    using c s0 s1 l s2 s3 s4 s5 p(1) k(1) assms(3) by (simp add: xudp_frame_def Let_def word_of_len del: add_bytes.simps)
  show "length (packet_frame w b) \<le> 8192" using m(1) k(3) by (simp add: packet_frame_def frame_bytes_def)
qed

fun packet_frames :: "xudp_writer \<Rightarrow> buffer list \<Rightarrow> bytes" where
  "packet_frames w [] = []"
| "packet_frames w (b # bs) = packet_frame w b @ packet_frames (opened w) bs"

text \<open>Packets that the writer can address, before and after the session is open.\<close>

definition addressed :: "xudp_writer \<Rightarrow> buffer \<Rightarrow> bool" where
  "addressed w b \<longleftrightarrow> buf_wf b \<and> length (content b) < 2147482000 \<and> frame_ok (packet_meta w) (buf_UDP b) \<and> frame_ok (packet_meta (opened w)) (buf_UDP b)"

lemma opened_idem [simp]: "opened (opened w) = opened w"
  by (simp add: opened_def)

lemma xudp_frame_skip: "buf_wf b \<Longrightarrow> length (content b) < 2147482000 \<Longrightarrow> \<not> xudp_fits (content b) \<Longrightarrow> xudp_frame fresh w b = Ok (w, None)"
  using Len_content [of b] by (auto simp: xudp_frame_def xudp_fits_def Size_def Let_def)

lemma xudp_frames_bytes:
  assumes "pool_ok pool"
  shows "list_all (addressed w) mb \<Longrightarrow>
    \<exists>w' out. xudp_frames pool k w mb = Ok (w', out) \<and> mb_wf out \<and> mb_content out = packet_frames w (filter (\<lambda>b. xudp_fits (content b)) mb)"
proof (induction mb arbitrary: k w)
  case (Cons b mb)
  have b: "buf_wf b" "length (content b) < 2147482000" "frame_ok (packet_meta w) (buf_UDP b)" and a: "addressed w b" using Cons.prems by (auto simp: addressed_def)
  have p: "length (pool k) < 2147483648" using assms by (simp add: pool_ok_def)
  show ?case
  proof (cases "xudp_fits (content b)")
    case True
    have "list_all (addressed (opened w)) mb" using Cons.prems by (auto simp: list_all_iff addressed_def)
    from Cons.IH [OF this, of "Suc k"] obtain w' out where o: "xudp_frames pool (Suc k) (opened w) mb = Ok (w', out)" "mb_wf out"
      "mb_content out = packet_frames (opened w) (filter (\<lambda>b. xudp_fits (content b)) mb)" by blast
    note f = xudp_frame_built [OF b(3) p b(1) True]
    have "buf_wf (built (pool k) (packet_frame w b))" "content (built (pool k) (packet_frame w b)) = packet_frame w b" using built_wf [OF p f(2)] by simp_all
    then show ?thesis using f(1) o True by simp
  next
    case False
    then show ?thesis using Cons.IH [of w "Suc k"] Cons.prems xudp_frame_skip [OF b(1,2) False, of "pool k" w] by auto
  qed
qed simp

section \<open>Reading the answers\<close>

definition alive_frame :: "bytes \<Rightarrow> bytes" where
  "alive_frame d = put_u16 4 @ [0, 0, 4, if d = [] then 0 else 1] @ (if d = [] then [] else put_u16 (word_of_nat (length d)) @ d)"

lemma New_built:
  assumes "length fresh < 2147483648" and "length m \<le> 8192" and "n = int (length m)"
  shows "ReadFullFrom (New fresh) \<lparr>pending = m @ rest, ending = e\<rparr> n = Ok (built fresh m, length m, None, \<lparr>pending = rest, ending = e\<rparr>)"
  unfolding built_def using New_wf [OF assms(1)] assms(2,3) by (intro ReadFullFrom_stream) simp_all

lemma cleared_read:
  assumes "length fresh < 2147483648" and "length m \<le> 8192" and "length d \<le> 8192" and "n = int (length d)"
  shows "\<exists>b. ReadFullFrom (Clear ((built fresh m)\<lparr>buf_UDP := u\<rparr>)) \<lparr>pending = d @ rest, ending = e\<rparr> n = Ok (b, length d, None, \<lparr>pending = rest, ending = e\<rparr>) \<and>
    content b = d \<and> buf_UDP b = u"
proof -
  let ?b = "Clear ((built fresh m)\<lparr>buf_UDP := u\<rparr>)"
  have "scratch (built fresh m)" using loaded_scratch(1) [OF scratch_New [OF assms(1)] assms(2)] by (simp add: loaded_def built_def)
  then have b: "buf_wf ?b" "room ?b = 8192" "content ?b = []"
    using Clear_scratch [of "built fresh m"] Clear_content [of "built fresh m"] by (simp_all add: buf_wf_def room_def content_def Clear_def)
  have "ReadFullFrom ?b \<lparr>pending = d @ rest, ending = e\<rparr> n = Ok (append_at_end ?b d, length d, None, \<lparr>pending = rest, ending = e\<rparr>)"
    using b assms(3,4) by (intro ReadFullFrom_stream) simp_all
  then show ?thesis using append_at_end_content [OF b(1), of d] b(2,3) assms(3) by (auto simp: Clear_def)
qed

lemma read_head:
  assumes "length m < 65536"
  shows "read_full 2 \<lparr>pending = put_u16 (word_of_nat (length m)) @ m @ rest, ending = e\<rparr> = (put_u16 (word_of_nat (length m)), None, \<lparr>pending = m @ rest, ending = e\<rparr>)"
    and "length_of (put_u16 (word_of_nat (length m))) = int (length m)"
  by simp (rule length_of_put [OF assms])


lemma built_Byte:
  assumes "length fresh < 2147483648" and "length m \<le> 8192" and "i < length m"
  shows "buf_Byte (built fresh m) (int i) = Ok (m ! i)"
  using buf_Byte_content [of "built fresh m" "int i"] built_wf [OF assms(1,2)] assms(3) by (simp add: Len_content)

lemma xudp_read_alive:
  assumes "pool_ok pool" and "length d \<le> 8192"
  shows "xudp_ReadMultiBuffer pool pool' k \<lparr>pending = alive_frame d @ rest, ending = e\<rparr> = xudp_ReadMultiBuffer pool pool' (Suc k) \<lparr>pending = rest, ending = e\<rparr>"
proof -
  let ?o = "if d = [] then 0 else 1 :: byte" let ?m = "[0, 0, 4, ?o]" let ?b = "built (pool k) ?m"
  let ?r = "(if d = [] then [] else put_u16 (word_of_nat (length d)) @ d) @ rest"
  have f: "length (pool k) < 2147483648" using assms(1) by (simp add: pool_ok_def)
  have h: "read_full 2 \<lparr>pending = put_u16 4 @ ?m @ ?r, ending = e\<rparr> = (put_u16 4, None, \<lparr>pending = ?m @ ?r, ending = e\<rparr>)" "length_of (put_u16 4) = 4"
    using read_head(1) [of ?m ?r e] read_head(2) [of ?m] by simp_all
  have b: "ReadFullFrom (New (pool k)) \<lparr>pending = ?m @ ?r, ending = e\<rparr> 4 = Ok (?b, 4, None, \<lparr>pending = ?r, ending = e\<rparr>)"
    using New_built [OF f, of ?m 4 ?r e] by simp
  have t: "frame_target (pool' k) 4 ?b = Ok (True, None)" using built_Byte [OF f, of ?m 2] by (simp add: frame_target_def)
  have o: "buf_Byte (Clear (?b\<lparr>buf_UDP := None\<rparr>)) 3 = Ok ?o" using Clear_Byte [of ?m 3 None "pool k"] by simp
  have a: "alive_frame d @ rest = put_u16 4 @ ?m @ ?r" by (simp add: alive_frame_def)
  show ?thesis
  proof (cases "d = []")
    case True
    then show ?thesis unfolding a by (subst xudp_ReadMultiBuffer.simps) (use h b t o in \<open>simp add: Let_def\<close>)
  next
    case False
    have l: "read_full 2 \<lparr>pending = put_u16 (word_of_nat (length d)) @ d @ rest, ending = e\<rparr> = (put_u16 (word_of_nat (length d)), None, \<lparr>pending = d @ rest, ending = e\<rparr>)"
      "length_of (put_u16 (word_of_nat (length d))) = int (length d)"
      using read_head(1) [of d rest e] read_head(2) [of d] assms(2) by simp_all
    obtain b' where "ReadFullFrom (Clear (?b\<lparr>buf_UDP := None\<rparr>)) \<lparr>pending = d @ rest, ending = e\<rparr> (int (length d)) = Ok (b', length d, None, \<lparr>pending = rest, ending = e\<rparr>)"
      using cleared_read [OF f _ assms(2) refl, of ?m None rest e] by auto
    then show ?thesis unfolding a by (subst xudp_ReadMultiBuffer.simps) (use h b t o l False in \<open>simp add: Let_def\<close>)
  qed
qed

lemma xudp_read_packet:
  assumes "pool_ok pool" and "pool_ok pool'" and "dest_Network (xw_Dest w) \<noteq> Network_UDP" and "frame_ok (packet_meta w) (buf_UDP p)"
    and "content p \<noteq> []" and "length (content p) \<le> 8192"
  shows "\<exists>b. xudp_ReadMultiBuffer pool pool' k \<lparr>pending = packet_frame w p @ rest, ending = e\<rparr> = (\<lparr>pending = rest, ending = e\<rparr>, Ok [b]) \<and> content b = content p \<and>
    buf_UDP b = map_option (\<lambda>d. d\<lparr>dest_Network := Network_UDP\<rparr>) (buf_UDP p)"
proof -
  let ?m = "meta_bytes (packet_meta w) (buf_UDP p)" let ?d = "content p" let ?b = "built (pool k) ?m"
  let ?u = "map_option (\<lambda>d. d\<lparr>dest_Network := Network_UDP\<rparr>) (buf_UDP p)"
  have f: "length (pool k) < 2147483648" "length (pool' k) < 2147483648" using assms(1,2) by (simp_all add: pool_ok_def)
  have m: "?m = [0, 0, 2, 1] @ (case buf_UDP p of None \<Rightarrow> [] | Some d \<Rightarrow> 2 # enc_target (dest_Address d) (dest_Port d))"
    using assms(3) by (simp add: meta_bytes_def target_bytes_def packet_meta_def put_u16_0 SessionStatusNew_def SessionStatusKeep_def OptionData_def TargetNetworkUDP_def split: option.splits)
  have l: "4 \<le> length ?m" "length ?m \<le> 272" using target_bytes_length [OF assms(4)] by (simp_all add: meta_bytes_def)
  let ?r = "put_u16 (word_of_nat (length ?d)) @ ?d @ rest"
  have h: "read_full 2 \<lparr>pending = put_u16 (word_of_nat (length ?m)) @ ?m @ ?r, ending = e\<rparr> = (put_u16 (word_of_nat (length ?m)), None, \<lparr>pending = ?m @ ?r, ending = e\<rparr>)"
    "length_of (put_u16 (word_of_nat (length ?m))) = int (length ?m)" using read_head(1) [of ?m ?r e] read_head(2) [of ?m] l(2) by simp_all
  have h2: "read_full 2 \<lparr>pending = ?r, ending = e\<rparr> = (put_u16 (word_of_nat (length ?d)), None, \<lparr>pending = ?d @ rest, ending = e\<rparr>)"
    "length_of (put_u16 (word_of_nat (length ?d))) = int (length ?d)" using read_head(1) [of ?d rest e] read_head(2) [of ?d] assms(6) by simp_all
  have b: "ReadFullFrom (New (pool k)) \<lparr>pending = ?m @ ?r, ending = e\<rparr> (int (length ?m)) = Ok (?b, length ?m, None, \<lparr>pending = ?r, ending = e\<rparr>)"
    using l(2) by (intro New_built [OF f(1)]) simp_all
  have o: "buf_Byte (Clear (?b\<lparr>buf_UDP := u\<rparr>)) 3 = Ok 1" for u using Clear_Byte [of ?m 3 u "pool k"] l m by simp
  have st: "buf_Byte ?b 2 = Ok 2" using built_Byte [OF f(1), of ?m 2] l m by simp
  have t: "frame_target (pool' k) (int (length ?m)) ?b = Ok (False, ?u)"
  proof (cases "buf_UDP p")
    case None
    then have "length ?m = 4" using m by simp
    then show ?thesis using st None by (simp add: frame_target_def)
  next
    case (Some d)
    let ?e = "enc_target (dest_Address d) (dest_Port d)"
    have ok: "addr_ok (dest_Address d)" using assms(3,4) Some by (simp add: frame_ok_def packet_meta_def SessionStatusNew_def SessionStatusKeep_def)
    have m': "?m = [0, 0, 2, 1, 2] @ ?e" using m Some by simp
    have w: "buf_wf ?b" "content ?b = ?m" using built_wf [OF f(1), of ?m] l(2) by simp_all
    have "buf_Byte ?b 4 = Ok 2" using built_Byte [OF f(1), of ?m 4] l(2) m' by simp
    moreover have "Bytes (Advance ?b 5) = Ok ?e"
      using Advance_content [OF w(1), of 5] advance_start_content [OF w(1), of 5] Len_content [OF w(1)] w(2) m' by simp
    moreover have "snd (ReadAddressPort addrParser (pool' k) None (stream_of ?e)) = Ok (dest_Address d, dest_Port d)"
      using read_target [OF ok f(2), of "dest_Port d" "[]"] by simp
    moreover have "d\<lparr>dest_Network := Network_UDP\<rparr> = \<lparr>dest_Address = dest_Address d, dest_Port = dest_Port d, dest_Network = Network_UDP\<rparr>" by simp
    ultimately show ?thesis using st Some m' by (simp add: frame_target_def)
  qed
  have m8: "length ?m \<le> 8192" using l(2) by simp
  obtain b' where b': "ReadFullFrom (Clear (?b\<lparr>buf_UDP := ?u\<rparr>)) \<lparr>pending = ?d @ rest, ending = e\<rparr> (int (length ?d)) = Ok (b', length ?d, None, \<lparr>pending = rest, ending = e\<rparr>)"
    "content b' = ?d" "buf_UDP b' = ?u" using cleared_read [OF f(1) m8 assms(6) refl, of ?u rest e] by blast
  have a: "packet_frame w p @ rest = put_u16 (word_of_nat (length ?m)) @ ?m @ ?r" by (simp add: packet_frame_def frame_bytes_def)
  have "xudp_ReadMultiBuffer pool pool' k \<lparr>pending = packet_frame w p @ rest, ending = e\<rparr> = (\<lparr>pending = rest, ending = e\<rparr>, Ok [b'])"
    unfolding a by (subst xudp_ReadMultiBuffer.simps) (use h h2 b t o b'(1) l(1) assms(5) in \<open>simp add: Let_def del: length_of_def\<close>)
  then show ?thesis using b'(2,3) by blast
qed

text \<open>
  The reader returns a packet with its source, whatever keep-alive frames come before it, and stops right behind it.
\<close>

theorem xudp_answer_read:
  assumes "pool_ok pool" and "pool_ok pool'" and "dest_Network (xw_Dest w) \<noteq> Network_UDP" and "frame_ok (packet_meta w) (buf_UDP p)"
    and "content p \<noteq> []" and "length (content p) \<le> 8192" and "list_all (\<lambda>d. length d \<le> 8192) alive"
  shows "\<exists>b. xudp_ReadMultiBuffer pool pool' k \<lparr>pending = concat (map alive_frame alive) @ packet_frame w p @ rest, ending = e\<rparr> =
      (\<lparr>pending = rest, ending = e\<rparr>, Ok [b]) \<and> content b = content p \<and> buf_UDP b = map_option (\<lambda>d. d\<lparr>dest_Network := Network_UDP\<rparr>) (buf_UDP p)"
  using assms(7)
proof (induction alive arbitrary: k)
  case Nil
  then show ?case using xudp_read_packet [OF assms(1-6), of k rest e] by simp
next
  case (Cons d alive)
  then show ?case using xudp_read_alive [OF assms(1), of d pool' k "concat (map alive_frame alive) @ packet_frame w p @ rest" e] by simp
qed


definition keep_writer :: xudp_writer where
  "keep_writer = \<lparr>xw_Dest = \<lparr>dest_Address = None, dest_Port = 0, dest_Network = Network_Unknown\<rparr>, xw_GlobalID = replicate 8 0\<rparr>"

definition example_source :: destination where
  "example_source = UDPDestination (Some (IPv4Address [1, 2, 3, 4])) 53"

theorem xudp_answer_read_witness:
  "\<exists>b. xudp_ReadMultiBuffer (\<lambda>i. []) (\<lambda>i. []) 0 \<lparr>pending = concat (map alive_frame [[], [8]]) @ packet_frame keep_writer ((built [] [5])\<lparr>buf_UDP := Some example_source\<rparr>) @ [9], ending = EOF\<rparr> =
      (\<lparr>pending = [9], ending = EOF\<rparr>, Ok [b]) \<and> content b = [5] \<and> buf_UDP b = Some example_source"
proof -
  let ?p = "(built [] [5])\<lparr>buf_UDP := Some example_source\<rparr>"
  have "content (built [] [5]) = [5]" using built_wf [of "[]" "[5]"] by simp
  then have c: "content ?p = [5]" by (simp add: content_def)
  have "frame_ok (packet_meta keep_writer) (buf_UDP ?p)"
    by (simp add: frame_ok_def packet_meta_def keep_writer_def SessionStatusNew_def SessionStatusKeep_def example_source_def UDPDestination_def addr_ok_def)
  then show ?thesis
    using xudp_answer_read [of "\<lambda>i. []" "\<lambda>i. []" keep_writer ?p "[[], [8]]" 0 "[9]" EOF] c
    by (simp add: pool_ok_def keep_writer_def example_source_def UDPDestination_def)
qed

text \<open>
  What the writer sends is a sequence of mux frames: a mux server reads the first one as a new session for the target,
  with the global identifier if the packet came from a proxy, and its packet reader gets the packet; the frames of the
  other packets follow.  Packets that are empty or too large are left out.
\<close>

theorem xudp_opens_session:
  assumes "pool_ok pool" and "list_all (addressed w) mb" and "dest_Network (xw_Dest w) = Network_UDP" and "filter (\<lambda>b. xudp_fits (content b)) mb = p # ps"
    and "length fresh < 2147483648" and "length fresh2 < 2147483648" and "length fresh3 < 2147483648"
  shows "\<exists>w' out s r b. xudp_WriteMultiBuffer pool w mb = Ok (w', Some out) \<and>
    Unmarshal fresh fresh2 f0 \<lparr>pending = mb_content out @ rest, ending = e\<rparr> = Ok (received f0 (packet_meta w) (buf_UDP p), None, s) \<and>
    packet_ReadMultiBuffer fresh3 (NewPacketReader s (Some (xw_Dest w))) = Ok (r, [b], None) \<and> content b = content p \<and> buf_UDP b = Some (xw_Dest w) \<and>
    pr_reader r = \<lparr>pending = packet_frames (opened w) ps @ rest, ending = e\<rparr>"
proof -
  obtain w' out where o: "xudp_frames pool 0 w mb = Ok (w', out)" "mb_wf out" "mb_content out = packet_frames w (p # ps)"
    using xudp_frames_bytes [OF assms(1,2), of 0] assms(4) by auto
  have p: "p \<in> set mb" "xudp_fits (content p)" using arg_cong [OF assms(4), of set] by auto
  have ok: "frame_ok (packet_meta w) (buf_UDP p)" using assms(2) p(1) by (auto simp: list_all_iff addressed_def)
  let ?d = "content p" let ?t = "packet_frames (opened w) ps @ rest" let ?s = "\<lparr>pending = put_u16 (word_of_nat (length ?d)) @ ?d @ ?t, ending = e\<rparr>"
  have d: "?d \<noteq> []" "length ?d \<le> 7526" using p(2) by (auto simp: xudp_fits_def)
  have c: "mb_content out @ rest = frame_bytes (packet_meta w) (buf_UDP p) @ pending ?s" using o(3) by (simp add: packet_frame_def)
  have u: "uint (word_of_nat (length ?d) :: u16) = int (length ?d)" using d(2) by (simp add: uint_nat unat_of_nat)
  have "ReadFullFrom (New fresh3) \<lparr>pending = ?d @ ?t, ending = e\<rparr> (int (length ?d)) = Ok (built fresh3 ?d, length ?d, None, \<lparr>pending = ?t, ending = e\<rparr>)"
    using d(2) by (intro New_built [OF assms(7)]) simp_all
  then have "packet_ReadMultiBuffer fresh3 (NewPacketReader ?s (Some (xw_Dest w))) =
      Ok (\<lparr>pr_reader = \<lparr>pending = ?t, ending = e\<rparr>, pr_eof = True, pr_dest = Some (xw_Dest w)\<rparr>, [(built fresh3 ?d)\<lparr>buf_UDP := Some (xw_Dest w)\<rparr>], None)"
    using u d(2) assms(3) by (simp add: packet_ReadMultiBuffer_def NewPacketReader_def Size_def)
  moreover have "content ((built fresh3 ?d)\<lparr>buf_UDP := Some (xw_Dest w)\<rparr>) = ?d" using built_wf [OF assms(7), of ?d] d(2) by (simp add: content_def)
  moreover have "xudp_WriteMultiBuffer pool w mb = Ok (w', Some out)"
    using o d(1) mb_IsEmpty_content [OF o(2)] by (simp add: xudp_WriteMultiBuffer_def packet_frame_def)
  moreover have "Unmarshal fresh fresh2 f0 \<lparr>pending = mb_content out @ rest, ending = e\<rparr> = Ok (received f0 (packet_meta w) (buf_UDP p), None, ?s)"
    unfolding c using Unmarshal_frame_bytes(1) [OF ok assms(5,6), of f0 "pending ?s" e] by simp
  ultimately show ?thesis by fastforce
qed

theorem xudp_opens_session_witness:
  "\<exists>w' out s r b. xudp_WriteMultiBuffer (\<lambda>i. []) (NewXudpWriter example_source (replicate 8 1)) [built [] [5], built [] []] = Ok (w', Some out) \<and>
    Unmarshal [] [] sample_frame \<lparr>pending = mb_content out @ [9], ending = EOF\<rparr> = Ok (received sample_frame (packet_meta (NewXudpWriter example_source (replicate 8 1))) None, None, s) \<and>
    packet_ReadMultiBuffer [] (NewPacketReader s (Some example_source)) = Ok (r, [b], None) \<and> content b = [5] \<and> buf_UDP b = Some example_source \<and>
    pr_reader r = \<lparr>pending = [9], ending = EOF\<rparr>"
proof -
  let ?w = "NewXudpWriter example_source (replicate 8 1)" let ?mb = "[built [] [5], built [] []]"
  have c: "content (built [] [5]) = [5]" "content (built [] []) = []" "buf_wf (built [] [5])" "buf_wf (built [] [])" using built_wf [of "[]" "[5]"] built_wf [of "[]" "[]"] by simp_all
  have u: "buf_UDP (built [] bs) = None" for bs by (simp add: built_def New_def append_at_end_def)
  have "list_all (addressed ?w) ?mb"
    using c by (simp add: addressed_def u frame_ok_def packet_meta_def NewXudpWriter_def opened_def example_source_def UDPDestination_def addr_ok_def SessionStatusNew_def SessionStatusKeep_def)
  moreover have "filter (\<lambda>b. xudp_fits (content b)) ?mb = built [] [5] # []" using c by (simp add: xudp_fits_def)
  ultimately show ?thesis
    using xudp_opens_session [of "\<lambda>i. []" ?w ?mb "built [] [5]" "[]" "[]" "[]" "[]" sample_frame "[9]" EOF] c(1)
    by (simp add: pool_ok_def u) (simp add: NewXudpWriter_def example_source_def UDPDestination_def)
qed

end
