(* ===== verification/GoHeap.thy ===== *)
theory GoHeap
  imports Main "HOL-Library.Multiset"
begin

text \<open>
  The binary heap of Go's \<open>container/heap\<close> over a slice whose \<open>Less\<close> compares a key of the elements: \<open>up\<close>, \<open>down\<close>, \<open>Push\<close>
  and \<open>Pop\<close> as the library has them.  The contract that clients rely on is a locale.
\<close>

section \<open>The operations\<close>

definition heap_swap :: "'a list \<Rightarrow> nat \<Rightarrow> nat \<Rightarrow> 'a list" where
  "heap_swap h i j = h[i := h ! j, j := h ! i]"

abbreviation par :: "nat \<Rightarrow> nat" where
  "par k \<equiv> (k - 1) div 2"

function heap_up :: "('a \<Rightarrow> 'k::linorder) \<Rightarrow> 'a list \<Rightarrow> nat \<Rightarrow> 'a list" where
  "heap_up key h j =
     (let i = par j in
      if i = j \<or> \<not> key (h ! j) < key (h ! i) then h
      else heap_up key (heap_swap h i j) i)"
  by pat_completeness auto

termination
  by (relation "measure (\<lambda>(key, h, j). j)") auto

function heap_down :: "('a \<Rightarrow> 'k::linorder) \<Rightarrow> 'a list \<Rightarrow> nat \<Rightarrow> nat \<Rightarrow> 'a list" where
  "heap_down key h i n =
     (let j1 = 2 * i + 1 in
      if j1 \<ge> n then h
      else
        (let j2 = j1 + 1; j = (if j2 < n \<and> key (h ! j2) < key (h ! j1) then j2 else j1) in
         if \<not> key (h ! j) < key (h ! i) then h
         else heap_down key (heap_swap h i j) j n))"
  by pat_completeness auto

termination
  by (relation "measure (\<lambda>(key, h, i, n). n - i)") (auto simp: Let_def split: if_splits)

declare heap_up.simps [simp del] heap_down.simps [simp del]

definition heap_Push :: "('a \<Rightarrow> 'k::linorder) \<Rightarrow> 'a \<Rightarrow> 'a list \<Rightarrow> 'a list" where
  "heap_Push key x h = heap_up key (h @ [x]) (length h)"

definition heap_Pop :: "('a \<Rightarrow> 'k::linorder) \<Rightarrow> 'a list \<Rightarrow> 'a \<times> 'a list" where
  "heap_Pop key h =
     (let n = length h - 1; h = heap_down key (heap_swap h 0 n) 0 n in (h ! n, take n h))"

section \<open>Heap order\<close>

definition heap_ok :: "('a \<Rightarrow> 'k::linorder) \<Rightarrow> 'a list \<Rightarrow> bool" where
  "heap_ok key h \<longleftrightarrow> (\<forall>k. 0 < k \<and> k < length h \<longrightarrow> key (h ! par k) \<le> key (h ! k))"

lemma heap_swap_nth:
  "i < length h \<Longrightarrow> j < length h \<Longrightarrow> k < length h \<Longrightarrow> heap_swap h i j ! k = (if k = j then h ! i else if k = i then h ! j else h ! k)"
  by (simp add: heap_swap_def nth_list_update)

lemma heap_swap_length [simp]: "length (heap_swap h i j) = length h"
  by (simp add: heap_swap_def)

lemma heap_swap_mset: "i < length h \<Longrightarrow> j < length h \<Longrightarrow> mset (heap_swap h i j) = mset h"
  by (simp add: heap_swap_def mset_swap)

lemma par_iff: "0 < k \<Longrightarrow> par k = i \<longleftrightarrow> k = 2 * i + 1 \<or> k = 2 * i + 2"
  by presburger

lemma par_less: "0 < k \<Longrightarrow> par k < k"
  by presburger

lemma root_least: "heap_ok key h \<Longrightarrow> k < length h \<Longrightarrow> key (h ! 0) \<le> key (h ! k)"
proof (induction k rule: less_induct)
  case (less k)
  show ?case
  proof (cases "k = 0")
    case False
    then have p: "par k < k" using par_less by blast
    then have "key (h ! 0) \<le> key (h ! par k)" using less.IH [OF p] less.prems by simp
    also have "\<dots> \<le> key (h ! k)" using less.prems False by (simp add: heap_ok_def)
    finally show ?thesis .
  qed simp
qed

lemma heap_up_ok:
  assumes "j < length h"
    and "\<And>k. 0 < k \<Longrightarrow> k < length h \<Longrightarrow> k \<noteq> j \<Longrightarrow> key (h ! par k) \<le> key (h ! k)"
    and "\<And>k. 0 < k \<Longrightarrow> k < length h \<Longrightarrow> par k = j \<Longrightarrow> 0 < j \<Longrightarrow> key (h ! par j) \<le> key (h ! k)"
  shows "heap_ok key (heap_up key h j) \<and> mset (heap_up key h j) = mset h"
  using assms
proof (induction key h j rule: heap_up.induct)
  case (1 key h j)
  let ?i = "par j" let ?h = "heap_swap h ?i j"
  show ?case
  proof (cases "?i = j \<or> \<not> key (h ! j) < key (h ! ?i)")
    case True
    have "key (h ! par k) \<le> key (h ! k)" if k: "0 < k" "k < length h" for k
    proof (cases "k = j")
      case True
      then show ?thesis using \<open>?i = j \<or> \<not> key (h ! j) < key (h ! ?i)\<close> par_less [OF k(1)] by auto
    qed (rule "1.prems"(2) [OF k])
    then show ?thesis using True by (simp add: heap_up.simps [of key h j] heap_ok_def)
  next
    case False
    then have j: "0 < j" "?i < j" "key (h ! j) < key (h ! ?i)" using par_less [of j] by (auto intro: gr0I)
    have i: "?i < length h" using j(2) "1.prems"(1) by simp
    note nth = heap_swap_nth [OF i "1.prems"(1)]
    have old: "key (h ! par k) \<le> key (h ! k)" if "0 < k" "k < length h" "k \<noteq> j" for k by (rule "1.prems"(2) [OF that])
    have a: "key (?h ! par k) \<le> key (?h ! k)" if k: "0 < k" "k < length ?h" "k \<noteq> ?i" for k
    proof -
      have p: "par k < length h" "par k < k" using par_less [OF k(1)] k(2) by auto
      consider (self) "k = j" | (child) "k \<noteq> j" "par k = j" | (sibling) "k \<noteq> j" "par k = ?i" | (other) "k \<noteq> j" "par k \<noteq> j" "par k \<noteq> ?i" by blast
      then show ?thesis
      proof cases
        case sibling
        then show ?thesis using nth [OF p(1)] nth [of k] k old [of k] j by auto
      qed (use nth [OF p(1)] nth [of k] k old [of k] j "1.prems"(3) [of k] p in auto)
    qed
    have b: "key (?h ! par ?i) \<le> key (?h ! k)" if k: "0 < k" "k < length ?h" "par k = ?i" "0 < ?i" for k
    proof -
      have p: "par ?i < ?i" "par ?i < length h" "?i < k" using par_less [OF k(4)] par_less [OF k(1)] i k(3) by auto
      have "?h ! par ?i = h ! par ?i" "?h ! k = (if k = j then h ! ?i else h ! k)" using nth [OF p(2)] nth [of k] p(1,3) j(2) k(2) by auto
      moreover have up: "key (h ! par ?i) \<le> key (h ! ?i)" using old [OF k(4) i] j(2) by simp
      moreover have "key (h ! par ?i) \<le> key (h ! k)" if "k \<noteq> j"
        using order_trans [OF up] old [OF k(1) _ that] k(2,3) by simp
      ultimately show ?thesis by (cases "k = j") simp_all
    qed
    have "?i < length ?h" using i by simp
    from "1.IH" [OF refl False this a b] show ?thesis
      using False heap_swap_mset [OF i "1.prems"(1)] by (simp add: heap_up.simps [of key h j] Let_def)
  qed
qed

lemma heap_down_ok:
  assumes "i < n" and "n \<le> length h"
    and "\<And>k. 0 < k \<Longrightarrow> k < n \<Longrightarrow> par k \<noteq> i \<Longrightarrow> key (h ! par k) \<le> key (h ! k)"
    and "\<And>k. 0 < k \<Longrightarrow> k < n \<Longrightarrow> par k = i \<Longrightarrow> 0 < i \<Longrightarrow> key (h ! par i) \<le> key (h ! k)"
  shows "(\<forall>k. 0 < k \<and> k < n \<longrightarrow> key (heap_down key h i n ! par k) \<le> key (heap_down key h i n ! k)) \<and>
    mset (heap_down key h i n) = mset h \<and> drop n (heap_down key h i n) = drop n h"
  using assms
proof (induction key h i n rule: heap_down.induct)
  case (1 key h i n)
  let ?j1 = "2 * i + 1" let ?j2 = "2 * i + 1 + 1"
  define j where "j = (if ?j2 < n \<and> key (h ! ?j2) < key (h ! ?j1) then ?j2 else ?j1)"
  have old: "key (h ! par k) \<le> key (h ! k)" if "0 < k" "k < n" "par k \<noteq> i" for k by (rule "1.prems"(3) [OF that])
  show ?case
  proof (cases "?j1 \<ge> n")
    case True
    have "key (h ! par k) \<le> key (h ! k)" if k: "0 < k" "k < n" for k
      using old [OF k] par_iff [OF k(1), of i] True k(2) by linarith
    then show ?thesis using True by (simp add: heap_down.simps [of key h i n])
  next
    case False
    have j: "j < n" "i < j" "par j = i" "0 < j" using False by (auto simp: j_def)
    have least: "key (h ! j) \<le> key (h ! k)" if k: "0 < k" "k < n" "par k = i" for k
      using par_iff [OF k(1), of i] k by (auto simp: j_def)
    have e: "heap_down key h i n = (if key (h ! j) < key (h ! i) then heap_down key (heap_swap h i j) j n else h)"
      unfolding j_def using False by (subst heap_down.simps) (simp add: Let_def)
    show ?thesis
    proof (cases "key (h ! j) < key (h ! i)")
      case False
      then have "key (h ! par k) \<le> key (h ! k)" if k: "0 < k" "k < n" for k
        using old [OF k] least [OF k] by (cases "par k = i") auto
      then show ?thesis using False e by simp
    next
      case True
      let ?h = "heap_swap h i j"
      have l: "i < length h" "j < length h" using "1.prems"(1,2) j by auto
      note nth = heap_swap_nth [OF l]
      have a: "key (?h ! par k) \<le> key (?h ! k)" if k: "0 < k" "k < n" "par k \<noteq> j" for k
      proof -
        have p: "par k < length h" "k < length h" "par k < k" using par_less [OF k(1)] k(2) "1.prems"(2) by auto
        consider (down) "k = j" | (sibling) "k \<noteq> j" "par k = i" | (top) "k = i" "par k \<noteq> i" | (other) "k \<noteq> j" "k \<noteq> i" "par k \<noteq> i" by blast
        then show ?thesis
        proof cases
          case top
          then show ?thesis using nth [OF p(1)] nth [OF p(2)] "1.prems"(4) [OF j(4,1,3)] k p(3) j(2) by auto
        qed (use nth [OF p(1)] nth [OF p(2)] k old [of k] least [of k] j True p(3) in auto)
      qed
      have b: "key (?h ! par j) \<le> key (?h ! k)" if k: "0 < k" "k < n" "par k = j" "0 < j" for k
      proof -
        have "k < length h" "j < k" using k(2,3) "1.prems"(2) par_less [OF k(1)] by auto
        moreover have "key (h ! j) \<le> key (h ! k)" using old [OF k(1,2)] k(3) j(2) by simp
        ultimately show ?thesis using nth [OF l(1)] nth [of k] j(2,3) by simp
      qed
      have "n \<le> length ?h" using "1.prems"(2) by simp
      note ih = "1.IH" [OF refl False refl j_def _ j(1) this a b]
      have "drop n ?h = drop n h" using j(1) "1.prems"(1) by (simp add: heap_swap_def)
      then show ?thesis using ih True e heap_swap_mset [OF l] by simp
    qed
  qed
qed

section \<open>The contract\<close>

text \<open>A priority queue gives up an element with the least key; nothing else changes.\<close>

locale priority_queue =
  fixes key :: "'a \<Rightarrow> 'k::linorder" and push :: "'a \<Rightarrow> 'q \<Rightarrow> 'q" and pop :: "'q \<Rightarrow> 'a \<times> 'q" and ok :: "'q \<Rightarrow> bool" and bag :: "'q \<Rightarrow> 'a multiset"
  assumes push_ok: "ok q \<Longrightarrow> ok (push x q) \<and> bag (push x q) = add_mset x (bag q)"
    and pop_ok: "ok q \<Longrightarrow> bag q \<noteq> {#} \<Longrightarrow> pop q = (x, q') \<Longrightarrow> ok q' \<and> bag q = add_mset x (bag q') \<and> (\<forall>y. y \<in># bag q \<longrightarrow> key x \<le> key y)"
begin

text \<open>If nothing is below \<open>k\<close> and something has the key \<open>k\<close>, the next element has it.\<close>

lemma pop_known:
  assumes "ok q" and "y \<in># bag q" and "\<And>z. z \<in># bag q \<Longrightarrow> key y \<le> key z" and "pop q = (x, q')"
  shows "key x = key y"
proof -
  have "bag q \<noteq> {#}" using assms(2) by auto
  from pop_ok [OF assms(1) this assms(4)] show ?thesis using assms(2,3) by (metis antisym union_single_eq_member)
qed

end

lemma heap_up_length [simp]: "length (heap_up key h j) = length h"
proof (induction key h j rule: heap_up.induct)
  case (1 key h j)
  then show ?case by (subst heap_up.simps) (simp add: Let_def)
qed

lemma heap_down_length [simp]: "length (heap_down key h i n) = length h"
proof (induction key h i n rule: heap_down.induct)
  case (1 key h i n)
  then show ?case by (subst heap_down.simps) (simp add: Let_def)
qed

lemma heap_Push_length [simp]: "length (heap_Push key x h) = Suc (length h)"
  by (simp add: heap_Push_def)

lemma heap_Pop_length: "heap_Pop key h = (x, h') \<Longrightarrow> length h' = length h - 1"
  by (auto simp: heap_Pop_def Let_def)

lemma heap_Push_ok:
  assumes "heap_ok key h"
  shows "heap_ok key (heap_Push key x h) \<and> mset (heap_Push key x h) = add_mset x (mset h)"
proof -
  have "heap_ok key (heap_up key (h @ [x]) (length h)) \<and> mset (heap_up key (h @ [x]) (length h)) = mset (h @ [x])"
  proof (rule heap_up_ok)
    fix k assume k: "0 < k" "k < length (h @ [x])" "k \<noteq> length h"
    then show "key ((h @ [x]) ! par k) \<le> key ((h @ [x]) ! k)" using assms par_less [of k] by (simp add: heap_ok_def nth_append)
  next
    fix k assume "0 < k" "k < length (h @ [x])" "par k = length h"
    then have False using par_less [of k] by simp
    then show "key ((h @ [x]) ! par (length h)) \<le> key ((h @ [x]) ! k)" ..
  qed simp
  then show ?thesis by (simp add: heap_Push_def)
qed

lemma heap_Pop_ok:
  assumes "heap_ok key h" and "h \<noteq> []" and "heap_Pop key h = (x, h')"
  shows "heap_ok key h'" and "mset h = add_mset x (mset h')" and "y \<in> set h \<Longrightarrow> key x \<le> key y"
proof -
  let ?n = "length h - 1" let ?s = "heap_swap h 0 ?n" let ?d = "heap_down key ?s 0 ?n"
  have n: "?n < length h" "0 < length h" using assms(2) by auto
  note nth = heap_swap_nth [OF n(2,1)]
  have d: "(\<forall>k. 0 < k \<and> k < ?n \<longrightarrow> key (?d ! par k) \<le> key (?d ! k)) \<and> mset ?d = mset ?s \<and> drop ?n ?d = drop ?n ?s"
  proof (cases "?n = 0")
    case True
    then show ?thesis by (simp add: heap_down.simps)
  next
    case False
    then show ?thesis
    proof (intro heap_down_ok)
      fix k assume k: "0 < k" "k < ?n" "par k \<noteq> 0"
      then have "par k < ?n" "par k < length h" "k < length h" using par_less [OF k(1)] by auto
      then show "key (?s ! par k) \<le> key (?s ! k)" using nth [of "par k"] nth [of k] k assms(1) by (auto simp: heap_ok_def)
    qed auto
  qed
  have x: "x = ?d ! ?n" "h' = take ?n ?d" using assms(3) by (auto simp: heap_Pop_def Let_def)
  have one: "drop ?n z = [z ! ?n]" if "length z = length h" for z :: "'a list" using n that Cons_nth_drop_Suc [of ?n z] by simp
  have e: "drop ?n ?d = [?d ! ?n]" "drop ?n ?s = [?s ! ?n]" by (rule one; simp)+
  then have r: "x = h ! 0" using d x(1) nth [OF n(1)] by simp
  show "heap_ok key h'" using d n by (auto simp: heap_ok_def x(2) dest: par_less)
  have "mset h = mset ?d" using d heap_swap_mset [OF n(2,1)] by simp
  also have "\<dots> = mset (take ?n ?d @ drop ?n ?d)" by simp
  also have "\<dots> = add_mset x (mset h')" unfolding e(1) x by simp
  finally show "mset h = add_mset x (mset h')" .
  assume "y \<in> set h"
  then obtain k where "k < length h" "y = h ! k" by (metis in_set_conv_nth)
  then show "key x \<le> key y" using root_least [OF assms(1)] r by simp
qed

end
