(* ===== verification/UploadQueue.thy ===== *)
theory UploadQueue
  imports Prelude GoHeap "HOL-Library.Sublist"
begin

text \<open>
  The upload queue of the split HTTP transport (\<open>transport/internet/splithttp/upload_queue.go\<close>): packets arrive in any order
  in separate requests and are read as one stream.  A channel carries them to the reader, a heap keeps those that are ahead.
  A call of \<open>Read\<close> runs until it returns or comes to a receive from the channel; pushing, the sections of a read
  between two receives, and the receives of \<open>Close\<close>, which empties the channel while the reader may read from it, are the atomic steps.
\<close>

section \<open>The queue\<close>

record 'r packet =
  pk_Reader :: "'r option"
  pk_Payload :: bytes
  pk_Seq :: u64

text \<open>\<open>Close\<close> sets \<open>uq_closed\<close> first and closes the channel at its end.\<close>

record 'r upload_queue =
  uq_reader :: "'r option"
  uq_nomore :: bool
  uq_pushedPackets :: "'r packet list"
  uq_heap :: "'r packet list"
  uq_nextSeq :: u64
  uq_closed :: bool
  uq_chanClosed :: bool
  uq_maxPackets :: nat

definition NewUploadQueue :: "nat \<Rightarrow> 'r upload_queue" where
  "NewUploadQueue maxPackets =
     \<lparr>uq_reader = None, uq_nomore = False, uq_pushedPackets = [], uq_heap = [], uq_nextSeq = 0, uq_closed = False, uq_chanClosed = False, uq_maxPackets = maxPackets\<rparr>"

definition uq_Push :: "'r packet \<Rightarrow> 'r upload_queue \<Rightarrow> 'r upload_queue \<times> goerr option" where
  "uq_Push p h =
     (if uq_closed h then (h, Some (ErrMsg ''packet queue closed''))
      else if uq_nomore h then (h, Some (ErrMsg ''h.reader already exists''))
      else (h\<lparr>uq_nomore := pk_Reader p \<noteq> None, uq_pushedPackets := uq_pushedPackets h @ [p]\<rparr>, None))"

text \<open>
  \<open>Close\<close> empties the channel, keeping a reader it finds there, closes the channel and then the reader, which is the result.  Its steps, and
  the call when nothing else happens.
\<close>

definition close_begin :: "'r upload_queue \<Rightarrow> 'r upload_queue" where
  "close_begin h = h\<lparr>uq_closed := True\<rparr>"

definition close_take :: "'r packet \<Rightarrow> 'r packet list \<Rightarrow> 'r upload_queue \<Rightarrow> 'r upload_queue" where
  "close_take p ps h = h\<lparr>uq_pushedPackets := ps, uq_reader := (if pk_Reader p \<noteq> None then pk_Reader p else uq_reader h)\<rparr>"

definition close_end :: "'r upload_queue \<Rightarrow> 'r upload_queue" where
  "close_end h = h\<lparr>uq_chanClosed := True\<rparr>"

function drain :: "'r upload_queue \<Rightarrow> 'r upload_queue" where
  "drain h = (case uq_pushedPackets h of [] \<Rightarrow> h | p # ps \<Rightarrow> drain (close_take p ps h))"
  by pat_completeness auto

termination
  by (relation "measure (\<lambda>h. length (uq_pushedPackets h))") (simp_all add: close_take_def)

declare drain.simps [simp del]

definition uq_Close :: "'r upload_queue \<Rightarrow> 'r upload_queue \<times> 'r option" where
  "uq_Close h = (let h = (if uq_closed h then h else close_end (drain (close_begin h))) in (h, uq_reader h))"

datatype 'r read_result = Returned bytes "goerr option" | Delegated 'r | Waits_first | Waits_more

lemma Pop_shrinks: "h \<noteq> [] \<Longrightarrow> (x, h') = heap_Pop key h \<Longrightarrow> Suc (length h') = length h"
  using heap_Pop_length [of key h x h'] by (cases h) auto

function read_loop :: "nat \<Rightarrow> 'r upload_queue \<Rightarrow> 'r upload_queue \<times> 'r read_result" where
  "read_loop n h =
     (if uq_heap h = [] then (h, Returned [] None)
      else
        (let (packet, heap) = heap_Pop pk_Seq (uq_heap h) in
         if pk_Seq packet = uq_nextSeq h then
           (let k = min n (length (pk_Payload packet)) in
            (if k < length (pk_Payload packet)
             then h\<lparr>uq_heap := heap_Push pk_Seq (packet\<lparr>pk_Payload := drop k (pk_Payload packet)\<rparr>) heap\<rparr>
             else h\<lparr>uq_heap := heap, uq_nextSeq := pk_Seq packet + 1\<rparr>,
             Returned (take k (pk_Payload packet)) None))
         else if pk_Seq packet > uq_nextSeq h then
           (if length heap > uq_maxPackets h then (h\<lparr>uq_heap := heap\<rparr>, Returned [] (Some (ErrMsg ''packet queue is too large'')))
            else (h\<lparr>uq_heap := heap_Push pk_Seq packet heap\<rparr>, Waits_more))
         else read_loop n (h\<lparr>uq_heap := heap\<rparr>)))"
  by pat_completeness auto

termination
proof (relation "measure (\<lambda>(n, h). length (uq_heap h))", goal_cases)
  case (2 n h z packet heap)
  then show ?case using Pop_shrinks [of "uq_heap h" packet heap pk_Seq] by auto
qed simp

declare read_loop.simps [simp del]

text \<open>The two places where a read receives from the channel: \<open>Waits_first\<close> and \<open>Waits_more\<close> are the results of a section that ends there.\<close>

definition receive_first :: "nat \<Rightarrow> 'r upload_queue \<Rightarrow> 'r upload_queue \<times> 'r read_result" where
  "receive_first n h =
     (case uq_pushedPackets h of
        [] \<Rightarrow> (h, if uq_chanClosed h then Returned [] (Some EOF) else Waits_first)
      | packet # ps \<Rightarrow>
          (case pk_Reader packet of
             Some r \<Rightarrow> (h\<lparr>uq_reader := Some r, uq_pushedPackets := ps\<rparr>, Delegated r)
           | None \<Rightarrow> read_loop n (h\<lparr>uq_heap := heap_Push pk_Seq packet (uq_heap h), uq_pushedPackets := ps\<rparr>)))"

definition receive_more :: "nat \<Rightarrow> 'r upload_queue \<Rightarrow> 'r upload_queue \<times> 'r read_result" where
  "receive_more n h =
     (case uq_pushedPackets h of
        [] \<Rightarrow> (h, if uq_chanClosed h then Returned [] (Some EOF) else Waits_more)
      | packet2 # ps \<Rightarrow> read_loop n (h\<lparr>uq_heap := heap_Push pk_Seq packet2 (uq_heap h), uq_pushedPackets := ps\<rparr>))"

definition uq_Read :: "nat \<Rightarrow> 'r upload_queue \<Rightarrow> 'r upload_queue \<times> 'r read_result" where
  "uq_Read n h =
     (case uq_reader h of
        Some r \<Rightarrow> (h, Delegated r)
      | None \<Rightarrow> if uq_closed h then (h, Returned [] (Some EOF))
                else if uq_heap h = [] then (h, Waits_first) else read_loop n h)"

text \<open>A call that goes on as long as there is something in the channel and nothing else happens.\<close>

fun read_on :: "nat \<Rightarrow> nat \<Rightarrow> 'r upload_queue \<times> 'r read_result \<Rightarrow> 'r upload_queue \<times> 'r read_result" where
  "read_on 0 n qr = qr"
| "read_on (Suc k) n (h, r) =
     (case r of
        Waits_first \<Rightarrow> read_on k n (receive_first n h)
      | Waits_more \<Rightarrow> read_on k n (receive_more n h)
      | _ \<Rightarrow> (h, r))"

definition Read_alone :: "nat \<Rightarrow> 'r upload_queue \<Rightarrow> 'r upload_queue \<times> 'r read_result" where
  "Read_alone n h = read_on (length (uq_pushedPackets h)) n (uq_Read n h)"

section \<open>Runs\<close>

text \<open>
  A queue with its one reader: where the reader is, what it has got so far, the packets that were pushed, whether the queue gave packets
  up because it was closed or too large, and whether a call of \<open>Close\<close> is emptying the channel.
\<close>

datatype reader_at = Idle | At_first nat | At_more nat

record 'r upload_run =
  ur_q :: "'r upload_queue"
  ur_at :: reader_at
  ur_out :: bytes
  ur_pushed :: "'r packet list"
  ur_lost :: bool
  ur_closing :: bool

definition new_run :: "nat \<Rightarrow> 'r upload_run" where
  "new_run maxPackets = \<lparr>ur_q = NewUploadQueue maxPackets, ur_at = Idle, ur_out = [], ur_pushed = [], ur_lost = False, ur_closing = False\<rparr>"

definition after_section :: "nat \<Rightarrow> 'r upload_queue \<times> 'r read_result \<Rightarrow> 'r upload_run \<Rightarrow> 'r upload_run" where
  "after_section n qr s =
     (case qr of (q, r) \<Rightarrow>
        (case r of
           Returned bs err \<Rightarrow> s\<lparr>ur_q := q, ur_at := Idle, ur_out := ur_out s @ bs, ur_lost := ur_lost s \<or> err \<noteq> None\<rparr>
         | Delegated x \<Rightarrow> s\<lparr>ur_q := q, ur_at := Idle\<rparr>
         | Waits_first \<Rightarrow> s\<lparr>ur_q := q, ur_at := At_first n\<rparr>
         | Waits_more \<Rightarrow> s\<lparr>ur_q := q, ur_at := At_more n\<rparr>))"

inductive upload_step :: "'r upload_run \<Rightarrow> 'r upload_run \<Rightarrow> bool" where
  push: "length (uq_pushedPackets (ur_q s)) < uq_maxPackets (ur_q s) \<or> uq_pushedPackets (ur_q s) = [] \<and> ur_at s \<noteq> Idle \<Longrightarrow>
    uq_Push p (ur_q s) = (q, None) \<Longrightarrow> upload_step s (s\<lparr>ur_q := q, ur_pushed := ur_pushed s @ [p]\<rparr>)"
| closes: "\<not> uq_closed (ur_q s) \<Longrightarrow> upload_step s (s\<lparr>ur_q := close_begin (ur_q s), ur_lost := True, ur_closing := True\<rparr>)"
| takes: "ur_closing s \<Longrightarrow> uq_pushedPackets (ur_q s) = p # ps \<Longrightarrow> upload_step s (s\<lparr>ur_q := close_take p ps (ur_q s), ur_lost := True\<rparr>)"
| closed: "ur_closing s \<Longrightarrow> uq_pushedPackets (ur_q s) = [] \<Longrightarrow> upload_step s (s\<lparr>ur_q := close_end (ur_q s), ur_closing := False\<rparr>)"
| read: "ur_at s = Idle \<Longrightarrow> upload_step s (after_section n (uq_Read n (ur_q s)) s)"
| first: "ur_at s = At_first n \<Longrightarrow> upload_step s (after_section n (receive_first n (ur_q s)) s)"
| more: "ur_at s = At_more n \<Longrightarrow> upload_step s (after_section n (receive_more n (ur_q s)) s)"

text \<open>The steps of \<open>Close\<close> one after the other are the call alone.\<close>

lemma drain_steps: "ur_closing s \<Longrightarrow> \<exists>s'. upload_step\<^sup>*\<^sup>* s s' \<and> ur_closing s' \<and> ur_q s' = drain (ur_q s) \<and> uq_pushedPackets (ur_q s') = []"
proof (induction "uq_pushedPackets (ur_q s)" arbitrary: s)
  case Nil
  then show ?case by (intro exI [of _ s]) (simp add: drain.simps [of "ur_q s"] Nil(1) [symmetric])
next
  case (Cons p ps)
  let ?s = "s\<lparr>ur_q := close_take p ps (ur_q s), ur_lost := True\<rparr>"
  have t: "upload_step s ?s" by (rule upload_step.takes) (use Cons in simp_all)
  have "\<exists>s'. upload_step\<^sup>*\<^sup>* ?s s' \<and> ur_closing s' \<and> ur_q s' = drain (ur_q ?s) \<and> uq_pushedPackets (ur_q s') = []"
    by (rule Cons.hyps(1)) (use Cons.prems in \<open>simp_all add: close_take_def\<close>)
  moreover have "drain (ur_q ?s) = drain (ur_q s)" by (simp add: drain.simps [of "ur_q s"] Cons.hyps(2) [symmetric])
  ultimately show ?case using t by (metis converse_rtranclp_into_rtranclp)
qed

lemma close_steps:
  assumes "\<not> uq_closed (ur_q s)"
  shows "\<exists>s'. upload_step\<^sup>*\<^sup>* s s' \<and> ur_q s' = fst (uq_Close (ur_q s))"
proof -
  let ?s = "s\<lparr>ur_q := close_begin (ur_q s), ur_lost := True, ur_closing := True\<rparr>"
  have 1: "upload_step s ?s" using assms by (rule upload_step.closes)
  obtain s2 where 2: "upload_step\<^sup>*\<^sup>* ?s s2" "ur_closing s2" "ur_q s2 = drain (close_begin (ur_q s))" "uq_pushedPackets (ur_q s2) = []"
    using drain_steps [of ?s] by auto
  have 3: "upload_step s2 (s2\<lparr>ur_q := close_end (ur_q s2), ur_closing := False\<rparr>)" using 2(2,4) by (rule upload_step.closed)
  have "upload_step\<^sup>*\<^sup>* s (s2\<lparr>ur_q := close_end (ur_q s2), ur_closing := False\<rparr>)"
    using converse_rtranclp_into_rtranclp [OF 1 rtranclp.rtrancl_into_rtrancl [OF 2(1) 3]] .
  moreover have "close_end (ur_q s2) = fst (uq_Close (ur_q s))" using assms 2(3) by (simp add: uq_Close_def Let_def)
  ultimately show ?thesis by (intro exI [of _ "s2\<lparr>ur_q := close_end (ur_q s2), ur_closing := False\<rparr>"]) simp
qed

inductive upload_reach :: "nat \<Rightarrow> 'r upload_run \<Rightarrow> bool" for m where
  start: "upload_reach m (new_run m)"
| step: "upload_reach m s \<Longrightarrow> upload_step s s' \<Longrightarrow> upload_reach m s'"

interpretation uh: priority_queue "pk_Seq :: 'r packet \<Rightarrow> u64" "heap_Push pk_Seq" "heap_Pop pk_Seq" "heap_ok pk_Seq" mset
  using heap_Pop_ok by unfold_locales (simp_all add: heap_Push_ok, fastforce)

section \<open>Bounded memory\<close>

definition heap_room :: "'r upload_queue \<Rightarrow> 'r read_result \<Rightarrow> nat" where
  "heap_room h r = (case r of Waits_first \<Rightarrow> 0 | Waits_more \<Rightarrow> uq_maxPackets h + 1 | _ \<Rightarrow> uq_maxPackets h + 2)"

definition at_room :: "nat \<Rightarrow> reader_at \<Rightarrow> nat" where
  "at_room m a = (case a of Idle \<Rightarrow> m + 2 | At_first n \<Rightarrow> 0 | At_more n \<Rightarrow> m + 1)"

definition section_ok :: "'r upload_queue \<Rightarrow> 'r upload_queue \<times> 'r read_result \<Rightarrow> bool" where
  "section_ok h qr \<longleftrightarrow> (case qr of (h', r) \<Rightarrow> length (uq_heap h') \<le> heap_room h r \<and> uq_maxPackets h' = uq_maxPackets h \<and>
     length (uq_pushedPackets h') \<le> length (uq_pushedPackets h))"

lemma section_ok_shorter: "section_ok h' qr \<Longrightarrow> uq_maxPackets h' = uq_maxPackets h \<Longrightarrow> length (uq_pushedPackets h') \<le> length (uq_pushedPackets h) \<Longrightarrow> section_ok h qr"
  by (auto simp: section_ok_def heap_room_def split: prod.splits read_result.splits)

lemma read_loop_bound: "length (uq_heap h) \<le> uq_maxPackets h + 2 \<Longrightarrow> section_ok h (read_loop n h)"
proof (induction n h rule: read_loop.induct)
  case (1 n h)
  obtain packet heap where p: "heap_Pop pk_Seq (uq_heap h) = (packet, heap)" by fastforce
  note l = heap_Pop_length [OF p]
  show ?case
  proof (cases "uq_heap h = []")
    case True
    then show ?thesis by (simp add: read_loop.simps [of n h] section_ok_def heap_room_def)
  next
    case False
    consider (due) "pk_Seq packet = uq_nextSeq h" | (late) "pk_Seq packet \<noteq> uq_nextSeq h" "\<not> pk_Seq packet > uq_nextSeq h"
      | (big) "pk_Seq packet > uq_nextSeq h" "length heap > uq_maxPackets h"
      | (wait) "pk_Seq packet > uq_nextSeq h" "\<not> length heap > uq_maxPackets h"
      by auto
    then show ?thesis
    proof cases
      case late
      let ?h = "h\<lparr>uq_heap := heap\<rparr>"
      have "section_ok ?h (read_loop n ?h)" by (rule "1.IH" [OF False p [symmetric] refl late]) (use "1.prems" l in simp)
      then show ?thesis using late False p by (simp add: read_loop.simps [of n h] section_ok_shorter [of ?h])
    qed (use "1.prems" False p l in \<open>auto simp: read_loop.simps [of n h] section_ok_def heap_room_def Let_def\<close>)
  qed
qed

lemma receive_bound:
  "uq_heap h = [] \<Longrightarrow> section_ok h (receive_first n h)"
  "length (uq_heap h) \<le> uq_maxPackets h + 1 \<Longrightarrow> section_ok h (receive_more n h)"
proof -
  let ?h = "\<lambda>p ps. h\<lparr>uq_heap := heap_Push pk_Seq p (uq_heap h), uq_pushedPackets := ps\<rparr>"
  have l: "section_ok h (read_loop n (?h p ps))" if "uq_pushedPackets h = p # ps" "length (uq_heap h) \<le> uq_maxPackets h + 1" for p ps
    by (rule section_ok_shorter [OF read_loop_bound [of "?h p ps"]]) (use that in simp_all)
  show "uq_heap h = [] \<Longrightarrow> section_ok h (receive_first n h)"
    using l by (auto simp: receive_first_def section_ok_def heap_room_def split: list.splits option.splits)
  show "length (uq_heap h) \<le> uq_maxPackets h + 1 \<Longrightarrow> section_ok h (receive_more n h)"
    using l by (auto simp: receive_more_def section_ok_def heap_room_def split: list.splits)
qed

lemma Read_bound: "length (uq_heap h) \<le> uq_maxPackets h + 2 \<Longrightarrow> section_ok h (uq_Read n h)"
  using read_loop_bound [of h n] by (auto simp: uq_Read_def section_ok_def heap_room_def split: option.splits)

definition bound_ok :: "nat \<Rightarrow> 'r upload_run \<Rightarrow> bool" where
  "bound_ok m s \<longleftrightarrow> uq_maxPackets (ur_q s) = m \<and> length (uq_heap (ur_q s)) \<le> at_room m (ur_at s) \<and> length (uq_pushedPackets (ur_q s)) \<le> max 1 m"

lemma after_bound:
  assumes "section_ok (ur_q s) qr" and "bound_ok m s"
  shows "bound_ok m (after_section n qr s)"
  using assms by (auto simp: section_ok_def bound_ok_def heap_room_def at_room_def after_section_def split: prod.splits read_result.splits)

lemma step_bound: "upload_step s s' \<Longrightarrow> bound_ok m s \<Longrightarrow> bound_ok m s'"
proof (induction rule: upload_step.induct)
  case (push s p q)
  then show ?case by (auto simp: uq_Push_def bound_ok_def split: if_splits)
next
  case (closes s)
  then show ?case by (simp add: close_begin_def bound_ok_def)
next
  case (takes s p ps)
  then show ?case by (simp add: close_take_def bound_ok_def)
next
  case (closed s)
  then show ?case by (simp add: close_end_def bound_ok_def)
next
  case (read s n)
  then show ?case by (intro after_bound Read_bound) (auto simp: bound_ok_def at_room_def)
next
  case (first s n)
  then show ?case by (intro after_bound receive_bound) (auto simp: bound_ok_def at_room_def)
next
  case (more s n)
  then show ?case by (intro after_bound receive_bound) (auto simp: bound_ok_def at_room_def)
qed

text \<open>
  The queue never holds more than twice its limit and two packets more, whatever is pushed: the heap at most two above
  \<open>maxPackets\<close>, the channel at most its capacity (one packet if it is unbuffered, on its way to a waiting reader).
\<close>

theorem upload_bounded:
  assumes "upload_reach m s"
  shows "length (uq_heap (ur_q s)) \<le> m + 2 \<and> length (uq_pushedPackets (ur_q s)) \<le> max 1 m"
proof -
  have "bound_ok m s"
    using assms
  proof induction
    case start
    then show ?case by (simp add: bound_ok_def new_run_def NewUploadQueue_def at_room_def)
  qed (rule step_bound)
  then show ?thesis by (auto simp: bound_ok_def at_room_def split: reader_at.splits)
qed

section \<open>The stream in order\<close>

text \<open>
  What the queue holds while \<open>k\<close> bytes of the packet that is due have been delivered: \<open>pay i\<close> is the payload of packet \<open>i\<close>.
\<close>

definition part_ok :: "(nat \<Rightarrow> bytes) \<Rightarrow> nat \<Rightarrow> u64 \<Rightarrow> 'r packet list \<Rightarrow> bool" where
  "part_ok pay k due ps \<longleftrightarrow>
     (\<forall>p\<in>set ps. pk_Reader p = None \<and> due \<le> pk_Seq p \<and> pk_Seq p < - 1 \<and>
        pk_Payload p = drop (if pk_Seq p = due then k else 0) (pay (unat (pk_Seq p)))) \<and>
     distinct (map pk_Seq ps) \<and> (due \<notin> pk_Seq ` set ps \<longrightarrow> k = 0) \<and> k \<le> length (pay (unat due))"

definition sofar :: "(nat \<Rightarrow> bytes) \<Rightarrow> nat \<Rightarrow> u64 \<Rightarrow> bytes" where
  "sofar pay k due = concat (map pay [0..<unat due]) @ take k (pay (unat due))"

lemma part_ok_mset: "mset ps = mset qs \<Longrightarrow> part_ok pay k due ps = part_ok pay k due qs"
  using mset_eq_setD [of ps qs] mset_eq_imp_distinct_iff [of "map pk_Seq ps" "map pk_Seq qs"] by (simp add: part_ok_def)

lemma part_ok_partial:
  assumes "part_ok pay k due (p # ps)" and "pk_Seq p = due" and "j \<le> length (pk_Payload p)"
  shows "part_ok pay (k + j) due (p\<lparr>pk_Payload := drop j (pk_Payload p)\<rparr> # ps)" and "sofar pay (k + j) due = sofar pay k due @ take j (pk_Payload p)"
proof -
  have d: "due \<notin> pk_Seq ` set ps" "pk_Payload p = drop k (pay (unat due))" "k \<le> length (pay (unat due))" using assms(1,2) by (auto simp: part_ok_def)
  show "part_ok pay (k + j) due (p\<lparr>pk_Payload := drop j (pk_Payload p)\<rparr> # ps)"
  proof -
    have "\<forall>q\<in>set ps. pk_Seq q \<noteq> due" using d(1) by auto
    then show ?thesis using assms d(2,3) by (simp add: part_ok_def add.commute)
  qed
  show "sofar pay (k + j) due = sofar pay k due @ take j (pk_Payload p)" using d(2) by (simp add: sofar_def take_add)
qed

lemma part_ok_done:
  assumes "part_ok pay k due (p # ps)" and "pk_Seq p = due"
  shows "part_ok pay 0 (due + 1) ps" and "sofar pay 0 (due + 1) = sofar pay k due @ pk_Payload p" and "unat (due + 1) = Suc (unat due)"
proof -
  have d: "due \<notin> pk_Seq ` set ps" "pk_Payload p = drop k (pay (unat due))" "due < - 1" using assms by (auto simp: part_ok_def)
  have "1 + due \<noteq> 0" using d(3) by (metis add.inverse_unique less_irrefl)
  then show u: "unat (due + 1) = Suc (unat due)" using unatSuc [of due] by (simp add: add.commute)
  have "due + 1 \<le> pk_Seq q" if "q \<in> set ps" for q
  proof -
    have "due < pk_Seq q" using assms(1) d(1) that by (auto simp: part_ok_def order_less_le)
    then show ?thesis using u by (simp add: word_le_nat_alt word_less_nat_alt)
  qed
  then show "part_ok pay 0 (due + 1) ps" using assms(1) d(1) by (auto simp: part_ok_def)
  show "sofar pay 0 (due + 1) = sofar pay k due @ pk_Payload p" unfolding sofar_def u d(2) by (simp add: append_take_drop_id)
qed

lemma part_ok_drop: "part_ok pay k due (p # ps) \<Longrightarrow> pk_Seq p \<noteq> due \<Longrightarrow> part_ok pay k due ps"
  by (auto simp: part_ok_def)


definition held :: "'r upload_queue \<Rightarrow> 'r packet list" where
  "held h = uq_heap h @ uq_pushedPackets h"

fun result_bytes :: "'r read_result \<Rightarrow> bytes" where
  "result_bytes (Returned bs err) = bs"
| "result_bytes _ = []"

fun result_error :: "'r read_result \<Rightarrow> bool" where
  "result_error (Returned bs err) = (err \<noteq> None)"
| "result_error _ = False"

definition in_order :: "(nat \<Rightarrow> bytes) \<Rightarrow> nat \<Rightarrow> 'r upload_queue \<Rightarrow> bool" where
  "in_order pay k h \<longleftrightarrow> heap_ok pk_Seq (uq_heap h) \<and> part_ok pay k (uq_nextSeq h) (held h) \<and> uq_reader h = None \<and>
     (uq_nextSeq h \<notin> pk_Seq ` set (uq_heap h) \<longrightarrow> k = 0)"

definition waits_right :: "'r upload_queue \<Rightarrow> 'r read_result \<Rightarrow> bool" where
  "waits_right h r \<longleftrightarrow> (case r of Waits_more \<Rightarrow> \<forall>p\<in>set (uq_heap h). uq_nextSeq h < pk_Seq p | Waits_first \<Rightarrow> uq_heap h = [] | Delegated x \<Rightarrow> False | Returned bs err \<Rightarrow> True)"

text \<open>What a section of a read does to the stream: it goes on where it was, and no packet gets lost without an error.\<close>

definition section_spec :: "(nat \<Rightarrow> bytes) \<Rightarrow> nat \<Rightarrow> 'r upload_queue \<Rightarrow> 'r upload_queue \<times> 'r read_result \<Rightarrow> bool" where
  "section_spec pay k h qr \<longleftrightarrow> (case qr of (h', r) \<Rightarrow>
     (\<exists>k'. in_order pay k' h' \<and> sofar pay k' (uq_nextSeq h') = sofar pay k (uq_nextSeq h) @ result_bytes r) \<and>
     uq_nextSeq h \<le> uq_nextSeq h' \<and> pk_Seq ` set (held h') \<subseteq> pk_Seq ` set (held h) \<and>
     (\<forall>x. x < uq_nextSeq h' \<longrightarrow> x < uq_nextSeq h \<or> x \<in> pk_Seq ` set (held h)) \<and>
     (\<not> result_error r \<longrightarrow> (\<forall>x \<in> pk_Seq ` set (held h). uq_nextSeq h' \<le> x \<longrightarrow> x \<in> pk_Seq ` set (held h'))) \<and> waits_right h' r)"

lemma section_spec_cong:
  assumes "mset (held h2) = mset (held h)" and "uq_nextSeq h2 = uq_nextSeq h" and "section_spec pay k h2 qr"
  shows "section_spec pay k h qr"
  using assms(3) mset_eq_setD [OF assms(1)] assms(2) by (simp add: section_spec_def split: prod.splits)

lemma in_order_cong:
  assumes "mset (held h2) = mset (held h)" and "uq_nextSeq h2 = uq_nextSeq h" and "in_order pay k h" and "heap_ok pk_Seq (uq_heap h2)" and "uq_reader h2 = None"
    and "pk_Seq ` set (uq_heap h) \<subseteq> pk_Seq ` set (uq_heap h2)"
  shows "in_order pay k h2"
  using assms part_ok_mset [OF assms(1), of pay k "uq_nextSeq h"] by (auto simp: in_order_def)

lemma section_stays:
  assumes "in_order pay k h'" and "mset (held h') = mset (held h)" and "uq_nextSeq h' = uq_nextSeq h" and "result_bytes r = []" and "waits_right h' r"
  shows "section_spec pay k h (h', r)"
  using assms mset_eq_setD [OF assms(2)] by (auto simp: section_spec_def)

text \<open>The next packet of the heap, given that it is in order: it is due, or all of them are ahead.\<close>

lemma popped:
  assumes "in_order pay k h" and "uq_heap h \<noteq> []" and "heap_Pop pk_Seq (uq_heap h) = (packet, heap)"
  shows "heap_ok pk_Seq heap" and "mset (held h) = mset (packet # heap @ uq_pushedPackets h)"
    and "part_ok pay k (uq_nextSeq h) (packet # heap @ uq_pushedPackets h)"
    and "uq_nextSeq h \<le> pk_Seq packet" and "p \<in> set (uq_heap h) \<Longrightarrow> pk_Seq packet \<le> pk_Seq p"
    and "heap_ok pk_Seq (heap_Push pk_Seq x heap)" and "mset (heap_Push pk_Seq x heap) = add_mset x (mset heap)"
    and "set (uq_heap h) = insert packet (set heap)" and "set (heap_Push pk_Seq x heap) = insert x (set heap)"
proof -
  have o: "heap_ok pk_Seq (uq_heap h)" "mset (uq_heap h) \<noteq> {#}" using assms(1,2) by (simp_all add: in_order_def)
  note u = uh.pop_ok [OF o assms(3)]
  show h: "heap_ok pk_Seq heap" and m: "mset (held h) = mset (packet # heap @ uq_pushedPackets h)" using u by (simp_all add: held_def)
  show po: "part_ok pay k (uq_nextSeq h) (packet # heap @ uq_pushedPackets h)" using assms(1) part_ok_mset [OF m, of pay k] by (simp add: in_order_def)
  then show "uq_nextSeq h \<le> pk_Seq packet" by (simp add: part_ok_def)
  show "p \<in> set (uq_heap h) \<Longrightarrow> pk_Seq packet \<le> pk_Seq p" using u by simp
  show "heap_ok pk_Seq (heap_Push pk_Seq x heap)" and b: "mset (heap_Push pk_Seq x heap) = add_mset x (mset heap)" using uh.push_ok [OF h] by simp_all
  show "set (uq_heap h) = insert packet (set heap)" using u by (metis set_mset_add_mset_insert set_mset_mset)
  show "set (heap_Push pk_Seq x heap) = insert x (set heap)" using b by (metis set_mset_add_mset_insert set_mset_mset)
qed

lemma read_loop_spec: "in_order pay k h \<Longrightarrow> section_spec pay k h (read_loop n h)"
proof (induction n h rule: read_loop.induct)
  case (1 n h)
  obtain packet heap where p: "heap_Pop pk_Seq (uq_heap h) = (packet, heap)" by fastforce
  show ?case
  proof (cases "uq_heap h = []")
    case True
    then show ?thesis using "1.prems" by (auto simp: read_loop.simps [of n h] waits_right_def intro!: section_stays)
  next
    case False
    note q = popped [OF "1.prems" False p]
    have r0: "uq_reader h = None" using "1.prems" by (simp add: in_order_def)
    consider (part) "pk_Seq packet = uq_nextSeq h" "n < length (pk_Payload packet)" | (whole) "pk_Seq packet = uq_nextSeq h" "\<not> n < length (pk_Payload packet)"
      | (big) "uq_nextSeq h < pk_Seq packet" "length heap > uq_maxPackets h"
      | (wait) "uq_nextSeq h < pk_Seq packet" "\<not> length heap > uq_maxPackets h"
      using order_le_imp_less_or_eq [OF q(4)] by metis
    then show ?thesis
    proof cases
      case part
      let ?p = "packet\<lparr>pk_Payload := drop n (pk_Payload packet)\<rparr>" let ?h = "h\<lparr>uq_heap := heap_Push pk_Seq ?p heap\<rparr>"
      have l: "n \<le> length (pk_Payload packet)" using part(2) by simp
      have m: "mset (held ?h) = mset (?p # heap @ uq_pushedPackets h)" using q(7) [of ?p] by (simp add: held_def)
      have "in_order pay (k + n) ?h" using part_ok_partial(1) [OF q(3) part(1) l] part_ok_mset [OF m, of pay "k + n" "uq_nextSeq h"] q(6) [of ?p] q(9) [of ?p] r0 part(1) by (simp add: in_order_def)
      moreover have "pk_Seq ` set (held ?h) = pk_Seq ` set (held h)" using mset_eq_setD [OF m] mset_eq_setD [OF q(2)] by simp
      ultimately have "section_spec pay k h (?h, Returned (take n (pk_Payload packet)) None)"
        using part_ok_partial(2) [OF q(3) part(1) l] by (auto simp: section_spec_def waits_right_def)
      then show ?thesis using part p False by (simp add: read_loop.simps [of n h] Let_def min_absorb1)
    next
      case whole
      let ?h = "h\<lparr>uq_heap := heap, uq_nextSeq := pk_Seq packet + 1\<rparr>"
      note d = part_ok_done [OF q(3) whole(1)]
      have "in_order pay 0 ?h" using d(1) q(1) r0 whole(1) by (simp add: in_order_def held_def)
      moreover have "pk_Seq ` set (held h) = insert (uq_nextSeq h) (pk_Seq ` set (held ?h))" using mset_eq_setD [OF q(2)] whole(1) by (simp add: held_def)
      moreover have "x = uq_nextSeq h \<or> x < uq_nextSeq h" if "x < uq_nextSeq h + 1" for x
        using that d(3) by (auto simp: word_less_nat_alt word_unat_eq_iff)
      moreover have "\<not> uq_nextSeq h + 1 \<le> uq_nextSeq h" "uq_nextSeq h \<le> uq_nextSeq h + 1" using d(3) by (simp_all add: word_le_nat_alt)
      ultimately have "section_spec pay k h (?h, Returned (pk_Payload packet) None)"
        using d(2) whole(1) by (auto simp: section_spec_def waits_right_def)
      then show ?thesis using whole p False by (simp add: read_loop.simps [of n h] Let_def min_absorb2)
    next
      case big
      let ?h = "h\<lparr>uq_heap := heap\<rparr>"
      have "in_order pay k ?h" using part_ok_drop [OF q(3)] big(1) q(1,8) r0 "1.prems" by (auto simp: in_order_def held_def)
      then have "section_spec pay k h (?h, Returned [] (Some (ErrMsg ''packet queue is too large'')))"
        using mset_eq_setD [OF q(2)] by (auto simp: section_spec_def waits_right_def held_def)
      then show ?thesis using big p False by (auto simp: read_loop.simps [of n h])
    next
      case wait
      let ?h = "h\<lparr>uq_heap := heap_Push pk_Seq packet heap\<rparr>"
      have m: "mset (held ?h) = mset (held h)" using q(2) q(7) [of packet] by (simp add: held_def)
      have "in_order pay k ?h" by (rule in_order_cong [OF m]) (use "1.prems" q(6,9) [of packet] q(8) r0 in auto)
      moreover have "\<forall>p\<in>set (heap_Push pk_Seq packet heap). uq_nextSeq h < pk_Seq p"
        using q(5,8) q(9) [of packet] wait(1) by (fastforce dest: less_le_trans)
      ultimately have "section_spec pay k h (?h, Waits_more)"
        using m by (auto simp: waits_right_def intro!: section_stays)
      then show ?thesis using wait p False by (auto simp: read_loop.simps [of n h])
    qed
  qed
qed


lemma receive_spec:
  assumes "in_order pay k h"
  shows "uq_heap h = [] \<Longrightarrow> section_spec pay k h (receive_first n h)"
    and "\<forall>p\<in>set (uq_heap h). uq_nextSeq h < pk_Seq p \<Longrightarrow> section_spec pay k h (receive_more n h)"
proof -
  let ?h = "\<lambda>p ps. h\<lparr>uq_heap := heap_Push pk_Seq p (uq_heap h), uq_pushedPackets := ps\<rparr>"
  have o: "heap_ok pk_Seq (uq_heap h)" "uq_reader h = None" using assms by (simp_all add: in_order_def)
  have l: "section_spec pay k h (read_loop n (?h p ps))" if c: "uq_pushedPackets h = p # ps" for p ps
  proof -
    have m: "mset (held (?h p ps)) = mset (held h)" using uh.push_ok [OF o(1), of p] c by (simp add: held_def)
    have "in_order pay k (?h p ps)" by (rule in_order_cong [OF m]) (use assms uh.push_ok [OF o(1), of p] o(2) in \<open>auto dest!: arg_cong [where f = set_mset]\<close>)
    from section_spec_cong [OF m _ read_loop_spec [OF this]] show ?thesis by simp
  qed
  have "pk_Reader p = None" if "uq_pushedPackets h = p # ps" for p ps using assms that by (simp add: in_order_def part_ok_def held_def)
  then show "uq_heap h = [] \<Longrightarrow> section_spec pay k h (receive_first n h)"
    using l assms by (auto simp: receive_first_def waits_right_def intro!: section_stays split: list.splits)
  show "\<forall>p\<in>set (uq_heap h). uq_nextSeq h < pk_Seq p \<Longrightarrow> section_spec pay k h (receive_more n h)"
    using l assms by (auto simp: receive_more_def waits_right_def intro!: section_stays split: list.splits)
qed

lemma Read_spec: "in_order pay k h \<Longrightarrow> section_spec pay k h (uq_Read n h)"
  using read_loop_spec [of pay k h n]
  by (auto simp: uq_Read_def in_order_def waits_right_def intro!: section_stays split: option.splits)

definition good_packets :: "(nat \<Rightarrow> bytes) \<Rightarrow> 'r packet list \<Rightarrow> bool" where
  "good_packets pay ps \<longleftrightarrow> distinct (map pk_Seq ps) \<and> (\<forall>p\<in>set ps. pk_Reader p = None \<and> pk_Seq p < - 1 \<and> pk_Payload p = pay (unat (pk_Seq p)))"

definition at_right :: "reader_at \<Rightarrow> 'r upload_queue \<Rightarrow> bool" where
  "at_right a h \<longleftrightarrow> (case a of Idle \<Rightarrow> True | At_first n \<Rightarrow> uq_heap h = [] | At_more n \<Rightarrow> \<forall>p\<in>set (uq_heap h). uq_nextSeq h < pk_Seq p)"

definition run_ok :: "(nat \<Rightarrow> bytes) \<Rightarrow> 'r upload_run \<Rightarrow> bool" where
  "run_ok pay s \<longleftrightarrow>
     (\<exists>k. in_order pay k (ur_q s) \<and> ur_out s = sofar pay k (uq_nextSeq (ur_q s))) \<and>
     pk_Seq ` set (held (ur_q s)) \<subseteq> pk_Seq ` set (ur_pushed s) \<and>
     (\<forall>x < uq_nextSeq (ur_q s). x \<in> pk_Seq ` set (ur_pushed s)) \<and>
     (\<not> ur_lost s \<longrightarrow> (\<forall>x \<in> pk_Seq ` set (ur_pushed s). uq_nextSeq (ur_q s) \<le> x \<longrightarrow> x \<in> pk_Seq ` set (held (ur_q s)))) \<and>
     at_right (ur_at s) (ur_q s)"

lemma at_right_cong: "uq_heap q = uq_heap h \<Longrightarrow> uq_nextSeq q = uq_nextSeq h \<Longrightarrow> at_right a q = at_right a h"
  by (simp add: at_right_def split: reader_at.splits)

lemma after_run_ok:
  assumes "run_ok pay s" and "\<And>k. in_order pay k (ur_q s) \<Longrightarrow> section_spec pay k (ur_q s) qr"
  shows "run_ok pay (after_section n qr s)"
proof -
  obtain h' r where qr: "qr = (h', r)" by fastforce
  obtain k where k: "in_order pay k (ur_q s)" "ur_out s = sofar pay k (uq_nextSeq (ur_q s))" using assms(1) by (auto simp: run_ok_def)
  have out: "ur_out (after_section n qr s) = ur_out s @ result_bytes r" "ur_q (after_section n qr s) = h'" "ur_pushed (after_section n qr s) = ur_pushed s"
    "ur_lost (after_section n qr s) = (ur_lost s \<or> result_error r)"
    by (simp_all add: qr after_section_def split: read_result.splits)
  note sp = assms(2) [OF k(1), unfolded section_spec_def qr prod.case]
  have w: "at_right (ur_at (after_section n qr s)) h'"
    using sp by (cases r) (simp_all add: qr after_section_def waits_right_def at_right_def)
  note old = assms(1) [unfolded run_ok_def]
  from sp obtain k' where k': "in_order pay k' h'" "sofar pay k' (uq_nextSeq h') = sofar pay k (uq_nextSeq (ur_q s)) @ result_bytes r" by (elim conjE exE)
  then have "\<exists>k'. in_order pay k' h' \<and> ur_out s @ result_bytes r = sofar pay k' (uq_nextSeq h')" using k(2) by auto
  moreover have "pk_Seq ` set (held h') \<subseteq> pk_Seq ` set (ur_pushed s)" using sp old by (elim conjE) (rule subset_trans)
  moreover have "\<forall>x < uq_nextSeq h'. x \<in> pk_Seq ` set (ur_pushed s)"
  proof -
    have "\<forall>x. x < uq_nextSeq h' \<longrightarrow> x < uq_nextSeq (ur_q s) \<or> x \<in> pk_Seq ` set (held (ur_q s))" using sp by blast
    moreover have "pk_Seq ` set (held (ur_q s)) \<subseteq> pk_Seq ` set (ur_pushed s)" "\<forall>x < uq_nextSeq (ur_q s). x \<in> pk_Seq ` set (ur_pushed s)" using old by blast+
    ultimately show ?thesis by blast
  qed
  moreover have "x \<in> pk_Seq ` set (held h')" if "\<not> (ur_lost s \<or> result_error r)" "x \<in> pk_Seq ` set (ur_pushed s)" "uq_nextSeq h' \<le> x" for x
  proof -
    have "uq_nextSeq (ur_q s) \<le> x" using sp that(3) by (meson order_trans)
    then have "x \<in> pk_Seq ` set (held (ur_q s))" using that(1,2) old by blast
    then show ?thesis using sp that(1,3) by blast
  qed
  ultimately show ?thesis using w unfolding run_ok_def out by blast
qed

lemma push_run_ok:
  assumes "run_ok pay s" and "uq_Push p (ur_q s) = (q, None)" and "good_packets pay (ur_pushed s @ [p])"
  shows "run_ok pay (s\<lparr>ur_q := q, ur_pushed := ur_pushed s @ [p]\<rparr>)"
proof -
  obtain k where k: "in_order pay k (ur_q s)" "ur_out s = sofar pay k (uq_nextSeq (ur_q s))" using assms(1) by (auto simp: run_ok_def)
  have q: "held q = held (ur_q s) @ [p]" "uq_heap q = uq_heap (ur_q s)" "uq_nextSeq q = uq_nextSeq (ur_q s)" "uq_reader q = uq_reader (ur_q s)"
    using assms(2) by (auto simp: uq_Push_def held_def split: if_splits)
  note old = assms(1) [unfolded run_ok_def]
  have p: "pk_Seq p \<notin> pk_Seq ` set (ur_pushed s)" "pk_Reader p = None" "pk_Seq p < - 1" "pk_Payload p = pay (unat (pk_Seq p))"
    using assms(3) by (auto simp: good_packets_def)
  then have n: "pk_Seq p \<notin> pk_Seq ` set (held (ur_q s))" "uq_nextSeq (ur_q s) \<le> pk_Seq p" using old by (blast, meson not_le)
  have o: "part_ok pay k (uq_nextSeq (ur_q s)) (held (ur_q s))" using k(1) by (simp add: in_order_def)
  have "k = 0" if "pk_Seq p = uq_nextSeq (ur_q s)" using o n(1) that by (simp add: part_ok_def)
  then have "part_ok pay k (uq_nextSeq (ur_q s)) (held (ur_q s) @ [p])" using o p n by (auto simp: part_ok_def)
  then have "in_order pay k q" using k(1) q by (simp add: in_order_def)
  then have "\<exists>k. in_order pay k q \<and> ur_out s = sofar pay k (uq_nextSeq q)" using k(2) q(3) by auto
  moreover have "pk_Seq ` set (held q) \<subseteq> pk_Seq ` set (ur_pushed s @ [p])" using old q(1) by auto
  moreover have "\<forall>x < uq_nextSeq q. x \<in> pk_Seq ` set (ur_pushed s @ [p])" using old q(3) by auto
  moreover have "\<not> ur_lost s \<longrightarrow> (\<forall>x \<in> pk_Seq ` set (ur_pushed s @ [p]). uq_nextSeq q \<le> x \<longrightarrow> x \<in> pk_Seq ` set (held q))" using old q(1,3) by auto
  moreover have "at_right (ur_at s) q" using old at_right_cong [OF q(2,3)] by simp
  ultimately show ?thesis unfolding run_ok_def by simp
qed

lemma close_run_ok:
  assumes "run_ok pay s"
  shows "run_ok pay (s\<lparr>ur_q := close_begin (ur_q s), ur_lost := True, ur_closing := c\<rparr>)"
    and "uq_pushedPackets (ur_q s) = p # ps \<Longrightarrow> run_ok pay (s\<lparr>ur_q := close_take p ps (ur_q s), ur_lost := True\<rparr>)"
    and "run_ok pay (s\<lparr>ur_q := close_end (ur_q s), ur_closing := c\<rparr>)"
proof -
  let ?h = "ur_q s"
  obtain k where k: "in_order pay k ?h" "ur_out s = sofar pay k (uq_nextSeq ?h)" using assms by (auto simp: run_ok_def)
  note old = assms [unfolded run_ok_def]
  show "run_ok pay (s\<lparr>ur_q := close_begin ?h, ur_lost := True, ur_closing := c\<rparr>)" "run_ok pay (s\<lparr>ur_q := close_end ?h, ur_closing := c\<rparr>)"
    using assms by (auto simp: run_ok_def in_order_def close_begin_def close_end_def held_def at_right_def split: reader_at.splits)
  assume c: "uq_pushedPackets ?h = p # ps"
  let ?q = "close_take p ps ?h"
  have "pk_Reader p = None" using k(1) c by (simp add: in_order_def part_ok_def held_def)
  then have q: "uq_heap ?q = uq_heap ?h" "held ?q = uq_heap ?h @ ps" "uq_nextSeq ?q = uq_nextSeq ?h" "uq_reader ?q = uq_reader ?h"
    by (simp_all add: close_take_def held_def)
  have "in_order pay k ?q" using k(1) c by (auto simp: in_order_def part_ok_def q held_def [of ?h])
  moreover have "at_right (ur_at s) ?q" using old at_right_cong [OF q(1,3)] by simp
  moreover have "pk_Seq ` set (held ?q) \<subseteq> pk_Seq ` set (ur_pushed s)" using old c by (auto simp: q held_def [of ?h])
  ultimately show "run_ok pay (s\<lparr>ur_q := ?q, ur_lost := True\<rparr>)" using old k(2) q(3) by (auto simp: run_ok_def)
qed

lemma after_section_pushed: "ur_pushed (after_section n qr s) = ur_pushed s"
  by (simp add: after_section_def split: prod.splits read_result.splits)

lemma reach_run_ok: "upload_reach m s \<Longrightarrow> good_packets pay (ur_pushed s) \<Longrightarrow> run_ok pay s"
proof (induction rule: upload_reach.induct)
  case start
  then show ?case
    by (auto simp: run_ok_def new_run_def NewUploadQueue_def in_order_def part_ok_def held_def heap_ok_def sofar_def at_right_def intro!: exI [of _ 0])
next
  case (step s s')
  from step.hyps(2) step.prems step.IH show ?case
  proof (cases rule: upload_step.cases)
    case (push p q)
    then show ?thesis using step.prems step.IH by (auto simp: good_packets_def intro!: push_run_ok)
  next
    case closes
    then show ?thesis using step.prems step.IH by (auto intro!: close_run_ok)
  next
    case (takes p ps)
    then show ?thesis using step.prems step.IH by (auto intro!: close_run_ok)
  next
    case closed
    then show ?thesis using step.prems step.IH by (auto intro!: close_run_ok)
  next
    case (read n)
    then have "run_ok pay s" using step.prems step.IH by (simp add: after_section_pushed)
    then show ?thesis unfolding read(1) by (rule after_run_ok) (rule Read_spec)
  next
    case (first n)
    then have r: "run_ok pay s" using step.prems step.IH by (simp add: after_section_pushed)
    then have "uq_heap (ur_q s) = []" using first(2) by (simp add: run_ok_def at_right_def)
    then show ?thesis unfolding first(1) by (intro after_run_ok [OF r] receive_spec)
  next
    case (more n)
    then have r: "run_ok pay s" using step.prems step.IH by (simp add: after_section_pushed)
    then have "\<forall>p\<in>set (uq_heap (ur_q s)). uq_nextSeq (ur_q s) < pk_Seq p" using more(2) by (simp add: run_ok_def at_right_def)
    then show ?thesis unfolding more(1) by (intro after_run_ok [OF r] receive_spec(2))
  qed
qed


text \<open>
  C8. The reader gets the stream in order, however packets with a payload, with different numbers below \<open>2 ^ 64 - 1\<close>, arrive, also while the queue is being closed:
  what it has read is the payloads of packets 0, 1, 2 and so on up to the packet that is due and perhaps a part of that one, and all of these were pushed.
\<close>

theorem upload_in_order:
  assumes "upload_reach m s" and "good_packets pay (ur_pushed s)"
  shows "(\<exists>k. ur_out s = concat (map pay [0..<unat (uq_nextSeq (ur_q s))]) @ take k (pay (unat (uq_nextSeq (ur_q s))))) \<and>
    (\<forall>x < uq_nextSeq (ur_q s). x \<in> pk_Seq ` set (ur_pushed s))"
  using reach_run_ok [OF assms] by (auto simp: run_ok_def sofar_def)

text \<open>
  C33. A reader waits at the channel only for a packet that nobody has pushed yet: if it waits, the channel is empty and nothing
  was given up, then the packet that is due has not been pushed.
\<close>

theorem upload_waits_for_missing:
  assumes "upload_reach m s" and "good_packets pay (ur_pushed s)" and "ur_at s \<noteq> Idle" and "uq_pushedPackets (ur_q s) = []" and "\<not> ur_lost s"
  shows "uq_nextSeq (ur_q s) \<notin> pk_Seq ` set (ur_pushed s)"
proof
  assume "uq_nextSeq (ur_q s) \<in> pk_Seq ` set (ur_pushed s)"
  then have "uq_nextSeq (ur_q s) \<in> pk_Seq ` set (uq_heap (ur_q s))"
    using reach_run_ok [OF assms(1,2)] assms(4,5) by (auto simp: run_ok_def held_def)
  moreover have "at_right (ur_at s) (ur_q s)" using reach_run_ok [OF assms(1,2)] by (simp add: run_ok_def)
  ultimately show False using assms(3) by (auto simp: at_right_def split: reader_at.splits)
qed

section \<open>Examples, and what goes wrong\<close>

definition data_packet :: "u64 \<Rightarrow> bytes \<Rightarrow> nat packet" where
  "data_packet n bs = \<lparr>pk_Reader = None, pk_Payload = bs, pk_Seq = n\<rparr>"

definition with_packets :: "nat packet list \<Rightarrow> nat upload_queue" where
  "with_packets ps = fold (\<lambda>p h. fst (uq_Push p h)) ps (NewUploadQueue 10)"

fun reads :: "nat list \<Rightarrow> nat upload_queue \<Rightarrow> nat upload_queue \<times> nat read_result list" where
  "reads [] h = (h, [])"
| "reads (n # ns) h = (case Read_alone n h of (h, r) \<Rightarrow> (case reads ns h of (h, rs) \<Rightarrow> (h, r # rs)))"

text \<open>
  A packet that arrives twice corrupts the stream, if both copies wait in the heap and the reader takes the packet in
  parts: after the first part of one copy the reader gets the same bytes from the other.
\<close>

theorem upload_duplicate_repeats:
  "map result_bytes (snd (reads [8, 1, 1, 1] (with_packets [data_packet 1 [65, 66], data_packet 1 [65, 66], data_packet 0 [7]]))) = [[7], [65], [65], [66]] \<and>
   map result_bytes (snd (reads [8, 1, 1] (with_packets [data_packet 1 [65, 66], data_packet 0 [7]]))) = [[7], [65], [66]]"
  by code_simp

text \<open>
  A streaming request that arrives while the reader waits for a missing packet is taken for an empty packet with number zero:
  its body is never read, and no further packet is accepted.
\<close>

theorem upload_reader_swallowed:
  "(let (h, r) = Read_alone 8 (with_packets [data_packet 1 [65], \<lparr>pk_Reader = Some 5, pk_Payload = [], pk_Seq = 0\<rparr>]) in
     (result_bytes r, uq_reader h, uq_nextSeq h, snd (uq_Push (data_packet 0 [7]) h))) =
   ([], None, 1, Some (ErrMsg ''h.reader already exists''))"
  by code_simp


definition run_push :: "nat packet \<Rightarrow> nat upload_run \<Rightarrow> nat upload_run" where
  "run_push p s = s\<lparr>ur_q := fst (uq_Push p (ur_q s)), ur_pushed := ur_pushed s @ [p]\<rparr>"

definition run_read :: "nat \<Rightarrow> nat upload_run \<Rightarrow> nat upload_run" where
  "run_read n s = after_section n (uq_Read n (ur_q s)) s"

definition run_first :: "nat \<Rightarrow> nat upload_run \<Rightarrow> nat upload_run" where
  "run_first n s = after_section n (receive_first n (ur_q s)) s"

definition run_more :: "nat \<Rightarrow> nat upload_run \<Rightarrow> nat upload_run" where
  "run_more n s = after_section n (receive_more n (ur_q s)) s"

lemma run_push_step:
  "length (uq_pushedPackets (ur_q s)) < uq_maxPackets (ur_q s) \<Longrightarrow> snd (uq_Push p (ur_q s)) = None \<Longrightarrow> upload_step s (run_push p s)"
  unfolding run_push_def by (rule upload_step.push) (auto simp: prod_eq_iff)

lemma run_read_step: "ur_at s = Idle \<Longrightarrow> upload_step s (run_read n s)"
  unfolding run_read_def by (rule upload_step.read)

lemma run_first_step: "ur_at s = At_first n \<Longrightarrow> upload_step s (run_first n s)"
  unfolding run_first_def by (rule upload_step.first)

lemma run_more_step: "ur_at s = At_more n \<Longrightarrow> upload_step s (run_more n s)"
  unfolding run_more_def by (rule upload_step.more)

lemmas run_steps = run_push_step run_read_step run_first_step run_more_step

definition example_wait :: "nat upload_run" where
  "example_wait = run_first 8 (run_read 8 (run_push (data_packet 1 [65, 66]) (new_run 10)))"

definition example_run :: "nat upload_run" where
  "example_run = run_read 1 (run_more 8 (run_push (data_packet 0 [7]) example_wait))"

lemma example_wait_reach: "upload_reach 10 example_wait"
  unfolding example_wait_def by (rule upload_reach.step [OF _ run_first_step], rule upload_reach.step [OF _ run_read_step],
    rule upload_reach.step [OF _ run_push_step], rule upload_reach.start) code_simp+

lemma example_run_reach: "upload_reach 10 example_run"
  unfolding example_run_def by (rule upload_reach.step [OF _ run_read_step], rule upload_reach.step [OF _ run_more_step],
    rule upload_reach.step [OF _ run_push_step], rule example_wait_reach) code_simp+

theorem upload_bounded_witness: "length (uq_heap (ur_q example_run)) \<le> 10 + 2 \<and> length (uq_pushedPackets (ur_q example_run)) \<le> max 1 10"
  by (rule upload_bounded [OF example_run_reach])

theorem upload_in_order_witness:
  "ur_pushed example_run = [data_packet 1 [65, 66], data_packet 0 [7]] \<and> ur_out example_run = [7, 65] \<and>
   (\<exists>k. ur_out example_run = concat (map (\<lambda>i. if i = 0 then [7] else [65, 66]) [0..<unat (uq_nextSeq (ur_q example_run))]) @ take k [65, 66])"
proof -
  have g: "good_packets (\<lambda>i. if i = 0 then [7] else [65, 66]) (ur_pushed example_run)" by code_simp
  have e: "ur_pushed example_run = [data_packet 1 [65, 66], data_packet 0 [7]]" "ur_out example_run = [7, 65]" "uq_nextSeq (ur_q example_run) = 1" by code_simp+
  show ?thesis using upload_in_order [OF example_run_reach g] e(1,2) unfolding e(3) by simp
qed

theorem upload_waits_for_missing_witness: "uq_nextSeq (ur_q example_wait) \<notin> pk_Seq ` set (ur_pushed example_wait)"
proof (rule upload_waits_for_missing [OF example_wait_reach])
  show "good_packets (\<lambda>i. [65, 66]) (ur_pushed example_wait)" by code_simp
  show "ur_at example_wait \<noteq> Idle" "uq_pushedPackets (ur_q example_wait) = []" "\<not> ur_lost example_wait" by code_simp+
qed

end
