(* ===== verification/ChunkStream.thy ===== *)
theory ChunkStream
  imports BufIo
begin

text \<open>
  Chunks with a size in front (\<open>common/crypto/chunk.go\<close>), the framing below the streams of VMess and inside a mux
  frame.  The codec of the size is an argument with a state of its own, since sealed sizes count their nonces;
  \<open>PlainChunkSizeParser\<close> is the one that mux uses.  The array of the next buffer from the pool is \<open>pool k\<close>.
\<close>

section \<open>State and operations\<close>

record 'd size_decoder =
  sd_SizeBytes :: nat
  sd_Decode :: "'d \<Rightarrow> bytes \<Rightarrow> 'd \<times> u16 res"

record 'e size_encoder =
  se_SizeBytes :: int
  se_Encode :: "'e \<Rightarrow> u16 \<Rightarrow> 'e \<times> bytes"

definition PlainChunkSizeParser :: "unit size_decoder" where
  "PlainChunkSizeParser = \<lparr>sd_SizeBytes = 2, sd_Decode = (\<lambda>d b. (d, be_u16 b))\<rparr>"

definition PlainChunkSizeEncoder :: "unit size_encoder" where
  "PlainChunkSizeEncoder = \<lparr>se_SizeBytes = 2, se_Encode = (\<lambda>d sz. (d, put_u16 sz))\<rparr>"

record ('r, 'd) chunk_reader =
  cr_sizeDecoder :: 'd
  cr_reader :: "'r buffered_reader"
  cr_leftOverSize :: int
  cr_maxNumChunk :: u32
  cr_numChunk :: u32
  cr_k :: nat

definition NewChunkStreamReaderWithChunkCount :: "'d \<Rightarrow> 'r buffered_reader \<Rightarrow> u32 \<Rightarrow> ('r, 'd) chunk_reader" where
  "NewChunkStreamReaderWithChunkCount dec reader maxNumChunk =
     \<lparr>cr_sizeDecoder = dec, cr_reader = reader, cr_leftOverSize = 0, cr_maxNumChunk = maxNumChunk, cr_numChunk = 0, cr_k = 0\<rparr>"

definition NewChunkStreamReader :: "'d \<Rightarrow> 'r buffered_reader \<Rightarrow> ('r, 'd) chunk_reader" where
  "NewChunkStreamReader dec reader = NewChunkStreamReaderWithChunkCount dec reader 0"

definition readSize :: "'d size_decoder \<Rightarrow> 'r mbreader \<Rightarrow> ('r, 'd) chunk_reader \<Rightarrow> (('r, 'd) chunk_reader \<times> u16 \<times> goerr option) res" where
  "readSize sd rd r =
     rbind (br_ReadFull rd (sd_SizeBytes sd) (cr_reader r)) (\<lambda>(bs, err, x).
       let r = r\<lparr>cr_reader := x\<rparr> in
       if err \<noteq> None then Ok (r, 0, err)
       else
         (case sd_Decode sd (cr_sizeDecoder r) bs of
            (d, Ok sz) \<Rightarrow> Ok (r\<lparr>cr_sizeDecoder := d\<rparr>, sz, None)
          | (d, Err e) \<Rightarrow> Ok (r\<lparr>cr_sizeDecoder := d\<rparr>, 0, Some e)
          | (d, Panic p) \<Rightarrow> Panic p))"

definition read_chunk_part :: "'r mbreader \<Rightarrow> (nat \<Rightarrow> bytes) \<Rightarrow> int \<Rightarrow> ('r, 'd) chunk_reader mbreader" where
  "read_chunk_part rd pool sz r =
     (let r = r\<lparr>cr_leftOverSize := sz, cr_k := Suc (cr_k r)\<rparr> in
      rbind (br_ReadAtMost rd (pool (cr_k r)) sz (cr_reader r)) (\<lambda>(x, mb, err).
        let r = r\<lparr>cr_reader := x\<rparr> in
        if \<not> mb_IsEmpty mb then Ok (r\<lparr>cr_leftOverSize := i32 (cr_leftOverSize r - mb_Len mb)\<rparr>, mb, None)
        else Ok (r, [], err)))"

definition chunk_ReadMultiBuffer :: "'d size_decoder \<Rightarrow> 'r mbreader \<Rightarrow> (nat \<Rightarrow> bytes) \<Rightarrow> ('r, 'd) chunk_reader mbreader" where
  "chunk_ReadMultiBuffer sd rd pool r =
     (if cr_leftOverSize r = 0 then
        (let r = r\<lparr>cr_numChunk := cr_numChunk r + 1\<rparr> in
         if cr_maxNumChunk r > 0 \<and> cr_numChunk r > cr_maxNumChunk r then Ok (r, [], Some EOF)
         else
           rbind (readSize sd rd r) (\<lambda>(r, nextSize, err).
             if err \<noteq> None then Ok (r, [], err)
             else if nextSize = 0 then Ok (r, [], Some EOF)
             else read_chunk_part rd pool (uint nextSize) r))
      else read_chunk_part rd pool (cr_leftOverSize r) r)"

record ('w, 'e) chunk_writer =
  ck_sizeEncoder :: 'e
  ck_writer :: 'w

definition NewChunkStreamWriter :: "'e \<Rightarrow> 'w \<Rightarrow> ('w, 'e) chunk_writer" where
  "NewChunkStreamWriter enc writer = \<lparr>ck_sizeEncoder = enc, ck_writer = writer\<rparr>"

definition size_buffer :: "'e size_encoder \<Rightarrow> bytes \<Rightarrow> 'e \<Rightarrow> u16 \<Rightarrow> ('e \<times> buffer) res" where
  "size_buffer se fresh e sz =
     rbind (Extend (New fresh) (se_SizeBytes se)) (\<lambda>(b, off).
       case se_Encode se e sz of (e, bs) \<Rightarrow> Ok (e, put_at b off bs))"

partial_function (option) chunk_write_loop ::
  "'e size_encoder \<Rightarrow> (nat \<Rightarrow> bytes) \<Rightarrow> nat \<Rightarrow> 'e \<Rightarrow> multi_buffer \<Rightarrow> multi_buffer \<Rightarrow> ('e \<times> multi_buffer) res option" where
  "chunk_write_loop se pool k e mb mb2Write =
     (case SplitSize (pool k) mb 8192 of
        Err err \<Rightarrow> Some (Err err)
      | Panic p \<Rightarrow> Some (Panic p)
      | Ok (mb, part) \<Rightarrow>
          (case size_buffer se (pool (Suc k)) e (word_of_int (mb_Len part)) of
             Err err \<Rightarrow> Some (Err err)
           | Panic p \<Rightarrow> Some (Panic p)
           | Ok (e, b) \<Rightarrow>
               (let mb2Write = mb2Write @ [b] @ part in
                if mb_IsEmpty mb then Some (Ok (e, mb2Write))
                else chunk_write_loop se pool (k + 2) e mb mb2Write)))"

definition chunk_WriteMultiBuffer ::
  "'e size_encoder \<Rightarrow> 'w mbwriter \<Rightarrow> (nat \<Rightarrow> bytes) \<Rightarrow> ('w, 'e) chunk_writer \<Rightarrow> multi_buffer \<Rightarrow> (('w, 'e) chunk_writer \<times> goerr option) res" where
  "chunk_WriteMultiBuffer se wr pool w mb =
     rmap (\<lambda>(e, mb2Write). case wr (ck_writer w) mb2Write of (x, err) \<Rightarrow> (w\<lparr>ck_sizeEncoder := e, ck_writer := x\<rparr>, err))
       (returns (chunk_write_loop se pool 0 (ck_sizeEncoder w) mb []))"

section \<open>Reading the rest of a chunk\<close>

text \<open>A bound for the number of reads that a buffered reader still answers without an error.\<close>

definition br_size :: "source buffered_reader \<Rightarrow> nat" where
  "br_size r = length (mb_content (br_Buffer r)) + length (br_Buffer r) +
     sum_list (map (\<lambda>mb. length (mb_content mb) + length mb + 1) (src_data (br_Reader r)))"

lemma split_buffer:
  assumes "br_ok r" and "0 < sz" and "length fresh < 2147483648"
  shows "\<exists>rb mb. SplitSize fresh (br_Buffer r) sz = Ok (rb, mb) \<and> br_ok (r\<lparr>br_Buffer := nil_if_empty rb\<rparr>) \<and> regular mb \<and>
    pending (br_view r) = mb_content mb @ pending (br_view (r\<lparr>br_Buffer := nil_if_empty rb\<rparr>)) \<and> int (length (mb_content mb)) \<le> sz \<and>
    (if br_Buffer r = [] then br_size (r\<lparr>br_Buffer := nil_if_empty rb\<rparr>) = br_size r else br_size (r\<lparr>br_Buffer := nil_if_empty rb\<rparr>) < br_size r)"
proof -
  obtain rb mb where s: "SplitSize fresh (br_Buffer r) sz = Ok (rb, mb)" "regular rb" "regular mb"
    "mb_content mb @ mb_content rb = mb_content (br_Buffer r)" "int (length (mb_content mb)) \<le> sz"
    "br_Buffer r \<noteq> [] \<longrightarrow> length (mb_content rb) + length rb < length (mb_content (br_Buffer r)) + length (br_Buffer r)"
    using SplitSize_regular [of "br_Buffer r" fresh sz] assms by (auto simp: br_ok_def)
  have l: "length (nil_if_empty rb) \<le> length rb" by (simp add: nil_if_empty_def)
  have n: "rb = []" if "br_Buffer r = []" using s(1) that by (simp add: SplitSize_def)
  have "br_ok (r\<lparr>br_Buffer := nil_if_empty rb\<rparr>)" using s(2) arg_cong [OF s(4), of length] assms(1) by (auto simp: br_ok_def)
  with s l n show ?thesis by (auto simp: br_view_def br_size_def nil_if_empty_def regular_empty s(4) [symmetric])
qed

lemma br_ReadAtMost_stream:
  assumes "br_ok r" and "0 < sz" and "length fresh < 2147483648"
  shows "\<exists>r' mb. br_ReadAtMost source_read fresh sz r = Ok (r', mb, None) \<and> br_ok r' \<and> regular mb \<and>
      pending (br_view r) = mb_content mb @ pending (br_view r') \<and> ending (br_view r') = ending (br_view r) \<and>
      int (length (mb_content mb)) \<le> sz \<and> br_size r' < br_size r
    \<or> br_ReadAtMost source_read fresh sz r = Ok (r, [], Some (ending (br_view r))) \<and> pending (br_view r) = []"
proof (cases "mb_IsEmpty (br_Buffer r)")
  case False
  then have "br_Buffer r \<noteq> []" by auto
  with split_buffer [OF assms] False show ?thesis by (auto simp: br_ReadAtMost_def br_view_def)
next
  case True
  then have b: "mb_content (br_Buffer r) = []" using assms(1) by (simp add: br_ok_def regular_empty)
  show ?thesis
  proof (cases "src_data (br_Reader r)")
    case Nil
    have "src_last (br_Reader r) = []" using assms(1) by (simp add: br_ok_def)
    moreover have "r\<lparr>br_Reader := br_Reader r\<rparr> = r" by simp
    ultimately show ?thesis using Nil True b by (auto simp: br_ReadAtMost_def source_read_def br_view_def)
  next
    case (Cons d ds)
    define x where "x = r\<lparr>br_Reader := (br_Reader r)\<lparr>src_data := ds\<rparr>, br_Buffer := d\<rparr>"
    have x: "br_ok x" "br_view x = br_view r" "br_size x < br_size r"
      using assms(1) Cons b by (auto simp: x_def br_ok_def br_view_def br_size_def)
    have "br_ReadAtMost source_read fresh sz r = rmap (\<lambda>(rb, mb). (x\<lparr>br_Buffer := nil_if_empty rb\<rparr>, mb, None)) (SplitSize fresh (br_Buffer x) sz)"
      using True Cons by (simp add: br_ReadAtMost_def source_read_def x_def Let_def)
    with split_buffer [OF x(1) assms(2,3)] x show ?thesis by (auto simp: br_view_def split: if_splits)
  qed
qed

lemma pool_okD: "pool_ok pool \<Longrightarrow> length (pool k) < 2147483648"
  by (simp add: pool_ok_def)

text \<open>Where a chunk reader stands: as many bytes left over, and what the reader below still has.\<close>

definition chunk_at :: "('d \<Rightarrow> bool) \<Rightarrow> u32 \<Rightarrow> u32 \<Rightarrow> nat \<Rightarrow> bytes \<Rightarrow> goerr \<Rightarrow> (source, 'd) chunk_reader \<Rightarrow> bool" where
  "chunk_at D m n l bs e r \<longleftrightarrow> br_ok (cr_reader r) \<and> D (cr_sizeDecoder r) \<and> cr_maxNumChunk r = m \<and> cr_numChunk r = n \<and>
     cr_leftOverSize r = int l \<and> br_view (cr_reader r) = \<lparr>pending = bs, ending = e\<rparr>"

lemma stream_eqI: "pending s = bs \<Longrightarrow> ending s = e \<Longrightarrow> (s :: stream) = \<lparr>pending = bs, ending = e\<rparr>"
  by simp

lemma read_part:
  assumes "chunk_at D m n l0 bs e r" and "0 < l" and "l < 2147483648" and "pool_ok pool"
  shows "(\<exists>r' mb bs'. read_chunk_part source_read pool (int l) r = Ok (r', mb, None) \<and> regular mb \<and> length (mb_content mb) \<le> l \<and>
      bs = mb_content mb @ bs' \<and> chunk_at D m n (l - length (mb_content mb)) bs' e r' \<and> br_size (cr_reader r') < br_size (cr_reader r))
    \<or> (\<exists>r'. read_chunk_part source_read pool (int l) r = Ok (r', [], Some e) \<and> bs = [] \<and> chunk_at D m n l [] e r')"
proof -
  have ok: "br_ok (cr_reader r)" "br_view (cr_reader r) = \<lparr>pending = bs, ending = e\<rparr>" using assms(1) by (simp_all add: chunk_at_def)
  have l: "0 < int l" using assms(2) by simp
  from br_ReadAtMost_stream [OF ok(1) l pool_okD [OF assms(4), of "Suc (cr_k r)"]] show ?thesis
  proof (elim disjE exE conjE)
    fix x mb
    assume rd: "br_ReadAtMost source_read (pool (Suc (cr_k r))) (int l) (cr_reader r) = Ok (x, mb, None)" "br_ok x" "regular mb"
      "pending (br_view (cr_reader r)) = mb_content mb @ pending (br_view x)" "ending (br_view x) = ending (br_view (cr_reader r))"
      "int (length (mb_content mb)) \<le> int l" "br_size x < br_size (cr_reader r)"
    have bl: "length bs < 2147483648" using ok by (auto simp: br_ok_def br_view_def)
    have len: "mb_Len mb = int (length (mb_content mb))"
      using rd(3,6) assms(3) by (intro mb_Len_content) (auto simp: regular_def)
    have "i32 (int l - mb_Len mb) = int (l - length (mb_content mb))" using len rd(6) assms(3) by simp
    moreover have "br_view x = \<lparr>pending = pending (br_view x), ending = e\<rparr>" using rd(5) ok(2) by (intro stream_eqI) simp_all
    moreover define r' where "r' = r\<lparr>cr_reader := x, cr_k := Suc (cr_k r), cr_leftOverSize := int (l - length (mb_content mb))\<rparr>"
    ultimately have "chunk_at D m n (l - length (mb_content mb)) (pending (br_view x)) e r'" "cr_reader r' = x"
      using rd(2) assms(1) by (auto simp: chunk_at_def)
    moreover have "read_chunk_part source_read pool (int l) r = Ok (r', if mb_IsEmpty mb then [] else mb, None)"
      using rd(1,3) \<open>i32 _ = _\<close> by (auto simp: read_chunk_part_def r'_def Let_def regular_empty)
    ultimately show ?thesis using rd ok(2)
      by (intro disjI1 exI [of _ r'] exI [of _ "if mb_IsEmpty mb then [] else mb"] exI [of _ "pending (br_view x)"]) (auto simp: regular_empty)
  next
    assume "br_ReadAtMost source_read (pool (Suc (cr_k r))) (int l) (cr_reader r) = Ok (cr_reader r, [], Some (ending (br_view (cr_reader r))))"
      "pending (br_view (cr_reader r)) = []"
    then show ?thesis using assms(1) ok by (intro disjI2) (auto simp: read_chunk_part_def chunk_at_def Let_def)
  qed
qed

lemma leftover_delivers:
  assumes "chunk_at D m n l bs e r" and "0 < l" and "l \<le> length bs" and "l < 2147483648" and "pool_ok pool"
  shows "\<exists>mbs r'. list_all regular mbs \<and> concat (map mb_content mbs) = take l bs \<and> chunk_at D m n 0 (drop l bs) e r' \<and>
    (\<forall>mbs' e' r''. delivers (chunk_ReadMultiBuffer sd source_read pool) r' mbs' e' r'' \<longrightarrow>
       delivers (chunk_ReadMultiBuffer sd source_read pool) r (mbs @ mbs') e' r'')"
  using assms(1-4)
proof (induction "br_size (cr_reader r)" arbitrary: r l bs rule: less_induct)
  case less
  have c: "chunk_ReadMultiBuffer sd source_read pool r = read_chunk_part source_read pool (int l) r"
    using less.prems by (simp add: chunk_ReadMultiBuffer_def chunk_at_def)
  have "bs \<noteq> []" using less.prems by auto
  then obtain r1 mb bs' where rd: "read_chunk_part source_read pool (int l) r = Ok (r1, mb, None)" "regular mb" "length (mb_content mb) \<le> l"
    "bs = mb_content mb @ bs'" "chunk_at D m n (l - length (mb_content mb)) bs' e r1" "br_size (cr_reader r1) < br_size (cr_reader r)"
    using read_part [OF less.prems(1,2,4) assms(5)] by auto
  show ?case
  proof (cases "length (mb_content mb) = l")
    case True
    then show ?thesis using rd c
      by (intro exI [of _ "[mb]"] exI [of _ r1]) (auto intro: delivers.step)
  next
    case False
    then obtain mbs r' where ih: "list_all regular mbs" "concat (map mb_content mbs) = take (l - length (mb_content mb)) bs'"
      "chunk_at D m n 0 (drop (l - length (mb_content mb)) bs') e r'"
      "\<forall>mbs' e' r''. delivers (chunk_ReadMultiBuffer sd source_read pool) r' mbs' e' r'' \<longrightarrow>
         delivers (chunk_ReadMultiBuffer sd source_read pool) r1 (mbs @ mbs') e' r''"
      using less.hyps [OF rd(6,5)] rd(3,4) less.prems(2-4) by fastforce
    moreover have "delivers (chunk_ReadMultiBuffer sd source_read pool) r ((mb # mbs) @ mbs') e' r''"
      if "delivers (chunk_ReadMultiBuffer sd source_read pool) r' mbs' e' r''" for mbs' e' r''
      using that ih(4) c rd(1) by (auto intro: delivers.step)
    ultimately show ?thesis using rd(2,3,4) by (intro exI [of _ "mb # mbs"] exI [of _ r']) auto
  qed
qed

text \<open>
  What the stream of a mux frame is: one chunk.  A reader with chunk count one delivers it and leaves the rest alone.
\<close>

lemma plain_size:
  assumes "chunk_at D m n 0 (put_u16 sz @ bs) e r"
  shows "\<exists>r'. readSize PlainChunkSizeParser source_read r = Ok (r', sz, None) \<and> chunk_at D m n 0 bs e r'"
proof -
  have "br_ok (cr_reader r)" using assms by (simp add: chunk_at_def)
  from br.rf [OF this, of 2] obtain x where "br_ReadFull source_read 2 (cr_reader r) = Ok (put_u16 sz, None, x)" "br_ok x"
    "br_view x = \<lparr>pending = bs, ending = e\<rparr>"
    using assms by (auto simp: chunk_at_def)
  then show ?thesis using assms by (simp add: readSize_def PlainChunkSizeParser_def chunk_at_def)
qed

lemma chunk_delivers:
  assumes "chunk_at D m n 0 (put_u16 sz @ bs) e r" and "sz \<noteq> 0" and "\<not> (m > 0 \<and> n + 1 > m)" and "unat sz \<le> length bs" and "pool_ok pool"
  shows "\<exists>mbs r'. list_all regular mbs \<and> concat (map mb_content mbs) = take (unat sz) bs \<and> chunk_at D m (n + 1) 0 (drop (unat sz) bs) e r' \<and>
    (\<forall>mbs' e' r''. delivers (chunk_ReadMultiBuffer PlainChunkSizeParser source_read pool) r' mbs' e' r'' \<longrightarrow>
       delivers (chunk_ReadMultiBuffer PlainChunkSizeParser source_read pool) r (mbs @ mbs') e' r'')"
proof -
  let ?rd = "chunk_ReadMultiBuffer PlainChunkSizeParser source_read pool"
  have "chunk_at D m (n + 1) 0 (put_u16 sz @ bs) e (r\<lparr>cr_numChunk := cr_numChunk r + 1\<rparr>)" using assms(1) by (simp add: chunk_at_def)
  from plain_size [OF this] obtain r1 where r1: "readSize PlainChunkSizeParser source_read (r\<lparr>cr_numChunk := cr_numChunk r + 1\<rparr>) = Ok (r1, sz, None)"
    "chunk_at D m (n + 1) 0 bs e r1" by blast
  have c: "?rd r = read_chunk_part source_read pool (int (unat sz)) r1"
    using assms r1(1) by (auto simp: chunk_ReadMultiBuffer_def chunk_at_def Let_def)
  have sz: "0 < unat sz" "unat sz < 2147483648" using assms(2) unsigned_less [of sz, where 'a = nat] by (auto simp: unat_gt_0)
  then have "bs \<noteq> []" using assms(4) by auto
  with read_part [OF r1(2) sz assms(5)] obtain r2 mb bs' where r2: "?rd r = Ok (r2, mb, None)" "regular mb" "length (mb_content mb) \<le> unat sz"
    "bs = mb_content mb @ bs'" "chunk_at D m (n + 1) (unat sz - length (mb_content mb)) bs' e r2"
    unfolding c by auto
  show ?thesis
  proof (cases "length (mb_content mb) = unat sz")
    case True
    then show ?thesis using r2 by (intro exI [of _ "[mb]"] exI [of _ r2]) (auto intro: delivers.step)
  next
    case False
    then obtain mbs r' where ih: "list_all regular mbs" "concat (map mb_content mbs) = take (unat sz - length (mb_content mb)) bs'"
      "chunk_at D m (n + 1) 0 (drop (unat sz - length (mb_content mb)) bs') e r'"
      "\<forall>mbs' e' r''. delivers ?rd r' mbs' e' r'' \<longrightarrow> delivers ?rd r2 (mbs @ mbs') e' r''"
      using leftover_delivers [OF r2(5) _ _ _ assms(5), of PlainChunkSizeParser] r2(3,4) assms(4) sz(2) by fastforce
    moreover have "delivers ?rd r ((mb # mbs) @ mbs') e' r''" if "delivers ?rd r' mbs' e' r''" for mbs' e' r''
      using that ih(4) r2(1) by (auto intro: delivers.step)
    ultimately show ?thesis using r2(2,3,4) by (intro exI [of _ "mb # mbs"] exI [of _ r']) auto
  qed
qed

lemma chunk_limit:
  assumes "chunk_at D m n 0 bs e r" and "m > 0 \<and> n + 1 > m"
  shows "\<exists>r'. delivers (chunk_ReadMultiBuffer sd source_read pool) r [[]] EOF r' \<and> chunk_at D m (n + 1) 0 bs e r'"
proof -
  have "chunk_ReadMultiBuffer sd source_read pool r = Ok (r\<lparr>cr_numChunk := cr_numChunk r + 1\<rparr>, [], Some EOF)"
    using assms by (simp add: chunk_ReadMultiBuffer_def chunk_at_def Let_def)
  from delivers.last [of "chunk_ReadMultiBuffer sd source_read pool", OF this] assms(1) show ?thesis by (auto simp: chunk_at_def)
qed

lemma chunk_end:
  assumes "chunk_at D m n 0 (put_u16 0 @ bs) e r" and "\<not> (m > 0 \<and> n + 1 > m)"
  shows "\<exists>r'. delivers (chunk_ReadMultiBuffer PlainChunkSizeParser source_read pool) r [[]] EOF r' \<and> chunk_at D m (n + 1) 0 bs e r'"
proof -
  have "chunk_at D m (n + 1) 0 (put_u16 0 @ bs) e (r\<lparr>cr_numChunk := cr_numChunk r + 1\<rparr>)" using assms(1) by (simp add: chunk_at_def)
  from plain_size [OF this] obtain r1 where r1: "readSize PlainChunkSizeParser source_read (r\<lparr>cr_numChunk := cr_numChunk r + 1\<rparr>) = Ok (r1, 0, None)"
    "chunk_at D m (n + 1) 0 bs e r1" by blast
  then have "chunk_ReadMultiBuffer PlainChunkSizeParser source_read pool r = Ok (r1, [], Some EOF)"
    using assms by (auto simp: chunk_ReadMultiBuffer_def chunk_at_def Let_def)
  then show ?thesis using r1(2) delivers.last by fastforce
qed

section \<open>Writing chunks\<close>

text \<open>The bytes of some chunks.\<close>

fun chunk_bytes :: "bytes list \<Rightarrow> bytes" where
  "chunk_bytes [] = []"
| "chunk_bytes (c # cs) = put_u16 (word_of_nat (length c)) @ c @ chunk_bytes cs"

lemma chunk_bytes_append [simp]: "chunk_bytes (cs @ cs') = chunk_bytes cs @ chunk_bytes cs'"
  by (induction cs) auto

lemma SplitSize_takes:
  assumes "regular mb" and "length (mb_content mb) < 2147483648" and "mb_content mb \<noteq> []" and "SplitSize p mb 8192 = Ok (rest, r)"
  shows "mb_content r \<noteq> []"
proof -
  obtain b mb' where mb: "mb = b # mb'" "buf_wf b" "length (content b) \<le> 8192" using assms(1,3) by (cases mb) auto
  then have l: "split_size_loop mb 0 8192 = (rest, r)" using assms(4) by (simp add: SplitSize_def Len_content)
  note sp = split_size_loop_spec [OF regular_wf [OF assms(1)] _ _ l]
  then have m: "r @ rest = mb" using assms(2) by simp
  show ?thesis
  proof (cases rest)
    case Nil
    with m assms(3) show ?thesis by simp
  next
    case (Cons h t)
    then have "buf_wf h" "length (content h) \<le> 8192" using m assms(1) by auto
    with Cons sp assms(2) show ?thesis by (auto simp: Len_content)
  qed
qed

lemma plain_size_buffer:
  assumes "length fresh < 2147483648"
  shows "\<exists>b. size_buffer PlainChunkSizeEncoder fresh u sz = Ok (u, b) \<and> buf_wf b \<and> content b = put_u16 sz"
  using New_Extend [OF assms, of 2 "put_u16 sz"] by (auto simp: size_buffer_def PlainChunkSizeEncoder_def)

lemma chunk_write_loop_bytes:
  assumes "regular mb" and "length (mb_content mb) < 2147483648" and "pool_ok pool"
  shows "\<exists>cs mb2. chunk_write_loop PlainChunkSizeEncoder pool k u mb acc = Some (Ok (u, acc @ mb2)) \<and> mb_wf mb2 \<and>
    mb_content mb2 = chunk_bytes cs \<and> concat cs = mb_content mb \<and> list_all (\<lambda>c. length c \<le> 8192) cs \<and>
    (if mb_content mb = [] then cs = [[]] else list_all (\<lambda>c. c \<noteq> []) cs)"
  using assms(1,2)
proof (induction "length (mb_content mb)" arbitrary: mb k acc rule: less_induct)
  case less
  obtain rest r where s: "SplitSize (pool k) mb 8192 = Ok (rest, r)" "regular rest" "regular r" "mb_content r @ mb_content rest = mb_content mb"
    "length (mb_content r) \<le> 8192"
    using SplitSize_regular [OF less.prems(1) pool_okD [OF assms(3)] less.prems(2), of 8192 k] by auto
  have l: "word_of_int (mb_Len r) = (word_of_nat (length (mb_content r)) :: u16)"
    using mb_Len_content [OF regular_wf [OF s(3)]] s(5) by simp
  obtain b where b: "size_buffer PlainChunkSizeEncoder (pool (Suc k)) u (word_of_int (mb_Len r)) = Ok (u, b)" "buf_wf b"
    "content b = put_u16 (word_of_nat (length (mb_content r)))"
    using plain_size_buffer [OF pool_okD [OF assms(3)], of "Suc k" u] l by metis
  show ?case
  proof (cases "mb_content rest = []")
    case True
    then have "chunk_write_loop PlainChunkSizeEncoder pool k u mb acc = Some (Ok (u, acc @ [b] @ r))"
      using s b by (subst chunk_write_loop.simps) (simp add: regular_empty)
    then show ?thesis using True s b regular_wf [OF s(3)] by (intro exI [of _ "[mb_content r]"] exI [of _ "[b] @ r"]) auto
  next
    case False
    then have ne: "mb_content mb \<noteq> []" using s(4) by auto
    note t = SplitSize_takes [OF less.prems ne s(1)]
    then have lt: "length (mb_content rest) < length (mb_content mb)" using arg_cong [OF s(4), of length] by (cases "mb_content r") auto
    obtain cs mb2 where ih: "chunk_write_loop PlainChunkSizeEncoder pool (k + 2) u rest (acc @ [b] @ r) = Some (Ok (u, (acc @ [b] @ r) @ mb2))" "mb_wf mb2"
      "mb_content mb2 = chunk_bytes cs" "concat cs = mb_content rest" "list_all (\<lambda>c. length c \<le> 8192) cs" "list_all (\<lambda>c. c \<noteq> []) cs"
      using less.hyps [OF lt s(2), of "k + 2" "acc @ [b] @ r"] lt less.prems(2) False by auto
    have "chunk_write_loop PlainChunkSizeEncoder pool k u mb acc = Some (Ok (u, acc @ ([b] @ r @ mb2)))"
      using s b ih(1) False by (subst chunk_write_loop.simps) (simp add: regular_empty)
    then show ?thesis using s b ih t ne regular_wf [OF s(3)]
      by (intro exI [of _ "mb_content r # cs"] exI [of _ "[b] @ r @ mb2"]) auto
  qed
qed

text \<open>Several writes, one after another.\<close>

fun chunk_writes :: "'e size_encoder \<Rightarrow> 'w mbwriter \<Rightarrow> (nat \<Rightarrow> nat \<Rightarrow> bytes) \<Rightarrow> ('w, 'e) chunk_writer \<Rightarrow> multi_buffer list \<Rightarrow> ('w, 'e) chunk_writer res" where
  "chunk_writes se wr pools w [] = Ok w"
| "chunk_writes se wr pools w (mb # mbs) =
     rbind (chunk_WriteMultiBuffer se wr (pools (length mbs)) w mb) (\<lambda>(w, err). chunk_writes se wr pools w mbs)"

lemma chunk_writes_bytes:
  assumes "list_all (\<lambda>mb. regular mb \<and> length (mb_content mb) < 2147483648) mbs" and "\<forall>i. pool_ok (pools i)" and "mb_wf (ck_writer w)"
  shows "\<exists>w' css. chunk_writes PlainChunkSizeEncoder container_sink pools w mbs = Ok w' \<and> mb_wf (ck_writer w') \<and>
    mb_content (ck_writer w') = mb_content (ck_writer w) @ chunk_bytes (concat css) \<and> map concat css = map mb_content mbs \<and>
    list_all (list_all (\<lambda>c. length c \<le> 8192)) css \<and>
    list_all (\<lambda>cs. cs = [[]] \<or> list_all (\<lambda>c. c \<noteq> []) cs \<and> cs \<noteq> []) css"
  using assms(1,3)
proof (induction mbs arbitrary: w)
  case (Cons mb mbs)
  obtain cs mb2 where c: "chunk_write_loop PlainChunkSizeEncoder (pools (length mbs)) 0 (ck_sizeEncoder w) mb [] = Some (Ok (ck_sizeEncoder w, mb2))" "mb_wf mb2"
    "mb_content mb2 = chunk_bytes cs" "concat cs = mb_content mb" "list_all (\<lambda>c. length c \<le> 8192) cs"
    "if mb_content mb = [] then cs = [[]] else list_all (\<lambda>c. c \<noteq> []) cs"
    using chunk_write_loop_bytes [of mb "pools (length mbs)" 0 "ck_sizeEncoder w" "[]"] Cons.prems assms(2) by auto
  let ?w = "w\<lparr>ck_writer := ck_writer w @ mb2\<rparr>"
  have "chunk_WriteMultiBuffer PlainChunkSizeEncoder container_sink (pools (length mbs)) w mb = Ok (?w, None)"
    using c(1) by (simp add: chunk_WriteMultiBuffer_def returns_def container_sink_def container_WriteMultiBuffer_def MergeMulti_def)
  moreover obtain w' css where "chunk_writes PlainChunkSizeEncoder container_sink pools ?w mbs = Ok w'" "mb_wf (ck_writer w')"
    "mb_content (ck_writer w') = mb_content (ck_writer ?w) @ chunk_bytes (concat css)" "map concat css = map mb_content mbs"
    "list_all (list_all (\<lambda>c. length c \<le> 8192)) css" "list_all (\<lambda>cs. cs = [[]] \<or> list_all (\<lambda>c. c \<noteq> []) cs \<and> cs \<noteq> []) css"
    using Cons.IH [of ?w] Cons.prems c(2) by auto
  ultimately show ?case using c by (intro exI [of _ w'] exI [of _ "cs # css"]) (auto split: if_splits)
qed (auto intro: exI [of _ "[]"])

section \<open>Properties\<close>

lemma chunks_deliver:
  assumes "chunk_at D 0 n 0 (chunk_bytes cs @ put_u16 0 @ bs) e r" and "list_all (\<lambda>c. c \<noteq> [] \<and> length c \<le> 8192) cs" and "pool_ok pool"
  shows "\<exists>mbs r' n'. delivers (chunk_ReadMultiBuffer PlainChunkSizeParser source_read pool) r mbs EOF r' \<and> list_all regular mbs \<and>
    concat (map mb_content mbs) = concat cs \<and> chunk_at D 0 n' 0 bs e r'"
  using assms(1,2)
proof (induction cs arbitrary: n r)
  case Nil
  then show ?case using chunk_end [of D 0 n bs e r pool] by fastforce
next
  case (Cons c cs)
  let ?sz = "word_of_nat (length c) :: u16"
  have c: "c \<noteq> []" "length c \<le> 8192" using Cons.prems(2) by auto
  then have sz: "unat ?sz = length c" by (simp add: unat_of_nat)
  then have "?sz \<noteq> 0" using c(1) by (metis length_0_conv unsigned_0)
  from chunk_delivers [OF _ this, of D 0 n "c @ chunk_bytes cs @ put_u16 0 @ bs" e r pool] Cons.prems(1) sz assms(3)
  obtain mbs r' where 1: "list_all regular mbs" "concat (map mb_content mbs) = c" "chunk_at D 0 (n + 1) 0 (chunk_bytes cs @ put_u16 0 @ bs) e r'"
    "\<forall>mbs' e' r''. delivers (chunk_ReadMultiBuffer PlainChunkSizeParser source_read pool) r' mbs' e' r'' \<longrightarrow>
       delivers (chunk_ReadMultiBuffer PlainChunkSizeParser source_read pool) r (mbs @ mbs') e' r''" by auto
  from Cons.IH [OF 1(3)] Cons.prems(2) obtain mbs' r'' n' where
    "delivers (chunk_ReadMultiBuffer PlainChunkSizeParser source_read pool) r' mbs' EOF r''" "list_all regular mbs'"
    "concat (map mb_content mbs') = concat cs" "chunk_at D 0 n' 0 bs e r''" by auto
  with 1 show ?case by (intro exI [of _ "mbs @ mbs'"] exI [of _ r''] exI [of _ n']) auto
qed

text \<open>
  C19. A chunk stream arrives as it was written: what a chunk writer makes of any lists of buffers that hold data and of a final empty one,
  followed by anything and delivered in any pieces, is copied out of a chunk reader completely, in order and without an error, and the
  reader stops right behind the chunk that ends the stream.
\<close>

theorem chunk_stream_roundtrip:
  assumes "list_all (\<lambda>mb. regular mb \<and> mb_content mb \<noteq> [] \<and> length (mb_content mb) < 2147483648) mbs" and "\<forall>i. pool_ok (pools i)" and "pool_ok pool"
    and "br_ok r" and "chunk_writes PlainChunkSizeEncoder container_sink pools (NewChunkStreamWriter () []) (mbs @ [[]]) = Ok w"
    and "br_view r = \<lparr>pending = mb_content (ck_writer w) @ rest, ending = e\<rparr>"
  shows "\<exists>r' w'. buf_Copy (chunk_ReadMultiBuffer PlainChunkSizeParser source_read pool) container_sink noOptions (NewChunkStreamReader () r) [] () = Ok (r', w', (), None) \<and>
    mb_content w' = concat (map mb_content mbs) \<and> br_view (cr_reader r') = \<lparr>pending = rest, ending = e\<rparr>"
proof -
  have "list_all (\<lambda>mb. regular mb \<and> length (mb_content mb) < 2147483648) (mbs @ [[]])" using assms(1) by (auto simp: list_all_iff)
  from chunk_writes_bytes [OF this assms(2), of "NewChunkStreamWriter () []"] assms(5) obtain css where css:
    "mb_content (ck_writer w) = chunk_bytes (concat css)" "map concat css = map mb_content (mbs @ [[]])" "list_all (list_all (\<lambda>c. length c \<le> 8192)) css"
    "list_all (\<lambda>cs. cs = [[]] \<or> list_all (\<lambda>c. c \<noteq> []) cs \<and> cs \<noteq> []) css"
    by (auto simp: NewChunkStreamWriter_def)
  obtain fs l where fl: "css = fs @ [l]" "map concat fs = map mb_content mbs" "concat l = []"
    using css(2) by (cases css rule: rev_cases) auto
  have l: "l = [[]]" using css(4) fl(1,3) by (cases l) auto
  have "concat cs \<noteq> []" if "cs \<in> set fs" for cs
  proof -
    have "concat cs \<in> set (map mb_content mbs)" using that fl(2) by (metis image_eqI list.set_map)
    then show ?thesis using assms(1) by (auto simp: list_all_iff simp del: concat_eq_Nil_conv)
  qed
  then have "cs \<noteq> [[]]" if "cs \<in> set fs" for cs using that by fastforce
  then have "list_all (\<lambda>c. c \<noteq> [] \<and> length c \<le> 8192) (concat fs)" using css(3,4) fl(1) by (fastforce simp: list_all_iff)
  moreover have "chunk_at (\<lambda>_. True) 0 0 0 (chunk_bytes (concat fs) @ put_u16 0 @ rest) e (NewChunkStreamReader () r)"
    using assms(4,6) css(1) fl(1) l by (simp add: chunk_at_def NewChunkStreamReader_def NewChunkStreamReaderWithChunkCount_def)
  ultimately obtain ds r' n' where d: "delivers (chunk_ReadMultiBuffer PlainChunkSizeParser source_read pool) (NewChunkStreamReader () r) ds EOF r'"
    "list_all regular ds" "concat (map mb_content ds) = concat (concat fs)" "chunk_at (\<lambda>_. True) 0 n' 0 rest e r'"
    using chunks_deliver assms(3) by blast
  have "list_all mb_wf ds" using d(2) by (auto simp: list_all_iff regular_def)
  from cs_io.feed_sink [OF _ this, of "[]"] obtain w' where w': "feed container_sink [] ds = Some w'" "mb_content w' = concat (map mb_content ds)" by auto
  have "concat (concat fs) = concat (map concat fs)" by (induction fs) auto
  with buf_Copy_delivers [OF d(1) w'(1), of noOptions "()"] w'(2) d(3,4) fl(2) show ?thesis by (auto simp: chunk_at_def)
qed

lemma short_write:
  assumes "buf_wf b" and "length (content b) \<le> 8192" and "pool_ok pool"
  shows "\<exists>sb. chunk_write_loop PlainChunkSizeEncoder pool k u [b] acc = Some (Ok (u, acc @ [sb, b])) \<and> buf_wf sb \<and>
    content sb = put_u16 (word_of_nat (length (content b)))"
    and "\<exists>sb. chunk_write_loop PlainChunkSizeEncoder pool k u [] acc = Some (Ok (u, acc @ [sb])) \<and> buf_wf sb \<and> content sb = put_u16 0"
  using plain_size_buffer [OF pool_okD [OF assms(3)], of "Suc k" u] assms(1,2)
  by (subst chunk_write_loop.simps, force simp: SplitSize_def Len_content mb_Len_def)+

definition seven_eight :: buffer where
  "seven_eight = append_at_end (New []) [7, 8]"

theorem chunk_stream_roundtrip_witness:
  "\<exists>w r' w'. chunk_writes PlainChunkSizeEncoder container_sink (\<lambda>_ _. []) (NewChunkStreamWriter () []) [[seven_eight], []] = Ok w \<and>
    buf_Copy (chunk_ReadMultiBuffer PlainChunkSizeParser source_read (\<lambda>_. [])) container_sink noOptions
      (NewChunkStreamReader () \<lparr>br_Reader = \<lparr>src_data = [ck_writer w], src_last = [], src_end = EOF\<rparr>, br_Buffer = [], br_Splitter = None\<rparr>) [] () = Ok (r', w', (), None) \<and>
    mb_content w' = [7, 8]"
proof -
  have b: "buf_wf seven_eight" "content seven_eight = [7, 8]" using appended_New [of "[7, 8]"] by (simp_all add: seven_eight_def)
  have p: "pool_ok (\<lambda>_. [])" by (simp add: pool_ok_def)
  obtain s1 s2 where s: "chunk_write_loop PlainChunkSizeEncoder (\<lambda>_. []) 0 () [seven_eight] [] = Some (Ok ((), [s1, seven_eight]))" "buf_wf s1" "content s1 = put_u16 2"
    "chunk_write_loop PlainChunkSizeEncoder (\<lambda>_. []) 0 () [] [] = Some (Ok ((), [s2]))" "buf_wf s2" "content s2 = put_u16 0"
    using short_write [OF b(1) _ p, of 0 "()" "[]"] b(2) by auto
  define w where "w = \<lparr>ck_sizeEncoder = (), ck_writer = [s1, seven_eight, s2]\<rparr>"
  have w: "chunk_writes PlainChunkSizeEncoder container_sink (\<lambda>_ _. []) (NewChunkStreamWriter () []) ([[seven_eight]] @ [[]]) = Ok w"
    using s by (simp add: chunk_WriteMultiBuffer_def returns_def container_sink_def container_WriteMultiBuffer_def MergeMulti_def NewChunkStreamWriter_def w_def)
  define r where "r = \<lparr>br_Reader = \<lparr>src_data = [ck_writer w], src_last = [], src_end = EOF\<rparr>, br_Buffer = [], br_Splitter = None\<rparr>"
  have "br_ok r" "br_view r = \<lparr>pending = mb_content (ck_writer w) @ [], ending = EOF\<rparr>" using s b by (simp_all add: r_def br_ok_def br_view_def w_def)
  from chunk_stream_roundtrip [OF _ _ p this(1) w this(2)] b w show ?thesis by (auto simp: pool_ok_def r_def)
qed

end
