(* ===== verification/MuxServer.thy ===== *)
theory MuxServer
  imports MuxSession MuxWriter ChunkStream SafeRead
begin

text \<open>
  The two ends of a mux connection that take frames apart: the server worker (\<open>common/mux/server.go\<close>) and the
  loop of the client worker that reads the answers (\<open>fetchOutput\<close> and its handlers in \<open>common/mux/client.go\<close>).  Both read
  frames from a buffered reader over the shared link, find the session of a frame in the table of theory \<open>MuxSession\<close> and copy
  the payload into the link of the session.  The dispatcher is a parameter: \<open>dispatch n dest\<close> is its error for the \<open>n\<close>-th request, if any.
  Its links are pipes (\<open>getLink\<close>, \<open>app/dispatcher/default.go\<close>), which closing a session of XUDP relies on.
  Writing to the \<open>l\<close>-th link fails with \<open>sv_fails l\<close> when its reader has gone.  The access log is not modelled.
\<close>

section \<open>Reading frames from a buffered reader\<close>

text \<open>The readers of theories \<open>Prelude\<close>, \<open>Buffer\<close>, \<open>MuxFrame\<close> and \<open>MuxWriter\<close>, over any reader with \<open>io.ReadFull\<close>.\<close>

type_synonym 'r full_read = "nat \<Rightarrow> 'r \<Rightarrow> (bytes \<times> goerr option \<times> 'r) res"

definition ReadUint16_on :: "'r full_read \<Rightarrow> 'r \<Rightarrow> (u16 \<times> goerr option \<times> 'r) res" where
  "ReadUint16_on rf r =
     rbind (rf 2 r) (\<lambda>(bs, err, r). if err \<noteq> None then Ok (0, err, r) else rmap (\<lambda>w. (w, None, r)) (be_u16 bs))"

definition ReadFullFrom_on :: "'r full_read \<Rightarrow> buffer \<Rightarrow> 'r \<Rightarrow> int \<Rightarrow> (buffer \<times> nat \<times> goerr option \<times> 'r) res" where
  "ReadFullFrom_on rf b r n =
     (let e = i32 (buf_end b + n) in
      if e > i32 (slen (buf_v b)) then Ok (b, 0, Some (ErrMsg ''out of bound: ''), r)
      else
        rbind (slice_range (buf_v b) (buf_end b) e) (\<lambda>dst.
          rmap (\<lambda>(bs, err, r). (append_at_end b bs, length bs, err, r)) (rf (length dst) r)))"

definition Unmarshal_on :: "'r full_read \<Rightarrow> bytes \<Rightarrow> bytes \<Rightarrow> FrameMetadata \<Rightarrow> 'r \<Rightarrow> (FrameMetadata \<times> goerr option \<times> 'r) res" where
  "Unmarshal_on rf fresh fresh2 f r =
     rbind (ReadUint16_on rf r) (\<lambda>(metaLen, err, r).
       if err \<noteq> None then Ok (f, err, r)
       else if metaLen > 512 then Ok (f, Some (ErrMsg ''invalid metalen ''), r)
       else
         rbind (ReadFullFrom_on rf (New fresh) r (uint metaLen)) (\<lambda>(b, n, err, r).
           if err \<noteq> None then Ok (f, err, r)
           else rmap (\<lambda>(f, err). (f, err, r)) (UnmarshalFromBuffer fresh2 f b)))"

record 'r packet_reader_on =
  po_reader :: 'r
  po_eof :: bool
  po_dest :: "destination option"

definition packet_ReadMultiBuffer_on :: "'r full_read \<Rightarrow> bytes \<Rightarrow> 'r packet_reader_on mbreader" where
  "packet_ReadMultiBuffer_on rf fresh r =
     (if po_eof r then Ok (r, [], Some EOF)
      else
        rbind (ReadUint16_on rf (po_reader r)) (\<lambda>(sz, err, s).
          if err \<noteq> None then Ok (r\<lparr>po_reader := s\<rparr>, [], err)
          else if uint sz > Size then Ok (r\<lparr>po_reader := s\<rparr>, [], Some (ErrMsg ''packet size too large: ''))
          else
            rbind (ReadFullFrom_on rf (New fresh) s (uint sz)) (\<lambda>(b, n, err, s).
              if err \<noteq> None then Ok (r\<lparr>po_reader := s\<rparr>, [], err)
              else
                (let b = (case po_dest r of
                            Some d \<Rightarrow> if dest_Network d = Network_UDP then b\<lparr>buf_UDP := Some d\<rparr> else b
                          | None \<Rightarrow> b) in
                 Ok (r\<lparr>po_reader := s, po_eof := True\<rparr>, [b], None)))))"

definition NewStreamReader :: "'r buffered_reader \<Rightarrow> ('r, unit) chunk_reader" where
  "NewStreamReader reader = NewChunkStreamReaderWithChunkCount () reader 1"

text \<open>\<open>Session.NewReader\<close>: a reader by the transfer type of the session.\<close>

datatype frame_reader =
    StreamReader "(source, unit) chunk_reader"
  | PacketReader "source buffered_reader packet_reader_on"

fun session_NewReader :: "TransferType \<Rightarrow> source buffered_reader \<Rightarrow> destination \<Rightarrow> frame_reader" where
  "session_NewReader TransferTypeStream reader dest = StreamReader (NewStreamReader reader)"
| "session_NewReader TransferTypePacket reader dest = PacketReader \<lparr>po_reader = reader, po_eof = False, po_dest = Some dest\<rparr>"

fun frame_read :: "(nat \<Rightarrow> bytes) \<Rightarrow> frame_reader mbreader" where
  "frame_read pool (StreamReader r) =
     rmap (\<lambda>(r, mb, err). (StreamReader r, mb, err)) (chunk_ReadMultiBuffer PlainChunkSizeParser source_read pool r)"
| "frame_read pool (PacketReader r) =
     rmap (\<lambda>(r, mb, err). (PacketReader r, mb, err)) (packet_ReadMultiBuffer_on (br_ReadFull source_read) (pool 0) r)"

fun frame_source :: "frame_reader \<Rightarrow> source buffered_reader" where
  "frame_source (StreamReader r) = cr_reader r"
| "frame_source (PacketReader r) = po_reader r"

section \<open>The server worker\<close>

text \<open>
  Beside the table of sessions: the transfer type and the link of every session, what was written to every link, the frames
  sent back on the shared link, and the sessions whose answers a goroutine (\<open>handle\<close>) copies.
\<close>

record mux_server =
  sv_store :: mux_store
  sv_mgr :: nat
  sv_reader :: "source buffered_reader"
  sv_transfer :: "nat \<Rightarrow> TransferType"
  sv_link :: "nat \<Rightarrow> nat"
  sv_out :: "nat \<Rightarrow> multi_buffer"
  sv_fails :: "nat \<Rightarrow> goerr option"
  sv_links :: nat
  sv_xnext :: nat
  sv_down :: multi_buffer
  sv_handlers :: "nat list"
  sv_ended :: bool

definition link_writer :: "goerr option \<Rightarrow> multi_buffer mbwriter" where
  "link_writer fails out mb = (case fails of Some e \<Rightarrow> (out, Some e) | None \<Rightarrow> (out @ mb, None))"

definition new_session :: "u16 \<Rightarrow> TransferType \<Rightarrow> nat option \<Rightarrow> nat \<Rightarrow> mux_server \<Rightarrow> mux_server \<times> nat" where
  "new_session i tt x l sv =
     (let st = sv_store sv; r = st_next st;
          s = \<lparr>ms_ID = i, ms_parent = Some (sv_mgr sv), ms_closed = False, ms_XUDP = x, ms_in_pipe = True,
               ms_in_interrupted = False, ms_out_closed = False, ms_in_eof = False\<rparr> in
      (sv\<lparr>sv_store := set_sess r s (st\<lparr>st_next := r + 1\<rparr>), sv_transfer := (sv_transfer sv)(r := tt), sv_link := (sv_link sv)(r := l)\<rparr>, r))"

definition copy_discard :: "(nat \<Rightarrow> bytes) \<Rightarrow> mux_server \<Rightarrow> (mux_server \<times> goerr option) res" where
  "copy_discard pool sv =
     rmap (\<lambda>(r, w, c, err). (sv\<lparr>sv_reader := cr_reader r\<rparr>, map_option copy_Cause err))
       (buf_Copy (chunk_ReadMultiBuffer PlainChunkSizeParser source_read pool) Discard noOptions (NewStreamReader (sv_reader sv)) () ())"

definition session_close :: "int \<Rightarrow> nat \<Rightarrow> mux_server \<Rightarrow> mux_server res" where
  "session_close now s sv = rmap (\<lambda>st. sv\<lparr>sv_store := st\<rparr>) (session_Close now s (sv_store sv))"

text \<open>Copies the payload of a frame to the session; when the session does not take it, closes the session and skips the payload.\<close>

definition copy_frame :: "(nat \<Rightarrow> bytes) \<Rightarrow> int \<Rightarrow> nat \<Rightarrow> destination \<Rightarrow> mux_server \<Rightarrow> (mux_server \<times> goerr option) res" where
  "copy_frame pool now s dest sv =
     (let l = sv_link sv s; rr = session_NewReader (sv_transfer sv s) (sv_reader sv) dest in
      rbind (buf_Copy (frame_read pool) (link_writer (sv_fails sv l)) noOptions rr (sv_out sv l) ()) (\<lambda>(rr, out, c, err).
        let sv = sv\<lparr>sv_reader := frame_source rr, sv_out := (sv_out sv)(l := out)\<rparr> in
        case err of
          None \<Rightarrow> Ok (sv, None)
        | Some e \<Rightarrow>
            (if IsWriteError e then
               rbind (session_close now s sv) (\<lambda>sv.
                 rmap (\<lambda>(rr, w, c, err). (sv\<lparr>sv_reader := frame_source rr\<rparr>, map_option copy_Cause err))
                   (buf_Copy (frame_read pool) Discard noOptions rr () ()))
             else Ok (sv, Some (copy_Cause e)))))"

definition handleStatusKeepAlive :: "(nat \<Rightarrow> bytes) \<Rightarrow> FrameMetadata \<Rightarrow> mux_server \<Rightarrow> (mux_server \<times> goerr option) res" where
  "handleStatusKeepAlive pool meta sv = (if Has (fm_Option meta) OptionData then copy_discard pool sv else Ok (sv, None))"

definition handleStatusEnd :: "(nat \<Rightarrow> bytes) \<Rightarrow> int \<Rightarrow> FrameMetadata \<Rightarrow> mux_server \<Rightarrow> (mux_server \<times> goerr option) res" where
  "handleStatusEnd pool now meta sv =
     rbind (case Get (sv_mgr sv) (fm_SessionID meta) (sv_store sv) of Some s \<Rightarrow> session_close now s sv | None \<Rightarrow> Ok sv) (\<lambda>sv.
       if Has (fm_Option meta) OptionData then copy_discard pool sv else Ok (sv, None))"

definition handleStatusKeep :: "(nat \<Rightarrow> bytes) \<Rightarrow> int \<Rightarrow> FrameMetadata \<Rightarrow> mux_server \<Rightarrow> (mux_server \<times> goerr option) res" where
  "handleStatusKeep pool now meta sv =
     (if \<not> Has (fm_Option meta) OptionData then Ok (sv, None)
      else
        (case Get (sv_mgr sv) (fm_SessionID meta) (sv_store sv) of
           None \<Rightarrow>
             rbind (mux_writer_Close container_sink (pool 0) (NewResponseWriter (fm_SessionID meta) (sv_down sv) TransferTypeStream)) (\<lambda>(w, err).
               copy_discard pool (sv\<lparr>sv_down := mw_writer w\<rparr>))
         | Some s \<Rightarrow> copy_frame pool now s (fm_Target meta) sv))"

text \<open>A session that is complete: into the table, and a goroutine for its answers.\<close>

definition add_session :: "int \<Rightarrow> nat \<Rightarrow> mux_server \<Rightarrow> (mux_server \<times> bool) res" where
  "add_session now s sv =
     (case Add (sv_mgr sv) s (sv_store sv) of
        (st, True) \<Rightarrow> Ok (sv\<lparr>sv_store := st, sv_handlers := sv_handlers sv @ [s]\<rparr>, True)
      | (st, False) \<Rightarrow> rmap (\<lambda>sv. (sv, False)) (session_close now s (sv\<lparr>sv_store := st\<rparr>)))"

definition new_plain ::
  "(nat \<Rightarrow> destination \<Rightarrow> goerr option) \<Rightarrow> (nat \<Rightarrow> bytes) \<Rightarrow> int \<Rightarrow> FrameMetadata \<Rightarrow> mux_server \<Rightarrow> (mux_server \<times> goerr option) res" where
  "new_plain dispatch pool now meta sv =
     (case dispatch (sv_links sv) (fm_Target meta) of
        Some e \<Rightarrow>
          rmap (\<lambda>sv. (sv, Some (ErrMsg ''failed to dispatch request.'')))
            (if Has (fm_Option meta) OptionData then rmap fst (copy_discard pool sv) else Ok sv)
      | None \<Rightarrow>
          (let l = sv_links sv;
               tt = (if dest_Network (fm_Target meta) = Network_UDP then TransferTypePacket else TransferTypeStream);
               (sv, s) = new_session (fm_SessionID meta) tt None l (sv\<lparr>sv_links := Suc l\<rparr>) in
           rbind (add_session now s sv) (\<lambda>(sv, added).
             if \<not> added then Ok (sv, Some (ErrMsg ''failed to add new session''))
             else if \<not> Has (fm_Option meta) OptionData then Ok (sv, None)
             else copy_frame pool now s (fm_Target meta) sv)))"

definition set_xudp :: "nat \<Rightarrow> xudp \<Rightarrow> mux_server \<Rightarrow> mux_server" where
  "set_xudp x v sv = sv\<lparr>sv_store := (sv_store sv)\<lparr>st_xudp := (st_xudp (sv_store sv))(x := v)\<rparr>\<rparr>"

definition get_xudp :: "nat \<Rightarrow> mux_server \<Rightarrow> xudp" where
  "get_xudp x sv = st_xudp (sv_store sv) x"

text \<open>
  The entry of a global identifier, made or reused: \<open>None\<close> when the entry is being set up elsewhere; otherwise the entry, its link where
  that took the packet, and the packet where it still has to be sent.
\<close>

definition claim_xudp ::
  "bytes \<Rightarrow> int \<Rightarrow> bytes \<Rightarrow> multi_buffer \<Rightarrow> mux_server \<Rightarrow> (mux_server \<times> (nat \<times> nat option \<times> multi_buffer) option) res" where
  "claim_xudp fresh now gid mb sv =
     (case map_of (st_xmap (sv_store sv)) gid of
        None \<Rightarrow>
          (let x = sv_xnext sv; st = sv_store sv in
           Ok (set_xudp x \<lparr>xu_GlobalID = gid, xu_Status = Initializing, xu_Expire = 0, xu_Mux = None\<rparr>
                 (sv\<lparr>sv_xnext := Suc x, sv_store := st\<lparr>st_xmap := AList.update gid x (st_xmap st)\<rparr>\<rparr>), Some (x, None, mb)))
      | Some x \<Rightarrow>
          (if xu_Status (get_xudp x sv) = Initializing then Ok (sv, None)
           else
             (let sv = set_xudp x ((get_xudp x sv)\<lparr>xu_Status := Initializing\<rparr>) sv in
              case xu_Mux (get_xudp x sv) of
                None \<Rightarrow> Panic ''nil pointer dereference''
              | Some r \<Rightarrow>
                  rbind (session_close now r sv) (\<lambda>sv.
                  rbind (case mb of [] \<Rightarrow> Panic ''index out of range'' | b0 # bs \<Rightarrow>
                           rbind (Bytes b0) (\<lambda>bs. rmap (\<lambda>(b, n). b\<lparr>buf_UDP := buf_UDP b0\<rparr>) (Write (New fresh) bs))) (\<lambda>b.
                    let l = sv_link sv r in
                    case link_writer (sv_fails sv l) (sv_out sv l) mb of
                      (out, None) \<Rightarrow> Ok (sv\<lparr>sv_out := (sv_out sv)(l := out)\<rparr>, Some (x, Some l, []))
                    | (out, Some e) \<Rightarrow>
                        rmap (\<lambda>st. (sv\<lparr>sv_store := st\<rparr>, Some (x, None, [b]))) (XUDP_Interrupt x (sv_store sv)))))))"

definition new_xudp ::
  "(nat \<Rightarrow> destination \<Rightarrow> goerr option) \<Rightarrow> (nat \<Rightarrow> bytes) \<Rightarrow> int \<Rightarrow> FrameMetadata \<Rightarrow> mux_server \<Rightarrow> (mux_server \<times> goerr option) res" where
  "new_xudp dispatch pool now meta sv =
     rbind (packet_ReadMultiBuffer_on (br_ReadFull source_read) (pool 0)
              \<lparr>po_reader = sv_reader sv, po_eof = False, po_dest = Some (fm_Target meta)\<rparr>) (\<lambda>(pr, mb, err).
       let sv = sv\<lparr>sv_reader := po_reader pr\<rparr> in
       if err \<noteq> None then Ok (sv, err)
       else
         rbind (claim_xudp (pool 1) now (fm_GlobalID meta) mb sv) (\<lambda>(sv, claim).
           case claim of
             None \<Rightarrow> Ok (sv, None)
           | Some (x, link, mb) \<Rightarrow>
               (let finish = (\<lambda>l sv.
                  let (sv, s) = new_session (fm_SessionID meta) TransferTypePacket (Some x) l sv;
                      sv = set_xudp x ((get_xudp x sv)\<lparr>xu_Mux := Some s, xu_Status := Active\<rparr>) sv in
                  rmap (\<lambda>(sv, added). (sv, if added then None else Some (ErrMsg ''failed to add new session''))) (add_session now s sv)) in
                case link of
                  Some l \<Rightarrow> finish l sv
                | None \<Rightarrow>
                    (case dispatch (sv_links sv) (fm_Target meta) of
                       Some e \<Rightarrow>
                         Ok (sv\<lparr>sv_store := (sv_store sv)\<lparr>st_xmap := AList.delete (xu_GlobalID (get_xudp x sv)) (st_xmap (sv_store sv))\<rparr>\<rparr>,
                             Some (ErrMsg ''XUDP new ''))
                     | None \<Rightarrow>
                         (let l = sv_links sv in
                          finish l (sv\<lparr>sv_links := Suc l, sv_out := (sv_out sv)(l := fst (link_writer (sv_fails sv l) (sv_out sv l) mb))\<rparr>))))))"

definition handleStatusNew ::
  "(nat \<Rightarrow> destination \<Rightarrow> goerr option) \<Rightarrow> network \<Rightarrow> (nat \<Rightarrow> bytes) \<Rightarrow> int \<Rightarrow> FrameMetadata \<Rightarrow> mux_server \<Rightarrow> (mux_server \<times> goerr option) res" where
  "handleStatusNew dispatch allowed pool now meta sv =
     (if allowed \<noteq> Network_Unknown \<and> dest_Network (fm_Target meta) \<noteq> allowed then Ok (sv, Some (ErrMsg ''unexpected network ''))
      else if fm_GlobalID meta \<noteq> replicate 8 0 then new_xudp dispatch pool now meta sv
      else new_plain dispatch pool now meta sv)"

definition zero_meta :: FrameMetadata where
  "zero_meta = \<lparr>fm_Target = zero_destination, fm_SessionID = 0, fm_Option = 0, fm_SessionStatus = 0, fm_GlobalID = replicate 8 0\<rparr>"

definition handleFrame ::
  "(nat \<Rightarrow> destination \<Rightarrow> goerr option) \<Rightarrow> network \<Rightarrow> (nat \<Rightarrow> bytes) \<Rightarrow> int \<Rightarrow> mux_server \<Rightarrow> (mux_server \<times> goerr option) res" where
  "handleFrame dispatch allowed pool now sv =
     rbind (Unmarshal_on (br_ReadFull source_read) (pool 2) (pool 3) zero_meta (sv_reader sv)) (\<lambda>(meta, err, r).
       let sv = sv\<lparr>sv_reader := r\<rparr>; status = fm_SessionStatus meta in
       if err \<noteq> None then Ok (sv, Some (ErrMsg ''failed to read metadata''))
       else if status \<notin> {SessionStatusKeepAlive, SessionStatusEnd, SessionStatusNew, SessionStatusKeep}
       then Ok (sv, Some (ErrMsg ''unknown status: ''))
       else
         rmap (\<lambda>(sv, err). (sv, map_option (\<lambda>e. ErrMsg ''failed to process data'') err))
           (if status = SessionStatusKeepAlive then handleStatusKeepAlive pool meta sv
            else if status = SessionStatusEnd then handleStatusEnd pool now meta sv
            else if status = SessionStatusNew then handleStatusNew dispatch allowed pool now meta sv
            else handleStatusKeep pool now meta sv))"

text \<open>
  The loop of the worker; the context is done before the \<open>k\<close>-th frame where \<open>stop k\<close>.  When it ends, the shared link is
  given up and all sessions are closed.
\<close>

definition run_end :: "int \<Rightarrow> mux_server \<Rightarrow> mux_server res" where
  "run_end now sv = rmap (\<lambda>st. sv\<lparr>sv_store := st, sv_ended := True\<rparr>) (manager_Close now (sv_mgr sv) (sv_store sv))"

partial_function (option) run_loop ::
  "(nat \<Rightarrow> destination \<Rightarrow> goerr option) \<Rightarrow> network \<Rightarrow> (nat \<Rightarrow> nat \<Rightarrow> bytes) \<Rightarrow> (nat \<Rightarrow> int) \<Rightarrow> (nat \<Rightarrow> bool) \<Rightarrow> nat \<Rightarrow> mux_server \<Rightarrow> mux_server res option" where
  "run_loop dispatch allowed pool now stop k sv =
     (if stop k then Some (run_end (now k) sv)
      else
        (case handleFrame dispatch allowed (pool k) (now k) sv of
           Err e \<Rightarrow> Some (Err e)
         | Panic p \<Rightarrow> Some (Panic p)
         | Ok (sv, Some e) \<Rightarrow> Some (run_end (now k) sv)
         | Ok (sv, None) \<Rightarrow> run_loop dispatch allowed pool now stop (Suc k) sv))"

definition NewServerWorker :: "mux_store \<Rightarrow> nat \<Rightarrow> source \<Rightarrow> mux_server" where
  "NewServerWorker st m link =
     \<lparr>sv_store = set_mgr m NewSessionManager st, sv_mgr = m, sv_reader = \<lparr>br_Reader = link, br_Buffer = [], br_Splitter = None\<rparr>,
      sv_transfer = (\<lambda>_. TransferTypeStream), sv_link = (\<lambda>_. 0), sv_out = (\<lambda>_. []), sv_fails = (\<lambda>_. None), sv_links = 0, sv_xnext = 0,
      sv_down = [], sv_handlers = [], sv_ended = False\<rparr>"

definition server_run ::
  "(nat \<Rightarrow> destination \<Rightarrow> goerr option) \<Rightarrow> network \<Rightarrow> (nat \<Rightarrow> nat \<Rightarrow> bytes) \<Rightarrow> (nat \<Rightarrow> int) \<Rightarrow> (nat \<Rightarrow> bool) \<Rightarrow> mux_server \<Rightarrow> mux_server res" where
  "server_run dispatch allowed pool now stop sv = returns (run_loop dispatch allowed pool now stop 0 sv)"

text \<open>The goroutine that copies the answers of a session: some data, and the end.\<close>

definition handle_data :: "nat \<Rightarrow> (nat \<Rightarrow> bytes) \<Rightarrow> pools \<Rightarrow> nat \<Rightarrow> multi_buffer \<Rightarrow> mux_server \<Rightarrow> (mux_server \<times> goerr option) res" where
  "handle_data fuel pool ps s mb sv =
     rmap (\<lambda>(w, err, ps). (sv\<lparr>sv_down := mw_writer w\<rparr>, err))
       (returns (mux_WriteMultiBuffer fuel container_sink pool ps
          (NewResponseWriter (ms_ID (st_sess (sv_store sv) s)) (sv_down sv) (sv_transfer sv s)) mb))"

definition handle_end :: "bytes \<Rightarrow> int \<Rightarrow> nat \<Rightarrow> bool \<Rightarrow> mux_server \<Rightarrow> mux_server res" where
  "handle_end fresh now s failed sv =
     rbind (mux_writer_Close container_sink fresh
              ((NewResponseWriter (ms_ID (st_sess (sv_store sv) s)) (sv_down sv) (sv_transfer sv s))\<lparr>mw_hasError := failed\<rparr>)) (\<lambda>(w, err).
       session_close now s (sv\<lparr>sv_down := mw_writer w\<rparr>))"

section \<open>The client worker\<close>

text \<open>
  \<open>fetchOutput\<close> keeps one variable for the metadata of all frames and hands a pointer to its target to the packets it delivers.
  The client is the record above, whose links are those of its sessions, with this variable.
\<close>

record mux_client =
  cl_sv :: mux_server
  cl_meta :: FrameMetadata

definition client_handleStatusNew :: "(nat \<Rightarrow> bytes) \<Rightarrow> FrameMetadata \<Rightarrow> mux_server \<Rightarrow> (mux_server \<times> goerr option) res" where
  "client_handleStatusNew pool meta sv = (if Has (fm_Option meta) OptionData then copy_discard pool sv else Ok (sv, None))"

definition fetch_frame :: "(nat \<Rightarrow> bytes) \<Rightarrow> int \<Rightarrow> mux_client \<Rightarrow> (mux_client \<times> goerr option) res" where
  "fetch_frame pool now c =
     (let sv = cl_sv c in
      rbind (Unmarshal_on (br_ReadFull source_read) (pool 2) (pool 3) (cl_meta c) (sv_reader sv)) (\<lambda>(meta, err, r).
        let sv = sv\<lparr>sv_reader := r\<rparr>; c = c\<lparr>cl_sv := sv, cl_meta := meta\<rparr>; status = fm_SessionStatus meta in
        if err \<noteq> None then Ok (c, err)
        else if status \<notin> {SessionStatusKeepAlive, SessionStatusEnd, SessionStatusNew, SessionStatusKeep}
        then Ok (c, Some (ErrMsg ''unknown status: ''))
        else
          rmap (\<lambda>(sv, err). (c\<lparr>cl_sv := sv\<rparr>, err))
            (if status = SessionStatusKeepAlive then handleStatusKeepAlive pool meta sv
             else if status = SessionStatusEnd then handleStatusEnd pool now meta sv
             else if status = SessionStatusNew then client_handleStatusNew pool meta sv
             else handleStatusKeep pool now meta sv)))"

fun fetch_frames :: "nat \<Rightarrow> (nat \<Rightarrow> bytes) \<Rightarrow> int \<Rightarrow> mux_client \<Rightarrow> (mux_client \<times> goerr option) res" where
  "fetch_frames 0 pool now c = Ok (c, None)"
| "fetch_frames (Suc n) pool now c =
     rbind (fetch_frame pool now c) (\<lambda>(c, err). if err \<noteq> None then Ok (c, err) else fetch_frames n pool now c)"

text \<open>What the reader of a session's link sees when it looks: the sources are read through the pointer.\<close>

definition client_output :: "mux_client \<Rightarrow> nat \<Rightarrow> multi_buffer" where
  "client_output c l = map (\<lambda>b. b\<lparr>buf_UDP := map_option (\<lambda>_. fm_Target (cl_meta c)) (buf_UDP b)\<rparr>) (sv_out (cl_sv c) l)"

section \<open>Frames from the stream below\<close>

context full_reader
begin

lemma ReadUint16_refines:
  assumes "ok r"
  shows "\<exists>w e r'. ReadUint16_on rf r = Ok (w, e, r') \<and> ok r' \<and>
    ReadUint16 (view r) = ((case e of None \<Rightarrow> Ok w | Some e \<Rightarrow> Err e), view r')"
proof -
  obtain bs e r' where r: "rf 2 r = Ok (bs, e, r')" "ok r'" "read_full 2 (view r) = (bs, e, view r')" using rf [OF assms] by blast
  show ?thesis
  proof (cases e)
    case None
    then have "length bs = 2" using r(3) read_full_length by auto
    then have "be_u16 bs = Ok (get_u16 (bs ! 0) (bs ! 1))" by (intro be_u16_Ok) simp
    then show ?thesis using r None by (auto simp: ReadUint16_on_def ReadUint16_def)
  next
    case (Some x)
    then show ?thesis using r by (auto simp: ReadUint16_on_def ReadUint16_def)
  qed
qed

lemma ReadFullFrom_refines:
  assumes "ok r"
  shows "rmap (\<lambda>(b, n, e, r). (b, n, e, view r)) (ReadFullFrom_on rf b r n) = ReadFullFrom b (view r) n"
    and "ReadFullFrom_on rf b r n = Ok (b', k, e, r') \<Longrightarrow> ok r'"
proof -
  have *: "rmap (\<lambda>(b, n, e, r). (b, n, e, view r)) (rmap (\<lambda>(bs, err, r). (append_at_end b bs, length bs, err, r)) (rf k r)) =
      Ok (case read_full k (view r) of (bs, err, s) \<Rightarrow> (append_at_end b bs, length bs, err, s))" for k
    using rf [OF assms, of k] by auto
  show "rmap (\<lambda>(b, n, e, r). (b, n, e, view r)) (ReadFullFrom_on rf b r n) = ReadFullFrom b (view r) n"
    using * by (cases "slice_range (buf_v b) (buf_end b) (i32 (buf_end b + n))") (simp_all add: ReadFullFrom_on_def ReadFullFrom_def Let_def split: prod.splits)
  show "ReadFullFrom_on rf b r n = Ok (b', k, e, r') \<Longrightarrow> ok r'"
    using rf [OF assms] assms by (auto simp: ReadFullFrom_on_def Let_def rbind_Ok_iff rmap_Ok_iff split: if_splits) (metis prod.inject res.inject(1))
qed

lemma Unmarshal_refines:
  assumes "ok r"
  shows "rmap (\<lambda>(f, e, r). (f, e, view r)) (Unmarshal_on rf fresh fresh2 f r) = Unmarshal fresh fresh2 f (view r)"
    and "Unmarshal_on rf fresh fresh2 f r = Ok (f', e, r') \<Longrightarrow> ok r'"
proof -
  obtain w e0 r1 where u: "ReadUint16_on rf r = Ok (w, e0, r1)" "ok r1"
    "ReadUint16 (view r) = ((case e0 of None \<Rightarrow> Ok w | Some e \<Rightarrow> Err e), view r1)"
    using ReadUint16_refines [OF assms] by blast
  note f = ReadFullFrom_refines [OF u(2), of "New fresh" "uint w"]
  show "rmap (\<lambda>(f, e, r). (f, e, view r)) (Unmarshal_on rf fresh fresh2 f r) = Unmarshal fresh fresh2 f (view r)"
  proof (cases "ReadFullFrom_on rf (New fresh) r1 (uint w)")
    case (Ok x)
    obtain b n e1 r2 where x: "x = (b, n, e1, r2)" by (cases x)
    then have "ReadFullFrom (New fresh) (view r1) (uint w) = Ok (b, n, e1, view r2)" using f(1) Ok by simp
    then show ?thesis using u Ok x by (cases e0; cases "UnmarshalFromBuffer fresh2 f b") (auto simp: Unmarshal_on_def Unmarshal_def)
  next
    case (Err x)
    then have "ReadFullFrom (New fresh) (view r1) (uint w) = Err x" using f(1) by (metis rmap.simps(2))
    then show ?thesis using u Err by (cases e0) (auto simp: Unmarshal_on_def Unmarshal_def)
  next
    case (Panic x)
    then have "ReadFullFrom (New fresh) (view r1) (uint w) = Panic x" using f(1) by (metis rmap.simps(3))
    then show ?thesis using u Panic by (cases e0) (auto simp: Unmarshal_on_def Unmarshal_def)
  qed
  show "Unmarshal_on rf fresh fresh2 f r = Ok (f', e, r') \<Longrightarrow> ok r'"
    using u f(2) by (auto simp: Unmarshal_on_def rbind_Ok_iff rmap_Ok_iff split: if_splits)
qed

lemma Unmarshal_frame:
  assumes "ok r" and "view r = \<lparr>pending = frame_bytes f udp @ rest, ending = e\<rparr>" and "frame_ok f udp"
    and "length fresh < 2147483648" and "length fresh2 < 2147483648"
  shows "\<exists>r'. Unmarshal_on rf fresh fresh2 f0 r = Ok (received f0 f udp, None, r') \<and> ok r' \<and> view r' = \<lparr>pending = rest, ending = e\<rparr>"
proof -
  have u: "rmap (\<lambda>(f, e, r). (f, e, view r)) (Unmarshal_on rf fresh fresh2 f0 r) = Ok (received f0 f udp, None, \<lparr>pending = rest, ending = e\<rparr>)"
    using Unmarshal_refines(1) [OF assms(1), of fresh fresh2 f0] Unmarshal_frame_bytes(1) [OF assms(3-5), of f0 rest e] assms(2) by simp
  then obtain r' where r': "Unmarshal_on rf fresh fresh2 f0 r = Ok (received f0 f udp, None, r')" "view r' = \<lparr>pending = rest, ending = e\<rparr>"
    by (auto simp: rmap_Ok_iff)
  with Unmarshal_refines(2) [OF assms(1) r'(1)] show ?thesis by blast
qed

end

text \<open>The payload of a frame, copied and skipped.\<close>

lemma NewStreamReader_at:
  "br_ok r \<Longrightarrow> br_view r = \<lparr>pending = bs, ending = e\<rparr> \<Longrightarrow> chunk_at (\<lambda>_. True) 1 0 0 bs e (NewStreamReader r)"
  by (simp add: chunk_at_def NewStreamReader_def NewChunkStreamReaderWithChunkCount_def)

lemma payload_delivers:
  assumes "br_ok r" and "br_view r = \<lparr>pending = put_u16 (word_of_nat (length c)) @ c @ rest, ending = e\<rparr>" and "length c < 65536" and "pool_ok pool"
  shows "\<exists>mbs r'. delivers (chunk_ReadMultiBuffer PlainChunkSizeParser source_read pool) (NewStreamReader r) mbs EOF r' \<and> list_all regular mbs \<and>
    concat (map mb_content mbs) = c \<and> br_ok (cr_reader r') \<and> br_view (cr_reader r') = \<lparr>pending = rest, ending = e\<rparr>"
proof (cases "c = []")
  case True
  then have "chunk_at (\<lambda>_. True) 1 0 0 (put_u16 0 @ rest) e (NewStreamReader r)" using NewStreamReader_at [OF assms(1)] assms(2) by simp
  from chunk_end [OF this, of pool] True show ?thesis by (fastforce simp: chunk_at_def)
next
  case False
  let ?sz = "word_of_nat (length c) :: u16"
  have sz: "unat ?sz = length c" using assms(3) by (simp add: unat_of_nat)
  then have "?sz \<noteq> 0" using False by (metis length_0_conv unsigned_0)
  from chunk_delivers [OF NewStreamReader_at [OF assms(1,2)] this _ _ assms(4)] sz
  obtain mbs r1 where 1: "list_all regular mbs" "concat (map mb_content mbs) = c" "chunk_at (\<lambda>_. True) 1 (0 + 1) 0 rest e r1"
    "\<forall>mbs' e' r''. delivers (chunk_ReadMultiBuffer PlainChunkSizeParser source_read pool) r1 mbs' e' r'' \<longrightarrow>
       delivers (chunk_ReadMultiBuffer PlainChunkSizeParser source_read pool) (NewStreamReader r) (mbs @ mbs') e' r''" by auto
  obtain r' where "delivers (chunk_ReadMultiBuffer PlainChunkSizeParser source_read pool) r1 [[]] EOF r'" "chunk_at (\<lambda>_. True) 1 (0 + 1 + 1) 0 rest e r'"
    using chunk_limit [OF 1(3)] by fastforce
  with 1 show ?thesis by (intro exI [of _ "mbs @ [[]]"] exI [of _ r']) (auto simp: chunk_at_def)
qed

lemma delivers_stream:
  assumes "delivers (chunk_ReadMultiBuffer PlainChunkSizeParser source_read pool) r mbs e r'"
  shows "delivers (frame_read pool) (StreamReader r) mbs e (StreamReader r')"
  using assms by (induction rule: delivers.induct) (auto intro: delivers.intros)

lemma feed_link: "feed (link_writer None) w mbs = Some (w @ concat (filter (\<lambda>mb. \<not> mb_IsEmpty mb) mbs))"
  by (induction mbs arbitrary: w) (simp_all add: link_writer_def)

lemma concat_nonempty:
  "list_all regular mbs \<Longrightarrow> mb_content (concat (filter (\<lambda>mb. \<not> mb_IsEmpty mb) mbs)) = concat (map mb_content mbs)"
  "list_all regular mbs \<Longrightarrow> regular (concat (filter (\<lambda>mb. \<not> mb_IsEmpty mb) mbs))"
  by (induction mbs) (auto simp: regular_empty)

lemma copy_discard_payload:
  assumes "br_ok (sv_reader sv)" and "br_view (sv_reader sv) = \<lparr>pending = put_u16 (word_of_nat (length c)) @ c @ rest, ending = e\<rparr>"
    and "length c < 65536" and "pool_ok pool"
  shows "\<exists>r. copy_discard pool sv = Ok (sv\<lparr>sv_reader := r\<rparr>, None) \<and> br_ok r \<and> br_view r = \<lparr>pending = rest, ending = e\<rparr>"
proof -
  obtain mbs r' where d: "delivers (chunk_ReadMultiBuffer PlainChunkSizeParser source_read pool) (NewStreamReader (sv_reader sv)) mbs EOF r'"
    "br_ok (cr_reader r')" "br_view (cr_reader r') = \<lparr>pending = rest, ending = e\<rparr>"
    using payload_delivers [OF assms] by blast
  from buf_Copy_delivers [OF d(1) feed_Discard [of "()"], of noOptions "()"] d(2,3) show ?thesis by (auto simp: copy_discard_def)
qed

lemma copy_frame_payload:
  assumes "br_ok (sv_reader sv)" and "br_view (sv_reader sv) = \<lparr>pending = put_u16 (word_of_nat (length c)) @ c @ rest, ending = e\<rparr>"
    and "length c < 65536" and "pool_ok pool" and "sv_transfer sv s = TransferTypeStream" and "sv_fails sv (sv_link sv s) = None"
  shows "\<exists>r mb. copy_frame pool now s dest sv = Ok (sv\<lparr>sv_reader := r, sv_out := (sv_out sv)(sv_link sv s := sv_out sv (sv_link sv s) @ mb)\<rparr>, None) \<and>
    br_ok r \<and> br_view r = \<lparr>pending = rest, ending = e\<rparr> \<and> regular mb \<and> mb_content mb = c"
proof -
  obtain mbs r' where d: "delivers (chunk_ReadMultiBuffer PlainChunkSizeParser source_read pool) (NewStreamReader (sv_reader sv)) mbs EOF r'"
    "list_all regular mbs" "concat (map mb_content mbs) = c" "br_ok (cr_reader r')" "br_view (cr_reader r') = \<lparr>pending = rest, ending = e\<rparr>"
    using payload_delivers [OF assms(1-4)] by blast
  from buf_Copy_delivers [OF delivers_stream [OF d(1)] feed_link, of noOptions] d concat_nonempty [OF d(2)] assms(5,6) show ?thesis
    by (intro exI [of _ "cr_reader r'"] exI [of _ "concat (filter (\<lambda>mb. \<not> mb_IsEmpty mb) mbs)"]) (simp add: copy_frame_def Let_def)
qed

section \<open>What demultiplexing means\<close>

text \<open>The frames of stream sessions, as they are meant.\<close>

datatype uframe = FNew u16 destination bytes | FKeep u16 bytes | FEnd u16 | FAlive

fun uf_meta :: "uframe \<Rightarrow> FrameMetadata" where
  "uf_meta (FNew i d c) = zero_meta\<lparr>fm_Target := d, fm_SessionID := i, fm_Option := OptionData, fm_SessionStatus := SessionStatusNew\<rparr>"
| "uf_meta (FKeep i c) = zero_meta\<lparr>fm_SessionID := i, fm_Option := OptionData, fm_SessionStatus := SessionStatusKeep\<rparr>"
| "uf_meta (FEnd i) = zero_meta\<lparr>fm_SessionID := i, fm_SessionStatus := SessionStatusEnd\<rparr>"
| "uf_meta FAlive = zero_meta\<lparr>fm_SessionStatus := SessionStatusKeepAlive\<rparr>"

fun uf_bytes :: "uframe \<Rightarrow> bytes" where
  "uf_bytes (FNew i d c) = data_frame (uf_meta (FNew i d c)) c"
| "uf_bytes (FKeep i c) = data_frame (uf_meta (FKeep i c)) c"
| "uf_bytes f = frame_bytes (uf_meta f) None"

fun uf_ok :: "uframe \<Rightarrow> bool" where
  "uf_ok (FNew i d c) \<longleftrightarrow> dest_Network d = Network_TCP \<and> addr_ok (dest_Address d) \<and> length c < 65536"
| "uf_ok (FKeep i c) \<longleftrightarrow> length c < 65536"
| "uf_ok f \<longleftrightarrow> True"

text \<open>
  The specification: a table of sessions, the bytes of every link and the number of links.  A new session gets a link of its own, data goes to the link of its session,
  data without a session is dropped.
\<close>

type_synonym demux_state = "(u16 \<Rightarrow> nat option) \<times> (nat \<Rightarrow> bytes) \<times> nat"

fun demux :: "uframe \<Rightarrow> demux_state \<Rightarrow> demux_state" where
  "demux (FNew i d c) (T, out, n) = (T(i \<mapsto> n), out(n := c), Suc n)"
| "demux (FKeep i c) (T, out, n) = (T, (case T i of None \<Rightarrow> out | Some l \<Rightarrow> out(l := out l @ c)), n)"
| "demux (FEnd i) (T, out, n) = (T(i := None), out, n)"
| "demux FAlive (T, out, n) = (T, out, n)"

definition demux_all :: "uframe list \<Rightarrow> demux_state" where
  "demux_all fs = fold demux fs (Map.empty, (\<lambda>_. []), 0)"

definition session_live :: "mux_server \<Rightarrow> u16 \<Rightarrow> nat \<Rightarrow> bool" where
  "session_live sv i s \<longleftrightarrow> s < st_next (sv_store sv) \<and> sv_transfer sv s = TransferTypeStream \<and>
     (let x = st_sess (sv_store sv) s in ms_ID x = i \<and> ms_parent x = Some (sv_mgr sv) \<and> ms_XUDP x = None \<and> \<not> ms_closed x)"

definition table_ok :: "mux_server \<Rightarrow> bool" where
  "table_ok sv \<longleftrightarrow> (let m = st_mgr (sv_store sv) (sv_mgr sv) in
     \<not> sm_closed m \<and> distinct (map fst (sm_sessions m)) \<and> (\<forall>i s. map_of (sm_sessions m) i = Some s \<longrightarrow> session_live sv i s))"

fun server_rel :: "mux_server \<Rightarrow> demux_state \<Rightarrow> bool" where
  "server_rel sv (T, out, n) \<longleftrightarrow> br_ok (sv_reader sv) \<and> table_ok sv \<and> (\<forall>l. sv_fails sv l = None) \<and> sv_links sv = n \<and>
     (\<forall>l. mb_wf (sv_out sv l) \<and> mb_content (sv_out sv l) = out l) \<and> (\<forall>l \<ge> n. out l = []) \<and>
     (\<forall>i. T i = map_option (sv_link sv) (Get (sv_mgr sv) i (sv_store sv)))"

declare server_rel.simps [simp del]

lemmas rel_def = server_rel.simps

lemma Has_OptionData [simp]: "Has OptionData OptionData" "\<not> Has 0 OptionData"
  by (simp_all add: Has_def OptionData_def)

lemma uf_received:
  "received zero_meta (uf_meta (FNew i d c)) None = uf_meta (FNew i d c)"
  "fm_SessionID (received zero_meta (uf_meta (FKeep i c)) None) = i" "fm_Option (received zero_meta (uf_meta (FKeep i c)) None) = OptionData"
  "fm_SessionStatus (received zero_meta (uf_meta (FKeep i c)) None) = SessionStatusKeep"
  "fm_SessionID (received zero_meta (uf_meta (FEnd i)) None) = i" "fm_Option (received zero_meta (uf_meta (FEnd i)) None) = 0"
  "fm_SessionStatus (received zero_meta (uf_meta (FEnd i)) None) = SessionStatusEnd"
  "fm_Option (received zero_meta (uf_meta FAlive) None) = 0" "fm_SessionStatus (received zero_meta (uf_meta FAlive) None) = SessionStatusKeepAlive"
  by (simp_all add: received_def zero_meta_def)

lemma uf_frame_ok: "uf_ok f \<Longrightarrow> frame_ok (uf_meta f) None"
  by (cases f) (auto simp: frame_ok_def zero_meta_def SessionStatusNew_def SessionStatusKeep_def SessionStatusEnd_def SessionStatusKeepAlive_def)

lemmas statuses = SessionStatusNew_def SessionStatusKeep_def SessionStatusEnd_def SessionStatusKeepAlive_def

definition with_session :: "u16 \<Rightarrow> nat \<Rightarrow> mux_server \<Rightarrow> mux_server" where
  "with_session i l sv =
     (let st = sv_store sv; r = st_next st; m = sv_mgr sv; mg = st_mgr st m;
          s = \<lparr>ms_ID = i, ms_parent = Some m, ms_closed = False, ms_XUDP = None, ms_in_pipe = True, ms_in_interrupted = False, ms_out_closed = False, ms_in_eof = False\<rparr> in
      sv\<lparr>sv_store := set_mgr m (mg\<lparr>sm_count := sm_count mg + 1, sm_sessions := AList.update i r (sm_sessions mg)\<rparr>) (set_sess r s (st\<lparr>st_next := r + 1\<rparr>)),
         sv_transfer := (sv_transfer sv)(r := TransferTypeStream), sv_link := (sv_link sv)(r := l), sv_handlers := sv_handlers sv @ [r]\<rparr>)"

lemma add_new_session:
  assumes "table_ok sv" and "new_session i TransferTypeStream None l sv = (sv1, s)"
  shows "add_session now s sv1 = Ok (with_session i l sv, True)" and "s = st_next (sv_store sv)"
  using assms by (auto simp: new_session_def add_session_def Add_def table_ok_def with_session_def Let_def)

lemma with_session_ok:
  assumes "table_ok sv"
  shows "table_ok (with_session i l sv)"
    and "Get (sv_mgr sv) j (sv_store (with_session i l sv)) = (if j = i then Some (st_next (sv_store sv)) else Get (sv_mgr sv) j (sv_store sv))"
proof -
  have old: "session_live (with_session i l sv) k r" if "map_of (sm_sessions (st_mgr (sv_store sv) (sv_mgr sv))) k = Some r" for k r
  proof -
    have "session_live sv k r" using that assms by (simp add: table_ok_def Let_def)
    moreover have "r < st_next (sv_store sv)" using calculation by (simp add: session_live_def)
    ultimately show ?thesis by (auto simp: session_live_def with_session_def Let_def)
  qed
  have new: "session_live (with_session i l sv) i (st_next (sv_store sv))" by (simp add: session_live_def with_session_def Let_def)
  have m: "st_mgr (sv_store (with_session i l sv)) (sv_mgr sv) = (st_mgr (sv_store sv) (sv_mgr sv))\<lparr>sm_count := sm_count (st_mgr (sv_store sv) (sv_mgr sv)) + 1,
      sm_sessions := AList.update i (st_next (sv_store sv)) (sm_sessions (st_mgr (sv_store sv) (sv_mgr sv)))\<rparr>" "sv_mgr (with_session i l sv) = sv_mgr sv"
    by (simp_all add: with_session_def Let_def)
  show "table_ok (with_session i l sv)"
    using assms old new unfolding table_ok_def Let_def m by (auto simp: update_conv' distinct_update split: if_splits)
  show "Get (sv_mgr sv) j (sv_store (with_session i l sv)) = (if j = i then Some (st_next (sv_store sv)) else Get (sv_mgr sv) j (sv_store sv))"
    using assms by (simp add: Get_def m(1) table_ok_def Let_def update_conv')
qed

lemma with_session_simps [simp]:
  "sv_mgr (with_session i l sv) = sv_mgr sv" "sv_reader (with_session i l sv) = sv_reader sv" "sv_out (with_session i l sv) = sv_out sv"
  "sv_fails (with_session i l sv) = sv_fails sv" "sv_links (with_session i l sv) = sv_links sv"
  "sv_link (with_session i l sv) = (sv_link sv)(st_next (sv_store sv) := l)" "sv_transfer (with_session i l sv) = (sv_transfer sv)(st_next (sv_store sv) := TransferTypeStream)"
  by (simp_all add: with_session_def Let_def)

lemma Get_table: "table_ok sv \<Longrightarrow> Get (sv_mgr sv) i (sv_store sv) = map_of (sm_sessions (st_mgr (sv_store sv) (sv_mgr sv))) i"
  by (simp add: table_ok_def Get_def Let_def)

lemma Get_live: "table_ok sv \<Longrightarrow> Get (sv_mgr sv) i (sv_store sv) = Some s \<Longrightarrow> session_live sv i s"
  by (auto simp: Get_table) (simp add: table_ok_def Let_def)

lemma close_live:
  assumes "table_ok sv" and "session_live sv i s"
  shows "\<exists>st. session_close now s sv = Ok (sv\<lparr>sv_store := st\<rparr>) \<and> table_ok (sv\<lparr>sv_store := st\<rparr>) \<and>
    (\<forall>j. Get (sv_mgr sv) j st = (if j = i then None else Get (sv_mgr sv) j (sv_store sv))) \<and> (\<forall>r. r \<noteq> s \<longrightarrow> st_sess st r = st_sess (sv_store sv) r)"
proof -
  let ?st = "sv_store sv" and ?m = "sv_mgr sv"
  let ?st' = "set_mgr ?m ((st_mgr ?st ?m)\<lparr>sm_sessions := AList.delete i (sm_sessions (st_mgr ?st ?m))\<rparr>)
    (set_sess s ((st_sess ?st s)\<lparr>ms_closed := True, ms_in_interrupted := True, ms_out_closed := True\<rparr>) ?st)"
  have c: "session_close now s sv = Ok (sv\<lparr>sv_store := ?st'\<rparr>)"
    using assms by (auto simp: session_close_def session_Close_def session_live_def table_ok_def Remove_def Let_def)
  have "session_live (sv\<lparr>sv_store := ?st'\<rparr>) j r" if "map_of (sm_sessions (st_mgr ?st ?m)) j = Some r" "j \<noteq> i" for j r
  proof -
    have "session_live sv j r" using that(1) assms(1) by (simp add: table_ok_def Let_def)
    moreover have "r \<noteq> s" using calculation that(2) assms(2) by (auto simp: session_live_def Let_def)
    ultimately show ?thesis by (simp add: session_live_def Let_def)
  qed
  then have "table_ok (sv\<lparr>sv_store := ?st'\<rparr>)"
    using assms(1) by (auto simp: table_ok_def Let_def delete_conv' distinct_delete split: if_splits)
  moreover have "Get ?m j ?st' = (if j = i then None else Get ?m j ?st)" for j
    using assms(1) by (simp add: table_ok_def Let_def Get_def delete_conv')
  ultimately show ?thesis using c by (intro exI [of _ ?st']) simp
qed

lemma copy_frame_rel:
  assumes "server_rel sv (T, out, n)" and "br_view (sv_reader sv) = \<lparr>pending = put_u16 (word_of_nat (length c)) @ c @ rest, ending = e\<rparr>"
    and "length c < 65536" and "pool_ok pool" and "session_live sv i s" and "sv_link sv s < n"
  shows "\<exists>sv'. copy_frame pool now s dest sv = Ok (sv', None) \<and> server_rel sv' (T, out(sv_link sv s := out (sv_link sv s) @ c), n) \<and>
    br_view (sv_reader sv') = \<lparr>pending = rest, ending = e\<rparr> \<and> sv_mgr sv' = sv_mgr sv"
proof -
  have "br_ok (sv_reader sv)" "sv_transfer sv s = TransferTypeStream" "sv_fails sv (sv_link sv s) = None"
    using assms(1,5) by (simp_all add: session_live_def rel_def)
  from copy_frame_payload [OF this(1) assms(2-4) this(2,3), of now dest] obtain r mb where
    r: "copy_frame pool now s dest sv = Ok (sv\<lparr>sv_reader := r, sv_out := (sv_out sv)(sv_link sv s := sv_out sv (sv_link sv s) @ mb)\<rparr>, None)"
    "br_ok r" "br_view r = \<lparr>pending = rest, ending = e\<rparr>" "regular mb" "mb_content mb = c" by blast
  let ?sv = "sv\<lparr>sv_reader := r, sv_out := (sv_out sv)(sv_link sv s := sv_out sv (sv_link sv s) @ mb)\<rparr>"
  have "table_ok ?sv" using assms(1) by (simp add: table_ok_def session_live_def rel_def)
  then have "server_rel ?sv (T, out(sv_link sv s := out (sv_link sv s) @ c), n)"
    using assms(1,6) r regular_wf [OF r(4)] by (auto simp: rel_def)
  with r show ?thesis by auto
qed

lemma handleFrame_start:
  assumes "br_ok (sv_reader sv)" and "br_view (sv_reader sv) = \<lparr>pending = frame_bytes (uf_meta f) None @ rest, ending = e\<rparr>" and "uf_ok f" and "pool_ok pool"
  shows "\<exists>r. br_ok r \<and> br_view r = \<lparr>pending = rest, ending = e\<rparr> \<and>
    handleFrame dispatch allowed pool now sv =
      (let meta = received zero_meta (uf_meta f) None; status = fm_SessionStatus meta; sv = sv\<lparr>sv_reader := r\<rparr> in
       rmap (\<lambda>(sv, err). (sv, map_option (\<lambda>e. ErrMsg ''failed to process data'') err))
           (if status = SessionStatusKeepAlive then handleStatusKeepAlive pool meta sv
            else if status = SessionStatusEnd then handleStatusEnd pool now meta sv
            else if status = SessionStatusNew then handleStatusNew dispatch allowed pool now meta sv
            else handleStatusKeep pool now meta sv))"
proof -
  obtain r where r: "Unmarshal_on (br_ReadFull source_read) (pool 2) (pool 3) zero_meta (sv_reader sv) = Ok (received zero_meta (uf_meta f) None, None, r)"
    "br_ok r" "br_view r = \<lparr>pending = rest, ending = e\<rparr>"
    using br.Unmarshal_frame [OF assms(1,2) uf_frame_ok [OF assms(3)] pool_okD [OF assms(4)] pool_okD [OF assms(4)]] by blast
  have "fm_SessionStatus (received zero_meta (uf_meta f) None) \<in> {SessionStatusKeepAlive, SessionStatusEnd, SessionStatusNew, SessionStatusKeep}"
    by (cases f) (simp_all add: received_def)
  with r show ?thesis by (intro exI [of _ r]) (simp add: handleFrame_def Let_def)
qed

lemma rel_reader: "server_rel sv (T, out, n) \<Longrightarrow> br_ok r \<Longrightarrow> server_rel (sv\<lparr>sv_reader := r\<rparr>) (T, out, n)"
  by (simp add: table_ok_def session_live_def rel_def)

lemma handle_new:
  assumes "server_rel sv (T, out, n)" and "br_view (sv_reader sv) = \<lparr>pending = put_u16 (word_of_nat (length c)) @ c @ rest, ending = e\<rparr>"
    and "uf_ok (FNew i d c)" and "pool_ok pool" and "dispatch n d = None" and "allowed \<in> {Network_Unknown, Network_TCP}"
  shows "\<exists>sv'. handleStatusNew dispatch allowed pool now (uf_meta (FNew i d c)) sv = Ok (sv', None) \<and> server_rel sv' (demux (FNew i d c) (T, out, n)) \<and>
    br_view (sv_reader sv') = \<lparr>pending = rest, ending = e\<rparr> \<and> sv_mgr sv' = sv_mgr sv"
proof -
  define sv0 where "sv0 = sv\<lparr>sv_links := Suc n\<rparr>"
  have sv: "table_ok sv" "sv_links sv = n" "\<forall>l \<ge> n. out l = []" using assms(1) by (simp_all add: rel_def)
  have t: "table_ok sv0" using sv(1) by (simp add: sv0_def table_ok_def session_live_def)
  obtain sv1 s where ns: "new_session i TransferTypeStream None n sv0 = (sv1, s)" by fastforce
  note a = add_new_session(1) [OF t ns, of now] add_new_session(2) [OF t ns]
  let ?w = "with_session i n sv0"
  have lt: "s' < st_next (sv_store sv)" if "Get (sv_mgr sv) j (sv_store sv) = Some s'" for j s'
    using Get_live [OF sv(1) that] by (simp add: session_live_def)
  have g: "Get (sv_mgr sv) j (sv_store ?w) = (if j = i then Some s else Get (sv_mgr sv) j (sv_store sv))" for j
    using with_session_ok(2) [OF t] a(2) by (simp add: sv0_def)
  have T: "(T(i \<mapsto> n)) j = map_option (sv_link ?w) (Get (sv_mgr sv) j (sv_store ?w))" for j
    using assms(1) lt [of j] unfolding g by (cases "j = i"; cases "Get (sv_mgr sv) j (sv_store sv)") (auto simp: a(2) sv0_def rel_def)
  have rel: "server_rel ?w (T(i \<mapsto> n), out, Suc n)"
    using assms(1) with_session_ok(1) [OF t] T by (simp add: sv0_def rel_def del: fun_upd_apply)
  have tw: "table_ok ?w" by (rule with_session_ok(1) [OF t])
  have live: "session_live ?w i s" using Get_live [OF tw, of i s] g [of i] by (simp add: sv0_def)
  have l: "sv_link ?w s = n" using a(2) by simp
  have v: "br_view (sv_reader ?w) = \<lparr>pending = put_u16 (word_of_nat (length c)) @ c @ rest, ending = e\<rparr>" using assms(2) by (simp add: sv0_def)
  have c: "length c < 65536" "dest_Network d = Network_TCP" using assms(3) by simp_all
  obtain sv' where sv': "copy_frame pool now s d ?w = Ok (sv', None)" "server_rel sv' (T(i \<mapsto> n), out(n := out n @ c), Suc n)"
    "br_view (sv_reader sv') = \<lparr>pending = rest, ending = e\<rparr>" "sv_mgr sv' = sv_mgr ?w"
    using copy_frame_rel [OF rel v c(1) assms(4) live, of now d] l by auto
  have "handleStatusNew dispatch allowed pool now (uf_meta (FNew i d c)) sv = new_plain dispatch pool now (uf_meta (FNew i d c)) sv"
    using assms(6) c(2) by (auto simp: handleStatusNew_def zero_meta_def)
  also have "\<dots> = Ok (sv', None)"
    using assms(5) sv(2) c(2) ns a(1) sv'(1) by (simp add: new_plain_def sv0_def [symmetric])
  finally show ?thesis using sv' sv(3) by (simp add: sv0_def)
qed

definition end_meta :: "u16 \<Rightarrow> bool \<Rightarrow> FrameMetadata" where
  "end_meta i failed = zero_meta\<lparr>fm_SessionID := i, fm_Option := (if failed then Set_bits 0 OptionError else 0), fm_SessionStatus := SessionStatusEnd\<rparr>"

lemma writer_Close_ok:
  assumes "length fresh < 2147483648"
  shows "mux_writer_Close container_sink fresh w =
    Ok (w\<lparr>mw_writer := mw_writer w @ [append_at_end (New fresh) (frame_bytes (end_meta (mw_id w) (mw_hasError w)) None)]\<rparr>, None)"
proof -
  have n: "buf_wf (New fresh)" "room (New fresh) = 8192" "buf_UDP (New fresh) = None" using New_wf [OF assms] by (simp_all add: New_def)
  have "frame_ok (end_meta (mw_id w) (mw_hasError w)) (buf_UDP (New fresh))" by (simp add: frame_ok_def end_meta_def statuses n(3))
  from WriteTo_append [OF this n(1)] n(2,3) show ?thesis
    by (simp add: mux_writer_Close_def send_def container_sink_def container_WriteMultiBuffer_def MergeMulti_def end_meta_def zero_meta_def)
qed

lemma handle_keep:
  assumes "server_rel sv (T, out, n)" and "br_view (sv_reader sv) = \<lparr>pending = put_u16 (word_of_nat (length c)) @ c @ rest, ending = e\<rparr>"
    and "length c < 65536" and "pool_ok pool" and "fm_SessionID meta = i" and "fm_Option meta = OptionData" and "\<forall>i l. T i = Some l \<longrightarrow> l < n"
  shows "\<exists>sv'. handleStatusKeep pool now meta sv = Ok (sv', None) \<and> server_rel sv' (demux (FKeep i c) (T, out, n)) \<and>
    br_view (sv_reader sv') = \<lparr>pending = rest, ending = e\<rparr> \<and> sv_mgr sv' = sv_mgr sv"
proof (cases "Get (sv_mgr sv) i (sv_store sv)")
  case (Some s)
  have t: "table_ok sv" "T i = Some (sv_link sv s)" using assms(1) Some by (simp_all add: rel_def)
  then have "sv_link sv s < n" using assms(7) by blast
  from copy_frame_rel [OF assms(1-4) Get_live [OF t(1) Some] this, of now "fm_Target meta"] show ?thesis
    using Some t(2) assms(5,6) by (simp add: handleStatusKeep_def)
next
  case None
  then have T: "T i = None" using assms(1) by (simp add: rel_def)
  obtain w where w: "mux_writer_Close container_sink (pool 0) (NewResponseWriter i (sv_down sv) TransferTypeStream) = Ok (w, None)"
    using writer_Close_ok [OF pool_okD [OF assms(4)]] by blast
  let ?sv = "sv\<lparr>sv_down := mw_writer w\<rparr>"
  have rel: "server_rel ?sv (T, out, n)" using assms(1) by (simp add: table_ok_def session_live_def rel_def)
  obtain r where r: "copy_discard pool ?sv = Ok (?sv\<lparr>sv_reader := r\<rparr>, None)" "br_ok r" "br_view r = \<lparr>pending = rest, ending = e\<rparr>"
    using copy_discard_payload [of ?sv c rest e pool] rel assms(2-4) by (auto simp: rel_def)
  show ?thesis using None T w r rel_reader [OF rel r(2)] assms(5,6) by (auto simp: handleStatusKeep_def)
qed

definition links_ok :: "demux_state \<Rightarrow> bool" where
  "links_ok d \<longleftrightarrow> (\<forall>i l. fst d i = Some l \<longrightarrow> l < snd (snd d))"

lemma links_ok_demux: "links_ok d \<Longrightarrow> links_ok (demux f d)"
  by (cases f; cases d) (auto simp: links_ok_def less_Suc_eq split: if_splits)

lemma handleFrame_demux:
  assumes "server_rel sv d" and "links_ok d" and "br_view (sv_reader sv) = \<lparr>pending = uf_bytes f @ rest, ending = e\<rparr>" and "uf_ok f"
    and "pool_ok pool" and "\<forall>n d. dispatch n d = None" and "allowed \<in> {Network_Unknown, Network_TCP}"
  shows "\<exists>sv'. handleFrame dispatch allowed pool now sv = Ok (sv', None) \<and> server_rel sv' (demux f d) \<and>
    br_view (sv_reader sv') = \<lparr>pending = rest, ending = e\<rparr> \<and> sv_mgr sv' = sv_mgr sv"
proof -
  obtain T out n where d: "d = (T, out, n)" by (cases d)
  have ok: "br_ok (sv_reader sv)" using assms(1) d by (simp add: rel_def)
  define tail where "tail = (case f of FNew i d c \<Rightarrow> put_u16 (word_of_nat (length c)) @ c | FKeep i c \<Rightarrow> put_u16 (word_of_nat (length c)) @ c | _ \<Rightarrow> [])"
  have b: "uf_bytes f = frame_bytes (uf_meta f) None @ tail" by (cases f) (simp_all add: tail_def data_frame_def)
  have "br_view (sv_reader sv) = \<lparr>pending = frame_bytes (uf_meta f) None @ (tail @ rest), ending = e\<rparr>" using assms(3) b by simp
  from handleFrame_start [OF ok this assms(4,5), of dispatch allowed now] obtain r where r: "br_ok r" "br_view r = \<lparr>pending = tail @ rest, ending = e\<rparr>"
    and h: "handleFrame dispatch allowed pool now sv =
      (let meta = received zero_meta (uf_meta f) None; status = fm_SessionStatus meta; sv = sv\<lparr>sv_reader := r\<rparr> in
       rmap (\<lambda>(sv, err). (sv, map_option (\<lambda>e. ErrMsg ''failed to process data'') err))
           (if status = SessionStatusKeepAlive then handleStatusKeepAlive pool meta sv
            else if status = SessionStatusEnd then handleStatusEnd pool now meta sv
            else if status = SessionStatusNew then handleStatusNew dispatch allowed pool now meta sv
            else handleStatusKeep pool now meta sv))" by blast
  let ?sv = "sv\<lparr>sv_reader := r\<rparr>"
  have rel: "server_rel ?sv (T, out, n)" by (rule rel_reader [OF assms(1) [unfolded d] r(1)])
  show ?thesis
  proof (cases f)
    case (FNew i dst c)
    then have "br_view (sv_reader ?sv) = \<lparr>pending = put_u16 (word_of_nat (length c)) @ c @ rest, ending = e\<rparr>" using r(2) by (simp add: tail_def)
    from handle_new [OF rel this assms(4) [unfolded FNew] assms(5) _ assms(7), of dispatch now] assms(6) obtain sv' where
      sv': "handleStatusNew dispatch allowed pool now (uf_meta (FNew i dst c)) ?sv = Ok (sv', None)" "server_rel sv' (demux (FNew i dst c) (T, out, n))"
      "br_view (sv_reader sv') = \<lparr>pending = rest, ending = e\<rparr>" "sv_mgr sv' = sv_mgr sv" by auto
    have "fm_SessionStatus (uf_meta (FNew i dst c)) = SessionStatusNew" by simp
    then have "handleFrame dispatch allowed pool now sv = Ok (sv', None)"
      using h FNew sv'(1) by (simp add: uf_received(1) Let_def statuses del: uf_meta.simps)
    with sv' FNew d show ?thesis by blast
  next
    case (FKeep i c)
    then have v: "br_view (sv_reader ?sv) = \<lparr>pending = put_u16 (word_of_nat (length c)) @ c @ rest, ending = e\<rparr>" using r(2) by (simp add: tail_def)
    have l: "length c < 65536" "\<forall>i l. T i = Some l \<longrightarrow> l < n" using assms(2,4) FKeep d by (simp_all add: links_ok_def)
    from handle_keep [OF rel v l(1) assms(5) uf_received(2,3) [of i c] l(2), of now] FKeep d h show ?thesis
      by (auto simp: uf_received Let_def statuses simp del: uf_meta.simps)
  next
    case (FEnd i)
    show ?thesis
    proof (cases "Get (sv_mgr sv) i (sv_store sv)")
      case None
      then have "T i = None" using assms(1) d by (simp add: rel_def)
      then have "T(i := None) = T" by auto
      with None FEnd d h r rel show ?thesis by (simp add: uf_received Let_def statuses handleStatusEnd_def tail_def del: uf_meta.simps)
    next
      case (Some s)
      have t: "table_ok ?sv" using rel by (simp add: rel_def)
      have live: "session_live ?sv i s" using Get_live [OF t, of i s] Some by simp
      obtain st where st: "session_close now s ?sv = Ok (?sv\<lparr>sv_store := st\<rparr>)" "table_ok (?sv\<lparr>sv_store := st\<rparr>)"
        "\<forall>j. Get (sv_mgr sv) j st = (if j = i then None else Get (sv_mgr sv) j (sv_store sv))" using close_live [OF t live, of now] by auto
      have "server_rel (?sv\<lparr>sv_store := st\<rparr>) (T(i := None), out, n)" using rel st(2,3) by (auto simp: rel_def)
      with Some FEnd d h r st(1) show ?thesis by (simp add: uf_received Let_def statuses handleStatusEnd_def tail_def del: uf_meta.simps)
    qed
  next
    case FAlive
    with d h r rel show ?thesis by (simp add: uf_received Let_def statuses handleStatusKeepAlive_def tail_def del: uf_meta.simps)
  qed
qed

section \<open>Properties\<close>

lemma run_end_ok:
  assumes "table_ok sv"
  shows "\<exists>st. run_end now sv = Ok (sv\<lparr>sv_store := st, sv_ended := True\<rparr>) \<and> sm_closed (st_mgr st (sv_mgr sv)) \<and>
    (\<forall>i s. Get (sv_mgr sv) i (sv_store sv) = Some s \<longrightarrow> ms_closed (st_sess st s))"
proof -
  let ?m = "sv_mgr sv" and ?mg = "st_mgr (sv_store sv) (sv_mgr sv)"
  let ?st0 = "set_mgr ?m (?mg\<lparr>sm_closed := True\<rparr>) (sv_store sv)"
  have mg: "\<not> sm_closed ?mg" "distinct (map fst (sm_sessions ?mg))" using assms by (simp_all add: table_ok_def Let_def)
  have "session_live sv i s" if "(i, s) \<in> set (sm_sessions ?mg)" for i s
    using assms that mg(2) by (auto simp: table_ok_def Let_def)
  then have "\<forall>(i, s) \<in> set (sm_sessions ?mg). ms_parent (st_sess ?st0 s) = Some ?m \<and> ms_XUDP (st_sess ?st0 s) = None"
    by (fastforce simp: session_live_def Let_def)
  from close_sessions_spec [of ?st0 ?m, OF _ this, of now] obtain st1 where st1: "close_sessions now (sm_sessions ?mg) ?st0 = Ok st1"
    "st_mgr st1 = st_mgr ?st0" "\<forall>r. ms_closed (st_sess st1 r) = (ms_closed (st_sess ?st0 r) \<or> r \<in> snd ` set (sm_sessions ?mg))" by auto
  have "run_end now sv = Ok (sv\<lparr>sv_store := set_mgr ?m ((st_mgr st1 ?m)\<lparr>sm_sessions := []\<rparr>) st1, sv_ended := True\<rparr>)"
    using mg(1) st1(1) by (simp add: run_end_def manager_Close_def Let_def)
  moreover have "ms_closed (st_sess st1 s)" if "Get ?m i (sv_store sv) = Some s" for i s
    using that st1(3) mg(1) by (force simp: Get_def Let_def dest!: map_of_SomeD)
  ultimately show ?thesis using st1(2) by auto
qed

lemma handleFrame_at_end:
  assumes "br_ok (sv_reader sv)" and "br_view (sv_reader sv) = \<lparr>pending = [], ending = e\<rparr>"
  shows "\<exists>r. handleFrame dispatch allowed pool now sv = Ok (sv\<lparr>sv_reader := r\<rparr>, Some (ErrMsg ''failed to read metadata''))"
proof -
  have "Unmarshal (pool 2) (pool 3) zero_meta (br_view (sv_reader sv)) = Ok (zero_meta, Some e, \<lparr>pending = [], ending = e\<rparr>)"
    using assms(2) by (simp add: Unmarshal_def ReadUint16_def read_full_def)
  with br.Unmarshal_refines(1) [OF assms(1), of "pool 2" "pool 3" zero_meta] obtain r where
    "Unmarshal_on (br_ReadFull source_read) (pool 2) (pool 3) zero_meta (sv_reader sv) = Ok (zero_meta, Some e, r)"
    by (auto simp: rmap_Ok_iff)
  then show ?thesis by (auto simp: handleFrame_def)
qed

lemma run_demux:
  assumes "server_rel sv d" and "links_ok d" and "br_view (sv_reader sv) = \<lparr>pending = concat (map uf_bytes fs), ending = e\<rparr>" and "list_all uf_ok fs"
    and "\<forall>k. pool_ok (pool k)" and "\<forall>n d. dispatch n d = None" and "allowed \<in> {Network_Unknown, Network_TCP}" and "\<forall>k. \<not> stop k"
  shows "\<exists>sv' st r. run_loop dispatch allowed pool now stop k sv = Some (Ok (sv'\<lparr>sv_reader := r, sv_store := st, sv_ended := True\<rparr>)) \<and>
    server_rel sv' (fold demux fs d) \<and> sv_mgr sv' = sv_mgr sv \<and> sm_closed (st_mgr st (sv_mgr sv)) \<and>
    (\<forall>i s. Get (sv_mgr sv) i (sv_store sv') = Some s \<longrightarrow> ms_closed (st_sess st s))"
  using assms(1-4)
proof (induction fs arbitrary: sv d k)
  case Nil
  obtain T out n where d: "d = (T, out, n)" by (cases d)
  have ok: "br_ok (sv_reader sv)" "table_ok sv" using Nil.prems(1) d by (simp_all add: rel_def)
  obtain r where r: "handleFrame dispatch allowed (pool k) (now k) sv = Ok (sv\<lparr>sv_reader := r\<rparr>, Some (ErrMsg ''failed to read metadata''))"
    using handleFrame_at_end [OF ok(1), of e dispatch allowed "pool k" "now k"] Nil.prems(3) by auto
  have "table_ok (sv\<lparr>sv_reader := r\<rparr>)" using ok(2) by (simp add: table_ok_def session_live_def)
  from run_end_ok [OF this, of "now k"] r assms(8) Nil.prems(1) show ?case
    by (subst run_loop.simps) (auto intro!: exI [of _ sv])
next
  case (Cons f fs)
  have v: "br_view (sv_reader sv) = \<lparr>pending = uf_bytes f @ concat (map uf_bytes fs), ending = e\<rparr>" and f: "uf_ok f" "list_all uf_ok fs" "pool_ok (pool k)"
    using Cons.prems(3,4) assms(5) by simp_all
  obtain sv1 where sv1: "handleFrame dispatch allowed (pool k) (now k) sv = Ok (sv1, None)" "server_rel sv1 (demux f d)"
    "br_view (sv_reader sv1) = \<lparr>pending = concat (map uf_bytes fs), ending = e\<rparr>" "sv_mgr sv1 = sv_mgr sv"
    using handleFrame_demux [OF Cons.prems(1,2) v f(1,3) assms(6,7)] by blast
  have "run_loop dispatch allowed pool now stop k sv = run_loop dispatch allowed pool now stop (Suc k) sv1"
    using sv1(1) assms(8) by (subst run_loop.simps) simp
  with Cons.IH [OF sv1(2) links_ok_demux [OF Cons.prems(2)] sv1(3) f(2), of "Suc k"] sv1(4) show ?case by simp
qed

lemma new_worker_rel:
  assumes "source_ok link"
  shows "server_rel (NewServerWorker st m link) (Map.empty, (\<lambda>_. []), 0)"
    and "br_view (sv_reader (NewServerWorker st m link)) = \<lparr>pending = concat (map mb_content (src_data link)), ending = src_end link\<rparr>"
  using assms by (auto simp: rel_def NewServerWorker_def table_ok_def NewSessionManager_def Get_def Let_def br_ok_def source_ok_def br_view_def)

lemma server_run_demux:
  assumes "list_all uf_ok fs" and "source_ok link" and "concat (map mb_content (src_data link)) = concat (map uf_bytes fs)"
    and "\<forall>n d. dispatch n d = None" and "allowed \<in> {Network_Unknown, Network_TCP}" and "\<forall>k. pool_ok (pool k)" and "\<forall>k. \<not> stop k"
    and "demux_all fs = (T, out, n)"
  shows "\<exists>sv. server_run dispatch allowed pool now stop (NewServerWorker st m link) = Ok sv \<and> (\<forall>l. mb_content (sv_out sv l) = out l) \<and>
    sv_links sv = n \<and> sv_ended sv \<and> sm_closed (st_mgr (sv_store sv) m)"
proof -
  have "links_ok (Map.empty, (\<lambda>_. []), 0)" by (simp add: links_ok_def)
  moreover have "sv_mgr (NewServerWorker st m link) = m" by (simp add: NewServerWorker_def)
  ultimately show ?thesis
    using run_demux [OF new_worker_rel(1) [OF assms(2)] _ _ assms(1,6,4,5,7), of st m "src_end link" now 0] new_worker_rel(2) [OF assms(2), of st m] assms(3,8)
    by (auto simp: server_run_def returns_def demux_all_def rel_def)
qed

text \<open>
  C9. A mux server takes the frames of a connection apart: whatever stream sessions they open, feed and end, in any interleaving, and however the connection
  cuts their bytes, the server handles all of them and returns at the end of the connection; it has dispatched one request per new session, every link has received exactly
  the data of its session, in order, and nothing else, and all sessions are closed.
\<close>

theorem mux_server_demultiplexes:
  assumes "list_all uf_ok fs" and "source_ok link" and "concat (map mb_content (src_data link)) = concat (map uf_bytes fs)"
    and "\<forall>n d. dispatch n d = None" and "allowed \<in> {Network_Unknown, Network_TCP}" and "\<forall>k. pool_ok (pool k)" and "\<forall>k. \<not> stop k"
    and "demux_all fs = (T, out, n)"
  shows "\<exists>sv. server_run dispatch allowed pool now stop (NewServerWorker st m link) = Ok sv \<and> (\<forall>l. mb_content (sv_out sv l) = out l) \<and>
    sv_links sv = n \<and> sv_ended sv \<and> sm_closed (st_mgr (sv_store sv) m)"
  by (rule server_run_demux [OF assms])

definition two_sessions :: "uframe list" where
  "two_sessions =
     [FNew 1 (TCPDestination (Some (IPv4Address [1, 2, 3, 4])) 80) [10], FNew 2 (TCPDestination (Some (IPv4Address [5, 6, 7, 8])) 443) [20, 21],
      FKeep 1 [11, 12], FAlive, FEnd 2, FKeep 2 [99], FKeep 1 [13]]"

theorem mux_server_demultiplexes_witness:
  "\<exists>sv. server_run (\<lambda>_ _. None) Network_Unknown (\<lambda>_ _. []) (\<lambda>_. 0) (\<lambda>_. False)
      (NewServerWorker empty_store 0 \<lparr>src_data = [[append_at_end (New []) (concat (map uf_bytes two_sessions))]], src_last = [], src_end = EOF\<rparr>) = Ok sv \<and>
    mb_content (sv_out sv 0) = [10, 11, 12, 13] \<and> mb_content (sv_out sv 1) = [20, 21] \<and> sv_links sv = 2"
proof -
  let ?bs = "concat (map uf_bytes two_sessions)"
  have ok: "list_all uf_ok two_sessions" by (simp add: two_sessions_def TCPDestination_def addr_ok_def)
  have "length ?bs \<le> 8192" by code_simp
  then have b: "buf_wf (append_at_end (New []) ?bs)" "content (append_at_end (New []) ?bs) = ?bs" "length ?bs \<le> 8192" using appended_New [of ?bs] by simp_all
  have d: "\<exists>T out. demux_all two_sessions = (T, out, 2) \<and> out 0 = [10, 11, 12, 13] \<and> out 1 = [20, 21]" by (simp add: demux_all_def two_sessions_def)
  then obtain T out where d: "demux_all two_sessions = (T, out, 2)" "out 0 = [10, 11, 12, 13]" "out 1 = [20, 21]" by blast
  have "source_ok \<lparr>src_data = [[append_at_end (New []) ?bs]], src_last = [], src_end = EOF\<rparr>" using b by (simp add: source_ok_def)
  from mux_server_demultiplexes [OF ok this _ _ _ _ _ d(1), of "\<lambda>_ _. None" Network_Unknown "\<lambda>_ _. []" "\<lambda>_. False" "\<lambda>_. 0" empty_store 0] b(2) d(2,3)
  show ?thesis by (auto simp: pool_ok_def)
qed

lemma data_frames_uf:
  fixes w :: "'w mux_writer"
  shows "mw_followup w \<Longrightarrow> data_frames w cs = concat (map uf_bytes (map (FKeep (mw_id w)) cs))"
    and "\<not> mw_followup w \<Longrightarrow> mw_globalID w = replicate 8 0 \<Longrightarrow>
      data_frames w (c # cs) = concat (map uf_bytes (FNew (mw_id w) (mw_dest w) c # map (FKeep (mw_id w)) cs))"
proof -
  have keep: "frame_bytes (data_meta w) None = frame_bytes (uf_meta (FKeep (mw_id w) c)) None" if "mw_followup w" for w :: "'w mux_writer" and c
    using that by (simp add: frame_bytes_def meta_bytes_def target_bytes_def data_meta_def getNextFrameMeta_def zero_meta_def statuses)
  have all: "mw_followup w \<Longrightarrow> data_frames w cs = concat (map uf_bytes (map (FKeep (mw_id w)) cs))" for w :: "'w mux_writer" and cs
    by (induction cs arbitrary: w) (simp_all add: data_frame_def keep del: uf_meta.simps)
  then show "mw_followup w \<Longrightarrow> data_frames w cs = concat (map uf_bytes (map (FKeep (mw_id w)) cs))" .
  have new: "data_meta w = uf_meta (FNew (mw_id w) (mw_dest w) c)" if "\<not> mw_followup w" "mw_globalID w = replicate 8 0"
    using that by (simp add: data_meta_def getNextFrameMeta_def zero_meta_def)
  show "data_frames w (c # cs) = concat (map uf_bytes (FNew (mw_id w) (mw_dest w) c # map (FKeep (mw_id w)) cs))"
    if "\<not> mw_followup w" "mw_globalID w = replicate 8 0"
    using new [OF that] all [of "w\<lparr>mw_followup := True\<rparr>" cs] by (simp add: data_frame_def del: uf_meta.simps)
qed

lemma fold_keep:
  "T i = Some l \<Longrightarrow> fold demux (map (FKeep i) cs) (T, out, n) = (T, out(l := out l @ concat cs), n)"
  by (induction cs arbitrary: out) auto

lemma send_keeps: "send wr w mb = (w', e) \<Longrightarrow> mw_id w' = mw_id w \<and> mw_hasError w' = mw_hasError w"
  by (auto simp: send_def split: prod.splits)

lemma writeData_keeps: "writeData wr fresh w mb = Ok (w', e) \<Longrightarrow> mw_id w' = mw_id w \<and> mw_hasError w' = mw_hasError w"
  by (auto simp: writeData_def writeMetaWithFrame_def getNextFrameMeta_def Let_def rbind_Ok_iff split: if_splits dest!: send_keeps)

lemma write_loop_keeps:
  "mux_write_loop fuel wr pool k w mb = Some (Ok (w', e, l)) \<Longrightarrow> mw_id w' = mw_id w \<and> mw_hasError w' = mw_hasError w"
proof (induction fuel arbitrary: k w mb)
  case (Suc fuel)
  then show ?case by (auto split: if_splits res.splits option.splits dest!: writeData_keeps)
qed simp


lemma sample_written:
  assumes "length fresh < 2147483648"
  shows "\<exists>w x. mux_WriteMultiBuffer 4 container_sink (\<lambda>_. []) pools_init
      (NewWriter 1 (TCPDestination (Some (IPv4Address [1, 2, 3, 4])) 80) [] TransferTypeStream (replicate 8 0)) sample_payload = Some (Ok (w, None, x)) \<and>
    length (mb_content (mw_writer w)) \<le> 278"
proof -
  let ?w = "NewWriter 1 (TCPDestination (Some (IPv4Address [1, 2, 3, 4])) 80) ([] :: multi_buffer) TransferTypeStream (replicate 8 0)"
  define b where "b = append_at_end (New []) [104, 105]"
  have b: "buf_wf b" "content b = [104, 105]" "buf_UDP b = None" "sample_payload = [b]"
    using appended_New [of "[104, 105]"] by (simp_all add: b_def sample_payload_def) (simp add: New_def)
  have ok: "writer_ok ?w" by (simp add: writer_ok_def NewWriter_def TCPDestination_def addr_ok_def)
  have sp: "SplitSize [] [b] 8192 = Ok ([], [b])" using b(1,2) by (simp add: SplitSize_def Len_content)
  from cs.writeData_out [OF ok, of "[b]" "[]"] b(1-3) obtain x where x: "writeData container_sink [] ?w [b] = Ok (?w\<lparr>mw_followup := True, mw_writer := x\<rparr>, None)"
    "mb_content x = data_frame (data_meta ?w) [104, 105]" by (auto simp: NewWriter_def)
  have t: "mw_transferType ?w = TransferTypeStream" by (simp add: NewWriter_def)
  have ne: "\<not> IsEmpty b" using b(1,2) by (simp add: IsEmpty_content)
  have "mux_write_loop (Suc (Suc f)) container_sink (\<lambda>_. []) 0 ?w sample_payload = Some (Ok (?w\<lparr>mw_followup := True, mw_writer := x\<rparr>, None, []))" for f
    using sp x(1) t ne by (simp add: next_chunk_def b(4))
  from this [of 2] have "mux_write_loop 4 container_sink (\<lambda>_. []) 0 ?w sample_payload = Some (Ok (?w\<lparr>mw_followup := True, mw_writer := x\<rparr>, None, []))"
    by (simp add: numeral_eq_Suc)
  moreover have "length (mb_content x) \<le> 278" using Unmarshal_frame_bytes(2) [OF data_meta_ok [OF ok], of "[]" "[]"] x(2) by (simp add: data_frame_def)
  moreover have "\<not> mb_IsEmpty sample_payload" unfolding b(4) using ne by simp
  ultimately show ?thesis by (simp add: mux_WriteMultiBuffer_def)
qed


text \<open>
  A session identifier must not be used again while its session lives.  The server does not check: a second new session takes the place of the first in the table, and
  when the goroutine of the first ends, it removes the second one, which is still open and from then on never gets the data of its frames.
\<close>

theorem mux_id_reuse_unlinks:
  assumes "table_ok sv" and "Get (sv_mgr sv) (fm_SessionID meta) (sv_store sv) = Some s" and "dispatch (sv_links sv) (fm_Target meta) = None"
    and "fm_Option meta = 0" and "fm_GlobalID meta = replicate 8 0" and "dest_Network (fm_Target meta) = Network_TCP" and "length fresh < 2147483648"
  shows "\<exists>sv1 s' sv2. handleStatusNew dispatch Network_Unknown pool now meta sv = Ok (sv1, None) \<and> Get (sv_mgr sv) (fm_SessionID meta) (sv_store sv1) = Some s' \<and>
    handle_end fresh now s failed sv1 = Ok sv2 \<and> Get (sv_mgr sv) (fm_SessionID meta) (sv_store sv2) = None \<and> s' \<noteq> s \<and> \<not> ms_closed (st_sess (sv_store sv2) s')"
proof -
  let ?i = "fm_SessionID meta" and ?n = "sv_links sv"
  define sv0 where "sv0 = sv\<lparr>sv_links := Suc ?n\<rparr>"
  have t: "table_ok sv0" using assms(1) by (simp add: sv0_def table_ok_def session_live_def)
  obtain svx s' where ns: "new_session ?i TransferTypeStream None ?n sv0 = (svx, s')" by fastforce
  note a = add_new_session(1) [OF t ns, of now] add_new_session(2) [OF t ns]
  let ?w = "with_session ?i ?n sv0"
  have h: "handleStatusNew dispatch Network_Unknown pool now meta sv = Ok (?w, None)"
    using assms(3-6) ns a(1) by (simp add: handleStatusNew_def new_plain_def sv0_def [symmetric])
  have s: "session_live sv ?i s" using Get_live [OF assms(1,2)] .
  then have ne: "s' \<noteq> s" using a(2) by (auto simp: session_live_def sv0_def)
  obtain w where "mux_writer_Close container_sink fresh
      ((NewResponseWriter (ms_ID (st_sess (sv_store ?w) s)) (sv_down ?w) (sv_transfer ?w s))\<lparr>mw_hasError := failed\<rparr>) = Ok (w, None)"
    using writer_Close_ok [OF assms(7)] by blast
  moreover define w1 where "w1 = ?w\<lparr>sv_down := mw_writer w\<rparr>"
  have t1: "table_ok w1" using with_session_ok(1) [OF t, of ?i ?n] by (simp add: w1_def table_ok_def session_live_def)
  have s1: "session_live w1 ?i s" using s ne a(2) by (auto simp: w1_def session_live_def with_session_def sv0_def Let_def)
  obtain st where st: "session_close now s w1 = Ok (w1\<lparr>sv_store := st\<rparr>)" "\<forall>j. Get (sv_mgr w1) j st = (if j = ?i then None else Get (sv_mgr w1) j (sv_store w1))"
    "\<forall>r. r \<noteq> s \<longrightarrow> st_sess st r = st_sess (sv_store w1) r"
    using close_live [OF t1 s1, of now] by blast
  have m: "sv_mgr w1 = sv_mgr sv" "sv_mgr ?w = sv_mgr sv" by (simp_all add: w1_def sv0_def)
  have g: "Get (sv_mgr sv) ?i (sv_store ?w) = Some s'" using with_session_ok(2) [OF t, of ?i ?i ?n] a(2) by (simp add: sv0_def)
  have "\<not> ms_closed (st_sess (sv_store w1) s')" using Get_live [OF t1, of ?i s'] g m by (simp add: w1_def session_live_def Let_def)
  then have "\<not> ms_closed (st_sess st s')" using st(3) ne by simp
  ultimately show ?thesis using h g st m ne by (intro exI [of _ ?w] exI [of _ s'] exI [of _ "w1\<lparr>sv_store := st\<rparr>"]) (simp add: handle_end_def w1_def)
qed

definition reuse_meta :: FrameMetadata where
  "reuse_meta = zero_meta\<lparr>fm_Target := TCPDestination (Some (IPv4Address [1, 2, 3, 4])) 80, fm_SessionID := 7, fm_SessionStatus := SessionStatusNew\<rparr>"

theorem mux_id_reuse_unlinks_witness:
  "\<exists>sv0 sv1 s' sv2. handleStatusNew (\<lambda>_ _. None) Network_Unknown (\<lambda>_. []) 0 reuse_meta (NewServerWorker empty_store 0 \<lparr>src_data = [], src_last = [], src_end = EOF\<rparr>) = Ok (sv0, None) \<and>
    handleStatusNew (\<lambda>_ _. None) Network_Unknown (\<lambda>_. []) 0 reuse_meta sv0 = Ok (sv1, None) \<and> Get 0 7 (sv_store sv1) = Some s' \<and>
    handle_end [] 0 0 False sv1 = Ok sv2 \<and> Get 0 7 (sv_store sv2) = None \<and> \<not> ms_closed (st_sess (sv_store sv2) s')"
proof -
  let ?sv = "NewServerWorker empty_store 0 \<lparr>src_data = [], src_last = [], src_end = EOF\<rparr>"
  have "server_rel ?sv (Map.empty, (\<lambda>_. []), 0)" by (rule new_worker_rel(1)) (simp add: source_ok_def)
  then have t: "table_ok ?sv" by (simp add: rel_def)
  define sv0 where "sv0 = with_session 7 0 (?sv\<lparr>sv_links := Suc 0\<rparr>)"
  have t': "table_ok (?sv\<lparr>sv_links := Suc 0\<rparr>)" using t by (simp add: table_ok_def session_live_def)
  obtain svx s where ns: "new_session 7 TransferTypeStream None 0 (?sv\<lparr>sv_links := Suc 0\<rparr>) = (svx, s)" by fastforce
  have h: "handleStatusNew (\<lambda>_ _. None) Network_Unknown (\<lambda>_. []) 0 reuse_meta ?sv = Ok (sv0, None)"
    using ns add_new_session(1) [OF t' ns, of 0] by (simp add: handleStatusNew_def new_plain_def reuse_meta_def zero_meta_def TCPDestination_def sv0_def NewServerWorker_def)
  have "sv_mgr ?sv = 0" "st_next (sv_store ?sv) = 0" by (simp_all add: NewServerWorker_def empty_store_def)
  then have m: "table_ok sv0" "sv_mgr sv0 = 0" "Get 0 7 (sv_store sv0) = Some 0"
    using with_session_ok(1) [OF t', of 7 0] with_session_ok(2) [OF t', of 7 7 0] by (simp_all add: sv0_def)
  have f: "fm_SessionID reuse_meta = 7" "fm_Option reuse_meta = 0" "fm_GlobalID reuse_meta = replicate 8 0" "dest_Network (fm_Target reuse_meta) = Network_TCP"
    by (simp_all add: reuse_meta_def zero_meta_def TCPDestination_def)
  from mux_id_reuse_unlinks [OF m(1), of reuse_meta 0 "\<lambda>_ _. None" "[]" "\<lambda>_. []" 0 False] m(2,3) f h show ?thesis by auto
qed

text \<open>Packets of a client session.\<close>

context full_reader
begin

lemma packet_read_on:
  assumes "ok r" and "view r = \<lparr>pending = put_u16 (word_of_nat (length p)) @ p @ rest, ending = e\<rparr>" and "length p \<le> 8192" and "length fresh < 2147483648"
    and "dest_Network d = Network_UDP"
  shows "\<exists>r' b. packet_ReadMultiBuffer_on rf fresh \<lparr>po_reader = r, po_eof = False, po_dest = Some d\<rparr> = Ok (\<lparr>po_reader = r', po_eof = True, po_dest = Some d\<rparr>, [b], None) \<and>
    ok r' \<and> view r' = \<lparr>pending = rest, ending = e\<rparr> \<and> content b = p \<and> buf_wf b \<and> buf_UDP b = Some d"
proof -
  let ?sz = "word_of_nat (length p) :: u16"
  have sz: "uint ?sz = int (length p)" using assms(3) by (simp add: uint_nat unat_of_nat)
  obtain w e0 r1 where u: "ReadUint16_on rf r = Ok (w, e0, r1)" "ok r1" "ReadUint16 (view r) = ((case e0 of None \<Rightarrow> Ok w | Some e \<Rightarrow> Err e), view r1)"
    using ReadUint16_refines [OF assms(1)] by blast
  then have u': "w = ?sz" "e0 = None" "view r1 = \<lparr>pending = p @ rest, ending = e\<rparr>" using assms(2) by (auto split: option.splits)
  note n = New_wf [OF assms(4)]
  have "ReadFullFrom (New fresh) (view r1) (uint ?sz) = Ok (append_at_end (New fresh) p, length p, None, \<lparr>pending = rest, ending = e\<rparr>)"
    using ReadFullFrom_stream [of "New fresh" p "uint ?sz" rest e] n assms(3) u'(3) sz by simp
  with ReadFullFrom_refines [OF u(2), of "New fresh" "uint ?sz"] obtain r2 where
    r2: "ReadFullFrom_on rf (New fresh) r1 (uint ?sz) = Ok (append_at_end (New fresh) p, length p, None, r2)" "ok r2" "view r2 = \<lparr>pending = rest, ending = e\<rparr>"
    by (auto simp: rmap_Ok_iff)
  let ?b = "(append_at_end (New fresh) p)\<lparr>buf_UDP := Some d\<rparr>"
  have "content ?b = p" "buf_wf ?b" using append_at_end_content [of "New fresh" p] n assms(3) by (simp_all add: content_def buf_wf_def)
  moreover have "\<not> uint ?sz > Size" using sz assms(3) by (simp add: Size_def)
  ultimately show ?thesis using u u' r2 assms(5) by (intro exI [of _ r2] exI [of _ ?b]) (simp add: packet_ReadMultiBuffer_on_def)
qed

end

definition answer_meta :: "u16 \<Rightarrow> FrameMetadata" where
  "answer_meta i = zero_meta\<lparr>fm_SessionID := i, fm_Option := OptionData, fm_SessionStatus := SessionStatusKeep\<rparr>"

definition answer_bytes :: "u16 \<Rightarrow> destination \<Rightarrow> bytes \<Rightarrow> bytes" where
  "answer_bytes i a p = frame_bytes (answer_meta i) (Some a) @ put_u16 (word_of_nat (length p)) @ p"

lemma fetch_answer:
  assumes "br_ok (sv_reader (cl_sv c))" and "br_view (sv_reader (cl_sv c)) = \<lparr>pending = answer_bytes i (UDPDestination (Some a) port) p @ rest, ending = e\<rparr>"
    and "addr_ok (Some a)" and "p \<noteq> []" and "length p \<le> 8192" and "pool_ok pool"
    and "Get (sv_mgr (cl_sv c)) i (sv_store (cl_sv c)) = Some s" and "sv_transfer (cl_sv c) s = TransferTypePacket" and "sv_fails (cl_sv c) (sv_link (cl_sv c) s) = None"
  shows "\<exists>r b. fetch_frame pool now c = Ok (c\<lparr>cl_sv := (cl_sv c)\<lparr>sv_reader := r, sv_out := (sv_out (cl_sv c))(sv_link (cl_sv c) s := sv_out (cl_sv c) (sv_link (cl_sv c) s) @ [b])\<rparr>,
      cl_meta := received (cl_meta c) (answer_meta i) (Some (UDPDestination (Some a) port))\<rparr>, None) \<and>
    br_ok r \<and> br_view r = \<lparr>pending = rest, ending = e\<rparr> \<and> content b = p \<and> buf_UDP b = Some (UDPDestination (Some a) port)"
proof -
  let ?d = "UDPDestination (Some a) port" and ?sv = "cl_sv c" and ?m = "received (cl_meta c) (answer_meta i) (Some (UDPDestination (Some a) port))"
  have fo: "frame_ok (answer_meta i) (Some ?d)" using assms(3) by (simp add: frame_ok_def answer_meta_def UDPDestination_def statuses)
  have v: "br_view (sv_reader ?sv) = \<lparr>pending = frame_bytes (answer_meta i) (Some ?d) @ (put_u16 (word_of_nat (length p)) @ p @ rest), ending = e\<rparr>"
    using assms(2) by (simp add: answer_bytes_def)
  obtain r1 where r1: "Unmarshal_on (br_ReadFull source_read) (pool 2) (pool 3) (cl_meta c) (sv_reader ?sv) = Ok (?m, None, r1)" "br_ok r1"
    "br_view r1 = \<lparr>pending = put_u16 (word_of_nat (length p)) @ p @ rest, ending = e\<rparr>"
    using br.Unmarshal_frame [OF assms(1) v fo pool_okD [OF assms(6)] pool_okD [OF assms(6)]] by blast
  have m: "fm_SessionStatus ?m = SessionStatusKeep" "fm_Option ?m = OptionData" "fm_SessionID ?m = i" "fm_Target ?m = ?d"
    by (simp_all add: received_def answer_meta_def UDPDestination_def statuses)
  obtain r2 b where r2: "packet_ReadMultiBuffer_on (br_ReadFull source_read) (pool 0) \<lparr>po_reader = r1, po_eof = False, po_dest = Some ?d\<rparr> =
      Ok (\<lparr>po_reader = r2, po_eof = True, po_dest = Some ?d\<rparr>, [b], None)"
    "br_ok r2" "br_view r2 = \<lparr>pending = rest, ending = e\<rparr>" "content b = p" "buf_wf b" "buf_UDP b = Some ?d"
    using br.packet_read_on [OF r1(2,3) assms(5) pool_okD [OF assms(6), of 0], of ?d] by (auto simp: UDPDestination_def)
  have "delivers (frame_read pool) (PacketReader \<lparr>po_reader = r1, po_eof = False, po_dest = Some ?d\<rparr>) [[b], []] EOF (PacketReader \<lparr>po_reader = r2, po_eof = True, po_dest = Some ?d\<rparr>)"
    using r2(1) by (intro delivers.step delivers.last) (auto simp: packet_ReadMultiBuffer_on_def)
  moreover have "feed (link_writer None) out [[b], []] = Some (out @ [b])" for out using r2(4,5) assms(4) by (simp add: link_writer_def IsEmpty_content)
  ultimately have cp: "buf_Copy (frame_read pool) (link_writer None) noOptions (PacketReader \<lparr>po_reader = r1, po_eof = False, po_dest = Some ?d\<rparr>) out () =
      Ok (PacketReader \<lparr>po_reader = r2, po_eof = True, po_dest = Some ?d\<rparr>, out @ [b], (), None)" for out
    using buf_Copy_delivers [where h = noOptions and c = "()"] by fastforce
  have "handleStatusKeep pool now ?m (?sv\<lparr>sv_reader := r1\<rparr>) =
      Ok (?sv\<lparr>sv_reader := r2, sv_out := (sv_out ?sv)(sv_link ?sv s := sv_out ?sv (sv_link ?sv s) @ [b])\<rparr>, None)"
    using m assms(7-9) cp by (simp add: handleStatusKeep_def copy_frame_def Let_def)
  then show ?thesis using r1(1) m(1) r2 by (intro exI [of _ r2] exI [of _ b]) (simp add: fetch_frame_def Let_def statuses)
qed

text \<open>
  The client worker gives packets the wrong source.  It hands out a pointer to the one variable that it reads all metadata into: when two packets of a session arrive before the first has
  been taken from the link of the session, the taker sees the source of the second packet on both.
\<close>

theorem mux_client_source_overwritten:
  assumes "br_ok (sv_reader (cl_sv c))"
    and "br_view (sv_reader (cl_sv c)) = \<lparr>pending = answer_bytes i (UDPDestination (Some a) port) p @ answer_bytes i (UDPDestination (Some a') port') p' @ rest, ending = e\<rparr>"
    and "addr_ok (Some a)" and "addr_ok (Some a')" and "p \<noteq> []" and "length p \<le> 8192" and "p' \<noteq> []" and "length p' \<le> 8192" and "pool_ok pool"
    and "Get (sv_mgr (cl_sv c)) i (sv_store (cl_sv c)) = Some s" and "sv_transfer (cl_sv c) s = TransferTypePacket" and "sv_link (cl_sv c) s = l"
    and "sv_fails (cl_sv c) l = None" and "sv_out (cl_sv c) l = []"
  shows "\<exists>c'. fetch_frames 2 pool now c = Ok (c', None) \<and>
    map (\<lambda>b. (content b, buf_UDP b)) (client_output c' l) = [(p, Some (UDPDestination (Some a') port')), (p', Some (UDPDestination (Some a') port'))]"
proof -
  have v: "br_view (sv_reader (cl_sv c)) = \<lparr>pending = answer_bytes i (UDPDestination (Some a) port) p @ (answer_bytes i (UDPDestination (Some a') port') p' @ rest), ending = e\<rparr>"
    using assms(2) by simp
  have f: "sv_fails (cl_sv c) (sv_link (cl_sv c) s) = None" using assms(12,13) by simp
  from fetch_answer [OF assms(1) v assms(3,5,6,9,10,11) f, of now] obtain r b where
    1: "fetch_frame pool now c = Ok (c\<lparr>cl_sv := (cl_sv c)\<lparr>sv_reader := r, sv_out := (sv_out (cl_sv c))(l := [b])\<rparr>,
      cl_meta := received (cl_meta c) (answer_meta i) (Some (UDPDestination (Some a) port))\<rparr>, None)"
    "br_ok r" "br_view r = \<lparr>pending = answer_bytes i (UDPDestination (Some a') port') p' @ rest, ending = e\<rparr>" "content b = p" "buf_UDP b = Some (UDPDestination (Some a) port)"
    using assms(12,14) by auto
  define c1 where "c1 = c\<lparr>cl_sv := (cl_sv c)\<lparr>sv_reader := r, sv_out := (sv_out (cl_sv c))(l := [b])\<rparr>,
      cl_meta := received (cl_meta c) (answer_meta i) (Some (UDPDestination (Some a) port))\<rparr>"
  from fetch_answer [of c1 i a' port' p' rest e pool s now] 1(2,3) assms(4,7-14) obtain r' b' where
    2: "fetch_frame pool now c1 = Ok (c1\<lparr>cl_sv := (cl_sv c1)\<lparr>sv_reader := r', sv_out := (sv_out (cl_sv c1))(l := [b, b'])\<rparr>,
      cl_meta := received (cl_meta c1) (answer_meta i) (Some (UDPDestination (Some a') port'))\<rparr>, None)"
    "content b' = p'" "buf_UDP b' = Some (UDPDestination (Some a') port')"
    by (auto simp: c1_def)
  have "fm_Target (received x (answer_meta i) (Some (UDPDestination (Some a') port'))) = UDPDestination (Some a') port'" for x
    by (simp add: received_def answer_meta_def UDPDestination_def statuses)
  moreover have "content (x\<lparr>buf_UDP := y\<rparr>) = content x" for x :: buffer and y by (simp add: content_def)
  ultimately show ?thesis using 1(1,4,5) 2 by (simp add: numeral_2_eq_2 c1_def [symmetric] client_output_def)
qed

definition two_answers :: bytes where
  "two_answers = answer_bytes 3 (UDPDestination (Some (IPv4Address [1, 1, 1, 1])) 53) [65] @ answer_bytes 3 (UDPDestination (Some (IPv4Address [8, 8, 8, 8])) 53) [66]"

definition packet_client :: mux_client where
  "packet_client = \<lparr>cl_sv = (with_session 3 0 (NewServerWorker empty_store 0 \<lparr>src_data = [[append_at_end (New []) two_answers]], src_last = [], src_end = EOF\<rparr>))\<lparr>sv_transfer := (\<lambda>_. TransferTypePacket)\<rparr>,
     cl_meta = zero_meta\<rparr>"

theorem mux_client_source_overwritten_witness:
  "\<exists>c'. fetch_frames 2 (\<lambda>_. []) 0 packet_client = Ok (c', None) \<and>
    map (\<lambda>b. (content b, buf_UDP b)) (client_output c' 0) =
      [([65], Some (UDPDestination (Some (IPv4Address [8, 8, 8, 8])) 53)), ([66], Some (UDPDestination (Some (IPv4Address [8, 8, 8, 8])) 53))]"
proof -
  let ?link = "\<lparr>src_data = [[append_at_end (New []) two_answers]], src_last = [], src_end = EOF\<rparr>"
  have l: "length two_answers \<le> 8192" by code_simp
  have ok: "source_ok ?link" using appended_New [OF l] l by (simp add: source_ok_def)
  have rel: "server_rel (NewServerWorker empty_store 0 ?link) (Map.empty, (\<lambda>_. []), 0)" by (rule new_worker_rel(1) [OF ok])
  then have t: "table_ok (NewServerWorker empty_store 0 ?link)" by (simp add: rel_def)
  have r: "br_ok (sv_reader (cl_sv packet_client))" using rel by (simp add: rel_def packet_client_def)
  have v: "br_view (sv_reader (cl_sv packet_client)) = \<lparr>pending = answer_bytes 3 (UDPDestination (Some (IPv4Address [1, 1, 1, 1])) 53) [65] @
      answer_bytes 3 (UDPDestination (Some (IPv4Address [8, 8, 8, 8])) 53) [66] @ [], ending = EOF\<rparr>"
    using new_worker_rel(2) [OF ok, of empty_store 0] appended_New [OF l] by (simp add: packet_client_def two_answers_def)
  have "sv_mgr (NewServerWorker empty_store 0 ?link) = 0" "st_next (sv_store (NewServerWorker empty_store 0 ?link)) = 0" by (simp_all add: NewServerWorker_def empty_store_def)
  then have g: "Get (sv_mgr (cl_sv packet_client)) 3 (sv_store (cl_sv packet_client)) = Some 0" "sv_link (cl_sv packet_client) 0 = 0"
    using with_session_ok(2) [OF t, of 3 3 0] by (simp_all add: packet_client_def)
  have f: "sv_transfer (cl_sv packet_client) 0 = TransferTypePacket" "sv_fails (cl_sv packet_client) 0 = None" "sv_out (cl_sv packet_client) 0 = []"
    by (simp_all add: packet_client_def NewServerWorker_def)
  from mux_client_source_overwritten [OF r v _ _ _ _ _ _ _ g(1) f(1) g(2) f(2,3), of "\<lambda>_. []" 0] show ?thesis by (simp add: addr_ok_def pool_ok_def)
qed

end
