(* ===== verification/MuxSafe.thy ===== *)
theory MuxSafe
  imports MuxServer
begin

text \<open>
  No input crashes a mux server (theory \<open>MuxServer\<close>): every reader that the frame loop uses returns on any bytes, every
  handler keeps the table of sessions in order, and the loop consumes at least the length field of each frame, so that it ends.
\<close>

section \<open>No frame makes a worker panic\<close>

lemma read_full_rest: "read_full n s = (bs, e, s') \<Longrightarrow> length (pending s) = length bs + length (pending s') \<and> (e = None \<longrightarrow> length bs = n)"
  by (auto simp: read_full_def split: if_splits)

lemma target_safe: "length fresh < 2147483648 \<Longrightarrow> \<not> is_panic (snd (ReadAddressPort addrParser fresh None s))"
  using safe_readD [OF address_port_safe [of addrParser], of "New fresh" s] New_wf [of fresh] tables_total
  by (fastforce simp: ReadAddressPort_def addrParser_def)

lemma UnmarshalFromBuffer_safe:
  assumes "buf_wf b" and "length fresh < 2147483648"
  shows "\<exists>f' e. UnmarshalFromBuffer fresh f b = Ok (f', e)"
proof (cases "Len b < 4")
  case True
  then show ?thesis by (simp add: UnmarshalFromBuffer_def)
next
  case False
  note B = buf_Byte_content [OF assms(1)]
  have id: "BytesTo b 2 = Ok (take 2 (content b))" using BytesTo_content [OF assms(1), of 2] False by simp
  have "2 \<le> length (take 2 (content b))" using False Len_content [OF assms(1)] by simp
  note be_u16_Ok [OF this]
  moreover have "buf_wf (Advance b 5)" if "8 \<le> Len b"
    using advance_start_content [OF assms(1), of 5] Advance_content [OF assms(1), of 5] that by simp
  moreover obtain s r where t: "ReadAddressPort addrParser fresh None (stream_of (content (Advance b 5))) = (s, r)" "\<not> is_panic r"
    using target_safe [OF assms(2), of "stream_of (content (Advance b 5))"] by (metis prod.collapse)
  ultimately show ?thesis
    using False id B [of 2] B [of 3] B [of 4] assms(1)
    by (cases r; cases s) (auto simp: UnmarshalFromBuffer_def Let_def)
qed

lemma Unmarshal_safe:
  assumes "length fresh < 2147483648" and "length fresh2 < 2147483648"
  shows "\<exists>f' e s'. Unmarshal fresh fresh2 f s = Ok (f', e, s') \<and> length (pending s') \<le> length (pending s) \<and>
    (e = None \<longrightarrow> length (pending s') + 2 \<le> length (pending s))"
proof -
  obtain bs e1 s1 where r: "read_full 2 s = (bs, e1, s1)" by (metis prod_cases3)
  note rl = read_full_rest [OF r]
  show ?thesis
  proof (cases e1)
    case (Some e)
    then show ?thesis using r rl by (auto simp: Unmarshal_def ReadUint16_def)
  next
    case None
    then obtain l where l: "be_u16 bs = Ok l" using be_u16_Ok [of bs] rl by auto
    show ?thesis
    proof (cases "l > 512")
      case True
      then show ?thesis using r rl None l by (auto simp: Unmarshal_def ReadUint16_def)
    next
      case False
      then have n: "nat (uint l) \<le> 512" by (simp add: word_less_nat_alt not_less)
      note N = New_wf [OF assms(1)]
      obtain bs' e2 s2 where r2: "read_full (nat (uint l)) s1 = (bs', e2, s2)" by (metis prod_cases3)
      note rl2 = read_full_rest [OF r2] read_full_le [OF r2]
      have rf: "ReadFullFrom (New fresh) s1 (uint l) = Ok (append_at_end (New fresh) bs', length bs', e2, s2)"
        using ReadFullFrom_append [of "New fresh" "uint l" s1] N n r2 by simp
      have "buf_wf (append_at_end (New fresh) bs')" using append_at_end_content [of "New fresh" bs'] N n rl2(2) by simp
      from UnmarshalFromBuffer_safe [OF this assms(2), of f] obtain f' e' where
        "UnmarshalFromBuffer fresh2 f (append_at_end (New fresh) bs') = Ok (f', e')" by blast
      then show ?thesis using r rl None l False rf rl2(1) by (cases e2) (auto simp: Unmarshal_def ReadUint16_def)
    qed
  qed
qed

definition left :: "source buffered_reader \<Rightarrow> nat" where
  "left r = length (pending (br_view r))"

lemma Unmarshal_on_safe:
  assumes "br_ok r" and "pool_ok pool"
  shows "\<exists>f' e r'. Unmarshal_on (br_ReadFull source_read) (pool 2) (pool 3) f r = Ok (f', e, r') \<and> br_ok r' \<and> left r' \<le> left r \<and> (e = None \<longrightarrow> left r' + 2 \<le> left r)"
proof -
  obtain f' e s' where u: "Unmarshal (pool 2) (pool 3) f (br_view r) = Ok (f', e, s')" "length (pending s') \<le> left r" "e = None \<longrightarrow> length (pending s') + 2 \<le> left r"
    using Unmarshal_safe [of "pool 2" "pool 3" f "br_view r"] assms(2) by (auto simp: pool_ok_def left_def)
  with br.Unmarshal_refines(1) [OF assms(1), of "pool 2" "pool 3" f] obtain r' where
    r': "Unmarshal_on (br_ReadFull source_read) (pool 2) (pool 3) f r = Ok (f', e, r')" "br_view r' = s'" by (auto simp: rmap_Ok_iff)
  with br.Unmarshal_refines(2) [OF assms(1) r'(1)] u show ?thesis by (auto simp: left_def)
qed

text \<open>A copy returns when every read that succeeds makes progress; \<open>P\<close> holds while it goes on, \<open>Q\<close> when its reader has ended.\<close>

lemma copy_returns:
  assumes "P r" and "wf R"
    and "\<And>r. P r \<Longrightarrow> \<exists>r' mb e. rd r = Ok (r', mb, e) \<and> (if e = None then P r' \<and> (r', r) \<in> R else mb = [] \<and> Q r')"
  shows "\<exists>r' w' c' err. copyInternal rd wr h r w c = Some (Ok (r', w', c', err)) \<and> (if IsWriteError err then P r' else Q r')"
  using assms(2,1)
proof (induction r arbitrary: w c rule: wf_induct_rule)
  case (less r)
  obtain r' mb e where rd: "rd r = Ok (r', mb, e)" "if e = None then P r' \<and> (r', r) \<in> R else mb = [] \<and> Q r'" using assms(3) [OF less.prems] by blast
  show ?case
  proof (cases e)
    case (Some x)
    then show ?thesis using rd by (subst copyInternal.simps) simp
  next
    case None
    then have n: "P r'" "(r', r) \<in> R" using rd(2) by simp_all
    show ?thesis
    proof (cases "mb_IsEmpty mb")
      case True
      then show ?thesis using rd(1) None less.IH [OF n(2,1)] by (subst copyInternal.simps) simp
    next
      case False
      obtain w1 x where wr: "wr w mb = (w1, x)" by fastforce
      show ?thesis using False rd(1) None wr less.IH [OF n(2,1)] n(1) by (cases x; subst copyInternal.simps) auto
    qed
  qed
qed

lemma Copy_returns:
  assumes "P r" and "wf R"
    and "\<And>r. P r \<Longrightarrow> \<exists>r' mb e. rd r = Ok (r', mb, e) \<and> (if e = None then P r' \<and> (r', r) \<in> R else mb = [] \<and> Q r')"
  shows "\<exists>r' w' c' err. buf_Copy rd wr h r w c = Ok (r', w', c', err) \<and> (case err of Some e \<Rightarrow> (if IsWriteError e then P r' else Q r') | None \<Rightarrow> P r' \<or> Q r')"
  using copy_returns [OF assms, of wr h w c] by (auto simp: buf_Copy_def returns_def split: if_splits)

text \<open>The readers of a frame, while they go on.\<close>

definition stream_ready :: "nat \<Rightarrow> (source, unit) chunk_reader \<Rightarrow> bool" where
  "stream_ready N r \<longleftrightarrow> br_ok (cr_reader r) \<and> left (cr_reader r) \<le> N \<and> cr_maxNumChunk r = 1 \<and>
     (cr_numChunk r = 0 \<and> cr_leftOverSize r = 0 \<or> cr_numChunk r = 1 \<and> 0 \<le> cr_leftOverSize r \<and> cr_leftOverSize r < 2147483648)"

fun reader_ready :: "nat \<Rightarrow> frame_reader \<Rightarrow> bool" where
  "reader_ready N (StreamReader r) \<longleftrightarrow> stream_ready N r"
| "reader_ready N (PacketReader r) \<longleftrightarrow> br_ok (po_reader r) \<and> left (po_reader r) \<le> N"

definition reader_done :: "nat \<Rightarrow> frame_reader \<Rightarrow> bool" where
  "reader_done N r \<longleftrightarrow> br_ok (frame_source r) \<and> left (frame_source r) \<le> N"

fun reader_rank :: "frame_reader \<Rightarrow> nat" where
  "reader_rank (StreamReader r) = (if cr_numChunk r = 0 then 1 else 0)"
| "reader_rank (PacketReader r) = (if po_eof r then 0 else 1)"

definition reader_rel :: "(frame_reader \<times> frame_reader) set" where
  "reader_rel = measures [reader_rank, \<lambda>r. br_size (frame_source r)]"

lemma ready_done: "reader_ready N r \<Longrightarrow> reader_done N r"
  by (cases r) (auto simp: reader_done_def stream_ready_def)

lemma part_ready:
  assumes "br_ok (cr_reader r)" and "left (cr_reader r) \<le> N" and "cr_maxNumChunk r = 1" and "cr_numChunk r = 1" and "0 < l" and "l < 2147483648" and "pool_ok pool"
  shows "\<exists>r' mb e. read_chunk_part source_read pool (int l) r = Ok (r', mb, e) \<and>
    (if e = None then stream_ready N r' \<and> br_size (cr_reader r') < br_size (cr_reader r) \<and> cr_numChunk r' = 1 else mb = [] \<and> br_ok (cr_reader r') \<and> left (cr_reader r') \<le> N)"
proof -
  obtain bs e where v: "br_view (cr_reader r) = \<lparr>pending = bs, ending = e\<rparr>" by (metis stream.cases)
  have c: "chunk_at (\<lambda>_. True) 1 1 0 bs e (r\<lparr>cr_leftOverSize := 0\<rparr>)" using assms(1,3,4) v by (simp add: chunk_at_def)
  have eq: "read_chunk_part source_read pool (int l) r = read_chunk_part source_read pool (int l) (r\<lparr>cr_leftOverSize := 0\<rparr>)"
    by (simp add: read_chunk_part_def Let_def)
  have N: "length bs \<le> N" using v assms(2) by (simp add: left_def)
  from read_part [OF c assms(5-7)] show ?thesis
  proof (elim disjE exE conjE)
    fix r' mb bs'
    assume a: "read_chunk_part source_read pool (int l) (r\<lparr>cr_leftOverSize := 0\<rparr>) = Ok (r', mb, None)" "bs = mb_content mb @ bs'"
      "chunk_at (\<lambda>_. True) 1 1 (l - length (mb_content mb)) bs' e r'" "br_size (cr_reader r') < br_size (cr_reader (r\<lparr>cr_leftOverSize := 0\<rparr>))"
    have "stream_ready N r'" using a(2,3) N assms(6) by (auto simp: stream_ready_def chunk_at_def left_def)
    with a eq show ?thesis by (auto simp: chunk_at_def)
  next
    fix r'
    assume a: "read_chunk_part source_read pool (int l) (r\<lparr>cr_leftOverSize := 0\<rparr>) = Ok (r', [], Some e)" "bs = []" "chunk_at (\<lambda>_. True) 1 1 l [] e r'"
    then show ?thesis using eq by (auto simp: chunk_at_def left_def)
  qed
qed

lemma stream_step:
  assumes "stream_ready N r" and "pool_ok pool"
  shows "\<exists>r' mb e. chunk_ReadMultiBuffer PlainChunkSizeParser source_read pool r = Ok (r', mb, e) \<and>
    (if e = None then stream_ready N r' \<and> cr_numChunk r' = 1 \<and> (cr_numChunk r = 0 \<or> br_size (cr_reader r') < br_size (cr_reader r))
     else mb = [] \<and> br_ok (cr_reader r') \<and> left (cr_reader r') \<le> N)"
proof (cases "cr_leftOverSize r = 0")
  case False
  then have r: "br_ok (cr_reader r)" "left (cr_reader r) \<le> N" "cr_maxNumChunk r = 1" "cr_numChunk r = 1" "0 < nat (cr_leftOverSize r)" "nat (cr_leftOverSize r) < 2147483648"
    "int (nat (cr_leftOverSize r)) = cr_leftOverSize r"
    using assms(1) by (auto simp: stream_ready_def)
  from part_ready [OF r(1-6) assms(2)] obtain r' mb e where "read_chunk_part source_read pool (cr_leftOverSize r) r = Ok (r', mb, e)"
    "if e = None then stream_ready N r' \<and> br_size (cr_reader r') < br_size (cr_reader r) \<and> cr_numChunk r' = 1 else mb = [] \<and> br_ok (cr_reader r') \<and> left (cr_reader r') \<le> N"
    unfolding r(7) by blast
  with False show ?thesis by (intro exI [of _ r'] exI [of _ mb] exI [of _ e]) (auto simp: chunk_ReadMultiBuffer_def)
next
  case True
  show ?thesis
  proof (cases "cr_numChunk r = 0")
    case False
    then show ?thesis using True assms(1) by (auto simp: stream_ready_def chunk_ReadMultiBuffer_def)
  next
    case n0: True
    let ?r = "r\<lparr>cr_numChunk := 1\<rparr>"
    have ok: "br_ok (cr_reader r)" "left (cr_reader r) \<le> N" "cr_maxNumChunk r = 1" using assms(1) by (auto simp: stream_ready_def)
    obtain bs e x where x: "br_ReadFull source_read 2 (cr_reader r) = Ok (bs, e, x)" "br_ok x" "read_full 2 (br_view (cr_reader r)) = (bs, e, br_view x)"
      using br.rf [OF ok(1)] by blast
    note rl = read_full_rest [OF x(3)]
    have lx: "left x \<le> N" using rl ok(2) by (simp add: left_def)
    have c: "chunk_ReadMultiBuffer PlainChunkSizeParser source_read pool r =
        rbind (readSize PlainChunkSizeParser source_read ?r) (\<lambda>(r, nextSize, err).
             if err \<noteq> None then Ok (r, [], err) else if nextSize = 0 then Ok (r, [], Some EOF) else read_chunk_part source_read pool (uint nextSize) r)"
      using True n0 ok(3) by (simp add: chunk_ReadMultiBuffer_def Let_def)
    show ?thesis
    proof (cases e)
      case (Some y)
      then show ?thesis using c x(1,2) lx by (simp add: readSize_def PlainChunkSizeParser_def)
    next
      case None
      then obtain w where w: "be_u16 bs = Ok w" using be_u16_Ok [of bs] rl by auto
      let ?x = "?r\<lparr>cr_reader := x, cr_sizeDecoder := ()\<rparr>"
      have rs: "readSize PlainChunkSizeParser source_read ?r = Ok (?r\<lparr>cr_reader := x\<rparr>, w, None)"
        using x(1) w None by (simp add: readSize_def PlainChunkSizeParser_def)
      show ?thesis
      proof (cases "w = 0")
        case True
        then show ?thesis using c rs x(2) lx by simp
      next
        case False
        then have l: "0 < unat w" "unat w < 2147483648" using unsigned_less [of w, where 'a = nat] by (auto simp: unat_gt_0)
        obtain r' mb e where "read_chunk_part source_read pool (int (unat w)) (?r\<lparr>cr_reader := x\<rparr>) = Ok (r', mb, e)"
          "if e = None then stream_ready N r' \<and> br_size (cr_reader r') < br_size (cr_reader (?r\<lparr>cr_reader := x\<rparr>)) \<and> cr_numChunk r' = 1
           else mb = [] \<and> br_ok (cr_reader r') \<and> left (cr_reader r') \<le> N"
          using part_ready [of "?r\<lparr>cr_reader := x\<rparr>" N "unat w" pool] x(2) lx ok(3) l assms(2) by auto
        with c rs False n0 show ?thesis by (intro exI [of _ r'] exI [of _ mb] exI [of _ e]) (auto split: if_splits)
      qed
    qed
  qed
qed

lemma packet_step:
  assumes "br_ok (po_reader r)" and "left (po_reader r) \<le> N" and "length fresh < 2147483648"
  shows "\<exists>r' mb e. packet_ReadMultiBuffer_on (br_ReadFull source_read) fresh r = Ok (r', mb, e) \<and> br_ok (po_reader r') \<and> left (po_reader r') \<le> N \<and>
    (if e = None then po_eof r' \<and> \<not> po_eof r \<and> (\<exists>b. mb = [b] \<and> buf_wf b) else mb = [])"
proof (cases "po_eof r")
  case True
  then show ?thesis using assms by (simp add: packet_ReadMultiBuffer_on_def)
next
  case False
  obtain w e0 r1 where u: "ReadUint16_on (br_ReadFull source_read) (po_reader r) = Ok (w, e0, r1)" "br_ok r1"
    "ReadUint16 (br_view (po_reader r)) = ((case e0 of None \<Rightarrow> Ok w | Some e \<Rightarrow> Err e), br_view r1)"
    using br.ReadUint16_refines [OF assms(1)] by blast
  obtain bs e s where rf: "read_full 2 (br_view (po_reader r)) = (bs, e, s)" by (metis prod_cases3)
  have "br_view r1 = s" using u(3) rf by (auto simp: ReadUint16_def split: option.splits)
  then have l1: "left r1 \<le> N" using read_full_rest [OF rf] assms(2) by (simp add: left_def)
  show ?thesis
  proof (cases "e0 \<noteq> None \<or> uint w > Size")
    case True
    then show ?thesis using u(1,2) l1 False by (auto simp: packet_ReadMultiBuffer_on_def)
  next
    case ok: False
    obtain bs' e' s' where rf': "read_full (nat (uint w)) (br_view r1) = (bs', e', s')" by (metis prod_cases3)
    note N = New_wf [OF assms(3)] and rl = read_full_rest [OF rf'] read_full_le [OF rf']
    have "uint w \<le> 8192" using ok by (simp add: Size_def)
    then have w: "nat (uint w) \<le> 8192" by (simp only: nat_le_iff of_nat_numeral)
    have "ReadFullFrom (New fresh) (br_view r1) (uint w) = Ok (append_at_end (New fresh) bs', length bs', e', s')"
      using ReadFullFrom_append [of "New fresh" "uint w" "br_view r1"] N w rf' by simp
    with br.ReadFullFrom_refines [OF u(2), of "New fresh" "uint w"] obtain r2 where r2:
      "ReadFullFrom_on (br_ReadFull source_read) (New fresh) r1 (uint w) = Ok (append_at_end (New fresh) bs', length bs', e', r2)" "br_ok r2" "br_view r2 = s'"
      by (auto simp: rmap_Ok_iff)
    have l2: "left r2 \<le> N" using r2(3) rl(1) l1 by (simp add: left_def)
    have "buf_wf (append_at_end (New fresh) bs')" using append_at_end_content [of "New fresh" bs'] N w rl(2) by simp
    then have "buf_wf ((append_at_end (New fresh) bs')\<lparr>buf_UDP := d\<rparr>)" "buf_wf (append_at_end (New fresh) bs')" for d by (simp_all add: buf_wf_def)
    then show ?thesis using u(1) ok r2 l2 False
      by (cases e') (auto simp: packet_ReadMultiBuffer_on_def Let_def split: option.splits)
  qed
qed

lemma frame_step:
  assumes "reader_ready N r" and "pool_ok pool"
  shows "\<exists>r' mb e. frame_read pool r = Ok (r', mb, e) \<and> (if e = None then reader_ready N r' \<and> (r', r) \<in> reader_rel else mb = [] \<and> reader_done N r')"
proof (cases r)
  case (StreamReader x)
  obtain x' mb e where st: "chunk_ReadMultiBuffer PlainChunkSizeParser source_read pool x = Ok (x', mb, e)"
    "if e = None then stream_ready N x' \<and> cr_numChunk x' = 1 \<and> (cr_numChunk x = 0 \<or> br_size (cr_reader x') < br_size (cr_reader x))
     else mb = [] \<and> br_ok (cr_reader x') \<and> left (cr_reader x') \<le> N"
    using stream_step [of N x pool] assms StreamReader by auto
  have "e = None \<Longrightarrow> (StreamReader x', StreamReader x) \<in> reader_rel" using st(2) by (auto simp: reader_rel_def)
  with st StreamReader show ?thesis by (intro exI [of _ "StreamReader x'"] exI [of _ mb] exI [of _ e]) (auto simp: reader_done_def)
next
  case (PacketReader x)
  obtain x' mb e where st: "packet_ReadMultiBuffer_on (br_ReadFull source_read) (pool 0) x = Ok (x', mb, e)" "br_ok (po_reader x')" "left (po_reader x') \<le> N"
    "if e = None then po_eof x' \<and> \<not> po_eof x \<and> (\<exists>b. mb = [b] \<and> buf_wf b) else mb = []"
    using packet_step [of x N "pool 0"] assms PacketReader by (auto simp: pool_ok_def)
  have "e = None \<Longrightarrow> (PacketReader x', PacketReader x) \<in> reader_rel" using st(4) by (auto simp: reader_rel_def)
  with st PacketReader show ?thesis by (intro exI [of _ "PacketReader x'"] exI [of _ mb] exI [of _ e]) (auto simp: reader_done_def split: if_splits)
qed

lemma new_ready: "br_ok r \<Longrightarrow> reader_ready (left r) (session_NewReader tt r d)"
  by (cases tt) (simp_all add: stream_ready_def NewStreamReader_def NewChunkStreamReaderWithChunkCount_def)

definition store_safe :: "mux_store \<Rightarrow> bool" where
  "store_safe st \<longleftrightarrow> (\<forall>s < st_next st. ms_parent (st_sess st s) \<noteq> None \<and> (ms_XUDP (st_sess st s) \<noteq> None \<longrightarrow> ms_in_pipe (st_sess st s))) \<and>
     (\<forall>m i s. (i, s) \<in> set (sm_sessions (st_mgr st m)) \<longrightarrow> s < st_next st) \<and>
     (\<forall>x. xu_Status (st_xudp st x) \<noteq> Initializing \<longrightarrow> (\<exists>r < st_next st. xu_Mux (st_xudp st x) = Some r))"

definition safe_at :: "nat \<Rightarrow> mux_server \<Rightarrow> bool" where
  "safe_at N sv \<longleftrightarrow> store_safe (sv_store sv) \<and> br_ok (sv_reader sv) \<and> left (sv_reader sv) \<le> N"

definition safe_result :: "nat \<Rightarrow> (mux_server \<times> 'a) res \<Rightarrow> bool" where
  "safe_result N r \<longleftrightarrow> (\<exists>sv x. r = Ok (sv, x) \<and> safe_at N sv)"

lemma safe_resultI [intro]: "safe_at N sv \<Longrightarrow> safe_result N (Ok (sv, x))"
  by (simp add: safe_result_def)

lemma safe_bindI:
  assumes "safe_result N m" and "\<And>sv x. m = Ok (sv, x) \<Longrightarrow> safe_at N sv \<Longrightarrow> safe_result N (f (sv, x))"
  shows "safe_result N (rbind m f)"
  using assms by (auto simp: safe_result_def)

lemma safe_mapI: "safe_result N m \<Longrightarrow> safe_result N (rmap (\<lambda>(sv, x). (sv, f x)) m)"
  by (auto simp: safe_result_def)

lemma in_update: "(a, b) \<in> set (AList.update k v al) \<Longrightarrow> (a, b) = (k, v) \<or> (a, b) \<in> set al"
  by (induction al) (auto split: if_splits)

lemma in_delete: "(a, b) \<in> set (AList.delete k al) \<Longrightarrow> (a, b) \<in> set al"
  by (induction al) (auto split: if_splits)

lemma session_Close_store:
  assumes "store_safe st" and "s < st_next st"
  shows "\<exists>st'. session_Close now s st = Ok st' \<and> store_safe st' \<and> st_next st' = st_next st"
proof -
  obtain m where m: "ms_parent (st_sess st s) = Some m" using assms by (auto simp: store_safe_def)
  have rm: "store_safe (Remove m' i st')" "st_next (Remove m' i st') = st_next st'" if "store_safe st'" for m' i st'
    using that by (auto simp: Remove_def Let_def store_safe_def set_mgr_def dest!: in_delete)
  let ?s = "st_sess st s"
  have a: "store_safe (set_sess s (?s\<lparr>ms_closed := True, ms_in_interrupted := True, ms_out_closed := True\<rparr>) st)"
    and b: "store_safe (set_sess s (?s\<lparr>ms_closed := True, ms_in_eof := True\<rparr>) st)"
    using assms m by (auto simp: store_safe_def set_sess_def)
  have c: "store_safe (st'\<lparr>st_xudp := (st_xudp st')(x := (st_xudp st' x)\<lparr>xu_Expire := now + minute, xu_Status := Expiring\<rparr>)\<rparr>)"
    if "store_safe st'" "xu_Status (st_xudp st' x) = Active" for st' x
    using that by (auto simp: store_safe_def)
  show ?thesis
  proof (cases "ms_XUDP ?s")
    case None
    then show ?thesis using m assms(1) rm [OF a] by (simp add: session_Close_def Let_def)
  next
    case (Some x)
    have x: "st_xudp (set_sess s (?s\<lparr>ms_closed := True, ms_in_eof := True\<rparr>) st) x = st_xudp st x" by (simp add: set_sess_def)
    have "ms_in_pipe ?s" using assms Some by (auto simp: store_safe_def)
    then show ?thesis using m Some assms(1) rm [OF b] rm [OF c [OF b, of x]] x by (simp add: session_Close_def Let_def)
  qed
qed

lemma close_safe:
  assumes "safe_at N sv" and "s < st_next (sv_store sv)"
  shows "\<exists>sv'. session_close now s sv = Ok sv' \<and> safe_at N sv' \<and> st_next (sv_store sv') = st_next (sv_store sv)"
  using session_Close_store [of "sv_store sv" s now] assms by (auto simp: session_close_def safe_at_def)

lemma copy_discard_safe:
  assumes "safe_at N sv" and "pool_ok pool"
  shows "safe_result N (copy_discard pool sv)"
proof -
  let ?P = "stream_ready N" and ?Q = "\<lambda>r. br_ok (cr_reader r) \<and> left (cr_reader r) \<le> N"
  let ?R = "inv_image reader_rel StreamReader"
  have "?P (NewStreamReader (sv_reader sv))" using assms(1) by (simp add: safe_at_def stream_ready_def NewStreamReader_def NewChunkStreamReaderWithChunkCount_def)
  moreover have "wf ?R" by (simp add: reader_rel_def)
  moreover have "\<exists>r' mb e. chunk_ReadMultiBuffer PlainChunkSizeParser source_read pool r = Ok (r', mb, e) \<and> (if e = None then ?P r' \<and> (r', r) \<in> ?R else mb = [] \<and> ?Q r')"
    if r: "?P r" for r
  proof -
    obtain r' mb e where "chunk_ReadMultiBuffer PlainChunkSizeParser source_read pool r = Ok (r', mb, e)"
      "if e = None then stream_ready N r' \<and> cr_numChunk r' = 1 \<and> (cr_numChunk r = 0 \<or> br_size (cr_reader r') < br_size (cr_reader r))
       else mb = [] \<and> br_ok (cr_reader r') \<and> left (cr_reader r') \<le> N"
      using stream_step [OF r assms(2)] by blast
    then show ?thesis by (intro exI [of _ r'] exI [of _ mb] exI [of _ e]) (auto simp: reader_rel_def inv_image_def)
  qed
  ultimately obtain r' w c' err where "buf_Copy (chunk_ReadMultiBuffer PlainChunkSizeParser source_read pool) Discard noOptions (NewStreamReader (sv_reader sv)) () () = Ok (r', w, c', err)"
    "case err of Some e \<Rightarrow> (if IsWriteError e then ?P r' else ?Q r') | None \<Rightarrow> ?P r' \<or> ?Q r'"
    using Copy_returns [of ?P "NewStreamReader (sv_reader sv)" ?R "chunk_ReadMultiBuffer PlainChunkSizeParser source_read pool" ?Q Discard noOptions "()" "()"] by blast
  then have "copy_discard pool sv = Ok (sv\<lparr>sv_reader := cr_reader r'\<rparr>, map_option copy_Cause err)" "?Q r'"
    by (auto simp: copy_discard_def stream_ready_def split: option.splits if_splits)
  then show ?thesis using assms(1) by (auto simp: safe_result_def safe_at_def)
qed

lemma frame_copy_returns:
  assumes "reader_ready N r" and "pool_ok pool"
  shows "\<exists>r' w' c' err. buf_Copy (frame_read pool) wr h r w c = Ok (r', w', c', err) \<and>
    (case err of Some e \<Rightarrow> (if IsWriteError e then reader_ready N r' else reader_done N r') | None \<Rightarrow> reader_ready N r' \<or> reader_done N r')"
  by (rule Copy_returns [OF assms(1) _ frame_step [OF _ assms(2)]]) (simp add: reader_rel_def)

lemma copy_frame_safe:
  assumes "safe_at N sv" and "s < st_next (sv_store sv)" and "pool_ok pool"
  shows "safe_result N (copy_frame pool now s dest sv)"
proof -
  let ?l = "sv_link sv s" and ?rr = "session_NewReader (sv_transfer sv s) (sv_reader sv) dest"
  have rr: "reader_ready N ?rr" using new_ready [of "sv_reader sv" "sv_transfer sv s" dest] assms(1)
    by (cases ?rr) (auto simp: safe_at_def stream_ready_def)
  obtain r1 w1 c1 err where c1: "buf_Copy (frame_read pool) (link_writer (sv_fails sv ?l)) noOptions ?rr (sv_out sv ?l) () = Ok (r1, w1, c1, err)"
    "case err of Some e \<Rightarrow> (if IsWriteError e then reader_ready N r1 else reader_done N r1) | None \<Rightarrow> reader_ready N r1 \<or> reader_done N r1"
    using frame_copy_returns [OF rr assms(3), of "link_writer (sv_fails sv ?l)" noOptions "sv_out sv ?l" "()"] by blast
  let ?sv = "sv\<lparr>sv_reader := frame_source r1, sv_out := (sv_out sv)(?l := w1)\<rparr>"
  have d: "reader_done N r1" using c1(2) ready_done by (auto split: option.splits if_splits)
  then have sv: "safe_at N ?sv" using assms(1) by (simp add: safe_at_def reader_done_def)
  show ?thesis
  proof (cases "\<exists>e. err = Some e \<and> IsWriteError e")
    case False
    then show ?thesis using c1(1) sv by (auto simp: copy_frame_def Let_def safe_result_def split: option.splits)
  next
    case True
    then have r1: "reader_ready N r1" using c1(2) by auto
    obtain sv2 where sv2: "session_close now s ?sv = Ok sv2" "safe_at N sv2" using close_safe [OF sv, of s now] assms(2) by auto
    obtain r3 w3 c3 err3 where c3: "buf_Copy (frame_read pool) Discard noOptions r1 () () = Ok (r3, w3, c3, err3)"
      "case err3 of Some e \<Rightarrow> (if IsWriteError e then reader_ready N r3 else reader_done N r3) | None \<Rightarrow> reader_ready N r3 \<or> reader_done N r3"
      using frame_copy_returns [OF r1 assms(3), of Discard noOptions "()" "()"] by blast
    have "reader_done N r3" using c3(2) ready_done by (auto split: option.splits if_splits)
    then show ?thesis using True c1(1) sv2 c3(1) by (auto simp: copy_frame_def Let_def safe_result_def safe_at_def reader_done_def)
  qed
qed

lemma Get_safe: "safe_at N sv \<Longrightarrow> Get m i (sv_store sv) = Some s \<Longrightarrow> s < st_next (sv_store sv)"
  by (auto simp: safe_at_def store_safe_def Get_def Let_def split: if_splits dest!: map_of_SomeD)

lemma keep_alive_safe: "safe_at N sv \<Longrightarrow> pool_ok pool \<Longrightarrow> safe_result N (handleStatusKeepAlive pool meta sv)"
  using copy_discard_safe by (auto simp: handleStatusKeepAlive_def)

lemma end_safe:
  assumes "safe_at N sv" and "pool_ok pool"
  shows "safe_result N (handleStatusEnd pool now meta sv)"
proof (cases "Get (sv_mgr sv) (fm_SessionID meta) (sv_store sv)")
  case None
  then show ?thesis using assms copy_discard_safe by (auto simp: handleStatusEnd_def)
next
  case (Some s)
  obtain sv' where "session_close now s sv = Ok sv'" "safe_at N sv'" using close_safe [OF assms(1) Get_safe [OF assms(1) Some]] by blast
  then show ?thesis using Some assms(2) copy_discard_safe by (auto simp: handleStatusEnd_def)
qed

lemma keep_safe:
  assumes "safe_at N sv" and "pool_ok pool"
  shows "safe_result N (handleStatusKeep pool now meta sv)"
proof (cases "Get (sv_mgr sv) (fm_SessionID meta) (sv_store sv)")
  case None
  obtain w where w: "mux_writer_Close container_sink (pool 0) (NewResponseWriter (fm_SessionID meta) (sv_down sv) TransferTypeStream) = Ok (w, None)"
    using writer_Close_ok [OF pool_okD [OF assms(2)]] by blast
  have "safe_at N (sv\<lparr>sv_down := mw_writer w\<rparr>)" using assms(1) by (simp add: safe_at_def)
  then show ?thesis using None w assms copy_discard_safe by (auto simp: handleStatusKeep_def)
next
  case (Some s)
  then show ?thesis using assms copy_frame_safe [OF assms(1) Get_safe [OF assms(1) Some] assms(2)] by (auto simp: handleStatusKeep_def)
qed

lemma new_session_safe:
  assumes "safe_at N sv" and "new_session i tt x l sv = (sv', s)"
  shows "safe_at N sv'" and "s < st_next (sv_store sv')" and "st_next (sv_store sv) \<le> st_next (sv_store sv')"
  using assms by (auto simp: new_session_def Let_def safe_at_def store_safe_def set_sess_def less_Suc_eq)

lemma add_session_safe:
  assumes "safe_at N sv" and "s < st_next (sv_store sv)"
  shows "\<exists>sv' ok. add_session now s sv = Ok (sv', ok) \<and> safe_at N sv' \<and> s < st_next (sv_store sv')"
proof (cases "sm_closed (st_mgr (sv_store sv) (sv_mgr sv))")
  case True
  then show ?thesis using close_safe [OF assms, of now] assms(2) by (auto simp: add_session_def Add_def Let_def)
next
  case False
  then show ?thesis using assms by (auto simp: add_session_def Add_def Let_def safe_at_def store_safe_def set_mgr_def dest!: in_update)
qed

lemma new_plain_safe:
  assumes "safe_at N sv" and "pool_ok pool"
  shows "safe_result N (new_plain dispatch pool now meta sv)"
proof (cases "dispatch (sv_links sv) (fm_Target meta)")
  case (Some e)
  obtain sv' x where "copy_discard pool sv = Ok (sv', x)" "safe_at N sv'" using copy_discard_safe [OF assms] by (auto simp: safe_result_def)
  then show ?thesis using Some assms(1) by (auto simp: new_plain_def)
next
  case None
  let ?tt = "if dest_Network (fm_Target meta) = Network_UDP then TransferTypePacket else TransferTypeStream"
  obtain sv1 s where ns: "new_session (fm_SessionID meta) ?tt None (sv_links sv) (sv\<lparr>sv_links := Suc (sv_links sv)\<rparr>) = (sv1, s)" by fastforce
  have "safe_at N (sv\<lparr>sv_links := Suc (sv_links sv)\<rparr>)" using assms(1) by (simp add: safe_at_def)
  note n = new_session_safe [OF this ns]
  obtain sv2 ok where a: "add_session now s sv1 = Ok (sv2, ok)" "safe_at N sv2" "s < st_next (sv_store sv2)" using add_session_safe [OF n(1,2)] by blast
  with None ns copy_frame_safe [OF a(2,3) assms(2)] show ?thesis by (auto simp: new_plain_def Let_def)
qed

lemma set_xudp_safe:
  assumes "safe_at N sv" and "xu_Status v \<noteq> Initializing \<longrightarrow> (\<exists>r < st_next (sv_store sv). xu_Mux v = Some r)"
  shows "safe_at N (set_xudp x v sv)" "st_next (sv_store (set_xudp x v sv)) = st_next (sv_store sv)"
  using assms by (auto simp: set_xudp_def safe_at_def store_safe_def)

lemma claim_safe:
  assumes "safe_at N sv" and "mb = [b]" and "buf_wf b" and "length fresh < 2147483648"
  shows "\<exists>sv' cl. claim_xudp fresh now gid mb sv = Ok (sv', cl) \<and> safe_at N sv'"
proof (cases "map_of (st_xmap (sv_store sv)) gid")
  case None
  have "safe_at N (sv\<lparr>sv_xnext := k, sv_store := (sv_store sv)\<lparr>st_xmap := q\<rparr>\<rparr>)" for k q using assms(1) by (simp add: safe_at_def store_safe_def)
  then show ?thesis using None set_xudp_safe(1) by (auto simp: claim_xudp_def Let_def)
next
  case (Some x)
  show ?thesis
  proof (cases "xu_Status (get_xudp x sv) = Initializing")
    case True
    then show ?thesis using Some assms(1) by (auto simp: claim_xudp_def)
  next
    case False
    let ?sv = "set_xudp x ((get_xudp x sv)\<lparr>xu_Status := Initializing\<rparr>) sv"
    have sv: "safe_at N ?sv" "st_next (sv_store ?sv) = st_next (sv_store sv)" using set_xudp_safe [OF assms(1)] by auto
    obtain r where r: "xu_Mux (get_xudp x sv) = Some r" "r < st_next (sv_store sv)"
      using False assms(1) by (auto simp: safe_at_def store_safe_def get_xudp_def)
    obtain sv2 where sv2: "session_close now r ?sv = Ok sv2" "safe_at N sv2" using close_safe [OF sv(1), of r now] r(2) sv(2) by auto
    obtain c n where c: "Write (New fresh) (content b) = Ok (c, n)" using Write_content [of "New fresh" "content b"] New_wf [OF assms(4)] by auto
    have m: "xu_Mux (get_xudp x ?sv) = Some r" using r(1) by (simp add: get_xudp_def set_xudp_def)
    have "xu_Mux (get_xudp x sv2) \<noteq> None"
      using sv2(1) m by (auto simp: session_close_def session_Close_def get_xudp_def Remove_def set_mgr_def set_sess_def Let_def rmap_Ok_iff split: option.splits if_splits)
    then obtain r' where "xu_Mux (st_xudp (sv_store sv2) x) = Some r'" by (auto simp: get_xudp_def)
    moreover have "store_safe (set_sess q ((st_sess st q)\<lparr>ms_in_interrupted := True, ms_out_closed := True\<rparr>) st)" if "store_safe st" for q st
      using that by (auto simp: store_safe_def set_sess_def)
    ultimately have i: "\<exists>st. XUDP_Interrupt x (sv_store sv2) = Ok st \<and> store_safe st" using sv2(2) by (auto simp: XUDP_Interrupt_def safe_at_def)
    then obtain st where st: "XUDP_Interrupt x (sv_store sv2) = Ok st" "store_safe st" by blast
    obtain out e where lw: "link_writer (sv_fails sv2 (sv_link sv2 r)) (sv_out sv2 (sv_link sv2 r)) mb = (out, e)" by fastforce
    show ?thesis using Some False m sv2 c lw st assms(2,3)
      by (cases e) (auto simp: claim_xudp_def Let_def safe_at_def)
  qed
qed

lemma xudp_finish_safe:
  assumes "safe_at N sv" and "new_session i TransferTypePacket (Some x) l sv = (sv1, s)"
  shows "safe_result N (rmap (\<lambda>(sv, added). (sv, if added then None else Some (ErrMsg ''failed to add new session'')))
    (add_session now s (set_xudp x ((get_xudp x sv1)\<lparr>xu_Mux := Some s, xu_Status := Active\<rparr>) sv1)))"
proof -
  note n = new_session_safe [OF assms]
  let ?sv = "set_xudp x ((get_xudp x sv1)\<lparr>xu_Mux := Some s, xu_Status := Active\<rparr>) sv1"
  have "safe_at N ?sv" "s < st_next (sv_store ?sv)" using set_xudp_safe [OF n(1), of "(get_xudp x sv1)\<lparr>xu_Mux := Some s, xu_Status := Active\<rparr>" x] n(2) by auto
  from add_session_safe [OF this, of now] show ?thesis by (auto simp: safe_result_def)
qed

lemma new_xudp_safe:
  assumes "safe_at N sv" and "pool_ok pool"
  shows "safe_result N (new_xudp dispatch pool now meta sv)"
proof -
  let ?pr = "\<lparr>po_reader = sv_reader sv, po_eof = False, po_dest = Some (fm_Target meta)\<rparr>"
  obtain pr mb e where pk: "packet_ReadMultiBuffer_on (br_ReadFull source_read) (pool 0) ?pr = Ok (pr, mb, e)" "br_ok (po_reader pr)" "left (po_reader pr) \<le> N"
    "if e = None then po_eof pr \<and> \<not> po_eof ?pr \<and> (\<exists>b. mb = [b] \<and> buf_wf b) else mb = []"
    using packet_step [of ?pr N "pool 0"] assms by (auto simp: safe_at_def pool_ok_def)
  let ?sv = "sv\<lparr>sv_reader := po_reader pr\<rparr>"
  have sv: "safe_at N ?sv" using assms(1) pk(2,3) by (simp add: safe_at_def)
  show ?thesis
  proof (cases e)
    case (Some x)
    then show ?thesis using pk(1) sv by (auto simp: new_xudp_def)
  next
    case None
    then obtain b where "mb = [b]" "buf_wf b" using pk(4) by auto
    from claim_safe [OF sv this pool_okD [OF assms(2), of 1], of now "fm_GlobalID meta"] obtain sv' cl where
      c: "claim_xudp (pool 1) now (fm_GlobalID meta) mb ?sv = Ok (sv', cl)" "safe_at N sv'" by blast
    show ?thesis
    proof (cases cl)
      case None
      then show ?thesis using \<open>e = None\<close> pk(1) c by (auto simp: new_xudp_def Let_def)
    next
      case (Some t)
      obtain x lk mb' where t: "t = (x, lk, mb')" by (cases t)
      show ?thesis
      proof (cases lk)
        case (Some l)
        obtain sv1 s where ns: "new_session (fm_SessionID meta) TransferTypePacket (Some x) l sv' = (sv1, s)" by fastforce
        from xudp_finish_safe [OF c(2) ns, of now] show ?thesis using \<open>e = None\<close> \<open>cl = Some t\<close> t Some pk(1) c(1) ns by (simp add: new_xudp_def Let_def)
      next
        case None
        show ?thesis
        proof (cases "dispatch (sv_links sv') (fm_Target meta)")
          case (Some er)
          have "safe_at N (sv'\<lparr>sv_store := (sv_store sv')\<lparr>st_xmap := q\<rparr>\<rparr>)" for q using c(2) by (simp add: safe_at_def store_safe_def)
          then show ?thesis using \<open>e = None\<close> \<open>cl = Some t\<close> t None Some pk(1) c(1) by (auto simp: new_xudp_def Let_def)
        next
          case nd: None
          let ?sv2 = "sv'\<lparr>sv_links := Suc (sv_links sv'), sv_out := (sv_out sv')(sv_links sv' := fst (link_writer (sv_fails sv' (sv_links sv')) (sv_out sv' (sv_links sv')) mb'))\<rparr>"
          have "safe_at N ?sv2" using c(2) by (simp add: safe_at_def)
          moreover obtain sv1 s where ns: "new_session (fm_SessionID meta) TransferTypePacket (Some x) (sv_links sv') ?sv2 = (sv1, s)" by fastforce
          ultimately show ?thesis using xudp_finish_safe [OF _ ns, of N now] \<open>e = None\<close> \<open>cl = Some t\<close> t None nd pk(1) c(1) ns by (simp add: new_xudp_def Let_def)
        qed
      qed
    qed
  qed
qed

lemma handleFrame_safe:
  assumes "safe_at N sv" and "pool_ok pool"
  shows "\<exists>sv' e. handleFrame dispatch allowed pool now sv = Ok (sv', e) \<and> safe_at N sv' \<and> (e = None \<longrightarrow> left (sv_reader sv') < left (sv_reader sv))"
proof -
  have ok: "br_ok (sv_reader sv)" "store_safe (sv_store sv)" "left (sv_reader sv) \<le> N" using assms(1) by (simp_all add: safe_at_def)
  obtain meta e r where u: "Unmarshal_on (br_ReadFull source_read) (pool 2) (pool 3) zero_meta (sv_reader sv) = Ok (meta, e, r)" "br_ok r"
    "left r \<le> left (sv_reader sv)" "e = None \<longrightarrow> left r + 2 \<le> left (sv_reader sv)"
    using Unmarshal_on_safe [OF ok(1) assms(2), of zero_meta] by blast
  let ?sv = "sv\<lparr>sv_reader := r\<rparr>"
  have sv: "safe_at (left r) ?sv" using ok(2) u(2) by (simp add: safe_at_def)
  have N: "safe_at N ?sv" using ok u(2,3) by (simp add: safe_at_def)
  have all: "safe_result (left r) (handleStatusKeepAlive pool meta ?sv)" "safe_result (left r) (handleStatusEnd pool now meta ?sv)"
    "safe_result (left r) (handleStatusNew dispatch allowed pool now meta ?sv)" "safe_result (left r) (handleStatusKeep pool now meta ?sv)"
    using keep_alive_safe end_safe keep_safe new_plain_safe new_xudp_safe sv assms(2) by (auto simp: handleStatusNew_def)
  show ?thesis
  proof (cases "e \<noteq> None \<or> fm_SessionStatus meta \<notin> {SessionStatusKeepAlive, SessionStatusEnd, SessionStatusNew, SessionStatusKeep}")
    case True
    then show ?thesis using u(1) N by (auto simp: handleFrame_def Let_def)
  next
    case False
    let ?h = "if fm_SessionStatus meta = SessionStatusKeepAlive then handleStatusKeepAlive pool meta ?sv
            else if fm_SessionStatus meta = SessionStatusEnd then handleStatusEnd pool now meta ?sv
            else if fm_SessionStatus meta = SessionStatusNew then handleStatusNew dispatch allowed pool now meta ?sv
            else handleStatusKeep pool now meta ?sv"
    obtain sv' e' where h: "?h = Ok (sv', e')" "safe_at (left r) sv'"
    proof -
      have "safe_result (left r) ?h" using all by simp
      then show ?thesis using that by (auto simp: safe_result_def)
    qed
    have "handleFrame dispatch allowed pool now sv = rmap (\<lambda>(sv, err). (sv, map_option (\<lambda>e. ErrMsg ''failed to process data'') err)) ?h"
      using u(1) False by (simp add: handleFrame_def Let_def)
    then have "handleFrame dispatch allowed pool now sv = Ok (sv', map_option (\<lambda>e. ErrMsg ''failed to process data'') e')" unfolding h(1) by simp
    then show ?thesis using h(2) u(3,4) False ok(3) by (auto simp: safe_at_def)
  qed
qed

lemma close_sessions_safe:
  "store_safe st \<Longrightarrow> \<forall>(i, s) \<in> set ss. s < st_next st \<Longrightarrow> \<exists>st'. close_sessions now ss st = Ok st'"
proof (induction ss arbitrary: st)
  case (Cons a ss)
  obtain i s where a: "a = (i, s)" by fastforce
  obtain st1 where st1: "session_Close now s st = Ok st1" "store_safe st1" "st_next st1 = st_next st" using session_Close_store [of st s now] Cons.prems a by auto
  with Cons.IH [of st1] Cons.prems a show ?case by auto
qed simp

lemma run_end_safe:
  assumes "safe_at N sv"
  shows "\<exists>sv'. run_end now sv = Ok sv' \<and> sv_ended sv'"
proof -
  let ?m = "sv_mgr sv" and ?st = "sv_store sv"
  have s: "store_safe ?st" using assms by (simp add: safe_at_def)
  have "store_safe (set_mgr ?m ((st_mgr ?st ?m)\<lparr>sm_closed := True\<rparr>) ?st)" using s by (auto simp: store_safe_def set_mgr_def)
  moreover have "\<forall>(i, r) \<in> set (sm_sessions (st_mgr ?st ?m)). r < st_next (set_mgr ?m ((st_mgr ?st ?m)\<lparr>sm_closed := True\<rparr>) ?st)"
    using s by (auto simp: store_safe_def)
  ultimately obtain st' where "close_sessions now (sm_sessions (st_mgr ?st ?m)) (set_mgr ?m ((st_mgr ?st ?m)\<lparr>sm_closed := True\<rparr>) ?st) = Ok st'"
    using close_sessions_safe by blast
  then show ?thesis by (auto simp: run_end_def manager_Close_def Let_def)
qed

lemma run_loop_safe:
  assumes "safe_at N sv" and "\<forall>k. pool_ok (pool k)"
  shows "\<exists>sv'. run_loop dispatch allowed pool now stop k sv = Some (Ok sv') \<and> sv_ended sv'"
  using assms(1)
proof (induction "left (sv_reader sv)" arbitrary: sv k rule: less_induct)
  case less
  show ?case
  proof (cases "stop k")
    case True
    then show ?thesis using run_end_safe [OF less.prems, of "now k"] by (subst run_loop.simps) auto
  next
    case False
    have p: "pool_ok (pool k)" using assms(2) by blast
    obtain sv' e where h: "handleFrame dispatch allowed (pool k) (now k) sv = Ok (sv', e)" "safe_at N sv'" "e = None \<longrightarrow> left (sv_reader sv') < left (sv_reader sv)"
      using handleFrame_safe [OF less.prems p, of dispatch allowed "now k"] by blast
    show ?thesis
    proof (cases e)
      case None
      have "run_loop dispatch allowed pool now stop k sv = run_loop dispatch allowed pool now stop (Suc k) sv'" using False h(1) None by (subst run_loop.simps) simp
      then show ?thesis using less.hyps [OF _ h(2), of "Suc k"] h(3) None by auto
    next
      case (Some x)
      then show ?thesis using False h(1) run_end_safe [OF h(2), of "now k"] by (subst run_loop.simps) auto
    qed
  qed
qed

text \<open>
  C38. No client can crash a mux server or keep it busy: on any bytes whatsoever, delivered in any pieces and followed by any error, whatever the dispatcher answers and
  whichever links refuse data, the loop of the server worker returns without a panic, and gives up its link.
\<close>

theorem mux_server_total:
  assumes "source_ok link" and "\<forall>k. pool_ok (pool k)"
  shows "\<exists>sv. server_run dispatch allowed pool now stop ((NewServerWorker empty_store m link)\<lparr>sv_fails := fails\<rparr>) = Ok sv \<and> sv_ended sv"
proof -
  let ?sv = "(NewServerWorker empty_store m link)\<lparr>sv_fails := fails\<rparr>"
  have "br_ok (sv_reader ?sv)" using new_worker_rel(1) [OF assms(1), of empty_store m] by (simp add: rel_def)
  then have "safe_at (left (sv_reader ?sv)) ?sv" by (simp add: safe_at_def store_safe_def NewServerWorker_def empty_store_def NewSessionManager_def set_mgr_def)
  from run_loop_safe [OF this assms(2), of dispatch allowed now stop 0] show ?thesis by (auto simp: server_run_def returns_def)
qed

theorem mux_server_total_witness:
  "\<exists>sv. server_run (\<lambda>n d. if n = 0 then None else Some EOF) Network_UDP (\<lambda>_ _. []) (\<lambda>_. 0) (\<lambda>k. k = 9)
      ((NewServerWorker empty_store 0 \<lparr>src_data = [[append_at_end (New []) [0, 4, 0, 1, 2, 1, 0, 9, 7, 7]]], src_last = [], src_end = ErrClosedPipe\<rparr>)\<lparr>sv_fails := (\<lambda>_. Some ErrClosedPipe)\<rparr>) = Ok sv \<and> sv_ended sv"
  by (rule mux_server_total) (use appended_New [of "[0, 4, 0, 1, 2, 1, 0, 9, 7, 7]"] in \<open>simp_all add: source_ok_def pool_ok_def\<close>)

end
