(* ===== verification/Spec2Isabelle.thy ===== *)
theory Spec2Isabelle
  imports JniWrapper MuxWriter MuxSession KcpSteps Dispatcher Vision Trojan Fallback Xudp UploadQueue MuxSafe
begin

text \<open>
  Verification of the repository of native Xray binaries: the JNI wrapper (\<open>src/jni_workspaces\<close>) and the
  Xray core that it embeds (\<open>src/source/xray-core\<close>, Go).

  \<^bold>\<open>The program.\<close>  The wrapper starts and stops one Xray server in an Android process.  The server accepts
  connections through inbound proxies.  A proxy such as VLESS or Trojan reads a header, finds the user in its table and otherwise hands
  the connection to a fallback; VLESS may pad and unpad the first records of an inner TLS connection (Vision).  The dispatcher looks at the first bytes
  of the connection to learn the name that the client asks for, asks the router for an outbound tag, counts the traffic of the
  user, and links the inbound with the outbound.  Links are pipes of buffers; names are
  matched by string matchers; names of the fake DNS engine stand for addresses of a pool; several connections may
  share one by mux frames, whose sessions a server worker takes apart again; XUDP carries datagrams in such a frame stream.  mKCP is a
  transport of its own over datagrams, and split HTTP uploads a stream as requests that arrive in any order.

  \<^bold>\<open>The theories\<close>, in the order of their imports.

  \<^item> \<open>Prelude\<close>: bytes, machine integers, results (\<open>Ok\<close>, \<open>Err\<close>, \<open>Panic\<close>), slices, big endian codecs, byte streams.
    \<open>GoStd\<close>: the string and address functions of Go's library.
  \<^item> \<open>JniWrapper\<close> (\<open>xray_go/main.go\<close>): the three exported calls, one after another and interleaved.
  \<^item> \<open>NetAddr\<close> (\<open>common/net\<close>): addresses, ports, destinations with their printers and parsers.
    \<open>AddressCodec\<close> (\<open>common/protocol/address.go\<close>): addresses on the wire.
  \<^item> \<open>BytesPool\<close>, \<open>Buffer\<close>, \<open>MultiBuffer\<close> (\<open>common/bytespool\<close>, \<open>common/buf\<close>): pools, buffers with \<open>int32\<close> bounds, lists of
    buffers.  \<open>ByteFifo\<close> is the contract they share with the pipe, a locale interpreted on each of them.
    \<open>BufIo\<close>: copying, the buffered reader and the buffered writer, on sources that may deliver data together with their error.  \<open>ChunkStream\<close> (\<open>common/crypto/chunk.go\<close>): streams of chunks.
  \<^item> \<open>Pipe\<close> (\<open>transport/pipe\<close>, \<open>common/signal\<close>): readers and writers as interleaved atomic sections.
  \<^item> \<open>MuxFrame\<close>, \<open>MuxWriter\<close>, \<open>MuxSession\<close> (\<open>common/mux\<close>): frames, the session writer and packet reader, the session
    manager and the choice of a worker.  \<open>MuxServer\<close>: the server worker with its handlers and the reading loop of the client;
    \<open>MuxSafe\<close>: no input crashes the server.  \<open>Xudp\<close> (\<open>common/xudp\<close>): datagrams as frames.
  \<^item> \<open>KcpSegment\<close>, \<open>KcpReceive\<close>, \<open>KcpSend\<close>, \<open>PacketHeader\<close>, \<open>KcpPacket\<close>, \<open>KcpConn\<close> (\<open>transport/internet/kcp\<close>,
    \<open>transport/internet/headers\<close>): segments, windows, congestion control, disguise and authentication of datagrams,
    and the connection's state machine.  \<open>KcpSteps\<close>: the connection's calls as programs of atomic sections, and every interleaving of them.
  \<^item> \<open>StrMatcher\<close>, \<open>StrAc\<close>, \<open>StrMph\<close> (\<open>common/strmatcher\<close>): single matchers and the linear group, the automaton for
    keywords, the perfect hash group.
  \<^item> \<open>OutboundManager\<close> (\<open>app/proxyman/outbound\<close>), \<open>Balancer\<close>, \<open>RouterCond\<close>, \<open>Router\<close> (\<open>app/router\<close>,
    \<open>features/routing\<close>): the table of handlers, balancing strategies, rule conditions, the routing table.
  \<^item> \<open>LruCache\<close> (\<open>common/cache\<close>), \<open>FakeDns\<close> (\<open>app/dns/fakedns\<close>): the two way cache and the pools of fake addresses.
  \<^item> \<open>Sniff\<close>, \<open>QuicSniff\<close> (\<open>common/protocol/tls\<close>, \<open>http\<close>, \<open>bittorrent\<close>, \<open>quic\<close>): recognising protocols and server names.
    \<open>Sniffer\<close>, \<open>Dispatcher\<close> (\<open>app/dispatcher\<close>): the sniffing loop with its two attempts, the cached reader, overriding of destinations, routed dispatch.
    \<open>Stats\<close>, \<open>Policy\<close> (\<open>app/stats\<close>, \<open>app/policy\<close>, \<open>features/stats\<close>, \<open>features/policy\<close>): counters (looked up and
    registered in two separately locked steps), online maps, channels, policies by user level.
  \<^item> \<open>WireBuf\<close>, \<open>SafeRead\<close>: headers written to and read from buffers step by step, and that no input makes such a reader panic.
    \<open>Uuid\<close> (\<open>common/uuid\<close>).  \<open>UserTable\<close>: the contract of a table of users, a locale interpreted on those of
    \<open>Vless\<close> (\<open>proxy/vless\<close>) and \<open>Trojan\<close> (\<open>proxy/trojan\<close>), which also hold the headers and the packet framing.
    \<open>Fallback\<close>: the tables of fallbacks of both.  \<open>Vision\<close> (\<open>proxy/proxy.go\<close>): padding, unpadding, the TLS filter.
  \<^item> \<open>GoHeap\<close> (Go's \<open>container/heap\<close>), \<open>UploadQueue\<close> (\<open>transport/internet/splithttp/upload_queue.go\<close>): readers, uploads and
    the closing as interleaved steps between the channel and the locks.

  \<^bold>\<open>State and operations.\<close>  A Go struct is a record with the fields of the struct, a method is a function from
  the record to the new record and its results, an \<open>error\<close> or a panic is a value of \<open>res\<close>.  Objects that the code
  shares by reference live in a heap, a list, and a pointer is a position.  A Go map is an association list with
  distinct keys; the order of an iteration over a map is an argument.  Clocks, random numbers, the scheduler and
  code of other packages are arguments, with the laws that the code relies on as hypotheses or locale assumptions.

  \<^bold>\<open>What is shown.\<close>  Each component has an invariant that its operations keep, and its
  properties are stated for every state that runs of its operations reach.
  The containers: no byte is lost, invented or reordered (buffers, pipes, buffered readers of sources that deliver data and errors
  apart, buffered writers, the session writer, the upload queue for packets with distinct numbers, the KCP windows, and end to end two KCP connections over a network that loses, repeats and reorders).
  The codecs: reading gives back what was written (addresses, frames, chunks, segments, datagrams, VLESS and Trojan requests, Vision padding),
  however the connection cuts the bytes; Vision within the cuts that its property names.
  The parsers: no bytes of a client make a header reader, a sniffer or the mux server panic or loop, but for the cases listed as findings.
  The mux server: whatever sessions the frames of a connection interleave, every link gets exactly the data of its session.
  The decisions: matcher groups accept the names that the single matchers accept (the perfect hash group for patterns whose keys the hash function spreads, for
  which its construction returns); the router takes
  the first rule that applies; a balancer answers with a registered outbound; strategies pick what they
  document; a fake address leads back to its name; the name in the first bytes decides the route if they come early enough, and sniffing keeps the data;
  tables of users answer with what was put in, tables of fallbacks with the most specific entry.
  The state machines: the life cycle of a KCP connection, also when its calls overlap, wrapper calls, blocking pipe operations.
  Where the code does not do what it means to, the theorem states what it does instead, and the manifest lists it
  as a finding.

  \<^bold>\<open>Bounds and fuel.\<close>  Integers are words of the source's width where wrap-around matters.  Loops are
  structural recursion or have a termination proof.  Fuel remains where the code has a loop that may not
  end; the property then says how much is enough, or that no amount is (\<open>FakeDns.pick_ip\<close>, the breadth first construction of the automaton, the writer of a mux session, for which the number of bytes and buffers is enough).
  Copying, chunk readers and the loop of the mux server run as long as their reader delivers, and the perfect hash group searches for a
  seed until it has one: they are partial functions into \<open>option\<close>, where not returning is a value, and the theorems show that they return.

  \<^bold>\<open>Limits of the model.\<close>  \<open>strings.ToLower\<close> is modelled on ASCII, which host names and protocol names are in.  The goroutines that
  the mux server starts for the answers of a session are not interleaved with its reading loop.

  \<^bold>\<open>Not modelled\<close>: sockets, TLS and other cryptography (the key derivation and ciphers that the QUIC sniffer, Trojan and the identifiers use
  are arguments), protocol buffers and JSON configuration, gRPC services, command line tools, tests, and the remaining proxies and transports that only
  move data between the modelled parts and a library: VMess, Shadowsocks, SOCKS, HTTP, WebSocket, gRPC, REALITY, the DNS clients.
\<close>

end
